(* ===== verification/Gurl_Prelude.thy ===== *)
theory Gurl_Prelude
  imports Main "HOL-Library.Word" "HOL-Library.Char_ord"
begin

unbundle bit_operations_syntax

text \<open>
  Shared vocabulary of the development: C characters and character classes
  (\<^verbatim>\<open>lib/curl_ctype.h\<close>), the result codes of \<^verbatim>\<open>include/curl/curl.h\<close> that the modelled
  components return, the integer limits the sources use, and the generic lemmas on
  lists, characters and positional numerals that several components need.

  A C \<open>char\<close> or \<open>uint8_t\<close> is a HOL \<open>char\<close>, which is exactly eight bits.  A
  null-terminated string is the list of its bytes up to, and not including, the
  terminator; reading at or past the end of the list yields the terminator
  (\<open>peek\<close>).  A \<open>curl_off_t\<close> is an \<open>int\<close>, and the components state and prove
  the 64-bit bounds of the values they compute.
\<close>

named_theorems curl_defs \<open>definitions of the small helpers that proofs may unfold freely\<close>

type_synonym bytes = "char list"
type_synonym curl_off_t = int

section \<open>Limits\<close>

definition CURL_OFF_T_MAX :: curl_off_t where
  "CURL_OFF_T_MAX = 2 ^ 63 - 1"

definition SIZE_MAX :: nat where
  "SIZE_MAX = 2 ^ 64 - 1"

lemma CURL_OFF_T_MAX_pos [simp]: "0 < CURL_OFF_T_MAX" "0 \<le> CURL_OFF_T_MAX"
  by (simp_all add: CURL_OFF_T_MAX_def)

section \<open>Result codes\<close>

datatype CURLcode =
    CURLE_OK
  | CURLE_FAILED_INIT
  | CURLE_URL_MALFORMAT
  | CURLE_NOT_BUILT_IN
  | CURLE_COULDNT_CONNECT
  | CURLE_PARTIAL_FILE
  | CURLE_WRITE_ERROR
  | CURLE_READ_ERROR
  | CURLE_OUT_OF_MEMORY
  | CURLE_OPERATION_TIMEDOUT
  | CURLE_RANGE_ERROR
  | CURLE_ABORTED_BY_CALLBACK
  | CURLE_BAD_FUNCTION_ARGUMENT
  | CURLE_TOO_MANY_REDIRECTS
  | CURLE_SEND_ERROR
  | CURLE_RECV_ERROR
  | CURLE_BAD_CONTENT_ENCODING
  | CURLE_LOGIN_DENIED
  | CURLE_REMOTE_FILE_NOT_FOUND
  | CURLE_AGAIN
  | CURLE_NO_CONNECTION_AVAILABLE
  | CURLE_HTTP2_STREAM
  | CURLE_TOO_LARGE
  | CURLE_WEIRD_SERVER_REPLY

section \<open>Characters\<close>

abbreviation NUL :: char where "NUL \<equiv> CHR 0x00"
abbreviation LF :: char where "LF \<equiv> CHR 0x0A"
abbreviation CR :: char where "CR \<equiv> CHR 0x0D"
abbreviation TAB :: char where "TAB \<equiv> CHR 0x09"

abbreviation code_of :: "char \<Rightarrow> nat" where "code_of c \<equiv> of_char c"

definition peek :: "bytes \<Rightarrow> char" where
  "peek s = (case s of [] \<Rightarrow> NUL | c # _ \<Rightarrow> c)"

lemma peek_simps [simp]: "peek [] = NUL" "peek (c # s) = c"
  by (simp_all add: peek_def)

definition ISLOWER :: "char \<Rightarrow> bool" where
  "ISLOWER x \<longleftrightarrow> CHR ''a'' \<le> x \<and> x \<le> CHR ''z''"

definition ISUPPER :: "char \<Rightarrow> bool" where
  "ISUPPER x \<longleftrightarrow> CHR ''A'' \<le> x \<and> x \<le> CHR ''Z''"

definition ISALPHA :: "char \<Rightarrow> bool" where
  "ISALPHA x \<longleftrightarrow> ISLOWER x \<or> ISUPPER x"

definition ISDIGIT :: "char \<Rightarrow> bool" where
  "ISDIGIT x \<longleftrightarrow> CHR ''0'' \<le> x \<and> x \<le> CHR ''9''"

definition ISLOWHEXALPHA :: "char \<Rightarrow> bool" where
  "ISLOWHEXALPHA x \<longleftrightarrow> CHR ''a'' \<le> x \<and> x \<le> CHR ''f''"

definition ISUPHEXALPHA :: "char \<Rightarrow> bool" where
  "ISUPHEXALPHA x \<longleftrightarrow> CHR ''A'' \<le> x \<and> x \<le> CHR ''F''"

definition ISXDIGIT :: "char \<Rightarrow> bool" where
  "ISXDIGIT x \<longleftrightarrow> ISDIGIT x \<or> ISLOWHEXALPHA x \<or> ISUPHEXALPHA x"

definition ISALNUM :: "char \<Rightarrow> bool" where
  "ISALNUM x \<longleftrightarrow> ISDIGIT x \<or> ISLOWER x \<or> ISUPPER x"

definition ISBLANK :: "char \<Rightarrow> bool" where
  "ISBLANK x \<longleftrightarrow> x = CHR '' '' \<or> x = TAB"

definition ISURLPUNTCS :: "char \<Rightarrow> bool" where
  "ISURLPUNTCS x \<longleftrightarrow> x = CHR ''-'' \<or> x = CHR ''.'' \<or> x = CHR ''_'' \<or> x = CHR ''~''"

definition ISUNRESERVED :: "char \<Rightarrow> bool" where
  "ISUNRESERVED x \<longleftrightarrow> ISALNUM x \<or> ISURLPUNTCS x"

definition ISNEWLINE :: "char \<Rightarrow> bool" where
  "ISNEWLINE x \<longleftrightarrow> x = LF \<or> x = CR"

lemmas ctype_defs =
  ISLOWER_def ISUPPER_def ISDIGIT_def ISLOWHEXALPHA_def ISUPHEXALPHA_def ISXDIGIT_def
  ISALNUM_def ISBLANK_def ISURLPUNTCS_def ISUNRESERVED_def ISNEWLINE_def

lemma not_ISBLANK_NUL [simp]: "\<not> ISBLANK NUL"
  by (simp add: ISBLANK_def)

lemma not_ISNEWLINE_NUL [simp]: "\<not> ISNEWLINE NUL"
  by (simp add: ISNEWLINE_def)

text \<open>
  The character classes as intervals of byte codes, so that linear arithmetic decides
  questions about them.
\<close>

lemma char_le_code: "c \<le> d \<longleftrightarrow> code_of c \<le> code_of d" for c d :: char
  by (simp add: less_eq_char_def)

lemma ISDIGIT_code: "ISDIGIT c \<longleftrightarrow> 48 \<le> code_of c \<and> code_of c \<le> 57"
  by (simp add: ISDIGIT_def char_le_code)

lemma ISXDIGIT_code:
  "ISXDIGIT c \<longleftrightarrow> 48 \<le> code_of c \<and> code_of c \<le> 57
     \<or> 97 \<le> code_of c \<and> code_of c \<le> 102 \<or> 65 \<le> code_of c \<and> code_of c \<le> 70"
  by (simp add: ctype_defs char_le_code)

lemma code_of_less [simp]: "code_of c < 256"
  by simp

lemma code_of_eq_0 [simp]: "code_of c = 0 \<longleftrightarrow> c = NUL"
proof
  assume "code_of c = 0"
  then have "code_of c = code_of NUL" by simp
  then show "c = NUL" by (simp only: of_char_eq_iff)
qed simp

section \<open>Lists\<close>

lemma takeWhile_dropWhile_length:
  "length (takeWhile P xs) + length (dropWhile P xs) = length xs"
  by (metis length_append takeWhile_dropWhile_id)

lemma take_length_takeWhile [simp]: "take (length (takeWhile P xs)) xs = takeWhile P xs"
  by (metis takeWhile_eq_take)

lemma drop_length_takeWhile [simp]: "drop (length (takeWhile P xs)) xs = dropWhile P xs"
  by (metis dropWhile_eq_drop)

section \<open>Bit fields of natural numbers\<close>

lemma push_or: "y < 2 ^ k \<Longrightarrow> push_bit k x OR y = x * 2 ^ k + y" for x y :: nat
proof -
  assume y: "y < 2 ^ k"
  have "push_bit k x + y = push_bit k x OR y"
  proof (rule disjunctive_add)
    fix n show "\<not> bit (push_bit k x) n \<or> \<not> bit y n"
    proof (cases "k \<le> n")
      case True
      then have "y < 2 ^ n" using y by (meson order.strict_trans2 one_le_numeral power_increasing)
      then show ?thesis by (simp add: bit_nat_def)
    qed (simp add: bit_push_bit_iff)
  qed
  then show ?thesis by (simp add: push_bit_eq_mult)
qed

lemma and_mask_mod: "a AND (2 ^ k - 1) = a mod 2 ^ k" for a :: nat
  by (simp add: take_bit_eq_mask mask_eq_exp_minus_1 flip: take_bit_eq_mod)

lemma and_masks:
  "a AND 0x03 = a mod 4" "a AND 0x0F = a mod 16" "a AND 0x3F = a mod 64" "a AND 0xFF = a mod 256" for a :: nat
  using and_mask_mod [of a 2] and_mask_mod [of a 4] and_mask_mod [of a 6] and_mask_mod [of a 8]
  by simp_all

section \<open>Positional numerals\<close>

text \<open>
  \<open>horner b ds\<close> is the value of the digit sequence \<open>ds\<close>, most significant
  first, in base \<open>b\<close>: the reference against which number parsers and printers are
  proved.
\<close>

definition horner :: "int \<Rightarrow> int list \<Rightarrow> int" where
  "horner b ds = foldl (\<lambda>acc d. acc * b + d) 0 ds"

lemma horner_Nil [simp]: "horner b [] = 0"
  by (simp add: horner_def)

lemma horner_snoc [simp]: "horner b (ds @ [d]) = horner b ds * b + d"
  by (simp add: horner_def)

lemma foldl_horner_shift:
  "foldl (\<lambda>acc d. acc * b + d) a ds = a * b ^ length ds + horner b ds"
proof (induction ds rule: rev_induct)
  case Nil
  then show ?case by simp
next
  case (snoc d ds)
  then show ?case by (simp add: algebra_simps)
qed

lemma horner_Cons: "horner b (d # ds) = d * b ^ length ds + horner b ds"
  using foldl_horner_shift [of b d ds] by (simp add: horner_def)

lemma horner_nonneg: "0 \<le> b \<Longrightarrow> \<forall>d\<in>set ds. 0 \<le> d \<Longrightarrow> 0 \<le> horner b ds"
  by (induction ds rule: rev_induct) auto

lemma foldl_horner_ge:
  assumes "1 \<le> b" and "0 \<le> a" and "\<forall>d\<in>set ds. 0 \<le> (d::int)"
  shows "a \<le> foldl (\<lambda>acc d. acc * b + d) a ds"
proof -
  have "1 \<le> b ^ length ds" using assms(1) by simp
  then have "a * 1 \<le> a * b ^ length ds"
    using assms(2) by (rule mult_left_mono)
  moreover have "0 \<le> horner b ds" using assms by (intro horner_nonneg) auto
  ultimately show ?thesis by (simp add: foldl_horner_shift)
qed

end
