(* ===== verification/Strparse.thy ===== *)
theory Strparse
  imports Gurl_Prelude
begin

text \<open>
  The string parser of \<^verbatim>\<open>lib/curlx/strparse.c\<close>: words, quoted words, single bytes and
  numbers in base 8, 10 and 16 with overflow detection.

  A \<open>const char **linep\<close> argument is the rest of the line; a function returns its
  \<open>STRE_*\<close> code, the advanced line and what it stores through its output
  pointers.  A \<open>struct Curl_str\<close> keeps the pointer as the bytes it addresses
  (\<open>cs_str\<close>) and the length (\<open>cs_len\<close>); the string it denotes is \<open>str_of\<close>.
  The NULL pointer is the empty byte list: every dereference in the file is guarded by
  \<open>cs_len\<close>.
\<close>

datatype stre =
    STRE_OK | STRE_BIG | STRE_SHORT | STRE_BEGQUOTE | STRE_ENDQUOTE | STRE_BYTE
  | STRE_NEWLINE | STRE_OVERFLOW | STRE_NO_NUM

record Curl_str =
  cs_str :: bytes
  cs_len :: nat

definition str_of :: "Curl_str \<Rightarrow> bytes" where
  "str_of s = take (cs_len s) (cs_str s)"

definition curlx_str_init :: Curl_str where
  "curlx_str_init = \<lparr>cs_str = [], cs_len = 0\<rparr>"

definition curlx_str_assign :: "bytes \<Rightarrow> nat \<Rightarrow> Curl_str" where
  "curlx_str_assign p n = \<lparr>cs_str = p, cs_len = n\<rparr>"

definition curlx_str_trim :: "Curl_str \<Rightarrow> nat \<Rightarrow> Curl_str" where
  "curlx_str_trim out n = out\<lparr>cs_len := cs_len out - n\<rparr>"

section \<open>Words\<close>

text \<open>
  The scanning loop of \<open>curlx_str_until\<close> and \<open>curlx_str_untilnl\<close>: \<open>Inl\<close> is
  the early return \<open>STRE_BIG\<close>, \<open>Inr\<close> the position and length at loop exit.
\<close>

fun until_loop :: "(char \<Rightarrow> bool) \<Rightarrow> nat \<Rightarrow> bytes \<Rightarrow> nat \<Rightarrow> stre + (bytes \<times> nat)" where
  "until_loop stop mx [] n = Inr ([], n)"
| "until_loop stop mx (c # s) n =
     (if c \<noteq> NUL \<and> \<not> stop c
      then (if Suc n > mx then Inl STRE_BIG else until_loop stop mx s (Suc n))
      else Inr (c # s, n))"

definition str_until_gen ::
  "(char \<Rightarrow> bool) \<Rightarrow> bytes \<Rightarrow> nat \<Rightarrow> stre \<times> bytes \<times> Curl_str" where
  "str_until_gen stop line mx =
     (case until_loop stop mx line 0 of
        Inl e \<Rightarrow> (e, line, curlx_str_init)
      | Inr (s, n) \<Rightarrow>
          (if n = 0 then (STRE_SHORT, line, curlx_str_init)
           else (STRE_OK, s, \<lparr>cs_str = line, cs_len = n\<rparr>)))"

definition curlx_str_until :: "bytes \<Rightarrow> nat \<Rightarrow> char \<Rightarrow> stre \<times> bytes \<times> Curl_str" where
  "curlx_str_until line mx delim = str_until_gen (\<lambda>c. c = delim) line mx"

definition curlx_str_word :: "bytes \<Rightarrow> nat \<Rightarrow> stre \<times> bytes \<times> Curl_str" where
  "curlx_str_word line mx = curlx_str_until line mx (CHR '' '')"

definition curlx_str_untilnl :: "bytes \<Rightarrow> nat \<Rightarrow> stre \<times> bytes \<times> Curl_str" where
  "curlx_str_untilnl line mx = str_until_gen ISNEWLINE line mx"

text \<open>The loop of \<open>curlx_str_quotedword\<close>, entered after the opening quote.\<close>

fun quoted_loop :: "nat \<Rightarrow> bytes \<Rightarrow> nat \<Rightarrow> stre + (bytes \<times> nat)" where
  "quoted_loop mx [] n = Inr ([], n)"
| "quoted_loop mx (c # s) n =
     (if c \<noteq> NUL \<and> c \<noteq> CHR 0x22
      then (if c = CHR 0x5C \<and> peek s \<noteq> NUL
            then (if Suc n > mx then Inl STRE_BIG
                  else if Suc (Suc n) > mx then Inl STRE_BIG
                  else quoted_loop mx (tl s) (Suc (Suc n)))
            else (if Suc n > mx then Inl STRE_BIG else quoted_loop mx s (Suc n)))
      else Inr (c # s, n))"

definition curlx_str_quotedword :: "bytes \<Rightarrow> nat \<Rightarrow> stre \<times> bytes \<times> Curl_str" where
  "curlx_str_quotedword line mx =
     (if peek line \<noteq> CHR 0x22 then (STRE_BEGQUOTE, line, curlx_str_init)
      else case quoted_loop mx (tl line) 0 of
        Inl e \<Rightarrow> (e, line, curlx_str_init)
      | Inr (s, n) \<Rightarrow>
          (if peek s \<noteq> CHR 0x22 then (STRE_ENDQUOTE, line, curlx_str_init)
           else (STRE_OK, tl s, \<lparr>cs_str = tl line, cs_len = n\<rparr>)))"

definition curlx_str_single :: "bytes \<Rightarrow> char \<Rightarrow> stre \<times> bytes" where
  "curlx_str_single line byte =
     (if peek line \<noteq> byte then (STRE_BYTE, line) else (STRE_OK, tl line))"

definition curlx_str_singlespace :: "bytes \<Rightarrow> stre \<times> bytes" where
  "curlx_str_singlespace line = curlx_str_single line (CHR '' '')"

section \<open>Numbers\<close>

definition curlx_hexasciitable :: "nat list" where
  "curlx_hexasciitable =
     [16, 1, 2, 3, 4, 5, 6, 7, 8, 9,
      0, 0, 0, 0, 0, 0, 0,
      10, 11, 12, 13, 14, 15,
      0, 0, 0, 0, 0, 0, 0, 0, 0, 0, 0, 0, 0, 0, 0, 0, 0, 0, 0, 0, 0, 0, 0, 0, 0, 0,
      10, 11, 12, 13, 14, 15]"

definition valid_digit :: "char \<Rightarrow> char \<Rightarrow> bool" where
  "valid_digit x m \<longleftrightarrow> CHR ''0'' \<le> x \<and> x \<le> m
     \<and> curlx_hexasciitable ! (code_of x - code_of (CHR ''0'')) \<noteq> 0"

text \<open>The mask \<open>& 0x0f\<close> of the macro \<open>curlx_hexval\<close> is \<open>mod 16\<close>.\<close>

definition curlx_hexval :: "char \<Rightarrow> int" where
  "curlx_hexval x = int (curlx_hexasciitable ! (code_of x - code_of (CHR ''0'')) mod 16)"

text \<open>
  The two digit loops of \<open>str_num_base\<close>.  Each is a do-while loop entered with a valid
  first digit; \<open>None\<close> is the early return \<open>STRE_OVERFLOW\<close>.
\<close>

fun num_loop_low :: "char \<Rightarrow> int \<Rightarrow> int \<Rightarrow> bytes \<Rightarrow> int \<Rightarrow> (int \<times> bytes) option" where
  "num_loop_low m base mx [] num = Some (num, [])"
| "num_loop_low m base mx (c # p) num =
     (if valid_digit c m
      then (let num' = num * base + curlx_hexval c in
            if num' > mx then None else num_loop_low m base mx p num')
      else Some (num, c # p))"

fun num_loop :: "char \<Rightarrow> int \<Rightarrow> int \<Rightarrow> bytes \<Rightarrow> int \<Rightarrow> (int \<times> bytes) option" where
  "num_loop m base mx [] num = Some (num, [])"
| "num_loop m base mx (c # p) num =
     (if valid_digit c m
      then (let n = curlx_hexval c in
            if num > (mx - n) div base then None
            else num_loop m base mx p (num * base + n))
      else Some (num, c # p))"

definition max_digit :: "int \<Rightarrow> char" where
  "max_digit base = (if base = 10 then CHR ''9'' else if base = 16 then CHR ''f'' else CHR ''7'')"

definition str_num_base ::
  "bytes \<Rightarrow> curl_off_t \<Rightarrow> int \<Rightarrow> stre \<times> bytes \<times> curl_off_t" where
  "str_num_base line mx base =
     (let m = max_digit base in
      if \<not> valid_digit (peek line) m then (STRE_NO_NUM, line, 0)
      else case (if mx < base then num_loop_low m base mx line 0
                 else num_loop m base mx line 0) of
             None \<Rightarrow> (STRE_OVERFLOW, line, 0)
           | Some (num, p) \<Rightarrow> (STRE_OK, p, num))"

definition curlx_str_number :: "bytes \<Rightarrow> curl_off_t \<Rightarrow> stre \<times> bytes \<times> curl_off_t" where
  "curlx_str_number line mx = str_num_base line mx 10"

definition curlx_str_hex :: "bytes \<Rightarrow> curl_off_t \<Rightarrow> stre \<times> bytes \<times> curl_off_t" where
  "curlx_str_hex line mx = str_num_base line mx 16"

definition curlx_str_octal :: "bytes \<Rightarrow> curl_off_t \<Rightarrow> stre \<times> bytes \<times> curl_off_t" where
  "curlx_str_octal line mx = str_num_base line mx 8"

fun curlx_str_passblanks :: "bytes \<Rightarrow> bytes" where
  "curlx_str_passblanks [] = []"
| "curlx_str_passblanks (c # s) = (if ISBLANK c then curlx_str_passblanks s else c # s)"

definition curlx_str_numblanks :: "bytes \<Rightarrow> stre \<times> bytes \<times> curl_off_t" where
  "curlx_str_numblanks s = curlx_str_number (curlx_str_passblanks s) CURL_OFF_T_MAX"

definition curlx_str_newline :: "bytes \<Rightarrow> stre \<times> bytes" where
  "curlx_str_newline line =
     (if ISNEWLINE (peek line) then (STRE_OK, tl line) else (STRE_NEWLINE, line))"

section \<open>Operations on a parsed string\<close>

definition curlx_str_cmp :: "Curl_str \<Rightarrow> bytes option \<Rightarrow> bool" where
  "curlx_str_cmp s check =
     (case check of
        Some c \<Rightarrow> cs_len s = length c \<and> take (length c) (cs_str s) = c
      | None \<Rightarrow> cs_len s \<noteq> 0)"

definition curlx_str_nudge :: "Curl_str \<Rightarrow> nat \<Rightarrow> stre \<times> Curl_str" where
  "curlx_str_nudge s num =
     (if num \<le> cs_len s then (STRE_OK, \<lparr>cs_str = drop num (cs_str s), cs_len = cs_len s - num\<rparr>)
      else (STRE_OVERFLOW, s))"

definition curlx_str_cspn :: "bytes \<Rightarrow> bytes \<Rightarrow> stre \<times> bytes \<times> Curl_str" where
  "curlx_str_cspn line reject =
     (let n = length (takeWhile (\<lambda>c. c \<noteq> NUL \<and> c \<notin> set reject) line) in
      if n \<noteq> 0 then (STRE_OK, drop n line, \<lparr>cs_str = line, cs_len = n\<rparr>)
      else (STRE_SHORT, line, curlx_str_init))"

function trim_front :: "Curl_str \<Rightarrow> Curl_str" where
  "trim_front out =
     (if cs_len out \<noteq> 0 \<and> ISBLANK (peek (cs_str out))
      then trim_front (snd (curlx_str_nudge out 1)) else out)"
  by pat_completeness auto
termination
  by (relation "measure cs_len") (auto simp: curlx_str_nudge_def)

function trim_back :: "Curl_str \<Rightarrow> Curl_str" where
  "trim_back out =
     (if cs_len out \<noteq> 0 \<and> ISBLANK (cs_str out ! (cs_len out - 1))
      then trim_back (out\<lparr>cs_len := cs_len out - 1\<rparr>) else out)"
  by pat_completeness auto
termination
  by (relation "measure cs_len") auto

definition curlx_str_trimblanks :: "Curl_str \<Rightarrow> Curl_str" where
  "curlx_str_trimblanks out = trim_back (trim_front out)"

declare trim_front.simps [simp del] trim_back.simps [simp del]

section \<open>Words: what the parser accepts\<close>

abbreviation word_char :: "(char \<Rightarrow> bool) \<Rightarrow> char \<Rightarrow> bool" where
  "word_char stop c \<equiv> c \<noteq> NUL \<and> \<not> stop c"

lemma until_loop_eq:
  "until_loop stop mx s n =
     (let w = takeWhile (word_char stop) s in
      if w \<noteq> [] \<and> n + length w > mx then Inl STRE_BIG
      else Inr (dropWhile (word_char stop) s, n + length w))"
  by (induction stop mx s n rule: until_loop.induct) (auto simp: Let_def)

lemma str_until_gen_eq:
  "str_until_gen stop line mx =
     (let w = takeWhile (word_char stop) line in
      if length w > mx then (STRE_BIG, line, curlx_str_init)
      else if w = [] then (STRE_SHORT, line, curlx_str_init)
      else (STRE_OK, dropWhile (word_char stop) line, \<lparr>cs_str = line, cs_len = length w\<rparr>))"
  by (auto simp: str_until_gen_def until_loop_eq Let_def)

lemma str_until_gen_OK:
  assumes "str_until_gen stop line mx = (STRE_OK, rest, out)"
  shows "line = str_of out @ rest" and "str_of out = takeWhile (word_char stop) line"
    and "str_of out \<noteq> []" and "length (str_of out) \<le> mx"
    and "rest = dropWhile (word_char stop) line"
  using assms by (auto simp: str_until_gen_eq str_of_def Let_def split: if_splits)

text \<open>
  The quoted-word loop consumes exactly the bytes it counts, so the slice handed out lies
  between the two quotes.
\<close>

lemma quoted_loop_consumes:
  "quoted_loop mx s n = Inr (s', n') \<Longrightarrow>
     n \<le> n' \<and> s' = drop (n' - n) s \<and> n' - n \<le> length s \<and> (n \<le> mx \<longrightarrow> n' \<le> mx)"
proof (induction mx s n arbitrary: s' n' rule: quoted_loop.induct)
  case (1 mx n)
  then show ?case by simp
next
  case (2 mx c s n)
  consider (stop) "c = NUL \<or> c = CHR 0x22"
    | (esc) "c \<noteq> NUL" "c \<noteq> CHR 0x22" "c = CHR 0x5C" "peek s \<noteq> NUL"
    | (plain) "c \<noteq> NUL" "c \<noteq> CHR 0x22" "\<not> (c = CHR 0x5C \<and> peek s \<noteq> NUL)"
    by blast
  then show ?case
  proof cases
    case stop
    with 2 show ?thesis by auto
  next
    case esc
    then obtain d t where s: "s = d # t" by (cases s) auto
    from esc 2 have lim: "Suc (Suc n) \<le> mx"
      and run: "quoted_loop mx (tl s) (Suc (Suc n)) = Inr (s', n')"
      by (auto split: if_splits)
    have "Suc (Suc n) \<le> n' \<and> s' = drop (n' - Suc (Suc n)) (tl s)
      \<and> n' - Suc (Suc n) \<le> length (tl s) \<and> (Suc (Suc n) \<le> mx \<longrightarrow> n' \<le> mx)"
      using esc lim run by (intro "2.IH"(1)) auto
    then show ?thesis using lim s
      by (auto simp: drop_Cons' Suc_diff_Suc numeral_2_eq_2 split: nat.splits)
  next
    case plain
    with 2 have lim: "Suc n \<le> mx" and run: "quoted_loop mx s (Suc n) = Inr (s', n')"
      by (auto split: if_splits)
    have "Suc n \<le> n' \<and> s' = drop (n' - Suc n) s \<and> n' - Suc n \<le> length s
      \<and> (Suc n \<le> mx \<longrightarrow> n' \<le> mx)"
      using plain lim run by (intro "2.IH"(2)) auto
    then show ?thesis using lim
      by (auto simp: drop_Cons' Suc_diff_Suc split: nat.splits)
  qed
qed

lemma quoted_loop_error: "quoted_loop mx s n = Inl e \<Longrightarrow> e = STRE_BIG"
  by (induction mx s n rule: quoted_loop.induct) (auto split: if_splits)

lemma curlx_str_quotedword_OK:
  assumes "curlx_str_quotedword line mx = (STRE_OK, rest, out)"
  shows "line = CHR 0x22 # str_of out @ CHR 0x22 # rest \<and> length (str_of out) \<le> mx"
proof -
  from assms have q: "peek line = CHR 0x22"
    by (auto simp: curlx_str_quotedword_def split: if_splits)
  then obtain l where line: "line = CHR 0x22 # l" by (cases line) auto
  from assms q obtain s n where loop: "quoted_loop mx l 0 = Inr (s, n)"
    and close: "peek s = CHR 0x22" and rest: "rest = tl s" and out: "out = \<lparr>cs_str = l, cs_len = n\<rparr>"
    by (auto simp: curlx_str_quotedword_def line split: sum.splits if_splits
        dest: quoted_loop_error)
  from close have s: "s = CHR 0x22 # rest" using rest by (cases s) auto
  from quoted_loop_consumes [OF loop] have "s = drop n l" "n \<le> length l" "n \<le> mx" by auto
  then have "l = str_of out @ s" and "length (str_of out) \<le> mx"
    by (simp_all add: out str_of_def)
  with s line show ?thesis by simp
qed

section \<open>Numbers: the overflow checks are exact\<close>

lemma hexasciitable_nonzero:
  "k < 55 \<longrightarrow> (curlx_hexasciitable ! k \<noteq> 0 \<longleftrightarrow> k \<le> 9 \<or> 17 \<le> k \<and> k \<le> 22 \<or> 49 \<le> k)"
proof -
  have "list_all (\<lambda>k. curlx_hexasciitable ! k \<noteq> 0 \<longleftrightarrow>
      k \<le> 9 \<or> 17 \<le> k \<and> k \<le> 22 \<or> 49 \<le> k) [0..<55]"
    by code_simp
  then show ?thesis by (simp add: list_all_iff)
qed

lemma valid_digit_hex: "valid_digit c (CHR ''f'') \<longleftrightarrow> ISXDIGIT c"
  using hexasciitable_nonzero [of "code_of c - 48"]
  by (auto simp: valid_digit_def char_le_code ISXDIGIT_code)

lemma valid_digit_dec: "valid_digit c (CHR ''9'') \<longleftrightarrow> ISDIGIT c"
  using hexasciitable_nonzero [of "code_of c - 48"]
  by (auto simp: valid_digit_def char_le_code ISDIGIT_code)

lemma valid_digit_oct: "valid_digit c (CHR ''7'') \<longleftrightarrow> 48 \<le> code_of c \<and> code_of c \<le> 55"
  using hexasciitable_nonzero [of "code_of c - 48"]
  by (auto simp: valid_digit_def char_le_code)

lemma hexval_table:
  "k < 55 \<longrightarrow> curlx_hexasciitable ! k \<noteq> 0 \<longrightarrow>
     curlx_hexasciitable ! k mod 16 = (if k \<le> 9 then k else if k \<le> 22 then k - 7 else k - 39)"
proof -
  have "list_all (\<lambda>k. curlx_hexasciitable ! k \<noteq> 0 \<longrightarrow> curlx_hexasciitable ! k mod 16
      = (if k \<le> 9 then k else if k \<le> 22 then k - 7 else k - 39)) [0..<55]"
    by code_simp
  then show ?thesis by (simp add: list_all_iff)
qed

lemma hexval_xdigit:
  assumes "ISXDIGIT c"
  shows "curlx_hexval c = (if code_of c \<le> 57 then int (code_of c) - 48
     else if code_of c \<le> 70 then int (code_of c) - 55 else int (code_of c) - 87)"
proof -
  define k where "k = code_of c - 48"
  have c: "code_of c = k + 48" and k: "k \<le> 9 \<or> 17 \<le> k \<and> k \<le> 22 \<or> 49 \<le> k \<and> k \<le> 54"
    using assms by (auto simp: ISXDIGIT_code k_def)
  then have "curlx_hexasciitable ! k mod 16 = (if k \<le> 9 then k else if k \<le> 22 then k - 7 else k - 39)"
    using hexasciitable_nonzero [of k] hexval_table [of k] by fastforce
  then show ?thesis using k by (auto simp: curlx_hexval_def c)
qed

definition num_base :: "int \<Rightarrow> bool" where
  "num_base base \<longleftrightarrow> base = 8 \<or> base = 10 \<or> base = 16"

lemma valid_digit_bounds:
  assumes "num_base base" and "valid_digit c (max_digit base)"
  shows "0 \<le> curlx_hexval c \<and> curlx_hexval c < base"
  using assms hexval_xdigit [of c]
  by (auto simp: num_base_def max_digit_def valid_digit_hex valid_digit_dec valid_digit_oct
      ISDIGIT_code ISXDIGIT_code split: if_splits)

lemma not_valid_digit_NUL [simp]: "\<not> valid_digit NUL m"
  by (simp add: valid_digit_def char_le_code)

abbreviation digits :: "int \<Rightarrow> bytes \<Rightarrow> bytes" where
  "digits base line \<equiv> takeWhile (\<lambda>c. valid_digit c (max_digit base)) line"

definition num_value :: "int \<Rightarrow> bytes \<Rightarrow> int" where
  "num_value base ds = horner base (map curlx_hexval ds)"

text \<open>
  One step of either loop: the accumulated value exceeds \<open>max\<close> exactly when the check
  of the C code fires, so the loops agree with computing the value first.
\<close>

lemma overflow_check:
  assumes "num_base base"
  shows "num > (mx - n) div base \<longleftrightarrow> num * base + n > (mx::int)"
proof -
  have b: "0 < base" using assms by (auto simp: num_base_def)
  have "(mx - n) div base < num \<longleftrightarrow> mx - n < num * base"
  proof
    assume "(mx - n) div base < num"
    then have "((mx - n) div base + 1) * base \<le> num * base"
      using b by (intro mult_right_mono) auto
    then have "(mx - n) div base * base + base \<le> num * base" by (simp add: distrib_right)
    then show "mx - n < num * base"
      using pos_mod_bound [OF b, of "mx - n"] div_mult_mod_eq [of "mx - n" base] by linarith
  next
    assume less: "mx - n < num * base"
    show "(mx - n) div base < num"
    proof (rule ccontr)
      assume "\<not> ?thesis"
      then have "num * base \<le> (mx - n) div base * base"
        using b by (intro mult_right_mono) auto
      with less show False
        using pos_mod_sign [OF b, of "mx - n"] div_mult_mod_eq [of "mx - n" base] by linarith
    qed
  qed
  then show ?thesis by linarith
qed

lemma num_loop_eq_low:
  "num_base base \<Longrightarrow> num_loop m base mx p num = num_loop_low m base mx p num"
  by (induction p arbitrary: num) (simp_all add: overflow_check Let_def)

lemma num_loop_low_eq:
  assumes "num_base base" and "0 \<le> num" and "num \<le> mx"
  shows "num_loop_low (max_digit base) base mx p num =
     (let v = foldl (\<lambda>acc d. acc * base + d) num (map curlx_hexval (digits base p)) in
      if v \<le> mx then Some (v, dropWhile (\<lambda>c. valid_digit c (max_digit base)) p) else None)"
  using assms(2,3)
proof (induction p arbitrary: num)
  case Nil
  then show ?case by simp
next
  case (Cons c p)
  show ?case
  proof (cases "valid_digit c (max_digit base)")
    case True
    let ?num = "num * base + curlx_hexval c"
    have b: "1 \<le> base" using assms(1) by (auto simp: num_base_def)
    have d: "\<forall>d\<in>set (map curlx_hexval (digits base p)). 0 \<le> d"
      using valid_digit_bounds [OF assms(1)] by (auto dest!: set_takeWhileD)
    have pos: "0 \<le> ?num" using Cons.prems b valid_digit_bounds [OF assms(1) True] by simp
    have "?num \<le> foldl (\<lambda>acc d. acc * base + d) ?num (map curlx_hexval (digits base p))"
      using b pos d by (rule foldl_horner_ge)
    with True Cons.IH [of ?num] pos show ?thesis by (auto simp: Let_def)
  next
    case False
    with Cons.prems show ?thesis by simp
  qed
qed

lemma str_num_base_eq:
  assumes "num_base base" and "0 \<le> mx"
  shows "str_num_base line mx base =
     (let ds = digits base line in
      if ds = [] then (STRE_NO_NUM, line, 0)
      else if num_value base ds \<le> mx
      then (STRE_OK, dropWhile (\<lambda>c. valid_digit c (max_digit base)) line, num_value base ds)
      else (STRE_OVERFLOW, line, 0))"
proof -
  have "valid_digit (peek line) (max_digit base) \<longleftrightarrow> digits base line \<noteq> []"
    by (cases line) auto
  then show ?thesis
    using num_loop_low_eq [OF assms(1) order_refl assms(2)]
    by (auto simp: str_num_base_def num_loop_eq_low [OF assms(1)] num_value_def horner_def Let_def)
qed

section \<open>Trimming\<close>

lemma trim_front_str:
  "cs_len s \<le> length (cs_str s) \<Longrightarrow>
     str_of (trim_front s) = dropWhile ISBLANK (str_of s)
     \<and> cs_len (trim_front s) \<le> length (cs_str (trim_front s))"
proof (induction s rule: trim_front.induct)
  case (1 out)
  show ?case
  proof (cases "cs_len out \<noteq> 0 \<and> ISBLANK (peek (cs_str out))")
    case True
    then obtain c t n where o: "cs_str out = c # t" "cs_len out = Suc n"
      using 1(2) by (cases "cs_str out"; cases "cs_len out") auto
    let ?out' = "snd (curlx_str_nudge out 1)"
    have "cs_str ?out' = t" "cs_len ?out' = n" by (simp_all add: curlx_str_nudge_def o)
    with 1 True o show ?thesis by (simp add: trim_front.simps [of out] str_of_def)
  next
    case False
    then have "dropWhile ISBLANK (str_of out) = str_of out"
      by (cases "cs_str out"; cases "cs_len out") (auto simp: str_of_def)
    with False 1(2) show ?thesis by (auto simp: trim_front.simps [of out])
  qed
qed

lemma trim_back_str:
  "cs_len s \<le> length (cs_str s) \<Longrightarrow>
     str_of (trim_back s) = rev (dropWhile ISBLANK (rev (str_of s)))"
proof (induction s rule: trim_back.induct)
  case (1 out)
  show ?case
  proof (cases "cs_len out = 0")
    case True
    then show ?thesis by (simp add: trim_back.simps [of out] str_of_def)
  next
    case False
    then obtain n where n: "cs_len out = Suc n" by (cases "cs_len out") auto
    then have "str_of out = take n (cs_str out) @ [cs_str out ! n]"
      using 1(2) by (simp add: str_of_def take_Suc_conv_app_nth)
    then show ?thesis using 1 n
      by (auto simp: trim_back.simps [of out] str_of_def)
  qed
qed

section \<open>Properties\<close>

text \<open>
  The number parser is exact in base 8, 10 and 16.  It takes the longest run of digits,
  returns their value when that value is at most the caller's maximum, reports overflow
  otherwise, and reports a missing number when there is no digit; the division-based check
  inside the loop never accepts a number that is too large and never refuses one that fits.
\<close>

lemma str_num_base_exact:
  assumes "base = 8 \<or> base = 10 \<or> base = 16" and "0 \<le> mx"
  shows "str_num_base line mx base =
     (let ds = takeWhile (\<lambda>c. valid_digit c (max_digit base)) line in
      if ds = [] then (STRE_NO_NUM, line, 0)
      else if foldl (\<lambda>n c. n * base + curlx_hexval c) 0 ds \<le> mx
      then (STRE_OK, drop (length ds) line, foldl (\<lambda>n c. n * base + curlx_hexval c) 0 ds)
      else (STRE_OVERFLOW, line, 0))"
proof -
  have v: "num_value base ds = foldl (\<lambda>n c. n * base + curlx_hexval c) 0 ds" for ds
    by (simp add: num_value_def horner_def foldl_map)
  have "num_base base" using assms(1) by (simp add: num_base_def)
  from str_num_base_eq [OF this assms(2)] show ?thesis
    unfolding Let_def v dropWhile_eq_drop .
qed

text \<open>
  A quoted word that is accepted lies between two double quotes of the line, is no longer
  than the maximum, and the line continues right after the closing quote.
\<close>

lemma quotedword_between_quotes:
  assumes "curlx_str_quotedword line mx = (STRE_OK, rest, out)"
  shows "line = CHR 0x22 # str_of out @ CHR 0x22 # rest \<and> length (str_of out) \<le> mx"
  using curlx_str_quotedword_OK [OF assms] .

text \<open>
  Trimming removes exactly the blanks at both ends of a parsed string.
\<close>

lemma trimblanks_exact:
  assumes "cs_len s \<le> length (cs_str s)"
  shows "str_of (curlx_str_trimblanks s)
    = rev (dropWhile ISBLANK (rev (dropWhile ISBLANK (str_of s))))"
  using trim_front_str [OF assms] trim_back_str [of "trim_front s"]
  by (simp add: curlx_str_trimblanks_def)

end
