(* ===== verification/Mprintf.thy ===== *)
theory Mprintf
  imports Strparse
begin

text \<open>
  The number and string conversions of \<^verbatim>\<open>lib/mprintf.c\<close> (\<open>out_number\<close>,
  \<open>out_string\<close>) and the bounded output stream of \<open>curl_mvsnprintf\<close>.

  A conversion sends its bytes one at a time to a \<open>stream\<close> callback and stops at the
  first byte the callback refuses.  \<open>out_number\<close> and \<open>out_string\<close> are therefore
  modelled by the bytes they offer to the stream, and \<open>stream_bytes\<close> by what a stream
  of limited room accepts of them.  The flag word is the set of its bits.
\<close>

definition BUFFSIZE :: int where "BUFFSIZE = 326"

definition Curl_ldigits :: bytes where "Curl_ldigits = ''0123456789abcdef''"

definition Curl_udigits :: bytes where "Curl_udigits = ''0123456789ABCDEF''"

datatype mflag =
    FLAGS_SPACE | FLAGS_SHOWSIGN | FLAGS_LEFT | FLAGS_ALT | FLAGS_SHORT | FLAGS_LONG
  | FLAGS_LONGLONG | FLAGS_LONGDOUBLE | FLAGS_PAD_NIL | FLAGS_UNSIGNED | FLAGS_OCTAL
  | FLAGS_HEX | FLAGS_UPPER | FLAGS_WIDTH | FLAGS_WIDTHPARAM | FLAGS_PREC
  | FLAGS_PRECPARAM | FLAGS_CHAR | FLAGS_FLOATE | FLAGS_FLOATG | FLAGS_SUBSTR

record mproperty =
  mp_width :: int
  mp_prec :: int
  mp_flags :: "mflag set"

text \<open>The loop \<open>while(width-- > 0) OUTCHAR(c)\<close>.\<close>

definition pad :: "char \<Rightarrow> int \<Rightarrow> bytes" where
  "pad c w = replicate (nat w) c"

section \<open>Digits\<close>

text \<open>
  The two digit loops fill the work buffer from its end, so each digit is put in front of
  the ones already there.  \<open>num\<close> is a \<open>uint64_t\<close>.
\<close>

fun dec_loop :: "nat \<Rightarrow> bytes \<Rightarrow> bytes" where
  "dec_loop num w =
     (if num > 0 then dec_loop (num div 10) (char_of (code_of (CHR ''0'') + num mod 10) # w)
      else w)"

function base_loop :: "bytes \<Rightarrow> nat \<Rightarrow> nat \<Rightarrow> bytes \<Rightarrow> bytes" where
  "base_loop ds base num w =
     (if num > 0 \<and> 1 < base then base_loop ds base (num div base) (ds ! (num mod base) # w)
      else w)"
  by pat_completeness auto
termination
  by (relation "measure (\<lambda>(ds, base, num, w). num)") auto

declare dec_loop.simps [simp del] base_loop.simps [simp del]

text \<open>
  The conversion of a negative \<open>int64_t\<close> to its magnitude, through
  \<open>-(nums + 1)\<close> so that the most negative value does not overflow.
\<close>

definition magnitude :: "nat \<Rightarrow> int \<Rightarrow> nat" where
  "magnitude num nums =
     (if nums < 0 then nat ((- (nums + 1) + 1) mod 2 ^ 64) else num)"

definition num_radix :: "mflag set \<Rightarrow> nat" where
  "num_radix f = (if FLAGS_OCTAL \<in> f then 8 else if FLAGS_HEX \<in> f then 16 else 10)"

definition num_signed :: "mflag set \<Rightarrow> bool" where
  "num_signed f \<longleftrightarrow> FLAGS_OCTAL \<notin> f \<and> FLAGS_HEX \<notin> f \<and> FLAGS_UNSIGNED \<notin> f"

definition num_digits :: "mflag set \<Rightarrow> nat \<Rightarrow> bytes" where
  "num_digits f num =
     (if num_radix f = 10 then dec_loop num []
      else base_loop (if FLAGS_HEX \<in> f \<and> FLAGS_OCTAL \<notin> f \<and> FLAGS_UPPER \<in> f
                      then Curl_udigits else Curl_ldigits) (num_radix f) num [])"

definition out_number :: "mproperty \<Rightarrow> nat \<Rightarrow> int \<Rightarrow> bytes" where
  "out_number p num nums =
     (let f = mp_flags p in
      if FLAGS_CHAR \<in> f then
        (if FLAGS_LEFT \<notin> f then pad (CHR '' '') (mp_width p - 1) else [])
        @ [char_of num]
        @ (if FLAGS_LEFT \<in> f then pad (CHR '' '') (mp_width p - 1) else [])
      else
        (let base = num_radix f;
             is_alt = FLAGS_ALT \<in> f;
             is_neg = (num_signed f \<and> nums < 0);
             ds = num_digits f (if num_signed f then magnitude num nums else num);
             k = int (length ds);
             width1 = mp_width p - k;
             prec1 = (if mp_prec p = -1 then 1 else mp_prec p) - k;
             alt8 = (is_alt \<and> base = 8 \<and> prec1 \<le> 0);
             ds1 = (if alt8 then CHR ''0'' # ds else ds);
             width2 = (if alt8 then width1 - 1 else width1);
             zeros = (if prec1 > 0 then min prec1 (BUFFSIZE - 1 - int (length ds1)) else 0);
             width3 = (if prec1 > 0 then width2 - prec1 else width2);
             ds2 = pad (CHR ''0'') zeros @ ds1;
             width4 = (if is_alt \<and> base = 16 then width3 - 2 else width3);
             width5 = (if is_neg \<or> FLAGS_SHOWSIGN \<in> f \<or> FLAGS_SPACE \<in> f
                       then width4 - 1 else width4)
         in (if FLAGS_LEFT \<notin> f \<and> FLAGS_PAD_NIL \<notin> f then pad (CHR '' '') width5 else [])
            @ (if is_neg then ''-'' else if FLAGS_SHOWSIGN \<in> f then ''+''
               else if FLAGS_SPACE \<in> f then '' '' else [])
            @ (if is_alt \<and> base = 16 then CHR ''0'' #
                 (if FLAGS_UPPER \<in> f then ''X'' else ''x'') else [])
            @ (if FLAGS_LEFT \<notin> f \<and> FLAGS_PAD_NIL \<in> f then pad (CHR ''0'') width5 else [])
            @ ds2
            @ (if FLAGS_LEFT \<in> f then pad (CHR '' '') width5 else [])))"

definition nilstr :: bytes where "nilstr = ''(nil)''"

text \<open>
  \<open>out_string\<close>: with a precision, that many bytes are output unless the terminator
  comes first; \<open>None\<close> is the NULL pointer.
\<close>

definition out_string :: "mproperty \<Rightarrow> bytes option \<Rightarrow> bytes" where
  "out_string p s =
     (let (txt, n, f) =
        (case s of
           None \<Rightarrow> (if mp_prec p = -1 \<or> mp_prec p \<ge> int (length nilstr)
                    then (nilstr, int (length nilstr), mp_flags p - {FLAGS_ALT})
                    else ([], 0, mp_flags p))
         | Some t \<Rightarrow> (let u = takeWhile (\<lambda>c. c \<noteq> NUL) t in
                      if mp_prec p \<noteq> -1 then (u, mp_prec p, mp_flags p)
                      else (u, int (length u), mp_flags p)));
          w = mp_width p - (if n > 2 ^ 31 - 1 then 2 ^ 31 - 1 else n)
      in (if FLAGS_ALT \<in> f then [CHR 0x22] else [])
         @ (if FLAGS_LEFT \<notin> f then pad (CHR '' '') w else [])
         @ take (nat n) txt
         @ (if FLAGS_LEFT \<in> f then pad (CHR '' '') w else [])
         @ (if FLAGS_ALT \<in> f then [CHR 0x22] else []))"

section \<open>The bounded stream of \<open>curl_mvsnprintf\<close>\<close>

record nsprintf =
  ns_buffer :: bytes
  ns_max :: nat

definition addbyter :: "char \<Rightarrow> nsprintf \<Rightarrow> (nsprintf \<times> bool)" where
  "addbyter outc infop =
     (if length (ns_buffer infop) < ns_max infop
      then (infop\<lparr>ns_buffer := ns_buffer infop @ [outc]\<rparr>, False) else (infop, True))"

fun stream_bytes :: "bytes \<Rightarrow> nsprintf \<Rightarrow> nsprintf" where
  "stream_bytes [] i = i"
| "stream_bytes (c # cs) i =
     (case addbyter c i of (i', stop) \<Rightarrow> if stop then i' else stream_bytes cs i')"

text \<open>
  \<open>curl_mvsnprintf\<close> given the bytes the conversions produce: the string left in the
  caller's buffer (up to the terminator) and the return code.
\<close>

definition snprintf_bytes :: "nat \<Rightarrow> bytes \<Rightarrow> bytes \<times> nat" where
  "snprintf_bytes maxlength out =
     (let i = stream_bytes out \<lparr>ns_buffer = [], ns_max = maxlength\<rparr>;
          n = length (ns_buffer i)
      in if maxlength \<noteq> 0 \<and> ns_max i = n then (butlast (ns_buffer i), n - 1) else (ns_buffer i, n))"

lemma stream_bytes_eq:
  "length (ns_buffer i) \<le> ns_max i \<Longrightarrow>
     stream_bytes cs i = i\<lparr>ns_buffer := ns_buffer i @ take (ns_max i - length (ns_buffer i)) cs\<rparr>"
proof (induction cs arbitrary: i)
  case Nil
  then show ?case by simp
next
  case (Cons c cs)
  then show ?case by (auto simp: addbyter_def take_Cons' Suc_diff_Suc)
qed

lemma snprintf_bytes_eq:
  assumes "0 < maxlength"
  shows "snprintf_bytes maxlength out =
    (take (maxlength - 1) out, min (length out) (maxlength - 1))"
  using assms
  by (auto simp: snprintf_bytes_def stream_bytes_eq Let_def butlast_take butlast_conv_take min_def
      simp flip: length_greater_0_conv)

section \<open>Printing a number and reading it back\<close>

lemma dec_loop_acc: "dec_loop num w = dec_loop num [] @ w"
proof (induction num arbitrary: w rule: less_induct)
  case (less num)
  show ?case
  proof (cases "num > 0")
    case True
    then have "num div 10 < num" by simp
    with True show ?thesis
      by (simp add: dec_loop.simps [of num] less.IH [of "num div 10" "[_]"]
          less.IH [of "num div 10" "_ # w"])
  next
    case False
    then show ?thesis by (simp add: dec_loop.simps)
  qed
qed

lemma dec_loop_unfold:
  "num > 0 \<Longrightarrow> dec_loop num [] = dec_loop (num div 10) [] @ [char_of (48 + num mod 10)]"
  by (subst dec_loop.simps) (simp add: dec_loop_acc [of "num div 10" "[_]"])

lemma code_of_dec_digit: "code_of (char_of (48 + n mod 10)) = 48 + n mod 10" for n :: nat
proof -
  have "48 + n mod 10 < 256" by linarith
  then show ?thesis by simp
qed

lemma dec_digit_ISDIGIT: "ISDIGIT (char_of (48 + n mod 10))" for n :: nat
proof -
  have "48 + n mod 10 \<le> 57" by linarith
  then show ?thesis using code_of_dec_digit [of n] by (simp add: ISDIGIT_code)
qed

lemma dec_digit_hexval: "curlx_hexval (char_of (48 + n mod 10)) = int (n mod 10)" for n :: nat
proof -
  have "ISXDIGIT (char_of (48 + n mod 10))"
    using dec_digit_ISDIGIT by (simp add: ISXDIGIT_def)
  moreover have "48 + n mod 10 \<le> 57" by linarith
  ultimately show ?thesis using hexval_xdigit code_of_dec_digit [of n] by simp
qed

lemma dec_loop_digits: "\<forall>c\<in>set (dec_loop num []). ISDIGIT c"
proof (induction num rule: less_induct)
  case (less num)
  show ?case
  proof (cases "num > 0")
    case True
    then show ?thesis using less.IH [of "num div 10"]
      by (auto simp: dec_loop_unfold dec_digit_ISDIGIT)
  next
    case False
    then show ?thesis by (simp add: dec_loop.simps)
  qed
qed

lemma dec_loop_value: "num_value 10 (dec_loop num []) = int num"
proof (induction num rule: less_induct)
  case (less num)
  show ?case
  proof (cases "num > 0")
    case True
    then show ?thesis using less.IH [of "num div 10"]
      by (simp add: dec_loop_unfold num_value_def dec_digit_hexval zdiv_int zmod_int)
  next
    case False
    then show ?thesis by (simp add: dec_loop.simps num_value_def)
  qed
qed

definition fmt_off_t :: mproperty where
  "fmt_off_t = \<lparr>mp_width = 0, mp_prec = -1, mp_flags = {FLAGS_LONGLONG}\<rparr>"

text \<open>\<open>print_off n\<close> is what the conversion \<open>%lld\<close> offers to the stream.\<close>

definition print_off :: "curl_off_t \<Rightarrow> bytes" where
  "print_off n = out_number fmt_off_t (nat (n mod 2 ^ 64)) n"

lemma print_off_nonneg:
  assumes "0 \<le> n" and "n \<le> CURL_OFF_T_MAX"
  shows "print_off n = (if n = 0 then ''0'' else dec_loop (nat n) [])"
proof -
  have m: "n mod 2 ^ 64 = n" using assms by (simp add: CURL_OFF_T_MAX_def)
  have ne: "0 < n \<Longrightarrow> 0 < length (dec_loop (nat n) [])"
    by (simp add: dec_loop_unfold)
  have z: "dec_loop 0 [] = []" by (simp add: dec_loop.simps)
  show ?thesis using assms(1) m ne
    by (auto simp: print_off_def out_number_def fmt_off_t_def num_radix_def num_signed_def
        num_digits_def magnitude_def pad_def BUFFSIZE_def z Let_def not_less
        simp flip: length_greater_0_conv)
qed

lemma print_off_digits:
  assumes "0 \<le> n" and "n \<le> CURL_OFF_T_MAX"
  shows "print_off n \<noteq> []" and "\<forall>c\<in>set (print_off n). ISDIGIT c"
    and "num_value 10 (print_off n) = n"
  using assms dec_loop_digits [of "nat n"] dec_loop_value [of "nat n"]
  by (auto simp: print_off_nonneg dec_loop_unfold ISDIGIT_code num_value_def horner_def
      curlx_hexval_def curlx_hexasciitable_def)

lemma dec_loop_length: "num < 10 ^ k \<Longrightarrow> length (dec_loop num []) \<le> k"
proof (induction k arbitrary: num)
  case 0
  then show ?case by (simp add: dec_loop.simps)
next
  case (Suc k)
  show ?case
  proof (cases "num > 0")
    case True
    have "num div 10 < 10 ^ k" using Suc.prems by (simp add: less_mult_imp_div_less mult.commute)
    then show ?thesis using True Suc.IH by (simp add: dec_loop_unfold)
  next
    case False
    then show ?thesis by (simp add: dec_loop.simps)
  qed
qed

lemma print_off_length:
  assumes "0 \<le> n" and "n \<le> CURL_OFF_T_MAX"
  shows "length (print_off n) \<le> 19"
proof -
  have "nat n < 10 ^ 19" using assms by (simp add: CURL_OFF_T_MAX_def)
  from dec_loop_length [OF this] show ?thesis using assms by (simp add: print_off_nonneg)
qed

section \<open>Hexadecimal numbers\<close>

lemma ldigits_codes: "map code_of Curl_ldigits = [48..<58] @ [97..<103]"
  by (simp add: Curl_ldigits_def upt_conv_Cons)

lemma ldigits_table:
  "list_all (\<lambda>n. ([48..<58] @ [97..<103]) ! n = (if n < 10 then 48 + n else 87 + n)) [0..<16]"
  by code_simp

lemma ldigit:
  assumes "n < 16"
  shows "ISXDIGIT (Curl_ldigits ! n)" "curlx_hexval (Curl_ldigits ! n) = int n"
proof -
  have "n < length Curl_ldigits" using assms by (simp add: Curl_ldigits_def)
  from nth_map [OF this, of code_of] have c: "code_of (Curl_ldigits ! n) = (if n < 10 then 48 + n else 87 + n)"
    using ldigits_table assms unfolding ldigits_codes list_all_iff by auto
  show x: "ISXDIGIT (Curl_ldigits ! n)" using c assms by (simp add: ISXDIGIT_code)
  show "curlx_hexval (Curl_ldigits ! n) = int n" using hexval_xdigit [OF x] c assms by simp
qed

lemma base_loop_acc: "base_loop ds b num w = base_loop ds b num [] @ w"
proof (induction num arbitrary: w rule: less_induct)
  case (less num)
  show ?case
  proof (cases "num > 0 \<and> 1 < b")
    case True
    then have less': "num div b < num" by simp
    have step: "base_loop ds b num v = base_loop ds b (num div b) (ds ! (num mod b) # v)" for v
      by (subst base_loop.simps) (simp only: True simp_thms if_True)
    show ?thesis unfolding step less.IH [OF less', of "ds ! (num mod b) # w"]
        less.IH [OF less', of "[ds ! (num mod b)]"] by simp
  next
    case False
    then have step: "base_loop ds b num v = v" for v
      by (subst base_loop.simps) (simp only: simp_thms if_False)
    show ?thesis unfolding step by simp
  qed
qed

lemma hex_loop_unfold:
  "num > 0 \<Longrightarrow> base_loop ds 16 num [] = base_loop ds 16 (num div 16) [] @ [ds ! (num mod 16)]"
  by (subst base_loop.simps) (simp add: base_loop_acc [of ds 16 "num div 16" "[_]"])

lemma hex_loop_digits:
  "(\<forall>c\<in>set (base_loop Curl_ldigits 16 num []). ISXDIGIT c)
   \<and> num_value 16 (base_loop Curl_ldigits 16 num []) = int num"
proof (induction num rule: less_induct)
  case (less num)
  show ?case
  proof (cases "num > 0")
    case True
    then show ?thesis using less.IH [of "num div 16"] ldigit [of "num mod 16"]
      by (auto simp: hex_loop_unfold num_value_def zdiv_int zmod_int)
  next
    case False
    then show ?thesis by (simp add: base_loop.simps num_value_def)
  qed
qed

lemma hex_loop_length: "num < 16 ^ k \<Longrightarrow> length (base_loop ds 16 num []) \<le> k"
proof (induction k arbitrary: num)
  case 0
  then show ?case by (simp add: base_loop.simps)
next
  case (Suc k)
  show ?case
  proof (cases "num > 0")
    case True
    have "num div 16 < 16 ^ k" using Suc.prems by (simp add: less_mult_imp_div_less mult.commute)
    then show ?thesis using True Suc.IH by (simp add: hex_loop_unfold)
  next
    case False
    then show ?thesis by (simp add: base_loop.simps)
  qed
qed

text \<open>\<open>print_zx n\<close> is what the conversion \<open>%zx\<close> offers to the stream.\<close>

definition print_zx :: "nat \<Rightarrow> bytes" where
  "print_zx n = out_number \<lparr>mp_width = 0, mp_prec = -1, mp_flags = {FLAGS_LONG, FLAGS_HEX, FLAGS_UNSIGNED}\<rparr> n (int n)"

lemma print_zx_eq: "print_zx n = (if n = 0 then ''0'' else base_loop Curl_ldigits 16 n [])"
proof -
  have ne: "0 < n \<Longrightarrow> 0 < length (base_loop Curl_ldigits 16 n [])" by (simp add: hex_loop_unfold)
  have z: "base_loop Curl_ldigits 16 0 [] = []" by (simp add: base_loop.simps)
  show ?thesis using ne
    by (auto simp: print_zx_def out_number_def num_radix_def num_signed_def num_digits_def pad_def
        BUFFSIZE_def z Let_def not_less simp flip: length_greater_0_conv)
qed

lemma print_zx_digits:
  shows "print_zx n \<noteq> []" and "\<forall>c\<in>set (print_zx n). ISXDIGIT c" and "num_value 16 (print_zx n) = int n"
  using hex_loop_digits [of n]
  by (auto simp: print_zx_eq hex_loop_unfold ISXDIGIT_code num_value_def horner_def curlx_hexval_def
      curlx_hexasciitable_def)

lemma print_zx_length: "n < 16 ^ Suc k \<Longrightarrow> length (print_zx n) \<le> Suc k"
  using hex_loop_length [of n "Suc k"] by (auto simp: print_zx_eq)

section \<open>Properties\<close>

text \<open>
  Printing a signed 64-bit number with \<open>%lld\<close> gives its decimal digits, with a minus
  sign for a negative one, over the whole range including the most negative value.
\<close>

lemma print_off_signed:
  assumes "- (2 ^ 63) \<le> n" and "n \<le> 2 ^ 63 - 1"
  shows "\<exists>ds. print_off n = (if n < 0 then ''-'' else []) @ ds \<and> ds \<noteq> []
    \<and> list_all ISDIGIT ds \<and> num_value 10 ds = \<bar>n\<bar>"
proof (cases "n < 0")
  case False
  then show ?thesis using print_off_digits [of n] assms
    by (auto simp: CURL_OFF_T_MAX_def list_all_iff)
next
  case True
  let ?m = "nat (- n)"
  have m: "magnitude (nat (n mod 2 ^ 64)) n = ?m"
    using True assms by (simp add: magnitude_def)
  have ne: "dec_loop ?m [] \<noteq> []" using True by (simp add: dec_loop_unfold)
  then have "print_off n = ''-'' @ dec_loop ?m []"
    using True m by (cases "dec_loop ?m []")
      (auto simp: print_off_def out_number_def fmt_off_t_def num_radix_def num_signed_def
        num_digits_def pad_def Let_def)
  then show ?thesis using True ne dec_loop_digits [of ?m] dec_loop_value [of ?m]
    by (auto simp: list_all_iff)
qed

text \<open>
  \<open>curl_msnprintf\<close> never writes past its buffer: the string it leaves is the longest
  prefix of the output that fits with the terminator, and the length it returns is that of
  the string.
\<close>

lemma snprintf_truncates:
  assumes "0 < maxlength"
  shows "fst (snprintf_bytes maxlength out) = take (maxlength - 1) out
    \<and> snd (snprintf_bytes maxlength out) = length (fst (snprintf_bytes maxlength out))
    \<and> length (fst (snprintf_bytes maxlength out)) < maxlength"
  using assms by (auto simp: snprintf_bytes_eq)

end
