(* ===== verification/Curl_Range.thy ===== *)
theory Curl_Range
  imports Mprintf
begin

text \<open>
  \<open>Curl_range\<close> of \<^verbatim>\<open>lib/curl_range.c\<close>: the interpretation of a \<open>CURLOPT_RANGE\<close>
  string by the protocol handlers that read files by offset (FTP, FILE, NFS, SMB).  The
  record holds the fields of \<open>struct Curl_easy\<close> the function reads and writes.
\<close>

record range_state =
  use_range :: bool
  range_str :: "bytes option"
  resume_from :: curl_off_t
  maxdownload :: curl_off_t

definition Curl_range :: "range_state \<Rightarrow> CURLcode \<times> range_state" where
  "Curl_range data =
     (case (use_range data, range_str data) of
        (True, Some p0) \<Rightarrow>
          (let (e1, p1, frm) = curlx_str_number p0 CURL_OFF_T_MAX;
               first_num = (e1 = STRE_OK);
               (e2, p2) = curlx_str_single p1 (CHR ''-'')
           in if e2 \<noteq> STRE_OK then (CURLE_RANGE_ERROR, data)
              else
                (let (e3, p3, to) = curlx_str_number p2 CURL_OFF_T_MAX in
                 if e3 \<noteq> STRE_OK then (CURLE_OK, data\<lparr>resume_from := frm\<rparr>)
                 else if \<not> first_num then
                   (if to = 0 then (CURLE_RANGE_ERROR, data)
                    else (CURLE_OK, data\<lparr>maxdownload := to, resume_from := - to\<rparr>))
                 else if frm > to then (CURLE_RANGE_ERROR, data)
                 else (let totalsize = to - frm in
                       if totalsize = CURL_OFF_T_MAX then (CURLE_RANGE_ERROR, data)
                       else (CURLE_OK, data\<lparr>maxdownload := totalsize + 1,
                                              resume_from := frm\<rparr>))))
      | _ \<Rightarrow> (CURLE_OK, data\<lparr>maxdownload := -1\<rparr>))"

section \<open>Parsing decimal numbers\<close>

lemma max_digit_10 [simp]: "max_digit 10 = CHR ''9''"
  by (simp add: max_digit_def)

lemma num_base_10 [simp]: "num_base 10"
  by (simp add: num_base_def)

lemma takeWhile_digits_append:
  assumes "\<forall>c\<in>set ds. ISDIGIT c" and "\<not> ISDIGIT (peek rest)"
  shows "takeWhile ISDIGIT (ds @ rest) = ds" and "dropWhile ISDIGIT (ds @ rest) = rest"
  using assms by (induction ds) (cases rest; auto)+

lemma curlx_str_number_digits:
  assumes "ds \<noteq> []" and "\<forall>c\<in>set ds. ISDIGIT c" and "\<not> ISDIGIT (peek rest)"
    and "num_value 10 ds \<le> mx" and "0 \<le> mx"
  shows "curlx_str_number (ds @ rest) mx = (STRE_OK, rest, num_value 10 ds)"
  using assms takeWhile_digits_append [OF assms(2,3)]
  by (simp add: curlx_str_number_def str_num_base_eq valid_digit_dec Let_def)

lemma curlx_str_number_none:
  assumes "\<not> ISDIGIT (peek line)" and "0 \<le> mx"
  shows "curlx_str_number line mx = (STRE_NO_NUM, line, 0)"
  using assms by (cases line) (auto simp: curlx_str_number_def str_num_base_eq valid_digit_dec Let_def)

lemma curlx_str_number_print:
  assumes "0 \<le> n" and "n \<le> CURL_OFF_T_MAX" and "\<not> ISDIGIT (peek rest)"
  shows "curlx_str_number (print_off n @ rest) CURL_OFF_T_MAX = (STRE_OK, rest, n)"
  using curlx_str_number_digits [OF print_off_digits(1,2) [OF assms(1,2)] assms(3)]
    print_off_digits(3) [OF assms(1,2)] assms(2) by simp

lemma curlx_str_number_bounds:
  assumes "curlx_str_number line mx = (e, rest, n)" and "0 \<le> mx"
  shows "0 \<le> n \<and> n \<le> mx"
proof -
  have "0 \<le> num_value 10 (digits 10 line)"
    unfolding num_value_def using valid_digit_bounds [of 10]
    by (intro horner_nonneg) (auto dest!: set_takeWhileD)
  then show ?thesis using assms
    by (auto simp: curlx_str_number_def str_num_base_eq Let_def split: if_splits)
qed

lemma not_ISDIGIT_dash [simp]: "\<not> ISDIGIT (CHR ''-'')" "\<not> ISDIGIT NUL"
  by (simp_all add: ISDIGIT_code)

section \<open>The three forms of a range\<close>

lemma Curl_range_from_to:
  assumes "0 \<le> frm" and "frm \<le> to" and "to \<le> CURL_OFF_T_MAX" and "to - frm \<noteq> CURL_OFF_T_MAX"
    and "use_range d" and "range_str d = Some (print_off frm @ CHR ''-'' # print_off to)"
  shows "Curl_range d = (CURLE_OK, d\<lparr>maxdownload := to - frm + 1, resume_from := frm\<rparr>)"
proof -
  have "curlx_str_number (print_off frm @ CHR ''-'' # print_off to) CURL_OFF_T_MAX
      = (STRE_OK, CHR ''-'' # print_off to, frm)"
    using assms by (intro curlx_str_number_print) auto
  moreover have "curlx_str_number (print_off to) CURL_OFF_T_MAX = (STRE_OK, [], to)"
    using curlx_str_number_print [of to "[]"] assms by simp
  ultimately show ?thesis using assms by (simp add: Curl_range_def curlx_str_single_def Let_def)
qed

lemma Curl_range_suffix:
  assumes "0 < n" and "n \<le> CURL_OFF_T_MAX"
    and "use_range d" and "range_str d = Some (CHR ''-'' # print_off n)"
  shows "Curl_range d = (CURLE_OK, d\<lparr>maxdownload := n, resume_from := - n\<rparr>)"
proof -
  have "curlx_str_number (print_off n) CURL_OFF_T_MAX = (STRE_OK, [], n)"
    using curlx_str_number_print [of n "[]"] assms by simp
  then show ?thesis using assms
    by (simp add: Curl_range_def curlx_str_single_def curlx_str_number_none Let_def)
qed

lemma Curl_range_open:
  assumes "0 \<le> n" and "n \<le> CURL_OFF_T_MAX"
    and "use_range d" and "range_str d = Some (print_off n @ ''-'')"
  shows "Curl_range d = (CURLE_OK, d\<lparr>resume_from := n\<rparr>)"
proof -
  have "curlx_str_number (print_off n @ ''-'') CURL_OFF_T_MAX = (STRE_OK, ''-'', n)"
    using assms by (intro curlx_str_number_print) auto
  then show ?thesis using assms
    by (simp add: Curl_range_def curlx_str_single_def curlx_str_number_none Let_def)
qed

lemma Curl_range_bounds:
  assumes "Curl_range d = (CURLE_OK, d')"
    and "- CURL_OFF_T_MAX \<le> resume_from d" "resume_from d \<le> CURL_OFF_T_MAX"
    and "-1 \<le> maxdownload d" "maxdownload d \<le> CURL_OFF_T_MAX"
  shows "- CURL_OFF_T_MAX \<le> resume_from d' \<and> resume_from d' \<le> CURL_OFF_T_MAX
    \<and> -1 \<le> maxdownload d' \<and> maxdownload d' \<le> CURL_OFF_T_MAX"
proof (cases "use_range d \<and> range_str d \<noteq> None")
  case False
  then show ?thesis using assms by (auto simp: Curl_range_def split: bool.splits option.splits)
next
  case True
  then obtain p0 where p0: "use_range d" "range_str d = Some p0" by auto
  obtain e1 p1 frm where n1: "curlx_str_number p0 CURL_OFF_T_MAX = (e1, p1, frm)"
    using prod_cases3 by blast
  obtain e2 p2 where s: "curlx_str_single p1 (CHR ''-'') = (e2, p2)" by fastforce
  obtain e3 p3 to where n2: "curlx_str_number p2 CURL_OFF_T_MAX = (e3, p3, to)"
    using prod_cases3 by blast
  have "0 \<le> frm \<and> frm \<le> CURL_OFF_T_MAX" "0 \<le> to \<and> to \<le> CURL_OFF_T_MAX"
    using curlx_str_number_bounds n1 n2 by simp_all
  then show ?thesis using assms
    by (auto simp: Curl_range_def p0 n1 n2 s Let_def split: if_splits)
qed

section \<open>Properties\<close>

text \<open>
  Whatever the range string, a successful interpretation leaves the resume offset and the
  number of bytes within the range of \<open>curl_off_t\<close>, so that no later arithmetic starts
  from a wrapped value.
\<close>

lemma Curl_range_in_bounds:
  assumes "Curl_range d = (CURLE_OK, d')"
    and "- CURL_OFF_T_MAX \<le> resume_from d \<and> resume_from d \<le> CURL_OFF_T_MAX"
    and "-1 \<le> maxdownload d \<and> maxdownload d \<le> CURL_OFF_T_MAX"
  shows "- CURL_OFF_T_MAX \<le> resume_from d' \<and> resume_from d' \<le> CURL_OFF_T_MAX
    \<and> -1 \<le> maxdownload d' \<and> maxdownload d' \<le> CURL_OFF_T_MAX"
  using Curl_range_bounds [OF assms(1)] assms by simp

text \<open>
  The three forms of a byte range, printed and read back.  \<open>a-b\<close> asks for
  \<open>b - a + 1\<close> bytes from \<open>a\<close>, \<open>-n\<close> (here \<open>n = b + 1\<close>) for the last \<open>n\<close>
  bytes, and \<open>a-\<close> starts at \<open>a\<close>.
\<close>

lemma Curl_range_forms:
  assumes "use_range d" and "0 \<le> a" and "a \<le> b" and "b < CURL_OFF_T_MAX"
  shows "Curl_range (d\<lparr>range_str := Some (print_off a @ CHR ''-'' # print_off b)\<rparr>)
      = (CURLE_OK, d\<lparr>range_str := Some (print_off a @ CHR ''-'' # print_off b),
                     maxdownload := b - a + 1, resume_from := a\<rparr>)
    \<and> Curl_range (d\<lparr>range_str := Some (CHR ''-'' # print_off (b + 1))\<rparr>)
      = (CURLE_OK, d\<lparr>range_str := Some (CHR ''-'' # print_off (b + 1)),
                     maxdownload := b + 1, resume_from := - (b + 1)\<rparr>)
    \<and> Curl_range (d\<lparr>range_str := Some (print_off a @ ''-'')\<rparr>)
      = (CURLE_OK, d\<lparr>range_str := Some (print_off a @ ''-''), resume_from := a\<rparr>)"
proof (intro conjI)
  show "Curl_range (d\<lparr>range_str := Some (print_off a @ CHR ''-'' # print_off b)\<rparr>)
      = (CURLE_OK, d\<lparr>range_str := Some (print_off a @ CHR ''-'' # print_off b),
                     maxdownload := b - a + 1, resume_from := a\<rparr>)"
    by (rule Curl_range_from_to) (use assms in auto)
  show "Curl_range (d\<lparr>range_str := Some (CHR ''-'' # print_off (b + 1))\<rparr>)
      = (CURLE_OK, d\<lparr>range_str := Some (CHR ''-'' # print_off (b + 1)),
                     maxdownload := b + 1, resume_from := - (b + 1)\<rparr>)"
    by (rule Curl_range_suffix) (use assms in auto)
  show "Curl_range (d\<lparr>range_str := Some (print_off a @ ''-'')\<rparr>)
      = (CURLE_OK, d\<lparr>range_str := Some (print_off a @ ''-''), resume_from := a\<rparr>)"
    by (rule Curl_range_open) (use assms in auto)
qed

end
