(* ===== verification/Strcase.thy ===== *)
theory Strcase
  imports Gurl_Prelude
begin

unbundle bit_operations_syntax

text \<open>
  Locale-independent ASCII case mapping and case-insensitive comparison, from
  \<^verbatim>\<open>lib/strcase.c\<close> and \<^verbatim>\<open>lib/strequal.c\<close>.  The two mapping tables are the tables of
  the source; \<open>None\<close> is a NULL pointer.
\<close>

definition touppermap :: "nat list" where
  "touppermap =
     [0, 1, 2, 3, 4, 5, 6, 7, 8, 9, 10, 11, 12, 13, 14, 15,
      16, 17, 18, 19, 20, 21, 22, 23, 24, 25, 26, 27, 28, 29, 30, 31,
      32, 33, 34, 35, 36, 37, 38, 39, 40, 41, 42, 43, 44, 45, 46, 47,
      48, 49, 50, 51, 52, 53, 54, 55, 56, 57, 58, 59, 60, 61, 62, 63,
      64, 65, 66, 67, 68, 69, 70, 71, 72, 73, 74, 75, 76, 77, 78, 79,
      80, 81, 82, 83, 84, 85, 86, 87, 88, 89, 90, 91, 92, 93, 94, 95,
      96, 65, 66, 67, 68, 69, 70, 71, 72, 73, 74, 75, 76, 77, 78, 79,
      80, 81, 82, 83, 84, 85, 86, 87, 88, 89, 90, 123, 124, 125, 126, 127,
      128, 129, 130, 131, 132, 133, 134, 135, 136, 137, 138, 139, 140, 141, 142, 143,
      144, 145, 146, 147, 148, 149, 150, 151, 152, 153, 154, 155, 156, 157, 158, 159,
      160, 161, 162, 163, 164, 165, 166, 167, 168, 169, 170, 171, 172, 173, 174, 175,
      176, 177, 178, 179, 180, 181, 182, 183, 184, 185, 186, 187, 188, 189, 190, 191,
      192, 193, 194, 195, 196, 197, 198, 199, 200, 201, 202, 203, 204, 205, 206, 207,
      208, 209, 210, 211, 212, 213, 214, 215, 216, 217, 218, 219, 220, 221, 222, 223,
      224, 225, 226, 227, 228, 229, 230, 231, 232, 233, 234, 235, 236, 237, 238, 239,
      240, 241, 242, 243, 244, 245, 246, 247, 248, 249, 250, 251, 252, 253, 254, 255]"

definition tolowermap :: "nat list" where
  "tolowermap =
     [0, 1, 2, 3, 4, 5, 6, 7, 8, 9, 10, 11, 12, 13, 14, 15,
      16, 17, 18, 19, 20, 21, 22, 23, 24, 25, 26, 27, 28, 29, 30, 31,
      32, 33, 34, 35, 36, 37, 38, 39, 40, 41, 42, 43, 44, 45, 46, 47,
      48, 49, 50, 51, 52, 53, 54, 55, 56, 57, 58, 59, 60, 61, 62, 63,
      64, 97, 98, 99, 100, 101, 102, 103, 104, 105, 106, 107, 108, 109, 110, 111,
      112, 113, 114, 115, 116, 117, 118, 119, 120, 121, 122, 91, 92, 93, 94, 95,
      96, 97, 98, 99, 100, 101, 102, 103, 104, 105, 106, 107, 108, 109, 110, 111,
      112, 113, 114, 115, 116, 117, 118, 119, 120, 121, 122, 123, 124, 125, 126, 127,
      128, 129, 130, 131, 132, 133, 134, 135, 136, 137, 138, 139, 140, 141, 142, 143,
      144, 145, 146, 147, 148, 149, 150, 151, 152, 153, 154, 155, 156, 157, 158, 159,
      160, 161, 162, 163, 164, 165, 166, 167, 168, 169, 170, 171, 172, 173, 174, 175,
      176, 177, 178, 179, 180, 181, 182, 183, 184, 185, 186, 187, 188, 189, 190, 191,
      192, 193, 194, 195, 196, 197, 198, 199, 200, 201, 202, 203, 204, 205, 206, 207,
      208, 209, 210, 211, 212, 213, 214, 215, 216, 217, 218, 219, 220, 221, 222, 223,
      224, 225, 226, 227, 228, 229, 230, 231, 232, 233, 234, 235, 236, 237, 238, 239,
      240, 241, 242, 243, 244, 245, 246, 247, 248, 249, 250, 251, 252, 253, 254, 255]"

definition Curl_raw_toupper :: "char \<Rightarrow> char" where
  "Curl_raw_toupper c = char_of (touppermap ! code_of c)"

definition Curl_raw_tolower :: "char \<Rightarrow> char" where
  "Curl_raw_tolower c = char_of (tolowermap ! code_of c)"

text \<open>
  The copy loops: at most \<open>n\<close> bytes are written, the terminator included when it is
  reached.  The result is what is written to the destination.
\<close>

fun strn_case :: "(char \<Rightarrow> char) \<Rightarrow> bytes \<Rightarrow> nat \<Rightarrow> bytes" where
  "strn_case f src 0 = []"
| "strn_case f src (Suc n) =
     f (peek src) # (if peek src \<noteq> NUL then strn_case f (tl src) n else [])"

definition Curl_strntoupper :: "bytes \<Rightarrow> nat \<Rightarrow> bytes" where
  "Curl_strntoupper src n = strn_case Curl_raw_toupper src n"

definition Curl_strntolower :: "bytes \<Rightarrow> nat \<Rightarrow> bytes" where
  "Curl_strntolower src n = strn_case Curl_raw_tolower src n"

definition cstr :: "bytes \<Rightarrow> bytes" where
  "cstr s = takeWhile (\<lambda>c. c \<noteq> NUL) s"

definition Curl_safecmp :: "bytes option \<Rightarrow> bytes option \<Rightarrow> bool" where
  "Curl_safecmp a b =
     (case (a, b) of (Some x, Some y) \<Rightarrow> cstr x = cstr y | _ \<Rightarrow> a = None \<and> b = None)"

text \<open>
  \<open>Curl_timestrcmp\<close>: the loop accumulates the differences with bitwise or and ends at
  the first terminator of either string.
\<close>

fun timestr_loop :: "bytes \<Rightarrow> bytes \<Rightarrow> 8 word \<Rightarrow> 8 word" where
  "timestr_loop [] b m = m OR (of_char NUL XOR of_char (peek b))"
| "timestr_loop (x # a) b m =
     (let m' = m OR (of_char x XOR of_char (peek b)) in
      if x = NUL \<or> peek b = NUL then m' else timestr_loop a (tl b) m')"

definition Curl_timestrcmp :: "bytes option \<Rightarrow> bytes option \<Rightarrow> bool" where
  "Curl_timestrcmp a b =
     (case (a, b) of
        (Some x, Some y) \<Rightarrow> timestr_loop x y 0 \<noteq> 0
      | _ \<Rightarrow> a \<noteq> None \<or> b \<noteq> None)"

fun casecompare :: "bytes \<Rightarrow> bytes \<Rightarrow> bool" where
  "casecompare [] second = (peek second = NUL)"
| "casecompare (c # first) second =
     (if c = NUL then peek second = NUL
      else if Curl_raw_toupper c \<noteq> Curl_raw_toupper (peek second) then False
      else casecompare first (tl second))"

fun ncasecompare :: "bytes \<Rightarrow> bytes \<Rightarrow> nat \<Rightarrow> bool" where
  "ncasecompare first second 0 = True"
| "ncasecompare first second (Suc n) =
     (if peek first = NUL then Curl_raw_toupper (peek first) = Curl_raw_toupper (peek second)
      else if Curl_raw_toupper (peek first) \<noteq> Curl_raw_toupper (peek second) then False
      else ncasecompare (tl first) (tl second) n)"

definition curl_strequal :: "bytes option \<Rightarrow> bytes option \<Rightarrow> bool" where
  "curl_strequal s1 s2 =
     (case (s1, s2) of (Some a, Some b) \<Rightarrow> casecompare a b | _ \<Rightarrow> s1 = None \<and> s2 = None)"

definition curl_strnequal :: "bytes option \<Rightarrow> bytes option \<Rightarrow> nat \<Rightarrow> bool" where
  "curl_strnequal s1 s2 n =
     (case (s1, s2) of
        (Some a, Some b) \<Rightarrow> ncasecompare a b n
      | _ \<Rightarrow> s1 = None \<and> s2 = None \<and> n \<noteq> 0)"

section \<open>The tables are the ASCII case maps\<close>

lemma touppermap_eq:
  "touppermap = map (\<lambda>n. if 97 \<le> n \<and> n \<le> 122 then n - 32 else n) [0..<256]"
  by code_simp

lemma tolowermap_eq:
  "tolowermap = map (\<lambda>n. if 65 \<le> n \<and> n \<le> 90 then n + 32 else n) [0..<256]"
  by code_simp

lemma code_diff_mod [simp]: "(code_of c - n) mod 256 = code_of c - n"
  by (rule mod_less) (use code_of_less [of c] in linarith)

lemma toupper_code:
  "code_of (Curl_raw_toupper c) = (if ISLOWER c then code_of c - 32 else code_of c)"
  by (simp add: Curl_raw_toupper_def touppermap_eq ISLOWER_def char_le_code)

lemma tolower_code:
  "code_of (Curl_raw_tolower c) = (if ISUPPER c then code_of c + 32 else code_of c)"
  by (simp add: Curl_raw_tolower_def tolowermap_eq ISUPPER_def char_le_code)

lemma toupper_NUL_iff [simp]: "Curl_raw_toupper c = NUL \<longleftrightarrow> c = NUL"
proof -
  have "code_of (Curl_raw_toupper c) = 0 \<longleftrightarrow> code_of c = 0"
    unfolding toupper_code ISLOWER_def char_le_code by auto
  then show ?thesis by simp
qed

lemma toupper_NUL [simp]: "Curl_raw_toupper NUL = NUL" "NUL = Curl_raw_toupper c \<longleftrightarrow> c = NUL"
  using toupper_NUL_iff [of NUL] toupper_NUL_iff [of c] by metis+

lemma toupper_idem [simp]: "Curl_raw_toupper (Curl_raw_toupper c) = Curl_raw_toupper c"
proof -
  have "code_of (Curl_raw_toupper (Curl_raw_toupper c)) = code_of (Curl_raw_toupper c)"
    unfolding toupper_code ISLOWER_def char_le_code by auto
  then show ?thesis by simp
qed

lemma toupper_tolower [simp]: "Curl_raw_toupper (Curl_raw_tolower c) = Curl_raw_toupper c"
proof -
  have "code_of (Curl_raw_toupper (Curl_raw_tolower c)) = code_of (Curl_raw_toupper c)"
    unfolding toupper_code tolower_code ISLOWER_def ISUPPER_def char_le_code by auto
  then show ?thesis by simp
qed

section \<open>Comparison up to case\<close>

definition fold_case :: "bytes \<Rightarrow> bytes" where
  "fold_case s = map Curl_raw_toupper (cstr s)"

lemma cstr_simps [simp]:
  "cstr [] = []" "cstr (c # s) = (if c = NUL then [] else c # cstr s)"
  by (simp_all add: cstr_def)

lemma cstr_peek: "cstr s = (if peek s = NUL then [] else peek s # cstr (tl s))"
  by (cases s) auto

lemma casecompare_eq: "casecompare a b \<longleftrightarrow> fold_case a = fold_case b"
proof (induction a b rule: casecompare.induct)
  case (1 b)
  then show ?case by (cases b) (auto simp: fold_case_def)
next
  case (2 c a b)
  then show ?case by (cases b) (auto simp: fold_case_def)
qed

lemma ncasecompare_eq: "ncasecompare a b n \<longleftrightarrow> take n (fold_case a) = take n (fold_case b)"
proof (induction a b n rule: ncasecompare.induct)
  case (1 a b)
  then show ?case by simp
next
  case (2 a b n)
  then show ?case by (cases a; cases b) (auto simp: fold_case_def)
qed

lemma xor_word_eq_0: "a XOR b = 0 \<longleftrightarrow> a = b" for a b :: "'a::len word"
  by (metis xor.assoc xor.left_neutral xor.right_neutral xor_self_eq)

lemma timestr_loop_mono: "m \<noteq> 0 \<Longrightarrow> timestr_loop a b m \<noteq> 0"
  by (induction a b m rule: timestr_loop.induct) (auto simp: Let_def or_eq_0_iff)

lemma of_char_word_eq_iff: "(of_char c :: 8 word) = of_char d \<longleftrightarrow> c = d"
proof
  assume "(of_char c :: 8 word) = of_char d"
  then have "(of_nat (code_of c) :: 8 word) = of_nat (code_of d)"
    by (simp only: of_nat_of_char)
  then have "code_of c = code_of d"
    using code_of_less [of c] code_of_less [of d]
    by (simp add: word_of_nat_eq_iff take_bit_eq_mod)
  then show "c = d" by simp
qed simp

lemma timestr_loop_eq: "timestr_loop a b 0 = 0 \<longleftrightarrow> cstr a = cstr b"
proof (induction a arbitrary: b)
  case Nil
  show ?case using of_char_word_eq_iff [of NUL "peek b"]
    by (cases b) (auto simp: xor_word_eq_0)
next
  case (Cons x a)
  let ?d = "of_char x XOR of_char (peek b) :: 8 word"
  have d: "?d = 0 \<longleftrightarrow> x = peek b"
    using of_char_word_eq_iff [of x "peek b"] by (simp add: xor_word_eq_0)
  show ?case
  proof (cases "x = peek b")
    case True
    then show ?thesis using Cons.IH [of "tl b"] d cstr_peek [of b] by (simp add: Let_def)
  next
    case False
    then have "timestr_loop (x # a) b 0 \<noteq> 0"
      using d by (auto simp: Let_def timestr_loop_mono)
    moreover have "cstr (x # a) \<noteq> cstr b" using False cstr_peek [of b] by auto
    ultimately show ?thesis by blast
  qed
qed

section \<open>Properties\<close>

text \<open>
  The case-insensitive comparisons are equality of the strings up to their terminators
  with ASCII letters folded, over the whole string and over the first \<open>n\<close> bytes; the
  comparison with a count of zero holds for any two strings.
\<close>

lemma strequal_is_folded_equality:
  "curl_strequal (Some a) (Some b) = (map Curl_raw_toupper (cstr a) = map Curl_raw_toupper (cstr b))
   \<and> curl_strnequal (Some a) (Some b) n
       = (take n (map Curl_raw_toupper (cstr a)) = take n (map Curl_raw_toupper (cstr b)))"
  by (simp add: curl_strequal_def curl_strnequal_def casecompare_eq ncasecompare_eq fold_case_def)

text \<open>
  The constant-time comparison of secrets accumulates bit differences instead of stopping
  at the first one, and still decides exactly equality of the two strings; null pointers are
  equal only to each other.
\<close>

lemma timestrcmp_decides_equality:
  "Curl_timestrcmp a b = (map_option cstr a \<noteq> map_option cstr b)"
  by (cases a; cases b) (auto simp: Curl_timestrcmp_def timestr_loop_eq)

end
