(* ===== verification/Chunk_File.thy ===== *)
theory Chunk_File
  imports Curl_Range Strcase
begin

text \<open>
  The output file of gurl's chunked download and the code of \<^verbatim>\<open>src/tool_chunked.c\<close> that
  writes it: \<open>chunk_raw_write\<close>, \<open>chunk_write_at\<close>, \<open>chunk_seq_write_cb\<close> and
  \<open>chunk_stream_range\<close>.

  The operating system enters as explicit answers: whether \<open>lseek\<close> succeeds, and a list
  \<open>rcs\<close> of the return values of the successive \<open>write\<close> calls.  When the list runs
  out the C loop is still waiting for \<open>write\<close> to return, which is the value \<open>None\<close>.
  The transfer engine enters as the sequence of buffers it passes to the write callback and
  the code \<open>curl_easy_perform\<close> returns once they are all accepted.
\<close>

section \<open>Files\<close>

text \<open>
  \<open>file_write f off d\<close>: the file after writing \<open>d\<close> at offset \<open>off\<close>.  A gap
  beyond the old end reads as zero bytes; writing nothing changes nothing.
\<close>

definition file_write :: "bytes \<Rightarrow> nat \<Rightarrow> bytes \<Rightarrow> bytes" where
  "file_write f off d =
     (if d = [] then f
      else (let g = f @ replicate (off - length f) NUL in
            take off g @ d @ drop (off + length d) g))"

definition slice :: "'a list \<Rightarrow> nat \<Rightarrow> nat \<Rightarrow> 'a list" where
  "slice xs a b = take (b - a) (drop a xs)"

lemma length_slice [simp]: "length (slice xs a b) = min (b - a) (length xs - a)"
  by (simp add: slice_def)

lemma slice_nth: "k < b - a \<Longrightarrow> a + k < length xs \<Longrightarrow> slice xs a b ! k = xs ! (a + k)"
  by (simp add: slice_def)

lemma slice_Nil_iff: "slice xs a b = [] \<longleftrightarrow> b \<le> a \<or> length xs \<le> a"
  by (auto simp: slice_def)

lemma slice_split: "a \<le> m \<Longrightarrow> m \<le> b \<Longrightarrow> slice xs a b = slice xs a m @ slice xs m b"
proof -
  assume "a \<le> m" "m \<le> b"
  then have "take (b - a) (drop a xs) = take (m - a) (drop a xs) @ take (b - m) (drop (m - a) (drop a xs))"
    by (metis Nat.add_diff_assoc2 le_add_diff_inverse2 take_add add.commute)
  then show ?thesis using \<open>a \<le> m\<close> by (simp add: slice_def)
qed

lemma slice_append_prefix:
  assumes "buf @ rest = slice xs a b"
  shows "buf = slice xs a (a + length buf)" and "rest = slice xs (a + length buf) b"
proof -
  have l: "length buf \<le> b - a" using assms by (metis length_append length_slice le_add1 min.bounded_iff)
  have "buf = take (length buf) (slice xs a b)" by (metis append_eq_conv_conj assms)
  with l show "buf = slice xs a (a + length buf)" by (simp add: slice_def min_absorb1)
  have "rest = drop (length buf) (slice xs a b)" by (metis append_eq_conv_conj assms)
  then show "rest = slice xs (a + length buf) b"
    by (simp add: slice_def drop_take add.commute)
qed

lemma length_file_write:
  "length (file_write f off d) = (if d = [] then length f else max (length f) (off + length d))"
  by (auto simp: file_write_def Let_def max_def)

lemma file_write_nth:
  assumes "d \<noteq> []" and "q < length (file_write f off d)"
  shows "file_write f off d ! q =
    (if off \<le> q \<and> q < off + length d then d ! (q - off)
     else if q < length f then f ! q else NUL)"
  using assms by (auto simp: file_write_def Let_def nth_append length_file_write min_def max_def
      split: if_splits)

lemma file_write_append:
  "file_write (file_write f off a) (off + length a) b = file_write f off (a @ b)"
proof (cases "a = [] \<or> b = []")
  case True
  then show ?thesis by (auto simp: file_write_def)
next
  case False
  then have ne: "a \<noteq> []" "b \<noteq> []" by auto
  show ?thesis
  proof (rule nth_equalityI)
    show "length (file_write (file_write f off a) (off + length a) b) = length (file_write f off (a @ b))"
      using ne by (simp add: length_file_write max_def)
    fix q assume q: "q < length (file_write (file_write f off a) (off + length a) b)"
    then have q': "q < length (file_write f off (a @ b))"
      using ne by (auto simp: length_file_write max_def split: if_splits)
    show "file_write (file_write f off a) (off + length a) b ! q = file_write f off (a @ b) ! q"
      using ne q q'
      by (cases "off \<le> q \<and> q < off + length a"; cases "q < off + length a + length b")
        (auto simp: file_write_nth length_file_write nth_append not_less)
  qed
qed

section \<open>Writing a buffer\<close>

definition chunk_raw_write :: "bytes \<Rightarrow> nat \<Rightarrow> bytes \<Rightarrow> int \<Rightarrow> bytes \<times> nat \<times> int" where
  "chunk_raw_write f pos buf rc =
     (if rc < 0 then (f, pos, rc)
      else (let n = min (nat rc) (length buf) in (file_write f pos (take n buf), pos + n, int n)))"

text \<open>The loop \<open>while(done < len)\<close> shared by \<open>chunk_write_at\<close> and \<open>chunk_seq_write_cb\<close>.\<close>

fun write_loop :: "int list \<Rightarrow> bytes \<Rightarrow> nat \<Rightarrow> bytes \<Rightarrow> (bool \<times> bytes \<times> nat \<times> int list) option" where
  "write_loop rcs f pos [] = Some (True, f, pos, rcs)"
| "write_loop [] f pos (b # buf) = None"
| "write_loop (rc # rcs) f pos (b # buf) =
     (case chunk_raw_write f pos (b # buf) rc of
        (f', pos', r) \<Rightarrow>
          if r < 0 then Some (False, f', pos', rcs)
          else write_loop rcs f' pos' (drop (nat r) (b # buf)))"

definition chunk_write_at ::
  "bool \<Rightarrow> int list \<Rightarrow> bytes \<Rightarrow> bytes \<Rightarrow> nat \<Rightarrow> (CURLcode \<times> bytes \<times> int list) option" where
  "chunk_write_at seek_ok rcs f buf off =
     (if \<not> seek_ok then Some (CURLE_WRITE_ERROR, f, rcs)
      else case write_loop rcs f off buf of
             None \<Rightarrow> None
           | Some (ok, f', _, rcs') \<Rightarrow>
               Some (if ok then CURLE_OK else CURLE_WRITE_ERROR, f', rcs'))"

definition chunk_seq_write_cb ::
  "int list \<Rightarrow> bytes \<Rightarrow> nat \<Rightarrow> bytes \<Rightarrow> (nat \<times> bytes \<times> nat \<times> int list) option" where
  "chunk_seq_write_cb rcs f pos buf =
     (case write_loop rcs f pos buf of
        None \<Rightarrow> None
      | Some (ok, f', pos', rcs') \<Rightarrow> Some (if ok then length buf else 0, f', pos', rcs'))"

text \<open>
  A transfer on one stream: every buffer goes to the callback, and a callback that does not
  take all of it makes \<open>curl_easy_perform\<close> return \<open>CURLE_WRITE_ERROR\<close>.
\<close>

fun perform_seq ::
  "int list \<Rightarrow> bytes \<Rightarrow> nat \<Rightarrow> bytes list \<Rightarrow> CURLcode \<Rightarrow> (CURLcode \<times> bytes) option" where
  "perform_seq rcs f pos [] code = Some (code, f)"
| "perform_seq rcs f pos (buf # bufs) code =
     (case chunk_seq_write_cb rcs f pos buf of
        None \<Rightarrow> None
      | Some (n, f', pos', rcs') \<Rightarrow>
          if n \<noteq> length buf then Some (CURLE_WRITE_ERROR, f')
          else perform_seq rcs' f' pos' bufs code)"

text \<open>
  \<open>chunk_stream_range\<close> on a byte range whose first byte is \<open>start\<close>; the range string
  it hands to \<open>CURLOPT_RANGE\<close> is \<open>chunk_range_string\<close>.
\<close>

definition chunk_range_string :: "nat \<Rightarrow> nat \<Rightarrow> bytes" where
  "chunk_range_string start stop =
     fst (snprintf_bytes 80 (print_off (int start) @ CHR ''-'' # print_off (int stop)))"

definition chunk_stream_range ::
  "bool \<Rightarrow> int list \<Rightarrow> bytes \<Rightarrow> nat \<Rightarrow> bytes list \<Rightarrow> CURLcode \<Rightarrow> (CURLcode \<times> bytes) option" where
  "chunk_stream_range seek_ok rcs f start bufs code =
     (if \<not> seek_ok then Some (CURLE_WRITE_ERROR, f) else perform_seq rcs f start bufs code)"

section \<open>What a write leaves in the file\<close>

lemma write_loop_Cons:
  assumes "buf \<noteq> []"
  shows "write_loop (rc # rcs) f pos buf =
     (if rc < 0 then Some (False, f, pos, rcs)
      else (let n = min (nat rc) (length buf) in
            write_loop rcs (file_write f pos (take n buf)) (pos + n) (drop n buf)))"
  using assms by (cases buf) (simp_all add: chunk_raw_write_def Let_def)

lemma write_loop_result:
  "write_loop rcs f pos buf = Some (ok, f', pos', rcs') \<Longrightarrow>
     \<exists>k \<le> length buf. f' = file_write f pos (take k buf) \<and> pos' = pos + k
        \<and> (ok \<longrightarrow> k = length buf)"
proof (induction rcs arbitrary: f pos buf)
  case Nil
  then show ?case by (cases buf) (auto simp: file_write_def)
next
  case (Cons rc rcs)
  show ?case
  proof (cases "buf = [] \<or> rc < 0")
    case True
    with Cons.prems have "f' = f" "pos' = pos" "ok \<longrightarrow> buf = []"
      by (cases buf; auto simp: write_loop_Cons simp del: write_loop.simps(3))+
    then show ?thesis by (intro exI [of _ 0]) (auto simp: file_write_def)
  next
    case False
    define n where "n = min (nat rc) (length buf)"
    let ?f = "file_write f pos (take n buf)"
    from Cons.prems False have "write_loop rcs ?f (pos + n) (drop n buf) = Some (ok, f', pos', rcs')"
      by (simp add: write_loop_Cons n_def Let_def)
    from Cons.IH [OF this] obtain k where k: "k \<le> length (drop n buf)"
        "f' = file_write ?f (pos + n) (take k (drop n buf))" "pos' = pos + n + k"
        "ok \<longrightarrow> k = length (drop n buf)"
      by auto
    have n: "n \<le> length buf" by (simp add: n_def)
    then have "f' = file_write f pos (take n buf @ take k (drop n buf))"
      using k(2) file_write_append [of f pos "take n buf"] by (simp add: min_absorb2)
    then have "f' = file_write f pos (take (n + k) buf)" by (simp add: take_add)
    then show ?thesis using k n by (intro exI [of _ "n + k"]) auto
  qed
qed

lemma chunk_write_at_OK:
  "chunk_write_at seek rcs f buf off = Some (CURLE_OK, f', rcs') \<Longrightarrow> f' = file_write f off buf"
  by (auto simp: chunk_write_at_def dest!: write_loop_result split: option.splits if_splits)

lemma chunk_write_at_partial:
  assumes "chunk_write_at seek rcs f buf off = Some (res, f', rcs')"
  shows "\<exists>k \<le> length buf. f' = file_write f off (take k buf)"
proof (cases seek)
  case False
  with assms show ?thesis
    by (intro exI [of _ 0]) (auto simp: chunk_write_at_def file_write_def)
next
  case True
  with assms obtain ok pos' where "write_loop rcs f off buf = Some (ok, f', pos', rcs')"
    by (auto simp: chunk_write_at_def split: option.splits)
  from write_loop_result [OF this] show ?thesis by blast
qed

text \<open>
  Progress: once \<open>write\<close> never returns 0, one answer per byte is enough for the loop to
  end.
\<close>

lemma write_loop_returns:
  assumes "\<forall>rc\<in>set rcs. rc \<noteq> 0" and "length buf \<le> length rcs"
  shows "write_loop rcs f pos buf \<noteq> None"
  using assms
proof (induction rcs arbitrary: f pos buf)
  case Nil
  then show ?case by simp
next
  case (Cons rc rcs)
  show ?case
  proof (cases "buf = [] \<or> rc < 0")
    case True
    then consider "buf = []" | "buf \<noteq> []" "rc < 0" by blast
    then show ?thesis by cases (simp_all add: write_loop_Cons)
  next
    case False
    define n where "n = min (nat rc) (length buf)"
    have "length (drop n buf) \<le> length rcs"
      using False Cons.prems by (auto simp: n_def neq_Nil_conv)
    then show ?thesis using Cons False
      by (simp add: write_loop_Cons Let_def flip: n_def)
  qed
qed

lemma chunk_write_at_returns:
  assumes "\<forall>rc\<in>set rcs. rc \<noteq> 0" and "length buf \<le> length rcs"
  shows "\<exists>res f' rcs'. chunk_write_at seek rcs f buf off = Some (res, f', rcs')"
proof (cases seek)
  case True
  obtain ok f' pos' rcs' where "write_loop rcs f off buf = Some (ok, f', pos', rcs')"
    using write_loop_returns [OF assms] by (metis not_None_eq prod_cases4)
  with True show ?thesis by (simp add: chunk_write_at_def)
qed (simp add: chunk_write_at_def)

lemma perform_seq_OK:
  "perform_seq rcs f pos bufs code = Some (CURLE_OK, f') \<Longrightarrow>
     f' = file_write f pos (concat bufs) \<and> code = CURLE_OK"
proof (induction rcs f pos bufs code rule: perform_seq.induct)
  case (1 rcs f pos code)
  then show ?case by (simp add: file_write_def)
next
  case (2 rcs f pos buf bufs code)
  from 2(2) obtain ok f1 pos1 rcs1 where w: "write_loop rcs f pos buf = Some (ok, f1, pos1, rcs1)"
    by (auto simp: chunk_seq_write_cb_def split: option.splits prod.splits)
  obtain k where k: "f1 = file_write f pos (take k buf)" "pos1 = pos + k" "ok \<longrightarrow> k = length buf"
    using write_loop_result [OF w] by auto
  have cb: "chunk_seq_write_cb rcs f pos buf = Some (if ok then length buf else 0, f1, pos1, rcs1)"
    by (simp add: chunk_seq_write_cb_def w)
  have full: "ok \<or> buf = []" and rest: "perform_seq rcs1 f1 pos1 bufs code = Some (CURLE_OK, f')"
    using 2(2) by (auto simp: cb split: if_splits)
  have *: "f1 = file_write f pos buf" "pos1 = pos + length buf"
    using k full w by (auto simp: file_write_def)
  have "f' = file_write f1 pos1 (concat bufs) \<and> code = CURLE_OK"
    using 2(1) [OF cb refl refl refl] full rest by auto
  then show ?case using * by (simp add: file_write_append)
qed

lemma chunk_stream_range_OK:
  "chunk_stream_range seek rcs f start bufs code = Some (CURLE_OK, f') \<Longrightarrow>
     f' = file_write f start (concat bufs) \<and> code = CURLE_OK"
  by (auto simp: chunk_stream_range_def dest: perform_seq_OK split: if_splits)

text \<open>The range string of a piece fits its buffer, so it reaches the handle complete.\<close>

lemma chunk_range_string_eq:
  assumes "int start \<le> CURL_OFF_T_MAX" and "int stop \<le> CURL_OFF_T_MAX"
  shows "chunk_range_string start stop = print_off (int start) @ CHR ''-'' # print_off (int stop)"
  using assms print_off_length [of "int start"] print_off_length [of "int stop"]
  by (simp add: chunk_range_string_def snprintf_bytes_eq)

lemma Curl_range_chunk:
  assumes "use_range d" and "range_str d = Some (chunk_range_string start stop)"
    and "start \<le> stop" and "int stop < CURL_OFF_T_MAX"
  shows "Curl_range d = (CURLE_OK, d\<lparr>maxdownload := int stop - int start + 1, resume_from := int start\<rparr>)"
  using assms by (intro Curl_range_from_to) (simp_all add: chunk_range_string_eq)

end
