(* ===== verification/Chunk_Plan.thy ===== *)
theory Chunk_Plan
  imports Chunk_File Complex_Main
begin

text \<open>
  The planning half of gurl's chunked download: which transfers are eligible
  (\<open>chunk_eligible\<close> of \<^verbatim>\<open>src/tool_operate.c\<close>), the metadata probe
  (\<open>tool_chunk_probe\<close> of \<^verbatim>\<open>src/tool_chunked.c\<close> with the header callback's
  \<open>Accept-Ranges\<close> scan of \<^verbatim>\<open>src/tool_cb_hdr.c\<close>), the piece size
  (\<open>chunk_size_for\<close>), the number of pieces and the byte range of each.

  Sizes and offsets are natural numbers; the theorems state the bounds under which the
  \<open>curl_off_t\<close> and \<open>unsigned int\<close> arithmetic of the source agrees with them.  The
  outcome of the metadata request (\<open>curl_easy_perform\<close> and \<open>curl_easy_getinfo\<close>) is an
  argument.
\<close>

section \<open>Constants\<close>

definition CHUNK_STREAMS :: nat where "CHUNK_STREAMS = 8"
definition CHUNK_THRESHOLD :: nat where "CHUNK_THRESHOLD = 2 ^ 30"
definition CHUNK_MIN :: nat where "CHUNK_MIN = 64 * 2 ^ 20"
definition CHUNK_MAX :: nat where "CHUNK_MAX = 2 ^ 30"
definition CHUNK_TARGET :: nat where "CHUNK_TARGET = CHUNK_STREAMS * 8"
definition CHUNK_QUEUE_MAX :: int where "CHUNK_QUEUE_MAX = 256 * 2 ^ 20"
definition CHUNK_PROBE :: nat where "CHUNK_PROBE = 64 * 2 ^ 20"
definition CHUNK_FAST_MIBPS :: rat where "CHUNK_FAST_MIBPS = 200"

lemmas chunk_consts =
  CHUNK_STREAMS_def CHUNK_THRESHOLD_def CHUNK_MIN_def CHUNK_MAX_def CHUNK_TARGET_def
  CHUNK_QUEUE_MAX_def CHUNK_PROBE_def

definition chunk_size_for :: "nat \<Rightarrow> nat" where
  "chunk_size_for tot =
     (let c = tot div CHUNK_TARGET in
      if c < CHUNK_MIN then CHUNK_MIN else if c > CHUNK_MAX then CHUNK_MAX else c)"

section \<open>Eligibility and the metadata probe\<close>

record operation_config =
  legacy_io :: bool
  uploadfile :: "bytes option"
  outfile :: "bytes option"
  out_null :: bool
  show_headers :: bool
  cfg_no_body :: bool
  cfg_resume_from :: curl_off_t
  cfg_resume_from_current :: bool
  cfg_use_resume :: bool
  cfg_range :: "bytes option"

definition chunk_eligible :: "operation_config \<Rightarrow> bool" where
  "chunk_eligible c =
     (if legacy_io c then False
      else if uploadfile c \<noteq> None then False
      else if (case outfile c of None \<Rightarrow> True | Some f \<Rightarrow> cstr f = ''-'') then False
      else if out_null c then False
      else if show_headers c \<or> cfg_no_body c then False
      else if cfg_resume_from c \<noteq> 0 \<or> cfg_resume_from_current c \<or> cfg_use_resume c then False
      else if cfg_range c \<noteq> None then False
      else True)"

datatype Curl_HttpReq =
  HTTPREQ_GET | HTTPREQ_POST | HTTPREQ_POST_FORM | HTTPREQ_POST_MIME | HTTPREQ_PUT | HTTPREQ_HEAD

record easy_set =
  http_method :: Curl_HttpReq
  opt_no_body :: bool
  noprogress :: bool

definition setopt_NOBODY :: "bool \<Rightarrow> easy_set \<Rightarrow> easy_set" where
  "setopt_NOBODY enabled s =
     (let s1 = s\<lparr>opt_no_body := enabled\<rparr> in
      if enabled then s1\<lparr>http_method := HTTPREQ_HEAD\<rparr>
      else if http_method s1 = HTTPREQ_HEAD then s1\<lparr>http_method := HTTPREQ_GET\<rparr> else s1)"

definition setopt_HTTPGET :: "bool \<Rightarrow> easy_set \<Rightarrow> easy_set" where
  "setopt_HTTPGET enabled s =
     (if enabled then s\<lparr>http_method := HTTPREQ_GET, opt_no_body := False\<rparr> else s)"

definition setopt_NOPROGRESS :: "bool \<Rightarrow> easy_set \<Rightarrow> easy_set" where
  "setopt_NOPROGRESS enabled s = s\<lparr>noprogress := enabled\<rparr>"

text \<open>
  The \<open>Accept-Ranges\<close> scan of the header callback, for HTTP only: any occurrence of \<open>bytes\<close>, in
  any case, after the header name.
\<close>

fun scan_bytes :: "bytes \<Rightarrow> bool" where
  "scan_bytes [] = False"
| "scan_bytes (c # s) =
     (if length (c # s) < 5 then False
      else if ncasecompare (c # s) ''bytes'' 5 then True else scan_bytes s)"

definition hdr_accept_ranges :: "bytes option \<Rightarrow> bool \<Rightarrow> nat \<Rightarrow> bytes \<Rightarrow> bool" where
  "hdr_accept_ranges scheme chunk_watch response str =
     (scheme \<noteq> None \<and> (curl_strequal scheme (Some ''http'') \<or> curl_strequal scheme (Some ''https''))
      \<and> chunk_watch \<and> response div 100 = 2 \<and> ncasecompare str ''Accept-Ranges:'' 14
      \<and> scan_bytes (drop 14 str))"

text \<open>The answer to the metadata request; with each header the scheme and the response code at that time.\<close>

record probe_reply =
  pr_res :: CURLcode
  pr_headers :: "(bytes option \<times> nat \<times> bytes) list"
  pr_clen :: int
  pr_code :: nat
  pr_scheme :: "bytes option"

text \<open>
  \<open>tool_chunk_probe\<close>: \<open>Some tot\<close> is the return value \<open>TRUE\<close> with \<open>*tot\<close>
  set.  The second component is the state of the easy handle afterwards.
\<close>

definition tool_chunk_probe ::
  "bool \<Rightarrow> easy_set \<Rightarrow> (easy_set \<Rightarrow> probe_reply) \<Rightarrow> nat option \<times> easy_set" where
  "tool_chunk_probe quiet s perform =
     (let s1 = setopt_NOPROGRESS True (setopt_NOBODY True s);
          reply = perform s1;
          accept = list_ex (\<lambda>(sc, response, h). hdr_accept_ranges sc True response h) (pr_headers reply);
          s2 = setopt_NOPROGRESS quiet (setopt_HTTPGET True (setopt_NOBODY False s1));
          scheme = pr_scheme reply
      in if pr_res reply \<noteq> CURLE_OK then (None, s2)
         else if pr_clen reply \<le> int CHUNK_THRESHOLD then (None, s2)
         else if scheme \<noteq> None \<and>
                 (curl_strequal scheme (Some ''HTTP'') \<or> curl_strequal scheme (Some ''HTTPS''))
         then (if \<not> accept \<or> pr_code reply div 100 \<noteq> 2 then (None, s2)
               else (Some (nat (pr_clen reply)), s2))
         else if \<not> (scheme \<noteq> None \<and>
                 (curl_strequal scheme (Some ''FTP'') \<or> curl_strequal scheme (Some ''FTPS'')
                  \<or> curl_strequal scheme (Some ''NFS'')))
         then (None, s2)
         else (Some (nat (pr_clen reply)), s2))"

section \<open>The pool of pieces\<close>

record chunk_pool =
  pnext :: nat
  pn :: nat
  pbase :: nat
  pchunk_size :: nat
  ptotal :: nat
  pfinished :: nat
  presult :: CURLcode

text \<open>
  The initial pool of \<open>chunk_download\<close>: the piece count is converted to \<open>unsigned int\<close>.
\<close>

definition chunk_pool_init :: "nat \<Rightarrow> nat \<Rightarrow> chunk_pool" where
  "chunk_pool_init tot base =
     (let region = tot - base;
          chunk_size = chunk_size_for region;
          n = ((region + chunk_size - 1) div chunk_size) mod 2 ^ 32
      in \<lparr>pnext = 0, pn = n, pbase = base, pchunk_size = chunk_size, ptotal = tot,
          pfinished = 0, presult = CURLE_OK\<rparr>)"

definition chunk_nworkers :: "nat \<Rightarrow> nat" where
  "chunk_nworkers n = (if n < CHUNK_STREAMS then n else CHUNK_STREAMS)"

text \<open>The first and the last byte of piece \<open>idx\<close>, as \<open>chunk_fetch_one\<close> computes them.\<close>

definition chunk_start :: "chunk_pool \<Rightarrow> nat \<Rightarrow> nat" where
  "chunk_start p idx = pbase p + idx * pchunk_size p"

definition chunk_last :: "chunk_pool \<Rightarrow> nat \<Rightarrow> nat" where
  "chunk_last p idx =
     (let e = chunk_start p idx + pchunk_size p - 1 in
      if e \<ge> ptotal p then ptotal p - 1 else e)"

definition chunk_stop :: "chunk_pool \<Rightarrow> nat \<Rightarrow> nat" where
  "chunk_stop p idx = chunk_last p idx + 1"

definition chunk_progress_pct :: "nat list \<Rightarrow> nat \<Rightarrow> nat" where
  "chunk_progress_pct written tot =
     (if tot > 0 then (sum_list written * 100) div tot else 0)"

section \<open>Piece sizes\<close>

lemma chunk_size_for_bounds: "CHUNK_MIN \<le> chunk_size_for t \<and> chunk_size_for t \<le> CHUNK_MAX"
  by (auto simp: chunk_size_for_def Let_def CHUNK_MIN_def CHUNK_MAX_def)

lemma chunk_size_for_pos [simp]: "0 < chunk_size_for t"
  using chunk_size_for_bounds [of t] by (simp add: CHUNK_MIN_def)

lemma ceil_div_bounds:
  assumes "0 < (c::nat)"
  shows "r \<le> ((r + c - 1) div c) * c" and "((r + c - 1) div c) * c < r + c"
proof -
  have "(r + c - 1) mod c < c" using assms by simp
  then show "r \<le> ((r + c - 1) div c) * c" "((r + c - 1) div c) * c < r + c"
    using div_mult_mod_eq [of "r + c - 1" c] assms by linarith+
qed

definition pool_ok :: "chunk_pool \<Rightarrow> bool" where
  "pool_ok p \<longleftrightarrow> 0 < pchunk_size p \<and> pbase p \<le> ptotal p
     \<and> ptotal p \<le> pbase p + pn p * pchunk_size p
     \<and> pbase p + pn p * pchunk_size p < ptotal p + pchunk_size p"

lemma chunk_count_no_wrap:
  assumes "region \<le> 2 ^ 62 - 2 ^ 30"
  shows "(region + chunk_size_for region - 1) div chunk_size_for region < 2 ^ 32"
proof -
  let ?c = "chunk_size_for region"
  define n where "n = (region + ?c - 1) div ?c"
  have ub: "n * ?c < region + ?c" using ceil_div_bounds(2) [of ?c region] by (simp add: n_def)
  show ?thesis
  proof (cases "region div 64 > CHUNK_MAX")
    case True
    then have "?c = 2 ^ 30"
      by (simp add: chunk_size_for_def chunk_consts Let_def)
    with ub assms have "n < 2 ^ 32" by simp
    then show ?thesis by (simp add: n_def)
  next
    case False
    then have "region < 2 ^ 37" by (simp add: CHUNK_MAX_def)
    moreover have "2 ^ 26 \<le> ?c" using chunk_size_for_bounds [of region] by (simp add: CHUNK_MIN_def)
    moreover have "n * 2 ^ 26 \<le> n * ?c" using \<open>2 ^ 26 \<le> ?c\<close> by (rule mult_le_mono2)
    moreover have "?c \<le> 2 ^ 30" using chunk_size_for_bounds [of region] by (simp add: CHUNK_MAX_def)
    ultimately have "n * 2 ^ 26 < 2 ^ 37 + 2 ^ 30" using ub by linarith
    then have "n < 2 ^ 32" by simp
    then show ?thesis by (simp add: n_def)
  qed
qed

lemma pool_ok_init:
  assumes "base \<le> tot" and "tot - base \<le> 2 ^ 62 - 2 ^ 30"
  shows "pool_ok (chunk_pool_init tot base)"
proof -
  define r where "r = tot - base"
  define n where "n = (r + chunk_size_for r - 1) div chunk_size_for r"
  have "n < 2 ^ 32" using chunk_count_no_wrap assms(2) unfolding n_def r_def by blast
  then have pn: "pn (chunk_pool_init tot base) = n"
    unfolding chunk_pool_init_def Let_def r_def [symmetric] n_def [symmetric] by simp
  have "r \<le> n * chunk_size_for r" "n * chunk_size_for r < r + chunk_size_for r"
    using ceil_div_bounds [OF chunk_size_for_pos] unfolding n_def by blast+
  moreover have "tot = base + r" using assms(1) by (simp add: r_def)
  ultimately show ?thesis
    unfolding pool_ok_def pn by (simp add: chunk_pool_init_def Let_def flip: r_def)
qed

section \<open>The pieces partition the region\<close>

lemma chunk_start_less:
  assumes "pool_ok p" and "i < pn p"
  shows "chunk_start p i < ptotal p"
proof -
  have "Suc i * pchunk_size p \<le> pn p * pchunk_size p"
    using assms(2) by (intro mult_le_mono1) simp
  then show ?thesis using assms(1) by (simp add: pool_ok_def chunk_start_def)
qed

lemma chunk_stop_eq:
  assumes "pool_ok p" and "i < pn p"
  shows "chunk_stop p i = min (ptotal p) (chunk_start p (Suc i))"
  using assms chunk_start_less [OF assms]
  by (auto simp: chunk_stop_def chunk_last_def chunk_start_def pool_ok_def Let_def min_def)

lemma chunk_bounds:
  assumes "pool_ok p" and "i < pn p"
  shows "pbase p \<le> chunk_start p i" and "chunk_start p i < chunk_stop p i"
    and "chunk_stop p i \<le> ptotal p" and "chunk_stop p i - chunk_start p i \<le> pchunk_size p"
  using assms chunk_start_less [OF assms] chunk_stop_eq [OF assms]
  by (auto simp: pool_ok_def chunk_start_def)

end
