(* ===== verification/Chunk_Pool.thy ===== *)
theory Chunk_Pool
  imports Chunk_Plan
begin

text \<open>
  The concurrent half of gurl's chunked download (\<^verbatim>\<open>src/tool_chunked.c\<close>): worker threads
  that pull piece indices from a shared counter and fetch them, a single writer thread that
  drains a bounded queue into the output file, and the driving thread that waits for the
  workers, lets the writer drain, and combines the results.

  The operations on shared data are functions, one per critical section of the source
  (everything between \<open>chunk_mutex_lock\<close> and \<open>chunk_mutex_unlock\<close>).  The threads are
  an inductive step relation over the program counters of the workers, the writer and the
  driver; a step is one critical section, one callback entry, or one write of a job.
  Polling waits (\<open>curlx_wait_ms\<close>) change nothing and are not steps.

  The transfer engine and the server behind it are the parameter \<open>reply\<close>: asked for the bytes
  \<open>a\<close> to \<open>b\<close>, the engine passes the bytes \<open>reply a b\<close> to the write callback, in buffers of at most
  \<open>B\<close> bytes, and ends with \<open>CURLE_OK\<close> after the last of them or with an error at any point.
  Nothing is assumed of \<open>reply\<close>: the server may honour the range, ignore it and send the whole
  file, send less, or send an error page, none of which the code checks.  As every range is
  asked for once, a function of the range covers all that a server can do.  \<open>serves\<close> is the
  case of a server that honours ranges.
\<close>

section \<open>Shared data and critical sections\<close>

record chunk_wjob =
  joffset :: nat
  jbuf :: bytes

record chunk_writer =
  wqueue :: "chunk_wjob list"
  queued :: int
  wdone :: bool
  wresult :: CURLcode

datatype take_outcome = TakeJob chunk_wjob chunk_writer | TakeExit | TakeWait

definition chunk_writer_take :: "chunk_writer \<Rightarrow> take_outcome" where
  "chunk_writer_take wr =
     (case wqueue wr of
        job # rest \<Rightarrow>
          TakeJob job (wr\<lparr>wqueue := rest, queued := queued wr - int (length (jbuf job))\<rparr>)
      | [] \<Rightarrow> if wdone wr then TakeExit else TakeWait)"

definition chunk_writer_fail :: "chunk_writer \<Rightarrow> CURLcode \<Rightarrow> chunk_writer" where
  "chunk_writer_fail wr res = (if wresult wr = CURLE_OK then wr\<lparr>wresult := res\<rparr> else wr)"

text \<open>
  Writing a job once it is off the queue: skipped after an earlier error, else at its offset.
  \<open>None\<close> while \<open>write\<close> has not returned.
\<close>

definition chunk_writer_write ::
  "bool \<Rightarrow> int list \<Rightarrow> chunk_writer \<Rightarrow> bytes \<Rightarrow> chunk_wjob \<Rightarrow> (chunk_writer \<times> bytes) option" where
  "chunk_writer_write seek_ok rcs wr f job =
     (if wresult wr = CURLE_OK
      then (case chunk_write_at seek_ok rcs f (jbuf job) (joffset job) of
              None \<Rightarrow> None
            | Some (res, f', _) \<Rightarrow>
                Some (if res \<noteq> CURLE_OK then chunk_writer_fail wr res else wr, f'))
      else Some (wr, f))"

datatype enqueue_outcome = Enqueued chunk_writer | QueueFull | WriterFailed

definition chunk_enqueue :: "chunk_writer \<Rightarrow> chunk_wjob \<Rightarrow> enqueue_outcome" where
  "chunk_enqueue wr job =
     (if wresult wr \<noteq> CURLE_OK then WriterFailed
      else if queued wr < CHUNK_QUEUE_MAX
      then Enqueued (wr\<lparr>wqueue := wqueue wr @ [job], queued := queued wr + int (length (jbuf job))\<rparr>)
      else QueueFull)"

definition chunk_pool_take :: "chunk_pool \<Rightarrow> nat option \<times> chunk_pool" where
  "chunk_pool_take p =
     (if presult p \<noteq> CURLE_OK \<or> pnext p \<ge> pn p then (None, p)
      else (Some (pnext p), p\<lparr>pnext := pnext p + 1\<rparr>))"

definition chunk_pool_fail :: "chunk_pool \<Rightarrow> CURLcode \<Rightarrow> chunk_pool" where
  "chunk_pool_fail p res = (if presult p = CURLE_OK then p\<lparr>presult := res\<rparr> else p)"

definition chunk_pool_finish :: "chunk_pool \<Rightarrow> chunk_pool" where
  "chunk_pool_finish p = p\<lparr>pfinished := pfinished p + 1\<rparr>"

section \<open>Threads\<close>

text \<open>
  The program counter of a worker: at the top of its loop; inside \<open>curl_easy_perform\<close> for
  a piece, with the bytes still to come; inside the write callback with a copied buffer,
  trying to enqueue it; holding a failed transfer's code; past the loop; returned.
\<close>

datatype worker_pc =
    WkLoop
  | WkFetch nat bytes
  | WkCallback nat bytes bytes
  | WkFail CURLcode
  | WkExit
  | WkDone

record chunk_worker =
  cur_offset :: nat
  written :: nat
  wpc :: worker_pc

datatype writer_pc = WrLoop | WrJob chunk_wjob | WrExit

record chunk_sys =
  pool :: chunk_pool
  writer :: chunk_writer
  have_writer :: bool
  writer_at :: writer_pc
  workers :: "chunk_worker list"
  ofile :: bytes

text \<open>\<open>chunk_fetch_one\<close> up to the transfer: the running offset is set to the piece's start.\<close>

definition chunk_fetch_one :: "(nat \<Rightarrow> nat \<Rightarrow> bytes) \<Rightarrow> chunk_pool \<Rightarrow> chunk_worker \<Rightarrow> nat \<Rightarrow> chunk_worker" where
  "chunk_fetch_one reply p w idx =
     w\<lparr>cur_offset := chunk_start p idx,
       wpc := WkFetch idx (reply (chunk_start p idx) (chunk_last p idx))\<rparr>"

text \<open>A server that honours byte ranges of a file.\<close>

definition serves :: "(nat \<Rightarrow> nat \<Rightarrow> bytes) \<Rightarrow> bytes \<Rightarrow> bool" where
  "serves reply src \<longleftrightarrow> (\<forall>a b. a \<le> b \<and> b < length src \<longrightarrow> reply a b = slice src a (b + 1))"

text \<open>The counters a successful callback advances.\<close>

definition chunk_advance :: "chunk_worker \<Rightarrow> nat \<Rightarrow> chunk_worker" where
  "chunk_advance w n = w\<lparr>cur_offset := cur_offset w + n, written := written w + n\<rparr>"

abbreviation set_worker :: "chunk_sys \<Rightarrow> nat \<Rightarrow> chunk_worker \<Rightarrow> chunk_sys" where
  "set_worker s i w \<equiv> s\<lparr>workers := (workers s)[i := w]\<rparr>"

inductive cstep :: "(nat \<Rightarrow> nat \<Rightarrow> bytes) \<Rightarrow> nat \<Rightarrow> chunk_sys \<Rightarrow> chunk_sys \<Rightarrow> bool" for reply B where
  take_piece:
    "i < length (workers s) \<Longrightarrow> workers s ! i = w \<Longrightarrow> wpc w = WkLoop \<Longrightarrow>
     chunk_pool_take (pool s) = (Some idx, p') \<Longrightarrow>
     cstep reply B s (set_worker (s\<lparr>pool := p'\<rparr>) i (chunk_fetch_one reply (pool s) w idx))"
| take_none:
    "i < length (workers s) \<Longrightarrow> workers s ! i = w \<Longrightarrow> wpc w = WkLoop \<Longrightarrow>
     chunk_pool_take (pool s) = (None, p') \<Longrightarrow>
     cstep reply B s (set_worker s i (w\<lparr>wpc := WkExit\<rparr>))"
| callback_direct:
    "i < length (workers s) \<Longrightarrow> workers s ! i = w \<Longrightarrow> wpc w = WkFetch idx (buf @ rest) \<Longrightarrow>
     buf \<noteq> [] \<Longrightarrow> length buf \<le> B \<Longrightarrow> \<not> have_writer s \<Longrightarrow>
     chunk_write_at seek rcs (ofile s) buf (cur_offset w) = Some (res, f', rcs') \<Longrightarrow>
     w' = (if res = CURLE_OK then (chunk_advance w (length buf))\<lparr>wpc := WkFetch idx rest\<rparr>
           else w\<lparr>wpc := WkFail CURLE_WRITE_ERROR\<rparr>) \<Longrightarrow>
     cstep reply B s (set_worker (s\<lparr>ofile := f'\<rparr>) i w')"
| callback_bail:
    "i < length (workers s) \<Longrightarrow> workers s ! i = w \<Longrightarrow> wpc w = WkFetch idx (buf @ rest) \<Longrightarrow>
     buf \<noteq> [] \<Longrightarrow> length buf \<le> B \<Longrightarrow> have_writer s \<Longrightarrow>
     wresult (writer s) \<noteq> CURLE_OK \<or> presult (pool s) \<noteq> CURLE_OK \<or> \<not> alloc_ok \<Longrightarrow>
     cstep reply B s (set_worker s i (w\<lparr>wpc := WkFail CURLE_WRITE_ERROR\<rparr>))"
| callback_copy:
    "i < length (workers s) \<Longrightarrow> workers s ! i = w \<Longrightarrow> wpc w = WkFetch idx (buf @ rest) \<Longrightarrow>
     buf \<noteq> [] \<Longrightarrow> length buf \<le> B \<Longrightarrow> have_writer s \<Longrightarrow>
     wresult (writer s) = CURLE_OK \<Longrightarrow> presult (pool s) = CURLE_OK \<Longrightarrow>
     cstep reply B s (set_worker s i (w\<lparr>wpc := WkCallback idx buf rest\<rparr>))"
| enqueue:
    "i < length (workers s) \<Longrightarrow> workers s ! i = w \<Longrightarrow> wpc w = WkCallback idx buf rest \<Longrightarrow>
     chunk_enqueue (writer s) \<lparr>joffset = cur_offset w, jbuf = buf\<rparr> = Enqueued wr' \<Longrightarrow>
     cstep reply B s (set_worker (s\<lparr>writer := wr'\<rparr>) i
       ((chunk_advance w (length buf))\<lparr>wpc := WkFetch idx rest\<rparr>))"
| enqueue_failed:
    "i < length (workers s) \<Longrightarrow> workers s ! i = w \<Longrightarrow> wpc w = WkCallback idx buf rest \<Longrightarrow>
     chunk_enqueue (writer s) \<lparr>joffset = cur_offset w, jbuf = buf\<rparr> = WriterFailed \<Longrightarrow>
     cstep reply B s (set_worker s i (w\<lparr>wpc := WkFail CURLE_WRITE_ERROR\<rparr>))"
| transfer_ok:
    "i < length (workers s) \<Longrightarrow> workers s ! i = w \<Longrightarrow> wpc w = WkFetch idx [] \<Longrightarrow>
     cstep reply B s (set_worker s i (w\<lparr>wpc := WkLoop\<rparr>))"
| transfer_error:
    "i < length (workers s) \<Longrightarrow> workers s ! i = w \<Longrightarrow> wpc w = WkFetch idx rest \<Longrightarrow>
     e \<noteq> CURLE_OK \<Longrightarrow>
     cstep reply B s (set_worker s i (w\<lparr>wpc := WkFail e\<rparr>))"
| record_error:
    "i < length (workers s) \<Longrightarrow> workers s ! i = w \<Longrightarrow> wpc w = WkFail e \<Longrightarrow>
     cstep reply B s (set_worker (s\<lparr>pool := chunk_pool_fail (pool s) e\<rparr>) i (w\<lparr>wpc := WkExit\<rparr>))"
| worker_exit:
    "i < length (workers s) \<Longrightarrow> workers s ! i = w \<Longrightarrow> wpc w = WkExit \<Longrightarrow>
     cstep reply B s (set_worker (s\<lparr>pool := chunk_pool_finish (pool s)\<rparr>) i (w\<lparr>wpc := WkDone\<rparr>))"
| writer_takes:
    "have_writer s \<Longrightarrow> writer_at s = WrLoop \<Longrightarrow> chunk_writer_take (writer s) = TakeJob job wr' \<Longrightarrow>
     cstep reply B s (s\<lparr>writer := wr', writer_at := WrJob job\<rparr>)"
| writer_writes:
    "have_writer s \<Longrightarrow> writer_at s = WrJob job \<Longrightarrow>
     chunk_writer_write seek rcs (writer s) (ofile s) job = Some (wr', f') \<Longrightarrow>
     cstep reply B s (s\<lparr>writer := wr', ofile := f', writer_at := WrLoop\<rparr>)"
| writer_exits:
    "have_writer s \<Longrightarrow> writer_at s = WrLoop \<Longrightarrow> chunk_writer_take (writer s) = TakeExit \<Longrightarrow>
     cstep reply B s (s\<lparr>writer_at := WrExit\<rparr>)"
| driver_done:
    "have_writer s \<Longrightarrow> pfinished (pool s) \<ge> length (workers s) \<Longrightarrow> \<not> wdone (writer s) \<Longrightarrow>
     cstep reply B s (s\<lparr>writer := (writer s)\<lparr>wdone := True\<rparr>\<rparr>)"

abbreviation creach :: "(nat \<Rightarrow> nat \<Rightarrow> bytes) \<Rightarrow> nat \<Rightarrow> chunk_sys \<Rightarrow> chunk_sys \<Rightarrow> bool" where
  "creach reply B \<equiv> (cstep reply B)\<^sup>*\<^sup>*"

text \<open>
  The state in which \<open>chunk_download\<close> has opened its workers and started \<open>k\<close> of them.
\<close>

definition chunk_writer_init :: chunk_writer where
  "chunk_writer_init = \<lparr>wqueue = [], queued = 0, wdone = False, wresult = CURLE_OK\<rparr>"

definition chunk_worker_init :: chunk_worker where
  "chunk_worker_init = \<lparr>cur_offset = 0, written = 0, wpc = WkLoop\<rparr>"

definition chunk_sys_init :: "bool \<Rightarrow> nat \<Rightarrow> chunk_pool \<Rightarrow> bytes \<Rightarrow> chunk_sys" where
  "chunk_sys_init hw k p f =
     \<lparr>pool = p, writer = chunk_writer_init, have_writer = hw, writer_at = WrLoop,
      workers = replicate k chunk_worker_init, ofile = f\<rparr>"

definition chunk_final :: "chunk_sys \<Rightarrow> bool" where
  "chunk_final s \<longleftrightarrow> list_all (\<lambda>w. wpc w = WkDone) (workers s)
     \<and> (have_writer s \<longrightarrow> writer_at s = WrExit)"

definition chunk_result :: "chunk_sys \<Rightarrow> CURLcode" where
  "chunk_result s =
     (if have_writer s \<and> presult (pool s) = CURLE_OK then wresult (writer s) else presult (pool s))"

lemmas crit_defs =
  chunk_writer_take_def chunk_writer_fail_def chunk_writer_write_def chunk_enqueue_def
  chunk_pool_take_def chunk_pool_fail_def chunk_pool_finish_def chunk_fetch_one_def
  chunk_advance_def

end
