(* ===== verification/Transition.thy ===== *)
theory Transition
  imports Main
begin

text \<open>
  The contract every state machine of the development is held to: an invariant that each
  step keeps, a measure that each step decreases, and a step out of every state that is not
  final.  A machine that meets it keeps the invariant along every run, cannot run for longer
  than the measure of its first state, and whenever it stops it has reached a final state.
\<close>

locale step_invariant =
  fixes step :: "'s \<Rightarrow> 's \<Rightarrow> bool" and inv :: "'s \<Rightarrow> bool"
  assumes inv_step: "inv s \<Longrightarrow> step s t \<Longrightarrow> inv t"
begin

lemma inv_run: "step\<^sup>*\<^sup>* s t \<Longrightarrow> inv s \<Longrightarrow> inv t"
  by (induction rule: rtranclp_induct) (auto intro: inv_step)

end

locale terminating_machine = step_invariant step inv
  for step :: "'s \<Rightarrow> 's \<Rightarrow> bool" and inv :: "'s \<Rightarrow> bool" +
  fixes final :: "'s \<Rightarrow> bool" and mu :: "'s \<Rightarrow> nat"
  assumes mu_step: "inv s \<Longrightarrow> step s t \<Longrightarrow> mu t < mu s"
    and progress: "inv s \<Longrightarrow> \<not> final s \<Longrightarrow> \<exists>t. step s t"
begin

lemma run_length: "(step ^^ n) s t \<Longrightarrow> inv s \<Longrightarrow> n + mu t \<le> mu s \<and> inv t"
proof (induction n arbitrary: t)
  case (Suc n)
  then obtain u where "(step ^^ n) s u" "step u t" by auto
  with Suc mu_step [of u t] inv_step [of u t] show ?case by fastforce
qed auto

lemma run_bounded: "(step ^^ n) s t \<Longrightarrow> inv s \<Longrightarrow> n \<le> mu s"
  using run_length by fastforce

lemma no_infinite_run: "inv (f 0) \<Longrightarrow> \<exists>i. \<not> step (f i) (f (Suc i))"
proof (rule ccontr)
  assume "inv (f 0)" and "\<nexists>i. \<not> step (f i) (f (Suc i))"
  then have s: "step (f i) (f (Suc i))" for i by simp
  have "(step ^^ n) (f 0) (f n)" for n by (induction n) (use s in auto)
  from run_bounded [OF this [of "Suc (mu (f 0))"] \<open>inv (f 0)\<close>] show False by simp
qed

lemma reaches_final: "inv s \<Longrightarrow> \<exists>t. step\<^sup>*\<^sup>* s t \<and> final t"
proof (induction "mu s" arbitrary: s rule: less_induct)
  case less
  show ?case
  proof (cases "final s")
    case False
    then obtain u where u: "step s u" using progress less.prems by blast
    then have "\<exists>t. step\<^sup>*\<^sup>* u t \<and> final t" using less mu_step inv_step by blast
    with u show ?thesis by (meson converse_rtranclp_into_rtranclp)
  qed auto
qed

lemma stuck_is_final: "step\<^sup>*\<^sup>* s t \<Longrightarrow> inv s \<Longrightarrow> \<nexists>u. step t u \<Longrightarrow> final t"
  using inv_run progress by blast

end

end
