(* ===== verification/Chunk_Correct.thy ===== *)
theory Chunk_Correct
  imports Chunk_Pool Transition
begin

text \<open>
  Correctness of the concurrent download.  The invariant \<open>chunk_inv\<close> of the step relation of
  \<open>Chunk_Pool\<close> holds for every server: control flow, counters, the queue.  The invariant
  \<open>exact_inv\<close> is that of a server that honours ranges; it accounts for every byte handed out (it
  is in the file, in a job, or still to come on the worker fetching it), so that a run that ends
  with \<open>CURLE_OK\<close> leaves the remote file in the output file.
\<close>

section \<open>The plan does not change\<close>

lemma plan_upd [simp]:
  "chunk_start (p\<lparr>pnext := a\<rparr>) i = chunk_start p i"
  "chunk_start (p\<lparr>pfinished := b\<rparr>) i = chunk_start p i"
  "chunk_start (p\<lparr>presult := r\<rparr>) i = chunk_start p i"
  "chunk_stop (p\<lparr>pnext := a\<rparr>) i = chunk_stop p i"
  "chunk_stop (p\<lparr>pfinished := b\<rparr>) i = chunk_stop p i"
  "chunk_stop (p\<lparr>presult := r\<rparr>) i = chunk_stop p i"
  "chunk_last (p\<lparr>pnext := a\<rparr>) i = chunk_last p i"
  "chunk_last (p\<lparr>pfinished := b\<rparr>) i = chunk_last p i"
  "chunk_last (p\<lparr>presult := r\<rparr>) i = chunk_last p i"
  "pool_ok (p\<lparr>pnext := a\<rparr>) = pool_ok p"
  "pool_ok (p\<lparr>pfinished := b\<rparr>) = pool_ok p"
  "pool_ok (p\<lparr>presult := r\<rparr>) = pool_ok p"
  by (simp_all add: chunk_start_def chunk_stop_def chunk_last_def pool_ok_def Let_def)

lemma plan_fail [simp]:
  "chunk_start (chunk_pool_fail p e) i = chunk_start p i"
  "chunk_stop (chunk_pool_fail p e) i = chunk_stop p i" "chunk_last (chunk_pool_fail p e) i = chunk_last p i"
  "pool_ok (chunk_pool_fail p e) = pool_ok p"
  "pnext (chunk_pool_fail p e) = pnext p" "pn (chunk_pool_fail p e) = pn p"
  "pbase (chunk_pool_fail p e) = pbase p" "ptotal (chunk_pool_fail p e) = ptotal p"
  "pchunk_size (chunk_pool_fail p e) = pchunk_size p"
  "pfinished (chunk_pool_fail p e) = pfinished p"
  by (simp_all add: chunk_pool_fail_def)

lemma plan_finish [simp]:
  "chunk_start (chunk_pool_finish p) i = chunk_start p i"
  "chunk_stop (chunk_pool_finish p) i = chunk_stop p i" "chunk_last (chunk_pool_finish p) i = chunk_last p i"
  "pool_ok (chunk_pool_finish p) = pool_ok p"
  "pnext (chunk_pool_finish p) = pnext p" "pn (chunk_pool_finish p) = pn p"
  "pbase (chunk_pool_finish p) = pbase p" "ptotal (chunk_pool_finish p) = ptotal p"
  "pchunk_size (chunk_pool_finish p) = pchunk_size p"
  "presult (chunk_pool_finish p) = presult p"
  by (simp_all add: chunk_pool_finish_def)

lemma chunk_pool_take_Some:
  "chunk_pool_take p = (Some idx, p') \<Longrightarrow>
     idx = pnext p \<and> p' = p\<lparr>pnext := pnext p + 1\<rparr> \<and> pnext p < pn p \<and> presult p = CURLE_OK"
  by (auto simp: chunk_pool_take_def split: if_splits)

lemma chunk_pool_take_None:
  "chunk_pool_take p = (None, p') \<Longrightarrow> p' = p \<and> (presult p \<noteq> CURLE_OK \<or> pn p \<le> pnext p)"
  by (auto simp: chunk_pool_take_def split: if_splits)

lemma chunk_enqueue_Enqueued:
  "chunk_enqueue wr job = Enqueued wr' \<Longrightarrow>
     wr' = wr\<lparr>wqueue := wqueue wr @ [job], queued := queued wr + int (length (jbuf job))\<rparr>
     \<and> wresult wr = CURLE_OK \<and> queued wr < CHUNK_QUEUE_MAX"
  by (auto simp: chunk_enqueue_def split: if_splits)

lemma chunk_enqueue_Failed: "chunk_enqueue wr job = WriterFailed \<Longrightarrow> wresult wr \<noteq> CURLE_OK"
  by (auto simp: chunk_enqueue_def split: if_splits)

lemma chunk_writer_take_Job:
  "chunk_writer_take wr = TakeJob job wr' \<Longrightarrow>
     \<exists>rest. wqueue wr = job # rest
       \<and> wr' = wr\<lparr>wqueue := rest, queued := queued wr - int (length (jbuf job))\<rparr>"
  by (auto simp: chunk_writer_take_def split: list.splits if_splits)

lemma chunk_writer_take_Exit: "chunk_writer_take wr = TakeExit \<Longrightarrow> wqueue wr = [] \<and> wdone wr"
  by (auto simp: chunk_writer_take_def split: list.splits if_splits)

lemma chunk_writer_write_cases:
  assumes "chunk_writer_write seek rcs wr f job = Some (wr', f')"
  shows "wresult wr \<noteq> CURLE_OK \<and> wr' = wr \<and> f' = f
    \<or> wr' = wr \<and> f' = file_write f (joffset job) (jbuf job)
    \<or> (\<exists>e. e \<noteq> CURLE_OK \<and> wr' = wr\<lparr>wresult := e\<rparr>)"
  using assms
  by (auto simp: chunk_writer_write_def chunk_writer_fail_def dest: chunk_write_at_OK
      split: if_splits option.splits)

lemmas crit_dests =
  chunk_pool_take_Some chunk_pool_take_None chunk_enqueue_Enqueued chunk_enqueue_Failed
  chunk_writer_take_Job chunk_writer_take_Exit

section \<open>Workers at work\<close>

fun worker_ok :: "nat \<Rightarrow> chunk_pool \<Rightarrow> worker_pc \<Rightarrow> bool" where
  "worker_ok B p (WkFetch i rest) = (i < pnext p)"
| "worker_ok B p (WkCallback i buf rest) = (i < pnext p \<and> buf \<noteq> [] \<and> length buf \<le> B)"
| "worker_ok B p (WkFail e) = (e \<noteq> CURLE_OK)"
| "worker_ok B p _ = True"

definition data_inv :: "nat \<Rightarrow> chunk_sys \<Rightarrow> bool" where
  "data_inv B s \<longleftrightarrow> pool_ok (pool s) \<and> pnext (pool s) \<le> pn (pool s)
     \<and> (\<forall>k<length (workers s). worker_ok B (pool s) (wpc (workers s ! k)))"

lemma worker_ok_upd [simp]:
  "worker_ok B (p\<lparr>pfinished := b\<rparr>) pc = worker_ok B p pc"
  "worker_ok B (chunk_pool_finish p) pc = worker_ok B p pc"
  "worker_ok B (chunk_pool_fail p e) pc = worker_ok B p pc"
  by (cases pc; simp)+

lemma worker_ok_next: "worker_ok B p pc \<Longrightarrow> worker_ok B (p\<lparr>pnext := Suc (pnext p)\<rparr>) pc"
  by (cases pc) auto

lemma data_inv_step:
  assumes "cstep reply B s t" and "data_inv B s"
  shows "data_inv B t"
  using assms
proof (induction rule: cstep.cases)
  case (take_piece i s w idx p')
  then show ?case
    by (auto simp: data_inv_def chunk_fetch_one_def nth_list_update worker_ok_next dest!: chunk_pool_take_Some)
next
  case (callback_direct i s w idx buf rest seek rcs res f' rcs' w')
  then show ?case by (auto simp: data_inv_def chunk_advance_def nth_list_update)
next
  case (enqueue i s w idx buf rest wr')
  then show ?case by (auto simp: data_inv_def chunk_advance_def nth_list_update)
qed (auto simp: data_inv_def nth_list_update dest!: crit_dests)

section \<open>Workers and jobs carry the right bytes\<close>

fun worker_bytes :: "bytes \<Rightarrow> chunk_pool \<Rightarrow> nat \<Rightarrow> worker_pc \<Rightarrow> bool" where
  "worker_bytes src p cur (WkFetch i rest) =
     (chunk_start p i \<le> cur \<and> cur \<le> chunk_stop p i \<and> rest = slice src cur (chunk_stop p i))"
| "worker_bytes src p cur (WkCallback i buf rest) =
     (chunk_start p i \<le> cur \<and> cur \<le> chunk_stop p i \<and> buf @ rest = slice src cur (chunk_stop p i))"
| "worker_bytes src p cur _ = True"

definition job_bytes :: "bytes \<Rightarrow> chunk_wjob \<Rightarrow> bool" where
  "job_bytes src j \<longleftrightarrow> jbuf j \<noteq> [] \<and> jbuf j = slice src (joffset j) (joffset j + length (jbuf j))"

definition held :: "chunk_sys \<Rightarrow> chunk_wjob list" where
  "held s = (case writer_at s of WrJob j \<Rightarrow> [j] | _ \<Rightarrow> [])"

definition bytes_inv :: "bytes \<Rightarrow> chunk_sys \<Rightarrow> bool" where
  "bytes_inv src s \<longleftrightarrow> ptotal (pool s) = length src
     \<and> (\<forall>k<length (workers s). worker_bytes src (pool s) (cur_offset (workers s ! k)) (wpc (workers s ! k)))
     \<and> (\<forall>j\<in>set (held s @ wqueue (writer s)). job_bytes src j)"

lemma worker_bytes_upd [simp]:
  "worker_bytes src (p\<lparr>pnext := a\<rparr>) cur pc = worker_bytes src p cur pc"
  "worker_bytes src (chunk_pool_finish p) cur pc = worker_bytes src p cur pc"
  "worker_bytes src (chunk_pool_fail p e) cur pc = worker_bytes src p cur pc"
  by (cases pc; simp)+

text \<open>Advancing over a buffer keeps the worker's invariant and makes a good job.\<close>

lemma slice_buf_advance:
  assumes "buf @ rest = slice src cur stop" and "buf \<noteq> []"
  shows "rest = slice src (cur + length buf) stop" and "cur + length buf \<le> stop"
    and "buf = slice src cur (cur + length buf)" and "cur + length buf \<le> length src"
proof -
  have "length buf + length rest = min (stop - cur) (length src - cur)"
    using assms(1) by (metis length_append length_slice)
  with assms(2) show "cur + length buf \<le> stop" "cur + length buf \<le> length src"
    by (cases buf; simp)+
qed (use slice_append_prefix [OF assms(1)] in blast)+

lemma served_piece:
  assumes "serves reply src" and "pool_ok p" and "i < pn p" and "ptotal p = length src"
  shows "reply (chunk_start p i) (chunk_last p i) = slice src (chunk_start p i) (chunk_stop p i)"
  using assms chunk_bounds(2,3) [OF assms(2,3)] by (simp add: serves_def chunk_stop_def)

lemma bytes_inv_step:
  assumes "cstep reply B s t" and "data_inv B s" and "serves reply src" and "bytes_inv src s"
  shows "bytes_inv src t"
  using assms
proof (induction rule: cstep.cases)
  case (take_piece i s w idx p')
  then show ?case
    using served_piece [of reply src "pool s" idx] chunk_bounds(2) [of "pool s" idx]
    by (auto simp: data_inv_def bytes_inv_def held_def chunk_fetch_one_def nth_list_update dest!: chunk_pool_take_Some)
next
  case (callback_direct i s w idx buf rest seek rcs res f' rcs' w')
  then show ?case
    using slice_buf_advance [of buf rest src "cur_offset w" "chunk_stop (pool s) idx"]
    by (auto simp: bytes_inv_def held_def chunk_advance_def nth_list_update)
next
  case (enqueue i s w idx buf rest wr')
  then have "buf @ rest = slice src (cur_offset w) (chunk_stop (pool s) idx)" and "buf \<noteq> []"
    by (auto simp: data_inv_def bytes_inv_def)
  with enqueue show ?case
    using slice_buf_advance [of buf rest src "cur_offset w" "chunk_stop (pool s) idx"]
    by (auto simp: bytes_inv_def held_def chunk_advance_def job_bytes_def nth_list_update
        dest!: chunk_enqueue_Enqueued)
next
  case (writer_takes s job wr')
  then show ?case by (auto simp: bytes_inv_def held_def dest!: chunk_writer_take_Job)
next
  case (writer_writes s job seek rcs wr' f')
  then show ?case
    by (auto simp: bytes_inv_def held_def dest!: chunk_writer_write_cases)
qed (auto simp: bytes_inv_def held_def nth_list_update dest!: crit_dests)

section \<open>Failure is never forgotten\<close>

definition failed :: "chunk_sys \<Rightarrow> bool" where
  "failed s \<longleftrightarrow> presult (pool s) \<noteq> CURLE_OK \<or> wresult (writer s) \<noteq> CURLE_OK
     \<or> (\<exists>k<length (workers s). \<exists>e. wpc (workers s ! k) = WkFail e)"

lemma not_failedD:
  "\<not> failed s \<Longrightarrow> k < length (workers s) \<Longrightarrow> wpc (workers s ! k) \<noteq> WkFail e"
  by (auto simp: failed_def)

lemma failed_upd_other:
  assumes "\<exists>k<length (workers s). \<exists>e. wpc (workers s ! k) = WkFail e"
    and "\<nexists>e. wpc (workers s ! i) = WkFail e"
  shows "\<exists>k<length (workers s). \<exists>e. wpc ((workers s)[i := w] ! k) = WkFail e"
  using assms by (metis nth_list_update_neq)

lemma failed_step:
  assumes "cstep reply B s t" and "data_inv B s" and "failed s"
  shows "failed t"
  using assms
proof (induction rule: cstep.cases)
  case (record_error i s w e)
  then have "e \<noteq> CURLE_OK" by (auto simp: data_inv_def)
  then show ?case by (simp add: failed_def chunk_pool_fail_def record_error)
next
  case (writer_writes s job seek rcs wr' f')
  then show ?case by (auto simp: failed_def dest!: chunk_writer_write_cases)
qed (auto simp: failed_def chunk_pool_finish_def dest!: crit_dests intro!: failed_upd_other)

section \<open>Every byte handed out is accounted for\<close>

definition flight :: "chunk_pool \<Rightarrow> chunk_worker \<Rightarrow> nat set" where
  "flight p w = (case wpc w of
       WkFetch i _ \<Rightarrow> {cur_offset w ..< chunk_stop p i}
     | WkCallback i _ _ \<Rightarrow> {cur_offset w ..< chunk_stop p i}
     | _ \<Rightarrow> {})"

definition in_job :: "chunk_wjob \<Rightarrow> nat \<Rightarrow> bool" where
  "in_job j q \<longleftrightarrow> joffset j \<le> q \<and> q < joffset j + length (jbuf j)"

definition in_file :: "bytes \<Rightarrow> bytes \<Rightarrow> nat \<Rightarrow> bool" where
  "in_file src f q \<longleftrightarrow> q < length f \<and> f ! q = src ! q"

definition covered :: "bytes \<Rightarrow> chunk_sys \<Rightarrow> nat \<Rightarrow> bool" where
  "covered src s q \<longleftrightarrow> in_file src (ofile s) q
     \<or> (\<exists>j\<in>set (held s @ wqueue (writer s)). in_job j q)
     \<or> (\<exists>k<length (workers s). q \<in> flight (pool s) (workers s ! k))"

definition handed :: "chunk_pool \<Rightarrow> nat \<Rightarrow> bool" where
  "handed p q \<longleftrightarrow> q < ptotal p \<and> q < chunk_start p (pnext p)"

definition cover_inv :: "bytes \<Rightarrow> chunk_sys \<Rightarrow> bool" where
  "cover_inv src s \<longleftrightarrow> (failed s \<or> (\<forall>q. handed (pool s) q \<longrightarrow> covered src s q))"

lemma flight_upd [simp]:
  "flight (p\<lparr>pnext := a\<rparr>) w = flight p w"
  "flight (chunk_pool_finish p) w = flight p w"
  "flight (chunk_pool_fail p e) w = flight p w"
  by (auto simp: flight_def split: worker_pc.splits)

lemma in_file_write:
  assumes "buf = slice src off (off + length buf)" and "buf \<noteq> []"
  shows "in_file src f q \<Longrightarrow> in_file src (file_write f off buf) q"
    and "off \<le> q \<Longrightarrow> q < off + length buf \<Longrightarrow> in_file src (file_write f off buf) q"
proof -
  have l: "off + length buf \<le> length src"
  proof -
    have "length buf = min (length buf) (length src - off)"
      using assms(1) by (metis add_diff_cancel_left' length_slice)
    then show ?thesis using assms(2) by (cases buf) auto
  qed
  have *: "buf ! (q - off) = src ! q" if "off \<le> q" "q < off + length buf"
    using slice_nth [of "q - off" "off + length buf" off src] assms(1) that l by simp
  show "in_file src (file_write f off buf) q" if "in_file src f q"
    using that * assms(2) by (auto simp: in_file_def file_write_nth length_file_write)
  show "in_file src (file_write f off buf) q" if "off \<le> q" "q < off + length buf"
    using that * assms(2) by (auto simp: in_file_def file_write_nth length_file_write)
qed

text \<open>
  One worker moves: everything else that covered a byte still does, so only the bytes in
  flight on that worker need an argument.
\<close>

lemma covered_worker:
  assumes "covered src s q" and "i < length (workers s)" and "workers s ! i = w"
    and "\<And>v. flight p v = flight (pool s) v"
    and "q \<in> flight (pool s) w \<Longrightarrow> q \<in> flight p w'"
  shows "covered src (s\<lparr>pool := p, workers := (workers s)[i := w']\<rparr>) q"
proof -
  have "\<exists>k<length (workers s). q \<in> flight p ((workers s)[i := w'] ! k)"
    if "k < length (workers s)" and "q \<in> flight (pool s) (workers s ! k)" for k
    using that assms by (cases "k = i") (force intro: exI [of _ i] exI [of _ k])+
  then show ?thesis using assms(1) by (auto simp: covered_def held_def)
qed

lemma handed_upd [simp]:
  "handed (chunk_pool_finish p) q = handed p q"
  "handed (chunk_pool_fail p e) q = handed p q"
  by (simp_all add: handed_def)

lemma covered_same_pool:
  assumes "covered src s q" and "i < length (workers s)" and "workers s ! i = w"
    and "q \<in> flight (pool s) w \<Longrightarrow> q \<in> flight (pool s) w'"
  shows "covered src (set_worker s i w') q"
  using covered_worker [OF assms(1-3), of "pool s" w'] assms(4) by simp

lemma flight_Nil:
  assumes "data_inv B s" and "bytes_inv src s" and "i < length (workers s)" and "workers s ! i = w"
    and "wpc w = WkFetch idx []"
  shows "flight (pool s) w = {}"
proof -
  have "idx < pn (pool s)" and "slice src (cur_offset w) (chunk_stop (pool s) idx) = []"
    using assms by (auto simp: data_inv_def bytes_inv_def)
  moreover from this(1) have "chunk_stop (pool s) idx \<le> length src"
    using chunk_bounds(3) assms(1,2) by (fastforce simp: data_inv_def bytes_inv_def)
  ultimately show ?thesis by (auto simp: flight_def assms(5) slice_Nil_iff)
qed

lemma cover_step:
  assumes "cstep reply B s t" and "data_inv B s" and "bytes_inv src s" and "\<not> failed t"
    and cov: "\<And>q. handed (pool s) q \<Longrightarrow> covered src s q" and "handed (pool t) q"
  shows "covered src t q"
  using assms
proof (induction rule: cstep.cases)
  case (take_piece i s w idx p')
  note p' = chunk_pool_take_Some [OF take_piece(6)]
  have fl: "flight (pool s) w = {}" by (simp add: flight_def take_piece)
  show ?case
  proof (cases "handed (pool s) q")
    case True
    then have "covered src s q" using take_piece by blast
    then show ?thesis using fl p' take_piece covered_worker [of src s q i w p'] by simp
  next
    case False
    then have "chunk_start (pool s) idx \<le> q" "q < chunk_stop (pool s) idx"
      using take_piece p' chunk_stop_eq [of "pool s" idx]
      by (auto simp: handed_def data_inv_def bytes_inv_def)
    then show ?thesis using take_piece(3)
      by (auto simp: take_piece covered_def flight_def chunk_fetch_one_def p'
          intro!: disjI2 exI [of _ i])
  qed
next
  case (callback_direct i s w idx buf rest seek rcs res f' rcs' w')
  have ok: "res = CURLE_OK"
  proof (rule ccontr)
    assume "res \<noteq> CURLE_OK"
    then show False
      using not_failedD [of t i CURLE_WRITE_ERROR] callback_direct by simp
  qed
  then have f': "f' = file_write (ofile s) (cur_offset w) buf"
    using callback_direct(9) by (auto dest: chunk_write_at_OK)
  have buf: "buf = slice src (cur_offset w) (cur_offset w + length buf)"
    using callback_direct slice_append_prefix(1) by (fastforce simp: bytes_inv_def)
  let ?s = "s\<lparr>ofile := f'\<rparr>"
  have "covered src ?s q"
    using callback_direct in_file_write [OF buf] f'
    by (auto simp: covered_def held_def)
  moreover have "in_file src f' q \<or> q \<in> flight (pool s) w'" if "q \<in> flight (pool s) w"
    using that in_file_write(2) [OF buf] callback_direct ok f'
    by (auto simp: flight_def chunk_advance_def not_le)
  ultimately show ?case
    using covered_same_pool [of src ?s q i w w'] callback_direct
    by (auto simp: covered_def held_def)
next
  case (callback_copy i s w idx buf rest)
  then show ?case
    using covered_same_pool [of src s q i w "w\<lparr>wpc := WkCallback idx buf rest\<rparr>"]
    by (auto simp: flight_def)
next
  case (enqueue i s w idx buf rest wr')
  let ?job = "\<lparr>joffset = cur_offset w, jbuf = buf\<rparr>"
  let ?w = "(chunk_advance w (length buf))\<lparr>wpc := WkFetch idx rest\<rparr>"
  note wr' = chunk_enqueue_Enqueued [OF enqueue(6)]
  let ?s = "s\<lparr>writer := wr'\<rparr>"
  have "covered src ?s q" using enqueue wr' by (auto simp: covered_def held_def)
  moreover have "in_job ?job q \<or> q \<in> flight (pool s) ?w" if "q \<in> flight (pool s) w"
    using that enqueue by (auto simp: flight_def in_job_def chunk_advance_def)
  ultimately show ?case
    using covered_same_pool [of src ?s q i w ?w] enqueue wr'
    by (auto simp: covered_def held_def)
next
  case (transfer_ok i s w idx)
  then show ?case
    using flight_Nil [of B s src i w idx] covered_same_pool [of src s q i w "w\<lparr>wpc := WkLoop\<rparr>"]
    by auto
next
  case (writer_takes s job wr')
  from writer_takes have "covered src s q" by auto
  with writer_takes(2,4,5) show ?case
    by (auto simp: covered_def held_def dest!: chunk_writer_take_Job)
next
  case (writer_writes s job seek rcs wr' f')
  from writer_writes have c: "covered src s q" by auto
  have f': "f' = file_write (ofile s) (joffset job) (jbuf job)" and "wr' = writer s"
    using chunk_writer_write_cases [OF writer_writes(5)] writer_writes by (auto simp: failed_def)
  moreover have j: "jbuf job = slice src (joffset job) (joffset job + length (jbuf job))"
      "jbuf job \<noteq> []"
    using writer_writes by (auto simp: bytes_inv_def held_def job_bytes_def)
  ultimately show ?case
    using c writer_writes(2,4) in_file_write [OF j] by (auto simp: covered_def held_def in_job_def)
next
  case (take_none i s w p')
  then show ?case using covered_same_pool [of src s q i w "w\<lparr>wpc := WkExit\<rparr>"]
    by (auto simp: flight_def)
next
  case (record_error i s w e)
  have "flight (pool s) w = {}" by (simp add: flight_def record_error)
  then show ?case using record_error
      covered_worker [of src s q i w "chunk_pool_fail (pool s) e" "w\<lparr>wpc := WkExit\<rparr>"] by simp
next
  case (worker_exit i s w)
  have "flight (pool s) w = {}" by (simp add: flight_def worker_exit)
  then show ?case using worker_exit
      covered_worker [of src s q i w "chunk_pool_finish (pool s)" "w\<lparr>wpc := WkDone\<rparr>"] by simp
qed (auto simp: failed_def covered_def held_def)

lemma cover_inv_step:
  assumes "cstep reply B s t" and "data_inv B s" and "bytes_inv src s" and "cover_inv src s"
  shows "cover_inv src t"
  using assms cover_step [OF assms(1-3)] failed_step [OF assms(1,2)]
  by (auto simp: cover_inv_def)

section \<open>Control: exits, counters and the drained queue\<close>

definition done_workers :: "chunk_sys \<Rightarrow> nat set" where
  "done_workers s = {k. k < length (workers s) \<and> wpc (workers s ! k) = WkDone}"

definition exit_inv :: "chunk_sys \<Rightarrow> bool" where
  "exit_inv s \<longleftrightarrow>
     (\<forall>k<length (workers s). wpc (workers s ! k) = WkExit \<or> wpc (workers s ! k) = WkDone \<longrightarrow>
        pn (pool s) \<le> pnext (pool s) \<or> failed s)"

definition count_inv :: "chunk_sys \<Rightarrow> bool" where
  "count_inv s \<longleftrightarrow> pfinished (pool s) = card (done_workers s)
     \<and> (wdone (writer s) \<longrightarrow> done_workers s = {..<length (workers s)})
     \<and> (writer_at s = WrExit \<longrightarrow> wdone (writer s) \<and> wqueue (writer s) = [])"

definition queue_inv :: "chunk_sys \<Rightarrow> bool" where
  "queue_inv s \<longleftrightarrow> queued (writer s) = (\<Sum>j\<leftarrow>wqueue (writer s). int (length (jbuf j)))"

definition direct_inv :: "chunk_sys \<Rightarrow> bool" where
  "direct_inv s \<longleftrightarrow> (\<not> have_writer s \<longrightarrow> wqueue (writer s) = [] \<and> writer_at s = WrLoop
          \<and> wresult (writer s) = CURLE_OK
          \<and> (\<forall>k<length (workers s). \<forall>i b r. wpc (workers s ! k) \<noteq> WkCallback i b r))"

lemma done_workers_finite [simp]: "finite (done_workers s)"
  by (simp add: done_workers_def)

lemma done_workers_all:
  assumes "card (done_workers s) \<ge> length (workers s)"
  shows "done_workers s = {..<length (workers s)}"
  by (rule card_seteq) (use assms in \<open>auto simp: done_workers_def\<close>)

lemma done_workers_fields [simp]:
  "done_workers (s\<lparr>writer := v\<rparr>) = done_workers s"
  "done_workers (s\<lparr>writer_at := a\<rparr>) = done_workers s"
  "done_workers (s\<lparr>ofile := f\<rparr>) = done_workers s"
  by (simp_all add: done_workers_def)

lemma done_workers_set_worker:
  assumes "i < length (workers s)" and "wpc (workers s ! i) \<noteq> WkDone"
  shows "done_workers (set_worker s i w) = (if wpc w = WkDone then insert i (done_workers s) else done_workers s)"
    and "done_workers (set_worker (s\<lparr>pool := p\<rparr>) i w) = (if wpc w = WkDone then insert i (done_workers s) else done_workers s)"
    and "done_workers (set_worker (s\<lparr>writer := v\<rparr>) i w) = (if wpc w = WkDone then insert i (done_workers s) else done_workers s)"
    and "done_workers (set_worker (s\<lparr>ofile := f\<rparr>) i w) = (if wpc w = WkDone then insert i (done_workers s) else done_workers s)"
    and "i \<notin> done_workers s"
  using assms by (auto simp: done_workers_def nth_list_update)

lemma exit_inv_step:
  assumes "cstep reply B s t" and "data_inv B s" and "exit_inv s"
  shows "exit_inv t"
proof -
  have f: "failed s \<Longrightarrow> failed t" using failed_step [OF assms(1,2)] .
  have keep: "pn (pool s) \<le> pnext (pool s) \<Longrightarrow> pn (pool t) \<le> pnext (pool t)"
    using assms(1) by cases (auto dest!: crit_dests)
  have new: "pn (pool s) \<le> pnext (pool s) \<or> failed s
      \<or> (\<exists>k'<length (workers s). wpc (workers s ! k') = WkExit \<or> wpc (workers s ! k') = WkDone)
      \<or> failed t"
    if "k < length (workers t)" "wpc (workers t ! k) = WkExit \<or> wpc (workers t ! k) = WkDone" for k
    using assms(1)
  proof cases
    case (record_error i w e)
    then have "e \<noteq> CURLE_OK" using assms(2) by (auto simp: data_inv_def)
    then show ?thesis by (simp add: record_error failed_def chunk_pool_fail_def)
  qed (use that in \<open>auto simp: nth_list_update chunk_fetch_one_def failed_def
      dest!: crit_dests split: if_splits\<close>)
  show ?thesis
    unfolding exit_inv_def using assms(3) f keep new by (meson exit_inv_def)
qed

lemma done_workers_cong: "workers t = workers s \<Longrightarrow> done_workers t = done_workers s"
  by (simp add: done_workers_def)

lemma done_workers_keep:
  assumes "i < length (workers s)" and "wpc (workers s ! i) \<noteq> WkDone"
    and "workers t = (workers s)[i := w]" and "wpc w \<noteq> WkDone"
  shows "done_workers t = done_workers s"
  using assms by (auto simp: done_workers_def nth_list_update)

lemma count_inv_keep:
  assumes "count_inv s" and "done_workers t = done_workers s"
    and "pfinished (pool t) = pfinished (pool s)" and "length (workers t) = length (workers s)"
    and "wdone (writer t) = wdone (writer s)"
    and "writer_at t = WrExit \<Longrightarrow> wdone (writer s) \<and> wqueue (writer t) = []"
  shows "count_inv t"
  using assms by (auto simp: count_inv_def)

lemma exited_writer:
  assumes "count_inv s" and "writer_at s = WrExit"
  shows "wdone (writer s)" and "wqueue (writer s) = []"
    and "i < length (workers s) \<Longrightarrow> wpc (workers s ! i) = WkDone"
  using assms by (auto simp: count_inv_def done_workers_def)

lemma count_inv_worker:
  assumes "count_inv s" and "i < length (workers s)" and "wpc (workers s ! i) \<noteq> WkDone"
    and "workers t = (workers s)[i := w]" and "wpc w \<noteq> WkDone"
    and "pfinished (pool t) = pfinished (pool s)" and "wdone (writer t) = wdone (writer s)"
    and "writer_at t = writer_at s"
  shows "count_inv t"
  using count_inv_keep [OF assms(1) done_workers_keep [OF assms(2-5)]] assms
    exited_writer(3) [OF assms(1) _ assms(2)]
  by auto

lemma count_inv_step:
  assumes "cstep reply B s t" and "count_inv s"
  shows "count_inv t"
  using assms(1)
proof cases
  case (worker_exit i w)
  have d: "done_workers t = insert i (done_workers s)" and i: "i \<notin> done_workers s"
    using worker_exit done_workers_set_worker(2,5) [of i s] by simp_all
  have "\<not> wdone (writer s)" using assms(2) i worker_exit(2) by (auto simp: count_inv_def)
  moreover have "pfinished (pool t) = card (insert i (done_workers s))"
    using assms(2) i by (simp add: worker_exit count_inv_def chunk_pool_finish_def)
  ultimately show ?thesis
    using assms(2) unfolding count_inv_def d by (auto simp: worker_exit)
next
  case driver_done
  then show ?thesis using assms(2) done_workers_all [of s] by (auto simp: count_inv_def)
next
  case (writer_writes job seek rcs wr' f')
  then show ?thesis using assms(2) by (auto simp: count_inv_def dest!: chunk_writer_write_cases)
next
  case (writer_takes job wr')
  then show ?thesis
    by (intro count_inv_keep [OF assms(2)]) (auto intro: done_workers_cong dest!: crit_dests)
next
  case writer_exits
  then show ?thesis
    by (intro count_inv_keep [OF assms(2)]) (auto intro: done_workers_cong dest!: crit_dests)
next
  case (take_piece i w idx p')
  show ?thesis
    by (rule count_inv_worker [OF assms(2), of i t])
      (use take_piece in \<open>auto simp: chunk_fetch_one_def dest!: crit_dests\<close>)
next
  case (take_none i w p')
  show ?thesis
    by (rule count_inv_worker [OF assms(2), of i t])
      (use take_none in \<open>auto dest!: crit_dests\<close>)
next
  case (callback_direct i w idx buf rest seek rcs res f' rcs' w')
  show ?thesis
    by (rule count_inv_worker [OF assms(2), of i t])
      (use callback_direct in \<open>auto split: if_splits dest!: crit_dests\<close>)
next
  case (callback_bail i w idx buf rest alloc_ok)
  show ?thesis
    by (rule count_inv_worker [OF assms(2), of i t])
      (use callback_bail in \<open>auto dest!: crit_dests\<close>)
next
  case (callback_copy i w idx buf rest)
  show ?thesis
    by (rule count_inv_worker [OF assms(2), of i t])
      (use callback_copy in \<open>auto dest!: crit_dests\<close>)
next
  case (enqueue i w idx buf rest wr')
  show ?thesis
    by (rule count_inv_worker [OF assms(2), of i t])
      (use enqueue in \<open>auto dest!: crit_dests\<close>)
next
  case (enqueue_failed i w idx buf rest)
  show ?thesis
    by (rule count_inv_worker [OF assms(2), of i t])
      (use enqueue_failed in \<open>auto dest!: crit_dests\<close>)
next
  case (transfer_ok i w idx)
  show ?thesis
    by (rule count_inv_worker [OF assms(2), of i t])
      (use transfer_ok in \<open>auto dest!: crit_dests\<close>)
next
  case (transfer_error i w idx rest e)
  show ?thesis
    by (rule count_inv_worker [OF assms(2), of i t])
      (use transfer_error in \<open>auto dest!: crit_dests\<close>)
next
  case (record_error i w e)
  show ?thesis
    by (rule count_inv_worker [OF assms(2), of i t])
      (use record_error in \<open>auto dest!: crit_dests\<close>)
qed

lemma queue_inv_step:
  assumes "cstep reply B s t" and "queue_inv s"
  shows "queue_inv t"
  using assms
proof (induction rule: cstep.cases)
  case (writer_writes s job seek rcs wr' f')
  then show ?case by (auto simp: queue_inv_def dest!: chunk_writer_write_cases)
qed (auto simp: queue_inv_def dest!: crit_dests)

lemma direct_inv_step:
  assumes "cstep reply B s t" and "direct_inv s"
  shows "direct_inv t"
  using assms
  by (induction rule: cstep.cases)
    (auto simp: direct_inv_def nth_list_update chunk_fetch_one_def chunk_advance_def
      dest!: crit_dests)

definition size_inv :: "bytes \<Rightarrow> chunk_sys \<Rightarrow> bool" where
  "size_inv src s \<longleftrightarrow> length (ofile s) \<le> length src"

lemma length_file_write_le:
  "length f \<le> n \<Longrightarrow> off + length d \<le> n \<Longrightarrow> length (file_write f off d) \<le> n"
  by (simp add: length_file_write)

lemma chunk_write_at_size:
  assumes "chunk_write_at seek rcs f buf off = Some (res, f', rcs')"
    and "length f \<le> n" and "off + length buf \<le> n"
  shows "length f' \<le> n"
  using chunk_write_at_partial [OF assms(1)] assms(2,3)
  by (auto intro!: length_file_write_le)

lemma size_inv_step:
  assumes "cstep reply B s t" and "bytes_inv src s" and "size_inv src s"
  shows "size_inv src t"
  using assms(1)
proof cases
  case (callback_direct i w idx buf rest seek rcs res f' rcs' w')
  then have "buf @ rest = slice src (cur_offset w) (chunk_stop (pool s) idx)"
    using assms(2) by (auto simp: bytes_inv_def)
  from slice_buf_advance(4) [OF this] callback_direct assms(3) show ?thesis
    by (auto simp: size_inv_def intro: chunk_write_at_size)
next
  case (writer_writes job seek rcs wr' f')
  then have "jbuf job @ [] = slice src (joffset job) (joffset job + length (jbuf job))"
      "jbuf job \<noteq> []"
    using assms(2) by (auto simp: bytes_inv_def held_def job_bytes_def)
  from slice_buf_advance(4) [OF this] writer_writes assms(3) show ?thesis
    by (auto simp: size_inv_def chunk_writer_write_def intro: chunk_write_at_size
        split: if_splits option.splits)
qed (use assms(3) in \<open>auto simp: size_inv_def\<close>)

section \<open>The invariant and its consequences\<close>

definition chunk_inv :: "nat \<Rightarrow> chunk_sys \<Rightarrow> bool" where
  "chunk_inv B s \<longleftrightarrow> data_inv B s \<and> exit_inv s \<and> count_inv s \<and> queue_inv s \<and> direct_inv s"

definition exact_inv :: "bytes \<Rightarrow> nat \<Rightarrow> chunk_sys \<Rightarrow> bool" where
  "exact_inv src B s \<longleftrightarrow> chunk_inv B s \<and> bytes_inv src s \<and> cover_inv src s \<and> size_inv src s"

interpretation chunk: step_invariant "cstep reply B" "chunk_inv B" for reply B
  by unfold_locales
    (simp add: chunk_inv_def data_inv_step exit_inv_step count_inv_step queue_inv_step direct_inv_step)

interpretation exact: step_invariant "cstep reply B" "\<lambda>s. serves reply src \<and> exact_inv src B s" for reply src B
proof
  fix s t assume i: "serves reply src \<and> exact_inv src B s" and st: "cstep reply B s t"
  then have d: "data_inv B s" "bytes_inv src s" "cover_inv src s" "size_inv src s" "chunk_inv B s"
    by (simp_all add: exact_inv_def chunk_inv_def)
  then show "serves reply src \<and> exact_inv src B t"
    using i chunk.inv_step [OF d(5) st] bytes_inv_step [OF st d(1) _ d(2)] cover_inv_step [OF st d(1-3)] size_inv_step [OF st d(2,4)]
    by (simp add: exact_inv_def)
qed

text \<open>A pool from which \<open>chunk_download\<close> starts, and an output file that is right before \<open>base\<close>.\<close>

definition pool_start_ok :: "chunk_pool \<Rightarrow> bool" where
  "pool_start_ok p \<longleftrightarrow> pool_ok p \<and> pnext p = 0 \<and> pfinished p = 0 \<and> presult p = CURLE_OK"

definition chunk_start_ok :: "bytes \<Rightarrow> chunk_pool \<Rightarrow> bytes \<Rightarrow> bool" where
  "chunk_start_ok src p f \<longleftrightarrow> pool_start_ok p \<and> ptotal p = length src \<and> pbase p \<le> length f \<and> length f \<le> length src
     \<and> take (pbase p) f = take (pbase p) src"

lemma chunk_inv_init:
  assumes "pool_start_ok p"
  shows "chunk_inv B (chunk_sys_init hw k p f)"
proof -
  have "done_workers (chunk_sys_init hw k p f) = {}"
    by (auto simp: done_workers_def chunk_sys_init_def chunk_worker_init_def)
  then show ?thesis
    using assms by (simp add: pool_start_ok_def chunk_inv_def data_inv_def exit_inv_def count_inv_def queue_inv_def
        direct_inv_def chunk_sys_init_def chunk_worker_init_def chunk_writer_init_def)
qed

lemma exact_inv_init:
  assumes "chunk_start_ok src p f"
  shows "exact_inv src B (chunk_sys_init hw k p f)"
proof -
  note d = assms [unfolded chunk_start_ok_def pool_start_ok_def]
  have "f ! q = src ! q" if "q < pbase p" for q
    using d that by (metis nth_take)
  then have "cover_inv src (chunk_sys_init hw k p f)"
    using d by (auto simp: cover_inv_def handed_def covered_def in_file_def chunk_sys_init_def
        chunk_start_def)
  moreover have "chunk_inv B (chunk_sys_init hw k p f)" using assms chunk_inv_init by (simp add: chunk_start_ok_def)
  ultimately show ?thesis
    using d by (simp add: exact_inv_def bytes_inv_def size_inv_def chunk_sys_init_def chunk_worker_init_def
        chunk_writer_init_def held_def)
qed

lemma chunk_run_inv:
  "pool_start_ok p \<Longrightarrow> creach reply B (chunk_sys_init hw k p f) s \<Longrightarrow> chunk_inv B s"
  using chunk.inv_run chunk_inv_init by blast

lemma exact_run_inv:
  "serves reply src \<Longrightarrow> chunk_start_ok src p f \<Longrightarrow> creach reply B (chunk_sys_init hw k p f) s \<Longrightarrow> exact_inv src B s"
  using exact.inv_run [of reply B _ s src] exact_inv_init by blast

lemma workers_length_run:
  "creach reply B s t \<Longrightarrow> length (workers t) = length (workers s) \<and> have_writer t = have_writer s"
  by (induction rule: rtranclp_induct) (auto elim!: cstep.cases)

lemma file_eqI:
  assumes "length f \<le> length src" and "\<And>q. q < length src \<Longrightarrow> in_file src f q"
  shows "f = src"
proof (rule nth_equalityI)
  show "length f = length src"
    using assms(1) assms(2) [of "length src - 1"] by (cases src) (auto simp: in_file_def)
qed (use assms in \<open>auto simp: in_file_def\<close>)

lemma final_OK_all_covered:
  assumes e: "exact_inv src B s" and "chunk_final s" and "chunk_result s = CURLE_OK"
    and "workers s \<noteq> []" and q: "q < length src"
  shows "in_file src (ofile s) q"
proof -
  have inv: "chunk_inv B s" "bytes_inv src s" "cover_inv src s" using e by (simp_all add: exact_inv_def)
  have dn: "wpc (workers s ! k) = WkDone" if "k < length (workers s)" for k
    using assms(2) that by (simp add: chunk_final_def list_all_length)
  have nf: "\<not> failed s"
    using inv(1) assms(2,3) dn
    by (auto simp: failed_def chunk_result_def chunk_inv_def direct_inv_def split: if_splits)
  have "pn (pool s) \<le> pnext (pool s)"
    using inv(1) assms(4) dn [of 0] nf by (auto simp: chunk_inv_def exit_inv_def)
  then have "pn (pool s) * pchunk_size (pool s) \<le> pnext (pool s) * pchunk_size (pool s)"
    by (rule mult_le_mono1)
  then have "handed (pool s) q"
    using inv(1,2) q unfolding chunk_inv_def data_inv_def bytes_inv_def handed_def chunk_start_def pool_ok_def
    by linarith
  then have "covered src s q" using inv(3) nf by (auto simp: cover_inv_def)
  moreover have "held s @ wqueue (writer s) = []"
  proof (cases "have_writer s")
    case True
    then have "writer_at s = WrExit" using assms(2) by (simp add: chunk_final_def)
    with exited_writer(2) [of s] inv(1) show ?thesis by (simp add: chunk_inv_def held_def)
  next
    case False
    with inv(1) show ?thesis by (simp add: chunk_inv_def direct_inv_def held_def)
  qed
  ultimately show ?thesis using dn by (auto simp: covered_def flight_def)
qed

lemma chunk_final_OK:
  assumes "exact_inv src B s" and "chunk_final s" and "chunk_result s = CURLE_OK"
    and "workers s \<noteq> []"
  shows "ofile s = src"
  by (rule file_eqI)
    (use assms final_OK_all_covered in \<open>auto simp: exact_inv_def size_inv_def\<close>)

text \<open>Whatever the outcome, a run that failed says so, and the queue stays bounded.\<close>

lemma chunk_final_failed:
  assumes "chunk_final s" and "chunk_inv B s" and "failed s"
  shows "chunk_result s \<noteq> CURLE_OK"
  using assms by (auto simp: failed_def chunk_result_def chunk_final_def list_all_length
      chunk_inv_def direct_inv_def)

end
