(* ===== verification/Chunk_Progress.thy ===== *)
theory Chunk_Progress
  imports Chunk_Correct
begin

text \<open>
  Progress of the concurrent download.  A measure that every step of \<open>Chunk_Pool\<close>
  decreases, and a step out of every reachable state that is not final: no interleaving
  deadlocks and none runs forever, whatever the server sends.  The machine is also run with the failing steps removed,
  which shows that a download can always still succeed as long as nothing has failed.
\<close>

section \<open>The measure\<close>

fun worker_weight :: "worker_pc \<Rightarrow> nat" where
  "worker_weight WkLoop = 4"
| "worker_weight (WkFetch i rest) = 5 + 4 * length rest"
| "worker_weight (WkCallback i buf rest) = 4 + 4 * length (buf @ rest)"
| "worker_weight (WkFail e) = 3"
| "worker_weight WkExit = 2"
| "worker_weight WkDone = 0"

fun writer_weight :: "writer_pc \<Rightarrow> nat" where
  "writer_weight WrLoop = 1"
| "writer_weight (WrJob j) = 2"
| "writer_weight WrExit = 0"

definition workers_weight :: "chunk_worker list \<Rightarrow> nat" where
  "workers_weight ws = (\<Sum>w\<leftarrow>ws. worker_weight (wpc w))"

text \<open>The work of the pieces that are not handed out.\<close>

definition todo :: "(nat \<Rightarrow> nat \<Rightarrow> bytes) \<Rightarrow> chunk_pool \<Rightarrow> nat" where
  "todo reply p = (\<Sum>i\<in>{pnext p..<pn p}. 2 + 4 * length (reply (chunk_start p i) (chunk_last p i)))"

definition chunk_measure :: "(nat \<Rightarrow> nat \<Rightarrow> bytes) \<Rightarrow> chunk_sys \<Rightarrow> nat" where
  "chunk_measure reply s =
     todo reply (pool s)
     + workers_weight (workers s) + 2 * length (wqueue (writer s)) + writer_weight (writer_at s)
     + (if wdone (writer s) then 0 else 1)"

lemma workers_weight_update:
  assumes "i < length ws"
  shows "workers_weight (ws[i := w]) + worker_weight (wpc (ws ! i))
         = workers_weight ws + worker_weight (wpc w)"
  using assms
proof (induction ws arbitrary: i)
  case (Cons v ws)
  then show ?case
    by (cases i) (auto simp: workers_weight_def)
qed simp

lemma todo_upd [simp]:
  "todo reply (chunk_pool_fail p e) = todo reply p" "todo reply (chunk_pool_finish p) = todo reply p"
  by (simp_all add: todo_def)

lemma todo_next:
  assumes "pnext p < pn p"
  shows "todo reply p = 2 + 4 * length (reply (chunk_start p (pnext p)) (chunk_last p (pnext p))) + todo reply (p\<lparr>pnext := Suc (pnext p)\<rparr>)"
  using assms by (simp add: todo_def sum.atLeast_Suc_lessThan)

text \<open>A worker that sheds weight, with nothing else getting heavier, decreases the measure.\<close>

lemma measure_worker:
  assumes "i < length (workers s)" and "workers t = (workers s)[i := w]"
    and "wdone (writer t) = wdone (writer s)" and "writer_at t = writer_at s"
    and "todo reply (pool t) = todo reply (pool s)"
    and "worker_weight (wpc w) + 2 * length (wqueue (writer t))
         < worker_weight (wpc (workers s ! i)) + 2 * length (wqueue (writer s))"
  shows "chunk_measure reply t < chunk_measure reply s"
  using assms workers_weight_update [OF assms(1), of w] by (simp add: chunk_measure_def)

lemma measure_take:
  assumes "i < length (workers s)" and "workers s ! i = w" and "wpc w = WkLoop"
    and "chunk_pool_take (pool s) = (Some idx, p')"
    and "t = set_worker (s\<lparr>pool := p'\<rparr>) i (chunk_fetch_one reply (pool s) w idx)"
  shows "chunk_measure reply t < chunk_measure reply s"
proof -
  note p' = chunk_pool_take_Some [OF assms(4)]
  show ?thesis
    using workers_weight_update [OF assms(1), of "chunk_fetch_one reply (pool s) w idx"] p' todo_next [of "pool s" reply] assms(2,3)
    by (simp add: assms(5) chunk_measure_def chunk_fetch_one_def)
qed

lemma chunk_measure_step:
  assumes "cstep reply B s t" and "data_inv B s"
  shows "chunk_measure reply t < chunk_measure reply s"
  using assms(1)
proof cases
  case (take_piece i w idx p')
  with measure_take [of i s w idx p' t reply] show ?thesis by simp
next
  case (take_none i w p')
  show ?thesis by (rule measure_worker [of i s t]) (use take_none in auto)
next
  case (callback_direct i w idx buf rest seek rcs res f' rcs' w')
  show ?thesis by (rule measure_worker [of i s t w'])
      (use callback_direct in \<open>auto simp: chunk_advance_def\<close>)
next
  case (callback_bail i w idx buf rest alloc_ok)
  show ?thesis by (rule measure_worker [of i s t]) (use callback_bail in auto)
next
  case (callback_copy i w idx buf rest)
  show ?thesis by (rule measure_worker [of i s t]) (use callback_copy in auto)
next
  case (enqueue i w idx buf rest wr')
  have "buf \<noteq> []" using enqueue assms(2) by (auto simp: data_inv_def)
  then show ?thesis
    by (intro measure_worker [of i s t])
      (use enqueue in \<open>auto simp: chunk_advance_def neq_Nil_conv dest!: crit_dests\<close>)
next
  case (enqueue_failed i w idx buf rest)
  show ?thesis by (rule measure_worker [of i s t]) (use enqueue_failed in auto)
next
  case (transfer_ok i w idx)
  show ?thesis by (rule measure_worker [of i s t]) (use transfer_ok in auto)
next
  case (transfer_error i w idx rest e)
  show ?thesis by (rule measure_worker [of i s t]) (use transfer_error in auto)
next
  case (record_error i w e)
  show ?thesis by (rule measure_worker [of i s t]) (use record_error in auto)
next
  case (worker_exit i w)
  show ?thesis by (rule measure_worker [of i s t]) (use worker_exit in auto)
next
  case (writer_takes job wr')
  then show ?thesis by (auto simp: chunk_measure_def dest!: crit_dests)
next
  case (writer_writes job seek rcs wr' f')
  then show ?thesis by (auto simp: chunk_measure_def dest!: chunk_writer_write_cases)
qed (auto simp: chunk_measure_def)

section \<open>No state is stuck\<close>

text \<open>
  The steps of a run in which nothing fails: no transfer error, no failed write, no failed
  allocation.
\<close>

definition cstep_good :: "(nat \<Rightarrow> nat \<Rightarrow> bytes) \<Rightarrow> nat \<Rightarrow> chunk_sys \<Rightarrow> chunk_sys \<Rightarrow> bool" where
  "cstep_good reply B s t \<longleftrightarrow> cstep reply B s t \<and> (failed t \<longrightarrow> failed s)"

lemma chunk_write_at_full:
  assumes "buf \<noteq> []"
  shows "chunk_write_at True [int (length buf)] f buf off = Some (CURLE_OK, file_write f off buf, [])"
  using assms by (simp add: chunk_write_at_def write_loop_Cons)

lemma failed_set_worker:
  assumes "failed (set_worker s i w)" and "\<nexists>e. wpc w = WkFail e"
  shows "failed s"
proof -
  have "wpc (workers s ! k) = WkFail e"
    if "k < length (workers s)" and "wpc ((workers s)[i := w] ! k) = WkFail e" for k e
    using that assms(2) by (cases "k = i") auto
  with assms(1) show ?thesis by (auto simp: failed_def)
qed

lemma goodI: "cstep reply B s t \<Longrightarrow> (failed t \<Longrightarrow> failed s) \<Longrightarrow> \<exists>t. cstep_good reply B s t"
  by (auto simp: cstep_good_def)

text \<open>The writer can always move once it has a job or nothing more to wait for.\<close>

lemma writer_moves:
  assumes "have_writer s" and "writer_at s \<noteq> WrExit" and "wqueue (writer s) \<noteq> [] \<or> wdone (writer s) \<or> writer_at s \<noteq> WrLoop"
  shows "\<exists>t. cstep_good reply B s t"
proof (cases "writer_at s")
  case WrLoop
  show ?thesis
  proof (cases "wqueue (writer s)")
    case Nil
    then have "chunk_writer_take (writer s) = TakeExit"
      using assms(3) WrLoop by (simp add: chunk_writer_take_def)
    from goodI [OF cstep.writer_exits [OF assms(1) WrLoop this]] show ?thesis
      by (simp add: failed_def)
  next
    case (Cons j js)
    then obtain wr' where "chunk_writer_take (writer s) = TakeJob j wr'"
      by (simp add: chunk_writer_take_def)
    from goodI [OF cstep.writer_takes [OF assms(1) WrLoop this]] chunk_writer_take_Job [OF this]
    show ?thesis by (auto simp: failed_def)
  qed
next
  case (WrJob j)
  let ?rcs = "[int (length (jbuf j))]"
  have "chunk_writer_write True ?rcs (writer s) (ofile s) j
      = Some (writer s, if wresult (writer s) = CURLE_OK
                        then file_write (ofile s) (joffset j) (jbuf j) else ofile s)"
  proof (cases "jbuf j = []")
    case True
    then show ?thesis by (simp add: chunk_writer_write_def chunk_write_at_def file_write_def)
  next
    case False
    then show ?thesis by (simp add: chunk_writer_write_def chunk_write_at_full)
  qed
  from goodI [OF cstep.writer_writes [OF assms(1) WrJob this]] show ?thesis
    by (simp add: failed_def)
qed (use assms in simp)

lemma worker_good:
  assumes "cstep reply B s (set_worker s' i w)" and "\<nexists>e. wpc w = WkFail e"
    and "failed s' \<Longrightarrow> failed s"
  shows "\<exists>t. cstep_good reply B s t"
  using assms failed_set_worker by (auto intro: goodI)

lemma worker_moves:
  assumes inv: "chunk_inv B s" and B: "0 < B" and i: "i < length (workers s)"
    and nd: "wpc (workers s ! i) \<noteq> WkDone"
  shows "\<exists>t. cstep_good reply B s t"
proof (cases "wpc (workers s ! i)")
  case WkLoop
  show ?thesis
  proof (cases "chunk_pool_take (pool s)")
    case (Pair r p')
    show ?thesis
    proof (cases r)
      case None
      with Pair show ?thesis by (intro worker_good [OF cstep.take_none [OF i refl WkLoop]]) auto
    next
      case (Some idx)
      with Pair have "chunk_pool_take (pool s) = (Some idx, p')" by simp
      from worker_good [OF cstep.take_piece [OF i refl WkLoop this]] chunk_pool_take_Some [OF this]
      show ?thesis by (auto simp: chunk_fetch_one_def failed_def)
    qed
  qed
next
  case (WkFetch idx rest)
  show ?thesis
  proof (cases rest)
    case Nil
    with WkFetch show ?thesis by (intro worker_good [OF cstep.transfer_ok [OF i refl]]) auto
  next
    case (Cons b bs)
    let ?w = "workers s ! i"
    have pc: "wpc ?w = WkFetch idx ([b] @ bs)" using WkFetch Cons by simp
    show ?thesis
    proof (cases "have_writer s")
      case False
      with B show ?thesis
        by (intro worker_good [OF cstep.callback_direct [OF i refl pc _ _ False chunk_write_at_full refl]])
          (auto simp: failed_def)
    next
      case True
      show ?thesis
      proof (cases "wresult (writer s) = CURLE_OK \<and> presult (pool s) = CURLE_OK")
        case ok: True
        show ?thesis
          by (rule worker_good [OF cstep.callback_copy [OF i refl pc _ _ True]]) (use ok B in auto)
      next
        case False
        show ?thesis
          by (rule goodI [OF cstep.callback_bail [OF i refl pc _ _ True]])
            (use False B in \<open>auto simp: failed_def\<close>)
      qed
    qed
  qed
next
  case (WkCallback idx buf rest)
  let ?job = "\<lparr>joffset = cur_offset (workers s ! i), jbuf = buf\<rparr>"
  have hw: "have_writer s" using inv i WkCallback by (auto simp: chunk_inv_def direct_inv_def)
  show ?thesis
  proof (cases "chunk_enqueue (writer s) ?job")
    case (Enqueued wr')
    from worker_good [OF cstep.enqueue [OF i refl WkCallback this]] chunk_enqueue_Enqueued [OF this]
    show ?thesis by (auto simp: failed_def)
  next
    case WriterFailed
    from goodI [OF cstep.enqueue_failed [OF i refl WkCallback this]] chunk_enqueue_Failed [OF this]
    show ?thesis by (simp add: failed_def)
  next
    case QueueFull
    then have "queued (writer s) > 0"
      by (auto simp: chunk_enqueue_def CHUNK_QUEUE_MAX_def split: if_splits)
    then have "wqueue (writer s) \<noteq> []" using inv by (auto simp: chunk_inv_def queue_inv_def)
    moreover have "writer_at s \<noteq> WrExit"
      using exited_writer(3) [of s i] inv i nd by (auto simp: chunk_inv_def)
    ultimately show ?thesis using writer_moves hw by blast
  qed
next
  case (WkFail e)
  then have "failed s" using i by (auto simp: failed_def)
  then show ?thesis by (intro goodI [OF cstep.record_error [OF i refl WkFail]])
next
  case WkExit
  show ?thesis
    by (rule worker_good [OF cstep.worker_exit [OF i refl WkExit]]) (auto simp: failed_def)
qed (use nd in simp)

lemma chunk_progress:
  assumes inv: "chunk_inv B s" and B: "0 < B" and "\<not> chunk_final s"
  shows "\<exists>t. cstep_good reply B s t"
proof (cases "\<exists>i<length (workers s). wpc (workers s ! i) \<noteq> WkDone")
  case True
  then show ?thesis using worker_moves [OF inv B] by blast
next
  case False
  then have all: "done_workers s = {..<length (workers s)}" by (auto simp: done_workers_def)
  have hw: "have_writer s" and at: "writer_at s \<noteq> WrExit"
    using assms(3) False by (auto simp: chunk_final_def list_all_length)
  show ?thesis
  proof (cases "wqueue (writer s) \<noteq> [] \<or> wdone (writer s) \<or> writer_at s \<noteq> WrLoop")
    case True
    then show ?thesis using writer_moves hw at by blast
  next
    case False
    have "pfinished (pool s) \<ge> length (workers s)"
      using inv all by (simp add: chunk_inv_def count_inv_def)
    from goodI [OF cstep.driver_done [OF hw this]] False show ?thesis by (simp add: failed_def)
  qed
qed

section \<open>The machine contract\<close>

lemma chunk_inv_data: "chunk_inv B s \<Longrightarrow> data_inv B s"
  by (simp add: chunk_inv_def)

lemma cstep_good_cstep: "cstep_good reply B s t \<Longrightarrow> cstep reply B s t"
  by (simp add: cstep_good_def)

lemma cstep_good_failed: "cstep_good reply B s t \<Longrightarrow> failed t \<Longrightarrow> failed s"
  by (simp add: cstep_good_def)

interpretation run: terminating_machine "cstep reply B"
  "\<lambda>s. chunk_inv B s \<and> 0 < B" chunk_final "chunk_measure reply" for reply B
proof
  fix s t assume "chunk_inv B s \<and> 0 < B" and st: "cstep reply B s t"
  then show "chunk_inv B t \<and> 0 < B" using chunk.inv_step [OF _ st] by simp
  show "chunk_measure reply t < chunk_measure reply s"
    using \<open>chunk_inv B s \<and> 0 < B\<close> chunk_inv_data chunk_measure_step [OF st] by simp
next
  fix s assume "chunk_inv B s \<and> 0 < B" "\<not> chunk_final s"
  then show "\<exists>t. cstep reply B s t" using chunk_progress cstep_good_cstep by meson
qed

interpretation good_run: terminating_machine "cstep_good reply B"
  "\<lambda>s. (chunk_inv B s \<and> 0 < B) \<and> \<not> failed s" chunk_final "chunk_measure reply" for reply B
proof
  fix s t assume i: "(chunk_inv B s \<and> 0 < B) \<and> \<not> failed s" and st: "cstep_good reply B s t"
  then show "(chunk_inv B t \<and> 0 < B) \<and> \<not> failed t"
    using run.inv_step [OF _ cstep_good_cstep] cstep_good_failed by meson
  show "chunk_measure reply t < chunk_measure reply s" using i run.mu_step [OF _ cstep_good_cstep [OF st]] by simp
next
  fix s assume "(chunk_inv B s \<and> 0 < B) \<and> \<not> failed s" "\<not> chunk_final s"
  then show "\<exists>t. cstep_good reply B s t" using chunk_progress by simp
qed

lemma good_run_is_run: "(cstep_good reply B)\<^sup>*\<^sup>* s t \<Longrightarrow> creach reply B s t"
  by (erule rtranclp_mono [THEN predicate2D, rotated]) (auto simp: cstep_good_def)

text \<open>The bound on the bytes queued for the writer.\<close>

definition queue_bound_inv :: "nat \<Rightarrow> chunk_sys \<Rightarrow> bool" where
  "queue_bound_inv B s \<longleftrightarrow> queued (writer s) < CHUNK_QUEUE_MAX + int B"

lemma queue_bound_step:
  assumes "cstep reply B s t" and "data_inv B s" and "queue_bound_inv B s"
  shows "queue_bound_inv B t"
  using assms(1)
proof cases
  case (enqueue i w idx buf rest wr')
  then have "length buf \<le> B" using assms(2) by (auto simp: data_inv_def)
  with enqueue show ?thesis by (auto simp: queue_bound_inv_def dest!: chunk_enqueue_Enqueued)
next
  case (writer_writes job seek rcs wr' f')
  with assms(3) show ?thesis
    by (auto simp: queue_bound_inv_def dest!: chunk_writer_write_cases)
next
  case (writer_takes job wr')
  with assms(3) show ?thesis
    by (auto simp: queue_bound_inv_def dest!: chunk_writer_take_Job)
qed (use assms(3) in \<open>auto simp: queue_bound_inv_def\<close>)

interpretation bounded: step_invariant "cstep reply B"
  "\<lambda>s. chunk_inv B s \<and> queue_bound_inv B s" for reply B
proof
  fix s t assume i: "chunk_inv B s \<and> queue_bound_inv B s" and st: "cstep reply B s t"
  then show "chunk_inv B t \<and> queue_bound_inv B t"
    using chunk.inv_step [OF _ st] queue_bound_step [OF st] chunk_inv_data by simp
qed

end
