(* ===== verification/Chunk_Tool.thy ===== *)
theory Chunk_Tool
  imports Chunk_Progress
begin

text \<open>
  The entry points of the chunked download in \<^verbatim>\<open>src/tool_chunked.c\<close>
  (\<open>chunk_worker_open\<close>, \<open>chunk_worker_close\<close>, \<open>chunk_download\<close>,
  \<open>tool_chunk_download\<close>) and the place in \<^verbatim>\<open>src/tool_operate.c\<close> that calls them.

  What the operating system, the allocator and the thread library answer is nondeterministic:
  \<open>chunk_download\<close> and \<open>tool_chunk_download\<close> are relations between the file before,
  the result and the file after.  The transfer engine, asked for a byte range, delivers the
  bytes of the parameter \<open>reply\<close> as a sequence of buffers, all of them when it reports \<open>CURLE_OK\<close>
  (\<open>range_reply\<close>).  What these bytes are is left open, as in \<open>Chunk_Pool\<close>.
\<close>

section \<open>Worker handles\<close>

record worker_handle =
  wh_easy :: bool
  wh_fd :: int

definition chunk_worker_open :: "bool \<Rightarrow> bool \<Rightarrow> int \<Rightarrow> CURLcode \<times> worker_handle" where
  "chunk_worker_open has_writer dup_ok fd =
     (let w = \<lparr>wh_easy = dup_ok, wh_fd = -1\<rparr> in
      if \<not> wh_easy w then (CURLE_OUT_OF_MEMORY, w)
      else if \<not> has_writer then
        (let w = w\<lparr>wh_fd := fd\<rparr> in
         if wh_fd w < 0 then (CURLE_WRITE_ERROR, w\<lparr>wh_easy := False\<rparr>) else (CURLE_OK, w))
      else (CURLE_OK, w))"

definition chunk_worker_close :: "worker_handle \<Rightarrow> worker_handle" where
  "chunk_worker_close w =
     (let w = (if wh_fd w \<ge> 0 then w\<lparr>wh_fd := -1\<rparr> else w) in
      if wh_easy w then w\<lparr>wh_easy := False\<rparr> else w)"

text \<open>The loop that opens the workers: it stops at the first failure.\<close>

fun open_workers :: "bool \<Rightarrow> (bool \<times> int) list \<Rightarrow> CURLcode \<times> worker_handle list" where
  "open_workers has_writer [] = (CURLE_OK, [])"
| "open_workers has_writer ((dup_ok, fd) # answers) =
     (case chunk_worker_open has_writer dup_ok fd of
        (res, w) \<Rightarrow>
          if res \<noteq> CURLE_OK then (res, [])
          else (case open_workers has_writer answers of (r, ws) \<Rightarrow> (r, w # ws)))"

section \<open>The pool download\<close>

text \<open>
  \<open>k\<close> workers run: the \<open>launched\<close> threads, or the first worker on the calling thread
  when no thread could be started.  With no worker open nothing runs and a writer only exits.
\<close>

inductive chunk_download :: "(nat \<Rightarrow> nat \<Rightarrow> bytes) \<Rightarrow> nat \<Rightarrow> nat \<Rightarrow> nat \<Rightarrow> bytes \<Rightarrow> CURLcode \<Rightarrow> bytes \<Rightarrow> bool"
  for reply B tot base f where
  no_memory: "chunk_download reply B tot base f CURLE_OUT_OF_MEMORY f"
| open_failed:
    "length answers = chunk_nworkers (pn (chunk_pool_init tot base)) \<Longrightarrow>
     open_workers hw answers = (res, opened) \<Longrightarrow> res \<noteq> CURLE_OK \<Longrightarrow>
     chunk_download reply B tot base f res f"
| none_opened:
    "length answers = chunk_nworkers (pn (chunk_pool_init tot base)) \<Longrightarrow>
     open_workers hw answers = (CURLE_OK, []) \<Longrightarrow>
     chunk_download reply B tot base f CURLE_OK f"
| ran:
    "length answers = chunk_nworkers (pn (chunk_pool_init tot base)) \<Longrightarrow>
     open_workers hw answers = (CURLE_OK, opened) \<Longrightarrow> opened \<noteq> [] \<Longrightarrow>
     launched \<le> length opened \<Longrightarrow> k = (if launched = 0 then 1 else launched) \<Longrightarrow>
     creach reply B (chunk_sys_init hw k (chunk_pool_init tot base) f) s \<Longrightarrow> chunk_final s \<Longrightarrow>
     chunk_download reply B tot base f (chunk_result s) (ofile s)"

section \<open>The public entry\<close>

definition range_reply :: "(nat \<Rightarrow> nat \<Rightarrow> bytes) \<Rightarrow> nat \<Rightarrow> nat \<Rightarrow> bytes list \<Rightarrow> CURLcode \<Rightarrow> bool" where
  "range_reply reply start last_byte bufs code \<longleftrightarrow>
     (\<exists>rest. concat bufs @ rest = reply start last_byte
        \<and> (code = CURLE_OK \<longrightarrow> rest = []))"

definition chunk_mibps :: "nat \<Rightarrow> int \<Rightarrow> rat" where
  "chunk_mibps probe_len ms =
     (if ms > 0 then (of_nat probe_len / (1024 * 1024)) / (of_int ms / 1000) else 10 ^ 9)"

definition chunk_probe_len :: "nat \<Rightarrow> nat" where
  "chunk_probe_len tot = (if tot < CHUNK_PROBE then tot else CHUNK_PROBE)"

inductive tool_chunk_download :: "(nat \<Rightarrow> nat \<Rightarrow> bytes) \<Rightarrow> nat \<Rightarrow> nat \<Rightarrow> bytes \<Rightarrow> CURLcode \<Rightarrow> bytes \<Rightarrow> bool"
  for reply B tot f0 where
  presize_failed: "tool_chunk_download reply B tot f0 CURLE_WRITE_ERROR f0"
| reopen_failed: "tool_chunk_download reply B tot f0 CURLE_WRITE_ERROR []"
| probe_failed:
    "range_reply reply 0 (chunk_probe_len tot - 1) bufs code \<Longrightarrow>
     chunk_stream_range seek rcs [] 0 bufs code = Some (res, f) \<Longrightarrow> res \<noteq> CURLE_OK \<Longrightarrow>
     tool_chunk_download reply B tot f0 res f"
| probe_was_all:
    "range_reply reply 0 (chunk_probe_len tot - 1) bufs code \<Longrightarrow>
     chunk_stream_range seek rcs [] 0 bufs code = Some (CURLE_OK, f) \<Longrightarrow>
     chunk_probe_len tot \<ge> tot \<Longrightarrow>
     tool_chunk_download reply B tot f0 CURLE_OK f"
| fast_source:
    "range_reply reply 0 (chunk_probe_len tot - 1) bufs code \<Longrightarrow>
     chunk_stream_range seek rcs [] 0 bufs code = Some (CURLE_OK, f) \<Longrightarrow>
     chunk_probe_len tot < tot \<Longrightarrow> chunk_mibps (chunk_probe_len tot) ms \<ge> CHUNK_FAST_MIBPS \<Longrightarrow>
     range_reply reply (chunk_probe_len tot) (tot - 1) bufs2 code2 \<Longrightarrow>
     chunk_stream_range seek2 rcs2 f (chunk_probe_len tot) bufs2 code2 = Some (res, f') \<Longrightarrow>
     tool_chunk_download reply B tot f0 res f'"
| network_bound:
    "range_reply reply 0 (chunk_probe_len tot - 1) bufs code \<Longrightarrow>
     chunk_stream_range seek rcs [] 0 bufs code = Some (CURLE_OK, f) \<Longrightarrow>
     chunk_probe_len tot < tot \<Longrightarrow> chunk_mibps (chunk_probe_len tot) ms < CHUNK_FAST_MIBPS \<Longrightarrow>
     chunk_download reply B tot (chunk_probe_len tot) f res f' \<Longrightarrow>
     tool_chunk_download reply B tot f0 res f'"

text \<open>
  The choice in \<open>serial_transfers\<close>: \<open>Some tot\<close> sends the transfer to
  \<open>tool_chunk_download\<close>, \<open>None\<close> to an ordinary \<open>curl_easy_perform\<close> on the
  handle as it is then.
\<close>

definition serial_choice ::
  "operation_config \<Rightarrow> bool \<Rightarrow> easy_set \<Rightarrow> (easy_set \<Rightarrow> probe_reply) \<Rightarrow> nat option \<times> easy_set" where
  "serial_choice c quiet s perform =
     (if chunk_eligible c then tool_chunk_probe quiet s perform else (None, s))"

section \<open>Handles are opened completely or not at all, and closed\<close>

definition handle_ok :: "bool \<Rightarrow> worker_handle \<Rightarrow> bool" where
  "handle_ok has_writer w \<longleftrightarrow> wh_easy w \<and> (if has_writer then wh_fd w = -1 else wh_fd w \<ge> 0)"

lemma chunk_worker_open_result:
  assumes "chunk_worker_open hw dup_ok fd = (res, w)"
  shows "if res = CURLE_OK then handle_ok hw w else \<not> wh_easy w \<and> wh_fd w < 0"
  using assms by (auto simp: chunk_worker_open_def handle_ok_def Let_def split: if_splits)

lemma open_workers_handles:
  "open_workers hw answers = (res, ws) \<Longrightarrow>
     list_all (handle_ok hw) ws \<and> length ws \<le> length answers
     \<and> (res = CURLE_OK \<longleftrightarrow> length ws = length answers)"
proof (induction hw answers arbitrary: res ws rule: open_workers.induct)
  case (2 hw dup_ok fd answers)
  obtain r w where w: "chunk_worker_open hw dup_ok fd = (r, w)" by force
  obtain r' ws' where "open_workers hw answers = (r', ws')" by force
  with 2(2) w 2(1) [OF w [symmetric], of r' ws'] chunk_worker_open_result [OF w]
  show ?case by (auto split: if_splits)
qed auto

lemma chunk_worker_close_closes: "\<not> wh_easy (chunk_worker_close w) \<and> wh_fd (chunk_worker_close w) < 0"
  by (simp add: chunk_worker_close_def Let_def)

section \<open>Success means the whole file\<close>

lemma chunk_pool_init_fields [simp]:
  "pnext (chunk_pool_init tot base) = 0" "pfinished (chunk_pool_init tot base) = 0"
  "presult (chunk_pool_init tot base) = CURLE_OK" "ptotal (chunk_pool_init tot base) = tot"
  "pbase (chunk_pool_init tot base) = base"
  by (simp_all add: chunk_pool_init_def Let_def)

lemma pool_start_ok_init:
  "base \<le> tot \<Longrightarrow> tot - base \<le> 2 ^ 62 - 2 ^ 30 \<Longrightarrow> pool_start_ok (chunk_pool_init tot base)"
  using pool_ok_init [of base tot] by (simp add: pool_start_ok_def)

lemma chunk_start_ok_init:
  assumes "base \<le> length f" and "length f \<le> length src" and "take base f = take base src"
    and "length src - base \<le> 2 ^ 62 - 2 ^ 30"
  shows "chunk_start_ok src (chunk_pool_init (length src) base) f"
  using assms pool_start_ok_init [of base "length src"] by (simp add: chunk_start_ok_def)

lemma pool_init_nonempty:
  assumes "base < tot" and "tot - base \<le> 2 ^ 62 - 2 ^ 30"
  shows "0 < pn (chunk_pool_init tot base)" and "0 < chunk_nworkers (pn (chunk_pool_init tot base))"
proof -
  show "0 < pn (chunk_pool_init tot base)"
    using assms pool_ok_init [of base tot] by (cases "pn (chunk_pool_init tot base)") (auto simp: pool_ok_def)
  then show "0 < chunk_nworkers (pn (chunk_pool_init tot base))"
    by (simp add: chunk_nworkers_def CHUNK_STREAMS_def)
qed

lemma chunk_download_OK:
  assumes "chunk_download reply B (length src) base f CURLE_OK f'" and "serves reply src"
    and "base \<le> length f" and "length f \<le> length src" and "take base f = take base src"
    and "base < length src" and "length src - base \<le> 2 ^ 62 - 2 ^ 30"
  shows "f' = src"
  using assms(1)
proof cases
  case (none_opened answers hw)
  then have "length answers = 0" using open_workers_handles [OF none_opened(3)] by simp
  with none_opened(2) pool_init_nonempty(2) [OF assms(6,7)] show ?thesis by simp
next
  case (ran answers hw opened launched k s)
  have inv: "exact_inv src B s"
    using exact_run_inv [OF assms(2) chunk_start_ok_init [OF assms(3,4,5,7)] ran(8)] .
  have "length (workers s) = k" using workers_length_run [OF ran(8)] by (simp add: chunk_sys_init_def)
  then have "workers s \<noteq> []" using ran(7) by (auto split: if_splits)
  with chunk_final_OK [OF inv ran(9)] ran(1,2) show ?thesis by simp
qed auto

lemma probe_file:
  assumes "range_reply reply 0 (n - 1) bufs code" and "0 < n" and "n \<le> length src" and "serves reply src"
    and "chunk_stream_range seek rcs [] 0 bufs code = Some (CURLE_OK, f)"
  shows "f = take n src"
proof -
  have "reply 0 (n - 1) = take n src" using assms(2-4) by (simp add: serves_def slice_def)
  then show ?thesis using assms(1) chunk_stream_range_OK [OF assms(5)] by (auto simp: range_reply_def file_write_def)
qed

lemma file_write_end: "file_write f (length f) d = f @ d"
  by (simp add: file_write_def)

lemma good_download_exists:
  assumes "pool_start_ok p" and "0 < B"
  shows "\<exists>s. creach reply B (chunk_sys_init hw k p f) s \<and> chunk_final s \<and> chunk_result s = CURLE_OK"
proof -
  let ?s0 = "chunk_sys_init hw k p f"
  have nf: "\<not> failed ?s0"
    using assms(1) by (simp add: failed_def chunk_sys_init_def chunk_worker_init_def
        chunk_writer_init_def pool_start_ok_def)
  then obtain s where s: "(cstep_good reply B)\<^sup>*\<^sup>* ?s0 s" "chunk_final s"
    using good_run.reaches_final [of B ?s0 reply] chunk_inv_init [OF assms(1)] assms(2) by blast
  have "\<not> failed s" using good_run.inv_run [OF s(1)] chunk_inv_init [OF assms(1)] nf assms(2) by simp
  then have "chunk_result s = CURLE_OK" by (auto simp: failed_def chunk_result_def)
  then show ?thesis using s good_run_is_run by blast
qed

lemma whole_work:
  "chunk_measure reply (chunk_sys_init hw k p f) = todo reply p + 4 * k + 2"
proof -
  have "workers_weight (replicate k chunk_worker_init) = 4 * k"
    by (induction k) (simp_all add: workers_weight_def chunk_worker_init_def)
  then show ?thesis by (simp add: chunk_measure_def chunk_sys_init_def chunk_writer_init_def)
qed

lemma served_work:
  assumes "serves reply src" and "pool_ok p" and "ptotal p = length src"
  shows "(\<Sum>i<pn p. 2 + 4 * length (reply (chunk_start p i) (chunk_last p i))) \<le> pn p * (2 + 4 * pchunk_size p)"
proof -
  have "2 + 4 * length (reply (chunk_start p i) (chunk_last p i)) \<le> 2 + 4 * pchunk_size p" if "i < pn p" for i
    using served_piece [OF assms(1,2) that assms(3)] chunk_bounds(4) [OF assms(2) that] by (simp add: min_le_iff_disj)
  from sum_bounded_above [of "{..<pn p}", OF this] show ?thesis by simp
qed

section \<open>Servers that ignore the range\<close>

text \<open>
  Neither the status of a response nor the number of bytes received is compared with the range
  that was asked for.  On the one-stream path whatever the server sends for the two ranges is
  written where the ranges begin, and reported as success.
\<close>

lemma stream_range_whole:
  "chunk_stream_range True [int (length d)] f pos [d] CURLE_OK = Some (CURLE_OK, file_write f pos d)"
  by (cases "d = []") (simp_all add: chunk_stream_range_def chunk_seq_write_cb_def write_loop_Cons file_write_def Let_def)

lemma any_reply_accepted:
  assumes "CHUNK_PROBE < tot"
  shows "tool_chunk_download reply B tot f0 CURLE_OK
    (file_write (reply 0 (CHUNK_PROBE - 1)) CHUNK_PROBE (reply CHUNK_PROBE (tot - 1)))"
proof -
  have n: "chunk_probe_len tot = CHUNK_PROBE" using assms by (simp add: chunk_probe_len_def)
  have e: "file_write [] 0 d = d" for d by (simp add: file_write_def)
  let ?a = "reply 0 (CHUNK_PROBE - 1)" and ?b = "reply CHUNK_PROBE (tot - 1)"
  have a: "chunk_stream_range True [int (length ?a)] [] 0 [?a] CURLE_OK = Some (CURLE_OK, ?a)"
    using stream_range_whole [of ?a "[]" 0] by (simp add: e)
  show ?thesis
    by (rule tool_chunk_download.fast_source [where ms = 0 and ?bufs2.0 = "[?b]" and ?seek2.0 = True
          and ?rcs2.0 = "[int (length ?b)]" and ?code2.0 = CURLE_OK, OF _ a])
      (simp_all add: n range_reply_def assms chunk_mibps_def CHUNK_FAST_MIBPS_def stream_range_whole)
qed

lemma ignored_range_corrupts:
  assumes "CHUNK_PROBE < length src"
  shows "\<exists>f'. tool_chunk_download (\<lambda>_ _. src) B (length src) f0 CURLE_OK f' \<and> f' \<noteq> src"
proof -
  have "length (file_write src CHUNK_PROBE src) = CHUNK_PROBE + length src"
    using assms by (auto simp: length_file_write)
  then have "file_write src CHUNK_PROBE src \<noteq> src" by (auto simp: CHUNK_PROBE_def)
  then show ?thesis using any_reply_accepted [OF assms, of "\<lambda>_ _. src" B f0] by blast
qed

section \<open>Properties\<close>

text \<open>
  C1: a chunked download from a server that honours byte ranges is exact.  If the server answers
  every range with the bytes of the range (\<open>serves\<close>; the code checks neither the status nor the
  length of an answer) and the file has at most \<open>2\<^sup>6\<^sup>2 - 2\<^sup>3\<^sup>0\<close> bytes (beyond that the count of pieces
  wraps), then a download that reports \<open>CURLE_OK\<close> leaves exactly the remote file in the output
  file, whatever was there before, on every path of \<open>tool_chunk_download\<close>: when the probe
  segment is already everything, when the source is fast and the rest follows on one stream, and
  when the rest is fetched by the pool, for every interleaving of the threads, every way the
  operating system splits the writes and every point at which transfers and writes fail.
\<close>

theorem tool_chunk_download_exact:
  assumes "tool_chunk_download reply B (length src) f0 CURLE_OK f'" and "serves reply src"
    and "src \<noteq> []" and "length src \<le> 2 ^ 62 - 2 ^ 30"
  shows "f' = src"
proof -
  let ?n = "chunk_probe_len (length src)"
  have n: "0 < ?n" "?n \<le> length src"
    using assms(3) by (auto simp: chunk_probe_len_def CHUNK_PROBE_def)
  note probe = probe_file [OF _ n assms(2)]
  from assms(1) show ?thesis
  proof cases
    case (probe_was_all bufs code seek rcs)
    with probe [OF probe_was_all(1,2)] show ?thesis by simp
  next
    case (fast_source bufs code seek rcs f ms bufs2 code2 seek2 rcs2)
    have f: "f = take ?n src" using probe [OF fast_source(1,2)] .
    have c: "f' = file_write f ?n (concat bufs2)" "code2 = CURLE_OK"
      using chunk_stream_range_OK [OF fast_source(6)] by auto
    have "concat bufs2 = reply ?n (length src - 1)"
      using fast_source(5) c(2) by (auto simp: range_reply_def)
    also have "\<dots> = slice src ?n (length src)"
      using assms(2) [unfolded serves_def, rule_format, of ?n "length src - 1"] fast_source(3) by (cases src) simp_all
    also have "\<dots> = drop ?n src" by (simp add: slice_def)
    finally show ?thesis
      using file_write_end [of f "concat bufs2"] n c(1) f by (simp add: min_absorb2)
  next
    case (network_bound bufs code seek rcs f ms)
    have f: "f = take ?n src" using probe [OF network_bound(1,2)] .
    show ?thesis
      by (rule chunk_download_OK [OF network_bound(5) assms(2)]) (use f n assms(4) network_bound(3) in auto)
  qed auto
qed

definition demo_server :: "bytes \<Rightarrow> nat \<Rightarrow> nat \<Rightarrow> bytes" where
  "demo_server src a b = slice src a (b + 1)"

lemma demo_server_serves [simp]: "serves (demo_server src) src"
  by (simp add: serves_def demo_server_def)

theorem tool_chunk_download_exact_witness:
  "\<exists>f'. tool_chunk_download (demo_server ''abc'') 1 (length ''abc'') ''old'' CURLE_OK f' \<and> f' = ''abc''"
proof -
  have "range_reply (demo_server ''abc'') 0 2 [''abc''] CURLE_OK"
    by (simp add: range_reply_def demo_server_def slice_def)
  moreover have "chunk_stream_range True [1, 2] [] 0 [''abc''] CURLE_OK = Some (CURLE_OK, ''abc'')"
    by code_simp
  ultimately have run: "tool_chunk_download (demo_server ''abc'') 1 (length ''abc'') ''old'' CURLE_OK ''abc''"
    by (intro tool_chunk_download.probe_was_all)
      (simp_all add: chunk_probe_len_def CHUNK_PROBE_def flip: numeral_2_eq_2)
  have "''abc'' \<noteq> []" and "length ''abc'' \<le> 2 ^ 62 - 2 ^ 30" by simp_all
  from tool_chunk_download_exact [OF run demo_server_serves this] run show ?thesis by blast
qed

text \<open>
  C2: the pool by itself, with a server that honours byte ranges (\<open>serves\<close>) and a region of at most
  \<open>2\<^sup>6\<^sup>2 - 2\<^sup>3\<^sup>0\<close> bytes.  Started with the bytes before \<open>base\<close> already in the file, any
  number of workers, with or without a writer thread, and run in any order to its end, it
  leaves the whole remote file in the output file when the combined result is \<open>CURLE_OK\<close>: no
  piece is skipped, fetched twice, written at a wrong offset or left in the queue.
\<close>

theorem pool_run_exact:
  assumes "serves reply src"
    and "base \<le> length f" and "length f \<le> length src" and "take base f = take base src"
    and "length src - base \<le> 2 ^ 62 - 2 ^ 30" and "0 < k"
    and "creach reply B (chunk_sys_init hw k (chunk_pool_init (length src) base) f) s"
    and "chunk_final s" and "chunk_result s = CURLE_OK"
  shows "ofile s = src"
proof -
  have "exact_inv src B s" using exact_run_inv [OF assms(1) chunk_start_ok_init [OF assms(2-5)] assms(7)] .
  moreover have "workers s \<noteq> []"
    using workers_length_run [OF assms(7)] assms(6) by (auto simp: chunk_sys_init_def)
  ultimately show ?thesis using chunk_final_OK assms(8,9) by blast
qed

theorem pool_run_exact_witness:
  "\<exists>s. creach (demo_server ''abcd'') 2 (chunk_sys_init True 3 (chunk_pool_init (length ''abcd'') 1) ''a'') s
    \<and> chunk_final s \<and> chunk_result s = CURLE_OK \<and> ofile s = ''abcd''"
proof -
  have h: "1 \<le> length ''a''" "length ''a'' \<le> length ''abcd''" "take 1 ''a'' = take 1 ''abcd''"
      "length ''abcd'' - 1 \<le> 2 ^ 62 - 2 ^ 30" "0 < (3::nat)"
    by simp_all
  have ok: "pool_start_ok (chunk_pool_init (length ''abcd'') 1)" by (rule pool_start_ok_init) simp_all
  have two: "0 < (2::nat)" by simp
  obtain s where s: "creach (demo_server ''abcd'') 2 (chunk_sys_init True 3 (chunk_pool_init (length ''abcd'') 1) ''a'') s"
      "chunk_final s" "chunk_result s = CURLE_OK"
    using good_download_exists [OF ok two] by blast
  then show ?thesis using pool_run_exact [OF demo_server_serves h s] by blast
qed

text \<open>
  C3: no deadlock and no endless run, whatever the server sends.  Every run of the pool takes at
  most a number of steps that is fixed by the lengths of the answers, and by the plan alone when
  the server honours ranges; and wherever it stands it has either ended or can go on.
\<close>

theorem pool_run_ends:
  assumes "base \<le> tot" and "tot - base \<le> 2 ^ 62 - 2 ^ 30" and "0 < B"
    and "(cstep reply B ^^ n) (chunk_sys_init hw k (chunk_pool_init tot base) f) s"
  shows "n \<le> (\<Sum>i<pn (chunk_pool_init tot base). 2 + 4 * length
                (reply (chunk_start (chunk_pool_init tot base) i) (chunk_last (chunk_pool_init tot base) i))) + 4 * k + 2
    \<and> (serves reply src \<and> length src = tot \<longrightarrow>
         n \<le> pn (chunk_pool_init tot base) * (2 + 4 * pchunk_size (chunk_pool_init tot base)) + 4 * k + 2)
    \<and> (chunk_final s \<or> (\<exists>t. cstep reply B s t))"
proof -
  let ?p = "chunk_pool_init tot base"
  have ok: "pool_start_ok ?p" using pool_start_ok_init [OF assms(1,2)] .
  then have inv: "chunk_inv B (chunk_sys_init hw k ?p f) \<and> 0 < B" using chunk_inv_init assms(3) by blast
  have b: "n \<le> (\<Sum>i<pn ?p. 2 + 4 * length (reply (chunk_start ?p i) (chunk_last ?p i))) + 4 * k + 2"
    using run.run_bounded [OF assms(4) inv] by (simp add: whole_work todo_def atLeast0LessThan)
  moreover have "n \<le> pn ?p * (2 + 4 * pchunk_size ?p) + 4 * k + 2" if "serves reply src" "length src = tot"
    using b served_work [OF that(1), of ?p] that(2) ok by (simp add: pool_start_ok_def)
  moreover have "chunk_inv B s \<and> 0 < B" using run.run_length [OF assms(4) inv] by simp
  ultimately show ?thesis using run.progress by blast
qed

theorem pool_run_ends_witness:
  "\<exists>n s. (cstep (demo_server ''abcd'') 2 ^^ n) (chunk_sys_init True 3 (chunk_pool_init 4 1) ''a'') s \<and> chunk_final s
    \<and> n \<le> pn (chunk_pool_init 4 1) * (2 + 4 * pchunk_size (chunk_pool_init 4 1)) + 4 * 3 + 2"
proof -
  have h: "1 \<le> (4::nat)" "4 - 1 \<le> (2 ^ 62 - 2 ^ 30 :: nat)" "0 < (2::nat)" by simp_all
  obtain s where s: "creach (demo_server ''abcd'') 2 (chunk_sys_init True 3 (chunk_pool_init 4 1) ''a'') s" "chunk_final s"
    using good_download_exists [OF pool_start_ok_init [OF h(1,2)] h(3)] by blast
  then obtain n where n: "(cstep (demo_server ''abcd'') 2 ^^ n) (chunk_sys_init True 3 (chunk_pool_init 4 1) ''a'') s"
    by (auto simp: rtranclp_power)
  have "serves (demo_server ''abcd'') ''abcd'' \<and> length ''abcd'' = 4" by simp
  with pool_run_ends [OF h n, of "''abcd''"] show ?thesis using n s(2) by blast
qed

text \<open>
  C4: as long as nothing fails the download can be brought to a successful end: from the
  initial state some run ends with \<open>CURLE_OK\<close>, for every number of workers and every buffer
  size, and with the whole file if the server honours ranges.
\<close>

theorem pool_run_can_succeed:
  assumes "base \<le> length f" and "length f \<le> length src" and "take base f = take base src"
    and "length src - base \<le> 2 ^ 62 - 2 ^ 30" and "0 < B" and "0 < k"
  shows "\<exists>s. creach reply B (chunk_sys_init hw k (chunk_pool_init (length src) base) f) s
    \<and> chunk_final s \<and> chunk_result s = CURLE_OK \<and> (serves reply src \<longrightarrow> ofile s = src)"
proof -
  have ok: "chunk_start_ok src (chunk_pool_init (length src) base) f"
    using chunk_start_ok_init [OF assms(1-4)] .
  obtain s where s: "creach reply B (chunk_sys_init hw k (chunk_pool_init (length src) base) f) s"
      "chunk_final s" "chunk_result s = CURLE_OK"
    using good_download_exists [OF _ assms(5)] ok unfolding chunk_start_ok_def by blast
  have "workers s \<noteq> []" using workers_length_run [OF s(1)] assms(6) by (auto simp: chunk_sys_init_def)
  then have "ofile s = src" if "serves reply src" using chunk_final_OK [OF exact_run_inv [OF that ok s(1)] s(2,3)] by blast
  with s show ?thesis by blast
qed

theorem pool_run_can_succeed_witness:
  "\<exists>s. creach (demo_server ''abcd'') 1 (chunk_sys_init False 2 (chunk_pool_init (length ''abcd'') 2) ''ab'') s
    \<and> chunk_final s \<and> chunk_result s = CURLE_OK \<and> ofile s = ''abcd''"
proof -
  have "2 \<le> length ''ab''" "length ''ab'' \<le> length ''abcd''" "take 2 ''ab'' = take 2 ''abcd''"
      "length ''abcd'' - 2 \<le> 2 ^ 62 - 2 ^ 30" "0 < (1::nat)" "0 < (2::nat)"
    by simp_all
  from pool_run_can_succeed [OF this, of "demo_server ''abcd''" False] show ?thesis by auto
qed

text \<open>
  C5: a failure is never lost.  Once a transfer, a write or a worker has failed, every way the
  run can still end reports an error.
\<close>

theorem pool_failure_reported:
  assumes "pool_start_ok p" and "creach reply B (chunk_sys_init hw k p f) s" and "failed s"
    and "creach reply B s t" and "chunk_final t"
  shows "chunk_result t \<noteq> CURLE_OK"
proof -
  have inv: "chunk_inv B s" using chunk_run_inv assms(1,2) by blast
  have "chunk_inv B t \<and> failed t"
    using assms(4)
  proof (induction rule: rtranclp_induct)
    case (step t u)
    then show ?case using chunk.inv_step [OF _ step(2)] failed_step [OF step(2)] chunk_inv_data by blast
  qed (use inv assms(3) in blast)
  then show ?thesis using chunk_final_failed assms(5) by blast
qed

theorem pool_failure_reported_witness:
  "\<exists>s t. creach (demo_server ''ab'') 1 (chunk_sys_init False 1 (chunk_pool_init 2 0) []) s \<and> failed s
     \<and> creach (demo_server ''ab'') 1 s t \<and> chunk_final t \<and> chunk_result t \<noteq> CURLE_OK"
proof -
  let ?p = "chunk_pool_init 2 0" and ?r = "demo_server ''ab''"
  have ok: "pool_start_ok ?p" by (rule pool_start_ok_init) simp_all
  have n: "0 < pn ?p" using pool_init_nonempty(1) [of 0 2] by simp
  let ?s0 = "chunk_sys_init False 1 ?p []"
  let ?w = "chunk_fetch_one ?r ?p chunk_worker_init 0"
  let ?s1 = "set_worker (?s0\<lparr>pool := ?p\<lparr>pnext := 1\<rparr>\<rparr>) 0 ?w"
  let ?s2 = "set_worker ?s1 0 (?w\<lparr>wpc := WkFail CURLE_RECV_ERROR\<rparr>)"
  have "chunk_pool_take (pool ?s0) = (Some 0, ?p\<lparr>pnext := 1\<rparr>)"
    using n by (simp add: chunk_pool_take_def chunk_sys_init_def)
  then have "cstep ?r 1 ?s0 ?s1"
    using cstep.take_piece [of 0 ?s0 chunk_worker_init 0 "?p\<lparr>pnext := 1\<rparr>" ?r 1]
    by (simp add: chunk_sys_init_def chunk_worker_init_def)
  moreover have "cstep ?r 1 ?s1 ?s2"
    by (rule cstep.transfer_error) (simp_all add: chunk_sys_init_def chunk_fetch_one_def)
  ultimately have r: "creach ?r 1 ?s0 ?s2" by (meson converse_rtranclp_into_rtranclp r_into_rtranclp)
  have fl: "failed ?s2" by (simp add: failed_def chunk_sys_init_def)
  obtain t where t: "creach ?r 1 ?s2 t" "chunk_final t"
    using run.reaches_final [of 1 ?s2 ?r] chunk_run_inv [OF ok r] by auto
  from pool_failure_reported [OF ok r fl t] r fl t show ?thesis by blast
qed

text \<open>
  C6: backpressure.  In every reachable state the counter of queued bytes is the size of the
  queue, and it stays below \<open>CHUNK_QUEUE_MAX\<close> plus one receive buffer: the file is never
  held in memory, whatever the server sends.
\<close>

theorem queue_bounded:
  assumes "pool_start_ok p" and "creach reply B (chunk_sys_init hw k p f) s"
  shows "queued (writer s) = (\<Sum>j\<leftarrow>wqueue (writer s). int (length (jbuf j)))
    \<and> queued (writer s) < CHUNK_QUEUE_MAX + int B"
proof -
  have "queue_bound_inv B (chunk_sys_init hw k p f)"
    by (simp add: queue_bound_inv_def chunk_sys_init_def chunk_writer_init_def CHUNK_QUEUE_MAX_def)
  then have "chunk_inv B s \<and> queue_bound_inv B s"
    using bounded.inv_run [OF assms(2)] chunk_inv_init [OF assms(1)] by blast
  then show ?thesis by (simp add: chunk_inv_def queue_inv_def queue_bound_inv_def)
qed

theorem queue_bounded_witness:
  "queued (writer (chunk_sys_init True 2 (chunk_pool_init (length ''abcd'') 1) ''a''))
     < CHUNK_QUEUE_MAX + int 7"
proof -
  have "pool_start_ok (chunk_pool_init (length ''abcd'') 1)" by (rule pool_start_ok_init) simp_all
  from queue_bounded [OF this rtranclp.rtrancl_refl, where B = 7 and hw = True and k = 2 and f = "''a''"] show ?thesis by blast
qed

lemma piece_index:
  assumes "pool_ok p" and "pbase p \<le> q" and "q < ptotal p"
  shows "(q - pbase p) div pchunk_size p < pn p"
    and "i < pn p \<Longrightarrow> chunk_start p i \<le> q \<and> q < chunk_stop p i \<longleftrightarrow> i = (q - pbase p) div pchunk_size p"
proof -
  let ?c = "pchunk_size p"
  have c: "0 < ?c" using assms(1) by (simp add: pool_ok_def)
  have "q - pbase p < pn p * ?c" using assms by (auto simp: pool_ok_def)
  then show "(q - pbase p) div ?c < pn p" by (simp add: less_mult_imp_div_less)
  show "chunk_start p i \<le> q \<and> q < chunk_stop p i \<longleftrightarrow> i = (q - pbase p) div ?c" if "i < pn p"
  proof -
    have "chunk_start p i \<le> q \<and> q < chunk_stop p i
        \<longleftrightarrow> i * ?c \<le> q - pbase p \<and> q - pbase p < Suc i * ?c"
      using chunk_stop_eq [OF assms(1) that] assms(2,3) by (auto simp: chunk_start_def)
    also have "\<dots> \<longleftrightarrow> i = (q - pbase p) div ?c"
      using c by (metis div_nat_eqI dividend_less_times_div div_times_less_eq_dividend mult.commute
          mult_Suc_right add.commute)
    finally show ?thesis .
  qed
qed

text \<open>
  C7: the pieces are a partition of the region.  Every byte from \<open>base\<close> to the end of
  the file belongs to exactly one piece, and no piece is longer than the piece size, which
  lies between 64 MiB and 1 GiB.
\<close>

theorem pieces_partition:
  assumes "base \<le> q" and "q < tot" and "tot - base \<le> 2 ^ 62 - 2 ^ 30"
  shows "\<exists>!i. i < pn (chunk_pool_init tot base)
      \<and> chunk_start (chunk_pool_init tot base) i \<le> q \<and> q < chunk_stop (chunk_pool_init tot base) i"
    (is "\<exists>!i. i < pn ?p \<and> ?in i")
proof -
  have ok: "pool_ok ?p" using pool_ok_init assms by simp
  let ?i = "(q - pbase ?p) div pchunk_size ?p"
  have "?i < pn ?p" and "\<And>i. i < pn ?p \<Longrightarrow> ?in i \<longleftrightarrow> i = ?i"
    using piece_index [OF ok, of q] assms by auto
  then show ?thesis by blast
qed

theorem pieces_partition_witness:
  "\<exists>!i. i < pn (chunk_pool_init (3 * 2 ^ 30) 5)
      \<and> chunk_start (chunk_pool_init (3 * 2 ^ 30) 5) i \<le> 2 ^ 31
      \<and> 2 ^ 31 < chunk_stop (chunk_pool_init (3 * 2 ^ 30) 5) i"
  by (rule pieces_partition) simp_all

lemma accept_header:
  "list_ex (\<lambda>(sc, r, h). hdr_accept_ranges sc True r h) hs \<Longrightarrow>
     \<exists>sc r h. (sc, r, h) \<in> set hs \<and> r div 100 = 2 \<and> hdr_accept_ranges sc True r h"
  by (fastforce simp: list_ex_iff hdr_accept_ranges_def)

text \<open>
  C10: the probe is careful.  It accepts a download for chunking only after a successful
  metadata request that reported a size above 1 GiB, over FTP, FTPS, NFS or over HTTP(S) with
  a 2xx answer and an \<open>Accept-Ranges\<close> header that names \<open>bytes\<close>.
\<close>

theorem probe_accepts:
  fixes perform :: "easy_set \<Rightarrow> probe_reply"
  assumes "tool_chunk_probe quiet s perform = (Some tot, s')"
  defines "reply \<equiv> perform (setopt_NOPROGRESS True (setopt_NOBODY True s))"
  shows "pr_res reply = CURLE_OK \<and> pr_clen reply = int tot \<and> CHUNK_THRESHOLD < tot
    \<and> ((\<exists>sc r h. (sc, r, h) \<in> set (pr_headers reply) \<and> r div 100 = 2 \<and> hdr_accept_ranges sc True r h)
         \<and> pr_code reply div 100 = 2
         \<and> (curl_strequal (pr_scheme reply) (Some ''HTTP'') \<or> curl_strequal (pr_scheme reply) (Some ''HTTPS''))
       \<or> curl_strequal (pr_scheme reply) (Some ''FTP'')
       \<or> curl_strequal (pr_scheme reply) (Some ''FTPS'')
       \<or> curl_strequal (pr_scheme reply) (Some ''NFS''))"
  using assms(1) accept_header [of "pr_headers reply"] unfolding tool_chunk_probe_def reply_def [symmetric] Let_def
  by (auto simp: CHUNK_THRESHOLD_def split: if_splits)

definition demo_set :: easy_set where
  "demo_set = \<lparr>http_method = HTTPREQ_POST, opt_no_body = False, noprogress = False\<rparr>"

definition demo_reply :: "nat \<Rightarrow> probe_reply" where
  "demo_reply n = \<lparr>pr_res = CURLE_OK, pr_headers = [], pr_clen = int n, pr_code = 0,
     pr_scheme = Some ''NFS''\<rparr>"

theorem probe_accepts_witness:
  "\<exists>s'. tool_chunk_probe True demo_set (\<lambda>_. demo_reply (2 ^ 31)) = (Some (2 ^ 31), s')
     \<and> CHUNK_THRESHOLD < (2 ^ 31 :: nat)"
proof -
  have "curl_strequal (Some ''NFS'') (Some ''NFS'')" "\<not> curl_strequal (Some ''NFS'') (Some ''HTTP'')"
      "\<not> curl_strequal (Some ''NFS'') (Some ''HTTPS'')"
    by code_simp+
  then obtain s' where "tool_chunk_probe True demo_set (\<lambda>_. demo_reply (2 ^ 31)) = (Some (2 ^ 31), s')"
    by (simp add: tool_chunk_probe_def demo_reply_def CHUNK_THRESHOLD_def Let_def)
  with probe_accepts [OF this] show ?thesis by blast
qed

text \<open>
  After the probe the handle is a GET with a body and the progress meter the user asked
  for, whatever it was before and whatever the probe answered.  In particular a transfer that
  was a POST is not one any more.
\<close>

lemma probe_leaves_get:
  "snd (tool_chunk_probe quiet s perform)
     = s\<lparr>http_method := HTTPREQ_GET, opt_no_body := False, noprogress := quiet\<rparr>"
  by (simp add: tool_chunk_probe_def setopt_NOBODY_def setopt_HTTPGET_def setopt_NOPROGRESS_def Let_def)

text \<open>
  The piece count is an \<open>unsigned int\<close>.  For a region of \<open>2\<^sup>6\<^sup>2\<close> bytes it wraps to
  zero, no worker is opened, and the download reports success without having fetched anything
  of the region.
\<close>

lemma piece_count_wraps: "chunk_download reply B (base + 2 ^ 62) base f CURLE_OK f"
proof -
  have "chunk_size_for (2 ^ 62) = 2 ^ 30" by (simp add: chunk_size_for_def chunk_consts)
  then have "pn (chunk_pool_init (base + 2 ^ 62) base) = 0" by (simp add: chunk_pool_init_def)
  then show ?thesis
    by (intro chunk_download.none_opened [of "[]" _ _ True])
      (simp_all add: chunk_nworkers_def CHUNK_STREAMS_def)
qed

text \<open>
  Worker handles do not leak.  Opening stops at the first failure, what was opened is
  complete, a failed open leaves nothing behind, and closing releases both the handle and the
  descriptor.
\<close>

lemma worker_handles_released:
  assumes "open_workers hw answers = (res, ws)"
  shows "list_all (handle_ok hw) ws
    \<and> (res = CURLE_OK \<longleftrightarrow> length ws = length answers)
    \<and> list_all (\<lambda>w. \<not> wh_easy w \<and> wh_fd w < 0) (map chunk_worker_close ws)"
  using open_workers_handles [OF assms] chunk_worker_close_closes by (simp add: list_all_iff)

end
