(* ===== verification/Fs_Transfer.thy ===== *)
theory Fs_Transfer
  imports Chunk_File
begin

text \<open>
  What the NFS handler (\<^verbatim>\<open>lib/vnfs/nfs.c\<close>) and the SMB handler
  (\<^verbatim>\<open>lib/vsmb/smb3.c\<close>) share.  Both drive an asynchronous client library, libnfs and
  libsmb2, from a re-entrant \<open>doing\<close> callback.  The libraries and the client's reader and
  writer are outside the handlers: each call of \<open>doing\<close> gets an \<open>fs_input\<close> that says
  how polling went, which completion callback fired, and what the calls it makes return, and
  it reports the asynchronous call it queued.

  \<open>drive\<close> runs a handler against a file server that may take any number of rounds to
  answer and may answer a read or a write with any number of bytes.  The two locales state
  what a \<open>doing\<close> callback has to do with an answer, and prove once for both handlers that
  a download then delivers exactly the requested bytes and an upload stores exactly the
  client's bytes.
\<close>

section \<open>The easy handle and the library\<close>

record easy_data =
  rs :: range_state
  st_upload :: bool
  infilesize :: curl_off_t
  no_body :: bool
  dlsize :: curl_off_t
  ulsize :: curl_off_t
  ulcount :: curl_off_t
  body :: bytes
  body_eos :: bool
  upload_src :: "(CURLcode \<times> bytes \<times> bool) list"
  xfer_nop :: bool

datatype fs_call =
    CallOpen bytes nat
  | CallStat "nat option"
  | CallPread "nat option" nat int
  | CallPwrite "nat option" bytes int

datatype fs_event =
    EvNone
  | EvOpen int nat
  | EvStat int int
  | EvRw int bytes

record fs_input =
  in_fd :: int
  in_poll :: int
  in_service :: int
  in_event :: fs_event
  in_rc :: int
  in_write :: CURLcode
  in_eos_write :: CURLcode

text \<open>The client writer and reader, as the handlers see them.\<close>

definition client_write :: "CURLcode \<Rightarrow> bytes \<Rightarrow> easy_data \<Rightarrow> CURLcode \<times> easy_data" where
  "client_write code buf d = (code, if code = CURLE_OK then d\<lparr>body := body d @ buf\<rparr> else d)"

definition client_write_eos :: "CURLcode \<Rightarrow> easy_data \<Rightarrow> CURLcode \<times> easy_data" where
  "client_write_eos code d = (code, if code = CURLE_OK then d\<lparr>body_eos := True\<rparr> else d)"

definition client_read :: "easy_data \<Rightarrow> (CURLcode \<times> bytes \<times> bool) \<times> easy_data" where
  "client_read d =
     (case upload_src d of
        [] \<Rightarrow> ((CURLE_OK, [], False), d)
      | a # as \<Rightarrow> (a, d\<lparr>upload_src := as\<rparr>))"

definition fs_O_RDONLY :: nat where "fs_O_RDONLY = 0"
definition fs_O_WRONLY :: nat where "fs_O_WRONLY = 1"
definition fs_O_CREAT :: nat where "fs_O_CREAT = 64"
definition fs_O_TRUNC :: nat where "fs_O_TRUNC = 512"

definition fs_open_flags :: "bool \<Rightarrow> nat" where
  "fs_open_flags upload = (if upload then fs_O_WRONLY + fs_O_CREAT + fs_O_TRUNC else fs_O_RDONLY)"

section \<open>A file server\<close>

text \<open>
  The answer to an outstanding call, when it comes: \<open>k\<close> bounds how many bytes a read or
  a write moves.  A read moves at least one byte unless the offset is at the end.
\<close>

fun fs_server :: "bytes \<Rightarrow> fs_call \<Rightarrow> nat \<Rightarrow> bytes \<times> fs_event" where
  "fs_server f (CallOpen path flags) k = (if flags \<ge> fs_O_TRUNC then [] else f, EvOpen 0 k)"
| "fs_server f (CallStat fh) k = (f, EvStat 0 (int (length f)))"
| "fs_server f (CallPread fh want off) k =
     (let got = take (min want (Suc k)) (drop (nat off) f) in (f, EvRw (int (length got)) got))"
| "fs_server f (CallPwrite fh d off) k =
     (let put = take (Suc k) d in (file_write f (nat off) put, EvRw (int (length put)) []))"

definition fs_ok_input :: "fs_event \<Rightarrow> fs_input" where
  "fs_ok_input ev = \<lparr>in_fd = 3, in_poll = 1, in_service = 0, in_event = ev, in_rc = 0,
     in_write = CURLE_OK, in_eos_write = CURLE_OK\<rparr>"

lemma fs_ok_input_simps [simp]:
  "in_fd (fs_ok_input ev) = 3" "in_poll (fs_ok_input ev) = 1" "in_service (fs_ok_input ev) = 0"
  "in_event (fs_ok_input ev) = ev" "in_rc (fs_ok_input ev) = 0"
  "in_write (fs_ok_input ev) = CURLE_OK" "in_eos_write (fs_ok_input ev) = CURLE_OK"
  by (simp_all add: fs_ok_input_def)

type_synonym 'r doing =
  "fs_input \<Rightarrow> 'r \<Rightarrow> easy_data \<Rightarrow> CURLcode \<times> bool \<times> 'r \<times> easy_data \<times> fs_call option"

text \<open>
  A round without an answer is \<open>None\<close>.  The schedule is the fuel: the value \<open>None\<close> means the
  transfer is still going on when the schedule ends.
\<close>

fun drive :: "'r doing \<Rightarrow> nat option list \<Rightarrow> bytes \<Rightarrow> 'r \<Rightarrow> easy_data \<Rightarrow> fs_call option \<Rightarrow>
    (CURLcode \<times> bytes \<times> easy_data) option" where
  "drive doing [] f r d pend = None"
| "drive doing (k # ks) f r d pend =
     (let (f', ev) = (case (pend, k) of (Some c, Some n) \<Rightarrow> fs_server f c n | _ \<Rightarrow> (f, EvNone)) in
      case doing (fs_ok_input ev) r d of
        (res, dn, r', d', call) \<Rightarrow>
          if res \<noteq> CURLE_OK \<or> dn then Some (res, f', d')
          else drive doing ks f' r' d'
                 (case call of None \<Rightarrow> if ev = EvNone then pend else None | Some c \<Rightarrow> Some c))"

definition rounds :: "nat option list \<Rightarrow> nat" where
  "rounds ks = length (filter (\<lambda>k. k \<noteq> None) ks)"

lemma rounds_simps [simp]:
  "rounds [] = 0" "rounds (None # ks) = rounds ks" "rounds (Some k # ks) = Suc (rounds ks)"
  by (simp_all add: rounds_def)

section \<open>Downloads\<close>

text \<open>
  \<open>reading r pos todo w\<close>: a read of at most \<open>w\<close> bytes at \<open>pos\<close> is outstanding
  and \<open>todo\<close> bytes are left to transfer.
\<close>

locale block_reader =
  fixes doing :: "'r doing" and reading :: "'r \<Rightarrow> nat \<Rightarrow> nat \<Rightarrow> nat \<Rightarrow> bool"
  assumes reading_bounds: "reading r pos todo w \<Longrightarrow> 0 < w \<and> w \<le> todo"
    and read_idle: "reading r pos todo w \<Longrightarrow>
      \<exists>r'. doing (fs_ok_input EvNone) r d = (CURLE_OK, False, r', d, None) \<and> reading r' pos todo w"
    and read_more: "reading r pos todo w \<Longrightarrow> buf \<noteq> [] \<Longrightarrow> length buf \<le> w \<Longrightarrow> length buf < todo \<Longrightarrow>
      \<exists>r' fh w'. doing (fs_ok_input (EvRw (int (length buf)) buf)) r d
          = (CURLE_OK, False, r', d\<lparr>body := body d @ buf\<rparr>,
             Some (CallPread fh w' (int (pos + length buf))))
        \<and> reading r' (pos + length buf) (todo - length buf) w'"
    and read_last: "reading r pos todo w \<Longrightarrow> buf \<noteq> [] \<Longrightarrow> length buf = todo \<Longrightarrow> length buf \<le> w \<Longrightarrow>
      \<exists>r' d'. doing (fs_ok_input (EvRw (int (length buf)) buf)) r d = (CURLE_OK, True, r', d', None)
        \<and> body d' = body d @ buf \<and> body_eos d'"
    and read_eof: "reading r pos todo w \<Longrightarrow>
      \<exists>r' d'. doing (fs_ok_input (EvRw 0 [])) r d = (CURLE_OK, True, r', d', None)
        \<and> body d' = body d \<and> body_eos d'"
begin

text \<open>With enough answers the download ends, and it delivers exactly its byte range.\<close>

lemma download:
  assumes "reading r pos todo w" and "rounds ks \<ge> todo"
  shows "\<exists>d'. drive doing ks f r d (Some (CallPread fh w (int pos))) = Some (CURLE_OK, f, d')
    \<and> body d' = body d @ slice f pos (pos + todo) \<and> body_eos d'"
  using assms
proof (induction ks arbitrary: r pos todo w d fh)
  case Nil
  then show ?case using reading_bounds by fastforce
next
  case (Cons k ks)
  show ?case
  proof (cases k)
    case None
    obtain r' where "doing (fs_ok_input EvNone) r d = (CURLE_OK, False, r', d, None)"
        and "reading r' pos todo w"
      using read_idle [OF Cons.prems(1)] by blast
    then show ?thesis using Cons None by simp
  next
    case (Some n)
    define buf where "buf = take (min w (Suc n)) (drop pos f)"
    have b: "length buf \<le> w" "length buf \<le> todo"
      using reading_bounds [OF Cons.prems(1)] by (auto simp: buf_def)
    have srv: "fs_server f (CallPread fh w (int pos)) n = (f, EvRw (int (length buf)) buf)"
      by (simp add: buf_def)
    have pre: "slice f pos (pos + length buf) = buf"
      by (simp add: buf_def slice_def min_def)
    consider "buf = []" | "buf \<noteq> []" "length buf = todo" | "buf \<noteq> []" "length buf < todo"
      using b(2) by linarith
    then show ?thesis
    proof cases
      case 1
      then have "length f \<le> pos" using reading_bounds [OF Cons.prems(1)] by (auto simp: buf_def)
      then show ?thesis using read_eof [OF Cons.prems(1), of d] 1 srv
        by (auto simp: Some slice_def)
    next
      case 2
      obtain r' d' where "doing (fs_ok_input (EvRw (int (length buf)) buf)) r d
          = (CURLE_OK, True, r', d', None)" "body d' = body d @ buf" "body_eos d'"
        using read_last [OF Cons.prems(1) 2 b(1), of d] by blast
      moreover have "slice f pos (pos + todo) = buf" using pre 2(2) by simp
      ultimately show ?thesis using srv by (simp add: Some)
    next
      case 3
      obtain r' fh' w' where *: "doing (fs_ok_input (EvRw (int (length buf)) buf)) r d
          = (CURLE_OK, False, r', d\<lparr>body := body d @ buf\<rparr>,
             Some (CallPread fh' w' (int (pos + length buf))))"
          and r': "reading r' (pos + length buf) (todo - length buf) w'"
        using read_more [OF Cons.prems(1) 3(1) b(1) 3(2), of d] by blast
      have "rounds ks \<ge> todo - length buf" using Cons.prems(2) Some 3(1) by (cases buf) auto
      have eq: "pos + length buf + (todo - length buf) = pos + todo" using b(2) by simp
      from Cons.IH [OF r' \<open>rounds ks \<ge> todo - length buf\<close>, of "d\<lparr>body := body d @ buf\<rparr>" fh']
      obtain d' where
        "drive doing ks f r' (d\<lparr>body := body d @ buf\<rparr>) (Some (CallPread fh' w' (int (pos + length buf))))
           = Some (CURLE_OK, f, d')"
        "body d' = (body d @ buf) @ slice f (pos + length buf) (pos + todo)" "body_eos d'"
        unfolding eq by auto
      moreover have "slice f pos (pos + todo) = buf @ slice f (pos + length buf) (pos + todo)"
        using slice_split [of pos "pos + length buf" "pos + todo" f] b(2) pre by simp
      ultimately show ?thesis using srv * by (simp add: Some)
    qed
  qed
qed

end

text \<open>
  A handler that opens the file, asks for its size and then reads.  \<open>rem\<close> is negative
  when the transfer goes to the end of the file.
\<close>

definition download_len :: "int \<Rightarrow> nat \<Rightarrow> nat \<Rightarrow> nat" where
  "download_len rem pos sz = (if rem < 0 then sz - pos else nat rem)"

definition delivers :: "bytes \<Rightarrow> easy_data \<Rightarrow> nat \<Rightarrow> int \<Rightarrow> easy_data \<Rightarrow> bool" where
  "delivers f d pos rem d' \<longleftrightarrow> body_eos d' \<and> body d' = body d @
     (if no_body d then [] else slice f pos (pos + download_len rem pos (length f)))
   \<and> (no_body d \<longrightarrow> dlsize d' = int (download_len rem pos (length f)))"

locale file_download = block_reader doing reading
  for doing :: "'r doing" and reading :: "'r \<Rightarrow> nat \<Rightarrow> nat \<Rightarrow> nat \<Rightarrow> bool" +
  fixes in_open :: "'r \<Rightarrow> easy_data \<Rightarrow> nat \<Rightarrow> int \<Rightarrow> bool"
    and in_stat :: "'r \<Rightarrow> easy_data \<Rightarrow> nat \<Rightarrow> int \<Rightarrow> bool"
  assumes open_idle: "in_open r d pos rem \<Longrightarrow>
      \<exists>r'. doing (fs_ok_input EvNone) r d = (CURLE_OK, False, r', d, None) \<and> in_open r' d pos rem"
    and open_answer: "in_open r d pos rem \<Longrightarrow>
      \<exists>r' fh. doing (fs_ok_input (EvOpen 0 k)) r d = (CURLE_OK, False, r', d, Some (CallStat fh))
        \<and> in_stat r' d pos rem"
    and stat_idle: "in_stat r d pos rem \<Longrightarrow>
      \<exists>r'. doing (fs_ok_input EvNone) r d = (CURLE_OK, False, r', d, None) \<and> in_stat r' d pos rem"
    and stat_read: "in_stat r d pos rem \<Longrightarrow> 0 < download_len rem pos len \<Longrightarrow> \<not> no_body d \<Longrightarrow>
      \<exists>r' d' fh w. doing (fs_ok_input (EvStat 0 (int len))) r d
          = (CURLE_OK, False, r', d', Some (CallPread fh w (int pos)))
        \<and> reading r' pos (download_len rem pos len) w \<and> body d' = body d"
    and stat_nothing: "in_stat r d pos rem \<Longrightarrow> download_len rem pos len = 0 \<or> no_body d \<Longrightarrow>
      \<exists>r' d'. doing (fs_ok_input (EvStat 0 (int len))) r d = (CURLE_OK, True, r', d', None)
        \<and> body d' = body d \<and> body_eos d' \<and> dlsize d' = int (download_len rem pos len)"
begin

lemma stat_session:
  assumes "in_stat r d pos rem" and "rounds ks > download_len rem pos (length f)"
  shows "\<exists>d'. drive doing ks f r d (Some (CallStat fh)) = Some (CURLE_OK, f, d')
    \<and> delivers f d pos rem d'"
  using assms
proof (induction ks arbitrary: r)
  case (Cons k ks)
  let ?n = "download_len rem pos (length f)"
  show ?case
  proof (cases k)
    case None
    obtain r' where "doing (fs_ok_input EvNone) r d = (CURLE_OK, False, r', d, None)"
        "in_stat r' d pos rem"
      using stat_idle [OF Cons.prems(1)] by blast
    then show ?thesis using Cons None by simp
  next
    case (Some n)
    show ?thesis
    proof (cases "?n = 0 \<or> no_body d")
      case True
      obtain r' d' where "doing (fs_ok_input (EvStat 0 (int (length f)))) r d
          = (CURLE_OK, True, r', d', None)" "body d' = body d" "body_eos d'" "dlsize d' = int ?n"
        using stat_nothing [OF Cons.prems(1) True] by blast
      then show ?thesis using True by (auto simp: Some slice_def delivers_def)
    next
      case False
      then have pos': "0 < ?n" "\<not> no_body d" by auto
      obtain r' d1 fh' w where *: "doing (fs_ok_input (EvStat 0 (int (length f)))) r d
          = (CURLE_OK, False, r', d1, Some (CallPread fh' w (int pos)))"
          "reading r' pos ?n w" "body d1 = body d"
        using stat_read [OF Cons.prems(1) pos'] by blast
      have "rounds ks \<ge> ?n" using Cons.prems(2) Some by simp
      from download [OF *(2) this, of f d1 fh'] show ?thesis
        using *(1,3) pos'(2) by (auto simp: Some delivers_def)
    qed
  qed
qed simp

text \<open>From the queued open to the end: the requested bytes, or none for a size probe.\<close>

lemma session:
  assumes "in_open r d pos rem" and "rounds ks > Suc (download_len rem pos (length f))"
    and "flags < fs_O_TRUNC"
  shows "\<exists>d'. drive doing ks f r d (Some (CallOpen path flags)) = Some (CURLE_OK, f, d')
    \<and> delivers f d pos rem d'"
  using assms(1,2)
proof (induction ks arbitrary: r)
  case (Cons k ks)
  show ?case
  proof (cases k)
    case None
    obtain r' where "doing (fs_ok_input EvNone) r d = (CURLE_OK, False, r', d, None)"
        "in_open r' d pos rem"
      using open_idle [OF Cons.prems(1)] by blast
    then show ?thesis using Cons None by simp
  next
    case (Some n)
    obtain r' fh where *: "doing (fs_ok_input (EvOpen 0 n)) r d
        = (CURLE_OK, False, r', d, Some (CallStat fh))" "in_stat r' d pos rem"
      using open_answer [OF Cons.prems(1)] by blast
    have "rounds ks > download_len rem pos (length f)" using Cons.prems(2) Some by simp
    from stat_session [OF *(2) this] show ?thesis using *(1) assms(3) by (simp add: Some)
  qed
qed simp

end

section \<open>Uploads\<close>

text \<open>
  \<open>writing r n pos lst\<close>: a write at \<open>pos\<close> is outstanding; \<open>n\<close> is the size of the
  staging buffer and \<open>lst\<close> says that the block is the last one.
\<close>

text \<open>The client's data, cut into the blocks the reader returns.\<close>

fun upload_blocks :: "nat \<Rightarrow> (CURLcode \<times> bytes \<times> bool) list \<Rightarrow> bool" where
  "upload_blocks n [] = False"
| "upload_blocks n [(c, b, e)] = (c = CURLE_OK \<and> length b \<le> n \<and> e)"
| "upload_blocks n ((c, b, e) # as) = (c = CURLE_OK \<and> b \<noteq> [] \<and> length b \<le> n \<and> \<not> e \<and> upload_blocks n as)"

definition block_bytes :: "(CURLcode \<times> bytes \<times> bool) list \<Rightarrow> bytes" where
  "block_bytes as = concat (map (\<lambda>(c, b, e). b) as)"

lemma upload_blocks_Cons:
  assumes "upload_blocks n as"
  shows "\<exists>b e as'. as = (CURLE_OK, b, e) # as' \<and> length b \<le> n \<and> (b = [] \<longrightarrow> e \<and> as' = [])
    \<and> (if e then as' = [] else upload_blocks n as')"
  using assms by (induction n as rule: upload_blocks.induct) auto

text \<open>
  What a server that answers \<open>ks\<close> has taken of the blocks: of each block the first bytes, as many
  as it moved, and at least one.
\<close>

fun taken :: "nat option list \<Rightarrow> (CURLcode \<times> bytes \<times> bool) list \<Rightarrow> bytes" where
  "taken (None # ks) as = taken ks as"
| "taken (Some k # ks) ((c, b, e) # as) = take (Suc k) b @ taken ks as"
| "taken _ _ = []"

lemma taken_nothing [simp]: "taken ks [] = []" "taken ks [(c, [], e)] = []"
proof -
  show n: "taken ks [] = []" for ks :: "nat option list"
  proof (induction ks)
    case (Cons k ks)
    then show ?case by (cases k) simp_all
  qed simp
  show "taken ks [(c, [], e)] = []"
  proof (induction ks)
    case (Cons k ks)
    then show ?case by (cases k) (simp_all add: n)
  qed simp
qed

lemma taken_whole:
  assumes "upload_blocks n as" and "\<forall>k. Some k \<in> set ks \<longrightarrow> n \<le> Suc k" and "length as \<le> rounds ks"
  shows "taken ks as = block_bytes as"
  using assms
proof (induction ks arbitrary: as)
  case (Cons k ks)
  obtain b e as' where as: "as = (CURLE_OK, b, e) # as'" "length b \<le> n" "if e then as' = [] else upload_blocks n as'"
    using upload_blocks_Cons [OF Cons.prems(1)] by blast
  show ?case
  proof (cases k)
    case (Some m)
    have "taken ks as' = block_bytes as'"
      using Cons.IH [of as'] Cons.prems as Some by (cases e) (auto simp: block_bytes_def)
    then show ?thesis using Cons.prems(2) as Some by (auto simp: block_bytes_def)
  qed (use Cons in simp)
qed (use upload_blocks_Cons in fastforce)

text \<open>The answers to the writes: those after the answer to the open.\<close>

definition write_answers :: "nat option list \<Rightarrow> nat option list" where
  "write_answers ks = tl (dropWhile (\<lambda>k. k = None) ks)"

lemma write_answers_simps [simp]:
  "write_answers (None # ks) = write_answers ks" "write_answers (Some k # ks) = ks"
  by (simp_all add: write_answers_def)

lemma write_answers_facts:
  assumes "n < rounds ks"
  shows "n \<le> rounds (write_answers ks)" "Some k \<in> set (write_answers ks) \<Longrightarrow> Some k \<in> set ks"
proof -
  show "n \<le> rounds (write_answers ks)" using assms
  proof (induction ks)
    case (Cons k ks)
    then show ?case by (cases k) simp_all
  qed simp
  show "Some k \<in> set (write_answers ks) \<Longrightarrow> Some k \<in> set ks"
  proof (induction ks)
    case (Cons j ks)
    then show ?case by (cases j) simp_all
  qed (simp add: write_answers_def)
qed

locale block_writer =
  fixes doing :: "'r doing" and writing :: "'r \<Rightarrow> nat \<Rightarrow> nat \<Rightarrow> bool \<Rightarrow> bool"
  assumes write_idle: "writing r n pos lst \<Longrightarrow>
      \<exists>r'. doing (fs_ok_input EvNone) r d = (CURLE_OK, False, r', d, None) \<and> writing r' n pos lst"
    and write_end: "writing r n pos True \<Longrightarrow>
      \<exists>r' d'. doing (fs_ok_input (EvRw (int k) [])) r d = (CURLE_OK, True, r', d', None)"
    and write_more: "writing r n pos False \<Longrightarrow> upload_src d = (CURLE_OK, b, e) # as \<Longrightarrow>
      b \<noteq> [] \<Longrightarrow> length b \<le> n \<Longrightarrow>
      \<exists>r' fh d'. doing (fs_ok_input (EvRw (int k) [])) r d
          = (CURLE_OK, False, r', d', Some (CallPwrite fh b (int (pos + k))))
        \<and> writing r' n (pos + k) e \<and> upload_src d' = as"
    and write_stop: "writing r n pos False \<Longrightarrow> upload_src d = (CURLE_OK, [], True) # as \<Longrightarrow>
      \<exists>r' d'. doing (fs_ok_input (EvRw (int k) [])) r d = (CURLE_OK, True, r', d', None)"
begin

text \<open>
  The file ends up holding what it held, and what the server took of the outstanding block and
  of the blocks the client still had to send.
\<close>

lemma upload:
  assumes "writing r n (length f) lst" and "length b \<le> n" and "b \<noteq> []"
    and "if lst then as = [] else upload_blocks n as" and "upload_src d = as" and "rounds ks > length as"
  shows "\<exists>d'. drive doing ks f r d (Some (CallPwrite fh b (int (length f))))
    = Some (CURLE_OK, f @ taken ks ((CURLE_OK, b, lst) # as), d')"
  using assms
proof (induction ks arbitrary: r f b as d fh lst)
  case (Cons k ks)
  show ?case
  proof (cases k)
    case None
    obtain r' where "doing (fs_ok_input EvNone) r d = (CURLE_OK, False, r', d, None)"
        and "writing r' n (length f) lst"
      using write_idle [OF Cons.prems(1)] by blast
    then show ?thesis using Cons.IH [of r' f lst b as d fh] Cons.prems None by simp
  next
    case (Some m)
    define p where "p = take (Suc m) b"
    have srv: "fs_server f (CallPwrite fh b (int (length f))) m = (f @ p, EvRw (int (length p)) [])"
      using Cons.prems(3) by (simp add: file_write_def p_def Let_def)
    show ?thesis
    proof (cases lst)
      case True
      then show ?thesis
        using write_end [of r n "length f" "length p" d] Cons.prems(1,4) srv by (auto simp: Some p_def)
    next
      case False
      then obtain c b' e as' where as: "as = (c, b', e) # as'" and c: "c = CURLE_OK"
          "length b' \<le> n" "b' = [] \<Longrightarrow> e \<and> as' = []" "if e then as' = [] else upload_blocks n as'"
        using upload_blocks_Cons [of n as] Cons.prems(4) by auto
      have w: "writing r n (length f) False" using Cons.prems(1) False by simp
      show ?thesis
      proof (cases "b' = []")
        case True
        then show ?thesis
          using write_stop [of r n "length f" d as' "length p"] Cons.prems(1,5) False as c srv
          by (auto simp: Some p_def)
      next
        case b': False
        obtain r' fh' d' where *: "doing (fs_ok_input (EvRw (int (length p)) [])) r d
            = (CURLE_OK, False, r', d', Some (CallPwrite fh' b' (int (length f + length p))))"
            "writing r' n (length f + length p) e" "upload_src d' = as'"
          using write_more [OF w _ b' c(2), of d e as' "length p"] Cons.prems(5) as c(1) by auto
        have "\<exists>d''. drive doing ks (f @ p) r' d' (Some (CallPwrite fh' b' (int (length (f @ p)))))
            = Some (CURLE_OK, (f @ p) @ taken ks ((CURLE_OK, b', e) # as'), d'')"
          by (rule Cons.IH [of r' "f @ p" e b' as' d' fh'])
            (use * c b' Cons.prems(6) as Some in auto)
        then show ?thesis using srv *(1) c(1) by (simp add: Some as p_def)
      qed
    qed
  qed
qed simp

end

text \<open>An upload from the queued open on.\<close>

locale file_upload = block_writer doing writing
  for doing :: "'r doing" and writing :: "'r \<Rightarrow> nat \<Rightarrow> nat \<Rightarrow> bool \<Rightarrow> bool" +
  fixes in_create :: "'r \<Rightarrow> nat \<Rightarrow> bool"
  assumes create_idle: "in_create r n \<Longrightarrow>
      \<exists>r'. doing (fs_ok_input EvNone) r d = (CURLE_OK, False, r', d, None) \<and> in_create r' n"
    and create_first: "in_create r n \<Longrightarrow> upload_src d = (CURLE_OK, b, e) # as \<Longrightarrow>
      b \<noteq> [] \<Longrightarrow> length b \<le> n \<Longrightarrow>
      \<exists>r' fh d'. doing (fs_ok_input (EvOpen 0 k)) r d
          = (CURLE_OK, False, r', d', Some (CallPwrite fh b 0))
        \<and> writing r' n 0 e \<and> upload_src d' = as"
    and create_empty: "in_create r n \<Longrightarrow> upload_src d = (CURLE_OK, [], True) # as \<Longrightarrow>
      \<exists>r' d'. doing (fs_ok_input (EvOpen 0 k)) r d = (CURLE_OK, True, r', d', None)"
begin

lemma session_upload:
  assumes "in_create r n" and "upload_src d = as" and "upload_blocks n as"
    and "rounds ks > length as" and "flags \<ge> fs_O_TRUNC"
  shows "\<exists>d'. drive doing ks f r d (Some (CallOpen path flags)) = Some (CURLE_OK, taken (write_answers ks) as, d')"
  using assms(1,4)
proof (induction ks arbitrary: r)
  case (Cons k ks)
  obtain b e as' where as: "as = (CURLE_OK, b, e) # as'" and b: "length b \<le> n"
      "b = [] \<Longrightarrow> e \<and> as' = []" "if e then as' = [] else upload_blocks n as'"
    using upload_blocks_Cons [OF assms(3)] by blast
  show ?case
  proof (cases k)
    case None
    obtain r' where "doing (fs_ok_input EvNone) r d = (CURLE_OK, False, r', d, None)" "in_create r' n"
      using create_idle [OF Cons.prems(1)] by blast
    then show ?thesis using Cons None by simp
  next
    case (Some m)
    show ?thesis
    proof (cases "b = []")
      case True
      then show ?thesis using create_empty [OF Cons.prems(1), of d as' m] assms(2,5) as b
        by (auto simp: Some)
    next
      case False
      obtain r' fh d' where *: "doing (fs_ok_input (EvOpen 0 m)) r d
          = (CURLE_OK, False, r', d', Some (CallPwrite fh b 0))"
          "writing r' n 0 e" "upload_src d' = as'"
        using create_first [OF Cons.prems(1) _ False b(1), of d e as' m] assms(2) as by auto
      have "\<exists>d''. drive doing ks [] r' d' (Some (CallPwrite fh b 0))
          = Some (CURLE_OK, taken ks ((CURLE_OK, b, e) # as'), d'')"
        using upload [of r' n "[]" e b as' d' ks fh] * b False Cons.prems as Some by simp
      then show ?thesis using *(1) assms(5) by (simp add: Some as)
    qed
  qed
qed simp

end

section \<open>Sample transfers\<close>

text \<open>An upload of one block, and a download of the range \<open>-2\<close>.\<close>

definition demo_data :: easy_data where
  "demo_data = \<lparr>rs = \<lparr>use_range = False, range_str = None, resume_from = 0, maxdownload = 0\<rparr>,
     st_upload = True, infilesize = -1, no_body = False, dlsize = 0, ulsize = 0, ulcount = 0,
     body = [], body_eos = False, upload_src = [(CURLE_OK, ''abc'', True)], xfer_nop = False\<rparr>"

definition demo_suffix_data :: easy_data where
  "demo_suffix_data = demo_data\<lparr>st_upload := False, rs := \<lparr>use_range = True,
     range_str = Some (CHR ''-'' # print_off (int 2)), resume_from = 0, maxdownload = -1\<rparr>\<rparr>"

end
