(* ===== verification/Nfs_Handler.thy ===== *)
theory Nfs_Handler
  imports Fs_Transfer
begin

text \<open>
  The NFS protocol handler, \<^verbatim>\<open>lib/vnfs/nfs.c\<close>, function by function: the connection
  state and its setup, the mount, the request state and the \<open>nfs_doing\<close> state machine with
  the completion callbacks that libnfs runs.  libnfs itself is outside; what its calls return
  is in the \<open>fs_input\<close> of each call (see \<open>Fs_Transfer\<close>).
\<close>

section \<open>Connection\<close>

record nfs_url =
  nu_server :: bytes
  nu_path :: bytes
  nu_file :: bytes

record nfs_conn =
  nc_url :: nfs_url
  mount_done :: bool
  mount_status :: int

definition NFS_MAX_BLOCK :: nat where "NFS_MAX_BLOCK = 1024 * 1024"

definition nfs_mount_cb :: "int \<Rightarrow> nfs_conn \<Rightarrow> nfs_conn" where
  "nfs_mount_cb status nfsc = nfsc\<lparr>mount_done := True, mount_status := status\<rparr>"

text \<open>\<open>nfs_do_service\<close>; the callbacks that \<open>nfs_service\<close> runs are its argument.\<close>

definition nfs_do_service :: "fs_input \<Rightarrow> ('s \<Rightarrow> 's) \<Rightarrow> 's \<Rightarrow> CURLcode \<times> 's" where
  "nfs_do_service i callbacks s =
     (if in_fd i < 0 then (CURLE_OK, s)
      else if in_poll i < 0 then (CURLE_RECV_ERROR, s)
      else (let s' = callbacks s in
            if in_service i < 0 then (CURLE_RECV_ERROR, s') else (CURLE_OK, s')))"

text \<open>
  \<open>nfs_setup_connection\<close>: the allocations, the URL parser of libnfs and the registration
  of the connection's state may each fail.
\<close>

definition nfs_setup_connection ::
  "bool \<Rightarrow> bool \<Rightarrow> (bytes \<Rightarrow> nfs_url option) \<Rightarrow> bool \<Rightarrow> bytes \<Rightarrow> CURLcode \<times> nfs_conn option" where
  "nfs_setup_connection alloc_ok context_ok parse meta_ok url =
     (if \<not> alloc_ok then (CURLE_OUT_OF_MEMORY, None)
      else if \<not> context_ok then (CURLE_OUT_OF_MEMORY, None)
      else case parse url of
             None \<Rightarrow> (CURLE_URL_MALFORMAT, None)
           | Some u \<Rightarrow>
               if \<not> meta_ok then (CURLE_OUT_OF_MEMORY, None)
               else (CURLE_OK, Some \<lparr>nc_url = u, mount_done = False, mount_status = 0\<rparr>))"

definition nfs_connect :: "int \<Rightarrow> nfs_conn option \<Rightarrow> CURLcode \<times> bool" where
  "nfs_connect rc nfsc =
     (if nfsc = None then (CURLE_FAILED_INIT, False)
      else if rc < 0 then (CURLE_COULDNT_CONNECT, False)
      else (CURLE_OK, False))"

definition nfs_connecting ::
  "fs_input \<Rightarrow> int option \<Rightarrow> nfs_conn option \<Rightarrow> CURLcode \<times> bool \<times> nfs_conn option" where
  "nfs_connecting i mounted conn =
     (case conn of
        None \<Rightarrow> (CURLE_FAILED_INIT, False, None)
      | Some nfsc \<Rightarrow>
          (case nfs_do_service i (case mounted of None \<Rightarrow> (\<lambda>c. c) | Some st \<Rightarrow> nfs_mount_cb st) nfsc of
             (result, nfsc') \<Rightarrow>
               if result \<noteq> CURLE_OK then (result, False, Some nfsc')
               else if mount_done nfsc' then
                 (if mount_status nfsc' < 0 then (CURLE_COULDNT_CONNECT, False, Some nfsc')
                  else (CURLE_OK, True, Some nfsc'))
               else (CURLE_OK, False, Some nfsc')))"

text \<open>\<open>nfs_pollset\<close>: the socket and the directions the multi loop waits for.\<close>

definition nfs_pollset :: "nfs_conn option \<Rightarrow> int \<Rightarrow> bool \<Rightarrow> bool \<Rightarrow> (int \<times> bool \<times> bool) option" where
  "nfs_pollset nfsc fd pollin pollout =
     (if nfsc = None then None else if fd < 0 then None else Some (fd, pollin, pollout))"

section \<open>Request\<close>

datatype nfs_state = NFS_INIT | NFS_OPEN | NFS_STAT | NFS_TRANSFER | NFS_STOP

record nfs_request =
  nfs_fh :: "nat option"
  nfs_buf :: bytes
  nfs_bufsize :: nat
  nfs_offset :: curl_off_t
  nfs_remaining :: curl_off_t
  nfs_filesize :: curl_off_t
  nfs_st :: nfs_state
  nfs_upload :: bool
  nfs_eos :: bool
  nfs_inflight :: bool
  nfs_op_done :: bool
  nfs_op_status :: int

definition nfs_open_cb :: "int \<Rightarrow> nat \<Rightarrow> nfs_request \<Rightarrow> nfs_request" where
  "nfs_open_cb status fh req =
     (let req = req\<lparr>nfs_op_done := True, nfs_op_status := status\<rparr> in
      if status = 0 then req\<lparr>nfs_fh := Some fh\<rparr> else req)"

definition nfs_stat_cb :: "int \<Rightarrow> int \<Rightarrow> nfs_request \<Rightarrow> nfs_request" where
  "nfs_stat_cb status sz req =
     (let req = req\<lparr>nfs_op_done := True, nfs_op_status := status\<rparr> in
      if status = 0 then req\<lparr>nfs_filesize := sz\<rparr> else req)"

definition nfs_rw_cb :: "int \<Rightarrow> nfs_request \<Rightarrow> nfs_request" where
  "nfs_rw_cb status req = req\<lparr>nfs_op_done := True, nfs_op_status := status\<rparr>"

text \<open>The callback of an event; for a read libnfs has filled the start of the buffer before.\<close>

fun nfs_callback :: "fs_event \<Rightarrow> nfs_request \<Rightarrow> nfs_request" where
  "nfs_callback EvNone req = req"
| "nfs_callback (EvOpen status fh) req = nfs_open_cb status fh req"
| "nfs_callback (EvStat status sz) req = nfs_stat_cb status sz req"
| "nfs_callback (EvRw status filled) req =
     nfs_rw_cb status (req\<lparr>nfs_buf := filled @ drop (length filled) (nfs_buf req)\<rparr>)"

text \<open>\<open>nfs_do\<close>; \<open>maxio\<close> is what libnfs reports as its transfer maximum.\<close>

definition nfs_do ::
  "bool \<Rightarrow> bool \<Rightarrow> bool \<Rightarrow> (bool \<Rightarrow> nat) \<Rightarrow> nfs_conn option \<Rightarrow> easy_data \<Rightarrow>
   CURLcode \<times> nfs_request option \<times> easy_data" where
  "nfs_do calloc_ok malloc_ok meta_ok maxio conn d =
     (if conn = None then (CURLE_FAILED_INIT, None, d)
      else if \<not> calloc_ok then (CURLE_OUT_OF_MEMORY, None, d)
      else
        (let upload = st_upload d;
             (result, rs') = (if \<not> upload then Curl_range (rs d) else (CURLE_OK, rs d));
             d' = d\<lparr>rs := rs'\<rparr>
         in if result \<noteq> CURLE_OK then (result, None, d')
            else
              (let offset = (if \<not> upload \<and> resume_from rs' > 0 then resume_from rs' else 0);
                   remaining = (if \<not> upload then maxdownload rs' else infilesize d);
                   m = maxio upload;
                   bufsize = (if m = 0 \<or> m > NFS_MAX_BLOCK then NFS_MAX_BLOCK else m)
               in if \<not> malloc_ok then (CURLE_OUT_OF_MEMORY, None, d')
                  else if \<not> meta_ok then (CURLE_OUT_OF_MEMORY, None, d')
                  else (CURLE_OK,
                        Some \<lparr>nfs_fh = None, nfs_buf = [], nfs_bufsize = bufsize, nfs_offset = offset,
                              nfs_remaining = remaining, nfs_filesize = -1, nfs_st = NFS_INIT,
                              nfs_upload = upload, nfs_eos = False, nfs_inflight = False,
                              nfs_op_done = False, nfs_op_status = 0\<rparr>,
                        d'))))"

definition nfs_read_next ::
  "fs_input \<Rightarrow> nfs_request \<Rightarrow> CURLcode \<times> nfs_request \<times> fs_call option" where
  "nfs_read_next i req =
     (let want = (if nfs_remaining req \<ge> 0 \<and> int (nfs_bufsize req) > nfs_remaining req
                  then nat (nfs_remaining req) else nfs_bufsize req);
          req' = req\<lparr>nfs_op_done := False, nfs_inflight := True\<rparr>
      in if in_rc i < 0 then (CURLE_RECV_ERROR, req', None)
         else (CURLE_OK, req', Some (CallPread (nfs_fh req') want (nfs_offset req'))))"

definition nfs_write_next ::
  "fs_input \<Rightarrow> nfs_request \<Rightarrow> easy_data \<Rightarrow>
   CURLcode \<times> bool \<times> nfs_request \<times> easy_data \<times> fs_call option" where
  "nfs_write_next i req d =
     (case client_read d of
        ((result, buf, eos), d') \<Rightarrow>
          if result \<noteq> CURLE_OK then (result, False, req, d', None)
          else
            (let req1 = req\<lparr>nfs_buf := buf, nfs_eos := eos\<rparr> in
             if buf = [] then (CURLE_OK, eos, req1, d', None)
             else
               (let req2 = req1\<lparr>nfs_op_done := False, nfs_inflight := True\<rparr> in
                if in_rc i < 0 then (CURLE_SEND_ERROR, False, req2, d', None)
                else (CURLE_OK, False, req2, d',
                      Some (CallPwrite (nfs_fh req2) (nfs_buf req2) (nfs_offset req2))))))"

definition nfs_transfer_done ::
  "fs_input \<Rightarrow> nfs_request \<Rightarrow> easy_data \<Rightarrow>
   CURLcode \<times> bool \<times> nfs_request \<times> easy_data \<times> fs_call option" where
  "nfs_transfer_done i req d =
     (let (result, d1) = (if \<not> nfs_upload req then client_write_eos (in_eos_write i) d
                          else (CURLE_OK, d))
      in (result, True, req\<lparr>nfs_st := NFS_STOP\<rparr>, d1\<lparr>xfer_nop := True\<rparr>, None))"

text \<open>The \<open>NFS_TRANSFER\<close> case of the switch, for an upload and for a download.\<close>

definition nfs_transfer_upload :: "nfs_request doing" where
  "nfs_transfer_upload i req d =
     (let go = (\<lambda>req. case nfs_write_next i req d of
                  (result, stop, req', d', call) \<Rightarrow>
                    if result \<noteq> CURLE_OK then (result, False, req', d', call)
                    else if stop then nfs_transfer_done i req' d'
                    else (CURLE_OK, False, req', d', call))
      in if nfs_inflight req then
           (if \<not> nfs_op_done req then (CURLE_OK, False, req, d, None)
            else
              (let req = req\<lparr>nfs_inflight := False\<rparr> in
               if nfs_op_status req < 0 then (CURLE_SEND_ERROR, False, req, d, None)
               else
                 (let req = req\<lparr>nfs_offset := nfs_offset req + nfs_op_status req\<rparr> in
                  if nfs_eos req then nfs_transfer_done i req d else go req)))
         else go req)"

definition nfs_transfer_download :: "nfs_request doing" where
  "nfs_transfer_download i req d =
     (if \<not> nfs_op_done req then (CURLE_OK, False, req, d, None)
      else
        (let req = req\<lparr>nfs_inflight := False\<rparr> in
         if nfs_op_status req < 0 then (CURLE_RECV_ERROR, False, req, d, None)
         else
           (let n = nfs_op_status req;
                (result, d', req') =
                  (if n > 0 then
                     (case client_write (in_write i) (take (nat n) (nfs_buf req)) d of
                        (res, d1) \<Rightarrow>
                          if res \<noteq> CURLE_OK then (res, d1, req)
                          else (CURLE_OK, d1,
                                req\<lparr>nfs_offset := nfs_offset req + n,
                                    nfs_remaining :=
                                      (if nfs_remaining req > 0 then nfs_remaining req - n
                                       else nfs_remaining req)\<rparr>))
                   else (CURLE_OK, d, req))
            in if result \<noteq> CURLE_OK then (result, False, req', d', None)
               else if n = 0 \<or> nfs_remaining req' = 0 then nfs_transfer_done i req' d'
               else (case nfs_read_next i req' of
                       (res, req'', call) \<Rightarrow> (res, False, req'', d', call)))))"

definition nfs_case_stat :: "nfs_request doing" where
  "nfs_case_stat i req d =
     (if \<not> nfs_op_done req then (CURLE_OK, False, req, d, None)
      else if nfs_op_status req < 0 then (CURLE_RECV_ERROR, False, req, d, None)
      else
        (let req = (if nfs_remaining req < 0
                    then req\<lparr>nfs_remaining := (if nfs_filesize req > nfs_offset req
                                                then nfs_filesize req - nfs_offset req else 0)\<rparr>
                    else req);
             d = d\<lparr>dlsize := nfs_remaining req\<rparr>
         in if nfs_remaining req = 0 \<or> no_body d then nfs_transfer_done i req d
            else (case nfs_read_next i (req\<lparr>nfs_st := NFS_TRANSFER\<rparr>) of
                    (res, req', call) \<Rightarrow> (res, False, req', d, call))))"

text \<open>
  The switch of \<open>nfs_doing\<close>.  Its loop goes round again in one place only, from
  \<open>NFS_OPEN\<close> to \<open>NFS_TRANSFER\<close> of an upload.
\<close>

definition nfs_switch :: "nfs_conn \<Rightarrow> nfs_request doing" where
  "nfs_switch nfsc i req d =
     (case nfs_st req of
        NFS_INIT \<Rightarrow>
          (let req = req\<lparr>nfs_op_done := False, nfs_inflight := True, nfs_st := NFS_OPEN\<rparr> in
           if in_rc i < 0 then (CURLE_REMOTE_FILE_NOT_FOUND, False, req, d, None)
           else (CURLE_OK, False, req, d,
                 Some (CallOpen (nu_file (nc_url nfsc)) (fs_open_flags (nfs_upload req)))))
      | NFS_OPEN \<Rightarrow>
          if \<not> nfs_op_done req then (CURLE_OK, False, req, d, None)
          else if nfs_op_status req < 0 then (CURLE_REMOTE_FILE_NOT_FOUND, False, req, d, None)
          else if nfs_upload req then
            nfs_transfer_upload i (req\<lparr>nfs_inflight := False, nfs_st := NFS_TRANSFER\<rparr>) d
          else
            (let req = req\<lparr>nfs_op_done := False, nfs_inflight := True, nfs_st := NFS_STAT\<rparr> in
             if in_rc i < 0 then (CURLE_RECV_ERROR, False, req, d, None)
             else (CURLE_OK, False, req, d, Some (CallStat (nfs_fh req))))
      | NFS_STAT \<Rightarrow> nfs_case_stat i req d
      | NFS_TRANSFER \<Rightarrow>
          if nfs_upload req then nfs_transfer_upload i req d else nfs_transfer_download i req d
      | NFS_STOP \<Rightarrow> (CURLE_OK, True, req, d, None))"

definition nfs_doing_on :: "nfs_conn \<Rightarrow> nfs_request doing" where
  "nfs_doing_on nfsc i req d =
     (case nfs_do_service i (nfs_callback (in_event i)) req of
        (result, req') \<Rightarrow>
          if result \<noteq> CURLE_OK then (result, False, req', d, None) else nfs_switch nfsc i req' d)"

definition nfs_doing ::
  "fs_input \<Rightarrow> nfs_conn option \<Rightarrow> nfs_request option \<Rightarrow> easy_data \<Rightarrow>
   CURLcode \<times> bool \<times> nfs_request option \<times> easy_data \<times> fs_call option" where
  "nfs_doing i conn reqo d =
     (case (conn, reqo) of
        (Some nfsc, Some req) \<Rightarrow>
          (case nfs_doing_on nfsc i req d of (res, dn, req', d', call) \<Rightarrow> (res, dn, Some req', d', call))
      | _ \<Rightarrow> (CURLE_FAILED_INIT, False, reqo, d, None))"

text \<open>\<open>nfs_done\<close>: the status is passed on; the second component is the handle that is closed.\<close>

definition nfs_done ::
  "CURLcode \<Rightarrow> nfs_conn option \<Rightarrow> nfs_request option \<Rightarrow> CURLcode \<times> nat option \<times> nfs_request option" where
  "nfs_done status conn reqo =
     (case (conn, reqo) of
        (Some nfsc, Some req) \<Rightarrow>
          if nfs_fh req \<noteq> None then (status, nfs_fh req, Some (req\<lparr>nfs_fh := None\<rparr>))
          else (status, None, reqo)
      | _ \<Rightarrow> (status, None, reqo))"

lemmas nfs_branch_defs =
  nfs_doing_on_def nfs_do_service_def nfs_switch_def nfs_transfer_upload_def
  nfs_transfer_download_def nfs_case_stat_def nfs_transfer_done_def nfs_read_next_def
  nfs_write_next_def nfs_open_cb_def nfs_stat_cb_def nfs_rw_cb_def
  client_write_def client_write_eos_def client_read_def

section \<open>The handler as a block reader and a block writer\<close>

definition nfs_reading :: "nfs_request \<Rightarrow> nat \<Rightarrow> nat \<Rightarrow> nat \<Rightarrow> bool" where
  "nfs_reading req pos todo w \<longleftrightarrow> nfs_st req = NFS_TRANSFER \<and> \<not> nfs_upload req
     \<and> \<not> nfs_op_done req \<and> 0 < nfs_bufsize req \<and> 0 < todo
     \<and> nfs_offset req = int pos \<and> nfs_remaining req = int todo \<and> w = min (nfs_bufsize req) todo"

definition nfs_writing :: "nfs_request \<Rightarrow> nat \<Rightarrow> nat \<Rightarrow> bool \<Rightarrow> bool" where
  "nfs_writing req n pos lst \<longleftrightarrow> nfs_st req = NFS_TRANSFER \<and> nfs_upload req
     \<and> nfs_inflight req \<and> \<not> nfs_op_done req \<and> nfs_offset req = int pos \<and> nfs_eos req = lst"

interpretation nfs_rd: block_reader "nfs_doing_on c" nfs_reading for c
proof
  fix r pos todo w d and buf :: bytes
  assume r: "nfs_reading r pos todo w"
  show "0 < w \<and> w \<le> todo" using r by (simp add: nfs_reading_def)
  show "\<exists>r'. nfs_doing_on c (fs_ok_input EvNone) r d = (CURLE_OK, False, r', d, None)
      \<and> nfs_reading r' pos todo w"
    using r by (simp add: nfs_reading_def nfs_branch_defs)
  show "\<exists>r' d'. nfs_doing_on c (fs_ok_input (EvRw 0 [])) r d = (CURLE_OK, True, r', d', None)
      \<and> body d' = body d \<and> body_eos d'"
    using r by (simp add: nfs_reading_def nfs_branch_defs)
  show "\<exists>r' fh w'. nfs_doing_on c (fs_ok_input (EvRw (int (length buf)) buf)) r d
      = (CURLE_OK, False, r', d\<lparr>body := body d @ buf\<rparr>, Some (CallPread fh w' (int (pos + length buf))))
      \<and> nfs_reading r' (pos + length buf) (todo - length buf) w'"
    if "buf \<noteq> []" "length buf \<le> w" "length buf < todo"
    using r that by (auto simp: nfs_reading_def nfs_branch_defs Let_def min_def)
  show "\<exists>r' d'. nfs_doing_on c (fs_ok_input (EvRw (int (length buf)) buf)) r d
      = (CURLE_OK, True, r', d', None) \<and> body d' = body d @ buf \<and> body_eos d'"
    if "buf \<noteq> []" "length buf = todo" "length buf \<le> w"
    using r that by (auto simp: nfs_reading_def nfs_branch_defs Let_def)
qed

interpretation nfs_wr: block_writer "nfs_doing_on c" nfs_writing for c
  by unfold_locales (auto simp: nfs_writing_def nfs_branch_defs Let_def)

definition nfs_opening :: "nfs_request \<Rightarrow> easy_data \<Rightarrow> nat \<Rightarrow> int \<Rightarrow> bool" where
  "nfs_opening req d pos rem \<longleftrightarrow> nfs_st req = NFS_OPEN \<and> \<not> nfs_upload req \<and> \<not> nfs_op_done req
     \<and> 0 < nfs_bufsize req \<and> nfs_offset req = int pos \<and> nfs_remaining req = rem"

definition nfs_statting :: "nfs_request \<Rightarrow> easy_data \<Rightarrow> nat \<Rightarrow> int \<Rightarrow> bool" where
  "nfs_statting req d pos rem \<longleftrightarrow> nfs_st req = NFS_STAT \<and> \<not> nfs_upload req \<and> \<not> nfs_op_done req
     \<and> 0 < nfs_bufsize req \<and> nfs_offset req = int pos \<and> nfs_remaining req = rem"

interpretation nfs_dl: file_download "nfs_doing_on c" nfs_reading nfs_opening nfs_statting for c
proof
  fix r d pos rem k len
  show "\<exists>r'. nfs_doing_on c (fs_ok_input EvNone) r d = (CURLE_OK, False, r', d, None)
      \<and> nfs_opening r' d pos rem"
    and "\<exists>r' fh. nfs_doing_on c (fs_ok_input (EvOpen 0 k)) r d
        = (CURLE_OK, False, r', d, Some (CallStat fh)) \<and> nfs_statting r' d pos rem"
    if "nfs_opening r d pos rem"
    using that by (auto simp: nfs_opening_def nfs_statting_def nfs_branch_defs Let_def)
  assume s: "nfs_statting r d pos rem"
  show "\<exists>r'. nfs_doing_on c (fs_ok_input EvNone) r d = (CURLE_OK, False, r', d, None)
      \<and> nfs_statting r' d pos rem"
    using s by (auto simp: nfs_statting_def nfs_branch_defs Let_def)
  show "\<exists>r' d' fh w. nfs_doing_on c (fs_ok_input (EvStat 0 (int len))) r d
        = (CURLE_OK, False, r', d', Some (CallPread fh w (int pos)))
      \<and> nfs_reading r' pos (download_len rem pos len) w \<and> body d' = body d"
    if "0 < download_len rem pos len" "\<not> no_body d"
    using s that
    by (auto simp: nfs_statting_def nfs_reading_def download_len_def nfs_branch_defs Let_def min_def)
  show "\<exists>r' d'. nfs_doing_on c (fs_ok_input (EvStat 0 (int len))) r d = (CURLE_OK, True, r', d', None)
      \<and> body d' = body d \<and> body_eos d' \<and> dlsize d' = int (download_len rem pos len)"
    if "download_len rem pos len = 0 \<or> no_body d"
    using s that by (auto simp: nfs_statting_def download_len_def nfs_branch_defs Let_def)
qed

section \<open>Whole transfers\<close>

lemma NFS_MAX_BLOCK_pos [simp]: "0 < NFS_MAX_BLOCK"
  by (simp add: NFS_MAX_BLOCK_def)

text \<open>The first call of \<open>nfs_doing\<close> queues the open.\<close>

lemma nfs_init_download:
  assumes "nfs_st req = NFS_INIT" and "\<not> nfs_upload req" and "0 < nfs_bufsize req"
    and "nfs_offset req = int pos"
    and "rounds ks > Suc (download_len (nfs_remaining req) pos (length f))"
  shows "\<exists>d'. drive (nfs_doing_on c) (k # ks) f req d None = Some (CURLE_OK, f, d')
    \<and> delivers f d pos (nfs_remaining req) d'"
proof -
  let ?req = "req\<lparr>nfs_op_done := False, nfs_inflight := True, nfs_st := NFS_OPEN\<rparr>"
  have "nfs_doing_on c (fs_ok_input EvNone) req d
      = (CURLE_OK, False, ?req, d, Some (CallOpen (nu_file (nc_url c)) (fs_open_flags False)))"
    using assms by (simp add: nfs_branch_defs Let_def)
  moreover have "nfs_opening ?req d pos (nfs_remaining req)" using assms by (simp add: nfs_opening_def)
  ultimately show ?thesis
    using nfs_dl.session [of ?req d pos "nfs_remaining req" f ks "fs_open_flags False" c] assms(5)
    by (cases k) (simp_all add: fs_open_flags_def fs_O_RDONLY_def fs_O_TRUNC_def)
qed

lemma nfs_do_download:
  assumes "\<not> st_upload d" and "Curl_range (rs d) = (CURLE_OK, rs')"
  shows "\<exists>req. nfs_do True True True maxio (Some c) d = (CURLE_OK, Some req, d\<lparr>rs := rs'\<rparr>)
    \<and> nfs_st req = NFS_INIT \<and> \<not> nfs_upload req \<and> 0 < nfs_bufsize req \<and> nfs_bufsize req \<le> NFS_MAX_BLOCK
    \<and> nfs_offset req = (if resume_from rs' > 0 then resume_from rs' else 0)
    \<and> nfs_remaining req = maxdownload rs'"
  using assms by (simp add: nfs_do_def Let_def)

lemma nfs_piece_download:
  assumes "\<not> st_upload d" and "\<not> no_body d" and "use_range (rs d)"
    and "range_str (rs d) = Some (chunk_range_string start stop)"
    and "start \<le> stop" and "int stop < CURL_OFF_T_MAX" and "rounds ks > stop - start + 2"
  shows "\<exists>req d1 d2. nfs_do True True True maxio (Some c) d = (CURLE_OK, Some req, d1)
    \<and> drive (nfs_doing_on c) (k # ks) f req d1 None = Some (CURLE_OK, f, d2)
    \<and> body d2 = body d @ slice f start (Suc stop)"
proof -
  let ?rs = "(rs d)\<lparr>maxdownload := int stop - int start + 1, resume_from := int start\<rparr>"
  have "Curl_range (rs d) = (CURLE_OK, ?rs)" using Curl_range_chunk assms(3-6) by blast
  from nfs_do_download [OF assms(1) this, of maxio c] obtain req where
    req: "nfs_do True True True maxio (Some c) d = (CURLE_OK, Some req, d\<lparr>rs := ?rs\<rparr>)"
      "nfs_st req = NFS_INIT" "\<not> nfs_upload req" "0 < nfs_bufsize req"
      "nfs_offset req = int start" "nfs_remaining req = int stop - int start + 1"
    by auto
  have "nat (int stop - int start + 1) = Suc (stop - start)" using assms(5) by linarith
  then have len: "download_len (nfs_remaining req) start (length f) = Suc (stop - start)"
    using assms(5) by (simp add: download_len_def req(6))
  have "\<exists>d2. drive (nfs_doing_on c) (k # ks) f req (d\<lparr>rs := ?rs\<rparr>) None = Some (CURLE_OK, f, d2)
      \<and> delivers f (d\<lparr>rs := ?rs\<rparr>) start (nfs_remaining req) d2"
    by (rule nfs_init_download) (use req len assms(7) in auto)
  then show ?thesis using req(1) len assms(2,5) by (auto simp: delivers_def simp del: drive.simps)
qed

text \<open>Uploads.\<close>

definition nfs_creating :: "nfs_request \<Rightarrow> nat \<Rightarrow> bool" where
  "nfs_creating req n \<longleftrightarrow> nfs_st req = NFS_OPEN \<and> nfs_upload req \<and> \<not> nfs_op_done req
     \<and> nfs_offset req = 0"

interpretation nfs_ul: file_upload "nfs_doing_on c" nfs_writing nfs_creating for c
  by unfold_locales (auto simp: nfs_writing_def nfs_creating_def nfs_branch_defs Let_def)

text \<open>
  C25: what an NFS upload leaves in the remote file.  When the client reads of the upload
  succeed, fit the block buffer and end with the end-of-stream flag, then, after any number of
  waits and however much of each block the server takes (at least a byte), \<open>nfs_do\<close> and the
  rounds of \<open>nfs_doing\<close> end with \<open>CURLE_OK\<close>, and the remote file holds the parts the server took,
  one after the other, whatever it held before.  These are exactly the bytes read if the server
  takes each block whole; a block taken in part is not completed.
\<close>

theorem nfs_whole_upload:
  assumes "st_upload d" and "upload_src d = as"
    and "upload_blocks (if maxio True = 0 \<or> maxio True > NFS_MAX_BLOCK then NFS_MAX_BLOCK
           else maxio True) as"
    and "rounds ks > length as"
  shows "\<exists>req d1 d2. nfs_do True True True maxio (Some c) d = (CURLE_OK, Some req, d1)
    \<and> drive (nfs_doing_on c) (k # ks) f req d1 None = Some (CURLE_OK, taken (write_answers ks) as, d2)
    \<and> ((\<forall>k. Some k \<in> set ks \<longrightarrow> NFS_MAX_BLOCK \<le> Suc k) \<longrightarrow> taken (write_answers ks) as = block_bytes as)"
proof -
  obtain req where req: "nfs_do True True True maxio (Some c) d = (CURLE_OK, Some req, d)"
      "nfs_st req = NFS_INIT" "nfs_upload req" "nfs_offset req = 0" "nfs_bufsize req \<le> NFS_MAX_BLOCK"
      "upload_blocks (nfs_bufsize req) as"
    using assms(1,3) by (simp add: nfs_do_def Let_def)
  let ?req = "req\<lparr>nfs_op_done := False, nfs_inflight := True, nfs_st := NFS_OPEN\<rparr>"
  have "nfs_doing_on c (fs_ok_input EvNone) req d
      = (CURLE_OK, False, ?req, d, Some (CallOpen (nu_file (nc_url c)) (fs_open_flags True)))"
    using req by (simp add: nfs_branch_defs Let_def)
  moreover have "\<exists>d'. drive (nfs_doing_on c) ks f ?req d
        (Some (CallOpen (nu_file (nc_url c)) (fs_open_flags True)))
      = Some (CURLE_OK, taken (write_answers ks) as, d')"
    by (rule nfs_ul.session_upload [of _ "nfs_bufsize req"])
      (use req assms in \<open>force simp: nfs_creating_def fs_open_flags_def fs_O_TRUNC_def\<close>)+
  moreover have "taken (write_answers ks) as = block_bytes as" if "\<forall>k. Some k \<in> set ks \<longrightarrow> NFS_MAX_BLOCK \<le> Suc k"
    using taken_whole [OF req(6)] write_answers_facts [OF assms(4)] that req(5) by (meson le_trans)
  ultimately show ?thesis using req(1) by (cases k) auto
qed

definition demo_conn :: nfs_conn where
  "demo_conn = \<lparr>nc_url = \<lparr>nu_server = ''h'', nu_path = ''/x'', nu_file = ''f''\<rparr>,
     mount_done = True, mount_status = 0\<rparr>"

theorem nfs_whole_upload_witness:
  "\<exists>req d1 d2. nfs_do True True True (\<lambda>_. 0) (Some demo_conn) demo_data = (CURLE_OK, Some req, d1)
    \<and> drive (nfs_doing_on demo_conn) [None, Some NFS_MAX_BLOCK, None, Some NFS_MAX_BLOCK] ''old'' req d1 None
        = Some (CURLE_OK, ''abc'', d2)"
proof -
  have "rounds [Some NFS_MAX_BLOCK, None, Some NFS_MAX_BLOCK] > length [(CURLE_OK, ''abc'', True)]" by simp
  moreover have "st_upload demo_data" "upload_src demo_data = [(CURLE_OK, ''abc'', True)]"
    by (simp_all add: demo_data_def)
  moreover have "block_bytes [(CURLE_OK, ''abc'', True)] = ''abc''" by (simp add: block_bytes_def)
  ultimately show ?thesis
    using nfs_whole_upload [of demo_data "[(CURLE_OK, ''abc'', True)]" "\<lambda>_. 0"
        "[Some NFS_MAX_BLOCK, None, Some NFS_MAX_BLOCK]" demo_conn None "''old''"]
    by (simp add: NFS_MAX_BLOCK_def del: drive.simps)
qed

section \<open>Errors\<close>

text \<open>
  A failed operation ends the NFS transfer with the code of its kind: a failed open is
  a missing remote file, a failed size query or read a receive error, a failed write a send
  error, and a failure of the library's own event loop a receive error in every state.
\<close>

lemma nfs_error_codes:
  assumes "in_fd i \<ge> 0" and "in_poll i \<ge> 0" and "status < 0" and "0 \<le> in_service i"
  shows "fst (nfs_doing_on c (i\<lparr>in_event := EvOpen status fh\<rparr>) (req\<lparr>nfs_st := NFS_OPEN\<rparr>) d)
      = CURLE_REMOTE_FILE_NOT_FOUND
    \<and> fst (nfs_doing_on c (i\<lparr>in_event := EvStat status sz\<rparr>) (req\<lparr>nfs_st := NFS_STAT\<rparr>) d)
      = CURLE_RECV_ERROR
    \<and> fst (nfs_doing_on c (i\<lparr>in_event := EvRw status bs\<rparr>)
        (req\<lparr>nfs_st := NFS_TRANSFER, nfs_upload := False\<rparr>) d) = CURLE_RECV_ERROR
    \<and> fst (nfs_doing_on c (i\<lparr>in_event := EvRw status bs\<rparr>)
        (req\<lparr>nfs_st := NFS_TRANSFER, nfs_upload := True, nfs_inflight := True\<rparr>) d)
      = CURLE_SEND_ERROR
    \<and> fst (nfs_doing_on c (i\<lparr>in_service := -1\<rparr>) req d) = CURLE_RECV_ERROR"
  using assms by (simp add: nfs_branch_defs Let_def)

section \<open>Where the handler falls short\<close>

text \<open>
  A range \<open>-n\<close> asks for the last \<open>n\<close> bytes.  \<open>nfs_do\<close> drops the negative resume
  offset that \<open>Curl_range\<close> produces for it, so what the NFS handler delivers is the first
  \<open>n\<close> bytes.
\<close>

lemma nfs_suffix_delivers_prefix:
  assumes "\<not> st_upload d" and "\<not> no_body d" and "use_range (rs d)"
    and "range_str (rs d) = Some (CHR ''-'' # print_off (int n))"
    and "0 < n" and "int n \<le> CURL_OFF_T_MAX" and "rounds ks > Suc n"
  shows "\<exists>req d1 d2. nfs_do True True True maxio (Some c) d = (CURLE_OK, Some req, d1)
    \<and> drive (nfs_doing_on c) (k # ks) f req d1 None = Some (CURLE_OK, f, d2)
    \<and> body d2 = body d @ take n f"
proof -
  let ?rs = "(rs d)\<lparr>maxdownload := int n, resume_from := - int n\<rparr>"
  have "Curl_range (rs d) = (CURLE_OK, ?rs)" using Curl_range_suffix assms by simp
  from nfs_do_download [OF assms(1) this, of maxio c] obtain req where
    req: "nfs_do True True True maxio (Some c) d = (CURLE_OK, Some req, d\<lparr>rs := ?rs\<rparr>)"
      "nfs_st req = NFS_INIT" "\<not> nfs_upload req" "0 < nfs_bufsize req"
      "nfs_offset req = int 0" "nfs_remaining req = int n"
    by auto
  have "\<exists>d2. drive (nfs_doing_on c) (k # ks) f req (d\<lparr>rs := ?rs\<rparr>) None = Some (CURLE_OK, f, d2)
      \<and> delivers f (d\<lparr>rs := ?rs\<rparr>) 0 (nfs_remaining req) d2"
    by (rule nfs_init_download) (use req assms(7) in \<open>auto simp: download_len_def\<close>)
  then show ?thesis using req(1,6) assms(2)
    by (auto simp: delivers_def download_len_def slice_def simp del: drive.simps)
qed

text \<open>
  A write that moves fewer bytes than it was given is not completed.  \<open>nfs_doing\<close>
  advances the offset by what was moved and goes on with the next read of the client, so a
  server that takes one byte of the only block \<open>abc\<close> leaves the file \<open>a\<close>, and the upload
  is reported as successful.
\<close>

lemma nfs_short_write_loses:
  "\<exists>req d1 d2. nfs_do True True True (\<lambda>_. 0) (Some demo_conn) demo_data = (CURLE_OK, Some req, d1)
    \<and> drive (nfs_doing_on demo_conn) [None, Some 0, Some 0] [] req d1 None
        = Some (CURLE_OK, ''a'', d2)"
  by (simp add: nfs_do_def demo_data_def nfs_branch_defs fs_open_flags_def fs_O_TRUNC_def
      file_write_def Let_def)

end
