(* ===== verification/Smb3_Handler.thy ===== *)
theory Smb3_Handler
  imports Fs_Transfer
begin

text \<open>
  The SMB protocol handler on libsmb2, \<^verbatim>\<open>lib/vsmb/smb3.c\<close>, function by function:
  credentials and connection setup, the tree connect, the request state and the
  \<open>smb3_doing\<close> state machine with the completion callbacks that libsmb2 runs.  It has the
  shape of the NFS handler; it differs in the callbacks (one generic callback, with the file
  size left in a structure), in the negative resume offset it resolves once the size is
  known, and in the upload progress it reports.
\<close>

section \<open>Connection\<close>

record smb2_url =
  su_server :: bytes
  su_share :: "bytes option"
  su_path :: bytes
  su_user :: "bytes option"
  su_domain :: "bytes option"

text \<open>The settings made on the libsmb2 context.\<close>

record smb2_context =
  ctx_domain :: "bytes option"
  ctx_user :: "bytes option"
  ctx_password :: "bytes option"
  ctx_signing :: bool

record smb3_conn =
  sc_smb2 :: smb2_context
  sc_url :: smb2_url
  connect_done :: bool
  connect_status :: int

definition SMB3_MAX_BLOCK :: nat where "SMB3_MAX_BLOCK = 1024 * 1024"

definition smb3_connect_cb :: "int \<Rightarrow> smb3_conn \<Rightarrow> smb3_conn" where
  "smb3_connect_cb status sc = sc\<lparr>connect_done := True, connect_status := status\<rparr>"

definition smb3_do_service :: "fs_input \<Rightarrow> ('s \<Rightarrow> 's) \<Rightarrow> 's \<Rightarrow> CURLcode \<times> 's" where
  "smb3_do_service i callbacks s =
     (if in_fd i = -1 then (CURLE_OK, s)
      else if in_poll i < 0 then (CURLE_RECV_ERROR, s)
      else (let s' = callbacks s in
            if in_service i < 0 then (CURLE_RECV_ERROR, s') else (CURLE_OK, s')))"

text \<open>
  The user name given with the transfer: the part before a slash, or before a backslash when
  there is no slash, is the domain.
\<close>

definition split_at :: "char \<Rightarrow> bytes \<Rightarrow> (bytes \<times> bytes) option" where
  "split_at c s = (if c \<in> set s then Some (takeWhile (\<lambda>x. x \<noteq> c) s, tl (dropWhile (\<lambda>x. x \<noteq> c) s))
                   else None)"

definition user_split :: "bytes \<Rightarrow> (bytes \<times> bytes) option" where
  "user_split user = (case split_at (CHR ''/'') user of
       Some p \<Rightarrow> Some p
     | None \<Rightarrow> split_at (CHR 0x5C) user)"

definition smb3_set_creds :: "bytes option \<Rightarrow> bytes option \<Rightarrow> smb2_url \<Rightarrow> smb2_context \<Rightarrow> smb2_context" where
  "smb3_set_creds user passwd url ctx =
     (let c1 = (case user of
                  Some (u # us) \<Rightarrow>
                    (case user_split (u # us) of
                       Some (dmn, rest) \<Rightarrow> ctx\<lparr>ctx_domain := Some dmn, ctx_user := Some rest\<rparr>
                     | None \<Rightarrow> ctx\<lparr>ctx_user := Some (u # us)\<rparr>)
                | _ \<Rightarrow> (case su_user url of Some u \<Rightarrow> ctx\<lparr>ctx_user := Some u\<rparr> | None \<Rightarrow> ctx));
          c2 = (case passwd of Some (p # ps) \<Rightarrow> c1\<lparr>ctx_password := Some (p # ps)\<rparr> | _ \<Rightarrow> c1);
          c3 = (case su_domain url of Some (x # xs) \<Rightarrow> c2\<lparr>ctx_domain := Some (x # xs)\<rparr> | _ \<Rightarrow> c2)
      in c3\<lparr>ctx_signing := True\<rparr>)"

text \<open>
  \<open>smb3_setup_connection\<close>.  \<open>parse\<close> is the URL parser of libsmb2, \<open>ctx\<close> the
  context it starts from, \<open>domain_ok\<close> says whether the copy of the domain could be
  allocated; with a connection state registered, that failure leaves it registered.
\<close>

definition smb3_setup_connection ::
  "bool \<Rightarrow> smb2_context option \<Rightarrow> (bytes \<Rightarrow> smb2_url option) \<Rightarrow> bool \<Rightarrow> bool \<Rightarrow>
   bytes option \<Rightarrow> bytes option \<Rightarrow> bytes \<Rightarrow> CURLcode \<times> smb3_conn option" where
  "smb3_setup_connection alloc_ok context parse meta_ok domain_ok user passwd url =
     (if \<not> alloc_ok then (CURLE_OUT_OF_MEMORY, None)
      else case context of
        None \<Rightarrow> (CURLE_OUT_OF_MEMORY, None)
      | Some ctx \<Rightarrow>
          (case parse url of
             None \<Rightarrow> (CURLE_URL_MALFORMAT, None)
           | Some u \<Rightarrow>
               (let sc = \<lparr>sc_smb2 = ctx, sc_url = u, connect_done = False, connect_status = 0\<rparr>;
                    needs_domain = (case user of Some (x # xs) \<Rightarrow> user_split (x # xs) \<noteq> None | _ \<Rightarrow> False)
                in if \<not> meta_ok then (CURLE_OUT_OF_MEMORY, None)
                   else if needs_domain \<and> \<not> domain_ok then (CURLE_OUT_OF_MEMORY, Some sc)
                   else (CURLE_OK, Some (sc\<lparr>sc_smb2 := smb3_set_creds user passwd u ctx\<rparr>)))))"

definition smb3_connect :: "int \<Rightarrow> smb3_conn option \<Rightarrow> CURLcode \<times> bool" where
  "smb3_connect rc conn =
     (case conn of
        None \<Rightarrow> (CURLE_FAILED_INIT, False)
      | Some sc \<Rightarrow>
          (case su_share (sc_url sc) of
             Some (x # xs) \<Rightarrow>
               if rc < 0 then (CURLE_COULDNT_CONNECT, False) else (CURLE_OK, False)
           | _ \<Rightarrow> (CURLE_URL_MALFORMAT, False)))"

definition smb3_connecting ::
  "fs_input \<Rightarrow> int option \<Rightarrow> smb3_conn option \<Rightarrow> CURLcode \<times> bool \<times> smb3_conn option" where
  "smb3_connecting i connected conn =
     (case conn of
        None \<Rightarrow> (CURLE_FAILED_INIT, False, None)
      | Some sc \<Rightarrow>
          (case smb3_do_service i (case connected of None \<Rightarrow> (\<lambda>c. c) | Some st \<Rightarrow> smb3_connect_cb st) sc of
             (result, sc') \<Rightarrow>
               if result \<noteq> CURLE_OK then (result, False, Some sc')
               else if connect_done sc' then
                 (if connect_status sc' < 0 then (CURLE_LOGIN_DENIED, False, Some sc')
                  else (CURLE_OK, True, Some sc'))
               else (CURLE_OK, False, Some sc')))"

definition smb3_pollset :: "smb3_conn option \<Rightarrow> int \<Rightarrow> bool \<Rightarrow> bool \<Rightarrow> (int \<times> bool \<times> bool) option" where
  "smb3_pollset sc fd pollin pollout =
     (if sc = None then None else if fd = -1 then None else Some (fd, pollin, pollout))"

section \<open>Request\<close>

datatype smb3_state = SMB3_INIT | SMB3_OPEN | SMB3_STAT | SMB3_TRANSFER | SMB3_STOP

record smb3_request =
  smb3_fh :: "nat option"
  smb3_buf :: bytes
  smb3_bufsize :: nat
  smb3_offset :: curl_off_t
  smb3_remaining :: curl_off_t
  smb3_filesize :: curl_off_t
  smb3_st_size :: curl_off_t
  smb3_st :: smb3_state
  smb3_upload :: bool
  smb3_eos :: bool
  smb3_inflight :: bool
  smb3_op_done :: bool
  smb3_op_status :: int

definition smb3_open_cb :: "int \<Rightarrow> nat \<Rightarrow> smb3_request \<Rightarrow> smb3_request" where
  "smb3_open_cb status fh req =
     (let req = req\<lparr>smb3_op_done := True, smb3_op_status := status\<rparr> in
      if status = 0 then req\<lparr>smb3_fh := Some fh\<rparr> else req)"

definition smb3_generic_cb :: "int \<Rightarrow> smb3_request \<Rightarrow> smb3_request" where
  "smb3_generic_cb status req = req\<lparr>smb3_op_done := True, smb3_op_status := status\<rparr>"

text \<open>
  The callback of an event.  Before it, libsmb2 has filled the start of the buffer of a read,
  or the size in the \<open>st\<close> structure of a successful fstat.
\<close>

fun smb3_callback :: "fs_event \<Rightarrow> smb3_request \<Rightarrow> smb3_request" where
  "smb3_callback EvNone req = req"
| "smb3_callback (EvOpen status fh) req = smb3_open_cb status fh req"
| "smb3_callback (EvStat status sz) req =
     smb3_generic_cb status (if status = 0 then req\<lparr>smb3_st_size := sz\<rparr> else req)"
| "smb3_callback (EvRw status filled) req =
     smb3_generic_cb status (req\<lparr>smb3_buf := filled @ drop (length filled) (smb3_buf req)\<rparr>)"

text \<open>\<open>smb3_do\<close>; \<open>maxio\<close> is what libsmb2 reports as its transfer maximum.\<close>

definition smb3_do ::
  "bool \<Rightarrow> bool \<Rightarrow> bool \<Rightarrow> (bool \<Rightarrow> nat) \<Rightarrow> smb3_conn option \<Rightarrow> easy_data \<Rightarrow>
   CURLcode \<times> smb3_request option \<times> easy_data" where
  "smb3_do calloc_ok malloc_ok meta_ok maxio conn d =
     (if conn = None then (CURLE_FAILED_INIT, None, d)
      else if \<not> calloc_ok then (CURLE_OUT_OF_MEMORY, None, d)
      else
        (let upload = st_upload d;
             (result, rs') = (if \<not> upload then Curl_range (rs d) else (CURLE_OK, rs d));
             d' = d\<lparr>rs := rs'\<rparr>
         in if result \<noteq> CURLE_OK then (result, None, d')
            else
              (let offset = (if \<not> upload \<and> resume_from rs' > 0 then resume_from rs' else 0);
                   remaining = (if \<not> upload then maxdownload rs' else infilesize d);
                   m = maxio upload;
                   bufsize = (if m = 0 \<or> m > SMB3_MAX_BLOCK then SMB3_MAX_BLOCK else m)
               in if \<not> malloc_ok then (CURLE_OUT_OF_MEMORY, None, d')
                  else if \<not> meta_ok then (CURLE_OUT_OF_MEMORY, None, d')
                  else (CURLE_OK,
                        Some \<lparr>smb3_fh = None, smb3_buf = [], smb3_bufsize = bufsize, smb3_offset = offset,
                              smb3_remaining = remaining, smb3_filesize = -1, smb3_st_size = 0, smb3_st = SMB3_INIT,
                              smb3_upload = upload, smb3_eos = False, smb3_inflight = False,
                              smb3_op_done = False, smb3_op_status = 0\<rparr>,
                        d'))))"

definition smb3_read_next ::
  "fs_input \<Rightarrow> smb3_request \<Rightarrow> CURLcode \<times> smb3_request \<times> fs_call option" where
  "smb3_read_next i req =
     (let want = (if smb3_remaining req \<ge> 0 \<and> int (smb3_bufsize req) > smb3_remaining req
                  then nat (smb3_remaining req) else smb3_bufsize req);
          req' = req\<lparr>smb3_op_done := False, smb3_inflight := True\<rparr>
      in if in_rc i < 0 then (CURLE_RECV_ERROR, req', None)
         else (CURLE_OK, req', Some (CallPread (smb3_fh req') want (smb3_offset req'))))"

definition smb3_write_next ::
  "fs_input \<Rightarrow> smb3_request \<Rightarrow> easy_data \<Rightarrow>
   CURLcode \<times> bool \<times> smb3_request \<times> easy_data \<times> fs_call option" where
  "smb3_write_next i req d =
     (case client_read d of
        ((result, buf, eos), d') \<Rightarrow>
          if result \<noteq> CURLE_OK then (result, False, req, d', None)
          else
            (let req1 = req\<lparr>smb3_buf := buf, smb3_eos := eos\<rparr> in
             if buf = [] then (CURLE_OK, eos, req1, d', None)
             else
               (let req2 = req1\<lparr>smb3_op_done := False, smb3_inflight := True\<rparr> in
                if in_rc i < 0 then (CURLE_SEND_ERROR, False, req2, d', None)
                else (CURLE_OK, False, req2, d',
                      Some (CallPwrite (smb3_fh req2) (smb3_buf req2) (smb3_offset req2))))))"

definition smb3_transfer_done ::
  "fs_input \<Rightarrow> smb3_request \<Rightarrow> easy_data \<Rightarrow>
   CURLcode \<times> bool \<times> smb3_request \<times> easy_data \<times> fs_call option" where
  "smb3_transfer_done i req d =
     (let (result, d1) = (if \<not> smb3_upload req then client_write_eos (in_eos_write i) d
                          else (CURLE_OK, d))
      in (result, True, req\<lparr>smb3_st := SMB3_STOP\<rparr>, d1\<lparr>xfer_nop := True\<rparr>, None))"

text \<open>The \<open>SMB3_TRANSFER\<close> case of the switch, for an upload and for a download.\<close>

definition smb3_transfer_upload :: "smb3_request doing" where
  "smb3_transfer_upload i req d =
     (let go = (\<lambda>req d. case smb3_write_next i req d of
                  (result, stop, req', d', call) \<Rightarrow>
                    if result \<noteq> CURLE_OK then (result, False, req', d', call)
                    else if stop then smb3_transfer_done i req' d'
                    else (CURLE_OK, False, req', d', call))
      in if smb3_inflight req then
           (if \<not> smb3_op_done req then (CURLE_OK, False, req, d, None)
            else
              (let req = req\<lparr>smb3_inflight := False\<rparr> in
               if smb3_op_status req < 0 then (CURLE_SEND_ERROR, False, req, d, None)
               else
                 (let req = req\<lparr>smb3_offset := smb3_offset req + smb3_op_status req\<rparr> in
                  (let d = d\<lparr>ulcount := ulcount d + smb3_op_status req\<rparr> in
                   if smb3_eos req then smb3_transfer_done i req d else go req d))))
         else go req d)"

definition smb3_transfer_download :: "smb3_request doing" where
  "smb3_transfer_download i req d =
     (if \<not> smb3_op_done req then (CURLE_OK, False, req, d, None)
      else
        (let req = req\<lparr>smb3_inflight := False\<rparr> in
         if smb3_op_status req < 0 then (CURLE_RECV_ERROR, False, req, d, None)
         else
           (let n = smb3_op_status req;
                (result, d', req') =
                  (if n > 0 then
                     (case client_write (in_write i) (take (nat n) (smb3_buf req)) d of
                        (res, d1) \<Rightarrow>
                          if res \<noteq> CURLE_OK then (res, d1, req)
                          else (CURLE_OK, d1,
                                req\<lparr>smb3_offset := smb3_offset req + n,
                                    smb3_remaining :=
                                      (if smb3_remaining req > 0 then smb3_remaining req - n
                                       else smb3_remaining req)\<rparr>))
                   else (CURLE_OK, d, req))
            in if result \<noteq> CURLE_OK then (result, False, req', d', None)
               else if n = 0 \<or> smb3_remaining req' = 0 then smb3_transfer_done i req' d'
               else (case smb3_read_next i req' of
                       (res, req'', call) \<Rightarrow> (res, False, req'', d', call)))))"

text \<open>A negative resume offset counts back from the end of the file.\<close>

definition smb3_resolve_resume :: "smb3_request \<Rightarrow> easy_data \<Rightarrow> smb3_request \<times> easy_data" where
  "smb3_resolve_resume req d =
     (if resume_from (rs d) < 0 then
        (let r1 = resume_from (rs d) + smb3_filesize req;
             r2 = (if r1 < 0 then 0 else r1)
         in (req\<lparr>smb3_offset := r2\<rparr>, d\<lparr>rs := (rs d)\<lparr>resume_from := r2\<rparr>\<rparr>))
      else (req, d))"

definition smb3_case_stat :: "smb3_request doing" where
  "smb3_case_stat i req d =
     (if \<not> smb3_op_done req then (CURLE_OK, False, req, d, None)
      else if smb3_op_status req < 0 then (CURLE_RECV_ERROR, False, req, d, None)
      else
        (let (req, d) = smb3_resolve_resume
                          (req\<lparr>smb3_inflight := False, smb3_filesize := smb3_st_size req\<rparr>) d;
             req = (if smb3_remaining req < 0
                    then req\<lparr>smb3_remaining := (if smb3_filesize req > smb3_offset req
                                                 then smb3_filesize req - smb3_offset req else 0)\<rparr>
                    else req);
             d = d\<lparr>dlsize := smb3_remaining req\<rparr>
         in if smb3_remaining req = 0 \<or> no_body d then smb3_transfer_done i req d
            else (case smb3_read_next i (req\<lparr>smb3_st := SMB3_TRANSFER\<rparr>) of
                    (res, req', call) \<Rightarrow> (res, False, req', d, call))))"

text \<open>
  The switch of \<open>smb3_doing\<close>.  Its loop goes round again in one place only, from
  \<open>SMB3_OPEN\<close> to \<open>SMB3_TRANSFER\<close> of an upload.
\<close>

definition smb3_switch :: "smb3_conn \<Rightarrow> smb3_request doing" where
  "smb3_switch sc i req d =
     (case smb3_st req of
        SMB3_INIT \<Rightarrow>
          (let req = req\<lparr>smb3_op_done := False, smb3_inflight := True, smb3_st := SMB3_OPEN\<rparr> in
           if in_rc i < 0 then (CURLE_REMOTE_FILE_NOT_FOUND, False, req, d, None)
           else (CURLE_OK, False, req, d,
                 Some (CallOpen (su_path (sc_url sc)) (fs_open_flags (smb3_upload req)))))
      | SMB3_OPEN \<Rightarrow>
          if \<not> smb3_op_done req then (CURLE_OK, False, req, d, None)
          else if smb3_op_status req < 0 then (CURLE_REMOTE_FILE_NOT_FOUND, False, req, d, None)
          else if smb3_upload req then
            smb3_transfer_upload i (req\<lparr>smb3_inflight := False, smb3_st := SMB3_TRANSFER\<rparr>)
              (if infilesize d \<ge> 0 then d\<lparr>ulsize := infilesize d\<rparr> else d)
          else
            (let req = req\<lparr>smb3_op_done := False, smb3_inflight := True, smb3_st := SMB3_STAT\<rparr> in
             if in_rc i < 0 then (CURLE_RECV_ERROR, False, req, d, None)
             else (CURLE_OK, False, req, d, Some (CallStat (smb3_fh req))))
      | SMB3_STAT \<Rightarrow> smb3_case_stat i req d
      | SMB3_TRANSFER \<Rightarrow>
          if smb3_upload req then smb3_transfer_upload i req d else smb3_transfer_download i req d
      | SMB3_STOP \<Rightarrow> (CURLE_OK, True, req, d, None))"

definition smb3_doing_on :: "smb3_conn \<Rightarrow> smb3_request doing" where
  "smb3_doing_on sc i req d =
     (case smb3_do_service i (smb3_callback (in_event i)) req of
        (result, req') \<Rightarrow>
          if result \<noteq> CURLE_OK then (result, False, req', d, None) else smb3_switch sc i req' d)"

definition smb3_doing ::
  "fs_input \<Rightarrow> smb3_conn option \<Rightarrow> smb3_request option \<Rightarrow> easy_data \<Rightarrow>
   CURLcode \<times> bool \<times> smb3_request option \<times> easy_data \<times> fs_call option" where
  "smb3_doing i conn reqo d =
     (case (conn, reqo) of
        (Some sc, Some req) \<Rightarrow>
          (case smb3_doing_on sc i req d of (res, dn, req', d', call) \<Rightarrow> (res, dn, Some req', d', call))
      | _ \<Rightarrow> (CURLE_FAILED_INIT, False, reqo, d, None))"

text \<open>\<open>smb3_done\<close>: the status is passed on; the second component is the handle that is closed.\<close>

definition smb3_done ::
  "CURLcode \<Rightarrow> smb3_conn option \<Rightarrow> smb3_request option \<Rightarrow> CURLcode \<times> nat option \<times> smb3_request option" where
  "smb3_done status conn reqo =
     (case (conn, reqo) of
        (Some sc, Some req) \<Rightarrow>
          if smb3_fh req \<noteq> None then (status, smb3_fh req, Some (req\<lparr>smb3_fh := None\<rparr>))
          else (status, None, reqo)
      | _ \<Rightarrow> (status, None, reqo))"

lemmas smb3_branch_defs =
  smb3_doing_on_def smb3_do_service_def smb3_switch_def smb3_transfer_upload_def
  smb3_transfer_download_def smb3_case_stat_def smb3_transfer_done_def smb3_read_next_def
  smb3_write_next_def smb3_open_cb_def smb3_generic_cb_def smb3_resolve_resume_def
  client_write_def client_write_eos_def client_read_def

section \<open>The handler as a block reader and a block writer\<close>

definition smb3_reading :: "smb3_request \<Rightarrow> nat \<Rightarrow> nat \<Rightarrow> nat \<Rightarrow> bool" where
  "smb3_reading req pos todo w \<longleftrightarrow> smb3_st req = SMB3_TRANSFER \<and> \<not> smb3_upload req
     \<and> \<not> smb3_op_done req \<and> 0 < smb3_bufsize req \<and> 0 < todo
     \<and> smb3_offset req = int pos \<and> smb3_remaining req = int todo \<and> w = min (smb3_bufsize req) todo"

definition smb3_writing :: "smb3_request \<Rightarrow> nat \<Rightarrow> nat \<Rightarrow> bool \<Rightarrow> bool" where
  "smb3_writing req n pos lst \<longleftrightarrow> smb3_st req = SMB3_TRANSFER \<and> smb3_upload req
     \<and> smb3_inflight req \<and> \<not> smb3_op_done req \<and> smb3_offset req = int pos \<and> smb3_eos req = lst"

interpretation smb3_rd: block_reader "smb3_doing_on c" smb3_reading for c
proof
  fix r pos todo w d and buf :: bytes
  assume r: "smb3_reading r pos todo w"
  show "0 < w \<and> w \<le> todo" using r by (simp add: smb3_reading_def)
  show "\<exists>r'. smb3_doing_on c (fs_ok_input EvNone) r d = (CURLE_OK, False, r', d, None)
      \<and> smb3_reading r' pos todo w"
    using r by (simp add: smb3_reading_def smb3_branch_defs)
  show "\<exists>r' d'. smb3_doing_on c (fs_ok_input (EvRw 0 [])) r d = (CURLE_OK, True, r', d', None)
      \<and> body d' = body d \<and> body_eos d'"
    using r by (simp add: smb3_reading_def smb3_branch_defs)
  show "\<exists>r' fh w'. smb3_doing_on c (fs_ok_input (EvRw (int (length buf)) buf)) r d
      = (CURLE_OK, False, r', d\<lparr>body := body d @ buf\<rparr>, Some (CallPread fh w' (int (pos + length buf))))
      \<and> smb3_reading r' (pos + length buf) (todo - length buf) w'"
    if "buf \<noteq> []" "length buf \<le> w" "length buf < todo"
    using r that by (auto simp: smb3_reading_def smb3_branch_defs Let_def min_def)
  show "\<exists>r' d'. smb3_doing_on c (fs_ok_input (EvRw (int (length buf)) buf)) r d
      = (CURLE_OK, True, r', d', None) \<and> body d' = body d @ buf \<and> body_eos d'"
    if "buf \<noteq> []" "length buf = todo" "length buf \<le> w"
    using r that by (auto simp: smb3_reading_def smb3_branch_defs Let_def)
qed

interpretation smb3_wr: block_writer "smb3_doing_on c" smb3_writing for c
  by unfold_locales (auto simp: smb3_writing_def smb3_branch_defs Let_def)

definition smb3_opening :: "smb3_request \<Rightarrow> easy_data \<Rightarrow> nat \<Rightarrow> int \<Rightarrow> bool" where
  "smb3_opening req d pos rem \<longleftrightarrow> resume_from (rs d) \<ge> 0 \<and> smb3_st req = SMB3_OPEN \<and> \<not> smb3_upload req \<and> \<not> smb3_op_done req
     \<and> 0 < smb3_bufsize req \<and> smb3_offset req = int pos \<and> smb3_remaining req = rem"

definition smb3_statting :: "smb3_request \<Rightarrow> easy_data \<Rightarrow> nat \<Rightarrow> int \<Rightarrow> bool" where
  "smb3_statting req d pos rem \<longleftrightarrow> resume_from (rs d) \<ge> 0 \<and> smb3_st req = SMB3_STAT \<and> \<not> smb3_upload req \<and> \<not> smb3_op_done req
     \<and> 0 < smb3_bufsize req \<and> smb3_offset req = int pos \<and> smb3_remaining req = rem"

interpretation smb3_dl: file_download "smb3_doing_on c" smb3_reading smb3_opening smb3_statting for c
proof
  fix r d pos rem k len
  show "\<exists>r'. smb3_doing_on c (fs_ok_input EvNone) r d = (CURLE_OK, False, r', d, None)
      \<and> smb3_opening r' d pos rem"
    and "\<exists>r' fh. smb3_doing_on c (fs_ok_input (EvOpen 0 k)) r d
        = (CURLE_OK, False, r', d, Some (CallStat fh)) \<and> smb3_statting r' d pos rem"
    if "smb3_opening r d pos rem"
    using that by (auto simp: smb3_opening_def smb3_statting_def smb3_branch_defs Let_def)
  assume s: "smb3_statting r d pos rem"
  show "\<exists>r'. smb3_doing_on c (fs_ok_input EvNone) r d = (CURLE_OK, False, r', d, None)
      \<and> smb3_statting r' d pos rem"
    using s by (auto simp: smb3_statting_def smb3_branch_defs Let_def)
  show "\<exists>r' d' fh w. smb3_doing_on c (fs_ok_input (EvStat 0 (int len))) r d
        = (CURLE_OK, False, r', d', Some (CallPread fh w (int pos)))
      \<and> smb3_reading r' pos (download_len rem pos len) w \<and> body d' = body d"
    if "0 < download_len rem pos len" "\<not> no_body d"
    using s that
    by (auto simp: smb3_statting_def smb3_reading_def download_len_def smb3_branch_defs Let_def min_def)
  show "\<exists>r' d'. smb3_doing_on c (fs_ok_input (EvStat 0 (int len))) r d = (CURLE_OK, True, r', d', None)
      \<and> body d' = body d \<and> body_eos d' \<and> dlsize d' = int (download_len rem pos len)"
    if "download_len rem pos len = 0 \<or> no_body d"
    using s that by (auto simp: smb3_statting_def download_len_def smb3_branch_defs Let_def)
qed

section \<open>Whole transfers\<close>

lemma SMB3_MAX_BLOCK_pos [simp]: "0 < SMB3_MAX_BLOCK"
  by (simp add: SMB3_MAX_BLOCK_def)

text \<open>The first call of \<open>smb3_doing\<close> queues the open.\<close>

lemma smb3_init_download:
  assumes "smb3_st req = SMB3_INIT" and "\<not> smb3_upload req" and "0 < smb3_bufsize req"
    and "smb3_offset req = int pos"
    and "rounds ks > Suc (download_len (smb3_remaining req) pos (length f))"
    and "resume_from (rs d) \<ge> 0"
  shows "\<exists>d'. drive (smb3_doing_on c) (k # ks) f req d None = Some (CURLE_OK, f, d')
    \<and> delivers f d pos (smb3_remaining req) d'"
proof -
  let ?req = "req\<lparr>smb3_op_done := False, smb3_inflight := True, smb3_st := SMB3_OPEN\<rparr>"
  have "smb3_doing_on c (fs_ok_input EvNone) req d
      = (CURLE_OK, False, ?req, d, Some (CallOpen (su_path (sc_url c)) (fs_open_flags False)))"
    using assms by (simp add: smb3_branch_defs Let_def)
  moreover have "smb3_opening ?req d pos (smb3_remaining req)" using assms by (simp add: smb3_opening_def)
  ultimately show ?thesis
    using smb3_dl.session [of ?req d pos "smb3_remaining req" f ks "fs_open_flags False" c] assms(5)
    by (cases k) (simp_all add: fs_open_flags_def fs_O_RDONLY_def fs_O_TRUNC_def)
qed

lemma smb3_do_download:
  assumes "\<not> st_upload d" and "Curl_range (rs d) = (CURLE_OK, rs')"
  shows "\<exists>req. smb3_do True True True maxio (Some c) d = (CURLE_OK, Some req, d\<lparr>rs := rs'\<rparr>)
    \<and> smb3_st req = SMB3_INIT \<and> \<not> smb3_upload req \<and> 0 < smb3_bufsize req \<and> smb3_bufsize req \<le> SMB3_MAX_BLOCK
    \<and> smb3_offset req = (if resume_from rs' > 0 then resume_from rs' else 0)
    \<and> smb3_remaining req = maxdownload rs'"
  using assms by (simp add: smb3_do_def Let_def)

text \<open>
  C26: a ranged SMB download is exact.  For a range string \<open>start-stop\<close>, and a file server
  that answers after any waits and with reads as short as one byte, \<open>smb3_do\<close> and the
  rounds of \<open>smb3_doing\<close> end with \<open>CURLE_OK\<close> and have delivered the bytes from
  \<open>start\<close> to \<open>stop\<close>, as far as the file has them.  The comment in \<^verbatim>\<open>src/tool_chunked.c\<close> that SMB ignores ranges
  does not describe this handler.
\<close>

theorem smb3_range_download:
  assumes "\<not> st_upload d" and "\<not> no_body d" and "use_range (rs d)"
    and "range_str (rs d) = Some (chunk_range_string start stop)"
    and "start \<le> stop" and "int stop < CURL_OFF_T_MAX" and "rounds ks > stop - start + 2"
  shows "\<exists>req d1 d2. smb3_do True True True maxio (Some c) d = (CURLE_OK, Some req, d1)
    \<and> drive (smb3_doing_on c) (k # ks) f req d1 None = Some (CURLE_OK, f, d2)
    \<and> body d2 = body d @ slice f start (Suc stop)"
proof -
  let ?rs = "(rs d)\<lparr>maxdownload := int stop - int start + 1, resume_from := int start\<rparr>"
  have "Curl_range (rs d) = (CURLE_OK, ?rs)" using Curl_range_chunk assms(3-6) by blast
  from smb3_do_download [OF assms(1) this, of maxio c] obtain req where
    req: "smb3_do True True True maxio (Some c) d = (CURLE_OK, Some req, d\<lparr>rs := ?rs\<rparr>)"
      "smb3_st req = SMB3_INIT" "\<not> smb3_upload req" "0 < smb3_bufsize req"
      "smb3_offset req = int start" "smb3_remaining req = int stop - int start + 1"
    by auto
  have "nat (int stop - int start + 1) = Suc (stop - start)" using assms(5) by linarith
  then have len: "download_len (smb3_remaining req) start (length f) = Suc (stop - start)"
    using assms(5) by (simp add: download_len_def req(6))
  have "\<exists>d2. drive (smb3_doing_on c) (k # ks) f req (d\<lparr>rs := ?rs\<rparr>) None = Some (CURLE_OK, f, d2)
      \<and> delivers f (d\<lparr>rs := ?rs\<rparr>) start (smb3_remaining req) d2"
    by (rule smb3_init_download) (use req len assms(7) in auto)
  then show ?thesis using req(1) len assms(2,5) by (auto simp: delivers_def simp del: drive.simps)
qed

definition demo_smb3_conn :: smb3_conn where
  "demo_smb3_conn = \<lparr>sc_smb2 = \<lparr>ctx_domain = None, ctx_user = None, ctx_password = None, ctx_signing = True\<rparr>,
     sc_url = \<lparr>su_server = ''h'', su_share = Some ''s'', su_path = ''f'', su_user = None, su_domain = None\<rparr>,
     connect_done = True, connect_status = 0\<rparr>"

theorem smb3_range_download_witness:
  "\<exists>req d1 d2. smb3_do True True True (\<lambda>_. 0) (Some demo_smb3_conn)
        (demo_suffix_data\<lparr>rs := \<lparr>use_range = True, range_str = Some (chunk_range_string 1 2),
           resume_from = 0, maxdownload = -1\<rparr>\<rparr>) = (CURLE_OK, Some req, d1)
    \<and> drive (smb3_doing_on demo_smb3_conn) (None # replicate 4 (Some 0)) ''gurl'' req d1 None = Some (CURLE_OK, ''gurl'', d2)
    \<and> body d2 = ''ur''"
proof -
  let ?d = "demo_suffix_data\<lparr>rs := \<lparr>use_range = True, range_str = Some (chunk_range_string 1 2),
      resume_from = 0, maxdownload = -1\<rparr>\<rparr>"
  have "rounds (replicate 4 (Some 0)) > 2 - 1 + 2" by (simp add: rounds_def)
  moreover have "body ?d = []" "use_range (rs ?d)" "\<not> st_upload ?d" "\<not> no_body ?d"
      "range_str (rs ?d) = Some (chunk_range_string 1 2)"
    by (simp_all add: demo_suffix_data_def demo_data_def)
  moreover have "slice ''gurl'' 1 (Suc 2) = ''ur''" by (simp add: slice_def)
  ultimately show ?thesis
    using smb3_range_download [of ?d 1 2 "replicate 4 (Some 0)" "\<lambda>_. 0" demo_smb3_conn None "''gurl''"]
    by (simp add: CURL_OFF_T_MAX_def del: drive.simps)
qed

text \<open>Uploads.\<close>

definition smb3_creating :: "smb3_request \<Rightarrow> nat \<Rightarrow> bool" where
  "smb3_creating req n \<longleftrightarrow> smb3_st req = SMB3_OPEN \<and> smb3_upload req \<and> \<not> smb3_op_done req
     \<and> smb3_offset req = 0"

interpretation smb3_ul: file_upload "smb3_doing_on c" smb3_writing smb3_creating for c
  by unfold_locales (auto simp: smb3_writing_def smb3_creating_def smb3_branch_defs Let_def)

text \<open>
  C27: what an SMB upload leaves in the remote file, as for NFS.  When the client reads
  succeed, fit the block buffer and end with the end-of-stream flag, the upload ends with
  \<open>CURLE_OK\<close> and the file holds the parts of the blocks that the server took, one after the
  other: exactly the bytes read if the server takes each block whole, and less if it does not.
\<close>

theorem smb3_whole_upload:
  assumes "st_upload d" and "upload_src d = as"
    and "upload_blocks (if maxio True = 0 \<or> maxio True > SMB3_MAX_BLOCK then SMB3_MAX_BLOCK
           else maxio True) as"
    and "rounds ks > length as"
  shows "\<exists>req d1 d2. smb3_do True True True maxio (Some c) d = (CURLE_OK, Some req, d1)
    \<and> drive (smb3_doing_on c) (k # ks) f req d1 None = Some (CURLE_OK, taken (write_answers ks) as, d2)
    \<and> ((\<forall>k. Some k \<in> set ks \<longrightarrow> SMB3_MAX_BLOCK \<le> Suc k) \<longrightarrow> taken (write_answers ks) as = block_bytes as)"
proof -
  obtain req where req: "smb3_do True True True maxio (Some c) d = (CURLE_OK, Some req, d)"
      "smb3_st req = SMB3_INIT" "smb3_upload req" "smb3_offset req = 0" "smb3_bufsize req \<le> SMB3_MAX_BLOCK"
      "upload_blocks (smb3_bufsize req) as"
    using assms(1,3) by (simp add: smb3_do_def Let_def)
  let ?req = "req\<lparr>smb3_op_done := False, smb3_inflight := True, smb3_st := SMB3_OPEN\<rparr>"
  have "smb3_doing_on c (fs_ok_input EvNone) req d
      = (CURLE_OK, False, ?req, d, Some (CallOpen (su_path (sc_url c)) (fs_open_flags True)))"
    using req by (simp add: smb3_branch_defs Let_def)
  moreover have "\<exists>d'. drive (smb3_doing_on c) ks f ?req d
        (Some (CallOpen (su_path (sc_url c)) (fs_open_flags True)))
      = Some (CURLE_OK, taken (write_answers ks) as, d')"
    by (rule smb3_ul.session_upload [of _ "smb3_bufsize req"])
      (use req assms in \<open>force simp: smb3_creating_def fs_open_flags_def fs_O_TRUNC_def\<close>)+
  moreover have "taken (write_answers ks) as = block_bytes as" if "\<forall>k. Some k \<in> set ks \<longrightarrow> SMB3_MAX_BLOCK \<le> Suc k"
    using taken_whole [OF req(6)] write_answers_facts [OF assms(4)] that req(5) by (meson le_trans)
  ultimately show ?thesis using req(1) by (cases k) auto
qed

theorem smb3_whole_upload_witness:
  "\<exists>req d1 d2. smb3_do True True True (\<lambda>_. 0) (Some demo_smb3_conn) demo_data = (CURLE_OK, Some req, d1)
    \<and> drive (smb3_doing_on demo_smb3_conn) [None, Some SMB3_MAX_BLOCK, None, Some SMB3_MAX_BLOCK] ''old'' req d1 None
        = Some (CURLE_OK, ''abc'', d2)"
proof -
  have "rounds [Some SMB3_MAX_BLOCK, None, Some SMB3_MAX_BLOCK] > length [(CURLE_OK, ''abc'', True)]" by simp
  moreover have "st_upload demo_data" "upload_src demo_data = [(CURLE_OK, ''abc'', True)]"
    by (simp_all add: demo_data_def)
  moreover have "block_bytes [(CURLE_OK, ''abc'', True)] = ''abc''" by (simp add: block_bytes_def)
  ultimately show ?thesis
    using smb3_whole_upload [of demo_data "[(CURLE_OK, ''abc'', True)]" "\<lambda>_. 0"
        "[Some SMB3_MAX_BLOCK, None, Some SMB3_MAX_BLOCK]" demo_smb3_conn None "''old''"]
    by (simp add: SMB3_MAX_BLOCK_def del: drive.simps)
qed

section \<open>Errors\<close>

text \<open>
  A failed operation ends the SMB transfer with the code of its kind: a failed open is
  a missing remote file, a failed size query or read a receive error, a failed write a send
  error, and a failure of the library's own event loop a receive error in every state.
\<close>

lemma smb3_error_codes:
  assumes "in_fd i \<ge> 0" and "in_poll i \<ge> 0" and "status < 0" and "0 \<le> in_service i"
  shows "fst (smb3_doing_on c (i\<lparr>in_event := EvOpen status fh\<rparr>) (req\<lparr>smb3_st := SMB3_OPEN\<rparr>) d)
      = CURLE_REMOTE_FILE_NOT_FOUND
    \<and> fst (smb3_doing_on c (i\<lparr>in_event := EvStat status sz\<rparr>) (req\<lparr>smb3_st := SMB3_STAT\<rparr>) d)
      = CURLE_RECV_ERROR
    \<and> fst (smb3_doing_on c (i\<lparr>in_event := EvRw status bs\<rparr>)
        (req\<lparr>smb3_st := SMB3_TRANSFER, smb3_upload := False\<rparr>) d) = CURLE_RECV_ERROR
    \<and> fst (smb3_doing_on c (i\<lparr>in_event := EvRw status bs\<rparr>)
        (req\<lparr>smb3_st := SMB3_TRANSFER, smb3_upload := True, smb3_inflight := True\<rparr>) d)
      = CURLE_SEND_ERROR
    \<and> fst (smb3_doing_on c (i\<lparr>in_service := -1\<rparr>) req d) = CURLE_RECV_ERROR"
  using assms by (simp add: smb3_branch_defs Let_def)

section \<open>Suffix ranges\<close>

lemma smb3_suffix_stat:
  assumes "smb3_st req = SMB3_STAT" and "\<not> smb3_upload req" and "\<not> no_body d"
    and "0 < smb3_bufsize req" and "resume_from (rs d) = - int n" and "smb3_remaining req = int n"
    and "0 < n" and "rounds ks \<ge> n"
  shows "\<exists>d'. drive (smb3_doing_on c) (Some m # ks) f req d (Some (CallStat fh)) = Some (CURLE_OK, f, d')
    \<and> body d' = body d @ drop (length f - n) f"
proof -
  define pos where "pos = length f - n"
  obtain r' d1 fh' w where *: "smb3_doing_on c (fs_ok_input (EvStat 0 (int (length f)))) req d
      = (CURLE_OK, False, r', d1, Some (CallPread fh' w (int pos)))"
      "smb3_reading r' pos n w" "body d1 = body d"
    using assms by (auto simp: smb3_reading_def smb3_branch_defs Let_def min_def pos_def)
  have "slice f pos (pos + n) = drop pos f" by (simp add: slice_def pos_def)
  with smb3_rd.download [OF *(2) assms(8), of c f d1 fh'] *(1,3) show ?thesis
    by (auto simp: pos_def)
qed

text \<open>
  A range \<open>-n\<close> over SMB delivers the last \<open>n\<close> bytes of the file, or the whole file
  when it is shorter.
\<close>

lemma smb3_suffix_download:
  assumes "\<not> st_upload d" and "\<not> no_body d" and "use_range (rs d)"
    and "range_str (rs d) = Some (CHR ''-'' # print_off (int n))"
    and "0 < n" and "int n \<le> CURL_OFF_T_MAX" and "rounds ks \<ge> n"
  shows "\<exists>req d1 d2. smb3_do True True True maxio (Some c) d = (CURLE_OK, Some req, d1)
    \<and> drive (smb3_doing_on c) (k # Some k1 # Some k2 # ks) f req d1 None = Some (CURLE_OK, f, d2)
    \<and> body d2 = body d @ drop (length f - n) f"
proof -
  let ?rs = "(rs d)\<lparr>maxdownload := int n, resume_from := - int n\<rparr>"
  let ?d = "d\<lparr>rs := ?rs\<rparr>"
  have "Curl_range (rs d) = (CURLE_OK, ?rs)" using Curl_range_suffix assms by simp
  from smb3_do_download [OF assms(1) this, of maxio c] obtain req where
    req: "smb3_do True True True maxio (Some c) d = (CURLE_OK, Some req, ?d)"
      "smb3_st req = SMB3_INIT" "\<not> smb3_upload req" "0 < smb3_bufsize req"
      "smb3_remaining req = int n"
    by auto
  let ?r1 = "req\<lparr>smb3_op_done := False, smb3_inflight := True, smb3_st := SMB3_OPEN\<rparr>"
  let ?r2 = "?r1\<lparr>smb3_op_status := 0, smb3_fh := Some k1, smb3_op_done := False,
      smb3_st := SMB3_STAT\<rparr>"
  let ?path = "su_path (sc_url c)"
  have 1: "smb3_doing_on c (fs_ok_input EvNone) req ?d
      = (CURLE_OK, False, ?r1, ?d, Some (CallOpen ?path (fs_open_flags False)))"
    using req by (simp add: smb3_branch_defs Let_def)
  have 2: "smb3_doing_on c (fs_ok_input (EvOpen 0 k1)) ?r1 ?d
      = (CURLE_OK, False, ?r2, ?d, Some (CallStat (Some k1)))"
    using req by (simp add: smb3_branch_defs Let_def)
  have 3: "\<exists>d'. drive (smb3_doing_on c) (Some k2 # ks) f ?r2 ?d (Some (CallStat (Some k1)))
      = Some (CURLE_OK, f, d') \<and> body d' = body ?d @ drop (length f - n) f"
    by (rule smb3_suffix_stat) (use req assms in simp_all)
  have "drive (smb3_doing_on c) (k # Some k1 # Some k2 # ks) f req ?d None
      = drive (smb3_doing_on c) (Some k2 # ks) f ?r2 ?d (Some (CallStat (Some k1)))"
    using 1 2 by (cases k) (simp_all add: fs_open_flags_def fs_O_RDONLY_def fs_O_TRUNC_def del: drive.simps
        add: drive.simps(2) [of _ _ "Some k1 # Some k2 # ks"] drive.simps(2) [of _ _ "Some k2 # ks"])
  with 3 req(1) show ?thesis by (auto simp del: drive.simps)
qed

end
