(* ===== verification/Bufq.thy ===== *)
theory Bufq
  imports Gurl_Prelude
begin

text \<open>
  The queue of byte chunks of \<^verbatim>\<open>lib/bufq.c\<close>, with its optional pool of spare chunks.

  The list from \<open>head\<close> to \<open>tail\<close> is the list \<open>heads\<close>, the list of spares is
  \<open>spares\<close>; a chunk carries all bytes of its data area.  The answers of
  \<open>curlx_calloc\<close> are a list of truth values, one per allocation; when it runs out,
  allocation fails.  The writer and reader callbacks of the pass and slurp functions are
  arguments.

  The queue is shown to be a first-in first-out byte queue: \<open>bufq_bytes\<close> is what it
  holds, in order.
\<close>

section \<open>Chunks\<close>

record buf_chunk =
  dlen :: nat
  r_offset :: nat
  w_offset :: nat
  cdata :: bytes

definition chunk_is_empty :: "buf_chunk \<Rightarrow> bool" where
  "chunk_is_empty c \<longleftrightarrow> r_offset c \<ge> w_offset c"

definition chunk_is_full :: "buf_chunk \<Rightarrow> bool" where
  "chunk_is_full c \<longleftrightarrow> w_offset c \<ge> dlen c"

definition chunk_len :: "buf_chunk \<Rightarrow> nat" where
  "chunk_len c = w_offset c - r_offset c"

definition chunk_reset :: "buf_chunk \<Rightarrow> buf_chunk" where
  "chunk_reset c = c\<lparr>r_offset := 0, w_offset := 0\<rparr>"

definition put_at :: "bytes \<Rightarrow> nat \<Rightarrow> bytes \<Rightarrow> bytes" where
  "put_at d i bs = take i d @ bs @ drop (i + length bs) d"

definition chunk_append :: "buf_chunk \<Rightarrow> bytes \<Rightarrow> nat \<times> buf_chunk" where
  "chunk_append c buf =
     (let n = dlen c - w_offset c in
      if n \<noteq> 0 then
        (let n = min n (length buf) in
         (n, c\<lparr>cdata := put_at (cdata c) (w_offset c) (take n buf), w_offset := w_offset c + n\<rparr>))
      else (0, c))"

definition chunk_read :: "buf_chunk \<Rightarrow> nat \<Rightarrow> nat \<times> bytes \<times> buf_chunk" where
  "chunk_read c len =
     (let n = w_offset c - r_offset c; p = drop (r_offset c) (cdata c) in
      if n = 0 then (0, [], c)
      else if n \<le> len then (n, take n p, c\<lparr>r_offset := 0, w_offset := 0\<rparr>)
      else (len, take len p, c\<lparr>r_offset := r_offset c + len\<rparr>))"

text \<open>The reader's answer is its code and the bytes it has; it is given room for \<open>n\<close> of them.\<close>

definition chunk_slurpn :: "buf_chunk \<Rightarrow> nat \<Rightarrow> CURLcode \<times> bytes \<Rightarrow> CURLcode \<times> nat \<times> buf_chunk" where
  "chunk_slurpn c max_len answer =
     (let n = dlen c - w_offset c in
      if n = 0 then (CURLE_AGAIN, 0, c)
      else
        (let n = (if max_len \<noteq> 0 \<and> n > max_len then max_len else n);
             (result, src) = answer;
             nread = min n (length src)
         in if result = CURLE_OK
            then (result, nread,
                  c\<lparr>cdata := put_at (cdata c) (w_offset c) (take nread src),
                    w_offset := w_offset c + nread\<rparr>)
            else (result, 0, c)))"

definition chunk_peek :: "buf_chunk \<Rightarrow> bytes" where
  "chunk_peek c = take (w_offset c - r_offset c) (drop (r_offset c) (cdata c))"

definition chunk_peek_at :: "buf_chunk \<Rightarrow> nat \<Rightarrow> bytes" where
  "chunk_peek_at c off = take (w_offset c - (r_offset c + off)) (drop (r_offset c + off) (cdata c))"

definition chunk_skip :: "buf_chunk \<Rightarrow> nat \<Rightarrow> nat \<times> buf_chunk" where
  "chunk_skip c amount =
     (let n = w_offset c - r_offset c in
      if n \<noteq> 0 then
        (let n = min n amount;
             c' = c\<lparr>r_offset := r_offset c + n\<rparr>
         in (n, if r_offset c' = w_offset c' then c'\<lparr>r_offset := 0, w_offset := 0\<rparr> else c'))
      else (0, c))"

section \<open>The pool\<close>

record bufc_pool =
  pl_spare :: "buf_chunk list"
  pl_chunk_size :: nat
  pl_spare_count :: nat
  pl_spare_max :: nat

definition sizeof_buf_chunk :: nat where "sizeof_buf_chunk = 40"

definition Curl_bufcp_init :: "nat \<Rightarrow> nat \<Rightarrow> bufc_pool" where
  "Curl_bufcp_init csize smax =
     \<lparr>pl_spare = [], pl_chunk_size = csize, pl_spare_count = 0, pl_spare_max = smax\<rparr>"

text \<open>\<open>calloc\<close> of a chunk: zeroed, of the given data size.\<close>

definition new_chunk :: "nat \<Rightarrow> buf_chunk" where
  "new_chunk n = \<lparr>dlen = n, r_offset = 0, w_offset = 0, cdata = replicate n NUL\<rparr>"

definition alloc_chunk :: "bool list \<Rightarrow> nat \<Rightarrow> buf_chunk option \<times> bool list" where
  "alloc_chunk al n =
     (if n > SIZE_MAX - sizeof_buf_chunk then (None, al)
      else case al of [] \<Rightarrow> (None, []) | b # al' \<Rightarrow> (if b then Some (new_chunk n) else None, al'))"

definition bufcp_take :: "bool list \<Rightarrow> bufc_pool \<Rightarrow> buf_chunk option \<times> bufc_pool \<times> bool list" where
  "bufcp_take al p =
     (case pl_spare p of
        c # cs \<Rightarrow> (Some (chunk_reset c), p\<lparr>pl_spare := cs, pl_spare_count := pl_spare_count p - 1\<rparr>, al)
      | [] \<Rightarrow> (case alloc_chunk al (pl_chunk_size p) of (r, al') \<Rightarrow> (r, p, al')))"

definition bufcp_put :: "bufc_pool \<Rightarrow> buf_chunk \<Rightarrow> bufc_pool" where
  "bufcp_put p c =
     (if pl_spare_count p \<ge> pl_spare_max p then p
      else p\<lparr>pl_spare := chunk_reset c # pl_spare p, pl_spare_count := pl_spare_count p + 1\<rparr>)"

definition Curl_bufcp_free :: "bufc_pool \<Rightarrow> bufc_pool" where
  "Curl_bufcp_free p = p\<lparr>pl_spare := [], pl_spare_count := 0\<rparr>"

section \<open>The queue\<close>

record bufq =
  heads :: "buf_chunk list"
  spares :: "buf_chunk list"
  bpool :: "bufc_pool option"
  chunk_count :: nat
  max_chunks :: nat
  chunk_size :: nat
  opt_soft_limit :: bool
  opt_no_spares :: bool

definition bufq_init :: "bufc_pool option \<Rightarrow> nat \<Rightarrow> nat \<Rightarrow> bool \<Rightarrow> bool \<Rightarrow> bufq" where
  "bufq_init p csize cmax soft nospares =
     \<lparr>heads = [], spares = [], bpool = p, chunk_count = 0, max_chunks = cmax, chunk_size = csize,
      opt_soft_limit = soft, opt_no_spares = nospares\<rparr>"

definition Curl_bufq_init2 :: "nat \<Rightarrow> nat \<Rightarrow> bool \<Rightarrow> bool \<Rightarrow> bufq" where
  "Curl_bufq_init2 csize cmax soft nospares = bufq_init None csize cmax soft nospares"

definition Curl_bufq_init :: "nat \<Rightarrow> nat \<Rightarrow> bufq" where
  "Curl_bufq_init csize cmax = bufq_init None csize cmax False False"

definition Curl_bufq_initp :: "bufc_pool \<Rightarrow> nat \<Rightarrow> bool \<Rightarrow> bool \<Rightarrow> bufq" where
  "Curl_bufq_initp p cmax soft nospares = bufq_init (Some p) (pl_chunk_size p) cmax soft nospares"

definition Curl_bufq_free :: "bufq \<Rightarrow> bufq" where
  "Curl_bufq_free q = q\<lparr>heads := [], spares := [], chunk_count := 0\<rparr>"

definition Curl_bufq_reset :: "bufq \<Rightarrow> bufq" where
  "Curl_bufq_reset q = q\<lparr>heads := [], spares := rev (heads q) @ spares q\<rparr>"

definition Curl_bufq_len :: "bufq \<Rightarrow> nat" where
  "Curl_bufq_len q = foldl (\<lambda>len c. len + chunk_len c) 0 (heads q)"

definition Curl_bufq_is_empty :: "bufq \<Rightarrow> bool" where
  "Curl_bufq_is_empty q = (case heads q of [] \<Rightarrow> True | c # _ \<Rightarrow> chunk_is_empty c)"

definition Curl_bufq_is_full :: "bufq \<Rightarrow> bool" where
  "Curl_bufq_is_full q =
     (if heads q = [] \<or> spares q \<noteq> [] then False
      else if chunk_count q < max_chunks q then False
      else if chunk_count q > max_chunks q then True
      else chunk_is_full (last (heads q)))"

definition get_spare :: "bool list \<Rightarrow> bufq \<Rightarrow> buf_chunk option \<times> bufq \<times> bool list" where
  "get_spare al q =
     (case spares q of
        c # cs \<Rightarrow> (Some (chunk_reset c), q\<lparr>spares := cs\<rparr>, al)
      | [] \<Rightarrow>
          if chunk_count q \<ge> max_chunks q \<and> \<not> opt_soft_limit q then (None, q, al)
          else
            (case bpool q of
               Some p \<Rightarrow>
                 (case bufcp_take al p of
                    (None, p', al') \<Rightarrow> (None, q\<lparr>bpool := Some p'\<rparr>, al')
                  | (Some c, p', al') \<Rightarrow>
                      (Some c, q\<lparr>bpool := Some p', chunk_count := chunk_count q + 1\<rparr>, al'))
             | None \<Rightarrow>
                 (case alloc_chunk al (chunk_size q) of
                    (None, al') \<Rightarrow> (None, q, al')
                  | (Some c, al') \<Rightarrow> (Some c, q\<lparr>chunk_count := chunk_count q + 1\<rparr>, al'))))"

text \<open>What \<open>prune_head\<close> does with one chunk it unlinks.\<close>

definition unlink_head :: "bufq \<Rightarrow> buf_chunk \<Rightarrow> bufq" where
  "unlink_head q c =
     (case bpool q of
        Some p \<Rightarrow> q\<lparr>bpool := Some (bufcp_put p c), chunk_count := chunk_count q - 1\<rparr>
      | None \<Rightarrow>
          if chunk_count q > max_chunks q \<or> opt_no_spares q
          then q\<lparr>chunk_count := chunk_count q - 1\<rparr>
          else q\<lparr>spares := c # spares q\<rparr>)"

lemma heads_unlink_head [simp]: "heads (unlink_head q c) = heads q"
  by (simp add: unlink_head_def split: option.splits)

function prune_head :: "bufq \<Rightarrow> bufq" where
  "prune_head q =
     (case heads q of
        [] \<Rightarrow> q
      | c # cs \<Rightarrow>
          if chunk_is_empty c then prune_head (unlink_head (q\<lparr>heads := cs\<rparr>) c) else q)"
  by pat_completeness auto
termination
  by (relation "measure (\<lambda>q. length (heads q))") auto

declare prune_head.simps [simp del]

text \<open>\<open>get_non_full_tail\<close>: on success the chunk to write to is the last of \<open>heads\<close>.\<close>

definition get_non_full_tail :: "bool list \<Rightarrow> bufq \<Rightarrow> bool \<times> bufq \<times> bool list" where
  "get_non_full_tail al q =
     (if heads q \<noteq> [] \<and> \<not> chunk_is_full (last (heads q)) then (True, q, al)
      else case get_spare al q of
             (None, q', al') \<Rightarrow> (False, q', al')
           | (Some c, q', al') \<Rightarrow> (True, q'\<lparr>heads := heads q' @ [c]\<rparr>, al'))"

definition set_tail :: "bufq \<Rightarrow> buf_chunk \<Rightarrow> bufq" where
  "set_tail q c = q\<lparr>heads := butlast (heads q) @ [c]\<rparr>"

lemma chunk_append_le: "chunk_append c buf = (n, c') \<Longrightarrow> n \<le> length buf"
  by (auto simp: chunk_append_def Let_def split: if_splits)

function bufq_write_loop ::
  "bool list \<Rightarrow> bufq \<Rightarrow> bytes \<Rightarrow> nat \<Rightarrow> CURLcode \<times> nat \<times> bufq \<times> bool list" where
  "bufq_write_loop al q buf nw =
     (if buf = [] then (CURLE_OK, nw, q, al)
      else
        (let (got, q', al') = get_non_full_tail al q in
         if \<not> got then
           (if chunk_count q' < max_chunks q' \<or> opt_soft_limit q'
            then (CURLE_OUT_OF_MEMORY, nw, q', al')
            else (if nw = 0 then CURLE_AGAIN else CURLE_OK, nw, q', al'))
         else
           (let (n, c') = chunk_append (last (heads q')) buf in
            if n = 0 then (if nw = 0 then CURLE_AGAIN else CURLE_OK, nw, set_tail q' c', al')
            else bufq_write_loop al' (set_tail q' c') (drop n buf) (nw + n))))"
  by pat_completeness auto
termination
  by (relation "measure (\<lambda>(al, q, buf, nw). length buf)") auto

declare bufq_write_loop.simps [simp del]

definition Curl_bufq_write :: "bool list \<Rightarrow> bufq \<Rightarrow> bytes \<Rightarrow> CURLcode \<times> nat \<times> bufq \<times> bool list" where
  "Curl_bufq_write al q buf = bufq_write_loop al q buf 0"

lemma prune_head_length: "length (heads (prune_head q)) \<le> length (heads q)"
proof (induction q rule: prune_head.induct)
  case (1 q)
  then show ?case by (subst prune_head.simps) (auto split: list.splits simp del: One_nat_def)
qed

lemma prune_head_drops:
  "heads q = c # cs \<Longrightarrow> chunk_is_empty c \<Longrightarrow> length (heads (prune_head q)) < length (heads q)"
  using prune_head_length [of "unlink_head (q\<lparr>heads := cs\<rparr>) c"]
  by (subst prune_head.simps) simp

lemma chunk_read_progress:
  "chunk_read c len = (n, bs, c') \<Longrightarrow> 0 < len \<Longrightarrow> n \<le> len \<and> (n = 0 \<longrightarrow> chunk_is_empty c' \<and> c' = c)"
  by (auto simp: chunk_read_def chunk_is_empty_def Let_def split: if_splits)

lemma chunk_skip_progress:
  "chunk_skip c amount = (n, c') \<Longrightarrow> 0 < amount \<Longrightarrow> n \<le> amount \<and> (n = 0 \<longrightarrow> chunk_is_empty c' \<and> c' = c)"
  by (auto simp: chunk_skip_def chunk_is_empty_def Let_def split: if_splits)

function bufq_read_loop :: "bufq \<Rightarrow> nat \<Rightarrow> bytes \<Rightarrow> bytes \<times> bufq" where
  "bufq_read_loop q len acc =
     (if len = 0 \<or> heads q = [] then (acc, q)
      else
        (let (n, bs, c') = chunk_read (hd (heads q)) len in
         bufq_read_loop (prune_head (q\<lparr>heads := c' # tl (heads q)\<rparr>)) (len - n) (acc @ bs)))"
  by pat_completeness auto
termination
proof (relation "measure (\<lambda>(q, len, acc). len + length (heads q))", goal_cases)
  case (2 q len acc t n bs_c bs c')
  let ?q = "q\<lparr>heads := c' # tl (heads q)\<rparr>"
  have r: "chunk_read (hd (heads q)) len = (n, bs, c')" using 2 by simp
  have p: "n \<le> len" "n = 0 \<Longrightarrow> chunk_is_empty c'" using chunk_read_progress [OF r] 2(1) by auto
  have l: "length (heads ?q) = length (heads q)" using 2(1) by simp
  show ?case
  proof (cases "n = 0")
    case True
    then have "length (heads (prune_head ?q)) < length (heads ?q)"
      using prune_head_drops [of ?q c' "tl (heads q)"] p(2) by simp
    then show ?thesis using l True by simp
  next
    case False
    then show ?thesis using prune_head_length [of ?q] l p(1) by simp
  qed
qed simp

declare bufq_read_loop.simps [simp del]

definition Curl_bufq_read :: "bufq \<Rightarrow> nat \<Rightarrow> CURLcode \<times> bytes \<times> bufq" where
  "Curl_bufq_read q len =
     (let (bs, q') = bufq_read_loop q len [] in (if bs = [] then CURLE_AGAIN else CURLE_OK, bs, q'))"

definition Curl_bufq_cwrite :: "bool list \<Rightarrow> bufq \<Rightarrow> bytes \<Rightarrow> CURLcode \<times> nat \<times> bufq \<times> bool list" where
  "Curl_bufq_cwrite al q buf = Curl_bufq_write al q buf"

definition Curl_bufq_cread :: "bufq \<Rightarrow> nat \<Rightarrow> CURLcode \<times> bytes \<times> bufq" where
  "Curl_bufq_cread q len = Curl_bufq_read q len"

definition Curl_bufq_peek :: "bufq \<Rightarrow> bytes option \<times> bufq" where
  "Curl_bufq_peek q =
     (let q' = (if heads q \<noteq> [] \<and> chunk_is_empty (hd (heads q)) then prune_head q else q) in
      if heads q' \<noteq> [] \<and> \<not> chunk_is_empty (hd (heads q')) then (Some (chunk_peek (hd (heads q'))), q')
      else (None, q'))"

fun peek_at_loop :: "buf_chunk list \<Rightarrow> nat \<Rightarrow> bytes option" where
  "peek_at_loop [] off = None"
| "peek_at_loop (c # cs) off =
     (let clen = chunk_len c in
      if clen = 0 then None
      else if off \<ge> clen then peek_at_loop cs (off - clen)
      else Some (chunk_peek_at c off))"

definition Curl_bufq_peek_at :: "bufq \<Rightarrow> nat \<Rightarrow> bytes option" where
  "Curl_bufq_peek_at q off = peek_at_loop (heads q) off"

function Curl_bufq_skip :: "bufq \<Rightarrow> nat \<Rightarrow> bufq" where
  "Curl_bufq_skip q amount =
     (if amount = 0 \<or> heads q = [] then q
      else
        (let (n, c') = chunk_skip (hd (heads q)) amount in
         Curl_bufq_skip (prune_head (q\<lparr>heads := c' # tl (heads q)\<rparr>)) (amount - n)))"
  by pat_completeness auto
termination
proof (relation "measure (\<lambda>(q, amount). amount + length (heads q))", goal_cases)
  case (2 q amount t n c')
  let ?q = "q\<lparr>heads := c' # tl (heads q)\<rparr>"
  have r: "chunk_skip (hd (heads q)) amount = (n, c')" using 2 by simp
  have p: "n \<le> amount" "n = 0 \<Longrightarrow> chunk_is_empty c'" using chunk_skip_progress [OF r] 2(1) by auto
  have l: "length (heads ?q) = length (heads q)" using 2(1) by simp
  show ?case
  proof (cases "n = 0")
    case True
    then have "length (heads (prune_head ?q)) < length (heads ?q)"
      using prune_head_drops [of ?q c' "tl (heads q)"] p(2) by simp
    then show ?thesis using l True by simp
  next
    case False
    then show ?thesis using prune_head_length [of ?q] l p(1) by simp
  qed
qed simp

declare Curl_bufq_skip.simps [simp del]

text \<open>
  \<open>Curl_bufq_pass\<close>: the writer's answers are a list of codes with the amounts taken, of
  at most the bytes offered; \<open>None\<close> when the list ends while the writer is being called.  The bytes handed over are
  collected in \<open>sent\<close>.
\<close>

fun bufq_pass_loop ::
  "(CURLcode \<times> nat) list \<Rightarrow> bufq \<Rightarrow> nat \<Rightarrow> bytes \<Rightarrow>
   (CURLcode \<times> nat \<times> bytes \<times> bufq \<times> (CURLcode \<times> nat) list) option" where
  "bufq_pass_loop as q w sent =
     (case Curl_bufq_peek q of
        (None, q') \<Rightarrow> Some (CURLE_OK, w, sent, q', as)
      | (Some buf, q') \<Rightarrow>
          (case as of
             [] \<Rightarrow> None
           | (res, k) # as' \<Rightarrow>
               (let n = min k (length buf) in
                if res \<noteq> CURLE_OK then
                  Some (if res = CURLE_AGAIN \<and> w \<noteq> 0 then CURLE_OK else res, w, sent, q', as')
                else if n = 0 then Some (if w = 0 then CURLE_AGAIN else CURLE_OK, w, sent, q', as')
                else bufq_pass_loop as' (Curl_bufq_skip q' n) (w + n) (sent @ take n buf))))"

declare bufq_pass_loop.simps [simp del]

definition Curl_bufq_pass ::
  "(CURLcode \<times> nat) list \<Rightarrow> bufq \<Rightarrow>
   (CURLcode \<times> nat \<times> bytes \<times> bufq \<times> (CURLcode \<times> nat) list) option" where
  "Curl_bufq_pass as q = bufq_pass_loop as q 0 []"

text \<open>The room made at the start of a round of \<open>Curl_bufq_write_pass\<close>.\<close>

definition write_pass_room ::
  "(CURLcode \<times> nat) list \<Rightarrow> bufq \<Rightarrow>
   (CURLcode \<times> bytes \<times> bufq \<times> (CURLcode \<times> nat) list) option" where
  "write_pass_room as q =
     (if Curl_bufq_is_full q then
        (case Curl_bufq_pass as q of
           None \<Rightarrow> None
         | Some (res, _, sent, q', as') \<Rightarrow> Some (res, sent, q', as'))
      else Some (CURLE_OK, [], q, as))"

function bufq_write_pass_loop ::
  "bool list \<Rightarrow> (CURLcode \<times> nat) list \<Rightarrow> bufq \<Rightarrow> bytes \<Rightarrow> nat \<Rightarrow> bytes \<Rightarrow>
   (CURLcode \<times> nat \<times> bytes \<times> bufq) option" where
  "bufq_write_pass_loop al as q buf w sent =
     (if buf = [] then Some (CURLE_OK, w, sent, q)
      else
        (case write_pass_room as q of
           None \<Rightarrow> None
         | Some (res, s1, q1, as1) \<Rightarrow>
             if res \<noteq> CURLE_OK then
               (if res \<noteq> CURLE_AGAIN then Some (res, w, sent @ s1, q1)
                else Some (if w = 0 then CURLE_AGAIN else CURLE_OK, w, sent @ s1, q1))
             else
               (case Curl_bufq_write al q1 buf of
                  (res2, n, q2, al2) \<Rightarrow>
                    if res2 \<noteq> CURLE_OK then
                      (if res2 \<noteq> CURLE_AGAIN then Some (res2, w, sent @ s1, q2)
                       else Some (if w \<noteq> 0 then CURLE_OK else res2, w, sent @ s1, q2))
                    else if n = 0 then Some (if w = 0 then CURLE_AGAIN else CURLE_OK, w, sent @ s1, q2)
                    else bufq_write_pass_loop al2 as1 q2 (drop n buf) (w + n) (sent @ s1))))"
  by pat_completeness auto
termination
  by (relation "measure (\<lambda>(al, as, q, buf, w, sent). length buf)") auto

declare bufq_write_pass_loop.simps [simp del]

definition Curl_bufq_write_pass ::
  "bool list \<Rightarrow> (CURLcode \<times> nat) list \<Rightarrow> bufq \<Rightarrow> bytes \<Rightarrow> (CURLcode \<times> nat \<times> bytes \<times> bufq) option" where
  "Curl_bufq_write_pass al as q buf = bufq_write_pass_loop al as q buf 0 []"

definition Curl_bufq_sipn ::
  "bool list \<Rightarrow> bufq \<Rightarrow> nat \<Rightarrow> CURLcode \<times> bytes \<Rightarrow> CURLcode \<times> nat \<times> bufq \<times> bool list" where
  "Curl_bufq_sipn al q max_len answer =
     (let (got, q', al') = get_non_full_tail al q in
      if \<not> got then
        (if chunk_count q' < max_chunks q' then (CURLE_OUT_OF_MEMORY, 0, q', al')
         else (CURLE_AGAIN, 0, q', al'))
      else
        (let (res, n, c') = chunk_slurpn (last (heads q')) max_len answer in
         (res, n, set_tail q' c', al')))"

text \<open>\<open>bufq_slurpn\<close> on a list of reader answers; \<open>None\<close> when it ends while the reader is called.\<close>

fun bufq_slurpn_loop ::
  "bool list \<Rightarrow> (CURLcode \<times> bytes) list \<Rightarrow> bufq \<Rightarrow> nat \<Rightarrow> nat \<Rightarrow>
   (CURLcode \<times> nat \<times> bufq) option" where
  "bufq_slurpn_loop al [] q max_len nr = None"
| "bufq_slurpn_loop al (a # as) q max_len nr =
     (case Curl_bufq_sipn al q max_len a of
        (res, n, q', al') \<Rightarrow>
          if res \<noteq> CURLE_OK then
            (if nr = 0 \<or> res \<noteq> CURLE_AGAIN then Some (res, nr, q') else Some (CURLE_OK, nr, q'))
          else if n = 0 then Some (CURLE_OK, nr, q')
          else if max_len \<noteq> 0 \<and> max_len - n = 0 then Some (CURLE_OK, nr + n, q')
          else if heads q' \<noteq> [] \<and> \<not> chunk_is_full (last (heads q')) then Some (CURLE_OK, nr + n, q')
          else bufq_slurpn_loop al' as q' (max_len - n) (nr + n))"

definition Curl_bufq_slurp ::
  "bool list \<Rightarrow> (CURLcode \<times> bytes) list \<Rightarrow> bufq \<Rightarrow> (CURLcode \<times> nat \<times> bufq) option" where
  "Curl_bufq_slurp al as q = bufq_slurpn_loop al as q 0 0"

section \<open>Invariant and contents\<close>

definition chunk_ok :: "nat \<Rightarrow> buf_chunk \<Rightarrow> bool" where
  "chunk_ok sz c \<longleftrightarrow> dlen c = sz \<and> length (cdata c) = sz \<and> w_offset c \<le> sz
     \<and> (r_offset c < w_offset c \<or> r_offset c = 0 \<and> w_offset c = 0)"

text \<open>All chunks but the last are full and not drained, and only the first is partly read.\<close>

fun heads_ok :: "buf_chunk list \<Rightarrow> bool" where
  "heads_ok [] = True"
| "heads_ok [c] = True"
| "heads_ok (c # d # cs) = (w_offset c = dlen c \<and> r_offset c < w_offset c \<and> r_offset d = 0 \<and> heads_ok (d # cs))"

text \<open>
  Everything but the shape of \<open>heads\<close>; \<open>k\<close> chunks are counted but in neither list.
\<close>

definition bufq_base :: "nat \<Rightarrow> bufq \<Rightarrow> bool" where
  "bufq_base k q \<longleftrightarrow> 0 < chunk_size q \<and> 0 < max_chunks q
     \<and> list_all (chunk_ok (chunk_size q)) (heads q)
     \<and> list_all (\<lambda>c. dlen c = chunk_size q \<and> length (cdata c) = chunk_size q) (spares q)
     \<and> (\<forall>p. bpool q = Some p \<longrightarrow> pl_chunk_size p = chunk_size q
          \<and> list_all (\<lambda>c. dlen c = chunk_size q \<and> length (cdata c) = chunk_size q) (pl_spare p))
     \<and> chunk_count q = k + length (heads q) + length (spares q)
     \<and> (\<not> opt_soft_limit q \<longrightarrow> chunk_count q \<le> max_chunks q)"

definition bufq_ok :: "bufq \<Rightarrow> bool" where
  "bufq_ok q \<longleftrightarrow> bufq_base 0 q \<and> heads_ok (heads q)"

definition bufq_bytes :: "bufq \<Rightarrow> bytes" where
  "bufq_bytes q = concat (map chunk_peek (heads q))"

text \<open>The settings of a queue never change.\<close>

definition same_opts :: "bufq \<Rightarrow> bufq \<Rightarrow> bool" where
  "same_opts q q' \<longleftrightarrow> max_chunks q' = max_chunks q \<and> chunk_size q' = chunk_size q
     \<and> opt_soft_limit q' = opt_soft_limit q"

lemma same_opts_refl [simp]: "same_opts q q"
  by (simp add: same_opts_def)

lemma same_opts_trans: "same_opts a b \<Longrightarrow> same_opts b c \<Longrightarrow> same_opts a c"
  by (simp add: same_opts_def)

lemma length_chunk_peek: "chunk_ok sz c \<Longrightarrow> length (chunk_peek c) = chunk_len c"
  by (auto simp: chunk_ok_def chunk_peek_def chunk_len_def)

lemma chunk_peek_Nil: "chunk_ok sz c \<Longrightarrow> chunk_peek c = [] \<longleftrightarrow> chunk_is_empty c"
  by (auto simp: chunk_ok_def chunk_peek_def chunk_is_empty_def)

lemma chunk_ok_new: "chunk_ok n (new_chunk n)" "chunk_peek (new_chunk n) = []" "r_offset (new_chunk n) = 0"
  by (simp_all add: chunk_ok_def new_chunk_def chunk_peek_def)

lemma chunk_ok_reset:
  "dlen c = n \<Longrightarrow> length (cdata c) = n \<Longrightarrow> chunk_ok n (chunk_reset c)"
  "chunk_peek (chunk_reset c) = []" "r_offset (chunk_reset c) = 0"
  by (simp_all add: chunk_ok_def chunk_reset_def chunk_peek_def)

lemma take_drop_put_at:
  assumes "r \<le> w" and "w + length bs \<le> length d"
  shows "take (w + length bs - r) (drop r (put_at d w bs)) = take (w - r) (drop r d) @ bs"
proof -
  have "drop r (put_at d w bs) = drop r (take w d) @ bs @ drop (w + length bs) d"
    using assms by (simp add: put_at_def)
  moreover have "drop r (take w d) = take (w - r) (drop r d)" by (simp add: drop_take)
  moreover have "length (take (w - r) (drop r d)) = w - r" using assms by simp
  ultimately show ?thesis using assms(1) by simp
qed

lemma chunk_append_ok:
  assumes "chunk_ok sz c" and "chunk_append c buf = (n, c')"
  shows "chunk_ok sz c'" and "chunk_peek c' = chunk_peek c @ take n buf"
    and "n = min (sz - w_offset c) (length buf)" and "r_offset c' = r_offset c"
proof -
  have n: "n = min (sz - w_offset c) (length buf)"
    using assms by (auto simp: chunk_append_def chunk_ok_def Let_def split: if_splits)
  have c': "c' = c\<lparr>cdata := put_at (cdata c) (w_offset c) (take n buf), w_offset := w_offset c + n\<rparr>"
    using assms n by (auto simp: chunk_append_def chunk_ok_def put_at_def Let_def split: if_splits)
  have l: "length (take n buf) = n" "w_offset c + n \<le> length (cdata c)" "r_offset c \<le> w_offset c"
    using n assms(1) by (auto simp: chunk_ok_def)
  show "n = min (sz - w_offset c) (length buf)" by (rule n)
  show "r_offset c' = r_offset c" by (simp add: c')
  show "chunk_ok sz c'"
    using assms(1) l by (auto simp: c' chunk_ok_def put_at_def)
  show "chunk_peek c' = chunk_peek c @ take n buf"
    using take_drop_put_at [of "r_offset c" "w_offset c" "take n buf" "cdata c"] l
    by (simp add: c' chunk_peek_def)
qed

lemma chunk_read_ok:
  assumes "chunk_ok sz c" and "chunk_read c len = (n, bs, c')"
  shows "chunk_ok sz c'" and "bs = take len (chunk_peek c)" and "chunk_peek c' = drop len (chunk_peek c)"
    and "n = length bs" and "w_offset c' = w_offset c \<or> chunk_is_empty c'"
  using assms
  by (auto simp: chunk_read_def chunk_ok_def chunk_peek_def chunk_is_empty_def Let_def min_def
      drop_take add.commute split: if_splits)

lemma chunk_skip_ok:
  assumes "chunk_ok sz c" and "chunk_skip c amount = (n, c')"
  shows "chunk_ok sz c'" and "chunk_peek c' = drop amount (chunk_peek c)"
    and "n = min amount (length (chunk_peek c))" and "w_offset c' = w_offset c \<or> chunk_is_empty c'"
  using assms
  by (auto simp: chunk_skip_def chunk_ok_def chunk_peek_def chunk_is_empty_def Let_def min_def
      drop_take add.commute split: if_splits)

section \<open>Taking and returning chunks\<close>

lemma heads_ok_tl: "heads_ok (c # cs) \<Longrightarrow> heads_ok cs"
  by (cases cs) auto

lemma heads_ok_snoc:
  "heads_ok xs \<Longrightarrow> (xs \<noteq> [] \<Longrightarrow> w_offset (last xs) = dlen (last xs) \<and> r_offset (last xs) < w_offset (last xs)) \<Longrightarrow>
     r_offset c = 0 \<Longrightarrow> heads_ok (xs @ [c])"
  by (induction xs rule: heads_ok.induct) auto

lemma heads_ok_set_last:
  "heads_ok xs \<Longrightarrow> xs \<noteq> [] \<Longrightarrow> r_offset c = r_offset (last xs) \<Longrightarrow> heads_ok (butlast xs @ [c])"
proof (induction xs rule: heads_ok.induct)
  case (3 c' d cs)
  then show ?case by (cases cs) auto
qed auto

lemma unlink_head_ok:
  assumes "bufq_base 1 q" and "chunk_ok (chunk_size q) c"
  shows "bufq_base 0 (unlink_head q c)" and "same_opts q (unlink_head q c)"
  using assms
  by (auto simp: bufq_base_def unlink_head_def same_opts_def bufcp_put_def chunk_ok_def
      chunk_reset_def split: option.splits)

lemma prune_head_ok:
  assumes "bufq_base 0 q"
    and "case heads q of [] \<Rightarrow> True | c # cs \<Rightarrow> heads_ok cs \<and> (chunk_is_empty c \<or> heads_ok (c # cs))"
  shows "bufq_ok (prune_head q) \<and> bufq_bytes (prune_head q) = bufq_bytes q
    \<and> same_opts q (prune_head q)
    \<and> (heads (prune_head q) = [] \<or> \<not> chunk_is_empty (hd (heads (prune_head q))))"
  using assms
proof (induction q rule: prune_head.induct)
  case (1 q)
  show ?case
  proof (cases "heads q")
    case Nil
    then show ?thesis using 1(2) by (simp add: prune_head.simps [of q] bufq_ok_def)
  next
    case (Cons c cs)
    show ?thesis
    proof (cases "chunk_is_empty c")
      case False
      then show ?thesis using 1(2,3) Cons by (simp add: prune_head.simps [of q] bufq_ok_def)
    next
      case True
      let ?q = "unlink_head (q\<lparr>heads := cs\<rparr>) c"
      have c: "chunk_ok (chunk_size q) c" using 1(2) Cons by (simp add: bufq_base_def)
      have "bufq_base 1 (q\<lparr>heads := cs\<rparr>)" using 1(2) Cons by (auto simp: bufq_base_def)
      from unlink_head_ok [OF this, of c] c have u: "bufq_base 0 ?q" "same_opts q ?q"
        by (auto simp: same_opts_def)
      have h: "heads_ok cs" using 1(3) Cons by simp
      have pre: "case heads ?q of [] \<Rightarrow> True | c # cs \<Rightarrow> heads_ok cs \<and> (chunk_is_empty c \<or> heads_ok (c # cs))"
        using h by (auto split: list.splits dest: heads_ok_tl)
      have bytes: "bufq_bytes ?q = bufq_bytes q"
        using True Cons c by (simp add: bufq_bytes_def chunk_peek_Nil)
      have "prune_head q = prune_head ?q" using True Cons by (simp add: prune_head.simps [of q])
      then show ?thesis using 1(1) [OF Cons True u(1) pre] bytes u(2) same_opts_trans by auto
    qed
  qed
qed

lemma alloc_chunk_ok: "alloc_chunk al n = (Some c, al') \<Longrightarrow> c = new_chunk n"
  by (auto simp: alloc_chunk_def split: if_splits list.splits)

lemma get_spare_None:
  assumes "bufq_ok q" and "get_spare al q = (None, q', al')"
  shows "bufq_ok q' \<and> heads q' = heads q \<and> same_opts q q' \<and> chunk_count q' = chunk_count q"
  using assms
  by (auto simp: get_spare_def bufcp_take_def bufq_ok_def bufq_base_def same_opts_def
      split: list.splits if_splits option.splits prod.splits)

lemma get_spare_Some:
  assumes "bufq_ok q" and "get_spare al q = (Some c, q', al')"
  shows "bufq_base 1 q' \<and> heads q' = heads q \<and> same_opts q q'
    \<and> chunk_ok (chunk_size q) c \<and> chunk_peek c = [] \<and> r_offset c = 0 \<and> \<not> chunk_is_full c"
proof -
  have sz: "0 < chunk_size q" using assms(1) by (simp add: bufq_ok_def bufq_base_def)
  have c: "(\<exists>d. c = chunk_reset d \<and> dlen d = chunk_size q \<and> length (cdata d) = chunk_size q)
      \<or> c = new_chunk (chunk_size q)"
    using assms
    by (auto simp: get_spare_def bufcp_take_def bufq_ok_def bufq_base_def dest: alloc_chunk_ok
        split: list.splits if_splits option.splits prod.splits)
  have "chunk_ok (chunk_size q) c \<and> chunk_peek c = [] \<and> r_offset c = 0"
    using c chunk_ok_reset(1) [of _ "chunk_size q"] chunk_ok_reset(2,3) chunk_ok_new by auto
  moreover have "\<not> chunk_is_full c"
    using c sz by (auto simp: chunk_is_full_def chunk_reset_def new_chunk_def)
  moreover have "bufq_base 1 q' \<and> heads q' = heads q \<and> same_opts q q'"
    using assms
    by (auto simp: get_spare_def bufcp_take_def bufq_ok_def bufq_base_def same_opts_def
        split: list.splits if_splits option.splits prod.splits)
  ultimately show ?thesis by blast
qed

lemma last_heads_chunk_ok: "bufq_base k q \<Longrightarrow> heads q \<noteq> [] \<Longrightarrow> chunk_ok (chunk_size q) (last (heads q))"
  by (simp add: bufq_base_def list_all_iff)

lemma get_non_full_tail_ok:
  assumes "bufq_ok q" and "get_non_full_tail al q = (got, q', al')"
  shows "bufq_ok q' \<and> bufq_bytes q' = bufq_bytes q \<and> same_opts q q'"
    and "got \<Longrightarrow> heads q' \<noteq> [] \<and> \<not> chunk_is_full (last (heads q'))"
    and "\<not> got \<Longrightarrow> chunk_count q' = chunk_count q"
proof -
  have "bufq_ok q' \<and> bufq_bytes q' = bufq_bytes q \<and> same_opts q q'
    \<and> (if got then heads q' \<noteq> [] \<and> \<not> chunk_is_full (last (heads q')) else chunk_count q' = chunk_count q)"
  proof (cases "heads q \<noteq> [] \<and> \<not> chunk_is_full (last (heads q))")
    case True
    then show ?thesis using assms by (auto simp: get_non_full_tail_def)
  next
    case False
    obtain r q1 al1 where g: "get_spare al q = (r, q1, al1)" using prod_cases3 by blast
    show ?thesis
    proof (cases r)
      case None
      then show ?thesis using False assms g get_spare_None [OF assms(1), of al q1 al1]
        by (auto simp: get_non_full_tail_def bufq_bytes_def)
    next
      case (Some c)
      have q': "got" "q' = q1\<lparr>heads := heads q1 @ [c]\<rparr>"
        using False assms(2) g Some by (auto simp: get_non_full_tail_def)
      note s = get_spare_Some [OF assms(1) g [unfolded Some]]
      have full: "w_offset (last (heads q)) = dlen (last (heads q))
          \<and> r_offset (last (heads q)) < w_offset (last (heads q))" if "heads q \<noteq> []"
        using that False last_heads_chunk_ok [of 0 q] assms(1)
        by (auto simp: bufq_ok_def chunk_ok_def chunk_is_full_def bufq_base_def)
      have "heads_ok (heads q @ [c])"
        by (rule heads_ok_snoc) (use full s assms(1) in \<open>auto simp: bufq_ok_def\<close>)
      then show ?thesis using s q'
        by (auto simp: bufq_ok_def bufq_base_def bufq_bytes_def same_opts_def)
    qed
  qed
  then show "bufq_ok q' \<and> bufq_bytes q' = bufq_bytes q \<and> same_opts q q'"
    and "got \<Longrightarrow> heads q' \<noteq> [] \<and> \<not> chunk_is_full (last (heads q'))"
    and "\<not> got \<Longrightarrow> chunk_count q' = chunk_count q"
    by auto
qed

lemma set_tail_ok:
  assumes "bufq_ok q" and "heads q \<noteq> []" and "chunk_ok (chunk_size q) c"
    and "r_offset c = r_offset (last (heads q))"
    and "chunk_peek c = chunk_peek (last (heads q)) @ bs"
  shows "bufq_ok (set_tail q c)" and "bufq_bytes (set_tail q c) = bufq_bytes q @ bs"
    and "same_opts q (set_tail q c)" and "chunk_count (set_tail q c) = chunk_count q"
proof -
  have h: "heads q = butlast (heads q) @ [last (heads q)]" using assms(2) by simp
  have "list_all (chunk_ok (chunk_size q)) (butlast (heads q))"
    using assms(1) by (auto simp: bufq_ok_def bufq_base_def list_all_iff dest: in_set_butlastD)
  then show "bufq_ok (set_tail q c)"
    using assms heads_ok_set_last [of "heads q" c]
    by (auto simp: bufq_ok_def bufq_base_def set_tail_def)
  have "bufq_bytes q = concat (map chunk_peek (butlast (heads q))) @ chunk_peek (last (heads q))"
    unfolding bufq_bytes_def by (subst h) simp
  then show "bufq_bytes (set_tail q c) = bufq_bytes q @ bs"
    using assms(5) by (simp add: bufq_bytes_def set_tail_def)
qed (simp_all add: same_opts_def set_tail_def)

section \<open>First in, first out\<close>

lemma bufq_write_loop_ok:
  assumes "bufq_ok q" and "bufq_write_loop al q buf nw = (res, n, q', al')"
  shows "bufq_ok q' \<and> same_opts q q' \<and> nw \<le> n \<and> n - nw \<le> length buf
    \<and> bufq_bytes q' = bufq_bytes q @ take (n - nw) buf
    \<and> (res = CURLE_OK \<or> res = CURLE_AGAIN \<or> res = CURLE_OUT_OF_MEMORY)
    \<and> (res = CURLE_AGAIN \<longrightarrow> n = 0)
    \<and> (res \<noteq> CURLE_OUT_OF_MEMORY \<and> n - nw < length buf \<longrightarrow>
         \<not> opt_soft_limit q' \<and> max_chunks q' \<le> chunk_count q')"
  using assms
proof (induction al q buf nw arbitrary: res n q' al' rule: bufq_write_loop.induct)
  case (1 al q buf nw)
  show ?case
  proof (cases "buf = []")
    case True
    then show ?thesis using 1(2,3) by (simp add: bufq_write_loop.simps)
  next
    case False
    obtain got q1 al1 where g: "get_non_full_tail al q = (got, q1, al1)" using prod_cases3 by blast
    note t = get_non_full_tail_ok [OF 1(2) g]
    show ?thesis
    proof (cases got)
      case no: False
      have "(res, n, q', al') = (if chunk_count q1 < max_chunks q1 \<or> opt_soft_limit q1
          then (CURLE_OUT_OF_MEMORY, nw, q1, al1)
          else (if nw = 0 then CURLE_AGAIN else CURLE_OK, nw, q1, al1))"
        using 1(3) False g no by (simp add: bufq_write_loop.simps [of al q])
      then show ?thesis using t(1) by (auto split: if_splits)
    next
      case True
      note q1 = t(2) [OF True]
      let ?c = "last (heads q1)"
      obtain k c' where a: "chunk_append ?c buf = (k, c')" by force
      have ok1: "bufq_ok q1" using t(1) by blast
      have c: "chunk_ok (chunk_size q1) ?c"
        using last_heads_chunk_ok [of 0 q1] ok1 q1 by (simp add: bufq_ok_def)
      note ap = chunk_append_ok [OF c a]
      note st = set_tail_ok [OF ok1 conjunct1 [OF q1] ap(1,4,2)]
      have "0 < chunk_size q1 - w_offset ?c"
        using q1 c by (auto simp: chunk_is_full_def chunk_ok_def)
      then have k: "0 < k" "k \<le> length buf" using ap(3) False by auto
      have step: "bufq_write_loop al1 (set_tail q1 c') (drop k buf) (nw + k) = (res, n, q', al')"
        using 1(3) False g True a k by (simp add: bufq_write_loop.simps [of al q])
      have IH: "bufq_ok q' \<and> same_opts (set_tail q1 c') q' \<and> nw + k \<le> n
        \<and> n - (nw + k) \<le> length (drop k buf)
        \<and> bufq_bytes q' = bufq_bytes (set_tail q1 c') @ take (n - (nw + k)) (drop k buf)
        \<and> (res = CURLE_OK \<or> res = CURLE_AGAIN \<or> res = CURLE_OUT_OF_MEMORY)
        \<and> (res = CURLE_AGAIN \<longrightarrow> n = 0)
        \<and> (res \<noteq> CURLE_OUT_OF_MEMORY \<and> n - (nw + k) < length (drop k buf) \<longrightarrow>
             \<not> opt_soft_limit q' \<and> max_chunks q' \<le> chunk_count q')"
        using 1(1) [OF False g [symmetric] refl refl _ a [symmetric] refl _ st(1) step] True k(1) by simp
      have nk: "n - nw = k + (n - (nw + k))" using IH by linarith
      have "take k buf @ take (n - (nw + k)) (drop k buf) = take (n - nw) buf"
        unfolding nk take_add by simp
      moreover have "same_opts q q'"
        using t(1) st(3) IH same_opts_trans by blast
      ultimately show ?thesis using IH st(2) t(1) k by auto
    qed
  qed
qed

text \<open>With a soft limit and memory for it, a write is never refused.\<close>

definition mem_left :: "bufq \<Rightarrow> bool list \<Rightarrow> bool" where
  "mem_left q al \<longleftrightarrow> opt_soft_limit q \<and> bpool q = None \<and> chunk_size q \<le> SIZE_MAX - sizeof_buf_chunk
     \<and> list_all id al"

lemma get_non_full_tail_sure:
  assumes "mem_left q al" and "al \<noteq> []" and "get_non_full_tail al q = (got, q', al')"
  shows "got \<and> bpool q' = None \<and> list_all id al' \<and> length al \<le> length al' + 1"
  using assms
  by (auto simp: get_non_full_tail_def get_spare_def alloc_chunk_def mem_left_def not_less
      split: if_splits list.splits)

lemma bufq_write_loop_sure:
  assumes "bufq_ok q" and "mem_left q al" and "length buf \<le> length al"
    and "bufq_write_loop al q buf nw = (res, n, q', al')"
  shows "res = CURLE_OK \<and> mem_left q' al' \<and> length al \<le> length al' + length buf"
  using assms
proof (induction al q buf nw arbitrary: res n q' al' rule: bufq_write_loop.induct)
  case (1 al q buf nw)
  show ?case
  proof (cases "buf = []")
    case True
    then show ?thesis using 1(3,5) by (simp add: bufq_write_loop.simps)
  next
    case False
    obtain got q1 al1 where g: "get_non_full_tail al q = (got, q1, al1)" using prod_cases3 by blast
    have "al \<noteq> []" using False 1(4) by auto
    note s = get_non_full_tail_sure [OF 1(3) this g]
    then have True: got by blast
    note t = get_non_full_tail_ok [OF 1(2) g]
    note q1 = t(2) [OF True]
    let ?c = "last (heads q1)"
    obtain k c' where a: "chunk_append ?c buf = (k, c')" by force
    have ok1: "bufq_ok q1" using t(1) by blast
    have c: "chunk_ok (chunk_size q1) ?c"
      using last_heads_chunk_ok [of 0 q1] ok1 q1 by (simp add: bufq_ok_def)
    note ap = chunk_append_ok [OF c a]
    note st = set_tail_ok [OF ok1 conjunct1 [OF q1] ap(1,4,2)]
    have "0 < chunk_size q1 - w_offset ?c" using q1 c by (auto simp: chunk_is_full_def chunk_ok_def)
    then have k: "0 < k" "k \<le> length buf" using ap(3) False by auto
    have step: "bufq_write_loop al1 (set_tail q1 c') (drop k buf) (nw + k) = (res, n, q', al')"
      using 1(5) False g True a k by (simp add: bufq_write_loop.simps [of al q])
    have m: "mem_left (set_tail q1 c') al1"
      using 1(3) s t(1) by (simp add: mem_left_def set_tail_def same_opts_def)
    have l: "length (drop k buf) \<le> length al1" using s 1(4) k by (simp, linarith)
    have "res = CURLE_OK \<and> mem_left q' al' \<and> length al1 \<le> length al' + length (drop k buf)"
      using 1(1) [OF False g [symmetric] refl refl _ a [symmetric] refl _ st(1) m l step] True k(1) by simp
    then show ?thesis using s k by auto
  qed
qed

lemma head_update_ok:
  assumes "bufq_ok q" and "heads q = c # cs" and "chunk_ok (chunk_size q) c'"
    and "w_offset c' = w_offset c \<or> chunk_is_empty c'"
  shows "bufq_ok (prune_head (q\<lparr>heads := c' # cs\<rparr>))
    \<and> bufq_bytes (prune_head (q\<lparr>heads := c' # cs\<rparr>)) = chunk_peek c' @ concat (map chunk_peek cs)
    \<and> same_opts q (prune_head (q\<lparr>heads := c' # cs\<rparr>))"
proof -
  let ?q = "q\<lparr>heads := c' # cs\<rparr>"
  have base: "bufq_base 0 ?q" using assms(1,2,3) by (auto simp: bufq_ok_def bufq_base_def)
  have h: "heads_ok (c # cs)" using assms(1,2) by (simp add: bufq_ok_def)
  have d: "dlen c' = dlen c"
    using assms(1,2,3) by (auto simp: bufq_ok_def bufq_base_def chunk_ok_def)
  have "chunk_is_empty c' \<or> heads_ok (c' # cs)"
    using h d assms(4) by (cases cs) (auto simp: chunk_is_empty_def)
  with h have "case heads ?q of [] \<Rightarrow> True | c # cs \<Rightarrow> heads_ok cs \<and> (chunk_is_empty c \<or> heads_ok (c # cs))"
    using heads_ok_tl by simp
  from prune_head_ok [OF base this] show ?thesis
    by (simp add: bufq_bytes_def same_opts_def)
qed

lemma bufq_read_loop_ok:
  assumes "bufq_ok q" and "bufq_read_loop q len acc = (bs, q')"
  shows "bufq_ok q' \<and> same_opts q q' \<and> bs = acc @ take len (bufq_bytes q)
    \<and> bufq_bytes q' = drop len (bufq_bytes q)"
  using assms
proof (induction q len acc arbitrary: bs q' rule: bufq_read_loop.induct)
  case (1 q len acc)
  show ?case
  proof (cases "len = 0 \<or> heads q = []")
    case True
    then show ?thesis using 1(2,3) by (auto simp: bufq_read_loop.simps [of q] bufq_bytes_def)
  next
    case False
    then obtain c cs where h: "heads q = c # cs" by (cases "heads q") auto
    obtain n b1 c' where r: "chunk_read c len = (n, b1, c')" using prod_cases3 by blast
    have c: "chunk_ok (chunk_size q) c" using 1(2) h by (simp add: bufq_ok_def bufq_base_def)
    note rd = chunk_read_ok [OF c r]
    let ?q = "prune_head (q\<lparr>heads := c' # cs\<rparr>)"
    note up = head_update_ok [OF 1(2) h rd(1,5)]
    have step: "bufq_read_loop ?q (len - n) (acc @ b1) = (bs, q')"
      using 1(3) False h r by (simp add: bufq_read_loop.simps [of q])
    have IH: "bufq_ok q' \<and> same_opts ?q q' \<and> bs = (acc @ b1) @ take (len - n) (bufq_bytes ?q)
        \<and> bufq_bytes q' = drop (len - n) (bufq_bytes ?q)"
      using 1(1) [of "(n, b1, c')" n "(b1, c')" b1 c'] False h r up step by simp
    have q: "bufq_bytes q = chunk_peek c @ concat (map chunk_peek cs)" by (simp add: bufq_bytes_def h)
    have "n = min len (length (chunk_peek c))" using rd(2,4) by simp
    then show ?thesis using IH up rd(2,3) same_opts_trans [of q ?q q'] q
      by (cases "len \<le> length (chunk_peek c)") auto
  qed
qed

lemma Curl_bufq_skip_ok:
  "bufq_ok q \<Longrightarrow> bufq_ok (Curl_bufq_skip q amount) \<and> same_opts q (Curl_bufq_skip q amount)
     \<and> bufq_bytes (Curl_bufq_skip q amount) = drop amount (bufq_bytes q)"
proof (induction q amount rule: Curl_bufq_skip.induct)
  case (1 q amount)
  show ?case
  proof (cases "amount = 0 \<or> heads q = []")
    case True
    then show ?thesis using 1(2) by (auto simp: Curl_bufq_skip.simps [of q] bufq_bytes_def)
  next
    case False
    then obtain c cs where h: "heads q = c # cs" by (cases "heads q") auto
    obtain n c' where r: "chunk_skip c amount = (n, c')" by force
    have c: "chunk_ok (chunk_size q) c" using 1(2) h by (simp add: bufq_ok_def bufq_base_def)
    note sk = chunk_skip_ok [OF c r]
    let ?q = "prune_head (q\<lparr>heads := c' # cs\<rparr>)"
    note up = head_update_ok [OF 1(2) h sk(1,4)]
    have step: "Curl_bufq_skip q amount = Curl_bufq_skip ?q (amount - n)"
      using False h r by (simp add: Curl_bufq_skip.simps [of q])
    have IH: "bufq_ok (Curl_bufq_skip ?q (amount - n)) \<and> same_opts ?q (Curl_bufq_skip ?q (amount - n))
        \<and> bufq_bytes (Curl_bufq_skip ?q (amount - n)) = drop (amount - n) (bufq_bytes ?q)"
      using 1(1) [of "(n, c')" n c'] False h r up by simp
    have q: "bufq_bytes q = chunk_peek c @ concat (map chunk_peek cs)" by (simp add: bufq_bytes_def h)
    show ?thesis unfolding step using IH up sk(2,3) same_opts_trans [of q ?q] q
      by (cases "amount \<le> length (chunk_peek c)") auto
  qed
qed

lemma heads_empty_bytes:
  assumes "bufq_ok q" and "heads q = [] \<or> chunk_is_empty (hd (heads q))"
  shows "bufq_bytes q = []"
proof (cases "heads q")
  case (Cons c cs)
  then have "cs = []" using assms by (cases cs) (auto simp: bufq_ok_def chunk_is_empty_def)
  then show ?thesis using assms Cons
    by (auto simp: bufq_bytes_def bufq_ok_def bufq_base_def chunk_peek_Nil)
qed (simp add: bufq_bytes_def)

lemma Curl_bufq_peek_ok:
  assumes "bufq_ok q" and "Curl_bufq_peek q = (r, q')"
  shows "bufq_ok q' \<and> same_opts q q' \<and> bufq_bytes q' = bufq_bytes q
    \<and> (case r of None \<Rightarrow> bufq_bytes q = []
       | Some b \<Rightarrow> b \<noteq> [] \<and> (\<exists>rest. bufq_bytes q = b @ rest))"
proof -
  let ?q = "if heads q \<noteq> [] \<and> chunk_is_empty (hd (heads q)) then prune_head q else q"
  have "case heads q of [] \<Rightarrow> True | c # cs \<Rightarrow> heads_ok cs \<and> (chunk_is_empty c \<or> heads_ok (c # cs))"
    using assms(1) by (auto simp: bufq_ok_def dest: heads_ok_tl split: list.splits)
  then have q: "bufq_ok ?q" "same_opts q ?q" "bufq_bytes ?q = bufq_bytes q"
    using prune_head_ok [of q] assms(1) by (auto simp: bufq_ok_def)
  have q': "q' = ?q" using assms(2) by (auto simp: Curl_bufq_peek_def Let_def split: if_splits)
  show ?thesis
  proof (cases "heads ?q \<noteq> [] \<and> \<not> chunk_is_empty (hd (heads ?q))")
    case True
    then obtain c cs where h: "heads ?q = c # cs" "\<not> chunk_is_empty c"
      by (cases "heads ?q") auto
    then have r: "r = Some (chunk_peek c)" using assms(2) True by (auto simp: Curl_bufq_peek_def Let_def)
    have "chunk_peek c \<noteq> []"
      using q(1) h chunk_peek_Nil [of "chunk_size ?q" c] by (simp add: bufq_ok_def bufq_base_def)
    moreover have "bufq_bytes q = chunk_peek c @ concat (map chunk_peek cs)"
      using q(3) h(1) by (simp add: bufq_bytes_def)
    ultimately show ?thesis using q q' r by simp
  next
    case False
    then have "r = None" using assms(2) by (auto simp: Curl_bufq_peek_def Let_def split: if_splits)
    with False heads_empty_bytes [OF q(1)] q q' show ?thesis by simp
  qed
qed

lemma peek_at_loop_ok:
  assumes "list_all (chunk_ok sz) cs" and "heads_ok cs"
  shows "case peek_at_loop cs off of
      None \<Rightarrow> length (concat (map chunk_peek cs)) \<le> off
    | Some b \<Rightarrow> b \<noteq> [] \<and> (\<exists>rest. drop off (concat (map chunk_peek cs)) = b @ rest)"
  using assms
proof (induction cs arbitrary: off)
  case (Cons c cs)
  have c: "chunk_ok sz c" and len: "length (chunk_peek c) = chunk_len c"
    using Cons.prems(1) length_chunk_peek by auto
  consider "chunk_len c = 0" | "0 < chunk_len c" "chunk_len c \<le> off" | "off < chunk_len c" by linarith
  then show ?case
  proof cases
    case 1
    then have "cs = []" using Cons.prems(2) by (cases cs) (auto simp: chunk_len_def)
    then show ?thesis using 1 len by simp
  next
    case 2
    have "heads_ok cs" using Cons.prems(2) heads_ok_tl by blast
    with Cons have "case peek_at_loop cs (off - chunk_len c) of
        None \<Rightarrow> length (concat (map chunk_peek cs)) \<le> off - chunk_len c
      | Some b \<Rightarrow> b \<noteq> [] \<and> (\<exists>rest. drop (off - chunk_len c) (concat (map chunk_peek cs)) = b @ rest)"
      by simp
    then show ?thesis using 2 len by (auto split: option.splits)
  next
    case 3
    have "chunk_peek_at c off = drop off (chunk_peek c)"
      by (simp add: chunk_peek_at_def chunk_peek_def drop_take add.commute)
    then show ?thesis using 3 len by auto
  qed
qed simp

lemma foldl_chunk_len:
  "list_all (chunk_ok sz) cs \<Longrightarrow>
     foldl (\<lambda>len c. len + chunk_len c) n cs = n + length (concat (map chunk_peek cs))"
  by (induction cs arbitrary: n) (auto simp: length_chunk_peek)

lemma Curl_bufq_len_ok: "bufq_ok q \<Longrightarrow> Curl_bufq_len q = length (bufq_bytes q)"
  using foldl_chunk_len [of "chunk_size q" "heads q" 0]
  by (simp add: Curl_bufq_len_def bufq_bytes_def bufq_ok_def bufq_base_def)

lemma Curl_bufq_is_empty_ok: "bufq_ok q \<Longrightarrow> Curl_bufq_is_empty q \<longleftrightarrow> bufq_bytes q = []"
  using heads_empty_bytes [of q] chunk_peek_Nil [of "chunk_size q" "hd (heads q)"]
  by (auto simp: Curl_bufq_is_empty_def bufq_bytes_def bufq_ok_def bufq_base_def split: list.splits)

lemma bufq_pass_loop_ok:
  assumes "bufq_ok q" and "bufq_pass_loop as q w sent = Some (res, w', sent', q', as')"
  shows "bufq_ok q' \<and> same_opts q q' \<and> sent' @ bufq_bytes q' = sent @ bufq_bytes q"
  using assms
proof (induction as arbitrary: q w sent)
  case Nil
  then show ?case using Curl_bufq_peek_ok [OF Nil(1)]
    by (auto simp: bufq_pass_loop.simps split: prod.splits option.splits)
next
  case (Cons a as)
  obtain r q1 where pk: "Curl_bufq_peek q = (r, q1)" by force
  note k = Curl_bufq_peek_ok [OF Cons.prems(1) pk]
  obtain code m where a: "a = (code, m)" by force
  show ?case
  proof (cases "\<exists>b. r = Some b \<and> code = CURLE_OK \<and> min m (length b) \<noteq> 0")
    case False
    then show ?thesis using Cons.prems(2) k pk unfolding a
      by (auto simp: bufq_pass_loop.simps [of "(code, m) # as"] Let_def split: option.splits if_splits)
  next
    case True
    then obtain b rest where b: "r = Some b" "bufq_bytes q = b @ rest" "code = CURLE_OK"
        "min m (length b) \<noteq> 0" using k by auto
    let ?n = "min m (length b)"
    have step: "bufq_pass_loop as (Curl_bufq_skip q1 ?n) (w + ?n) (sent @ take ?n b)
        = Some (res, w', sent', q', as')"
      using Cons.prems(2) b(1,4) pk unfolding a b(3)
      by (simp add: bufq_pass_loop.simps [of "(CURLE_OK, m) # as"] Let_def split: if_splits)
    have sk: "bufq_ok (Curl_bufq_skip q1 ?n)" "same_opts q1 (Curl_bufq_skip q1 ?n)"
        "bufq_bytes (Curl_bufq_skip q1 ?n) = drop ?n (bufq_bytes q)"
      using Curl_bufq_skip_ok [of q1 ?n] k by auto
    have "take ?n b @ drop ?n (bufq_bytes q) = bufq_bytes q" using b(2) by simp
    then show ?thesis using Cons.IH [OF sk(1) step] sk k same_opts_trans by (metis append.assoc)
  qed
qed

lemma bufq_write_pass_loop_ok:
  assumes "bufq_ok q" and "bufq_write_pass_loop al as q buf w sent = Some (res, w', sent', q')"
    and "res \<noteq> CURLE_OUT_OF_MEMORY"
  shows "bufq_ok q' \<and> w \<le> w' \<and> w' - w \<le> length buf
    \<and> sent' @ bufq_bytes q' = sent @ bufq_bytes q @ take (w' - w) buf"
  using assms(1,2)
proof (induction al as q buf w sent rule: bufq_write_pass_loop.induct)
  case (1 al as q buf w sent)
  show ?case
  proof (cases "buf = []")
    case True
    then show ?thesis using 1(2,3) by (simp add: bufq_write_pass_loop.simps)
  next
    case False
    obtain r1 s1 q1 as1 where room: "write_pass_room as q = Some (r1, s1, q1, as1)"
      using 1(3) False by (auto simp: bufq_write_pass_loop.simps [of al as q] split: option.splits)
    have q1: "bufq_ok q1" "s1 @ bufq_bytes q1 = bufq_bytes q"
      using room 1(2) bufq_pass_loop_ok [OF 1(2)]
      by (auto simp: write_pass_room_def Curl_bufq_pass_def split: if_splits option.splits)
    obtain r2 n q2 al2 where wr: "Curl_bufq_write al q1 buf = (r2, n, q2, al2)"
      using prod_cases4 by blast
    note w2 = bufq_write_loop_ok [OF q1(1) wr [unfolded Curl_bufq_write_def]]
    show ?thesis
    proof (cases "r1 = CURLE_OK \<and> r2 = CURLE_OK \<and> n \<noteq> 0")
      case True
      then have step: "bufq_write_pass_loop al2 as1 q2 (drop n buf) (w + n) (sent @ s1)
          = Some (res, w', sent', q')"
        using 1(3) False room wr by (simp add: bufq_write_pass_loop.simps [of al as q])
      have IH: "bufq_ok q' \<and> w + n \<le> w' \<and> w' - (w + n) \<le> length (drop n buf)
          \<and> sent' @ bufq_bytes q' = (sent @ s1) @ bufq_bytes q2 @ take (w' - (w + n)) (drop n buf)"
        using 1(1) [OF False room refl refl refl _ wr [symmetric] refl refl] True w2 step by simp
      have e: "w' - w = n + (w' - (w + n))" using IH by linarith
      have "take n buf @ take (w' - (w + n)) (drop n buf) = take (w' - w) buf"
        unfolding e take_add by simp
      then show ?thesis using IH w2 q1(2) by auto
    next
      case stop: False
      then show ?thesis
        using 1(3) False room wr w2 q1 assms(3)
        by (auto simp: bufq_write_pass_loop.simps [of al as q] split: if_splits)
    qed
  qed
qed

lemma chunk_slurpn_append:
  assumes "chunk_slurpn c max_len (CURLE_OK, src) = (CURLE_OK, n, c')"
  shows "\<exists>k. chunk_append c (take k src) = (n, c') \<and> take n (take k src) = take n src"
proof -
  let ?f = "dlen c - w_offset c"
  let ?k = "if max_len \<noteq> 0 \<and> ?f > max_len then max_len else ?f"
  have f: "?f \<noteq> 0" using assms by (auto simp: chunk_slurpn_def Let_def split: if_splits)
  have n: "n = min ?k (length src)"
    using assms f by (auto simp: chunk_slurpn_def Let_def split: if_splits)
  have c': "c' = c\<lparr>cdata := put_at (cdata c) (w_offset c) (take n src), w_offset := w_offset c + n\<rparr>"
    using assms f n by (auto simp: chunk_slurpn_def Let_def)
  have m: "min ?f (length (take ?k src)) = n" and t: "take n (take ?k src) = take n src"
    using n by (auto simp: min_def)
  have "chunk_append c (take ?k src) = (n, c')"
    unfolding chunk_append_def Let_def m t c' using f by simp
  with t show ?thesis by blast
qed

lemma Curl_bufq_sipn_ok:
  assumes "bufq_ok q" and "Curl_bufq_sipn al q max_len (code, src) = (res, n, q', al')"
  shows "bufq_ok q' \<and> same_opts q q'
    \<and> bufq_bytes q' = bufq_bytes q @ (if res = CURLE_OK then take n src else [])"
proof -
  obtain got q1 al1 where g: "get_non_full_tail al q = (got, q1, al1)" using prod_cases3 by blast
  note t = get_non_full_tail_ok [OF assms(1) g]
  obtain r k c' where s: "chunk_slurpn (last (heads q1)) max_len (code, src) = (r, k, c')"
    using prod_cases3 by blast
  show ?thesis
  proof (cases got)
    case False
    then show ?thesis using assms(2) g t(1) by (auto simp: Curl_bufq_sipn_def split: if_splits)
  next
    case True
    then have res: "res = r" "n = k" "q' = set_tail q1 c'"
      using assms(2) g s by (simp_all add: Curl_bufq_sipn_def)
    have ok1: "bufq_ok q1" and ne: "heads q1 \<noteq> []" using t True by auto
    have c: "chunk_ok (chunk_size q1) (last (heads q1))"
      using last_heads_chunk_ok [of 0 q1] ok1 ne by (simp add: bufq_ok_def)
    have "\<exists>bs. chunk_ok (chunk_size q1) c' \<and> r_offset c' = r_offset (last (heads q1))
        \<and> chunk_peek c' = chunk_peek (last (heads q1)) @ bs
        \<and> bs = (if r = CURLE_OK then take k src else [])"
    proof (cases "r = CURLE_OK")
      case True
      then have "code = CURLE_OK"
        using s by (auto simp: chunk_slurpn_def Let_def split: if_splits)
      with True s obtain j where "chunk_append (last (heads q1)) (take j src) = (k, c')"
          "take k (take j src) = take k src"
        using chunk_slurpn_append [of "last (heads q1)" max_len src k c'] by auto
      with chunk_append_ok [OF c this(1)] True show ?thesis by simp
    next
      case False
      then have "c' = last (heads q1)" using s by (auto simp: chunk_slurpn_def Let_def split: if_splits)
      with c False show ?thesis by simp
    qed
    then obtain bs where bs: "chunk_ok (chunk_size q1) c'" "r_offset c' = r_offset (last (heads q1))"
        "chunk_peek c' = chunk_peek (last (heads q1)) @ bs" "bs = (if r = CURLE_OK then take k src else [])"
      by blast
    from set_tail_ok [OF ok1 ne bs(1-3)] t(1) show ?thesis
      using res bs(4) same_opts_trans by auto
  qed
qed

section \<open>The interface: a byte queue\<close>

datatype fifo_op = Put bytes | Get nat

fun fifo_run ::
  "('q \<Rightarrow> bytes \<Rightarrow> nat \<times> 'q) \<Rightarrow> ('q \<Rightarrow> nat \<Rightarrow> bytes \<times> 'q) \<Rightarrow> 'q \<Rightarrow> fifo_op list \<Rightarrow> bytes \<times> bytes \<times> 'q" where
  "fifo_run put get q [] = ([], [], q)"
| "fifo_run put get q (Put b # ops) =
     (let (n, q') = put q b; (inn, out, q'') = fifo_run put get q' ops in (take n b @ inn, out, q''))"
| "fifo_run put get q (Get n # ops) =
     (let (b, q') = get q n; (inn, out, q'') = fifo_run put get q' ops in (inn, b @ out, q''))"

locale byte_fifo =
  fixes put :: "'q \<Rightarrow> bytes \<Rightarrow> nat \<times> 'q" and get :: "'q \<Rightarrow> nat \<Rightarrow> bytes \<times> 'q"
    and held :: "'q \<Rightarrow> bytes" and ok :: "'q \<Rightarrow> bool"
  assumes put_ok: "ok q \<Longrightarrow> put q b = (n, q') \<Longrightarrow> ok q' \<and> n \<le> length b \<and> held q' = held q @ take n b"
    and get_ok: "ok q \<Longrightarrow> get q n = (b, q') \<Longrightarrow> ok q' \<and> b = take n (held q) \<and> held q' = drop n (held q)"
begin

text \<open>What was held and accepted comes out in the same order, and the rest is still held.\<close>

lemma stream: "ok q \<Longrightarrow> fifo_run put get q ops = (inn, out, q') \<Longrightarrow> ok q' \<and> held q @ inn = out @ held q'"
proof (induction ops arbitrary: q inn out)
  case (Cons op ops)
  show ?case
  proof (cases op)
    case (Put b)
    obtain n q1 where p: "put q b = (n, q1)" by force
    obtain i o1 q2 where r: "fifo_run put get q1 ops = (i, o1, q2)" using prod_cases3 by blast
    from put_ok [OF Cons.prems(1) p] Cons.IH [of q1 i o1] Cons.prems(2) Put p r show ?thesis by auto
  next
    case (Get n)
    obtain b q1 where g: "get q n = (b, q1)" by force
    obtain i o1 q2 where r: "fifo_run put get q1 ops = (i, o1, q2)" using prod_cases3 by blast
    from get_ok [OF Cons.prems(1) g] Cons.IH [of q1 i o1] Cons.prems(2) Get g r
    have "ok q' \<and> out = take n (held q) @ o1 \<and> drop n (held q) @ inn = o1 @ held q'" by auto
    then show ?thesis by (metis append.assoc append_take_drop_id)
  qed
qed simp

end

text \<open>The queue with the answers its allocations will get.\<close>

definition bufq_put :: "bufq \<times> bool list \<Rightarrow> bytes \<Rightarrow> nat \<times> bufq \<times> bool list" where
  "bufq_put s b = (case Curl_bufq_write (snd s) (fst s) b of (_, n, q', al') \<Rightarrow> (n, q', al'))"

definition bufq_get :: "bufq \<times> bool list \<Rightarrow> nat \<Rightarrow> bytes \<times> bufq \<times> bool list" where
  "bufq_get s n = (case Curl_bufq_read (fst s) n of (_, b, q') \<Rightarrow> (b, q', snd s))"

interpretation bq: byte_fifo bufq_put bufq_get "\<lambda>s. bufq_bytes (fst s)" "\<lambda>s. bufq_ok (fst s)"
proof
  fix s s' :: "bufq \<times> bool list" and b n
  assume ok: "bufq_ok (fst s)"
  show "bufq_ok (fst s') \<and> n \<le> length b \<and> bufq_bytes (fst s') = bufq_bytes (fst s) @ take n b"
    if "bufq_put s b = (n, s')"
  proof -
    obtain r k q' al' where w: "bufq_write_loop (snd s) (fst s) b 0 = (r, k, q', al')"
      using prod_cases4 by blast
    with that have "n = k" "s' = (q', al')" by (simp_all add: bufq_put_def Curl_bufq_write_def)
    then show ?thesis using bufq_write_loop_ok [OF ok w] by simp
  qed
  show "bufq_ok (fst s') \<and> b = take n (bufq_bytes (fst s)) \<and> bufq_bytes (fst s') = drop n (bufq_bytes (fst s))"
    if "bufq_get s n = (b, s')"
  proof -
    obtain bs q' where r: "bufq_read_loop (fst s) n [] = (bs, q')" by force
    with that have "b = bs" "s' = (q', snd s)" by (simp_all add: bufq_get_def Curl_bufq_read_def)
    then show ?thesis using bufq_read_loop_ok [OF ok r] by simp
  qed
qed

lemma bufq_ok_init: "0 < csize \<Longrightarrow> 0 < cmax \<Longrightarrow> bufq_ok (Curl_bufq_init csize cmax)"
    "bufq_bytes (Curl_bufq_init csize cmax) = []"
  by (simp_all add: bufq_ok_def bufq_base_def Curl_bufq_init_def bufq_init_def bufq_bytes_def)

section \<open>Properties\<close>

text \<open>
  C15: the chunk queue is a byte queue.  Over any sequence of writes and reads, with any
  pattern of failed allocations, the bytes read followed by the bytes still in the queue are
  the bytes that were in it followed by the bytes accepted, in order: none is lost, repeated
  or reordered at a chunk boundary.
\<close>

theorem bufq_is_fifo:
  assumes "bufq_ok q" and "fifo_run bufq_put bufq_get (q, al) ops = (inn, out, (q', al'))"
  shows "bufq_ok q' \<and> bufq_bytes q @ inn = out @ bufq_bytes q'"
  using bq.stream [of "(q, al)" ops inn out "(q', al')"] assms by simp

theorem bufq_is_fifo_witness:
  "\<exists>inn out q' al'. fifo_run bufq_put bufq_get (Curl_bufq_init 2 3, [True, True])
      [Put ''abcde'', Get 3, Put ''fg''] = (inn, out, (q', al')) \<and> inn = out @ bufq_bytes q'"
proof -
  obtain inn out q' al' where r: "fifo_run bufq_put bufq_get (Curl_bufq_init 2 3, [True, True])
      [Put ''abcde'', Get 3, Put ''fg''] = (inn, out, (q', al'))"
    using prod_cases4 by blast
  have "bufq_ok (Curl_bufq_init 2 3)" by (rule bufq_ok_init) simp_all
  from bufq_is_fifo [OF this r] r show ?thesis by (simp add: bufq_ok_init(2))
qed

text \<open>
  With a hard limit the queue never holds more than \<open>max_chunks\<close> chunks' worth of
  bytes, a write stops short only when all chunks are in use or memory is out, and it reports
  \<open>CURLE_AGAIN\<close> only when it took nothing.
\<close>

lemma bufq_write_limits:
  assumes "bufq_ok q" and "\<not> opt_soft_limit q" and "Curl_bufq_write al q buf = (res, n, q', al')"
  shows "length (bufq_bytes q') \<le> max_chunks q * chunk_size q
    \<and> bufq_bytes q' = bufq_bytes q @ take n buf
    \<and> (res = CURLE_AGAIN \<longrightarrow> n = 0)
    \<and> (n < length buf \<longrightarrow> res = CURLE_OUT_OF_MEMORY \<or> chunk_count q' = max_chunks q)"
proof -
  note w = bufq_write_loop_ok [OF assms(1) assms(3) [unfolded Curl_bufq_write_def]]
  have ok: "bufq_ok q'" and opts: "max_chunks q' = max_chunks q" "chunk_size q' = chunk_size q"
      "\<not> opt_soft_limit q'"
    using w assms(2) by (auto simp: same_opts_def)
  have "list_all (chunk_ok sz) cs \<Longrightarrow> length (concat (map chunk_peek cs)) \<le> length cs * sz" for cs sz
    by (induction cs) (auto simp: length_chunk_peek chunk_ok_def chunk_len_def intro: le_trans add_mono)
  moreover have "list_all (chunk_ok (chunk_size q')) (heads q')" "length (heads q') \<le> max_chunks q'"
    using ok opts(3) by (auto simp: bufq_ok_def bufq_base_def)
  ultimately have "length (bufq_bytes q') \<le> max_chunks q * chunk_size q"
    using opts by (metis bufq_bytes_def le_trans mult_le_mono1)
  moreover have "chunk_count q' \<le> max_chunks q'" using ok opts(3) by (simp add: bufq_ok_def bufq_base_def)
  ultimately show ?thesis using w opts by auto
qed

text \<open>
  Passing data through the queue to a writer.  Whatever the writer takes at each call, the
  bytes it got followed by the bytes still queued are the bytes that were queued followed by
  the part of the new data that was accepted.
\<close>

lemma bufq_write_pass_stream:
  assumes "bufq_ok q" and "Curl_bufq_write_pass al as q buf = Some (res, n, sent, q')"
    and "res \<noteq> CURLE_OUT_OF_MEMORY"
  shows "bufq_ok q' \<and> n \<le> length buf \<and> sent @ bufq_bytes q' = bufq_bytes q @ take n buf"
  using bufq_write_pass_loop_ok [OF assms(1) assms(2) [unfolded Curl_bufq_write_pass_def] assms(3)]
  by simp

end
