(* ===== verification/Base64.thy ===== *)
theory Base64
  imports Gurl_Prelude
begin

unbundle bit_operations_syntax

text \<open>
  The Base64 encoder and decoder of \<^verbatim>\<open>lib/curlx/base64.c\<close>, with the two alphabets, the
  decode table and the bit operations of the source.  Bytes enter the arithmetic as their
  codes; the accumulator of the decoder stays below \<open>2\<^sup>2\<^sup>4\<close>, so the 32-bit type it has in
  the source does not show.  The allocation is a truth value.
\<close>

section \<open>Tables\<close>

definition curlx_base64encdec :: bytes where
  "curlx_base64encdec = ''ABCDEFGHIJKLMNOPQRSTUVWXYZabcdefghijklmnopqrstuvwxyz0123456789+/''"

definition base64url :: bytes where
  "base64url = ''ABCDEFGHIJKLMNOPQRSTUVWXYZabcdefghijklmnopqrstuvwxyz0123456789-_''"

definition decodetable :: "nat list" where
  "decodetable =
     [62,  255, 255, 255, 63,  52,  53, 54, 55, 56, 57, 58, 59, 60, 61, 255,
      255, 255, 255, 255, 255, 255, 0,  1,  2,  3,  4,  5,  6,  7,  8,  9,
      10,  11,  12,  13,  14,  15,  16, 17, 18, 19, 20, 21, 22, 23, 24, 25,
      255, 255, 255, 255, 255, 255, 26, 27, 28, 29, 30, 31, 32, 33, 34, 35,
      36,  37,  38,  39,  40,  41,  42, 43, 44, 45, 46, 47, 48, 49, 50, 51]"

definition CURL_MAX_BASE64_INPUT :: nat where "CURL_MAX_BASE64_INPUT = 16000000"

text \<open>\<open>lookup\<close>: 0xff everywhere, with \<open>decodetable\<close> copied in from the plus sign on.\<close>

definition b64_lookup :: "char \<Rightarrow> nat" where
  "b64_lookup c =
     (if 43 \<le> code_of c \<and> code_of c < 43 + length decodetable
      then decodetable ! (code_of c - 43) else 255)"

section \<open>Encoding\<close>

abbreviation tab :: "bytes \<Rightarrow> nat \<Rightarrow> char" where
  "tab t k \<equiv> t ! k"

fun b64_encode_loop :: "bytes \<Rightarrow> bytes \<Rightarrow> bytes \<Rightarrow> bytes" where
  "b64_encode_loop t padd (a # b # c # rest) =
     (let i0 = code_of a; i1 = code_of b; i2 = code_of c in
      [tab t (drop_bit 2 i0),
       tab t (push_bit 4 (i0 AND 0x03) OR drop_bit 4 i1),
       tab t (push_bit 2 (i1 AND 0x0F) OR drop_bit 6 (i2 AND 0xC0)),
       tab t (i2 AND 0x3F)] @ b64_encode_loop t padd rest)"
| "b64_encode_loop t padd [] = []"
| "b64_encode_loop t padd [a] =
     (let i0 = code_of a in
      [tab t (drop_bit 2 i0), tab t (push_bit 4 (i0 AND 0x03))] @ padd @ padd)"
| "b64_encode_loop t padd [a, b] =
     (let i0 = code_of a; i1 = code_of b in
      [tab t (drop_bit 2 i0),
       tab t (push_bit 4 (i0 AND 0x03) OR drop_bit 4 (i1 AND 0xF0)),
       tab t (push_bit 2 (i1 AND 0x0F))] @ padd)"

text \<open>The pad byte 0 of the URL variant means no padding; \<open>None\<close> is the NULL output.\<close>

definition base64_encode :: "bool \<Rightarrow> bytes \<Rightarrow> bytes \<Rightarrow> bytes \<Rightarrow> CURLcode \<times> bytes option" where
  "base64_encode malloc_ok t padd inp =
     (if inp = [] then (CURLE_OK, None)
      else if length inp > CURL_MAX_BASE64_INPUT then (CURLE_TOO_LARGE, None)
      else if \<not> malloc_ok then (CURLE_OUT_OF_MEMORY, None)
      else (CURLE_OK, Some (b64_encode_loop t padd inp)))"

definition curlx_base64_encode :: "bool \<Rightarrow> bytes \<Rightarrow> CURLcode \<times> bytes option" where
  "curlx_base64_encode malloc_ok inp = base64_encode malloc_ok curlx_base64encdec ''='' inp"

definition curlx_base64url_encode :: "bool \<Rightarrow> bytes \<Rightarrow> CURLcode \<times> bytes option" where
  "curlx_base64url_encode malloc_ok inp = base64_encode malloc_ok base64url [] inp"

section \<open>Decoding\<close>

text \<open>The padding count, from the end of the string; \<open>None\<close> is more than two.\<close>

fun count_padding :: "bytes \<Rightarrow> nat \<Rightarrow> nat option" where
  "count_padding (c # rsrc) padding =
     (if c = CHR ''='' then (if padding + 1 > 2 then None else count_padding rsrc (padding + 1))
      else Some padding)"
| "count_padding [] padding = Some padding"

text \<open>The four symbols of a complete quantum.\<close>

fun quantum_value :: "nat \<Rightarrow> bytes \<Rightarrow> nat option" where
  "quantum_value x [] = Some x"
| "quantum_value x (c # cs) =
     (let val = b64_lookup c in
      if val = 255 then None else quantum_value (push_bit 6 x OR val) cs)"

fun decode_full :: "nat \<Rightarrow> bytes \<Rightarrow> (bytes \<times> bytes) option" where
  "decode_full 0 src = Some ([], src)"
| "decode_full (Suc n) src =
     (case quantum_value 0 (take 4 src) of
        None \<Rightarrow> None
      | Some x \<Rightarrow>
          (case decode_full n (drop 4 src) of
             None \<Rightarrow> None
           | Some (out, rest) \<Rightarrow>
               Some ([char_of (drop_bit 16 x AND 0xFF), char_of (drop_bit 8 x AND 0xFF), char_of (x AND 0xFF)]
                     @ out, rest)))"

text \<open>The padded quantum.\<close>

fun padded_value :: "nat \<Rightarrow> nat \<Rightarrow> nat \<Rightarrow> bytes \<Rightarrow> nat option" where
  "padded_value padding padc x [] = Some x"
| "padded_value padding padc x (c # cs) =
     (if c = CHR ''='' then
        (if padc + 1 > padding then None else padded_value padding (padc + 1) (push_bit 6 x) cs)
      else
        (let val = b64_lookup c in
         if val = 255 then None else padded_value padding padc (push_bit 6 x OR val) cs))"

definition decode_padded :: "nat \<Rightarrow> bytes \<Rightarrow> bytes option" where
  "decode_padded padding src =
     (if padding = 0 then Some []
      else case padded_value padding 0 0 (take 4 src) of
             None \<Rightarrow> None
           | Some x \<Rightarrow>
               Some (if padding = 1
                     then [char_of (drop_bit 16 x AND 0xFF), char_of (drop_bit 8 x AND 0xFF)]
                     else [char_of (drop_bit 16 x AND 0xFF)]))"

definition curlx_base64_decode :: "bool \<Rightarrow> bytes \<Rightarrow> CURLcode \<times> bytes option" where
  "curlx_base64_decode malloc_ok s =
     (let src = takeWhile (\<lambda>c. c \<noteq> NUL) s; srclen = length src in
      if srclen = 0 \<or> srclen mod 4 \<noteq> 0 then (CURLE_BAD_CONTENT_ENCODING, None)
      else case count_padding (rev src) 0 of
             None \<Rightarrow> (CURLE_BAD_CONTENT_ENCODING, None)
           | Some padding \<Rightarrow>
               (let numQuantums = srclen div 4;
                    fullQuantums = numQuantums - (if padding \<noteq> 0 then 1 else 0)
                in if \<not> malloc_ok then (CURLE_OUT_OF_MEMORY, None)
                   else case decode_full fullQuantums src of
                          None \<Rightarrow> (CURLE_BAD_CONTENT_ENCODING, None)
                        | Some (out, rest) \<Rightarrow>
                            (case decode_padded padding rest of
                               None \<Rightarrow> (CURLE_BAD_CONTENT_ENCODING, None)
                             | Some lst \<Rightarrow> (CURLE_OK, Some (out @ lst)))))"

section \<open>Bits\<close>

lemma drop_high:
  "a < 256 \<Longrightarrow> drop_bit 6 (a AND 0xC0) = a div 64" "a < 256 \<Longrightarrow> drop_bit 4 (a AND 0xF0) = a div 16" for a :: nat
proof -
  assume a: "a < 256"
  have "drop_bit 6 (a AND 0xC0) = drop_bit 6 a AND 0x03" "drop_bit 4 (a AND 0xF0) = drop_bit 4 a AND 0x0F"
    unfolding drop_bit_and by simp_all
  then show "drop_bit 6 (a AND 0xC0) = a div 64" "drop_bit 4 (a AND 0xF0) = a div 16"
    using a by (simp_all add: and_masks drop_bit_eq_div)
qed

lemma code_of_char_of_mod [simp]: "char_of (code_of c mod 256) = c"
  by simp

section \<open>The alphabet is inverted by the table\<close>

lemma encdec_codes:
  "map code_of curlx_base64encdec = [65..<91] @ [97..<123] @ [48..<58] @ [43, 47]"
  by (simp add: curlx_base64encdec_def upt_conv_Cons)

lemma length_encdec [simp]: "length curlx_base64encdec = 64"
  by (simp add: curlx_base64encdec_def)

lemma encdec_table:
  "list_all (\<lambda>k. let c = ([65..<91] @ [97..<123] @ [48..<58] @ [43, 47]) ! k in
       43 \<le> c \<and> c < 43 + length decodetable \<and> decodetable ! (c - 43) = k \<and> c \<noteq> 61) [0..<64]"
  by code_simp

lemma encdec_inverse:
  assumes "k < 64"
  shows "b64_lookup (curlx_base64encdec ! k) = k" and "curlx_base64encdec ! k \<noteq> CHR ''=''"
    and "curlx_base64encdec ! k \<noteq> NUL"
proof -
  let ?c = "code_of (curlx_base64encdec ! k)"
  have "?c = ([65..<91] @ [97..<123] @ [48..<58] @ [43, 47]) ! k"
    using assms encdec_codes by (metis length_encdec nth_map)
  then have "43 \<le> ?c \<and> ?c < 43 + length decodetable \<and> decodetable ! (?c - 43) = k \<and> ?c \<noteq> 61"
    using encdec_table assms by (simp add: list_all_iff Let_def)
  then show "b64_lookup (curlx_base64encdec ! k) = k" "curlx_base64encdec ! k \<noteq> CHR ''=''"
    "curlx_base64encdec ! k \<noteq> NUL"
    by (auto simp: b64_lookup_def)
qed

section \<open>Quantums\<close>

lemma quantum_arith:
  assumes "a < 256" "b < 256" "c < (256::nat)"
  shows "((a div 4 * 64 + (a mod 4 * 16 + b div 16)) * 64 + (b mod 16 * 4 + c div 64)) * 64 + c mod 64
    = a * 65536 + b * 256 + c"
proof -
  have *: "((p * 64 + (q * 16 + r)) * 64 + (s * 4 + t)) * 64 + u
      = (p * 4 + q) * 65536 + (r * 16 + s) * 256 + (t * 64 + u)" for p q r s t u :: nat
    by (simp add: distrib_right)
  show ?thesis unfolding * by simp
qed

lemma sextets:
  assumes "a < 256" "b < 256" "c < (256::nat)"
  shows "drop_bit 2 a = a div 4" "a div 4 < 64"
    and "push_bit 4 (a AND 0x03) OR drop_bit 4 b = a mod 4 * 16 + b div 16" "a mod 4 * 16 + b div 16 < 64"
    and "push_bit 2 (b AND 0x0F) OR drop_bit 6 (c AND 0xC0) = b mod 16 * 4 + c div 64"
    and "b mod 16 * 4 + c div 64 < 64" "c AND 0x3F = c mod 64" "c mod 64 < 64"
    and "push_bit 4 (a AND 0x03) OR drop_bit 4 (b AND 0xF0) = a mod 4 * 16 + b div 16"
    and "push_bit 4 (a AND 0x03) = a mod 4 * 16" "push_bit 2 (b AND 0x0F) = b mod 16 * 4"
proof -
  have m: "a mod 4 < 4" "b mod 16 < 16" "b div 16 < 16" "c div 64 < 4" using assms by simp_all
  show "drop_bit 2 a = a div 4" by (simp add: drop_bit_eq_div)
  show "a div 4 < 64" using assms by simp
  show "push_bit 4 (a AND 0x03) OR drop_bit 4 b = a mod 4 * 16 + b div 16"
    using push_or [of "b div 16" 4 "a mod 4"] m by (simp add: and_masks drop_bit_eq_div)
  show "push_bit 4 (a AND 0x03) OR drop_bit 4 (b AND 0xF0) = a mod 4 * 16 + b div 16"
    unfolding drop_high(2) [OF assms(2)] using push_or [of "b div 16" 4 "a mod 4"] m
    by (simp add: and_masks)
  show "push_bit 2 (b AND 0x0F) OR drop_bit 6 (c AND 0xC0) = b mod 16 * 4 + c div 64"
    unfolding drop_high(1) [OF assms(3)] using push_or [of "c div 64" 2 "b mod 16"] m
    by (simp add: and_masks)
  show "a mod 4 * 16 + b div 16 < 64" "b mod 16 * 4 + c div 64 < 64" using m by linarith+
qed (simp_all add: and_masks push_bit_eq_mult)

lemma or_step: "v < 64 \<Longrightarrow> push_bit 6 x OR v = x * 64 + v" for v :: nat
  using push_or [of v 6 x] by simp

lemma quantum_value_4:
  assumes "v0 < 64" "v1 < 64" "v2 < 64" "v3 < 64"
  defines "t \<equiv> curlx_base64encdec"
  shows "quantum_value 0 [t ! v0, t ! v1, t ! v2, t ! v3] = Some (((v0 * 64 + v1) * 64 + v2) * 64 + v3)"
  using assms(1-4) by (simp add: t_def encdec_inverse or_step Let_def)

lemma extract_bytes:
  assumes "x = a * 65536 + b * 256 + c" "a < 256" "b < 256" "c < (256::nat)"
  shows "drop_bit 16 x AND 0xFF = a" "drop_bit 8 x AND 0xFF = b" "x AND 0xFF = c"
proof -
  have "x = (a * 256 + b) * 256 + c" using assms(1) by simp
  then have "x mod 256 = c" using assms(4) by (metis mod_mult_self3 mod_less)
  moreover have "x div 65536 = a" "x div 256 = a * 256 + b" using assms by simp_all
  ultimately have "drop_bit 16 x AND 0xFF = a \<and> drop_bit 8 x AND 0xFF = b \<and> x AND 0xFF = c"
    using assms(2,3) by (simp add: and_masks drop_bit_eq_div)
  then show "drop_bit 16 x AND 0xFF = a" "drop_bit 8 x AND 0xFF = b" "x AND 0xFF = c"
    by simp_all
qed

lemma padded_value_eq:
  assumes "v0 < 64" "v1 < 64" "v2 < 64"
  defines "t \<equiv> curlx_base64encdec"
  shows "padded_value 1 0 0 [t ! v0, t ! v1, t ! v2, CHR ''=''] = Some (((v0 * 64 + v1) * 64 + v2) * 64)"
    and "padded_value 2 0 0 [t ! v0, t ! v1, CHR ''='', CHR ''=''] = Some (((v0 * 64 + v1) * 64) * 64)"
  using assms(1-3) by (simp_all add: t_def encdec_inverse or_step Let_def numeral_2_eq_2) (simp_all add: push_bit_eq_mult)

section \<open>Round trip\<close>

abbreviation enc :: "bytes \<Rightarrow> bytes" where
  "enc \<equiv> b64_encode_loop curlx_base64encdec ''=''"

lemma enc_3:
  "enc (a # b # c # s) =
     [curlx_base64encdec ! (code_of a div 4),
      curlx_base64encdec ! (code_of a mod 4 * 16 + code_of b div 16),
      curlx_base64encdec ! (code_of b mod 16 * 4 + code_of c div 64),
      curlx_base64encdec ! (code_of c mod 64)] @ enc s"
  using sextets [of "code_of a" "code_of b" "code_of c"] by (simp add: Let_def)

lemma enc_2:
  "enc [a, b] =
     [curlx_base64encdec ! (code_of a div 4),
      curlx_base64encdec ! (code_of a mod 4 * 16 + code_of b div 16),
      curlx_base64encdec ! (code_of b mod 16 * 4), CHR ''='']"
  using sextets [of "code_of a" "code_of b" 0] by (simp add: Let_def)

lemma enc_1:
  "enc [a] = [curlx_base64encdec ! (code_of a div 4), curlx_base64encdec ! (code_of a mod 4 * 16),
     CHR ''='', CHR ''='']"
  using sextets [of "code_of a" 0 0] by (simp add: Let_def)

lemmas enc_simps = enc_1 enc_2 enc_3

declare b64_encode_loop.simps(1,3,4) [simp del]

lemma sextet_bounds:
  "code_of a div 4 < 64" "code_of a mod 4 * 16 + code_of b div 16 < 64"
  "code_of b mod 16 * 4 + code_of c div 64 < 64" "code_of c mod 64 < 64"
  "code_of a mod 4 * 16 < 64" "code_of b mod 16 * 4 < 64"
  using sextets(2,4,6,8) [of "code_of a" "code_of b" "code_of c"] by auto

lemma list_by_threes [case_names Nil One Two Three]:
  assumes "P []" "\<And>a. P [a]" "\<And>a b. P [a, b]" "\<And>a b c s. P s \<Longrightarrow> P (a # b # c # s)"
  shows "P s"
proof (induction s rule: length_induct)
  case (1 s)
  show ?case
  proof (cases "3 \<le> length s")
    case True
    then obtain a b c r where "s = a # b # c # r"
      by (auto simp: Suc_le_length_iff numeral_3_eq_3)
    then show ?thesis using assms(4) 1 by simp
  next
    case False
    then have "s = [] \<or> (\<exists>a. s = [a]) \<or> (\<exists>a b. s = [a, b])"
      by (cases s; cases "tl s"; cases "tl (tl s)") auto
    then show ?thesis using assms(1-3) by auto
  qed
qed

lemma symbol_plain:
  "k < 64 \<Longrightarrow> (curlx_base64encdec ! k = NUL) = False" "k < 64 \<Longrightarrow> (NUL = curlx_base64encdec ! k) = False"
  "k < 64 \<Longrightarrow> (curlx_base64encdec ! k = CHR ''='') = False"
  using encdec_inverse(2,3) [of k] by metis+

lemma enc_length: "length (enc s) = (length s + 2) div 3 * 4"
proof (induction s rule: list_by_threes)
  case (Three a b c s)
  have "(length (a # b # c # s) + 2) div 3 = Suc ((length s + 2) div 3)" by simp
  then show ?case using Three by (simp add: enc_3)
qed (simp_all add: enc_simps)

lemma enc_no_NUL: "NUL \<notin> set (enc s)"
  by (induction s rule: list_by_threes) (simp_all add: enc_simps symbol_plain sextet_bounds)

definition enc_padding :: "nat \<Rightarrow> nat" where
  "enc_padding n = (if n mod 3 = 0 then 0 else 3 - n mod 3)"

lemma count_padding_append:
  "list_ex (\<lambda>c. c \<noteq> CHR ''='') xs \<Longrightarrow> count_padding (xs @ ys) p = count_padding xs p"
  by (induction xs arbitrary: p) auto

lemma count_padding_enc: "s \<noteq> [] \<Longrightarrow> count_padding (rev (enc s)) 0 = Some (enc_padding (length s))"
proof (induction s rule: list_by_threes)
  case (Three a b c s)
  show ?case
  proof (cases "s = []")
    case False
    have "hd (enc s) \<in> set (rev (enc s)) \<and> hd (enc s) \<noteq> CHR ''=''" using False
      by (induction s rule: list_by_threes) (simp_all add: enc_simps symbol_plain sextet_bounds)
    then have "list_ex (\<lambda>c. c \<noteq> CHR ''='') (rev (enc s))" unfolding list_ex_iff by blast
    then show ?thesis using Three False
      by (simp add: enc_3 count_padding_append enc_padding_def)
  qed (simp add: enc_3 symbol_plain sextet_bounds enc_padding_def)
qed (simp_all add: enc_simps symbol_plain sextet_bounds enc_padding_def)

lemma decode_full_enc:
  "decode_full (length s div 3) (enc s) = Some (take (length s div 3 * 3) s, enc (drop (length s div 3 * 3) s))"
proof (induction s rule: list_by_threes)
  case (Three a b c s)
  let ?x = "code_of a * 65536 + code_of b * 256 + code_of c"
  have three: "take (3 + k) (a # b # c # s) = a # b # c # take k s" "drop (3 + k) (a # b # c # s) = drop k s" for k
    by (simp_all add: numeral_3_eq_3)
  have "quantum_value 0 (take 4 (enc (a # b # c # s))) = Some ?x"
    using quantum_value_4 [OF sextet_bounds(1-4)] quantum_arith [of "code_of a" "code_of b" "code_of c"]
    by (simp add: enc_3 del: quantum_value.simps)
  moreover have "drop 4 (enc (a # b # c # s)) = enc s" by (simp add: enc_3)
  moreover have "length (a # b # c # s) div 3 = Suc (length s div 3)" by simp
  ultimately show ?case
    using Three extract_bytes [of ?x "code_of a" "code_of b" "code_of c"]
    by (simp del: length_Cons add: three)
qed simp_all

lemma decode_padded_enc:
  "decode_padded 2 (enc [a]) = Some [a]" "decode_padded 1 (enc [a, b]) = Some [a, b]"
proof -
  have "(code_of a div 4 * 64 + code_of a mod 4 * 16) * 64 * 64 = code_of a * 65536 + 0 * 256 + 0"
    using quantum_arith [of "code_of a" 0 0] by simp
  from extract_bytes(1) [OF this] show "decode_padded 2 (enc [a]) = Some [a]"
    using padded_value_eq(2) [OF sextet_bounds(1) sextet_bounds(5), of 0 a a]
    by (simp add: decode_padded_def enc_1 sextet_bounds del: padded_value.simps)
  have "((code_of a div 4 * 64 + (code_of a mod 4 * 16 + code_of b div 16)) * 64 + code_of b mod 16 * 4) * 64
      = code_of a * 65536 + code_of b * 256 + 0"
    using quantum_arith [of "code_of a" "code_of b" 0] by simp
  from extract_bytes(1,2) [OF this] show "decode_padded 1 (enc [a, b]) = Some [a, b]"
    using padded_value_eq(1) [OF sextet_bounds(1) sextet_bounds(2) sextet_bounds(6), of a a b b]
    by (simp add: decode_padded_def enc_2 del: padded_value.simps)
qed

lemma decode_padded_rest:
  assumes "length r = n mod 3" shows "decode_padded (enc_padding n) (enc r) = Some r"
proof -
  have "n mod 3 < 3" by simp
  with assms consider "r = []" "n mod 3 = 0" | a where "r = [a]" "n mod 3 = 1" | a b where "r = [a, b]" "n mod 3 = 2"
    by (cases r; cases "tl r"; cases "tl (tl r)") auto
  then show ?thesis
    by cases (simp_all add: enc_padding_def decode_padded_enc [simplified], simp add: decode_padded_def)
qed

lemma enc_quantums: "length (enc s) div 4 - (if enc_padding (length s) \<noteq> 0 then 1 else 0) = length s div 3"
proof -
  have "(n + 2) div 3 = n div 3 + (if n mod 3 = 0 then 0 else 1)" for n :: nat by presburger
  moreover have "n mod 3 = 0 \<longleftrightarrow> enc_padding n = 0" for n
    using mod_less_divisor [of 3 n] by (simp add: enc_padding_def not_le)
  ultimately show ?thesis by (simp add: enc_length)
qed

text \<open>
  C39: every non-empty byte sequence of at most \<open>CURL_MAX_BASE64_INPUT\<close> bytes, zero
  bytes included, is encoded by \<open>curlx_base64_encode\<close> to four symbols for every three
  bytes or part of three, and \<open>curlx_base64_decode\<close> gives back exactly the bytes.
\<close>

theorem base64_roundtrip:
  assumes "inp \<noteq> []" "length inp \<le> CURL_MAX_BASE64_INPUT"
  shows "\<exists>e. curlx_base64_encode True inp = (CURLE_OK, Some e) \<and> length e = (length inp + 2) div 3 * 4
     \<and> curlx_base64_decode True e = (CURLE_OK, Some inp)"
proof -
  let ?n = "length inp"
  have src: "takeWhile (\<lambda>c. c \<noteq> NUL) (enc inp) = enc inp"
    unfolding takeWhile_eq_all_conv using enc_no_NUL [of inp] by blast
  have "0 < ?n" using assms(1) by simp
  then have "0 < (?n + 2) div 3" by (simp add: div_greater_zero_iff Suc_le_eq)
  then have len: "length (enc inp) \<noteq> 0" "length (enc inp) mod 4 = 0"
    unfolding enc_length by (simp only: mult_eq_0_iff) simp_all
  have "length (drop (?n div 3 * 3) inp) = ?n mod 3" by (simp add: minus_div_mult_eq_mod)
  then have "curlx_base64_decode True (enc inp) = (CURLE_OK, Some inp)"
    unfolding curlx_base64_decode_def src Let_def count_padding_enc [OF assms(1)] option.case enc_quantums
    using len by (simp add: decode_full_enc decode_padded_rest)
  then show ?thesis using assms
    by (simp add: curlx_base64_encode_def base64_encode_def enc_length)
qed

theorem base64_roundtrip_witness:
  "\<exists>e. curlx_base64_encode True ''gurl'' = (CURLE_OK, Some e) \<and> length e = (length ''gurl'' + 2) div 3 * 4
     \<and> curlx_base64_decode True e = (CURLE_OK, Some ''gurl'')"
  by (rule base64_roundtrip) (simp_all add: CURL_MAX_BASE64_INPUT_def)

end
