(* ===== verification/Dynbuf.thy ===== *)
theory Dynbuf
  imports Gurl_Prelude
begin

text \<open>
  The growing byte buffer of \<^verbatim>\<open>lib/curlx/dynbuf.c\<close>.  \<open>bufr\<close> is the allocated block
  (\<open>None\<close> for NULL) with all its bytes, \<open>leng\<close> the length in use, \<open>allc\<close> the
  allocated size and \<open>toobig\<close> the limit.

  \<open>curlx_realloc\<close> is the parameter \<open>ralloc\<close>: given a size and the old block it returns
  a block or fails.  \<open>realloc_ok\<close> is its documented contract.
\<close>

type_synonym reallocator = "nat \<Rightarrow> bytes \<Rightarrow> bytes option"

definition realloc_ok :: "reallocator \<Rightarrow> bool" where
  "realloc_ok ralloc \<longleftrightarrow> (\<forall>n old p. ralloc n old = Some p \<longrightarrow>
     length p = n \<and> take (length old) p = take n old)"

record dynbuf =
  bufr :: "bytes option"
  leng :: nat
  allc :: nat
  toobig :: nat

definition MIN_FIRST_ALLOC :: nat where "MIN_FIRST_ALLOC = 32"

definition curlx_dyn_init :: "nat \<Rightarrow> dynbuf" where
  "curlx_dyn_init big = \<lparr>bufr = None, leng = 0, allc = 0, toobig = big\<rparr>"

definition curlx_dyn_free :: "dynbuf \<Rightarrow> dynbuf" where
  "curlx_dyn_free s = s\<lparr>bufr := None, leng := 0, allc := 0\<rparr>"

text \<open>The loop \<open>while(a < fit) a *= 2\<close>; it is entered with \<open>a > 0\<close> only.\<close>

function double_until :: "nat \<Rightarrow> nat \<Rightarrow> nat" where
  "double_until a fit = (if 0 < a \<and> a < fit then double_until (a * 2) fit else a)"
  by pat_completeness auto
termination
  by (relation "measure (\<lambda>(a, fit). fit - a)") auto

declare double_until.simps [simp del]

definition store_at :: "bytes \<Rightarrow> nat \<Rightarrow> bytes \<Rightarrow> bytes" where
  "store_at blk idx mem = take idx blk @ mem @ drop (idx + length mem) blk"

definition dyn_nappend :: "reallocator \<Rightarrow> dynbuf \<Rightarrow> bytes \<Rightarrow> CURLcode \<times> dynbuf" where
  "dyn_nappend ralloc s mem =
     (let len = length mem; idx = leng s; fit = len + idx + 1 in
      if fit > toobig s then (CURLE_TOO_LARGE, curlx_dyn_free s)
      else
        (let a = (if allc s = 0 then
                    (if MIN_FIRST_ALLOC > toobig s then toobig s
                     else if fit < MIN_FIRST_ALLOC then MIN_FIRST_ALLOC else fit)
                  else
                    (let d = double_until (allc s) fit in
                     if d > toobig s then toobig s else d));
             old = (case bufr s of None \<Rightarrow> [] | Some b \<Rightarrow> b);
             blk = (if a \<noteq> allc s then ralloc a old else Some old)
         in case blk of
              None \<Rightarrow> (CURLE_OUT_OF_MEMORY, curlx_dyn_free s)
            | Some p \<Rightarrow>
                (CURLE_OK, s\<lparr>bufr := Some (store_at (store_at p idx mem) (idx + len) [NUL]),
                             allc := a, leng := idx + len\<rparr>)))"

definition curlx_dyn_reset :: "dynbuf \<Rightarrow> dynbuf" where
  "curlx_dyn_reset s =
     (let s' = (if leng s \<noteq> 0 then s\<lparr>bufr := map_option (\<lambda>b. store_at b 0 [NUL]) (bufr s)\<rparr> else s)
      in s'\<lparr>leng := 0\<rparr>)"

definition curlx_dyn_tail :: "dynbuf \<Rightarrow> nat \<Rightarrow> CURLcode \<times> dynbuf" where
  "curlx_dyn_tail s trail =
     (if trail > leng s then (CURLE_BAD_FUNCTION_ARGUMENT, s)
      else if trail = leng s then (CURLE_OK, s)
      else if trail = 0 then (CURLE_OK, curlx_dyn_reset s)
      else (CURLE_OK,
            s\<lparr>bufr := map_option
                 (\<lambda>b. store_at (store_at b 0 (take trail (drop (leng s - trail) b))) trail [NUL]) (bufr s),
              leng := trail\<rparr>))"

definition curlx_dyn_addn :: "reallocator \<Rightarrow> dynbuf \<Rightarrow> bytes \<Rightarrow> CURLcode \<times> dynbuf" where
  "curlx_dyn_addn ralloc s mem = dyn_nappend ralloc s mem"

definition curlx_dyn_add :: "reallocator \<Rightarrow> dynbuf \<Rightarrow> bytes \<Rightarrow> CURLcode \<times> dynbuf" where
  "curlx_dyn_add ralloc s str = dyn_nappend ralloc s (takeWhile (\<lambda>c. c \<noteq> NUL) str)"

definition curlx_dyn_ptr :: "dynbuf \<Rightarrow> bytes option" where
  "curlx_dyn_ptr s = bufr s"

definition curlx_dyn_take :: "dynbuf \<Rightarrow> bytes option \<times> nat \<times> dynbuf" where
  "curlx_dyn_take s = (bufr s, leng s, s\<lparr>bufr := None, leng := 0, allc := 0\<rparr>)"

definition curlx_dyn_uptr :: "dynbuf \<Rightarrow> bytes option" where
  "curlx_dyn_uptr s = bufr s"

definition curlx_dyn_len :: "dynbuf \<Rightarrow> nat" where
  "curlx_dyn_len s = leng s"

definition curlx_dyn_setlen :: "dynbuf \<Rightarrow> nat \<Rightarrow> CURLcode \<times> dynbuf" where
  "curlx_dyn_setlen s n =
     (if n > leng s then (CURLE_BAD_FUNCTION_ARGUMENT, s)
      else (CURLE_OK, s\<lparr>leng := n, bufr := map_option (\<lambda>b. store_at b n [NUL]) (bufr s)\<rparr>))"

section \<open>Invariant and contents\<close>

text \<open>
  A live buffer has a block of the recorded size, within the limit, with room for the
  terminator, which is in place.
\<close>

definition dyn_ok :: "dynbuf \<Rightarrow> bool" where
  "dyn_ok s \<longleftrightarrow> (case bufr s of
       None \<Rightarrow> leng s = 0 \<and> allc s = 0
     | Some b \<Rightarrow> length b = allc s \<and> leng s < allc s \<and> allc s \<le> toobig s \<and> b ! leng s = NUL)"

definition dyn_bytes :: "dynbuf \<Rightarrow> bytes" where
  "dyn_bytes s = (case bufr s of None \<Rightarrow> [] | Some b \<Rightarrow> take (leng s) b)"

lemma double_until_ge: "0 < a \<Longrightarrow> fit \<le> double_until a fit \<and> a \<le> double_until a fit"
proof (induction a fit rule: double_until.induct)
  case (1 a fit)
  then show ?case by (cases "a < fit") (auto simp: double_until.simps [of a fit])
qed

text \<open>Doubling stops below twice the size needed: with the limit at half of \<open>SIZE_MAX\<close> it cannot overflow.\<close>

lemma double_until_less: "0 < a \<Longrightarrow> a < fit \<Longrightarrow> double_until a fit < 2 * fit"
proof (induction a fit rule: double_until.induct)
  case (1 a fit)
  then show ?case
    by (cases "a * 2 < fit") (auto simp: double_until.simps [of a fit] double_until.simps [of "a * 2" fit])
qed

lemma length_store_at: "idx + length mem \<le> length b \<Longrightarrow> length (store_at b idx mem) = length b"
  by (simp add: store_at_def)

lemma take_store_at: "idx \<le> length b \<Longrightarrow> take (idx + length mem) (store_at b idx mem) = take idx b @ mem"
  by (simp add: store_at_def)

lemma store_at_terminator:
  "n < length b \<Longrightarrow> store_at b n [NUL] ! n = NUL \<and> take n (store_at b n [NUL]) = take n b"
  by (simp add: store_at_def nth_append)

lemma dyn_ok_init: "dyn_ok (curlx_dyn_init big)" "dyn_bytes (curlx_dyn_init big) = []"
  by (simp_all add: dyn_ok_def dyn_bytes_def curlx_dyn_init_def)

lemma dyn_ok_free: "dyn_ok (curlx_dyn_free s)" "dyn_bytes (curlx_dyn_free s) = []"
    "toobig (curlx_dyn_free s) = toobig s"
  by (simp_all add: dyn_ok_def dyn_bytes_def curlx_dyn_free_def)

lemma dyn_bytes_length: "dyn_ok s \<Longrightarrow> length (dyn_bytes s) = leng s"
  by (auto simp: dyn_ok_def dyn_bytes_def split: option.splits)

text \<open>The size chosen for the block holds the data, and never exceeds the limit.\<close>

definition dyn_size :: "dynbuf \<Rightarrow> nat \<Rightarrow> nat" where
  "dyn_size s fit =
     (if allc s = 0 then
        (if MIN_FIRST_ALLOC > toobig s then toobig s
         else if fit < MIN_FIRST_ALLOC then MIN_FIRST_ALLOC else fit)
      else (let d = double_until (allc s) fit in if d > toobig s then toobig s else d))"

lemma dyn_size_bounds:
  assumes "fit \<le> toobig s" and "allc s \<le> toobig s"
  shows "fit \<le> dyn_size s fit" and "dyn_size s fit \<le> toobig s" and "allc s \<le> dyn_size s fit"
  using assms double_until_ge [of "allc s" fit]
  by (auto simp: dyn_size_def MIN_FIRST_ALLOC_def Let_def)

lemma dyn_nappend_cases:
  assumes "realloc_ok ralloc" and "dyn_ok s" and "dyn_nappend ralloc s mem = (res, s')"
  shows "dyn_ok s' \<and> toobig s' = toobig s
    \<and> (if res = CURLE_OK then dyn_bytes s' = dyn_bytes s @ mem else s' = curlx_dyn_free s)
    \<and> (res = CURLE_OK \<or> res = CURLE_TOO_LARGE \<or> res = CURLE_OUT_OF_MEMORY)
    \<and> (res = CURLE_TOO_LARGE \<longleftrightarrow> toobig s < length (dyn_bytes s) + length mem + 1)"
proof (cases "length mem + leng s + 1 > toobig s")
  case True
  then show ?thesis using assms(2,3) dyn_bytes_length [OF assms(2)] dyn_ok_free [of s]
    by (auto simp: dyn_nappend_def Let_def)
next
  case False
  let ?fit = "length mem + leng s + 1"
  let ?a = "dyn_size s ?fit"
  define old where "old = (case bufr s of None \<Rightarrow> [] | Some b \<Rightarrow> b)"
  define blk where "blk = (if ?a \<noteq> allc s then ralloc ?a old else Some old)"
  have old: "length old = allc s" "allc s \<le> toobig s" "leng s \<le> allc s" "dyn_bytes s = take (leng s) old"
    using assms(2) by (auto simp: dyn_ok_def dyn_bytes_def old_def split: option.splits)
  have a: "?fit \<le> ?a" "?a \<le> toobig s" "allc s \<le> ?a"
    using dyn_size_bounds [of ?fit s] False old(2) by auto
  have eq: "dyn_nappend ralloc s mem = (case blk of
       None \<Rightarrow> (CURLE_OUT_OF_MEMORY, curlx_dyn_free s)
     | Some p \<Rightarrow> (CURLE_OK, s\<lparr>bufr := Some (store_at (store_at p (leng s) mem) (leng s + length mem) [NUL]),
                             allc := ?a, leng := leng s + length mem\<rparr>))"
    unfolding dyn_nappend_def Let_def blk_def old_def dyn_size_def using False by simp
  show ?thesis
  proof (cases blk)
    case None
    then show ?thesis using eq assms(3) dyn_ok_free [of s] False dyn_bytes_length [OF assms(2)] by auto
  next
    case (Some p)
    have p: "length p = ?a" "take (leng s) p = take (leng s) old"
    proof -
      have *: "length p = ?a \<and> take (allc s) p = take (allc s) old"
      proof (cases "?a = allc s")
        case True
        then show ?thesis using Some old(1) by (simp add: blk_def)
      next
        case False
        then have "ralloc ?a old = Some p" using Some by (simp add: blk_def)
        then have "length p = ?a \<and> take (length old) p = take ?a old"
          using assms(1) unfolding realloc_ok_def by blast
        then show ?thesis using old(1) a(3) by simp
      qed
      then show "length p = ?a" by simp
      have "take (leng s) (take (allc s) p) = take (leng s) (take (allc s) old)" using * by simp
      then show "take (leng s) p = take (leng s) old" using old(3) by (simp add: min_absorb1)
    qed
    let ?q = "store_at p (leng s) mem"
    let ?n = "leng s + length mem"
    have q: "length ?q = ?a" "take ?n ?q = take (leng s) p @ mem"
      using p(1) a(1) by (simp_all add: length_store_at take_store_at)
    have "?n < length ?q" using q(1) a(1) by simp
    note t = store_at_terminator [OF this] length_store_at [of ?n "[NUL]" ?q]
    have "res = CURLE_OK" and s': "s' = s\<lparr>bufr := Some (store_at ?q ?n [NUL]), allc := ?a, leng := ?n\<rparr>"
      using eq Some assms(3) by auto
    moreover have "dyn_ok s'" using t q(1) a by (simp add: s' dyn_ok_def)
    moreover have "dyn_bytes s' = dyn_bytes s @ mem" using t q(2) p(2) old(4) by (simp add: s' dyn_bytes_def)
    ultimately show ?thesis using False dyn_bytes_length [OF assms(2)] by (simp add: s')
  qed
qed

lemma curlx_dyn_reset_ok: "dyn_ok s \<Longrightarrow> dyn_ok (curlx_dyn_reset s) \<and> dyn_bytes (curlx_dyn_reset s) = []"
  by (auto simp: dyn_ok_def dyn_bytes_def curlx_dyn_reset_def store_at_def Let_def split: option.splits)

lemma curlx_dyn_setlen_ok:
  assumes "dyn_ok s" and "n \<le> length (dyn_bytes s)"
  shows "\<exists>s'. curlx_dyn_setlen s n = (CURLE_OK, s') \<and> dyn_ok s' \<and> dyn_bytes s' = take n (dyn_bytes s)"
  using assms
  by (auto simp: dyn_ok_def dyn_bytes_def curlx_dyn_setlen_def store_at_def nth_append min_def
      split: option.splits)

lemma curlx_dyn_tail_ok:
  assumes "dyn_ok s" and "n \<le> length (dyn_bytes s)"
  shows "\<exists>s'. curlx_dyn_tail s n = (CURLE_OK, s') \<and> dyn_ok s'
    \<and> dyn_bytes s' = drop (length (dyn_bytes s) - n) (dyn_bytes s)"
proof -
  have len: "length (dyn_bytes s) = leng s" using dyn_bytes_length [OF assms(1)] .
  consider "n = leng s" | "n = 0" "0 < leng s" | "0 < n" "n < leng s" using assms(2) len by linarith
  then show ?thesis
  proof cases
    case 1
    then show ?thesis using assms len by (simp add: curlx_dyn_tail_def)
  next
    case 2
    then show ?thesis using assms curlx_dyn_reset_ok [OF assms(1)] len by (simp add: curlx_dyn_tail_def)
  next
    case 3
    then obtain b where b: "bufr s = Some b" "length b = allc s" "leng s < allc s" "allc s \<le> toobig s"
      using assms(1) by (auto simp: dyn_ok_def split: option.splits)
    let ?q = "store_at b 0 (take n (drop (leng s - n) b))"
    have tl: "length (take n (drop (leng s - n) b)) = n" using b 3 by simp
    have q: "length ?q = allc s" using b 3 tl by (subst length_store_at) auto
    have tq: "take n ?q = take n (drop (leng s - n) b)"
      using take_store_at [of 0 b "take n (drop (leng s - n) b)"] tl by simp
    have "n < length ?q" using q b 3 by simp
    note t = store_at_terminator [OF this] length_store_at [of n "[NUL]" ?q]
    have "take n (drop (leng s - n) b) = drop (leng s - n) (take (leng s) b)"
      using 3 by (simp add: drop_take)
    then show ?thesis using 3 b q t tq len
      by (simp add: curlx_dyn_tail_def dyn_ok_def dyn_bytes_def)
  qed
qed

section \<open>The interface its clients use\<close>

text \<open>
  A growable buffer: what an append does to the contents, and that a failed append empties
  the buffer.  A client that appends a list of pieces gets their concatenation, or an error
  and nothing.
\<close>

locale growable =
  fixes add :: "'b \<Rightarrow> bytes \<Rightarrow> CURLcode \<times> 'b" and contents :: "'b \<Rightarrow> bytes"
    and ok :: "'b \<Rightarrow> bool" and limit :: "'b \<Rightarrow> nat"
  assumes add_ok: "ok b \<Longrightarrow> add b mem = (res, b') \<Longrightarrow> ok b' \<and> limit b' = limit b"
    and add_contents: "ok b \<Longrightarrow> add b mem = (CURLE_OK, b') \<Longrightarrow> contents b' = contents b @ mem"
    and add_error: "ok b \<Longrightarrow> add b mem = (res, b') \<Longrightarrow> res \<noteq> CURLE_OK \<Longrightarrow>
      contents b' = [] \<and> res \<in> {CURLE_TOO_LARGE, CURLE_OUT_OF_MEMORY}"
    and add_large: "ok b \<Longrightarrow> add b mem = (res, b') \<Longrightarrow>
      res = CURLE_TOO_LARGE \<longleftrightarrow> limit b < length (contents b) + length mem + 1"
begin

fun add_all :: "'b \<Rightarrow> bytes list \<Rightarrow> CURLcode \<times> 'b" where
  "add_all b [] = (CURLE_OK, b)"
| "add_all b (m # ms) =
     (case add b m of (res, b') \<Rightarrow> if res \<noteq> CURLE_OK then (res, b') else add_all b' ms)"

lemma add_all_result:
  assumes "ok b" and "add_all b ms = (res, b')"
  shows "ok b' \<and> limit b' = limit b
    \<and> (if res = CURLE_OK then contents b' = contents b @ concat ms else contents b' = [])
    \<and> (ms \<noteq> [] \<and> limit b < length (contents b) + length (concat ms) + 1 \<longrightarrow> res \<noteq> CURLE_OK)"
  using assms
proof (induction ms arbitrary: b)
  case (Cons m ms)
  obtain r b1 where a: "add b m = (r, b1)" by force
  show ?case
  proof (cases "r = CURLE_OK")
    case True
    then have b1: "ok b1" "limit b1 = limit b" "contents b1 = contents b @ m"
      using a Cons.prems(1) add_ok add_contents by blast+
    have rest: "add_all b1 ms = (res, b')" using Cons.prems(2) a True by simp
    have "\<not> limit b < length (contents b) + length m + 1"
      using add_large [OF Cons.prems(1) a] True by simp
    with Cons.IH [OF b1(1) rest] b1 rest show ?thesis
      by (cases "ms = []") auto
  next
    case False
    then show ?thesis using Cons.prems a add_ok [OF Cons.prems(1) a] add_error [OF Cons.prems(1) a]
      by auto
  qed
qed simp

end

text \<open>
  A growable buffer that never runs out of memory: everything within the limit is stored.
\<close>

locale sure_growable = growable +
  assumes add_sure: "ok b \<Longrightarrow> add b mem = (res, b') \<Longrightarrow> res \<noteq> CURLE_OUT_OF_MEMORY"
begin

lemma add_fits:
  assumes "ok b" and "length (contents b) + length mem + 1 \<le> limit b"
  obtains b' where "add b mem = (CURLE_OK, b')" "ok b'" "limit b' = limit b" "contents b' = contents b @ mem"
proof -
  obtain res b' where a: "add b mem = (res, b')" by force
  then have "res = CURLE_OK"
    using add_error [OF assms(1) a] add_sure [OF assms(1) a] add_large [OF assms(1) a] assms(2) by auto
  then show thesis using that a add_ok [OF assms(1) a] add_contents [OF assms(1)] by blast
qed

lemma add_all_fits:
  assumes "ok b" and "length (contents b) + length (concat ms) + 1 \<le> limit b"
  shows "\<exists>b'. add_all b ms = (CURLE_OK, b') \<and> ok b' \<and> contents b' = contents b @ concat ms"
  using assms
proof (induction ms arbitrary: b)
  case (Cons m ms)
  from Cons.prems obtain b1 where "add b m = (CURLE_OK, b1)" "ok b1" "limit b1 = limit b"
      "contents b1 = contents b @ m"
    using add_fits [of b m] by force
  then show ?case using Cons.IH [of b1] Cons.prems by simp
qed simp

end

text \<open>The dynbuf is one, for every allocator that keeps its contract.\<close>

lemma dyn_growable:
  assumes "realloc_ok ralloc"
  shows "growable (curlx_dyn_addn ralloc) dyn_bytes dyn_ok toobig"
proof
  fix b b' mem res
  assume ok: "dyn_ok b"
  note c = dyn_nappend_cases [OF assms ok, of mem, folded curlx_dyn_addn_def]
  show "dyn_bytes b' = dyn_bytes b @ mem" if "curlx_dyn_addn ralloc b mem = (CURLE_OK, b')"
    using c [OF that] by simp
  assume add: "curlx_dyn_addn ralloc b mem = (res, b')"
  show "dyn_ok b' \<and> toobig b' = toobig b"
    and "res = CURLE_TOO_LARGE \<longleftrightarrow> toobig b < length (dyn_bytes b) + length mem + 1"
    using c [OF add] by auto
  show "dyn_bytes b' = [] \<and> res \<in> {CURLE_TOO_LARGE, CURLE_OUT_OF_MEMORY}" if "res \<noteq> CURLE_OK"
    using c [OF add] that dyn_ok_free(2) [of b] by auto
qed

definition realloc_total :: "reallocator \<Rightarrow> bool" where
  "realloc_total ralloc \<longleftrightarrow> (\<forall>n old. ralloc n old \<noteq> None)"

lemma dyn_sure_growable:
  assumes "realloc_ok ralloc" and "realloc_total ralloc"
  shows "sure_growable (curlx_dyn_addn ralloc) dyn_bytes dyn_ok toobig"
proof (intro sure_growable.intro sure_growable_axioms.intro dyn_growable [OF assms(1)])
  fix b b' mem res
  have t: "ralloc n old = None \<longleftrightarrow> False" for n old using assms(2) by (simp add: realloc_total_def)
  assume "curlx_dyn_addn ralloc b mem = (res, b')"
  then show "res \<noteq> CURLE_OUT_OF_MEMORY"
    by (auto simp: curlx_dyn_addn_def dyn_nappend_def Let_def t simp del: not_None_eq split: if_splits option.splits)
qed

text \<open>An allocator that never fails, and the buffer on it.\<close>

definition sure_realloc :: reallocator where
  "sure_realloc n old = Some (take n old @ replicate (n - length old) NUL)"

lemma sure_realloc_ok: "realloc_ok sure_realloc"
  by (auto simp: realloc_ok_def sure_realloc_def min_def)

lemma sure_realloc_total: "realloc_total sure_realloc"
  by (simp add: realloc_total_def sure_realloc_def)

interpretation dyn: sure_growable "curlx_dyn_addn sure_realloc" dyn_bytes dyn_ok toobig
  by (rule dyn_sure_growable [OF sure_realloc_ok sure_realloc_total])

section \<open>Properties\<close>

text \<open>
  Appending to a dynbuf.  Whatever the allocator does within its contract, an append
  keeps the invariant (block within the limit, terminator in place); it succeeds with the
  bytes added at the end, or fails and leaves the buffer empty, and it reports
  \<open>CURLE_TOO_LARGE\<close> exactly when the result with its terminator would exceed the limit.
\<close>

lemma dyn_append_exact:
  assumes "realloc_ok ralloc" and "dyn_ok s" and "curlx_dyn_addn ralloc s mem = (res, s')"
  shows "dyn_ok s' \<and> toobig s' = toobig s
    \<and> dyn_bytes s' = (if res = CURLE_OK then dyn_bytes s @ mem else [])
    \<and> (res = CURLE_TOO_LARGE \<longleftrightarrow> toobig s < length (dyn_bytes s) + length mem + 1)"
  using dyn_nappend_cases [OF assms(1,2) assms(3) [unfolded curlx_dyn_addn_def]] dyn_ok_free(2) [of s]
  by auto

text \<open>
  Shortening a dynbuf.  Setting a smaller length keeps the front, cutting to a tail keeps
  the end, and both keep the invariant; a request for more than there is is refused and
  changes nothing.
\<close>

lemma dyn_shorten_exact:
  assumes "dyn_ok s" and "n \<le> length (dyn_bytes s)" and "length (dyn_bytes s) < m"
  shows "(\<exists>s'. curlx_dyn_setlen s n = (CURLE_OK, s') \<and> dyn_ok s' \<and> dyn_bytes s' = take n (dyn_bytes s))
    \<and> (\<exists>s'. curlx_dyn_tail s n = (CURLE_OK, s') \<and> dyn_ok s'
          \<and> dyn_bytes s' = drop (length (dyn_bytes s) - n) (dyn_bytes s))
    \<and> curlx_dyn_setlen s m = (CURLE_BAD_FUNCTION_ARGUMENT, s)
    \<and> curlx_dyn_tail s m = (CURLE_BAD_FUNCTION_ARGUMENT, s)"
  using curlx_dyn_setlen_ok [OF assms(1,2)] curlx_dyn_tail_ok [OF assms(1,2)] assms(3)
    dyn_bytes_length [OF assms(1)]
  by (simp add: curlx_dyn_setlen_def curlx_dyn_tail_def)

end
