(* ===== verification/Escape.thy ===== *)
theory Escape
  imports Dynbuf Mprintf
begin

unbundle bit_operations_syntax

text \<open>
  URL escaping and unescaping and the hexadecimal printers of \<^verbatim>\<open>lib/escape.c\<close>.  An input
  string is the memory at the pointer, \<open>None\<close> for NULL; with a given length the first
  \<open>length\<close> bytes are read, with length 0 the bytes before the terminator.  The escaped
  string is built in a dynbuf, whose allocator is a parameter.  A decoded result is the bytes
  stored before the final terminator, so its length is the value stored through \<open>olen\<close>.
\<close>

definition INT_MAX :: int where "INT_MAX = 2147483647"

definition c_string :: "bytes \<Rightarrow> bytes" where
  "c_string mem = takeWhile (\<lambda>c. c \<noteq> NUL) mem"

definition input_bytes :: "bytes \<Rightarrow> nat \<Rightarrow> bytes" where
  "input_bytes str len = (if len \<noteq> 0 then take len str else c_string str)"

section \<open>Hexadecimal output\<close>

definition Curl_hexbyte :: "char \<Rightarrow> bytes" where
  "Curl_hexbyte val =
     [Curl_udigits ! drop_bit 4 (code_of val), Curl_udigits ! (code_of val AND 0x0F)]"

fun hexencode_loop :: "bytes \<Rightarrow> nat \<Rightarrow> bytes" where
  "hexencode_loop (c # src) olen =
     (if olen \<ge> 3
      then [Curl_ldigits ! drop_bit 4 (code_of c), Curl_ldigits ! (code_of c AND 0x0F)]
           @ hexencode_loop src (olen - 2)
      else [NUL])"
| "hexencode_loop [] olen = [NUL]"

text \<open>The bytes stored from \<open>out\<close> on.\<close>

definition Curl_hexencode :: "bytes option \<Rightarrow> nat \<Rightarrow> bytes" where
  "Curl_hexencode src olen =
     (case src of
        Some s \<Rightarrow> if s \<noteq> [] \<and> olen \<ge> 3 then hexencode_loop s olen else if olen \<noteq> 0 then [NUL] else []
      | None \<Rightarrow> if olen \<noteq> 0 then [NUL] else [])"

section \<open>Escaping\<close>

fun escape_loop :: "reallocator \<Rightarrow> dynbuf \<Rightarrow> bytes \<Rightarrow> bytes option" where
  "escape_loop ralloc d [] = curlx_dyn_ptr d"
| "escape_loop ralloc d (c # str) =
     (if ISUNRESERVED c then
        (case curlx_dyn_addn ralloc d [c] of
           (res, d') \<Rightarrow> if res \<noteq> CURLE_OK then None else escape_loop ralloc d' str)
      else
        (case curlx_dyn_addn ralloc d (CHR ''%'' # Curl_hexbyte c) of
           (res, d') \<Rightarrow> if res \<noteq> CURLE_OK then None else escape_loop ralloc d' str))"

definition curl_easy_escape :: "reallocator \<Rightarrow> bool \<Rightarrow> bytes option \<Rightarrow> int \<Rightarrow> bytes option" where
  "curl_easy_escape ralloc strdup_ok str len =
     (case str of
        None \<Rightarrow> None
      | Some s \<Rightarrow>
          if len < 0 then None
          else (let inp = input_bytes s (nat len) in
                if inp = [] then (if strdup_ok then Some [NUL] else None)
                else if length inp > SIZE_MAX div 16 then None
                else escape_loop ralloc (curlx_dyn_init (length inp * 3 + 1)) inp))"

definition curl_escape :: "reallocator \<Rightarrow> bool \<Rightarrow> bytes option \<Rightarrow> int \<Rightarrow> bytes option" where
  "curl_escape ralloc strdup_ok str len = curl_easy_escape ralloc strdup_ok str len"

section \<open>Unescaping\<close>

datatype urlreject = REJECT_NADA | REJECT_CTRL | REJECT_ZERO

definition rejected :: "urlreject \<Rightarrow> char \<Rightarrow> bool" where
  "rejected ctrl c \<longleftrightarrow> ctrl = REJECT_CTRL \<and> code_of c < 0x20 \<or> ctrl = REJECT_ZERO \<and> code_of c = 0"

definition hex_pair :: "char \<Rightarrow> char \<Rightarrow> char" where
  "hex_pair h l = char_of (nat (push_bit 4 (curlx_hexval h) OR curlx_hexval l))"

text \<open>One iteration: the byte decoded and what is left of the input.\<close>

definition urldecode_next :: "bytes \<Rightarrow> char \<times> bytes" where
  "urldecode_next str =
     (if hd str = CHR ''%'' \<and> length str > 2 \<and> ISXDIGIT (str ! 1) \<and> ISXDIGIT (str ! 2)
      then (hex_pair (str ! 1) (str ! 2), drop 3 str)
      else (hd str, drop 1 str))"

lemma urldecode_next_shorter [termination_simp]:
  "str \<noteq> [] \<Longrightarrow> (c, rest) = urldecode_next str \<Longrightarrow> length rest < length str"
  by (auto simp: urldecode_next_def split: if_splits)

function urldecode_loop :: "urlreject \<Rightarrow> bytes \<Rightarrow> bytes option" where
  "urldecode_loop ctrl str =
     (if str = [] then Some []
      else case urldecode_next str of
             (c, rest) \<Rightarrow>
               if rejected ctrl c then None
               else map_option (Cons c) (urldecode_loop ctrl rest))"
  by pat_completeness auto
termination
  by (relation "measure (\<lambda>(ctrl, str). length str)") (auto simp: urldecode_next_shorter)

declare urldecode_loop.simps [simp del]

definition Curl_urldecode :: "bool \<Rightarrow> bytes \<Rightarrow> nat \<Rightarrow> urlreject \<Rightarrow> CURLcode \<times> bytes option" where
  "Curl_urldecode malloc_ok str len ctrl =
     (if \<not> malloc_ok then (CURLE_OUT_OF_MEMORY, None)
      else case urldecode_loop ctrl (input_bytes str len) of
             None \<Rightarrow> (CURLE_URL_MALFORMAT, None)
           | Some ns \<Rightarrow> (CURLE_OK, Some ns))"

text \<open>
  The result and the value stored in \<open>outlength\<close>; \<open>want_len\<close> says that a non-NULL
  \<open>outlength\<close> is given, which then refuses results longer than an \<open>int\<close> can tell.
\<close>

definition curl_easy_unescape :: "bool \<Rightarrow> bytes option \<Rightarrow> int \<Rightarrow> bool \<Rightarrow> bytes option \<times> int option" where
  "curl_easy_unescape malloc_ok str inlength want_len =
     (case str of
        None \<Rightarrow> (None, None)
      | Some s \<Rightarrow>
          if inlength < 0 then (None, None)
          else case Curl_urldecode malloc_ok s (nat inlength) REJECT_NADA of
                 (res, out) \<Rightarrow>
                   if res \<noteq> CURLE_OK then (None, None)
                   else case out of
                          None \<Rightarrow> (None, None)
                        | Some ns \<Rightarrow>
                            if \<not> want_len then (Some ns, None)
                            else if int (length ns) \<le> INT_MAX then (Some ns, Some (int (length ns)))
                            else (None, None))"

definition curl_unescape :: "bool \<Rightarrow> bytes option \<Rightarrow> int \<Rightarrow> bytes option" where
  "curl_unescape malloc_ok str len = fst (curl_easy_unescape malloc_ok str len False)"

section \<open>Hexadecimal digits\<close>

lemma udigits_codes: "map code_of Curl_udigits = [48..<58] @ [65..<71]"
  by (simp add: Curl_udigits_def upt_conv_Cons)

lemma udigits_table:
  "list_all (\<lambda>n. ([48..<58] @ [65..<71]) ! n = (if n < 10 then 48 + n else 55 + n)) [0..<16]"
  by code_simp

lemma udigit:
  assumes "n < 16"
  shows "ISXDIGIT (Curl_udigits ! n)" "curlx_hexval (Curl_udigits ! n) = int n" "Curl_udigits ! n \<noteq> NUL"
    "ISUNRESERVED (Curl_udigits ! n)"
proof -
  have "n < length Curl_udigits" using assms by (simp add: Curl_udigits_def)
  from nth_map [OF this, of code_of] have c: "code_of (Curl_udigits ! n) = (if n < 10 then 48 + n else 55 + n)"
    using udigits_table assms unfolding udigits_codes list_all_iff by auto
  show x: "ISXDIGIT (Curl_udigits ! n)" using c assms by (simp add: ISXDIGIT_code)
  show "curlx_hexval (Curl_udigits ! n) = int n" using hexval_xdigit [OF x] c assms by simp
  show "Curl_udigits ! n \<noteq> NUL" using c by (auto split: if_splits)
  show "ISUNRESERVED (Curl_udigits ! n)"
    using c assms by (simp add: ISUNRESERVED_def ISALNUM_def ISDIGIT_def ISUPPER_def char_le_code)
qed

lemma nibbles: "drop_bit 4 (code_of c) < 16" "code_of c AND 0x0F < 16"
  using code_of_less [of c] by (simp_all add: drop_bit_eq_div and_masks less_mult_imp_div_less)

lemma hex_pair_hexbyte: "hex_pair (Curl_hexbyte c ! 0) (Curl_hexbyte c ! 1) = c"
proof -
  let ?h = "drop_bit 4 (code_of c)" and ?l = "code_of c AND 0x0F"
  have "push_bit 4 ?h OR ?l = code_of c"
    using push_or [of ?l 4 ?h] nibbles(2) by (simp add: and_masks drop_bit_eq_div)
  moreover have "push_bit 4 (int ?h) OR int ?l = int (push_bit 4 ?h OR ?l)"
    by (simp add: of_nat_or_eq of_nat_push_bit)
  ultimately show ?thesis by (simp add: hex_pair_def Curl_hexbyte_def udigit nibbles)
qed

lemma hexencode_loop_exact:
  "hexencode_loop src olen =
     concat (map (\<lambda>c. [Curl_ldigits ! drop_bit 4 (code_of c), Curl_ldigits ! (code_of c AND 0x0F)])
       (take ((olen - 1) div 2) src)) @ [NUL]"
proof (induction src olen rule: hexencode_loop.induct)
  case (1 c src olen)
  show ?case
  proof (cases "olen \<ge> 3")
    case True
    then have "(olen - 1) div 2 = Suc ((olen - 2 - 1) div 2)" by linarith
    then show ?thesis using 1 True by simp
  next
    case False
    then have "(olen - 1) div 2 = 0" by linarith
    then show ?thesis using False by simp
  qed
qed simp

section \<open>Escaping\<close>

text \<open>The reference: the concatenation of what each byte becomes.\<close>

definition esc_piece :: "char \<Rightarrow> bytes" where
  "esc_piece c = (if ISUNRESERVED c then [c] else CHR ''%'' # Curl_hexbyte c)"

definition escaped :: "bytes \<Rightarrow> bytes" where
  "escaped s = concat (map esc_piece s)"

lemma escape_loop_add_all:
  assumes "growable (curlx_dyn_addn ralloc) dyn_bytes dyn_ok toobig"
  shows "escape_loop ralloc d s =
     (case growable.add_all (curlx_dyn_addn ralloc) d (map esc_piece s) of
        (res, d') \<Rightarrow> if res \<noteq> CURLE_OK then None else curlx_dyn_ptr d')"
  by (induction s arbitrary: d) (auto simp: esc_piece_def growable.add_all.simps [OF assms] split: prod.splits)

lemma esc_piece_chars: "c \<in> set (esc_piece b) \<Longrightarrow> (ISUNRESERVED c \<or> c = CHR ''%'') \<and> c \<noteq> NUL"
  by (auto simp: esc_piece_def Curl_hexbyte_def udigit nibbles dest: sym split: if_splits)
    (auto simp: ISUNRESERVED_def ctype_defs char_le_code)

lemma escaped_chars: "c \<in> set (escaped s) \<Longrightarrow> (ISUNRESERVED c \<or> c = CHR ''%'') \<and> c \<noteq> NUL"
  using esc_piece_chars by (auto simp: escaped_def)

lemma escaped_length: "length (escaped s) \<le> 3 * length s"
  by (induction s) (auto simp: escaped_def esc_piece_def Curl_hexbyte_def)

lemma dyn_c_string:
  assumes "dyn_ok d" "dyn_bytes d \<noteq> []" "NUL \<notin> set (dyn_bytes d)"
  shows "\<exists>p. curlx_dyn_ptr d = Some p \<and> c_string p = dyn_bytes d"
proof -
  obtain p where p: "bufr d = Some p" "leng d < length p" "p ! leng d = NUL" "dyn_bytes d = take (leng d) p"
    using assms(1,2) by (auto simp: dyn_ok_def dyn_bytes_def split: option.splits)
  have "p = take (leng d) p @ NUL # drop (Suc (leng d)) p" using p(2,3) by (metis id_take_nth_drop)
  moreover have "\<forall>c\<in>set (take (leng d) p). c \<noteq> NUL" using assms(3) p(4) by auto
  moreover have "takeWhile (\<lambda>c. c \<noteq> NUL) (xs @ NUL # ys) = xs" if "\<forall>c\<in>set xs. c \<noteq> NUL" for xs ys
    using that by simp
  ultimately have "takeWhile (\<lambda>c. c \<noteq> NUL) p = take (leng d) p" by metis
  then show ?thesis using p by (simp add: curlx_dyn_ptr_def c_string_def)
qed

lemma escape_result:
  assumes "realloc_ok ralloc" "realloc_total ralloc" "s \<noteq> []" "length s \<le> SIZE_MAX div 16"
  shows "\<exists>p. escape_loop ralloc (curlx_dyn_init (length s * 3 + 1)) s = Some p \<and> c_string p = escaped s"
proof -
  let ?d = "curlx_dyn_init (length s * 3 + 1)"
  note g = dyn_sure_growable [OF assms(1,2)]
  have "length (dyn_bytes ?d) + length (concat (map esc_piece s)) + 1 \<le> toobig ?d"
    using escaped_length [of s] unfolding dyn_ok_init escaped_def [symmetric] by (simp add: curlx_dyn_init_def)
  then obtain d' where d': "growable.add_all (curlx_dyn_addn ralloc) ?d (map esc_piece s) = (CURLE_OK, d')"
      "dyn_ok d'" "dyn_bytes d' = escaped s"
    using sure_growable.add_all_fits [OF g dyn_ok_init(1)] by (auto simp: dyn_ok_init escaped_def)
  moreover have "escaped s \<noteq> []" using assms(3) by (cases s) (simp_all add: escaped_def esc_piece_def)
  ultimately show ?thesis
    using dyn_c_string [of d'] escaped_chars
    by (fastforce simp: escape_loop_add_all [OF dyn_growable [OF assms(1)]])
qed

section \<open>Unescaping\<close>

text \<open>The bytes an input stands for, whatever the policy.\<close>

function pct_decode :: "bytes \<Rightarrow> bytes" where
  "pct_decode str = (if str = [] then [] else case urldecode_next str of (c, rest) \<Rightarrow> c # pct_decode rest)"
  by pat_completeness auto
termination
  by (relation "measure length") (auto simp: urldecode_next_shorter)

declare pct_decode.simps [simp del]

lemma urldecode_loop_policy:
  "urldecode_loop ctrl str =
     (if list_ex (rejected ctrl) (pct_decode str) then None else Some (pct_decode str))"
proof (induction ctrl str rule: urldecode_loop.induct)
  case (1 ctrl str)
  show ?case
  proof (cases "str = []")
    case True
    then show ?thesis by (simp add: urldecode_loop.simps pct_decode.simps)
  next
    case False
    obtain c rest where n: "urldecode_next str = (c, rest)" by force
    show ?thesis using 1 [OF False n [symmetric]] False n
      by (cases "rejected ctrl c") (simp_all add: urldecode_loop.simps [of ctrl str] pct_decode.simps [of str])
  qed
qed

lemma pct_decode_piece: "pct_decode (esc_piece c @ rest) = c # pct_decode rest"
proof (cases "ISUNRESERVED c")
  case True
  then have "c \<noteq> CHR ''%''" by (auto simp: ISUNRESERVED_def ctype_defs char_le_code)
  then show ?thesis using True
    by (simp add: pct_decode.simps [of "c # rest"] urldecode_next_def esc_piece_def)
next
  case False
  then show ?thesis using hex_pair_hexbyte [of c]
    by (simp add: pct_decode.simps [of "CHR ''%'' # _"] urldecode_next_def esc_piece_def
        Curl_hexbyte_def udigit nibbles numeral_3_eq_3)
qed

lemma pct_decode_escaped: "pct_decode (escaped s) = s"
proof (induction s)
  case Nil
  show ?case by (simp add: escaped_def pct_decode.simps)
next
  case (Cons c s)
  then show ?case using pct_decode_piece [of c "escaped s"] by (simp add: escaped_def)
qed

section \<open>Properties\<close>

text \<open>
  C40: escaping and unescaping.  When the allocator keeps its contract and does not fail,
  \<open>curl_easy_escape\<close> of any non-empty byte sequence, zero bytes included, returns a
  string; it consists of unreserved characters and percent signs, is at most three times as
  long as the input, and \<open>curl_easy_unescape\<close> of it returns the original bytes and their
  number.  The buffer limit set up front is therefore never hit.
\<close>

theorem escape_roundtrip:
  assumes "realloc_ok ralloc" "realloc_total ralloc" "s \<noteq> []" "int (length s) \<le> INT_MAX"
  shows "\<exists>p. curl_easy_escape ralloc True (Some s) (int (length s)) = Some p
     \<and> (\<forall>c. c \<in> set (c_string p) \<longrightarrow> ISUNRESERVED c \<or> c = CHR ''%'') \<and> length (c_string p) \<le> 3 * length s
     \<and> curl_easy_unescape True (Some p) 0 True = (Some s, Some (int (length s)))"
proof -
  have small: "length s \<le> SIZE_MAX div 16" using assms(4) by (simp add: INT_MAX_def SIZE_MAX_def)
  obtain p where p: "escape_loop ralloc (curlx_dyn_init (length s * 3 + 1)) s = Some p" "c_string p = escaped s"
    using escape_result [OF assms(1-3) small] by blast
  have "curl_easy_escape ralloc True (Some s) (int (length s)) = Some p"
    using p(1) small assms(3) by (simp add: curl_easy_escape_def input_bytes_def Let_def)
  moreover have "curl_easy_unescape True (Some p) 0 True = (Some s, Some (int (length s)))"
    using assms(4) by (simp add: curl_easy_unescape_def Curl_urldecode_def input_bytes_def p(2)
        urldecode_loop_policy pct_decode_escaped rejected_def list_ex_iff)
  ultimately show ?thesis using p(2) escaped_chars [of _ s] escaped_length [of s] by metis
qed

theorem escape_roundtrip_witness:
  "\<exists>p. curl_easy_escape sure_realloc True (Some ''a b'') (int (length ''a b'')) = Some p
     \<and> length (c_string p) \<le> 3 * length ''a b''
     \<and> curl_easy_unescape True (Some p) 0 True = (Some ''a b'', Some (int (length ''a b'')))"
  using escape_roundtrip [OF sure_realloc_ok sure_realloc_total, of "''a b''"] by (auto simp: INT_MAX_def)

text \<open>
  The policies of \<open>Curl_urldecode\<close>.  With memory at hand every input is decoded to
  \<open>pct_decode\<close> of its bytes, and the call fails, with \<open>CURLE_URL_MALFORMAT\<close> and no
  output, exactly when the policy forbids one of the decoded bytes: a control byte under
  \<open>REJECT_CTRL\<close>, a zero byte under \<open>REJECT_ZERO\<close>, nothing under \<open>REJECT_NADA\<close>.
\<close>

lemma urldecode_policy:
  "Curl_urldecode True str len ctrl =
     (if list_ex (\<lambda>c. ctrl = REJECT_CTRL \<and> code_of c < 32 \<or> ctrl = REJECT_ZERO \<and> c = NUL)
           (pct_decode (input_bytes str len))
      then (CURLE_URL_MALFORMAT, None) else (CURLE_OK, Some (pct_decode (input_bytes str len))))"
  by (simp add: Curl_urldecode_def urldecode_loop_policy rejected_def list_ex_iff)

text \<open>
  \<open>Curl_hexencode\<close> never stores more than \<open>olen\<close> bytes, ends what it stores with a
  terminator whenever there is room for one, and stores the pairs of lower-case digits of as
  many leading input bytes as fit before the terminator.
\<close>

lemma hexencode_fits:
  assumes "src \<noteq> []" "3 \<le> olen"
  shows "length (Curl_hexencode (Some src) olen) \<le> olen
     \<and> Curl_hexencode (Some src) olen =
        concat (map (\<lambda>c. [Curl_ldigits ! (code_of c div 16), Curl_ldigits ! (code_of c mod 16)])
          (take ((olen - 1) div 2) src)) @ [NUL]
     \<and> Curl_hexencode None olen = [NUL] \<and> Curl_hexencode (Some src) 0 = []"
proof -
  have pairs: "length (concat (map (\<lambda>c. [f c, g c]) xs)) = 2 * length xs"
    for f g :: "char \<Rightarrow> char" and xs :: bytes
    by (induction xs) simp_all
  have "2 * min (length src) ((olen - 1) div 2) + 1 \<le> olen" using assms(2) by linarith
  then show ?thesis using assms
    by (simp add: Curl_hexencode_def hexencode_loop_exact drop_bit_eq_div and_masks min.commute pairs)
qed

end
