(* ===== verification/Http_Chunks.thy ===== *)
theory Http_Chunks
  imports Dynbuf Mprintf
begin

text \<open>
  The decoder of HTTP/1.1 chunked transfer coding in \<^verbatim>\<open>lib/http_chunks.c\<close>:
  \<open>struct Curl_chunker\<close>, \<open>httpchunk_readwrite\<close> with one definition per state of its
  switch, and the client writer \<open>cw_chunked_write\<close> around it.

  The next writer (\<open>Curl_cwriter_write\<close> or \<open>Curl_client_write\<close>) and
  \<open>Curl_verify_header\<close> are parameters, as is the allocator of the trailer buffer; the state
  of the next writer is passed through explicitly.  The bytes of \<open>hexbuffer\<close> up to
  \<open>hexindex\<close> are the list \<open>hexbuffer\<close>.  \<open>datasize\<close> comes from a parser that returns no
  negative number and only decreases by what is there, so it is a natural number.
\<close>

section \<open>State\<close>

datatype ChunkyState =
    CHUNK_HEX | CHUNK_LF | CHUNK_DATA | CHUNK_POSTLF | CHUNK_STOP | CHUNK_TRAILER
  | CHUNK_TRAILER_CR | CHUNK_TRAILER_POSTCR | CHUNK_DONE | CHUNK_FAILED

datatype CHUNKcode =
    CHUNKE_OK | CHUNKE_TOO_LONG_HEX | CHUNKE_ILLEGAL_HEX | CHUNKE_BAD_CHUNK | CHUNKE_BAD_ENCODING
  | CHUNKE_OUT_OF_MEMORY | CHUNKE_PASSTHRU_ERROR

record Curl_chunker =
  datasize :: nat
  chstate :: ChunkyState
  last_code :: CHUNKcode
  trailer :: dynbuf
  hexbuffer :: bytes
  ignore_body :: bool

definition CHUNK_MAXNUM_LEN :: nat where "CHUNK_MAXNUM_LEN = 16"
definition DYN_H1_TRAILER :: nat where "DYN_H1_TRAILER = 4096"

text \<open>The flag word of a client write is the set of its bits.\<close>

datatype cwflag =
    CLIENTWRITE_BODY | CLIENTWRITE_INFO | CLIENTWRITE_HEADER | CLIENTWRITE_STATUS | CLIENTWRITE_CONNECT
  | CLIENTWRITE_1XX | CLIENTWRITE_TRAILER | CLIENTWRITE_EOS | CLIENTWRITE_0LEN

abbreviation CW_BODY :: "cwflag set" where "CW_BODY \<equiv> {CLIENTWRITE_BODY}"
abbreviation CW_TRAILER :: "cwflag set" where "CW_TRAILER \<equiv> {CLIENTWRITE_HEADER, CLIENTWRITE_TRAILER}"

record 'w chunk_env =
  cw_next :: "cwflag set \<Rightarrow> bytes \<Rightarrow> 'w \<Rightarrow> CURLcode \<times> 'w"
  verify_header :: "bytes \<Rightarrow> CURLcode"
  tr_alloc :: reallocator
  http_te_skip :: bool

definition Curl_httpchunk_init :: "bool \<Rightarrow> Curl_chunker" where
  "Curl_httpchunk_init ignore =
     \<lparr>datasize = 0, chstate = CHUNK_HEX, last_code = CHUNKE_OK,
      trailer = curlx_dyn_init DYN_H1_TRAILER, hexbuffer = [], ignore_body = ignore\<rparr>"

definition Curl_httpchunk_reset :: "Curl_chunker \<Rightarrow> bool \<Rightarrow> Curl_chunker" where
  "Curl_httpchunk_reset ch ignore =
     ch\<lparr>hexbuffer := [], chstate := CHUNK_HEX, last_code := CHUNKE_OK,
        trailer := curlx_dyn_reset (trailer ch), ignore_body := ignore\<rparr>"

definition Curl_httpchunk_free :: "Curl_chunker \<Rightarrow> Curl_chunker" where
  "Curl_httpchunk_free ch = ch\<lparr>trailer := curlx_dyn_free (trailer ch)\<rparr>"

definition Curl_httpchunk_is_done :: "Curl_chunker \<Rightarrow> bool" where
  "Curl_httpchunk_is_done ch \<longleftrightarrow> chstate ch = CHUNK_DONE"

definition chunk_failed :: "CHUNKcode \<Rightarrow> Curl_chunker \<Rightarrow> Curl_chunker" where
  "chunk_failed code ch = ch\<lparr>chstate := CHUNK_FAILED, last_code := code\<rparr>"

section \<open>The switch\<close>

text \<open>
  One round of the loop on a non-empty buffer: \<open>Some r\<close> is \<open>return r\<close>, \<open>None\<close> goes on;
  then the new state, the state of the next writer and how many bytes were consumed.
\<close>

type_synonym 'w round = "CURLcode option \<times> Curl_chunker \<times> 'w \<times> nat"

definition case_hex :: "Curl_chunker \<Rightarrow> 'w \<Rightarrow> bytes \<Rightarrow> 'w round" where
  "case_hex ch w buf =
     (if ISXDIGIT (hd buf) then
        (if length (hexbuffer ch) \<ge> CHUNK_MAXNUM_LEN
         then (Some CURLE_RECV_ERROR, chunk_failed CHUNKE_TOO_LONG_HEX ch, w, 0)
         else (None, ch\<lparr>hexbuffer := hexbuffer ch @ [hd buf]\<rparr>, w, 1))
      else if hexbuffer ch = []
      then (Some CURLE_RECV_ERROR, chunk_failed CHUNKE_ILLEGAL_HEX ch, w, 0)
      else
        (case curlx_str_hex (hexbuffer ch) CURL_OFF_T_MAX of
           (err, _, sz) \<Rightarrow>
             let ch' = ch\<lparr>datasize := nat sz\<rparr> in
             if err \<noteq> STRE_OK
             then (Some CURLE_RECV_ERROR, chunk_failed CHUNKE_ILLEGAL_HEX ch', w, 0)
             else (None, ch'\<lparr>chstate := CHUNK_LF\<rparr>, w, 0)))"

definition case_lf :: "Curl_chunker \<Rightarrow> 'w \<Rightarrow> bytes \<Rightarrow> 'w round" where
  "case_lf ch w buf =
     (None,
      (if hd buf = LF
       then (if datasize ch = 0 then ch\<lparr>chstate := CHUNK_TRAILER\<rparr> else ch\<lparr>chstate := CHUNK_DATA\<rparr>)
       else ch), w, 1)"

definition case_data :: "'w chunk_env \<Rightarrow> Curl_chunker \<Rightarrow> 'w \<Rightarrow> bytes \<Rightarrow> 'w round" where
  "case_data env ch w buf =
     (let piece = (if datasize ch < length buf then datasize ch else length buf);
          (result, w') = (if \<not> http_te_skip env \<and> \<not> ignore_body ch
                          then cw_next env CW_BODY (take piece buf) w else (CURLE_OK, w))
      in if result \<noteq> CURLE_OK then (Some result, chunk_failed CHUNKE_PASSTHRU_ERROR ch, w', 0)
         else
           (let ch' = ch\<lparr>datasize := datasize ch - piece\<rparr>
            in (None, (if datasize ch' = 0 then ch'\<lparr>chstate := CHUNK_POSTLF\<rparr> else ch'), w', piece)))"

definition case_postlf :: "Curl_chunker \<Rightarrow> 'w \<Rightarrow> bytes \<Rightarrow> 'w round" where
  "case_postlf ch w buf =
     (if hd buf = LF then (None, Curl_httpchunk_reset ch (ignore_body ch), w, 1)
      else if hd buf \<noteq> CR then (Some CURLE_RECV_ERROR, chunk_failed CHUNKE_BAD_CHUNK ch, w, 0)
      else (None, ch, w, 1))"

text \<open>The bytes of the trailer line, as \<open>Curl_verify_header\<close> and the writer see them.\<close>

definition case_trailer :: "'w chunk_env \<Rightarrow> Curl_chunker \<Rightarrow> 'w \<Rightarrow> bytes \<Rightarrow> 'w round" where
  "case_trailer env ch w buf =
     (if hd buf = CR \<or> hd buf = LF then
        (if curlx_dyn_ptr (trailer ch) \<noteq> None then
           (case curlx_dyn_addn (tr_alloc env) (trailer ch) [CR, LF] of
              (result, tr) \<Rightarrow>
                let ch = ch\<lparr>trailer := tr\<rparr> in
                if result \<noteq> CURLE_OK then (Some result, chunk_failed CHUNKE_OUT_OF_MEMORY ch, w, 0)
                else
                  (let line = dyn_bytes tr; result = verify_header env line in
                   if result \<noteq> CURLE_OK then (Some result, chunk_failed CHUNKE_BAD_CHUNK ch, w, 0)
                   else
                     (let (result, w') = (if \<not> http_te_skip env then cw_next env CW_TRAILER line w
                                          else (CURLE_OK, w))
                      in if result \<noteq> CURLE_OK
                         then (Some result, chunk_failed CHUNKE_PASSTHRU_ERROR ch, w', 0)
                         else (None, ch\<lparr>trailer := curlx_dyn_reset tr, chstate := CHUNK_TRAILER_CR\<rparr>, w',
                               if hd buf = LF then 0 else 1))))
         else (None, ch\<lparr>chstate := CHUNK_TRAILER_POSTCR\<rparr>, w, 0))
      else
        (case curlx_dyn_addn (tr_alloc env) (trailer ch) [hd buf] of
           (result, tr) \<Rightarrow>
             let ch = ch\<lparr>trailer := tr\<rparr> in
             if result \<noteq> CURLE_OK then (Some result, chunk_failed CHUNKE_OUT_OF_MEMORY ch, w, 0)
             else (None, ch, w, 1)))"

definition case_trailer_cr :: "Curl_chunker \<Rightarrow> 'w \<Rightarrow> bytes \<Rightarrow> 'w round" where
  "case_trailer_cr ch w buf =
     (if hd buf = LF then (None, ch\<lparr>chstate := CHUNK_TRAILER_POSTCR\<rparr>, w, 1)
      else (Some CURLE_RECV_ERROR, chunk_failed CHUNKE_BAD_CHUNK ch, w, 0))"

definition case_trailer_postcr :: "Curl_chunker \<Rightarrow> 'w \<Rightarrow> bytes \<Rightarrow> 'w round" where
  "case_trailer_postcr ch w buf =
     (if hd buf \<noteq> CR \<and> hd buf \<noteq> LF then (None, ch\<lparr>chstate := CHUNK_TRAILER\<rparr>, w, 0)
      else (None, ch\<lparr>chstate := CHUNK_STOP\<rparr>, w, if hd buf = CR then 1 else 0))"

definition case_stop :: "Curl_chunker \<Rightarrow> 'w \<Rightarrow> bytes \<Rightarrow> 'w round" where
  "case_stop ch w buf =
     (if hd buf = LF
      then (Some CURLE_OK, ch\<lparr>datasize := length buf - 1, chstate := CHUNK_DONE\<rparr>, w, 1)
      else (Some CURLE_RECV_ERROR, chunk_failed CHUNKE_BAD_CHUNK ch, w, 0))"

definition chunk_round :: "'w chunk_env \<Rightarrow> Curl_chunker \<Rightarrow> 'w \<Rightarrow> bytes \<Rightarrow> 'w round" where
  "chunk_round env ch w buf =
     (case chstate ch of
        CHUNK_HEX \<Rightarrow> case_hex ch w buf
      | CHUNK_LF \<Rightarrow> case_lf ch w buf
      | CHUNK_DATA \<Rightarrow> case_data env ch w buf
      | CHUNK_POSTLF \<Rightarrow> case_postlf ch w buf
      | CHUNK_TRAILER \<Rightarrow> case_trailer env ch w buf
      | CHUNK_TRAILER_CR \<Rightarrow> case_trailer_cr ch w buf
      | CHUNK_TRAILER_POSTCR \<Rightarrow> case_trailer_postcr ch w buf
      | CHUNK_STOP \<Rightarrow> case_stop ch w buf
      | CHUNK_DONE \<Rightarrow> (Some CURLE_OK, ch, w, 0)
      | CHUNK_FAILED \<Rightarrow> (Some CURLE_RECV_ERROR, ch, w, 0))"

lemmas case_defs = case_hex_def case_lf_def case_data_def case_postlf_def case_trailer_def
  case_trailer_cr_def case_trailer_postcr_def case_stop_def

section \<open>The loop ends\<close>

text \<open>
  A round that consumes nothing moves to a state of smaller rank for the same next byte.
\<close>

fun chunk_rank :: "ChunkyState \<Rightarrow> bytes \<Rightarrow> nat" where
  "chunk_rank CHUNK_HEX buf = 1"
| "chunk_rank CHUNK_DATA buf = 1"
| "chunk_rank CHUNK_TRAILER buf = (if hd buf = CR \<or> hd buf = LF then 2 else 0)"
| "chunk_rank CHUNK_TRAILER_POSTCR buf = 1"
| "chunk_rank _ buf = 0"

lemma chunk_round_progress:
  assumes "buf \<noteq> []" and "chunk_round env ch w buf = (None, ch', w', n)"
  shows "n \<le> length buf \<and> (n = 0 \<longrightarrow> chunk_rank (chstate ch') buf < chunk_rank (chstate ch) buf)"
  using assms
  by (cases "chstate ch")
    (auto simp: chunk_round_def case_defs Suc_le_eq Let_def split: if_splits prod.splits)

function httpchunk_loop ::
  "'w chunk_env \<Rightarrow> Curl_chunker \<Rightarrow> 'w \<Rightarrow> bytes \<Rightarrow> nat \<Rightarrow> CURLcode \<times> Curl_chunker \<times> 'w \<times> nat" where
  "httpchunk_loop env ch w buf consumed =
     (if buf = [] then (CURLE_OK, ch, w, consumed)
      else case chunk_round env ch w buf of
             (Some result, ch', w', n) \<Rightarrow> (result, ch', w', consumed + n)
           | (None, ch', w', n) \<Rightarrow> httpchunk_loop env ch' w' (drop n buf) (consumed + n))"
  by pat_completeness auto
termination
proof (relation "measures [\<lambda>(env, ch, w, buf, c). length buf, \<lambda>(env, ch, w, buf, c). chunk_rank (chstate ch) buf]",
    goal_cases)
  case 1
  show ?case by simp
next
  case (2 env ch w buf consumed x y ch' z w' n)
  then have "chunk_round env ch w buf = (None, ch', w', n)" by simp
  from chunk_round_progress [OF 2(1) this] 2(1) show ?case
    by (cases "n = 0") auto
qed

declare httpchunk_loop.simps [simp del]

definition httpchunk_readwrite ::
  "'w chunk_env \<Rightarrow> Curl_chunker \<Rightarrow> 'w \<Rightarrow> bytes \<Rightarrow> CURLcode \<times> Curl_chunker \<times> 'w \<times> nat" where
  "httpchunk_readwrite env ch w buf =
     (if chstate ch = CHUNK_DONE then (CURLE_OK, ch, w, 0)
      else if chstate ch = CHUNK_FAILED then (CURLE_RECV_ERROR, ch, w, 0)
      else
        (let (result, w') = (if http_te_skip env \<and> \<not> ignore_body ch
                             then cw_next env CW_BODY buf w else (CURLE_OK, w))
         in if result \<noteq> CURLE_OK then (result, chunk_failed CHUNKE_PASSTHRU_ERROR ch, w', 0)
            else httpchunk_loop env ch w' buf 0))"

definition Curl_httpchunk_read ::
  "'w chunk_env \<Rightarrow> Curl_chunker \<Rightarrow> 'w \<Rightarrow> bytes \<Rightarrow> CURLcode \<times> Curl_chunker \<times> 'w \<times> nat" where
  "Curl_httpchunk_read env ch w buf = httpchunk_readwrite env ch w buf"

section \<open>The client writer\<close>

definition cw_chunked_init :: Curl_chunker where
  "cw_chunked_init = Curl_httpchunk_init False"

definition cw_chunked_close :: "Curl_chunker \<Rightarrow> Curl_chunker" where
  "cw_chunked_close ch = Curl_httpchunk_free ch"

text \<open>
  The result, the chunker, the next writer and whether the download is now complete
  (\<open>data->req.download_done\<close>).
\<close>

definition cw_chunked_write ::
  "'w chunk_env \<Rightarrow> bool \<Rightarrow> Curl_chunker \<Rightarrow> 'w \<Rightarrow> bool \<Rightarrow> cwflag set \<Rightarrow> bytes \<Rightarrow>
   CURLcode \<times> Curl_chunker \<times> 'w \<times> bool" where
  "cw_chunked_write env no_body ch w download_done type buf =
     (if CLIENTWRITE_BODY \<notin> type
      then (case cw_next env type buf w of (result, w') \<Rightarrow> (result, ch, w', download_done))
      else
        (case httpchunk_readwrite env ch w buf of
           (result, ch', w', consumed) \<Rightarrow>
             if result \<noteq> CURLE_OK then (result, ch', w', download_done)
             else if chstate ch' = CHUNK_DONE then (CURLE_OK, ch', w', True)
             else if CLIENTWRITE_EOS \<in> type \<and> \<not> no_body
             then (CURLE_PARTIAL_FILE, ch', w', download_done)
             else (CURLE_OK, ch', w', download_done)))"

section \<open>How the stream is cut into buffers does not matter\<close>

text \<open>
  What the next writer promises for this: writing a body in two calls is writing it in one.
\<close>

locale joining_writer =
  fixes cwrite :: "cwflag set \<Rightarrow> bytes \<Rightarrow> 'w \<Rightarrow> CURLcode \<times> 'w"
  assumes write_join: "a \<noteq> [] \<Longrightarrow> b \<noteq> [] \<Longrightarrow> cwrite CW_BODY (a @ b) w =
    (case cwrite CW_BODY a w of (r, w') \<Rightarrow> if r \<noteq> CURLE_OK then (r, w') else cwrite CW_BODY b w')"

text \<open>
  Two chunkers that agree, up to the count of bytes, which has no meaning after the end and
  after an error.
\<close>

definition same_chunker :: "Curl_chunker \<Rightarrow> Curl_chunker \<Rightarrow> bool" where
  "same_chunker ch ch' \<longleftrightarrow> ch\<lparr>datasize := 0\<rparr> = ch'\<lparr>datasize := 0\<rparr>
     \<and> (chstate ch \<noteq> CHUNK_DONE \<longrightarrow> chstate ch \<noteq> CHUNK_FAILED \<longrightarrow> ch = ch')"

definition same_outcome ::
  "CURLcode \<times> Curl_chunker \<times> 'w \<times> nat \<Rightarrow> CURLcode \<times> Curl_chunker \<times> 'w \<times> nat \<Rightarrow> bool" where
  "same_outcome x y \<longleftrightarrow> (case (x, y) of ((r, ch, w, n), (r', ch', w', n')) \<Rightarrow>
     r = r' \<and> same_chunker ch ch' \<and> w = w' \<and> (r = CURLE_OK \<longrightarrow> n = n'))"

abbreviation live :: "Curl_chunker \<Rightarrow> bool" where
  "live ch \<equiv> chstate ch \<noteq> CHUNK_DONE \<and> chstate ch \<noteq> CHUNK_FAILED"

lemma same_chunker_refl [simp]: "same_chunker ch ch"
  by (simp add: same_chunker_def)

lemma same_chunker_state:
  assumes "same_chunker ch ch'" shows "chstate ch = chstate ch'"
proof -
  have "chstate (ch\<lparr>datasize := 0\<rparr>) = chstate (ch'\<lparr>datasize := 0\<rparr>)"
    using assms unfolding same_chunker_def by (simp only: simp_thms)
  then show ?thesis by simp
qed

lemma same_chunker_trans:
  assumes "same_chunker x y" and "same_chunker y z" shows "same_chunker x z"
proof -
  have "x\<lparr>datasize := 0\<rparr> = z\<lparr>datasize := 0\<rparr>"
    by (rule trans [OF conjunct1 [OF assms(1) [unfolded same_chunker_def]]
          conjunct1 [OF assms(2) [unfolded same_chunker_def]]])
  moreover have "x = z" if "chstate x \<noteq> CHUNK_DONE" "chstate x \<noteq> CHUNK_FAILED"
  proof -
    have "x = y" using conjunct2 [OF assms(1) [unfolded same_chunker_def]] that by blast
    then show ?thesis using conjunct2 [OF assms(2) [unfolded same_chunker_def]] that by blast
  qed
  ultimately show ?thesis unfolding same_chunker_def by (intro conjI impI)
qed

lemma same_outcome_refl [simp]: "same_outcome x x"
  by (cases x) (simp add: same_outcome_def)

lemma round_live:
  "live ch \<Longrightarrow> chunk_round env ch w buf = (None, ch', w', n) \<Longrightarrow> live ch'"
  by (cases "chstate ch")
    (auto simp: chunk_round_def case_defs Curl_httpchunk_reset_def Let_def split: if_splits prod.splits)

lemma round_return:
  "live ch \<Longrightarrow> chunk_round env ch w buf = (Some r, ch', w', n) \<Longrightarrow>
     chstate ch' = (if r = CURLE_OK then CHUNK_DONE else CHUNK_FAILED)"
  by (cases "chstate ch")
    (auto simp: chunk_round_def case_defs chunk_failed_def Let_def split: if_splits prod.splits)

text \<open>A round looks at one byte, unless it moves data or finds the end.\<close>

lemma round_append:
  assumes "a \<noteq> []" and "chstate ch \<noteq> CHUNK_STOP" and "chstate ch = CHUNK_DATA \<Longrightarrow> datasize ch \<le> length a"
  shows "chunk_round env ch w (a @ b) = chunk_round env ch w a"
  using assms by (cases "chstate ch") (simp_all add: chunk_round_def case_defs cong: if_cong)

text \<open>The data state in closed form.\<close>

definition body_write :: "'w chunk_env \<Rightarrow> Curl_chunker \<Rightarrow> bytes \<Rightarrow> 'w \<Rightarrow> CURLcode \<times> 'w" where
  "body_write env ch bs w =
     (if \<not> http_te_skip env \<and> \<not> ignore_body ch then cw_next env CW_BODY bs w else (CURLE_OK, w))"

definition data_left :: "Curl_chunker \<Rightarrow> nat \<Rightarrow> Curl_chunker" where
  "data_left ch n =
     (if datasize ch \<le> n then ch\<lparr>datasize := 0, chstate := CHUNK_POSTLF\<rparr>
      else ch\<lparr>datasize := datasize ch - n\<rparr>)"

lemma round_data:
  assumes "chstate ch = CHUNK_DATA"
  shows "chunk_round env ch w buf =
     (let p = min (datasize ch) (length buf); (r, w') = body_write env ch (take p buf) w in
      if r \<noteq> CURLE_OK then (Some r, chunk_failed CHUNKE_PASSTHRU_ERROR ch, w', 0)
      else (None, data_left ch p, w', p))"
proof -
  have "(if datasize ch < length buf then datasize ch else length buf) = min (datasize ch) (length buf)"
    by (simp add: min_def)
  then show ?thesis
    using assms by (auto simp: chunk_round_def case_data_def body_write_def data_left_def Let_def
        min_def split: prod.splits)
qed

lemma data_left_fields [simp]:
  "ignore_body (data_left ch n) = ignore_body ch" "ignore_body (ch\<lparr>datasize := m\<rparr>) = ignore_body ch"
  by (simp_all add: data_left_def)

lemma data_left_add: "n < datasize ch \<Longrightarrow> data_left (data_left ch n) m = data_left ch (n + m)"
  by (auto simp: data_left_def)

context joining_writer
begin

lemma body_write_join:
  assumes "cw_next env = cwrite" and "a \<noteq> []" and "b \<noteq> []" and "ignore_body ch' = ignore_body ch"
  shows "body_write env ch (a @ b) w =
    (case body_write env ch a w of (r, w') \<Rightarrow> if r \<noteq> CURLE_OK then (r, w') else body_write env ch' b w')"
  using assms(1,4) write_join [OF assms(2,3)] by (auto simp: body_write_def split: prod.splits)

lemma loop_data_append:
  assumes "cw_next env = cwrite" and "chstate ch = CHUNK_DATA" and "length a < datasize ch"
    and "a \<noteq> []" and "b \<noteq> []" and "body_write env ch a w = (CURLE_OK, w1)"
  shows "same_outcome (httpchunk_loop env ch w (a @ b) c)
    (httpchunk_loop env (data_left ch (length a)) w1 b (c + length a))"
proof -
  let ?ch = "data_left ch (length a)"
  let ?p = "min (datasize ?ch) (length b)"
  have ch1: "chstate ?ch = CHUNK_DATA" "datasize ?ch = datasize ch - length a"
    using assms(2,3) by (simp_all add: data_left_def)
  obtain r2 w2 where w2: "body_write env ?ch (take ?p b) w1 = (r2, w2)" by force
  have p: "min (datasize ch) (length (a @ b)) = length a + ?p" and ne: "take ?p b \<noteq> []"
    using assms(3,5) ch1 by auto
  then have tk: "take (min (datasize ch) (length (a @ b))) (a @ b) = a @ take ?p b" by simp
  have "body_write env ch (a @ take ?p b) w = (r2, w2)"
    using body_write_join [OF assms(1,4) ne, of ?ch ch w] assms(6) w2 by simp
  then have whole: "chunk_round env ch w (a @ b) = (if r2 \<noteq> CURLE_OK
       then (Some r2, chunk_failed CHUNKE_PASSTHRU_ERROR ch, w2, 0)
       else (None, data_left ch (length a + ?p), w2, length a + ?p))"
    unfolding round_data [OF assms(2)] tk Let_def p by simp
  have part: "chunk_round env ?ch w1 b = (if r2 \<noteq> CURLE_OK
       then (Some r2, chunk_failed CHUNKE_PASSTHRU_ERROR ?ch, w2, 0)
       else (None, data_left ch (length a + ?p), w2, ?p))"
    unfolding round_data [OF ch1(1)] Let_def w2 using data_left_add [OF assms(3)] by simp
  have "same_chunker (chunk_failed CHUNKE_PASSTHRU_ERROR ch) (chunk_failed CHUNKE_PASSTHRU_ERROR ?ch)"
    using assms(2,3) by (simp add: same_chunker_def chunk_failed_def data_left_def)
  then show ?thesis
    unfolding httpchunk_loop.simps [of env ch w "a @ b"] httpchunk_loop.simps [of env ?ch w1 b] whole part
    using assms(4,5) by (cases "r2 = CURLE_OK") (simp_all add: same_outcome_def [of "(_, _)"] add.assoc)
qed

lemma round_data_error:
  assumes "cw_next env = cwrite" and "chstate ch = CHUNK_DATA" and "length a < datasize ch"
    and "a \<noteq> []" and "b \<noteq> []" and "body_write env ch a w = (r, w1)" and "r \<noteq> CURLE_OK"
  shows "chunk_round env ch w (a @ b) = chunk_round env ch w a"
proof -
  have "take (min (datasize ch) (length (a @ b))) (a @ b) = a @ take (datasize ch - length a) b"
    using assms(3) by (auto simp: min_def)
  moreover have "take (datasize ch - length a) b \<noteq> []" using assms(3,5) by simp
  ultimately show ?thesis
    using body_write_join [OF assms(1,4), of "take (datasize ch - length a) b" ch ch w] assms(3,6,7)
    unfolding round_data [OF assms(2)] Let_def by (simp add: min_absorb2)
qed

text \<open>The loop on \<open>a @ b\<close> is the loop on \<open>a\<close> and, unless that has ended, the loop on \<open>b\<close>.\<close>

lemma loop_append:
  assumes "cw_next env = cwrite" and "live ch" and "httpchunk_loop env ch w a c = (r, ch', w', n)"
  shows "same_outcome (httpchunk_loop env ch w (a @ b) c)
    (if r \<noteq> CURLE_OK \<or> chstate ch' = CHUNK_DONE then (r, ch', w', n) else httpchunk_loop env ch' w' b n)"
  using assms
proof (induction env ch w a c rule: httpchunk_loop.induct)
  case (1 env ch w a c)
  show ?case
  proof (cases "a = [] \<or> b = []")
    case True
    then show ?thesis using 1(3,4) by (cases "a = []") (auto simp: httpchunk_loop.simps [of _ _ _ "[]"])
  next
    case False
    note loop_a = httpchunk_loop.simps [of env ch w a c]
    note loop_ab = httpchunk_loop.simps [of env ch w "a @ b" c]
    obtain q ch1 w1 m where rd: "chunk_round env ch w a = (q, ch1, w1, m)" by (metis prod_cases4)
    consider "chstate ch = CHUNK_STOP" | w2 where "chstate ch = CHUNK_DATA" "length a < datasize ch"
        "body_write env ch a w = (CURLE_OK, w2)"
      | "chunk_round env ch w (a @ b) = chunk_round env ch w a"
      using round_append [of a ch env w b] round_data_error [OF 1(2)] False by (cases "body_write env ch a w") force
    then show ?thesis
    proof cases
      case 1
      then show ?thesis using \<open>httpchunk_loop env ch w a c = (r, ch', w', n)\<close> False
        unfolding loop_a loop_ab
        by (auto simp: chunk_round_def case_stop_def same_outcome_def same_chunker_def split: if_splits)
    next
      case 2
      have "chunk_round env ch w a = (None, data_left ch (length a), w2, length a)"
        unfolding round_data [OF 2(1)] using 2(2,3) by (simp add: min_absorb2 Let_def)
      then have "r = CURLE_OK" "ch' = data_left ch (length a)" "w' = w2" "n = c + length a"
        using \<open>httpchunk_loop env ch w a c = (r, ch', w', n)\<close> False unfolding loop_a
        by (simp_all add: httpchunk_loop.simps [of _ _ _ "[]"])
      moreover have "chstate (data_left ch (length a)) \<noteq> CHUNK_DONE" using 2(1) by (simp add: data_left_def)
      ultimately show ?thesis using loop_data_append [OF 1(2) 2(1,2)] 2(3) False by simp
    next
      case 3
      show ?thesis
      proof (cases q)
        case (Some r0)
        then have rd': "chunk_round env ch w a = (Some r0, ch1, w1, m)" using rd by simp
        from round_return [OF 1(3) rd'] show ?thesis using rd' 1(4) False unfolding loop_a loop_ab 3
          by (auto split: if_splits)
      next
        case None
        have m: "m \<le> length a" using chunk_round_progress [of a env ch w ch1 w1 m] rd None False by simp
        have "httpchunk_loop env ch1 w1 (drop m a) (c + m) = (r, ch', w', n)"
          using 1(4) rd None False unfolding loop_a by simp
        then have "same_outcome (httpchunk_loop env ch1 w1 (drop m a @ b) (c + m))
            (if r \<noteq> CURLE_OK \<or> chstate ch' = CHUNK_DONE then (r, ch', w', n) else httpchunk_loop env ch' w' b n)"
          using 1(1) [of None "(ch1, w1, m)" ch1 "(w1, m)" w1 m] round_live [OF 1(3), of env w a ch1 w1 m]
            rd None False 1(2) by simp
        then show ?thesis unfolding loop_ab 3 rd None using m False by simp
      qed
    qed
  qed
qed

end

lemma loop_consumed:
  "httpchunk_loop env ch w buf (c + d) = (case httpchunk_loop env ch w buf c of (r, ch', w', n) \<Rightarrow> (r, ch', w', n + d))"
proof (induction env ch w buf c rule: httpchunk_loop.induct)
  case (1 env ch w buf c)
  show ?case
  proof (cases "buf = []")
    case True
    then show ?thesis by (simp add: httpchunk_loop.simps)
  next
    case False
    obtain q ch1 w1 m where rd: "chunk_round env ch w buf = (q, ch1, w1, m)" by (metis prod_cases4)
    show ?thesis
    proof (cases q)
      case None
      then show ?thesis using 1 [of None "(ch1, w1, m)" ch1 "(w1, m)" w1 m] rd False
        by (simp add: httpchunk_loop.simps [of env ch w buf] add.commute add.left_commute)
    qed (use rd False in \<open>simp add: httpchunk_loop.simps [of env ch w buf]\<close>)
  qed
qed

lemma loop_state:
  "live ch \<Longrightarrow> httpchunk_loop env ch w buf c = (r, ch', w', n) \<Longrightarrow> r \<noteq> CURLE_OK \<longleftrightarrow> chstate ch' = CHUNK_FAILED"
proof (induction env ch w buf c rule: httpchunk_loop.induct)
  case (1 env ch w buf c)
  show ?case
  proof (cases "buf = []")
    case True
    then show ?thesis using 1(2,3) by (auto simp: httpchunk_loop.simps)
  next
    case False
    obtain q ch1 w1 m where rd: "chunk_round env ch w buf = (q, ch1, w1, m)" by (metis prod_cases4)
    show ?thesis
    proof (cases q)
      case None
      then show ?thesis using 1(1) [of None "(ch1, w1, m)" ch1 "(w1, m)" w1 m] rd False 1(2,3)
          round_live [OF 1(2), of env w buf ch1 w1 m]
        by (simp add: httpchunk_loop.simps [of env ch w buf])
    next
      case (Some r0)
      then have rd': "chunk_round env ch w buf = (Some r0, ch1, w1, m)" using rd by simp
      from round_return [OF 1(2) rd'] rd' False 1(3) show ?thesis
        by (auto simp: httpchunk_loop.simps [of env ch w buf])
    qed
  qed
qed

text \<open>Feeding a sequence of buffers, up to the first error.\<close>

fun feed :: "'w chunk_env \<Rightarrow> Curl_chunker \<Rightarrow> 'w \<Rightarrow> bytes list \<Rightarrow> CURLcode \<times> Curl_chunker \<times> 'w" where
  "feed env ch w [] = (CURLE_OK, ch, w)"
| "feed env ch w (b # bs) =
     (case httpchunk_readwrite env ch w b of
        (r, ch', w', n) \<Rightarrow> if r \<noteq> CURLE_OK then (r, ch', w') else feed env ch' w' bs)"

lemma readwrite_live:
  "live ch \<Longrightarrow> \<not> http_te_skip env \<Longrightarrow> httpchunk_readwrite env ch w buf = httpchunk_loop env ch w buf 0"
  by (simp add: httpchunk_readwrite_def)

lemma feed_done: "chstate ch = CHUNK_DONE \<Longrightarrow> feed env ch w bs = (CURLE_OK, ch, w)"
  by (induction bs) (simp_all add: httpchunk_readwrite_def)

context joining_writer
begin

lemma feed_concat:
  assumes "cw_next env = cwrite" and "\<not> http_te_skip env" and "live ch"
    and "httpchunk_readwrite env ch w (concat bufs) = (r, ch1, w1, n)" and "feed env ch w bufs = (r2, ch2, w2)"
  shows "r = r2 \<and> w1 = w2 \<and> same_chunker ch1 ch2"
  using assms(3-5)
proof (induction bufs arbitrary: ch w r ch1 w1 n)
  case Nil
  then show ?case using assms(2) by (simp add: readwrite_live httpchunk_loop.simps)
next
  case (Cons b bs)
  obtain rb chb wb nb where b: "httpchunk_loop env ch w b 0 = (rb, chb, wb, nb)" by (metis prod_cases4)
  have ab: "same_outcome (r, ch1, w1, n) (if rb \<noteq> CURLE_OK \<or> chstate chb = CHUNK_DONE then (rb, chb, wb, nb)
      else httpchunk_loop env chb wb (concat bs) nb)"
    using loop_append [OF assms(1) Cons.prems(1) b, of "concat bs"] Cons.prems(2)
    by (simp add: readwrite_live Cons.prems(1) assms(2))
  have fd: "feed env ch w (b # bs) = (if rb \<noteq> CURLE_OK then (rb, chb, wb) else feed env chb wb bs)"
    using b by (simp add: readwrite_live Cons.prems(1) assms(2))
  show ?case
  proof (cases "rb \<noteq> CURLE_OK \<or> chstate chb = CHUNK_DONE")
    case True
    then have "feed env ch w (b # bs) = (rb, chb, wb)" using fd feed_done by (cases "rb = CURLE_OK") auto
    then show ?thesis using ab True Cons.prems(3) by (auto simp: same_outcome_def)
  next
    case False
    then have l: "live chb" using loop_state [OF Cons.prems(1) b] by auto
    obtain r3 ch3 w3 n3 where rest: "httpchunk_readwrite env chb wb (concat bs) = (r3, ch3, w3, n3)" by (metis prod_cases4)
    have "httpchunk_loop env chb wb (concat bs) nb = (r3, ch3, w3, n3 + nb)"
      using loop_consumed [of env chb wb "concat bs" 0 nb] rest l assms(2) by (simp add: readwrite_live)
    then have same: "r = r3" "same_chunker ch1 ch3" "w1 = w3" using ab False by (auto simp: same_outcome_def)
    have "r3 = r2 \<and> w3 = w2 \<and> same_chunker ch3 ch2"
      using Cons.IH [OF l rest] fd False Cons.prems(3) by simp
    then show ?thesis using same same_chunker_trans by blast
  qed
qed

end

section \<open>A client\<close>

text \<open>
  A client that keeps body and trailers, and refuses body bytes beyond a limit after taking
  the ones that fit.
\<close>

record client_out =
  out_body :: bytes
  out_trailers :: "bytes list"
  out_room :: nat

definition client_take :: "cwflag set \<Rightarrow> bytes \<Rightarrow> client_out \<Rightarrow> CURLcode \<times> client_out" where
  "client_take type bs w =
     (if CLIENTWRITE_BODY \<in> type
      then (if length bs \<le> out_room w then CURLE_OK else CURLE_WRITE_ERROR,
            w\<lparr>out_body := out_body w @ take (out_room w) bs, out_room := out_room w - length bs\<rparr>)
      else (CURLE_OK, w\<lparr>out_trailers := out_trailers w @ [bs]\<rparr>))"

interpretation client: joining_writer client_take
  by unfold_locales (auto simp: client_take_def)

section \<open>Invariant\<close>

text \<open>
  The hex digits stay within \<open>hexbuffer\<close>, which has room for one more byte, the announced
  size is one the parser can return, and the trailer buffer is in order.
\<close>

definition chunker_ok :: "Curl_chunker \<Rightarrow> bool" where
  "chunker_ok ch \<longleftrightarrow> length (hexbuffer ch) \<le> CHUNK_MAXNUM_LEN \<and> dyn_ok (trailer ch)
     \<and> (chstate ch \<noteq> CHUNK_DONE \<longrightarrow> int (datasize ch) \<le> CURL_OFF_T_MAX)"

lemma chunker_ok_init: "chunker_ok (Curl_httpchunk_init ignore)"
  by (simp add: chunker_ok_def Curl_httpchunk_init_def dyn_ok_init)

lemma str_hex_max:
  assumes "curlx_str_hex line CURL_OFF_T_MAX = (e, rest, v)" shows "int (nat v) \<le> CURL_OFF_T_MAX"
  using assms str_num_base_eq [of 16 CURL_OFF_T_MAX line]
  by (auto simp: curlx_str_hex_def num_base_def Let_def split: if_splits)

lemma dyn_addn_ok:
  "realloc_ok ralloc \<Longrightarrow> dyn_ok s \<Longrightarrow> curlx_dyn_addn ralloc s mem = (r, s') \<Longrightarrow> dyn_ok s'"
  using dyn_nappend_cases by (metis curlx_dyn_addn_def)

lemma round_ok:
  assumes "realloc_ok (tr_alloc env)" and "chunker_ok ch" and "chunk_round env ch w buf = (q, ch', w', n)"
    and "live ch" and "buf \<noteq> []"
  shows "chunker_ok ch' \<and> n \<le> length buf"
proof (cases "chstate ch")
  case CHUNK_HEX
  then show ?thesis using assms str_hex_max [of "hexbuffer ch"]
    by (auto simp: chunk_round_def case_hex_def chunk_failed_def chunker_ok_def Let_def Suc_le_eq
        split: if_splits prod.splits)
next
  case CHUNK_TRAILER
  then show ?thesis using assms dyn_addn_ok [OF assms(1), of "trailer ch"] curlx_dyn_reset_ok
    by (auto simp: chunk_round_def case_trailer_def chunk_failed_def chunker_ok_def Let_def Suc_le_eq
        split: if_splits prod.splits)
next
  case CHUNK_POSTLF
  then show ?thesis using assms curlx_dyn_reset_ok [of "trailer ch"]
    by (auto simp: chunk_round_def case_postlf_def chunk_failed_def Curl_httpchunk_reset_def chunker_ok_def Suc_le_eq
        split: if_splits)
next
  case CHUNK_DATA
  then show ?thesis using assms unfolding round_data [OF CHUNK_DATA]
    by (auto simp: chunk_failed_def chunker_ok_def data_left_def Let_def split: if_splits prod.splits)
qed (use assms in \<open>auto simp: chunk_round_def case_defs chunk_failed_def chunker_ok_def Suc_le_eq
       split: if_splits\<close>)

lemma loop_ok:
  assumes "realloc_ok (tr_alloc env)"
  shows "chunker_ok ch \<Longrightarrow> live ch \<Longrightarrow> httpchunk_loop env ch w buf c = (r, ch', w', n) \<Longrightarrow>
    chunker_ok ch' \<and> n \<le> c + length buf"
  using assms
proof (induction env ch w buf c rule: httpchunk_loop.induct)
  case (1 env ch w buf c)
  show ?case
  proof (cases "buf = []")
    case True
    then show ?thesis using 1(2-4) by (auto simp: httpchunk_loop.simps)
  next
    case False
    obtain q ch1 w1 m where rd: "chunk_round env ch w buf = (q, ch1, w1, m)" by (metis prod_cases4)
    note ok = round_ok [OF 1(5,2) rd 1(3) False]
    show ?thesis
    proof (cases q)
      case None
      then have "live ch1" using round_live [OF 1(3)] rd by simp
      then show ?thesis using 1(1) [of None "(ch1, w1, m)" ch1 "(w1, m)" w1 m] rd None False 1(4,5) ok
        by (simp add: httpchunk_loop.simps [of env ch w buf])
    qed (use rd False 1(4) ok in \<open>auto simp: httpchunk_loop.simps [of env ch w buf]\<close>)
  qed
qed

section \<open>Properties\<close>

text \<open>
  C11: how a chunked response is cut into buffers does not matter.  Feeding any sequence of
  buffers to \<open>httpchunk_readwrite\<close> gives the same result code, the same bytes and trailers
  at the client and the same decoder state as one call with their concatenation, on every
  input, malformed ones and a client that refuses data included.
\<close>

theorem chunked_cut_irrelevant:
  assumes "cw_next env = client_take" and "\<not> http_te_skip env"
    and "chstate ch \<noteq> CHUNK_DONE" and "chstate ch \<noteq> CHUNK_FAILED"
    and "httpchunk_readwrite env ch w (concat bufs) = (r, ch1, w1, n)"
    and "feed env ch w bufs = (r2, ch2, w2)"
  shows "r = r2 \<and> w1 = w2 \<and> same_chunker ch1 ch2"
  using client.feed_concat [OF assms(1,2) conjI [OF assms(3,4)] assms(5,6)] .

definition demo_env :: "client_out chunk_env" where
  "demo_env = \<lparr>cw_next = client_take, verify_header = (\<lambda>_. CURLE_OK), tr_alloc = sure_realloc,
     http_te_skip = False\<rparr>"

definition no_output :: client_out where
  "no_output = \<lparr>out_body = [], out_trailers = [], out_room = 100\<rparr>"

theorem chunked_cut_irrelevant_witness:
  "fst (httpchunk_readwrite demo_env (Curl_httpchunk_init False) no_output (concat [''1'', [CR], [LF], ''x'']))
     = fst (feed demo_env (Curl_httpchunk_init False) no_output [''1'', [CR], [LF], ''x''])"
proof -
  obtain r ch1 w1 n where a: "httpchunk_readwrite demo_env (Curl_httpchunk_init False) no_output
      (concat [''1'', [CR], [LF], ''x'']) = (r, ch1, w1, n)" by (rule prod_cases4)
  obtain r2 ch2 w2 where b: "feed demo_env (Curl_httpchunk_init False) no_output [''1'', [CR], [LF], ''x'']
      = (r2, ch2, w2)" by (rule prod_cases3)
  have "r = r2 \<and> w1 = w2 \<and> same_chunker ch1 ch2"
    by (rule chunked_cut_irrelevant [OF _ _ _ _ a b]) (simp_all add: demo_env_def Curl_httpchunk_init_def)
  then show ?thesis unfolding a b fst_conv by (rule conjunct1)
qed

text \<open>
  C12: one call of the decoder, for every next writer and every header check.  It keeps the
  invariant (at most sixteen stored digits, a size below \<open>2\<^sup>6\<^sup>3\<close>, a sound trailer buffer), it
  consumes no more than it is given, it fails exactly when it enters the failed state, and a
  failed or finished decoder stays so and consumes nothing.
\<close>

theorem httpchunk_call:
  assumes "realloc_ok (tr_alloc env)" and "chunker_ok ch" and "\<not> http_te_skip env"
    and "chstate ch \<noteq> CHUNK_DONE" and "chstate ch \<noteq> CHUNK_FAILED"
    and "httpchunk_readwrite env ch w buf = (r, ch', w', n)"
  shows "chunker_ok ch' \<and> n \<le> length buf \<and> (r \<noteq> CURLE_OK \<longleftrightarrow> chstate ch' = CHUNK_FAILED)
    \<and> (chstate ch' = CHUNK_FAILED \<longrightarrow> httpchunk_readwrite env ch' w' buf2 = (CURLE_RECV_ERROR, ch', w', 0))
    \<and> (chstate ch' = CHUNK_DONE \<longrightarrow> httpchunk_readwrite env ch' w' buf2 = (CURLE_OK, ch', w', 0))"
proof -
  have l: "live ch" using assms(4,5) by simp
  have lp: "httpchunk_loop env ch w buf 0 = (r, ch', w', n)" using assms(6) readwrite_live [OF l assms(3)] by simp
  from loop_ok [OF assms(1,2) l lp] loop_state [OF l lp] show ?thesis by (simp add: httpchunk_readwrite_def)
qed

theorem httpchunk_call_witness:
  "\<exists>ch'. httpchunk_readwrite demo_env (Curl_httpchunk_init False) no_output ''z'' = (CURLE_RECV_ERROR, ch', no_output, 0)
     \<and> chunker_ok ch' \<and> httpchunk_readwrite demo_env ch' no_output ''5'' = (CURLE_RECV_ERROR, ch', no_output, 0)"
proof -
  let ?ch = "chunk_failed CHUNKE_ILLEGAL_HEX (Curl_httpchunk_init False)"
  have "\<not> ISXDIGIT (CHR ''z'')" by (simp add: ISXDIGIT_code)
  then have "httpchunk_readwrite demo_env (Curl_httpchunk_init False) no_output ''z'' = (CURLE_RECV_ERROR, ?ch, no_output, 0)"
    by (simp add: httpchunk_readwrite_def httpchunk_loop.simps [of _ _ _ "''z''"] chunk_round_def case_hex_def
        Curl_httpchunk_init_def demo_env_def)
  moreover from httpchunk_call [OF _ chunker_ok_init _ _ _ this, of "''5''"] sure_realloc_ok
  have "chunker_ok ?ch" "httpchunk_readwrite demo_env ?ch no_output ''5'' = (CURLE_RECV_ERROR, ?ch, no_output, 0)"
    by (simp_all add: demo_env_def Curl_httpchunk_init_def chunk_failed_def)
  ultimately show ?thesis by blast
qed

end
