(* ===== verification/Http_Chunk_Encode.thy ===== *)
theory Http_Chunk_Encode
  imports Http_Chunks Bufq
begin

text \<open>
  The encoder of HTTP/1.1 chunked transfer coding in \<^verbatim>\<open>lib/http_chunks.c\<close>
  (\<open>struct chunked_reader\<close> and its functions), a client reader that wraps what the next reader
  delivers into chunks kept in a \<open>bufq\<close>.

  The next reader is a parameter, a function from the room it is given to the code, the bytes
  and the end-of-stream flag; the trailer callback is its outcome and the headers it sets.
  The answers of the allocations of the \<open>bufq\<close> are a list of truth values.
\<close>

definition CURL_CHUNKED_MINLEN :: nat where "CURL_CHUNKED_MINLEN = 1024"
definition CURL_CHUNKED_MAXLEN :: nat where "CURL_CHUNKED_MAXLEN = 64 * 1024"

record chunked_reader =
  chunkbuf :: bufq
  read_eos :: bool
  cr_eos :: bool

record 'r creader_env =
  next_read :: "nat \<Rightarrow> 'r \<Rightarrow> (CURLcode \<times> bytes \<times> bool) \<times> 'r"
  trailer_callback :: "(bool \<times> bytes list) option"

definition cr_chunked_init :: chunked_reader where
  "cr_chunked_init = \<lparr>chunkbuf = Curl_bufq_init2 CURL_CHUNKED_MAXLEN 2 True False, read_eos = False, cr_eos = False\<rparr>"

definition cr_chunked_close :: "chunked_reader \<Rightarrow> chunked_reader" where
  "cr_chunked_close ctx = ctx\<lparr>chunkbuf := Curl_bufq_free (chunkbuf ctx)\<rparr>"

text \<open>One write to \<open>chunkbuf\<close>: the code and the state after it.\<close>

definition buf_put :: "chunked_reader \<Rightarrow> bool list \<Rightarrow> bytes \<Rightarrow> CURLcode \<times> chunked_reader \<times> bool list" where
  "buf_put ctx al bs =
     (case Curl_bufq_cwrite al (chunkbuf ctx) bs of (res, n, q, al') \<Rightarrow> (res, ctx\<lparr>chunkbuf := q\<rparr>, al'))"

text \<open>A trailer is added only when its first colon is followed by a space.\<close>

definition trailer_formatted :: "bytes \<Rightarrow> bool" where
  "trailer_formatted tr =
     (let p = dropWhile (\<lambda>c. c \<noteq> CHR '':'') (takeWhile (\<lambda>c. c \<noteq> NUL) tr)
      in p \<noteq> [] \<and> peek (tl p) = CHR '' '')"

fun add_trailers ::
  "chunked_reader \<Rightarrow> bool list \<Rightarrow> bytes list \<Rightarrow> CURLcode \<times> chunked_reader \<times> bool list" where
  "add_trailers ctx al [] = (CURLE_OK, ctx, al)"
| "add_trailers ctx al (tr # trs) =
     (if \<not> trailer_formatted tr then add_trailers ctx al trs
      else
        (case buf_put ctx al (takeWhile (\<lambda>c. c \<noteq> NUL) tr) of
           (r1, ctx1, al1) \<Rightarrow>
             if r1 \<noteq> CURLE_OK then (r1, ctx1, al1)
             else (case buf_put ctx1 al1 [CR, LF] of
                     (r2, ctx2, al2) \<Rightarrow>
                       if r2 \<noteq> CURLE_OK then (r2, ctx2, al2) else add_trailers ctx2 al2 trs)))"

definition add_last_chunk ::
  "'r creader_env \<Rightarrow> chunked_reader \<Rightarrow> bool list \<Rightarrow> CURLcode \<times> chunked_reader \<times> bool list" where
  "add_last_chunk env ctx al =
     (case trailer_callback env of
        None \<Rightarrow> buf_put ctx al [CHR ''0'', CR, LF, CR, LF]
      | Some (ok, trailers) \<Rightarrow>
          (case buf_put ctx al [CHR ''0'', CR, LF] of
             (r, ctx1, al1) \<Rightarrow>
               if r \<noteq> CURLE_OK then (r, ctx1, al1)
               else if \<not> ok then (CURLE_ABORTED_BY_CALLBACK, ctx1, al1)
               else (case add_trailers ctx1 al1 trailers of
                       (r2, ctx2, al2) \<Rightarrow>
                         if r2 \<noteq> CURLE_OK then (r2, ctx2, al2) else buf_put ctx2 al2 [CR, LF])))"

text \<open>The room given to the next reader.\<close>

definition chunk_room :: "nat \<Rightarrow> nat" where
  "chunk_room blen =
     (let blen = min blen CURL_CHUNKED_MAXLEN in
      if blen < CURL_CHUNKED_MINLEN then CURL_CHUNKED_MINLEN else blen - (8 + 2 + 2))"

definition chunk_head :: "nat \<Rightarrow> bytes" where
  "chunk_head n = fst (snprintf_bytes 11 (print_zx n @ [CR, LF]))"

definition add_chunk ::
  "'r creader_env \<Rightarrow> chunked_reader \<Rightarrow> bool list \<Rightarrow> 'r \<Rightarrow> nat \<Rightarrow> CURLcode \<times> chunked_reader \<times> bool list \<times> 'r" where
  "add_chunk env ctx al r blen =
     (case next_read env (chunk_room blen) r of
        ((result, bs, eos), r') \<Rightarrow>
          if result \<noteq> CURLE_OK then (result, ctx, al, r')
          else
            (let ctx = (if eos then ctx\<lparr>read_eos := True\<rparr> else ctx);
                 (result, ctx, al) =
                   (if bs \<noteq> [] then
                      (let hd = chunk_head (length bs) in
                       if hd = [] then (CURLE_READ_ERROR, ctx, al)
                       else case buf_put ctx al hd of
                              (r1, ctx1, al1) \<Rightarrow>
                                if r1 \<noteq> CURLE_OK then (r1, ctx1, al1)
                                else case buf_put ctx1 al1 bs of
                                       (r2, ctx2, al2) \<Rightarrow>
                                         if r2 \<noteq> CURLE_OK then (r2, ctx2, al2)
                                         else buf_put ctx2 al2 [CR, LF])
                    else (CURLE_OK, ctx, al))
             in if result \<noteq> CURLE_OK then (result, ctx, al, r')
                else if read_eos ctx
                then (case add_last_chunk env ctx al of (res, ctx', al') \<Rightarrow> (res, ctx', al', r'))
                else (CURLE_OK, ctx, al, r')))"

text \<open>The code, the bytes returned, the end-of-stream flag and the state after a read.\<close>

definition cr_chunked_read ::
  "'r creader_env \<Rightarrow> chunked_reader \<Rightarrow> bool list \<Rightarrow> 'r \<Rightarrow> nat \<Rightarrow>
   (CURLcode \<times> bytes \<times> bool) \<times> chunked_reader \<times> bool list \<times> 'r" where
  "cr_chunked_read env ctx al r blen =
     (if cr_eos ctx then ((CURLE_OK, [], True), ctx, al, r)
      else
        (case (if \<not> read_eos ctx \<and> Curl_bufq_is_empty (chunkbuf ctx) then add_chunk env ctx al r blen
               else (CURLE_OK, ctx, al, r)) of
           (result, ctx1, al1, r1) \<Rightarrow>
             if result \<noteq> CURLE_OK then ((result, [], False), ctx1, al1, r1)
             else if \<not> Curl_bufq_is_empty (chunkbuf ctx1)
             then (case Curl_bufq_cread (chunkbuf ctx1) blen of
                     (res, bs, q) \<Rightarrow>
                       let ctx2 = ctx1\<lparr>chunkbuf := q\<rparr> in
                       if res = CURLE_OK \<and> read_eos ctx2 \<and> Curl_bufq_is_empty q
                       then ((res, bs, True), ctx2\<lparr>cr_eos := True\<rparr>, al1, r1)
                       else ((res, bs, False), ctx2, al1, r1))
             else ((CURLE_OK, [], False), ctx1, al1, r1)))"

definition cr_chunked_total_length :: "chunked_reader \<Rightarrow> curl_off_t" where
  "cr_chunked_total_length ctx = -1"

section \<open>What the encoder produces\<close>

definition wrap :: "bytes \<Rightarrow> bytes" where
  "wrap bs = print_zx (length bs) @ [CR, LF] @ bs @ [CR, LF]"

definition last_chunk :: bytes where
  "last_chunk = [CHR ''0'', CR, LF, CR, LF]"

text \<open>The queue of the encoder: sound, and with a soft limit, so that a write takes everything.\<close>

definition enc_ok :: "chunked_reader \<Rightarrow> bool" where
  "enc_ok ctx \<longleftrightarrow> bufq_ok (chunkbuf ctx) \<and> opt_soft_limit (chunkbuf ctx)"

abbreviation pending :: "chunked_reader \<Rightarrow> bytes" where
  "pending ctx \<equiv> bufq_bytes (chunkbuf ctx)"

lemma enc_ok_init: "enc_ok cr_chunked_init" "pending cr_chunked_init = []"
  by (simp_all add: enc_ok_def cr_chunked_init_def Curl_bufq_init2_def bufq_init_def bufq_ok_def
      bufq_base_def bufq_bytes_def CURL_CHUNKED_MAXLEN_def)

lemma buf_put_ok:
  assumes "enc_ok ctx" and "buf_put ctx al bs = (CURLE_OK, ctx', al')"
  shows "enc_ok ctx' \<and> pending ctx' = pending ctx @ bs \<and> read_eos ctx' = read_eos ctx \<and> cr_eos ctx' = cr_eos ctx"
proof -
  obtain n q where w: "bufq_write_loop al (chunkbuf ctx) bs 0 = (CURLE_OK, n, q, al')" "ctx' = ctx\<lparr>chunkbuf := q\<rparr>"
    using assms(2) by (auto simp: buf_put_def Curl_bufq_cwrite_def Curl_bufq_write_def split: prod.splits)
  from bufq_write_loop_ok [OF _ w(1)] assms(1) have "bufq_ok q" "opt_soft_limit q" "pending ctx @ take n bs = bufq_bytes q"
      "n = length bs"
    by (auto simp: enc_ok_def same_opts_def)
  then show ?thesis using w(2) by (simp add: enc_ok_def)
qed

lemma buf_put_sure:
  assumes "enc_ok ctx" and "mem_left (chunkbuf ctx) al" and "length bs \<le> length al"
  shows "\<exists>ctx' al'. buf_put ctx al bs = (CURLE_OK, ctx', al') \<and> mem_left (chunkbuf ctx') al'
    \<and> length al \<le> length al' + length bs"
proof -
  obtain r n q al' where w: "bufq_write_loop al (chunkbuf ctx) bs 0 = (r, n, q, al')" by (rule prod_cases4)
  from bufq_write_loop_sure [OF _ assms(2,3) w] assms(1) w show ?thesis
    by (auto simp: enc_ok_def buf_put_def Curl_bufq_cwrite_def Curl_bufq_write_def)
qed

lemma chunk_head_eq: "n \<le> CURL_CHUNKED_MAXLEN \<Longrightarrow> chunk_head n = print_zx n @ [CR, LF]"
  using print_zx_length [of n 7] by (simp add: chunk_head_def snprintf_bytes_eq CURL_CHUNKED_MAXLEN_def)

lemma chunk_room_bounds: "0 < chunk_room blen" "chunk_room blen \<le> CURL_CHUNKED_MAXLEN"
  by (auto simp: chunk_room_def CURL_CHUNKED_MINLEN_def CURL_CHUNKED_MAXLEN_def Let_def)

text \<open>
  A next reader: a sequence of answers, each a code, bytes and the end-of-stream flag.  An answer
  that does not fit the room is handed out in parts.
\<close>

type_synonym answers = "(CURLcode \<times> bytes \<times> bool) list"

fun src_read :: "nat \<Rightarrow> answers \<Rightarrow> (CURLcode \<times> bytes \<times> bool) \<times> answers" where
  "src_read room [] = ((CURLE_OK, [], False), [])"
| "src_read room ((code, bs, eos) # as) =
     (if length bs \<le> room then ((code, bs, eos), as)
      else ((code, take room bs, False), (code, drop room bs, eos) # as))"

definition src_bytes :: "answers \<Rightarrow> bytes" where
  "src_bytes as = concat (map (\<lambda>(code, bs, eos). bs) as)"

lemma src_read_bytes:
  "src_read room as = ((code, bs, eos), as') \<Longrightarrow> src_bytes as = bs @ src_bytes as' \<and> length bs \<le> room"
  by (induction room as rule: src_read.induct) (auto simp: src_bytes_def split: if_splits)

definition plain_reader :: "answers creader_env" where
  "plain_reader = \<lparr>next_read = src_read, trailer_callback = None\<rparr>"

text \<open>The chunks made so far: the bytes sent and queued are their encoding.\<close>

definition encodes :: "bytes list \<Rightarrow> bool \<Rightarrow> bytes" where
  "encodes cs fin = concat (map wrap cs) @ (if fin then last_chunk else [])"

definition good_chunks :: "bytes list \<Rightarrow> bool" where
  "good_chunks cs \<longleftrightarrow> list_all (\<lambda>c. c \<noteq> [] \<and> length c \<le> CURL_CHUNKED_MAXLEN) cs"

lemma add_chunk_ok:
  assumes "enc_ok ctx" and "\<not> read_eos ctx" and "add_chunk plain_reader ctx al src blen = (CURLE_OK, ctx', al', src')"
  shows "\<exists>cs. enc_ok ctx' \<and> cr_eos ctx' = cr_eos ctx \<and> good_chunks cs \<and> src_bytes src = concat cs @ src_bytes src'
    \<and> pending ctx' = pending ctx @ encodes cs (read_eos ctx')"
proof -
  obtain bs eos where r: "src_read (chunk_room blen) src = ((CURLE_OK, bs, eos), src')"
    using assms(3) by (auto simp: add_chunk_def plain_reader_def Let_def split: prod.splits if_splits)
  note b = src_read_bytes [OF r]
  let ?ctx = "if eos then ctx\<lparr>read_eos := True\<rparr> else ctx"
  have ok0: "enc_ok ?ctx" "pending ?ctx = pending ctx" "read_eos ?ctx = eos" "cr_eos ?ctx = cr_eos ctx"
    using assms(1,2) by (auto simp: enc_ok_def)
  define cs where "cs = (if bs = [] then [] else [bs])"
  have len: "length bs \<le> CURL_CHUNKED_MAXLEN" using b chunk_room_bounds(2) le_trans by blast
  then have good: "good_chunks cs" "concat cs = bs" by (auto simp: cs_def good_chunks_def)
  obtain ctx1 al1 where c1: "enc_ok ctx1" "pending ctx1 = pending ctx @ concat (map wrap cs)" "read_eos ctx1 = eos"
      "cr_eos ctx1 = cr_eos ctx"
    and last: "if eos then buf_put ctx1 al1 last_chunk = (CURLE_OK, ctx', al') else ctx' = ctx1"
  proof (cases "bs = []")
    case True
    show thesis by (rule that [of ?ctx al])
      (use True ok0 assms(3) r in \<open>auto simp: cs_def add_chunk_def plain_reader_def add_last_chunk_def
         last_chunk_def Let_def split: if_splits prod.splits\<close>)
  next
    case False
    obtain x1 y1 x2 y2 x3 y3 where p: "buf_put ?ctx al (chunk_head (length bs)) = (CURLE_OK, x1, y1)"
        "buf_put x1 y1 bs = (CURLE_OK, x2, y2)" "buf_put x2 y2 [CR, LF] = (CURLE_OK, x3, y3)"
        "if read_eos x3 then buf_put x3 y3 last_chunk = (CURLE_OK, ctx', al') else ctx' = x3"
      using assms(3) r False
      by (auto simp: add_chunk_def plain_reader_def add_last_chunk_def last_chunk_def Let_def
          split: if_splits prod.splits)
    note q1 = buf_put_ok [OF ok0(1) p(1)]
    note q2 = buf_put_ok [OF conjunct1 [OF q1] p(2)]
    note q3 = buf_put_ok [OF conjunct1 [OF q2] p(3)]
    show thesis by (rule that [of x3 y3])
      (use q1 q2 q3 ok0 p(4) False in \<open>simp_all add: cs_def wrap_def chunk_head_eq [OF len]\<close>)
  qed
  show ?thesis
  proof (rule exI [of _ cs], cases eos)
    case True
    then have "buf_put ctx1 al1 last_chunk = (CURLE_OK, ctx', al')" using last by simp
    from buf_put_ok [OF c1(1) this] show "enc_ok ctx' \<and> cr_eos ctx' = cr_eos ctx \<and> good_chunks cs
        \<and> src_bytes src = concat cs @ src_bytes src' \<and> pending ctx' = pending ctx @ encodes cs (read_eos ctx')"
      using c1 good b True by (simp add: encodes_def)
  qed (use last c1 good b in \<open>simp add: encodes_def\<close>)
qed

text \<open>Reading from the encoder with a sequence of buffer sizes, up to the first error.\<close>

fun cr_run ::
  "'r creader_env \<Rightarrow> chunked_reader \<Rightarrow> bool list \<Rightarrow> 'r \<Rightarrow> nat list \<Rightarrow> bytes list \<Rightarrow>
   CURLcode \<times> bytes list \<times> chunked_reader \<times> bool list \<times> 'r" where
  "cr_run env ctx al r [] out = (CURLE_OK, out, ctx, al, r)"
| "cr_run env ctx al r (n # ns) out =
     (case cr_chunked_read env ctx al r n of
        ((res, bs, eos), ctx', al', r') \<Rightarrow>
          if res \<noteq> CURLE_OK then (res, out, ctx', al', r') else cr_run env ctx' al' r' ns (out @ [bs]))"

definition enc_inv :: "bytes \<Rightarrow> bytes list \<Rightarrow> chunked_reader \<Rightarrow> answers \<Rightarrow> bool" where
  "enc_inv tot out ctx src \<longleftrightarrow> enc_ok ctx \<and> (\<exists>cs. good_chunks cs \<and> tot = concat cs @ src_bytes src
     \<and> concat out @ pending ctx = encodes cs (read_eos ctx))
     \<and> (cr_eos ctx \<longrightarrow> read_eos ctx \<and> pending ctx = [])"

lemma bufq_cread_ok:
  assumes "enc_ok ctx" and "Curl_bufq_cread (chunkbuf ctx) n = (res, bs, q)"
  shows "enc_ok (ctx\<lparr>chunkbuf := q\<rparr>) \<and> pending ctx = bs @ bufq_bytes q"
proof -
  obtain bs' where r: "bufq_read_loop (chunkbuf ctx) n [] = (bs', q)" "bs' = bs"
    using assms(2) by (auto simp: Curl_bufq_cread_def Curl_bufq_read_def split: prod.splits)
  from bufq_read_loop_ok [OF _ r(1)] assms(1) r(2) show ?thesis
    by (auto simp: enc_ok_def same_opts_def)
qed

lemma cr_read_inv:
  assumes "enc_inv tot out ctx src"
    and "cr_chunked_read plain_reader ctx al src n = ((CURLE_OK, bs, eos), ctx', al', src')"
  shows "enc_inv tot (out @ [bs]) ctx' src'"
proof (cases "cr_eos ctx")
  case True
  then have "bs = []" "ctx' = ctx" "src' = src" using assms(2) by (auto simp: cr_chunked_read_def)
  then show ?thesis using assms(1) by (simp add: enc_inv_def)
next
  case False
  let ?fill = "\<not> read_eos ctx \<and> Curl_bufq_is_empty (chunkbuf ctx)"
  have ok: "enc_ok ctx" using assms(1) by (simp add: enc_inv_def)
  obtain ctx1 al1 where f: "(if ?fill then add_chunk plain_reader ctx al src n else (CURLE_OK, ctx, al, src))
      = (CURLE_OK, ctx1, al1, src')"
    using assms(2) False by (auto simp: cr_chunked_read_def Let_def split: prod.splits if_splits)
  have inv1: "enc_inv tot out ctx1 src' \<and> \<not> cr_eos ctx1"
  proof (cases ?fill)
    case True
    then have e: "pending ctx = []" using ok Curl_bufq_is_empty_ok by (auto simp: enc_ok_def)
    have "add_chunk plain_reader ctx al src n = (CURLE_OK, ctx1, al1, src')" using f True by simp
    from add_chunk_ok [OF ok _ this] True obtain cs where cs: "enc_ok ctx1" "cr_eos ctx1 = cr_eos ctx" "good_chunks cs"
        "src_bytes src = concat cs @ src_bytes src'" "pending ctx1 = pending ctx @ encodes cs (read_eos ctx1)" by blast
    obtain ds where ds: "good_chunks ds" "tot = concat ds @ src_bytes src" "concat out @ pending ctx = encodes ds False"
      using assms(1) True by (auto simp: enc_inv_def)
    have "good_chunks (ds @ cs) \<and> tot = concat (ds @ cs) @ src_bytes src'
        \<and> concat out @ pending ctx1 = encodes (ds @ cs) (read_eos ctx1)"
      using cs ds e by (auto simp: good_chunks_def encodes_def)
    then show ?thesis unfolding enc_inv_def using cs(1,2) False by blast
  next
    case no: False
    then have "ctx1 = ctx" "src' = src" using f by (metis Pair_inject)+
    then show ?thesis using assms(1) False by simp
  qed
  show ?thesis
  proof (cases "Curl_bufq_is_empty (chunkbuf ctx1)")
    case True
    then have "bs = []" "ctx' = ctx1" using assms(2) False f by (auto simp: cr_chunked_read_def)
    then show ?thesis using inv1 by (simp add: enc_inv_def)
  next
    case ne: False
    obtain q where q: "Curl_bufq_cread (chunkbuf ctx1) n = (CURLE_OK, bs, q)"
        "ctx' = (if read_eos ctx1 \<and> Curl_bufq_is_empty q then ctx1\<lparr>chunkbuf := q, cr_eos := True\<rparr> else ctx1\<lparr>chunkbuf := q\<rparr>)"
      using assms(2) False f ne by (auto simp: cr_chunked_read_def Let_def split: prod.splits if_splits)
    have ok1: "enc_ok ctx1" using inv1 by (simp add: enc_inv_def)
    note r = bufq_cread_ok [OF ok1 q(1)]
    have "Curl_bufq_is_empty q \<longleftrightarrow> bufq_bytes q = []" using r Curl_bufq_is_empty_ok by (auto simp: enc_ok_def)
    then show ?thesis using inv1 r q(2) by (auto simp: enc_inv_def enc_ok_def)
  qed
qed

lemma cr_run_inv:
  "enc_inv tot out ctx src \<Longrightarrow> cr_run plain_reader ctx al src ns out = (CURLE_OK, out', ctx', al', src') \<Longrightarrow>
     enc_inv tot out' ctx' src'"
proof (induction ns arbitrary: ctx al src out)
  case (Cons n ns)
  obtain res bs eos c1 a1 s1 where r: "cr_chunked_read plain_reader ctx al src n = ((res, bs, eos), c1, a1, s1)"
    by (metis prod_cases4 prod_cases3)
  then have "res = CURLE_OK" using Cons.prems(2) by (simp split: if_splits)
  with r cr_read_inv [OF Cons.prems(1)] have "enc_inv tot (out @ [bs]) c1 s1" by blast
  then show ?case using Cons.IH Cons.prems(2) r \<open>res = CURLE_OK\<close> by simp
qed simp

section \<open>The decoder reads it back\<close>

lemmas loop_step = httpchunk_loop.simps [of _ _ _ "_ # _"]

lemma loop_hex:
  assumes "chstate ch = CHUNK_HEX" and "\<forall>c\<in>set ds. ISXDIGIT c"
    and "length (hexbuffer ch) + length ds \<le> CHUNK_MAXNUM_LEN"
  shows "httpchunk_loop env ch w (ds @ rest) c
    = httpchunk_loop env (ch\<lparr>hexbuffer := hexbuffer ch @ ds\<rparr>) w rest (c + length ds)"
  using assms
proof (induction ds arbitrary: ch c)
  case (Cons d ds)
  then show ?case by (simp add: loop_step [of _ _ _ d] chunk_round_def case_hex_def)
qed simp

lemma loop_size_line:
  assumes "chstate ch = CHUNK_HEX" and "hexbuffer ch = ds" and "ds \<noteq> []" and "\<forall>c\<in>set ds. ISXDIGIT c"
    and "num_value 16 ds = int n" and "int n \<le> CURL_OFF_T_MAX"
  shows "httpchunk_loop env ch w (CR # LF # rest) c
    = httpchunk_loop env (ch\<lparr>datasize := n, chstate := (if n = 0 then CHUNK_TRAILER else CHUNK_DATA)\<rparr>) w rest (c + 2)"
proof -
  have d: "digits 16 ds = ds" using assms(4) by (simp add: max_digit_def valid_digit_hex)
  have "curlx_str_hex ds CURL_OFF_T_MAX = (STRE_OK, dropWhile (\<lambda>c. valid_digit c (max_digit 16)) ds, int n)"
    unfolding curlx_str_hex_def using str_num_base_eq [of 16 CURL_OFF_T_MAX ds] d assms(3,5,6)
    by (simp add: num_base_def)
  moreover have "\<not> ISXDIGIT CR" by (simp add: ISXDIGIT_code)
  ultimately show ?thesis using assms(1-3)
    by (simp add: loop_step [of _ _ _ CR] loop_step [of _ _ _ LF] chunk_round_def case_hex_def case_lf_def)
qed

text \<open>The state between chunks, and a client with room.\<close>

definition at_chunk :: "Curl_chunker \<Rightarrow> bool" where
  "at_chunk ch \<longleftrightarrow> chstate ch = CHUNK_HEX \<and> hexbuffer ch = [] \<and> trailer ch = curlx_dyn_init DYN_H1_TRAILER
     \<and> \<not> ignore_body ch"

lemma decode_chunk:
  assumes "at_chunk ch" and "cw_next env = client_take" and "\<not> http_te_skip env"
    and "d \<noteq> []" and "length d \<le> CURL_CHUNKED_MAXLEN" and "length d \<le> out_room w"
  shows "\<exists>ch'. at_chunk ch' \<and> httpchunk_loop env ch w (wrap d @ rest) c
    = httpchunk_loop env ch' (w\<lparr>out_body := out_body w @ d, out_room := out_room w - length d\<rparr>) rest
        (c + length (wrap d))"
proof -
  let ?ds = "print_zx (length d)"
  let ?ch1 = "ch\<lparr>hexbuffer := ?ds\<rparr>"
  let ?ch2 = "?ch1\<lparr>datasize := length d, chstate := CHUNK_DATA\<rparr>"
  let ?ch3 = "?ch2\<lparr>datasize := 0, chstate := CHUNK_POSTLF\<rparr>"
  let ?w = "w\<lparr>out_body := out_body w @ d, out_room := out_room w - length d\<rparr>"
  note z = print_zx_digits [of "length d"]
  have len: "length ?ds \<le> CHUNK_MAXNUM_LEN" "int (length d) \<le> CURL_OFF_T_MAX"
    using print_zx_length [of "length d" 15] assms(5)
    by (simp_all add: CHUNK_MAXNUM_LEN_def CURL_CHUNKED_MAXLEN_def CURL_OFF_T_MAX_def)
  have "httpchunk_loop env ch w (wrap d @ rest) c
      = httpchunk_loop env ?ch1 w (CR # LF # d @ CR # LF # rest) (c + length ?ds)"
    using loop_hex [of ch ?ds env w "CR # LF # d @ CR # LF # rest" c] z(2) len(1) assms(1)
    by (simp add: wrap_def at_chunk_def)
  also have "\<dots> = httpchunk_loop env ?ch2 w (d @ CR # LF # rest) (c + length ?ds + 2)"
    using loop_size_line [of ?ch1 ?ds "length d" env w] z len(2) assms(1,4) by (simp add: at_chunk_def)
  also have "\<dots> = httpchunk_loop env ?ch3 ?w (CR # LF # rest) (c + length ?ds + 2 + length d)"
  proof -
    have "chunk_round env ?ch2 w (d @ CR # LF # rest) = (None, ?ch3, ?w, length d)"
      using assms(1-3,6) by (simp add: round_data body_write_def data_left_def at_chunk_def client_take_def Let_def)
    then show ?thesis using assms(4) by (subst httpchunk_loop.simps) simp
  qed
  also have "\<dots> = httpchunk_loop env (Curl_httpchunk_reset ?ch3 False) ?w rest (c + length (wrap d))"
    using assms(1) by (simp add: loop_step [of _ _ _ CR] loop_step [of _ _ _ LF] chunk_round_def case_postlf_def
        at_chunk_def wrap_def add.assoc)
  finally have "httpchunk_loop env ch w (wrap d @ rest) c
      = httpchunk_loop env (Curl_httpchunk_reset ?ch3 False) ?w rest (c + length (wrap d))" .
  moreover have "at_chunk (Curl_httpchunk_reset ?ch3 False)"
    using assms(1) by (simp add: at_chunk_def Curl_httpchunk_reset_def curlx_dyn_reset_def curlx_dyn_init_def Let_def)
  ultimately show ?thesis by blast
qed

lemma decode_last:
  assumes "at_chunk ch"
  shows "httpchunk_loop env ch w (last_chunk @ rest) c
    = (CURLE_OK, ch\<lparr>hexbuffer := ''0'', datasize := length rest, chstate := CHUNK_DONE\<rparr>, w, c + length last_chunk)"
proof -
  let ?ch1 = "ch\<lparr>hexbuffer := ''0''\<rparr>"
  have x: "ISXDIGIT (CHR ''0'')" by (simp add: ISXDIGIT_code)
  have "num_value 16 ''0'' = int 0" using print_zx_digits(3) [of 0] by (simp add: print_zx_eq)
  then have "httpchunk_loop env ?ch1 w (CR # LF # CR # LF # rest) (c + 1)
      = httpchunk_loop env (?ch1\<lparr>datasize := 0, chstate := CHUNK_TRAILER\<rparr>) w (CR # LF # rest) (c + 3)"
    using loop_size_line [of ?ch1 "''0''" 0 env w "CR # LF # rest" "c + 1"] x assms
    by (simp add: at_chunk_def numeral_3_eq_3)
  moreover have "httpchunk_loop env ch w (last_chunk @ rest) c
      = httpchunk_loop env ?ch1 w (CR # LF # CR # LF # rest) (c + 1)"
    using loop_hex [of ch "''0''" env w "CR # LF # CR # LF # rest" c] x assms
    by (simp add: last_chunk_def at_chunk_def CHUNK_MAXNUM_LEN_def)
  ultimately show ?thesis using assms
    by (simp add: loop_step [of _ _ _ CR] loop_step [of _ _ _ LF] chunk_round_def case_trailer_def
        case_trailer_postcr_def case_stop_def curlx_dyn_ptr_def curlx_dyn_init_def at_chunk_def last_chunk_def)
qed

lemma decode_encodes:
  assumes "cw_next env = client_take" and "\<not> http_te_skip env" and "good_chunks cs"
    and "at_chunk ch" and "length (concat cs) \<le> out_room w"
  shows "\<exists>ch'. httpchunk_loop env ch w (encodes cs True @ rest) c
    = (CURLE_OK, ch', w\<lparr>out_body := out_body w @ concat cs, out_room := out_room w - length (concat cs)\<rparr>,
       c + length (encodes cs True)) \<and> chstate ch' = CHUNK_DONE \<and> datasize ch' = length rest"
  using assms(3-5)
proof (induction cs arbitrary: ch w c)
  case Nil
  then show ?case using decode_last [of ch env w rest c] by (simp add: encodes_def)
next
  case (Cons d cs)
  let ?w = "w\<lparr>out_body := out_body w @ d, out_room := out_room w - length d\<rparr>"
  obtain ch1 where ch1: "at_chunk ch1" "httpchunk_loop env ch w (wrap d @ encodes cs True @ rest) c
      = httpchunk_loop env ch1 ?w (encodes cs True @ rest) (c + length (wrap d))"
    using decode_chunk [OF Cons.prems(2) assms(1,2), of d w "encodes cs True @ rest" c] Cons.prems
    by (auto simp: good_chunks_def)
  have e: "encodes (d # cs) True @ rest = wrap d @ encodes cs True @ rest" by (simp add: encodes_def)
  have "good_chunks cs" "length (concat cs) \<le> out_room ?w" using Cons.prems by (auto simp: good_chunks_def)
  from Cons.IH [OF this(1) ch1(1) this(2), of "c + length (wrap d)"] show ?case
    unfolding e ch1(2) by (simp add: encodes_def add.assoc)
qed

section \<open>A short upload\<close>

text \<open>With memory for it, a body that fits one read is encoded at once.\<close>

lemma add_chunk_sure:
  assumes "enc_ok ctx" and "mem_left (chunkbuf ctx) al" and "body \<noteq> []" and "length body \<le> chunk_room n"
    and "length (wrap body) + length last_chunk \<le> length al"
  shows "\<exists>ctx' al'. add_chunk plain_reader ctx al [(CURLE_OK, body, True)] n = (CURLE_OK, ctx', al', []) \<and> read_eos ctx'
    \<and> pending ctx' = pending ctx @ wrap body @ last_chunk"
proof -
  let ?ctx = "ctx\<lparr>read_eos := True\<rparr>"
  let ?h = "chunk_head (length body)"
  have ok: "enc_ok ?ctx" "mem_left (chunkbuf ?ctx) al" using assms(1,2) by (simp_all add: enc_ok_def)
  have h: "?h = print_zx (length body) @ [CR, LF]"
    using chunk_head_eq [OF le_trans [OF assms(4) chunk_room_bounds(2)]] .
  have len: "length ?h + length body + 2 + length last_chunk \<le> length al" using assms(5) h by (simp add: wrap_def)
  obtain c1 a1 where p1: "buf_put ?ctx al ?h = (CURLE_OK, c1, a1)" "mem_left (chunkbuf c1) a1" "length al \<le> length a1 + length ?h"
    using buf_put_sure [OF ok, of ?h] len by auto
  note q1 = buf_put_ok [OF ok(1) p1(1)]
  obtain c2 a2 where p2: "buf_put c1 a1 body = (CURLE_OK, c2, a2)" "mem_left (chunkbuf c2) a2" "length a1 \<le> length a2 + length body"
    using buf_put_sure [OF conjunct1 [OF q1] p1(2), of body] len p1(3) by auto
  note q2 = buf_put_ok [OF conjunct1 [OF q1] p2(1)]
  obtain c3 a3 where p3: "buf_put c2 a2 [CR, LF] = (CURLE_OK, c3, a3)" "mem_left (chunkbuf c3) a3" "length a2 \<le> length a3 + 2"
    using buf_put_sure [OF conjunct1 [OF q2] p2(2), of "[CR, LF]"] len p1(3) p2(3) by auto
  note q3 = buf_put_ok [OF conjunct1 [OF q2] p3(1)]
  obtain c4 a4 where p4: "buf_put c3 a3 last_chunk = (CURLE_OK, c4, a4)"
    using buf_put_sure [OF conjunct1 [OF q3] p3(2), of last_chunk] len p1(3) p2(3) p3(3) by auto
  note q4 = buf_put_ok [OF conjunct1 [OF q3] p4]
  have "read_eos c3" "read_eos c4" "pending c4 = pending ctx @ wrap body @ last_chunk"
    using q1 q2 q3 q4 h by (simp_all add: wrap_def)
  moreover have "?h \<noteq> []" using h by simp
  ultimately show ?thesis using p1(1) p2(1) p3(1) p4 assms(3,4)
    by (simp add: add_chunk_def plain_reader_def add_last_chunk_def last_chunk_def Let_def)
qed

lemma cr_read_once:
  assumes "body \<noteq> []" and "length body \<le> chunk_room n" and "length (wrap body) + length last_chunk \<le> n"
    and "length al = n" and "list_all id al"
  shows "\<exists>ctx' al'. cr_chunked_read plain_reader cr_chunked_init al [(CURLE_OK, body, True)] n
    = ((CURLE_OK, wrap body @ last_chunk, True), ctx', al', []) \<and> cr_eos ctx'"
proof -
  have m: "mem_left (chunkbuf cr_chunked_init) al"
    using assms(5) by (simp add: mem_left_def cr_chunked_init_def Curl_bufq_init2_def bufq_init_def
        CURL_CHUNKED_MAXLEN_def SIZE_MAX_def sizeof_buf_chunk_def)
  obtain c1 a1 where a: "add_chunk plain_reader cr_chunked_init al [(CURLE_OK, body, True)] n = (CURLE_OK, c1, a1, [])"
      "read_eos c1" "pending c1 = wrap body @ last_chunk"
    using add_chunk_sure [OF enc_ok_init(1) m assms(1,2)] assms(3,4) enc_ok_init(2) by auto
  have f: "\<not> read_eos cr_chunked_init" "\<not> cr_eos cr_chunked_init" by (simp_all add: cr_chunked_init_def)
  have ok: "enc_ok c1" using add_chunk_ok [OF enc_ok_init(1) f(1) a(1)] by blast
  have empty: "Curl_bufq_is_empty (chunkbuf cr_chunked_init)"
    using Curl_bufq_is_empty_ok enc_ok_init by (auto simp: enc_ok_def)
  have ne: "\<not> Curl_bufq_is_empty (chunkbuf c1)"
    using ok a(3) Curl_bufq_is_empty_ok by (auto simp: enc_ok_def last_chunk_def)
  obtain bs q where r: "bufq_read_loop (chunkbuf c1) n [] = (bs, q)" by (rule prod.exhaust)
  have "bufq_ok (chunkbuf c1)" using ok by (simp add: enc_ok_def)
  from bufq_read_loop_ok [OF this r] have q: "bufq_ok q" "bs = wrap body @ last_chunk" "bufq_bytes q = []"
    using a(3) assms(3) by simp_all
  then have "Curl_bufq_cread (chunkbuf c1) n = (CURLE_OK, wrap body @ last_chunk, q)" "Curl_bufq_is_empty q"
    using r Curl_bufq_is_empty_ok by (auto simp: Curl_bufq_cread_def Curl_bufq_read_def last_chunk_def)
  then show ?thesis using a f empty ne by (simp add: cr_chunked_read_def Let_def)
qed

section \<open>Round trip\<close>

text \<open>C14: whatever buffer sizes the sender reads the encoder with, once it has reported the end of
  the stream, the decoder that is fed those very reads ends in \<^const>\<open>CHUNK_DONE\<close> without an error and has
  passed on exactly the bytes the encoder took from its source.\<close>

theorem chunked_roundtrip:
  assumes "cr_run plain_reader cr_chunked_init al src ns [] = (CURLE_OK, out, ctx, al', src')" and "cr_eos ctx"
    and "cw_next env = client_take" and "\<not> http_te_skip env" and "length (src_bytes src) \<le> out_room w"
  shows "\<exists>ch w' body. feed env (Curl_httpchunk_init False) w out = (CURLE_OK, ch, w') \<and> chstate ch = CHUNK_DONE
    \<and> src_bytes src = body @ src_bytes src' \<and> out_body w' = out_body w @ body"
proof -
  have "enc_inv (src_bytes src) [] cr_chunked_init src"
    using enc_ok_init by (auto simp: enc_inv_def good_chunks_def encodes_def cr_chunked_init_def intro!: exI [of _ "[]"])
  from cr_run_inv [OF this assms(1)] assms(2) obtain cs where cs: "good_chunks cs"
      "src_bytes src = concat cs @ src_bytes src'" "concat out = encodes cs True"
    by (auto simp: enc_inv_def)
  let ?ch = "Curl_httpchunk_init False"
  have init: "at_chunk ?ch" "live ?ch"
    by (simp_all add: at_chunk_def Curl_httpchunk_init_def Curl_httpchunk_reset_def curlx_dyn_init_def curlx_dyn_reset_def Let_def)
  have room: "length (concat cs) \<le> out_room w" using assms(5) cs(2) by simp
  from decode_encodes [OF assms(3,4) cs(1) init(1) room, of "[]" 0] obtain ch1 w1 n where
    d: "httpchunk_readwrite env ?ch w (concat out) = (CURLE_OK, ch1, w1, n)" "chstate ch1 = CHUNK_DONE"
       "out_body w1 = out_body w @ concat cs"
    using readwrite_live [OF init(2) assms(4)] cs(3) by auto
  obtain r2 ch2 w2 where f: "feed env ?ch w out = (r2, ch2, w2)" by (rule prod_cases3)
  from client.feed_concat [OF assms(3,4) init(2) d(1) f] same_chunker_state d cs(2) f show ?thesis by metis
qed

theorem chunked_roundtrip_witness:
  "\<exists>ch w' body. feed demo_env (Curl_httpchunk_init False) no_output [wrap ''gurl'' @ last_chunk] = (CURLE_OK, ch, w')
    \<and> chstate ch = CHUNK_DONE \<and> ''gurl'' = body @ [] \<and> out_body w' = out_body no_output @ body"
proof -
  let ?src = "[(CURLE_OK, ''gurl'', True)]"
  have len: "length (wrap ''gurl'') + length last_chunk \<le> 64"
    using print_zx_length [of "length ''gurl''" 1] by (simp add: wrap_def last_chunk_def)
  obtain ctx al' where "cr_chunked_read plain_reader cr_chunked_init (replicate 64 True) ?src 64
      = ((CURLE_OK, wrap ''gurl'' @ last_chunk, True), ctx, al', [])" "cr_eos ctx"
    using cr_read_once [OF _ _ len, of "replicate 64 True"]
    by (auto simp: chunk_room_def CURL_CHUNKED_MINLEN_def CURL_CHUNKED_MAXLEN_def list_all_iff Let_def)
  then have "cr_run plain_reader cr_chunked_init (replicate 64 True) ?src [64] []
      = (CURLE_OK, [wrap ''gurl'' @ last_chunk], ctx, al', [])" "cr_eos ctx" by simp_all
  from chunked_roundtrip [OF this, of demo_env no_output] show ?thesis
    by (simp add: src_bytes_def demo_env_def no_output_def)
qed

end
