(* ===== verification/Http_Chunk_End.thy ===== *)
theory Http_Chunk_End
  imports Http_Chunk_Encode "HOL-Library.Sublist"
begin

text \<open>
  The end of a chunked response, \<^verbatim>\<open>lib/http_chunks.c\<close>.  \<open>chunk_wire\<close> is the reference format: chunks of data,
  the last chunk, trailer lines and the empty line.  The decoder accepts it whole, however it is cut into
  buffers, and reports every proper prefix of it as a partial file.
\<close>

section \<open>The format\<close>

definition trailer_lines :: "bytes list \<Rightarrow> bytes" where
  "trailer_lines ts = concat (map (\<lambda>t. t @ [CR, LF]) ts)"

definition chunk_wire :: "bytes list \<Rightarrow> bytes list \<Rightarrow> bytes" where
  "chunk_wire cs ts = concat (map wrap cs) @ [CHR ''0'', CR, LF] @ trailer_lines ts @ [CR, LF]"

text \<open>A trailer line has bytes, no line end of its own, passes the check of headers and fits its buffer.\<close>

definition trailer_ok :: "'w chunk_env \<Rightarrow> bytes \<Rightarrow> bool" where
  "trailer_ok env t \<longleftrightarrow> t \<noteq> [] \<and> CR \<notin> set t \<and> LF \<notin> set t \<and> length t + 3 \<le> DYN_H1_TRAILER
     \<and> verify_header env (t @ [CR, LF]) = CURLE_OK"

text \<open>A decoder whose trailer buffer can be allocated and that passes what it decodes to the client.\<close>

definition plain_env :: "client_out chunk_env \<Rightarrow> bool" where
  "plain_env env \<longleftrightarrow> cw_next env = client_take \<and> \<not> http_te_skip env \<and> realloc_ok (tr_alloc env) \<and> realloc_total (tr_alloc env)"

section \<open>Trailer lines\<close>

text \<open>The state before a trailer line or the empty line.\<close>

definition at_trailer :: "Curl_chunker \<Rightarrow> bool" where
  "at_trailer ch \<longleftrightarrow> (chstate ch = CHUNK_TRAILER_POSTCR \<or> chstate ch = CHUNK_TRAILER \<and> bufr (trailer ch) = None)
     \<and> dyn_ok (trailer ch) \<and> dyn_bytes (trailer ch) = [] \<and> toobig (trailer ch) = DYN_H1_TRAILER"

lemma trailer_fits:
  assumes "plain_env env" and "dyn_ok s" and "length (dyn_bytes s) + length mem + 1 \<le> toobig s"
  obtains s' where "curlx_dyn_addn (tr_alloc env) s mem = (CURLE_OK, s')" "dyn_ok s'" "toobig s' = toobig s"
    "dyn_bytes s' = dyn_bytes s @ mem"
  using sure_growable.add_fits [OF dyn_sure_growable, of "tr_alloc env" s mem] assms by (auto simp: plain_env_def)

lemma loop_trailer_bytes:
  assumes "plain_env env" and "chstate ch = CHUNK_TRAILER" and "dyn_ok (trailer ch)" and "CR \<notin> set t" and "LF \<notin> set t"
    and "length (dyn_bytes (trailer ch)) + length t + 1 \<le> toobig (trailer ch)"
  shows "\<exists>tr. httpchunk_loop env ch w (t @ rest) c = httpchunk_loop env (ch\<lparr>trailer := tr\<rparr>) w rest (c + length t)
    \<and> dyn_ok tr \<and> toobig tr = toobig (trailer ch) \<and> dyn_bytes tr = dyn_bytes (trailer ch) @ t"
  using assms(2-6)
proof (induction t arbitrary: ch c)
  case Nil
  then show ?case by (intro exI [of _ "trailer ch"]) simp
next
  case (Cons b t)
  obtain tr where tr: "curlx_dyn_addn (tr_alloc env) (trailer ch) [b] = (CURLE_OK, tr)" "dyn_ok tr" "toobig tr = toobig (trailer ch)"
      "dyn_bytes tr = dyn_bytes (trailer ch) @ [b]"
    using trailer_fits [OF assms(1) Cons.prems(2), of "[b]"] Cons.prems(5) by auto
  have "chunk_round env ch w ((b # t) @ rest) = (None, ch\<lparr>trailer := tr\<rparr>, w, 1)"
    using tr(1) Cons.prems(1,3,4) by (auto simp: chunk_round_def case_trailer_def Let_def)
  then have "httpchunk_loop env ch w ((b # t) @ rest) c = httpchunk_loop env (ch\<lparr>trailer := tr\<rparr>) w (t @ rest) (c + 1)"
    by (subst httpchunk_loop.simps) simp
  then show ?case using Cons.IH [of "ch\<lparr>trailer := tr\<rparr>" "c + 1"] tr Cons.prems by auto
qed

lemma trailer_line_end:
  assumes "plain_env env" and "chstate ch = CHUNK_TRAILER" and "dyn_ok (trailer ch)" and "dyn_bytes (trailer ch) = t"
    and "toobig (trailer ch) = DYN_H1_TRAILER" and "trailer_ok env t"
  shows "\<exists>ch'. at_trailer ch' \<and> httpchunk_loop env ch w (CR # LF # rest) c
    = httpchunk_loop env ch' (w\<lparr>out_trailers := out_trailers w @ [t @ [CR, LF]]\<rparr>) rest (c + 2)"
proof -
  obtain tr where tr: "curlx_dyn_addn (tr_alloc env) (trailer ch) [CR, LF] = (CURLE_OK, tr)" "dyn_ok tr"
      "toobig tr = DYN_H1_TRAILER" "dyn_bytes tr = t @ [CR, LF]"
    using trailer_fits [OF assms(1,3), of "[CR, LF]"] assms(4-6) by (auto simp: trailer_ok_def)
  have "curlx_dyn_ptr (trailer ch) \<noteq> None"
    using assms(4,6) by (auto simp: curlx_dyn_ptr_def dyn_bytes_def trailer_ok_def split: option.splits)
  then have "httpchunk_loop env ch w (CR # LF # rest) c
      = httpchunk_loop env (ch\<lparr>trailer := curlx_dyn_reset tr, chstate := CHUNK_TRAILER_POSTCR\<rparr>)
          (w\<lparr>out_trailers := out_trailers w @ [t @ [CR, LF]]\<rparr>) rest (c + 2)"
    using assms tr by (simp add: loop_step [of _ _ _ CR] loop_step [of _ _ _ LF] chunk_round_def case_trailer_def
        case_trailer_cr_def plain_env_def trailer_ok_def client_take_def)
  moreover have "at_trailer (ch\<lparr>trailer := curlx_dyn_reset tr, chstate := CHUNK_TRAILER_POSTCR\<rparr>)"
    using curlx_dyn_reset_ok [OF tr(2)] tr(3) by (simp add: at_trailer_def curlx_dyn_reset_def Let_def)
  ultimately show ?thesis by blast
qed

lemma decode_trailer:
  assumes "plain_env env" and "at_trailer ch" and "trailer_ok env t"
  shows "\<exists>ch'. at_trailer ch' \<and> httpchunk_loop env ch w (t @ CR # LF # rest) c
    = httpchunk_loop env ch' (w\<lparr>out_trailers := out_trailers w @ [t @ [CR, LF]]\<rparr>) rest (c + length t + 2)"
proof -
  let ?ch = "ch\<lparr>chstate := CHUNK_TRAILER\<rparr>"
  obtain b u where t: "t = b # u" "b \<noteq> CR" "b \<noteq> LF" using assms(3) by (cases t) (auto simp: trailer_ok_def)
  have start: "httpchunk_loop env ch w (t @ CR # LF # rest) c = httpchunk_loop env ?ch w (t @ CR # LF # rest) c"
  proof (cases "chstate ch = CHUNK_TRAILER_POSTCR")
    case True
    then have "chunk_round env ch w (t @ CR # LF # rest) = (None, ?ch, w, 0)"
      using t by (simp add: chunk_round_def case_trailer_postcr_def)
    then show ?thesis using t by (subst httpchunk_loop.simps) simp
  next
    case False
    then have "?ch = ch" using assms(2) by (simp add: at_trailer_def)
    then show ?thesis by simp
  qed
  obtain tr where tr: "httpchunk_loop env ?ch w (t @ CR # LF # rest) c
      = httpchunk_loop env (?ch\<lparr>trailer := tr\<rparr>) w (CR # LF # rest) (c + length t)"
    "dyn_ok tr" "toobig tr = DYN_H1_TRAILER" "dyn_bytes tr = t"
    using loop_trailer_bytes [OF assms(1), of ?ch t w "CR # LF # rest" c] assms(2,3) by (auto simp: at_trailer_def trailer_ok_def)
  show ?thesis unfolding start tr(1) using trailer_line_end [OF assms(1), of "?ch\<lparr>trailer := tr\<rparr>" t w rest "c + length t"] tr assms(3)
    by simp
qed

lemma decode_end:
  assumes "at_trailer ch"
  shows "\<exists>ch'. httpchunk_loop env ch w [CR, LF] c = (CURLE_OK, ch', w, c + 2) \<and> chstate ch' = CHUNK_DONE"
  using assms by (auto simp: loop_step [of _ _ _ CR] loop_step [of _ _ _ LF] chunk_round_def case_trailer_def
      case_trailer_postcr_def case_stop_def curlx_dyn_ptr_def at_trailer_def)

lemma decode_trailers:
  assumes "plain_env env" and "at_trailer ch" and "list_all (trailer_ok env) ts"
  shows "\<exists>ch'. httpchunk_loop env ch w (trailer_lines ts @ [CR, LF]) c
    = (CURLE_OK, ch', w\<lparr>out_trailers := out_trailers w @ map (\<lambda>t. t @ [CR, LF]) ts\<rparr>, c + length (trailer_lines ts) + 2)
    \<and> chstate ch' = CHUNK_DONE"
  using assms(2,3)
proof (induction ts arbitrary: ch w c)
  case Nil
  then show ?case using decode_end [of ch env w c] by (simp add: trailer_lines_def)
next
  case (Cons t ts)
  let ?rest = "trailer_lines ts @ [CR, LF]"
  have e: "trailer_lines (t # ts) @ [CR, LF] = t @ CR # LF # ?rest" by (simp add: trailer_lines_def)
  obtain ch1 where ch1: "at_trailer ch1" "httpchunk_loop env ch w (t @ CR # LF # ?rest) c
      = httpchunk_loop env ch1 (w\<lparr>out_trailers := out_trailers w @ [t @ [CR, LF]]\<rparr>) ?rest (c + length t + 2)"
    using decode_trailer [OF assms(1) Cons.prems(1), of t w ?rest c] Cons.prems(2) by auto
  show ?case unfolding e ch1(2)
    using Cons.IH [OF ch1(1), of "w\<lparr>out_trailers := out_trailers w @ [t @ [CR, LF]]\<rparr>" "c + length t + 2"] Cons.prems(2)
    by (auto simp: trailer_lines_def)
qed

section \<open>A whole response\<close>

lemma decode_chunks:
  assumes "plain_env env" and "good_chunks cs" and "at_chunk ch" and "length (concat cs) \<le> out_room w"
  shows "\<exists>ch'. at_chunk ch' \<and> httpchunk_loop env ch w (concat (map wrap cs) @ rest) c
    = httpchunk_loop env ch' (w\<lparr>out_body := out_body w @ concat cs, out_room := out_room w - length (concat cs)\<rparr>) rest
        (c + length (concat (map wrap cs)))"
  using assms(2-4)
proof (induction cs arbitrary: ch w c)
  case Nil
  then show ?case by auto
next
  case (Cons d cs)
  let ?w = "w\<lparr>out_body := out_body w @ d, out_room := out_room w - length d\<rparr>"
  let ?rest = "concat (map wrap cs) @ rest"
  have e: "concat (map wrap (d # cs)) @ rest = wrap d @ ?rest" by simp
  obtain ch1 where ch1: "at_chunk ch1" "httpchunk_loop env ch w (wrap d @ ?rest) c = httpchunk_loop env ch1 ?w ?rest (c + length (wrap d))"
    using decode_chunk [OF Cons.prems(2), of env d w ?rest c] assms(1) Cons.prems by (auto simp: good_chunks_def plain_env_def)
  have "good_chunks cs" "length (concat cs) \<le> out_room ?w" using Cons.prems by (auto simp: good_chunks_def)
  from Cons.IH [OF this(1) ch1(1) this(2), of "c + length (wrap d)"] show ?case
    unfolding e ch1(2) by (simp add: add.assoc)
qed

lemma decode_zero:
  assumes "at_chunk ch"
  shows "\<exists>ch'. at_trailer ch' \<and> httpchunk_loop env ch w (CHR ''0'' # CR # LF # rest) c = httpchunk_loop env ch' w rest (c + 3)"
proof -
  let ?ch1 = "ch\<lparr>hexbuffer := ''0''\<rparr>"
  let ?ch2 = "?ch1\<lparr>datasize := 0, chstate := CHUNK_TRAILER\<rparr>"
  have x: "ISXDIGIT (CHR ''0'')" by (simp add: ISXDIGIT_code)
  have v: "num_value 16 ''0'' = int 0" using print_zx_digits(3) [of 0] by (simp add: print_zx_eq)
  have "httpchunk_loop env ch w (''0'' @ CR # LF # rest) c = httpchunk_loop env ?ch1 w (CR # LF # rest) (c + 1)"
    using loop_hex [of ch "''0''" env w "CR # LF # rest" c] x assms by (simp add: at_chunk_def CHUNK_MAXNUM_LEN_def)
  also have "\<dots> = httpchunk_loop env ?ch2 w rest (c + 3)"
    using loop_size_line [of ?ch1 "''0''" 0 env w rest "c + 1"] x v assms by (simp add: at_chunk_def numeral_3_eq_3)
  finally have "httpchunk_loop env ch w (''0'' @ CR # LF # rest) c = httpchunk_loop env ?ch2 w rest (c + 3)" .
  moreover have "at_trailer ?ch2" using assms by (simp add: at_chunk_def at_trailer_def dyn_ok_init) (simp add: curlx_dyn_init_def)
  ultimately show ?thesis by auto
qed

lemma decode_wire:
  assumes "plain_env env" and "good_chunks cs" and "list_all (trailer_ok env) ts" and "at_chunk ch"
    and "length (concat cs) \<le> out_room w"
  shows "\<exists>ch' w'. httpchunk_loop env ch w (chunk_wire cs ts) c = (CURLE_OK, ch', w', c + length (chunk_wire cs ts))
    \<and> chstate ch' = CHUNK_DONE \<and> out_body w' = out_body w @ concat cs
    \<and> out_trailers w' = out_trailers w @ map (\<lambda>t. t @ [CR, LF]) ts"
proof -
  let ?tl = "trailer_lines ts @ [CR, LF]"
  let ?w = "w\<lparr>out_body := out_body w @ concat cs, out_room := out_room w - length (concat cs)\<rparr>"
  obtain ch1 where c1: "at_chunk ch1" "httpchunk_loop env ch w (concat (map wrap cs) @ CHR ''0'' # CR # LF # ?tl) c
      = httpchunk_loop env ch1 ?w (CHR ''0'' # CR # LF # ?tl) (c + length (concat (map wrap cs)))"
    using decode_chunks [OF assms(1,2,4,5)] by blast
  obtain ch2 where c2: "at_trailer ch2" "httpchunk_loop env ch1 ?w (CHR ''0'' # CR # LF # ?tl) (c + length (concat (map wrap cs)))
      = httpchunk_loop env ch2 ?w ?tl (c + length (concat (map wrap cs)) + 3)"
    using decode_zero [OF c1(1), of env ?w ?tl] by blast
  have e: "chunk_wire cs ts = concat (map wrap cs) @ CHR ''0'' # CR # LF # ?tl" by (simp add: chunk_wire_def)
  show ?thesis unfolding e c1(2) c2(2)
    using decode_trailers [OF assms(1) c2(1) assms(3), of ?w "c + length (concat (map wrap cs)) + 3"] by auto
qed

section \<open>A response cut short\<close>

text \<open>The client only ever gets more bytes.\<close>

lemma client_take_grows: "client_take type bs w = (r, w') \<Longrightarrow> prefix (out_body w) (out_body w')"
  by (auto simp: client_take_def split: if_splits)

lemma round_grows:
  assumes "cw_next env = client_take" and "chunk_round env ch w buf = (q, ch', w', n)"
  shows "prefix (out_body w) (out_body w')"
  using assms client_take_grows
  by (cases "chstate ch") (auto simp: chunk_round_def case_defs Let_def split: if_splits prod.splits)

lemma loop_grows:
  "cw_next env = client_take \<Longrightarrow> httpchunk_loop env ch w buf c = (r, ch', w', n) \<Longrightarrow> prefix (out_body w) (out_body w')"
proof (induction env ch w buf c rule: httpchunk_loop.induct)
  case (1 env ch w buf c)
  show ?case
  proof (cases "buf = []")
    case True
    then show ?thesis using 1(3) by (simp add: httpchunk_loop.simps)
  next
    case False
    obtain q ch1 w1 m where rd: "chunk_round env ch w buf = (q, ch1, w1, m)" by (metis prod_cases4)
    note g = round_grows [OF 1(2) rd]
    show ?thesis
    proof (cases q)
      case None
      then have "prefix (out_body w1) (out_body w')"
        using 1(1) [of None "(ch1, w1, m)" ch1 "(w1, m)" w1 m] rd False 1(2,3) by (simp add: httpchunk_loop.simps [of env ch w buf])
      then show ?thesis using g prefix_order.trans by blast
    qed (use rd False 1(3) g in \<open>auto simp: httpchunk_loop.simps [of env ch w buf]\<close>)
  qed
qed

lemma decode_cut:
  assumes "plain_env env" and "live ch" and "chunker_ok ch" and "httpchunk_loop env ch w (p @ q) 0 = (CURLE_OK, ch1, w1, length (p @ q))"
    and "q \<noteq> []" and "httpchunk_loop env ch w p 0 = (r, ch2, w2, n)"
  shows "r = CURLE_OK \<and> chstate ch2 \<noteq> CHUNK_DONE \<and> prefix (out_body w2) (out_body w1)"
proof -
  have env: "cw_next env = client_take" "realloc_ok (tr_alloc env)" using assms(1) by (simp_all add: plain_env_def)
  have same: "same_outcome (CURLE_OK, ch1, w1, length (p @ q))
      (if r \<noteq> CURLE_OK \<or> chstate ch2 = CHUNK_DONE then (r, ch2, w2, n) else httpchunk_loop env ch2 w2 q n)"
    using client.loop_append [OF env(1) assms(2,6), of q] assms(4) by simp
  have "n \<le> length p" using loop_ok [OF env(2) assms(3,2,6)] by simp
  then have nd: "r = CURLE_OK \<and> chstate ch2 \<noteq> CHUNK_DONE" using same assms(5) by (auto simp: same_outcome_def split: if_splits)
  obtain r3 ch3 w3 n3 where l: "httpchunk_loop env ch2 w2 q n = (r3, ch3, w3, n3)" by (metis prod_cases4)
  then have "w3 = w1" using same nd by (simp add: same_outcome_def)
  then show ?thesis using nd loop_grows [OF env(1) l] by simp
qed

text \<open>A response as the transfer loop passes it on: writes of body bytes, the last of them with the end of the stream.\<close>

fun write_response ::
  "'w chunk_env \<Rightarrow> Curl_chunker \<Rightarrow> 'w \<Rightarrow> bool \<Rightarrow> bytes list \<Rightarrow> bytes \<Rightarrow> CURLcode \<times> Curl_chunker \<times> 'w \<times> bool" where
  "write_response env ch w dd [] l = cw_chunked_write env False ch w dd {CLIENTWRITE_BODY, CLIENTWRITE_EOS} l"
| "write_response env ch w dd (b # bs) l =
     (case cw_chunked_write env False ch w dd CW_BODY b of
        (r, ch', w', dd') \<Rightarrow> if r \<noteq> CURLE_OK then (r, ch', w', dd') else write_response env ch' w' dd' bs l)"

lemma write_response_feed:
  assumes "feed env ch w (bs @ [l]) = (CURLE_OK, ch', w')"
  shows "\<exists>dd'. write_response env ch w dd bs l = (if chstate ch' = CHUNK_DONE then CURLE_OK else CURLE_PARTIAL_FILE, ch', w', dd')
    \<and> (chstate ch' = CHUNK_DONE \<longrightarrow> dd') \<and> (\<not> dd \<and> chstate ch' \<noteq> CHUNK_DONE \<longrightarrow> \<not> dd')"
  using assms
proof (induction bs arbitrary: ch w dd)
  case Nil
  then show ?case by (auto simp: cw_chunked_write_def split: prod.splits if_splits)
next
  case (Cons b bs)
  obtain ch1 w1 n where b: "httpchunk_readwrite env ch w b = (CURLE_OK, ch1, w1, n)" "feed env ch1 w1 (bs @ [l]) = (CURLE_OK, ch', w')"
    using Cons.prems by (auto split: prod.splits if_splits)
  have "chstate ch' = CHUNK_DONE" if "chstate ch1 = CHUNK_DONE" using feed_done [OF that, of env w1 "bs @ [l]"] b(2) that by simp
  then show ?case using Cons.IH [OF b(2), of "dd \<or> chstate ch1 = CHUNK_DONE"] b(1)
    by (auto simp: cw_chunked_write_def split: prod.splits if_splits)
qed

section \<open>Property\<close>

text \<open>
  C13: a chunked response that ends early is never taken for a complete one.  Take any response in the
  reference format: chunks of at most 64 KB, the last chunk, any number of trailer lines and the empty line.  Let a
  prefix of it arrive, cut into buffers in any way, and the stream end with the last of them.  If the prefix is the whole response the writer
  returns \<open>CURLE_OK\<close>, marks the download complete and has passed on exactly the body and the trailers.  If
  anything is missing, were it the last line feed, it returns \<open>CURLE_PARTIAL_FILE\<close>, the download is not
  marked complete and what the client has is a prefix of the body.
\<close>

theorem chunked_truncation_detected:
  assumes "plain_env env" and "good_chunks cs" and "list_all (trailer_ok env) ts" and "length (concat cs) \<le> out_room w"
    and "chunk_wire cs ts = concat bufs @ l @ missing"
  shows "\<exists>r ch' w' dd'. write_response env (Curl_httpchunk_init False) w False bufs l = (r, ch', w', dd')
    \<and> (missing = [] \<longrightarrow> r = CURLE_OK \<and> dd' \<and> out_body w' = out_body w @ concat cs
         \<and> out_trailers w' = out_trailers w @ map (\<lambda>t. t @ [CR, LF]) ts)
    \<and> (missing \<noteq> [] \<longrightarrow> r = CURLE_PARTIAL_FILE \<and> \<not> dd' \<and> prefix (out_body w') (out_body w @ concat cs))"
proof -
  let ?ch = "Curl_httpchunk_init False" and ?p = "concat (bufs @ [l])"
  have init: "at_chunk ?ch" "live ?ch" by (simp_all add: at_chunk_def Curl_httpchunk_init_def)
  have env: "cw_next env = client_take" "\<not> http_te_skip env" using assms(1) by (simp_all add: plain_env_def)
  have e: "chunk_wire cs ts = ?p @ missing" using assms(5) by simp
  obtain ch1 w1 where whole: "httpchunk_loop env ?ch w (?p @ missing) 0 = (CURLE_OK, ch1, w1, length (?p @ missing))"
      "chstate ch1 = CHUNK_DONE" "out_body w1 = out_body w @ concat cs" "out_trailers w1 = out_trailers w @ map (\<lambda>t. t @ [CR, LF]) ts"
    using decode_wire [OF assms(1-3) init(1) assms(4), of 0] unfolding e by auto
  obtain r2 ch2 w2 n where part: "httpchunk_loop env ?ch w ?p 0 = (r2, ch2, w2, n)" by (metis prod_cases4)
  obtain r3 ch3 w3 where f: "feed env ?ch w (bufs @ [l]) = (r3, ch3, w3)" by (rule prod_cases3)
  have "httpchunk_readwrite env ?ch w ?p = (r2, ch2, w2, n)" using part readwrite_live [OF init(2) env(2)] by simp
  from client.feed_concat [OF env init(2) this f] have same: "r2 = r3" "w2 = w3" "chstate ch2 = chstate ch3"
    using same_chunker_state by blast+
  show ?thesis
  proof (cases "missing = []")
    case True
    then have "(r2, ch2, w2) = (CURLE_OK, ch1, w1)" using whole(1) part by simp
    then show ?thesis using write_response_feed [of env ?ch w bufs l ch3 w3 False] f same whole True by auto
  next
    case False
    note cut = decode_cut [OF assms(1) init(2) chunker_ok_init whole(1) False part]
    then show ?thesis using write_response_feed [of env ?ch w bufs l ch3 w3 False] f same whole(3) False by auto
  qed
qed

text \<open>One chunk and a trailer, without the last byte.\<close>

theorem chunked_truncation_detected_witness:
  "\<exists>ch' w'. write_response demo_env (Curl_httpchunk_init False) no_output False [wrap ''gurl'', ''0'' @ [CR]]
      ([LF] @ ''x: y'' @ [CR, LF, CR]) = (CURLE_PARTIAL_FILE, ch', w', False) \<and> prefix (out_body w') ''gurl''"
proof -
  have "plain_env demo_env" using sure_realloc_ok sure_realloc_total by (simp add: plain_env_def demo_env_def)
  moreover have "good_chunks [''gurl'']" "list_all (trailer_ok demo_env) [''x: y'']" "length (concat [''gurl'']) \<le> out_room no_output"
    by (simp_all add: good_chunks_def CURL_CHUNKED_MAXLEN_def trailer_ok_def demo_env_def DYN_H1_TRAILER_def no_output_def)
  moreover have "chunk_wire [''gurl''] [''x: y'']
      = concat [wrap ''gurl'', ''0'' @ [CR]] @ ([LF] @ ''x: y'' @ [CR, LF, CR]) @ [LF]"
    by (simp add: chunk_wire_def trailer_lines_def)
  ultimately show ?thesis using chunked_truncation_detected [of demo_env "[''gurl'']" "[''x: y'']" no_output _ _ "[LF]"]
    by (fastforce simp: no_output_def)
qed

end
