(* ===== verification/Timeval.thy ===== *)
theory Timeval
  imports Gurl_Prelude
begin

text \<open>
  Time stamps and their differences (\<^verbatim>\<open>lib/curlx/timeval.c\<close>).  A \<open>time_t\<close> and a
  \<open>timediff_t\<close> are integers; \<open>time_ok\<close> is the range in which no computation here leaves 64 bits.
\<close>

record curltime =
  tv_sec :: int
  tv_usec :: int

definition TIMEDIFF_T_MAX :: int where "TIMEDIFF_T_MAX = CURL_OFF_T_MAX"
definition TIMEDIFF_T_MIN :: int where "TIMEDIFF_T_MIN = - CURL_OFF_T_MAX - 1"

text \<open>Division in C rounds towards zero.\<close>

definition cdiv :: "int \<Rightarrow> int \<Rightarrow> int" where
  "cdiv a b = (if a < 0 then - ((- a) div b) else a div b)"

definition curlx_ptimediff_ms :: "curltime \<Rightarrow> curltime \<Rightarrow> int" where
  "curlx_ptimediff_ms newer older =
     (let diff = tv_sec newer - tv_sec older in
      if diff \<ge> cdiv TIMEDIFF_T_MAX 1000 then TIMEDIFF_T_MAX
      else if diff \<le> cdiv TIMEDIFF_T_MIN 1000 then TIMEDIFF_T_MIN
      else diff * 1000 + cdiv (tv_usec newer - tv_usec older) 1000)"

definition curlx_timediff_ceil_ms :: "curltime \<Rightarrow> curltime \<Rightarrow> int" where
  "curlx_timediff_ceil_ms newer older =
     (let diff = tv_sec newer - tv_sec older in
      if diff \<ge> cdiv TIMEDIFF_T_MAX 1000 then TIMEDIFF_T_MAX
      else if diff \<le> cdiv TIMEDIFF_T_MIN 1000 then TIMEDIFF_T_MIN
      else diff * 1000 + cdiv (tv_usec newer - tv_usec older + 999) 1000)"

definition curlx_ptimediff_us :: "curltime \<Rightarrow> curltime \<Rightarrow> int" where
  "curlx_ptimediff_us newer older =
     (let diff = tv_sec newer - tv_sec older in
      if diff \<ge> cdiv TIMEDIFF_T_MAX 1000000 then TIMEDIFF_T_MAX
      else if diff \<le> cdiv TIMEDIFF_T_MIN 1000000 then TIMEDIFF_T_MIN
      else diff * 1000000 + tv_usec newer - tv_usec older)"

section \<open>Differences against microseconds\<close>

text \<open>A time stamp as one number of microseconds.\<close>

definition micros :: "curltime \<Rightarrow> int" where
  "micros t = tv_sec t * 1000000 + tv_usec t"

definition time_ok :: "curltime \<Rightarrow> bool" where
  "time_ok t \<longleftrightarrow> 0 \<le> tv_sec t \<and> tv_sec t < 2 ^ 62 \<and> 0 \<le> tv_usec t \<and> tv_usec t < 1000000"

lemmas timediff_limits = TIMEDIFF_T_MAX_def TIMEDIFF_T_MIN_def CURL_OFF_T_MAX_def cdiv_def

lemma micros_inj: "time_ok s \<Longrightarrow> time_ok t \<Longrightarrow> micros s = micros t \<longleftrightarrow> s = t"
proof
  assume ok: "time_ok s" "time_ok t" and "micros s = micros t"
  then have "tv_sec s = tv_sec t" by (auto simp: micros_def time_ok_def)
  moreover from this have "tv_usec s = tv_usec t" using \<open>micros s = micros t\<close> by (simp add: micros_def)
  ultimately show "s = t" by simp
qed simp

lemma micros_nonneg: "time_ok t \<Longrightarrow> 0 \<le> micros t"
  by (simp add: micros_def time_ok_def)

text \<open>The difference in microseconds has the right sign even where it is capped.\<close>

lemma diff_us_sign:
  assumes "time_ok s" and "time_ok t"
  shows "curlx_ptimediff_us s t < 0 \<longleftrightarrow> micros s < micros t"
    and "0 < curlx_ptimediff_us s t \<longleftrightarrow> micros t < micros s"
    and "curlx_ptimediff_us s t = 0 \<longleftrightarrow> s = t"
proof -
  show 1: "curlx_ptimediff_us s t < 0 \<longleftrightarrow> micros s < micros t" and 2: "0 < curlx_ptimediff_us s t \<longleftrightarrow> micros t < micros s"
    using assms by (auto simp: curlx_ptimediff_us_def micros_def time_ok_def timediff_limits Let_def)
  show "curlx_ptimediff_us s t = 0 \<longleftrightarrow> s = t"
    using 1 2 micros_inj [OF assms] by (metis less_irrefl linorder_neqE_linordered_idom)
qed

text \<open>In milliseconds the sign is only right up to the rounding.\<close>

lemma diff_ms_pos:
  assumes "time_ok s" and "time_ok t" and "0 < curlx_ptimediff_ms s t"
  shows "micros t < micros s"
  using assms by (auto simp: curlx_ptimediff_ms_def micros_def time_ok_def timediff_limits Let_def split: if_splits)

lemma diff_ms_nonpos:
  assumes "time_ok s" and "time_ok t" and "curlx_ptimediff_ms s t \<le> 0"
  shows "micros s < micros t + 1000"
  using assms by (auto simp: curlx_ptimediff_ms_def micros_def time_ok_def timediff_limits Let_def split: if_splits)

lemma diff_ceil_ms:
  assumes "time_ok s" and "time_ok t" and "micros t < micros s" and "tv_sec s - tv_sec t < 2 ^ 40"
  shows "micros s \<le> micros t + 1000 * curlx_timediff_ceil_ms s t"
  using assms by (auto simp: curlx_timediff_ceil_ms_def micros_def time_ok_def timediff_limits Let_def split: if_splits)

end
