(* ===== verification/Splay.thy ===== *)
theory Splay
  imports Timeval "HOL-Library.Multiset"
begin

text \<open>
  The splay tree of timers, \<^verbatim>\<open>lib/splay.c\<close>.  A node of the tree carries a ring of nodes with the
  same key, the list that starts at the tree node and follows \<open>samen\<close>; a node is named by a number.
  What the code reads of a node that is not reached through the tree, its key and whether \<open>samen\<close>
  points to itself, is kept per node.  The two spines that \<open>Curl_splay\<close> links at \<open>l\<close> and \<open>r\<close> are
  lists, innermost first.

  Contents: the operations, the invariant, and the refinement to a list of entries ordered by key
  and, for equal keys, by insertion.
\<close>

datatype Curl_tree = Tip | Node Curl_tree curltime "nat list" Curl_tree

definition splay_compare :: "curltime \<Rightarrow> curltime \<Rightarrow> int" where
  "splay_compare i j = curlx_ptimediff_us i j"

fun link_larger :: "(Curl_tree \<times> curltime \<times> nat list) list \<Rightarrow> Curl_tree \<Rightarrow> Curl_tree" where
  "link_larger [] x = x"
| "link_larger ((s, k, rg) # l) x = link_larger l (Node s k rg x)"

fun link_smaller :: "(curltime \<times> nat list \<times> Curl_tree) list \<Rightarrow> Curl_tree \<Rightarrow> Curl_tree" where
  "link_smaller [] x = x"
| "link_smaller ((k, rg, la) # r) x = link_smaller r (Node x k rg la)"

fun assemble ::
  "(Curl_tree \<times> curltime \<times> nat list) list \<Rightarrow> (curltime \<times> nat list \<times> Curl_tree) list \<Rightarrow> Curl_tree \<Rightarrow> Curl_tree" where
  "assemble l r (Node s k rg la) = Node (link_larger l s) k rg (link_smaller r la)"
| "assemble l r Tip = Tip"

fun splay_loop ::
  "curltime \<Rightarrow> Curl_tree \<Rightarrow> (Curl_tree \<times> curltime \<times> nat list) list \<Rightarrow> (curltime \<times> nat list \<times> Curl_tree) list \<Rightarrow> Curl_tree" where
  "splay_loop pkey Tip l r = Tip"
| "splay_loop pkey (Node s k rg la) l r =
     (let comp = splay_compare pkey k in
      if comp < 0 then
        (case s of
           Tip \<Rightarrow> assemble l r (Node s k rg la)
         | Node s2 k2 rg2 la2 \<Rightarrow>
             if splay_compare pkey k2 < 0 then
               (case s2 of
                  Tip \<Rightarrow> assemble l r (Node s2 k2 rg2 (Node la2 k rg la))
                | Node _ _ _ _ \<Rightarrow> splay_loop pkey s2 l ((k2, rg2, Node la2 k rg la) # r))
             else splay_loop pkey s l ((k, rg, la) # r))
      else if comp > 0 then
        (case la of
           Tip \<Rightarrow> assemble l r (Node s k rg la)
         | Node s2 k2 rg2 la2 \<Rightarrow>
             if splay_compare pkey k2 > 0 then
               (case la2 of
                  Tip \<Rightarrow> assemble l r (Node (Node s k rg s2) k2 rg2 la2)
                | Node _ _ _ _ \<Rightarrow> splay_loop pkey la2 ((Node s k rg s2, k2, rg2) # l) r)
             else splay_loop pkey la ((s, k, rg) # l) r)
      else assemble l r (Node s k rg la))"

declare splay_loop.simps(2) [simp del]

definition Curl_splay :: "curltime \<Rightarrow> Curl_tree \<Rightarrow> Curl_tree" where
  "Curl_splay pkey t = (if t = Tip then Tip else splay_loop pkey t [] [])"

definition SPLAY_SUBNODE :: curltime where
  "SPLAY_SUBNODE = \<lparr>tv_sec = -1, tv_usec = -1\<rparr>"

definition tv_zero :: curltime where
  "tv_zero = \<lparr>tv_sec = 0, tv_usec = 0\<rparr>"

record splay =
  root :: Curl_tree
  nkey :: "nat \<Rightarrow> curltime"
  samen_self :: "nat \<Rightarrow> bool"
  nptr :: "nat \<Rightarrow> nat option"

definition Curl_splayinsert :: "curltime \<Rightarrow> splay \<Rightarrow> nat \<Rightarrow> splay" where
  "Curl_splayinsert pkey st node =
     (case Curl_splay pkey (root st) of
        Tip \<Rightarrow> st\<lparr>root := Node Tip pkey [node] Tip, nkey := (nkey st)(node := pkey),
                 samen_self := (samen_self st)(node := True)\<rparr>
      | Node s k rg la \<Rightarrow>
          if splay_compare pkey k = 0 then
            st\<lparr>root := Node s k (rg @ [node]) la, nkey := (nkey st)(node := SPLAY_SUBNODE),
               samen_self := (samen_self st)(node := False, List.last rg := False)\<rparr>
          else
            st\<lparr>root := (if splay_compare pkey k < 0 then Node s pkey [node] (Node Tip k rg la)
                        else Node (Node s k rg Tip) pkey [node] la),
               nkey := (nkey st)(node := pkey), samen_self := (samen_self st)(node := True)\<rparr>)"

text \<open>The next node \<open>x\<close> of a ring takes the place of the tree node.\<close>

definition ring_promote :: "splay \<Rightarrow> Curl_tree \<Rightarrow> curltime \<Rightarrow> nat list \<Rightarrow> Curl_tree \<Rightarrow> splay" where
  "ring_promote st s k rg la =
     (let x = rg ! 1 in
      st\<lparr>root := Node s k (List.tl rg) la, nkey := (nkey st)(x := k),
         samen_self := (samen_self st)(List.last rg := (List.last rg = x))\<rparr>)"

definition Curl_splaygetbest :: "curltime \<Rightarrow> splay \<Rightarrow> nat option \<times> splay" where
  "Curl_splaygetbest pkey st =
     (case Curl_splay tv_zero (root st) of
        Tip \<Rightarrow> (None, st\<lparr>root := Tip\<rparr>)
      | Node s k rg la \<Rightarrow>
          if splay_compare pkey k < 0 then (None, st\<lparr>root := Node s k rg la\<rparr>)
          else if length rg > 1 then (Some (hd rg), ring_promote st s k rg la)
          else (Some (hd rg), st\<lparr>root := la\<rparr>))"

fun rings :: "Curl_tree \<Rightarrow> nat list list" where
  "rings Tip = []"
| "rings (Node s k rg la) = rings s @ rg # rings la"

fun map_rings :: "(nat list \<Rightarrow> nat list) \<Rightarrow> Curl_tree \<Rightarrow> Curl_tree" where
  "map_rings f Tip = Tip"
| "map_rings f (Node s k rg la) = Node (map_rings f s) k (f rg) (map_rings f la)"

text \<open>The subtree at the tree node with a given name: what a pointer to that node shows.\<close>

fun tree_at :: "nat \<Rightarrow> Curl_tree \<Rightarrow> Curl_tree" where
  "tree_at n Tip = Tip"
| "tree_at n (Node s k rg la) =
     (if hd rg = n then Node s k rg la
      else case tree_at n s of Tip \<Rightarrow> tree_at n la | Node a b c d \<Rightarrow> Node a b c d)"

text \<open>
  On the return code 2 the tree has been splayed but the caller's root pointer is not changed:
  it shows the subtree below the node that was the root before.
\<close>

definition Curl_splayremove :: "splay \<Rightarrow> nat \<Rightarrow> nat \<times> splay" where
  "Curl_splayremove st removenode =
     (case root st of
        Tip \<Rightarrow> (1, st)
      | Node _ _ rg0 _ \<Rightarrow>
          if splay_compare SPLAY_SUBNODE (nkey st removenode) = 0 then
            if samen_self st removenode then (3, st)
            else (0, st\<lparr>root := map_rings (removeAll removenode) (root st),
                        samen_self := (\<lambda>m. if m = removenode then True
                          else if \<exists>rg\<in>set (rings (root st)). removenode \<in> set rg \<and> removeAll removenode rg = [m] then True
                          else samen_self st m)\<rparr>)
          else
            (case Curl_splay (nkey st removenode) (root st) of
               Tip \<Rightarrow> (2, st)
             | Node s k rg la \<Rightarrow>
                 if hd rg \<noteq> removenode then (2, st\<lparr>root := tree_at (hd rg0) (Node s k rg la)\<rparr>)
                 else if length rg > 1 then (0, ring_promote st s k rg la)
                 else
                   (0, st\<lparr>root :=
                     (if s = Tip then la
                      else case Curl_splay (nkey st removenode) s of
                             Tip \<Rightarrow> Tip
                           | Node s1 k1 rg1 la1 \<Rightarrow> Node s1 k1 rg1 la)\<rparr>)))"

definition Curl_splayset :: "splay \<Rightarrow> nat \<Rightarrow> nat \<Rightarrow> splay" where
  "Curl_splayset st node payload = st\<lparr>nptr := (nptr st)(node := Some payload)\<rparr>"

definition Curl_splayget :: "splay \<Rightarrow> nat \<Rightarrow> nat option" where
  "Curl_splayget st node = nptr st node"

section \<open>Splaying keeps the order\<close>

fun groups :: "Curl_tree \<Rightarrow> (curltime \<times> nat list) list" where
  "groups Tip = []"
| "groups (Node s k rg la) = groups s @ (k, rg) # groups la"

lemma groups_Tip [simp]: "groups t = [] \<longleftrightarrow> t = Tip"
  by (cases t) simp_all

text \<open>The nodes of the two spines, in order.\<close>

fun spine_l :: "(Curl_tree \<times> curltime \<times> nat list) list \<Rightarrow> (curltime \<times> nat list) list" where
  "spine_l [] = []"
| "spine_l ((s, k, rg) # l) = spine_l l @ groups s @ [(k, rg)]"

fun spine_r :: "(curltime \<times> nat list \<times> Curl_tree) list \<Rightarrow> (curltime \<times> nat list) list" where
  "spine_r [] = []"
| "spine_r ((k, rg, la) # r) = (k, rg) # groups la @ spine_r r"

lemma groups_link_larger [simp]: "groups (link_larger l x) = spine_l l @ groups x"
  by (induction l arbitrary: x rule: spine_l.induct) simp_all

lemma groups_link_smaller [simp]: "groups (link_smaller r x) = groups x @ spine_r r"
  by (induction r arbitrary: x rule: spine_r.induct) simp_all

lemma groups_assemble: "t \<noteq> Tip \<Longrightarrow> groups (assemble l r t) = spine_l l @ groups t @ spine_r r"
  by (cases t) simp_all

lemma groups_splay_loop: "t \<noteq> Tip \<Longrightarrow> groups (splay_loop pkey t l r) = spine_l l @ groups t @ spine_r r"
proof (induction pkey t l r rule: splay_loop.induct)
  case (2 pkey s k rg la l r)
  show ?case
  proof (cases "splay_compare pkey k < 0")
    case True
    then show ?thesis unfolding splay_loop.simps(2) [of pkey s k rg la l r]
      using "2.IH"(1,2) [OF refl True] by (cases s) (auto simp: Let_def split: Curl_tree.split)
  next
    case False
    then show ?thesis unfolding splay_loop.simps(2) [of pkey s k rg la l r]
      using "2.IH"(3,4) [OF refl False] by (cases la) (auto simp: Let_def split: Curl_tree.split)
  qed
qed simp

lemma groups_splay [simp]: "groups (Curl_splay pkey t) = groups t"
  using groups_splay_loop [of t pkey "[]" "[]"] by (cases "t = Tip") (simp_all add: Curl_splay_def)

lemma splay_of_Tip [simp]: "Curl_splay pkey Tip = Tip"
  by (simp add: Curl_splay_def)

lemma splay_Tip [simp]: "Curl_splay pkey t = Tip \<longleftrightarrow> t = Tip"
  by (metis groups_splay groups_Tip)

section \<open>The root after splaying\<close>

definition below :: "curltime \<Rightarrow> (curltime \<times> nat list) list \<Rightarrow> bool" where
  "below pk gs \<longleftrightarrow> list_all (\<lambda>(k, rg). micros k < micros pk) gs"

definition above :: "curltime \<Rightarrow> (curltime \<times> nat list) list \<Rightarrow> bool" where
  "above pk gs \<longleftrightarrow> list_all (\<lambda>(k, rg). micros pk < micros k) gs"

lemma below_simps [simp]:
  "below pk []" "below pk ((k, rg) # gs) \<longleftrightarrow> micros k < micros pk \<and> below pk gs"
  "below pk (gs @ hs) \<longleftrightarrow> below pk gs \<and> below pk hs"
  by (simp_all add: below_def)

lemma above_simps [simp]:
  "above pk []" "above pk ((k, rg) # gs) \<longleftrightarrow> micros pk < micros k \<and> above pk gs"
  "above pk (gs @ hs) \<longleftrightarrow> above pk gs \<and> above pk hs"
  by (simp_all add: above_def)

lemma below_trans: "below j gs \<Longrightarrow> micros j \<le> micros k \<Longrightarrow> below k gs"
  by (auto simp: below_def list_all_iff)

lemma above_trans: "above j gs \<Longrightarrow> micros k \<le> micros j \<Longrightarrow> above k gs"
  by (auto simp: above_def list_all_iff)

fun root_at :: "curltime \<Rightarrow> Curl_tree \<Rightarrow> bool" where
  "root_at pk (Node s k rg la) \<longleftrightarrow>
     k = pk \<or> micros pk < micros k \<and> below pk (groups s) \<or> micros k < micros pk \<and> above pk (groups la)"
| "root_at pk Tip \<longleftrightarrow> False"

text \<open>The keys of a tree are time stamps in strictly ascending order.\<close>

fun keys_ok :: "Curl_tree \<Rightarrow> bool" where
  "keys_ok Tip \<longleftrightarrow> True"
| "keys_ok (Node s k rg la) \<longleftrightarrow> keys_ok s \<and> keys_ok la \<and> time_ok k \<and> below k (groups s) \<and> above k (groups la)"

lemma root_at_assemble:
  "below pk (spine_l l) \<Longrightarrow> above pk (spine_r r) \<Longrightarrow> root_at pk t \<Longrightarrow> root_at pk (assemble l r t)"
  by (cases t) auto

lemma compare_sign:
  assumes "time_ok i" and "time_ok j"
  shows "splay_compare i j < 0 \<longleftrightarrow> micros i < micros j" "0 < splay_compare i j \<longleftrightarrow> micros j < micros i"
    "splay_compare i j = 0 \<longleftrightarrow> i = j"
  using diff_us_sign [OF assms] by (simp_all add: splay_compare_def)

lemma splay_loop_root:
  assumes "time_ok pkey" and "t \<noteq> Tip" and "keys_ok t" and "below pkey (spine_l l)" and "above pkey (spine_r r)"
  shows "root_at pkey (splay_loop pkey t l r)"
  using assms
proof (induction pkey t l r rule: splay_loop.induct)
  case (2 pkey s k rg la l r)
  have ok: "time_ok pkey" "time_ok k" "keys_ok s" "keys_ok la" "below k (groups s)" "above k (groups la)"
    using "2.prems" by simp_all
  note u = splay_loop.simps(2) [of pkey s k rg la l r] and fin = root_at_assemble [OF "2.prems"(4,5)]
  note cmp = compare_sign [OF ok(1)]
  consider "micros pkey < micros k" | "micros k < micros pkey" | "pkey = k"
    using micros_inj [OF ok(1,2)] by linarith
  then show ?case
  proof cases
    case 1
    note up = above_trans [OF _ less_imp_le [OF 1]]
    show ?thesis
    proof (cases s)
      case Tip
      then show ?thesis unfolding u using 1 cmp [OF ok(2)] fin [of "Node Tip k rg la"] by simp
    next
      case (Node s2 k2 rg2 la2)
      then have k2: "time_ok k2" "keys_ok s2" "above k2 (groups la2)" using ok(3) by simp_all
      show ?thesis
      proof (cases "micros pkey < micros k2")
        case True
        show ?thesis
        proof (cases s2)
          case Tip
          then show ?thesis unfolding u using Node True 1 cmp [OF ok(2)] cmp [OF k2(1)]
              fin [of "Node Tip k2 rg2 (Node la2 k rg la)"] by simp
        next
          case (Node a b c d)
          have "above pkey (spine_r ((k2, rg2, Node la2 k rg la) # r))"
            using True 1 up [OF ok(6)] above_trans [OF k2(3) less_imp_le [OF True]] "2.prems"(5) by simp
          then show ?thesis unfolding u
            using "2.IH"(1) [OF refl _ \<open>s = Node s2 k2 rg2 la2\<close> _ Node] Node \<open>s = Node s2 k2 rg2 la2\<close> True 1 k2(2)
              "2.prems"(1,4) cmp [OF ok(2)] cmp [OF k2(1)] by simp
        qed
      next
        case False
        have "above pkey (spine_r ((k, rg, la) # r))" using 1 up [OF ok(6)] "2.prems"(5) by simp
        then show ?thesis unfolding u
          using "2.IH"(2) [OF refl _ Node] Node False 1 ok(3) "2.prems"(1,4) cmp [OF ok(2)] cmp [OF k2(1)]
          by simp
      qed
    qed
  next
    case 2
    note dn = below_trans [OF _ less_imp_le [OF 2]]
    show ?thesis
    proof (cases la)
      case Tip
      then show ?thesis unfolding u using 2 cmp [OF ok(2)] fin [of "Node s k rg Tip"] by simp
    next
      case (Node s2 k2 rg2 la2)
      then have k2: "time_ok k2" "keys_ok la2" "below k2 (groups s2)" using ok(4) by simp_all
      show ?thesis
      proof (cases "micros k2 < micros pkey")
        case True
        show ?thesis
        proof (cases la2)
          case Tip
          then show ?thesis unfolding u using Node True 2 cmp [OF ok(2)] cmp [OF k2(1)]
              fin [of "Node (Node s k rg s2) k2 rg2 Tip"] by simp
        next
          case (Node a b c d)
          have "below pkey (spine_l ((Node s k rg s2, k2, rg2) # l))"
            using True 2 dn [OF ok(5)] below_trans [OF k2(3) less_imp_le [OF True]] "2.prems"(4) by simp
          then show ?thesis unfolding u
            using "2.IH"(3) [OF refl _ _ \<open>la = Node s2 k2 rg2 la2\<close> _ Node] Node \<open>la = Node s2 k2 rg2 la2\<close> True 2 k2(2)
              "2.prems"(1,5) cmp [OF ok(2)] cmp [OF k2(1)] by simp
        qed
      next
        case False
        have "below pkey (spine_l ((s, k, rg) # l))" using 2 dn [OF ok(5)] "2.prems"(4) by simp
        then show ?thesis unfolding u
          using "2.IH"(4) [OF refl _ _ Node] Node False 2 ok(4) "2.prems"(1,5) cmp [OF ok(2)] cmp [OF k2(1)]
          by simp
      qed
    qed
  next
    case 3
    then show ?thesis unfolding u using cmp [OF ok(2)] fin [of "Node s k rg la"] by simp
  qed
qed simp

lemma keys_ok_groups:
  "keys_ok t \<longleftrightarrow> list_all (\<lambda>(k, rg). time_ok k) (groups t) \<and> sorted_wrt (\<lambda>a b. micros (fst a) < micros (fst b)) (groups t)"
proof (induction t)
  case (Node s k rg la)
  let ?lt = "\<lambda>a b. micros (fst a) < micros (fst b)"
  have b: "below k (groups s) \<longleftrightarrow> (\<forall>a\<in>set (groups s). ?lt a (k, rg))" by (auto simp: below_def list_all_iff)
  have a: "above k (groups la) \<longleftrightarrow> (\<forall>a\<in>set (groups la). ?lt (k, rg) a)" by (auto simp: above_def list_all_iff)
  have "(\<forall>x\<in>set (groups s). ?lt x (k, rg)) \<Longrightarrow> (\<forall>y\<in>set (groups la). ?lt (k, rg) y) \<Longrightarrow>
      \<forall>x\<in>set (groups s). \<forall>y\<in>set (groups la). ?lt x y" by fastforce
  then show ?case unfolding keys_ok.simps Node b a groups.simps sorted_wrt_append by auto
qed simp

lemma splay_root: "time_ok pkey \<Longrightarrow> t \<noteq> Tip \<Longrightarrow> keys_ok t \<Longrightarrow> root_at pkey (Curl_splay pkey t)"
  using splay_loop_root [of pkey t "[]" "[]"] by (simp add: Curl_splay_def)

lemma keys_ok_splay [simp]: "keys_ok (Curl_splay pkey t) \<longleftrightarrow> keys_ok t"
  by (simp add: keys_ok_groups)

section \<open>Timers in the order they fire\<close>

definition entries :: "(curltime \<times> nat list) list \<Rightarrow> (curltime \<times> nat) list" where
  "entries gs = concat (map (\<lambda>(k, rg). map (Pair k) rg) gs)"

lemma entries_simps [simp]:
  "entries [] = []" "entries ((k, rg) # gs) = map (Pair k) rg @ entries gs" "entries (gs @ hs) = entries gs @ entries hs"
  by (simp_all add: entries_def)

definition timers :: "splay \<Rightarrow> (curltime \<times> nat) list" where
  "timers st = entries (groups (root st))"

text \<open>
  A ring: its first node carries the key, the others are marked as subnodes, and \<open>samen\<close> points
  to the node itself exactly in a ring of one.
\<close>

fun ring_ok :: "(nat \<Rightarrow> curltime) \<Rightarrow> (nat \<Rightarrow> bool) \<Rightarrow> curltime \<times> nat list \<Rightarrow> bool" where
  "ring_ok nk self (k, rg) \<longleftrightarrow> rg \<noteq> [] \<and> nk (hd rg) = k \<and> (\<forall>n\<in>set (List.tl rg). nk n = SPLAY_SUBNODE)
     \<and> (\<forall>n\<in>set rg. self n = (length rg = 1))"

definition splay_ok :: "splay \<Rightarrow> bool" where
  "splay_ok st \<longleftrightarrow> keys_ok (root st) \<and> list_all (ring_ok (nkey st) (samen_self st)) (groups (root st))
     \<and> distinct (map snd (timers st))"

lemma ids_entries: "map snd (entries gs) = concat (map snd gs)"
  by (induction gs) (auto simp: entries_def comp_def)

lemma in_entries: "(k, n) \<in> set (entries gs) \<longleftrightarrow> (\<exists>rg. (k, rg) \<in> set gs \<and> n \<in> set rg)"
  by (induction gs) auto

lemma ring_ok_cong:
  "(\<And>n. n \<in> set (snd g) \<Longrightarrow> nk n = nk' n \<and> self n = self' n) \<Longrightarrow> ring_ok nk self g \<longleftrightarrow> ring_ok nk' self' g"
proof (cases g)
  case (Pair k rg)
  assume a: "\<And>n. n \<in> set (snd g) \<Longrightarrow> nk n = nk' n \<and> self n = self' n"
  show ?thesis
  proof (cases rg)
    case (Cons n ns)
    then show ?thesis using a Pair by auto
  qed (simp add: Pair)
qed

lemma rings_ok_cong:
  assumes "\<And>n. n \<in> snd ` set (entries gs) \<Longrightarrow> nk n = nk' n \<and> self n = self' n"
  shows "list_all (ring_ok nk self) gs \<longleftrightarrow> list_all (ring_ok nk' self') gs"
proof -
  have "n \<in> snd ` set (entries gs)" if "g \<in> set gs" "n \<in> set (snd g)" for g n
    using that by (force simp: entries_def split_def)
  then show ?thesis using assms ring_ok_cong by (metis (no_types, lifting) list_all_cong)
qed

lemma filter_below:
  assumes "below pk gs"
  shows "filter (\<lambda>e. micros (fst e) \<le> micros pk) (entries gs) = entries gs"
    "filter (\<lambda>e. micros pk < micros (fst e)) (entries gs) = []"
proof -
  have "micros k < micros pk" if "(k, n) \<in> set (entries gs)" for k n
    using that assms by (auto simp: in_entries below_def list_all_iff)
  then show "filter (\<lambda>e. micros (fst e) \<le> micros pk) (entries gs) = entries gs"
    "filter (\<lambda>e. micros pk < micros (fst e)) (entries gs) = []"
    by (fastforce intro!: filter_True filter_False)+
qed

lemma filter_above:
  assumes "above pk gs"
  shows "filter (\<lambda>e. micros (fst e) \<le> micros pk) (entries gs) = []"
    "filter (\<lambda>e. micros pk < micros (fst e)) (entries gs) = entries gs"
proof -
  have "micros pk < micros k" if "(k, n) \<in> set (entries gs)" for k n
    using that assms by (auto simp: in_entries above_def list_all_iff)
  then show "filter (\<lambda>e. micros (fst e) \<le> micros pk) (entries gs) = []"
    "filter (\<lambda>e. micros pk < micros (fst e)) (entries gs) = entries gs"
    by (fastforce intro!: filter_True filter_False)+
qed

text \<open>Insertion behind every entry that is not later.\<close>

definition timer_add :: "curltime \<Rightarrow> nat \<Rightarrow> (curltime \<times> nat) list \<Rightarrow> (curltime \<times> nat) list" where
  "timer_add pk n es = filter (\<lambda>e. micros (fst e) \<le> micros pk) es @ [(pk, n)] @ filter (\<lambda>e. micros pk < micros (fst e)) es"

text \<open>What the operations on a splayed tree start from.\<close>

lemma splay_ok_split:
  assumes "splay_ok st" and "Curl_splay pkey (root st) = Node s k rg la"
  shows "groups (root st) = groups s @ (k, rg) # groups la" and "keys_ok (Node s k rg la)"
    and "ring_ok (nkey st) (samen_self st) (k, rg)"
    and "list_all (ring_ok (nkey st) (samen_self st)) (groups s)"
    and "list_all (ring_ok (nkey st) (samen_self st)) (groups la)"
    and "distinct (map snd (entries (groups s)) @ rg @ map snd (entries (groups la)))"
    and "time_ok pkey \<Longrightarrow> root_at pkey (Node s k rg la)"
proof -
  show g: "groups (root st) = groups s @ (k, rg) # groups la" using groups_splay [of pkey "root st"] assms(2) by simp
  show "keys_ok (Node s k rg la)" using assms keys_ok_splay [of pkey "root st"] by (simp add: splay_ok_def)
  show "ring_ok (nkey st) (samen_self st) (k, rg)" "list_all (ring_ok (nkey st) (samen_self st)) (groups s)"
    "list_all (ring_ok (nkey st) (samen_self st)) (groups la)"
    using assms(1) g by (simp_all add: splay_ok_def)
  show "distinct (map snd (entries (groups s)) @ rg @ map snd (entries (groups la)))"
    using assms(1) g by (simp add: splay_ok_def timers_def comp_def)
  show "time_ok pkey \<Longrightarrow> root_at pkey (Node s k rg la)"
  proof -
    have "root st \<noteq> Tip" using assms(2) by (metis Curl_tree.distinct(1) splay_of_Tip)
    then show "time_ok pkey \<Longrightarrow> root_at pkey (Node s k rg la)"
      using splay_root [of pkey "root st"] assms by (simp add: splay_ok_def del: root_at.simps)
  qed
qed

lemma splayinsert_ok:
  assumes "splay_ok st" and "time_ok pkey" and "node \<notin> snd ` set (timers st)"
  shows "splay_ok (Curl_splayinsert pkey st node) \<and> timers (Curl_splayinsert pkey st node) = timer_add pkey node (timers st)"
proof (cases "Curl_splay pkey (root st)")
  case Tip
  then have "root st = Tip" by simp
  then show ?thesis using assms Tip
    by (simp add: Curl_splayinsert_def splay_ok_def timers_def timer_add_def)
next
  case (Node s k rg la)
  note sp = splay_ok_split [OF assms(1) Node] and rt = splay_ok_split(7) [OF assms(1) Node assms(2)]
  let ?E = "entries (groups s)" and ?F = "entries (groups la)"
  have fresh: "node \<notin> snd ` set ?E" "node \<notin> set rg" "node \<notin> snd ` set ?F"
    using assms(3) unfolding timers_def sp(1) by (simp_all add: image_Un image_image)
  have tk: "time_ok k" using sp(2) by simp
  note cmp = compare_sign [OF assms(2) tk]
  have cong: "list_all (ring_ok nk self) gs" if "list_all (ring_ok (nkey st) (samen_self st)) gs"
      "\<And>n. n \<in> snd ` set (entries gs) \<Longrightarrow> nkey st n = nk n \<and> samen_self st n = self n" for gs nk self
    using that rings_ok_cong by blast
  show ?thesis
  proof (cases "k = pkey")
    case True
    let ?nk = "(nkey st)(node := SPLAY_SUBNODE)" and ?self = "(samen_self st)(node := False, List.last rg := False)"
    have r: "Curl_splayinsert pkey st node = st\<lparr>root := Node s k (rg @ [node]) la, nkey := ?nk, samen_self := ?self\<rparr>"
      using Node True cmp by (simp add: Curl_splayinsert_def)
    have rg: "rg \<noteq> []" using sp(3) by simp
    then have "List.last rg \<in> set rg" by simp
    then have lst: "List.last rg \<notin> snd ` set ?E" "List.last rg \<notin> snd ` set ?F" using sp(6) by auto
    have "ring_ok ?nk ?self (k, rg @ [node])"
      using sp(3) fresh(2) rg by (cases rg) auto
    moreover have "list_all (ring_ok ?nk ?self) (groups s)" by (rule cong [OF sp(4)]) (metis fresh(1) lst(1) fun_upd_other)
    moreover have "list_all (ring_ok ?nk ?self) (groups la)" by (rule cong [OF sp(5)]) (metis fresh(3) lst(2) fun_upd_other)
    moreover have "distinct (map snd ?E @ (rg @ [node]) @ map snd ?F)" using sp(6) fresh by auto
    ultimately show ?thesis unfolding r using sp(1,2) True
      by (simp add: splay_ok_def timers_def timer_add_def filter_below filter_above comp_def)
  next
    case False
    let ?nk = "(nkey st)(node := pkey)" and ?self = "(samen_self st)(node := True)"
    have r1: "list_all (ring_ok ?nk ?self) (groups s)" by (rule cong [OF sp(4)]) (metis fresh(1) fun_upd_other)
    have r2: "list_all (ring_ok ?nk ?self) (groups la)" by (rule cong [OF sp(5)]) (metis fresh(3) fun_upd_other)
    have r3: "list_all (ring_ok ?nk ?self) [(k, rg)]" by (rule cong) (use sp(3) fresh in auto)
    note rings = r1 r2 r3
    show ?thesis
    proof (cases "micros pkey < micros k")
      case True
      then have b: "below pkey (groups s)" using rt False by auto
      have a: "above pkey (groups la)" using sp(2) True above_trans [of k] by auto
      have "Curl_splayinsert pkey st node
          = st\<lparr>root := Node s pkey [node] (Node Tip k rg la), nkey := ?nk, samen_self := ?self\<rparr>"
        using Node False True cmp by (simp add: Curl_splayinsert_def)
      then show ?thesis using sp(1,2,6) True a b rings assms(2) fresh
        by (simp add: splay_ok_def timers_def timer_add_def filter_below filter_above comp_def filter_empty_conv)
    next
      case gt: False
      then have lt: "micros k < micros pkey" using micros_inj [OF assms(2) tk] False by (metis linorder_less_linear)
      have a: "above pkey (groups la)" using rt False gt by auto
      have b: "below pkey (groups s)" using sp(2) lt below_trans [of k] by auto
      have "Curl_splayinsert pkey st node
          = st\<lparr>root := Node (Node s k rg Tip) pkey [node] la, nkey := ?nk, samen_self := ?self\<rparr>"
        using Node False lt cmp by (simp add: Curl_splayinsert_def)
      then show ?thesis using sp(1,2,6) lt a b rings assms(2) fresh
        by (simp add: splay_ok_def timers_def timer_add_def filter_below filter_above comp_def filter_empty_conv)
    qed
  qed
qed

lemma zero_smallest:
  assumes "splay_ok st" and "Curl_splay tv_zero (root st) = Node s k rg la" shows "groups s = []"
proof -
  note sp = splay_ok_split [OF assms]
  have z: "time_ok tv_zero" "micros tv_zero = 0" by (simp_all add: time_ok_def tv_zero_def micros_def)
  have nn: "\<forall>(j, rg)\<in>set (groups s). 0 \<le> micros j"
    using sp(2) micros_nonneg by (auto simp: keys_ok_groups list_all_iff)
  have "0 \<le> micros k" using sp(2) micros_nonneg by simp
  then have "below tv_zero (groups s)" using sp(7) [OF z(1)] z(2) sp(2) by auto
  then show ?thesis using nn z(2) by (cases "groups s") auto
qed

lemma ring_promote_ok:
  assumes "splay_ok st" and "Curl_splay pkey (root st) = Node s k rg la" and "length rg > 1"
  shows "splay_ok (ring_promote st s k rg la)
    \<and> timers (ring_promote st s k rg la) = entries (groups s) @ map (Pair k) (List.tl rg) @ entries (groups la)"
proof -
  note sp = splay_ok_split [OF assms(1,2)]
  obtain t x r where rg: "rg = t # x # r" using assms(3) by (cases rg; cases "List.tl rg") auto
  let ?nk = "(nkey st)(x := k)" and ?self = "(samen_self st)(List.last (x # r) := (List.last (x # r) = x))"
  have p: "ring_promote st s k rg la = st\<lparr>root := Node s k (x # r) la, nkey := ?nk, samen_self := ?self\<rparr>"
    by (simp add: ring_promote_def rg)
  have l: "List.last (x # r) \<in> set rg" "x \<in> set rg" by (auto simp: rg)
  have "set rg \<inter> snd ` set (entries (groups s)) = {}" "set rg \<inter> snd ` set (entries (groups la)) = {}"
    using sp(6) by auto
  then have out: "x \<notin> snd ` set (entries (groups s))" "List.last (x # r) \<notin> snd ` set (entries (groups s))"
      "x \<notin> snd ` set (entries (groups la))" "List.last (x # r) \<notin> snd ` set (entries (groups la))"
    using l by blast+
  have d: "distinct (x # r)" using sp(6) by (auto simp: rg)
  have "ring_ok ?nk ?self (k, x # r)"
  proof (cases r rule: rev_cases)
    case Nil
    then show ?thesis by simp
  next
    case (snoc r' y)
    then show ?thesis using sp(3) d by (auto simp: rg)
  qed
  moreover have "list_all (ring_ok ?nk ?self) (groups s)"
    using sp(4) by (rule rings_ok_cong [THEN iffD1, rotated]) (metis out(1,2) fun_upd_other)
  moreover have "list_all (ring_ok ?nk ?self) (groups la)"
    using sp(5) by (rule rings_ok_cong [THEN iffD1, rotated]) (metis out(3,4) fun_upd_other)
  ultimately show ?thesis unfolding p using sp(2,6) by (simp add: splay_ok_def timers_def rg comp_def)
qed

lemma splaygetbest_ok:
  assumes "splay_ok st" and "time_ok pkey" and "Curl_splaygetbest pkey st = (r, st')"
  shows "splay_ok st' \<and> (case timers st of
      [] \<Rightarrow> r = None \<and> timers st' = []
    | (k, n) # es \<Rightarrow> if micros k \<le> micros pkey then r = Some n \<and> timers st' = es
        else r = None \<and> timers st' = timers st)"
proof (cases "Curl_splay tv_zero (root st)")
  case Tip
  then have "root st = Tip" by simp
  then show ?thesis using assms(1,3) by (auto simp: Curl_splaygetbest_def timers_def splay_ok_def)
next
  case (Node s k rg la)
  note sp = splay_ok_split [OF assms(1) Node] and s = zero_smallest [OF assms(1) Node]
  obtain n ns where rg: "rg = n # ns" using sp(3) by (cases rg) auto
  have t: "timers st = (k, n) # map (Pair k) ns @ entries (groups la)" using sp(1) s by (simp add: timers_def rg)
  have tk: "time_ok k" using sp(2) by simp
  note cmp = compare_sign [OF assms(2) tk]
  consider "micros pkey < micros k" | "micros k \<le> micros pkey" "ns = []" | "micros k \<le> micros pkey" "ns \<noteq> []" by linarith
  then show ?thesis
  proof cases
    case 1
    then have "r = None" "st' = st\<lparr>root := Node s k rg la\<rparr>" using assms(3) Node cmp by (auto simp: Curl_splaygetbest_def)
    then have "splay_ok st'" "timers st' = timers st" "r = None" using assms(1) sp(1,2) by (simp_all add: splay_ok_def timers_def)
    then show ?thesis using t 1 by simp
  next
    case 2
    then have "r = Some n" "st' = st\<lparr>root := la\<rparr>" using assms(3) Node cmp rg by (auto simp: Curl_splaygetbest_def)
    then have "splay_ok st'" "timers st' = entries (groups la)" "r = Some n" using sp by (simp_all add: splay_ok_def timers_def)
    then show ?thesis using t 2 by simp
  next
    case 3
    then have "r = Some n" "st' = ring_promote st s k rg la" using assms(3) Node cmp rg by (auto simp: Curl_splaygetbest_def)
    then show ?thesis using ring_promote_ok [OF assms(1) Node] t 3 s rg by simp
  qed
qed

text \<open>Removal.\<close>

lemma subnode_compare: "time_ok k \<Longrightarrow> splay_compare SPLAY_SUBNODE k \<noteq> 0" "splay_compare SPLAY_SUBNODE SPLAY_SUBNODE = 0"
  by (auto simp: splay_compare_def curlx_ptimediff_us_def SPLAY_SUBNODE_def time_ok_def timediff_limits Let_def)

lemma rings_groups: "rings t = map snd (groups t)"
  by (induction t) simp_all

lemma groups_map_rings: "groups (map_rings f t) = map (\<lambda>(k, rg). (k, f rg)) (groups t)"
  by (induction t) simp_all

lemma keys_ok_map_rings [simp]: "keys_ok (map_rings f t) \<longleftrightarrow> keys_ok t"
  by (induction t) (simp_all add: groups_map_rings below_def above_def list_all_iff split_def)

lemma entries_removeAll:
  "entries (map (\<lambda>(k, rg). (k, removeAll n rg)) gs) = filter (\<lambda>e. snd e \<noteq> n) (entries gs)"
proof (induction gs)
  case (Cons g gs)
  have "map (Pair k) (removeAll n rg) = filter (\<lambda>e. snd e \<noteq> n) (map (Pair k) rg)" for k rg
    by (induction rg) simp_all
  then show ?case using Cons by (cases g) simp
qed simp

text \<open>A key that is in the tree is at the root after splaying.\<close>

lemma splay_finds:
  assumes "splay_ok st" and "(k, rg) \<in> set (groups (root st))"
  shows "\<exists>s la. Curl_splay k (root st) = Node s k rg la"
proof -
  have tk: "time_ok k" using assms by (auto simp: splay_ok_def keys_ok_groups list_all_iff)
  have "root st \<noteq> Tip" using assms(2) by auto
  then obtain s k' rg' la where n: "Curl_splay k (root st) = Node s k' rg' la"
    by (metis Curl_tree.exhaust splay_Tip)
  note sp = splay_ok_split [OF assms(1) n]
  have "(k, rg) \<in> set (groups s) \<or> (k, rg) = (k', rg') \<or> (k, rg) \<in> set (groups la)" using sp(1) assms(2) by auto
  moreover have "(k, rg) \<notin> set (groups s)"
  proof
    assume "(k, rg) \<in> set (groups s)"
    then have "micros k < micros k'" "\<not> below k (groups s)" using sp(2) by (auto simp: below_def list_all_iff)
    then show False using sp(7) [OF tk] by auto
  qed
  moreover have "(k, rg) \<notin> set (groups la)"
  proof
    assume "(k, rg) \<in> set (groups la)"
    then have "micros k' < micros k" "\<not> above k (groups la)" using sp(2) by (auto simp: above_def list_all_iff)
    then show False using sp(7) [OF tk] by auto
  qed
  ultimately show ?thesis using n by auto
qed

lemma splay_below_root:
  assumes "keys_ok t" and "time_ok k" and "below k (groups t)" and "Curl_splay k t = Node s1 k1 rg1 la1"
  shows "groups la1 = []"
proof -
  have "t \<noteq> Tip" using assms(4) by (metis Curl_tree.distinct(1) splay_of_Tip)
  then have r: "root_at k (Node s1 k1 rg1 la1)" using splay_root [OF assms(2) _ assms(1)] assms(4) by simp
  have g: "groups t = groups s1 @ (k1, rg1) # groups la1" using groups_splay [of k t] assms(4) by simp
  then have "micros k1 < micros k" "below k (groups la1)" using assms(3) by simp_all
  then have "above k (groups la1)" using r by auto
  then show ?thesis using \<open>below k (groups la1)\<close> by (cases "groups la1") auto
qed

lemma concat_unique:
  "distinct (concat xss) \<Longrightarrow> xs \<in> set xss \<Longrightarrow> ys \<in> set xss \<Longrightarrow> x \<in> set xs \<Longrightarrow> x \<in> set ys \<Longrightarrow> xs = ys"
  by (induction xss) auto

lemma ring_unique:
  assumes "splay_ok st" and "rg \<in> set (rings (root st))" and "q \<in> set (rings (root st))" and "n \<in> set rg" and "n \<in> set q"
  shows "rg = q"
  using assms concat_unique [of "rings (root st)" rg q n]
  by (simp add: splay_ok_def timers_def ids_entries rings_groups)

lemma splayremove_subnode:
  assumes "splay_ok st" and "(k, rg) \<in> set (groups (root st))" and "n \<in> set (List.tl rg)"
    and "Curl_splayremove st n = (rc, st')"
  shows "rc = 0 \<and> splay_ok st' \<and> timers st' = filter (\<lambda>e. snd e \<noteq> n) (timers st)"
proof -
  have ring: "ring_ok (nkey st) (samen_self st) (k, rg)" using assms(1,2) by (auto simp: splay_ok_def list_all_iff)
  then obtain h ns where rg: "rg = h # ns" "n \<in> set ns" using assms(3) by (cases rg) auto
  then have n: "nkey st n = SPLAY_SUBNODE" "\<not> samen_self st n" using ring by auto
  define self where "self = (\<lambda>m. if m = n then True
    else if \<exists>rg\<in>set (rings (root st)). n \<in> set rg \<and> removeAll n rg = [m] then True else samen_self st m)"
  have "root st \<noteq> Tip" using assms(2) by auto
  then have r: "rc = 0" "st' = st\<lparr>root := map_rings (removeAll n) (root st), samen_self := self\<rparr>"
    using assms(4) n subnode_compare(2) by (auto simp: Curl_splayremove_def self_def split: Curl_tree.splits)
  have t: "timers st' = filter (\<lambda>e. snd e \<noteq> n) (timers st)"
    by (simp add: r timers_def groups_map_rings entries_removeAll)
  have "ring_ok (nkey st) self (j, removeAll n q)" if q: "(j, q) \<in> set (groups (root st))" for j q
  proof (cases "n \<in> set q")
    case False
    have "\<not> (\<exists>rg\<in>set (rings (root st)). n \<in> set rg \<and> removeAll n rg = [m])" if m: "m \<in> set q" for m
    proof
      assume "\<exists>rg\<in>set (rings (root st)). n \<in> set rg \<and> removeAll n rg = [m]"
      then obtain r where r: "r \<in> set (rings (root st))" "n \<in> set r" "removeAll n r = [m]" by blast
      have "m \<in> set (removeAll n r)" using r(3) by simp
      then have "m \<in> set r" by simp
      moreover have "q \<in> set (rings (root st))" using q by (force simp: rings_groups)
      ultimately show False using ring_unique [OF assms(1) r(1), of q m] m r(2) False by simp
    qed
    then have "ring_ok (nkey st) self (j, q) \<longleftrightarrow> ring_ok (nkey st) (samen_self st) (j, q)"
      using False by (intro ring_ok_cong) (auto simp: self_def)
    moreover have "ring_ok (nkey st) (samen_self st) (j, q)" using assms(1) q by (auto simp: splay_ok_def list_all_iff)
    ultimately show ?thesis using False by (simp add: removeAll_id)
  next
    case True
    have in_rings: "q \<in> set (rings (root st))" "rg \<in> set (rings (root st))" using q assms(2) by (force simp: rings_groups)+
    then have qrg: "q = rg" using ring_unique [OF assms(1) in_rings(1,2) True] rg by simp
    have n_rg: "n \<in> set rg" using rg by simp
    have uniq: "r = rg" if "r \<in> set (rings (root st))" "n \<in> set r" for r
      using ring_unique [OF assms(1) that(1) in_rings(2) that(2) n_rg] .
    have ex: "(\<exists>r\<in>set (rings (root st)). n \<in> set r \<and> removeAll n r = [m]) \<longleftrightarrow> removeAll n rg = [m]" for m
      using in_rings(2) n_rg uniq by blast
    have "distinct rg" using assms(1) in_rings(2)
      by (simp add: splay_ok_def timers_def ids_entries rings_groups distinct_concat_iff)
    then have "h \<noteq> n" "distinct ns" using rg by auto
    have self: "self m = (length (removeAll n rg) = 1)" if "m \<in> set (removeAll n rg)" for m
    proof -
      have m: "m \<in> set rg" "m \<noteq> n" using that by simp_all
      have "length rg \<noteq> 1" using rg by (cases ns) auto
      then have "m \<noteq> n" "\<not> samen_self st m" using m ring by auto
      moreover have "length (removeAll n rg) = 1 \<longleftrightarrow> removeAll n rg = [m]"
        using that by (cases "removeAll n rg") auto
      ultimately show ?thesis unfolding self_def ex by simp
    qed
    have "nkey st h = j" using assms(1) q unfolding qrg rg(1) by (auto simp: splay_ok_def list_all_iff)
    moreover have "removeAll n rg = h # removeAll n ns" using rg(1) \<open>h \<noteq> n\<close> by simp
    moreover have "nkey st m = SPLAY_SUBNODE" if "m \<in> set (removeAll n ns)" for m using that ring rg(1) by simp
    ultimately show ?thesis unfolding qrg using self by simp
  qed
  then have "list_all (ring_ok (nkey st') (samen_self st')) (groups (root st'))"
    by (auto simp: r(2) groups_map_rings list_all_iff simp del: ring_ok.simps)
  moreover have "distinct (map snd (timers st'))"
    using assms(1) unfolding t by (simp add: splay_ok_def distinct_map_filter)
  ultimately show ?thesis using r(1) t assms(1) by (simp add: splay_ok_def r(2))
qed

lemma splayremove_head:
  assumes "splay_ok st" and "(k, n # ns) \<in> set (groups (root st))" and "Curl_splayremove st n = (rc, st')"
  shows "rc = 0 \<and> splay_ok st' \<and> timers st' = filter (\<lambda>e. snd e \<noteq> n) (timers st)"
proof -
  have nk: "nkey st n = k" and tk: "time_ok k"
    using assms(1,2) by (auto simp: splay_ok_def list_all_iff keys_ok_groups)
  obtain s la where sn: "Curl_splay k (root st) = Node s k (n # ns) la" using splay_finds [OF assms(1,2)] by blast
  note sp = splay_ok_split [OF assms(1) sn]
  obtain a b c d where rt: "root st = Node a b c d" using assms(2) by (cases "root st") auto
  have r: "(rc, st') = (if length (n # ns) > 1 then (0, ring_promote st s k (n # ns) la)
      else (0, st\<lparr>root := (if s = Tip then la
                   else case Curl_splay k s of Tip \<Rightarrow> Tip | Node s1 k1 rg1 la1 \<Rightarrow> Node s1 k1 rg1 la)\<rparr>))"
    using subnode_compare(1) [OF tk] unfolding assms(3) [symmetric]
    by (simp add: Curl_splayremove_def nk rt sn [unfolded rt])
  have "n \<notin> snd ` set (entries (groups s))" "n \<notin> set ns" "n \<notin> snd ` set (entries (groups la))"
    using sp(6) by auto
  then have t: "filter (\<lambda>e. snd e \<noteq> n) (timers st) = entries (groups s) @ map (Pair k) ns @ entries (groups la)"
  proof -
    have f: "filter (\<lambda>e. snd e \<noteq> n) es = es" if "n \<notin> snd ` set es" for es :: "(curltime \<times> nat) list"
      by (rule filter_True) (use that in force)
    have "n \<notin> snd ` set (map (Pair k) ns)" using \<open>n \<notin> set ns\<close> by (simp add: image_image)
    then show ?thesis using \<open>n \<notin> snd ` set (entries (groups s))\<close> \<open>n \<notin> snd ` set (entries (groups la))\<close> sp(1)
      by (simp add: timers_def f)
  qed
  show ?thesis
  proof (cases "ns = []")
    case False
    then show ?thesis using r ring_promote_ok [OF assms(1) sn] t by simp
  next
    case True
    let ?t = "if s = Tip then la else case Curl_splay k s of Tip \<Rightarrow> Tip | Node s1 k1 rg1 la1 \<Rightarrow> Node s1 k1 rg1 la"
    have g: "groups ?t = groups s @ groups la"
    proof (cases "s = Tip")
      case False
      then obtain s1 k1 rg1 la1 where s1: "Curl_splay k s = Node s1 k1 rg1 la1" by (metis Curl_tree.exhaust splay_Tip)
      have "groups la1 = []" using splay_below_root [OF _ tk _ s1] sp(2) by simp
      then show ?thesis using False s1 groups_splay [of k s] by simp
    qed simp
    have keys: "keys_ok ?t"
      using sp(2) assms(1) sp(1) unfolding keys_ok_groups g splay_ok_def
      by (auto simp: sorted_wrt_append keys_ok_groups)
    have st': "rc = 0" "st' = st\<lparr>root := ?t\<rparr>" using r True by simp_all
    have "timers st' = entries (groups s) @ entries (groups la)" unfolding st' timers_def by (simp add: g)
    moreover have "distinct (map snd (entries (groups s) @ entries (groups la)))" using sp(6) by auto
    moreover have "splay_ok st'" using calculation keys sp(4,5) g unfolding st' splay_ok_def by simp
    ultimately show ?thesis using st'(1) t True by simp
  qed
qed

lemma splayremove_ok:
  assumes "splay_ok st" and "n \<in> snd ` set (timers st)" and "Curl_splayremove st n = (rc, st')"
  shows "rc = 0 \<and> splay_ok st' \<and> timers st' = filter (\<lambda>e. snd e \<noteq> n) (timers st)"
proof -
  obtain k rg where kr: "(k, rg) \<in> set (groups (root st))" "n \<in> set rg"
    using assms(2) by (auto simp: timers_def in_entries)
  then obtain h ns where rg: "rg = h # ns" by (cases rg) auto
  show ?thesis
  proof (cases "n = h")
    case True
    then show ?thesis using splayremove_head [OF assms(1) _ assms(3)] kr(1) rg by simp
  next
    case False
    then show ?thesis using splayremove_subnode [OF assms(1) kr(1) _ assms(3)] kr(2) rg by simp
  qed
qed

lemma entries_sorted:
  "sorted_wrt (\<lambda>a b. micros (fst a) < micros (fst b)) gs \<Longrightarrow>
     sorted_wrt (\<lambda>a b. micros (fst a) \<le> micros (fst b)) (entries gs)"
proof (induction gs)
  case (Cons g gs)
  obtain k rg where g: "g = (k, rg)" by (cases g)
  have "micros k \<le> micros j" if "(j, n) \<in> set (entries gs)" for j n
    using Cons.prems that g by (fastforce simp: in_entries)
  moreover have "sorted_wrt (\<lambda>a b. micros (fst a) \<le> micros (fst b)) (map (Pair k) rg)"
    by (induction rg) auto
  ultimately show ?case using Cons g by (auto simp: sorted_wrt_append)
qed simp

lemma timers_sorted: "splay_ok st \<Longrightarrow> sorted_wrt (\<lambda>a b. micros (fst a) \<le> micros (fst b)) (timers st)"
  using entries_sorted by (simp add: splay_ok_def keys_ok_groups timers_def)

section \<open>A queue of timers\<close>

text \<open>Taking out what is due until nothing is; the fuel bounds the rounds.\<close>

fun drain :: "('q \<Rightarrow> nat option \<times> 'q) \<Rightarrow> nat \<Rightarrow> 'q \<Rightarrow> (nat list \<times> 'q) option" where
  "drain best 0 q = None"
| "drain best (Suc fuel) q =
     (case best q of
        (None, q') \<Rightarrow> Some ([], q')
      | (Some n, q') \<Rightarrow> map_option (\<lambda>(ns, r). (n # ns, r)) (drain best fuel q'))"

locale timer_queue =
  fixes ins :: "curltime \<Rightarrow> 'q \<Rightarrow> nat \<Rightarrow> 'q"
    and best :: "curltime \<Rightarrow> 'q \<Rightarrow> nat option \<times> 'q"
    and content :: "'q \<Rightarrow> (curltime \<times> nat) list"
    and invar :: "'q \<Rightarrow> bool"
  assumes ins_law: "invar q \<Longrightarrow> time_ok k \<Longrightarrow> n \<notin> snd ` set (content q) \<Longrightarrow>
      invar (ins k q n) \<and> content (ins k q n) = timer_add k n (content q)"
    and best_law: "invar q \<Longrightarrow> time_ok now \<Longrightarrow> best now q = (r, q') \<Longrightarrow> invar q' \<and> (case content q of
      [] \<Rightarrow> r = None \<and> content q' = []
    | (k, n) # es \<Rightarrow> if micros k \<le> micros now then r = Some n \<and> content q' = es
        else r = None \<and> content q' = content q)"
begin

lemma drain_due:
  assumes "invar q" and "time_ok now" and "length (content q) < fuel"
  shows "\<exists>q'. drain (best now) fuel q = Some (map snd (takeWhile (\<lambda>e. micros (fst e) \<le> micros now) (content q)), q')
    \<and> invar q' \<and> content q' = dropWhile (\<lambda>e. micros (fst e) \<le> micros now) (content q)"
  using assms
proof (induction fuel arbitrary: q)
  case (Suc fuel)
  obtain r q1 where b: "best now q = (r, q1)" by (rule prod.exhaust)
  note law = best_law [OF Suc.prems(1,2) b]
  show ?case
  proof (cases "content q")
    case Nil
    then show ?thesis using law b by simp
  next
    case (Cons e es)
    obtain k n where e: "e = (k, n)" by (cases e)
    show ?thesis
    proof (cases "micros k \<le> micros now")
      case True
      then have q1: "r = Some n" "content q1 = es" "invar q1" using law Cons e by simp_all
      then show ?thesis using Suc.IH [OF q1(3) Suc.prems(2)] Suc.prems(3) b Cons e True by auto
    next
      case False
      then show ?thesis using law b Cons e by simp
    qed
  qed
qed simp

definition ins_all :: "(curltime \<times> nat) list \<Rightarrow> 'q \<Rightarrow> 'q" where
  "ins_all kns q = fold (\<lambda>(k, n) q. ins k q n) kns q"

lemma ins_all_content:
  assumes "invar q" and "list_all (\<lambda>(k, n). time_ok k) kns" and "distinct (map snd kns)"
    and "set (map snd kns) \<inter> snd ` set (content q) = {}"
  shows "invar (ins_all kns q) \<and> content (ins_all kns q) = fold (\<lambda>(k, n). timer_add k n) kns (content q)"
  using assms
proof (induction kns arbitrary: q)
  case (Cons e kns)
  obtain k n where e: "e = (k, n)" by (cases e)
  have i: "invar (ins k q n)" "content (ins k q n) = timer_add k n (content q)"
    using ins_law [of q k n] Cons.prems e by auto
  have "snd ` set (content (ins k q n)) = insert n (snd ` set (content q))"
    unfolding i(2) by (auto simp: timer_add_def image_iff)
  then have "set (map snd kns) \<inter> snd ` set (content (ins k q n)) = {}" using Cons.prems(3,4) e by auto
  from Cons.IH [OF i(1) _ _ this] show ?case using Cons.prems(2,3) e i(2) by (simp add: ins_all_def)
qed (simp add: ins_all_def)

end

text \<open>Adding one after the other sorts, and keeps the order of equal times.\<close>

lemma timer_add_sorted:
  "sorted (map (\<lambda>e. micros (fst e)) es) \<Longrightarrow> sorted (map (\<lambda>e. micros (fst e)) (timer_add k n es))"
  by (fastforce simp: timer_add_def sorted_append sorted_map sorted_wrt_filter intro: sorted_wrt_filter)

lemma timer_add_mset: "mset (timer_add k n es) = add_mset (k, n) (mset es)"
  using multiset_partition [of "mset es" "\<lambda>e. micros (fst e) \<le> micros k"] by (simp add: timer_add_def not_le)

lemma timer_add_filter:
  "filter (\<lambda>x. v = micros (fst x)) (timer_add k n es) = filter (\<lambda>x. v = micros (fst x)) (es @ [(k, n)])"
proof (cases "v \<le> micros k")
  case True
  have "filter (\<lambda>x. micros (fst x) \<le> micros k \<and> v = micros (fst x)) es = filter (\<lambda>x. v = micros (fst x)) es"
    using True by (intro filter_cong) auto
  moreover have "filter (\<lambda>x. micros k < micros (fst x) \<and> v = micros (fst x)) es = []" using True by auto
  ultimately show ?thesis by (simp add: timer_add_def conj_commute)
next
  case False
  have "filter (\<lambda>x. micros k < micros (fst x) \<and> v = micros (fst x)) es = filter (\<lambda>x. v = micros (fst x)) es"
    using False by (intro filter_cong) auto
  moreover have "filter (\<lambda>x. micros (fst x) \<le> micros k \<and> v = micros (fst x)) es = []" using False by auto
  ultimately show ?thesis using False by (auto simp: timer_add_def conj_commute)
qed

lemma timer_adds_sort: "fold (\<lambda>(k, n). timer_add k n) kns [] = sort_key (\<lambda>e. micros (fst e)) kns"
proof -
  let ?f = "\<lambda>e :: curltime \<times> nat. micros (fst e)"
  let ?ys = "fold (\<lambda>(k, n). timer_add k n) kns []"
  have "mset ?ys = mset kns \<and> sorted (map ?f ?ys) \<and> (\<forall>v. filter (\<lambda>x. v = ?f x) ?ys = filter (\<lambda>x. v = ?f x) kns)"
  proof (induction kns rule: rev_induct)
    case (snoc e kns)
    obtain k n where "e = (k, n)" by (cases e)
    then show ?case using snoc timer_add_sorted by (simp add: timer_add_mset timer_add_filter)
  qed simp
  then show ?thesis using properties_for_sort_key [of ?ys kns ?f] by simp
qed

interpretation splay: timer_queue Curl_splayinsert Curl_splaygetbest timers splay_ok
  using splayinsert_ok splaygetbest_ok by unfold_locales auto

definition splay_empty :: splay where
  "splay_empty = \<lparr>root = Tip, nkey = (\<lambda>_. tv_zero), samen_self = (\<lambda>_. False), nptr = (\<lambda>_. None)\<rparr>"

lemma splay_empty_ok: "splay_ok splay_empty" "timers splay_empty = []"
  by (simp_all add: splay_ok_def splay_empty_def timers_def)

text \<open>
  C19: timers fire in order.  However timers are put into the splay tree, calling
  \<open>Curl_splaygetbest\<close> until it finds nothing returns exactly the timers whose time has come, the
  earliest first and those of the same time in the order they were put in, and the others stay.
\<close>

theorem timers_fire_in_order:
  assumes "list_all (\<lambda>(k, n). time_ok k) kns" and "distinct (map snd kns)" and "time_ok now" and "length kns < fuel"
  shows "\<exists>st. drain (Curl_splaygetbest now) fuel (fold (\<lambda>(k, n) st. Curl_splayinsert k st n) kns splay_empty)
      = Some (map snd (takeWhile (\<lambda>e. micros (fst e) \<le> micros now) (sort_key (\<lambda>e. micros (fst e)) kns)), st)
    \<and> timers st = dropWhile (\<lambda>e. micros (fst e) \<le> micros now) (sort_key (\<lambda>e. micros (fst e)) kns)"
proof -
  let ?q = "splay.ins_all kns splay_empty"
  have q: "splay_ok ?q" "timers ?q = sort_key (\<lambda>e. micros (fst e)) kns"
    using splay.ins_all_content [OF splay_empty_ok(1) assms(1,2)] splay_empty_ok(2) timer_adds_sort by simp_all
  then show ?thesis using splay.drain_due [OF q(1) assms(3), of fuel] assms(4) by (auto simp: splay.ins_all_def)
qed

theorem timers_fire_in_order_witness:
  "\<exists>st. drain (Curl_splaygetbest \<lparr>tv_sec = 5, tv_usec = 0\<rparr>) 4
      (fold (\<lambda>(k, n) st. Curl_splayinsert k st n)
        [(\<lparr>tv_sec = 5, tv_usec = 0\<rparr>, 1), (\<lparr>tv_sec = 9, tv_usec = 0\<rparr>, 2), (\<lparr>tv_sec = 5, tv_usec = 0\<rparr>, 3)] splay_empty)
      = Some ([1, 3], st) \<and> timers st = [(\<lparr>tv_sec = 9, tv_usec = 0\<rparr>, 2)]"
  using timers_fire_in_order [of "[(\<lparr>tv_sec = 5, tv_usec = 0\<rparr>, 1), (\<lparr>tv_sec = 9, tv_usec = 0\<rparr>, 2), (\<lparr>tv_sec = 5, tv_usec = 0\<rparr>, 3)]"
      "\<lparr>tv_sec = 5, tv_usec = 0\<rparr>" 4]
  by (simp add: time_ok_def micros_def del: drain.simps)

end
