(* ===== verification/Uint_Set.thy ===== *)
theory Uint_Set
  imports Gurl_Prelude
begin

text \<open>
  The interface of the sets of 32-bit numbers (\<^verbatim>\<open>lib/uint-bset.h\<close>, \<^verbatim>\<open>lib/uint-spbset.h\<close>):
  the smallest number, the next larger number, and the loop over a set that the multi interface
  uses on its sets of transfers, whose body may change the set.
\<close>

definition UINT32_MAX :: nat where "UINT32_MAX = 2 ^ 32 - 1"

lemma UINT32_MAX_Suc: "2 ^ 32 = Suc UINT32_MAX"
  by (simp add: UINT32_MAX_def)

text \<open>
  \<open>n\<close> is the smallest element of \<open>A\<close> that is at least \<open>m\<close>.
\<close>

definition least_from :: "nat set \<Rightarrow> nat \<Rightarrow> nat \<Rightarrow> bool" where
  "least_from A m n \<longleftrightarrow> n \<in> A \<and> m \<le> n \<and> (\<forall>k\<in>A. m \<le> k \<longrightarrow> n \<le> k)"

lemma least_from_lower:
  "least_from A m n \<Longrightarrow> l \<le> m \<Longrightarrow> (\<And>k. k \<in> A \<Longrightarrow> l \<le> k \<Longrightarrow> m \<le> k) \<Longrightarrow> least_from A l n"
  by (auto simp: least_from_def)

text \<open>
  The loop \<open>if(first(&n)) do { body } while(next(n, &n))\<close>.  The fuel bounds the number of rounds;
  the result is the numbers visited and the state after the loop.
\<close>

fun walk :: "('s \<Rightarrow> nat \<Rightarrow> bool \<times> nat) \<Rightarrow> (nat \<Rightarrow> 's \<Rightarrow> 's) \<Rightarrow> nat \<Rightarrow> nat \<Rightarrow> 's \<Rightarrow> (nat list \<times> 's) option" where
  "walk next body 0 n s = None"
| "walk next body (Suc fuel) n s =
     (let s' = body n s in
      case next s' n of
        (False, _) \<Rightarrow> Some ([n], s')
      | (True, n') \<Rightarrow> map_option (\<lambda>(ns, t). (n # ns, t)) (walk next body fuel n' s'))"

definition for_each ::
  "('s \<Rightarrow> bool \<times> nat \<times> 's) \<Rightarrow> ('s \<Rightarrow> nat \<Rightarrow> bool \<times> nat) \<Rightarrow> (nat \<Rightarrow> 's \<Rightarrow> 's) \<Rightarrow> 's \<Rightarrow> (nat list \<times> 's) option" where
  "for_each first next body s =
     (case first s of
        (False, _, s') \<Rightarrow> Some ([], s')
      | (True, n, s') \<Rightarrow> walk next body (Suc UINT32_MAX) n s')"

text \<open>A sequence of numbers, and states from one to the other, each step of which is one of \<open>R\<close>.\<close>

fun trace :: "(nat \<Rightarrow> 's \<Rightarrow> 's \<Rightarrow> bool) \<Rightarrow> nat list \<Rightarrow> 's \<Rightarrow> 's \<Rightarrow> bool" where
  "trace R [] s t \<longleftrightarrow> s = t"
| "trace R (n # ns) s t \<longleftrightarrow> (\<exists>u. R n s u \<and> trace R ns u t)"

lemma trace_image: "trace (\<lambda>n s u. R n (f s) (f u)) ns s t \<Longrightarrow> trace R ns (f s) (f t)"
  by (induction ns arbitrary: s) auto

locale uint_set =
  fixes first :: "'s \<Rightarrow> bool \<times> nat \<times> 's"
    and "next" :: "'s \<Rightarrow> nat \<Rightarrow> bool \<times> nat"
    and elems :: "'s \<Rightarrow> nat set"
    and invar :: "'s \<Rightarrow> bool"
  assumes elems_bound: "invar s \<Longrightarrow> n \<in> elems s \<Longrightarrow> n \<le> UINT32_MAX"
    and first_state: "invar s \<Longrightarrow> first s = (b, n, s') \<Longrightarrow> invar s' \<and> elems s' = elems s"
    and first_found: "invar s \<Longrightarrow> first s = (True, n, s') \<Longrightarrow> least_from (elems s) 0 n"
    and first_none: "invar s \<Longrightarrow> first s = (False, n, s') \<Longrightarrow> elems s = {}"
    and next_found: "invar s \<Longrightarrow> m < UINT32_MAX \<Longrightarrow> next s m = (True, n) \<Longrightarrow> least_from (elems s) (Suc m) n"
    and next_none: "invar s \<Longrightarrow> m < UINT32_MAX \<Longrightarrow> next s m = (False, n) \<Longrightarrow> \<forall>k\<in>elems s. k \<le> m"
begin

text \<open>
  A body that may change the set: it keeps the invariant, never adds the largest number, and keeps
  the numbers of \<open>K\<close> in the set.
\<close>

definition holds_through :: "nat set \<Rightarrow> 's \<Rightarrow> bool" where
  "holds_through K s \<longleftrightarrow> invar s \<and> UINT32_MAX \<notin> elems s \<and> K \<subseteq> elems s"

lemma in_bound: "holds_through K s \<Longrightarrow> n \<in> elems s \<Longrightarrow> n < UINT32_MAX"
  using elems_bound by (force simp: holds_through_def le_less)

lemma walk_visits:
  assumes "\<And>n s. holds_through K s \<Longrightarrow> holds_through K (body n s)"
    and "holds_through K s" and "n < UINT32_MAX" and "UINT32_MAX - n \<le> fuel"
  shows "\<exists>ns t. walk next body fuel n s = Some (n # ns, t) \<and> holds_through K t \<and> sorted_wrt (<) (n # ns)
    \<and> {k \<in> K. n < k} \<subseteq> set ns"
  using assms(2-)
proof (induction fuel arbitrary: n s)
  case (Suc fuel)
  let ?s = "body n s"
  have h: "holds_through K ?s" using assms(1) Suc.prems(1) .
  then have b: "invar ?s" "K \<subseteq> elems ?s" by (simp_all add: holds_through_def)
  obtain f n' where nx: "next ?s n = (f, n')" by (rule prod.exhaust)
  show ?case
  proof (cases f)
    case True
    then have l: "n' \<in> elems ?s" "n < n'" "\<forall>k\<in>elems ?s. n < k \<longrightarrow> n' \<le> k"
      using next_found [OF b(1) Suc.prems(2)] nx by (auto simp: least_from_def Suc_le_eq)
    have "UINT32_MAX - n' \<le> fuel" using Suc.prems(3) l(2) by simp
    then obtain ns t where w: "walk next body fuel n' ?s = Some (n' # ns, t)" "holds_through K t"
        "sorted_wrt (<) (n' # ns)" "{k \<in> K. n' < k} \<subseteq> set ns"
      using Suc.IH [OF h in_bound [OF h l(1)]] by blast
    moreover have "{k \<in> K. n < k} \<subseteq> set (n' # ns)" using w(4) l(3) b(2) by force
    ultimately show ?thesis using nx True l(2) by (auto simp: Let_def)
  next
    case False
    then have "\<forall>k\<in>elems ?s. k \<le> n" using next_none [OF b(1) Suc.prems(2)] nx by simp
    then have "{k \<in> K. n < k} = {}" using b(2) by force
    then show ?thesis using nx False h by (simp add: Let_def)
  qed
qed simp

lemma for_each_visits:
  assumes "\<And>n s. holds_through K s \<Longrightarrow> holds_through K (body n s)" and "holds_through K s"
  shows "\<exists>ns t. for_each first next body s = Some (ns, t) \<and> holds_through K t \<and> sorted_wrt (<) ns \<and> K \<subseteq> set ns"
proof -
  obtain f n s' where fs: "first s = (f, n, s')" by (rule prod_cases3)
  have inv: "invar s" "K \<subseteq> elems s" using assms(2) by (simp_all add: holds_through_def)
  have h: "holds_through K s'" using first_state [OF inv(1) fs] assms(2) by (simp add: holds_through_def)
  show ?thesis
  proof (cases f)
    case True
    then have n: "n \<in> elems s" "\<forall>k\<in>elems s. n \<le> k"
      using first_found [OF inv(1)] fs by (auto simp: least_from_def)
    obtain ns t where w: "walk next body (Suc UINT32_MAX) n s' = Some (n # ns, t)" "holds_through K t"
        "sorted_wrt (<) (n # ns)" "{k \<in> K. n < k} \<subseteq> set ns"
      using walk_visits [where body = body, OF assms(1) h in_bound [OF assms(2) n(1)] le_SucI [OF diff_le_self]]
      by blast
    moreover have "K \<subseteq> set (n # ns)" using w(4) n(2) inv(2) by (auto simp: le_less)
    ultimately show ?thesis using fs True by (simp add: for_each_def del: walk.simps)
  next
    case False
    then have "elems s = {}" using first_none [OF inv(1)] fs by simp
    then show ?thesis using fs False h inv(2) by (simp add: for_each_def)
  qed
qed

text \<open>
  A body that works on the current number: it may drop it, or smaller ones, and add others, and
  keeps an invariant of its own.  Every number that was in the set is visited, once.
\<close>

lemma walk_all:
  assumes body: "\<And>n s. P s \<Longrightarrow> n \<in> elems s \<Longrightarrow> P (body n s) \<and> {k \<in> elems s. n < k} \<subseteq> elems (body n s)"
    and inv: "\<And>s. P s \<Longrightarrow> holds_through {} s"
    and "P s" and "n \<in> elems s" and "UINT32_MAX - n \<le> fuel"
  shows "\<exists>ns t. walk next body fuel n s = Some (n # ns, t) \<and> P t \<and> sorted_wrt (<) (n # ns) \<and> {k \<in> elems s. n < k} \<subseteq> set ns"
  using assms(3-)
proof (induction fuel arbitrary: n s)
  case 0
  then show ?case using in_bound [OF inv] by fastforce
next
  case (Suc fuel)
  let ?s = "body n s"
  have h: "P ?s" "{k \<in> elems s. n < k} \<subseteq> elems ?s" using body [OF Suc.prems(1,2)] by blast+
  have n: "n < UINT32_MAX" using in_bound [OF inv [OF Suc.prems(1)] Suc.prems(2)] .
  have b: "invar ?s" using inv [OF h(1)] by (simp add: holds_through_def)
  obtain f n' where nx: "next ?s n = (f, n')" by (rule prod.exhaust)
  show ?case
  proof (cases f)
    case True
    then have l: "n' \<in> elems ?s" "n < n'" "\<forall>k\<in>elems ?s. n < k \<longrightarrow> n' \<le> k"
      using next_found [OF b n] nx by (auto simp: least_from_def Suc_le_eq)
    have "UINT32_MAX - n' \<le> fuel" using Suc.prems(3) l(2) by simp
    then obtain ns t where w: "walk next body fuel n' ?s = Some (n' # ns, t)" "P t"
        "sorted_wrt (<) (n' # ns)" "{k \<in> elems ?s. n' < k} \<subseteq> set ns"
      using Suc.IH [OF h(1) l(1)] by blast
    moreover have "{k \<in> elems s. n < k} \<subseteq> set (n' # ns)" using w(4) l(3) h(2) by force
    ultimately show ?thesis using nx True l(2) by (auto simp: Let_def)
  next
    case False
    then have "\<forall>k\<in>elems ?s. k \<le> n" using next_none [OF b n] nx by simp
    then have "{k \<in> elems s. n < k} = {}" using h(2) by force
    then show ?thesis using nx False h(1) by (simp add: Let_def)
  qed
qed

lemma for_each_all:
  assumes body: "\<And>n s. P s \<Longrightarrow> n \<in> elems s \<Longrightarrow> P (body n s) \<and> {k \<in> elems s. n < k} \<subseteq> elems (body n s)"
    and inv: "\<And>s. P s \<Longrightarrow> holds_through {} s"
    and start: "\<And>b n s'. first s = (b, n, s') \<Longrightarrow> P s'" and "holds_through {} s"
  shows "\<exists>ns t. for_each first next body s = Some (ns, t) \<and> P t \<and> sorted_wrt (<) ns \<and> elems s \<subseteq> set ns"
proof -
  obtain f n s' where fs: "first s = (f, n, s')" by (rule prod_cases3)
  have i: "invar s" using assms(4) by (simp add: holds_through_def)
  have s: "P s'" "elems s' = elems s" using start [OF fs] first_state [OF i fs] by simp_all
  show ?thesis
  proof (cases f)
    case True
    then have n: "n \<in> elems s'" "\<forall>k\<in>elems s'. n \<le> k" using first_found [OF i] fs s(2) by (auto simp: least_from_def)
    obtain ns t where w: "walk next body (Suc UINT32_MAX) n s' = Some (n # ns, t)" "P t"
        "sorted_wrt (<) (n # ns)" "{k \<in> elems s'. n < k} \<subseteq> set ns"
      using walk_all [where body = body and P = P, OF body inv s(1) n(1) le_SucI [OF diff_le_self]] by blast
    moreover have "elems s \<subseteq> set (n # ns)" using w(4) n(2) s(2) by (auto simp: le_less)
    ultimately show ?thesis using fs True by (simp add: for_each_def del: walk.simps)
  next
    case False
    then show ?thesis using fs first_none [OF i] s(1) by (simp add: for_each_def)
  qed
qed

text \<open>What one round does, the rounds of the loop do in turn.\<close>

lemma walk_trace:
  assumes body: "\<And>n s. P s \<Longrightarrow> n \<in> elems s \<Longrightarrow> P (body n s) \<and> R n s (body n s)"
    and inv: "\<And>s. P s \<Longrightarrow> holds_through {} s"
    and "P s" and "n \<in> elems s" and "walk next body fuel n s = Some (ns, t)"
  shows "trace R ns s t"
  using assms(3-)
proof (induction fuel arbitrary: n s ns)
  case (Suc fuel)
  let ?s = "body n s"
  have h: "P ?s" "R n s ?s" using body [OF Suc.prems(1,2)] by blast+
  have n: "n < UINT32_MAX" using in_bound [OF inv [OF Suc.prems(1)] Suc.prems(2)] .
  have b: "invar ?s" using inv [OF h(1)] by (simp add: holds_through_def)
  obtain f n' where nx: "next ?s n = (f, n')" by (rule prod.exhaust)
  show ?case
  proof (cases f)
    case True
    then have l: "n' \<in> elems ?s" using next_found [OF b n] nx by (auto simp: least_from_def)
    obtain ks where ks: "ns = n # ks" "walk next body fuel n' ?s = Some (ks, t)"
      using Suc.prems(3) nx True by (auto simp: Let_def)
    from Suc.IH [OF h(1) l ks(2)] h(2) show ?thesis using ks(1) by auto
  qed (use Suc.prems(3) nx h(2) in \<open>auto simp: Let_def\<close>)
qed simp

lemma for_each_trace:
  assumes body: "\<And>n s. P s \<Longrightarrow> n \<in> elems s \<Longrightarrow> P (body n s) \<and> R n s (body n s)"
    and inv: "\<And>s. P s \<Longrightarrow> holds_through {} s"
    and start: "first s = (b, n, s')" "P s'" and "invar s" and "for_each first next body s = Some (ns, t)"
  shows "trace R ns s' t"
proof (cases b)
  case True
  then have "n \<in> elems s'" using first_found [OF assms(5)] first_state [OF assms(5)] start(1) by (auto simp: least_from_def)
  from walk_trace [where body = body and P = P and R = R, OF body inv start(2) this] show ?thesis
    using assms(6) start(1) True by (simp add: for_each_def del: walk.simps)
qed (use assms(6) start(1) in \<open>simp add: for_each_def\<close>)

text \<open>Without changes the loop lists the set in ascending order.\<close>

lemma walk_in:
  assumes "holds_through K s" and "n \<in> elems s" and "walk next (\<lambda>_ s. s) fuel n s = Some (ns, t)"
  shows "set ns \<subseteq> elems s"
  using assms(2,3)
proof (induction fuel arbitrary: n ns)
  case (Suc fuel)
  have "invar s" using assms(1) by (simp add: holds_through_def)
  then have "next s n = (True, n') \<Longrightarrow> n' \<in> elems s" for n'
    using next_found in_bound [OF assms(1) Suc.prems(1)] by (auto simp: least_from_def)
  then show ?case using Suc by (fastforce simp: Let_def split: prod.splits bool.splits)
qed simp

lemma for_each_enumerates:
  assumes "invar s" and "UINT32_MAX \<notin> elems s"
  shows "\<exists>t. for_each first next (\<lambda>_ s. s) s = Some (sorted_list_of_set (elems s), t) \<and> elems t = elems s"
proof -
  obtain f n s' where fs: "first s = (f, n, s')" by (rule prod_cases3)
  have h: "holds_through (elems s) s" "holds_through (elems s) s'"
    using first_state [OF assms(1) fs] assms by (simp_all add: holds_through_def)
  obtain ns t where w: "for_each first next (\<lambda>_ s. s) s = Some (ns, t)" "sorted_wrt (<) ns" "elems s \<subseteq> set ns"
    using for_each_visits [OF _ h(1), of "\<lambda>_ s. s"] by blast
  have "walk next (\<lambda>_ s. s) fuel n s' = Some (ns, t) \<Longrightarrow> t = s'" for fuel n ns
    by (induction fuel arbitrary: n ns) (auto simp: Let_def split: prod.splits bool.splits)
  then have t: "t = s'" using w(1) fs by (simp add: for_each_def del: walk.simps split: bool.splits)
  have "set ns \<subseteq> elems s"
  proof (cases f)
    case True
    then have "n \<in> elems s'" using first_found [OF assms(1)] first_state [OF assms(1)] fs by (auto simp: least_from_def)
    then show ?thesis using walk_in [OF h(2)] w(1) fs True first_state [OF assms(1) fs]
      by (auto simp: for_each_def simp del: walk.simps)
  qed (use w(1) fs in \<open>simp add: for_each_def\<close>)
  then have "ns = sorted_list_of_set (elems s)"
    using w(2,3) by (metis sorted_list_of_set.idem_if_sorted_distinct strict_sorted_iff subset_antisym)
  then show ?thesis using w(1) t first_state [OF assms(1) fs] by simp
qed

end

end
