(* ===== verification/Uint_Bset.thy ===== *)
theory Uint_Bset
  imports Uint_Set
begin

text \<open>
  The bitset of 32-bit numbers of \<^verbatim>\<open>lib/uint-bset.c\<close>.  A \<open>uint32_t\<close> is a natural number with the
  wrap-around written out, a slot is a 64-bit word.  The answer of \<open>calloc\<close> is an argument.

  Contents: the bit counting functions and that they are exact, the operations, the invariant,
  the refinement to a finite set of numbers, and the instance of \<open>uint_set\<close>.
\<close>

section \<open>Counting bits\<close>

definition ctz_step :: "nat \<Rightarrow> nat \<times> 64 word \<Rightarrow> nat \<times> 64 word" where
  "ctz_step k p = (case p of (n, x) \<Rightarrow> if x AND mask k = 0 then (n + k, drop_bit k x) else (n, x))"

definition Curl_ctz64 :: "64 word \<Rightarrow> nat" where
  "Curl_ctz64 x =
     (if x = 0 then 64
      else (case ctz_step 2 (ctz_step 4 (ctz_step 8 (ctz_step 16 (ctz_step 32 (1, x))))) of
              (n, y) \<Rightarrow> n - unat (y AND 1)))"

definition Curl_popcount64 :: "64 word \<Rightarrow> nat" where
  "Curl_popcount64 x =
     (let m1 = 0x5555555555555555;
          m2 = 0x3333333333333333;
          m4 = 0x0f0f0f0f0f0f0f0f;
          h01 = 0x0101010101010101;
          x = x - (drop_bit 1 x AND m1);
          x = (x AND m2) + (drop_bit 2 x AND m2);
          x = (x + drop_bit 4 x) AND m4
      in unat (drop_bit 56 (x * h01)))"

section \<open>The bitset\<close>

record uint32_bset =
  slots :: "64 word list"
  nslots :: nat
  first_slot_used :: nat

definition Curl_uint32_bset_init :: uint32_bset where
  "Curl_uint32_bset_init = \<lparr>slots = [], nslots = 0, first_slot_used = 0\<rparr>"

definition Curl_uint32_bset_resize :: "bool \<Rightarrow> uint32_bset \<Rightarrow> nat \<Rightarrow> CURLcode \<times> uint32_bset" where
  "Curl_uint32_bset_resize calloc_ok bset nmax =
     (let n = (if nmax < UINT32_MAX - 63 then (nmax + 63) div 64 else UINT32_MAX div 64) in
      if n \<noteq> nslots bset then
        if \<not> calloc_ok then (CURLE_OUT_OF_MEMORY, bset)
        else (CURLE_OK, \<lparr>slots = take (min n (nslots bset)) (slots bset) @ replicate (n - min n (nslots bset)) 0,
                         nslots = n, first_slot_used = 0\<rparr>)
      else (CURLE_OK, bset))"

definition Curl_uint32_bset_destroy :: "uint32_bset \<Rightarrow> uint32_bset" where
  "Curl_uint32_bset_destroy bset = \<lparr>slots = [], nslots = 0, first_slot_used = 0\<rparr>"

definition uint32_bset_capacity :: "uint32_bset \<Rightarrow> nat" where
  "uint32_bset_capacity bset = nslots bset * 64 mod 2 ^ 32"

fun count_loop :: "64 word list \<Rightarrow> nat \<Rightarrow> nat" where
  "count_loop [] n = n"
| "count_loop (x # xs) n = count_loop xs (if x \<noteq> 0 then (n + Curl_popcount64 x) mod 2 ^ 32 else n)"

definition Curl_uint32_bset_count :: "uint32_bset \<Rightarrow> nat" where
  "Curl_uint32_bset_count bset = count_loop (slots bset) 0"

text \<open>The loop over the slots from \<open>i\<close> on, up to the first that is not zero.\<close>

function slot_scan :: "64 word list \<Rightarrow> nat \<Rightarrow> nat option" where
  "slot_scan xs i = (if i < length xs then if xs ! i \<noteq> 0 then Some i else slot_scan xs (Suc i) else None)"
  by pat_completeness auto
termination by (relation "measure (\<lambda>(xs, i). length xs - i)") auto

declare slot_scan.simps [simp del]

definition Curl_uint32_bset_empty :: "uint32_bset \<Rightarrow> bool" where
  "Curl_uint32_bset_empty bset = (slot_scan (slots bset) (first_slot_used bset) = None)"

definition Curl_uint32_bset_clear :: "uint32_bset \<Rightarrow> uint32_bset" where
  "Curl_uint32_bset_clear bset =
     (if nslots bset \<noteq> 0 then bset\<lparr>slots := replicate (nslots bset) 0, first_slot_used := UINT32_MAX\<rparr> else bset)"

definition Curl_uint32_bset_add :: "uint32_bset \<Rightarrow> nat \<Rightarrow> bool \<times> uint32_bset" where
  "Curl_uint32_bset_add bset i =
     (let islot = i div 64 in
      if nslots bset \<le> islot then (False, bset)
      else (True, bset\<lparr>slots := (slots bset)[islot := slots bset ! islot OR push_bit (i mod 64) 1],
                       first_slot_used := (if islot < first_slot_used bset then islot else first_slot_used bset)\<rparr>))"

definition Curl_uint32_bset_remove :: "uint32_bset \<Rightarrow> nat \<Rightarrow> uint32_bset" where
  "Curl_uint32_bset_remove bset i =
     (let islot = i div 64 in
      if islot < nslots bset
      then bset\<lparr>slots := (slots bset)[islot := slots bset ! islot AND NOT (push_bit (i mod 64) 1)]\<rparr>
      else bset)"

definition Curl_uint32_bset_contains :: "uint32_bset \<Rightarrow> nat \<Rightarrow> bool" where
  "Curl_uint32_bset_contains bset i =
     (let islot = i div 64 in
      if nslots bset \<le> islot then False else slots bset ! islot AND push_bit (i mod 64) 1 \<noteq> 0)"

definition Curl_uint32_bset_first :: "uint32_bset \<Rightarrow> bool \<times> nat \<times> uint32_bset" where
  "Curl_uint32_bset_first bset =
     (case slot_scan (slots bset) (first_slot_used bset) of
        Some i \<Rightarrow> (True, (i * 64 + Curl_ctz64 (slots bset ! i)) mod 2 ^ 32, bset\<lparr>first_slot_used := i\<rparr>)
      | None \<Rightarrow> (False, UINT32_MAX, bset\<lparr>first_slot_used := UINT32_MAX\<rparr>))"

definition Curl_uint32_bset_next :: "uint32_bset \<Rightarrow> nat \<Rightarrow> bool \<times> nat" where
  "Curl_uint32_bset_next bset l =
     (let l = (l + 1) mod 2 ^ 32; islot = l div 64 in
      if islot < nslots bset then
        (let x = drop_bit (l mod 64) (slots bset ! islot) in
         if x \<noteq> 0 then (True, (l + Curl_ctz64 x) mod 2 ^ 32)
         else (case slot_scan (slots bset) (islot + 1) of
                 Some i \<Rightarrow> (True, (i * 64 + Curl_ctz64 (slots bset ! i)) mod 2 ^ 32)
               | None \<Rightarrow> (False, UINT32_MAX)))
      else (False, UINT32_MAX))"

section \<open>Counting is exact\<close>

subsection \<open>Trailing zeros\<close>

lemma and_mask_bits: "y AND mask k = 0 \<longleftrightarrow> (\<forall>i<k. \<not> bit y i)" for y :: "64 word"
  using bit_imp_le_length [of y] by (fastforce simp: bit_eq_iff bit_simps)

text \<open>The bits below \<open>n\<close> are clear and one of the next \<open>w\<close> is set.\<close>

definition low_bit_in :: "64 word \<Rightarrow> nat \<Rightarrow> nat \<Rightarrow> bool" where
  "low_bit_in x n w \<longleftrightarrow> (\<forall>i<n. \<not> bit x i) \<and> (\<exists>i<n + w. bit x i)"

lemma ctz_step_inv:
  assumes "low_bit_in x n (2 * k)"
  shows "\<exists>n'. ctz_step k (Suc n, drop_bit n x) = (Suc n', drop_bit n' x) \<and> low_bit_in x n' k"
proof (cases "\<forall>i<k. \<not> bit x (n + i)")
  case True
  have "\<not> bit x i" if "i < n + k" for i
  proof (cases "i < n")
    case False
    then have "i = n + (i - n)" "i - n < k" using that by simp_all
    then show ?thesis using True by metis
  qed (use assms in \<open>simp add: low_bit_in_def\<close>)
  moreover have "drop_bit n x AND mask k = 0" using True by (simp add: and_mask_bits bit_simps)
  ultimately show ?thesis using assms
    by (intro exI [of _ "n + k"]) (auto simp: ctz_step_def low_bit_in_def mult_2 add.assoc add.commute [of k n])
next
  case False
  then obtain i where i: "i < k" "bit x (n + i)" by blast
  then have "drop_bit n x AND mask k \<noteq> 0" by (auto simp: and_mask_bits bit_simps)
  moreover have "n + i < n + k" using i(1) by simp
  ultimately have "drop_bit n x AND mask k \<noteq> 0" "\<exists>i<n + k. bit x i" using i(2) by blast+
  then show ?thesis using assms by (auto simp: ctz_step_def low_bit_in_def)
qed

lemma Curl_ctz64_bits:
  assumes "x \<noteq> 0" shows "bit x (Curl_ctz64 x) \<and> (\<forall>i<Curl_ctz64 x. \<not> bit x i)"
proof -
  obtain i where "bit x i" using assms by (auto simp: bit_eq_iff)
  then have "low_bit_in x 0 (2 * 32)" using bit_imp_le_length [of x i] by (auto simp: low_bit_in_def)
  from ctz_step_inv [OF this] obtain n1 where s1: "ctz_step 32 (1, x) = (Suc n1, drop_bit n1 x)" "low_bit_in x n1 (2 * 16)" by auto
  from ctz_step_inv [OF s1(2)] obtain n2 where s2: "ctz_step 16 (Suc n1, drop_bit n1 x) = (Suc n2, drop_bit n2 x)" "low_bit_in x n2 (2 * 8)" by auto
  from ctz_step_inv [OF s2(2)] obtain n3 where s3: "ctz_step 8 (Suc n2, drop_bit n2 x) = (Suc n3, drop_bit n3 x)" "low_bit_in x n3 (2 * 4)" by auto
  from ctz_step_inv [OF s3(2)] obtain n4 where s4: "ctz_step 4 (Suc n3, drop_bit n3 x) = (Suc n4, drop_bit n4 x)" "low_bit_in x n4 (2 * 2)" by auto
  from ctz_step_inv [OF s4(2)] obtain n5 where s5: "ctz_step 2 (Suc n4, drop_bit n4 x) = (Suc n5, drop_bit n5 x)" "low_bit_in x n5 2" by auto
  have c: "Curl_ctz64 x = Suc n5 - unat (drop_bit n5 x AND 1)"
    using assms by (simp only: Curl_ctz64_def s1(1) s2(1) s3(1) s4(1) s5(1)) simp
  have b: "drop_bit n5 x AND 1 = of_bool (bit x n5)" by (simp add: and_one_eq mod_2_eq_odd bit_iff_odd_drop_bit)
  obtain j where "j < n5 + 2" "bit x j" "\<forall>i<n5. \<not> bit x i" using s5(2) by (auto simp: low_bit_in_def)
  then have "bit x n5 \<or> \<not> bit x n5 \<and> bit x (Suc n5)"
    by (metis add_2_eq_Suc' less_antisym)
  then show ?thesis using c b s5(2) by (auto simp: low_bit_in_def less_Suc_eq)
qed

subsection \<open>Population count\<close>

text \<open>The number of ones of a natural number, and numbers as little-endian digit lists.\<close>

fun ones :: "nat \<Rightarrow> nat" where
  "ones n = (if n = 0 then 0 else n mod 2 + ones (n div 2))"

declare ones.simps [simp del]

lemma ones_0 [simp]: "ones 0 = 0"
  by (simp add: ones.simps)

lemma ones_rec: "b < 2 \<Longrightarrow> ones (b + 2 * n) = b + ones n"
  by (subst ones.simps) auto

lemma bit_nat_less: "bit (m::nat) i \<Longrightarrow> m < 2 ^ k \<Longrightarrow> i < k"
  by (metis bit_nat_def div_less even_zero not_le order.strict_trans2 one_le_numeral power_increasing)

lemma ones_bits: "ones n = card {i. bit n i}"
proof (induction n rule: ones.induct)
  case (1 n)
  show ?case
  proof (cases "n = 0")
    case False
    have s: "{i. bit n i} = (if odd n then {0} else {}) \<union> Suc ` {i. bit (n div 2) i}"
    proof (rule set_eqI)
      fix i show "i \<in> {i. bit n i} \<longleftrightarrow> i \<in> (if odd n then {0} else {}) \<union> Suc ` {i. bit (n div 2) i}"
        by (cases i) (auto simp: bit_Suc bit_0)
    qed
    have fin: "finite {i. bit (n div 2) i}"
      by (rule finite_subset [of _ "{..<n div 2}"]) (use bit_nat_less [OF _ less_exp] in auto)
    show ?thesis using 1 False unfolding s
      by (subst card_Un_disjoint) (auto simp: fin card_image ones.simps [of n] odd_iff_mod_2_eq_one)
  qed simp
qed

definition val :: "nat \<Rightarrow> nat list \<Rightarrow> nat" where
  "val b ds = foldr (\<lambda>d v. d + b * v) ds 0"

lemma val_simps [simp]: "val b [] = 0" "val b (d # ds) = d + b * val b ds"
  by (simp_all add: val_def)

lemma and_split:
  fixes a b c d :: nat
  assumes "a < 2 ^ k" and "c < 2 ^ k"
  shows "(a + 2 ^ k * b) AND (c + 2 ^ k * d) = (a AND c) + 2 ^ k * (b AND d)"
proof -
  have e: "x + 2 ^ k * y = push_bit k y OR x" if "x < 2 ^ k" for x y :: nat
    using push_or [OF that, of y] by (simp add: mult.commute add.commute)
  have "(a AND c) < 2 ^ k" using assms(1) by (simp add: and_nat_def and_less_eq order.strict_trans1)
  then show ?thesis unfolding e [OF assms(1)] e [OF assms(2)] e [OF \<open>(a AND c) < 2 ^ k\<close>]
    using bit_nat_less [OF _ assms(1)] bit_nat_less [OF _ assms(2)] by (fastforce simp: bit_eq_iff bit_simps)
qed

lemma digit_shift: "a < m \<Longrightarrow> (a + m * b + m * m * y) div m = (b + m * (y mod m)) + m * m * (y div m)" for m :: nat
proof -
  assume "a < m"
  then have "(a + m * (b + m * y)) div m = b + m * y" by simp
  moreover have "m * y = m * (y mod m) + m * m * (y div m)"
    by (metis distrib_left mod_mult_div_eq mult.assoc)
  ultimately show ?thesis by (simp add: distrib_left mult.assoc add.assoc)
qed

lemma pop_step1:
  assumes "x < 4 ^ n"
  shows "\<exists>ds. length ds = n \<and> (\<forall>d\<in>set ds. d \<le> 2) \<and> sum_list ds = ones x
    \<and> (drop_bit 1 x AND val 4 (replicate n 1)) + val 4 ds = x"
  using assms
proof (induction n arbitrary: x)
  case (Suc n)
  define a b y where "a = x mod 2" and "b = x div 2 mod 2" and "y = x div 4"
  have x: "x = a + 2 * (b + 2 * y)" using div_mult2_eq [of x 2 2] by (simp add: a_def b_def y_def)
  have ab: "a < 2" "b < 2" by (simp_all add: a_def b_def)
  have "y < 4 ^ n" using Suc.prems by (simp add: y_def)
  then obtain ds where ds: "length ds = n" "\<forall>d\<in>set ds. d \<le> 2" "sum_list ds = ones y"
      "(drop_bit 1 y AND val 4 (replicate n 1)) + val 4 ds = y"
    using Suc.IH by blast
  let ?M = "val 4 (replicate n 1)"
  have "drop_bit 1 x = (b + 2 * (y mod 2)) + 2 ^ 2 * drop_bit 1 y"
    using digit_shift [of a 2 b y] ab by (simp add: x drop_bit_eq_div add.assoc)
  then have "drop_bit 1 x AND (1 + 4 * ?M) = ((b + 2 * (y mod 2)) AND 1) + 2 ^ 2 * (drop_bit 1 y AND ?M)"
    using and_split [of "b + 2 * (y mod 2)" 2 1 "drop_bit 1 y" ?M] ab by simp
  moreover have "(b + 2 * (y mod 2)) AND 1 = b" using ab by (simp add: and_one_eq)
  ultimately have "(drop_bit 1 x AND val 4 (replicate (Suc n) 1)) + val 4 ((a + b) # ds) = x"
    using ds(4) x by simp
  moreover have "ones x = a + b + ones y" unfolding x by (simp only: ones_rec ab add.assoc)
  ultimately show ?case using ds ab by (intro exI [of _ "(a + b) # ds"]) simp
qed simp

text \<open>Neighbouring digits taken together.\<close>

fun pair_up :: "nat list \<Rightarrow> (nat \<times> nat) list" where
  "pair_up (a # b # ds) = (a, b) # pair_up ds"
| "pair_up ds = []"

lemma pair_up_facts:
  assumes "length ds = 2 * n" and "\<forall>d\<in>set ds. d \<le> m"
  shows "length (pair_up ds) = n \<and> list_all (\<lambda>(a, b). a \<le> m \<and> b \<le> m) (pair_up ds)
    \<and> val b ds = val (b * b) (map (\<lambda>(x, y). x + b * y) (pair_up ds))
    \<and> sum_list ds = sum_list (map (\<lambda>(x, y). x + y) (pair_up ds))"
  using assms
proof (induction n arbitrary: ds)
  case (Suc n)
  then obtain x y r where "ds = x # y # r" by (auto simp: length_Suc_conv)
  with Suc show ?case by (auto simp: algebra_simps)
qed simp

lemma pop_step2:
  assumes "list_all (\<lambda>(a, b). a \<le> 2 \<and> b \<le> 2) ps"
  shows "(val 16 (map (\<lambda>(a, b). a + 4 * b) ps) AND val 16 (replicate (length ps) 3))
    + (drop_bit 2 (val 16 (map (\<lambda>(a, b). a + 4 * b) ps)) AND val 16 (replicate (length ps) 3))
    = val 16 (map (\<lambda>(a, b). a + b) ps)"
  using assms
proof (induction ps)
  case (Cons p ps)
  obtain a b where p: "p = (a, b)" by (cases p)
  let ?y = "val 16 (map (\<lambda>(a, b). a + 4 * b) ps)" and ?M = "val 16 (replicate (length ps) 3)"
  have ab: "a \<le> 2" "b \<le> 2" using Cons.prems p by simp_all
  have m: "u AND 3 = u mod 4" for u :: nat using and_mask_mod [of u 2] by simp
  have l: "(a + 4 * b + 16 * ?y) AND (3 + 16 * ?M) = a + 16 * (?y AND ?M)"
    using and_split [of "a + 4 * b" 4 3 ?y ?M] ab m [of "a + 4 * b"] by simp
  have "drop_bit 2 (a + 4 * b + 16 * ?y) = (b + 4 * (?y mod 4)) + 16 * drop_bit 2 ?y"
    using digit_shift [of a 4 b ?y] ab by (simp add: drop_bit_eq_div)
  moreover have "b + 4 * (?y mod 4) < 16" using ab mod_less_divisor [of 4 ?y] by linarith
  ultimately have r: "drop_bit 2 (a + 4 * b + 16 * ?y) AND (3 + 16 * ?M) = b + 16 * (drop_bit 2 ?y AND ?M)"
    using and_split [of "b + 4 * (?y mod 4)" 4 3 "drop_bit 2 ?y" ?M] ab m [of "b + 4 * (?y mod 4)"] by simp
  show ?case using Cons.IH Cons.prems l r p by simp
qed simp

lemma pop_step3:
  assumes "list_all (\<lambda>(a, b). a \<le> 4 \<and> b \<le> 4) ps" and "y = val 256 (map (\<lambda>(a, b). a + 16 * b) ps)"
  shows "(y + drop_bit 4 y) AND val 256 (replicate (length ps) 15) = val 256 (map (\<lambda>(a, b). a + b) ps) \<and> y mod 16 \<le> 4"
  using assms
proof (induction ps arbitrary: y)
  case (Cons p ps)
  obtain a b where p: "p = (a, b)" by (cases p)
  define z where "z = val 256 (map (\<lambda>(a, b). a + 16 * b) ps)"
  let ?M = "val 256 (replicate (length ps) 15)"
  have ab: "a \<le> 4" "b \<le> 4" using Cons.prems p by simp_all
  have IH: "(z + drop_bit 4 z) AND ?M = val 256 (map (\<lambda>(a, b). a + b) ps)" "z mod 16 \<le> 4"
    using Cons.IH [of z] Cons.prems(1) by (simp_all add: z_def)
  have y: "y = a + 16 * b + 256 * z" using Cons.prems(2) p by (simp add: z_def)
  define lo where "lo = (a + b) + 16 * (b + z mod 16)"
  have "y + drop_bit 4 y = lo + 256 * (z + drop_bit 4 z)"
    using digit_shift [of a 16 b z] ab by (simp add: y lo_def drop_bit_eq_div)
  moreover have "lo < 256" using ab IH(2) by (simp add: lo_def)
  moreover have "lo AND 15 = a + b"
  proof -
    have "lo mod 16 = a + b" using ab unfolding lo_def by (simp only: mod_mult_self2) simp
    then show ?thesis using and_mask_mod [of lo 4] by simp
  qed
  ultimately have "(y + drop_bit 4 y) AND (15 + 256 * ?M) = (a + b) + 256 * ((z + drop_bit 4 z) AND ?M)"
    using and_split [of lo 8 15 "z + drop_bit 4 z" ?M] by simp
  moreover have "y mod 16 \<le> 4"
  proof -
    have "y = a + 16 * (b + 16 * z)" by (simp add: y)
    then show ?thesis using ab(1) by (simp only: mod_mult_self2 mod_less_eq_dividend [THEN le_trans])
  qed
  ultimately show ?case using IH(1) p by simp
qed simp

lemma pop_step4:
  assumes "length cs = 8" and "\<forall>c\<in>set cs. c \<le> 8"
  shows "(val 256 cs * 0x0101010101010101) mod 2 ^ 64 div 2 ^ 56 = sum_list cs"
proof -
  obtain c0 c1 c2 c3 c4 c5 c6 c7 where cs: "cs = [c0, c1, c2, c3, c4, c5, c6, c7]"
    using assms(1) by (auto simp: length_Suc_conv numeral_eq_Suc)
  define lo where "lo = c0 + 256 * (c0 + c1) + 65536 * (c0 + c1 + c2) + 16777216 * (c0 + c1 + c2 + c3)
    + 4294967296 * (c0 + c1 + c2 + c3 + c4) + 1099511627776 * (c0 + c1 + c2 + c3 + c4 + c5)
    + 281474976710656 * (c0 + c1 + c2 + c3 + c4 + c5 + c6)"
  define top where "top = c1 + c2 + c3 + c4 + c5 + c6 + c7 + 256 * (c2 + c3 + c4 + c5 + c6 + c7)
    + 65536 * (c3 + c4 + c5 + c6 + c7) + 16777216 * (c4 + c5 + c6 + c7) + 4294967296 * (c5 + c6 + c7)
    + 1099511627776 * (c6 + c7) + 281474976710656 * c7"
  have b: "c0 \<le> 8" "c1 \<le> 8" "c2 \<le> 8" "c3 \<le> 8" "c4 \<le> 8" "c5 \<le> 8" "c6 \<le> 8" "c7 \<le> 8"
    using assms(2) cs by simp_all
  have "val 256 cs * 0x0101010101010101 = lo + 2 ^ 56 * sum_list cs + 2 ^ 64 * top"
    by (simp add: cs lo_def top_def)
  moreover have "lo < 2 ^ 56" "sum_list cs < 256" using b by (simp_all add: lo_def cs)
  ultimately show ?thesis by (simp add: mod_mult2_eq)
qed

lemma val_replicate: "val (Suc b) (replicate n d) * b + d = d * Suc b ^ n"
proof (induction n)
  case (Suc n)
  have "val (Suc b) (replicate (Suc n) d) * b + d = Suc b * (val (Suc b) (replicate n d) * b + d)"
    by (simp add: algebra_simps)
  then show ?case using Suc by (simp only: power_Suc mult.left_commute)
qed simp

lemma val_le: "\<forall>d\<in>set ds. d \<le> m \<Longrightarrow> val b ds \<le> val b (replicate (length ds) m)"
  by (induction ds) (simp_all add: add_mono)

lemma pair_sums:
  fixes ps :: "(nat \<times> nat) list"
  assumes "list_all (\<lambda>(a, b). a \<le> m \<and> b \<le> m) ps"
  shows "\<forall>e\<in>set (map (\<lambda>(a, b). a + b) ps). e \<le> 2 * m"
  using assms by (fastforce simp: list_all_iff)

lemma Curl_popcount64_bits: "Curl_popcount64 x = card {i. bit x i}"
proof -
  let ?m1 = "0x5555555555555555 :: 64 word" and ?m2 = "0x3333333333333333 :: 64 word"
    and ?m4 = "0x0f0f0f0f0f0f0f0f :: 64 word" and ?h = "0x0101010101010101 :: 64 word"
  have m: "unat ?m1 = val 4 (replicate 32 1)" "unat ?m2 = val 16 (replicate 16 3)" "unat ?m4 = val 256 (replicate 8 15)"
    using val_replicate [of 3 32 1] val_replicate [of 15 16 3] val_replicate [of 255 8 15] by simp_all
  have "unat x < 4 ^ 32" using unsigned_less [of x] by simp
  from pop_step1 [OF this] obtain ds where ds: "length ds = 2 * 16" "\<forall>d\<in>set ds. d \<le> 2" "sum_list ds = ones (unat x)"
      "(drop_bit 1 (unat x) AND unat ?m1) + val 4 ds = unat x" unfolding m(1) by auto
  define x1 where "x1 = x - (drop_bit 1 x AND ?m1)"
  have "unat (drop_bit 1 x AND ?m1) + val 4 ds = unat x"
    using ds(4) by (simp only: unsigned_and_eq unat_drop_bit_eq)
  then have x1: "unat x1 = val 4 ds" unfolding x1_def by (subst unat_sub) (auto simp: word_le_nat_alt)
  define es where "es = map (\<lambda>(a, b). a + b) (pair_up ds)"
  note ps = pair_up_facts [OF ds(1,2)]
  have es: "length es = 2 * 8" "\<forall>e\<in>set es. e \<le> 4" "sum_list es = sum_list ds"
    using ps pair_sums [of 2 "pair_up ds"] by (simp_all add: es_def)
  have le: "val 16 es \<le> 2 ^ 63" using val_le [OF es(2), of 16] es(1) val_replicate [of 15 16 4] by simp
  define x2 where "x2 = (x1 AND ?m2) + (drop_bit 2 x1 AND ?m2)"
  have "unat (x1 AND ?m2) + unat (drop_bit 2 x1 AND ?m2) = val 16 es"
    using pop_step2 [of "pair_up ds"] ps [of 4]
    by (simp only: unsigned_and_eq unat_drop_bit_eq m(2) x1 es_def) simp
  then have x2: "unat x2 = val 16 es" unfolding x2_def using le by (subst unat_add_lem [THEN iffD1]) simp_all
  define cs where "cs = map (\<lambda>(a, b). a + b) (pair_up es)"
  note qs = pair_up_facts [OF es(1,2)]
  have cs: "length cs = 8" "\<forall>c\<in>set cs. c \<le> 8" "sum_list cs = sum_list es"
    using qs pair_sums [of 4 "pair_up es"] by (simp_all add: cs_def)
  define x3 where "x3 = (x2 + drop_bit 4 x2) AND ?m4"
  have "unat x2 + unat (drop_bit 4 x2) < 2 ^ 64" using le by (simp only: unat_drop_bit_eq x2) (simp add: drop_bit_eq_div)
  then have "unat (x2 + drop_bit 4 x2) = unat x2 + drop_bit 4 (unat x2)"
    by (subst unat_add_lem [THEN iffD1]) (simp_all add: unat_drop_bit_eq)
  then have x3: "unat x3 = val 256 cs"
    using pop_step3 [of "pair_up es" "unat x2"] qs [of 16]
    by (simp only: x3_def unsigned_and_eq m(3) x2 cs_def) simp
  have "Curl_popcount64 x = unat (drop_bit 56 (x3 * ?h))"
    by (simp only: Curl_popcount64_def Let_def x1_def x2_def x3_def)
  also have "\<dots> = (val 256 cs * 0x0101010101010101) mod 2 ^ 64 div 2 ^ 56"
    using x3 by (simp add: unat_drop_bit_eq drop_bit_eq_div unat_word_ariths)
  also have "\<dots> = ones (unat x)" using pop_step4 [OF cs(1,2)] cs(3) es(3) ds(3) by simp
  finally show ?thesis by (simp add: ones_bits bit_unsigned_iff)
qed

section \<open>Slots as a set of numbers\<close>

definition slot_bits :: "64 word list \<Rightarrow> nat set" where
  "slot_bits xs = {i. i div 64 < length xs \<and> bit (xs ! (i div 64)) (i mod 64)}"

lemma slot_bits_less: "i \<in> slot_bits xs \<Longrightarrow> i < 64 * length xs"
  by (auto simp: slot_bits_def)

lemma slot_bits_Nil [simp]: "slot_bits [] = {}"
  by (simp add: slot_bits_def)

lemma slot_bits_zeros: "(\<forall>x\<in>set xs. x = 0) \<longleftrightarrow> slot_bits xs = {}"
proof
  show "\<forall>x\<in>set xs. x = 0 \<Longrightarrow> slot_bits xs = {}"
  proof (rule ccontr)
    assume z: "\<forall>x\<in>set xs. x = 0" and "slot_bits xs \<noteq> {}"
    then obtain i where i: "i div 64 < length xs" "bit (xs ! (i div 64)) (i mod 64)" by (auto simp: slot_bits_def)
    have "xs ! (i div 64) = 0" using z nth_mem [OF i(1)] by blast
    then show False using i(2) by simp
  qed
  show "\<forall>x\<in>set xs. x = 0" if e: "slot_bits xs = {}"
  proof (rule ballI, rule ccontr)
    fix x assume "x \<in> set xs" "x \<noteq> 0"
    then obtain j where j: "j < length xs" "xs ! j \<noteq> 0" by (auto simp: in_set_conv_nth)
    then obtain k where k: "bit (xs ! j) k" by (auto simp: bit_eq_iff)
    then have "k < 64" using bit_imp_le_length by fastforce
    then have "j * 64 + k \<in> slot_bits xs" using j k by (simp add: slot_bits_def)
    then show False using e by simp
  qed
qed

lemma Curl_ctz64_less: "x \<noteq> 0 \<Longrightarrow> Curl_ctz64 x < 64"
  using Curl_ctz64_bits bit_imp_le_length by fastforce

lemma slot_scan_spec:
  "case slot_scan xs i of
     Some j \<Rightarrow> i \<le> j \<and> j < length xs \<and> xs ! j \<noteq> 0 \<and> (\<forall>k. i \<le> k \<and> k < j \<longrightarrow> xs ! k = 0)
   | None \<Rightarrow> \<forall>k. i \<le> k \<and> k < length xs \<longrightarrow> xs ! k = 0"
proof (induction xs i rule: slot_scan.induct)
  case (1 xs i)
  show ?case
  proof (cases "i < length xs \<and> xs ! i = 0")
    case True
    then have "slot_scan xs i = slot_scan xs (Suc i)" by (simp add: slot_scan.simps [of xs i])
    then show ?thesis using 1 True by (auto split: option.splits) (metis Suc_leI le_neq_implies_less)+
  qed (auto simp: slot_scan.simps [of xs i])
qed

lemma slot_scan_least:
  assumes "slot_scan xs i = Some j"
  shows "j < length xs \<and> Curl_ctz64 (xs ! j) < 64 \<and> least_from (slot_bits xs) (64 * i) (j * 64 + Curl_ctz64 (xs ! j))"
proof -
  have j: "i \<le> j" "j < length xs" "xs ! j \<noteq> 0" "\<forall>k. i \<le> k \<and> k < j \<longrightarrow> xs ! k = 0"
    using slot_scan_spec [where xs = xs and i = i] assms by simp_all
  note c = Curl_ctz64_bits [OF j(3)] Curl_ctz64_less [OF j(3)]
  have "j * 64 + Curl_ctz64 (xs ! j) \<le> k" if k: "k \<in> slot_bits xs" "64 * i \<le> k" for k
  proof -
    have b: "bit (xs ! (k div 64)) (k mod 64)" "i \<le> k div 64" using k by (auto simp: slot_bits_def)
    then have "j \<le> k div 64" using j(4) by (metis bit_0_eq bot_apply not_le bot_bool_def)
    then consider "Suc j \<le> k div 64" | "k div 64 = j" by linarith
    then show ?thesis
    proof cases
      case 1 then show ?thesis using c(2) by linarith
    next
      case 2
      then have "Curl_ctz64 (xs ! j) \<le> k mod 64" using c(1) b(1) not_le by blast
      then show ?thesis using 2 div_mult_mod_eq [of k 64] by linarith
    qed
  qed
  then show ?thesis using j c by (auto simp: least_from_def slot_bits_def)
qed

lemma slot_scan_none:
  assumes "slot_scan xs i = None" and "k \<in> slot_bits xs" shows "k < 64 * i"
proof (rule ccontr)
  assume "\<not> ?thesis"
  then have "i \<le> k div 64" by auto
  then have "xs ! (k div 64) = 0"
    using slot_scan_spec [where xs = xs and i = i] assms by (simp add: slot_bits_def)
  then show False using assms(2) by (simp add: slot_bits_def)
qed

lemma slot_rest:
  assumes "k \<in> slot_bits xs" and "l \<le> k" and "drop_bit (l mod 64) (xs ! (l div 64)) = 0"
  shows "64 * (l div 64 + 1) \<le> k"
proof (rule ccontr)
  assume "\<not> ?thesis"
  then have "k < 64 * Suc (l div 64)" by simp
  then have "k div 64 = l div 64" using div_le_mono [OF assms(2), of 64]
    by (metis le_antisym less_Suc_eq_le less_mult_imp_div_less mult.commute)
  then have "bit (xs ! (l div 64)) (k mod 64)" "l mod 64 \<le> k mod 64"
    using assms(1) div_mult_mod_eq [of k 64] div_mult_mod_eq [of l 64] assms(2)
    by (simp add: slot_bits_def, linarith)
  then have "bit (drop_bit (l mod 64) (xs ! (l div 64))) (k mod 64 - l mod 64)" by (simp add: bit_simps)
  then show False using assms(3) by simp
qed

lemma slot_here:
  assumes "l div 64 < length xs" and "drop_bit (l mod 64) (xs ! (l div 64)) \<noteq> 0"
  defines "c \<equiv> Curl_ctz64 (drop_bit (l mod 64) (xs ! (l div 64)))"
  shows "l + c < 64 * length xs \<and> least_from (slot_bits xs) l (l + c)"
proof -
  let ?x = "drop_bit (l mod 64) (xs ! (l div 64))"
  have c: "bit (xs ! (l div 64)) (l mod 64 + c)" "\<forall>i<c. \<not> bit (xs ! (l div 64)) (l mod 64 + i)"
    using Curl_ctz64_bits [OF assms(2)] by (auto simp: c_def bit_simps)
  then have less: "l mod 64 + c < 64" using bit_imp_le_length by fastforce
  then have d: "(l + c) div 64 = l div 64" "(l + c) mod 64 = l mod 64 + c"
    by (simp_all add: div_add1_eq [of l c] mod_add_eq [symmetric, of l c])
  have "l + c \<le> k" if k: "k \<in> slot_bits xs" "l \<le> k" for k
  proof (rule ccontr)
    assume "\<not> l + c \<le> k"
    then have "k div 64 = l div 64" using k(2) d(1) div_le_mono [of l k 64] div_le_mono [of k "l + c" 64] by simp
    moreover from this have "k mod 64 = l mod 64 + (k - l)"
      using k(2) div_mult_mod_eq [of k 64] div_mult_mod_eq [of l 64] by linarith
    moreover have "k - l < c" using \<open>\<not> l + c \<le> k\<close> k(2) by linarith
    ultimately show False using c(2) k(1) by (auto simp: slot_bits_def)
  qed
  moreover have "l + c \<in> slot_bits xs" using c(1) d assms(1) by (simp add: slot_bits_def)
  ultimately show ?thesis using slot_bits_less by (auto simp: least_from_def)
qed

text \<open>Setting and clearing one bit of one slot.\<close>

lemma slot_bits_update:
  assumes "i div 64 < length xs"
    and "\<And>n. n < 64 \<Longrightarrow> bit y n = (if n = i mod 64 then v else bit (xs ! (i div 64)) n)"
  shows "slot_bits (xs[i div 64 := y]) = (if v then insert i (slot_bits xs) else slot_bits xs - {i})"
proof (rule set_eqI)
  fix k
  have "bit (xs[i div 64 := y] ! (k div 64)) (k mod 64)
      \<longleftrightarrow> (if k = i then v else bit (xs ! (k div 64)) (k mod 64))" if "k div 64 < length xs"
    using that assms(2) [of "k mod 64"] div_mult_mod_eq [of k 64] div_mult_mod_eq [of i 64]
    by (cases "k div 64 = i div 64") auto
  then show "k \<in> slot_bits (xs[i div 64 := y]) \<longleftrightarrow> k \<in> (if v then insert i (slot_bits xs) else slot_bits xs - {i})"
    using assms(1) by (auto simp: slot_bits_def split: if_splits)
qed

lemmas slot_bits_set = slot_bits_update [where v = True, simplified]
lemmas slot_bits_clear = slot_bits_update [where v = False, simplified]

lemma and_single: "x AND push_bit k 1 \<noteq> 0 \<longleftrightarrow> bit x k" for x :: "64 word"
  by (simp add: and_exp_eq_0_iff_not_bit)

lemma count_loop_card:
  assumes "n + 64 * length xs < 2 ^ 32"
  shows "count_loop xs n = n + card (slot_bits xs)"
  using assms
proof (induction xs arbitrary: n)
  case (Cons x xs)
  have s: "slot_bits (x # xs) = {i. bit x i} \<union> (\<lambda>i. i + 64) ` slot_bits xs"
  proof (rule set_eqI)
    fix i show "i \<in> slot_bits (x # xs) \<longleftrightarrow> i \<in> {i. bit x i} \<union> (\<lambda>i. i + 64) ` slot_bits xs"
    proof (cases "i < 64")
      case False
      then obtain j where "i = j + 64" by (metis add.commute le_Suc_ex not_less)
      moreover have "\<not> bit x i" using False bit_imp_le_length [of x i] by auto
      moreover have "(j + 64) div 64 = Suc (j div 64)" by simp
      ultimately show ?thesis by (auto simp: slot_bits_def image_iff simp del: div_add_self2)
    qed (auto simp: slot_bits_def)
  qed
  have fin: "finite {i. bit x i}" "card {i. bit x i} \<le> 64" "{i. bit x i} \<subseteq> {..<64}"
    using card_mono [of "{..<64}" "{i. bit x i}"] finite_subset [of "{i. bit x i}" "{..<64}"]
      bit_imp_le_length [of x] by auto
  have "finite (slot_bits xs)" using finite_subset [of _ "{..<64 * length xs}"] slot_bits_less by auto
  then have "card (slot_bits (x # xs)) = card {i. bit x i} + card (slot_bits xs)"
    unfolding s using fin by (subst card_Un_disjoint) (auto simp: card_image)
  moreover have "(if x \<noteq> 0 then (n + Curl_popcount64 x) mod 2 ^ 32 else n) = n + card {i. bit x i}"
    using fin(2) Cons.prems by (auto simp: Curl_popcount64_bits)
  ultimately show ?case using Cons.IH [of "n + card {i. bit x i}"] Cons.prems fin(2) by simp
qed simp

section \<open>The bitset refines a set\<close>

definition bset_elems :: "uint32_bset \<Rightarrow> nat set" where
  "bset_elems b = slot_bits (slots b)"

text \<open>No slot below \<open>first_slot_used\<close> has a bit set.\<close>

definition bset_ok :: "uint32_bset \<Rightarrow> bool" where
  "bset_ok b \<longleftrightarrow> length (slots b) = nslots b \<and> nslots b \<le> UINT32_MAX div 64
     \<and> (\<forall>i\<in>bset_elems b. 64 * first_slot_used b \<le> i)"

lemma bset_ok_less: "bset_ok b \<Longrightarrow> i \<in> bset_elems b \<Longrightarrow> i < UINT32_MAX"
  using slot_bits_less [of i "slots b"] by (auto simp: bset_ok_def bset_elems_def UINT32_MAX_def)

lemma bset_init_ok: "bset_ok Curl_uint32_bset_init \<and> bset_elems Curl_uint32_bset_init = {}"
  by (simp add: bset_ok_def bset_elems_def Curl_uint32_bset_init_def)

lemma bset_add_ok:
  assumes "bset_ok b" and "Curl_uint32_bset_add b i = (r, b')"
  shows "bset_ok b' \<and> r = (i < 64 * nslots b) \<and> bset_elems b' = (if r then insert i (bset_elems b) else bset_elems b)"
proof (cases "i div 64 < nslots b")
  case True
  let ?y = "slots b ! (i div 64) OR push_bit (i mod 64) 1"
  have "bit ?y n = (if n = i mod 64 then True else bit (slots b ! (i div 64)) n)" if "n < 64" for n
    using that by (auto simp: bit_simps)
  then have "slot_bits ((slots b)[i div 64 := ?y]) = insert i (slot_bits (slots b))"
    using slot_bits_set [of i "slots b" ?y] True assms(1) by (simp add: bset_ok_def)
  moreover have "64 * (if i div 64 < first_slot_used b then i div 64 else first_slot_used b) \<le> x"
    if "x \<in> insert i (slot_bits (slots b))" for x
  proof (cases "x = i")
    case False
    then have "64 * first_slot_used b \<le> x" using that assms(1) by (simp add: bset_ok_def bset_elems_def)
    then show ?thesis by auto
  qed auto
  moreover have "i < 64 * nslots b" using True by auto
  ultimately show ?thesis using assms True
    by (simp add: Curl_uint32_bset_add_def bset_ok_def bset_elems_def Let_def) auto
next
  case False
  then show ?thesis using assms by (auto simp: Curl_uint32_bset_add_def Let_def)
qed

lemma bset_remove_ok:
  assumes "bset_ok b"
  shows "bset_ok (Curl_uint32_bset_remove b i) \<and> bset_elems (Curl_uint32_bset_remove b i) = bset_elems b - {i}"
proof (cases "i div 64 < nslots b")
  case True
  let ?y = "slots b ! (i div 64) AND NOT (push_bit (i mod 64) 1)"
  have "bit ?y n = (if n = i mod 64 then False else bit (slots b ! (i div 64)) n)" if "n < 64" for n
    using that by (auto simp: bit_simps)
  then have "slot_bits ((slots b)[i div 64 := ?y]) = slot_bits (slots b) - {i}"
    using slot_bits_clear [of i "slots b" ?y] True assms by (simp add: bset_ok_def)
  then show ?thesis using assms True
    by (auto simp: Curl_uint32_bset_remove_def bset_ok_def bset_elems_def Let_def)
next
  case False
  then have "i \<notin> bset_elems b" using assms by (auto simp: bset_ok_def bset_elems_def slot_bits_def)
  then show ?thesis using False assms by (auto simp: Curl_uint32_bset_remove_def Let_def)
qed

lemma bset_contains_ok: "bset_ok b \<Longrightarrow> Curl_uint32_bset_contains b i \<longleftrightarrow> i \<in> bset_elems b"
  by (auto simp: Curl_uint32_bset_contains_def bset_elems_def bset_ok_def slot_bits_def and_single Let_def
      simp del: push_bit_of_1)

lemma bset_clear_ok:
  "bset_ok b \<Longrightarrow> bset_ok (Curl_uint32_bset_clear b) \<and> bset_elems (Curl_uint32_bset_clear b) = {}"
  using slot_bits_zeros [of "replicate (nslots b) 0"]
  by (auto simp: Curl_uint32_bset_clear_def bset_ok_def bset_elems_def)

lemma bset_count_ok: "bset_ok b \<Longrightarrow> Curl_uint32_bset_count b = card (bset_elems b)"
  using count_loop_card [of 0 "slots b"]
  by (simp add: Curl_uint32_bset_count_def bset_elems_def bset_ok_def UINT32_MAX_def)

lemma bset_empty_ok: "bset_ok b \<Longrightarrow> Curl_uint32_bset_empty b \<longleftrightarrow> bset_elems b = {}"
proof (cases "slot_scan (slots b) (first_slot_used b)")
  case None
  then show "bset_ok b \<Longrightarrow> ?thesis"
    using slot_scan_none [OF None] by (fastforce simp: Curl_uint32_bset_empty_def bset_ok_def bset_elems_def)
next
  case (Some j)
  then show ?thesis using slot_scan_least [OF Some]
    by (auto simp: Curl_uint32_bset_empty_def bset_elems_def least_from_def)
qed

lemma slot_bits_resize:
  "slot_bits (take k xs @ replicate m 0) = {i \<in> slot_bits xs. i < 64 * k}" if "k \<le> length xs"
proof (rule set_eqI)
  fix i
  have "i < 64 * k \<longleftrightarrow> i div 64 < k" by (auto simp: div_less_iff_less_mult mult.commute)
  then show "i \<in> slot_bits (take k xs @ replicate m 0) \<longleftrightarrow> i \<in> {i \<in> slot_bits xs. i < 64 * k}"
    using that by (auto simp: slot_bits_def nth_append)
qed

lemma bset_resize_ok:
  assumes "bset_ok b" and "Curl_uint32_bset_resize calloc_ok b nmax = (r, b')" and "nmax \<le> UINT32_MAX"
  shows "bset_ok b' \<and> (if r = CURLE_OK then min nmax (UINT32_MAX - 63) \<le> 64 * nslots b'
      \<and> bset_elems b' = {i \<in> bset_elems b. i < 64 * nslots b'} else b' = b \<and> \<not> calloc_ok)"
proof -
  define n where "n = (if nmax < UINT32_MAX - 63 then (nmax + 63) div 64 else UINT32_MAX div 64)"
  have n: "min nmax (UINT32_MAX - 63) \<le> 64 * n" "n \<le> UINT32_MAX div 64"
    by (auto simp: n_def UINT32_MAX_def)
  let ?k = "min n (nslots b)"
  have len: "length (slots b) = nslots b" using assms(1) by (simp add: bset_ok_def)
  have "bset_elems b = {i \<in> bset_elems b. i < 64 * nslots b}"
    using slot_bits_less len by (fastforce simp: bset_elems_def)
  moreover have "slot_bits (take ?k (slots b) @ replicate (n - ?k) 0) = {i \<in> bset_elems b. i < 64 * n}"
    using slot_bits_resize [of ?k "slots b" "n - ?k"] len slot_bits_less [of _ "slots b"]
    by (auto simp: bset_elems_def)
  ultimately show ?thesis
    using assms n len unfolding Curl_uint32_bset_resize_def Let_def n_def [symmetric]
    by (auto simp: bset_ok_def bset_elems_def split: if_splits)
qed

lemma bset_scan_wrap:
  assumes "bset_ok b" and "least_from (bset_elems b) m n" shows "n mod 2 ^ 32 = n"
proof -
  have "n < UINT32_MAX" using assms bset_ok_less by (auto simp: least_from_def)
  then show ?thesis by (simp add: UINT32_MAX_def)
qed

lemma bset_first_ok:
  assumes "bset_ok b" and "Curl_uint32_bset_first b = (r, n, b')"
  shows "bset_ok b' \<and> bset_elems b' = bset_elems b
    \<and> (if r then least_from (bset_elems b) 0 n else bset_elems b = {})"
proof (cases "slot_scan (slots b) (first_slot_used b)")
  case None
  then have "bset_elems b = {}" using bset_empty_ok [OF assms(1)] by (simp add: Curl_uint32_bset_empty_def)
  then show ?thesis using None assms by (auto simp: Curl_uint32_bset_first_def bset_ok_def bset_elems_def)
next
  case (Some j)
  let ?n = "j * 64 + Curl_ctz64 (slots b ! j)"
  have l: "least_from (bset_elems b) (64 * first_slot_used b) ?n" "Curl_ctz64 (slots b ! j) < 64"
    using slot_scan_least [OF Some] by (simp_all add: bset_elems_def)
  have "least_from (bset_elems b) 0 ?n" using l(1) assms(1) by (simp add: least_from_def bset_ok_def)
  moreover have "64 * j \<le> k" if "k \<in> bset_elems b" for k
    using calculation that by (auto simp: least_from_def)
  moreover have "r" "n = ?n" "b' = b\<lparr>first_slot_used := j\<rparr>"
    using Some assms(2) bset_scan_wrap [OF assms(1) l(1)] by (auto simp: Curl_uint32_bset_first_def)
  ultimately show ?thesis using assms(1) by (simp add: bset_ok_def bset_elems_def)
qed

lemma bset_next_ok:
  assumes "bset_ok b" and "m < UINT32_MAX" and "Curl_uint32_bset_next b m = (r, n)"
  shows "if r then least_from (bset_elems b) (Suc m) n else \<forall>k\<in>bset_elems b. k \<le> m"
proof -
  define l where "l = Suc m"
  let ?x = "drop_bit (l mod 64) (slots b ! (l div 64))"
  have len: "length (slots b) = nslots b" using assms(1) by (simp add: bset_ok_def)
  have nx: "(r, n) = (if l div 64 < nslots b then
        if ?x \<noteq> 0 then (True, (l + Curl_ctz64 ?x) mod 2 ^ 32)
        else (case slot_scan (slots b) (l div 64 + 1) of
                Some i \<Rightarrow> (True, (i * 64 + Curl_ctz64 (slots b ! i)) mod 2 ^ 32)
              | None \<Rightarrow> (False, UINT32_MAX))
      else (False, UINT32_MAX))"
  proof -
    have "(m + 1) mod 2 ^ 32 = l" using assms(2) by (simp add: l_def UINT32_MAX_def)
    from assms(3) [symmetric, unfolded Curl_uint32_bset_next_def Let_def this] show ?thesis .
  qed
  have "if r then least_from (bset_elems b) l n else \<forall>k\<in>bset_elems b. k < l"
  proof (cases "l div 64 < nslots b")
    case False
    then have "k < l" if "k \<in> bset_elems b" for k
      using slot_bits_less [of k "slots b"] that len by (auto simp: bset_elems_def)
    then show ?thesis using nx False by simp
  next
    case in1: True
    show ?thesis
    proof (cases "?x = 0")
      case False
      have "least_from (bset_elems b) l (l + Curl_ctz64 ?x)"
        using slot_here [OF _ False] in1 len by (simp add: bset_elems_def)
      then show ?thesis using nx False in1 bset_scan_wrap [OF assms(1)] by simp
    next
      case True
      have rest: "k \<in> bset_elems b \<Longrightarrow> l \<le> k \<Longrightarrow> 64 * (l div 64 + 1) \<le> k" for k
        using slot_rest [OF _ _ True] by (simp add: bset_elems_def)
      show ?thesis
      proof (cases "slot_scan (slots b) (l div 64 + 1)")
        case None
        from slot_scan_none [OF this] have "k < l" if "k \<in> bset_elems b" for k
          using rest [OF that] that by (fastforce simp: bset_elems_def)
        then show ?thesis using nx True in1 None by simp
      next
        case (Some i)
        have i: "least_from (bset_elems b) (64 * (l div 64 + 1)) (i * 64 + Curl_ctz64 (slots b ! i))"
          using slot_scan_least [OF Some] by (simp add: bset_elems_def)
        have "l \<le> 64 * (l div 64 + 1)" by simp
        then have "least_from (bset_elems b) l (i * 64 + Curl_ctz64 (slots b ! i))"
          using least_from_lower [OF i _ rest] by blast
        then show ?thesis using nx True in1 Some bset_scan_wrap [OF assms(1)] by simp
      qed
    qed
  qed
  then show ?thesis by (cases r) (simp_all add: l_def less_Suc_eq_le)
qed

interpretation bset: uint_set Curl_uint32_bset_first Curl_uint32_bset_next bset_elems bset_ok
proof
  fix b b' r n m
  assume ok: "bset_ok b"
  show "n \<in> bset_elems b \<Longrightarrow> n \<le> UINT32_MAX" using bset_ok_less [OF ok] by (simp add: less_imp_le)
  show "Curl_uint32_bset_first b = (r, n, b') \<Longrightarrow> bset_ok b' \<and> bset_elems b' = bset_elems b"
    using bset_first_ok [OF ok] by blast
  show "Curl_uint32_bset_first b = (True, n, b') \<Longrightarrow> least_from (bset_elems b) 0 n"
    using bset_first_ok [OF ok, of True n b'] by simp
  show "Curl_uint32_bset_first b = (False, n, b') \<Longrightarrow> bset_elems b = {}"
    using bset_first_ok [OF ok, of False n b'] by simp
  show "m < UINT32_MAX \<Longrightarrow> Curl_uint32_bset_next b m = (True, n) \<Longrightarrow> least_from (bset_elems b) (Suc m) n"
    using bset_next_ok [OF ok, of m True n] by simp
  show "m < UINT32_MAX \<Longrightarrow> Curl_uint32_bset_next b m = (False, n) \<Longrightarrow> \<forall>k\<in>bset_elems b. k \<le> m"
    using bset_next_ok [OF ok, of m False n] by simp
qed

text \<open>
  C22: the bitset is a set of numbers.  On a well-formed bitset membership, the number of
  elements and emptiness are answered exactly, also with the bit tricks of \<open>Curl_popcount64\<close>
  and \<open>Curl_ctz64\<close>; adding takes every number below the capacity and removing any number;
  the loop over the set lists it in ascending order; and all of them keep the invariant.
\<close>

theorem bset_is_set:
  assumes "bset_ok b"
  shows "(Curl_uint32_bset_contains b i \<longleftrightarrow> i \<in> bset_elems b)
    \<and> Curl_uint32_bset_count b = card (bset_elems b)
    \<and> (Curl_uint32_bset_empty b \<longleftrightarrow> bset_elems b = {})
    \<and> (\<exists>b'. Curl_uint32_bset_add b i = (i < 64 * nslots b, b') \<and> bset_ok b'
        \<and> bset_elems b' = (if i < 64 * nslots b then insert i (bset_elems b) else bset_elems b))
    \<and> bset_ok (Curl_uint32_bset_remove b i) \<and> bset_elems (Curl_uint32_bset_remove b i) = bset_elems b - {i}
    \<and> (\<exists>b'. for_each Curl_uint32_bset_first Curl_uint32_bset_next (\<lambda>_ s. s) b
        = Some (sorted_list_of_set (bset_elems b), b') \<and> bset_elems b' = bset_elems b)"
proof -
  obtain r b' where a: "Curl_uint32_bset_add b i = (r, b')" by (rule prod.exhaust)
  have "UINT32_MAX \<notin> bset_elems b" using bset_ok_less [OF assms, of UINT32_MAX] by blast
  then show ?thesis
    using bset_contains_ok [OF assms] bset_count_ok [OF assms] bset_empty_ok [OF assms] bset_add_ok [OF assms a] a
      bset_remove_ok [OF assms] bset.for_each_enumerates [OF assms] by simp
qed

theorem bset_is_set_witness:
  "Curl_uint32_bset_count (snd (Curl_uint32_bset_resize True Curl_uint32_bset_init 100)) = 0
     \<and> bset_elems (snd (Curl_uint32_bset_add (snd (Curl_uint32_bset_resize True Curl_uint32_bset_init 100)) 70)) = {70}"
proof -
  let ?r = "Curl_uint32_bset_resize True Curl_uint32_bset_init 100"
  have "replicate 2 (0 :: 64 word) = [0, 0]" by (simp add: numeral_2_eq_2)
  then have r: "?r = (CURLE_OK, \<lparr>slots = [0, 0], nslots = 2, first_slot_used = 0\<rparr>)"
    by (simp add: Curl_uint32_bset_resize_def Curl_uint32_bset_init_def UINT32_MAX_def)
  have ok: "bset_ok (snd ?r)"
    using bset_resize_ok [OF conjunct1 [OF bset_init_ok] r] by (simp add: r UINT32_MAX_def)
  have e: "bset_elems (snd ?r) = {}" using slot_bits_zeros [of "[0, 0]"] by (simp add: r bset_elems_def)
  have n: "nslots (snd ?r) = 2" by (simp add: r)
  from bset_is_set [OF ok, of 70] show ?thesis unfolding e n by auto
qed

text \<open>
  The loop over a bitset may change the set.  If the body keeps the bitset well-formed, the
  loop ends within as many rounds as there are numbers, visits numbers in strictly ascending
  order, none twice, and visits every number that stays in the set throughout.
\<close>

lemma bset_walk_under_changes:
  assumes "\<And>n b. bset_ok b \<Longrightarrow> K \<subseteq> bset_elems b \<Longrightarrow> bset_ok (body n b) \<and> K \<subseteq> bset_elems (body n b)"
    and "bset_ok b" and "K \<subseteq> bset_elems b"
  shows "\<exists>ns b'. for_each Curl_uint32_bset_first Curl_uint32_bset_next body b = Some (ns, b')
    \<and> sorted_wrt (<) ns \<and> K \<subseteq> set ns \<and> K \<subseteq> bset_elems b'"
proof -
  have h: "bset.holds_through K b \<longleftrightarrow> bset_ok b \<and> K \<subseteq> bset_elems b" for b
    using bset_ok_less [of b UINT32_MAX] by (auto simp: bset.holds_through_def)
  show ?thesis using bset.for_each_visits [of K body b] assms unfolding h by blast
qed

definition demo_bset :: uint32_bset where
  "demo_bset = \<lparr>slots = [6, 1], nslots = 2, first_slot_used = 0\<rparr>"

end
