(* ===== verification/Timers.thy ===== *)
theory Timers
  imports Splay Uint_Bset Transition
begin

text \<open>
  The timers of the multi interface, \<^verbatim>\<open>lib/multi.c\<close>: each transfer keeps a list of timeouts, and its
  next expiry is one node of the splay tree of the multi handle.  An easy handle and its tree
  node are named by the same number.  The current time is an argument.

  Contents: the operations, the invariant that ties lists, expiry times and tree together, how
  late the expiry of a transfer can be, the loop that wakes the expired transfers, and the
  timeout reported to the application.
\<close>

datatype expire_id =
    EXPIRE_100_TIMEOUT
  | EXPIRE_ASYNC_NAME
  | EXPIRE_CONNECTTIMEOUT
  | EXPIRE_DNS_PER_NAME
  | EXPIRE_DNS_PER_NAME2
  | EXPIRE_HAPPY_EYEBALLS_DNS
  | EXPIRE_HAPPY_EYEBALLS
  | EXPIRE_MULTI_PENDING
  | EXPIRE_SPEEDCHECK
  | EXPIRE_TIMEOUT
  | EXPIRE_TOOFAST
  | EXPIRE_QUIC
  | EXPIRE_FTP_ACCEPT
  | EXPIRE_ALPN_EYEBALLS
  | EXPIRE_SHUTDOWN

type_synonym time_node = "expire_id \<times> curltime"

record easy_timers =
  expiretime :: curltime
  timeoutlist :: "time_node list"
  in_multi :: bool
  mid :: nat

record multi_timers =
  timetree :: splay
  easies :: "nat \<Rightarrow> easy_timers"
  dirty :: uint32_bset

definition upd_easy :: "nat \<Rightarrow> easy_timers \<Rightarrow> multi_timers \<Rightarrow> multi_timers" where
  "upd_easy d e m = m\<lparr>easies := (easies m)(d := e)\<rparr>"

section \<open>Operations\<close>

fun multi_deltimeout :: "expire_id \<Rightarrow> time_node list \<Rightarrow> time_node list" where
  "multi_deltimeout eid [] = []"
| "multi_deltimeout eid (n # ns) = (if fst n = eid then ns else n # multi_deltimeout eid ns)"

fun multi_addtimeout :: "time_node list \<Rightarrow> curltime \<Rightarrow> expire_id \<Rightarrow> time_node list" where
  "multi_addtimeout [] stamp eid = [(eid, stamp)]"
| "multi_addtimeout (n # ns) stamp eid =
     (if curlx_ptimediff_ms (snd n) stamp > 0 then (eid, stamp) # n # ns
      else n # multi_addtimeout ns stamp eid)"

definition expire_at :: "curltime \<Rightarrow> int \<Rightarrow> curltime" where
  "expire_at now milli =
     (let sec = tv_sec now + cdiv milli 1000;
          usec = tv_usec now + (milli - 1000 * cdiv milli 1000) * 1000
      in if usec \<ge> 1000000 then \<lparr>tv_sec = sec + 1, tv_usec = usec - 1000000\<rparr>
         else \<lparr>tv_sec = sec, tv_usec = usec\<rparr>)"

definition Curl_expire_ex :: "curltime \<Rightarrow> multi_timers \<Rightarrow> nat \<Rightarrow> int \<Rightarrow> expire_id \<Rightarrow> multi_timers" where
  "Curl_expire_ex now m d milli eid =
     (let e = easies m d in
      if \<not> in_multi e then m
      else
        (let set = expire_at now milli;
             e1 = e\<lparr>timeoutlist := multi_addtimeout (multi_deltimeout eid (timeoutlist e)) set eid\<rparr>;
             put = (\<lambda>tr. (upd_easy d (e1\<lparr>expiretime := set\<rparr>) m)\<lparr>timetree := Curl_splayinsert set (Curl_splayset tr d d) d\<rparr>)
         in if tv_sec (expiretime e) \<noteq> 0 \<or> tv_usec (expiretime e) \<noteq> 0 then
              if curlx_ptimediff_ms set (expiretime e) > 0 then upd_easy d e1 m
              else put (snd (Curl_splayremove (timetree m) d))
            else put (timetree m)))"

definition Curl_expire :: "curltime \<Rightarrow> multi_timers \<Rightarrow> nat \<Rightarrow> int \<Rightarrow> expire_id \<Rightarrow> multi_timers" where
  "Curl_expire now m d milli eid = Curl_expire_ex now m d milli eid"

definition Curl_expire_done :: "multi_timers \<Rightarrow> nat \<Rightarrow> expire_id \<Rightarrow> multi_timers" where
  "Curl_expire_done m d eid =
     upd_easy d ((easies m d)\<lparr>timeoutlist := multi_deltimeout eid (timeoutlist (easies m d))\<rparr>) m"

definition Curl_expire_clear :: "multi_timers \<Rightarrow> nat \<Rightarrow> multi_timers" where
  "Curl_expire_clear m d =
     (let e = easies m d in
      if \<not> in_multi e then m
      else if tv_sec (expiretime e) \<noteq> 0 \<or> tv_usec (expiretime e) \<noteq> 0 then
        (upd_easy d (e\<lparr>timeoutlist := [], expiretime := tv_zero\<rparr>) m)
          \<lparr>timetree := snd (Curl_splayremove (timetree m) d)\<rparr>
      else m)"

definition add_next_timeout :: "curltime \<Rightarrow> multi_timers \<Rightarrow> nat \<Rightarrow> multi_timers" where
  "add_next_timeout now m d =
     (let e = easies m d;
          ns = dropWhile (\<lambda>n. curlx_ptimediff_us (snd n) now \<le> 0) (timeoutlist e)
      in case ns of
           [] \<Rightarrow> upd_easy d (e\<lparr>timeoutlist := [], expiretime := tv_zero\<rparr>) m
         | n # _ \<Rightarrow> (upd_easy d (e\<lparr>timeoutlist := ns, expiretime := snd n\<rparr>) m)
                       \<lparr>timetree := Curl_splayinsert (snd n) (timetree m) d\<rparr>)"

definition Curl_multi_mark_dirty :: "multi_timers \<Rightarrow> nat \<Rightarrow> multi_timers" where
  "Curl_multi_mark_dirty m d =
     (if in_multi (easies m d) \<and> mid (easies m d) \<noteq> UINT32_MAX
      then m\<lparr>dirty := snd (Curl_uint32_bset_add (dirty m) (mid (easies m d)))\<rparr> else m)"

text \<open>The loop \<open>while(1)\<close>; the fuel bounds its rounds.\<close>

fun multi_mark_expired_as_dirty :: "nat \<Rightarrow> multi_timers \<Rightarrow> curltime \<Rightarrow> multi_timers option" where
  "multi_mark_expired_as_dirty 0 m ts = None"
| "multi_mark_expired_as_dirty (Suc fuel) m ts =
     (case Curl_splaygetbest ts (timetree m) of
        (None, tr) \<Rightarrow> Some (m\<lparr>timetree := tr\<rparr>)
      | (Some t, tr) \<Rightarrow>
          (case Curl_splayget tr t of
             None \<Rightarrow> multi_mark_expired_as_dirty fuel (m\<lparr>timetree := tr\<rparr>) ts
           | Some d \<Rightarrow>
               multi_mark_expired_as_dirty fuel
                 (Curl_multi_mark_dirty (add_next_timeout ts (m\<lparr>timetree := tr\<rparr>) d) d) ts))"

text \<open>The expire time, the timeout in milliseconds and the state after splaying.\<close>

definition multi_timeout ::
  "bool \<Rightarrow> bool \<Rightarrow> curltime \<Rightarrow> multi_timers \<Rightarrow> curltime option \<times> int \<times> multi_timers" where
  "multi_timeout dead has_dirties now m =
     (if dead then (None, 0, m)
      else if has_dirties then (Some now, 0, m)
      else
        (case Curl_splay tv_zero (root (timetree m)) of
           Tip \<Rightarrow> (Some tv_zero, -1, m)
         | Node s k rg la \<Rightarrow>
             (Some k, if curlx_ptimediff_us k now > 0 then curlx_timediff_ceil_ms k now else 0,
              m\<lparr>timetree := (timetree m)\<lparr>root := Node s k rg la\<rparr>\<rparr>)))"

text \<open>
  The loop over the dirty transfers, which drops those that are gone or no longer processed.
  \<open>found\<close> says whether \<open>Curl_multi_get_easy\<close> finds a transfer; the fuel bounds the rounds.
\<close>

fun dirties_loop :: "(nat \<Rightarrow> bool) \<Rightarrow> uint32_bset \<Rightarrow> nat \<Rightarrow> uint32_bset \<Rightarrow> nat \<Rightarrow> (bool \<times> uint32_bset) option" where
  "dirties_loop found proc 0 ds n = None"
| "dirties_loop found proc (Suc fuel) ds n =
     (if found n \<and> Curl_uint32_bset_contains proc n then Some (True, ds)
      else
        (let ds' = Curl_uint32_bset_remove ds n in
         case Curl_uint32_bset_next ds' n of
           (True, n') \<Rightarrow> dirties_loop found proc fuel ds' n'
         | (False, _) \<Rightarrow> Some (False, ds')))"

definition multi_has_dirties :: "(nat \<Rightarrow> bool) \<Rightarrow> uint32_bset \<Rightarrow> uint32_bset \<Rightarrow> (bool \<times> uint32_bset) option" where
  "multi_has_dirties found proc ds =
     (case Curl_uint32_bset_first ds of
        (True, n, ds') \<Rightarrow> dirties_loop found proc (Suc UINT32_MAX) ds' n
      | (False, _, ds') \<Rightarrow> Some (False, ds'))"

datatype CURLMcode =
    CURLM_CALL_MULTI_PERFORM
  | CURLM_OK
  | CURLM_BAD_HANDLE
  | CURLM_BAD_EASY_HANDLE
  | CURLM_OUT_OF_MEMORY
  | CURLM_INTERNAL_ERROR
  | CURLM_BAD_SOCKET
  | CURLM_UNKNOWN_OPTION
  | CURLM_ADDED_ALREADY
  | CURLM_RECURSIVE_API_CALL
  | CURLM_WAKEUP_FAILURE
  | CURLM_BAD_FUNCTION_ARGUMENT
  | CURLM_ABORTED_BY_CALLBACK
  | CURLM_UNRECOVERABLE_POLL

definition curl_multi_timeout ::
  "bool \<Rightarrow> bool \<Rightarrow> bool \<Rightarrow> bool \<Rightarrow> curltime \<Rightarrow> multi_timers \<Rightarrow> CURLMcode \<times> int option \<times> multi_timers" where
  "curl_multi_timeout good in_callback dead has_dirties now m =
     (if \<not> good then (CURLM_BAD_HANDLE, None, m)
      else if in_callback then (CURLM_RECURSIVE_API_CALL, None, m)
      else (case multi_timeout dead has_dirties now m of (_, ms, m') \<Rightarrow> (CURLM_OK, Some ms, m')))"

text \<open>What the application was last told, and whether the multi handle is dead.\<close>

record app_timer =
  last_timeout_ms :: int
  last_expire_ts :: curltime
  multi_dead :: bool

text \<open>
  The callback is the answer it gives, \<open>None\<close> when there is none.  The result is the code, the
  timeout given to the callback if it was called, and the state.
\<close>

definition Curl_update_timer ::
  "(int \<Rightarrow> int) option \<Rightarrow> bool \<Rightarrow> curltime \<Rightarrow> app_timer \<Rightarrow> multi_timers \<Rightarrow>
   CURLMcode \<times> int option \<times> app_timer \<times> multi_timers" where
  "Curl_update_timer timer_cb has_dirties now a m =
     (case timer_cb of
        None \<Rightarrow> (CURLM_OK, None, a, m)
      | Some cb \<Rightarrow>
          if multi_dead a then (CURLM_OK, None, a, m)
          else
            (case multi_timeout False has_dirties now m of
               (et, ms, m') \<Rightarrow>
                 (let expire_ts = the et;
                      set_value =
                        (if ms < 0 \<and> last_timeout_ms a < 0 then False
                         else if ms < 0 then True
                         else if last_timeout_ms a < 0 then True
                         else curlx_ptimediff_us (last_expire_ts a) expire_ts \<noteq> 0);
                      ms' = (if ms < 0 then -1 else ms)
                  in if set_value then
                       (let a' = a\<lparr>last_expire_ts := expire_ts, last_timeout_ms := ms'\<rparr> in
                        if cb ms' = -1 then (CURLM_ABORTED_BY_CALLBACK, Some ms', a'\<lparr>multi_dead := True\<rparr>, m')
                        else (CURLM_OK, Some ms', a', m'))
                     else (CURLM_OK, None, a, m'))))"

section \<open>The lists of timeouts\<close>

text \<open>Ordered up to less than a millisecond.\<close>

definition loosely_sorted :: "time_node list \<Rightarrow> bool" where
  "loosely_sorted ns \<longleftrightarrow> list_all (\<lambda>n. time_ok (snd n)) ns
     \<and> sorted_wrt (\<lambda>a b. micros (snd a) < micros (snd b) + 1000) ns"

lemma deltimeout_set: "set (multi_deltimeout eid ns) \<subseteq> set ns"
  by (induction ns) auto

lemma deltimeout_sorted: "loosely_sorted ns \<Longrightarrow> loosely_sorted (multi_deltimeout eid ns)"
  using deltimeout_set by (induction ns) (fastforce simp: loosely_sorted_def)+

lemma addtimeout_set: "set (multi_addtimeout ns stamp eid) = insert (eid, stamp) (set ns)"
  by (induction ns) auto

lemma addtimeout_sorted:
  assumes "loosely_sorted ns" and "time_ok stamp"
  shows "loosely_sorted (multi_addtimeout ns stamp eid)"
  using assms
proof (induction ns)
  case (Cons n ns)
  have ok: "time_ok (snd n)" "loosely_sorted ns" "\<forall>b\<in>set ns. micros (snd n) < micros (snd b) + 1000"
    using Cons.prems(1) by (auto simp: loosely_sorted_def)
  show ?case
  proof (cases "curlx_ptimediff_ms (snd n) stamp > 0")
    case True
    from diff_ms_pos [OF ok(1) assms(2) this] have "micros stamp < micros (snd n)" .
    then have "\<forall>b\<in>set ns. micros stamp < micros (snd b) + 1000" using ok(3) by force
    then show ?thesis using Cons.prems True \<open>micros stamp < micros (snd n)\<close> by (auto simp: loosely_sorted_def)
  next
    case False
    then have "micros (snd n) < micros stamp + 1000" using diff_ms_nonpos [OF ok(1) assms(2)] by simp
    then show ?thesis using Cons False ok
      by (auto simp: loosely_sorted_def addtimeout_set list_all_iff)
  qed
qed (simp add: loosely_sorted_def)

lemma expire_at_ok:
  assumes "time_ok now" and "0 \<le> milli" and "tv_sec now + milli < 2 ^ 61"
  shows "time_ok (expire_at now milli)" and "micros (expire_at now milli) = micros now + 1000 * milli"
proof -
  have "milli div 1000 \<le> milli" using assms(2) by linarith
  moreover have "milli div 1000 * 1000000 + milli mod 1000 * 1000 = 1000 * milli"
    using div_mult_mod_eq [of milli 1000] by linarith
  ultimately show "time_ok (expire_at now milli)" "micros (expire_at now milli) = micros now + 1000 * milli"
    using assms by (auto simp: expire_at_def time_ok_def micros_def cdiv_def Let_def minus_mult_div_eq_mod)
qed

section \<open>The invariant\<close>

text \<open>
  A transfer is in the tree exactly when its expiry time is set, under that time; a transfer
  with no expiry time has no timeouts.
\<close>

definition easy_ok :: "splay \<Rightarrow> nat \<Rightarrow> easy_timers \<Rightarrow> bool" where
  "easy_ok tr d e \<longleftrightarrow> loosely_sorted (timeoutlist e) \<and> time_ok (expiretime e)
     \<and> (\<forall>k. (k, d) \<in> set (timers tr) \<longleftrightarrow> k = expiretime e \<and> k \<noteq> tv_zero)
     \<and> (expiretime e = tv_zero \<longrightarrow> timeoutlist e = []) \<and> (expiretime e \<noteq> tv_zero \<longrightarrow> nptr tr d = Some d)"

definition timers_ok :: "multi_timers \<Rightarrow> bool" where
  "timers_ok m \<longleftrightarrow> splay_ok (timetree m) \<and> (\<forall>d. easy_ok (timetree m) d (easies m d)) \<and> bset_ok (dirty m)"

lemma is_zero: "tv_sec t \<noteq> 0 \<or> tv_usec t \<noteq> 0 \<longleftrightarrow> t \<noteq> tv_zero"
  by (auto simp: tv_zero_def)

lemma zero_ok [simp]: "time_ok tv_zero" "micros tv_zero = 0"
  by (simp_all add: time_ok_def tv_zero_def micros_def)

lemma easy_ok_in: "easy_ok tr d e \<Longrightarrow> d \<in> snd ` set (timers tr) \<longleftrightarrow> expiretime e \<noteq> tv_zero"
  by (force simp: easy_ok_def)

lemma timers_splayset [simp]:
  "timers (Curl_splayset tr d x) = timers tr" "splay_ok (Curl_splayset tr d x) \<longleftrightarrow> splay_ok tr"
  "nptr (Curl_splayset tr d x) = (nptr tr)(d := Some x)"
  by (simp_all add: Curl_splayset_def timers_def splay_ok_def)

lemma nptr_insert [simp]: "nptr (Curl_splayinsert k tr d) = nptr tr"
  by (simp add: Curl_splayinsert_def split: Curl_tree.split)

lemma nptr_remove: "Curl_splayremove tr d = (rc, tr') \<Longrightarrow> nptr tr' = nptr tr"
  by (auto simp: Curl_splayremove_def ring_promote_def Let_def split: Curl_tree.splits if_splits)

lemma nptr_getbest: "Curl_splaygetbest k tr = (r, tr') \<Longrightarrow> nptr tr' = nptr tr"
  by (auto simp: Curl_splaygetbest_def ring_promote_def Let_def split: Curl_tree.splits if_splits)

lemma timer_add_set [simp]: "set (timer_add k d es) = insert (k, d) (set es)"
  by (auto simp: timer_add_def)

text \<open>The two ways the tree changes for one transfer: its entry goes, or a new one comes.\<close>

lemma tree_remove:
  assumes "splay_ok tr" and "easy_ok tr d e" and "expiretime e \<noteq> tv_zero"
  defines "tr' \<equiv> snd (Curl_splayremove tr d)"
  shows "splay_ok tr' \<and> set (timers tr') = {x \<in> set (timers tr). snd x \<noteq> d} \<and> nptr tr' = nptr tr"
proof -
  obtain rc where r: "Curl_splayremove tr d = (rc, tr')" by (cases "Curl_splayremove tr d") (simp add: tr'_def)
  have "d \<in> snd ` set (timers tr)" using easy_ok_in [OF assms(2)] assms(3) by simp
  from splayremove_ok [OF assms(1) this r] nptr_remove [OF r] show ?thesis by simp
qed

lemma tree_insert:
  assumes "splay_ok tr" and "time_ok k" and "d \<notin> snd ` set (timers tr)"
  shows "splay_ok (Curl_splayinsert k tr d) \<and> set (timers (Curl_splayinsert k tr d)) = insert (k, d) (set (timers tr))"
  using splayinsert_ok [OF assms] by simp

text \<open>Changing the tree entry of one transfer leaves the others alone.\<close>

lemma easy_ok_other:
  assumes "easy_ok tr x e" and "nptr tr' x = nptr tr x"
    and "\<And>k. (k, x) \<in> set (timers tr') \<longleftrightarrow> (k, x) \<in> set (timers tr)"
  shows "easy_ok tr' x e"
  using assms by (simp add: easy_ok_def)

lemma timers_okI:
  assumes "timers_ok m" and "splay_ok tr'" and "easy_ok tr' d e'"
    and "\<And>x k. x \<noteq> d \<Longrightarrow> (k, x) \<in> set (timers tr') \<longleftrightarrow> (k, x) \<in> set (timers (timetree m))"
    and "\<And>x. x \<noteq> d \<Longrightarrow> nptr tr' x = nptr (timetree m) x"
  shows "timers_ok ((upd_easy d e' m)\<lparr>timetree := tr'\<rparr>)"
proof -
  have "easy_ok tr' x (easies m x)" if "x \<noteq> d" for x
    using easy_ok_other [of "timetree m" x "easies m x" tr'] assms(1,4,5) that by (simp add: timers_ok_def)
  then show ?thesis using assms(1-3) by (simp add: timers_ok_def upd_easy_def)
qed

lemma upd_easy_timetree: "upd_easy d e m = (upd_easy d e m)\<lparr>timetree := timetree m\<rparr>"
  by (simp add: upd_easy_def)

lemma timers_ok_put:
  assumes "timers_ok m" and "splay_ok tr" and "set (timers tr) = {x \<in> set (timers (timetree m)). snd x \<noteq> d}"
    and "nptr tr = nptr (timetree m)" and "time_ok k" and "k \<noteq> tv_zero" and "loosely_sorted (timeoutlist e)"
    and "expiretime e = k"
  shows "timers_ok ((upd_easy d e m)\<lparr>timetree := Curl_splayinsert k (Curl_splayset tr d d) d\<rparr>)"
proof -
  let ?tr = "Curl_splayinsert k (Curl_splayset tr d d) d"
  have "d \<notin> snd ` set (timers (Curl_splayset tr d d))" using assms(3) by auto
  from tree_insert [OF _ assms(5) this] assms(2) have i: "splay_ok ?tr"
      "set (timers ?tr) = insert (k, d) {x \<in> set (timers (timetree m)). snd x \<noteq> d}"
    using assms(3) by simp_all
  show ?thesis
  proof (rule timers_okI [OF assms(1) i(1)])
    show "easy_ok ?tr d e" using i(2) assms(5-8) by (auto simp: easy_ok_def)
  qed (use i assms(4) in auto)
qed

section \<open>Setting and clearing timeouts\<close>

lemma expire_ex_cases:
  fixes now :: curltime and milli :: int and eid :: expire_id
  assumes "timers_ok m" and "in_multi (easies m d)"
  defines "e \<equiv> easies m d" and "k \<equiv> expire_at now milli"
  defines "e1 \<equiv> e\<lparr>timeoutlist := multi_addtimeout (multi_deltimeout eid (timeoutlist e)) k eid\<rparr>"
  obtains (kept) "expiretime e \<noteq> tv_zero" "curlx_ptimediff_ms k (expiretime e) > 0"
      "Curl_expire_ex now m d milli eid = upd_easy d e1 m"
    | (put) tr where "expiretime e = tv_zero \<or> curlx_ptimediff_ms k (expiretime e) \<le> 0"
      "splay_ok tr" "set (timers tr) = {x \<in> set (timers (timetree m)). snd x \<noteq> d}" "nptr tr = nptr (timetree m)"
      "Curl_expire_ex now m d milli eid
        = (upd_easy d (e1\<lparr>expiretime := k\<rparr>) m)\<lparr>timetree := Curl_splayinsert k (Curl_splayset tr d d) d\<rparr>"
proof -
  have ok: "splay_ok (timetree m)" "easy_ok (timetree m) d e" using assms(1) by (simp_all add: timers_ok_def e_def)
  have x: "Curl_expire_ex now m d milli eid = (if expiretime e \<noteq> tv_zero then
      if curlx_ptimediff_ms k (expiretime e) > 0 then upd_easy d e1 m
      else (upd_easy d (e1\<lparr>expiretime := k\<rparr>) m)
        \<lparr>timetree := Curl_splayinsert k (Curl_splayset (snd (Curl_splayremove (timetree m) d)) d d) d\<rparr>
    else (upd_easy d (e1\<lparr>expiretime := k\<rparr>) m)\<lparr>timetree := Curl_splayinsert k (Curl_splayset (timetree m) d d) d\<rparr>)"
    using assms(2) unfolding Curl_expire_ex_def Let_def is_zero e1_def k_def e_def by simp
  show thesis
  proof (cases "expiretime e = tv_zero")
    case True
    then have "d \<notin> snd ` set (timers (timetree m))" using easy_ok_in [OF ok(2)] by simp
    then have "set (timers (timetree m)) = {x \<in> set (timers (timetree m)). snd x \<noteq> d}" by force
    then show thesis using True ok(1) assms(2)
      by (intro put [of "timetree m"]) (simp_all add: x)
  next
    case False
    show thesis
    proof (cases "curlx_ptimediff_ms k (expiretime e) > 0")
      case True
      then show thesis using False assms(2)
        by (intro kept) (simp_all add: x)
    next
      case le: False
      show thesis
        using tree_remove [OF ok False] False le assms(2)
        by (intro put [of "snd (Curl_splayremove (timetree m) d)"]) (simp_all add: x)
    qed
  qed
qed

lemma expire_ex_ok:
  assumes "timers_ok m" and "time_ok now" and "now \<noteq> tv_zero" and "0 \<le> milli" and "tv_sec now + milli < 2 ^ 61"
  shows "timers_ok (Curl_expire_ex now m d milli eid)"
proof (cases "in_multi (easies m d)")
  case True
  let ?e = "easies m d" and ?k = "expire_at now milli"
  have ok: "easy_ok (timetree m) d ?e" using assms(1) by (simp add: timers_ok_def)
  note k = expire_at_ok [OF assms(2,4,5)]
  have "0 < micros now" using micros_nonneg [OF assms(2)] micros_inj [OF assms(2), of tv_zero] assms(3) by force
  then have nz: "?k \<noteq> tv_zero" using k(2) assms(4) by (metis add_nonneg_pos add.commute less_irrefl zero_ok(2) mult_nonneg_nonneg zero_le_numeral)
  have ls: "loosely_sorted (multi_addtimeout (multi_deltimeout eid (timeoutlist ?e)) ?k eid)"
    using ok addtimeout_sorted [OF deltimeout_sorted k(1)] by (simp add: easy_ok_def)
  from assms(1) True show ?thesis
  proof (cases rule: expire_ex_cases [where now = now and milli = milli and eid = eid])
    case kept
    show ?thesis unfolding kept(3)
      by (subst upd_easy_timetree, rule timers_okI [OF assms(1)])
        (use assms(1) ok ls kept(1) in \<open>auto simp: timers_ok_def easy_ok_def\<close>)
  next
    case (put tr)
    show ?thesis unfolding put(5)
      by (rule timers_ok_put [OF assms(1) put(2,3,4) k(1) nz]) (simp_all add: ls)
  qed
qed (use assms(1) in \<open>simp add: Curl_expire_ex_def\<close>)

lemma expire_done_ok: "timers_ok m \<Longrightarrow> timers_ok (Curl_expire_done m d eid)"
proof -
  assume m: "timers_ok m"
  then have "easy_ok (timetree m) d (easies m d)" "splay_ok (timetree m)" by (simp_all add: timers_ok_def)
  then show ?thesis unfolding Curl_expire_done_def
    by (subst upd_easy_timetree, intro timers_okI [OF m]) (auto simp: easy_ok_def deltimeout_sorted)
qed

lemma Curl_expire_clear_eq:
  "Curl_expire_clear m d = (if in_multi (easies m d) \<and> expiretime (easies m d) \<noteq> tv_zero then
     (upd_easy d ((easies m d)\<lparr>timeoutlist := [], expiretime := tv_zero\<rparr>) m)
       \<lparr>timetree := snd (Curl_splayremove (timetree m) d)\<rparr> else m)"
  unfolding Curl_expire_clear_def Let_def is_zero by simp

lemma expire_clear_ok: "timers_ok m \<Longrightarrow> timers_ok (Curl_expire_clear m d)"
proof (cases "in_multi (easies m d) \<and> expiretime (easies m d) \<noteq> tv_zero")
  case True
  assume m: "timers_ok m"
  then have ok: "splay_ok (timetree m)" "easy_ok (timetree m) d (easies m d)" by (simp_all add: timers_ok_def)
  let ?tr = "snd (Curl_splayremove (timetree m) d)"
  note r = tree_remove [OF ok conjunct2 [OF True]]
  have "timers_ok ((upd_easy d ((easies m d)\<lparr>timeoutlist := [], expiretime := tv_zero\<rparr>) m)\<lparr>timetree := ?tr\<rparr>)"
    by (rule timers_okI [OF m]) (use r in \<open>auto simp: easy_ok_def loosely_sorted_def\<close>)
  then show ?thesis using True by (simp add: Curl_expire_clear_eq)
qed (auto simp: Curl_expire_clear_eq)

section \<open>How late an expiry can be\<close>

text \<open>The expiry of a transfer is at most \<open>s\<close> microseconds after any of its timeouts.\<close>

definition slack :: "int \<Rightarrow> easy_timers \<Rightarrow> bool" where
  "slack s e \<longleftrightarrow> (\<forall>n\<in>set (timeoutlist e). micros (expiretime e) \<le> micros (snd n) + s)"

lemma upd_easy_same [simp]: "easies (upd_easy d e m) d = e" "timetree (upd_easy d e m) = timetree m"
  by (simp_all add: upd_easy_def)

lemma expire_ex_other [simp]: "x \<noteq> d \<Longrightarrow> easies (Curl_expire_ex now m d milli eid) x = easies m x"
  by (simp add: Curl_expire_ex_def upd_easy_def Let_def)

text \<open>All times of a transfer are whole milliseconds.\<close>

definition whole_ms :: "easy_timers \<Rightarrow> bool" where
  "whole_ms e \<longleftrightarrow> 1000 dvd micros (expiretime e) \<and> (\<forall>n\<in>set (timeoutlist e). 1000 dvd micros (snd n))"

lemma dvd_less_step: "1000 dvd a \<Longrightarrow> 1000 dvd b \<Longrightarrow> a < b + 1000 \<Longrightarrow> a \<le> b" for a b :: int
  by (elim dvdE) simp

lemma expire_ex_slack:
  fixes eid :: expire_id
  assumes "timers_ok m" and "time_ok now" and "0 \<le> milli" and "tv_sec now + milli < 2 ^ 61"
    and "in_multi (easies m d)" and "slack s (easies m d)" and "0 \<le> s"
  defines "e' \<equiv> easies (Curl_expire_ex now m d milli eid) d"
  shows "slack (s + 999) e'" and "whole_ms (easies m d) \<Longrightarrow> 1000 dvd micros now \<Longrightarrow> whole_ms e' \<and> slack s e'"
proof -
  let ?e = "easies m d" and ?k = "expire_at now milli"
  note k = expire_at_ok [OF assms(2-4)]
  have cur: "time_ok (expiretime ?e)" "expiretime ?e = tv_zero \<Longrightarrow> timeoutlist ?e = []"
    using assms(1) by (simp_all add: timers_ok_def easy_ok_def)
  have mem: "n \<in> set (timeoutlist ?e)" if "n \<in> set (multi_deltimeout eid (timeoutlist ?e))" for n
    using that deltimeout_set by fast
  from assms(1,5) have "slack (s + 999) e' \<and> (whole_ms ?e \<and> 1000 dvd micros now \<longrightarrow> whole_ms e' \<and> slack s e')"
  proof (cases rule: expire_ex_cases [where now = now and milli = milli and eid = eid])
    case kept
    have e': "e' = ?e\<lparr>timeoutlist := multi_addtimeout (multi_deltimeout eid (timeoutlist ?e)) ?k eid\<rparr>"
      by (simp add: e'_def kept(3))
    have "micros (expiretime ?e) < micros ?k" using diff_ms_pos [OF k(1) cur(1) kept(2)] .
    then have "slack s e'" using assms(6,7) mem by (fastforce simp: slack_def e' addtimeout_set)
    moreover have "whole_ms ?e \<Longrightarrow> 1000 dvd micros now \<Longrightarrow> whole_ms e'"
      using mem k(2) by (auto simp: whole_ms_def e' addtimeout_set)
    ultimately show ?thesis by (fastforce simp: slack_def)
  next
    case (put tr)
    have e': "e' = ?e\<lparr>timeoutlist := multi_addtimeout (multi_deltimeout eid (timeoutlist ?e)) ?k eid, expiretime := ?k\<rparr>"
      by (simp add: e'_def put(5) upd_easy_def)
    have lt: "micros ?k < micros (expiretime ?e) + 1000" if "timeoutlist ?e \<noteq> []"
      using put(1) cur that diff_ms_nonpos [OF k(1) cur(1)] by auto
    have old: "micros (expiretime ?e) \<le> micros (snd n) + s" if "n \<in> set (multi_deltimeout eid (timeoutlist ?e))" for n
      using assms(6) mem [OF that] by (simp add: slack_def)
    have ne: "timeoutlist ?e \<noteq> []" if "n \<in> set (multi_deltimeout eid (timeoutlist ?e))" for n using mem [OF that] by auto
    have "slack (s + 999) e'"
      using assms(7) old lt ne by (fastforce simp: slack_def e' addtimeout_set)
    moreover have "whole_ms e' \<and> slack s e'" if w: "whole_ms ?e" "1000 dvd micros now"
    proof -
      have wk: "1000 dvd micros ?k" using k(2) w(2) by simp
      then have "micros ?k \<le> micros (expiretime ?e)" if "timeoutlist ?e \<noteq> []"
        using dvd_less_step [OF wk _ lt [OF that]] w(1) by (simp add: whole_ms_def)
      then have "slack s e'" using assms(7) old ne by (fastforce simp: slack_def e' addtimeout_set)
      moreover have "whole_ms e'" using w mem wk by (auto simp: whole_ms_def e' addtimeout_set)
      ultimately show ?thesis by blast
    qed
    ultimately show ?thesis by blast
  qed
  then show "slack (s + 999) e'" "whole_ms (easies m d) \<Longrightarrow> 1000 dvd micros now \<Longrightarrow> whole_ms e' \<and> slack s e'"
    by simp_all
qed

section \<open>Waking the expired transfers\<close>

definition due :: "curltime \<Rightarrow> splay \<Rightarrow> nat" where
  "due ts tr = length (filter (\<lambda>e. micros (fst e) \<le> micros ts) (timers tr))"

lemma due_add:
  assumes "micros ts < micros k"
  shows "filter (\<lambda>e. micros (fst e) \<le> micros ts) (timer_add k d es) = filter (\<lambda>e. micros (fst e) \<le> micros ts) es"
proof -
  have "filter (\<lambda>e. micros k < micros (fst e) \<and> micros (fst e) \<le> micros ts) es = []" using assms by simp
  moreover have "filter (\<lambda>e. micros (fst e) \<le> micros k \<and> micros (fst e) \<le> micros ts) es
      = filter (\<lambda>e. micros (fst e) \<le> micros ts) es" using assms by (intro filter_cong) auto
  ultimately show ?thesis using assms by (simp add: timer_add_def conj_commute)
qed

lemma loosely_sorted_dropWhile: "loosely_sorted ns \<Longrightarrow> loosely_sorted (dropWhile P ns)"
  by (induction ns) (auto simp: loosely_sorted_def)

text \<open>
  The transfer whose entry has just been taken out of the tree: afterwards its expiry is later
  than now and within a millisecond of its remaining timeouts.
\<close>

lemma add_next_ok:
  assumes "timers_ok m" and "time_ok ts" and "expiretime (easies m d) \<noteq> tv_zero"
    and "splay_ok tr" and "set (timers tr) = {x \<in> set (timers (timetree m)). snd x \<noteq> d}" and "nptr tr = nptr (timetree m)"
  defines "m' \<equiv> add_next_timeout ts (m\<lparr>timetree := tr\<rparr>) d"
  shows "timers_ok m'" and "due ts (timetree m') = due ts tr"
    and "(k, d) \<in> set (timers (timetree m')) \<Longrightarrow> micros ts < micros k"
    and "slack 999 (easies m' d)" and "x \<noteq> d \<Longrightarrow> easies m' x = easies m x"
    and "{n \<in> set (timeoutlist (easies m d)). micros ts < micros (snd n)} \<subseteq> set (timeoutlist (easies m' d))"
    and "dirty m' = dirty m" and "mid (easies m' d) = mid (easies m d)" and "in_multi (easies m' d) = in_multi (easies m d)"
proof -
  let ?e = "easies m d"
  have ok: "easy_ok (timetree m) d ?e" using assms(1) by (simp add: timers_ok_def)
  have tk: "time_ok (snd n)" if "n \<in> set (timeoutlist ?e)" for n
    using ok that by (auto simp: easy_ok_def loosely_sorted_def list_all_iff)
  let ?P = "\<lambda>n. curlx_ptimediff_us (snd n) ts \<le> 0"
  have P: "?P n \<longleftrightarrow> micros (snd n) \<le> micros ts" if "n \<in> set (timeoutlist ?e)" for n
    using diff_us_sign(2) [OF tk [OF that] assms(2)] by (simp add: not_less [symmetric])
  define ns where "ns = dropWhile ?P (timeoutlist ?e)"
  have m'_eq: "m' = (case ns of
      [] \<Rightarrow> upd_easy d (?e\<lparr>timeoutlist := [], expiretime := tv_zero\<rparr>) (m\<lparr>timetree := tr\<rparr>)
    | n # _ \<Rightarrow> (upd_easy d (?e\<lparr>timeoutlist := ns, expiretime := snd n\<rparr>) (m\<lparr>timetree := tr\<rparr>))
        \<lparr>timetree := Curl_splayinsert (snd n) tr d\<rparr>)"
    unfolding m'_def add_next_timeout_def ns_def Let_def by (simp split: list.split del: dropWhile_eq_Nil_conv)
  have ls: "loosely_sorted ns" using ok loosely_sorted_dropWhile by (simp add: ns_def easy_ok_def)
  have keep: "{n \<in> set (timeoutlist ?e). micros ts < micros (snd n)} \<subseteq> set ns"
  proof
    fix n assume n: "n \<in> {n \<in> set (timeoutlist ?e). micros ts < micros (snd n)}"
    then have "n \<notin> set (takeWhile ?P (timeoutlist ?e))" using P [of n] by (auto dest: set_takeWhileD)
    then show "n \<in> set ns" using n unfolding ns_def by (metis (mono_tags, lifting) Un_iff mem_Collect_eq set_append takeWhile_dropWhile_id)
  qed
  have main: "timers_ok m' \<and> due ts (timetree m') = due ts tr \<and> (\<forall>k. (k, d) \<in> set (timers (timetree m')) \<longrightarrow> micros ts < micros k)
    \<and> slack 999 (easies m' d) \<and> easies m' d = ?e\<lparr>timeoutlist := ns, expiretime := expiretime (easies m' d)\<rparr>"
  proof (cases ns)
    case Nil
    then have m': "m' = (upd_easy d (?e\<lparr>timeoutlist := [], expiretime := tv_zero\<rparr>) m)\<lparr>timetree := tr\<rparr>"
      by (simp add: m'_eq upd_easy_def)
    have "timers_ok m'" unfolding m'
      by (rule timers_okI [OF assms(1,4)]) (use assms(5,6) in \<open>auto simp: easy_ok_def loosely_sorted_def\<close>)
    then show ?thesis using m' assms(5) Nil by (auto simp: slack_def upd_easy_def)
  next
    case (Cons n rest)
    have n: "n \<in> set (timeoutlist ?e)" "\<not> ?P n"
      using Cons dropWhile_eq_Cons_conv [of ?P "timeoutlist ?e" n rest] set_dropWhileD [of n ?P "timeoutlist ?e"]
      by (auto simp: ns_def)
    then have late: "micros ts < micros (snd n)" using P by simp
    let ?tr = "Curl_splayinsert (snd n) tr d"
    have m': "m' = (upd_easy d (?e\<lparr>timeoutlist := ns, expiretime := snd n\<rparr>) m)\<lparr>timetree := ?tr\<rparr>"
      using Cons by (simp add: m'_eq upd_easy_def)
    have out: "d \<notin> snd ` set (timers tr)" using assms(5) by auto
    note i = tree_insert [OF assms(4) tk [OF n(1)] out]
    have nz: "snd n \<noteq> tv_zero" using late micros_nonneg [OF assms(2)] by (metis less_le_not_le zero_ok(2))
    have "timers_ok m'" unfolding m'
    proof (rule timers_okI [OF assms(1) conjunct1 [OF i]])
      show "easy_ok ?tr d (?e\<lparr>timeoutlist := ns, expiretime := snd n\<rparr>)"
        using i ls nz tk [OF n(1)] ok assms(3,5,6) by (auto simp: easy_ok_def)
    qed (use i assms(5,6) in auto)
    moreover have "due ts ?tr = due ts tr"
      using splayinsert_ok [OF assms(4) tk [OF n(1)] out] due_add [OF late] by (simp add: due_def)
    moreover have "slack 999 (?e\<lparr>timeoutlist := ns, expiretime := snd n\<rparr>)"
      using ls Cons by (fastforce simp: slack_def loosely_sorted_def)
    ultimately show ?thesis using m' i assms(5) late by (auto simp: upd_easy_def)
  qed
  then show "timers_ok m'" "due ts (timetree m') = due ts tr" "(k, d) \<in> set (timers (timetree m')) \<Longrightarrow> micros ts < micros k"
      "slack 999 (easies m' d)" by blast+
  from main have e: "easies m' d = ?e\<lparr>timeoutlist := ns, expiretime := expiretime (easies m' d)\<rparr>" by blast
  show "{n \<in> set (timeoutlist ?e). micros ts < micros (snd n)} \<subseteq> set (timeoutlist (easies m' d))"
    using keep by (subst e) simp
  show "mid (easies m' d) = mid ?e" "in_multi (easies m' d) = in_multi ?e" by (subst e, simp)+
  show "x \<noteq> d \<Longrightarrow> easies m' x = easies m x" "dirty m' = dirty m"
    by (simp_all add: m'_def add_next_timeout_def upd_easy_def Let_def split: list.splits)
qed

lemma mark_dirty_facts:
  assumes "timers_ok m" and "m' = Curl_multi_mark_dirty m d"
  shows "timers_ok m'" and "timetree m' = timetree m" and "easies m' = easies m" and "nslots (dirty m') = nslots (dirty m)"
    and "bset_elems (dirty m) \<subseteq> bset_elems (dirty m')"
    and "in_multi (easies m d) \<Longrightarrow> mid (easies m d) < 64 * nslots (dirty m) \<Longrightarrow> mid (easies m d) \<in> bset_elems (dirty m')"
proof -
  have ok: "bset_ok (dirty m)" using assms(1) by (simp add: timers_ok_def)
  obtain r b where a: "Curl_uint32_bset_add (dirty m) (mid (easies m d)) = (r, b)" by (rule prod.exhaust)
  note b = bset_add_ok [OF ok a]
  have cap: "64 * nslots (dirty m) \<le> UINT32_MAX" using ok by (auto simp: bset_ok_def)
  have n: "nslots b = nslots (dirty m)" using a by (auto simp: Curl_uint32_bset_add_def Let_def split: if_splits)
  show "timers_ok m'" "timetree m' = timetree m" "easies m' = easies m" "nslots (dirty m') = nslots (dirty m)"
      "bset_elems (dirty m) \<subseteq> bset_elems (dirty m')"
    using assms a b n by (auto simp: Curl_multi_mark_dirty_def timers_ok_def)
  show "in_multi (easies m d) \<Longrightarrow> mid (easies m d) < 64 * nslots (dirty m) \<Longrightarrow> mid (easies m d) \<in> bset_elems (dirty m')"
    using assms(2) a b cap by (auto simp: Curl_multi_mark_dirty_def)
qed

text \<open>One round: the first entry is taken out, its transfer gets its next timeout and is marked.\<close>

lemma next_step:
  assumes "timers_ok m" and "time_ok ts" and "Curl_splaygetbest ts (timetree m) = (Some d, tr)"
  defines "m' \<equiv> add_next_timeout ts (m\<lparr>timetree := tr\<rparr>) d"
  shows "Curl_splayget tr d = Some d" and "timers_ok m'" and "Suc (due ts (timetree m')) = due ts (timetree m)"
    and "dirty m' = dirty m" and "expiretime (easies m d) \<noteq> tv_zero" and "\<And>x. x \<noteq> d \<Longrightarrow> easies m' x = easies m x"
    and "\<And>x. mid (easies m' x) = mid (easies m x)" and "\<And>x. in_multi (easies m' x) = in_multi (easies m x)"
    and "\<And>k x. x \<noteq> d \<Longrightarrow> (k, x) \<in> set (timers (timetree m')) \<longleftrightarrow> (k, x) \<in> set (timers (timetree m))"
proof -
  have ok: "splay_ok (timetree m)" "\<And>x. easy_ok (timetree m) x (easies m x)" using assms(1) by (simp_all add: timers_ok_def)
  obtain k es where t: "timers (timetree m) = (k, d) # es" "micros k \<le> micros ts" "timers tr = es" "splay_ok tr"
    using splaygetbest_ok [OF ok(1) assms(2,3)] by (auto split: list.splits if_splits)
  note np = nptr_getbest [OF assms(3)]
  show d: "expiretime (easies m d) \<noteq> tv_zero" using easy_ok_in [OF ok(2), of d] t(1) by simp
  have "d \<notin> snd ` set es" using ok(1) t(1) by (simp add: splay_ok_def)
  then have s: "set (timers tr) = {x \<in> set (timers (timetree m)). snd x \<noteq> d}" using t by (auto simp: image_iff)
  note a = add_next_ok [OF assms(1,2) d t(4) s np, folded m'_def]
  show "Curl_splayget tr d = Some d" using d ok(2) np by (simp add: Curl_splayget_def easy_ok_def)
  show "timers_ok m'" "dirty m' = dirty m" using a(1,7) by simp_all
  show e: "x \<noteq> d \<Longrightarrow> easies m' x = easies m x" for x using a(5) .
  show "mid (easies m' x) = mid (easies m x)" "in_multi (easies m' x) = in_multi (easies m x)" for x
    using a(5,8,9) by (metis (no_types, lifting))+
  show "Suc (due ts (timetree m')) = due ts (timetree m)" using a(2) t(1-3) by (simp add: due_def)
  show "(k, x) \<in> set (timers (timetree m')) \<longleftrightarrow> (k, x) \<in> set (timers (timetree m))" if "x \<noteq> d" for k x
  proof -
    have "easy_ok (timetree m') x (easies m x)" using a(1) e [OF that] by (metis timers_ok_def)
    then show ?thesis using ok(2) [of x] by (simp add: easy_ok_def)
  qed
qed

lemma mark_step:
  assumes "timers_ok m" and "time_ok ts" and "Curl_splaygetbest ts (timetree m) = (Some d, tr)"
  defines "m' \<equiv> Curl_multi_mark_dirty (add_next_timeout ts (m\<lparr>timetree := tr\<rparr>) d) d"
  shows "Curl_splayget tr d = Some d \<and> timers_ok m' \<and> Suc (due ts (timetree m')) = due ts (timetree m)
    \<and> bset_elems (dirty m) \<subseteq> bset_elems (dirty m') \<and> nslots (dirty m') = nslots (dirty m)
    \<and> (in_multi (easies m d) \<and> mid (easies m d) < 64 * nslots (dirty m) \<longrightarrow> mid (easies m d) \<in> bset_elems (dirty m'))
    \<and> (\<forall>k x. x \<noteq> d \<longrightarrow> ((k, x) \<in> set (timers (timetree m')) \<longleftrightarrow> (k, x) \<in> set (timers (timetree m))))
    \<and> (\<forall>x. mid (easies m' x) = mid (easies m x) \<and> in_multi (easies m' x) = in_multi (easies m x))"
proof -
  note a = next_step [OF assms(1-3)]
  define m1 where "m1 = add_next_timeout ts (m\<lparr>timetree := tr\<rparr>) d"
  have "m' = Curl_multi_mark_dirty m1 d" by (simp add: m'_def m1_def)
  note b = mark_dirty_facts [OF a(2) [folded m1_def] this]
  show ?thesis using a(1,3,4,7-9) b unfolding b(2,3) by (simp add: m1_def)
qed

lemma mark_loop:
  assumes "timers_ok m" and "time_ok ts" and "due ts (timetree m) < fuel"
  shows "\<exists>m'. multi_mark_expired_as_dirty fuel m ts = Some m' \<and> timers_ok m'
    \<and> (\<forall>k x. (k, x) \<in> set (timers (timetree m')) \<longrightarrow> micros ts < micros k)
    \<and> bset_elems (dirty m) \<subseteq> bset_elems (dirty m')
    \<and> (\<forall>k x. (k, x) \<in> set (timers (timetree m)) \<and> micros k \<le> micros ts \<and> in_multi (easies m x)
        \<and> mid (easies m x) < 64 * nslots (dirty m) \<longrightarrow> mid (easies m x) \<in> bset_elems (dirty m'))"
  using assms
proof (induction fuel arbitrary: m)
  case (Suc fuel)
  have ok: "splay_ok (timetree m)" using Suc.prems(1) by (simp add: timers_ok_def)
  obtain r tr where g: "Curl_splaygetbest ts (timetree m) = (r, tr)" by (rule prod.exhaust)
  note gb = splaygetbest_ok [OF ok assms(2) g]
  show ?case
  proof (cases r)
    case None
    have same: "timers tr = timers (timetree m)" "splay_ok tr" using gb None by (auto split: list.splits if_splits)
    have "micros ts < micros k" if "(k, x) \<in> set (timers (timetree m))" for k x
    proof (cases "timers (timetree m)")
      case (Cons y ys)
      have "micros (fst y) \<le> micros k" using timers_sorted [OF ok] that Cons by auto
      moreover have "micros ts < micros (fst y)" using gb None Cons by (auto split: if_splits)
      ultimately show ?thesis by simp
    qed (use that in simp)
    moreover have "timers_ok (m\<lparr>timetree := tr\<rparr>)"
      using Suc.prems(1) same nptr_getbest [OF g] by (simp add: timers_ok_def easy_ok_def)
    ultimately show ?thesis using g None same by fastforce
  next
    case (Some d)
    note st = mark_step [OF Suc.prems(1) assms(2) g [unfolded Some]]
    let ?m = "Curl_multi_mark_dirty (add_next_timeout ts (m\<lparr>timetree := tr\<rparr>) d) d"
    have "due ts (timetree ?m) < fuel" using st Suc.prems(3) by linarith
    from Suc.IH [OF _ assms(2) this] st obtain m' where m': "multi_mark_expired_as_dirty fuel ?m ts = Some m'" "timers_ok m'"
        "\<forall>k x. (k, x) \<in> set (timers (timetree m')) \<longrightarrow> micros ts < micros k"
        "bset_elems (dirty ?m) \<subseteq> bset_elems (dirty m')"
        "\<forall>k x. (k, x) \<in> set (timers (timetree ?m)) \<and> micros k \<le> micros ts \<and> in_multi (easies ?m x)
          \<and> mid (easies ?m x) < 64 * nslots (dirty ?m) \<longrightarrow> mid (easies ?m x) \<in> bset_elems (dirty m')" by blast
    have "mid (easies m x) \<in> bset_elems (dirty m')" if x: "(k, x) \<in> set (timers (timetree m))" "micros k \<le> micros ts"
        "in_multi (easies m x)" "mid (easies m x) < 64 * nslots (dirty m)" for k x
    proof (cases "x = d")
      case True
      then show ?thesis using st x m'(4) by blast
    next
      case False
      then show ?thesis using st x m'(5) by metis
    qed
    moreover have "multi_mark_expired_as_dirty (Suc fuel) m ts = Some m'" using g Some st m'(1) by simp
    moreover have "bset_elems (dirty m) \<subseteq> bset_elems (dirty m')" using st m'(4) by blast
    ultimately show ?thesis using m'(2,3) by blast
  qed
qed simp

section \<open>Runs of the timer operations\<close>

text \<open>What the transfers and the event loop do to the timers, in any order and at any time.\<close>

inductive timer_step :: "multi_timers \<Rightarrow> multi_timers \<Rightarrow> bool" where
  set_timeout: "time_ok now \<Longrightarrow> now \<noteq> tv_zero \<Longrightarrow> 0 \<le> milli \<Longrightarrow> tv_sec now + milli < 2 ^ 61 \<Longrightarrow>
    timer_step m (Curl_expire now m d milli eid)"
| remove_timeout: "timer_step m (Curl_expire_done m d eid)"
| clear_all: "timer_step m (Curl_expire_clear m d)"
| wake: "time_ok ts \<Longrightarrow> multi_mark_expired_as_dirty fuel m ts = Some m' \<Longrightarrow> timer_step m m'"

lemma mark_loop_inv: "timers_ok m \<Longrightarrow> time_ok ts \<Longrightarrow> multi_mark_expired_as_dirty fuel m ts = Some m' \<Longrightarrow> timers_ok m'"
proof (induction fuel arbitrary: m)
  case (Suc fuel)
  have ok: "splay_ok (timetree m)" using Suc.prems(1) by (simp add: timers_ok_def)
  obtain r tr where g: "Curl_splaygetbest ts (timetree m) = (r, tr)" by (rule prod.exhaust)
  show ?case
  proof (cases r)
    case None
    have "timers tr = timers (timetree m)" "splay_ok tr"
      using splaygetbest_ok [OF ok Suc.prems(2) g] None by (auto split: list.splits if_splits)
    then have "timers_ok (m\<lparr>timetree := tr\<rparr>)"
      using Suc.prems(1) nptr_getbest [OF g] by (simp add: timers_ok_def easy_ok_def)
    then show ?thesis using Suc.prems(3) g None by simp
  next
    case (Some d)
    let ?m = "Curl_multi_mark_dirty (add_next_timeout ts (m\<lparr>timetree := tr\<rparr>) d) d"
    have st: "Curl_splayget tr d = Some d" "timers_ok ?m" using mark_step [OF Suc.prems(1,2) g [unfolded Some]] by blast+
    have "multi_mark_expired_as_dirty fuel ?m ts = Some m'" using Suc.prems(3) g Some st(1) by simp
    then show ?thesis using Suc.IH [OF st(2) Suc.prems(2)] by blast
  qed
qed simp

interpretation timer_runs: step_invariant timer_step timers_ok
proof
  fix s t assume "timers_ok s" "timer_step s t"
  from this(2,1) show "timers_ok t"
    by cases (auto simp: Curl_expire_def expire_ex_ok expire_done_ok expire_clear_ok intro: mark_loop_inv)
qed

definition easy_new :: "nat \<Rightarrow> easy_timers" where
  "easy_new i = \<lparr>expiretime = tv_zero, timeoutlist = [], in_multi = True, mid = i\<rparr>"

definition multi_new :: "uint32_bset \<Rightarrow> multi_timers" where
  "multi_new b = \<lparr>timetree = splay_empty, easies = easy_new, dirty = b\<rparr>"

lemma multi_new_ok: "bset_ok b \<Longrightarrow> timers_ok (multi_new b)"
  by (simp add: timers_ok_def multi_new_def easy_ok_def easy_new_def splay_empty_ok loosely_sorted_def)

text \<open>
  C20: no timeout is forgotten.  After any sequence of setting, removing and clearing timeouts
  and of waking transfers, a transfer that still has a timeout has exactly one entry in the splay
  tree, under its expiry time, and a transfer without an expiry time has none.
\<close>

theorem timeouts_stay_scheduled:
  assumes "timer_step\<^sup>*\<^sup>* (multi_new b) m" and "bset_ok b"
  shows "distinct (map snd (timers (timetree m)))
    \<and> (\<forall>k. (k, d) \<in> set (timers (timetree m)) \<longleftrightarrow> k = expiretime (easies m d) \<and> k \<noteq> tv_zero)
    \<and> (timeoutlist (easies m d) \<noteq> [] \<longrightarrow> expiretime (easies m d) \<noteq> tv_zero)"
proof -
  have "timers_ok m" using timer_runs.inv_run [OF assms(1) multi_new_ok [OF assms(2)]] .
  then show ?thesis by (auto simp: timers_ok_def easy_ok_def splay_ok_def)
qed

definition sec :: "int \<Rightarrow> curltime" where
  "sec n = \<lparr>tv_sec = n, tv_usec = 0\<rparr>"

theorem timeouts_stay_scheduled_witness:
  "distinct (map snd (timers (timetree (Curl_expire (sec 7) (multi_new Curl_uint32_bset_init) 3 1000 EXPIRE_TIMEOUT))))"
proof -
  have "timer_step (multi_new Curl_uint32_bset_init) (Curl_expire (sec 7) (multi_new Curl_uint32_bset_init) 3 1000 EXPIRE_TIMEOUT)"
    by (rule set_timeout) (simp_all add: sec_def tv_zero_def time_ok_def)
  from timeouts_stay_scheduled [OF r_into_rtranclp [of timer_step, OF this] conjunct1 [OF bset_init_ok]]
  show ?thesis by (rule conjunct1)
qed

text \<open>
  C21: expired transfers are woken, and the loop that does it ends.  With more rounds than there
  are entries the loop returns; then no entry of the tree is due any more, every transfer that
  was due is in the set of dirty transfers, and none that was there has left it.
\<close>

theorem expired_are_woken:
  assumes "timers_ok m" and "time_ok ts" and "length (timers (timetree m)) < rounds"
  shows "\<exists>m'. multi_mark_expired_as_dirty rounds m ts = Some m' \<and> timers_ok m'
    \<and> (\<forall>k x. (k, x) \<in> set (timers (timetree m')) \<longrightarrow> micros ts < micros k)
    \<and> bset_elems (dirty m) \<subseteq> bset_elems (dirty m')
    \<and> (\<forall>k x. (k, x) \<in> set (timers (timetree m)) \<and> micros k \<le> micros ts \<and> in_multi (easies m x)
        \<and> mid (easies m x) < 64 * nslots (dirty m) \<longrightarrow> mid (easies m x) \<in> bset_elems (dirty m'))"
proof (rule mark_loop [OF assms(1,2)])
  show "due ts (timetree m) < rounds"
    unfolding due_def by (rule le_less_trans [OF length_filter_le assms(3)])
qed

definition demo_dirty :: uint32_bset where
  "demo_dirty = \<lparr>slots = [0], nslots = 1, first_slot_used = 0\<rparr>"

definition demo_timers :: multi_timers where
  "demo_timers = Curl_expire (sec 7) (multi_new demo_dirty) 3 1000 EXPIRE_TIMEOUT"

lemma demo_timers_facts:
  "timers_ok demo_timers" "timers (timetree demo_timers) = [(sec 8, 3)]"
  "in_multi (easies demo_timers 3)" "mid (easies demo_timers 3) = 3" "nslots (dirty demo_timers) = 1"
proof -
  have "bset_ok demo_dirty" using slot_bits_zeros [of "[0]"] by (simp add: bset_ok_def demo_dirty_def bset_elems_def UINT32_MAX_def)
  moreover have "timer_step (multi_new demo_dirty) demo_timers"
    unfolding demo_timers_def by (rule set_timeout) (simp_all add: sec_def tv_zero_def time_ok_def)
  ultimately show "timers_ok demo_timers" using timer_runs.inv_step multi_new_ok by blast
  have "expire_at (sec 7) 1000 = sec 8" by (simp add: expire_at_def sec_def cdiv_def Let_def)
  then have dt: "demo_timers = (upd_easy 3 (easy_new 3\<lparr>timeoutlist := [(EXPIRE_TIMEOUT, sec 8)], expiretime := sec 8\<rparr>) (multi_new demo_dirty))
      \<lparr>timetree := Curl_splayinsert (sec 8) (Curl_splayset splay_empty 3 3) 3\<rparr>"
    by (simp add: demo_timers_def Curl_expire_def Curl_expire_ex_def multi_new_def easy_new_def tv_zero_def Let_def)
  show "timers (timetree demo_timers) = [(sec 8, 3)]" "in_multi (easies demo_timers 3)" "mid (easies demo_timers 3) = 3"
      "nslots (dirty demo_timers) = 1"
    by (simp_all add: dt Curl_splayinsert_def Curl_splayset_def splay_empty_def timers_def upd_easy_def easy_new_def
        multi_new_def demo_dirty_def)
qed

theorem expired_are_woken_witness:
  "\<exists>m'. multi_mark_expired_as_dirty 2 demo_timers (sec 9) = Some m' \<and> 3 \<in> bset_elems (dirty m')"
proof -
  have "time_ok (sec 9)" "micros (sec 8) \<le> micros (sec 9)" by (simp_all add: sec_def time_ok_def micros_def)
  moreover have "length (timers (timetree demo_timers)) < 2" by (simp add: demo_timers_facts)
  ultimately obtain m' where "multi_mark_expired_as_dirty 2 demo_timers (sec 9) = Some m'"
      "\<forall>k x. (k, x) \<in> set (timers (timetree demo_timers)) \<and> micros k \<le> micros (sec 9) \<and> in_multi (easies demo_timers x)
        \<and> mid (easies demo_timers x) < 64 * nslots (dirty demo_timers) \<longrightarrow> mid (easies demo_timers x) \<in> bset_elems (dirty m')"
    using expired_are_woken [OF demo_timers_facts(1), of "sec 9" 2] by blast
  then show ?thesis using demo_timers_facts \<open>micros (sec 8) \<le> micros (sec 9)\<close> by fastforce
qed

text \<open>
  How late an expiry can get.  \<open>Curl_expire\<close> compares times in milliseconds; so a new timeout
  can move the expiry of a transfer past another one of its timeouts, but by less than a
  millisecond per call.  With a clock of whole milliseconds it never does.
\<close>

lemma expiry_lateness:
  assumes "timers_ok m" and "time_ok now" and "0 \<le> milli" and "tv_sec now + milli < 2 ^ 61"
    and "in_multi (easies m d)" and "slack s (easies m d)" and "0 \<le> s"
  shows "slack (s + 999) (easies (Curl_expire now m d milli eid) d)
    \<and> (whole_ms (easies m d) \<and> 1000 dvd micros now \<longrightarrow> slack s (easies (Curl_expire now m d milli eid) d))"
  using expire_ex_slack [OF assms] by (simp add: Curl_expire_def)

text \<open>
  The calls of a transfer that has one timeout after a millisecond and then, every 999
  microseconds, renews another one.
\<close>

definition tick :: "nat \<Rightarrow> curltime" where
  "tick i = \<lparr>tv_sec = 1, tv_usec = 999 * int i\<rparr>"

fun renewals :: "nat \<Rightarrow> multi_timers" where
  "renewals 0 = Curl_expire (tick 0) (multi_new Curl_uint32_bset_init) 0 1 EXPIRE_TIMEOUT"
| "renewals (Suc i) = Curl_expire (tick (Suc i)) (renewals i) 0 1 EXPIRE_SPEEDCHECK"

lemma tick_expire: "i \<le> 998 \<Longrightarrow> expire_at (tick i) 1 = \<lparr>tv_sec = 1, tv_usec = 999 * int i + 1000\<rparr>"
  by (simp add: expire_at_def tick_def cdiv_def Let_def)

lemma renewals_drift:
  "i \<le> 998 \<Longrightarrow> timers_ok (renewals i) \<and> in_multi (easies (renewals i) 0)
    \<and> expiretime (easies (renewals i) 0) = expire_at (tick i) 1
    \<and> (EXPIRE_TIMEOUT, \<lparr>tv_sec = 1, tv_usec = 1000\<rparr>) \<in> set (timeoutlist (easies (renewals i) 0))"
proof (induction i)
  case 0
  have "timers_ok (renewals 0)" unfolding renewals.simps Curl_expire_def
    by (rule expire_ex_ok [OF multi_new_ok [OF conjunct1 [OF bset_init_ok]]]) (simp_all add: tick_def time_ok_def tv_zero_def)
  then show ?case using tick_expire [of 0]
    by (simp add: Curl_expire_def Curl_expire_ex_def multi_new_def easy_new_def tv_zero_def upd_easy_def Let_def)
next
  case (Suc i)
  have IH: "timers_ok (renewals i)" "in_multi (easies (renewals i) 0)" "expiretime (easies (renewals i) 0) = expire_at (tick i) 1"
      "(EXPIRE_TIMEOUT, \<lparr>tv_sec = 1, tv_usec = 1000\<rparr>) \<in> set (timeoutlist (easies (renewals i) 0))"
    using Suc by simp_all
  have ms: "\<not> curlx_ptimediff_ms (expire_at (tick (Suc i)) 1) (expire_at (tick i) 1) > 0"
    using tick_expire [of i] tick_expire [OF Suc.prems] Suc.prems
    by (simp add: curlx_ptimediff_ms_def timediff_limits Let_def)
  have del: "n \<in> set (multi_deltimeout eid ns)" if "n \<in> set ns" "fst n \<noteq> eid" for n eid ns
    using that by (induction ns) auto
  have ok: "timers_ok (renewals (Suc i))" unfolding renewals.simps Curl_expire_def
    by (rule expire_ex_ok [OF IH(1)]) (use Suc.prems in \<open>simp_all add: tick_def time_ok_def tv_zero_def\<close>)
  from IH(1,2) have "in_multi (easies (renewals (Suc i)) 0) \<and> expiretime (easies (renewals (Suc i)) 0) = expire_at (tick (Suc i)) 1
      \<and> (EXPIRE_TIMEOUT, \<lparr>tv_sec = 1, tv_usec = 1000\<rparr>) \<in> set (timeoutlist (easies (renewals (Suc i)) 0))"
  proof (cases rule: expire_ex_cases [where now = "tick (Suc i)" and milli = 1 and eid = EXPIRE_SPEEDCHECK])
    case kept
    then show ?thesis using ms IH(3) by simp
  next
    case (put tr)
    then show ?thesis using IH(2,4) del by (simp add: Curl_expire_def upd_easy_def addtimeout_set)
  qed
  then show ?case using ok by blast
qed

text \<open>
  The delays add up.  A transfer that renews another timeout often enough is still waiting,
  and not due at the time of its next call, 997 milliseconds after its first timeout has passed;
  that timeout is still in its list.
\<close>

lemma expiry_drifts:
  "(EXPIRE_TIMEOUT, \<lparr>tv_sec = 1, tv_usec = 1000\<rparr>) \<in> set (timeoutlist (easies (renewals 998) 0))
    \<and> (\<lparr>tv_sec = 1, tv_usec = 998002\<rparr>, 0) \<in> set (timers (timetree (renewals 998)))
    \<and> micros (tick 999) < micros \<lparr>tv_sec = 1, tv_usec = 998002\<rparr>"
proof -
  have r: "timers_ok (renewals 998)" "expiretime (easies (renewals 998) 0) = \<lparr>tv_sec = 1, tv_usec = 998002\<rparr>"
      "(EXPIRE_TIMEOUT, \<lparr>tv_sec = 1, tv_usec = 1000\<rparr>) \<in> set (timeoutlist (easies (renewals 998) 0))"
    using renewals_drift [of 998] tick_expire [of 998] by simp_all
  have "easy_ok (timetree (renewals 998)) 0 (easies (renewals 998) 0)" using r(1) by (simp add: timers_ok_def)
  then have "(\<lparr>tv_sec = 1, tv_usec = 998002\<rparr>, 0) \<in> set (timers (timetree (renewals 998)))"
    using r(2) by (simp add: easy_ok_def tv_zero_def)
  then show ?thesis using r(3) by (simp add: micros_def tick_def)
qed

section \<open>The timeout of the application\<close>

text \<open>
  The timeout reported to the application is the one it needs.  With nothing dirty it is -1
  exactly when no timer is set, 0 exactly when a timer is due, and otherwise waiting that long
  makes the earliest timer due.
\<close>

lemma multi_timeout_covers:
  assumes "timers_ok m" and "time_ok now" and "multi_timeout False False now m = (et, ms, m')"
    and "\<And>k x. (k, x) \<in> set (timers (timetree m)) \<Longrightarrow> tv_sec k - tv_sec now < 2 ^ 40"
  shows "timers (timetree m') = timers (timetree m) \<and> (case timers (timetree m) of
      [] \<Rightarrow> ms = -1
    | (k, x) # _ \<Rightarrow> et = Some k \<and> (ms = 0 \<longleftrightarrow> micros k \<le> micros now) \<and> 0 \<le> ms
        \<and> micros k \<le> micros now + 1000 * ms)"
proof (cases "Curl_splay tv_zero (root (timetree m))")
  case Tip
  then have "root (timetree m) = Tip" by simp
  then show ?thesis using assms(3) by (simp add: multi_timeout_def timers_def)
next
  case (Node s k rg la)
  have ok: "splay_ok (timetree m)" using assms(1) by (simp add: timers_ok_def)
  note sp = splay_ok_split [OF ok Node] and s = zero_smallest [OF ok Node]
  obtain n ns where rg: "rg = n # ns" using sp(3) by (cases rg) auto
  have t: "timers (timetree m) = (k, n) # map (Pair k) ns @ entries (groups la)" using sp(1) s by (simp add: timers_def rg)
  have r: "et = Some k" "ms = (if curlx_ptimediff_us k now > 0 then curlx_timediff_ceil_ms k now else 0)"
      "m' = m\<lparr>timetree := (timetree m)\<lparr>root := Node s k rg la\<rparr>\<rparr>"
    using assms(3) Node by (auto simp: multi_timeout_def)
  have tk: "time_ok k" using sp(2) by simp
  have lim: "tv_sec k - tv_sec now < 2 ^ 40" using assms(4) [of k n] t by simp
  have "timers (timetree m') = timers (timetree m)" by (simp add: r(3) timers_def sp(1))
  moreover have "(ms = 0 \<longleftrightarrow> micros k \<le> micros now) \<and> 0 \<le> ms \<and> micros k \<le> micros now + 1000 * ms"
  proof (cases "micros now < micros k")
    case True
    have "micros k \<le> micros now + 1000 * ms"
      using diff_ceil_ms [OF tk assms(2) True lim] r(2) True diff_us_sign(2) [OF tk assms(2)] by simp
    then show ?thesis using True by auto
  next
    case False
    then show ?thesis using r(2) diff_us_sign(2) [OF tk assms(2)] by simp
  qed
  ultimately show ?thesis using t r(1) by simp
qed

lemma ceil_ms_overshoots:
  "curlx_timediff_ceil_ms \<lparr>tv_sec = 1, tv_usec = 0\<rparr> \<lparr>tv_sec = 0, tv_usec = 1500\<rparr> = 1000
     \<and> micros \<lparr>tv_sec = 1, tv_usec = 0\<rparr> - micros \<lparr>tv_sec = 0, tv_usec = 1500\<rparr> = 998500"
  by (simp add: curlx_timediff_ceil_ms_def timediff_limits micros_def)

section \<open>Dirty transfers\<close>

lemma dirties_loop_ok:
  assumes "bset_ok proc" and "bset_ok ds" and "n \<in> bset_elems ds"
    and "\<And>k. k \<in> bset_elems ds \<Longrightarrow> k < n \<Longrightarrow> \<not> (found k \<and> k \<in> bset_elems proc)"
    and "UINT32_MAX - n < fuel"
  shows "\<exists>r ds'. dirties_loop found proc fuel ds n = Some (r, ds') \<and> bset_ok ds'
    \<and> (r \<longleftrightarrow> (\<exists>k\<in>bset_elems ds. found k \<and> k \<in> bset_elems proc))
    \<and> bset_elems ds' \<subseteq> bset_elems ds
    \<and> (\<forall>k\<in>bset_elems ds. found k \<and> k \<in> bset_elems proc \<longrightarrow> k \<in> bset_elems ds')"
  using assms(2-)
proof (induction fuel arbitrary: ds n)
  case (Suc fuel)
  have lt: "n < UINT32_MAX" using bset_ok_less [OF Suc.prems(1,2)] .
  show ?case
  proof (cases "found n \<and> n \<in> bset_elems proc")
    case True
    then have "dirties_loop found proc (Suc fuel) ds n = Some (True, ds)" using bset_contains_ok [OF assms(1)] by simp
    then show ?thesis using True Suc.prems(1,2) by blast
  next
    case False
    let ?d = "Curl_uint32_bset_remove ds n"
    have d: "bset_ok ?d" "bset_elems ?d = bset_elems ds - {n}" using bset_remove_ok [OF Suc.prems(1)] by simp_all
    obtain f n' where nx: "Curl_uint32_bset_next ?d n = (f, n')" by (rule prod.exhaust)
    note nxt = bset_next_ok [OF d(1) lt nx]
    have gone: "\<not> (found k \<and> k \<in> bset_elems proc)" if "k \<in> bset_elems ds" "k \<le> n" for k
      using Suc.prems(3) [OF that(1)] that(2) False by (cases "k = n") auto
    show ?thesis
    proof (cases f)
      case True
      then have n': "n' \<in> bset_elems ?d" "n < n'" "\<forall>k\<in>bset_elems ?d. n < k \<longrightarrow> n' \<le> k"
        using nxt by (auto simp: least_from_def Suc_le_eq)
      have "\<not> (found k \<and> k \<in> bset_elems proc)" if "k \<in> bset_elems ?d" "k < n'" for k
      proof -
        have "k \<le> n" using n'(3) that by (meson not_le)
        then show ?thesis using gone [of k] that(1) d(2) by simp
      qed
      moreover have "UINT32_MAX - n' < fuel" using Suc.prems(4) n'(2) lt by linarith
      ultimately obtain r ds' where IH: "dirties_loop found proc fuel ?d n' = Some (r, ds')" "bset_ok ds'"
          "r \<longleftrightarrow> (\<exists>k\<in>bset_elems ?d. found k \<and> k \<in> bset_elems proc)" "bset_elems ds' \<subseteq> bset_elems ?d"
          "\<forall>k\<in>bset_elems ?d. found k \<and> k \<in> bset_elems proc \<longrightarrow> k \<in> bset_elems ds'"
        using Suc.IH [OF d(1) n'(1)] by blast
      have "dirties_loop found proc (Suc fuel) ds n = Some (r, ds')"
        using False bset_contains_ok [OF assms(1)] nx True IH(1) by (auto simp: Let_def)
      then show ?thesis using IH(2-) d(2) False by blast
    next
      case f: False
      then have none: "\<forall>k\<in>bset_elems ?d. k \<le> n" using nxt by simp
      have "dirties_loop found proc (Suc fuel) ds n = Some (False, ?d)"
        using False bset_contains_ok [OF assms(1)] nx f by (auto simp: Let_def)
      moreover have "\<not> (found k \<and> k \<in> bset_elems proc)" if "k \<in> bset_elems ds" for k
        using gone [OF that] none d(2) that by (cases "k = n") auto
      ultimately show ?thesis using d by blast
    qed
  qed
qed simp

text \<open>
  The multi handle knows whether there is work.  \<open>multi_has_dirties\<close> ends and is true exactly
  when some transfer is dirty, still known and being processed; the entries it drops from the
  set while it walks over it are never of such a transfer.
\<close>

lemma has_dirties_exact:
  assumes "bset_ok proc" and "bset_ok ds"
  shows "\<exists>r ds'. multi_has_dirties found proc ds = Some (r, ds') \<and> bset_ok ds'
    \<and> (r \<longleftrightarrow> (\<exists>k\<in>bset_elems ds. found k \<and> k \<in> bset_elems proc))
    \<and> bset_elems ds' \<subseteq> bset_elems ds
    \<and> (\<forall>k\<in>bset_elems ds. found k \<and> k \<in> bset_elems proc \<longrightarrow> k \<in> bset_elems ds')"
proof -
  obtain f n d where fs: "Curl_uint32_bset_first ds = (f, n, d)" by (rule prod_cases3)
  note first = bset_first_ok [OF assms(2) fs]
  show ?thesis
  proof (cases f)
    case True
    then have "n \<in> bset_elems d" "\<And>k. k \<in> bset_elems d \<Longrightarrow> n \<le> k" using first by (auto simp: least_from_def)
    then have "\<exists>r ds'. dirties_loop found proc (Suc UINT32_MAX) d n = Some (r, ds') \<and> bset_ok ds'
        \<and> (r \<longleftrightarrow> (\<exists>k\<in>bset_elems d. found k \<and> k \<in> bset_elems proc)) \<and> bset_elems ds' \<subseteq> bset_elems d
        \<and> (\<forall>k\<in>bset_elems d. found k \<and> k \<in> bset_elems proc \<longrightarrow> k \<in> bset_elems ds')"
      using first dirties_loop_ok [OF assms(1), of d n found "Suc UINT32_MAX"] by (meson diff_le_self le_imp_less_Suc not_le)
    then show ?thesis using first fs True by (simp add: multi_has_dirties_def del: dirties_loop.simps)
  next
    case False
    then have "multi_has_dirties found proc ds = Some (False, d)" using fs by (simp add: multi_has_dirties_def)
    then show ?thesis using first False by auto
  qed
qed

section \<open>The timer of the application\<close>

text \<open>
  After an update that succeeds the application has been told the time of the next expiry, or
  that there is none.
\<close>

lemma update_timer_in_sync:
  assumes "Curl_update_timer (Some cb) has_dirties now a m = (CURLM_OK, told, a', m')" and "\<not> multi_dead a"
    and "multi_timeout False has_dirties now m = (Some ts, ms, m')" and "time_ok ts" and "time_ok (last_expire_ts a)"
  shows "(last_timeout_ms a' < 0 \<longleftrightarrow> ms < 0) \<and> (0 \<le> ms \<longrightarrow> last_expire_ts a' = ts) \<and> (told = None \<longrightarrow> a' = a)
    \<and> (\<forall>t. told = Some t \<longrightarrow> last_timeout_ms a' = t \<and> cb t \<noteq> -1)"
  using assms(1-3) diff_us_sign(3) [OF assms(5,4)]
  by (auto simp: Curl_update_timer_def Let_def split: if_splits)

end
