(* ===== verification/Uint_Tbl.thy ===== *)
theory Uint_Tbl
  imports Uint_Set
begin

text \<open>
  The table of entries under 32-bit keys, \<^verbatim>\<open>lib/uint-table.c\<close>, in which the multi interface keeps its
  transfers: the operations, the locale of a table that assigns the keys, the round-robin
  order of the keys, and the loop over a table as an instance of the interface of sets.

  The rows hold \<open>None\<close> for \<open>NULL\<close>.  The destructor is a flag: operations that would call it return
  the keys and entries it is called with.  The outcome of \<open>calloc\<close> is an argument.
\<close>

record 'a uint32_tbl =
  rows :: "'a option list"
  entry_dtor :: bool
  nrows :: nat
  nentries :: nat
  last_key_added :: nat

section \<open>Operations\<close>

definition Curl_uint32_tbl_init :: "bool \<Rightarrow> 'a uint32_tbl" where
  "Curl_uint32_tbl_init dtor =
     \<lparr>rows = [], entry_dtor = dtor, nrows = 0, nentries = 0, last_key_added = UINT32_MAX\<rparr>"

definition dec32 :: "nat \<Rightarrow> nat" where
  "dec32 n = (n + UINT32_MAX) mod 2 ^ 32"

text \<open>The loop over the rows from \<open>i\<close>: the rows, the count and the entries that were in the way.\<close>

function clear_loop :: "'a option list \<Rightarrow> nat \<Rightarrow> nat \<Rightarrow> nat \<Rightarrow> 'a option list \<times> nat \<times> (nat \<times> 'a) list" where
  "clear_loop rs n i stop =
     (if i < stop then
        (case rs ! i of
           None \<Rightarrow> clear_loop rs n (Suc i) stop
         | Some e \<Rightarrow> (case clear_loop (rs[i := None]) (dec32 n) (Suc i) stop of (rs', n', ds) \<Rightarrow> (rs', n', (i, e) # ds)))
      else (rs, n, []))"
  by auto
termination by (relation "measure (\<lambda>(rs, n, i, stop). stop - i)") auto

declare clear_loop.simps [simp del]

definition uint32_tbl_clear_rows :: "'a uint32_tbl \<Rightarrow> nat \<Rightarrow> nat \<Rightarrow> (nat \<times> 'a) list \<times> 'a uint32_tbl" where
  "uint32_tbl_clear_rows tbl i upto_excluding =
     (case clear_loop (rows tbl) (nentries tbl) i (min upto_excluding (nrows tbl)) of
        (rs, n, ds) \<Rightarrow> (if entry_dtor tbl then ds else [], tbl\<lparr>rows := rs, nentries := n\<rparr>))"

definition Curl_uint32_tbl_resize :: "bool \<Rightarrow> 'a uint32_tbl \<Rightarrow> nat \<Rightarrow> CURLcode \<times> (nat \<times> 'a) list \<times> 'a uint32_tbl" where
  "Curl_uint32_tbl_resize calloc_ok tbl n =
     (if n = 0 then (CURLE_BAD_FUNCTION_ARGUMENT, [], tbl)
      else if n \<noteq> nrows tbl then
        if \<not> calloc_ok then (CURLE_OUT_OF_MEMORY, [], tbl)
        else
          (let k = min n (nrows tbl);
               rs = take k (rows tbl) @ replicate (n - k) None;
               (ds, tbl') = (if rows tbl \<noteq> [] \<and> n < nrows tbl then uint32_tbl_clear_rows tbl n (nrows tbl) else ([], tbl))
           in (CURLE_OK, ds, tbl'\<lparr>rows := rs, nrows := n\<rparr>))
      else (CURLE_OK, [], tbl))"

definition uint32_tbl_clear :: "'a uint32_tbl \<Rightarrow> (nat \<times> 'a) list \<times> 'a uint32_tbl" where
  "uint32_tbl_clear tbl =
     (case uint32_tbl_clear_rows tbl 0 (nrows tbl) of (ds, tbl') \<Rightarrow> (ds, tbl'\<lparr>last_key_added := UINT32_MAX\<rparr>))"

definition Curl_uint32_tbl_destroy :: "'a uint32_tbl \<Rightarrow> (nat \<times> 'a) list \<times> 'a uint32_tbl" where
  "Curl_uint32_tbl_destroy tbl =
     (fst (uint32_tbl_clear tbl), \<lparr>rows = [], entry_dtor = False, nrows = 0, nentries = 0, last_key_added = 0\<rparr>)"

definition Curl_uint32_tbl_capacity :: "'a uint32_tbl \<Rightarrow> nat" where
  "Curl_uint32_tbl_capacity tbl = nrows tbl"

definition Curl_uint32_tbl_count :: "'a uint32_tbl \<Rightarrow> nat" where
  "Curl_uint32_tbl_count tbl = nentries tbl"

definition Curl_uint32_tbl_get :: "'a uint32_tbl \<Rightarrow> nat \<Rightarrow> 'a option" where
  "Curl_uint32_tbl_get tbl key = (if key < nrows tbl then rows tbl ! key else None)"

text \<open>A search for a free row can also leave the array.\<close>

datatype scan = Free nat | Taken | Outside

function free_scan :: "'a option list \<Rightarrow> nat \<Rightarrow> nat \<Rightarrow> scan" where
  "free_scan rs key stop =
     (if key < stop then
        if key \<ge> length rs then Outside
        else if rs ! key = None then Free key
        else free_scan rs (Suc key) stop
      else Taken)"
  by auto
termination by (relation "measure (\<lambda>(rs, key, stop). stop - key)") auto

declare free_scan.simps [simp del]

text \<open>The key and the table, \<open>None\<close> when the result is \<open>FALSE\<close>.\<close>

definition tbl_put :: "'a uint32_tbl \<Rightarrow> nat \<Rightarrow> 'a \<Rightarrow> 'a uint32_tbl" where
  "tbl_put tbl key entry =
     tbl\<lparr>rows := (rows tbl)[key := Some entry], nentries := (nentries tbl + 1) mod 2 ^ 32, last_key_added := key\<rparr>"

definition start_pos :: "'a uint32_tbl \<Rightarrow> nat" where
  "start_pos tbl = (min (last_key_added tbl) (nrows tbl) + 1) mod 2 ^ 32"

definition Curl_uint32_tbl_add :: "'a uint32_tbl \<Rightarrow> 'a \<Rightarrow> (nat \<times> 'a uint32_tbl) option" where
  "Curl_uint32_tbl_add tbl entry =
     (if nentries tbl = nrows tbl then None
      else
        (case free_scan (rows tbl) (start_pos tbl) (nrows tbl) of
           Free key \<Rightarrow> Some (key, tbl_put tbl key entry)
         | _ \<Rightarrow>
             (case free_scan (rows tbl) 0 (start_pos tbl) of
                Free key \<Rightarrow> Some (key, tbl_put tbl key entry)
              | _ \<Rightarrow> None)))"

definition Curl_uint32_tbl_remove :: "'a uint32_tbl \<Rightarrow> nat \<Rightarrow> (nat \<times> 'a) list \<times> 'a uint32_tbl" where
  "Curl_uint32_tbl_remove tbl key = uint32_tbl_clear_rows tbl key ((key + 1) mod 2 ^ 32)"

definition Curl_uint32_tbl_contains :: "'a uint32_tbl \<Rightarrow> nat \<Rightarrow> bool" where
  "Curl_uint32_tbl_contains tbl key = (if key < nrows tbl then rows tbl ! key \<noteq> None else False)"

function uint32_tbl_next_at :: "'a uint32_tbl \<Rightarrow> nat \<Rightarrow> (nat \<times> 'a) option" where
  "uint32_tbl_next_at tbl key =
     (if key < nrows tbl then
        (case rows tbl ! key of Some e \<Rightarrow> Some (key, e) | None \<Rightarrow> uint32_tbl_next_at tbl (Suc key))
      else None)"
  by auto
termination by (relation "measure (\<lambda>(tbl, key). nrows tbl - key)") auto

declare uint32_tbl_next_at.simps [simp del]

definition Curl_uint32_tbl_first :: "'a uint32_tbl \<Rightarrow> (nat \<times> 'a) option" where
  "Curl_uint32_tbl_first tbl = (if nentries tbl \<noteq> 0 then uint32_tbl_next_at tbl 0 else None)"

definition Curl_uint32_tbl_next :: "'a uint32_tbl \<Rightarrow> nat \<Rightarrow> (nat \<times> 'a) option" where
  "Curl_uint32_tbl_next tbl last_key = uint32_tbl_next_at tbl ((last_key + 1) mod 2 ^ 32)"

section \<open>The table as a map\<close>

definition tbl_map :: "'a uint32_tbl \<Rightarrow> nat \<rightharpoonup> 'a" where
  "tbl_map t = (\<lambda>k. if k < length (rows t) then rows t ! k else None)"

definition used :: "'a option list \<Rightarrow> nat set" where
  "used rs = {k. k < length rs \<and> rs ! k \<noteq> None}"

definition tbl_ok :: "'a uint32_tbl \<Rightarrow> bool" where
  "tbl_ok t \<longleftrightarrow> length (rows t) = nrows t \<and> nentries t = card (used (rows t)) \<and> nrows t \<le> UINT32_MAX"

lemma used_finite [simp]: "finite (used rs)" "card (used rs) \<le> length rs"
proof -
  have "used rs \<subseteq> {..<length rs}" by (auto simp: used_def)
  then show "finite (used rs)" "card (used rs) \<le> length rs"
    using card_mono [of "{..<length rs}" "used rs"] by (auto intro: finite_subset)
qed

lemma used_update:
  "k < length rs \<Longrightarrow> used (rs[k := x]) = (if x = None then used rs - {k} else insert k (used rs))"
  by (auto simp: used_def nth_list_update)

lemma dom_tbl_map: "dom (tbl_map t) = used (rows t)"
  by (auto simp: tbl_map_def used_def split: if_splits)

lemma get_map: "tbl_ok t \<Longrightarrow> Curl_uint32_tbl_get t k = tbl_map t k"
  by (simp add: Curl_uint32_tbl_get_def tbl_map_def tbl_ok_def)

lemma contains_map: "tbl_ok t \<Longrightarrow> Curl_uint32_tbl_contains t k \<longleftrightarrow> k \<in> dom (tbl_map t)"
  by (auto simp: Curl_uint32_tbl_contains_def tbl_map_def tbl_ok_def)

lemma count_map: "tbl_ok t \<Longrightarrow> Curl_uint32_tbl_count t = card (dom (tbl_map t))"
  by (simp add: Curl_uint32_tbl_count_def dom_tbl_map tbl_ok_def)

lemma keys_bound: "tbl_ok t \<Longrightarrow> k \<in> dom (tbl_map t) \<Longrightarrow> k < nrows t \<and> k < UINT32_MAX"
  by (auto simp: dom_tbl_map used_def tbl_ok_def)

lemma dec32_pos: "0 < n \<Longrightarrow> n \<le> UINT32_MAX \<Longrightarrow> dec32 n = n - 1"
proof -
  assume "0 < n" "n \<le> UINT32_MAX"
  then have "n + UINT32_MAX = (n - 1) + 2 ^ 32" "n - 1 < 2 ^ 32" by (auto simp: UINT32_MAX_def)
  then show ?thesis unfolding dec32_def by (simp only: mod_add_self2 mod_less)
qed

lemma clear_loop_ok:
  "clear_loop rs n i stop = (rs', n', ds) \<Longrightarrow> stop \<le> length rs \<Longrightarrow> length rs \<le> UINT32_MAX \<Longrightarrow> n = card (used rs) \<Longrightarrow>
   length rs' = length rs \<and> (\<forall>k<length rs. rs' ! k = (if i \<le> k \<and> k < stop then None else rs ! k)) \<and> n' = card (used rs')"
proof (induction rs n i stop arbitrary: rs' n' ds rule: clear_loop.induct)
  case (1 rs n i stop)
  show ?case
  proof (cases "i < stop")
    case True
    show ?thesis
    proof (cases "rs ! i")
      case None
      have "clear_loop rs n (Suc i) stop = (rs', n', ds)"
        using "1.prems"(1) True None by (simp add: clear_loop.simps [of rs n i])
      from 1(1) [OF True None this "1.prems"(2-4)] have r: "length rs' = length rs" "n' = card (used rs')"
          "\<And>k. k < length rs \<Longrightarrow> rs' ! k = (if Suc i \<le> k \<and> k < stop then None else rs ! k)" by auto
      have "rs' ! k = (if i \<le> k \<and> k < stop then None else rs ! k)" if "k < length rs" for k
        using r(3) [OF that] None by (cases "k = i") auto
      then show ?thesis using r(1,2) by blast
    next
      case (Some e)
      have i: "i \<in> used rs" using Some True "1.prems"(2) by (simp add: used_def)
      then have "0 < n" using "1.prems"(4) by (auto simp: card_gt_0_iff)
      moreover have "n \<le> UINT32_MAX" using le_trans [OF used_finite(2) "1.prems"(3)] "1.prems"(4) by simp
      moreover have "card (used (rs[i := None])) = n - 1" using i "1.prems"(2,4) True by (simp add: used_update)
      ultimately have n: "dec32 n = card (used (rs[i := None]))" by (simp add: dec32_pos)
      obtain ds1 where c: "clear_loop (rs[i := None]) (dec32 n) (Suc i) stop = (rs', n', ds1)"
        using "1.prems"(1) True Some by (auto simp: clear_loop.simps [of rs n i] split: prod.splits)
      from 1(2) [OF True Some c _ _ n] "1.prems"(2,3) have r: "length rs' = length rs" "n' = card (used rs')"
          "\<And>k. k < length rs \<Longrightarrow> rs' ! k = (if Suc i \<le> k \<and> k < stop then None else rs[i := None] ! k)" by auto
      have "rs' ! k = (if i \<le> k \<and> k < stop then None else rs ! k)" if "k < length rs" for k
        using r(3) [OF that] True that by (cases "k = i") auto
      then show ?thesis using r(1,2) by blast
    qed
  next
    case False
    then have "rs' = rs" "n' = n" using "1.prems"(1) by (simp_all add: clear_loop.simps [of rs n i])
    then show ?thesis using False "1.prems"(4) by auto
  qed
qed

lemma clear_rows_ok:
  assumes "tbl_ok t" and "uint32_tbl_clear_rows t i j = (ds, t')"
  shows "tbl_ok t' \<and> nrows t' = nrows t \<and> last_key_added t' = last_key_added t
    \<and> tbl_map t' = (\<lambda>k. if i \<le> k \<and> k < j then None else tbl_map t k)"
proof -
  obtain rs n ds1 where c: "clear_loop (rows t) (nentries t) i (min j (nrows t)) = (rs, n, ds1)" by (rule prod_cases3)
  have "min j (nrows t) \<le> length (rows t)" "length (rows t) \<le> UINT32_MAX" "nentries t = card (used (rows t))"
    using assms(1) by (auto simp: tbl_ok_def)
  from clear_loop_ok [OF c this] show ?thesis
    using assms c by (auto simp: uint32_tbl_clear_rows_def tbl_ok_def tbl_map_def fun_eq_iff)
qed

lemma init_ok: "tbl_ok (Curl_uint32_tbl_init dtor) \<and> tbl_map (Curl_uint32_tbl_init dtor) = Map.empty"
  by (simp add: tbl_ok_def Curl_uint32_tbl_init_def tbl_map_def used_def)

lemma tbl_remove_ok:
  assumes "tbl_ok t" and "Curl_uint32_tbl_remove t k = (ds, t')"
  shows "tbl_ok t' \<and> nrows t' = nrows t \<and> last_key_added t' = last_key_added t \<and> tbl_map t' = (tbl_map t)(k := None)"
proof (cases "k < UINT32_MAX")
  case True
  then have "(k + 1) mod 2 ^ 32 = Suc k" by (simp add: UINT32_MAX_def)
  then show ?thesis
    using clear_rows_ok [OF assms(1), of k "Suc k" ds t'] assms(2) by (auto simp: Curl_uint32_tbl_remove_def fun_eq_iff)
next
  case False
  define j where "j = (k + 1) mod 2 ^ 32"
  have "j < 2 ^ 32" unfolding j_def by (rule mod_less_divisor) simp
  then have "j \<le> k" using False by (simp add: UINT32_MAX_def)
  moreover have "tbl_map t k = None" using keys_bound [OF assms(1)] False by blast
  ultimately show ?thesis
    using clear_rows_ok [OF assms(1) assms(2) [unfolded Curl_uint32_tbl_remove_def, folded j_def]] by (auto simp: fun_eq_iff)
qed

lemma clear_ok:
  assumes "tbl_ok t" and "uint32_tbl_clear t = (ds, t')"
  shows "tbl_ok t' \<and> nrows t' = nrows t \<and> tbl_map t' = Map.empty"
proof -
  obtain t1 where c: "uint32_tbl_clear_rows t 0 (nrows t) = (ds, t1)" "t' = t1\<lparr>last_key_added := UINT32_MAX\<rparr>"
    using assms(2) by (auto simp: uint32_tbl_clear_def split: prod.splits)
  note clear_rows_ok [OF assms(1) c(1)]
  moreover have "tbl_map t k = None" if "\<not> k < nrows t" for k
    using that assms(1) by (simp add: tbl_map_def tbl_ok_def)
  moreover have "tbl_map t' = tbl_map t1" "tbl_ok t' = tbl_ok t1" "nrows t' = nrows t1"
    using c(2) by (simp_all add: tbl_map_def tbl_ok_def cong: if_cong)
  ultimately show ?thesis by (auto simp: fun_eq_iff)
qed

lemma tbl_resize_ok:
  assumes "tbl_ok t" and "n \<le> UINT32_MAX" and "Curl_uint32_tbl_resize calloc_ok t n = (r, ds, t')"
  shows "tbl_ok t' \<and> last_key_added t' = last_key_added t \<and> (if r = CURLE_OK then nrows t' = n \<and> tbl_map t' = tbl_map t |` {..<n} else t' = t)"
proof (cases "n \<noteq> 0 \<and> n \<noteq> nrows t \<and> calloc_ok")
  case True
  define k where "k = min n (nrows t)"
  define rs where "rs = take k (rows t) @ replicate (n - k) None"
  have len: "length (rows t) = nrows t" "nentries t = card (used (rows t))" using assms(1) by (simp_all add: tbl_ok_def)
  have rs: "length rs = n" "used rs = used (rows t) \<inter> {..<n}" "\<And>i. i < n \<Longrightarrow> rs ! i = (if i < nrows t then rows t ! i else None)"
    using len by (auto simp: rs_def k_def nth_append used_def min_def split: if_splits)
  obtain ds1 t1 where t1: "(if rows t \<noteq> [] \<and> n < nrows t then uint32_tbl_clear_rows t n (nrows t) else ([], t)) = (ds1, t1)"
    by (rule prod.exhaust)
  have t': "t' = t1\<lparr>rows := rs, nrows := n\<rparr>" "r = CURLE_OK"
    using assms(3) True t1 unfolding Curl_uint32_tbl_resize_def Let_def k_def [symmetric] rs_def [symmetric] by auto
  have "nentries t1 = card (used rs) \<and> last_key_added t1 = last_key_added t"
  proof (cases "rows t \<noteq> [] \<and> n < nrows t")
    case True
    then have c: "uint32_tbl_clear_rows t n (nrows t) = (ds1, t1)" using t1 by simp
    note cr = clear_rows_ok [OF assms(1) c]
    then have "dom (tbl_map t1) = dom (tbl_map t) \<inter> {..<n}"
      using keys_bound [OF assms(1)] by (fastforce simp: dom_def split: if_splits)
    then show ?thesis using cr rs(2) unfolding dom_tbl_map by (simp add: tbl_ok_def)
  next
    case False
    then have "used (rows t) \<inter> {..<n} = used (rows t)" using len by (auto simp: used_def)
    then show ?thesis using False t1 rs(2) len(2) by (metis prod.inject)
  qed
  moreover have "tbl_map t' = tbl_map t |` {..<n}"
    using rs len t'(1) by (auto simp: tbl_map_def restrict_map_def fun_eq_iff)
  ultimately show ?thesis using t' rs(1) assms(2) by (simp add: tbl_ok_def)
next
  case False
  have "tbl_map t |` {..<nrows t} = tbl_map t"
    using assms(1) by (auto simp: restrict_map_def tbl_map_def tbl_ok_def fun_eq_iff)
  then show ?thesis using False assms by (auto simp: Curl_uint32_tbl_resize_def split: if_splits)
qed

section \<open>Keys\<close>

lemma free_scan_cases:
  "free_scan rs i stop = r \<Longrightarrow>
   (case r of
      Free k \<Rightarrow> i \<le> k \<and> k < stop \<and> k < length rs \<and> rs ! k = None \<and> (\<forall>j. i \<le> j \<and> j < k \<longrightarrow> rs ! j \<noteq> None)
    | Taken \<Rightarrow> (\<forall>j. i \<le> j \<and> j < stop \<longrightarrow> rs ! j \<noteq> None)
    | Outside \<Rightarrow> length rs < stop \<and> (\<forall>j. i \<le> j \<and> j < length rs \<longrightarrow> rs ! j \<noteq> None))"
proof (induction rs i stop arbitrary: r rule: free_scan.induct)
  case (1 rs i stop)
  consider "\<not> i < stop" | "i < stop" "length rs \<le> i" | "i < stop" "i < length rs" "rs ! i = None"
    | "i < stop" "i < length rs" "rs ! i \<noteq> None" by linarith
  then show ?case
  proof cases
    case 4
    have a: "(\<forall>j. Suc i \<le> j \<and> j < m \<longrightarrow> rs ! j \<noteq> None) \<longleftrightarrow> (\<forall>j. i \<le> j \<and> j < m \<longrightarrow> rs ! j \<noteq> None)" for m
      using 4(3) by (metis Suc_leD Suc_leI le_neq_implies_less)
    have s: "free_scan rs (Suc i) stop = r" using "1.prems" 4 by (simp add: free_scan.simps [of rs i])
    show ?thesis using "1.IH" [OF 4(1) _ 4(3) s] 4(2) by (cases r) (auto simp only: scan.case a not_le Suc_leD)
  qed (use "1.prems" in \<open>auto simp: free_scan.simps [of rs i]\<close>)
qed

text \<open>The next key: the first free one after the last key, from the start when there is none.\<close>

definition round_robin :: "'a uint32_tbl \<Rightarrow> nat \<Rightarrow> bool" where
  "round_robin t k \<longleftrightarrow> k < nrows t \<and> tbl_map t k = None
     \<and> (if last_key_added t < k then \<forall>j. last_key_added t < j \<and> j < k \<longrightarrow> tbl_map t j \<noteq> None
        else (\<forall>j. last_key_added t < j \<and> j < nrows t \<longrightarrow> tbl_map t j \<noteq> None) \<and> (\<forall>j<k. tbl_map t j \<noteq> None))"

lemma free_row: "tbl_ok t \<Longrightarrow> nentries t \<noteq> nrows t \<Longrightarrow> \<exists>j<nrows t. rows t ! j = None"
proof (rule ccontr)
  assume t: "tbl_ok t" "nentries t \<noteq> nrows t" and "\<not> (\<exists>j<nrows t. rows t ! j = None)"
  then have "used (rows t) = {..<nrows t}" by (auto simp: used_def tbl_ok_def)
  then show False using t by (simp add: tbl_ok_def)
qed

lemma tbl_put_ok:
  assumes "tbl_ok t" and "k < nrows t" and "rows t ! k = None"
  shows "tbl_ok (tbl_put t k e) \<and> tbl_map (tbl_put t k e) = (tbl_map t)(k \<mapsto> e) \<and> nrows (tbl_put t k e) = nrows t
    \<and> last_key_added (tbl_put t k e) = k"
proof -
  have t: "length (rows t) = nrows t" "nentries t = card (used (rows t))" "nrows t \<le> UINT32_MAX" "k \<notin> used (rows t)"
    using assms by (simp_all add: tbl_ok_def used_def)
  have u: "used ((rows t)[k := Some e]) = insert k (used (rows t))" using assms(2) t(1) by (simp add: used_update)
  have "card (insert k (used (rows t))) \<le> UINT32_MAX"
    using used_finite(2) [of "(rows t)[k := Some e]"] u t by (simp del: used_finite)
  then have "(nentries t + 1) mod 2 ^ 32 = card (insert k (used (rows t)))" using t by (simp add: UINT32_MAX_def)
  then show ?thesis using t u assms(2) by (auto simp: tbl_put_def tbl_ok_def tbl_map_def fun_eq_iff)
qed

lemma add_cases:
  assumes "tbl_ok t" and "last_key_added t \<le> UINT32_MAX"
  shows "if nentries t = nrows t then Curl_uint32_tbl_add t e = None
    else \<exists>k. Curl_uint32_tbl_add t e = Some (k, tbl_put t k e) \<and> round_robin t k"
proof (cases "nentries t = nrows t")
  case False
  have t: "length (rows t) = nrows t" "nrows t \<le> UINT32_MAX" using assms by (simp_all add: tbl_ok_def)
  let ?s = "start_pos t" and ?l = "last_key_added t"
  have s: "j < nrows t \<Longrightarrow> ?s \<le> j \<longleftrightarrow> ?l < j \<or> nrows t = UINT32_MAX \<and> ?l = UINT32_MAX" for j
  proof (cases "min ?l (nrows t) = UINT32_MAX")
    case False
    then have "?s = Suc (min ?l (nrows t))" using t(2) by (simp add: start_pos_def UINT32_MAX_def)
    then show "j < nrows t \<Longrightarrow> ?thesis" using False by auto
  qed (use t(2) assms(2) in \<open>auto simp: start_pos_def UINT32_MAX_def\<close>)
  have m: "tbl_map t j = rows t ! j" if "j < nrows t" for j using that t by (simp add: tbl_map_def)
  show ?thesis
  proof (cases "free_scan (rows t) ?s (nrows t)")
    case (Free k)
    note f = free_scan_cases [OF Free, unfolded scan.case]
    then have "round_robin t k" using s t m by (auto simp: round_robin_def)
    then show ?thesis using False Free by (simp add: Curl_uint32_tbl_add_def)
  next
    case Taken
    note f = free_scan_cases [OF Taken, unfolded scan.case]
    obtain j where j: "j < nrows t" "rows t ! j = None" using free_row [OF assms(1) False] by blast
    then have js: "j < ?s" using f by (meson not_le)
    show ?thesis
    proof (cases "free_scan (rows t) 0 ?s")
      case (Free k)
      note g = free_scan_cases [OF Free, unfolded scan.case]
      then have "round_robin t k" using f s t m by (auto simp: round_robin_def)
      then show ?thesis using False Taken Free by (simp add: Curl_uint32_tbl_add_def)
    next
      case Outside
      show ?thesis using free_scan_cases [OF Outside, unfolded scan.case] j js t by auto
    qed (use free_scan_cases [of "rows t" 0 ?s] j js in auto)
  next
    case Outside
    show ?thesis using free_scan_cases [OF Outside, unfolded scan.case] t by simp
  qed
qed (simp add: Curl_uint32_tbl_add_def)

section \<open>The interface\<close>

text \<open>A table that chooses the key of a new entry.\<close>

locale id_table =
  fixes add :: "'t \<Rightarrow> 'a \<Rightarrow> (nat \<times> 't) option"
    and remove :: "'t \<Rightarrow> nat \<Rightarrow> 't"
    and lookup :: "'t \<Rightarrow> nat \<Rightarrow> 'a option"
    and invar :: "'t \<Rightarrow> bool"
  assumes add_some: "invar t \<Longrightarrow> add t x = Some (k, t') \<Longrightarrow>
      invar t' \<and> lookup t k = None \<and> k < UINT32_MAX \<and> lookup t' = (lookup t)(k \<mapsto> x)"
    and remove_ok: "invar t \<Longrightarrow> k \<le> UINT32_MAX \<Longrightarrow> invar (remove t k) \<and> lookup (remove t k) = (lookup t)(k := None)"
begin

text \<open>Entries added one after the other, with the keys they got.\<close>

fun add_all :: "'t \<Rightarrow> 'a list \<Rightarrow> (nat list \<times> 't) option" where
  "add_all t [] = Some ([], t)"
| "add_all t (x # xs) =
     (case add t x of
        None \<Rightarrow> None
      | Some (k, t') \<Rightarrow> map_option (\<lambda>(ks, u). (k # ks, u)) (add_all t' xs))"

lemma add_all_ok:
  "invar t \<Longrightarrow> add_all t xs = Some (ks, u) \<Longrightarrow> invar u \<and> length ks = length xs \<and> distinct ks \<and> (\<forall>k\<in>set ks. lookup t k = None)
   \<and> (\<forall>i<length xs. lookup u (ks ! i) = Some (xs ! i)) \<and> (\<forall>k. k \<notin> set ks \<longrightarrow> lookup u k = lookup t k)"
proof (induction xs arbitrary: t ks)
  case (Cons x xs)
  then obtain k t1 ks1 where a: "add t x = Some (k, t1)" "add_all t1 xs = Some (ks1, u)" "ks = k # ks1"
    by (auto split: option.splits)
  note t1 = add_some [OF Cons.prems(1) a(1)]
  note IH = Cons.IH [OF conjunct1 [OF t1] a(2)]
  have l: "lookup t1 = (lookup t)(k \<mapsto> x)" using t1 by blast
  have k: "k \<notin> set ks1" "\<forall>j\<in>set ks1. lookup t j = None" using IH l by (auto simp: fun_upd_def split: if_splits)
  have "lookup u (ks ! i) = Some ((x # xs) ! i)" if "i < length (x # xs)" for i
    using that IH k(1) l a(3) by (cases i) simp_all
  moreover have "lookup u j = lookup t j" if "j \<notin> set ks" for j using that IH l a(3) by simp
  ultimately show ?case using IH k t1 a(3) by simp
qed simp

lemma remove_readd: "invar t \<Longrightarrow> k \<le> UINT32_MAX \<Longrightarrow> add (remove t k) x = Some (j, u) \<Longrightarrow> lookup t j = None \<or> j = k"
  using add_some [of "remove t k" x j u] remove_ok [of t k] by (metis fun_upd_other)

end

text \<open>Tables as the program makes them.\<close>

definition tbl_inv :: "'a uint32_tbl \<Rightarrow> bool" where
  "tbl_inv t \<longleftrightarrow> tbl_ok t \<and> last_key_added t \<le> UINT32_MAX"

lemma tbl_add_ok:
  assumes "tbl_inv t" and "Curl_uint32_tbl_add t x = Some (k, t')"
  shows "tbl_inv t' \<and> round_robin t k \<and> tbl_map t' = (tbl_map t)(k \<mapsto> x) \<and> nrows t' = nrows t \<and> last_key_added t' = k"
proof -
  have t: "tbl_ok t" "last_key_added t \<le> UINT32_MAX" using assms(1) by (simp_all add: tbl_inv_def)
  have k: "t' = tbl_put t k x" "round_robin t k" using add_cases [OF t, of x] assms(2) by (auto split: if_splits)
  then have r: "k < nrows t" "rows t ! k = None" using t(1) by (auto simp: round_robin_def tbl_map_def tbl_ok_def)
  then show ?thesis using tbl_put_ok [OF t(1) r, of x] k t by (auto simp: tbl_inv_def tbl_ok_def)
qed

lemma tbl_add_full: "tbl_inv t \<Longrightarrow> Curl_uint32_tbl_add t x = None \<longleftrightarrow> card (dom (tbl_map t)) = nrows t"
  using add_cases [of t x] by (auto simp: tbl_inv_def tbl_ok_def dom_tbl_map split: if_splits)

interpretation tbl: id_table Curl_uint32_tbl_add "\<lambda>t k. snd (Curl_uint32_tbl_remove t k)" Curl_uint32_tbl_get tbl_inv
proof
  fix t :: "'a uint32_tbl" and x k t'
  assume t: "tbl_inv t" and a: "Curl_uint32_tbl_add t x = Some (k, t')"
  have "tbl_ok t" "tbl_ok t'" using t tbl_add_ok [OF t a] by (simp_all add: tbl_inv_def)
  moreover have "k < UINT32_MAX" using tbl_add_ok [OF t a] \<open>tbl_ok t\<close> by (auto simp: round_robin_def tbl_ok_def)
  ultimately show "tbl_inv t' \<and> Curl_uint32_tbl_get t k = None \<and> k < UINT32_MAX
      \<and> Curl_uint32_tbl_get t' = (Curl_uint32_tbl_get t)(k \<mapsto> x)"
    using tbl_add_ok [OF t a] by (auto simp: get_map round_robin_def fun_eq_iff)
next
  fix t :: "'a uint32_tbl" and k
  assume t: "tbl_inv t" and k: "k \<le> UINT32_MAX"
  obtain ds t' where r: "Curl_uint32_tbl_remove t k = (ds, t')" by (rule prod.exhaust)
  show "tbl_inv (snd (Curl_uint32_tbl_remove t k))
      \<and> Curl_uint32_tbl_get (snd (Curl_uint32_tbl_remove t k)) = (Curl_uint32_tbl_get t)(k := None)"
    using tbl_remove_ok [OF _ r] t r by (auto simp: tbl_inv_def get_map fun_eq_iff)
qed

section \<open>The loop over a table\<close>

lemma next_at_cases:
  "uint32_tbl_next_at t i = r \<Longrightarrow> tbl_ok t \<Longrightarrow>
   (case r of Some (k, e) \<Rightarrow> least_from (dom (tbl_map t)) i k \<and> tbl_map t k = Some e
    | None \<Rightarrow> \<forall>k\<in>dom (tbl_map t). k < i)"
proof (induction t i arbitrary: r rule: uint32_tbl_next_at.induct)
  case (1 t i)
  show ?case
  proof (cases "i < nrows t \<and> rows t ! i = None")
    case True
    then have "i \<notin> dom (tbl_map t)" using "1.prems"(2) by (simp add: tbl_map_def domIff tbl_ok_def)
    then have a: "k \<in> dom (tbl_map t) \<Longrightarrow> Suc i \<le> k \<longleftrightarrow> i \<le> k" "k \<in> dom (tbl_map t) \<Longrightarrow> k < Suc i \<longleftrightarrow> k < i" for k
      by (auto simp: Suc_le_eq le_less less_Suc_eq)
    have "uint32_tbl_next_at t (Suc i) = r" using "1.prems"(1) True by (simp add: uint32_tbl_next_at.simps [of t i])
    note "1.IH" [OF conjunct1 [OF True] conjunct2 [OF True] this "1.prems"(2)]
    then show ?thesis using a by (auto simp: least_from_def split: option.splits prod.splits)
  next
    case False
    show ?thesis
    proof (cases "i < nrows t")
      case True
      then obtain e where "rows t ! i = Some e" using False by auto
      then have "r = Some (i, e)" "tbl_map t i = Some e"
        using "1.prems" True by (simp_all add: uint32_tbl_next_at.simps [of t i] tbl_map_def tbl_ok_def)
      then show ?thesis by (auto simp: least_from_def)
    next
      case False
      then show ?thesis using "1.prems" keys_bound [OF "1.prems"(2)] by (force simp: uint32_tbl_next_at.simps [of t i])
    qed
  qed
qed

text \<open>The two search operations in the form of the interface.\<close>

definition tbl_first :: "'a uint32_tbl \<Rightarrow> bool \<times> nat \<times> 'a uint32_tbl" where
  "tbl_first t = (case Curl_uint32_tbl_first t of Some (k, _) \<Rightarrow> (True, k, t) | None \<Rightarrow> (False, UINT32_MAX, t))"

definition tbl_next :: "'a uint32_tbl \<Rightarrow> nat \<Rightarrow> bool \<times> nat" where
  "tbl_next t k = (case Curl_uint32_tbl_next t k of Some (k', _) \<Rightarrow> (True, k') | None \<Rightarrow> (False, UINT32_MAX))"

interpretation tbl_loop: uint_set tbl_first tbl_next "\<lambda>t. dom (tbl_map t)" tbl_ok
proof
  fix t :: "'a uint32_tbl" and m n :: nat
  assume t: "tbl_ok t"
  show "n \<in> dom (tbl_map t) \<Longrightarrow> n \<le> UINT32_MAX" using keys_bound [OF t] by force
  have f: "case Curl_uint32_tbl_first t of Some (k, e) \<Rightarrow> least_from (dom (tbl_map t)) 0 k | None \<Rightarrow> dom (tbl_map t) = {}"
    using next_at_cases [OF refl t, of 0] t used_finite [of "rows t"] unfolding Curl_uint32_tbl_first_def
    by (auto simp: dom_tbl_map tbl_ok_def split: option.splits)
  show "tbl_first t = (b, n, t') \<Longrightarrow> tbl_ok t' \<and> dom (tbl_map t') = dom (tbl_map t)" for b t'
    using t by (auto simp: tbl_first_def split: option.splits)
  show "tbl_first t = (True, n, t') \<Longrightarrow> least_from (dom (tbl_map t)) 0 n"
    "tbl_first t = (False, n, t') \<Longrightarrow> dom (tbl_map t) = {}" for t'
    using f by (auto simp: tbl_first_def split: option.splits)
  assume "m < UINT32_MAX"
  then have "(m + 1) mod 2 ^ 32 = Suc m" by (simp add: UINT32_MAX_def)
  then have "case Curl_uint32_tbl_next t m of Some (k, e) \<Rightarrow> least_from (dom (tbl_map t)) (Suc m) k
      | None \<Rightarrow> \<forall>k\<in>dom (tbl_map t). k < Suc m"
    using next_at_cases [OF refl t, of "Suc m"] unfolding Curl_uint32_tbl_next_def by (auto split: option.splits)
  then show "tbl_next t m = (True, n) \<Longrightarrow> least_from (dom (tbl_map t)) (Suc m) n"
    "tbl_next t m = (False, n) \<Longrightarrow> \<forall>k\<in>dom (tbl_map t). k \<le> m"
    by (force simp: tbl_next_def less_Suc_eq_le split: option.splits)+
qed

section \<open>Properties\<close>

lemma scan_inside:
  assumes "tbl_ok t" and "nentries t \<noteq> nrows t"
  shows "free_scan (rows t) i (nrows t) \<noteq> Outside" and "free_scan (rows t) 0 j \<noteq> Outside"
  using free_scan_cases [of "rows t" i "nrows t" Outside] free_scan_cases [of "rows t" 0 j Outside]
    free_row [OF assms] assms(1) by (auto simp: tbl_ok_def simp del: not_None_eq)

text \<open>
  C23: the table is a map that assigns its keys.  In every well-formed table an entry can be added
  unless as many entries as rows are in it; its key was free and is below \<open>UINT32_MAX\<close>, a
  lookup then finds the entry and changes at no other key; keys are assigned in turn, the next
  one being the first free key after the last one assigned, starting over at 0.  Removing
  undoes it, the count is the number of keys, and the search for a free row stays in the array.
\<close>

theorem tbl_is_map:
  assumes "tbl_inv t"
  shows "Curl_uint32_tbl_count t = card {k. Curl_uint32_tbl_get t k \<noteq> None}
    \<and> (if Curl_uint32_tbl_count t = Curl_uint32_tbl_capacity t then Curl_uint32_tbl_add t x = None
       else free_scan (rows t) (start_pos t) (nrows t) \<noteq> Outside \<and> free_scan (rows t) 0 (start_pos t) \<noteq> Outside
        \<and> (\<exists>k t'. Curl_uint32_tbl_add t x = Some (k, t') \<and> tbl_inv t' \<and> round_robin t k \<and> k < UINT32_MAX
          \<and> Curl_uint32_tbl_get t k = None \<and> Curl_uint32_tbl_get t' = (Curl_uint32_tbl_get t)(k \<mapsto> x)
          \<and> Curl_uint32_tbl_get (snd (Curl_uint32_tbl_remove t' k)) = Curl_uint32_tbl_get t))"
proof -
  have t: "tbl_ok t" "last_key_added t \<le> UINT32_MAX" using assms by (simp_all add: tbl_inv_def)
  have c: "Curl_uint32_tbl_count t = card {k. Curl_uint32_tbl_get t k \<noteq> None}"
    by (simp add: count_map [OF t(1)] get_map [OF t(1)] dom_def)
  show ?thesis
  proof (cases "nentries t = nrows t")
    case True
    then show ?thesis using c add_cases [OF t, of x] by (simp add: Curl_uint32_tbl_count_def Curl_uint32_tbl_capacity_def)
  next
    case False
    then obtain k t' where a: "Curl_uint32_tbl_add t x = Some (k, t')" "round_robin t k"
      using add_cases [OF t, of x] by auto
    note s = tbl.add_some [OF assms a(1)]
    have "(Curl_uint32_tbl_get t)(k := None) = Curl_uint32_tbl_get t" using s by (simp add: fun_upd_idem)
    then have "Curl_uint32_tbl_get (snd (Curl_uint32_tbl_remove t' k)) = Curl_uint32_tbl_get t"
      using tbl.remove_ok [of t' k] s by simp
    moreover have "Curl_uint32_tbl_count t \<noteq> Curl_uint32_tbl_capacity t"
      using False by (simp add: Curl_uint32_tbl_count_def Curl_uint32_tbl_capacity_def)
    ultimately show ?thesis using a s c scan_inside [OF t(1) False] by (simp only: if_False) blast
  qed
qed

definition demo_tbl :: "char uint32_tbl" where
  "demo_tbl = \<lparr>rows = [Some CHR ''a'', None, Some CHR ''c''], entry_dtor = False, nrows = 3, nentries = 2, last_key_added = 2\<rparr>"

lemma demo_tbl_inv: "tbl_inv demo_tbl"
proof -
  have "used (rows demo_tbl) = {0, 2}" by (auto simp: used_def demo_tbl_def less_Suc_eq numeral_eq_Suc)
  then show ?thesis by (simp add: tbl_inv_def tbl_ok_def demo_tbl_def UINT32_MAX_def)
qed

theorem tbl_is_map_witness:
  "\<exists>t'. Curl_uint32_tbl_add demo_tbl CHR ''x'' = Some (1, t') \<and> Curl_uint32_tbl_get t' 1 = Some CHR ''x''
    \<and> Curl_uint32_tbl_get t' 2 = Some CHR ''c'' \<and> round_robin demo_tbl 1
    \<and> Curl_uint32_tbl_get (snd (Curl_uint32_tbl_remove t' 1)) = Curl_uint32_tbl_get demo_tbl"
proof -
  have f: "\<not> Curl_uint32_tbl_count demo_tbl = Curl_uint32_tbl_capacity demo_tbl"
    by (simp add: Curl_uint32_tbl_count_def Curl_uint32_tbl_capacity_def demo_tbl_def)
  have k: "map_option fst (Curl_uint32_tbl_add demo_tbl CHR ''x'') = Some 1"
    by (simp add: Curl_uint32_tbl_add_def demo_tbl_def start_pos_def free_scan.simps UINT32_MAX_def)
  have g: "Curl_uint32_tbl_get demo_tbl 2 = Some CHR ''c''" by (simp add: Curl_uint32_tbl_get_def demo_tbl_def)
  show ?thesis using tbl_is_map [OF demo_tbl_inv, of "CHR ''x''"] f k g by auto
qed

lemma tbl_keys_distinct:
  assumes "tbl_inv t" and "tbl.add_all t xs = Some (ks, u)"
  shows "distinct ks \<and> (\<forall>i<length xs. Curl_uint32_tbl_get t (ks ! i) = None \<and> Curl_uint32_tbl_get u (ks ! i) = Some (xs ! i))"
  using tbl.add_all_ok [OF assms] by (metis nth_mem)

end
