(* ===== verification/Multi_Handle.thy ===== *)
theory Multi_Handle
  imports Timers Uint_Tbl
begin

text \<open>
  The bookkeeping of transfers in a multi handle, \<^verbatim>\<open>lib/multi.c\<close>: the table of transfers, the sets of
  those that are processed, wait for a connection or are done, the counters, the messages to the
  application, and the operations that add, remove, park and release a transfer.

  Easy handles are named by numbers; the handle knows one multi handle, and the timers of a
  transfer are those of \<open>Timers\<close>.  Fields that the bookkeeping does not read (the connection
  pool, buffers, the queue of notifications) are left out.

  The model is that of a build without DNS-over-HTTPS (\<^verbatim>\<open>CURL_DISABLE_DOH\<close>): resolving a name then adds and
  removes no transfers of its own, \<^verbatim>\<open>Curl_resolv_shutdown_all\<close> touches none, and no transfer has a
  \<^verbatim>\<open>sub_xfer_done\<close> callback.
\<close>

section \<open>State\<close>

datatype CURLMstate =
    MSTATE_INIT
  | MSTATE_PENDING
  | MSTATE_SETUP
  | MSTATE_CONNECT
  | MSTATE_CONNECTING
  | MSTATE_PROTOCONNECT
  | MSTATE_PROTOCONNECTING
  | MSTATE_DO
  | MSTATE_DOING
  | MSTATE_DOING_MORE
  | MSTATE_DID
  | MSTATE_PERFORMING
  | MSTATE_RATELIMITING
  | MSTATE_DONE
  | MSTATE_COMPLETED
  | MSTATE_MSGSENT

fun mstate_num :: "CURLMstate \<Rightarrow> nat" where
  "mstate_num MSTATE_INIT = 0"
| "mstate_num MSTATE_PENDING = 1"
| "mstate_num MSTATE_SETUP = 2"
| "mstate_num MSTATE_CONNECT = 3"
| "mstate_num MSTATE_CONNECTING = 4"
| "mstate_num MSTATE_PROTOCONNECT = 5"
| "mstate_num MSTATE_PROTOCONNECTING = 6"
| "mstate_num MSTATE_DO = 7"
| "mstate_num MSTATE_DOING = 8"
| "mstate_num MSTATE_DOING_MORE = 9"
| "mstate_num MSTATE_DID = 10"
| "mstate_num MSTATE_PERFORMING = 11"
| "mstate_num MSTATE_RATELIMITING = 12"
| "mstate_num MSTATE_DONE = 13"
| "mstate_num MSTATE_COMPLETED = 14"
| "mstate_num MSTATE_MSGSENT = 15"

lemma mstate_num_inj: "mstate_num a = mstate_num b \<Longrightarrow> a = b"
  by (cases a; cases b) simp_all

text \<open>The order of the enumeration, which the code compares states by.\<close>

instantiation CURLMstate :: linorder
begin

definition less_eq_CURLMstate :: "CURLMstate \<Rightarrow> CURLMstate \<Rightarrow> bool" where
  "less_eq_CURLMstate a b \<longleftrightarrow> mstate_num a \<le> mstate_num b"

definition less_CURLMstate :: "CURLMstate \<Rightarrow> CURLMstate \<Rightarrow> bool" where
  "less_CURLMstate a b \<longleftrightarrow> mstate_num a < mstate_num b"

instance
  by standard (auto simp: less_eq_CURLMstate_def less_CURLMstate_def intro: mstate_num_inj)

end

lemmas mstate_order = less_eq_CURLMstate_def less_CURLMstate_def

text \<open>What a multi handle keeps in the easy handle besides the timers.\<close>

record Curl_easy =
  magic_ok :: bool
  mstate :: CURLMstate
  has_conn :: bool
  really_alive :: bool
  state_done :: bool
  master_mid :: nat
  internal :: bool
  xfer_result :: CURLcode

record Curl_multi =
  multi_magic :: bool
  xfers_alive :: nat
  xfers_really_alive :: nat
  xfers_total_ever :: nat
  xfers :: "nat uint32_tbl"
  process :: uint32_bset
  pending :: uint32_bset
  msgsent :: uint32_bset
  msglist :: "(nat \<times> CURLcode) list"
  admin :: nat
  tim :: multi_timers
  app :: app_timer
  last_pending_mid :: nat
  in_callback :: bool
  in_ntfy_callback :: bool
  recheckstate :: bool
  easy :: "nat \<Rightarrow> Curl_easy"

abbreviation timers_of :: "Curl_multi \<Rightarrow> nat \<Rightarrow> easy_timers" where
  "timers_of m d \<equiv> easies (tim m) d"

abbreviation mid_of :: "Curl_multi \<Rightarrow> nat \<Rightarrow> nat" where
  "mid_of m d \<equiv> mid (timers_of m d)"

abbreviation state_of :: "Curl_multi \<Rightarrow> nat \<Rightarrow> CURLMstate" where
  "state_of m d \<equiv> mstate (easy m d)"

abbreviation set_dirty :: "uint32_bset \<Rightarrow> Curl_multi \<Rightarrow> Curl_multi" where
  "set_dirty b m \<equiv> m\<lparr>tim := (tim m)\<lparr>dirty := b\<rparr>\<rparr>"

definition upd_xfer :: "nat \<Rightarrow> (Curl_easy \<Rightarrow> Curl_easy) \<Rightarrow> Curl_multi \<Rightarrow> Curl_multi" where
  "upd_xfer d f m = m\<lparr>easy := (easy m)(d := f (easy m d))\<rparr>"

definition inc32 :: "nat \<Rightarrow> nat" where
  "inc32 n = (n + 1) mod 2 ^ 32"

section \<open>Looking up and moving transfers\<close>

definition Curl_multi_get_easy :: "Curl_multi \<Rightarrow> nat \<Rightarrow> nat option \<times> Curl_multi" where
  "Curl_multi_get_easy m i =
     (case Curl_uint32_tbl_get (xfers m) i of
        Some d \<Rightarrow> if magic_ok (easy m d) then (Some d, m) else (None, m\<lparr>xfers := snd (Curl_uint32_tbl_remove (xfers m) i)\<rparr>)
      | None \<Rightarrow> (None, m\<lparr>xfers := snd (Curl_uint32_tbl_remove (xfers m) i)\<rparr>))"

definition Curl_multi_xfers_running :: "Curl_multi \<Rightarrow> nat" where
  "Curl_multi_xfers_running m = xfers_alive m"

definition multi_mark_dirty :: "Curl_multi \<Rightarrow> nat \<Rightarrow> Curl_multi" where
  "multi_mark_dirty m d = m\<lparr>tim := Curl_multi_mark_dirty (tim m) d\<rparr>"

definition Curl_multi_clear_dirty :: "Curl_multi \<Rightarrow> nat \<Rightarrow> Curl_multi" where
  "Curl_multi_clear_dirty m d =
     (if in_multi (timers_of m d) \<and> mid_of m d \<noteq> UINT32_MAX
      then set_dirty (Curl_uint32_bset_remove (dirty (tim m)) (mid_of m d)) m else m)"

definition Curl_detach_connection :: "Curl_multi \<Rightarrow> nat \<Rightarrow> Curl_multi" where
  "Curl_detach_connection m d = upd_xfer d (has_conn_update (\<lambda>_. False)) m"

definition mstate_enter_completed :: "Curl_multi \<Rightarrow> nat \<Rightarrow> Curl_multi" where
  "mstate_enter_completed m d =
     (let m1 = m\<lparr>process := Curl_uint32_bset_remove (process m) (mid_of m d),
                 pending := Curl_uint32_bset_remove (pending m) (mid_of m d)\<rparr>;
          m2 = Curl_detach_connection m1 d
      in m2\<lparr>tim := Curl_expire_clear (tim m2) d\<rparr>)"

text \<open>
  \<open>mstate()\<close>, through the macro \<open>multistate\<close>: only the entry into \<open>COMPLETED\<close> has an effect on the
  bookkeeping, the other entry functions record times and notifications.
\<close>

definition multistate :: "Curl_multi \<Rightarrow> nat \<Rightarrow> CURLMstate \<Rightarrow> Curl_multi" where
  "multistate m d st =
     (if state_of m d = st then m
      else
        (let m' = upd_xfer d (mstate_update (\<lambda>_. st)) m in
         if st = MSTATE_COMPLETED then mstate_enter_completed m' d else m'))"

definition move_pending_to_connect :: "Curl_multi \<Rightarrow> nat \<Rightarrow> Curl_multi" where
  "move_pending_to_connect m d =
     (let m1 = m\<lparr>pending := Curl_uint32_bset_remove (pending m) (mid_of m d),
                 process := snd (Curl_uint32_bset_add (process m) (mid_of m d))\<rparr>
      in multi_mark_dirty (multistate m1 d MSTATE_CONNECT) d)"

text \<open>
  The loop over the pending set after \<open>i\<close>: whether a transfer was moved, and the state.  A round
  goes on only for a transfer that is no longer in the table; the fuel bounds the rounds.
\<close>

fun pending_scan :: "nat \<Rightarrow> Curl_multi \<Rightarrow> nat \<Rightarrow> bool \<times> Curl_multi" where
  "pending_scan 0 m i = (False, m)"
| "pending_scan (Suc fuel) m i =
     (case Curl_uint32_bset_next (pending m) i of
        (False, _) \<Rightarrow> (False, m)
      | (True, n) \<Rightarrow>
          (case Curl_multi_get_easy m n of
             (Some d, m') \<Rightarrow> (True, (move_pending_to_connect m' d)\<lparr>last_pending_mid := n\<rparr>)
           | (None, m') \<Rightarrow> pending_scan fuel (m'\<lparr>pending := Curl_uint32_bset_remove (pending m') n\<rparr>) n))"

definition process_pending_handles :: "Curl_multi \<Rightarrow> Curl_multi" where
  "process_pending_handles m =
     (let (moved, m1) = (if last_pending_mid m \<noteq> 0 then pending_scan (Suc UINT32_MAX) m (last_pending_mid m) else (False, m)) in
      if moved then m1
      else
        (case Curl_uint32_bset_first (pending m1) of
           (False, _, b) \<Rightarrow> m1\<lparr>last_pending_mid := 0, pending := b\<rparr>
         | (True, n, b) \<Rightarrow>
             (let m2 = m1\<lparr>last_pending_mid := 0, pending := b\<rparr> in
              case Curl_multi_get_easy m2 n of
                (Some d, m') \<Rightarrow> (move_pending_to_connect m' d)\<lparr>last_pending_mid := n\<rparr>
              | (None, m') \<Rightarrow>
                  snd (pending_scan (Suc UINT32_MAX) (m'\<lparr>pending := Curl_uint32_bset_remove (pending m') n\<rparr>) n))))"

section \<open>The timer callback\<close>

text \<open>
  \<open>multi_has_dirties\<close> on this state.  The lookup of a transfer in its loop is taken as a test: a
  handle that is not good would also leave the table.
\<close>

definition multi_check_dirties :: "Curl_multi \<Rightarrow> bool \<times> Curl_multi" where
  "multi_check_dirties m =
     (case multi_has_dirties (\<lambda>i. fst (Curl_multi_get_easy m i) \<noteq> None) (process m) (dirty (tim m)) of
        Some (b, ds) \<Rightarrow> (b, set_dirty ds m)
      | None \<Rightarrow> (False, m))"

definition update_timer :: "(int \<Rightarrow> int) option \<Rightarrow> curltime \<Rightarrow> Curl_multi \<Rightarrow> CURLMcode \<times> Curl_multi" where
  "update_timer timer_cb now m =
     (if timer_cb = None \<or> multi_dead (app m) then (CURLM_OK, m)
      else
        (let (b, m1) = multi_check_dirties m;
             (code, _, a, t) = Curl_update_timer timer_cb b now (app m1) (tim m1)
         in (code, m1\<lparr>app := a, tim := t\<rparr>)))"

section \<open>Adding a transfer\<close>

text \<open>The size the table is to grow to, 0 when it is large enough.\<close>

definition xfers_new_size :: "nat \<Rightarrow> nat \<Rightarrow> nat" where
  "xfers_new_size capacity in_use =
     (let max_capacity = UINT32_MAX - 1;
          unused = (capacity + 2 ^ 32 - in_use) mod 2 ^ 32;
          min_unused = max (capacity div 4) 4
      in if capacity < max_capacity \<and> unused \<le> min_unused then
           if min_unused \<ge> max_capacity \<or> max_capacity - min_unused \<le> capacity \<or> UINT32_MAX - min_unused - 63 \<le> capacity
           then max_capacity
           else ((in_use + min_unused + 63) mod 2 ^ 32) div 64 * 64
         else 0)"

text \<open>The sets grow first; the outcomes of the five allocations are \<open>al\<close>.\<close>

definition multi_resize :: "(nat \<Rightarrow> bool) \<Rightarrow> nat \<Rightarrow> Curl_multi \<Rightarrow> bool \<times> Curl_multi" where
  "multi_resize al n m =
     (let (r1, b1) = Curl_uint32_bset_resize (al 0) (process m) n; m1 = m\<lparr>process := b1\<rparr> in
      if r1 \<noteq> CURLE_OK then (False, m1)
      else
        (let (r2, b2) = Curl_uint32_bset_resize (al 1) (dirty (tim m1)) n; m2 = set_dirty b2 m1 in
         if r2 \<noteq> CURLE_OK then (False, m2)
         else
           (let (r3, b3) = Curl_uint32_bset_resize (al 2) (pending m2) n; m3 = m2\<lparr>pending := b3\<rparr> in
            if r3 \<noteq> CURLE_OK then (False, m3)
            else
              (let (r4, b4) = Curl_uint32_bset_resize (al 3) (msgsent m3) n; m4 = m3\<lparr>msgsent := b4\<rparr> in
               if r4 \<noteq> CURLE_OK then (False, m4)
               else
                 (let (r5, _, t) = Curl_uint32_tbl_resize (al 4) (xfers m4) n in
                  (r5 = CURLE_OK, m4\<lparr>xfers := t\<rparr>))))))"

definition multi_xfers_add :: "(nat \<Rightarrow> bool) \<Rightarrow> Curl_multi \<Rightarrow> nat \<Rightarrow> CURLMcode \<times> Curl_multi" where
  "multi_xfers_add al m d =
     (let capacity = Curl_uint32_tbl_capacity (xfers m);
          new_size = xfers_new_size capacity (Curl_uint32_tbl_count (xfers m));
          (grown, m1) = (if new_size > capacity then multi_resize al new_size m else (True, m))
      in if \<not> grown then (CURLM_OUT_OF_MEMORY, m1)
         else
           (case Curl_uint32_tbl_add (xfers m1) d of
              None \<Rightarrow> (CURLM_OUT_OF_MEMORY, m1\<lparr>tim := upd_easy d ((timers_of m1 d)\<lparr>mid := UINT32_MAX\<rparr>) (tim m1)\<rparr>)
            | Some (i, t) \<Rightarrow> (CURLM_OK, m1\<lparr>xfers := t, tim := upd_easy d ((timers_of m1 d)\<lparr>mid := i\<rparr>) (tim m1)\<rparr>)))"

text \<open>A dead handle starts over once only the admin handle is left.\<close>

definition multi_revive :: "Curl_multi \<Rightarrow> Curl_multi" where
  "multi_revive m =
     m\<lparr>app := (app m)\<lparr>multi_dead := False\<rparr>, process := Curl_uint32_bset_clear (process m),
       tim := (tim m)\<lparr>dirty := Curl_uint32_bset_clear (dirty (tim m))\<rparr>,
       pending := Curl_uint32_bset_clear (pending m), msgsent := Curl_uint32_bset_clear (msgsent m)\<rparr>"

text \<open>The transfer is in the table; it joins the processed transfers and is made to run.\<close>

definition multi_admit :: "Curl_multi \<Rightarrow> nat \<Rightarrow> Curl_multi" where
  "multi_admit m d =
     (let m1 = m\<lparr>tim := upd_easy d ((timers_of m d)\<lparr>timeoutlist := [], in_multi := True\<rparr>) (tim m)\<rparr>;
          m2 = upd_xfer d (really_alive_update (\<lambda>_. False)) (multistate m1 d MSTATE_INIT);
          m3 = m2\<lparr>process := snd (Curl_uint32_bset_add (process m2) (mid_of m2 d)),
                  xfers_alive := inc32 (xfers_alive m2), xfers_total_ever := xfers_total_ever m2 + 1\<rparr>
      in multi_mark_dirty m3 d)"

text \<open>
  The handle of an earlier \<open>curl_easy_perform\<close>, which is closed here, is another multi handle
  and left out.
\<close>

definition curl_multi_add_handle ::
  "(int \<Rightarrow> int) option \<Rightarrow> curltime \<Rightarrow> (nat \<Rightarrow> bool) \<Rightarrow> Curl_multi \<Rightarrow> nat \<Rightarrow> CURLMcode \<times> Curl_multi" where
  "curl_multi_add_handle timer_cb now al m d =
     (if \<not> multi_magic m then (CURLM_BAD_HANDLE, m)
      else if \<not> magic_ok (easy m d) then (CURLM_BAD_EASY_HANDLE, m)
      else if in_multi (timers_of m d) then (CURLM_ADDED_ALREADY, m)
      else if in_callback m then (CURLM_RECURSIVE_API_CALL, m)
      else if multi_dead (app m) \<and>
          (Curl_uint32_tbl_count (xfers m) \<noteq> 1 \<or> \<not> Curl_uint32_tbl_contains (xfers m) 0) then (CURLM_ABORTED_BY_CALLBACK, m)
      else
        (let m1 = (if multi_dead (app m) then multi_revive m else m);
             (code, m2) = multi_xfers_add al m1 d
         in if code \<noteq> CURLM_OK then (CURLM_OUT_OF_MEMORY, m2)
            else
              (let (code', m3) = update_timer timer_cb now (multi_admit m2 d) in
               if code' \<noteq> CURLM_OK then
                 (code', m3\<lparr>xfers := snd (Curl_uint32_tbl_remove (xfers m3) (mid_of m3 d)),
                            tim := upd_easy d ((timers_of m3 d)\<lparr>in_multi := False, mid := UINT32_MAX\<rparr>) (tim m3)\<rparr>)
               else (CURLM_OK, m3))))"

section \<open>The end of a transfer\<close>

text \<open>
  What the protocol and the client answer when a transfer is done: the result of the protocol's
  own function if it has one, whether the progress callback failed, the results of the last
  write and of closing the request, and whether other transfers use the connection.
\<close>

record done_outcome =
  proto_done :: "(CURLcode \<Rightarrow> bool \<Rightarrow> CURLcode) option"
  pgrs_done_rc :: bool
  write_done :: CURLcode
  req_done :: CURLcode
  conn_inuse :: bool

definition Curl_1st_fatal :: "CURLcode \<Rightarrow> CURLcode \<Rightarrow> CURLcode" where
  "Curl_1st_fatal r1 r2 =
     (if r1 \<noteq> CURLE_OK \<and> r1 \<noteq> CURLE_AGAIN then r1
      else if r2 \<noteq> CURLE_OK \<and> r2 \<noteq> CURLE_AGAIN then r2
      else r1)"

text \<open>The transfer lets go of its connection; it counts as done when it was the last user.\<close>

definition multi_done_locked :: "done_outcome \<Rightarrow> Curl_multi \<Rightarrow> nat \<Rightarrow> Curl_multi" where
  "multi_done_locked out m d =
     (let m1 = Curl_detach_connection m d in
      if conn_inuse out then m1 else upd_xfer d (state_done_update (\<lambda>_. True)) m1)"

text \<open>Without DNS-over-HTTPS, shutting down the resolver is no change to this state.\<close>

definition multi_done :: "done_outcome \<Rightarrow> Curl_multi \<Rightarrow> nat \<Rightarrow> CURLcode \<Rightarrow> bool \<Rightarrow> CURLcode \<times> Curl_multi" where
  "multi_done out m d status premature =
     (if state_done (easy m d) then (CURLE_OK, m)
      else
        (let conn = has_conn (easy m d);
             premature' = (premature \<or> status \<in> {CURLE_ABORTED_BY_CALLBACK, CURLE_READ_ERROR, CURLE_WRITE_ERROR});
             r1 = (case proto_done out of
                     Some f \<Rightarrow> if conn \<and> state_of m d \<ge> MSTATE_PROTOCONNECT then f status premature' else status
                   | None \<Rightarrow> status);
             r2 = (if state_of m d > MSTATE_CONNECTING \<and> r1 \<noteq> CURLE_ABORTED_BY_CALLBACK \<and> r1 = CURLE_OK \<and> pgrs_done_rc out
                   then CURLE_ABORTED_BY_CALLBACK else r1);
             r3 = Curl_1st_fatal r2 (write_done out);
             m1 = process_pending_handles m;
             r4 = (if r3 = CURLE_OK then req_done out else r3)
         in (r4, if conn then multi_done_locked out m1 d else m1)))"

text \<open>
  The transfer's result becomes a message for the application, or is for its master transfer, whose
  callback only DNS-over-HTTPS sets; it joins the finished transfers.
\<close>

definition handle_completed :: "Curl_multi \<Rightarrow> nat \<Rightarrow> CURLcode \<Rightarrow> Curl_multi" where
  "handle_completed m d result =
     (let m1 = (if master_mid (easy m d) \<noteq> UINT32_MAX then snd (Curl_multi_get_easy m (master_mid (easy m d)))
                else m\<lparr>msglist := msglist m @ [(d, result)]\<rparr>);
          m2 = multistate m1 d MSTATE_MSGSENT;
          i = mid_of m2 d;
          m3 = (set_dirty (Curl_uint32_bset_remove (dirty (tim m2)) i) m2)
                 \<lparr>process := Curl_uint32_bset_remove (process m2) i, pending := Curl_uint32_bset_remove (pending m2) i,
                  msgsent := snd (Curl_uint32_bset_add (msgsent m2) i)\<rparr>;
          m4 = (if really_alive (easy m3 d)
                then (upd_xfer d (really_alive_update (\<lambda>_. False)) m3)\<lparr>xfers_really_alive := dec32 (xfers_really_alive m3)\<rparr>
                else m3)
      in m4\<lparr>xfers_alive := dec32 (xfers_alive m4)\<rparr>)"

section \<open>Removing a transfer\<close>

definition drop_msg :: "nat \<Rightarrow> (nat \<times> CURLcode) list \<Rightarrow> (nat \<times> CURLcode) list" where
  "drop_msg d ms = takeWhile (\<lambda>x. fst x \<noteq> d) ms @ drop 1 (dropWhile (\<lambda>x. fst x \<noteq> d) ms)"

text \<open>From the table and all sets; the transfer no longer belongs to a multi handle.\<close>

definition multi_forget :: "Curl_multi \<Rightarrow> nat \<Rightarrow> Curl_multi" where
  "multi_forget m d =
     (let i = mid_of m d;
          m1 = m\<lparr>msglist := drop_msg d (msglist m), xfers := snd (Curl_uint32_tbl_remove (xfers m) i),
                 process := Curl_uint32_bset_remove (process m) i, pending := Curl_uint32_bset_remove (pending m) i,
                 msgsent := Curl_uint32_bset_remove (msgsent m) i,
                 tim := upd_easy d ((timers_of m d)\<lparr>in_multi := False, mid := UINT32_MAX\<rparr>)
                          ((tim m)\<lparr>dirty := Curl_uint32_bset_remove (dirty (tim m)) i\<rparr>)\<rparr>
      in upd_xfer d (master_mid_update (\<lambda>_. UINT32_MAX)) m1)"

text \<open>
  The connections that only connected, wildcard data and socket events of the transfer are left
  out; \<open>wakeup\<close> is the answer of the event interface.
\<close>

definition curl_multi_remove_handle ::
  "(int \<Rightarrow> int) option \<Rightarrow> curltime \<Rightarrow> done_outcome \<Rightarrow> CURLMcode \<Rightarrow> Curl_multi \<Rightarrow> nat \<Rightarrow> CURLMcode \<times> Curl_multi" where
  "curl_multi_remove_handle timer_cb now out wakeup m d =
     (if \<not> multi_magic m then (CURLM_BAD_HANDLE, m)
      else if \<not> magic_ok (easy m d) then (CURLM_BAD_EASY_HANDLE, m)
      else if \<not> in_multi (timers_of m d) then (CURLM_OK, m)
      else if mid_of m d = UINT32_MAX then (CURLM_INTERNAL_ERROR, m)
      else if Curl_uint32_tbl_get (xfers m) (mid_of m d) \<noteq> Some d then (CURLM_INTERNAL_ERROR, m)
      else if in_callback m then (CURLM_RECURSIVE_API_CALL, m)
      else
        (let premature = (state_of m d < MSTATE_COMPLETED);
             m1 = (if has_conn (easy m d) then snd (multi_done out m d (xfer_result (easy m d)) premature) else m);
             m2 = m1\<lparr>tim := Curl_expire_clear (tim m1) d\<rparr>;
             m3 = (if Curl_uint32_bset_contains (msgsent m2) (mid_of m2 d) then m2
                   else m2\<lparr>xfers_alive := dec32 (xfers_alive m2)\<rparr>);
             m4 = (if really_alive (easy m3 d)
                   then (upd_xfer d (really_alive_update (\<lambda>_. False)) m3)\<lparr>xfers_really_alive := dec32 (xfers_really_alive m3)\<rparr>
                   else m3);
             m5 = Curl_detach_connection (upd_xfer d (mstate_update (\<lambda>_. MSTATE_COMPLETED)) m4) d;
             m6 = process_pending_handles (multi_forget m5 d);
             (code, m7) = update_timer timer_cb now m6
         in if code \<noteq> CURLM_OK then (code, m7) else (wakeup, m7)))"

section \<open>Messages and counts\<close>

definition curl_multi_info_read :: "Curl_multi \<Rightarrow> (nat \<times> CURLcode) option \<times> nat \<times> Curl_multi" where
  "curl_multi_info_read m =
     (if multi_magic m \<and> \<not> in_callback m then
        (case msglist m of
           [] \<Rightarrow> (None, 0, m)
         | x # ms \<Rightarrow> (Some x, length ms, m\<lparr>msglist := ms\<rparr>))
      else (None, 0, m))"

datatype CURLMinfo_offt =
    CURLMINFO_XFERS_CURRENT
  | CURLMINFO_XFERS_RUNNING
  | CURLMINFO_XFERS_PENDING
  | CURLMINFO_XFERS_DONE
  | CURLMINFO_XFERS_ADDED

definition curl_multi_get_offt :: "Curl_multi \<Rightarrow> CURLMinfo_offt \<Rightarrow> CURLMcode \<times> nat" where
  "curl_multi_get_offt m info =
     (if \<not> multi_magic m then (CURLM_BAD_HANDLE, 0)
      else
        (CURLM_OK,
         case info of
           CURLMINFO_XFERS_CURRENT \<Rightarrow> Curl_uint32_tbl_count (xfers m) - 1
         | CURLMINFO_XFERS_RUNNING \<Rightarrow>
             (let n = Curl_uint32_bset_count (process m) in
              if n \<noteq> 0 \<and> Curl_uint32_bset_contains (process m) (mid_of m (admin m)) then n - 1 else n)
         | CURLMINFO_XFERS_PENDING \<Rightarrow> Curl_uint32_bset_count (pending m)
         | CURLMINFO_XFERS_DONE \<Rightarrow> Curl_uint32_bset_count (msgsent m)
         | CURLMINFO_XFERS_ADDED \<Rightarrow> xfers_total_ever m))"

text \<open>The handles of the application, in the order of their identifiers.\<close>

definition curl_multi_get_handles :: "Curl_multi \<Rightarrow> nat list option" where
  "curl_multi_get_handles m =
     map_option (\<lambda>(ks, t). filter (\<lambda>d. \<not> internal (easy m d)) (map (\<lambda>k. the (Curl_uint32_tbl_get t k)) ks))
       (for_each tbl_first tbl_next (\<lambda>_ t. t) (xfers m))"

end
