(* ===== verification/Multi_Inv.thy ===== *)
theory Multi_Inv
  imports Multi_Handle
begin

text \<open>
  The invariant of a multi handle: the table, the sets, the timers, the counters and the messages
  agree with the states of the transfers.  Each operation of \<open>Multi_Handle\<close> keeps it.
\<close>

section \<open>The invariant\<close>

definition members :: "Curl_multi \<Rightarrow> nat set" where
  "members m = {d. in_multi (timers_of m d)}"

definition user_xfers :: "Curl_multi \<Rightarrow> nat set" where
  "user_xfers m = members m - {admin m}"

definition active :: "CURLMstate \<Rightarrow> bool" where
  "active st \<longleftrightarrow> st \<notin> {MSTATE_PENDING, MSTATE_COMPLETED, MSTATE_MSGSENT}"

definition live :: "Curl_multi \<Rightarrow> nat set" where
  "live m = {d \<in> user_xfers m. state_of m d \<noteq> MSTATE_MSGSENT}"

definition really_live :: "Curl_multi \<Rightarrow> nat set" where
  "really_live m = {d \<in> members m. really_alive (easy m d)}"

text \<open>The table holds the members under their identifiers.\<close>

definition table_ok :: "Curl_multi \<Rightarrow> bool" where
  "table_ok m \<longleftrightarrow> tbl_inv (xfers m) \<and> (\<forall>i d. tbl_map (xfers m) i = Some d \<longleftrightarrow> d \<in> members m \<and> mid_of m d = i)
     \<and> admin m \<in> members m \<and> (\<forall>d\<in>members m. magic_ok (easy m d))"

text \<open>A set that can hold every identifier of the table.\<close>

definition roomy :: "Curl_multi \<Rightarrow> uint32_bset \<Rightarrow> bool" where
  "roomy m b \<longleftrightarrow> bset_ok b \<and> nrows (xfers m) \<le> 64 * nslots b"

text \<open>In which of the three sets a transfer is follows from its state.\<close>

definition placed :: "Curl_multi \<Rightarrow> nat \<Rightarrow> bool" where
  "placed m d \<longleftrightarrow> (mid_of m d \<in> bset_elems (process m) \<longleftrightarrow> active (state_of m d))
     \<and> (mid_of m d \<in> bset_elems (pending m) \<longleftrightarrow> state_of m d = MSTATE_PENDING)
     \<and> (mid_of m d \<in> bset_elems (msgsent m) \<longleftrightarrow> state_of m d = MSTATE_MSGSENT)"

definition sets_ok :: "Curl_multi \<Rightarrow> bool" where
  "sets_ok m \<longleftrightarrow> roomy m (process m) \<and> roomy m (pending m) \<and> roomy m (msgsent m) \<and> roomy m (dirty (tim m))
     \<and> (\<forall>d\<in>user_xfers m. placed m d) \<and> bset_elems (pending m) \<union> bset_elems (msgsent m) \<subseteq> mid_of m ` user_xfers m
     \<and> last_pending_mid m < UINT32_MAX"

text \<open>Only members have timers.\<close>

definition times_ok :: "Curl_multi \<Rightarrow> bool" where
  "times_ok m \<longleftrightarrow> timers_ok (tim m) \<and> (\<forall>d. d \<notin> members m \<longrightarrow> expiretime (timers_of m d) = tv_zero)"

text \<open>The counters; \<open>g\<close> is the number of transfers that were counted and never became members.\<close>

definition counts_ok :: "nat \<Rightarrow> Curl_multi \<Rightarrow> bool" where
  "counts_ok g m \<longleftrightarrow> xfers_alive m = (card (live m) + g) mod 2 ^ 32 \<and> xfers_really_alive m = card (really_live m)"

text \<open>At most one message for a transfer, and only when it has finished.\<close>

definition msgs_ok :: "Curl_multi \<Rightarrow> bool" where
  "msgs_ok m \<longleftrightarrow> distinct (map fst (msglist m))
     \<and> (\<forall>d\<in>fst ` set (msglist m). d \<in> user_xfers m \<and> state_of m d = MSTATE_MSGSENT)"

definition multi_ok :: "nat \<Rightarrow> Curl_multi \<Rightarrow> bool" where
  "multi_ok g m \<longleftrightarrow> table_ok m \<and> sets_ok m \<and> times_ok m \<and> counts_ok g m \<and> msgs_ok m"

lemmas multi_ok_parts = multi_ok_def table_ok_def sets_ok_def times_ok_def counts_ok_def msgs_ok_def

section \<open>Consequences\<close>

lemma mid_inj: "table_ok m \<Longrightarrow> d \<in> members m \<Longrightarrow> e \<in> members m \<Longrightarrow> mid_of m d = mid_of m e \<Longrightarrow> d = e"
  unfolding table_ok_def by (metis option.inject)

lemma member_key: "table_ok m \<Longrightarrow> d \<in> members m \<Longrightarrow> tbl_map (xfers m) (mid_of m d) = Some d"
  by (simp add: table_ok_def)

lemma mid_bound: "table_ok m \<Longrightarrow> d \<in> members m \<Longrightarrow> mid_of m d < nrows (xfers m) \<and> mid_of m d < UINT32_MAX"
  using member_key [of m d] keys_bound [of "xfers m" "mid_of m d"] by (auto simp: table_ok_def tbl_inv_def)

lemma members_card:
  assumes "table_ok m"
  shows "finite (members m)" and "card (members m) = Curl_uint32_tbl_count (xfers m)" and "card (members m) \<le> UINT32_MAX"
proof -
  have i: "inj_on (mid_of m) (members m)" using mid_inj [OF assms] by (rule inj_onI)
  have e: "mid_of m ` members m = dom (tbl_map (xfers m))" using assms by (auto simp: table_ok_def dom_def)
  have t: "tbl_ok (xfers m)" using assms by (simp add: table_ok_def tbl_inv_def)
  have f: "finite (dom (tbl_map (xfers m)))" by (simp add: dom_tbl_map)
  show "finite (members m)" using i e f by (metis finite_imageD)
  show c: "card (members m) = Curl_uint32_tbl_count (xfers m)" using card_image [OF i] e count_map [OF t] by simp
  have "Curl_uint32_tbl_count (xfers m) \<le> nrows (xfers m)"
    using t used_finite(2) [of "rows (xfers m)"] by (simp add: Curl_uint32_tbl_count_def tbl_ok_def del: used_finite)
  then show "card (members m) \<le> UINT32_MAX" using c t by (simp add: tbl_ok_def)
qed

lemma user_member: "d \<in> user_xfers m \<Longrightarrow> d \<in> members m" "d \<in> user_xfers m \<Longrightarrow> d \<noteq> admin m"
  by (simp_all add: user_xfers_def)

lemma live_finite: "table_ok m \<Longrightarrow> finite (live m) \<and> finite (really_live m) \<and> card (live m) \<le> UINT32_MAX \<and> card (really_live m) \<le> UINT32_MAX"
proof -
  assume t: "table_ok m"
  have "live m \<subseteq> members m" "really_live m \<subseteq> members m" by (auto simp: live_def really_live_def user_xfers_def)
  then show ?thesis using members_card [OF t] by (meson card_mono finite_subset le_trans)
qed

lemma get_easy_member: "table_ok m \<Longrightarrow> d \<in> members m \<Longrightarrow> Curl_multi_get_easy m (mid_of m d) = (Some d, m)"
proof -
  assume t: "table_ok m" "d \<in> members m"
  then have "tbl_ok (xfers m)" "magic_ok (easy m d)" by (simp_all add: table_ok_def tbl_inv_def)
  then show ?thesis by (simp add: Curl_multi_get_easy_def get_map member_key [OF t])
qed

lemma get_easy_cases:
  assumes "table_ok m"
  shows "(\<exists>d\<in>members m. mid_of m d = i \<and> Curl_multi_get_easy m i = (Some d, m))
    \<or> (i \<notin> mid_of m ` members m \<and> (\<exists>t. Curl_multi_get_easy m i = (None, m\<lparr>xfers := t\<rparr>) \<and> tbl_inv t \<and> nrows t = nrows (xfers m) \<and> tbl_map t = tbl_map (xfers m)))"
proof (cases "tbl_map (xfers m) i")
  case None
  have t: "tbl_ok (xfers m)" "last_key_added (xfers m) \<le> UINT32_MAX" using assms(1) by (simp_all add: table_ok_def tbl_inv_def)
  obtain ds u where r: "Curl_uint32_tbl_remove (xfers m) i = (ds, u)" by (rule prod.exhaust)
  have "tbl_inv u" "nrows u = nrows (xfers m)" "tbl_map u = tbl_map (xfers m)"
    using tbl_remove_ok [OF t(1) r] t(2) None by (simp_all add: tbl_inv_def fun_upd_idem)
  moreover have "i \<notin> mid_of m ` members m" using None member_key [OF assms(1)] by fastforce
  ultimately show ?thesis using None r by (auto simp: Curl_multi_get_easy_def get_map [OF t(1)])
next
  case (Some d)
  then have "d \<in> members m" "mid_of m d = i" using assms(1) by (simp_all add: table_ok_def)
  then show ?thesis using get_easy_member [OF assms] by blast
qed

lemma dec32_card: "0 < n \<Longrightarrow> dec32 ((n + g) mod 2 ^ 32) = (n - 1 + g) mod 2 ^ 32"
proof -
  assume "0 < n"
  then have "n + g + UINT32_MAX = n - 1 + g + 2 ^ 32" by (simp add: UINT32_MAX_def)
  then show ?thesis unfolding dec32_def by (metis mod_add_left_eq mod_add_self2)
qed

lemma inc32_card: "inc32 ((n + g) mod 2 ^ 32) = (Suc n + g) mod 2 ^ 32"
  unfolding inc32_def by (simp add: mod_Suc_eq)

lemma roomy_remove [simp]: "roomy m b \<Longrightarrow> roomy m (Curl_uint32_bset_remove b i)"
  using bset_remove_ok [of b i] by (auto simp: roomy_def Curl_uint32_bset_remove_def Let_def)

lemma roomy_add [simp]: "roomy m b \<Longrightarrow> roomy m (snd (Curl_uint32_bset_add b i))"
  using bset_add_ok [of b i "fst (Curl_uint32_bset_add b i)" "snd (Curl_uint32_bset_add b i)"]
  by (auto simp: roomy_def Curl_uint32_bset_add_def Let_def)

lemma roomy_elems:
  assumes "roomy m b"
  shows "bset_elems (Curl_uint32_bset_remove b i) = bset_elems b - {i}"
    and "i < nrows (xfers m) \<Longrightarrow> bset_elems (snd (Curl_uint32_bset_add b i)) = insert i (bset_elems b)"
    and "Curl_uint32_bset_contains b i \<longleftrightarrow> i \<in> bset_elems b"
proof -
  have b: "bset_ok b" "nrows (xfers m) \<le> 64 * nslots b" using assms by (simp_all add: roomy_def)
  show "bset_elems (Curl_uint32_bset_remove b i) = bset_elems b - {i}" using bset_remove_ok [OF b(1)] by simp
  show "Curl_uint32_bset_contains b i \<longleftrightarrow> i \<in> bset_elems b" using bset_contains_ok [OF b(1)] .
  obtain r c where a: "Curl_uint32_bset_add b i = (r, c)" by (rule prod.exhaust)
  show "i < nrows (xfers m) \<Longrightarrow> bset_elems (snd (Curl_uint32_bset_add b i)) = insert i (bset_elems b)"
    using bset_add_ok [OF b(1) a] b(2) a by simp
qed

text \<open>
  The state of one transfer changes, and with it its place in the sets and the counters.
\<close>

lemma multi_ok_change:
  assumes ok: "multi_ok g m" "d \<in> user_xfers m"
    and same: "xfers m' = xfers m" "admin m' = admin m" "last_pending_mid m' = last_pending_mid m"
      "\<And>x. in_multi (timers_of m' x) = in_multi (timers_of m x)" "\<And>x. mid_of m' x = mid_of m x"
    and times: "timers_ok (tim m')" "\<And>x. x \<notin> members m \<Longrightarrow> expiretime (timers_of m' x) = tv_zero"
    and easy: "\<And>x. x \<noteq> d \<Longrightarrow> easy m' x = easy m x" "magic_ok (easy m' d)"
    and room: "roomy m (process m')" "roomy m (pending m')" "roomy m (msgsent m')" "roomy m (dirty (tim m'))"
    and elems: "bset_elems (process m') - {mid_of m d} = bset_elems (process m) - {mid_of m d}"
      "bset_elems (pending m') - {mid_of m d} = bset_elems (pending m) - {mid_of m d}"
      "bset_elems (msgsent m') - {mid_of m d} = bset_elems (msgsent m) - {mid_of m d}"
    and place: "placed m' d"
    and alive: "state_of m d = MSTATE_MSGSENT \<Longrightarrow> state_of m' d = MSTATE_MSGSENT"
      "xfers_alive m' = (if state_of m' d = MSTATE_MSGSENT \<and> state_of m d \<noteq> MSTATE_MSGSENT then dec32 (xfers_alive m) else xfers_alive m)"
    and really: "xfers_really_alive m' =
      (if really_alive (easy m' d) = really_alive (easy m d) then xfers_really_alive m
       else if really_alive (easy m' d) then inc32 (xfers_really_alive m) else dec32 (xfers_really_alive m))"
    and msgs: "distinct (map fst (msglist m'))"
      "\<And>x. x \<in> fst ` set (msglist m') \<Longrightarrow> x \<in> fst ` set (msglist m) \<or> x = d \<and> state_of m' d = MSTATE_MSGSENT"
  shows "multi_ok g m' \<and> members m' = members m \<and> user_xfers m' = user_xfers m"
proof -
  have mem: "members m' = members m" by (simp add: members_def same(4))
  have usr: "user_xfers m' = user_xfers m" by (simp add: user_xfers_def mem same(2))
  have t: "table_ok m" using ok(1) by (simp add: multi_ok_def)
  have dm: "d \<in> members m" using ok(2) by (rule user_member)
  have t': "table_ok m'" unfolding table_ok_def mem same(1,2,5)
    using t easy dm by (metis table_ok_def)
  have room': "roomy m' b = roomy m b" for b by (simp add: roomy_def same(1))
  have "placed m' x" if x: "x \<in> user_xfers m" for x
  proof (cases "x = d")
    case False
    then have n: "mid_of m x \<noteq> mid_of m d" using mid_inj [OF t user_member(1) [OF x] dm] by blast
    have "placed m x" using ok(1) x by (simp add: multi_ok_parts)
    then show ?thesis unfolding placed_def same(5) easy(1) [OF False] using elems n by blast
  qed (simp add: place)
  moreover have "bset_elems (pending m') \<union> bset_elems (msgsent m') \<subseteq> mid_of m ` user_xfers m"
  proof -
    have "bset_elems (pending m) \<union> bset_elems (msgsent m) \<subseteq> mid_of m ` user_xfers m" using ok(1) by (simp add: multi_ok_parts)
    moreover have "mid_of m d \<in> mid_of m ` user_xfers m" using ok(2) by (rule imageI)
    ultimately show ?thesis using elems by blast
  qed
  ultimately have s: "sets_ok m'" unfolding sets_ok_def usr room' same(3,5) using room ok(1) by (auto simp: multi_ok_parts)
  have "times_ok m'" using times by (simp add: times_ok_def mem)
  moreover have "counts_ok g m'"
  proof -
    have c: "xfers_alive m = (card (live m) + g) mod 2 ^ 32" "xfers_really_alive m = card (really_live m)"
      using ok(1) by (simp_all add: multi_ok_parts)
    have f: "finite (live m)" "finite (really_live m)" "card (live m) \<le> UINT32_MAX" "card (really_live m) \<le> UINT32_MAX"
      "card (really_live m') \<le> UINT32_MAX"
      using live_finite [OF t] live_finite [OF t'] by simp_all
    have l: "live m' = (if state_of m' d = MSTATE_MSGSENT then live m - {d} else live m)"
      using easy(1) alive(1) ok(2) unfolding live_def usr by (auto; metis)
    have dl: "d \<in> live m \<longleftrightarrow> state_of m d \<noteq> MSTATE_MSGSENT" using ok(2) by (simp add: live_def)
    then have 1: "xfers_alive m' = (card (live m') + g) mod 2 ^ 32"
      unfolding l alive(2) c(1) using f dec32_card [of "card (live m)" g] by (auto simp: card_gt_0_iff)
    have rl: "really_live m' = (if really_alive (easy m' d) then insert d (really_live m) else really_live m - {d})"
      using easy(1) dm unfolding really_live_def mem by (auto; metis)
    have dr: "d \<in> really_live m \<longleftrightarrow> really_alive (easy m d)" using dm by (simp add: really_live_def)
    have "xfers_really_alive m' = card (really_live m')"
    proof (cases "really_alive (easy m' d) = really_alive (easy m d)")
      case True
      then have "really_live m' = really_live m" using rl dr by auto
      then show ?thesis using really True c(2) by simp
    next
      case False
      show ?thesis
      proof (cases "really_alive (easy m' d)")
        case True
        then have "card (really_live m') = Suc (card (really_live m))" using rl dr False f(2) by simp
        then show ?thesis using really True False c(2) f(5) by (simp add: inc32_def UINT32_MAX_def)
      next
        case F: False
        then have "card (really_live m') = card (really_live m) - 1" "0 < card (really_live m)"
          using rl dr False f(2) by (auto simp: card_gt_0_iff)
        then show ?thesis using really F False c(2) f(4) by (simp add: dec32_pos)
      qed
    qed
    then show ?thesis using 1 by (simp add: counts_ok_def)
  qed
  moreover have "msgs_ok m'"
  proof -
    have "x \<in> user_xfers m \<and> state_of m' x = MSTATE_MSGSENT" if "x \<in> fst ` set (msglist m')" for x
      using msgs(2) [OF that] ok easy(1) [of x] alive(1) unfolding multi_ok_def msgs_ok_def by (metis (full_types))
    then show ?thesis using msgs(1) by (simp add: msgs_ok_def usr)
  qed
  ultimately show ?thesis using t' s mem usr by (simp add: multi_ok_def)
qed

section \<open>Timers\<close>

text \<open>A change of the timers that leaves the membership alone and sets no timer for an outsider.\<close>

definition tim_keeps :: "multi_timers \<Rightarrow> multi_timers \<Rightarrow> bool" where
  "tim_keeps t t' \<longleftrightarrow> timers_ok t' \<and> nslots (dirty t') = nslots (dirty t)
     \<and> (\<forall>x. in_multi (easies t' x) = in_multi (easies t x) \<and> mid (easies t' x) = mid (easies t x)
          \<and> (\<not> in_multi (easies t x) \<longrightarrow> expiretime (easies t' x) = expiretime (easies t x)))"

lemma tim_keeps_refl: "timers_ok t \<Longrightarrow> tim_keeps t t"
  by (simp add: tim_keeps_def)

lemma tim_keeps_trans: "tim_keeps t u \<Longrightarrow> tim_keeps u v \<Longrightarrow> tim_keeps t v"
  by (simp add: tim_keeps_def)

lemma tim_keeps_clear: "timers_ok t \<Longrightarrow> tim_keeps t (Curl_expire_clear t d)"
  using expire_clear_ok [of t d] unfolding tim_keeps_def by (auto simp: Curl_expire_clear_eq upd_easy_def)

lemma tim_keeps_expire:
  assumes "timers_ok t" and "time_ok now" and "now \<noteq> tv_zero" and "0 \<le> milli" and "tv_sec now + milli < 2 ^ 61"
  shows "tim_keeps t (Curl_expire now t d milli eid)"
  using expire_ex_ok [OF assms] unfolding tim_keeps_def
  by (auto simp: Curl_expire_def Curl_expire_ex_def upd_easy_def Let_def)

lemma tim_keeps_expire_done: "timers_ok t \<Longrightarrow> tim_keeps t (Curl_expire_done t d eid)"
  using expire_done_ok [of t d eid] unfolding tim_keeps_def by (auto simp: Curl_expire_done_def upd_easy_def)

lemma tim_keeps_mark: "timers_ok t \<Longrightarrow> tim_keeps t (Curl_multi_mark_dirty t d)"
  using mark_dirty_facts [of t "Curl_multi_mark_dirty t d" d] by (simp add: tim_keeps_def)

lemma tim_keeps_dirty: "timers_ok t \<Longrightarrow> bset_ok b \<Longrightarrow> nslots b = nslots (dirty t) \<Longrightarrow> tim_keeps t (t\<lparr>dirty := b\<rparr>)"
  by (simp add: tim_keeps_def timers_ok_def)

lemma nslots_remove [simp]: "nslots (Curl_uint32_bset_remove b i) = nslots b"
  by (simp add: Curl_uint32_bset_remove_def Let_def)

lemma tim_keeps_undirty: "timers_ok t \<Longrightarrow> tim_keeps t (t\<lparr>dirty := Curl_uint32_bset_remove (dirty t) i\<rparr>)"
  using bset_remove_ok [of "dirty t" i] by (intro tim_keeps_dirty) (simp_all add: timers_ok_def)

lemma multi_ok_tim:
  assumes "multi_ok g m" and "tim_keeps (tim m) t"
  shows "multi_ok g (m\<lparr>tim := t\<rparr>) \<and> members (m\<lparr>tim := t\<rparr>) = members m \<and> user_xfers (m\<lparr>tim := t\<rparr>) = user_xfers m"
proof -
  let ?m = "m\<lparr>tim := t\<rparr>"
  have k: "timers_ok t" "nslots (dirty t) = nslots (dirty (tim m))"
    "\<And>x. in_multi (easies t x) = in_multi (timers_of m x)" "\<And>x. mid (easies t x) = mid_of m x"
    "\<And>x. \<not> in_multi (timers_of m x) \<Longrightarrow> expiretime (easies t x) = expiretime (timers_of m x)"
    using assms(2) by (simp_all add: tim_keeps_def)
  have mem: "members ?m = members m" by (simp add: members_def k(3))
  have usr: "user_xfers ?m = user_xfers m" by (simp add: user_xfers_def mem)
  have "table_ok ?m" using assms(1) by (simp add: multi_ok_def table_ok_def mem k(4))
  moreover have "bset_ok (dirty t)" using k(1) by (simp add: timers_ok_def)
  then have "sets_ok ?m" using assms(1) by (simp add: multi_ok_def sets_ok_def usr roomy_def placed_def k(2,4))
  moreover have "times_ok ?m" using assms(1) k(1,5) by (simp add: multi_ok_def times_ok_def mem) (simp add: members_def)
  moreover have "counts_ok g ?m" using assms(1) by (simp add: multi_ok_def counts_ok_def live_def really_live_def mem usr)
  moreover have "msgs_ok ?m" using assms(1) by (simp add: multi_ok_def msgs_ok_def usr)
  ultimately show ?thesis using mem usr by (simp add: multi_ok_def)
qed

section \<open>Moving one transfer\<close>

definition at :: "nat \<Rightarrow> Curl_multi \<Rightarrow> nat \<Rightarrow> CURLMstate set \<Rightarrow> bool" where
  "at g m d S \<longleftrightarrow> multi_ok g m \<and> d \<in> user_xfers m \<and> state_of m d \<in> S"

abbreviation running :: "CURLMstate set" where
  "running \<equiv> {st. active st}"

lemma at_mono: "at g m d S \<Longrightarrow> S \<subseteq> T \<Longrightarrow> at g m d T"
  by (auto simp: at_def)

lemma ok_timers: "multi_ok g m \<Longrightarrow> timers_ok (tim m)"
  by (simp add: multi_ok_def times_ok_def)

lemma multi_ok_irrelevant [simp]:
  "multi_ok g (m\<lparr>in_callback := b\<rparr>) = multi_ok g m"
  "multi_ok g (m\<lparr>recheckstate := b\<rparr>) = multi_ok g m" "multi_ok g (m\<lparr>app := a\<rparr>) = multi_ok g m"
  "multi_ok g (m\<lparr>xfers_total_ever := n\<rparr>) = multi_ok g m" "multi_ok g (m\<lparr>multi_magic := b\<rparr>) = multi_ok g m"
  "multi_ok g (m\<lparr>in_ntfy_callback := b\<rparr>) = multi_ok g m"
  by (simp_all add: multi_ok_parts members_def user_xfers_def live_def really_live_def roomy_def placed_def)

lemma members_irrelevant [simp]:
  "members (m\<lparr>last_pending_mid := i\<rparr>) = members m" "members (m\<lparr>in_callback := b\<rparr>) = members m"
  "members (m\<lparr>in_ntfy_callback := b\<rparr>) = members m" "user_xfers (m\<lparr>in_ntfy_callback := b\<rparr>) = user_xfers m"
  "members (m\<lparr>recheckstate := b\<rparr>) = members m" "members (m\<lparr>app := a\<rparr>) = members m"
  "user_xfers (m\<lparr>last_pending_mid := i\<rparr>) = user_xfers m" "user_xfers (m\<lparr>in_callback := b\<rparr>) = user_xfers m"
  "user_xfers (m\<lparr>recheckstate := b\<rparr>) = user_xfers m" "user_xfers (m\<lparr>app := a\<rparr>) = user_xfers m"
  by (simp_all add: members_def user_xfers_def)

lemma at_irrelevant [simp]:
  "at g (m\<lparr>in_callback := b\<rparr>) d S = at g m d S"
  "at g (m\<lparr>recheckstate := b\<rparr>) d S = at g m d S" "at g (m\<lparr>app := a\<rparr>) d S = at g m d S"
  by (simp_all add: at_def)

lemma at_last_pending: "at g m d S \<Longrightarrow> i < UINT32_MAX \<Longrightarrow> at g (m\<lparr>last_pending_mid := i\<rparr>) d S"
  by (simp add: at_def multi_ok_parts live_def really_live_def roomy_def placed_def)

lemma at_tim: "at g m d S \<Longrightarrow> tim_keeps (tim m) t \<Longrightarrow> at g (m\<lparr>tim := t\<rparr>) d S"
  using multi_ok_tim [of g m t] by (simp add: at_def)

lemma at_facts:
  assumes "at g m d S"
  shows "multi_ok g m" and "d \<in> user_xfers m" and "state_of m d \<in> S" and "table_ok m" and "d \<in> members m"
    and "roomy m (process m)" and "roomy m (pending m)" and "roomy m (msgsent m)" and "roomy m (dirty (tim m))"
    and "placed m d" and "mid_of m d < nrows (xfers m)" and "timers_ok (tim m)" and "magic_ok (easy m d)"
    and "\<And>x. x \<notin> members m \<Longrightarrow> expiretime (timers_of m x) = tv_zero" and "distinct (map fst (msglist m))"
    and "mid_of m d < UINT32_MAX" and "last_pending_mid m < UINT32_MAX"
  using assms user_member(1) [of d m] mid_bound [of m d] unfolding at_def by (auto simp: multi_ok_parts)

lemma upd_xfer_simps [simp]:
  "easy (upd_xfer d f m) = (easy m)(d := f (easy m d))" "tim (upd_xfer d f m) = tim m" "xfers (upd_xfer d f m) = xfers m"
  "admin (upd_xfer d f m) = admin m" "process (upd_xfer d f m) = process m" "pending (upd_xfer d f m) = pending m"
  "msgsent (upd_xfer d f m) = msgsent m" "msglist (upd_xfer d f m) = msglist m" "xfers_alive (upd_xfer d f m) = xfers_alive m"
  "xfers_really_alive (upd_xfer d f m) = xfers_really_alive m" "app (upd_xfer d f m) = app m"
  "last_pending_mid (upd_xfer d f m) = last_pending_mid m" "recheckstate (upd_xfer d f m) = recheckstate m"
  "multi_magic (upd_xfer d f m) = multi_magic m" "in_callback (upd_xfer d f m) = in_callback m"
  "in_ntfy_callback (upd_xfer d f m) = in_ntfy_callback m"
  by (simp_all add: upd_xfer_def)

text \<open>A change of the transfer that keeps its state, or moves it between states that are processed.\<close>

lemma at_upd:
  assumes "at g m d S" and "magic_ok (f (easy m d)) = magic_ok (easy m d)"
    and "really_alive (f (easy m d)) = really_alive (easy m d)"
    and "mstate (f (easy m d)) = state_of m d \<or> active (state_of m d) \<and> active (mstate (f (easy m d)))"
  shows "at g (upd_xfer d f m) d {mstate (f (easy m d))}"
proof -
  note a = at_facts [OF assms(1)]
  have "active st \<Longrightarrow> st \<noteq> MSTATE_MSGSENT \<and> st \<noteq> MSTATE_PENDING" for st by (simp add: active_def)
  then have p: "placed (upd_xfer d f m) d" "state_of m d = MSTATE_MSGSENT \<Longrightarrow> mstate (f (easy m d)) = MSTATE_MSGSENT"
    "mstate (f (easy m d)) = MSTATE_MSGSENT \<Longrightarrow> state_of m d = MSTATE_MSGSENT"
    using a(10) assms(4) by (auto simp: placed_def)
  have "multi_ok g (upd_xfer d f m) \<and> members (upd_xfer d f m) = members m \<and> user_xfers (upd_xfer d f m) = user_xfers m"
    by (rule multi_ok_change [OF a(1,2)]) (use a p assms(2,3) in auto)
  then show ?thesis using a(2) by (simp add: at_def)
qed

lemma at_detach: "at g m d S \<Longrightarrow> at g (Curl_detach_connection m d) d {state_of m d}"
  using at_upd [of g m d S "has_conn_update (\<lambda>_. False)"] by (simp add: Curl_detach_connection_def)

lemma multistate_easy: "x \<noteq> d \<Longrightarrow> easy (multistate m d st) x = easy m x"
  by (simp add: multistate_def mstate_enter_completed_def Curl_detach_connection_def Let_def)

lemma multistate_same [simp]:
  "msgsent (multistate m d st) = msgsent m" "msglist (multistate m d st) = msglist m" "xfers (multistate m d st) = xfers m"
  "admin (multistate m d st) = admin m" "recheckstate (multistate m d st) = recheckstate m" "state_of (multistate m d st) d = st"
  "really_alive (easy (multistate m d st) d) = really_alive (easy m d)" "xfers_alive (multistate m d st) = xfers_alive m"
  "xfers_really_alive (multistate m d st) = xfers_really_alive m" "app (multistate m d st) = app m"
  "last_pending_mid (multistate m d st) = last_pending_mid m"
  by (simp_all add: multistate_def mstate_enter_completed_def Curl_detach_connection_def Let_def)

lemma at_multistate:
  assumes "at g m d running" and "active st"
  shows "at g (multistate m d st) d {st}"
proof -
  have "st \<noteq> MSTATE_COMPLETED" using assms(2) by (auto simp: active_def)
  moreover have "active (state_of m d)" using at_facts(3) [OF assms(1)] by simp
  ultimately show ?thesis
    using at_upd [OF assms(1), of "mstate_update (\<lambda>_. st)"] assms by (auto simp: multistate_def at_def)
qed

lemma at_completed:
  assumes "at g m d running"
  shows "at g (multistate m d MSTATE_COMPLETED) d {MSTATE_COMPLETED}"
proof -
  note a = at_facts [OF assms]
  have ac: "active (state_of m d)" using a(3) by simp
  let ?i = "mid_of m d" and ?m = "multistate m d MSTATE_COMPLETED"
  have st: "state_of m d \<noteq> MSTATE_COMPLETED" "state_of m d \<noteq> MSTATE_PENDING" "state_of m d \<noteq> MSTATE_MSGSENT"
    using ac by (auto simp: active_def)
  have m: "process ?m = Curl_uint32_bset_remove (process m) ?i" "pending ?m = Curl_uint32_bset_remove (pending m) ?i"
    "tim ?m = Curl_expire_clear (tim m) d"
    using st by (simp_all add: multistate_def mstate_enter_completed_def Curl_detach_connection_def Let_def)
  have tk: "tim_keeps (tim m) (tim ?m)" using tim_keeps_clear [OF a(12)] m(3) by simp
  have k: "\<And>x. in_multi (timers_of ?m x) = in_multi (timers_of m x)" "\<And>x. mid_of ?m x = mid_of m x" "timers_ok (tim ?m)"
    "\<And>x. x \<notin> members m \<Longrightarrow> expiretime (timers_of ?m x) = tv_zero" "roomy m (dirty (tim ?m))"
    using tk a(9,14) by (auto simp: tim_keeps_def members_def roomy_def timers_ok_def)
  have e: "easy ?m d = (easy m d)\<lparr>mstate := MSTATE_COMPLETED, has_conn := False\<rparr>"
    using st by (simp add: multistate_def mstate_enter_completed_def Curl_detach_connection_def Let_def)
  have p: "placed ?m d" using a(10) st unfolding placed_def k(2) m(1,2) e by (simp add: roomy_elems(1) [OF a(6)] roomy_elems(1) [OF a(7)] active_def)
  have "multi_ok g ?m \<and> members ?m = members m \<and> user_xfers ?m = user_xfers m"
    by (rule multi_ok_change [OF a(1,2)])
      (use a k p st e in \<open>simp_all add: m(1,2) multistate_easy roomy_elems(1) [OF a(6)] roomy_elems(1) [OF a(7)]\<close>)
  then show ?thesis using a(2) by (simp add: at_def)
qed

text \<open>A transfer that waits for a connection.\<close>

lemma at_to_pending:
  assumes "at g m d running"
  defines "m' \<equiv> (let m1 = multistate m d MSTATE_PENDING; i = mid_of m1 d in
    (set_dirty (Curl_uint32_bset_remove (dirty (tim m1)) i) m1)
      \<lparr>process := Curl_uint32_bset_remove (process m1) i, pending := snd (Curl_uint32_bset_add (pending m1) i)\<rparr>)"
  shows "at g m' d {MSTATE_PENDING}"
proof -
  note a = at_facts [OF assms(1)]
  have ac: "active (state_of m d)" using a(3) by simp
  have st: "state_of m d \<noteq> MSTATE_PENDING" "state_of m d \<noteq> MSTATE_MSGSENT" using ac by (auto simp: active_def)
  let ?i = "mid_of m d"
  have m: "process m' = Curl_uint32_bset_remove (process m) ?i" "pending m' = snd (Curl_uint32_bset_add (pending m) ?i)"
    "tim m' = (tim m)\<lparr>dirty := Curl_uint32_bset_remove (dirty (tim m)) ?i\<rparr>" "msgsent m' = msgsent m"
    "easy m' = (easy m)(d := (easy m d)\<lparr>mstate := MSTATE_PENDING\<rparr>)" "xfers m' = xfers m" "admin m' = admin m"
    "msglist m' = msglist m" "xfers_alive m' = xfers_alive m" "xfers_really_alive m' = xfers_really_alive m"
    "last_pending_mid m' = last_pending_mid m"
    using st by (simp_all add: m'_def multistate_def Let_def)
  have t: "timers_ok (tim m')" using tim_keeps_undirty [OF a(12)] m(3) by (simp add: tim_keeps_def)
  have p: "placed m' d" using a(10) st
    by (simp add: placed_def m roomy_elems(1) [OF a(6)] roomy_elems(2) [OF a(7,11)] active_def)
  have "multi_ok g m' \<and> members m' = members m \<and> user_xfers m' = user_xfers m"
    by (rule multi_ok_change [OF a(1,2)])
      (use a p st t in \<open>auto simp: m roomy_elems(1) [OF a(6)] roomy_elems(2) [OF a(7,11)]\<close>)
  then show ?thesis using a(2) by (simp add: at_def m(5))
qed

lemma at_from_pending:
  assumes "at g m d {MSTATE_PENDING}"
  shows "at g (move_pending_to_connect m d) d {MSTATE_CONNECT}"
proof -
  note a = at_facts [OF assms]
  have st: "state_of m d = MSTATE_PENDING" using a(3) by simp
  let ?i = "mid_of m d" and ?m = "move_pending_to_connect m d"
  have m: "pending ?m = Curl_uint32_bset_remove (pending m) ?i" "process ?m = snd (Curl_uint32_bset_add (process m) ?i)"
    "tim ?m = Curl_multi_mark_dirty (tim m) d" "msgsent ?m = msgsent m"
    "easy ?m = (easy m)(d := (easy m d)\<lparr>mstate := MSTATE_CONNECT\<rparr>)" "xfers ?m = xfers m" "admin ?m = admin m"
    "msglist ?m = msglist m" "xfers_alive ?m = xfers_alive m" "xfers_really_alive ?m = xfers_really_alive m"
    "last_pending_mid ?m = last_pending_mid m"
    using st by (simp_all add: move_pending_to_connect_def multi_mark_dirty_def multistate_def Let_def)
  have tk: "tim_keeps (tim m) (tim ?m)" using tim_keeps_mark [OF a(12)] m(3) by simp
  have k: "\<And>x. in_multi (timers_of ?m x) = in_multi (timers_of m x)" "\<And>x. mid_of ?m x = mid_of m x" "timers_ok (tim ?m)"
    "\<And>x. x \<notin> members m \<Longrightarrow> expiretime (timers_of ?m x) = tv_zero" "roomy m (dirty (tim ?m))"
    using tk a(9,14) by (auto simp: tim_keeps_def members_def roomy_def timers_ok_def)
  have p: "placed ?m d" using a(10) st unfolding placed_def k(2) m(1,2,4,5)
    by (simp add: roomy_elems(1) [OF a(7)] roomy_elems(2) [OF a(6,11)] active_def)
  have "multi_ok g ?m \<and> members ?m = members m \<and> user_xfers ?m = user_xfers m"
    by (rule multi_ok_change [OF a(1,2)])
      (use a k p st in \<open>auto simp: m(1,2,4-) roomy_elems(1) [OF a(7)] roomy_elems(2) [OF a(6,11)]\<close>)
  then show ?thesis using a(2) by (simp add: at_def m(5))
qed

section \<open>Releasing a waiting transfer\<close>

text \<open>
  The transfer that is released: the waiting one with the smallest identifier above the last one
  released, or with the smallest of all.
\<close>

definition next_pending :: "Curl_multi \<Rightarrow> nat \<Rightarrow> bool" where
  "next_pending m i \<longleftrightarrow>
     (if last_pending_mid m \<noteq> 0 \<and> (\<exists>k\<in>bset_elems (pending m). last_pending_mid m < k)
      then least_from (bset_elems (pending m)) (Suc (last_pending_mid m)) i
      else least_from (bset_elems (pending m)) 0 i)"

lemma pending_member:
  assumes "multi_ok g m" and "i \<in> bset_elems (pending m)"
  shows "\<exists>d. at g m d {MSTATE_PENDING} \<and> mid_of m d = i \<and> Curl_multi_get_easy m i = (Some d, m)"
proof -
  obtain d where d: "d \<in> user_xfers m" "mid_of m d = i" using assms by (auto simp: multi_ok_parts)
  then have "placed m d" "d \<in> members m" "table_ok m" using assms(1) user_member by (auto simp: multi_ok_parts)
  then show ?thesis using d assms get_easy_member [of m d] by (auto simp: at_def placed_def)
qed

definition released :: "nat \<Rightarrow> Curl_multi \<Rightarrow> Curl_multi" where
  "released d m = (move_pending_to_connect m d)\<lparr>last_pending_mid := mid_of m d\<rparr>"

lemma pending_scan_ok:
  assumes "multi_ok g m" and "i < UINT32_MAX"
  shows "if \<exists>k\<in>bset_elems (pending m). i < k
    then \<exists>d. at g m d {MSTATE_PENDING} \<and> least_from (bset_elems (pending m)) (Suc i) (mid_of m d)
      \<and> pending_scan (Suc fuel) m i = (True, released d m)
    else pending_scan (Suc fuel) m i = (False, m)"
proof -
  have b: "bset_ok (pending m)" using assms(1) by (simp add: multi_ok_parts roomy_def)
  obtain f n where nx: "Curl_uint32_bset_next (pending m) i = (f, n)" by (rule prod.exhaust)
  show ?thesis
  proof (cases f)
    case True
    then have l: "least_from (bset_elems (pending m)) (Suc i) n" using bset.next_found [OF b assms(2)] nx by simp
    then have n: "n \<in> bset_elems (pending m)" "i < n" by (auto simp: least_from_def)
    obtain d where d: "at g m d {MSTATE_PENDING}" "mid_of m d = n" "Curl_multi_get_easy m n = (Some d, m)"
      using pending_member [OF assms(1) n(1)] by blast
    then have "pending_scan (Suc fuel) m i = (True, released d m)" using nx True by (simp add: released_def)
    then show ?thesis using d l n by auto
  next
    case False
    then have "\<forall>k\<in>bset_elems (pending m). k \<le> i" using bset.next_none [OF b assms(2)] nx by simp
    then show ?thesis using nx False by (auto simp: not_less)
  qed
qed

text \<open>Releasing does not depend on where the search of the set starts.\<close>

definition scanned :: "uint32_bset \<Rightarrow> Curl_multi \<Rightarrow> Curl_multi" where
  "scanned b m = m\<lparr>last_pending_mid := 0, pending := b\<rparr>"

lemma ok_scanned:
  assumes "multi_ok g m" and "bset_ok b" and "bset_elems b = bset_elems (pending m)" and "nslots b = nslots (pending m)"
  shows "multi_ok g (scanned b m)"
  using assms by (simp add: scanned_def multi_ok_parts members_def user_xfers_def live_def really_live_def roomy_def placed_def UINT32_MAX_def)

lemma first_nslots: "Curl_uint32_bset_first b = (r, n, b') \<Longrightarrow> nslots b' = nslots b"
  by (auto simp: Curl_uint32_bset_first_def split: option.splits)

lemma process_pending_cases:
  assumes "multi_ok g m"
  obtains (none) b where "bset_elems (pending m) = {}" "process_pending_handles m = scanned b m" "multi_ok g (scanned b m)"
  | (direct) d where "at g m d {MSTATE_PENDING}" "next_pending m (mid_of m d)" "process_pending_handles m = released d m"
  | (scan) d b where "at g (scanned b m) d {MSTATE_PENDING}" "next_pending m (mid_of m d)" "process_pending_handles m = released d (scanned b m)"
      "bset_elems b = bset_elems (pending m)"
proof (cases "last_pending_mid m \<noteq> 0 \<and> (\<exists>k\<in>bset_elems (pending m). last_pending_mid m < k)")
  case True
  have "last_pending_mid m < UINT32_MAX" using assms by (simp add: multi_ok_parts)
  from pending_scan_ok [OF assms this, of UINT32_MAX] True obtain d where
    "at g m d {MSTATE_PENDING}" "least_from (bset_elems (pending m)) (Suc (last_pending_mid m)) (mid_of m d)"
    "pending_scan (Suc UINT32_MAX) m (last_pending_mid m) = (True, released d m)" by auto
  then show ?thesis using True by (intro direct) (simp_all add: next_pending_def process_pending_handles_def del: pending_scan.simps)
next
  case False
  have b: "bset_ok (pending m)" "last_pending_mid m < UINT32_MAX" using assms by (simp_all add: multi_ok_parts roomy_def)
  have s: "(if last_pending_mid m \<noteq> 0 then pending_scan (Suc UINT32_MAX) m (last_pending_mid m) else (False, m)) = (False, m)"
    using pending_scan_ok [OF assms b(2), of UINT32_MAX] False by (auto simp del: pending_scan.simps split: if_splits)
  obtain f n c where fs: "Curl_uint32_bset_first (pending m) = (f, n, c)" by (rule prod_cases3)
  note c = bset.first_state [OF b(1) fs] first_nslots [OF fs]
  then have ok: "multi_ok g (scanned c m)" using ok_scanned [OF assms] by simp
  have np: "next_pending m i \<longleftrightarrow> least_from (bset_elems (pending m)) 0 i" for i using False by (auto simp: next_pending_def)
  show ?thesis
  proof (cases f)
    case True
    then have l: "least_from (bset_elems (pending m)) 0 n" using bset.first_found [OF b(1)] fs by simp
    then have "n \<in> bset_elems (pending (scanned c m))" using c(1) by (simp add: least_from_def scanned_def)
    then obtain d where d: "at g (scanned c m) d {MSTATE_PENDING}" "mid_of (scanned c m) d = n"
        "Curl_multi_get_easy (scanned c m) n = (Some d, scanned c m)" using pending_member [OF ok] by blast
    then have e: "process_pending_handles m = released d (scanned c m)"
      unfolding process_pending_handles_def s using fs True by (simp add: scanned_def released_def Let_def del: pending_scan.simps)
    have "mid_of m d = n" using d(2) by (simp add: scanned_def)
    then show ?thesis using scan [OF d(1) _ e] np l c(1) by blast
  next
    case False
    then have "bset_elems (pending m) = {}" using bset.first_none [OF b(1)] fs by simp
    moreover have "process_pending_handles m = scanned c m"
      unfolding process_pending_handles_def s using fs False by (simp add: scanned_def)
    ultimately show ?thesis using none ok by blast
  qed
qed

section \<open>Work on one transfer\<close>

text \<open>
  What the code may do to the others while it works on \<open>d\<close>: release one that waits.  No other
  transfer leaves the processed ones, and none comes or goes.
\<close>

definition frame :: "nat \<Rightarrow> Curl_multi \<Rightarrow> Curl_multi \<Rightarrow> bool" where
  "frame d m m' \<longleftrightarrow> members m' = members m \<and> admin m' = admin m \<and> (\<forall>x. mid_of m' x = mid_of m x)
     \<and> nrows (xfers m') = nrows (xfers m) \<and> multi_magic m' = multi_magic m \<and> in_callback m' = in_callback m
     \<and> bset_elems (process m) - {mid_of m d} \<subseteq> bset_elems (process m')
     \<and> (\<forall>x. x \<noteq> d \<and> state_of m x \<noteq> MSTATE_PENDING \<longrightarrow> easy m' x = easy m x)"

lemma frame_refl [simp]: "frame d m m"
  by (auto simp: frame_def)

lemma frame_trans: "frame d m m' \<Longrightarrow> frame d m' m'' \<Longrightarrow> frame d m m''"
  unfolding frame_def by (auto; metis)

definition reach :: "nat \<Rightarrow> nat \<Rightarrow> Curl_multi \<Rightarrow> Curl_multi \<Rightarrow> CURLMstate set \<Rightarrow> bool" where
  "reach g d m m' S \<longleftrightarrow> at g m' d S \<and> frame d m m'"

lemma reach_start: "at g m d S \<Longrightarrow> reach g d m m S"
  by (simp add: reach_def)

lemma reach_mono: "reach g d m m' S \<Longrightarrow> S \<subseteq> T \<Longrightarrow> reach g d m m' T"
  using at_mono by (auto simp: reach_def)

lemma reach_step: "reach g d m m' S \<Longrightarrow> (at g m' d S \<Longrightarrow> at g m'' d T \<and> frame d m' m'') \<Longrightarrow> reach g d m m'' T"
  using frame_trans by (auto simp: reach_def)

lemma frame_irrelevant [simp]:
  "frame d m (m'\<lparr>last_pending_mid := i\<rparr>) = frame d m m'" "frame d m (m'\<lparr>recheckstate := b\<rparr>) = frame d m m'"
  "frame d m (m'\<lparr>app := a\<rparr>) = frame d m m'"
  by (simp_all add: frame_def members_def)

lemma frame_tim: "tim_keeps (tim m) t \<Longrightarrow> frame d m (m\<lparr>tim := t\<rparr>)"
  by (auto simp: frame_def members_def tim_keeps_def)

lemma frame_upd: "frame d m (upd_xfer d f m)"
  by (auto simp: frame_def members_def upd_xfer_def)

lemma frame_move: "multi_ok g m \<Longrightarrow> at g m x {MSTATE_PENDING} \<Longrightarrow> frame d m (released x m)"
proof -
  assume a: "at g m x {MSTATE_PENDING}"
  have "tim_keeps (tim m) (Curl_multi_mark_dirty (tim m) x)" using tim_keeps_mark at_facts(12) [OF a] .
  moreover have "bset_elems (process m) \<subseteq> bset_elems (snd (Curl_uint32_bset_add (process m) (mid_of m x)))"
    using roomy_elems(2) [OF at_facts(6) [OF a] at_facts(11) [OF a]] by auto
  ultimately show ?thesis using at_facts(3) [OF a]
    by (auto simp: frame_def released_def move_pending_to_connect_def multi_mark_dirty_def multistate_def members_def tim_keeps_def Let_def)
qed

lemma frame_scanned [simp]: "frame d m (scanned b m)"
  by (auto simp: frame_def scanned_def members_def)

lemma ok_released: "at g m x {MSTATE_PENDING} \<Longrightarrow> multi_ok g (released x m)"
  unfolding released_def using at_last_pending [OF at_from_pending at_facts(16)] at_facts(1) by blast

lemma process_pending_ok:
  assumes "multi_ok g m"
  shows "multi_ok g (process_pending_handles m) \<and> frame d m (process_pending_handles m)
    \<and> (state_of m d \<noteq> MSTATE_PENDING \<longrightarrow> easy (process_pending_handles m) d = easy m d)"
  using assms
proof (cases rule: process_pending_cases)
  case (none b)
  then show ?thesis by (simp add: scanned_def [of b m]) (metis frame_scanned scanned_def)
next
  case (direct x)
  have "state_of m d \<noteq> MSTATE_PENDING \<Longrightarrow> x \<noteq> d" using at_facts(3) [OF direct(1)] by auto
  then show ?thesis using ok_released [OF direct(1)] frame_move [OF assms direct(1)] direct(3)
    by (auto simp: released_def move_pending_to_connect_def multi_mark_dirty_def multistate_def Let_def)
next
  case (scan x b)
  have ok: "multi_ok g (scanned b m)" using scan(1) by (simp add: at_def)
  have "state_of m d \<noteq> MSTATE_PENDING \<Longrightarrow> x \<noteq> d" using at_facts(3) [OF scan(1)] by (auto simp: scanned_def)
  then have "state_of m d \<noteq> MSTATE_PENDING \<Longrightarrow> easy (released x (scanned b m)) d = easy m d"
    by (simp add: released_def move_pending_to_connect_def multi_mark_dirty_def multistate_def scanned_def Let_def)
  moreover have "frame d m (released x (scanned b m))" by (rule frame_trans [OF frame_scanned frame_move [OF ok scan(1)]])
  ultimately show ?thesis using ok_released [OF scan(1)] scan(3) by simp
qed

lemma at_pending:
  assumes "at g m d S" and "state_of m d \<noteq> MSTATE_PENDING"
  shows "at g (process_pending_handles m) d {state_of m d} \<and> frame d m (process_pending_handles m)
    \<and> easy (process_pending_handles m) d = easy m d"
proof -
  note p = process_pending_ok [OF at_facts(1) [OF assms(1)], of d]
  then have "user_xfers (process_pending_handles m) = user_xfers m" by (simp add: frame_def user_xfers_def)
  then show ?thesis using p assms by (simp add: at_def)
qed

lemma frame_multistate: "at g m d running \<Longrightarrow> frame d m (multistate m d st)"
proof -
  assume a: "at g m d running"
  have t: "tim_keeps (tim m) (Curl_expire_clear (tim m) d)" using tim_keeps_clear at_facts(12) [OF a] .
  show ?thesis
  proof (cases "st = MSTATE_COMPLETED \<and> state_of m d \<noteq> st")
    case True
    then show ?thesis using t roomy_elems(1) [OF at_facts(6) [OF a]]
      by (auto simp: multistate_def mstate_enter_completed_def Curl_detach_connection_def frame_def members_def tim_keeps_def Let_def upd_xfer_def)
  next
    case False
    then have "multistate m d st = (if state_of m d = st then m else upd_xfer d (mstate_update (\<lambda>_. st)) m)"
      by (auto simp: multistate_def Let_def)
    then show ?thesis using frame_upd by simp
  qed
qed

lemma reach_multistate:
  "reach g d m m' running \<Longrightarrow> active st \<Longrightarrow> st \<in> S \<Longrightarrow> reach g d m (multistate m' d st) S"
  by (rule reach_step) (auto intro: frame_multistate at_mono [OF at_multistate])

lemma reach_completed:
  "reach g d m m' running \<Longrightarrow> MSTATE_COMPLETED \<in> S \<Longrightarrow> reach g d m (multistate m' d MSTATE_COMPLETED) S"
  by (rule reach_step) (auto intro: frame_multistate at_mono [OF at_completed])

lemma reach_pending_handles: "reach g d m m' running \<Longrightarrow> reach g d m (process_pending_handles m') running"
proof (rule reach_step, assumption)
  assume a: "at g m' d running"
  then have "state_of m' d \<noteq> MSTATE_PENDING" "active (state_of m' d)" using at_facts(3) [OF a] by (auto simp: active_def)
  then show "at g (process_pending_handles m') d running \<and> frame d m' (process_pending_handles m')"
    using at_pending [OF a] at_mono by auto
qed

lemma reach_upd:
  assumes "reach g d m m' running" and "\<And>e. magic_ok (f e) = magic_ok e" "\<And>e. really_alive (f e) = really_alive e" "\<And>e. mstate (f e) = mstate e"
  shows "reach g d m (upd_xfer d f m') running"
  using assms(1)
proof (rule reach_step)
  assume a: "at g m' d running"
  then have "active (state_of m' d)" using at_facts(3) [OF a] by simp
  then show "at g (upd_xfer d f m') d running \<and> frame d m' (upd_xfer d f m')"
    using at_upd [OF a, of f] assms(2-) frame_upd by (auto intro: at_mono)
qed

lemma reach_tim: "reach g d m m' S \<Longrightarrow> (timers_ok (tim m') \<Longrightarrow> tim_keeps (tim m') t) \<Longrightarrow> reach g d m (m'\<lparr>tim := t\<rparr>) S"
  by (rule reach_step) (auto intro: at_tim frame_tim at_facts(12))

lemma reach_recheck [simp]: "reach g d m (m'\<lparr>recheckstate := b\<rparr>) S = reach g d m m' S"
  by (simp add: reach_def)

lemma reach_done: "reach g d m m' running \<Longrightarrow> reach g d m (snd (multi_done out m' d status prem)) running"
  by (auto simp: multi_done_def multi_done_locked_def Curl_detach_connection_def Let_def intro!: reach_upd reach_pending_handles)

section \<open>Finished transfers\<close>

lemma get_easy_ok:
  assumes "multi_ok g m"
  shows "multi_ok g (snd (Curl_multi_get_easy m i)) \<and> frame d m (snd (Curl_multi_get_easy m i))
    \<and> easy (snd (Curl_multi_get_easy m i)) = easy m \<and> user_xfers (snd (Curl_multi_get_easy m i)) = user_xfers m"
proof -
  have t: "table_ok m" using assms(1) by (simp add: multi_ok_def)
  from get_easy_cases [OF t, of i] show ?thesis
  proof (elim disjE bexE conjE exE)
    fix u assume u: "Curl_multi_get_easy m i = (None, m\<lparr>xfers := u\<rparr>)" "tbl_inv u" "nrows u = nrows (xfers m)" "tbl_map u = tbl_map (xfers m)"
    then show ?thesis using assms(1)
      by (simp add: multi_ok_parts members_def user_xfers_def live_def really_live_def roomy_def placed_def frame_def)
  qed (use assms(1) in simp)
qed

definition sent :: "Curl_multi \<Rightarrow> nat \<Rightarrow> Curl_multi" where
  "sent m d =
     (let i = mid_of m d;
          m3 = (set_dirty (Curl_uint32_bset_remove (dirty (tim m)) i) (multistate m d MSTATE_MSGSENT))
                 \<lparr>process := Curl_uint32_bset_remove (process m) i, pending := Curl_uint32_bset_remove (pending m) i,
                  msgsent := snd (Curl_uint32_bset_add (msgsent m) i)\<rparr>;
          m4 = (if really_alive (easy m3 d)
                then (upd_xfer d (really_alive_update (\<lambda>_. False)) m3)\<lparr>xfers_really_alive := dec32 (xfers_really_alive m3)\<rparr>
                else m3)
      in m4\<lparr>xfers_alive := dec32 (xfers_alive m4)\<rparr>)"

text \<open>The part common to both kinds of transfers, with the message that may have been added.\<close>

lemma at_sent:
  assumes a0: "at g m d {MSTATE_COMPLETED}" and ms: "ms = msglist m \<or> ms = msglist m @ [(d, result)]"
  shows "at g (sent (m\<lparr>msglist := ms\<rparr>) d) d {MSTATE_MSGSENT} \<and> frame d m (sent (m\<lparr>msglist := ms\<rparr>) d)
    \<and> msglist (sent (m\<lparr>msglist := ms\<rparr>) d) = ms"
proof -
  note a = at_facts [OF a0]
  have st: "state_of m d = MSTATE_COMPLETED" using a(3) by simp
  let ?i = "mid_of m d" and ?m = "sent (m\<lparr>msglist := ms\<rparr>) d"
  have m: "process ?m = Curl_uint32_bset_remove (process m) ?i" "pending ?m = Curl_uint32_bset_remove (pending m) ?i"
    "msgsent ?m = snd (Curl_uint32_bset_add (msgsent m) ?i)" "tim ?m = (tim m)\<lparr>dirty := Curl_uint32_bset_remove (dirty (tim m)) ?i\<rparr>"
    "easy ?m = (easy m)(d := (easy m d)\<lparr>mstate := MSTATE_MSGSENT, really_alive := False\<rparr>)" "xfers ?m = xfers m" "admin ?m = admin m"
    "msglist ?m = ms" "xfers_alive ?m = dec32 (xfers_alive m)" "last_pending_mid ?m = last_pending_mid m"
    "xfers_really_alive ?m = (if really_alive (easy m d) then dec32 (xfers_really_alive m) else xfers_really_alive m)"
    "multi_magic ?m = multi_magic m" "in_callback ?m = in_callback m"
    using st by (auto simp: sent_def multistate_def Let_def fun_eq_iff intro!: Curl_easy.equality)
  have t: "timers_ok (tim ?m)" using tim_keeps_undirty [OF a(12)] m(4) by (simp add: tim_keeps_def)
  have p: "placed ?m d" using st
    by (simp add: placed_def m roomy_elems(1) [OF a(6)] roomy_elems(1) [OF a(7)] roomy_elems(2) [OF a(8,11)] active_def)
  have nd: "d \<notin> fst ` set (msglist m)" using a(1) st by (auto simp: multi_ok_parts)
  have d: "distinct (map fst ms)" using ms a(15) nd by (auto simp: image_iff)
  have "multi_ok g ?m \<and> members ?m = members m \<and> user_xfers ?m = user_xfers m"
    by (rule multi_ok_change [OF a(1,2)])
      (use a p st t d ms in \<open>auto simp: m roomy_elems(1) [OF a(6)] roomy_elems(1) [OF a(7)] roomy_elems(2) [OF a(8,11)] image_iff\<close>)
  then show ?thesis using a(2) roomy_elems(1) [OF a(6)] by (auto simp: at_def m frame_def members_def)
qed

lemma at_handle_completed:
  assumes "at g m d {MSTATE_COMPLETED}"
  shows "at g (handle_completed m d result) d {MSTATE_MSGSENT} \<and> frame d m (handle_completed m d result)
    \<and> (master_mid (easy m d) = UINT32_MAX \<longrightarrow> msglist (handle_completed m d result) = msglist m @ [(d, result)])"
proof -
  have mid: "mid_of (multistate x d MSTATE_MSGSENT) y = mid_of x y" for x y by (simp add: multistate_def)
  have e: "handle_completed m d result =
      sent (if master_mid (easy m d) \<noteq> UINT32_MAX then snd (Curl_multi_get_easy m (master_mid (easy m d)))
            else m\<lparr>msglist := msglist m @ [(d, result)]\<rparr>) d"
    unfolding handle_completed_def sent_def Let_def mid by (simp add: multistate_def Let_def)
  show ?thesis
  proof (cases "master_mid (easy m d) = UINT32_MAX")
    case True
    then show ?thesis using e at_sent [OF assms(1), of "msglist m @ [(d, result)]" result] by simp
  next
    case False
    let ?m = "snd (Curl_multi_get_easy m (master_mid (easy m d)))"
    have g: "at g ?m d {MSTATE_COMPLETED}" "frame d m ?m"
      using get_easy_ok [OF at_facts(1) [OF assms], of "master_mid (easy m d)" d] assms(1) by (simp_all add: at_def)
    then show ?thesis using e False at_sent [OF g(1), of "msglist ?m" result] frame_trans [OF g(2)] by simp
  qed
qed

section \<open>The timer callback\<close>

lemma dirties_loop_nslots: "dirties_loop found proc fuel ds n = Some (b, ds') \<Longrightarrow> nslots ds' = nslots ds"
  by (induction fuel arbitrary: ds n) (auto simp: Let_def split: if_splits prod.splits bool.splits)

lemma check_dirties_ok:
  assumes "multi_ok g m" and "multi_check_dirties m = (b, m')"
  shows "\<exists>ds. m' = set_dirty ds m \<and> tim_keeps (tim m) ((tim m)\<lparr>dirty := ds\<rparr>)
    \<and> (b \<longleftrightarrow> (\<exists>d\<in>members m. mid_of m d \<in> bset_elems (dirty (tim m)) \<inter> bset_elems (process m)))"
proof -
  let ?f = "\<lambda>i. fst (Curl_multi_get_easy m i) \<noteq> None"
  have ok: "bset_ok (dirty (tim m))" "bset_ok (process m)" "timers_ok (tim m)" "table_ok m"
    using assms(1) by (simp_all add: multi_ok_parts roomy_def)
  obtain c ds where h: "multi_has_dirties ?f (process m) (dirty (tim m)) = Some (c, ds)" "bset_ok ds"
      "c \<longleftrightarrow> (\<exists>k\<in>bset_elems (dirty (tim m)). ?f k \<and> k \<in> bset_elems (process m))"
    using has_dirties_exact [OF ok(2,1), of ?f] by blast
  have "nslots ds = nslots (dirty (tim m))"
    using h(1) dirties_loop_nslots by (auto simp: multi_has_dirties_def first_nslots simp del: dirties_loop.simps split: prod.splits bool.splits)
  then have "tim_keeps (tim m) ((tim m)\<lparr>dirty := ds\<rparr>)" using tim_keeps_dirty [OF ok(3) h(2)] by simp
  moreover have "?f k \<longleftrightarrow> k \<in> mid_of m ` members m" if "k \<in> bset_elems (dirty (tim m))" for k
    using get_easy_cases [OF ok(4), of k] by fastforce
  then have "c \<longleftrightarrow> (\<exists>d\<in>members m. mid_of m d \<in> bset_elems (dirty (tim m)) \<inter> bset_elems (process m))" using h(3) by blast
  ultimately show ?thesis using assms(2) h(1) by (auto simp: multi_check_dirties_def)
qed

lemma multi_timeout_keeps:
  assumes "timers_ok t" and "multi_timeout dead b now t = (et, ms, t')" shows "tim_keeps t t' \<and> easies t' = easies t"
proof (cases "\<not> dead \<and> \<not> b \<and> root (timetree t) \<noteq> Tip")
  case True
  then obtain s k rg la where n: "Curl_splay tv_zero (root (timetree t)) = Node s k rg la" by (metis Curl_tree.exhaust splay_Tip)
  let ?tr = "(timetree t)\<lparr>root := Node s k rg la\<rparr>"
  have t': "t' = t\<lparr>timetree := ?tr\<rparr>" using assms(2) True n by (auto simp: multi_timeout_def)
  have "groups (root ?tr) = groups (root (timetree t))" "keys_ok (root ?tr) = keys_ok (root (timetree t))"
    using n by (metis groups_splay splay.select_convs(1) splay.surjective splay.update_convs(1),
        metis keys_ok_splay splay.select_convs(1) splay.surjective splay.update_convs(1))
  then have "timers ?tr = timers (timetree t)" "splay_ok ?tr = splay_ok (timetree t)"
    by (simp_all add: timers_def splay_ok_def)
  then show ?thesis using assms(1) by (simp add: t' tim_keeps_def timers_ok_def easy_ok_def)
next
  case False
  then have "t' = t" using assms(2) by (auto simp: multi_timeout_def split: if_splits)
  then show ?thesis using tim_keeps_refl [OF assms(1)] by simp
qed

lemma Curl_update_timer_keeps:
  assumes "timers_ok t" and "Curl_update_timer cb b now a t = (code, told, a', t')"
  shows "tim_keeps t t' \<and> easies t' = easies t \<and> (code = CURLM_OK \<or> code = CURLM_ABORTED_BY_CALLBACK \<and> multi_dead a')"
proof (cases "cb = None \<or> multi_dead a")
  case False
  then obtain f where cb: "cb = Some f" by auto
  obtain et ms t1 where m: "multi_timeout False b now t = (et, ms, t1)" by (rule prod_cases3)
  have "t' = t1" "code = CURLM_OK \<or> code = CURLM_ABORTED_BY_CALLBACK \<and> multi_dead a'"
    using assms(2) False cb m by (auto simp: Curl_update_timer_def Let_def split: if_splits)
  then show ?thesis using multi_timeout_keeps [OF assms(1) m] by simp
qed (use assms tim_keeps_refl in \<open>auto simp: Curl_update_timer_def split: option.splits\<close>)

lemma update_timer_ok:
  assumes "multi_ok g m" and "update_timer cb now m = (code, m')"
  shows "\<exists>a t. m' = m\<lparr>app := a, tim := t\<rparr> \<and> tim_keeps (tim m) t \<and> multi_ok g m' \<and> frame d m m'
    \<and> easies t = easies (tim m) \<and> (code = CURLM_OK \<or> code = CURLM_ABORTED_BY_CALLBACK \<and> multi_dead a)"
proof (cases "cb = None \<or> multi_dead (app m)")
  case True
  then have "m' = m\<lparr>app := app m, tim := tim m\<rparr>" "m' = m" "code = CURLM_OK" using assms(2) by (simp_all add: update_timer_def)
  then show ?thesis using assms(1) tim_keeps_refl [OF ok_timers] by (metis frame_refl)
next
  case False
  obtain b m1 where c: "multi_check_dirties m = (b, m1)" by (rule prod.exhaust)
  then obtain ds where m1: "m1 = set_dirty ds m" "tim_keeps (tim m) ((tim m)\<lparr>dirty := ds\<rparr>)"
    using check_dirties_ok [OF assms(1)] by blast
  obtain told a t where u: "Curl_update_timer cb b now (app m1) (tim m1) = (code, told, a, t)" "m' = m1\<lparr>app := a, tim := t\<rparr>"
    using assms(2) False c by (auto simp: update_timer_def split: prod.splits)
  have "timers_ok (tim m1)" using m1 by (simp add: tim_keeps_def)
  note k = Curl_update_timer_keeps [OF this u(1)]
  then have t: "tim_keeps (tim m) t" "easies t = easies (tim m)" using tim_keeps_trans [OF m1(2)] m1(1) by simp_all
  have e: "m' = m\<lparr>app := a, tim := t\<rparr>" using u(2) m1(1) by simp
  moreover have "m\<lparr>app := a, tim := t\<rparr> = (m\<lparr>tim := t\<rparr>)\<lparr>app := a\<rparr>" by simp
  ultimately have "multi_ok g m'" "frame d m m'"
    using multi_ok_tim [OF assms(1) t(1)] frame_tim [OF t(1), of d] by (metis multi_ok_irrelevant(3), metis frame_irrelevant(3))
  then show ?thesis using e t k by blast
qed

section \<open>Coming and going\<close>

lemma timers_ok_member:
  assumes "timers_ok t" and "expiretime (easies t d) = tv_zero"
  shows "timers_ok (upd_easy d ((easies t d)\<lparr>in_multi := b, mid := i\<rparr>) t)"
    and "timers_ok (upd_easy d ((easies t d)\<lparr>mid := i, timeoutlist := [], in_multi := b\<rparr>) t)"
  using assms by (auto simp: timers_ok_def upd_easy_def easy_ok_def loosely_sorted_def)

text \<open>A transfer joins: it gets a free identifier and starts in the first state.\<close>

lemma multi_ok_join:
  assumes ok: "multi_ok g m" and d: "d \<notin> members m" "magic_ok (easy m d)"
    and a: "Curl_uint32_tbl_add (xfers m) d = Some (i, t)"
  defines "m' \<equiv> multi_admit (m\<lparr>xfers := t, tim := upd_easy d ((timers_of m d)\<lparr>mid := i\<rparr>) (tim m)\<rparr>) d"
  shows "multi_ok g m' \<and> members m' = insert d (members m) \<and> admin m' = admin m \<and> state_of m' d = MSTATE_INIT
    \<and> msglist m' = msglist m \<and> (\<forall>x. x \<noteq> d \<longrightarrow> easy m' x = easy m x \<and> mid_of m' x = mid_of m x)
    \<and> mid_of m' d \<in> bset_elems (dirty (tim m')) \<and> expiretime (timers_of m' d) = tv_zero \<and> \<not> really_alive (easy m' d)"
proof -
  have inv: "tbl_inv (xfers m)" "table_ok m" and z: "expiretime (timers_of m d) = tv_zero" and tok: "timers_ok (tim m)"
    and rm: "roomy m (process m)" "roomy m (pending m)" "roomy m (msgsent m)" "roomy m (dirty (tim m))"
    and sub: "bset_elems (pending m) \<union> bset_elems (msgsent m) \<subseteq> mid_of m ` user_xfers m"
    using ok d(1) by (auto simp: multi_ok_parts)
  note t = tbl_add_ok [OF inv(1) a]
  have i: "tbl_map (xfers m) i = None" "i < nrows (xfers m)" using t by (simp_all add: round_robin_def)
  have iu: "i < UINT32_MAX" using i(2) inv(1) by (simp add: tbl_inv_def tbl_ok_def)
  have fresh: "i \<notin> mid_of m ` members m" using i(1) member_key [OF inv(2)] by fastforce
  let ?e = "(timers_of m d)\<lparr>mid := i, timeoutlist := [], in_multi := True\<rparr>"
  let ?t = "upd_easy d ?e (tim m)"
  have t0: "timers_ok ?t" using timers_ok_member(2) [OF tok z] .
  have m: "xfers m' = t" "admin m' = admin m" "process m' = snd (Curl_uint32_bset_add (process m) i)" "pending m' = pending m"
    "msgsent m' = msgsent m" "msglist m' = msglist m" "tim m' = Curl_multi_mark_dirty ?t d" "xfers_alive m' = inc32 (xfers_alive m)"
    "xfers_really_alive m' = xfers_really_alive m" "last_pending_mid m' = last_pending_mid m"
    "\<And>x. x \<noteq> d \<Longrightarrow> easy m' x = easy m x" "state_of m' d = MSTATE_INIT" "\<not> really_alive (easy m' d)" "magic_ok (easy m' d)"
    using d(2) by (simp_all add: m'_def multi_admit_def multi_mark_dirty_def multistate_def upd_easy_def Let_def)
  note md = mark_dirty_facts [OF t0 refl, of d]
  have tm: "timers_of m' x = (if x = d then ?e else timers_of m x)" for x using md(3) by (simp add: m(7) upd_easy_def)
  have mem: "members m' = insert d (members m)" by (auto simp: members_def tm)
  have da: "d \<noteq> admin m" using d(1) inv(2) by (auto simp: table_ok_def)
  have usr: "user_xfers m' = insert d (user_xfers m)" using da by (auto simp: user_xfers_def mem m(2))
  have mid: "mid_of m' x = (if x = d then i else mid_of m x)" for x by (simp add: tm)
  have key: "tbl_map t k = Some y \<longleftrightarrow> y \<in> insert d (members m) \<and> mid_of m' y = k" for k y
  proof (cases "k = i")
    case True
    have "y \<in> members m \<Longrightarrow> mid_of m y \<noteq> i" using fresh by blast
    then show ?thesis using True t d(1) by (auto simp: mid)
  next
    case False
    then show ?thesis using t inv(2) d(1) by (auto simp: mid table_ok_def)
  qed
  have "magic_ok (easy m' y)" if "y \<in> insert d (members m)" for y
    using that m(11,14) inv(2) by (cases "y = d") (auto simp: table_ok_def)
  then have "table_ok m'" using t inv(2) key by (simp add: table_ok_def mem m(1,2))
  moreover have "sets_ok m'"
  proof -
    have nr: "nrows t = nrows (xfers m)" using t by simp
    have "bset_ok (dirty (tim m'))" "nslots (dirty (tim m')) = nslots (dirty (tim m))"
      using md(1,4) by (simp_all add: m(7) timers_ok_def) (simp add: upd_easy_def)
    then have r: "roomy m' (process m')" "roomy m' (pending m')" "roomy m' (msgsent m')" "roomy m' (dirty (tim m'))"
      using roomy_add [OF rm(1), of i] rm by (simp_all add: roomy_def m(1,3-5) nr)
    have pe: "bset_elems (process m') = insert i (bset_elems (process m))" using roomy_elems(2) [OF rm(1) i(2)] m(3) by simp
    have ni: "i \<notin> bset_elems (pending m)" "i \<notin> bset_elems (msgsent m)" using sub fresh user_member(1) by blast+
    have "placed m' x" if x: "x \<in> insert d (user_xfers m)" for x
    proof (cases "x = d")
      case True
      then show ?thesis using ni by (simp add: placed_def mid pe m(4,5,12) active_def)
    next
      case False
      then have "placed m x" "mid_of m x \<noteq> i" using x ok fresh user_member(1) by (auto simp: multi_ok_parts)
      then show ?thesis using False by (simp add: placed_def mid pe m(4,5,11))
    qed
    moreover have "bset_elems (pending m') \<union> bset_elems (msgsent m') \<subseteq> mid_of m' ` user_xfers m'"
      using sub d(1) user_member(1) by (fastforce simp: usr mid m(4,5) image_iff)
    ultimately show ?thesis using r ok unfolding sets_ok_def usr by (simp add: m(10) multi_ok_parts)
  qed
  moreover have "times_ok m'" using ok md(1) by (auto simp: times_ok_def mem m(7) multi_ok_def tm [unfolded m(7)])
  moreover have "counts_ok g m'"
  proof -
    have es: "x \<in> members m \<Longrightarrow> easy m' x = easy m x" for x using d(1) m(11) by metis
    have "live m' = insert d (live m)" "really_live m' = really_live m" "d \<notin> live m"
      using d(1) es m(12,13) user_member(1) [of _ m] unfolding live_def really_live_def usr mem by auto
    then show ?thesis using ok live_finite [OF inv(2)] inc32_card [of "card (live m)" g]
      by (simp add: multi_ok_def counts_ok_def m(8,9))
  qed
  moreover have "msgs_ok m'" using ok d(1) m(11) user_member(1) unfolding multi_ok_def msgs_ok_def usr m(6) by (metis insertI2)
  moreover have "i \<in> bset_elems (dirty (Curl_multi_mark_dirty ?t d))"
    using md(6) iu i(2) rm(4) by (simp add: upd_easy_def roomy_def)
  then have "mid_of m' d \<in> bset_elems (dirty (tim m'))" using mid m(7) by simp
  moreover have "expiretime (timers_of m' d) = tv_zero" using tm z by simp
  ultimately show ?thesis using mem m(2,6,11-13) mid by (simp add: multi_ok_def)
qed

text \<open>A transfer leaves.\<close>

lemma multi_ok_leave:
  assumes ok: "multi_ok g m" "d \<in> user_xfers m"
    and same: "admin m' = admin m" "last_pending_mid m' = last_pending_mid m" "\<And>x. x \<noteq> d \<Longrightarrow> easy m' x = easy m x"
    and tbl: "xfers m' = snd (Curl_uint32_tbl_remove (xfers m) (mid_of m d))"
    and tim: "timers_ok (tim m')" "\<And>x. x \<noteq> d \<Longrightarrow> timers_of m' x = timers_of m x" "\<not> in_multi (timers_of m' d)"
      "expiretime (timers_of m' d) = tv_zero"
    and room: "roomy m (process m')" "roomy m (pending m')" "roomy m (msgsent m')" "roomy m (dirty (tim m'))"
    and elems: "bset_elems (process m') - {mid_of m d} = bset_elems (process m) - {mid_of m d}"
      "bset_elems (pending m') = bset_elems (pending m) - {mid_of m d}"
      "bset_elems (msgsent m') = bset_elems (msgsent m) - {mid_of m d}"
    and counts: "xfers_alive m' = (card (live m - {d}) + g') mod 2 ^ 32" "xfers_really_alive m' = card (really_live m - {d})"
    and msgs: "distinct (map fst (msglist m'))" "fst ` set (msglist m') \<subseteq> fst ` set (msglist m) - {d}"
  shows "multi_ok g' m' \<and> members m' = members m - {d}"
proof -
  have t: "table_ok m" and dm: "d \<in> members m" "d \<noteq> admin m" using ok user_member by (auto simp: multi_ok_def)
  have tin: "tbl_ok (xfers m)" "last_key_added (xfers m) \<le> UINT32_MAX" using t by (simp_all add: table_ok_def tbl_inv_def)
  obtain ds u where r: "Curl_uint32_tbl_remove (xfers m) (mid_of m d) = (ds, u)" by (rule prod.exhaust)
  have u: "tbl_inv u" "nrows u = nrows (xfers m)" "tbl_map u = (tbl_map (xfers m))(mid_of m d := None)"
    using tbl_remove_ok [OF tin(1) r] mid_bound [OF t dm(1)] tin(2) by (simp_all add: tbl_inv_def)
  have x: "xfers m' = u" using tbl r by simp
  have mem: "members m' = members m - {d}" using tim(2,3) by (auto simp: members_def; metis)
  have usr: "user_xfers m' = user_xfers m - {d}" by (auto simp: user_xfers_def mem same(1))
  have mid: "y \<noteq> d \<Longrightarrow> mid_of m' y = mid_of m y" for y using tim(2) by simp
  have "tbl_map u i = Some y \<longleftrightarrow> y \<in> members m - {d} \<and> mid_of m' y = i" for i y
    unfolding u(3) using t mid_inj [OF t _ dm(1), of y] mid [of y] by (auto simp: table_ok_def)
  then have "table_ok m'" using t u(1) dm(2) same(3) by (simp add: table_ok_def mem x same(1))
  moreover have "sets_ok m'"
  proof -
    have "placed m' y" if y: "y \<in> user_xfers m" "y \<noteq> d" for y
    proof -
      have "mid_of m y \<noteq> mid_of m d" using mid_inj [OF t user_member(1) [OF y(1)] dm(1)] y(2) by blast
      moreover have "placed m y" using ok(1) y by (simp add: multi_ok_parts)
      ultimately show ?thesis unfolding placed_def mid [OF y(2)] same(3) [OF y(2)] using elems by blast
    qed
    moreover have "bset_elems (pending m') \<union> bset_elems (msgsent m') \<subseteq> mid_of m' ` (user_xfers m - {d})"
    proof -
      have "bset_elems (pending m) \<union> bset_elems (msgsent m) \<subseteq> mid_of m ` user_xfers m" using ok(1) by (simp add: multi_ok_parts)
      then have "bset_elems (pending m') \<union> bset_elems (msgsent m') \<subseteq> mid_of m ` (user_xfers m - {d})" unfolding elems(2,3) by blast
      also have "\<dots> = mid_of m' ` (user_xfers m - {d})" using mid by (intro image_cong) auto
      finally show ?thesis .
    qed
    ultimately show ?thesis using room ok(1) by (simp add: sets_ok_def usr roomy_def x u(2) same(2) multi_ok_parts)
  qed
  moreover have "times_ok m'"
  proof -
    have "expiretime (timers_of m' y) = tv_zero" if "y \<notin> members m'" for y
      using that tim(2,4) ok(1) mem by (cases "y = d") (auto simp: multi_ok_parts)
    then show ?thesis using tim(1) by (simp add: times_ok_def)
  qed
  moreover have "live m' = live m - {d}" "really_live m' = really_live m - {d}"
    using same(3) unfolding live_def really_live_def usr mem by auto
  then have "counts_ok g' m'" using counts by (simp add: counts_ok_def)
  moreover have "msgs_ok m'" using msgs ok(1) same(3) unfolding msgs_ok_def usr multi_ok_def by (metis (no_types, lifting) DiffD1 DiffD2 DiffI insertI1 singletonD subsetD)
  ultimately show ?thesis using mem by (simp add: multi_ok_def)
qed

lemma drop_msg_ok:
  assumes "distinct (map fst ms)"
  shows "distinct (map fst (drop_msg d ms)) \<and> fst ` set (drop_msg d ms) = fst ` set ms - {d}"
proof (cases "d \<in> fst ` set ms")
  case True
  then have "\<exists>x\<in>set ms. fst x = d" by auto
  from split_list_first_prop [OF this] obtain us x vs where m: "ms = us @ x # vs" "fst x = d" "\<forall>u\<in>set us. fst u \<noteq> d" by blast
  then have "takeWhile (\<lambda>x. fst x \<noteq> d) ms = us" "dropWhile (\<lambda>x. fst x \<noteq> d) ms = x # vs" by simp_all
  then have "drop_msg d ms = us @ vs" by (simp add: drop_msg_def)
  moreover have "d \<notin> fst ` set vs" "d \<notin> fst ` set us" using assms m by auto
  ultimately show ?thesis using assms m by (auto simp: image_iff)
next
  case False
  then have "takeWhile (\<lambda>x. fst x \<noteq> d) ms = ms" "dropWhile (\<lambda>x. fst x \<noteq> d) ms = []"
    by (auto simp: takeWhile_eq_all_conv dropWhile_eq_Nil_conv)
  then have "drop_msg d ms = ms" unfolding drop_msg_def by (metis append_Nil2 drop_Nil)
  then show ?thesis using assms False by simp
qed

section \<open>Growing\<close>

definition fits :: "Curl_multi \<Rightarrow> uint32_bset \<Rightarrow> uint32_bset \<Rightarrow> bool" where
  "fits m b b' \<longleftrightarrow> roomy m b' \<and> bset_elems b' \<subseteq> bset_elems b \<and> (\<forall>i\<in>bset_elems b. i < nrows (xfers m) \<longrightarrow> i \<in> bset_elems b')"

lemma fits_refl: "roomy m b \<Longrightarrow> fits m b b"
  by (simp add: fits_def)

lemma resize_fits:
  assumes "roomy m b" and "nrows (xfers m) \<le> n" and "n \<le> UINT32_MAX - 63" and "Curl_uint32_bset_resize al b n = (r, b')"
  shows "fits m b b' \<and> (r = CURLE_OK \<longrightarrow> n \<le> 64 * nslots b')"
proof -
  have b: "bset_ok b" "nrows (xfers m) \<le> 64 * nslots b" using assms(1) by (simp_all add: roomy_def)
  have "n \<le> UINT32_MAX" "min n (UINT32_MAX - 63) = n" using assms(3) by simp_all
  then show ?thesis using bset_resize_ok [OF b(1) assms(4)] assms(2) b(2) by (auto simp: fits_def roomy_def split: if_splits)
qed

lemma multi_ok_sets:
  assumes "multi_ok g m"
    and "fits m (process m) (process m')" "fits m (pending m) (pending m')" "fits m (msgsent m) (msgsent m')"
      "fits m (dirty (tim m)) (dirty (tim m'))"
    and "tim m' = (tim m)\<lparr>dirty := dirty (tim m')\<rparr>" "easy m' = easy m" "admin m' = admin m" "msglist m' = msglist m"
      "last_pending_mid m' = last_pending_mid m" "xfers_alive m' = xfers_alive m" "xfers_really_alive m' = xfers_really_alive m"
    and "tbl_inv (xfers m')" "tbl_map (xfers m') = tbl_map (xfers m)"
      "\<And>b. b \<in> {process m', pending m', msgsent m', dirty (tim m')} \<Longrightarrow> nrows (xfers m') \<le> 64 * nslots b"
  shows "multi_ok g m' \<and> members m' = members m"
proof -
  have e: "timers_of m' x = timers_of m x" for x
    using arg_cong [OF assms(6), of "\<lambda>t. easies t x"] by simp
  have mem: "members m' = members m" "user_xfers m' = user_xfers m" by (simp_all add: members_def user_xfers_def e assms(8))
  have tb: "table_ok m" using assms(1) by (simp add: multi_ok_def)
  have b: "bset_ok (process m')" "bset_ok (pending m')" "bset_ok (msgsent m')" "bset_ok (dirty (tim m'))"
    using assms(2-5) by (simp_all add: fits_def roomy_def)
  have same: "mid_of m d \<in> bset_elems (process m') \<longleftrightarrow> mid_of m d \<in> bset_elems (process m)"
    "mid_of m d \<in> bset_elems (pending m') \<longleftrightarrow> mid_of m d \<in> bset_elems (pending m)"
    "mid_of m d \<in> bset_elems (msgsent m') \<longleftrightarrow> mid_of m d \<in> bset_elems (msgsent m)" if "d \<in> user_xfers m" for d
    using assms(2-4) mid_bound [OF tb user_member(1) [OF that]] by (auto simp: fits_def)
  have "timers_ok (tim m')"
    using ok_timers [OF assms(1)] b(4) by (subst assms(6)) (simp add: timers_ok_def)
  then have "times_ok m'" using assms(1) by (simp add: multi_ok_def times_ok_def mem e)
  moreover have "table_ok m'" using tb assms(7,8,13,14) by (simp add: table_ok_def mem e)
  moreover have "bset_elems (pending m') \<union> bset_elems (msgsent m') \<subseteq> mid_of m ` user_xfers m"
    using assms(1,3,4) by (auto simp: multi_ok_parts fits_def)
  then have "sets_ok m'" using assms(1,15) b same
    by (simp add: sets_ok_def roomy_def mem e placed_def assms(7,10) multi_ok_def)
  moreover have "counts_ok g m'" "msgs_ok m'"
    using assms(1,7,9,11,12) by (simp_all add: multi_ok_parts live_def really_live_def mem)
  ultimately show ?thesis using mem by (simp add: multi_ok_def)
qed

lemma new_size_bound:
  assumes "n \<le> c" and "c < 2 ^ 31"
  shows "xfers_new_size c n \<le> UINT32_MAX - 63" and "c < xfers_new_size c n \<or> c - n \<ge> max (c div 4) 4"
proof -
  have "c + 2 ^ 32 - n = (c - n) + 2 ^ 32" "c - n < 2 ^ 32" using assms by simp_all
  then have u: "(c + 2 ^ 32 - n) mod 2 ^ 32 = c - n" by (simp only: mod_add_self2 mod_less)
  have s: "(n + max (c div 4) 4 + 63) mod 2 ^ 32 = n + max (c div 4) 4 + 63" using assms by (auto simp: max_def)
  have g: "\<not> (max (c div 4) 4 \<ge> UINT32_MAX - 1 \<or> UINT32_MAX - 1 - max (c div 4) 4 \<le> c \<or> UINT32_MAX - max (c div 4) 4 - 63 \<le> c)"
    "c < UINT32_MAX - 1" using assms by (auto simp: UINT32_MAX_def max_def)
  have x: "xfers_new_size c n = (if c - n \<le> max (c div 4) 4 then (n + max (c div 4) 4 + 63) div 64 * 64 else 0)"
    unfolding xfers_new_size_def Let_def u s using g by simp
  show "xfers_new_size c n \<le> UINT32_MAX - 63" using assms by (auto simp: x UINT32_MAX_def max_def)
  show "c < xfers_new_size c n \<or> c - n \<ge> max (c div 4) 4" using assms unfolding x by (auto simp: max_def split: if_splits) 
qed

lemma tbl_resize_same:
  assumes "tbl_inv t" and "nrows t \<le> n" and "n \<le> UINT32_MAX" and "Curl_uint32_tbl_resize al t n = (r, ds, t')"
  shows "tbl_inv t' \<and> tbl_map t' = tbl_map t \<and> nrows t' = (if r = CURLE_OK then n else nrows t)"
proof -
  have t: "tbl_ok t" "last_key_added t \<le> UINT32_MAX" using assms(1) by (simp_all add: tbl_inv_def)
  have "tbl_map t |` {..<n} = tbl_map t"
    using keys_bound [OF t(1)] assms(2) by (auto simp: restrict_map_def fun_eq_iff domIff) (metis domIff less_le_trans not_None_eq)
  then show ?thesis using tbl_resize_ok [OF t(1) assms(3,4)] t by (auto simp: tbl_inv_def split: if_splits)
qed

lemma multi_resize_ok:
  assumes ok: "multi_ok g m" and n: "nrows (xfers m) \<le> n" "n \<le> UINT32_MAX - 63" and r: "multi_resize al n m = (r, m')"
  shows "multi_ok g m' \<and> members m' = members m \<and> easy m' = easy m \<and> tbl_map (xfers m') = tbl_map (xfers m)
    \<and> nrows (xfers m') = (if r then n else nrows (xfers m)) \<and> admin m' = admin m \<and> timers_of m' = timers_of m \<and> msglist m' = msglist m \<and> app m' = app m
    \<and> xfers_total_ever m' = xfers_total_ever m"
proof -
  have rm: "roomy m (process m)" "roomy m (dirty (tim m))" "roomy m (pending m)" "roomy m (msgsent m)" and tb: "tbl_inv (xfers m)"
    using ok by (simp_all add: multi_ok_parts)
  obtain r1 b1 where 1: "Curl_uint32_bset_resize (al 0) (process m) n = (r1, b1)" by (rule prod.exhaust)
  obtain r2 b2 where 2: "Curl_uint32_bset_resize (al 1) (dirty (tim m)) n = (r2, b2)" by (rule prod.exhaust)
  obtain r3 b3 where 3: "Curl_uint32_bset_resize (al 2) (pending m) n = (r3, b3)" by (rule prod.exhaust)
  obtain r4 b4 where 4: "Curl_uint32_bset_resize (al 3) (msgsent m) n = (r4, b4)" by (rule prod.exhaust)
  obtain r5 ds t where 5: "Curl_uint32_tbl_resize (al 4) (xfers m) n = (r5, ds, t)" by (rule prod_cases3)
  note f = resize_fits [OF rm(1) n 1] resize_fits [OF rm(2) n 2] resize_fits [OF rm(3) n 3] resize_fits [OF rm(4) n 4]
  have t: "tbl_inv t" "tbl_map t = tbl_map (xfers m)" "nrows t = (if r5 = CURLE_OK then n else nrows (xfers m))"
    using tbl_resize_same [OF tb n(1) _ 5] n(2) by auto
  have sh: "m' = (if r1 \<noteq> CURLE_OK then m\<lparr>process := b1\<rparr> else if r2 \<noteq> CURLE_OK then set_dirty b2 (m\<lparr>process := b1\<rparr>)
      else if r3 \<noteq> CURLE_OK then (set_dirty b2 (m\<lparr>process := b1\<rparr>))\<lparr>pending := b3\<rparr>
      else if r4 \<noteq> CURLE_OK then (set_dirty b2 (m\<lparr>process := b1\<rparr>))\<lparr>pending := b3, msgsent := b4\<rparr>
      else (set_dirty b2 (m\<lparr>process := b1\<rparr>))\<lparr>pending := b3, msgsent := b4, xfers := t\<rparr>)"
    "r \<longleftrightarrow> r1 = CURLE_OK \<and> r2 = CURLE_OK \<and> r3 = CURLE_OK \<and> r4 = CURLE_OK \<and> r5 = CURLE_OK"
    using r 1 2 3 4 5 by (auto simp: multi_resize_def Let_def split: if_splits)
  define c2 where "c2 = (if r1 = CURLE_OK then b2 else dirty (tim m))"
  define c3 where "c3 = (if r1 = CURLE_OK \<and> r2 = CURLE_OK then b3 else pending m)"
  define c4 where "c4 = (if r1 = CURLE_OK \<and> r2 = CURLE_OK \<and> r3 = CURLE_OK then b4 else msgsent m)"
  define u where "u = (if r1 = CURLE_OK \<and> r2 = CURLE_OK \<and> r3 = CURLE_OK \<and> r4 = CURLE_OK then t else xfers m)"
  have m': "m' = m\<lparr>process := b1, tim := (tim m)\<lparr>dirty := c2\<rparr>, pending := c3, msgsent := c4, xfers := u\<rparr>"
    by (auto simp: sh(1) c2_def c3_def c4_def u_def)
  have fi: "fits m (process m) b1" "fits m (dirty (tim m)) c2" "fits m (pending m) c3" "fits m (msgsent m) c4"
    using f fits_refl rm by (auto simp: c2_def c3_def c4_def)
  have u: "tbl_inv u" "tbl_map u = tbl_map (xfers m)" "nrows u = (if r then n else nrows (xfers m))"
    using t tb sh(2) by (auto simp: u_def)
  have "nrows u \<le> 64 * nslots b" if "b \<in> {b1, c3, c4, c2}" for b
  proof (cases r)
    case True
    then have "c2 = b2" "c3 = b3" "c4 = b4" using sh(2) by (simp_all add: c2_def c3_def c4_def)
    then show ?thesis using that f sh(2) True u(3) by auto
  next
    case False
    then show ?thesis using that fi u(3) by (auto simp: fits_def roomy_def)
  qed
  then have "multi_ok g m' \<and> members m' = members m"
    by (intro multi_ok_sets [OF ok]) (simp_all add: m' fi u(1,2))
  then show ?thesis using u by (simp add: m')
qed

lemma resize_alloc: "(\<And>i. al i) \<Longrightarrow> n \<noteq> 0 \<Longrightarrow> fst (multi_resize al n m)"
proof -
  assume a: "\<And>i. al i" and n: "n \<noteq> 0"
  have b: "fst (Curl_uint32_bset_resize True b n) = CURLE_OK" for b
    by (simp add: Curl_uint32_bset_resize_def Let_def)
  have t: "fst (Curl_uint32_tbl_resize True t n) = CURLE_OK" for t :: "nat uint32_tbl"
    using n by (simp add: Curl_uint32_tbl_resize_def Let_def split: prod.split)
  show ?thesis unfolding multi_resize_def Let_def case_prod_unfold using a by (simp add: b t)
qed

text \<open>Adding succeeds when the allocations do, for tables of any realistic size.\<close>

lemma multi_xfers_add_ok:
  assumes ok: "multi_ok g m" and small: "nrows (xfers m) < 2 ^ 31" and d: "d \<notin> members m" and r: "multi_xfers_add al m d = (code, m2)"
  shows "\<exists>m1. multi_ok g m1 \<and> members m1 = members m \<and> easy m1 = easy m \<and> admin m1 = admin m \<and> timers_of m1 = timers_of m
    \<and> tbl_map (xfers m1) = tbl_map (xfers m) \<and> msglist m1 = msglist m \<and> app m1 = app m \<and> xfers_total_ever m1 = xfers_total_ever m
    \<and> (if code = CURLM_OK then \<exists>i t. Curl_uint32_tbl_add (xfers m1) d = Some (i, t)
          \<and> m2 = m1\<lparr>xfers := t, tim := upd_easy d ((timers_of m1 d)\<lparr>mid := i\<rparr>) (tim m1)\<rparr>
       else m2 = m1 \<and> \<not> (\<forall>i. al i))"
proof -
  let ?c = "nrows (xfers m)" and ?n = "xfers_new_size (nrows (xfers m)) (nentries (xfers m))"
  have tb: "tbl_inv (xfers m)" using ok by (simp add: multi_ok_parts)
  have le: "nentries (xfers m) \<le> ?c"
    using tb used_finite(2) [of "rows (xfers m)"] by (simp add: tbl_inv_def tbl_ok_def del: used_finite)
  note b = new_size_bound [OF le small]
  obtain gr m1 where g: "(if ?n > ?c then multi_resize al ?n m else (True, m)) = (gr, m1)" by (rule prod.exhaust)
  have "multi_ok g m1 \<and> members m1 = members m \<and> easy m1 = easy m \<and> admin m1 = admin m \<and> timers_of m1 = timers_of m
    \<and> tbl_map (xfers m1) = tbl_map (xfers m) \<and> msglist m1 = msglist m \<and> app m1 = app m \<and> (gr \<longrightarrow> nrows (xfers m1) = max ?c ?n)
    \<and> xfers_total_ever m1 = xfers_total_ever m"
  proof (cases "?n > ?c")
    case True
    then have c: "multi_resize al ?n m = (gr, m1)" using g by simp
    show ?thesis using multi_resize_ok [OF ok less_imp_le [OF True] b(1) c] True by simp
  next
    case False
    then have "m1 = m" using g by simp
    then show ?thesis using ok False by simp
  qed
  then have m1: "multi_ok g m1" "members m1 = members m" "easy m1 = easy m" "admin m1 = admin m" "timers_of m1 = timers_of m"
    "tbl_map (xfers m1) = tbl_map (xfers m)" "msglist m1 = msglist m" "app m1 = app m"
    "gr \<Longrightarrow> nrows (xfers m1) = max ?c ?n" "xfers_total_ever m1 = xfers_total_ever m" by blast+
  show ?thesis
  proof (cases gr)
    case True
    have "tbl_inv (xfers m1)" using m1(1) by (simp add: multi_ok_parts)
    moreover have "card (dom (tbl_map (xfers m1))) \<noteq> nrows (xfers m1)"
      using m1(6,9) True b(2) le tb by (auto simp: dom_tbl_map tbl_inv_def tbl_ok_def max_def split: if_splits)
    ultimately obtain i t where a: "Curl_uint32_tbl_add (xfers m1) d = Some (i, t)"
      using tbl_add_full [of "xfers m1" d] by (metis not_Some_eq surj_pair)
    then have "code = CURLM_OK" "m2 = m1\<lparr>xfers := t, tim := upd_easy d ((timers_of m1 d)\<lparr>mid := i\<rparr>) (tim m1)\<rparr>"
      using r g True by (simp_all add: multi_xfers_add_def Curl_uint32_tbl_capacity_def Curl_uint32_tbl_count_def)
    then show ?thesis using m1 a by auto
  next
    case False
    then have res: "code = CURLM_OUT_OF_MEMORY" "m2 = m1"
      using r g by (simp_all add: multi_xfers_add_def Curl_uint32_tbl_capacity_def Curl_uint32_tbl_count_def)
    have "multi_resize al ?n m = (False, m1)" "?n \<noteq> 0" using g False by (auto split: if_splits)
    then have "\<not> (\<forall>i. al i)" using resize_alloc [of al ?n m] by fastforce
    then show ?thesis using m1 res by auto
  qed
qed

section \<open>Adding and removing\<close>

lemma revive_ok:
  assumes ok: "multi_ok g m" and only: "members m = {admin m}"
  shows "multi_ok g (multi_revive m) \<and> members (multi_revive m) = members m \<and> easy (multi_revive m) = easy m
    \<and> admin (multi_revive m) = admin m \<and> xfers (multi_revive m) = xfers m \<and> timers_of (multi_revive m) = timers_of m
    \<and> bset_elems (process (multi_revive m)) = {} \<and> msglist (multi_revive m) = msglist m \<and> \<not> multi_dead (app (multi_revive m))"
proof -
  let ?m = "multi_revive m"
  have c: "roomy m (Curl_uint32_bset_clear b) \<and> bset_elems (Curl_uint32_bset_clear b) = {}" if "roomy m b" for b
    using that bset_clear_ok [of b] by (auto simp: roomy_def Curl_uint32_bset_clear_def)
  have rm: "roomy m (process m)" "roomy m (dirty (tim m))" "roomy m (pending m)" "roomy m (msgsent m)"
    using ok by (simp_all add: multi_ok_parts)
  have u: "user_xfers m = {}" using only by (simp add: user_xfers_def)
  have mem: "members ?m = members m" "user_xfers ?m = {}" using u by (simp_all add: members_def user_xfers_def multi_revive_def)
  have "timers_ok (tim ?m)" using ok_timers [OF ok] c [OF rm(2)] by (simp add: multi_revive_def timers_ok_def roomy_def)
  then show ?thesis using ok mem c [OF rm(1)] c [OF rm(2)] c [OF rm(3)] c [OF rm(4)] u
    by (simp add: multi_ok_parts multi_revive_def live_def really_live_def roomy_def)
qed

lemma only_admin:
  assumes "table_ok m" and "Curl_uint32_tbl_count (xfers m) = 1" shows "members m = {admin m}"
proof -
  have "card (members m) = 1" "admin m \<in> members m" using members_card(2) [OF assms(1)] assms by (simp_all add: table_ok_def)
  then show ?thesis by (auto simp: card_1_singleton_iff)
qed

text \<open>
  What adding does: on success the transfer is a member in its first state and marked dirty.
  When the timer callback fails the transfer is no member, but it stays counted.
\<close>

definition miscounted :: "CURLMcode \<Rightarrow> Curl_multi \<Rightarrow> Curl_multi \<Rightarrow> bool" where
  "miscounted code m m' \<longleftrightarrow> code \<noteq> CURLM_OK \<and> xfers_total_ever m' \<noteq> xfers_total_ever m"

lemma expel_ok:
  assumes a: "at g m d {MSTATE_INIT}" and z: "expiretime (timers_of m d) = tv_zero" and l: "\<not> really_alive (easy m d)"
  shows "multi_ok (Suc g) (m\<lparr>xfers := snd (Curl_uint32_tbl_remove (xfers m) (mid_of m d)),
      tim := upd_easy d ((timers_of m d)\<lparr>in_multi := False, mid := UINT32_MAX\<rparr>) (tim m)\<rparr>)
    \<and> members (m\<lparr>xfers := snd (Curl_uint32_tbl_remove (xfers m) (mid_of m d)),
      tim := upd_easy d ((timers_of m d)\<lparr>in_multi := False, mid := UINT32_MAX\<rparr>) (tim m)\<rparr>) = members m - {d}"
    (is "multi_ok (Suc g) ?m \<and> _")
proof (rule multi_ok_leave)
  note f = at_facts [OF a]
  have st: "state_of m d = MSTATE_INIT" using f(3) by simp
  then have np: "mid_of m d \<notin> bset_elems (pending m)" "mid_of m d \<notin> bset_elems (msgsent m)" using f(10) by (simp_all add: placed_def)
  have dl: "d \<in> live m" using st f(2) by (simp add: live_def)
  then have "card (live m) = Suc (card (live m - {d}))" using live_finite [OF f(4)] by (metis card.remove)
  then show "xfers_alive ?m = (card (live m - {d}) + Suc g) mod 2 ^ 32" using f(1) by (simp add: multi_ok_parts)
  have "really_live m - {d} = really_live m" using l by (auto simp: really_live_def)
  then show "xfers_really_alive ?m = card (really_live m - {d})" using f(1) by (simp add: multi_ok_parts)
  show "fst ` set (msglist ?m) \<subseteq> fst ` set (msglist m) - {d}" using f(1) st by (auto simp: multi_ok_parts)
  show "multi_ok g m" "d \<in> user_xfers m" by (fact f(1), fact f(2))
  show "timers_ok (tim ?m)" using timers_ok_member(1) [OF f(12) z] by simp
  show "bset_elems (pending ?m) = bset_elems (pending m) - {mid_of m d}" "bset_elems (msgsent ?m) = bset_elems (msgsent m) - {mid_of m d}"
    using np by auto
qed (use at_facts [OF a] z in \<open>simp_all add: upd_easy_def\<close>)

lemma add_handle_ok:
  assumes ok: "multi_ok g m" and small: "nrows (xfers m) < 2 ^ 31" and r: "curl_multi_add_handle cb now al m d = (code, m')"
  shows "multi_ok (if miscounted code m m' then Suc g else g) m'
    \<and> members m' = (if code = CURLM_OK then insert d (members m) else members m)
    \<and> (code = CURLM_OK \<longrightarrow> d \<notin> members m \<and> state_of m' d = MSTATE_INIT \<and> mid_of m' d \<in> bset_elems (process m'))
    \<and> (miscounted code m m' \<longrightarrow> code = CURLM_ABORTED_BY_CALLBACK \<and> multi_dead (app m'))"
proof -
  let ?pre = "multi_magic m \<and> magic_ok (easy m d) \<and> \<not> in_multi (timers_of m d) \<and> \<not> in_callback m
      \<and> \<not> (multi_dead (app m) \<and> (Curl_uint32_tbl_count (xfers m) \<noteq> 1 \<or> \<not> Curl_uint32_tbl_contains (xfers m) 0))"
  show ?thesis
  proof (cases ?pre)
    case False
    then have "m' = m \<and> code \<noteq> CURLM_OK" using r by (auto simp: curl_multi_add_handle_def split: if_splits)
    then show ?thesis using ok by (simp add: miscounted_def)
  next
    case pre: True
    define m1 where "m1 = (if multi_dead (app m) then multi_revive m else m)"
    have tb: "table_ok m" using ok by (simp add: multi_ok_def)
    have m1: "multi_ok g m1" "members m1 = members m" "easy m1 = easy m" "xfers m1 = xfers m" "xfers_total_ever m1 = xfers_total_ever m"
      using revive_ok [OF ok] only_admin [OF tb] pre ok by (auto simp: m1_def multi_revive_def)
    have d: "d \<notin> members m" "magic_ok (easy m d)" using pre by (simp_all add: members_def)
    obtain c2 m2 where a: "multi_xfers_add al m1 d = (c2, m2)" by (rule prod.exhaust)
    have "nrows (xfers m1) < 2 ^ 31" "d \<notin> members m1" using small m1 d by simp_all
    from multi_xfers_add_ok [OF m1(1) this a] obtain n1 where
        n1: "multi_ok g n1" "members n1 = members m1" "easy n1 = easy m1" "xfers_total_ever n1 = xfers_total_ever m1"
        "if c2 = CURLM_OK then \<exists>i t. Curl_uint32_tbl_add (xfers n1) d = Some (i, t)
            \<and> m2 = n1\<lparr>xfers := t, tim := upd_easy d ((timers_of n1 d)\<lparr>mid := i\<rparr>) (tim n1)\<rparr> else m2 = n1 \<and> \<not> (\<forall>i. al i)"
      by blast
    show ?thesis
    proof (cases "c2 = CURLM_OK")
      case False
      then have "code = CURLM_OUT_OF_MEMORY" "m' = n1"
        using r pre a n1(5) by (auto simp: curl_multi_add_handle_def m1_def split: if_splits)
      then show ?thesis using n1 m1 by (simp add: miscounted_def)
    next
      case c2: True
      then obtain i t where t: "Curl_uint32_tbl_add (xfers n1) d = Some (i, t)"
        "m2 = n1\<lparr>xfers := t, tim := upd_easy d ((timers_of n1 d)\<lparr>mid := i\<rparr>) (tim n1)\<rparr>" using n1(5) by auto
      have dn: "d \<notin> members n1" "magic_ok (easy n1 d)" using d n1 m1 by simp_all
      define n2 where "n2 = multi_admit m2 d"
      note j = multi_ok_join [OF n1(1) dn t(1), folded t(2), folded n2_def]
      have tot: "xfers_total_ever n2 = Suc (xfers_total_ever m)"
        using n1(4) m1(5) by (simp add: n2_def t(2) multi_admit_def multi_mark_dirty_def multistate_def upd_xfer_def Let_def)
      obtain c3 m3 where u: "update_timer cb now n2 = (c3, m3)" by (rule prod.exhaust)
      from update_timer_ok [OF conjunct1 [OF j] u, of d] obtain ap tt where
        m3: "m3 = n2\<lparr>app := ap, tim := tt\<rparr>" "multi_ok g m3" "frame d n2 m3" "easies tt = easies (tim n2)"
          "c3 = CURLM_OK \<or> c3 = CURLM_ABORTED_BY_CALLBACK \<and> multi_dead ap" by blast
      have mem3: "members m3 = insert d (members m)" "easy m3 = easy n2" "admin m3 = admin n1" "xfers_total_ever m3 = Suc (xfers_total_ever m)"
        "timers_of m3 = timers_of n2" "app m3 = ap"
        using m3(1,3,4) j n1(2) m1(2) tot by (simp_all add: frame_def)
      have "d \<noteq> admin n1" using dn(1) n1(1) by (auto simp: multi_ok_parts)
      then have d3: "at g m3 d {MSTATE_INIT}" using m3(2) mem3 j by (simp add: at_def user_xfers_def)
      show ?thesis
      proof (cases "c3 = CURLM_OK")
        case True
        then have "code = CURLM_OK" "m' = m3"
          using r pre a c2 u by (auto simp: curl_multi_add_handle_def m1_def n2_def split: if_splits)
        moreover have "mid_of m3 d \<in> bset_elems (process m3)" using at_facts(3,10) [OF d3] by (simp add: placed_def active_def)
        ultimately show ?thesis using m3(2) mem3 d j by (simp add: miscounted_def)
      next
        case False
        then have c: "code = CURLM_ABORTED_BY_CALLBACK" "multi_dead ap" "m' = m3\<lparr>xfers := snd (Curl_uint32_tbl_remove (xfers m3) (mid_of m3 d)),
            tim := upd_easy d ((timers_of m3 d)\<lparr>in_multi := False, mid := UINT32_MAX\<rparr>) (tim m3)\<rparr>"
          using r pre a c2 u m3(5) by (auto simp: curl_multi_add_handle_def m1_def n2_def split: if_splits)
        have "multi_ok (Suc g) m' \<and> members m' = members m3 - {d}"
          unfolding c(3) by (rule expel_ok [OF d3]) (use j mem3 in simp_all)
        then show ?thesis using c mem3 d by (simp add: miscounted_def)
      qed
    qed
  qed
qed

lemma at_done:
  assumes "at g m d UNIV"
  shows "at g (snd (multi_done out m d status prem)) d UNIV \<and> frame d m (snd (multi_done out m d status prem))"
proof -
  note p = process_pending_ok [OF at_facts(1) [OF assms], of d]
  then have q: "at g (process_pending_handles m) d UNIV" using assms by (simp add: at_def frame_def user_xfers_def)
  have u: "at g x d UNIV \<Longrightarrow> (\<And>e. magic_ok (f e) = magic_ok e) \<Longrightarrow> (\<And>e. really_alive (f e) = really_alive e) \<Longrightarrow> (\<And>e. mstate (f e) = mstate e)
      \<Longrightarrow> at g (upd_xfer d f x) d UNIV" for x f using at_upd [of g x d UNIV f] by (auto intro: at_mono)
  have "frame d m (upd_xfer d f x)" if "frame d m x" for f x using frame_trans [OF that frame_upd] .
  then show ?thesis using assms p q u by (auto simp: multi_done_def multi_done_locked_def Curl_detach_connection_def Let_def)
qed

text \<open>The steps between the end of the timers and the release of the next transfer.\<close>

definition dismissed :: "Curl_multi \<Rightarrow> nat \<Rightarrow> Curl_multi" where
  "dismissed m d =
     (let m3 = (if Curl_uint32_bset_contains (msgsent m) (mid_of m d) then m
                else m\<lparr>xfers_alive := dec32 (xfers_alive m)\<rparr>);
          m4 = (if really_alive (easy m3 d)
                then (upd_xfer d (really_alive_update (\<lambda>_. False)) m3)\<lparr>xfers_really_alive := dec32 (xfers_really_alive m3)\<rparr>
                else m3);
          m5 = Curl_detach_connection (upd_xfer d (mstate_update (\<lambda>_. MSTATE_COMPLETED)) m4) d
      in multi_forget m5 d)"

lemma dismissed_ok:
  assumes a: "at g m d UNIV" and z: "expiretime (timers_of m d) = tv_zero"
  shows "multi_ok g (dismissed m d) \<and> members (dismissed m d) = members m - {d} \<and> d \<notin> fst ` set (msglist (dismissed m d))"
proof -
  let ?m = "dismissed m d" and ?i = "mid_of m d"
  note f = at_facts [OF a]
  have m: "admin ?m = admin m" "last_pending_mid ?m = last_pending_mid m" "\<And>x. x \<noteq> d \<Longrightarrow> easy ?m x = easy m x"
    "xfers ?m = snd (Curl_uint32_tbl_remove (xfers m) ?i)" "msglist ?m = drop_msg d (msglist m)"
    "tim ?m = upd_easy d ((timers_of m d)\<lparr>in_multi := False, mid := UINT32_MAX\<rparr>) ((tim m)\<lparr>dirty := Curl_uint32_bset_remove (dirty (tim m)) ?i\<rparr>)"
    "process ?m = Curl_uint32_bset_remove (process m) ?i" "pending ?m = Curl_uint32_bset_remove (pending m) ?i"
    "msgsent ?m = Curl_uint32_bset_remove (msgsent m) ?i"
    "xfers_alive ?m = (if ?i \<in> bset_elems (msgsent m) then xfers_alive m else dec32 (xfers_alive m))"
    "xfers_really_alive ?m = (if really_alive (easy m d) then dec32 (xfers_really_alive m) else xfers_really_alive m)"
    by (simp_all add: dismissed_def multi_forget_def Curl_detach_connection_def roomy_elems(3) [OF f(8)] Let_def)
  have c: "xfers_alive m = (card (live m) + g) mod 2 ^ 32" "xfers_really_alive m = card (really_live m)"
    using f(1) by (simp_all add: multi_ok_parts)
  have fin: "finite (live m)" "finite (really_live m)" "card (really_live m) \<le> UINT32_MAX" using live_finite [OF f(4)] by simp_all
  have dl: "d \<in> live m \<longleftrightarrow> ?i \<notin> bset_elems (msgsent m)" using f(2,10) by (simp add: live_def placed_def)
  have dr: "d \<in> really_live m \<longleftrightarrow> really_alive (easy m d)" using f(5) by (simp add: really_live_def)
  have "timers_ok ((tim m)\<lparr>dirty := Curl_uint32_bset_remove (dirty (tim m)) ?i\<rparr>)" using tim_keeps_undirty [OF f(12)] by (simp add: tim_keeps_def)
  from timers_ok_member(1) [OF this, of d] z have tk: "timers_ok (tim ?m)" by (simp add: m(6))
  have al: "xfers_alive ?m = (card (live m - {d}) + g) mod 2 ^ 32"
    using dl c(1) fin(1) dec32_card [of "card (live m)" g] by (auto simp: m(10) card_gt_0_iff)
  have rl: "xfers_really_alive ?m = card (really_live m - {d})"
    using dr c(2) fin(2,3) dec32_pos [of "card (really_live m)"] by (auto simp: m(11) card_gt_0_iff)
  have dm: "distinct (map fst (msglist ?m))" "fst ` set (msglist ?m) = fst ` set (msglist m) - {d}"
    using drop_msg_ok [OF f(15)] m(5) by simp_all
  have "multi_ok g ?m \<and> members ?m = members m - {d}"
    by (rule multi_ok_leave [OF f(1,2) m(1-4) tk])
      (use f al rl dm z in \<open>simp_all add: m(6-9) roomy_elems(1) [OF f(6)] roomy_elems(1) [OF f(7)] roomy_elems(1) [OF f(8)] upd_easy_def\<close>)
  then show ?thesis using dm(2) by simp
qed

lemma remove_handle_ok:
  assumes ok: "multi_ok g m" and d: "d \<noteq> admin m" and r: "curl_multi_remove_handle cb now out wakeup m d = (code, m')"
  shows "multi_ok g m' \<and> (if multi_magic m \<and> \<not> in_callback m then members m' = members m - {d} else members m' = members m)
    \<and> admin m' = admin m"
proof (cases "multi_magic m \<and> \<not> in_callback m \<and> d \<in> members m")
  case True
  then have a: "at g m d UNIV" using ok d by (simp add: at_def user_xfers_def)
  note f = at_facts [OF a]
  have pre: "magic_ok (easy m d)" "in_multi (timers_of m d)" "mid_of m d \<noteq> UINT32_MAX" "Curl_uint32_tbl_get (xfers m) (mid_of m d) = Some d"
    using f(5,13,16) member_key [OF f(4,5)] f(4) by (auto simp: members_def get_map table_ok_def tbl_inv_def)
  define m1 where "m1 = (if has_conn (easy m d) then snd (multi_done out m d (xfer_result (easy m d)) (state_of m d < MSTATE_COMPLETED)) else m)"
  have m1: "at g m1 d UNIV" "frame d m m1" using a at_done [OF a] by (simp_all add: m1_def)
  define m2 where "m2 = m1\<lparr>tim := Curl_expire_clear (tim m1) d\<rparr>"
  have tk: "tim_keeps (tim m1) (Curl_expire_clear (tim m1) d)" using tim_keeps_clear [OF at_facts(12) [OF m1(1)]] .
  have m2: "at g m2 d UNIV" "frame d m1 m2" using at_tim [OF m1(1) tk] frame_tim [OF tk] by (simp_all add: m2_def)
  have "in_multi (timers_of m1 d)" using at_facts(5) [OF m1(1)] by (simp add: members_def)
  then have z: "expiretime (timers_of m2 d) = tv_zero" by (simp add: m2_def Curl_expire_clear_eq upd_easy_def)
  note ds = dismissed_ok [OF m2(1) z]
  define m6 where "m6 = process_pending_handles (dismissed m2 d)"
  note m6 = process_pending_ok [OF conjunct1 [OF ds], folded m6_def, of d]
  obtain c7 m7 where u: "update_timer cb now m6 = (c7, m7)" by (rule prod.exhaust)
  from update_timer_ok [OF conjunct1 [OF m6] u, of d] have m7: "multi_ok g m7" "frame d m6 m7" by blast+
  have e: "curl_multi_remove_handle cb now out wakeup m d
      = (case update_timer cb now m6 of (c, x) \<Rightarrow> if c \<noteq> CURLM_OK then (c, x) else (wakeup, x))"
    unfolding curl_multi_remove_handle_def Let_def m6_def dismissed_def m2_def m1_def using True pre by simp
  have "m' = m7" using r e u by (simp split: if_splits)
  moreover have "members m7 = members m - {d}" using m7(2) m6 ds m2(2) m1(2) by (simp add: frame_def)
  moreover have "admin m7 = admin m"
    using m7(2) m6 m2(2) m1(2) by (simp add: frame_def) (simp add: dismissed_def multi_forget_def Curl_detach_connection_def Let_def)
  ultimately show ?thesis using m7(1) True by simp
next
  case False
  then have "m' = m" using r by (auto simp: curl_multi_remove_handle_def members_def split: if_splits)
  then show ?thesis using ok False by auto
qed

end
