(* ===== verification/Multi_Run.thy ===== *)
theory Multi_Run
  imports Multi_Inv
begin

text \<open>
  The state machine that moves a transfer from its start to its end, \<^verbatim>\<open>multi_runsingle\<close> and its
  state functions in \<^verbatim>\<open>lib/multi.c\<close>, and \<^verbatim>\<open>curl_multi_perform\<close>, which runs it on every
  processed transfer.

  Connections, protocols, rate limits and callbacks answer for themselves: what they return in
  one round of the loop is a \<open>round_env\<close>, and what they do to timers, the set of dirty transfers and
  the flag for waiting transfers is a list of \<open>env_effect\<close>s, applied at the call the state makes.
\<close>

section \<open>The environment\<close>

datatype env_effect =
    Expires nat int expire_id
  | Expire_ends nat expire_id
  | Marks_dirty nat
  | Conn_changed
  | Do_started

datatype domore = DOMORE_GOBACK | DOMORE_INCOMPLETE | DOMORE_DONE

datatype followtype = FOLLOW_NONE | FOLLOW_FAKE | FOLLOW_RETRY | FOLLOW_REDIR

text \<open>The time limits of a transfer; the time left for a shutdown when one has started.\<close>

record xfer_limits =
  set_timeout :: int
  set_connecttimeout :: int
  set_connect_only :: bool
  set_connect_only_ws :: bool
  t_startop :: curltime
  t_startsingle :: curltime
  shutdown_left :: "int option"

text \<open>What the rate limits of one direction answer: the wait, and the time to the next step.\<close>

record rlimits =
  rl_active :: bool
  ul_wait_ms :: int
  dl_wait_ms :: int
  ul_step_ms :: int
  dl_step_ms :: int

text \<open>
  The answers of one round.  \<open>call_rc\<close> and \<open>call_done\<close> belong to the call the state makes:
  \<open>Curl_pretransfer\<close>, \<open>Curl_connect\<close>, \<open>Curl_conn_connect\<close>, the functions of the protocol,
  \<open>Curl_sendrecv\<close>, \<open>Curl_pgrsCheck\<close>.
\<close>

record round_env =
  r_now :: curltime
  r_later :: curltime
  limits :: xfer_limits
  effects :: "env_effect list"
  wakeup_rc :: CURLMcode
  call_rc :: CURLcode
  call_done :: bool
  call_more :: domore
  conn_reuse :: bool
  conn_multiplex :: bool
  conn_do_more :: bool
  conn_sockets :: bool
  conn_connected :: bool
  recv_paused :: bool
  prereq_rc :: "int option"
  wildcardmatch :: bool
  wildcard_skip :: bool
  wildcard_done :: bool
  speed_before :: rlimits
  speed_after :: rlimits
  request_done :: bool
  req_newurl :: bool
  req_location :: bool
  cwriter_paused :: bool
  retry_rc :: CURLcode
  retry_url :: bool
  url_dup :: bool
  h2_http_1_1_error :: bool
  follow_rc :: "CURLcode option"
  pgrs_update :: CURLcode
  done_out :: done_outcome

fun apply_effect :: "curltime \<Rightarrow> nat \<Rightarrow> env_effect \<Rightarrow> Curl_multi \<Rightarrow> Curl_multi" where
  "apply_effect now d (Expires x ms eid) m = m\<lparr>tim := Curl_expire now (tim m) x ms eid\<rparr>"
| "apply_effect now d (Expire_ends x eid) m = m\<lparr>tim := Curl_expire_done (tim m) x eid\<rparr>"
| "apply_effect now d (Marks_dirty x) m = multi_mark_dirty m x"
| "apply_effect now d Conn_changed m = m\<lparr>recheckstate := True\<rparr>"
| "apply_effect now d Do_started m = upd_xfer d (state_done_update (\<lambda>_. False)) m"

definition env_call :: "round_env \<Rightarrow> nat \<Rightarrow> Curl_multi \<Rightarrow> Curl_multi" where
  "env_call e d m = fold (apply_effect (r_now e) d) (effects e) m"

section \<open>Time limits\<close>

definition DEFAULT_CONNECT_TIMEOUT :: int where
  "DEFAULT_CONNECT_TIMEOUT = 300000"

definition Curl_is_connecting :: "CURLMstate \<Rightarrow> bool" where
  "Curl_is_connecting st \<longleftrightarrow> st < MSTATE_DO"

definition timeleft_now_ms :: "CURLMstate \<Rightarrow> xfer_limits \<Rightarrow> curltime \<Rightarrow> int" where
  "timeleft_now_ms st l now =
     (case shutdown_left l of
        Some ms \<Rightarrow> ms
      | None \<Rightarrow>
          if \<not> Curl_is_connecting st \<and> (set_timeout l = 0 \<or> set_connect_only l) then 0
          else
            (let c = (if Curl_is_connecting st then
                        (let c0 = (if set_connecttimeout l > 0 then set_connecttimeout l else DEFAULT_CONNECT_TIMEOUT)
                                    - curlx_ptimediff_ms now (t_startsingle l)
                         in if c0 = 0 then -1 else c0)
                      else 0);
                 t = (if set_timeout l \<noteq> 0 then
                        (let t0 = set_timeout l - curlx_ptimediff_ms now (t_startop l) in if t0 = 0 then -1 else t0)
                      else 0)
             in if c = 0 then t else if t = 0 then c else min c t))"

text \<open>Whether the transfer has timed out, its result, whether its stream failed, the state.\<close>

definition multi_handle_timeout ::
  "done_outcome \<Rightarrow> xfer_limits \<Rightarrow> curltime \<Rightarrow> Curl_multi \<Rightarrow> nat \<Rightarrow> bool \<Rightarrow> CURLcode \<Rightarrow> bool \<times> CURLcode \<times> bool \<times> Curl_multi" where
  "multi_handle_timeout out l now m d stream_error result =
     (if timeleft_now_ms (state_of m d) l now < 0 then
        if has_conn (easy m d) then
          (True, CURLE_OPERATION_TIMEDOUT, stream_error \<or> state_of m d > MSTATE_DO,
           snd (multi_done out m d CURLE_OPERATION_TIMEDOUT True))
        else (True, CURLE_OPERATION_TIMEDOUT, stream_error, m)
      else (False, result, stream_error, m))"

section \<open>The states\<close>

text \<open>What a state function gives back: its code, the result, whether the stream failed.\<close>

type_synonym state_result = "CURLMcode \<times> CURLcode \<times> bool \<times> Curl_multi"

definition mspeed_check :: "curltime \<Rightarrow> rlimits \<Rightarrow> Curl_multi \<Rightarrow> nat \<Rightarrow> CURLcode \<times> Curl_multi" where
  "mspeed_check now rl m d =
     (if rl_active rl \<and> (ul_wait_ms rl \<noteq> 0 \<or> dl_wait_ms rl \<noteq> 0) then
        (let m1 = multistate m d MSTATE_RATELIMITING;
             m2 = m1\<lparr>tim := Curl_expire now (tim m1) d (max (ul_wait_ms rl) (dl_wait_ms rl)) EXPIRE_TOOFAST\<rparr>
         in (CURLE_AGAIN, Curl_multi_clear_dirty m2 d))
      else
        (let m1 = (if rl_active rl \<and> (ul_step_ms rl \<noteq> 0 \<or> dl_step_ms rl \<noteq> 0) then
                     (let lo = min (ul_step_ms rl) (dl_step_ms rl);
                          next_ms = (if lo = 0 then max (ul_step_ms rl) (dl_step_ms rl) else lo)
                      in m\<lparr>tim := Curl_expire now (tim m) d next_ms EXPIRE_TOOFAST\<rparr>)
                   else m)
         in (CURLE_OK, multistate m1 d MSTATE_PERFORMING)))"

definition multi_follow :: "CURLcode option \<Rightarrow> followtype \<Rightarrow> CURLcode" where
  "multi_follow follow type =
     (case follow of
        Some rc \<Rightarrow> rc
      | None \<Rightarrow> if type = FOLLOW_RETRY then CURLE_OK else CURLE_TOO_MANY_REDIRECTS)"

definition multistate_init :: "round_env \<Rightarrow> Curl_multi \<Rightarrow> nat \<Rightarrow> CURLcode \<Rightarrow> state_result" where
  "multistate_init e m d result =
     (let m1 = (if really_alive (easy m d) then m
                else (upd_xfer d (really_alive_update (\<lambda>_. True)) m)\<lparr>xfers_really_alive := inc32 (xfers_really_alive m)\<rparr>)
      in if \<not> really_alive (easy m d) \<and> xfers_really_alive m1 = 1 \<and> wakeup_rc e \<noteq> CURLM_OK then (wakeup_rc e, result, False, m1)
         else
           (let m2 = env_call e d m1 in
            if call_rc e \<noteq> CURLE_OK then (CURLM_OK, call_rc e, False, m2)
            else (CURLM_CALL_MULTI_PERFORM, CURLE_OK, False, multistate m2 d MSTATE_SETUP)))"

definition multistate_setup :: "round_env \<Rightarrow> Curl_multi \<Rightarrow> nat \<Rightarrow> CURLcode \<Rightarrow> state_result" where
  "multistate_setup e m d result =
     (let l = limits e;
          m1 = (if set_timeout l \<noteq> 0 then m\<lparr>tim := Curl_expire (r_now e) (tim m) d (set_timeout l) EXPIRE_TIMEOUT\<rparr> else m);
          m2 = (if set_connecttimeout l \<noteq> 0
                then m1\<lparr>tim := Curl_expire (r_now e) (tim m1) d (set_connecttimeout l) EXPIRE_CONNECTTIMEOUT\<rparr> else m1)
      in (CURLM_CALL_MULTI_PERFORM, result, False, multistate m2 d MSTATE_CONNECT))"

text \<open>The transfer goes from the processed transfers to those that wait for a connection.\<close>

definition park_pending :: "Curl_multi \<Rightarrow> nat \<Rightarrow> Curl_multi" where
  "park_pending m d =
     (let m1 = multistate m d MSTATE_PENDING; i = mid_of m1 d in
      (set_dirty (Curl_uint32_bset_remove (dirty (tim m1)) i) m1)
        \<lparr>process := Curl_uint32_bset_remove (process m1) i, pending := snd (Curl_uint32_bset_add (pending m1) i)\<rparr>)"

definition multistate_connect :: "round_env \<Rightarrow> Curl_multi \<Rightarrow> nat \<Rightarrow> state_result" where
  "multistate_connect e m d =
     (let rc = call_rc e;
          m1 = upd_xfer d (has_conn_update (\<lambda>_. rc = CURLE_OK)) (env_call e d m)
      in if rc = CURLE_NO_CONNECTION_AVAILABLE then (CURLM_OK, CURLE_OK, False, park_pending m1 d)
         else
           (let m2 = process_pending_handles m1 in
            if rc \<noteq> CURLE_OK then (CURLM_OK, rc, False, m2)
            else if call_done e then
              (CURLM_CALL_MULTI_PERFORM, rc, False,
               multistate (if \<not> conn_reuse e \<and> conn_multiplex e then process_pending_handles m2 else m2) d MSTATE_PROTOCONNECT)
            else (CURLM_CALL_MULTI_PERFORM, rc, False, multistate m2 d MSTATE_CONNECTING)))"

definition multistate_connecting :: "round_env \<Rightarrow> Curl_multi \<Rightarrow> nat \<Rightarrow> CURLcode \<Rightarrow> state_result" where
  "multistate_connecting e m d result =
     (if \<not> has_conn (easy m d) then (CURLM_OK, CURLE_FAILED_INIT, False, m)
      else if recv_paused e then (CURLM_OK, result, False, m)
      else
        (let rc = call_rc e; m1 = env_call e d m in
         if call_done e \<and> rc = CURLE_OK then
           (CURLM_CALL_MULTI_PERFORM, rc, False,
            multistate (if \<not> conn_reuse e \<and> conn_multiplex e then process_pending_handles m1 else m1) d MSTATE_PROTOCONNECT)
         else if rc \<noteq> CURLE_OK then (CURLM_OK, rc, True, snd (multi_done (done_out e) m1 d rc True))
         else (CURLM_OK, rc, False, m1)))"

definition multistate_protoconnect :: "round_env \<Rightarrow> Curl_multi \<Rightarrow> nat \<Rightarrow> CURLcode \<Rightarrow> state_result" where
  "multistate_protoconnect e m d result =
     (if result = CURLE_OK \<and> conn_reuse e then (CURLM_CALL_MULTI_PERFORM, result, False, multistate m d MSTATE_DO)
      else
        (let rc = (if result = CURLE_OK then call_rc e else result);
             m1 = (if result = CURLE_OK then env_call e d m else m)
         in if rc = CURLE_OK then
              (CURLM_CALL_MULTI_PERFORM, rc, False, multistate m1 d (if call_done e then MSTATE_DO else MSTATE_PROTOCONNECTING))
            else (CURLM_OK, rc, True, snd (multi_done (done_out e) m1 d rc True))))"

definition multistate_protoconnecting :: "round_env \<Rightarrow> Curl_multi \<Rightarrow> nat \<Rightarrow> state_result" where
  "multistate_protoconnecting e m d =
     (let rc = call_rc e; m1 = env_call e d m in
      if rc = CURLE_OK \<and> call_done e then (CURLM_CALL_MULTI_PERFORM, rc, False, multistate m1 d MSTATE_DO)
      else if rc \<noteq> CURLE_OK then (CURLM_OK, rc, True, snd (multi_done (done_out e) m1 d rc True))
      else (CURLM_OK, rc, False, m1))"

text \<open>The part of \<open>multistate_do\<close> for a connection that was reused and has died.\<close>

definition do_retry :: "round_env \<Rightarrow> Curl_multi \<Rightarrow> nat \<Rightarrow> state_result" where
  "do_retry e m d =
     (let failed = (retry_rc e \<noteq> CURLE_OK);
          rc = (if failed then retry_rc e else CURLE_SEND_ERROR);
          (drc, m1) = multi_done (done_out e) m d rc False
      in if retry_url e then
           if drc = CURLE_OK \<or> drc = CURLE_SEND_ERROR then
             (let frc = multi_follow (follow_rc e) FOLLOW_RETRY in
              if frc = CURLE_OK then (CURLM_CALL_MULTI_PERFORM, CURLE_OK, failed, multistate m1 d MSTATE_SETUP)
              else (CURLM_OK, frc, failed, m1))
           else (CURLM_OK, drc, failed, m1)
         else (CURLM_OK, rc, True, m1))"

definition multistate_do :: "round_env \<Rightarrow> Curl_multi \<Rightarrow> nat \<Rightarrow> state_result" where
  "multistate_do e m d =
     (if prereq_rc e \<noteq> None \<and> prereq_rc e \<noteq> Some 0 then
        (CURLM_OK, CURLE_ABORTED_BY_CALLBACK, True, snd (multi_done (done_out e) m d CURLE_ABORTED_BY_CALLBACK False))
      else if set_connect_only (limits e) \<and> \<not> set_connect_only_ws (limits e) then
        (CURLM_CALL_MULTI_PERFORM, CURLE_OK, False, multistate m d MSTATE_DONE)
      else
        (let rc = call_rc e; m1 = env_call e d m in
         if rc = CURLE_OK then
           if \<not> call_done e then
             if wildcardmatch e \<and> wildcard_skip e then
               (let m2 = snd (multi_done (done_out e) m1 d CURLE_OK False) in
                (CURLM_CALL_MULTI_PERFORM, rc, False,
                 multistate m2 d (if has_conn (easy m2 d) then MSTATE_DONE else MSTATE_COMPLETED)))
             else (CURLM_CALL_MULTI_PERFORM, rc, False, multistate m1 d MSTATE_DOING)
           else
             (CURLM_CALL_MULTI_PERFORM, rc, False, multistate m1 d (if conn_do_more e then MSTATE_DOING_MORE else MSTATE_DID))
         else if rc = CURLE_SEND_ERROR \<and> conn_reuse e then do_retry e m1 d
         else (CURLM_OK, rc, True, if has_conn (easy m1 d) then snd (multi_done (done_out e) m1 d rc False) else m1)))"

definition multistate_doing :: "round_env \<Rightarrow> Curl_multi \<Rightarrow> nat \<Rightarrow> state_result" where
  "multistate_doing e m d =
     (let rc = call_rc e; m1 = env_call e d m in
      if rc \<noteq> CURLE_OK then (CURLM_OK, rc, True, snd (multi_done (done_out e) m1 d rc False))
      else if call_done e then
        (CURLM_CALL_MULTI_PERFORM, rc, False, multistate m1 d (if conn_do_more e then MSTATE_DOING_MORE else MSTATE_DID))
      else (CURLM_OK, rc, False, m1))"

definition multistate_doing_more :: "round_env \<Rightarrow> Curl_multi \<Rightarrow> nat \<Rightarrow> state_result" where
  "multistate_doing_more e m d =
     (let rc = call_rc e; m1 = env_call e d m in
      if rc \<noteq> CURLE_OK then (CURLM_OK, rc, True, snd (multi_done (done_out e) m1 d rc False))
      else if call_more e \<noteq> DOMORE_INCOMPLETE then
        (CURLM_CALL_MULTI_PERFORM, rc, False, multistate m1 d (if call_more e = DOMORE_DONE then MSTATE_DID else MSTATE_DOING))
      else (CURLM_OK, rc, False, m1))"

definition multistate_did :: "round_env \<Rightarrow> Curl_multi \<Rightarrow> nat \<Rightarrow> CURLcode \<Rightarrow> state_result" where
  "multistate_did e m d result =
     (let m1 = (if conn_multiplex e then process_pending_handles m else m) in
      (CURLM_CALL_MULTI_PERFORM, result, False, multistate m1 d (if conn_sockets e then MSTATE_PERFORMING else MSTATE_DONE)))"

text \<open>
  After \<open>Curl_sendrecv\<close>: the result, whether the request is to be sent again, and whether it counts
  as done.
\<close>

definition performing_retry :: "round_env \<Rightarrow> CURLcode \<times> bool \<times> bool" where
  "performing_retry e =
     (let rc = call_rc e in
      if request_done e \<or> rc = CURLE_RECV_ERROR then
        if retry_rc e = CURLE_OK \<and> retry_url e then (CURLE_OK, True, True)
        else (if retry_rc e \<noteq> CURLE_OK \<and> rc = CURLE_OK then retry_rc e else rc, False, request_done e)
      else if rc = CURLE_HTTP2_STREAM \<and> h2_http_1_1_error e then
        if retry_rc e = CURLE_OK then
          if retry_url e \<or> url_dup e then (CURLE_OK, True, True) else (CURLE_OUT_OF_MEMORY, False, request_done e)
        else (retry_rc e, False, request_done e)
      else (rc, False, request_done e))"

text \<open>The request is done: it is sent again, a redirect is followed, or the transfer ends.\<close>

definition performing_done :: "round_env \<Rightarrow> bool \<Rightarrow> Curl_multi \<Rightarrow> nat \<Rightarrow> state_result" where
  "performing_done e retry m d =
     (if req_newurl e \<or> retry then
        (let m1 = snd (multi_done (done_out e) m d CURLE_OK False);
             rc = multi_follow (follow_rc e) (if retry then FOLLOW_RETRY else FOLLOW_REDIR)
         in if rc = CURLE_OK then (CURLM_CALL_MULTI_PERFORM, rc, False, multistate m1 d MSTATE_SETUP)
            else (CURLM_OK, rc, False, m1))
      else
        (let frc = (if req_location e then multi_follow (follow_rc e) FOLLOW_FAKE else CURLE_OK);
             (rc, m1) = (if frc \<noteq> CURLE_OK then multi_done (done_out e) m d frc True else (CURLE_OK, m))
         in if rc = CURLE_OK then (CURLM_CALL_MULTI_PERFORM, rc, frc \<noteq> CURLE_OK, multistate m1 d MSTATE_DONE)
            else (CURLM_OK, rc, frc \<noteq> CURLE_OK, m1)))"

definition multistate_performing :: "round_env \<Rightarrow> Curl_multi \<Rightarrow> nat \<Rightarrow> state_result" where
  "multistate_performing e m d =
     (case mspeed_check (r_now e) (speed_before e) m d of
        (c, m1) \<Rightarrow>
          if c = CURLE_AGAIN then (CURLM_OK, CURLE_OK, False, m1)
          else
            (let m2 = env_call e d m1; (rc, retry, rdone) = performing_retry e in
             if rc \<noteq> CURLE_OK then (CURLM_OK, rc, False, snd (multi_done (done_out e) m2 d rc True))
             else if rdone \<and> \<not> cwriter_paused e then performing_done e retry m2 d
             else (CURLM_OK, rc, False, snd (mspeed_check (r_later e) (speed_after e) m2 d))))"

definition multistate_ratelimiting :: "round_env \<Rightarrow> Curl_multi \<Rightarrow> nat \<Rightarrow> state_result" where
  "multistate_ratelimiting e m d =
     (let rc = call_rc e; m1 = env_call e d m in
      if rc \<noteq> CURLE_OK then (CURLM_OK, rc, False, snd (multi_done (done_out e) m1 d rc True))
      else
        (case mspeed_check (r_now e) (speed_before e) m1 d of
           (c, m2) \<Rightarrow> (if c = CURLE_OK then CURLM_CALL_MULTI_PERFORM else CURLM_OK, rc, False, m2)))"

definition multistate_done :: "round_env \<Rightarrow> Curl_multi \<Rightarrow> nat \<Rightarrow> CURLcode \<Rightarrow> state_result" where
  "multistate_done e m d result =
     (let (rc, m1) = (if has_conn (easy m d)
                      then (case multi_done (done_out e) m d result False of
                              (r, x) \<Rightarrow> (if result = CURLE_OK then r else result, x))
                      else (result, m))
      in (CURLM_CALL_MULTI_PERFORM, rc, False,
          multistate m1 d (if wildcardmatch e \<and> \<not> wildcard_done e then MSTATE_INIT else MSTATE_COMPLETED)))"

definition run_state :: "round_env \<Rightarrow> Curl_multi \<Rightarrow> nat \<Rightarrow> CURLcode \<Rightarrow> state_result" where
  "run_state e m d result =
     (case state_of m d of
        MSTATE_INIT \<Rightarrow> multistate_init e m d result
      | MSTATE_SETUP \<Rightarrow> multistate_setup e m d result
      | MSTATE_CONNECT \<Rightarrow> multistate_connect e m d
      | MSTATE_CONNECTING \<Rightarrow> multistate_connecting e m d result
      | MSTATE_PROTOCONNECT \<Rightarrow> multistate_protoconnect e m d result
      | MSTATE_PROTOCONNECTING \<Rightarrow> multistate_protoconnecting e m d
      | MSTATE_DO \<Rightarrow> multistate_do e m d
      | MSTATE_DOING \<Rightarrow> multistate_doing e m d
      | MSTATE_DOING_MORE \<Rightarrow> multistate_doing_more e m d
      | MSTATE_DID \<Rightarrow> multistate_did e m d result
      | MSTATE_RATELIMITING \<Rightarrow> multistate_ratelimiting e m d
      | MSTATE_PERFORMING \<Rightarrow> multistate_performing e m d
      | MSTATE_DONE \<Rightarrow> multistate_done e m d result
      | MSTATE_COMPLETED \<Rightarrow> (CURLM_OK, result, False, m)
      | MSTATE_PENDING \<Rightarrow> (CURLM_OK, result, False, m)
      | MSTATE_MSGSENT \<Rightarrow> (CURLM_OK, result, False, m))"

definition is_finished :: "round_env \<Rightarrow> Curl_multi \<Rightarrow> nat \<Rightarrow> bool \<Rightarrow> CURLcode \<Rightarrow> CURLcode \<times> Curl_multi" where
  "is_finished e m d stream_error result =
     (if state_of m d < MSTATE_COMPLETED then
        if result \<noteq> CURLE_OK then
          (let m1 = process_pending_handles m;
               m2 = (if has_conn (easy m1 d) \<and> stream_error then Curl_detach_connection m1 d else m1)
           in (result, multistate m2 d MSTATE_COMPLETED))
        else if has_conn (easy m d) \<and> conn_connected e \<and> pgrs_update e \<noteq> CURLE_OK then
          (pgrs_update e, multistate m d (if state_of m d < MSTATE_DONE then MSTATE_DONE else MSTATE_COMPLETED))
        else (result, m)
      else (result, m))"

section \<open>The loop\<close>

datatype round_end = Stop CURLMcode Curl_multi | Again CURLcode Curl_multi

definition multi_ischanged :: "Curl_multi \<Rightarrow> bool \<times> Curl_multi" where
  "multi_ischanged m = (recheckstate m, m\<lparr>recheckstate := False\<rparr>)"

definition run_round :: "round_env \<Rightarrow> Curl_multi \<Rightarrow> nat \<Rightarrow> CURLcode \<Rightarrow> round_end" where
  "run_round e m d result =
     (let m0 = (case multi_ischanged m of (changed, x) \<Rightarrow> if changed then process_pending_handles x else x) in
      if state_of m0 d > MSTATE_CONNECT \<and> state_of m0 d < MSTATE_COMPLETED \<and> \<not> has_conn (easy m0 d)
      then Stop CURLM_INTERNAL_ERROR m0
      else
        (let (timed, r1, se1, m1) =
               (if state_of m0 d \<ge> MSTATE_CONNECT \<and> state_of m0 d < MSTATE_COMPLETED
                then multi_handle_timeout (done_out e) (limits e) (r_now e) m0 d False result
                else (False, result, False, m0));
             (mres, r2, se2, m2) = (if timed then (CURLM_OK, r1, se1, m1) else run_state e m1 d r1);
             (r3, se3, m3) =
               (if \<not> timed \<and> state_of m2 d \<ge> MSTATE_CONNECT \<and> state_of m2 d < MSTATE_DO
                   \<and> mres \<noteq> CURLM_CALL_MULTI_PERFORM \<and> \<not> recheckstate m2
                then snd (multi_handle_timeout (done_out e) (limits e) (r_later e) m2 d se2 r2)
                else (r2, se2, m2));
             (r4, m4) = is_finished e m3 d se3 r3;
             mres' = (if r4 \<noteq> CURLE_OK then CURLM_CALL_MULTI_PERFORM else mres)
         in if state_of m4 d = MSTATE_COMPLETED then Stop CURLM_OK (handle_completed m4 d r4)
            else if mres' = CURLM_CALL_MULTI_PERFORM \<or> recheckstate m4 then Again r4 m4
            else Stop mres' (upd_xfer d (xfer_result_update (\<lambda>_. r4)) m4)))"

text \<open>One answer per round; \<open>None\<close> when the loop wants another round and there is no answer.\<close>

fun run_loop :: "round_env list \<Rightarrow> Curl_multi \<Rightarrow> nat \<Rightarrow> CURLcode \<Rightarrow> (CURLMcode \<times> Curl_multi) option" where
  "run_loop [] m d result = None"
| "run_loop (e # es) m d result =
     (case run_round e m d result of
        Stop c m' \<Rightarrow> Some (c, m')
      | Again r m' \<Rightarrow> run_loop es m' d r)"

text \<open>A multi handle that is dead ends its transfers; the transfer is no longer dirty.\<close>

definition run_prepare :: "done_outcome \<Rightarrow> Curl_multi \<Rightarrow> nat \<Rightarrow> Curl_multi" where
  "run_prepare out m d =
     (let m1 = (if multi_dead (app m)
                then multistate (snd (multi_done out m d CURLE_ABORTED_BY_CALLBACK False)) d MSTATE_COMPLETED else m)
      in set_dirty (Curl_uint32_bset_remove (dirty (tim m1)) (mid_of m1 d)) m1)"

text \<open>The admin handle only lets go of connections that shut down, which is not modelled.\<close>

definition multi_runsingle ::
  "done_outcome \<Rightarrow> round_env list \<Rightarrow> Curl_multi \<Rightarrow> nat \<Rightarrow> (CURLMcode \<times> Curl_multi) option" where
  "multi_runsingle out es m d =
     (if \<not> magic_ok (easy m d) then Some (CURLM_BAD_EASY_HANDLE, m)
      else if d = admin m then Some (CURLM_OK, run_prepare out m d)
      else run_loop es (run_prepare out m d) d (if multi_dead (app m) then CURLE_ABORTED_BY_CALLBACK else CURLE_OK))"

section \<open>Each state keeps the invariant\<close>

text \<open>The clock and the delays of the environment are in range.\<close>

definition delay_ok :: "curltime \<Rightarrow> int \<Rightarrow> bool" where
  "delay_ok now ms \<longleftrightarrow> time_ok now \<and> now \<noteq> tv_zero \<and> 0 \<le> ms \<and> tv_sec now + ms < 2 ^ 61"

definition rlimits_ok :: "curltime \<Rightarrow> rlimits \<Rightarrow> bool" where
  "rlimits_ok now rl \<longleftrightarrow> delay_ok now (ul_wait_ms rl) \<and> delay_ok now (dl_wait_ms rl)
     \<and> delay_ok now (ul_step_ms rl) \<and> delay_ok now (dl_step_ms rl)"

fun effect_ok :: "curltime \<Rightarrow> env_effect \<Rightarrow> bool" where
  "effect_ok now (Expires x ms eid) = delay_ok now ms"
| "effect_ok now _ = True"

definition env_ok :: "round_env \<Rightarrow> bool" where
  "env_ok e \<longleftrightarrow> list_all (effect_ok (r_now e)) (effects e) \<and> delay_ok (r_now e) (set_timeout (limits e))
     \<and> delay_ok (r_now e) (set_connecttimeout (limits e)) \<and> rlimits_ok (r_now e) (speed_before e) \<and> rlimits_ok (r_later e) (speed_after e)
     \<and> wakeup_rc e \<noteq> CURLM_CALL_MULTI_PERFORM"

lemma reach_expire: "reach g d m m' S \<Longrightarrow> delay_ok now ms \<Longrightarrow> reach g d m (m'\<lparr>tim := Curl_expire now (tim m') x ms eid\<rparr>) S"
  by (rule reach_tim) (auto simp: delay_ok_def intro: tim_keeps_expire)

lemma reach_effect:
  "reach g d m m' running \<Longrightarrow> effect_ok now ef \<Longrightarrow> reach g d m (apply_effect now d ef m') running"
  by (cases ef)
    (auto simp: multi_mark_dirty_def delay_ok_def intro!: reach_upd reach_tim tim_keeps_expire tim_keeps_expire_done tim_keeps_mark)

lemma reach_effects:
  "reach g d m m' running \<Longrightarrow> list_all (effect_ok now) efs \<Longrightarrow> reach g d m (fold (apply_effect now d) efs m') running"
  by (induction efs arbitrary: m') (auto intro: reach_effect)

lemma reach_env: "reach g d m m' running \<Longrightarrow> env_ok e \<Longrightarrow> reach g d m (env_call e d m') running"
  unfolding env_call_def using reach_effects by (simp add: env_ok_def)

text \<open>What a state function may leave behind, apart from a transfer that has to wait.\<close>

definition onward :: "CURLMstate set" where
  "onward = insert MSTATE_COMPLETED running"

lemma reach_onward: "reach g d m m' running \<Longrightarrow> reach g d m m' onward"
  by (rule reach_mono) (auto simp: onward_def)

lemma reach_to:
  "reach g d m m' running \<Longrightarrow> active st \<or> st = MSTATE_COMPLETED \<Longrightarrow> reach g d m (multistate m' d st) onward"
  by (auto simp: onward_def intro: reach_multistate reach_completed)

lemma active_states [simp]:
  "active MSTATE_INIT" "active MSTATE_SETUP" "active MSTATE_CONNECT" "active MSTATE_CONNECTING" "active MSTATE_PROTOCONNECT"
  "active MSTATE_PROTOCONNECTING" "active MSTATE_DO" "active MSTATE_DOING" "active MSTATE_DOING_MORE" "active MSTATE_DID"
  "active MSTATE_PERFORMING" "active MSTATE_RATELIMITING" "active MSTATE_DONE"
  "\<not> active MSTATE_PENDING" "\<not> active MSTATE_COMPLETED" "\<not> active MSTATE_MSGSENT"
  by (simp_all add: active_def)

lemma reach_clear_dirty: "reach g d m m' S \<Longrightarrow> reach g d m (Curl_multi_clear_dirty m' x) S"
  unfolding Curl_multi_clear_dirty_def by (auto intro!: reach_tim tim_keeps_undirty)

lemma reach_speed:
  assumes "reach g d m m' running" and "rlimits_ok now rl"
  shows "reach g d m (snd (mspeed_check now rl m' d)) running"
proof -
  have "delay_ok now (max (ul_wait_ms rl) (dl_wait_ms rl))" "delay_ok now (max (ul_step_ms rl) (dl_step_ms rl))"
      "delay_ok now (min (ul_step_ms rl) (dl_step_ms rl))"
    using assms(2) by (auto simp: rlimits_ok_def max_def min_def)
  then show ?thesis using assms(1)
    by (auto simp: mspeed_check_def Let_def intro!: reach_clear_dirty reach_expire reach_multistate)
qed

text \<open>The first state counts the transfer as alive.\<close>

lemma reach_alive:
  assumes "reach g d m m' running" and "\<not> really_alive (easy m' d)"
  shows "reach g d m ((upd_xfer d (really_alive_update (\<lambda>_. True)) m')\<lparr>xfers_really_alive := inc32 (xfers_really_alive m')\<rparr>) running"
  using assms(1)
proof (rule reach_step)
  let ?m = "(upd_xfer d (really_alive_update (\<lambda>_. True)) m')\<lparr>xfers_really_alive := inc32 (xfers_really_alive m')\<rparr>"
  assume a: "at g m' d running"
  note f = at_facts [OF a]
  have "placed ?m d" using f(10) by (simp add: placed_def)
  then have "multi_ok g ?m \<and> members ?m = members m' \<and> user_xfers ?m = user_xfers m'"
    by (intro multi_ok_change [OF f(1,2)]) (use f assms(2) in \<open>auto simp: multi_ok_parts\<close>)
  moreover have "frame d m' ?m" by (auto simp: frame_def members_def)
  ultimately show "at g ?m d running \<and> frame d m' ?m" using f(2,3) by (simp add: at_def)
qed

named_theorems reach_rules

lemmas [reach_rules] = reach_env reach_done reach_pending_handles reach_env [THEN reach_onward] reach_done [THEN reach_onward]
  reach_pending_handles [THEN reach_onward] reach_to

lemma env_parts:
  "env_ok e \<Longrightarrow> rlimits_ok (r_now e) (speed_before e)" "env_ok e \<Longrightarrow> rlimits_ok (r_later e) (speed_after e)"
  "env_ok e \<Longrightarrow> delay_ok (r_now e) (set_timeout (limits e))" "env_ok e \<Longrightarrow> delay_ok (r_now e) (set_connecttimeout (limits e))"
  by (simp_all add: env_ok_def)

text \<open>Each state function, except for a transfer that has to wait, leads onward.\<close>

abbreviation final_state :: "state_result \<Rightarrow> Curl_multi" where
  "final_state r \<equiv> snd (snd (snd r))"

lemma state_init: "reach g d m m' running \<Longrightarrow> env_ok e \<Longrightarrow> reach g d m (final_state (multistate_init e m' d r)) onward"
proof -
  assume r: "reach g d m m' running" and e: "env_ok e"
  define m1 where "m1 = (if really_alive (easy m' d) then m'
    else (upd_xfer d (really_alive_update (\<lambda>_. True)) m')\<lparr>xfers_really_alive := inc32 (xfers_really_alive m')\<rparr>)"
  have "reach g d m m1 running" using r reach_alive by (simp add: m1_def)
  then show ?thesis unfolding multistate_init_def Let_def m1_def [symmetric] using e
    by (auto intro!: reach_rules intro: reach_onward)
qed

lemma state_setup: "reach g d m m' running \<Longrightarrow> env_ok e \<Longrightarrow> reach g d m (final_state (multistate_setup e m' d r)) onward"
proof -
  assume r: "reach g d m m' running" and e: "env_ok e"
  define m1 where "m1 = (if set_timeout (limits e) \<noteq> 0
    then m'\<lparr>tim := Curl_expire (r_now e) (tim m') d (set_timeout (limits e)) EXPIRE_TIMEOUT\<rparr> else m')"
  have "reach g d m m1 running" using r e by (simp add: m1_def reach_expire env_parts)
  then show ?thesis unfolding multistate_setup_def Let_def m1_def [symmetric] using e
    by (auto intro!: reach_rules reach_expire env_parts)
qed

lemma state_connecting: "reach g d m m' running \<Longrightarrow> env_ok e \<Longrightarrow> reach g d m (final_state (multistate_connecting e m' d r)) onward"
  unfolding multistate_connecting_def Let_def by (auto intro!: reach_rules intro: reach_onward)

lemma state_protoconnect: "reach g d m m' running \<Longrightarrow> env_ok e \<Longrightarrow> reach g d m (final_state (multistate_protoconnect e m' d r)) onward"
  unfolding multistate_protoconnect_def Let_def by (auto intro!: reach_rules intro: reach_onward)

lemma state_protoconnecting: "reach g d m m' running \<Longrightarrow> env_ok e \<Longrightarrow> reach g d m (final_state (multistate_protoconnecting e m' d)) onward"
  unfolding multistate_protoconnecting_def Let_def by (auto intro!: reach_rules intro: reach_onward)

lemma state_retry: "reach g d m m' running \<Longrightarrow> reach g d m (final_state (do_retry e m' d)) onward"
  unfolding do_retry_def Let_def case_prod_unfold by (auto intro!: reach_rules)

lemma state_do: "reach g d m m' running \<Longrightarrow> env_ok e \<Longrightarrow> reach g d m (final_state (multistate_do e m' d)) onward"
proof -
  assume r: "reach g d m m' running" and "env_ok e"
  then have "reach g d m (env_call e d m') running" by (rule reach_env)
  then show ?thesis using r unfolding multistate_do_def Let_def by (simp add: reach_to reach_done reach_onward state_retry)
qed

lemma state_doing: "reach g d m m' running \<Longrightarrow> env_ok e \<Longrightarrow> reach g d m (final_state (multistate_doing e m' d)) onward"
  unfolding multistate_doing_def Let_def by (auto intro!: reach_rules intro: reach_onward)

lemma state_doing_more: "reach g d m m' running \<Longrightarrow> env_ok e \<Longrightarrow> reach g d m (final_state (multistate_doing_more e m' d)) onward"
  unfolding multistate_doing_more_def Let_def by (auto intro!: reach_rules intro: reach_onward)

lemma state_did: "reach g d m m' running \<Longrightarrow> reach g d m (final_state (multistate_did e m' d r)) onward"
  unfolding multistate_did_def Let_def by (auto intro!: reach_rules)

lemma performing_done_onward: "reach g d m m' running \<Longrightarrow> reach g d m (final_state (performing_done e retry m' d)) onward"
  unfolding performing_done_def Let_def case_prod_unfold by (auto intro!: reach_rules)

lemma state_performing:
  assumes "reach g d m m' running" and "env_ok e"
  shows "reach g d m (final_state (multistate_performing e m' d)) onward"
proof -
  have "reach g d m (snd (mspeed_check (r_now e) (speed_before e) m' d)) running"
    using reach_speed [OF assms(1) env_parts(1) [OF assms(2)]] .
  then show ?thesis unfolding multistate_performing_def Let_def
    by (auto split: prod.splits simp: reach_onward intro!: performing_done_onward reach_speed [THEN reach_onward] reach_rules env_parts assms(2))
qed

lemma state_ratelimiting:
  "reach g d m m' running \<Longrightarrow> env_ok e \<Longrightarrow> reach g d m (final_state (multistate_ratelimiting e m' d)) onward"
  unfolding multistate_ratelimiting_def Let_def case_prod_unfold
  by (auto intro!: reach_speed [THEN reach_onward] reach_rules env_parts)

lemma state_done_onward: "reach g d m m' running \<Longrightarrow> reach g d m (final_state (multistate_done e m' d r)) onward"
  unfolding multistate_done_def Let_def case_prod_unfold by (auto intro!: reach_rules)

section \<open>The loop keeps the invariant\<close>

text \<open>Between two steps of a round; a transfer that waits has no error and no connection.\<close>

definition ready :: "nat \<Rightarrow> nat \<Rightarrow> Curl_multi \<Rightarrow> Curl_multi \<Rightarrow> CURLcode \<Rightarrow> bool" where
  "ready g d m m' r \<longleftrightarrow> reach g d m m' (insert MSTATE_PENDING onward)
     \<and> (state_of m' d = MSTATE_PENDING \<longrightarrow> r = CURLE_OK \<and> \<not> has_conn (easy m' d))"

lemma reach_state: "reach g d m m' S \<Longrightarrow> state_of m' d \<in> S"
  by (simp add: reach_def at_def)

lemma ready_onward: "reach g d m m' onward \<Longrightarrow> ready g d m m' r"
proof -
  assume a: "reach g d m m' onward"
  then have "reach g d m m' (insert MSTATE_PENDING onward)" by (rule reach_mono) blast
  moreover have "state_of m' d \<noteq> MSTATE_PENDING" using reach_state [OF a] by (auto simp: onward_def)
  ultimately show ?thesis by (simp add: ready_def)
qed

lemma ready_cases:
  assumes "ready g d m m' r"
  obtains (runs) "reach g d m m' running" "active (state_of m' d)"
  | (waits) "state_of m' d = MSTATE_PENDING" "r = CURLE_OK" "\<not> has_conn (easy m' d)" "reach g d m m' {MSTATE_PENDING}"
  | (completed) "state_of m' d = MSTATE_COMPLETED" "reach g d m m' {MSTATE_COMPLETED}"
proof -
  have r: "reach g d m m' (insert MSTATE_PENDING onward)" using assms by (simp add: ready_def)
  consider "active (state_of m' d)" | "state_of m' d = MSTATE_PENDING" | "state_of m' d = MSTATE_COMPLETED"
    using reach_state [OF r] by (auto simp: onward_def)
  then show ?thesis using r assms that by cases (auto simp: reach_def at_def ready_def)
qed

lemma frame_park: "at g m d running \<Longrightarrow> frame d m (park_pending m d)"
proof -
  assume a: "at g m d running"
  have "state_of m d \<noteq> MSTATE_PENDING" using at_facts(3) [OF a] by auto
  then show ?thesis using roomy_elems(1) [OF at_facts(6) [OF a]]
    by (auto simp: park_pending_def multistate_def frame_def members_def Let_def)
qed

lemma reach_park: "reach g d m m' running \<Longrightarrow> reach g d m (park_pending m' d) {MSTATE_PENDING}"
  by (rule reach_step) (auto intro: frame_park at_to_pending [folded park_pending_def])

lemma park_conn [simp]: "has_conn (easy (park_pending m d) d) = has_conn (easy m d)"
  by (simp add: park_pending_def multistate_def Let_def)

lemma state_connect:
  assumes "reach g d m m' running" and "env_ok e"
  shows "case multistate_connect e m' d of (c, r, se, m'') \<Rightarrow> ready g d m m'' r"
proof -
  define m1 where "m1 = upd_xfer d (has_conn_update (\<lambda>_. call_rc e = CURLE_OK)) (env_call e d m')"
  have m1: "reach g d m m1 running" unfolding m1_def by (rule reach_upd [OF reach_env [OF assms]]) simp_all
  show ?thesis
  proof (cases "call_rc e = CURLE_NO_CONNECTION_AVAILABLE")
    case True
    then have "\<not> has_conn (easy m1 d)" by (simp add: m1_def)
    moreover have "reach g d m (park_pending m1 d) (insert MSTATE_PENDING onward)" by (rule reach_mono [OF reach_park [OF m1]]) simp
    ultimately show ?thesis using True unfolding multistate_connect_def m1_def [symmetric] Let_def by (simp add: ready_def)
  next
    case False
    then show ?thesis using m1 unfolding multistate_connect_def m1_def [symmetric] Let_def
      by (auto intro!: ready_onward reach_rules)
  qed
qed

lemma state_step:
  assumes "ready g d m m' r" and "env_ok e" and "run_state e m' d r = (c, r', se, m'')"
  shows "ready g d m m'' r'"
  using assms(1)
proof (cases rule: ready_cases)
  case runs
  note facts = state_init [OF runs(1) assms(2), of r] state_setup [OF runs(1) assms(2), of r] state_connecting [OF runs(1) assms(2), of r]
    state_protoconnect [OF runs(1) assms(2), of r] state_protoconnecting [OF runs(1) assms(2)] state_do [OF runs(1) assms(2)]
    state_doing [OF runs(1) assms(2)] state_doing_more [OF runs(1) assms(2)] state_did [OF runs(1), of e r]
    state_performing [OF runs(1) assms(2)] state_ratelimiting [OF runs(1) assms(2)] state_done_onward [OF runs(1), of e r]
  show ?thesis
  proof (cases "state_of m' d = MSTATE_CONNECT")
    case True
    then show ?thesis using state_connect [OF runs(1) assms(2)] assms(3) by (simp add: run_state_def)
  next
    case False
    then have "reach g d m m'' onward" using facts runs(2) assms(3)
      by (cases "state_of m' d") (simp_all add: run_state_def)
    then show ?thesis by (rule ready_onward)
  qed
qed (use assms(1,3) in \<open>simp_all add: run_state_def\<close>)

lemma pending_conn:
  assumes "multi_ok g m" shows "has_conn (easy (process_pending_handles m) d) = has_conn (easy m d)"
    and "recheckstate (process_pending_handles m) = recheckstate m" and "multi_dead (app (process_pending_handles m)) = multi_dead (app m)"
  using assms
  by (cases rule: process_pending_cases;
      simp add: scanned_def released_def move_pending_to_connect_def multi_mark_dirty_def multistate_def Let_def)+

text \<open>Releasing a waiting transfer; it may be the one at work.\<close>

lemma ready_pending:
  assumes "ready g d m m' r"
  shows "ready g d m (process_pending_handles m') r"
  using assms
proof (cases rule: ready_cases)
  case runs
  then show ?thesis by (auto intro!: ready_onward reach_rules)
next
  case waits
  have a: "at g m' d {MSTATE_PENDING}" "frame d m m'" using waits(4) by (simp_all add: reach_def)
  note p = process_pending_ok [OF at_facts(1) [OF a(1)], of d]
  have "state_of (process_pending_handles m') d \<in> insert MSTATE_PENDING onward"
    using at_facts(1) [OF a(1)] waits(1)
    by (cases rule: process_pending_cases)
      (auto simp: scanned_def released_def move_pending_to_connect_def multi_mark_dirty_def multistate_def onward_def Let_def)
  then have "at g (process_pending_handles m') d (insert MSTATE_PENDING onward)"
    using p at_facts(2) [OF a(1)] by (simp add: at_def frame_def user_xfers_def)
  then show ?thesis using frame_trans [OF a(2)] p waits pending_conn(1) [OF at_facts(1) [OF a(1)]]
    by (simp add: ready_def reach_def)
next
  case completed
  have a: "at g m' d {MSTATE_COMPLETED}" "frame d m m'" using completed(2) by (simp_all add: reach_def)
  then show ?thesis using at_pending [OF a(1)] completed(1) frame_trans [OF a(2)]
    by (intro ready_onward) (auto simp: reach_def onward_def intro: at_mono)
qed

lemma ready_timeout:
  assumes "ready g d m m' r" and "state_of m' d \<ge> MSTATE_CONNECT" and "state_of m' d < MSTATE_COMPLETED"
    and "multi_handle_timeout out l now m' d se r = (b, r', se', m'')"
  shows "ready g d m m'' r' \<and> (b \<longrightarrow> r' = CURLE_OPERATION_TIMEDOUT)"
proof -
  have "reach g d m m' running" using assms(1)
    by (cases rule: ready_cases) (use assms(2,3) in \<open>auto simp: mstate_order\<close>)
  then have "reach g d m m'' onward" using assms(4)
    by (auto simp: multi_handle_timeout_def split: if_splits intro!: reach_rules intro: reach_onward)
  then show ?thesis using assms(4) ready_onward by (auto simp: multi_handle_timeout_def split: if_splits)
qed

lemma ready_finished:
  assumes "ready g d m m' r" and "is_finished e m' d se r = (r', m'')"
  shows "ready g d m m'' r' \<and> (r' \<noteq> CURLE_OK \<longrightarrow> state_of m'' d = MSTATE_COMPLETED \<or> state_of m'' d = MSTATE_DONE)
    \<and> (state_of m' d = MSTATE_COMPLETED \<longrightarrow> r' = r \<and> m'' = m')"
  using assms(1)
proof (cases rule: ready_cases)
  case runs
  then have lt: "state_of m' d < MSTATE_COMPLETED" by (cases "state_of m' d") (simp_all add: mstate_order)
  define m1 where "m1 = process_pending_handles m'"
  have m1: "reach g d m m1 running" using reach_pending_handles [OF runs(1)] by (simp add: m1_def)
  then have m2: "reach g d m (if has_conn (easy m1 d) \<and> se then Curl_detach_connection m1 d else m1) running"
    by (auto simp: Curl_detach_connection_def intro!: reach_upd)
  have s: "state_of m' d \<noteq> MSTATE_COMPLETED" using runs(2) by auto
  have "reach g d m m'' onward \<and> (r' \<noteq> CURLE_OK \<longrightarrow> state_of m'' d = MSTATE_COMPLETED \<or> state_of m'' d = MSTATE_DONE)"
    using assms(2) runs(1) m2 lt unfolding is_finished_def m1_def [symmetric] Let_def
    by (auto simp: reach_onward intro!: reach_to split: if_splits)
  then show ?thesis using ready_onward s by blast
next
  case waits
  then show ?thesis using assms by (simp add: is_finished_def mstate_order)
next
  case completed
  then show ?thesis using assms by (simp add: is_finished_def)
qed

lemma ready_recheck [simp]: "ready g d m (m'\<lparr>recheckstate := b\<rparr>) r = ready g d m m' r"
  by (simp add: ready_def)

lemma ready_reach: "ready g d m m' r \<Longrightarrow> reach g d m m' UNIV"
  by (auto simp: ready_def intro: reach_mono)

text \<open>The pieces of a round, in order.\<close>

definition round_start :: "Curl_multi \<Rightarrow> Curl_multi" where
  "round_start m = (case multi_ischanged m of (changed, x) \<Rightarrow> if changed then process_pending_handles x else x)"

definition round_first :: "round_env \<Rightarrow> Curl_multi \<Rightarrow> nat \<Rightarrow> CURLcode \<Rightarrow> bool \<times> CURLcode \<times> bool \<times> Curl_multi" where
  "round_first e m d r =
     (if state_of m d \<ge> MSTATE_CONNECT \<and> state_of m d < MSTATE_COMPLETED
      then multi_handle_timeout (done_out e) (limits e) (r_now e) m d False r else (False, r, False, m))"

definition round_last :: "round_env \<Rightarrow> bool \<Rightarrow> Curl_multi \<Rightarrow> nat \<Rightarrow> CURLMcode \<Rightarrow> CURLcode \<Rightarrow> bool \<Rightarrow> CURLcode \<times> bool \<times> Curl_multi" where
  "round_last e timed m d c r se =
     (if \<not> timed \<and> state_of m d \<ge> MSTATE_CONNECT \<and> state_of m d < MSTATE_DO \<and> c \<noteq> CURLM_CALL_MULTI_PERFORM \<and> \<not> recheckstate m
      then snd (multi_handle_timeout (done_out e) (limits e) (r_later e) m d se r) else (r, se, m))"

lemma run_round_cases:
  obtains (broken) "run_round e m d r = Stop CURLM_INTERNAL_ERROR (round_start m)"
      "state_of (round_start m) d > MSTATE_CONNECT" "\<not> has_conn (easy (round_start m) d)"
  | (goes) timed r1 se1 m1 c r2 se2 m2 r3 se3 m3 r4 m4 where
      "round_first e (round_start m) d r = (timed, r1, se1, m1)"
      "(if timed then (CURLM_OK, r1, se1, m1) else run_state e m1 d r1) = (c, r2, se2, m2)"
      "round_last e timed m2 d c r2 se2 = (r3, se3, m3)" "is_finished e m3 d se3 r3 = (r4, m4)"
      "run_round e m d r =
        (if state_of m4 d = MSTATE_COMPLETED then Stop CURLM_OK (handle_completed m4 d r4)
         else if r4 \<noteq> CURLE_OK \<or> c = CURLM_CALL_MULTI_PERFORM \<or> recheckstate m4 then Again r4 m4
         else Stop c (upd_xfer d (xfer_result_update (\<lambda>_. r4)) m4))"
proof (cases "state_of (round_start m) d > MSTATE_CONNECT \<and> state_of (round_start m) d < MSTATE_COMPLETED \<and> \<not> has_conn (easy (round_start m) d)")
  case True
  then show ?thesis using broken by (simp add: run_round_def round_start_def [symmetric])
next
  case False
  obtain timed r1 se1 m1 where 1: "round_first e (round_start m) d r = (timed, r1, se1, m1)" by (metis prod_cases4)
  obtain c r2 se2 m2 where 2: "(if timed then (CURLM_OK, r1, se1, m1) else run_state e m1 d r1) = (c, r2, se2, m2)" by (metis prod_cases4)
  obtain r3 se3 m3 where 3: "round_last e timed m2 d c r2 se2 = (r3, se3, m3)" by (metis prod_cases3)
  obtain r4 m4 where 4: "is_finished e m3 d se3 r3 = (r4, m4)" by (rule prod.exhaust)
  have "run_round e m d r =
      (if state_of m4 d = MSTATE_COMPLETED then Stop CURLM_OK (handle_completed m4 d r4)
       else if r4 \<noteq> CURLE_OK \<or> c = CURLM_CALL_MULTI_PERFORM \<or> recheckstate m4 then Again r4 m4
       else Stop c (upd_xfer d (xfer_result_update (\<lambda>_. r4)) m4))"
    unfolding run_round_def round_start_def [symmetric] Let_def if_not_P [OF False]
      round_first_def [symmetric] 1 prod.case 2 round_last_def [symmetric] 3 4 by simp
  then show ?thesis using goes [OF 1 2 3 4] by blast
qed

lemma ready_start:
  assumes "ready g d m m' r" shows "ready g d m (round_start m') r"
  using assms ready_pending [of g d m "m'\<lparr>recheckstate := False\<rparr>" r] by (simp add: round_start_def multi_ischanged_def)

lemma timeout_quiet: "multi_handle_timeout out l now m d se r = (False, r', se', m') \<Longrightarrow> r' = r \<and> m' = m"
  by (auto simp: multi_handle_timeout_def split: if_splits)

lemma round_first_ok:
  assumes "ready g d m0 m r" and "round_first e m d r = (timed, r1, se1, m1)"
  shows "ready g d m0 m1 r1 \<and> (timed \<longrightarrow> r1 \<noteq> CURLE_OK) \<and> (\<not> timed \<longrightarrow> m1 = m)"
proof (cases "state_of m d \<ge> MSTATE_CONNECT \<and> state_of m d < MSTATE_COMPLETED")
  case True
  then have t: "multi_handle_timeout (done_out e) (limits e) (r_now e) m d False r = (timed, r1, se1, m1)"
    using assms(2) by (simp add: round_first_def)
  show ?thesis using ready_timeout [OF assms(1) conjunct1 [OF True] conjunct2 [OF True] t] timeout_quiet t by auto
qed (use assms in \<open>auto simp: round_first_def\<close>)

lemma round_last_ok:
  assumes "ready g d m0 m r" and "round_last e timed m d c r se = (r1, se1, m1)"
  shows "ready g d m0 m1 r1 \<and> (r1 = CURLE_OK \<longrightarrow> r = CURLE_OK \<and> m1 = m)"
proof (cases "(r1, se1, m1) = (r, se, m)")
  case False
  then have s: "state_of m d \<ge> MSTATE_CONNECT" "state_of m d < MSTATE_COMPLETED"
      "snd (multi_handle_timeout (done_out e) (limits e) (r_later e) m d se r) = (r1, se1, m1)"
    using assms(2) by (auto simp: round_last_def mstate_order split: if_splits)
  then obtain b where t: "multi_handle_timeout (done_out e) (limits e) (r_later e) m d se r = (b, r1, se1, m1)"
    by (metis prod.collapse)
  have "\<not> b \<Longrightarrow> r1 = r \<and> m1 = m" using timeout_quiet [of "done_out e" "limits e" "r_later e" m d se r r1 se1 m1] t by simp
  then show ?thesis using ready_timeout [OF assms(1) s(1,2) t] by (cases b) auto
qed (use assms in auto)

lemma xfer_round_ok:
  assumes "ready g d m m' r" and "env_ok e"
  shows "case run_round e m' d r of Stop c x \<Rightarrow> reach g d m x UNIV | Again r' x \<Rightarrow> ready g d m x r'"
proof (cases rule: run_round_cases [of e m' d r])
  case broken
  then show ?thesis using ready_reach [OF ready_start [OF assms(1)]] by simp
next
  case (goes timed r1 se1 m1 c r2 se2 m2 r3 se3 m3 r4 m4)
  have 1: "ready g d m m1 r1" using round_first_ok [OF ready_start [OF assms(1)] goes(1)] by simp
  have 2: "ready g d m m2 r2" using goes(2) 1 state_step [OF 1 assms(2)] by (auto split: if_splits)
  have 3: "ready g d m m3 r3" using round_last_ok [OF 2 goes(3)] by simp
  note 4 = ready_finished [OF 3 goes(4)]
  show ?thesis
  proof (cases "state_of m4 d = MSTATE_COMPLETED")
    case True
    then have "reach g d m m4 {MSTATE_COMPLETED}" using ready_reach [OF conjunct1 [OF 4]] by (simp add: reach_def at_def)
    then have "reach g d m (handle_completed m4 d r4) {MSTATE_MSGSENT}"
      by (rule reach_step) (use at_handle_completed in blast)
    then show ?thesis using goes(5) True by (auto intro: reach_mono)
  next
    case False
    have "reach g d m (upd_xfer d (xfer_result_update (\<lambda>_. q)) m4) UNIV" for q
      using ready_reach [OF conjunct1 [OF 4]] by (rule reach_step) (auto intro: at_mono [OF at_upd] frame_upd)
    then show ?thesis using goes(5) False 4 by simp
  qed
qed

lemma xfer_loop_ok:
  "ready g d m m' r \<Longrightarrow> list_all env_ok es \<Longrightarrow> run_loop es m' d r = Some (c, x) \<Longrightarrow> reach g d m x UNIV"
proof (induction es arbitrary: m' r)
  case (Cons e es)
  have "env_ok e" using Cons.prems(2) by simp
  from xfer_round_ok [OF Cons.prems(1) this] Cons show ?case by (auto split: round_end.splits)
qed simp

section \<open>Running one transfer\<close>

text \<open>The admin handle may be moved between any states; it is in no set but that of the processed.\<close>

lemma multi_ok_admin:
  assumes ok: "multi_ok g m"
    and same: "xfers m' = xfers m" "admin m' = admin m" "last_pending_mid m' < UINT32_MAX" "tim_keeps (tim m) (tim m')"
    and easy: "\<And>x. x \<noteq> admin m \<Longrightarrow> easy m' x = easy m x" "magic_ok (easy m' (admin m))"
      "really_alive (easy m' (admin m)) = really_alive (easy m (admin m))"
    and sets: "roomy m (process m')" "bset_elems (process m') - {mid_of m (admin m)} = bset_elems (process m) - {mid_of m (admin m)}"
      "roomy m (pending m')" "bset_elems (pending m') = bset_elems (pending m)" "msgsent m' = msgsent m"
    and rest: "msglist m' = msglist m" "xfers_alive m' = xfers_alive m" "xfers_really_alive m' = xfers_really_alive m"
  shows "multi_ok g m' \<and> members m' = members m"
proof -
  have k: "\<And>x. in_multi (timers_of m' x) = in_multi (timers_of m x)" "\<And>x. mid_of m' x = mid_of m x" "timers_ok (tim m')"
    "\<And>x. \<not> in_multi (timers_of m x) \<Longrightarrow> expiretime (timers_of m' x) = expiretime (timers_of m x)"
    "nslots (dirty (tim m')) = nslots (dirty (tim m))"
    using same(4) by (simp_all add: tim_keeps_def)
  have mem: "members m' = members m" by (simp add: members_def k(1))
  have usr: "user_xfers m' = user_xfers m" by (simp add: user_xfers_def mem same(2))
  have t: "table_ok m" "admin m \<in> members m" using ok by (simp_all add: multi_ok_def table_ok_def)
  have "magic_ok (easy m' x)" if "x \<in> members m" for x using that easy(1) [of x] easy(2) t(1) by (metis table_ok_def)
  then have "table_ok m'" using t(1) by (simp add: table_ok_def mem same(1,2) k(2))
  moreover have "placed m' x" if "x \<in> user_xfers m" for x
  proof -
    have x: "x \<in> members m" "x \<noteq> admin m" using user_member [OF that] by simp_all
    then have "mid_of m x \<noteq> mid_of m (admin m)" using mid_inj [OF t(1) x(1) t(2)] by blast
    moreover have "placed m x" using ok that by (simp add: multi_ok_parts)
    ultimately show ?thesis unfolding placed_def k(2) easy(1) [OF x(2)] sets(4,5) using sets(2) by blast
  qed
  then have "sets_ok m'" using ok sets(1,3) k(3) unfolding sets_ok_def usr sets(4,5) k(2) roomy_def same(1) k(5)
    by (simp add: multi_ok_parts roomy_def timers_ok_def same(3))
  moreover have "times_ok m'" using ok k(3,4) by (simp add: multi_ok_parts mem) (simp add: members_def)
  moreover have "live m' = live m" unfolding live_def usr by (rule Collect_cong) (metis easy(1) user_member(2))
  moreover have "really_live m' = really_live m" unfolding really_live_def mem using easy(1,3) by (auto; metis)
  moreover have "msgs_ok m'" using ok easy(1) unfolding multi_ok_def msgs_ok_def usr rest(1) by (metis user_member(2))
  ultimately show ?thesis using ok rest mem by (simp add: multi_ok_def counts_ok_def)
qed

lemma admin_upd:
  assumes "multi_ok g m" and "\<And>e. magic_ok (f e) = magic_ok e" and "\<And>e. really_alive (f e) = really_alive e"
  shows "multi_ok g (upd_xfer (admin m) f m)"
proof -
  have "magic_ok (easy m (admin m))" using assms(1) by (auto simp: multi_ok_parts)
  then have "multi_ok g (upd_xfer (admin m) f m) \<and> members (upd_xfer (admin m) f m) = members m"
    by (intro multi_ok_admin [OF assms(1)]) (use assms in \<open>simp_all add: multi_ok_parts tim_keeps_def\<close>)
  then show ?thesis by simp
qed

lemma admin_done:
  assumes "multi_ok g m" and "d = admin m"
  shows "multi_ok g (snd (multi_done out m d status prem)) \<and> frame d m (snd (multi_done out m d status prem))"
proof -
  note p = process_pending_ok [OF assms(1), of d]
  have "frame d m x \<Longrightarrow> multi_ok g x \<Longrightarrow> (\<And>e. magic_ok (f e) = magic_ok e) \<Longrightarrow> (\<And>e. really_alive (f e) = really_alive e)
      \<Longrightarrow> multi_ok g (upd_xfer d f x) \<and> frame d m (upd_xfer d f x)" for x f
    using admin_upd [of g x f] frame_trans [OF _ frame_upd] assms(2) by (metis frame_def)
  then show ?thesis using assms p by (simp add: multi_done_def multi_done_locked_def Curl_detach_connection_def Let_def)
qed

lemma admin_completed:
  assumes "multi_ok g m" and "d = admin m"
  shows "multi_ok g (multistate m d MSTATE_COMPLETED) \<and> frame d m (multistate m d MSTATE_COMPLETED)"
proof (cases "state_of m d = MSTATE_COMPLETED")
  case False
  let ?m = "multistate m d MSTATE_COMPLETED"
  have r: "roomy m (process m)" "roomy m (pending m)" "magic_ok (easy m d)" "last_pending_mid m < UINT32_MAX"
    using assms by (auto simp: multi_ok_parts)
  have "mid_of m d \<notin> bset_elems (pending m)"
  proof
    assume "mid_of m d \<in> bset_elems (pending m)"
    then obtain x where "at g m x {MSTATE_PENDING}" "mid_of m x = mid_of m d" using pending_member [OF assms(1)] by blast
    moreover have "table_ok m" "d \<in> members m" using assms by (auto simp: multi_ok_parts)
    ultimately show False using mid_inj user_member assms(2) unfolding at_def by blast
  qed
  then have p: "bset_elems (pending ?m) = bset_elems (pending m)" "roomy m (pending ?m)" "roomy m (process ?m)"
      "bset_elems (process ?m) = bset_elems (process m) - {mid_of m d}" "tim ?m = Curl_expire_clear (tim m) d"
      "really_alive (easy ?m d) = really_alive (easy m d)" "magic_ok (easy ?m d)" "multi_magic ?m = multi_magic m" "in_callback ?m = in_callback m"
    using False r by (auto simp: multistate_def mstate_enter_completed_def Curl_detach_connection_def Let_def roomy_elems(1) [OF r(1)] roomy_elems(1) [OF r(2)])
  have t: "tim_keeps (tim m) (tim ?m)" using tim_keeps_clear [OF ok_timers [OF assms(1)]] p(5) by simp
  have "multi_ok g ?m \<and> members ?m = members m"
    by (rule multi_ok_admin [OF assms(1)]) (use p r t assms(2) multistate_easy in auto)
  moreover have "frame d m ?m" using t p multistate_easy by (auto simp: frame_def members_def tim_keeps_def)
  ultimately show ?thesis by simp
qed (use assms in \<open>simp add: multistate_def\<close>)

lemma frame_undirty:
  assumes "multi_ok g m" shows "multi_ok g (set_dirty (Curl_uint32_bset_remove (dirty (tim m)) i) m)
    \<and> frame d m (set_dirty (Curl_uint32_bset_remove (dirty (tim m)) i) m)"
  using multi_ok_tim [OF assms tim_keeps_undirty [OF ok_timers [OF assms]]] frame_tim [OF tim_keeps_undirty [OF ok_timers [OF assms]]] by simp

lemma runsingle_start:
  assumes "multi_ok g m" and "d \<in> members m" and "mid_of m d \<in> bset_elems (process m)" and "d \<noteq> admin m"
  shows "reach g d m m running"
proof -
  have u: "d \<in> user_xfers m" using assms(2,4) by (simp add: user_xfers_def)
  then have "active (state_of m d)" using assms(1,3) by (simp add: multi_ok_parts placed_def)
  then show ?thesis using assms(1) u by (simp add: reach_def at_def)
qed

lemma ready_prepared:
  assumes "reach g d m m running"
  shows "ready g d m (run_prepare out m d) r"
proof -
  define m1 where "m1 = (if multi_dead (app m) then multistate (snd (multi_done out m d CURLE_ABORTED_BY_CALLBACK False)) d MSTATE_COMPLETED else m)"
  have "reach g d m m1 onward" using assms unfolding m1_def by (auto intro!: reach_rules intro: reach_onward)
  then have "reach g d m (set_dirty (Curl_uint32_bset_remove (dirty (tim m1)) (mid_of m1 d)) m1) onward"
    by (auto intro!: reach_tim tim_keeps_undirty)
  then show ?thesis unfolding run_prepare_def Let_def m1_def [symmetric] by (rule ready_onward)
qed

lemma admin_prepared:
  assumes "multi_ok g m" and "d = admin m"
  shows "multi_ok g (run_prepare out m d) \<and> frame d m (run_prepare out m d)"
proof -
  define m1 where "m1 = (if multi_dead (app m) then multistate (snd (multi_done out m d CURLE_ABORTED_BY_CALLBACK False)) d MSTATE_COMPLETED else m)"
  let ?d = "snd (multi_done out m d CURLE_ABORTED_BY_CALLBACK False)"
  note x = admin_done [OF assms, of out CURLE_ABORTED_BY_CALLBACK False]
  then have "d = admin ?d" using assms(2) by (simp add: frame_def)
  note y = admin_completed [OF conjunct1 [OF x] this]
  have "multi_ok g m1 \<and> frame d m m1"
    using assms(1) frame_trans [OF conjunct2 [OF x] conjunct2 [OF y]] conjunct1 [OF y] by (simp add: m1_def)
  then show ?thesis unfolding run_prepare_def Let_def m1_def [symmetric]
    using frame_undirty [of g m1 "mid_of m1 d" d] frame_trans [of d m m1] by blast
qed

lemma runsingle_ok:
  assumes "multi_ok g m" and "d \<in> members m" and "mid_of m d \<in> bset_elems (process m)" and "list_all env_ok es"
    and "multi_runsingle out es m d = Some (c, m')"
  shows "multi_ok g m' \<and> frame d m m'"
proof (cases "d = admin m")
  case True
  have "magic_ok (easy m d)" using assms(1,2) by (auto simp: multi_ok_parts)
  then show ?thesis using assms(5) True admin_prepared [OF assms(1) True] by (auto simp: multi_runsingle_def)
next
  case False
  have "magic_ok (easy m d)" using assms(1,2) by (auto simp: multi_ok_parts)
  with assms(5) False have "run_loop es (run_prepare out m d) d (if multi_dead (app m) then CURLE_ABORTED_BY_CALLBACK else CURLE_OK) = Some (c, m')"
    by (simp add: multi_runsingle_def)
  from xfer_loop_ok [OF ready_prepared [OF runsingle_start [OF assms(1-3) False]] assms(4) this] show ?thesis by (simp add: reach_def at_def)
qed

section \<open>The loop ends\<close>

text \<open>The order in which a transfer passes through its states, and the answers that send it back.\<close>

fun rank :: "CURLMstate \<Rightarrow> nat" where
  "rank MSTATE_RATELIMITING = 11"
| "rank MSTATE_PERFORMING = 12"
| "rank st = mstate_num st"

definition goes_back :: "round_env \<Rightarrow> bool" where
  "goes_back e \<longleftrightarrow> retry_url e \<or> req_newurl e \<or> h2_http_1_1_error e \<or> wildcardmatch e \<or> call_more e = DOMORE_GOBACK
     \<or> Conn_changed \<in> set (effects e)"

lemma rank_bound: "rank st \<le> 15"
  by (cases st) simp_all

definition works :: "nat \<Rightarrow> Curl_multi \<Rightarrow> bool" where
  "works d m \<longleftrightarrow> (\<exists>g. at g m d running)"

lemma works_reach: "works d m \<longleftrightarrow> (\<exists>g. reach g d m m running)"
  by (simp add: works_def reach_def)

lemma works_env [simp]: "works d m \<Longrightarrow> env_ok e \<Longrightarrow> works d (env_call e d m)"
  using reach_env unfolding works_reach by (metis reach_def reach_start)

lemma env_same:
  "state_of (env_call e d m) d = state_of m d"
  "\<not> goes_back e \<Longrightarrow> recheckstate (env_call e d m) = recheckstate m"
proof -
  have 1: "state_of (apply_effect now d ef x) d = state_of x d" for now ef x
    by (cases ef) (simp_all add: multi_mark_dirty_def)
  have 2: "Conn_changed \<noteq> ef \<Longrightarrow> recheckstate (apply_effect now d ef x) = recheckstate x" for now ef x
    by (cases ef) (simp_all add: multi_mark_dirty_def)
  have "state_of (fold (apply_effect now d) efs x) d = state_of x d" for now efs x by (induction efs arbitrary: x) (simp_all add: 1)
  then show "state_of (env_call e d m) d = state_of m d" by (simp add: env_call_def)
  have "Conn_changed \<notin> set efs \<Longrightarrow> recheckstate (fold (apply_effect now d) efs x) = recheckstate x" for now efs x
    by (induction efs arbitrary: x) (simp_all add: 2)
  then show "\<not> goes_back e \<Longrightarrow> recheckstate (env_call e d m) = recheckstate m" by (simp add: env_call_def goes_back_def)
qed

lemma pending_same:
  assumes "works d m"
  shows "state_of (process_pending_handles m) d = state_of m d" and "recheckstate (process_pending_handles m) = recheckstate m"
    and "works d (process_pending_handles m)"
proof -
  obtain g where a: "at g m d running" using assms by (auto simp: works_def)
  then have "state_of m d \<noteq> MSTATE_PENDING" using at_facts(3) [OF a] by auto
  with at_pending [OF a] show "state_of (process_pending_handles m) d = state_of m d" by simp
  show "recheckstate (process_pending_handles m) = recheckstate m" using pending_conn(2) [OF at_facts(1) [OF a]] .
  show "works d (process_pending_handles m)" using reach_pending_handles [OF reach_start [OF a]] by (auto simp: works_def reach_def)
qed

lemma done_same:
  assumes "works d m"
  shows "state_of (snd (multi_done out m d st p)) d = state_of m d" and "recheckstate (snd (multi_done out m d st p)) = recheckstate m"
  using pending_same [OF assms] by (simp_all add: multi_done_def multi_done_locked_def Curl_detach_connection_def Let_def)

lemma speed_same:
  "recheckstate (snd (mspeed_check now rl m d)) = recheckstate m"
  "fst (mspeed_check now rl m d) = CURLE_OK \<Longrightarrow> state_of (snd (mspeed_check now rl m d)) d = MSTATE_PERFORMING"
  "fst (mspeed_check now rl m d) = CURLE_OK \<or> fst (mspeed_check now rl m d) = CURLE_AGAIN"
proof -
  have r: "recheckstate (Curl_multi_clear_dirty x d) = recheckstate x" for x by (simp add: Curl_multi_clear_dirty_def)
  show "recheckstate (snd (mspeed_check now rl m d)) = recheckstate m"
    unfolding mspeed_check_def Let_def by (auto simp: r)
  show "fst (mspeed_check now rl m d) = CURLE_OK \<Longrightarrow> state_of (snd (mspeed_check now rl m d)) d = MSTATE_PERFORMING"
    unfolding mspeed_check_def Let_def by (auto split: if_splits)
  show "fst (mspeed_check now rl m d) = CURLE_OK \<or> fst (mspeed_check now rl m d) = CURLE_AGAIN"
    unfolding mspeed_check_def Let_def by auto
qed

definition ahead :: "nat \<Rightarrow> Curl_multi \<Rightarrow> state_result \<Rightarrow> bool" where
  "ahead d m x \<longleftrightarrow> recheckstate (final_state x) = recheckstate m
     \<and> (fst x = CURLM_CALL_MULTI_PERFORM \<longrightarrow> rank (state_of m d) < rank (state_of (final_state x) d))
     \<and> (state_of m d = MSTATE_DONE \<longrightarrow> fst x = CURLM_CALL_MULTI_PERFORM)"

lemmas same_simps = env_same done_same speed_same(1)

lemma ahead_init: "works d m \<Longrightarrow> env_ok e \<Longrightarrow> \<not> goes_back e \<Longrightarrow> state_of m d = MSTATE_INIT \<Longrightarrow> ahead d m (multistate_init e m d r)"
  by (auto simp: ahead_def multistate_init_def same_simps env_ok_def Let_def)

lemma ahead_setup: "state_of m d = MSTATE_SETUP \<Longrightarrow> ahead d m (multistate_setup e m d r)"
  by (auto simp: ahead_def multistate_setup_def Let_def)

lemma works_conn [simp]: "works d m \<Longrightarrow> works d (upd_xfer d (has_conn_update f) m)"
  unfolding works_def using at_upd [of _ m d running "has_conn_update f"] at_facts(3) by (fastforce intro: at_mono)

lemma ahead_connect: "works d m \<Longrightarrow> env_ok e \<Longrightarrow> \<not> goes_back e \<Longrightarrow> state_of m d = MSTATE_CONNECT \<Longrightarrow> ahead d m (multistate_connect e m d)"
  by (auto simp: ahead_def multistate_connect_def park_pending_def same_simps pending_same [of d] Let_def)

lemma ahead_connecting: "works d m \<Longrightarrow> env_ok e \<Longrightarrow> \<not> goes_back e \<Longrightarrow> state_of m d = MSTATE_CONNECTING \<Longrightarrow> ahead d m (multistate_connecting e m d r)"
  by (auto simp: ahead_def multistate_connecting_def same_simps pending_same [of d] Let_def)

lemma ahead_protoconnect: "works d m \<Longrightarrow> env_ok e \<Longrightarrow> \<not> goes_back e \<Longrightarrow> state_of m d = MSTATE_PROTOCONNECT \<Longrightarrow> ahead d m (multistate_protoconnect e m d r)"
  by (auto simp: ahead_def multistate_protoconnect_def same_simps Let_def)

lemma ahead_protoconnecting: "works d m \<Longrightarrow> env_ok e \<Longrightarrow> \<not> goes_back e \<Longrightarrow> state_of m d = MSTATE_PROTOCONNECTING \<Longrightarrow> ahead d m (multistate_protoconnecting e m d)"
  by (auto simp: ahead_def multistate_protoconnecting_def same_simps Let_def)

lemma ahead_retry: "works d m \<Longrightarrow> \<not> goes_back e \<Longrightarrow> state_of m d = MSTATE_DO \<Longrightarrow> ahead d m (do_retry e m d)"
  unfolding do_retry_def Let_def case_prod_unfold by (simp add: ahead_def done_same goes_back_def)

lemma ahead_do: "works d m \<Longrightarrow> env_ok e \<Longrightarrow> \<not> goes_back e \<Longrightarrow> state_of m d = MSTATE_DO \<Longrightarrow> ahead d m (multistate_do e m d)"
  using ahead_retry [of d "env_call e d m" e]
  by (simp add: ahead_def multistate_do_def same_simps goes_back_def Let_def)

lemma ahead_doing: "works d m \<Longrightarrow> env_ok e \<Longrightarrow> \<not> goes_back e \<Longrightarrow> state_of m d = MSTATE_DOING \<Longrightarrow> ahead d m (multistate_doing e m d)"
  by (auto simp: ahead_def multistate_doing_def same_simps Let_def)

lemma ahead_doing_more: "works d m \<Longrightarrow> env_ok e \<Longrightarrow> \<not> goes_back e \<Longrightarrow> state_of m d = MSTATE_DOING_MORE \<Longrightarrow> ahead d m (multistate_doing_more e m d)"
  by (cases "call_more e") (auto simp: ahead_def multistate_doing_more_def same_simps goes_back_def Let_def)

lemma ahead_did: "works d m \<Longrightarrow> state_of m d = MSTATE_DID \<Longrightarrow> ahead d m (multistate_did e m d r)"
  by (auto simp: ahead_def multistate_did_def same_simps pending_same [of d] Let_def)

lemma ahead_done: "works d m \<Longrightarrow> \<not> goes_back e \<Longrightarrow> state_of m d = MSTATE_DONE \<Longrightarrow> ahead d m (multistate_done e m d r)"
  unfolding multistate_done_def Let_def case_prod_unfold by (simp add: ahead_def done_same goes_back_def)

lemma works_speed: "works d m \<Longrightarrow> rlimits_ok now rl \<Longrightarrow> works d (snd (mspeed_check now rl m d))"
  using reach_speed [OF reach_start] unfolding works_def by (metis reach_def)

lemma ahead_performing_done:
  "works d m \<Longrightarrow> \<not> goes_back e \<Longrightarrow> state_of m d = MSTATE_PERFORMING \<Longrightarrow> ahead d m (performing_done e False m d)"
  unfolding performing_done_def Let_def case_prod_unfold by (simp add: ahead_def done_same goes_back_def)

lemma ahead_performing:
  assumes "works d m" and "env_ok e" and "\<not> goes_back e" and st: "state_of m d = MSTATE_PERFORMING"
  shows "ahead d m (multistate_performing e m d)"
proof -
  obtain c m1 where s: "mspeed_check (r_now e) (speed_before e) m d = (c, m1)" by (rule prod.exhaust)
  obtain rc retry rdone where p: "performing_retry e = (rc, retry, rdone)" by (rule prod_cases3)
  have r: "\<not> retry" using assms(3) p by (auto simp: performing_retry_def goes_back_def Let_def split: if_splits)
  have m1: "works d m1" "recheckstate m1 = recheckstate m" using works_speed [OF assms(1) env_parts(1) [OF assms(2)]] speed_same(1) s by (metis snd_conv)+
  define m2 where "m2 = env_call e d m1"
  have m2: "works d m2" "recheckstate m2 = recheckstate m" "state_of m2 d = state_of m1 d"
    using m1 assms(2,3) by (simp_all add: m2_def env_same)
  show ?thesis
  proof (cases "c = CURLE_AGAIN")
    case False
    then have "state_of m1 d = MSTATE_PERFORMING" using speed_same(2,3) s by (metis fst_conv snd_conv)
    then show ?thesis
      using False s p r m2 st ahead_performing_done [OF m2(1) assms(3)]
      by (simp add: multistate_performing_def m2_def [symmetric] ahead_def done_same speed_same(1) Let_def)
  qed (use s m1 st in \<open>simp add: multistate_performing_def ahead_def\<close>)
qed

lemma ahead_ratelimiting:
  "works d m \<Longrightarrow> env_ok e \<Longrightarrow> \<not> goes_back e \<Longrightarrow> state_of m d = MSTATE_RATELIMITING \<Longrightarrow> ahead d m (multistate_ratelimiting e m d)"
  unfolding multistate_ratelimiting_def Let_def case_prod_unfold
  using speed_same(2) [of "r_now e" "speed_before e" "env_call e d m" d] by (simp add: ahead_def same_simps)

lemma state_ahead:
  assumes "ready g d m0 m r" and "env_ok e" and "\<not> goes_back e"
  shows "ahead d m (run_state e m d r)"
  using assms(1)
proof (cases rule: ready_cases)
  case runs
  then have w: "works d m" by (auto simp: works_def reach_def)
  note facts = ahead_init [OF w assms(2,3)] ahead_setup [of m d e r] ahead_connect [OF w assms(2,3)] ahead_connecting [OF w assms(2,3)]
    ahead_protoconnect [OF w assms(2,3)] ahead_protoconnecting [OF w assms(2,3)] ahead_do [OF w assms(2,3)] ahead_doing [OF w assms(2,3)]
    ahead_doing_more [OF w assms(2,3)] ahead_did [OF w] ahead_done [OF w assms(3)] ahead_performing [OF w assms(2,3)] ahead_ratelimiting [OF w assms(2,3)]
  show ?thesis using facts runs(2) by (cases "state_of m d") (simp_all add: run_state_def)
qed (simp_all add: run_state_def ahead_def)

lemma finished_error:
  assumes "ready g d m0 m r" and "r \<noteq> CURLE_OK" and "is_finished e m d se r = (r', m')"
  shows "state_of m' d = MSTATE_COMPLETED"
  using assms(1)
proof (cases rule: ready_cases)
  case runs
  then have "state_of m d < MSTATE_COMPLETED" by (cases "state_of m d") (simp_all add: mstate_order)
  then show ?thesis using assms(2,3) by (auto simp: is_finished_def Let_def)
qed (use assms in \<open>auto simp: is_finished_def\<close>)

lemma finished_ok:
  "is_finished e m d se CURLE_OK = (r', m') \<Longrightarrow> m' = m \<and> r' = CURLE_OK
    \<or> state_of m' d = MSTATE_COMPLETED \<or> m' = multistate m d MSTATE_DONE \<and> state_of m d < MSTATE_DONE"
  by (auto simp: is_finished_def split: if_splits)

lemma start_ahead:
  assumes "ready g d m0 m r"
  shows "\<not> recheckstate (round_start m)" and "rank (state_of m d) \<le> rank (state_of (round_start m) d)"
proof -
  let ?m = "m\<lparr>recheckstate := False\<rparr>"
  have r: "ready g d m0 ?m r" using assms by simp
  then have ok: "multi_ok g ?m" by (simp add: ready_def reach_def at_def)
  then show "\<not> recheckstate (round_start m)" using pending_conn(2) [OF ok] by (simp add: round_start_def multi_ischanged_def)
  have "rank (state_of ?m d) \<le> rank (state_of (process_pending_handles ?m) d)"
  proof (cases "state_of m d = MSTATE_PENDING")
    case True
    have "state_of (process_pending_handles ?m) d \<in> {MSTATE_PENDING, MSTATE_CONNECT}" using ok True
      by (cases rule: process_pending_cases)
        (auto simp: scanned_def released_def move_pending_to_connect_def multi_mark_dirty_def multistate_def Let_def)
    then show ?thesis using True by auto
  next
    case False
    then show ?thesis using process_pending_ok [OF ok, of d] by simp
  qed
  then show "rank (state_of m d) \<le> rank (state_of (round_start m) d)" by (simp add: round_start_def multi_ischanged_def)
qed

text \<open>A round after which the loop goes on has taken the transfer further, or was sent back.\<close>

lemma round_ahead:
  assumes y: "ready g d m0 m r" and "env_ok e" and "\<not> goes_back e" and "run_round e m d r = Again r' m'"
  shows "rank (state_of m d) < rank (state_of m' d)"
proof (cases rule: run_round_cases [of e m d r])
  case broken
  then show ?thesis using assms(4) by simp
next
  case (goes timed r1 se1 m1 c r2 se2 m2 r3 se3 m3 r4 m4)
  note y0 = ready_start [OF y]
  have 1: "ready g d m0 m1 r1" "timed \<Longrightarrow> r1 \<noteq> CURLE_OK" "\<not> timed \<Longrightarrow> m1 = round_start m"
    using round_first_ok [OF y0 goes(1)] by auto
  have 2: "ready g d m0 m2 r2" using goes(2) 1(1) state_step [OF 1(1) assms(2)] by (auto split: if_splits)
  have 3: "ready g d m0 m3 r3" "r3 = CURLE_OK \<Longrightarrow> r2 = CURLE_OK \<and> m3 = m2" using round_last_ok [OF 2 goes(3)] by auto
  have n: "state_of m4 d \<noteq> MSTATE_COMPLETED" "m' = m4" "r4 \<noteq> CURLE_OK \<or> c = CURLM_CALL_MULTI_PERFORM \<or> recheckstate m4"
    using goes(5) assms(4) by (auto split: if_splits)
  have r3: "r3 = CURLE_OK" using finished_error [OF 3(1) _ goes(4)] n(1) by blast
  have nt: "\<not> timed" using goes(2) 1(2) 3(2) r3 by auto
  have a: "ahead d m1 (c, r2, se2, m2)" using state_ahead [OF 1(1) assms(2,3)] goes(2) nt by simp
  have nr: "\<not> recheckstate m2" using a start_ahead(1) [OF y] 1(3) [OF nt] by (simp add: ahead_def)
  have le: "rank (state_of m d) \<le> rank (state_of m1 d)" using start_ahead(2) [OF y] 1(3) [OF nt] by simp
  consider (same) "m4 = m2" "r4 = CURLE_OK" | (aborted) "m4 = multistate m2 d MSTATE_DONE" "state_of m2 d < MSTATE_DONE"
    using finished_ok [of e m3 d se3 r4 m4] goes(4) r3 3(2) [OF r3] n(1) by blast
  then show ?thesis
  proof cases
    case same
    then show ?thesis using n nr a le by (auto simp: ahead_def)
  next
    case aborted
    have "rank (state_of m2 d) < 13" using aborted(2) by (cases "state_of m2 d") (simp_all add: mstate_order)
    moreover have "rank (state_of m1 d) < 13" if "c \<noteq> CURLM_CALL_MULTI_PERFORM"
    proof -
      have "state_of m1 d \<noteq> MSTATE_DONE" using a that by (auto simp: ahead_def)
      moreover have "state_of m1 d \<noteq> MSTATE_COMPLETED \<and> state_of m1 d \<noteq> MSTATE_MSGSENT"
        using goes(2) nt aborted(2) by (auto simp: run_state_def mstate_order)
      ultimately show ?thesis by (cases "state_of m1 d") simp_all
    qed
    ultimately show ?thesis using a le n(2) aborted(1) by (cases "c = CURLM_CALL_MULTI_PERFORM") (auto simp: ahead_def)
  qed
qed

lemma loop_ends:
  assumes "ready g d m0 m r" and "list_all env_ok es"
    and "16 + 17 * length (filter goes_back es) < length es + rank (state_of m d)"
  shows "\<exists>c m'. run_loop es m d r = Some (c, m')"
  using assms
proof (induction es arbitrary: m r)
  case Nil
  then show ?case using rank_bound [of "state_of m d"] by simp
next
  case (Cons e es)
  have e: "env_ok e" "list_all env_ok es" using Cons.prems(2) by simp_all
  show ?case
  proof (cases "run_round e m d r")
    case (Again r' m')
    have y: "ready g d m0 m' r'" using xfer_round_ok [OF Cons.prems(1) e(1)] Again by simp
    have "16 + 17 * length (filter goes_back es) < length es + rank (state_of m' d)"
      using Cons.prems(3) rank_bound [of "state_of m d"] round_ahead [OF Cons.prems(1) e(1) _ Again] by (cases "goes_back e") simp_all
    from Cons.IH [OF y e(2) this] show ?thesis using Again by simp
  qed simp
qed

end
