(* ===== verification/Multi_Perform.thy ===== *)
theory Multi_Perform
  imports Multi_Run
begin

text \<open>
  The calls of the application that drive a multi handle, \<^verbatim>\<open>lib/multi.c\<close>: the handle is made,
  \<^verbatim>\<open>curl_multi_perform\<close> runs every processed transfer, \<^verbatim>\<open>curl_multi_socket_action\<close> those that are
  dirty.  The invariant of \<open>Multi_Inv\<close> holds after any sequence of calls; each call ends.

  What transfers are told by their environment is a function of the transfer, \<open>perform_env\<close>.
\<close>

section \<open>Making a multi handle\<close>

definition easy_timers_idle :: easy_timers where
  "easy_timers_idle = \<lparr>expiretime = tv_zero, timeoutlist = [], in_multi = False, mid = UINT32_MAX\<rparr>"

definition admin_easy :: Curl_easy where
  "admin_easy = \<lparr>magic_ok = True, mstate = MSTATE_INIT, has_conn = False, really_alive = False, state_done = False,
     master_mid = UINT32_MAX, internal = True, xfer_result = CURLE_OK\<rparr>"

text \<open>
  \<open>al\<close> says which allocations succeed, \<open>a\<close> is the handle that becomes the admin handle and \<open>es\<close> the
  other easy handles, none of which is in a multi handle.  The caches and the connection pool are left out.
\<close>

definition Curl_multi_handle :: "(nat \<Rightarrow> bool) \<Rightarrow> nat \<Rightarrow> nat \<Rightarrow> (nat \<Rightarrow> Curl_easy) \<Rightarrow> Curl_multi option" where
  "Curl_multi_handle al xfer_table_size a es =
     (let (r1, b1) = Curl_uint32_bset_resize (al 0) Curl_uint32_bset_init xfer_table_size;
          (r2, b2) = Curl_uint32_bset_resize (al 1) Curl_uint32_bset_init xfer_table_size;
          (r3, b3) = Curl_uint32_bset_resize (al 2) Curl_uint32_bset_init xfer_table_size;
          (r4, b4) = Curl_uint32_bset_resize (al 3) Curl_uint32_bset_init xfer_table_size;
          (r5, _, t) = Curl_uint32_tbl_resize (al 4) (Curl_uint32_tbl_init False) xfer_table_size
      in if r1 \<noteq> CURLE_OK \<or> r2 \<noteq> CURLE_OK \<or> r3 \<noteq> CURLE_OK \<or> r4 \<noteq> CURLE_OK \<or> r5 \<noteq> CURLE_OK then None
         else
           (let (i, t') = (case Curl_uint32_tbl_add t a of Some x \<Rightarrow> x | None \<Rightarrow> (UINT32_MAX, t)) in
            Some \<lparr>multi_magic = True, xfers_alive = 0, xfers_really_alive = 0, xfers_total_ever = 0, xfers = t',
              process = snd (Curl_uint32_bset_add b1 i), pending = b2, msgsent = b4, msglist = [], admin = a,
              tim = \<lparr>timetree = splay_empty, easies = (\<lambda>_. easy_timers_idle)(a := easy_timers_idle\<lparr>in_multi := True, mid := i\<rparr>),
                dirty = b3\<rparr>,
              app = \<lparr>last_timeout_ms = -1, last_expire_ts = tv_zero, multi_dead = False\<rparr>,
              last_pending_mid = 0, in_callback = False, in_ntfy_callback = False, recheckstate = False, easy = es(a := admin_easy)\<rparr>))"

section \<open>Notifications\<close>

text \<open>
  \<^verbatim>\<open>lib/multi_ntfy.c\<close>.  The notification callback may call the library: it adds and removes transfers, reads messages, and by
  pausing and the like it sets timers and marks transfers; its calls of \<open>curl_multi_perform\<close> and \<open>curl_multi_socket_action\<close>
  are refused.  The application of the model stops adding at \<open>2\<^sup>3\<^sup>1\<close> places, and it does not have the admin handle.
\<close>

datatype app_call =
    App_add "(int \<Rightarrow> int) option" curltime "nat \<Rightarrow> bool" nat
  | App_remove "(int \<Rightarrow> int) option" curltime done_outcome CURLMcode nat
  | App_read
  | App_effect curltime nat env_effect

fun make_call :: "app_call \<Rightarrow> Curl_multi \<Rightarrow> Curl_multi" where
  "make_call (App_add cb now al d) m = (if nrows (xfers m) < 2 ^ 31 then snd (curl_multi_add_handle cb now al m d) else m)"
| "make_call (App_remove cb now out wakeup d) m = (if d \<noteq> admin m then snd (curl_multi_remove_handle cb now out wakeup m d) else m)"
| "make_call App_read m = snd (snd (curl_multi_info_read m))"
| "make_call (App_effect now d ef) m = apply_effect now d ef m"

text \<open>All queued notifications are delivered; \<open>calls\<close> are the calls made in the callbacks, \<open>failure\<close> is the code of a failed queue.\<close>

definition Curl_mntfy_dispatch_all :: "app_call list \<Rightarrow> CURLMcode \<Rightarrow> Curl_multi \<Rightarrow> CURLMcode \<times> Curl_multi" where
  "Curl_mntfy_dispatch_all calls failure m =
     (let m1 = fold make_call calls (m\<lparr>in_ntfy_callback := True\<rparr>) in (failure, m1\<lparr>in_ntfy_callback := False\<rparr>))"

text \<open>\<open>None\<close> when nothing is queued.\<close>

definition notify :: "(app_call list \<times> CURLMcode) option \<Rightarrow> CURLMcode \<Rightarrow> Curl_multi \<Rightarrow> CURLMcode \<times> Curl_multi" where
  "notify nt c m =
     (case nt of
        None \<Rightarrow> (c, m)
      | Some (calls, failure) \<Rightarrow> if c = CURLM_OK then Curl_mntfy_dispatch_all calls failure m else (c, m))"

section \<open>Running the processed transfers\<close>

record perform_env =
  start_now :: curltime
  mid_now :: curltime
  end_now :: curltime
  xfer_out :: "nat \<Rightarrow> done_outcome"
  xfer_rounds :: "nat \<Rightarrow> round_env list"
  xfer_lims :: "nat \<Rightarrow> xfer_limits"
  timer_cb :: "(int \<Rightarrow> int) option"
  assess_rc :: CURLMcode
  xfer_assess :: "nat \<Rightarrow> CURLMcode"
  ntfy :: "(app_call list \<times> CURLMcode) option"

text \<open>The loop variables; \<open>starved\<close> when a transfer wanted more rounds than it had answers for.\<close>

record perform_state =
  pm :: Curl_multi
  returncode :: CURLMcode
  starved :: bool

text \<open>A number of the set with no transfer is dropped.\<close>

definition drop_stale :: "Curl_multi \<Rightarrow> nat \<Rightarrow> Curl_multi" where
  "drop_stale m n =
     (set_dirty (Curl_uint32_bset_remove (dirty (tim m)) n) m)\<lparr>process := Curl_uint32_bset_remove (process m) n\<rparr>"

definition perform_body :: "perform_env \<Rightarrow> nat \<Rightarrow> perform_state \<Rightarrow> perform_state" where
  "perform_body env n s =
     (if starved s then s
      else
        (case Curl_multi_get_easy (pm s) n of
           (None, m) \<Rightarrow> s\<lparr>pm := drop_stale m n\<rparr>
         | (Some d, m) \<Rightarrow>
             (case multi_runsingle (xfer_out env d) (xfer_rounds env d) m d of
                None \<Rightarrow> s\<lparr>starved := True\<rparr>
              | Some (c, m') \<Rightarrow> s\<lparr>pm := m', returncode := (if c \<noteq> CURLM_OK then c else returncode s)\<rparr>)))"

definition process_first :: "perform_state \<Rightarrow> bool \<times> nat \<times> perform_state" where
  "process_first s = (case Curl_uint32_bset_first (process (pm s)) of (b, n, p) \<Rightarrow> (b, n, s\<lparr>pm := (pm s)\<lparr>process := p\<rparr>\<rparr>))"

definition process_next :: "perform_state \<Rightarrow> nat \<Rightarrow> bool \<times> nat" where
  "process_next s n = Curl_uint32_bset_next (process (pm s)) n"

definition perform_xfers :: "perform_env \<Rightarrow> Curl_multi \<Rightarrow> (nat list \<times> perform_state) option" where
  "perform_xfers env m = for_each process_first process_next (perform_body env) \<lparr>pm = m, returncode = CURLM_OK, starved = False\<rparr>"

text \<open>
  The loop that takes expired timers out of the tree; the fuel bounds its rounds.  A node without
  a transfer would be followed as a null pointer, which gives no result.
\<close>

fun perform_expired :: "nat \<Rightarrow> perform_env \<Rightarrow> Curl_multi \<Rightarrow> Curl_multi option" where
  "perform_expired 0 env m = None"
| "perform_expired (Suc fuel) env m =
     (case Curl_splaygetbest (start_now env) (timetree (tim m)) of
        (None, tr) \<Rightarrow> Some (m\<lparr>tim := (tim m)\<lparr>timetree := tr\<rparr>\<rparr>)
      | (Some t, tr) \<Rightarrow>
          (case Curl_splayget tr t of
             None \<Rightarrow> None
           | Some d \<Rightarrow>
               (let m1 = m\<lparr>tim := add_next_timeout (start_now env) ((tim m)\<lparr>timetree := tr\<rparr>) d\<rparr>;
                    m2 = (if state_of m1 d = MSTATE_PENDING then
                            (case multi_handle_timeout (xfer_out env d) (xfer_lims env d) (mid_now env) m1 d False CURLE_OK of
                               (timed, _, _, x) \<Rightarrow> if timed then move_pending_to_connect x d else x)
                          else m1)
                in perform_expired fuel env m2)))"

definition INT_MAX :: nat where "INT_MAX = 2 ^ 31 - 1"

definition running_handles :: "Curl_multi \<Rightarrow> nat" where
  "running_handles m =
     (let running = Curl_multi_xfers_running m in if running < INT_MAX then running else INT_MAX)"

text \<open>As many rounds for the timers as there are nodes, and one.\<close>

definition multi_perform :: "perform_env \<Rightarrow> Curl_multi \<Rightarrow> (CURLMcode \<times> nat option \<times> Curl_multi) option" where
  "multi_perform env m =
     (if in_callback m then Some (CURLM_RECURSIVE_API_CALL, None, m)
      else if in_ntfy_callback m then Some (CURLM_RECURSIVE_API_CALL, None, m)
      else
        (case perform_xfers env m of
           None \<Rightarrow> None
         | Some (_, s) \<Rightarrow>
             if starved s then None
             else
               (let (rc, m1) = notify (ntfy env) (returncode s) (round_start (pm s)) in
                case perform_expired (Suc (length (timers (timetree (tim m1))))) env m1 of
                  None \<Rightarrow> None
                | Some m2 \<Rightarrow>
                    (let (code, m3) = (if rc = CURLM_OK \<or> rc = CURLM_CALL_MULTI_PERFORM
                                       then update_timer (timer_cb env) (end_now env) m2 else (rc, m2))
                     in Some (code, Some (running_handles m2), m3)))))"

definition curl_multi_perform :: "perform_env \<Rightarrow> Curl_multi \<Rightarrow> (CURLMcode \<times> nat option \<times> Curl_multi) option" where
  "curl_multi_perform env m = (if \<not> multi_magic m then Some (CURLM_BAD_HANDLE, None, m) else multi_perform env m)"

section \<open>Running the dirty transfers\<close>

definition undirty :: "Curl_multi \<Rightarrow> nat \<Rightarrow> Curl_multi" where
  "undirty m n = set_dirty (Curl_uint32_bset_remove (dirty (tim m)) n) m"

text \<open>
  The loop of \<open>multi_run_dirty\<close>, with its code, the number of transfers it has run and the state.
  The fuel bounds the rounds; \<open>None\<close> also when a transfer runs out of answers.
\<close>

fun run_dirty_loop :: "nat \<Rightarrow> perform_env \<Rightarrow> nat \<Rightarrow> CURLMcode \<Rightarrow> nat \<Rightarrow> Curl_multi \<Rightarrow> (CURLMcode \<times> nat \<times> Curl_multi) option" where
  "run_dirty_loop 0 env n c k m = None"
| "run_dirty_loop (Suc fuel) env n c k m =
     (let go_on = (\<lambda>c k m. case Curl_uint32_bset_next (dirty (tim m)) n of
                      (False, _) \<Rightarrow> Some (c, k, m)
                    | (True, n') \<Rightarrow> run_dirty_loop fuel env n' c k m)
      in case Curl_multi_get_easy m n of
           (None, m1) \<Rightarrow> go_on c k (undirty m1 n)
         | (Some d, m1) \<Rightarrow>
             if \<not> Curl_uint32_bset_contains (process m1) n then go_on c k (undirty m1 n)
             else
               (case multi_runsingle (xfer_out env d) (xfer_rounds env d) m1 d of
                  None \<Rightarrow> None
                | Some (c', m2) \<Rightarrow>
                    if c' = CURLM_OK \<or> c' = CURLM_CALL_MULTI_PERFORM then
                      if xfer_assess env d \<noteq> CURLM_OK then Some (xfer_assess env d, Suc k, m2) else go_on CURLM_OK (Suc k) m2
                    else go_on c' (Suc k) m2))"

definition multi_run_dirty :: "perform_env \<Rightarrow> Curl_multi \<Rightarrow> (CURLMcode \<times> nat \<times> Curl_multi) option" where
  "multi_run_dirty env m =
     (case Curl_uint32_bset_first (dirty (tim m)) of
        (False, _, b) \<Rightarrow> Some (CURLM_OK, 0, set_dirty b m)
      | (True, n, b) \<Rightarrow> run_dirty_loop (Suc UINT32_MAX) env n CURLM_OK 0 (set_dirty b m))"

definition multi_wake :: "curltime \<Rightarrow> Curl_multi \<Rightarrow> Curl_multi option" where
  "multi_wake now m =
     map_option (\<lambda>t. m\<lparr>tim := t\<rparr>) (multi_mark_expired_as_dirty (Suc (length (timers (timetree (tim m))))) (tim m) now)"

text \<open>What the application reports: all sockets, a timeout, or a socket, with the transfers that use it.\<close>

datatype socket_event = SOCKET_ALL | SOCKET_TIMEOUT | SOCKET_READY "nat list"

text \<open>
  Expired and dirty transfers are run, and once more with the answers \<open>env'\<close>, but with the time of
  the first search, which is what \<open>multi->now\<close> still holds.
\<close>

definition socket_run :: "perform_env \<Rightarrow> perform_env \<Rightarrow> Curl_multi \<Rightarrow> (CURLMcode \<times> Curl_multi) option" where
  "socket_run env env' m =
     (case multi_wake (start_now env) m of
        None \<Rightarrow> None
      | Some m1 \<Rightarrow>
          (case multi_run_dirty env m1 of
             None \<Rightarrow> None
           | Some (c, k, m2) \<Rightarrow>
               if c \<noteq> CURLM_OK \<or> k = 0 then Some (c, m2)
               else
                 (case multi_wake (start_now env) m2 of
                    None \<Rightarrow> None
                  | Some m3 \<Rightarrow> map_option (\<lambda>(c', _, m4). (c', m4)) (multi_run_dirty env' m3))))"

text \<open>What is done up to the label \<open>out\<close>, and what follows it.\<close>

definition socket_work :: "perform_env \<Rightarrow> perform_env \<Rightarrow> socket_event \<Rightarrow> Curl_multi \<Rightarrow> (CURLMcode \<times> Curl_multi) option" where
  "socket_work env env' ev m =
     (case ev of
        SOCKET_ALL \<Rightarrow>
          map_option (\<lambda>(c, _, m1). (if c \<noteq> CURLM_BAD_HANDLE then assess_rc env else c, m1)) (multi_perform env m)
      | SOCKET_TIMEOUT \<Rightarrow>
          (let m1 = m\<lparr>app := (app m)\<lparr>last_expire_ts := tv_zero\<rparr>\<rparr> in
           if assess_rc env \<noteq> CURLM_OK then Some (assess_rc env, m1) else socket_run env env' m1)
      | SOCKET_READY ds \<Rightarrow> socket_run env env' (fold (\<lambda>d x. multi_mark_dirty x d) ds m))"

definition socket_out ::
  "perform_env \<Rightarrow> (app_call list \<times> CURLMcode) option \<Rightarrow> CURLMcode \<Rightarrow> Curl_multi \<Rightarrow> CURLMcode \<times> nat option \<times> Curl_multi" where
  "socket_out env nt c m =
     (let (c', m1) = notify nt c (round_start m);
          (code, m2) = (if c' = CURLM_OK \<or> c' = CURLM_CALL_MULTI_PERFORM
                        then update_timer (timer_cb env) (end_now env) m1 else (c', m1))
      in (code, Some (running_handles m1), m2))"

text \<open>The notifications at the end are those of \<open>env'\<close>; those of \<open>env\<close> are delivered inside \<open>multi_perform\<close>.\<close>

definition multi_socket :: "perform_env \<Rightarrow> perform_env \<Rightarrow> socket_event \<Rightarrow> Curl_multi \<Rightarrow> (CURLMcode \<times> nat option \<times> Curl_multi) option" where
  "multi_socket env env' ev m = map_option (\<lambda>(c, m1). socket_out env (ntfy env') c m1) (socket_work env env' ev m)"

definition curl_multi_socket_action ::
  "perform_env \<Rightarrow> perform_env \<Rightarrow> socket_event \<Rightarrow> Curl_multi \<Rightarrow> (CURLMcode \<times> nat option \<times> Curl_multi) option" where
  "curl_multi_socket_action env env' ev m =
     (if in_callback m then Some (CURLM_RECURSIVE_API_CALL, None, m)
      else if in_ntfy_callback m then Some (CURLM_RECURSIVE_API_CALL, None, m)
      else multi_socket env env' ev m)"

section \<open>A new handle\<close>

lemma bset_resize_new:
  assumes "Curl_uint32_bset_resize al Curl_uint32_bset_init n = (CURLE_OK, b)" and "n < 2 ^ 31"
  shows "bset_ok b \<and> bset_elems b = {} \<and> n \<le> 64 * nslots b"
proof -
  have "n \<le> UINT32_MAX" "min n (UINT32_MAX - 63) = n" using assms(2) by (simp_all add: UINT32_MAX_def)
  then show ?thesis using bset_resize_ok [OF conjunct1 [OF bset_init_ok] assms(1)] bset_init_ok by simp
qed

lemma multi_handle_ok:
  assumes h: "Curl_multi_handle al n a es = Some m" and n: "n < 2 ^ 31"
  shows "multi_ok 0 m \<and> members m = {a} \<and> admin m = a \<and> nrows (xfers m) = n \<and> multi_magic m \<and> \<not> in_callback m \<and> \<not> in_ntfy_callback m"
proof -
  obtain r1 b1 where r1: "Curl_uint32_bset_resize (al 0) Curl_uint32_bset_init n = (r1, b1)" by (rule prod.exhaust)
  obtain r2 b2 where r2: "Curl_uint32_bset_resize (al 1) Curl_uint32_bset_init n = (r2, b2)" by (rule prod.exhaust)
  obtain r3 b3 where r3: "Curl_uint32_bset_resize (al 2) Curl_uint32_bset_init n = (r3, b3)" by (rule prod.exhaust)
  obtain r4 b4 where r4: "Curl_uint32_bset_resize (al 3) Curl_uint32_bset_init n = (r4, b4)" by (rule prod.exhaust)
  obtain r5 ds t where r5: "Curl_uint32_tbl_resize (al 4) (Curl_uint32_tbl_init False :: nat uint32_tbl) n = (r5, ds, t)" by (rule prod_cases3)
  note r = r1 r2 r3 r4 r5
  have rc: "r1 = CURLE_OK" "r2 = CURLE_OK" "r3 = CURLE_OK" "r4 = CURLE_OK" "r5 = CURLE_OK"
    using h unfolding Curl_multi_handle_def r by (auto split: if_splits)
  have b: "bset_ok b1 \<and> bset_elems b1 = {} \<and> n \<le> 64 * nslots b1" "bset_ok b2 \<and> bset_elems b2 = {} \<and> n \<le> 64 * nslots b2"
    "bset_ok b3 \<and> bset_elems b3 = {} \<and> n \<le> 64 * nslots b3" "bset_ok b4 \<and> bset_elems b4 = {} \<and> n \<le> 64 * nslots b4"
    using bset_resize_new [OF r1 [unfolded rc(1)] n] bset_resize_new [OF r2 [unfolded rc(2)] n]
      bset_resize_new [OF r3 [unfolded rc(3)] n] bset_resize_new [OF r4 [unfolded rc(4)] n] by simp_all
  have ti: "tbl_inv (Curl_uint32_tbl_init False :: nat uint32_tbl)" "tbl_map (Curl_uint32_tbl_init False :: nat uint32_tbl) = Map.empty"
      "nrows (Curl_uint32_tbl_init False :: nat uint32_tbl) = 0"
    using init_ok [of False, where 'a = nat and 'b = nat] by (simp_all add: tbl_inv_def Curl_uint32_tbl_init_def UINT32_MAX_def)
  have nle: "n \<le> UINT32_MAX" using n by (simp add: UINT32_MAX_def)
  have t: "tbl_inv t" "tbl_map t = Map.empty" "nrows t = n" using tbl_resize_same [OF ti(1) _ nle r(5)] ti rc(5) by simp_all
  have "n \<noteq> 0" using r(5) rc(5) by (cases "n = 0") (simp_all add: Curl_uint32_tbl_resize_def)
  then obtain i t' where ad: "Curl_uint32_tbl_add t a = Some (i, t')" using tbl_add_full [OF t(1)] t(2,3) by (metis card.empty dom_empty not_Some_eq prod.exhaust)
  note ad' = tbl_add_ok [OF t(1) ad]
  have i: "i < n" using ad' t(3) by (simp add: round_robin_def)
  have m: "m = \<lparr>multi_magic = True, xfers_alive = 0, xfers_really_alive = 0, xfers_total_ever = 0, xfers = t',
      process = snd (Curl_uint32_bset_add b1 i), pending = b2, msgsent = b4, msglist = [], admin = a,
      tim = \<lparr>timetree = splay_empty, easies = (\<lambda>_. easy_timers_idle)(a := easy_timers_idle\<lparr>in_multi := True, mid := i\<rparr>), dirty = b3\<rparr>,
      app = \<lparr>last_timeout_ms = -1, last_expire_ts = tv_zero, multi_dead = False\<rparr>,
      last_pending_mid = 0, in_callback = False, in_ntfy_callback = False, recheckstate = False, easy = es(a := admin_easy)\<rparr>"
    using h unfolding Curl_multi_handle_def r rc by (simp add: ad)
  have mem: "members m = {a}" "user_xfers m = {}" by (auto simp: m members_def user_xfers_def easy_timers_idle_def)
  have "table_ok m" unfolding table_ok_def mem using ad' t(2) by (auto simp: m admin_easy_def easy_timers_idle_def split: if_splits)
  moreover have "roomy m b2" "roomy m b3" "roomy m b4" "roomy m b1" using b t(3) ad' by (auto simp: m roomy_def)
  then have "sets_ok m" unfolding sets_ok_def mem using b by (simp add: m) (simp add: UINT32_MAX_def)
  moreover have "times_ok m"
    unfolding times_ok_def mem using b(3) by (auto simp: timers_ok_def m easy_ok_def easy_timers_idle_def splay_empty_ok loosely_sorted_def)
  moreover have "easy m a = admin_easy" by (simp add: m)
  then have "live m = {}" "really_live m = {}" unfolding live_def really_live_def mem by (auto simp: admin_easy_def)
  then have "counts_ok 0 m" by (simp add: counts_ok_def) (simp add: m)
  moreover have "msgs_ok m" by (simp add: msgs_ok_def m)
  ultimately show ?thesis using mem ad' t(3) by (simp add: multi_ok_def) (simp add: m)
qed

section \<open>Calls made in a notification\<close>

text \<open>How many transfers were counted although adding them failed.\<close>

fun call_miss :: "app_call \<Rightarrow> Curl_multi \<Rightarrow> nat" where
  "call_miss (App_add cb now al d) m =
     (if nrows (xfers m) < 2 ^ 31 \<and> miscounted (fst (curl_multi_add_handle cb now al m d)) m (snd (curl_multi_add_handle cb now al m d))
      then 1 else 0)"
| "call_miss _ m = 0"

fun call_misses :: "app_call list \<Rightarrow> Curl_multi \<Rightarrow> nat" where
  "call_misses [] m = 0"
| "call_misses (c # cs) m = call_miss c m + call_misses cs (make_call c m)"

definition notify_misses :: "(app_call list \<times> CURLMcode) option \<Rightarrow> CURLMcode \<Rightarrow> Curl_multi \<Rightarrow> nat" where
  "notify_misses nt c m =
     (case nt of None \<Rightarrow> 0 | Some (calls, _) \<Rightarrow> if c = CURLM_OK then call_misses calls (m\<lparr>in_ntfy_callback := True\<rparr>) else 0)"

text \<open>The transfers the application adds and removes in notifications.\<close>

fun call_adds :: "app_call \<Rightarrow> nat set" where
  "call_adds (App_add cb now al d) = {d}"
| "call_adds _ = {}"

fun call_removes :: "app_call \<Rightarrow> nat set" where
  "call_removes (App_remove cb now out wakeup d) = {d}"
| "call_removes _ = {}"

definition notify_adds :: "(app_call list \<times> CURLMcode) option \<Rightarrow> nat set" where
  "notify_adds nt = (case nt of None \<Rightarrow> {} | Some (calls, _) \<Rightarrow> \<Union> (call_adds ` set calls))"

definition notify_removes :: "(app_call list \<times> CURLMcode) option \<Rightarrow> nat set" where
  "notify_removes nt = (case nt of None \<Rightarrow> {} | Some (calls, _) \<Rightarrow> \<Union> (call_removes ` set calls))"

fun call_ok :: "app_call \<Rightarrow> bool" where
  "call_ok (App_effect now d ef) \<longleftrightarrow> effect_ok now ef \<and> ef \<noteq> Do_started"
| "call_ok _ \<longleftrightarrow> True"

definition ntfy_ok :: "(app_call list \<times> CURLMcode) option \<Rightarrow> bool" where
  "ntfy_ok nt \<longleftrightarrow> (case nt of None \<Rightarrow> True | Some (calls, _) \<Rightarrow> list_all call_ok calls)"

lemma info_read_ok:
  assumes ok: "multi_ok g m" and r: "curl_multi_info_read m = (msg, left, m')"
  shows "multi_ok g m' \<and> members m' = members m"
proof -
  have c: "m' = m \<or> m' = m\<lparr>msglist := tl (msglist m)\<rparr>"
    using r by (cases "msglist m") (simp_all add: curl_multi_info_read_def split: if_splits)
  have u: "members (m\<lparr>msglist := ms\<rparr>) = members m" "user_xfers (m\<lparr>msglist := ms\<rparr>) = user_xfers m" for ms
    by (simp_all add: members_def user_xfers_def)
  have d: "multi_ok g (m\<lparr>msglist := ms\<rparr>)" if "distinct (map fst ms)" "set ms \<subseteq> set (msglist m)" for ms
  proof -
    let ?m = "m\<lparr>msglist := ms\<rparr>"
    have "table_ok ?m = table_ok m" "times_ok ?m = times_ok m" "counts_ok g ?m = counts_ok g m"
      by (simp_all add: table_ok_def times_ok_def counts_ok_def live_def really_live_def u)
    moreover have "sets_ok ?m = sets_ok m" by (simp add: sets_ok_def u roomy_def placed_def)
    moreover have "msgs_ok ?m" using ok that by (auto simp: multi_ok_def msgs_ok_def u)
    ultimately show ?thesis using ok by (simp add: multi_ok_def)
  qed
  have "distinct (map fst (msglist m))" using ok by (simp add: multi_ok_parts)
  then have "multi_ok g (m\<lparr>msglist := tl (msglist m)\<rparr>)" by (intro d) (cases "msglist m"; auto)+
  then show ?thesis using c ok u by auto
qed

lemma outside_ok:
  assumes "multi_ok g m" and "effect_ok now ef" and "ef \<noteq> Do_started"
  shows "multi_ok g (apply_effect now d ef m) \<and> members (apply_effect now d ef m) = members m"
proof -
  note t = ok_timers [OF assms(1)]
  show ?thesis using assms(2,3) multi_ok_tim [OF assms(1)] assms(1)
    by (cases ef) (auto simp: multi_mark_dirty_def delay_ok_def tim_keeps_expire [OF t] tim_keeps_expire_done [OF t] tim_keeps_mark [OF t])
qed

lemma make_call_ok:
  assumes "multi_ok g m" and "call_ok c"
  shows "multi_ok (g + call_miss c m) (make_call c m) \<and> members m - call_removes c \<subseteq> members (make_call c m)
    \<and> members (make_call c m) \<subseteq> members m \<union> call_adds c"
proof (cases c)
  case (App_add cb now al d)
  obtain code m' where a: "curl_multi_add_handle cb now al m d = (code, m')" by (rule prod.exhaust)
  show ?thesis using App_add a add_handle_ok [OF assms(1) _ a] assms(1) by (auto split: if_splits)
next
  case (App_remove cb now out wakeup d)
  obtain code m' where a: "curl_multi_remove_handle cb now out wakeup m d = (code, m')" by (rule prod.exhaust)
  show ?thesis using App_remove a remove_handle_ok [OF assms(1) _ a] assms(1) by (auto split: if_splits)
next
  case App_read
  obtain x y m' where a: "curl_multi_info_read m = (x, y, m')" by (rule prod_cases3)
  show ?thesis using App_read a info_read_ok [OF assms(1) a] by simp
next
  case (App_effect now d ef)
  then show ?thesis using outside_ok [OF assms(1)] assms(2) by simp
qed

lemma make_calls_ok:
  assumes "multi_ok g m" and "list_all call_ok cs"
  shows "multi_ok (g + call_misses cs m) (fold make_call cs m)
    \<and> members m - \<Union> (call_removes ` set cs) \<subseteq> members (fold make_call cs m)
    \<and> members (fold make_call cs m) \<subseteq> members m \<union> \<Union> (call_adds ` set cs)"
  using assms
proof (induction cs arbitrary: g m)
  case (Cons c cs)
  then have c: "multi_ok (g + call_miss c m) (make_call c m)" "members m - call_removes c \<subseteq> members (make_call c m)"
      "members (make_call c m) \<subseteq> members m \<union> call_adds c" using make_call_ok by simp_all
  from Cons.IH [OF c(1)] Cons.prems(2) c(2,3) show ?case by (auto simp: add.assoc)
qed simp

lemma notify_ok:
  assumes "multi_ok g m" and "ntfy_ok nt"
  shows "multi_ok (g + notify_misses nt c m) (snd (notify nt c m)) \<and> members m - notify_removes nt \<subseteq> members (snd (notify nt c m))
    \<and> members (snd (notify nt c m)) \<subseteq> members m \<union> notify_adds nt"
proof (cases nt)
  case None
  then show ?thesis using assms(1) by (simp add: notify_def notify_misses_def notify_removes_def notify_adds_def)
next
  case (Some x)
  obtain cs rc where x: "x = (cs, rc)" by (rule prod.exhaust)
  let ?m = "m\<lparr>in_ntfy_callback := True\<rparr>"
  have "multi_ok g ?m" "list_all call_ok cs" using assms Some x by (simp_all add: ntfy_ok_def)
  from make_calls_ok [OF this] assms(1) Some x show ?thesis
    by (auto simp: notify_def notify_misses_def notify_removes_def notify_adds_def Curl_mntfy_dispatch_all_def Let_def)
qed

section \<open>The loop over the processed transfers\<close>

text \<open>What stays the same while transfers run.\<close>

definition outline :: "Curl_multi \<Rightarrow> Curl_multi \<Rightarrow> bool" where
  "outline m m' \<longleftrightarrow> members m' = members m \<and> admin m' = admin m \<and> (\<forall>x. mid_of m' x = mid_of m x)
     \<and> nrows (xfers m') = nrows (xfers m) \<and> multi_magic m' = multi_magic m \<and> in_callback m' = in_callback m"

lemma outline_refl [simp]: "outline m m"
  by (simp add: outline_def)

lemma outline_trans: "outline m m' \<Longrightarrow> outline m' m'' \<Longrightarrow> outline m m''"
  by (simp add: outline_def)

lemma frame_outline: "frame d m m' \<Longrightarrow> outline m m'"
  by (simp add: frame_def outline_def)

lemma process_firstD: "process_first s = (b, n, s') \<Longrightarrow> Curl_uint32_bset_first (process (pm s)) = (b, n, process (pm s'))"
  by (cases "Curl_uint32_bset_first (process (pm s))") (auto simp: process_first_def)

interpretation process_loop: uint_set process_first process_next "\<lambda>s. bset_elems (process (pm s))" "\<lambda>s. bset_ok (process (pm s))"
proof
  fix s s' :: perform_state and b n m
  assume ok: "bset_ok (process (pm s))"
  show "n \<in> bset_elems (process (pm s)) \<Longrightarrow> n \<le> UINT32_MAX" by (rule bset.elems_bound [OF ok])
  show "process_first s = (b, n, s') \<Longrightarrow> bset_ok (process (pm s')) \<and> bset_elems (process (pm s')) = bset_elems (process (pm s))"
    by (rule bset.first_state [OF ok process_firstD])
  show "process_first s = (True, n, s') \<Longrightarrow> least_from (bset_elems (process (pm s))) 0 n"
    by (rule bset.first_found [OF ok process_firstD])
  show "process_first s = (False, n, s') \<Longrightarrow> bset_elems (process (pm s)) = {}"
    by (rule bset.first_none [OF ok process_firstD])
  show "m < UINT32_MAX \<Longrightarrow> process_next s m = (True, n) \<Longrightarrow> least_from (bset_elems (process (pm s))) (Suc m) n"
    unfolding process_next_def by (rule bset.next_found [OF ok])
  show "m < UINT32_MAX \<Longrightarrow> process_next s m = (False, n) \<Longrightarrow> \<forall>k\<in>bset_elems (process (pm s)). k \<le> m"
    unfolding process_next_def by (rule bset.next_none [OF ok])
qed

text \<open>Enough answers for every run of a transfer.\<close>

definition enough :: "round_env list \<Rightarrow> bool" where
  "enough es \<longleftrightarrow> list_all env_ok es \<and> 16 + 17 * length (filter goes_back es) < length es"

definition perform_env_ok :: "perform_env \<Rightarrow> bool" where
  "perform_env_ok env \<longleftrightarrow> time_ok (start_now env) \<and> ntfy_ok (ntfy env) \<and> (\<forall>d. enough (xfer_rounds env d))"

lemma runsingle_ends:
  assumes "multi_ok g m" and "d \<in> members m" and "mid_of m d \<in> bset_elems (process m)" and "enough es"
  shows "\<exists>c m'. multi_runsingle out es m d = Some (c, m')"
proof (cases "magic_ok (easy m d) \<and> d \<noteq> admin m")
  case True
  then have "ready g d m (run_prepare out m d) r" for r using ready_prepared [OF runsingle_start [OF assms(1-3)]] by simp
  from loop_ends [OF this] show ?thesis using True assms(4) by (simp add: enough_def multi_runsingle_def)
qed (auto simp: multi_runsingle_def)

lemma drop_stale_ok:
  assumes "multi_ok g m" and "n \<notin> mid_of m ` members m"
  shows "multi_ok g (drop_stale m n) \<and> outline m (drop_stale m n) \<and> bset_elems (process (drop_stale m n)) = bset_elems (process m) - {n}"
proof -
  let ?t = "(tim m)\<lparr>dirty := Curl_uint32_bset_remove (dirty (tim m)) n\<rparr>" and ?p = "Curl_uint32_bset_remove (process m) n"
  have e: "drop_stale m n = (m\<lparr>tim := ?t\<rparr>)\<lparr>process := ?p\<rparr>" by (simp add: drop_stale_def)
  note t = multi_ok_tim [OF assms(1) tim_keeps_undirty [OF ok_timers [OF assms(1)]], of n]
  have r: "roomy m (process m)" using assms(1) by (simp add: multi_ok_parts)
  have "mid_of m d \<noteq> n" if "d \<in> user_xfers m" for d using assms(2) user_member(1) [OF that] by blast
  then have "placed (m\<lparr>tim := ?t, process := ?p\<rparr>) d \<longleftrightarrow> placed (m\<lparr>tim := ?t\<rparr>) d" if "d \<in> user_xfers m" for d
    using that by (simp add: placed_def roomy_elems(1) [OF r])
  moreover have "bset_ok ?p" using roomy_remove [OF r] by (simp add: roomy_def)
  ultimately have "multi_ok g (m\<lparr>tim := ?t, process := ?p\<rparr>)" using t
    by (simp add: multi_ok_def sets_ok_def) (simp add: multi_ok_parts members_def user_xfers_def live_def really_live_def roomy_def)
  then show ?thesis using e by (simp add: outline_def members_def roomy_elems(1) [OF r])
qed

text \<open>One round of the loop: the transfer with the number is run, or there is none; the others stay.\<close>

definition was_run :: "perform_env \<Rightarrow> nat \<Rightarrow> Curl_multi \<Rightarrow> Curl_multi \<Rightarrow> bool" where
  "was_run env n m m' \<longleftrightarrow>
     (\<exists>d\<in>members m. mid_of m d = n \<and> (\<exists>c. multi_runsingle (xfer_out env d) (xfer_rounds env d) m d = Some (c, m')))
     \<or> n \<notin> mid_of m ` members m \<and> members m' = members m"

lemma perform_body_ok:
  assumes ok: "multi_ok g (pm s)" "\<not> starved s" and env: "perform_env_ok env" and n: "n \<in> bset_elems (process (pm s))"
  shows "multi_ok g (pm (perform_body env n s)) \<and> \<not> starved (perform_body env n s) \<and> outline (pm s) (pm (perform_body env n s))
    \<and> was_run env n (pm s) (pm (perform_body env n s)) \<and> bset_elems (process (pm s)) - {n} \<subseteq> bset_elems (process (pm (perform_body env n s)))"
proof -
  have t: "table_ok (pm s)" using ok(1) by (simp add: multi_ok_def)
  from get_easy_cases [OF t, of n] show ?thesis
  proof (elim disjE bexE conjE exE)
    fix d assume d: "d \<in> members (pm s)" "mid_of (pm s) d = n" "Curl_multi_get_easy (pm s) n = (Some d, pm s)"
    have es: "enough (xfer_rounds env d)" "list_all env_ok (xfer_rounds env d)" using env by (simp_all add: perform_env_ok_def enough_def)
    have p: "mid_of (pm s) d \<in> bset_elems (process (pm s))" using d(2) n by simp
    obtain c m' where r: "multi_runsingle (xfer_out env d) (xfer_rounds env d) (pm s) d = Some (c, m')"
      using runsingle_ends [OF ok(1) d(1) p es(1)] by blast
    from runsingle_ok [OF ok(1) d(1) p es(2) this] show ?thesis
      using d r ok(2) frame_outline by (auto simp: perform_body_def frame_def was_run_def)
  next
    fix u assume u: "n \<notin> mid_of (pm s) ` members (pm s)" "Curl_multi_get_easy (pm s) n = (None, (pm s)\<lparr>xfers := u\<rparr>)"
    let ?m = "(pm s)\<lparr>xfers := u\<rparr>"
    have g: "multi_ok g ?m" "outline (pm s) ?m" using get_easy_ok [OF ok(1), of n 0] u(2) frame_outline by auto
    then have "n \<notin> mid_of ?m ` members ?m" using u(1) by (simp add: outline_def)
    note ds = drop_stale_ok [OF g(1) this]
    then have "was_run env n (pm s) (drop_stale ?m n)" using u(1) g(2) by (simp add: was_run_def outline_def)
    then show ?thesis using ds u(2) ok(2) outline_trans [OF g(2)] by (simp add: perform_body_def)
  qed
qed

text \<open>The invariant of the loop that starts with \<open>m\<close>.\<close>

definition loop_inv :: "nat \<Rightarrow> Curl_multi \<Rightarrow> perform_state \<Rightarrow> bool" where
  "loop_inv g m s \<longleftrightarrow> multi_ok g (pm s) \<and> \<not> starved s \<and> outline m (pm s)"

lemma loop_inv_body:
  assumes "loop_inv g m s" and "perform_env_ok env" and "n \<in> bset_elems (process (pm s))"
  shows "loop_inv g m (perform_body env n s) \<and> was_run env n (pm s) (pm (perform_body env n s))
    \<and> {k \<in> bset_elems (process (pm s)). n < k} \<subseteq> bset_elems (process (pm (perform_body env n s)))"
proof -
  have s: "multi_ok g (pm s)" "\<not> starved s" "outline m (pm s)" using assms(1) by (simp_all add: loop_inv_def)
  from perform_body_ok [OF s(1,2) assms(2,3)] outline_trans [OF s(3)] show ?thesis by (auto simp: loop_inv_def)
qed

lemma loop_inv_through: "multi_ok g (pm s) \<Longrightarrow> process_loop.holds_through {} s"
proof -
  assume "multi_ok g (pm s)"
  then have "bset_ok (process (pm s))" by (simp add: multi_ok_parts roomy_def)
  then show ?thesis using bset_ok_less unfolding process_loop.holds_through_def by (meson empty_subsetI less_irrefl)
qed

lemma loop_inv_first:
  assumes "multi_ok g m" and f: "process_first \<lparr>pm = m, returncode = CURLM_OK, starved = False\<rparr> = (b, n, s')"
  shows "loop_inv g m s' \<and> pm s' = m\<lparr>process := process (pm s')\<rparr> \<and> bset_elems (process (pm s')) = bset_elems (process m)"
proof -
  have fs: "Curl_uint32_bset_first (process m) = (b, n, process (pm s'))" using process_firstD [OF f] by simp
  have s': "pm s' = m\<lparr>process := process (pm s')\<rparr>" "\<not> starved s'" using f by (auto simp: process_first_def split: prod.splits)
  have ok: "bset_ok (process m)" using assms(1) by (simp add: multi_ok_parts roomy_def)
  note e = bset.first_state [OF ok fs]
  have "multi_ok g (m\<lparr>process := process (pm s')\<rparr>) \<and> outline m (m\<lparr>process := process (pm s')\<rparr>)"
    using assms(1) e first_nslots [OF fs]
    by (simp add: multi_ok_parts members_def user_xfers_def live_def really_live_def roomy_def placed_def outline_def)
  then have "loop_inv g m s'" unfolding loop_inv_def using s' by metis
  then show ?thesis using s'(1) e by blast
qed

lemma perform_xfers_ok:
  assumes "multi_ok g m" and "perform_env_ok env"
  shows "\<exists>ns s. perform_xfers env m = Some (ns, s) \<and> multi_ok g (pm s) \<and> \<not> starved s \<and> outline m (pm s)
    \<and> sorted_wrt (<) ns \<and> bset_elems (process m) \<subseteq> set ns"
proof -
  let ?s = "\<lparr>pm = m, returncode = CURLM_OK, starved = False\<rparr>"
  have "\<exists>ns t. for_each process_first process_next (perform_body env) ?s = Some (ns, t) \<and> loop_inv g m t
      \<and> sorted_wrt (<) ns \<and> bset_elems (process (pm ?s)) \<subseteq> set ns"
  proof (rule process_loop.for_each_all)
    fix n s assume "loop_inv g m s" "n \<in> bset_elems (process (pm s))"
    from loop_inv_body [OF this(1) assms(2) this(2)] show "loop_inv g m (perform_body env n s)
      \<and> {k \<in> bset_elems (process (pm s)). n < k} \<subseteq> bset_elems (process (pm (perform_body env n s)))" by blast
  next
    show "process_loop.holds_through {} s" if "loop_inv g m s" for s using that loop_inv_through [of g s] by (simp add: loop_inv_def)
    show "process_loop.holds_through {} ?s" using loop_inv_through [of g ?s] assms(1) by simp
    show "loop_inv g m s'" if "process_first ?s = (b, n, s')" for b n s' using loop_inv_first [OF assms(1) that] by blast
  qed
  then show ?thesis by (auto simp: perform_xfers_def loop_inv_def)
qed

text \<open>The transfers are run in turn.\<close>

lemma perform_xfers_runs:
  assumes "multi_ok g m" and "perform_env_ok env" and "perform_xfers env m = Some (ns, s)"
  shows "\<exists>p. bset_elems p = bset_elems (process m) \<and> trace (was_run env) ns (m\<lparr>process := p\<rparr>) (pm s)"
proof -
  let ?s = "\<lparr>pm = m, returncode = CURLM_OK, starved = False\<rparr>"
  obtain b n s' where f: "process_first ?s = (b, n, s')" by (rule prod_cases3)
  note i = loop_inv_first [OF assms(1) f]
  have "bset_ok (process (pm ?s))" using assms(1) by (simp add: multi_ok_parts roomy_def)
  then have "trace (\<lambda>n s u. was_run env n (pm s) (pm u)) ns s' s"
  proof (rule process_loop.for_each_trace [where P = "loop_inv g m", OF _ _ f, rotated 3])
    show "for_each process_first process_next (perform_body env) ?s = Some (ns, s)" using assms(3) by (simp add: perform_xfers_def)
    show "loop_inv g m s'" using i by blast
  qed (use loop_inv_body [OF _ assms(2)] loop_inv_through in \<open>auto simp: loop_inv_def\<close>)
  from trace_image [of "was_run env" pm, OF this] i show ?thesis by metis
qed

section \<open>Expired timers\<close>

lemma move_simps:
  "process (move_pending_to_connect m d) = snd (Curl_uint32_bset_add (process m) (mid_of m d))"
  "pending (move_pending_to_connect m d) = Curl_uint32_bset_remove (pending m) (mid_of m d)"
  "tim (move_pending_to_connect m d) = Curl_multi_mark_dirty (tim m) d"
  "easy (move_pending_to_connect m d) = (easy m)(d := (easy m d)\<lparr>mstate := MSTATE_CONNECT\<rparr>)"
  "msgsent (move_pending_to_connect m d) = msgsent m" "xfers (move_pending_to_connect m d) = xfers m"
  "admin (move_pending_to_connect m d) = admin m" "msglist (move_pending_to_connect m d) = msglist m"
  "xfers_alive (move_pending_to_connect m d) = xfers_alive m" "xfers_really_alive (move_pending_to_connect m d) = xfers_really_alive m"
  "last_pending_mid (move_pending_to_connect m d) = last_pending_mid m" "multi_magic (move_pending_to_connect m d) = multi_magic m"
  "in_callback (move_pending_to_connect m d) = in_callback m"
  by (simp_all add: move_pending_to_connect_def multi_mark_dirty_def multistate_def Let_def)
    (auto simp: fun_eq_iff intro!: Curl_easy.equality)

lemma mark_same [simp]:
  "easies (Curl_multi_mark_dirty t d) = easies t" "timetree (Curl_multi_mark_dirty t d) = timetree t"
  by (simp_all add: Curl_multi_mark_dirty_def)

lemma outline_move: "outline m (move_pending_to_connect m d)"
  by (simp add: outline_def members_def move_simps)

text \<open>Moving a transfer that waits, that was just released, or the admin handle.\<close>

lemma move_ok:
  assumes ok: "multi_ok g m" "d \<in> members m" and st: "state_of m d = MSTATE_PENDING \<or> state_of m d = MSTATE_CONNECT \<or> d = admin m"
  shows "multi_ok g (move_pending_to_connect m d)"
proof -
  let ?m = "move_pending_to_connect m d"
  have tk: "tim_keeps (tim m) (tim ?m)" using tim_keeps_mark [OF ok_timers [OF ok(1)]] by (simp add: move_simps)
  consider (admin) "d = admin m" | (waits) "at g m d {MSTATE_PENDING}" | (free) "at g m d {MSTATE_CONNECT}"
    using assms by (auto simp: at_def user_xfers_def)
  then show ?thesis
  proof cases
    case waits
    then show ?thesis using at_from_pending by (simp add: at_def)
  next
    case free
    note a = at_facts [OF free]
    have st: "state_of m d = MSTATE_CONNECT" using a(3) by simp
    then have p: "mid_of m d \<in> bset_elems (process m)" "mid_of m d \<notin> bset_elems (pending m)" using a(10) by (simp_all add: placed_def)
    have "placed ?m d" using a(10) st p by (simp add: placed_def move_simps roomy_elems(1) [OF a(7)] roomy_elems(2) [OF a(6,11)])
    moreover have "timers_ok (tim ?m)" "roomy m (dirty (tim ?m))" using tk a(9) by (auto simp: tim_keeps_def roomy_def timers_ok_def)
    ultimately have "multi_ok g ?m \<and> members ?m = members m \<and> user_xfers ?m = user_xfers m"
      by (intro multi_ok_change [OF a(1,2)])
        (use a p st in \<open>auto simp: move_simps roomy_elems(1) [OF a(7)] roomy_elems(2) [OF a(6,11)]\<close>)
    then show ?thesis by simp
  next
    case admin
    have r: "roomy m (process m)" "roomy m (pending m)" "magic_ok (easy m d)" "last_pending_mid m < UINT32_MAX" "table_ok m"
      using ok by (auto simp: multi_ok_parts)
    have i: "mid_of m d < nrows (xfers m)" using mid_bound [OF r(5) ok(2)] by simp
    have "mid_of m d \<notin> bset_elems (pending m)"
    proof
      assume "mid_of m d \<in> bset_elems (pending m)"
      then obtain x where "at g m x {MSTATE_PENDING}" "mid_of m x = mid_of m d" using pending_member [OF ok(1)] by blast
      then show False using mid_inj [OF r(5)] user_member ok(2) admin unfolding at_def by metis
    qed
    then have "multi_ok g ?m \<and> members ?m = members m"
      using admin r tk i by (intro multi_ok_admin [OF ok(1)]) (auto simp: move_simps roomy_elems(1) [OF r(2)] roomy_elems(2) [OF r(1)])
    then show ?thesis by simp
  qed
qed

lemma pending_tree: "multi_ok g m \<Longrightarrow> timetree (tim (process_pending_handles m)) = timetree (tim m)"
  by (cases rule: process_pending_cases) (assumption, simp_all add: scanned_def released_def move_simps)

lemma done_tree: "multi_ok g m \<Longrightarrow> timetree (tim (snd (multi_done out m d st p))) = timetree (tim m)"
  using pending_tree by (auto simp: multi_done_def multi_done_locked_def Curl_detach_connection_def Let_def)

lemma done_waits:
  assumes "multi_ok g m" and "state_of m d = MSTATE_PENDING"
  shows "state_of (snd (multi_done out m d s p)) d \<in> {MSTATE_PENDING, MSTATE_CONNECT}"
proof -
  have "state_of (process_pending_handles m) d \<in> {MSTATE_PENDING, MSTATE_CONNECT}" using assms
    by (cases rule: process_pending_cases) (auto simp: scanned_def released_def move_simps)
  then show ?thesis using assms(2) by (simp add: multi_done_def multi_done_locked_def Curl_detach_connection_def Let_def)
qed

text \<open>One expired timer.\<close>

lemma next_keeps:
  assumes "timers_ok t" and "time_ok ts" and "Curl_splaygetbest ts (timetree t) = (Some d, tr)"
    and "\<And>x. \<not> in_multi (easies t x) \<Longrightarrow> expiretime (easies t x) = tv_zero"
  shows "tim_keeps t (add_next_timeout ts (t\<lparr>timetree := tr\<rparr>) d)"
proof -
  note n = next_step [OF assms(1-3)]
  have "in_multi (easies t d)" using n(5) assms(4) by blast
  then show ?thesis unfolding tim_keeps_def using n(2,4,6-8) by metis
qed

definition expired_one :: "perform_env \<Rightarrow> Curl_multi \<Rightarrow> splay \<Rightarrow> nat \<Rightarrow> Curl_multi" where
  "expired_one env m tr d =
     (let m1 = m\<lparr>tim := add_next_timeout (start_now env) ((tim m)\<lparr>timetree := tr\<rparr>) d\<rparr> in
      if state_of m1 d = MSTATE_PENDING then
        (case multi_handle_timeout (xfer_out env d) (xfer_lims env d) (mid_now env) m1 d False CURLE_OK of
           (timed, _, _, x) \<Rightarrow> if timed then move_pending_to_connect x d else x)
      else m1)"

lemma expired_one_ok:
  assumes ok: "multi_ok g m" and "time_ok (start_now env)" and "Curl_splaygetbest (start_now env) (timetree (tim m)) = (Some d, tr)"
  shows "Curl_splayget tr d = Some d \<and> multi_ok g (expired_one env m tr d) \<and> outline m (expired_one env m tr d)
    \<and> Suc (due (start_now env) (timetree (tim (expired_one env m tr d)))) = due (start_now env) (timetree (tim m))"
proof -
  note n = next_step [OF ok_timers [OF ok] assms(2,3)]
  define m1 where "m1 = m\<lparr>tim := add_next_timeout (start_now env) ((tim m)\<lparr>timetree := tr\<rparr>) d\<rparr>"
  have d: "d \<in> members m" using n(5) ok by (auto simp: multi_ok_parts)
  have "tim_keeps (tim m) (add_next_timeout (start_now env) ((tim m)\<lparr>timetree := tr\<rparr>) d)"
    by (rule next_keeps [OF ok_timers [OF ok] assms(2,3)]) (use ok in \<open>auto simp: multi_ok_parts members_def\<close>)
  from multi_ok_tim [OF ok this] frame_outline [OF frame_tim [OF this, of d]]
  have m1: "multi_ok g m1" "outline m m1" "d \<in> members m1" using d by (simp_all add: m1_def outline_def)
  have t1: "Suc (due (start_now env) (timetree (tim m1))) = due (start_now env) (timetree (tim m))" using n(3) by (simp add: m1_def)
  define x where "x = snd (multi_done (xfer_out env d) m1 d CURLE_OPERATION_TIMEDOUT True)"
  have x: "multi_ok g x" "outline m1 x" "timetree (tim x) = timetree (tim m1)"
  proof -
    have "multi_ok g x \<and> frame d m1 x"
    proof (cases "d = admin m1")
      case True
      then show ?thesis using admin_done [OF m1(1) True] by (simp add: x_def)
    next
      case False
      then have "at g m1 d UNIV" using m1 by (simp add: at_def user_xfers_def)
      from at_done [OF this] show ?thesis by (simp add: x_def at_def)
    qed
    then show "multi_ok g x" "outline m1 x" using frame_outline by blast+
    show "timetree (tim x) = timetree (tim m1)" using done_tree [OF m1(1)] by (simp add: x_def)
  qed
  have mv: "multi_ok g (move_pending_to_connect y d) \<and> outline m (move_pending_to_connect y d) \<and> timetree (tim (move_pending_to_connect y d)) = timetree (tim m1)"
    if "state_of m1 d = MSTATE_PENDING" "y = x \<or> y = m1" for y
  proof -
    have "state_of y d \<in> {MSTATE_PENDING, MSTATE_CONNECT}" using that done_waits [OF m1(1)] by (auto simp: x_def)
    moreover have "multi_ok g y" "outline m1 y" "timetree (tim y) = timetree (tim m1)" using that(2) m1 x by auto
    moreover have "d \<in> members y" using \<open>outline m1 y\<close> m1(3) by (simp add: outline_def)
    ultimately show ?thesis using move_ok [of g y d] outline_trans [OF outline_trans [OF m1(2) \<open>outline m1 y\<close>] outline_move] by (auto simp: move_simps)
  qed
  have "expired_one env m tr d \<in> insert m1 (if state_of m1 d = MSTATE_PENDING then {move_pending_to_connect x d, move_pending_to_connect m1 d} else {})"
    unfolding expired_one_def Let_def m1_def [symmetric] multi_handle_timeout_def x_def by auto
  then show ?thesis using n(1) m1 t1 mv [of x] mv [of m1] by (auto split: if_splits)
qed

lemma perform_expired_ok:
  "multi_ok g m \<Longrightarrow> time_ok (start_now env) \<Longrightarrow> due (start_now env) (timetree (tim m)) < fuel \<Longrightarrow>
   \<exists>m'. perform_expired fuel env m = Some m' \<and> multi_ok g m' \<and> outline m m'"
proof (induction fuel arbitrary: m)
  case (Suc fuel)
  obtain r tr where g: "Curl_splaygetbest (start_now env) (timetree (tim m)) = (r, tr)" by (rule prod.exhaust)
  show ?case
  proof (cases r)
    case None
    have ok: "splay_ok (timetree (tim m))" using ok_timers [OF Suc.prems(1)] by (simp add: timers_ok_def)
    have "timers tr = timers (timetree (tim m))" "splay_ok tr"
      using splaygetbest_ok [OF ok Suc.prems(2) g] None by (auto split: list.splits if_splits)
    then have "tim_keeps (tim m) ((tim m)\<lparr>timetree := tr\<rparr>)"
      using ok_timers [OF Suc.prems(1)] nptr_getbest [OF g] by (simp add: tim_keeps_def timers_ok_def easy_ok_def)
    from multi_ok_tim [OF Suc.prems(1) this] frame_outline [OF frame_tim [OF this]] show ?thesis using g None by simp
  next
    case (Some d)
    let ?m = "expired_one env m tr d"
    note st = expired_one_ok [OF Suc.prems(1,2) g [unfolded Some]]
    then have "due (start_now env) (timetree (tim ?m)) < fuel" using Suc.prems(3) by simp
    from Suc.IH [OF _ Suc.prems(2) this] st obtain m' where m': "perform_expired fuel env ?m = Some m'" "multi_ok g m'" "outline ?m m'" by blast
    have "perform_expired (Suc fuel) env m = perform_expired fuel env ?m" using g Some st by (simp add: expired_one_def Let_def)
    then show ?thesis using m' st outline_trans by auto
  qed
qed simp

lemma due_bound: "due ts tr < Suc (length (timers tr))"
  by (simp add: due_def le_imp_less_Suc)

lemma round_start_ok: "multi_ok g m \<Longrightarrow> multi_ok g (round_start m) \<and> outline m (round_start m)"
  using process_pending_ok [of g "m\<lparr>recheckstate := False\<rparr>" 0] frame_outline [of 0 "m\<lparr>recheckstate := False\<rparr>"]
  by (auto simp: round_start_def multi_ischanged_def outline_def)

lemma update_outline: "multi_ok g m \<Longrightarrow> update_timer cb now m = (c, m') \<Longrightarrow> multi_ok g m' \<and> outline m m'"
  using update_timer_ok [of g m cb now c m' 0] frame_outline by blast

lemma running_count: "multi_ok g m \<Longrightarrow> running_handles m = min INT_MAX ((card (live m) + g) mod 2 ^ 32)"
  by (simp add: running_handles_def Curl_multi_xfers_running_def multi_ok_parts min_def Let_def)

text \<open>What follows the notifications.\<close>

lemma update_live:
  assumes "multi_ok g m" and "(if b then update_timer cb now m else (rc, m)) = (c, m')"
  shows "multi_ok g m' \<and> outline m m' \<and> live m' = live m"
proof (cases b)
  case True
  then have u: "update_timer cb now m = (c, m')" using assms(2) by simp
  from update_timer_ok [OF assms(1) u, of 0] have "easy m' = easy m" by auto
  then show ?thesis using update_outline [OF assms(1) u] by (simp add: live_def user_xfers_def outline_def)
qed (use assms in simp)

definition perform_misses :: "perform_env \<Rightarrow> Curl_multi \<Rightarrow> nat" where
  "perform_misses env m =
     (case perform_xfers env m of None \<Rightarrow> 0 | Some (_, s) \<Rightarrow> notify_misses (ntfy env) (returncode s) (round_start (pm s)))"

lemma perform_ok:
  assumes "multi_ok g m" and "perform_env_ok env" and "\<not> in_callback m" and "\<not> in_ntfy_callback m"
  shows "\<exists>c n m'. multi_perform env m = Some (c, Some n, m') \<and> multi_ok (g + perform_misses env m) m'
    \<and> members m - notify_removes (ntfy env) \<subseteq> members m' \<and> members m' \<subseteq> members m \<union> notify_adds (ntfy env)
    \<and> n = min INT_MAX ((card (live m') + (g + perform_misses env m)) mod 2 ^ 32)"
proof -
  obtain ns s where x: "perform_xfers env m = Some (ns, s)" "multi_ok g (pm s)" "\<not> starved s" "outline m (pm s)"
    using perform_xfers_ok [OF assms(1,2)] by blast
  let ?g = "g + perform_misses env m"
  have env: "time_ok (start_now env)" "ntfy_ok (ntfy env)" using assms(2) by (simp_all add: perform_env_ok_def)
  have m0: "multi_ok g (round_start (pm s))" "members (round_start (pm s)) = members m"
    using round_start_ok [OF x(2)] x(4) by (simp_all add: outline_def)
  obtain rc m1 where nt: "notify (ntfy env) (returncode s) (round_start (pm s)) = (rc, m1)" by (rule prod.exhaust)
  from notify_ok [OF m0(1) env(2), of "returncode s"] nt x(1) m0(2)
  have m1: "multi_ok ?g m1" "members m - notify_removes (ntfy env) \<subseteq> members m1" "members m1 \<subseteq> members m \<union> notify_adds (ntfy env)"
    by (simp_all add: perform_misses_def)
  from perform_expired_ok [OF m1(1) env(1) due_bound] obtain m2 where
      m2: "perform_expired (Suc (length (timers (timetree (tim m1))))) env m1 = Some m2" "multi_ok ?g m2" "outline m1 m2" by blast
  obtain c m3 where c: "(if rc = CURLM_OK \<or> rc = CURLM_CALL_MULTI_PERFORM
      then update_timer (timer_cb env) (end_now env) m2 else (rc, m2)) = (c, m3)" by (rule prod.exhaust)
  note m3 = update_live [OF m2(2) c]
  have "multi_perform env m = Some (c, Some (running_handles m2), m3)"
    unfolding multi_perform_def using assms(3,4) x(1,3) nt m2(1) c by (simp add: Let_def)
  moreover have "members m3 = members m1" using m2(3) m3 by (simp add: outline_def)
  ultimately show ?thesis using m3 m1(2,3) running_count [OF m2(2)] by simp
qed

section \<open>Adding to a handle that works\<close>

text \<open>With memory the transfer is admitted, and only the timer callback can refuse it.\<close>

definition accepts :: "Curl_multi \<Rightarrow> nat \<Rightarrow> bool" where
  "accepts m d \<longleftrightarrow> multi_magic m \<and> \<not> in_callback m \<and> \<not> multi_dead (app m) \<and> magic_ok (easy m d) \<and> d \<notin> members m"

lemma add_admits:
  assumes "multi_ok g m" and "nrows (xfers m) < 2 ^ 31" and "accepts m d" and "\<forall>i. al i"
  obtains n where "multi_ok g n" "app n = app m" "xfers_total_ever n = Suc (xfers_total_ever m)"
    "d \<in> members n" "mid_of n d \<in> bset_elems (dirty (tim n)) \<inter> bset_elems (process n)"
    "curl_multi_add_handle cb now al m d = (case update_timer cb now n of (c, x) \<Rightarrow>
       if c \<noteq> CURLM_OK then (c, x\<lparr>xfers := snd (Curl_uint32_tbl_remove (xfers x) (mid_of x d)),
                               tim := upd_easy d ((timers_of x d)\<lparr>in_multi := False, mid := UINT32_MAX\<rparr>) (tim x)\<rparr>)
       else (CURLM_OK, x))"
proof -
  have d: "d \<notin> members m" "\<not> in_multi (timers_of m d)" using assms(3) by (simp_all add: accepts_def members_def)
  obtain c m2 where a: "multi_xfers_add al m d = (c, m2)" by (rule prod.exhaust)
  from multi_xfers_add_ok [OF assms(1,2) d(1) a] assms(4) obtain n1 i t where
      n1: "multi_ok g n1" "members n1 = members m" "easy n1 = easy m" "admin n1 = admin m" "app n1 = app m" "xfers_total_ever n1 = xfers_total_ever m"
      "c = CURLM_OK" "Curl_uint32_tbl_add (xfers n1) d = Some (i, t)"
      "m2 = n1\<lparr>xfers := t, tim := upd_easy d ((timers_of n1 d)\<lparr>mid := i\<rparr>) (tim n1)\<rparr>"
    by (auto split: if_splits)
  have "d \<notin> members n1" "magic_ok (easy n1 d)" using n1 assms(3) by (simp_all add: accepts_def)
  note j = multi_ok_join [OF n1(1) this n1(8), folded n1(9)]
  let ?n = "multi_admit m2 d"
  have "d \<noteq> admin ?n" using j d(1) n1(1,2,4) by (auto simp: multi_ok_parts)
  then have "at g ?n d {MSTATE_INIT}" using j by (simp add: at_def user_xfers_def)
  then have "mid_of ?n d \<in> bset_elems (process ?n)" using at_facts(3,10) by (fastforce simp: placed_def)
  moreover have "app ?n = app m" "xfers_total_ever ?n = Suc (xfers_total_ever m)"
    using n1 by (simp_all add: multi_admit_def multi_mark_dirty_def multistate_def upd_xfer_def Let_def)
  moreover have "curl_multi_add_handle cb now al m d = (case update_timer cb now ?n of (c, x) \<Rightarrow>
       if c \<noteq> CURLM_OK then (c, x\<lparr>xfers := snd (Curl_uint32_tbl_remove (xfers x) (mid_of x d)),
                               tim := upd_easy d ((timers_of x d)\<lparr>in_multi := False, mid := UINT32_MAX\<rparr>) (tim x)\<rparr>)
       else (CURLM_OK, x))"
    using assms(3) d(2) a n1(7) by (simp add: curl_multi_add_handle_def accepts_def)
  ultimately show ?thesis using that j by blast
qed

lemma add_accepted:
  assumes "multi_ok g m" and "nrows (xfers m) < 2 ^ 31" and "accepts m d" and "\<forall>i. al i"
  shows "fst (curl_multi_add_handle None now al m d) = CURLM_OK"
  by (rule add_admits [OF assms, of None now]) (simp add: update_timer_def)

lemma add_refused:
  assumes "multi_ok g m" and "nrows (xfers m) < 2 ^ 31" and "accepts m d" and "\<forall>i. al i"
    and "f 0 = -1" and "last_timeout_ms (app m) < 0"
  shows "\<exists>m'. curl_multi_add_handle (Some f) now al m d = (CURLM_ABORTED_BY_CALLBACK, m') \<and> miscounted CURLM_ABORTED_BY_CALLBACK m m'"
proof -
  obtain n where n: "multi_ok g n" "app n = app m" "xfers_total_ever n = Suc (xfers_total_ever m)" "d \<in> members n"
      "mid_of n d \<in> bset_elems (dirty (tim n)) \<inter> bset_elems (process n)" and
    e: "curl_multi_add_handle (Some f) now al m d = (case update_timer (Some f) now n of (c, x) \<Rightarrow>
       if c \<noteq> CURLM_OK then (c, x\<lparr>xfers := snd (Curl_uint32_tbl_remove (xfers x) (mid_of x d)),
                               tim := upd_easy d ((timers_of x d)\<lparr>in_multi := False, mid := UINT32_MAX\<rparr>) (tim x)\<rparr>)
       else (CURLM_OK, x))" by (rule add_admits [OF assms(1-4), of "Some f" now])
  obtain b n1 where c: "multi_check_dirties n = (b, n1)" by (rule prod.exhaust)
  from check_dirties_ok [OF n(1) this] n(4,5) obtain ds where b: "b" "n1 = set_dirty ds n" by blast
  have dead: "\<not> multi_dead (app n)" using n(2) assms(3) by (simp add: accepts_def)
  obtain x where "update_timer (Some f) now n = (CURLM_ABORTED_BY_CALLBACK, x)" "xfers_total_ever x = Suc (xfers_total_ever m)"
    using c b dead n(2,3) assms(5,6) by (simp add: update_timer_def Curl_update_timer_def multi_timeout_def Let_def)
  then show ?thesis using e by (simp add: miscounted_def)
qed

section \<open>Running the dirty transfers keeps the invariant\<close>

lemma undirty_ok: "multi_ok g m \<Longrightarrow> multi_ok g (undirty m n) \<and> outline m (undirty m n)"
  using frame_undirty [of g m n 0] frame_outline by (auto simp: undirty_def)

lemma run_dirty_loop_ok:
  assumes "perform_env_ok env"
  shows "multi_ok g m \<Longrightarrow> n < UINT32_MAX \<Longrightarrow> UINT32_MAX - n \<le> fuel \<Longrightarrow>
    \<exists>c' k' m'. run_dirty_loop fuel env n c k m = Some (c', k', m') \<and> multi_ok g m' \<and> outline m m'"
proof (induction fuel arbitrary: n c k m)
  case (Suc fuel)
  define go_on where "go_on c k x = (case Curl_uint32_bset_next (dirty (tim x)) n of
      (False, _) \<Rightarrow> Some (c, k, x) | (True, n') \<Rightarrow> run_dirty_loop fuel env n' c k x)" for c k x
  have go: "\<exists>c' k' m'. go_on c k x = Some (c', k', m') \<and> multi_ok g m' \<and> outline m m'" if x: "multi_ok g x" "outline m x" for c k x
  proof -
    have b: "bset_ok (dirty (tim x))" using x(1) by (simp add: multi_ok_parts roomy_def)
    obtain f n' where nx: "Curl_uint32_bset_next (dirty (tim x)) n = (f, n')" by (rule prod.exhaust)
    show ?thesis
    proof (cases f)
      case True
      then have l: "n' \<in> bset_elems (dirty (tim x))" "n < n'"
        using bset.next_found [OF b Suc.prems(2)] nx by (auto simp: least_from_def)
      have "UINT32_MAX - n' \<le> fuel" using Suc.prems(3) l(2) by simp
      from Suc.IH [OF x(1) bset_ok_less [OF b l(1)] this, of c k] show ?thesis
        using nx True outline_trans [OF x(2)] by (auto simp: go_on_def)
    qed (use nx x in \<open>simp add: go_on_def\<close>)
  qed
  have t: "table_ok m" using Suc.prems(1) by (simp add: multi_ok_def)
  have r: "roomy m (process m)" using Suc.prems(1) by (simp add: multi_ok_parts)
  note eq = run_dirty_loop.simps(2) [of fuel env n c k m, folded go_on_def, unfolded Let_def]
  from get_easy_cases [OF t, of n] show ?case
  proof (elim disjE bexE conjE exE)
    fix d assume d: "d \<in> members m" "mid_of m d = n" "Curl_multi_get_easy m n = (Some d, m)"
    show ?thesis
    proof (cases "n \<in> bset_elems (process m)")
      case True
      have es: "enough (xfer_rounds env d)" "list_all env_ok (xfer_rounds env d)" using assms by (simp_all add: perform_env_ok_def enough_def)
      have p: "mid_of m d \<in> bset_elems (process m)" using d(2) True by simp
      obtain c' m' where run: "multi_runsingle (xfer_out env d) (xfer_rounds env d) m d = Some (c', m')"
        using runsingle_ends [OF Suc.prems(1) d(1) p es(1)] by blast
      from runsingle_ok [OF Suc.prems(1) d(1) p es(2) this] have m': "multi_ok g m'" "outline m m'" using frame_outline by blast+
      show ?thesis unfolding eq using d(3) True run m' go [OF m'] by (auto simp: roomy_elems(3) [OF r])
    next
      case False
      then show ?thesis unfolding eq using d(3) go undirty_ok [OF Suc.prems(1)] by (simp add: roomy_elems(3) [OF r])
    qed
  next
    fix u assume u: "Curl_multi_get_easy m n = (None, m\<lparr>xfers := u\<rparr>)"
    have g: "multi_ok g (m\<lparr>xfers := u\<rparr>)" "outline m (m\<lparr>xfers := u\<rparr>)" using get_easy_ok [OF Suc.prems(1), of n 0] u frame_outline by auto
    then show ?thesis unfolding eq using u go [of "undirty (m\<lparr>xfers := u\<rparr>) n"] undirty_ok [OF g(1)] outline_trans [OF g(2)] by simp
  qed
qed simp

lemma run_dirty_ok:
  assumes "multi_ok g m" and "perform_env_ok env"
  shows "\<exists>c k m'. multi_run_dirty env m = Some (c, k, m') \<and> multi_ok g m' \<and> outline m m'"
proof -
  obtain f n b where fs: "Curl_uint32_bset_first (dirty (tim m)) = (f, n, b)" by (rule prod_cases3)
  have d: "bset_ok (dirty (tim m))" using assms(1) by (simp add: multi_ok_parts roomy_def)
  note b = bset.first_state [OF d fs]
  have "tim_keeps (tim m) ((tim m)\<lparr>dirty := b\<rparr>)" using tim_keeps_dirty [OF ok_timers [OF assms(1)]] b first_nslots [OF fs] by simp
  then have s: "multi_ok g (set_dirty b m)" "outline m (set_dirty b m)"
    using multi_ok_tim [OF assms(1)] frame_outline [OF frame_tim] by blast+
  show ?thesis
  proof (cases f)
    case True
    then have "n \<in> bset_elems b" using bset.first_found [OF d] fs b by (auto simp: least_from_def)
    then have "n < UINT32_MAX" using bset_ok_less b by blast
    from run_dirty_loop_ok [OF assms(2) s(1) this le_SucI [OF diff_le_self], of CURLM_OK 0]
    show ?thesis using fs True outline_trans [OF s(2)] by (auto simp: multi_run_dirty_def simp del: run_dirty_loop.simps)
  qed (use fs s in \<open>simp add: multi_run_dirty_def\<close>)
qed

lemma wake_keeps:
  assumes "timers_ok t" and "time_ok ts" and "\<And>x. \<not> in_multi (easies t x) \<Longrightarrow> expiretime (easies t x) = tv_zero"
    and "multi_mark_expired_as_dirty fuel t ts = Some t'"
  shows "tim_keeps t t'"
  using assms
proof (induction fuel arbitrary: t)
  case (Suc fuel)
  obtain r tr where g: "Curl_splaygetbest ts (timetree t) = (r, tr)" by (rule prod.exhaust)
  show ?case
  proof (cases r)
    case None
    then have "t' = t\<lparr>timetree := tr\<rparr>" using Suc.prems(4) g by simp
    moreover have "timers_ok t'" using mark_loop_inv [OF Suc.prems(1,2,4)] .
    ultimately show ?thesis by (simp add: tim_keeps_def)
  next
    case (Some d)
    define u where "u = add_next_timeout ts (t\<lparr>timetree := tr\<rparr>) d"
    define v where "v = Curl_multi_mark_dirty u d"
    have u: "tim_keeps t u" using next_keeps [OF Suc.prems(1,2) g [unfolded Some] Suc.prems(3)] by (simp add: u_def)
    then have v: "tim_keeps t v" using tim_keeps_mark tim_keeps_trans unfolding v_def tim_keeps_def by blast
    have "Curl_splayget tr d = Some d" using next_step(1) [OF Suc.prems(1,2) g [unfolded Some]] .
    then have l: "multi_mark_expired_as_dirty fuel v ts = Some t'" using Suc.prems(4) g Some by (simp add: v_def u_def)
    have "tim_keeps v t'" by (rule Suc.IH [OF _ Suc.prems(2) _ l]) (use v Suc.prems(3) in \<open>auto simp: tim_keeps_def\<close>)
    then show ?thesis by (rule tim_keeps_trans [OF v])
  qed
qed simp

lemma wake_ok:
  assumes "multi_ok g m" and "time_ok now"
  shows "\<exists>m'. multi_wake now m = Some m' \<and> multi_ok g m' \<and> outline m m'"
proof -
  have t: "timers_ok (tim m)" "\<And>x. \<not> in_multi (timers_of m x) \<Longrightarrow> expiretime (timers_of m x) = tv_zero"
    using assms(1) by (auto simp: multi_ok_parts members_def)
  obtain t' where l: "multi_mark_expired_as_dirty (Suc (length (timers (timetree (tim m))))) (tim m) now = Some t'"
    using mark_loop [OF t(1) assms(2) due_bound] by blast
  from wake_keeps [OF t(1) assms(2) t(2) l] have "tim_keeps (tim m) t'" .
  from multi_ok_tim [OF assms(1) this] frame_outline [OF frame_tim [OF this]] show ?thesis using l
    by (simp add: multi_wake_def del: multi_mark_expired_as_dirty.simps)
qed

lemma socket_out_ok:
  assumes "multi_ok g m" and "ntfy_ok nt"
  shows "\<exists>c' n m'. socket_out env nt c m = (c', Some n, m') \<and> multi_ok (g + notify_misses nt c (round_start m)) m'
    \<and> n = min INT_MAX ((card (live m') + (g + notify_misses nt c (round_start m))) mod 2 ^ 32)"
proof -
  let ?g = "g + notify_misses nt c (round_start m)"
  obtain rc m1 where nt: "notify nt c (round_start m) = (rc, m1)" by (rule prod.exhaust)
  have m1: "multi_ok ?g m1" using notify_ok [OF conjunct1 [OF round_start_ok [OF assms(1)]] assms(2), of c] nt by simp
  obtain c' m2 where u: "(if rc = CURLM_OK \<or> rc = CURLM_CALL_MULTI_PERFORM
      then update_timer (timer_cb env) (end_now env) m1 else (rc, m1)) = (c', m2)" by (rule prod.exhaust)
  from update_live [OF m1 u] show ?thesis using u nt running_count [OF m1] by (simp add: socket_out_def Let_def)
qed

lemma socket_run_ok:
  assumes "multi_ok g m" and "perform_env_ok env" and "perform_env_ok env'"
  shows "\<exists>c m'. socket_run env env' m = Some (c, m') \<and> multi_ok g m'"
proof -
  have ts: "time_ok (start_now env)" using assms(2) by (simp add: perform_env_ok_def)
  obtain m1 where m1: "multi_wake (start_now env) m = Some m1" "multi_ok g m1" using wake_ok [OF assms(1) ts] by blast
  obtain c k m2 where m2: "multi_run_dirty env m1 = Some (c, k, m2)" "multi_ok g m2" using run_dirty_ok [OF m1(2) assms(2)] by blast
  obtain m3 where m3: "multi_wake (start_now env) m2 = Some m3" "multi_ok g m3" using wake_ok [OF m2(2) ts] by blast
  obtain c' k' m4 where m4: "multi_run_dirty env' m3 = Some (c', k', m4)" "multi_ok g m4" using run_dirty_ok [OF m3(2) assms(3)] by blast
  show ?thesis using m1 m2 m3(1) m4 by (auto simp: socket_run_def)
qed

lemma mark_all_ok: "multi_ok g m \<Longrightarrow> multi_ok g (fold (\<lambda>d x. multi_mark_dirty x d) ds m) \<and> outline m (fold (\<lambda>d x. multi_mark_dirty x d) ds m)"
proof (induction ds arbitrary: m)
  case (Cons d ds)
  have k: "tim_keeps (tim m) (Curl_multi_mark_dirty (tim m) d)" using tim_keeps_mark [OF ok_timers [OF Cons.prems]] .
  have "multi_ok g (multi_mark_dirty m d)" "outline m (multi_mark_dirty m d)"
    using multi_ok_tim [OF Cons.prems k] frame_outline [OF frame_tim [OF k]] by (simp_all add: multi_mark_dirty_def)
  then show ?case using Cons.IH outline_trans by fastforce
qed simp

definition work_misses :: "perform_env \<Rightarrow> socket_event \<Rightarrow> Curl_multi \<Rightarrow> nat" where
  "work_misses env ev m = (if ev = SOCKET_ALL then perform_misses env m else 0)"

definition socket_misses :: "perform_env \<Rightarrow> perform_env \<Rightarrow> socket_event \<Rightarrow> Curl_multi \<Rightarrow> nat" where
  "socket_misses env env' ev m = work_misses env ev m
     + (case socket_work env env' ev m of None \<Rightarrow> 0 | Some (c, m1) \<Rightarrow> notify_misses (ntfy env') c (round_start m1))"

lemma socket_work_ok:
  assumes "multi_ok g m" and "perform_env_ok env" and "perform_env_ok env'" and "\<not> in_callback m" and "\<not> in_ntfy_callback m"
  shows "\<exists>c m'. socket_work env env' ev m = Some (c, m') \<and> multi_ok (g + work_misses env ev m) m'"
proof (cases ev)
  case SOCKET_ALL
  obtain c n m' where "multi_perform env m = Some (c, Some n, m')" "multi_ok (g + perform_misses env m) m'"
    using perform_ok [OF assms(1,2,4,5)] by blast
  then show ?thesis using SOCKET_ALL by (simp add: socket_work_def work_misses_def)
next
  case SOCKET_TIMEOUT
  let ?m = "m\<lparr>app := (app m)\<lparr>last_expire_ts := tv_zero\<rparr>\<rparr>"
  have "multi_ok g ?m" using assms(1) by simp
  from socket_run_ok [OF this assms(2,3)] this show ?thesis using SOCKET_TIMEOUT by (auto simp: socket_work_def work_misses_def Let_def)
next
  case (SOCKET_READY ds)
  from socket_run_ok [OF conjunct1 [OF mark_all_ok [OF assms(1)]] assms(2,3)] show ?thesis
    using SOCKET_READY by (simp add: socket_work_def work_misses_def)
qed

lemma socket_action_ok:
  assumes "multi_ok g m" and "perform_env_ok env" and "perform_env_ok env'" and "\<not> in_callback m" and "\<not> in_ntfy_callback m"
  shows "\<exists>c n m'. curl_multi_socket_action env env' ev m = Some (c, Some n, m') \<and> multi_ok (g + socket_misses env env' ev m) m'
    \<and> n = min INT_MAX ((card (live m') + (g + socket_misses env env' ev m)) mod 2 ^ 32)"
proof -
  obtain c m1 where w: "socket_work env env' ev m = Some (c, m1)" "multi_ok (g + work_misses env ev m) m1"
    using socket_work_ok [OF assms] by blast
  have "ntfy_ok (ntfy env')" using assms(3) by (simp add: perform_env_ok_def)
  from socket_out_ok [OF w(2) this, of env c] show ?thesis
    using w(1) assms(4,5) by (auto simp: curl_multi_socket_action_def multi_socket_def socket_misses_def add.assoc)
qed

end
