(* ===== verification/Multi_Correct.thy ===== *)
theory Multi_Correct
  imports Multi_Perform
begin

text \<open>
  What an application can rely on when it uses a multi handle, for every sequence of calls: the
  books balance, each call runs every transfer it should and ends, waiting transfers take turns;
  and the one case where the count of running transfers goes wrong.
\<close>

section \<open>Sequences of calls\<close>

text \<open>
  The calls of an application, with those it makes in notifications, and the effects of its callbacks
  between them.  The number is that of transfers that were counted although adding them failed.
\<close>

abbreviation outside_callback :: "Curl_multi \<Rightarrow> bool" where
  "outside_callback m \<equiv> \<not> in_callback m \<and> \<not> in_ntfy_callback m"

inductive multi_step :: "nat \<times> Curl_multi \<Rightarrow> nat \<times> Curl_multi \<Rightarrow> bool" where
  add: "curl_multi_add_handle cb now al m d = (code, m') \<Longrightarrow> nrows (xfers m) < 2 ^ 31 \<Longrightarrow>
    multi_step (g, m) (if miscounted code m m' then Suc g else g, m')"
| remove: "curl_multi_remove_handle cb now out wakeup m d = (code, m') \<Longrightarrow> d \<noteq> admin m \<Longrightarrow> multi_step (g, m) (g, m')"
| perform: "curl_multi_perform env m = Some (code, n, m') \<Longrightarrow> perform_env_ok env \<Longrightarrow>
    multi_step (g, m) (if multi_magic m \<and> outside_callback m then g + perform_misses env m else g, m')"
| socket: "curl_multi_socket_action env env' ev m = Some (code, n, m') \<Longrightarrow> perform_env_ok env \<Longrightarrow> perform_env_ok env' \<Longrightarrow>
    multi_step (g, m) (if outside_callback m then g + socket_misses env env' ev m else g, m')"
| info_read: "curl_multi_info_read m = (msg, left, m') \<Longrightarrow> multi_step (g, m) (g, m')"
| outside: "effect_ok now ef \<Longrightarrow> ef \<noteq> Do_started \<Longrightarrow> multi_step (g, m) (g, apply_effect now d ef m)"

lemma perform_step_ok:
  assumes "multi_ok g m" and "perform_env_ok env" and "curl_multi_perform env m = Some (code, n, m')"
  shows "multi_ok (if multi_magic m \<and> outside_callback m then g + perform_misses env m else g) m'"
  using assms perform_ok [OF assms(1,2)]
  by (cases "multi_magic m \<and> outside_callback m") (auto simp: curl_multi_perform_def multi_perform_def split: if_splits)

lemma socket_step_ok:
  assumes "multi_ok g m" and "perform_env_ok env" and "perform_env_ok env'" and "curl_multi_socket_action env env' ev m = Some (code, n, m')"
  shows "multi_ok (if outside_callback m then g + socket_misses env env' ev m else g) m'"
  using assms socket_action_ok [OF assms(1-3), of ev] by (cases "outside_callback m") (auto simp: curl_multi_socket_action_def split: if_splits)

interpretation multi_runs: step_invariant multi_step "\<lambda>(g, m). multi_ok g m"
proof
  fix s t assume i: "case s of (g, m) \<Rightarrow> multi_ok g m" and st: "multi_step s t"
  obtain g m g' m' where s: "s = (g, m)" "t = (g', m')" by (metis prod.exhaust)
  have ok: "multi_ok g m" using i s by simp
  have "multi_ok g' m'" using st [unfolded s]
  proof cases
    case (add cb now al d code)
    then show ?thesis using add_handle_ok [OF ok add(3,2)] by simp
  next
    case (remove cb now out wakeup d code)
    then show ?thesis using remove_handle_ok [OF ok remove(3,2)] by simp
  next
    case (perform env code n)
    then show ?thesis using perform_step_ok [OF ok perform(3,2)] by simp
  next
    case (socket env env' ev code n)
    then show ?thesis using socket_step_ok [OF ok socket(3,4,2)] by simp
  next
    case (info_read msg left)
    then show ?thesis using info_read_ok [OF ok] by simp
  next
    case (outside now ef d)
    then show ?thesis using outside_ok [OF ok] by simp
  qed
  then show "case t of (g, m) \<Rightarrow> multi_ok g m" using s by simp
qed

lemma new_runs_ok:
  "Curl_multi_handle al n a es = Some m0 \<Longrightarrow> n < 2 ^ 31 \<Longrightarrow> multi_step\<^sup>*\<^sup>* (0, m0) (g, m) \<Longrightarrow> multi_ok g m"
  using multi_runs.inv_run [of "(0, m0)" "(g, m)"] multi_handle_ok [of al n a es m0] by simp

lemma miscounts_stay: "multi_step s t \<Longrightarrow> fst s \<le> fst t"
  by (induction rule: multi_step.induct) simp_all

lemma miscounts_stay_run: "multi_step\<^sup>*\<^sup>* s t \<Longrightarrow> fst s \<le> fst t"
  by (induction rule: rtranclp_induct) (auto dest: miscounts_stay)

lemma alive_count: "multi_ok g m \<Longrightarrow> xfers_alive m = (card (live m) + g) mod 2 ^ 32"
  by (simp add: multi_ok_def counts_ok_def)

lemma released_turn:
  assumes "at g m d {MSTATE_PENDING}"
  shows "state_of (released d m) d = MSTATE_CONNECT \<and> last_pending_mid (released d m) = mid_of m d
    \<and> mid_of m d \<in> bset_elems (process (released d m)) \<inter> bset_elems (dirty (tim (released d m)))
    \<and> bset_elems (pending (released d m)) = bset_elems (pending m) - {mid_of m d}
    \<and> (\<forall>x. x \<noteq> d \<longrightarrow> easy (released d m) x = easy m x)"
proof -
  note a = at_facts [OF assms]
  have "in_multi (timers_of m d)" "mid_of m d < 64 * nslots (dirty (tim m))" using a(5,9,11) by (simp_all add: members_def roomy_def)
  from mark_dirty_facts(6) [OF a(12) refl this] show ?thesis
    by (simp add: released_def move_simps roomy_elems(1) [OF a(7)] roomy_elems(2) [OF a(6,11)])
qed

text \<open>Adding changes neither the admin handle nor the marks of the handle.\<close>

lemma admin_stays:
  "curl_multi_add_handle cb now al m d = (c, m') \<Longrightarrow>
   admin m' = admin m \<and> multi_magic m' = multi_magic m \<and> in_callback m' = in_callback m \<and> in_ntfy_callback m' = in_ntfy_callback m"
proof -
  define same where "same x y \<longleftrightarrow> admin y = admin x \<and> multi_magic y = multi_magic x \<and> in_callback y = in_callback x
    \<and> in_ntfy_callback y = in_ntfy_callback x" for x y :: Curl_multi
  have r: "same x (snd (multi_resize al n x))" for n x by (simp add: same_def multi_resize_def Let_def split: prod.split)
  have u: "update_timer cb now x = (c', y) \<Longrightarrow> same x y" for x c' y
    by (auto simp: same_def update_timer_def multi_check_dirties_def Let_def split: prod.splits if_splits option.splits)
  have a: "same x (multi_admit x d)" for x by (simp add: same_def multi_admit_def multi_mark_dirty_def multistate_def Let_def)
  have x: "multi_xfers_add al x d = (c', y) \<Longrightarrow> same x y" for x c' y
    using r [of x "xfers_new_size (Curl_uint32_tbl_capacity (xfers x)) (Curl_uint32_tbl_count (xfers x))"]
    by (auto simp: same_def multi_xfers_add_def Let_def split: prod.splits if_splits option.splits)
  assume h: "curl_multi_add_handle cb now al m d = (c, m')"
  define m1 where "m1 = (if multi_dead (app m) then multi_revive m else m)"
  obtain c2 m2 where m2: "multi_xfers_add al m1 d = (c2, m2)" by (rule prod.exhaust)
  obtain c3 m3 where m3: "update_timer cb now (multi_admit m2 d) = (c3, m3)" by (rule prod.exhaust)
  have "same m m1" by (simp add: same_def m1_def multi_revive_def)
  then have s: "same m m2" "same m m3" using x [OF m2] a [of m2] u [OF m3] by (simp_all add: same_def)
  have "m' = m \<or> m' = m2 \<or> m' = m3 \<or> (\<exists>t e. m' = m3\<lparr>xfers := t, tim := e\<rparr>)"
    using h m2 m3 unfolding curl_multi_add_handle_def Let_def m1_def [symmetric] by (simp split: if_splits) auto
  then show ?thesis using s by (elim disjE exE) (simp_all add: same_def)
qed

section \<open>An example\<close>

definition demo_easy :: Curl_easy where
  "demo_easy = \<lparr>magic_ok = True, mstate = MSTATE_INIT, has_conn = False, really_alive = False, state_done = False,
     master_mid = UINT32_MAX, internal = False, xfer_result = CURLE_OK\<rparr>"

definition demo_multi :: Curl_multi where
  "demo_multi = the (Curl_multi_handle (\<lambda>_. True) 64 0 (\<lambda>_. demo_easy))"

lemma multi_handle_made:
  assumes "0 < n" and "n < 2 ^ 31"
  shows "\<exists>m. Curl_multi_handle (\<lambda>_. True) n a es = Some m \<and> easy m = es(a := admin_easy) \<and> last_timeout_ms (app m) = -1 \<and> \<not> multi_dead (app m)"
proof -
  obtain r b where r: "Curl_uint32_bset_resize True Curl_uint32_bset_init n = (r, b)" by (rule prod.exhaust)
  have "n \<le> UINT32_MAX" using assms(2) by (simp add: UINT32_MAX_def)
  from bset_resize_ok [OF conjunct1 [OF bset_init_ok] r this] have "r = CURLE_OK" by (auto split: if_splits)
  moreover obtain ds t where "Curl_uint32_tbl_resize True (Curl_uint32_tbl_init False :: nat uint32_tbl) n = (CURLE_OK, ds, t)"
    using assms(1) by (simp add: Curl_uint32_tbl_resize_def Curl_uint32_tbl_init_def Let_def)
  ultimately show ?thesis using r by (simp add: Curl_multi_handle_def split: prod.splits)
qed

lemma demo_multi_new: "Curl_multi_handle (\<lambda>_. True) 64 0 (\<lambda>_. demo_easy) = Some demo_multi"
  using multi_handle_made [of 64 0 "\<lambda>_. demo_easy"] by (auto simp: demo_multi_def)

lemma demo_multi_facts:
  "multi_ok 0 demo_multi" "members demo_multi = {0}" "nrows (xfers demo_multi) < 2 ^ 31" "accepts demo_multi 5"
  "last_timeout_ms (app demo_multi) < 0" "multi_magic demo_multi" "\<not> in_callback demo_multi" "admin demo_multi = 0"
  "\<not> in_ntfy_callback demo_multi"
proof -
  note h = multi_handle_ok [OF demo_multi_new]
  then show "multi_ok 0 demo_multi" "members demo_multi = {0}" "nrows (xfers demo_multi) < 2 ^ 31" "multi_magic demo_multi"
    "\<not> in_callback demo_multi" "admin demo_multi = 0" "\<not> in_ntfy_callback demo_multi" by simp_all
  moreover have "easy demo_multi = (\<lambda>_. demo_easy)(0 := admin_easy)" "last_timeout_ms (app demo_multi) = -1" "\<not> multi_dead (app demo_multi)"
    using multi_handle_made [of 64 0 "\<lambda>_. demo_easy"] by (auto simp: demo_multi_def)
  ultimately show "accepts demo_multi 5" "last_timeout_ms (app demo_multi) < 0" by (simp_all add: accepts_def demo_easy_def)
qed

text \<open>The handle with one transfer.\<close>

definition demo_running :: Curl_multi where
  "demo_running = snd (curl_multi_add_handle None (sec 1) (\<lambda>_. True) demo_multi 5)"

lemma demo_running_facts:
  "curl_multi_add_handle None (sec 1) (\<lambda>_. True) demo_multi 5 = (CURLM_OK, demo_running)"
  "multi_ok 0 demo_running" "members demo_running = {0, 5}" "state_of demo_running 5 = MSTATE_INIT"
  "mid_of demo_running 5 \<in> bset_elems (process demo_running)"
proof -
  have "fst (curl_multi_add_handle None (sec 1) (\<lambda>_. True) demo_multi 5) = CURLM_OK"
    using add_accepted [OF demo_multi_facts(1,3,4), of "\<lambda>_. True"] by simp
  then show a: "curl_multi_add_handle None (sec 1) (\<lambda>_. True) demo_multi 5 = (CURLM_OK, demo_running)"
    by (simp add: demo_running_def prod_eq_iff)
  note k = add_handle_ok [OF demo_multi_facts(1,3) a]
  then show "multi_ok 0 demo_running" "members demo_running = {0, 5}" "state_of demo_running 5 = MSTATE_INIT"
    "mid_of demo_running 5 \<in> bset_elems (process demo_running)"
    using demo_multi_facts(2) by (auto simp: miscounted_def)
qed

definition demo_limits :: xfer_limits where
  "demo_limits = \<lparr>set_timeout = 0, set_connecttimeout = 0, set_connect_only = False, set_connect_only_ws = False,
     t_startop = sec 1, t_startsingle = sec 1, shutdown_left = None\<rparr>"

definition demo_rates :: rlimits where
  "demo_rates = \<lparr>rl_active = False, ul_wait_ms = 0, dl_wait_ms = 0, ul_step_ms = 0, dl_step_ms = 0\<rparr>"

definition demo_out :: done_outcome where
  "demo_out = \<lparr>proto_done = None, pgrs_done_rc = False, write_done = CURLE_OK, req_done = CURLE_OK, conn_inuse = False\<rparr>"

text \<open>Every call succeeds, and the request is done at once.\<close>

definition demo_round :: round_env where
  "demo_round = \<lparr>r_now = sec 1, r_later = sec 1, limits = demo_limits, effects = [], wakeup_rc = CURLM_OK, call_rc = CURLE_OK,
     call_done = True, call_more = DOMORE_DONE, conn_reuse = False, conn_multiplex = False, conn_do_more = False, conn_sockets = True,
     conn_connected = True, recv_paused = False, prereq_rc = None, wildcardmatch = False, wildcard_skip = False, wildcard_done = False,
     speed_before = demo_rates, speed_after = demo_rates, request_done = True, req_newurl = False, req_location = False,
     cwriter_paused = False, retry_rc = CURLE_OK, retry_url = False, url_dup = False, h2_http_1_1_error = False, follow_rc = None,
     pgrs_update = CURLE_OK, done_out = demo_out\<rparr>"


lemma demo_enough: "enough (replicate 17 demo_round)"
proof -
  have "env_ok demo_round" "\<not> goes_back demo_round"
    by (simp_all add: env_ok_def demo_round_def goes_back_def demo_limits_def demo_rates_def rlimits_ok_def delay_ok_def sec_def time_ok_def tv_zero_def)
  then show ?thesis by (simp add: enough_def list_all_iff filter_replicate)
qed


section \<open>Properties\<close>

text \<open>
  C16: the books of a multi handle, in a build without DNS-over-HTTPS.  After any sequence of calls on a
  new handle, those made in notifications included, with any answers of the environment, the count of transfers that are alive is
  the number of transfers that have not finished plus \<open>g\<close>, the number of adds so far that failed
  after the transfer had been counted; so it is exact as long as no such add has failed.  Every transfer is in the set its
  state asks for; identifiers are unique; there is at most one message per transfer, and only
  for a finished one; and only transfers of the handle have timers.
\<close>

theorem multi_books_balance:
  assumes "Curl_multi_handle al n a es = Some m0" and "n < 2 ^ 31" and "multi_step\<^sup>*\<^sup>* (0, m0) (g, m)"
  shows "xfers_alive m = (card (live m) + g) mod 2 ^ 32
    \<and> (\<forall>d\<in>user_xfers m. (mid_of m d \<in> bset_elems (process m) \<longleftrightarrow> active (state_of m d))
        \<and> (mid_of m d \<in> bset_elems (pending m) \<longleftrightarrow> state_of m d = MSTATE_PENDING)
        \<and> (mid_of m d \<in> bset_elems (msgsent m) \<longleftrightarrow> state_of m d = MSTATE_MSGSENT))
    \<and> inj_on (mid_of m) (members m)
    \<and> distinct (map fst (msglist m)) \<and> (\<forall>x\<in>set (msglist m). fst x \<in> user_xfers m \<and> state_of m (fst x) = MSTATE_MSGSENT)
    \<and> snd ` set (timers (timetree (tim m))) \<subseteq> members m"
proof -
  have ok: "multi_ok g m" using new_runs_ok [OF assms] .
  then have t: "table_ok m" "\<And>d. easy_ok (timetree (tim m)) d (timers_of m d)" by (simp_all add: multi_ok_parts timers_ok_def)
  have "inj_on (mid_of m) (members m)" using mid_inj [OF t(1)] by (auto intro: inj_onI)
  moreover have "snd ` set (timers (timetree (tim m))) \<subseteq> members m"
    using easy_ok_in [OF t(2)] ok by (auto simp: multi_ok_def times_ok_def)
  moreover have "\<forall>d\<in>user_xfers m. placed m d" using ok by (simp add: multi_ok_def sets_ok_def)
  moreover have "distinct (map fst (msglist m))" "\<forall>x\<in>set (msglist m). fst x \<in> user_xfers m \<and> state_of m (fst x) = MSTATE_MSGSENT"
    using ok by (simp_all add: multi_ok_def msgs_ok_def)
  ultimately show ?thesis using alive_count [OF ok] by (simp add: placed_def)
qed

theorem multi_books_balance_witness:
  "xfers_alive demo_running = card (live demo_running) mod 2 ^ 32"
proof -
  have "multi_step (0, demo_multi) (if miscounted CURLM_OK demo_multi demo_running then Suc 0 else 0, demo_running)"
    by (rule add [OF demo_running_facts(1) demo_multi_facts(3)])
  then have "multi_step\<^sup>*\<^sup>* (0, demo_multi) (0, demo_running)" by (simp add: miscounted_def)
  from multi_books_balance [OF demo_multi_new _ this] show ?thesis by simp
qed



text \<open>
  C18: the run of one transfer ends, in a build without DNS-over-HTTPS.  The loop of \<open>multi_runsingle\<close> goes back to an earlier state only
  for a retry, a redirect, a wildcard, a second \<open>DO\<close> phase or a changed connection; with at most
  \<open>b\<close> such answers it needs no more than 17 rounds for each and 17 for the rest, and then the
  transfer is in a consistent state again, whatever the protocol answered.
\<close>

theorem transfer_run_ends:
  assumes "multi_ok g m" and "d \<in> members m" and "mid_of m d \<in> bset_elems (process m)"
    and "list_all env_ok es" and "16 + 17 * length (filter goes_back es) < length es"
  shows "\<exists>c m'. multi_runsingle out es m d = Some (c, m') \<and> multi_ok g m' \<and> members m' = members m
    \<and> (\<forall>x. x \<noteq> d \<and> state_of m x \<noteq> MSTATE_PENDING \<longrightarrow> easy m' x = easy m x)"
proof -
  have "enough es" using assms(4,5) by (simp add: enough_def)
  then obtain c m' where r: "multi_runsingle out es m d = Some (c, m')" using runsingle_ends [OF assms(1-3)] by blast
  from runsingle_ok [OF assms(1-4) r] show ?thesis using r by (auto simp: frame_def)
qed

theorem transfer_run_ends_witness:
  "\<exists>c m'. multi_runsingle demo_out (replicate 17 demo_round) demo_running 5 = Some (c, m') \<and> multi_ok 0 m' \<and> members m' = {0, 5}"
proof -
  have "list_all env_ok (replicate 17 demo_round)" "16 + 17 * length (filter goes_back (replicate 17 demo_round)) < length (replicate 17 demo_round)"
    using demo_enough by (simp_all add: enough_def)
  from transfer_run_ends [OF demo_running_facts(2) _ demo_running_facts(5) this, of demo_out] show ?thesis
    using demo_running_facts(3) by auto
qed

text \<open>
  Waiting transfers take turns.  \<open>process_pending_handles\<close> releases exactly one transfer that
  waits for a connection, if there is one: the next after the last one released, in the order
  of identifiers, and the first again after the largest.  It can run at once: it is among the
  processed and the dirty transfers.  All other transfers stay as they are.
\<close>

lemma waiting_take_turns:
  assumes "multi_ok g m"
  shows "(bset_elems (pending m) = {} \<and> easy (process_pending_handles m) = easy m)
    \<or> (\<exists>d\<in>user_xfers m. state_of m d = MSTATE_PENDING \<and> next_pending m (mid_of m d)
        \<and> state_of (process_pending_handles m) d = MSTATE_CONNECT \<and> last_pending_mid (process_pending_handles m) = mid_of m d
        \<and> mid_of m d \<in> bset_elems (process (process_pending_handles m)) \<inter> bset_elems (dirty (tim (process_pending_handles m)))
        \<and> bset_elems (pending (process_pending_handles m)) = bset_elems (pending m) - {mid_of m d}
        \<and> (\<forall>x. x \<noteq> d \<longrightarrow> easy (process_pending_handles m) x = easy m x))"
  using assms
proof (cases rule: process_pending_cases)
  case (none b)
  then show ?thesis by (simp add: scanned_def)
next
  case (direct d)
  then show ?thesis using released_turn [OF direct(1)] at_facts(2,3) [OF direct(1)] by auto
next
  case (scan d b)
  then show ?thesis using released_turn [OF scan(1)] at_facts(2,3) [OF scan(1)]
    by (auto simp: scanned_def user_xfers_def members_def)
qed

definition demo_waiting :: Curl_multi where
  "demo_waiting = park_pending demo_running 5"

lemma demo_waiting_facts:
  "multi_ok 0 demo_waiting" "state_of demo_waiting 5 = MSTATE_PENDING" "user_xfers demo_waiting = {5}"
proof -
  have "admin demo_running = 0" using admin_stays [OF demo_running_facts(1)] demo_multi_facts(8) by simp
  then have "at 0 demo_running 5 running" using demo_running_facts by (simp add: at_def user_xfers_def)
  from at_to_pending [OF this, folded park_pending_def] have a: "at 0 demo_waiting 5 {MSTATE_PENDING}" by (simp add: demo_waiting_def)
  then show "multi_ok 0 demo_waiting" "state_of demo_waiting 5 = MSTATE_PENDING" by (simp_all add: at_def)
  show "user_xfers demo_waiting = {5}" using frame_park [OF \<open>at 0 demo_running 5 running\<close>] demo_running_facts(3) \<open>admin demo_running = 0\<close>
    by (auto simp: demo_waiting_def user_xfers_def frame_def)
qed

text \<open>
  A failing timer callback spoils the count.  When the callback refuses the first timeout of a
  new transfer, \<open>curl_multi_add_handle\<close> reports \<open>CURLM_ABORTED_BY_CALLBACK\<close> and the transfer is no
  member of the handle, but it has been counted as alive; no later call corrects this, so after
  any further calls the count of running transfers is too high, and does not come down to 0 when
  all transfers have finished.
\<close>

lemma failed_add_miscounts:
  assumes "multi_ok g m" and "nrows (xfers m) < 2 ^ 31" and "accepts m d" and "\<forall>i. al i"
    and "cb 0 = -1" and "last_timeout_ms (app m) < 0"
  shows "\<exists>m'. curl_multi_add_handle (Some cb) now al m d = (CURLM_ABORTED_BY_CALLBACK, m') \<and> members m' = members m
    \<and> (\<forall>g' m''. multi_step\<^sup>*\<^sup>* (Suc g, m') (g', m'') \<longrightarrow> g < g' \<and> xfers_alive m'' = (card (live m'') + g') mod 2 ^ 32)"
proof -
  obtain m' where r: "curl_multi_add_handle (Some cb) now al m d = (CURLM_ABORTED_BY_CALLBACK, m')" "miscounted CURLM_ABORTED_BY_CALLBACK m m'"
    using add_refused [OF assms(1-4), of cb now] assms(5,6) by blast
  have m': "multi_ok (Suc g) m'" "members m' = members m" using add_handle_ok [OF assms(1,2) r(1)] r(2) by simp_all
  have "g < g' \<and> xfers_alive m'' = (card (live m'') + g') mod 2 ^ 32" if "multi_step\<^sup>*\<^sup>* (Suc g, m') (g', m'')" for g' m''
  proof -
    have "multi_ok g' m''" using multi_runs.inv_run [OF that] m'(1) by simp
    then show ?thesis using miscounts_stay_run [OF that] alive_count by simp
  qed
  then show ?thesis using r(1) m'(2) by blast
qed

end
