(* ===== verification/Uint_Spbset.thy ===== *)
theory Uint_Spbset
  imports Uint_Bset
begin

text \<open>
  The sparse bitset of \<^verbatim>\<open>lib/uint-spbset.c\<close>: a list of chunks of 256 numbers, ordered by offset,
  whose first chunk is part of the set itself.  The list of chunks is never empty; a chunk is
  named by its position.  The answer of \<open>calloc\<close> is an argument.

  Contents: the operations, the invariant, the refinement to a finite set, and the instance of
  \<open>uint_set\<close>.
\<close>

definition CURL_UINT32_SPBSET_CH_SLOTS :: nat where "CURL_UINT32_SPBSET_CH_SLOTS = 4"

record uint32_spbset_chunk =
  ch_slots :: "64 word list"
  ch_offset :: nat

type_synonym uint32_spbset = "uint32_spbset_chunk list"

definition zero_chunk :: uint32_spbset_chunk where
  "zero_chunk = \<lparr>ch_slots = replicate CURL_UINT32_SPBSET_CH_SLOTS 0, ch_offset = 0\<rparr>"

definition Curl_uint32_spbset_init :: uint32_spbset where
  "Curl_uint32_spbset_init = [zero_chunk]"

definition uint32_spbset_clear :: "uint32_spbset \<Rightarrow> uint32_spbset" where
  "uint32_spbset_clear bset = [zero_chunk]"

definition Curl_uint32_spbset_destroy :: "uint32_spbset \<Rightarrow> uint32_spbset" where
  "Curl_uint32_spbset_destroy bset = uint32_spbset_clear bset"

fun spbset_count_loop :: "uint32_spbset \<Rightarrow> nat \<Rightarrow> nat" where
  "spbset_count_loop [] n = n"
| "spbset_count_loop (c # cs) n = spbset_count_loop cs (count_loop (ch_slots c) n)"

definition Curl_uint32_spbset_count :: "uint32_spbset \<Rightarrow> nat" where
  "Curl_uint32_spbset_count bset = spbset_count_loop bset 0"

text \<open>The offset of the chunk a number belongs to: \<open>i & ~CURL_UINT32_SPBSET_CH_MASK\<close>.\<close>

definition chunk_offset :: "nat \<Rightarrow> nat" where
  "chunk_offset i = i - (i AND (CURL_UINT32_SPBSET_CH_SLOTS * 64 - 1))"

text \<open>The search: the position of the chunk, or the one before which a new chunk belongs.\<close>

fun chunk_seek :: "uint32_spbset \<Rightarrow> nat \<Rightarrow> nat \<Rightarrow> bool \<times> nat" where
  "chunk_seek [] off k = (False, k)"
| "chunk_seek (c # cs) off k =
     (if ch_offset c = off then (True, k)
      else if ch_offset c > off then (False, k)
      else chunk_seek cs off (Suc k))"

text \<open>
  The position of the chunk for \<open>i\<close>, after a possible insertion.  When the new chunk belongs
  before the first one, the first chunk is moved into the new memory, whose offset is then
  set.
\<close>

definition uint32_spbset_get_chunk ::
  "bool \<Rightarrow> uint32_spbset \<Rightarrow> nat \<Rightarrow> bool \<Rightarrow> nat option \<times> uint32_spbset" where
  "uint32_spbset_get_chunk calloc_ok bset i grow =
     (let off = chunk_offset i in
      case chunk_seek bset off 0 of
        (True, k) \<Rightarrow> (Some k, bset)
      | (False, k) \<Rightarrow>
          if \<not> grow then (None, bset)
          else if \<not> calloc_ok then (None, bset)
          else if k \<noteq> 0 then (Some k, take k bset @ [zero_chunk\<lparr>ch_offset := off\<rparr>] @ drop k bset)
          else (Some 1, [zero_chunk, (hd bset)\<lparr>ch_offset := off\<rparr>] @ tl bset))"

definition slot_update :: "(64 word \<Rightarrow> 64 word \<Rightarrow> 64 word) \<Rightarrow> uint32_spbset \<Rightarrow> nat \<Rightarrow> nat \<Rightarrow> uint32_spbset" where
  "slot_update f bset k i =
     (let c = bset ! k; i_chunk = i - ch_offset c in
      bset[k := c\<lparr>ch_slots := (ch_slots c)[i_chunk div 64 := f (ch_slots c ! (i_chunk div 64)) (push_bit (i_chunk mod 64) 1)]\<rparr>])"

definition Curl_uint32_spbset_add :: "bool \<Rightarrow> uint32_spbset \<Rightarrow> nat \<Rightarrow> bool \<times> uint32_spbset" where
  "Curl_uint32_spbset_add calloc_ok bset i =
     (case uint32_spbset_get_chunk calloc_ok bset i True of
        (None, bset') \<Rightarrow> (False, bset')
      | (Some k, bset') \<Rightarrow> (True, slot_update (OR) bset' k i))"

definition Curl_uint32_spbset_remove :: "uint32_spbset \<Rightarrow> nat \<Rightarrow> uint32_spbset" where
  "Curl_uint32_spbset_remove bset i =
     (case uint32_spbset_get_chunk True bset i False of
        (None, bset') \<Rightarrow> bset'
      | (Some k, bset') \<Rightarrow> slot_update (\<lambda>x b. x AND NOT b) bset' k i)"

definition Curl_uint32_spbset_contains :: "uint32_spbset \<Rightarrow> nat \<Rightarrow> bool" where
  "Curl_uint32_spbset_contains bset i =
     (case uint32_spbset_get_chunk True bset i False of
        (None, _) \<Rightarrow> False
      | (Some k, _) \<Rightarrow>
          (let c = bset ! k; i_chunk = i - ch_offset c in
           ch_slots c ! (i_chunk div 64) AND push_bit (i_chunk mod 64) 1 \<noteq> 0))"

definition uint32_spbset_chunk_first :: "uint32_spbset_chunk \<Rightarrow> bool \<times> nat" where
  "uint32_spbset_chunk_first c =
     (case slot_scan (ch_slots c) 0 of
        Some i \<Rightarrow> (True, (ch_offset c + (i * 64 + Curl_ctz64 (ch_slots c ! i))) mod 2 ^ 32)
      | None \<Rightarrow> (False, UINT32_MAX))"

fun Curl_uint32_spbset_first :: "uint32_spbset \<Rightarrow> bool \<times> nat" where
  "Curl_uint32_spbset_first [] = (False, 0)"
| "Curl_uint32_spbset_first (c # cs) =
     (case slot_scan (ch_slots c) 0 of
        Some i \<Rightarrow> (True, (ch_offset c + (i * 64 + Curl_ctz64 (ch_slots c ! i))) mod 2 ^ 32)
      | None \<Rightarrow> Curl_uint32_spbset_first cs)"

definition uint32_spbset_chunk_next :: "uint32_spbset_chunk \<Rightarrow> nat \<Rightarrow> bool \<times> nat" where
  "uint32_spbset_chunk_next c l =
     (if ch_offset c \<le> l then
        (let i = (l - ch_offset c) div 64 in
         if i < CURL_UINT32_SPBSET_CH_SLOTS then
           (let x = drop_bit (l mod 64) (ch_slots c ! i) in
            if x \<noteq> 0 then (True, (l + Curl_ctz64 x) mod 2 ^ 32)
            else (case slot_scan (ch_slots c) (i + 1) of
                    Some j \<Rightarrow> (True, (ch_offset c + (j * 64 + Curl_ctz64 (ch_slots c ! j))) mod 2 ^ 32)
                  | None \<Rightarrow> (False, UINT32_MAX)))
         else (False, UINT32_MAX))
      else (False, UINT32_MAX))"

fun chunks_first :: "uint32_spbset \<Rightarrow> bool \<times> nat" where
  "chunks_first [] = (False, UINT32_MAX)"
| "chunks_first (c # cs) =
     (case uint32_spbset_chunk_first c of
        (True, n) \<Rightarrow> (True, n)
      | (False, _) \<Rightarrow> chunks_first cs)"

definition Curl_uint32_spbset_next :: "uint32_spbset \<Rightarrow> nat \<Rightarrow> bool \<times> nat" where
  "Curl_uint32_spbset_next bset l =
     (let l = (l + 1) mod 2 ^ 32; last_offset = chunk_offset l in
      case dropWhile (\<lambda>c. ch_offset c < last_offset) bset of
        [] \<Rightarrow> (False, UINT32_MAX)
      | c # cs \<Rightarrow>
          if ch_offset c = last_offset then
            (case uint32_spbset_chunk_next c l of
               (True, n) \<Rightarrow> (True, n)
             | (False, _) \<Rightarrow> chunks_first cs)
          else chunks_first (c # cs))"

section \<open>The sparse bitset refines a set\<close>

definition chunk_elems :: "uint32_spbset_chunk \<Rightarrow> nat set" where
  "chunk_elems c = (+) (ch_offset c) ` slot_bits (ch_slots c)"

definition spbset_elems :: "uint32_spbset \<Rightarrow> nat set" where
  "spbset_elems bset = (\<Union>c\<in>set bset. chunk_elems c)"

definition chunk_ok :: "uint32_spbset_chunk \<Rightarrow> bool" where
  "chunk_ok c \<longleftrightarrow> length (ch_slots c) = 4 \<and> ch_offset c mod 256 = 0 \<and> ch_offset c < 2 ^ 32"

text \<open>The chunks are ordered, and the first one, which is part of the set, starts at 0.\<close>

definition spbset_ok :: "uint32_spbset \<Rightarrow> bool" where
  "spbset_ok bset \<longleftrightarrow> bset \<noteq> [] \<and> ch_offset (hd bset) = 0 \<and> list_all chunk_ok bset
     \<and> sorted_wrt (<) (map ch_offset bset)"

lemma chunk_offset_eq: "chunk_offset i = i - i mod 256"
  using and_mask_mod [of i 8] by (simp add: chunk_offset_def CURL_UINT32_SPBSET_CH_SLOTS_def)

lemma chunk_offset_bounds: "chunk_offset i \<le> i" "i < chunk_offset i + 256" "chunk_offset i mod 256 = 0"
  using mod_less_divisor [of 256 i] by (simp_all add: chunk_offset_eq minus_mod_eq_mult_div)

lemma in_chunk:
  "i \<in> chunk_elems c \<longleftrightarrow> ch_offset c \<le> i \<and> i - ch_offset c \<in> slot_bits (ch_slots c)"
  by (auto simp: chunk_elems_def image_iff intro: bexI [of _ "i - ch_offset c"])

lemma in_chunk_offset:
  assumes "chunk_ok c" and "i \<in> chunk_elems c" shows "chunk_offset i = ch_offset c"
proof -
  obtain q where q: "ch_offset c = 256 * q" using assms(1) by (auto simp: chunk_ok_def)
  have "ch_offset c \<le> i" "i < ch_offset c + 256"
    using assms slot_bits_less [of "i - ch_offset c" "ch_slots c"] by (auto simp: in_chunk chunk_ok_def)
  then have "i mod 256 = i - ch_offset c" unfolding q by (auto simp: le_iff_add)
  then show ?thesis using \<open>ch_offset c \<le> i\<close> by (simp add: chunk_offset_eq)
qed

lemma in_chunk_range: "chunk_ok c \<Longrightarrow> i \<in> chunk_elems c \<Longrightarrow> ch_offset c \<le> i \<and> i < ch_offset c + 256"
  using in_chunk_offset chunk_offset_bounds by metis

lemma in_chunk_max: "chunk_ok c \<Longrightarrow> i \<in> chunk_elems c \<Longrightarrow> i \<le> UINT32_MAX"
proof -
  assume a: "chunk_ok c" "i \<in> chunk_elems c"
  then obtain q where "ch_offset c = 256 * q" "ch_offset c < 2 ^ 32" by (auto simp: chunk_ok_def)
  then show ?thesis using in_chunk_range [OF a] by (simp add: UINT32_MAX_def)
qed

lemma spbset_max: "spbset_ok s \<Longrightarrow> i \<in> spbset_elems s \<Longrightarrow> i \<le> UINT32_MAX"
  using in_chunk_max by (auto simp: spbset_ok_def spbset_elems_def list_all_iff)

subsection \<open>Finding a chunk\<close>

lemma chunk_seek_spec:
  assumes "sorted_wrt (<) (map ch_offset cs)"
  shows "case chunk_seek cs off k of
      (True, j) \<Rightarrow> \<exists>i<length cs. j = k + i \<and> ch_offset (cs ! i) = off
    | (False, j) \<Rightarrow> \<exists>i\<le>length cs. j = k + i \<and> (\<forall>c\<in>set (take i cs). ch_offset c < off)
        \<and> (\<forall>c\<in>set (drop i cs). off < ch_offset c)"
  using assms
proof (induction cs arbitrary: k)
  case (Cons c cs)
  consider "ch_offset c = off" | "ch_offset c > off" | "ch_offset c < off" by linarith
  then show ?case
  proof cases
    case 1 then show ?thesis by auto
  next
    case 2 then show ?thesis using Cons.prems by (auto intro!: exI [of _ 0] dest: order.strict_trans)
  next
    case 3
    obtain f j where fj: "chunk_seek cs off (Suc k) = (f, j)" by (rule prod.exhaust)
    have IH: "case (f, j) of
        (True, j) \<Rightarrow> \<exists>i<length cs. j = Suc k + i \<and> ch_offset (cs ! i) = off
      | (False, j) \<Rightarrow> \<exists>i\<le>length cs. j = Suc k + i \<and> (\<forall>c\<in>set (take i cs). ch_offset c < off)
          \<and> (\<forall>c\<in>set (drop i cs). off < ch_offset c)"
      using Cons.IH [of "Suc k"] Cons.prems fj by simp
    show ?thesis
    proof (cases f)
      case True
      then obtain i where "i < length cs" "j = Suc k + i" "ch_offset (cs ! i) = off" using IH by auto
      then show ?thesis using 3 fj True by (auto intro!: exI [of _ "Suc i"])
    next
      case False
      then obtain i where "i \<le> length cs" "j = Suc k + i" "\<forall>c\<in>set (take i cs). ch_offset c < off"
          "\<forall>c\<in>set (drop i cs). off < ch_offset c" using IH by auto
      then show ?thesis using 3 fj False by (auto intro!: exI [of _ "Suc i"])
    qed
  qed
qed simp

lemma elems_nth: "x \<in> spbset_elems s \<longleftrightarrow> (\<exists>j<length s. x \<in> chunk_elems (s ! j))"
  unfolding spbset_elems_def by (simp add: set_conv_nth) blast

lemma chunk_ok_nth: "spbset_ok s \<Longrightarrow> j < length s \<Longrightarrow> chunk_ok (s ! j)"
  by (simp add: spbset_ok_def list_all_length)

lemma offset_inj:
  assumes "spbset_ok s" and "j < length s" and "k < length s" and "ch_offset (s ! j) = ch_offset (s ! k)"
  shows "j = k"
proof -
  have "distinct (map ch_offset s)" using assms(1) strict_sorted_iff spbset_ok_def by blast
  then show ?thesis using assms nth_eq_iff_index_eq [of "map ch_offset s" j k] by simp
qed

lemma elem_at:
  assumes "spbset_ok s" and "k < length s" and "ch_offset (s ! k) = chunk_offset x"
  shows "x \<in> spbset_elems s \<longleftrightarrow> x \<in> chunk_elems (s ! k)"
proof
  assume "x \<in> spbset_elems s"
  then obtain j where j: "j < length s" "x \<in> chunk_elems (s ! j)" by (auto simp: elems_nth)
  then have "ch_offset (s ! j) = ch_offset (s ! k)"
    using in_chunk_offset [OF chunk_ok_nth [OF assms(1) j(1)] j(2)] assms(3) by simp
  then show "x \<in> chunk_elems (s ! k)" using offset_inj [OF assms(1) j(1) assms(2)] j(2) by simp
qed (use assms(2) elems_nth in blast)

lemma seek_found:
  assumes "spbset_ok s" and "chunk_seek s (chunk_offset i) 0 = (True, k)"
  shows "k < length s \<and> ch_offset (s ! k) = chunk_offset i"
proof -
  have srt: "sorted_wrt (<) (map ch_offset s)" using assms(1) by (simp add: spbset_ok_def)
  show ?thesis using chunk_seek_spec [OF srt, where off = "chunk_offset i" and k = 0] assms(2) by auto
qed

lemma seek_missing:
  assumes "spbset_ok s" and "chunk_seek s (chunk_offset i) 0 = (False, k)"
  shows "0 < k \<and> k \<le> length s \<and> (\<forall>c\<in>set (take k s). ch_offset c < chunk_offset i)
    \<and> (\<forall>c\<in>set (drop k s). chunk_offset i < ch_offset c) \<and> i \<notin> spbset_elems s"
proof -
  have k: "k \<le> length s" "\<forall>c\<in>set (take k s). ch_offset c < chunk_offset i"
      "\<forall>c\<in>set (drop k s). chunk_offset i < ch_offset c"
    using chunk_seek_spec [where cs = s and off = "chunk_offset i" and k = 0] assms by (auto simp: spbset_ok_def)
  have "ch_offset c \<noteq> chunk_offset i" if "c \<in> set s" for c
    using k that by (metis Un_iff append_take_drop_id less_irrefl set_append)
  then have "i \<notin> spbset_elems s"
    using assms(1) in_chunk_offset by (fastforce simp: spbset_elems_def spbset_ok_def list_all_iff)
  moreover have "k \<noteq> 0"
  proof
    assume "k = 0"
    then have "hd s \<in> set (drop k s)" using assms(1) by (simp add: spbset_ok_def)
    then have "chunk_offset i < ch_offset (hd s)" using k(3) by blast
    then show False using assms(1) by (simp add: spbset_ok_def)
  qed
  ultimately show ?thesis using k by simp
qed

subsection \<open>Operations\<close>

lemma slots_set:
  assumes "chunk_ok c" and "chunk_offset i = ch_offset c"
    and "\<And>x n. n < 64 \<Longrightarrow> bit (f x (push_bit ((i - ch_offset c) mod 64) 1)) n
      = (if n = (i - ch_offset c) mod 64 then v else bit x n)"
  defines "j \<equiv> i - ch_offset c"
  defines "c' \<equiv> c\<lparr>ch_slots := (ch_slots c)[j div 64 := f (ch_slots c ! (j div 64)) (push_bit (j mod 64) 1)]\<rparr>"
  shows "chunk_ok c' \<and> chunk_elems c' = (if v then insert i (chunk_elems c) else chunk_elems c - {i})"
proof -
  have j: "ch_offset c + j = i" "j < 256"
    using chunk_offset_bounds [of i] assms(2) by (simp_all add: j_def)
  then have "j div 64 < length (ch_slots c)" using assms(1) by (auto simp: chunk_ok_def)
  from slot_bits_update [OF this, of "f (ch_slots c ! (j div 64)) (push_bit (j mod 64) 1)" v]
  have "slot_bits (ch_slots c') = (if v then insert j (slot_bits (ch_slots c)) else slot_bits (ch_slots c) - {j})"
    using assms(3) by (simp add: c'_def j_def)
  moreover have "ch_offset c' = ch_offset c" "length (ch_slots c') = length (ch_slots c)" by (simp_all add: c'_def)
  ultimately show ?thesis using j(1) assms(1)
    by (auto simp: chunk_ok_def chunk_elems_def)
qed

text \<open>Replacing one chunk by one with the same offset.\<close>

lemma spbset_update_ok:
  assumes "spbset_ok s" and "k < length s" and "chunk_ok c'" and "ch_offset c' = ch_offset (s ! k)"
  shows "spbset_ok (s[k := c'])"
proof -
  have "map ch_offset (s[k := c']) = map ch_offset s"
    using assms(2,4) by (metis list_update_id map_update nth_map)
  moreover have "ch_offset (hd (s[k := c'])) = ch_offset (hd s)"
    using assms(2,4) by (cases s; cases k) simp_all
  moreover have "list_all chunk_ok (s[k := c'])"
    using assms(1,3) set_update_subset_insert [of s k c'] by (auto simp: spbset_ok_def list_all_iff)
  ultimately show ?thesis using assms(1) by (auto simp: spbset_ok_def)
qed

lemma spbset_update_elems:
  assumes "spbset_ok s" and "k < length s" and "chunk_ok c'" and "ch_offset c' = ch_offset (s ! k)"
  shows "x \<in> spbset_elems (s[k := c']) \<longleftrightarrow>
    (if chunk_offset x = ch_offset c' then x \<in> chunk_elems c' else x \<in> spbset_elems s)"
proof (cases "chunk_offset x = ch_offset c'")
  case True
  then show ?thesis using elem_at [OF spbset_update_ok [OF assms], of k x] assms(2) by simp
next
  case False
  then have "x \<notin> chunk_elems c'" "x \<notin> chunk_elems (s ! k)"
    using in_chunk_offset [OF assms(3)] in_chunk_offset [OF chunk_ok_nth [OF assms(1,2)]] assms(4) by metis+
  then have "(\<exists>j<length s. x \<in> chunk_elems (s[k := c'] ! j)) \<longleftrightarrow> (\<exists>j<length s. x \<in> chunk_elems (s ! j))"
    using assms(2) by (metis nth_list_update_eq nth_list_update_neq)
  then show ?thesis using False by (simp add: elems_nth)
qed

lemma slot_update_ok:
  assumes "spbset_ok s" and "k < length s" and "ch_offset (s ! k) = chunk_offset i"
    and "\<And>x m n. m < 64 \<Longrightarrow> n < 64 \<Longrightarrow> bit (f x (push_bit m 1)) n = (if n = m then v else bit x n)"
  shows "spbset_ok (slot_update f s k i) \<and>
    spbset_elems (slot_update f s k i) = (if v then insert i (spbset_elems s) else spbset_elems s - {i})"
proof -
  let ?j = "i - ch_offset (s ! k)"
  define c' where "c' = (s ! k)\<lparr>ch_slots := (ch_slots (s ! k))[?j div 64 := f (ch_slots (s ! k) ! (?j div 64)) (push_bit (?j mod 64) 1)]\<rparr>"
  have c': "chunk_ok c'" "chunk_elems c' = (if v then insert i (chunk_elems (s ! k)) else chunk_elems (s ! k) - {i})"
      "ch_offset c' = ch_offset (s ! k)"
    using slots_set [OF chunk_ok_nth [OF assms(1,2)] assms(3) [symmetric], of f v] assms(4) by (simp_all add: c'_def)
  have u: "slot_update f s k i = s[k := c']" by (simp add: slot_update_def c'_def Let_def)
  have "x \<in> spbset_elems (s[k := c']) \<longleftrightarrow> x \<in> (if v then insert i (spbset_elems s) else spbset_elems s - {i})" for x
    using spbset_update_elems [OF assms(1,2) c'(1,3), of x] elem_at [OF assms(1,2), of x] c'(2,3) assms(3) by auto
  then show ?thesis unfolding u using spbset_update_ok [OF assms(1,2) c'(1,3)] by blast
qed

lemma get_chunk_ok:
  assumes "spbset_ok s" and "i \<le> UINT32_MAX" and "uint32_spbset_get_chunk calloc_ok s i grow = (r, s')"
  shows "spbset_ok s' \<and> spbset_elems s' = spbset_elems s \<and> (case r of
      Some k \<Rightarrow> k < length s' \<and> ch_offset (s' ! k) = chunk_offset i
    | None \<Rightarrow> s' = s \<and> i \<notin> spbset_elems s \<and> \<not> (grow \<and> calloc_ok)) \<and> (\<not> grow \<longrightarrow> s' = s)"
proof -
  obtain f k where fk: "chunk_seek s (chunk_offset i) 0 = (f, k)" by (rule prod.exhaust)
  show ?thesis
  proof (cases f)
    case True
    then show ?thesis using seek_found [OF assms(1)] fk assms(1,3)
      by (auto simp: uint32_spbset_get_chunk_def Let_def)
  next
    case False
    then have k: "0 < k" "k \<le> length s" "\<forall>c\<in>set (take k s). ch_offset c < chunk_offset i"
        "\<forall>c\<in>set (drop k s). chunk_offset i < ch_offset c" "i \<notin> spbset_elems s"
      using seek_missing [OF assms(1)] fk by simp_all
    let ?n = "zero_chunk\<lparr>ch_offset := chunk_offset i\<rparr>"
    show ?thesis
    proof (cases "grow \<and> calloc_ok")
      case False
      then show ?thesis using assms(1,3) fk k(5) \<open>\<not> f\<close>
        by (auto simp: uint32_spbset_get_chunk_def Let_def split: if_splits)
    next
      case True
      then have s': "r = Some k" "s' = take k s @ [?n] @ drop k s"
        using assms(3) fk k(1) \<open>\<not> f\<close> by (auto simp: uint32_spbset_get_chunk_def Let_def)
      have ne: "chunk_ok ?n" "chunk_elems ?n = {}"
        using chunk_offset_bounds [of i] assms(2) slot_bits_zeros [of "replicate 4 0"]
        by (auto simp: chunk_ok_def zero_chunk_def CURL_UINT32_SPBSET_CH_SLOTS_def chunk_elems_def UINT32_MAX_def)
      have "sorted_wrt (<) (map ch_offset s')"
      proof -
        have "sorted_wrt (<) (map ch_offset (take k s @ drop k s))" using assms(1) by (simp add: spbset_ok_def)
        then show ?thesis using k(3,4) unfolding s' by (auto simp: sorted_wrt_append simp del: append_take_drop_id)
      qed
      moreover have "set s' = insert ?n (set s)"
        unfolding s' by (metis Un_insert_left append_take_drop_id list.simps(15) set_append sup_commute append_Cons append_Nil)
      moreover have "hd s' = hd s" "s' \<noteq> []" using k(1,2) unfolding s' by (cases s; cases k; simp)+
      ultimately have "spbset_ok s'" "spbset_elems s' = spbset_elems s"
        using assms(1) ne by (auto simp: spbset_ok_def list_all_iff spbset_elems_def)
      then show ?thesis using s' k(2) True by (simp add: nth_append)
    qed
  qed
qed

lemma spbset_add_ok:
  assumes "spbset_ok s" and "i \<le> UINT32_MAX" and "Curl_uint32_spbset_add calloc_ok s i = (r, s')"
  shows "spbset_ok s' \<and> spbset_elems s' = (if r then insert i (spbset_elems s) else spbset_elems s)
    \<and> (r \<or> \<not> calloc_ok)"
proof -
  obtain k t where g: "uint32_spbset_get_chunk calloc_ok s i True = (k, t)" by (rule prod.exhaust)
  note gk = get_chunk_ok [OF assms(1,2) g]
  show ?thesis
  proof (cases k)
    case None
    then show ?thesis using gk g assms(1,3) by (auto simp: Curl_uint32_spbset_add_def)
  next
    case (Some j)
    have "spbset_ok (slot_update (OR) t j i) \<and> spbset_elems (slot_update (OR) t j i) = insert i (spbset_elems t)"
      using slot_update_ok [of t j i "(OR)" True] gk Some by (auto simp: bit_simps)
    then show ?thesis using gk g Some assms(3) by (auto simp: Curl_uint32_spbset_add_def)
  qed
qed

lemma spbset_remove_ok:
  assumes "spbset_ok s" and "i \<le> UINT32_MAX"
  shows "spbset_ok (Curl_uint32_spbset_remove s i) \<and> spbset_elems (Curl_uint32_spbset_remove s i) = spbset_elems s - {i}"
proof -
  obtain k t where g: "uint32_spbset_get_chunk True s i False = (k, t)" by (rule prod.exhaust)
  note gk = get_chunk_ok [OF assms g]
  let ?f = "\<lambda>x b. x AND NOT b"
  show ?thesis
  proof (cases k)
    case None
    then show ?thesis using gk g assms(1) by (auto simp: Curl_uint32_spbset_remove_def)
  next
    case (Some j)
    have "spbset_ok (slot_update ?f t j i) \<and> spbset_elems (slot_update ?f t j i) = spbset_elems t - {i}"
      using slot_update_ok [of t j i ?f False] gk Some by (auto simp: bit_simps)
    then show ?thesis using gk g Some by (simp add: Curl_uint32_spbset_remove_def)
  qed
qed

lemma spbset_contains_ok:
  assumes "spbset_ok s" and "i \<le> UINT32_MAX"
  shows "Curl_uint32_spbset_contains s i \<longleftrightarrow> i \<in> spbset_elems s"
proof -
  obtain k t where g: "uint32_spbset_get_chunk True s i False = (k, t)" by (rule prod.exhaust)
  note gk = get_chunk_ok [OF assms g]
  show ?thesis
  proof (cases k)
    case None
    then show ?thesis using gk g by (simp add: Curl_uint32_spbset_contains_def)
  next
    case (Some j)
    then have j: "j < length s" "ch_offset (s ! j) = chunk_offset i" using gk by auto
    let ?i = "i - ch_offset (s ! j)"
    have "ch_offset (s ! j) \<le> i" "?i < 64 * length (ch_slots (s ! j))"
      using chunk_offset_bounds [of i] j(2) chunk_ok_nth [OF assms(1) j(1)] by (simp_all add: chunk_ok_def)
    then have "i \<in> chunk_elems (s ! j) \<longleftrightarrow> bit (ch_slots (s ! j) ! (?i div 64)) (?i mod 64)"
      by (auto simp: in_chunk slot_bits_def)
    then show ?thesis using g Some elem_at [OF assms(1) j]
      by (simp add: Curl_uint32_spbset_contains_def and_single Let_def del: push_bit_of_1)
  qed
qed

subsection \<open>Iteration\<close>

lemma chunk_first_ok:
  assumes "chunk_ok c"
  shows "case uint32_spbset_chunk_first c of
      (True, n) \<Rightarrow> least_from (chunk_elems c) 0 n
    | (False, _) \<Rightarrow> chunk_elems c = {}"
proof (cases "slot_scan (ch_slots c) 0")
  case None
  then show ?thesis using slot_scan_none [OF None]
    by (auto simp: uint32_spbset_chunk_first_def chunk_elems_def)
next
  case (Some i)
  have "least_from (chunk_elems c) 0 (ch_offset c + (i * 64 + Curl_ctz64 (ch_slots c ! i)))" (is "least_from _ _ ?n")
    using slot_scan_least [OF Some] by (auto simp: least_from_def chunk_elems_def)
  moreover from this have "?n mod 2 ^ 32 = ?n"
    using in_chunk_max [OF assms, of ?n] by (simp add: least_from_def UINT32_MAX_def)
  ultimately show ?thesis using Some by (simp add: uint32_spbset_chunk_first_def)
qed

text \<open>A run of chunks in order: the elements of the first one come first.\<close>

definition run_ok :: "uint32_spbset \<Rightarrow> bool" where
  "run_ok cs \<longleftrightarrow> list_all chunk_ok cs \<and> sorted_wrt (<) (map ch_offset cs)"

lemma run_later:
  assumes "run_ok (c # cs)" and "y \<in> spbset_elems cs"
  shows "ch_offset c + 256 \<le> y"
proof -
  obtain d where d: "d \<in> set cs" "y \<in> chunk_elems d" using assms(2) by (auto simp: spbset_elems_def)
  then have ok: "chunk_ok c" "chunk_ok d" "ch_offset c < ch_offset d" using assms(1) by (auto simp: run_ok_def list_all_iff)
  moreover from this obtain p q where "ch_offset c = 256 * p" "ch_offset d = 256 * q"
    unfolding chunk_ok_def by (metis mod_0_imp_dvd dvdE)
  ultimately have "p < q" "256 * q \<le> y" using in_chunk_range [OF ok(2) d(2)] by simp_all
  then show ?thesis using \<open>ch_offset c = 256 * p\<close> by linarith
qed

lemma run_least:
  assumes "run_ok (c # cs)" and "least_from (chunk_elems c) m n"
  shows "least_from (spbset_elems (c # cs)) m n"
proof -
  have ok: "chunk_ok c" using assms(1) by (simp add: run_ok_def)
  have "n < ch_offset c + 256" using in_chunk_range [OF ok] assms(2) by (auto simp: least_from_def)
  then have "n \<le> y" if "y \<in> spbset_elems cs" for y using run_later [OF assms(1) that] by simp
  then show ?thesis using assms(2) by (auto simp: least_from_def spbset_elems_def)
qed

lemma chunks_first_ok:
  assumes "run_ok cs"
  shows "case chunks_first cs of
      (True, n) \<Rightarrow> least_from (spbset_elems cs) 0 n
    | (False, _) \<Rightarrow> spbset_elems cs = {}"
  using assms
proof (induction cs)
  case (Cons c cs)
  have ok: "chunk_ok c" "run_ok cs" using Cons.prems by (simp_all add: run_ok_def)
  obtain f n where fn: "uint32_spbset_chunk_first c = (f, n)" by (rule prod.exhaust)
  show ?case
  proof (cases f)
    case True
    then show ?thesis using chunk_first_ok [OF ok(1)] fn run_least [OF Cons.prems] by simp
  next
    case False
    then have "spbset_elems (c # cs) = spbset_elems cs"
      using chunk_first_ok [OF ok(1)] fn by (simp add: spbset_elems_def)
    then show ?thesis using Cons.IH [OF ok(2)] fn False by (simp split: prod.splits bool.splits)
  qed
qed (simp add: spbset_elems_def)

lemma spbset_first_chunks:
  "Curl_uint32_spbset_first cs = (case chunks_first cs of (True, n) \<Rightarrow> (True, n) | (False, _) \<Rightarrow> (False, 0))"
  by (induction cs) (auto simp: uint32_spbset_chunk_first_def split: option.splits)

lemma chunk_next_ok:
  assumes "chunk_ok c" and "chunk_offset l = ch_offset c"
  shows "case uint32_spbset_chunk_next c l of
      (True, n) \<Rightarrow> least_from (chunk_elems c) l n
    | (False, _) \<Rightarrow> \<forall>k\<in>chunk_elems c. k < l"
proof -
  define j where "j = l - ch_offset c"
  have l: "l = ch_offset c + j" "j < 256" "j div 64 < length (ch_slots c)" "length (ch_slots c) = 4"
    using chunk_offset_bounds [of l] assms by (auto simp: j_def chunk_ok_def)
  have m: "l mod 64 = j mod 64"
  proof -
    obtain q where "ch_offset c = 256 * q" using assms(1) by (auto simp: chunk_ok_def)
    then have "l = j + 64 * (4 * q)" using l(1) by simp
    then show ?thesis by (simp only: mod_mult_self2)
  qed
  let ?x = "drop_bit (j mod 64) (ch_slots c ! (j div 64))"
  have nx: "uint32_spbset_chunk_next c l = (if ?x \<noteq> 0 then (True, (l + Curl_ctz64 ?x) mod 2 ^ 32)
      else (case slot_scan (ch_slots c) (j div 64 + 1) of
              Some k \<Rightarrow> (True, (ch_offset c + (k * 64 + Curl_ctz64 (ch_slots c ! k))) mod 2 ^ 32)
            | None \<Rightarrow> (False, UINT32_MAX)))"
  proof -
    have "ch_offset c \<le> l" "l - ch_offset c = j" "j div 64 < CURL_UINT32_SPBSET_CH_SLOTS"
      using l by (simp_all add: CURL_UINT32_SPBSET_CH_SLOTS_def)
    then show ?thesis by (simp add: uint32_spbset_chunk_next_def m Let_def)
  qed
  have lift: "least_from (slot_bits (ch_slots c)) j n \<Longrightarrow> least_from (chunk_elems c) l (ch_offset c + n)" for n
    by (auto simp: least_from_def chunk_elems_def l(1))
  have wrap: "n mod 2 ^ 32 = n" if "least_from (chunk_elems c) l n" for n
    using in_chunk_max [OF assms(1), of n] that by (simp add: least_from_def UINT32_MAX_def)
  show ?thesis
  proof (cases "?x = 0")
    case False
    have "least_from (chunk_elems c) l (l + Curl_ctz64 ?x)"
      using lift [of "j + Curl_ctz64 ?x"] slot_here [OF l(3) False] by (simp add: l(1) add.assoc)
    then show ?thesis using nx False wrap by simp
  next
    case True
    note rest = slot_rest [OF _ _ True]
    show ?thesis
    proof (cases "slot_scan (ch_slots c) (j div 64 + 1)")
      case None
      have "k < j" if "k \<in> slot_bits (ch_slots c)" for k
        using slot_scan_none [OF None that] rest [OF that] by (meson not_le)
      then show ?thesis using nx True None by (auto simp: chunk_elems_def l(1))
    next
      case (Some k)
      have "least_from (slot_bits (ch_slots c)) j (k * 64 + Curl_ctz64 (ch_slots c ! k))"
        using slot_scan_least [OF Some] least_from_lower [OF _ _ rest] by simp
      then show ?thesis using nx True Some wrap lift by simp
    qed
  qed
qed

lemma next_offset: "chunk_ok c \<Longrightarrow> chunk_offset l < ch_offset c \<Longrightarrow> l < ch_offset c"
proof -
  assume a: "chunk_ok c" "chunk_offset l < ch_offset c"
  obtain p q where "ch_offset c = 256 * p" "chunk_offset l = 256 * q"
    using a(1) chunk_offset_bounds(3) [of l] unfolding chunk_ok_def by (metis mod_0_imp_dvd dvdE)
  moreover from this have "q < p" using a(2) by simp
  ultimately show ?thesis using chunk_offset_bounds(2) [of l] by linarith
qed

lemma least_from_all: "least_from A 0 n \<Longrightarrow> (\<And>k. k \<in> A \<Longrightarrow> l \<le> k) \<Longrightarrow> least_from A l n"
  by (simp add: least_from_def)

lemma run_next:
  assumes "run_ok (c # cs)" and "\<not> ch_offset c < chunk_offset l"
    and "(r, n) = (if ch_offset c = chunk_offset l
          then (case uint32_spbset_chunk_next c l of (True, n) \<Rightarrow> (True, n) | (False, _) \<Rightarrow> chunks_first cs)
          else chunks_first (c # cs))"
  shows "if r then least_from (spbset_elems (c # cs)) l n else \<forall>k\<in>spbset_elems (c # cs). k < l"
proof (cases "ch_offset c = chunk_offset l")
  case True
  have ok: "chunk_ok c" "run_ok cs" using assms(1) by (simp_all add: run_ok_def)
  obtain f1 n1 where f1: "uint32_spbset_chunk_next c l = (f1, n1)" by (rule prod.exhaust)
  note c1 = chunk_next_ok [OF ok(1) True [symmetric], unfolded f1]
  have later: "l \<le> k" if "k \<in> spbset_elems cs" for k
    using run_later [OF assms(1) that] chunk_offset_bounds(2) [of l] True by simp
  show ?thesis
  proof (cases f1)
    case True1: True
    then show ?thesis using assms(3) True f1 c1 run_least [OF assms(1)] by simp
  next
    case False
    then have c: "\<forall>k\<in>chunk_elems c. k < l" and rn: "(r, n) = chunks_first cs" using assms(3) True f1 c1 by simp_all
    have e: "spbset_elems (c # cs) = chunk_elems c \<union> spbset_elems cs" by (simp add: spbset_elems_def)
    show ?thesis
    proof (cases r)
      case True
      then have "least_from (spbset_elems cs) l n"
        using chunks_first_ok [OF ok(2)] rn [symmetric] least_from_all [OF _ later] by simp
      then show ?thesis unfolding e using True c by (fastforce simp: least_from_def)
    next
      case False
      then show ?thesis using chunks_first_ok [OF ok(2)] rn [symmetric] c by (simp add: e)
    qed
  qed
next
  case False
  then have "l < ch_offset c" using next_offset [of c l] assms(1,2) by (simp add: run_ok_def)
  then have later: "l \<le> k" if "k \<in> spbset_elems (c # cs)" for k
    using that run_later [OF assms(1), of k] in_chunk_range [of c k] assms(1)
    by (fastforce simp: spbset_elems_def run_ok_def)
  have rn: "(r, n) = chunks_first (c # cs)" using assms(3) False by simp
  show ?thesis using chunks_first_ok [OF assms(1)] least_from_all [OF _ later] unfolding rn [symmetric]
    by (cases r) simp_all
qed

lemma spbset_next_ok:
  assumes "spbset_ok s" and "(m + 1) mod 2 ^ 32 = l" and "Curl_uint32_spbset_next s m = (r, n)"
  shows "if r then least_from (spbset_elems s) l n else \<forall>k\<in>spbset_elems s. k < l"
proof -
  define ds where "ds = dropWhile (\<lambda>c. ch_offset c < chunk_offset l) s"
  have s: "s = takeWhile (\<lambda>c. ch_offset c < chunk_offset l) s @ ds" by (simp add: ds_def)
  have run: "run_ok (takeWhile (\<lambda>c. ch_offset c < chunk_offset l) s @ ds)"
    using assms(1) unfolding s [symmetric] by (simp add: run_ok_def spbset_ok_def)
  have before: "k < l" if c: "c \<in> set (takeWhile (\<lambda>c. ch_offset c < chunk_offset l) s)" and k: "k \<in> chunk_elems c" for c k
  proof -
    have "chunk_ok c" "ch_offset c < chunk_offset l" using c run by (auto simp: run_ok_def list_all_iff dest: set_takeWhileD)
    then have "chunk_offset k < chunk_offset l" using in_chunk_offset k by simp
    then show ?thesis using chunk_offset_bounds [of k] chunk_offset_bounds [of l] by (auto simp: mod_eq_0_iff_dvd elim!: dvdE)
  qed
  have sub: "k \<in> spbset_elems ds \<Longrightarrow> k \<in> spbset_elems s" for k
    using set_dropWhileD by (fastforce simp: spbset_elems_def ds_def)
  have cut: "k \<in> spbset_elems s \<Longrightarrow> l \<le> k \<Longrightarrow> k \<in> spbset_elems ds" for k
    using before s by (metis UN_E UN_I Un_iff not_le set_append spbset_elems_def)
  have nx: "(r, n) = (case ds of [] \<Rightarrow> (False, UINT32_MAX)
      | c # cs \<Rightarrow> if ch_offset c = chunk_offset l
          then (case uint32_spbset_chunk_next c l of (True, n) \<Rightarrow> (True, n) | (False, _) \<Rightarrow> chunks_first cs)
          else chunks_first (c # cs))"
    using assms(3) [symmetric] unfolding Curl_uint32_spbset_next_def Let_def assms(2) ds_def .
  have main: "if r then least_from (spbset_elems ds) l n else \<forall>k\<in>spbset_elems ds. k < l"
  proof (cases ds)
    case Nil
    then show ?thesis using nx by (simp add: spbset_elems_def)
  next
    case (Cons c cs)
    have "\<not> ch_offset c < chunk_offset l"
      using Cons dropWhile_eq_Cons_conv [of "\<lambda>c. ch_offset c < chunk_offset l" s c cs] by (simp add: ds_def)
    moreover have "run_ok (c # cs)" using run Cons by (simp add: run_ok_def sorted_wrt_append)
    ultimately show ?thesis using run_next [of c cs l r n] nx Cons by simp
  qed
  show ?thesis
  proof (cases r)
    case True
    then show ?thesis using main sub cut by (auto simp: least_from_def)
  next
    case False
    then show ?thesis using main cut by (meson not_le)
  qed
qed

text \<open>The answer of \<open>Curl_uint32_spbset_first\<close> with the unchanged set.\<close>

definition spbset_first :: "uint32_spbset \<Rightarrow> bool \<times> nat \<times> uint32_spbset" where
  "spbset_first s = (case Curl_uint32_spbset_first s of (b, n) \<Rightarrow> (b, n, s))"

lemma spbset_first_ok:
  assumes "spbset_ok s" and "Curl_uint32_spbset_first s = (r, n)"
  shows "if r then least_from (spbset_elems s) 0 n else spbset_elems s = {}"
proof -
  have "run_ok s" using assms(1) by (simp add: run_ok_def spbset_ok_def)
  from chunks_first_ok [OF this] show ?thesis
    using assms(2) by (auto simp: spbset_first_chunks split: prod.splits bool.splits)
qed

interpretation spbset: uint_set spbset_first Curl_uint32_spbset_next spbset_elems spbset_ok
proof
  fix s s' r n m
  assume ok: "spbset_ok s"
  show "n \<in> spbset_elems s \<Longrightarrow> n \<le> UINT32_MAX" using spbset_max [OF ok] .
  show "spbset_first s = (r, n, s') \<Longrightarrow> spbset_ok s' \<and> spbset_elems s' = spbset_elems s"
    using ok by (auto simp: spbset_first_def split: prod.splits)
  show "spbset_first s = (True, n, s') \<Longrightarrow> least_from (spbset_elems s) 0 n"
    using spbset_first_ok [OF ok, of True n] by (auto simp: spbset_first_def split: prod.splits)
  show "spbset_first s = (False, n, s') \<Longrightarrow> spbset_elems s = {}"
    using spbset_first_ok [OF ok, of False n] by (auto simp: spbset_first_def split: prod.splits)
  assume "m < UINT32_MAX"
  then have l: "(m + 1) mod 2 ^ 32 = Suc m" by (simp add: UINT32_MAX_def)
  show "Curl_uint32_spbset_next s m = (True, n) \<Longrightarrow> least_from (spbset_elems s) (Suc m) n"
    using spbset_next_ok [OF ok l, of True n] by simp
  show "Curl_uint32_spbset_next s m = (False, n) \<Longrightarrow> \<forall>k\<in>spbset_elems s. k \<le> m"
    using spbset_next_ok [OF ok l, of False n] by (simp add: less_Suc_eq_le)
qed

lemma spbset_init_ok: "spbset_ok Curl_uint32_spbset_init \<and> spbset_elems Curl_uint32_spbset_init = {}"
  using slot_bits_zeros [of "replicate 4 0"]
  by (auto simp: Curl_uint32_spbset_init_def spbset_ok_def spbset_elems_def chunk_elems_def chunk_ok_def zero_chunk_def
      CURL_UINT32_SPBSET_CH_SLOTS_def)

text \<open>
  C24: the sparse bitset is a set of numbers.  Membership is exact, adding and removing do what
  they say and keep the chunks ordered, a failed allocation leaves the set as it was, and the
  loop over the set lists it in ascending order when it does not hold the largest number.
\<close>

theorem spbset_is_set:
  assumes "spbset_ok s" and "i \<le> UINT32_MAX" and "Curl_uint32_spbset_add calloc_ok s i = (r, s')"
  shows "(Curl_uint32_spbset_contains s i \<longleftrightarrow> i \<in> spbset_elems s)
    \<and> spbset_ok s' \<and> spbset_elems s' = (if r then insert i (spbset_elems s) else spbset_elems s) \<and> (r \<or> \<not> calloc_ok)
    \<and> spbset_ok (Curl_uint32_spbset_remove s i) \<and> spbset_elems (Curl_uint32_spbset_remove s i) = spbset_elems s - {i}
    \<and> (UINT32_MAX \<notin> spbset_elems s \<longrightarrow> (\<exists>t. for_each spbset_first Curl_uint32_spbset_next (\<lambda>_ s. s) s
        = Some (sorted_list_of_set (spbset_elems s), t) \<and> spbset_elems t = spbset_elems s))"
  using spbset_contains_ok [OF assms(1,2)] spbset_add_ok [OF assms] spbset_remove_ok [OF assms(1,2)]
    spbset.for_each_enumerates [OF assms(1)] by simp

theorem spbset_is_set_witness:
  "spbset_elems (snd (Curl_uint32_spbset_add True Curl_uint32_spbset_init 1000)) = {1000}"
proof -
  obtain r s' where a: "Curl_uint32_spbset_add True Curl_uint32_spbset_init 1000 = (r, s')" by (rule prod.exhaust)
  have "1000 \<le> UINT32_MAX" by (simp add: UINT32_MAX_def)
  from spbset_is_set [OF conjunct1 [OF spbset_init_ok] this a] show ?thesis
    using spbset_init_ok a by (auto split: if_splits)
qed

text \<open>
  The largest number can be stored but not iterated over.  \<open>Curl_uint32_spbset_next\<close> wraps
  to 0 after it and answers with the first number again, so on a sparse bitset that holds it
  the loop over the set does not end, whatever number of rounds is allowed.
\<close>

lemma spbset_walk_endless:
  assumes "spbset_ok s" and "UINT32_MAX \<in> spbset_elems s" and "n \<le> UINT32_MAX"
  shows "walk Curl_uint32_spbset_next (\<lambda>_ s. s) rounds n s = None"
  using assms(3)
proof (induction rounds arbitrary: n)
  case (Suc rounds)
  obtain r n' where nx: "Curl_uint32_spbset_next s n = (r, n')" by (rule prod.exhaust)
  have "(n + 1) mod 2 ^ 32 \<le> UINT32_MAX" by (simp add: UINT32_MAX_def)
  moreover note spbset_next_ok [OF assms(1) refl nx]
  ultimately have "r" "n' \<in> spbset_elems s" using assms(2) by (auto simp: least_from_def split: if_splits)
  then show ?case using nx Suc.IH [OF spbset_max [OF assms(1)]] by simp
qed simp

end
