(* ===== verification/Url_Base.thy ===== *)
theory Url_Base
  imports Dynbuf Strcase
begin

unbundle bit_operations_syntax

text \<open>
  Vocabulary of the URL API: its result codes and part names (\<^verbatim>\<open>include/curl/urlapi.h\<close>),
  the C string functions \<^verbatim>\<open>lib/urlapi.c\<close> calls, and its use of dynamic memory.

  A C string is the list of its bytes before the terminator, and a pointer into a string is the
  suffix it points at.  Memory is the parameter \<open>mem\<close>: \<open>mem n\<close> says whether a block of
  \<open>n\<close> bytes is granted, so that every out-of-memory branch of the source is a branch of
  the model.  A dynbuf is its contents together with its limit; \<open>dyn_put\<close> is
  \<open>curlx_dyn_addn\<close> followed by the translation \<open>cc2cu\<close> of its error, and the lemma
  \<open>dyn_put_refines\<close> ties it to the buffer of the theory \<open>Dynbuf\<close>.
\<close>

datatype CURLUcode =
    CURLUE_OK
  | CURLUE_BAD_HANDLE
  | CURLUE_BAD_PARTPOINTER
  | CURLUE_MALFORMED_INPUT
  | CURLUE_BAD_PORT_NUMBER
  | CURLUE_UNSUPPORTED_SCHEME
  | CURLUE_URLDECODE
  | CURLUE_OUT_OF_MEMORY
  | CURLUE_USER_NOT_ALLOWED
  | CURLUE_UNKNOWN_PART
  | CURLUE_NO_SCHEME
  | CURLUE_NO_USER
  | CURLUE_NO_PASSWORD
  | CURLUE_NO_OPTIONS
  | CURLUE_NO_HOST
  | CURLUE_NO_PORT
  | CURLUE_NO_QUERY
  | CURLUE_NO_FRAGMENT
  | CURLUE_NO_ZONEID
  | CURLUE_BAD_FILE_URL
  | CURLUE_BAD_FRAGMENT
  | CURLUE_BAD_HOSTNAME
  | CURLUE_BAD_IPV6
  | CURLUE_BAD_LOGIN
  | CURLUE_BAD_PASSWORD
  | CURLUE_BAD_PATH
  | CURLUE_BAD_QUERY
  | CURLUE_BAD_SCHEME
  | CURLUE_BAD_SLASHES
  | CURLUE_BAD_USER
  | CURLUE_LACKS_IDN
  | CURLUE_TOO_LARGE

datatype CURLUPart =
    CURLUPART_URL
  | CURLUPART_SCHEME
  | CURLUPART_USER
  | CURLUPART_PASSWORD
  | CURLUPART_OPTIONS
  | CURLUPART_HOST
  | CURLUPART_PORT
  | CURLUPART_PATH
  | CURLUPART_QUERY
  | CURLUPART_FRAGMENT
  | CURLUPART_ZONEID

definition CURL_MAX_INPUT_LENGTH :: nat where "CURL_MAX_INPUT_LENGTH = 8000000"

section \<open>The C string functions\<close>

definition memchr :: "bytes \<Rightarrow> char \<Rightarrow> nat option" where
  "memchr s c = (if c \<in> set s then Some (length (takeWhile (\<lambda>x. x \<noteq> c) s)) else None)"

definition memrchr :: "bytes \<Rightarrow> char \<Rightarrow> nat option" where
  "memrchr s c = (if c \<in> set s then Some (length s - Suc (length (takeWhile (\<lambda>x. x \<noteq> c) (rev s)))) else None)"

definition strspn :: "bytes \<Rightarrow> bytes \<Rightarrow> nat" where
  "strspn s acc = length (takeWhile (\<lambda>x. x \<in> set acc) s)"

definition strcspn :: "bytes \<Rightarrow> bytes \<Rightarrow> nat" where
  "strcspn s rej = length (takeWhile (\<lambda>x. x \<notin> set rej) s)"

definition checkprefix :: "bytes \<Rightarrow> bytes \<Rightarrow> bool" where
  "checkprefix a b = curl_strnequal (Some b) (Some a) (length a)"

lemma takeWhile_upto: "c \<notin> set a \<Longrightarrow> takeWhile (\<lambda>x. x \<noteq> c) (a @ c # b) = a"
  by (induction a) auto

lemma takeWhile_all: "\<forall>x\<in>set s. P x \<Longrightarrow> takeWhile P s = s"
  by (induction s) auto

lemma memchr_None: "memchr s c = None \<longleftrightarrow> c \<notin> set s"
  by (simp add: memchr_def)

lemma memchr_first: "c \<notin> set a \<Longrightarrow> memchr (a @ c # b) c = Some (length a)"
  by (simp add: memchr_def takeWhile_upto)

lemma memchr_Some:
  assumes "memchr s c = Some n"
  shows "n < length s" "s = take n s @ c # drop (Suc n) s" "c \<notin> set (take n s)"
proof -
  from assms have "c \<in> set s" and n: "n = length (takeWhile (\<lambda>x. x \<noteq> c) s)"
    by (auto simp: memchr_def split: if_splits)
  then obtain a b where s: "s = a @ c # b" "c \<notin> set a" by (meson split_list_first)
  then have "n = length a" using n by (simp add: takeWhile_upto)
  then show "n < length s" "s = take n s @ c # drop (Suc n) s" "c \<notin> set (take n s)" using s by simp_all
qed

lemma memrchr_last: "c \<notin> set b \<Longrightarrow> memrchr (a @ c # b) c = Some (length a)"
  by (simp add: memrchr_def takeWhile_upto)

lemma strcspn_all: "\<forall>x\<in>set s. x \<notin> set rej \<Longrightarrow> strcspn s rej = length s"
  by (simp add: strcspn_def takeWhile_all)

lemma strcspn_full: "strcspn s rej = length s \<longleftrightarrow> (\<forall>x\<in>set s. x \<notin> set rej)"
  unfolding strcspn_def using takeWhile_eq_all_conv [of "\<lambda>x. x \<notin> set rej" s]
  by (metis take_all_iff take_length_takeWhile order_refl)

lemma strcspn_stop: "\<forall>x\<in>set s. x \<notin> set rej \<Longrightarrow> t = [] \<or> hd t \<in> set rej \<Longrightarrow> strcspn (s @ t) rej = length s"
  by (cases t) (auto simp: strcspn_def takeWhile_append2 takeWhile_all)

lemma checkprefix_eq:
  "checkprefix a b \<longleftrightarrow> take (length a) (fold_case b) = take (length a) (fold_case a)"
  by (simp add: checkprefix_def curl_strnequal_def ncasecompare_eq)

section \<open>Buffers\<close>

type_synonym memory = "nat \<Rightarrow> bool"

definition cc2cu :: "CURLcode \<Rightarrow> CURLUcode" where
  "cc2cu x = (if x = CURLE_TOO_LARGE then CURLUE_TOO_LARGE else CURLUE_OUT_OF_MEMORY)"

definition dyn_put :: "memory \<Rightarrow> nat \<Rightarrow> bytes \<Rightarrow> bytes \<Rightarrow> CURLUcode + bytes" where
  "dyn_put mem lim s add =
     (if length s + length add + 1 > lim then Inl CURLUE_TOO_LARGE
      else if mem (length s + length add + 1) then Inr (s @ add)
      else Inl CURLUE_OUT_OF_MEMORY)"

text \<open>
  Whatever the allocator does, the dynbuf's answer is the one \<open>dyn_put\<close> gives for a memory
  that grants or refuses the block.
\<close>

lemma dyn_put_refines:
  assumes "realloc_ok ralloc" "dyn_ok d" "curlx_dyn_addn ralloc d add = (res, d')"
  shows "dyn_put (\<lambda>_. res = CURLE_OK) (toobig d) (dyn_bytes d) add
     = (if res = CURLE_OK then Inr (dyn_bytes d') else Inl (cc2cu res))"
  using dyn_nappend_cases [OF assms(1,2), of add res d'] assms(3)
  by (auto simp: curlx_dyn_addn_def dyn_put_def cc2cu_def)

text \<open>Memory that is always granted.\<close>

definition plenty :: memory where "plenty n = True"

lemma dyn_put_plenty:
  "dyn_put plenty lim s add = (if length s + length add < lim then Inr (s @ add) else Inl CURLUE_TOO_LARGE)"
  by (auto simp: dyn_put_def plenty_def)

lemma dyn_put_Inr: "dyn_put mem lim s add = Inr t \<Longrightarrow> t = s @ add \<and> length t < lim"
  by (auto simp: dyn_put_def split: if_splits)

text \<open>Adding one piece after another.\<close>

fun dyn_puts :: "memory \<Rightarrow> nat \<Rightarrow> bytes \<Rightarrow> bytes list \<Rightarrow> CURLUcode + bytes" where
  "dyn_puts mem lim s [] = Inr s"
| "dyn_puts mem lim s (m # ms) =
     (case dyn_put mem lim s m of Inl e \<Rightarrow> Inl e | Inr t \<Rightarrow> dyn_puts mem lim t ms)"

lemma dyn_puts_Inr: "dyn_puts mem lim s ms = Inr t \<Longrightarrow> t = s @ concat ms"
  by (induction ms arbitrary: s) (fastforce dest: dyn_put_Inr split: sum.splits)+

lemma dyn_puts_plenty:
  "length s + length (concat ms) < lim \<Longrightarrow> dyn_puts plenty lim s ms = Inr (s @ concat ms)"
proof (induction ms arbitrary: s)
  case (Cons m ms)
  then show ?case using Cons.IH [of "s @ m"] by (simp add: dyn_put_plenty)
qed simp

end
