(* ===== verification/Url_Path.thy ===== *)
theory Url_Path
  imports Url_Base
begin

unbundle bit_operations_syntax

text \<open>
  Removal of dot segments from a URL path: \<open>is_dot\<close> and \<open>dedotdotify\<close> of
  \<^verbatim>\<open>lib/urlapi.c\<close>, proved equal to the rule of RFC 3986, section 5.2.4, on the list of
  segments of the path.  A dot may be written \<open>%2e\<close>.  The buffer of the function has room
  for \<open>clen + 1\<close> bytes; its pointer arithmetic is on suffixes of the input.
\<close>

definition is_dot :: "bytes \<Rightarrow> bytes option" where
  "is_dot p =
     (if peek p = CHR ''.'' then Some (drop 1 p)
      else if length p \<ge> 3 \<and> p ! 0 = CHR ''%'' \<and> p ! 1 = CHR ''2'' \<and> code_of (p ! 2) OR 0x20 = code_of CHR ''e''
      then Some (drop 3 p)
      else None)"

definition ISSLASH :: "char \<Rightarrow> bool" where
  "ISSLASH x \<longleftrightarrow> x = CHR ''/''"

text \<open>
  The check for a leading dot segment: what is left of the input, \<open>None\<close> for the jump to
  the end.
\<close>

definition leading_dots :: "bytes \<Rightarrow> bytes option" where
  "leading_dots input =
     (case is_dot input of
        None \<Rightarrow> Some input
      | Some d \<Rightarrow>
          if ISSLASH (peek d) then Some (drop 1 d)
          else (case is_dot d of
                  None \<Rightarrow> Some input
                | Some d2 \<Rightarrow>
                    if d2 = [] then None
                    else if ISSLASH (peek d2) then Some (drop 1 d2)
                    else Some input))"

text \<open>What follows a slash of the input: a dot segment and the input after it, or neither.\<close>

datatype dots = No_dots | Dot bytes | Dotdot bytes

definition dots_after_slash :: "bytes \<Rightarrow> dots" where
  "dots_after_slash s =
     (case is_dot s of
        None \<Rightarrow> No_dots
      | Some p \<Rightarrow>
          if p = [] \<or> ISSLASH (peek p) then Dot p
          else (case is_dot p of
                  None \<Rightarrow> No_dots
                | Some q \<Rightarrow> if ISSLASH (peek q) \<or> q = [] then Dotdot q else No_dots))"

definition cut_last_segment :: "bytes \<Rightarrow> bytes" where
  "cut_last_segment out = (case memrchr out CHR ''/'' of None \<Rightarrow> out | Some i \<Rightarrow> take i out)"

lemma is_dot_shorter: "is_dot p = Some q \<Longrightarrow> length q < length p"
  by (cases p) (auto simp: is_dot_def split: if_splits)

lemma dots_shorter:
  "dots_after_slash s = Dot p \<Longrightarrow> length p < length s"
  "dots_after_slash s = Dotdot p \<Longrightarrow> length p < length s"
  by (auto simp: dots_after_slash_def split: option.splits if_splits dest!: is_dot_shorter)

function dedot_loop :: "memory \<Rightarrow> nat \<Rightarrow> bytes \<Rightarrow> bytes \<Rightarrow> CURLUcode + bytes" where
  "dedot_loop mem lim out [] = Inr out"
| "dedot_loop mem lim out (c # input) =
     (case (if ISSLASH c then dots_after_slash input else No_dots) of
        Dot p \<Rightarrow>
          if p = [] then dyn_put mem lim out ''/'' else dedot_loop mem lim out p
      | Dotdot q \<Rightarrow>
          if q \<noteq> [] then dedot_loop mem lim (cut_last_segment out) q
          else dyn_put mem lim (cut_last_segment out) ''/''
      | No_dots \<Rightarrow>
          (case dyn_put mem lim out [c] of
             Inl e \<Rightarrow> Inl e
           | Inr out' \<Rightarrow> dedot_loop mem lim out' input))"
  by pat_completeness auto
termination
  by (relation "measure (\<lambda>(mem, lim, out, input). length input)")
    (auto split: if_splits dest: dots_shorter)

declare dedot_loop.simps(2) [simp del]

text \<open>The return value and what is stored through \<open>outp\<close>.\<close>

definition dedotdotify :: "memory \<Rightarrow> bytes \<Rightarrow> nat \<times> bytes option" where
  "dedotdotify mem input =
     (let clen = length input in
      if clen < 2 then (0, None)
      else case (case leading_dots input of
                   None \<Rightarrow> Inr []
                 | Some inp \<Rightarrow> dedot_loop mem (clen + 1) [] inp) of
             Inl e \<Rightarrow> (1, None)
           | Inr out \<Rightarrow>
               if out \<noteq> [] then (0, Some out)
               else if mem 1 then (0, Some []) else (1, None))"

section \<open>The reference: RFC 3986 on segments\<close>

fun segments :: "bytes \<Rightarrow> bytes list" where
  "segments [] = [[]]"
| "segments (c # s) =
     (if c = CHR ''/'' then [] # segments s
      else case segments s of [] \<Rightarrow> [[c]] | seg # segs \<Rightarrow> (c # seg) # segs)"

text \<open>The path with these segments.\<close>

definition path_of :: "bytes list \<Rightarrow> bytes" where
  "path_of segs = concat (map (\<lambda>s. CHR ''/'' # s) segs)"

definition dot_spellings :: "bytes list" where
  "dot_spellings = [''.'', ''%2e'', ''%2E'']"

definition single_dot :: "bytes \<Rightarrow> bool" where
  "single_dot s \<longleftrightarrow> s \<in> set dot_spellings"

definition double_dot :: "bytes \<Rightarrow> bool" where
  "double_dot s \<longleftrightarrow> (\<exists>a\<in>set dot_spellings. \<exists>b\<in>set dot_spellings. s = a @ b)"

text \<open>
  The segments kept so far are a stack.  A dot segment at the end leaves an empty last segment,
  so that the path keeps its final slash.
\<close>

fun remove_dots :: "bytes list \<Rightarrow> bytes list \<Rightarrow> bytes list" where
  "remove_dots st [] = st"
| "remove_dots st (s # segs) =
     (if single_dot s then (if segs = [] then st @ [[]] else remove_dots st segs)
      else if double_dot s then (if segs = [] then butlast st @ [[]] else remove_dots (butlast st) segs)
      else remove_dots (st @ [s]) segs)"

section \<open>Segments and paths\<close>

definition slashless :: "bytes list \<Rightarrow> bool" where
  "slashless segs \<longleftrightarrow> (\<forall>s\<in>set segs. CHR ''/'' \<notin> set s)"

lemma path_of_simps [simp]:
  "path_of [] = []" "path_of (s # segs) = CHR ''/'' # s @ path_of segs"
  "path_of (segs @ segs') = path_of segs @ path_of segs'"
  by (simp_all add: path_of_def)

lemma slashless_simps [simp]:
  "slashless []" "slashless (s # segs) \<longleftrightarrow> CHR ''/'' \<notin> set s \<and> slashless segs"
  "slashless (segs @ segs') \<longleftrightarrow> slashless segs \<and> slashless segs'"
  by (auto simp: slashless_def)

lemma slashless_butlast: "slashless st \<Longrightarrow> slashless (butlast st)"
  by (auto simp: slashless_def dest: in_set_butlastD)

lemma segments_nonempty: "segments s \<noteq> []"
  by (induction s) (auto split: list.splits)

lemma segments_slashless: "slashless (segments s)"
  by (induction s) (auto split: list.splits)

lemma path_of_segments: "path_of (segments s) = CHR ''/'' # s"
  by (induction s) (auto split: list.splits)

lemma segments_slashless_id:
  assumes "slashless (s # segs)"
  shows "segments (s @ path_of segs) = s # segs"
  using assms
proof (induction segs arbitrary: s)
  case Nil
  then show ?case by (induction s) auto
next
  case (Cons t segs)
  then have "segments (t @ path_of segs) = t # segs" by simp
  then show ?case using Cons.prems by (induction s) auto
qed

text \<open>A path tail is empty or starts with a slash.\<close>

lemma path_of_peek: "segs \<noteq> [] \<Longrightarrow> path_of segs \<noteq> [] \<and> peek (path_of segs) = CHR ''/''"
  by (cases segs) auto

lemma code_e: "code_of c OR 32 = 101 \<longleftrightarrow> c = CHR ''e'' \<or> c = CHR ''E''"
proof -
  have "n OR 32 = set_bit 5 n" for n :: nat by (simp add: set_bit_eq_or)
  then have "n OR 32 = n + of_bool (even (n div 32)) * 32" for n :: nat
    by (simp add: set_bit_eq bit_iff_odd)
  then have "code_of c OR 32 = 101 \<longleftrightarrow> code_of c = code_of CHR ''e'' \<or> code_of c = code_of CHR ''E''"
    by (auto simp: of_bool_def)
  then show ?thesis by (simp only: of_char_eq_iff)
qed

text \<open>\<open>is_dot\<close> by cases on the bytes.\<close>

lemma is_dot_simps:
  "is_dot [] = None"
  "is_dot (c # s) =
     (if c = CHR ''.'' then Some s
      else case s of
             d # e # r \<Rightarrow>
               if c = CHR ''%'' \<and> d = CHR ''2'' \<and> (e = CHR ''e'' \<or> e = CHR ''E'') then Some r else None
           | _ \<Rightarrow> None)"
  by (auto simp: is_dot_def code_e neq_Nil_conv Suc_le_eq split: list.splits)

text \<open>Whether a segment is a dot segment is decided within the segment.\<close>

lemma is_dot_append:
  assumes "CHR ''/'' \<notin> set s" "t = [] \<or> peek t = CHR ''/''"
  shows "is_dot (s @ t) = map_option (\<lambda>r. r @ t) (is_dot s)"
  using assms by (cases t; cases s) (auto simp: is_dot_simps Cons_eq_append_conv split: list.splits)

lemma is_dot_spelling: "is_dot s = Some r \<longleftrightarrow> (\<exists>d\<in>set dot_spellings. s = d @ r)"
  by (cases s) (auto simp: is_dot_simps dot_spellings_def split: list.splits)

lemma dot_spelling_plain: "d \<in> set dot_spellings \<Longrightarrow> d \<noteq> [] \<and> CHR ''/'' \<notin> set d \<and> is_dot d = Some []"
  by (auto simp: dot_spellings_def is_dot_simps)

lemma is_dot_slashless: "is_dot s = Some r \<Longrightarrow> CHR ''/'' \<notin> set s \<Longrightarrow> CHR ''/'' \<notin> set r"
  by (auto simp: is_dot_spelling)

lemma dots_single: "single_dot s \<longleftrightarrow> is_dot s = Some []"
  by (auto simp: single_dot_def is_dot_spelling)

lemma dots_double: "double_dot s \<longleftrightarrow> (\<exists>r. is_dot s = Some r \<and> is_dot r = Some [])"
  by (auto simp: double_dot_def is_dot_spelling)

lemma not_single_double: "\<not> (single_dot s \<and> double_dot s)"
  by (auto simp: dots_single dots_double is_dot_simps)

lemma dots_segment:
  assumes "CHR ''/'' \<notin> set s"
  shows "dots_after_slash (s @ path_of segs) =
     (if single_dot s then Dot (path_of segs) else if double_dot s then Dotdot (path_of segs) else No_dots)"
proof -
  have t: "path_of segs = [] \<or> peek (path_of segs) = CHR ''/''" using path_of_peek by (cases segs) auto
  note a = is_dot_append [OF assms t]
  show ?thesis
  proof (cases "is_dot s")
    case None
    then show ?thesis by (simp add: dots_after_slash_def a dots_single dots_double)
  next
    case (Some r)
    then have r: "CHR ''/'' \<notin> set r" using assms is_dot_slashless by blast
    note b = is_dot_append [OF r t]
    have "peek (r @ path_of segs) \<noteq> CHR ''/''" if "r \<noteq> []" using r that by (cases r) auto
    moreover have "q = [] \<or> peek (q @ path_of segs) \<noteq> CHR ''/'' \<and> q @ path_of segs \<noteq> []" if "is_dot r = Some q" for q
      using is_dot_slashless [OF that r] by (cases q) auto
    ultimately show ?thesis using Some t
      by (cases "r = []"; cases "is_dot r") (auto simp: dots_after_slash_def a b dots_single dots_double ISSLASH_def)
  qed
qed

lemma cut_last_segment_path: "slashless st \<Longrightarrow> cut_last_segment (path_of st) = path_of (butlast st)"
proof (induction st rule: rev_induct)
  case Nil
  show ?case by (simp add: cut_last_segment_def memrchr_def)
next
  case (snoc s st)
  then show ?case by (simp add: cut_last_segment_def memrchr_last)
qed

section \<open>The loop is the rule\<close>

lemma dedot_copy:
  assumes "CHR ''/'' \<notin> set s" "length out + length s < lim"
  shows "dedot_loop plenty lim out (s @ t) = dedot_loop plenty lim (out @ s) t"
  using assms by (induction s arbitrary: out) (auto simp: dedot_loop.simps(2) ISSLASH_def dyn_put_plenty)

lemma remove_dots_length: "length (path_of (remove_dots st segs)) \<le> length (path_of st) + length (path_of segs)"
proof (induction st segs rule: remove_dots.induct)
  case (2 st s segs)
  have "length (path_of (butlast st)) \<le> length (path_of st)"
    by (cases st rule: rev_cases) auto
  with 2 show ?case by (auto simp: dots_single dots_double is_dot_simps)
qed simp

lemma dedot_loop_rule:
  assumes "slashless st" "slashless segs" "length (path_of st) + length (path_of segs) < lim"
  shows "dedot_loop plenty lim (path_of st) (path_of segs) = Inr (path_of (remove_dots st segs))"
  using assms
proof (induction st segs rule: remove_dots.induct)
  case (1 st)
  then show ?case by simp
next
  case (2 st s segs)
  have cut: "length (path_of (butlast st)) \<le> length (path_of st)" by (cases st rule: rev_cases) auto
  have s: "CHR ''/'' \<notin> set s" and segs: "slashless segs" using 2 by simp_all
  note d = dots_segment [OF s] dots_segment [OF s, of "[]", unfolded path_of_simps append_Nil2]
  consider "single_dot s" | "\<not> single_dot s" "double_dot s" | "\<not> single_dot s" "\<not> double_dot s" by blast
  then show ?case
  proof cases
    case 1
    then show ?thesis using "2.IH"(1) "2.prems" s
      by (cases "segs = []") (simp_all add: dedot_loop.simps(2) ISSLASH_def d dyn_put_plenty path_of_peek)
  next
    case 2
    note c = cut_last_segment_path [OF "2.prems"(1)]
    show ?thesis using 2 "2.IH"(2) "2.prems" s cut slashless_butlast
      by (cases "segs = []")
        (simp_all add: dedot_loop.simps(2) ISSLASH_def d dyn_put_plenty c path_of_peek)
  next
    case 3
    have "dedot_loop plenty lim (path_of st) (path_of (s # segs))
        = dedot_loop plenty lim (path_of st @ ''/'') (s @ path_of segs)"
      using 3 "2.prems" s by (simp add: dedot_loop.simps(2) ISSLASH_def d dyn_put_plenty)
    also have "\<dots> = dedot_loop plenty lim (path_of (st @ [s])) (path_of segs)"
      using "2.prems" s by (simp add: dedot_copy)
    finally show ?thesis using 3 "2.IH"(3) "2.prems" s by simp
  qed
qed

lemma dedot_loop_memory:
  "dedot_loop mem lim out inp = Inr r \<Longrightarrow> dedot_loop plenty lim out inp = Inr r"
proof (induction mem lim out inp rule: dedot_loop.induct)
  case (2 mem lim out c inp)
  have put: "dyn_put mem lim a b = Inr t \<Longrightarrow> dyn_put plenty lim a b = Inr t" for a b t
    by (auto simp: dyn_put_def plenty_def split: if_splits)
  show ?case using 2
    by (auto simp: dedot_loop.simps(2) dest!: put split: dots.splits if_splits sum.splits)
qed simp

text \<open>No dot segment is kept.\<close>

definition dotless :: "bytes list \<Rightarrow> bool" where
  "dotless segs \<longleftrightarrow> (\<forall>s\<in>set segs. \<not> single_dot s \<and> \<not> double_dot s)"

lemma dotless_append [simp]: "dotless (a @ b) \<longleftrightarrow> dotless a \<and> dotless b"
  by (auto simp: dotless_def)

lemma remove_dots_dotless: "dotless st \<Longrightarrow> dotless (remove_dots st segs)"
proof (induction st segs rule: remove_dots.induct)
  case (2 st s segs)
  have e: "dotless [[]]" by (simp add: dotless_def dots_single dots_double is_dot_simps)
  have b: "dotless (butlast st)" using 2(4) by (auto simp: dotless_def dest: in_set_butlastD)
  have "dotless [s]" if "\<not> single_dot s" "\<not> double_dot s" using that by (simp add: dotless_def)
  then show ?case using 2 e b by simp
qed simp

lemma remove_dots_slashless: "slashless st \<Longrightarrow> slashless segs \<Longrightarrow> slashless (remove_dots st segs)"
  by (induction st segs rule: remove_dots.induct) (auto simp: slashless_butlast)

lemma remove_dots_id: "dotless segs \<Longrightarrow> remove_dots st segs = st @ segs"
  by (induction segs arbitrary: st) (auto simp: dotless_def)

lemma remove_dots_nonempty: "segs \<noteq> [] \<Longrightarrow> remove_dots st segs \<noteq> []"
proof (induction st segs rule: remove_dots.induct)
  case (2 st s segs)
  then show ?case by (cases "segs = []") simp_all
qed simp

text \<open>The segments of a path that starts with a slash.\<close>

lemma segments_path: "segs \<noteq> [] \<Longrightarrow> slashless segs \<Longrightarrow> segments (tl (path_of segs)) = segs"
  using segments_slashless_id by (cases segs) auto

definition clean_path :: "bytes \<Rightarrow> bytes" where
  "clean_path p = path_of (remove_dots [] (segments (tl p)))"

lemma dedot_absolute:
  assumes "peek p = CHR ''/''" "2 \<le> length p"
  shows "dedotdotify plenty p = (0, Some (clean_path p))"
proof -
  have p: "path_of (segments (tl p)) = p" using assms(1) path_of_segments [of "tl p"] by (cases p) auto
  have "leading_dots p = Some p" using assms(1) by (cases p) (auto simp: leading_dots_def is_dot_simps split: list.splits)
  moreover have "dedot_loop plenty (length p + 1) [] p = Inr (clean_path p)"
    using dedot_loop_rule [of "[]" "segments (tl p)" "length p + 1"] segments_slashless p by (simp add: clean_path_def)
  moreover have "clean_path p \<noteq> []"
    using remove_dots_nonempty [OF segments_nonempty, of "[]" "tl p"] path_of_peek by (simp add: clean_path_def)
  ultimately show ?thesis using assms(2) by (simp add: dedotdotify_def)
qed

lemma clean_path_segments: "segments (tl (clean_path p)) = remove_dots [] (segments (tl p))"
  unfolding clean_path_def
  by (intro segments_path remove_dots_nonempty segments_nonempty remove_dots_slashless segments_slashless slashless_simps(1))

lemma clean_path_facts:
  assumes "peek p = CHR ''/''"
  shows "peek (clean_path p) = CHR ''/''" "dotless (segments (tl (clean_path p)))"
    "length (clean_path p) \<le> length p" "clean_path (clean_path p) = clean_path p"
proof -
  have p: "path_of (segments (tl p)) = p" using assms path_of_segments [of "tl p"] by (cases p) auto
  show d: "dotless (segments (tl (clean_path p)))"
    unfolding clean_path_segments by (rule remove_dots_dotless) (simp add: dotless_def)
  show "peek (clean_path p) = CHR ''/''"
    using remove_dots_nonempty [OF segments_nonempty, of "[]" "tl p"] path_of_peek by (simp add: clean_path_def)
  show "length (clean_path p) \<le> length p" using remove_dots_length [of "[]" "segments (tl p)"] p by (simp add: clean_path_def)
  show "clean_path (clean_path p) = clean_path p"
    using remove_dots_id [OF d, of "[]"] clean_path_segments [of p] by (simp add: clean_path_def [of "clean_path p"]) (simp add: clean_path_def)
qed

lemma dedot_memory:
  assumes "peek p = CHR ''/''" "2 \<le> length p"
  shows "dedotdotify mem p = (0, Some (clean_path p)) \<or> dedotdotify mem p = (1, None)"
  using dedot_absolute [OF assms] assms(2)
  by (auto simp: dedotdotify_def Let_def dest: dedot_loop_memory split: option.splits sum.splits if_splits)

section \<open>Properties\<close>

text \<open>
  C35: dot segments.  On a path of at least two bytes that starts with a slash,
  \<open>dedotdotify\<close> computes what RFC 3986, section 5.2.4, prescribes for its list of
  segments, a dot being spelt with a period or as \<open>%2e\<close>.  The buffer limit is never hit.
  The result starts with a slash, has no dot segment left in it, is no longer than the input,
  and is left alone by a second run.  When memory is short the function fails or returns the
  same result.
\<close>

theorem dedot_is_rfc3986:
  assumes "peek p = CHR ''/''" "2 \<le> length p"
  defines "q \<equiv> path_of (remove_dots [] (segments (tl p)))"
  shows "dedotdotify plenty p = (0, Some q)
     \<and> peek q = CHR ''/'' \<and> length q \<le> length p
     \<and> (\<forall>s. s \<in> set (segments (tl q)) \<longrightarrow> \<not> single_dot s \<and> \<not> double_dot s)
     \<and> (2 \<le> length q \<longrightarrow> dedotdotify plenty q = (0, Some q))
     \<and> (dedotdotify mem p = (0, Some q) \<or> dedotdotify mem p = (1, None))"
proof -
  have q: "q = clean_path p" by (simp add: q_def clean_path_def)
  note f = clean_path_facts [OF assms(1)]
  show ?thesis using dedot_memory [OF assms(1,2), of mem] dedot_absolute [OF assms(1,2)] dedot_absolute [OF f(1)] f
    by (simp add: q dotless_def)
qed

theorem dedot_is_rfc3986_witness:
  "dedotdotify plenty ''/a/b/%2e%2E/./c/..'' = (0, Some ''/a/'')
   \<and> (dedotdotify (\<lambda>n. n < 3) ''/a/b/%2e%2E/./c/..'' = (0, Some ''/a/'')
      \<or> dedotdotify (\<lambda>n. n < 3) ''/a/b/%2e%2E/./c/..'' = (1, None))"
  using dedot_is_rfc3986 [of "''/a/b/%2e%2E/./c/..''" "\<lambda>n. n < 3"]
  by (simp add: single_dot_def double_dot_def dot_spellings_def)

text \<open>
  On a path without a leading slash the function is not the rule: of several leading dot
  segments only the first is removed, and a segment that no slash precedes cannot be taken
  back.
\<close>

lemma dedot_relative_path:
  "dedotdotify plenty ''../../x'' = (0, Some ''../x'')"
  "dedotdotify plenty ''a/../b'' = (0, Some ''a/b'')"
  by code_simp+

end
