(* ===== verification/Url_Scheme.thy ===== *)
theory Url_Scheme
  imports Strcase
begin

unbundle bit_operations_syntax

text \<open>
  The URI schemes known to the library and the hash table that finds them:
  \<^verbatim>\<open>lib/protocol.c\<close> and the constants of \<^verbatim>\<open>lib/protocol.h\<close>.  Which schemes have an
  implementation (the field \<open>run\<close>) depends on how the library is built and is a parameter
  where it is used; the flags of \<open>smb\<close> are those of a build with libsmb2.
\<close>

section \<open>The schemes\<close>

definition PORT_FTP :: nat where "PORT_FTP = 21"
definition PORT_FTPS :: nat where "PORT_FTPS = 990"
definition PORT_TELNET :: nat where "PORT_TELNET = 23"
definition PORT_HTTP :: nat where "PORT_HTTP = 80"
definition PORT_HTTPS :: nat where "PORT_HTTPS = 443"
definition PORT_DICT :: nat where "PORT_DICT = 2628"
definition PORT_LDAP :: nat where "PORT_LDAP = 389"
definition PORT_LDAPS :: nat where "PORT_LDAPS = 636"
definition PORT_TFTP :: nat where "PORT_TFTP = 69"
definition PORT_SSH :: nat where "PORT_SSH = 22"
definition PORT_IMAP :: nat where "PORT_IMAP = 143"
definition PORT_IMAPS :: nat where "PORT_IMAPS = 993"
definition PORT_POP3 :: nat where "PORT_POP3 = 110"
definition PORT_POP3S :: nat where "PORT_POP3S = 995"
definition PORT_SMB :: nat where "PORT_SMB = 445"
definition PORT_SMBS :: nat where "PORT_SMBS = 445"
definition PORT_SMTP :: nat where "PORT_SMTP = 25"
definition PORT_SMTPS :: nat where "PORT_SMTPS = 465"
definition PORT_RTSP :: nat where "PORT_RTSP = 554"
definition PORT_GOPHER :: nat where "PORT_GOPHER = 70"
definition PORT_SOCKS :: nat where "PORT_SOCKS = 1080"
definition PORT_MQTT :: nat where "PORT_MQTT = 1883"
definition PORT_MQTTS :: nat where "PORT_MQTTS = 8883"
definition PORT_NFS :: nat where "PORT_NFS = 2049"

datatype curl_prot_t =
    CURLPROTO_HTTP
  | CURLPROTO_HTTPS
  | CURLPROTO_FTP
  | CURLPROTO_FTPS
  | CURLPROTO_SCP
  | CURLPROTO_SFTP
  | CURLPROTO_TELNET
  | CURLPROTO_LDAP
  | CURLPROTO_LDAPS
  | CURLPROTO_DICT
  | CURLPROTO_FILE
  | CURLPROTO_TFTP
  | CURLPROTO_IMAP
  | CURLPROTO_IMAPS
  | CURLPROTO_POP3
  | CURLPROTO_POP3S
  | CURLPROTO_SMTP
  | CURLPROTO_SMTPS
  | CURLPROTO_RTSP
  | CURLPROTO_RTMP
  | CURLPROTO_RTMPT
  | CURLPROTO_RTMPE
  | CURLPROTO_RTMPTE
  | CURLPROTO_RTMPS
  | CURLPROTO_RTMPTS
  | CURLPROTO_GOPHER
  | CURLPROTO_SMB
  | CURLPROTO_SMBS
  | CURLPROTO_MQTT
  | CURLPROTO_GOPHERS
  | CURLPROTO_WS
  | CURLPROTO_WSS
  | CURLPROTO_MQTTS
  | CURLPROTO_SOCKS
  | CURLPROTO_NFS

datatype protopt =
    PROTOPT_SSL
  | PROTOPT_DUAL
  | PROTOPT_CLOSEACTION
  | PROTOPT_DIRLOCK
  | PROTOPT_NONETWORK
  | PROTOPT_NEEDSPWD
  | PROTOPT_NOURLQUERY
  | PROTOPT_CREDSPERREQUEST
  | PROTOPT_ALPN
  | PROTOPT_URLOPTIONS
  | PROTOPT_PROXY_AS_HTTP
  | PROTOPT_WILDCARD
  | PROTOPT_USERPWDCTRL
  | PROTOPT_NOTCPPROXY
  | PROTOPT_SSL_REUSE
  | PROTOPT_CONN_REUSE
  | PROTOPT_NO_TRANSFER
  | PROTOPT_HTTP_PROXY_TUNNEL

record Curl_scheme =
  sc_name :: bytes
  sc_protocol :: curl_prot_t
  sc_family :: curl_prot_t
  sc_flags :: "protopt set"
  sc_defport :: nat

definition Curl_scheme_dict :: Curl_scheme where
  "Curl_scheme_dict =
     \<lparr>sc_name = ''dict'', sc_protocol = CURLPROTO_DICT, sc_family = CURLPROTO_DICT,
      sc_flags = {PROTOPT_NOURLQUERY}, sc_defport = PORT_DICT\<rparr>"

definition Curl_scheme_file :: Curl_scheme where
  "Curl_scheme_file =
     \<lparr>sc_name = ''file'', sc_protocol = CURLPROTO_FILE, sc_family = CURLPROTO_FILE,
      sc_flags = {PROTOPT_NONETWORK, PROTOPT_NOURLQUERY}, sc_defport = 0\<rparr>"

definition Curl_scheme_ftp :: Curl_scheme where
  "Curl_scheme_ftp =
     \<lparr>sc_name = ''ftp'', sc_protocol = CURLPROTO_FTP, sc_family = CURLPROTO_FTP,
      sc_flags = {PROTOPT_DUAL, PROTOPT_CLOSEACTION, PROTOPT_NEEDSPWD, PROTOPT_NOURLQUERY, PROTOPT_PROXY_AS_HTTP, PROTOPT_WILDCARD, PROTOPT_SSL_REUSE, PROTOPT_CONN_REUSE}, sc_defport = PORT_FTP\<rparr>"

definition Curl_scheme_ftps :: Curl_scheme where
  "Curl_scheme_ftps =
     \<lparr>sc_name = ''ftps'', sc_protocol = CURLPROTO_FTPS, sc_family = CURLPROTO_FTP,
      sc_flags = {PROTOPT_SSL, PROTOPT_DUAL, PROTOPT_CLOSEACTION, PROTOPT_NEEDSPWD, PROTOPT_NOURLQUERY, PROTOPT_WILDCARD, PROTOPT_CONN_REUSE}, sc_defport = PORT_FTPS\<rparr>"

definition Curl_scheme_gopher :: Curl_scheme where
  "Curl_scheme_gopher =
     \<lparr>sc_name = ''gopher'', sc_protocol = CURLPROTO_GOPHER, sc_family = CURLPROTO_GOPHER,
      sc_flags = {}, sc_defport = PORT_GOPHER\<rparr>"

definition Curl_scheme_gophers :: Curl_scheme where
  "Curl_scheme_gophers =
     \<lparr>sc_name = ''gophers'', sc_protocol = CURLPROTO_GOPHERS, sc_family = CURLPROTO_GOPHER,
      sc_flags = {PROTOPT_SSL}, sc_defport = PORT_GOPHER\<rparr>"

definition Curl_scheme_http :: Curl_scheme where
  "Curl_scheme_http =
     \<lparr>sc_name = ''http'', sc_protocol = CURLPROTO_HTTP, sc_family = CURLPROTO_HTTP,
      sc_flags = {PROTOPT_CREDSPERREQUEST, PROTOPT_USERPWDCTRL, PROTOPT_CONN_REUSE}, sc_defport = PORT_HTTP\<rparr>"

definition Curl_scheme_https :: Curl_scheme where
  "Curl_scheme_https =
     \<lparr>sc_name = ''https'', sc_protocol = CURLPROTO_HTTPS, sc_family = CURLPROTO_HTTP,
      sc_flags = {PROTOPT_SSL, PROTOPT_CREDSPERREQUEST, PROTOPT_ALPN, PROTOPT_USERPWDCTRL, PROTOPT_CONN_REUSE, PROTOPT_HTTP_PROXY_TUNNEL}, sc_defport = PORT_HTTPS\<rparr>"

definition Curl_scheme_imap :: Curl_scheme where
  "Curl_scheme_imap =
     \<lparr>sc_name = ''imap'', sc_protocol = CURLPROTO_IMAP, sc_family = CURLPROTO_IMAP,
      sc_flags = {PROTOPT_CLOSEACTION, PROTOPT_URLOPTIONS, PROTOPT_SSL_REUSE, PROTOPT_CONN_REUSE}, sc_defport = PORT_IMAP\<rparr>"

definition Curl_scheme_imaps :: Curl_scheme where
  "Curl_scheme_imaps =
     \<lparr>sc_name = ''imaps'', sc_protocol = CURLPROTO_IMAPS, sc_family = CURLPROTO_IMAP,
      sc_flags = {PROTOPT_CLOSEACTION, PROTOPT_SSL, PROTOPT_URLOPTIONS, PROTOPT_CONN_REUSE}, sc_defport = PORT_IMAPS\<rparr>"

definition Curl_scheme_ldap :: Curl_scheme where
  "Curl_scheme_ldap =
     \<lparr>sc_name = ''ldap'', sc_protocol = CURLPROTO_LDAP, sc_family = CURLPROTO_LDAP,
      sc_flags = {PROTOPT_SSL_REUSE}, sc_defport = PORT_LDAP\<rparr>"

definition Curl_scheme_ldaps :: Curl_scheme where
  "Curl_scheme_ldaps =
     \<lparr>sc_name = ''ldaps'', sc_protocol = CURLPROTO_LDAPS, sc_family = CURLPROTO_LDAP,
      sc_flags = {PROTOPT_SSL}, sc_defport = PORT_LDAPS\<rparr>"

definition Curl_scheme_mqtt :: Curl_scheme where
  "Curl_scheme_mqtt =
     \<lparr>sc_name = ''mqtt'', sc_protocol = CURLPROTO_MQTT, sc_family = CURLPROTO_MQTT,
      sc_flags = {}, sc_defport = PORT_MQTT\<rparr>"

definition Curl_scheme_mqtts :: Curl_scheme where
  "Curl_scheme_mqtts =
     \<lparr>sc_name = ''mqtts'', sc_protocol = CURLPROTO_MQTTS, sc_family = CURLPROTO_MQTT,
      sc_flags = {PROTOPT_SSL}, sc_defport = PORT_MQTTS\<rparr>"

definition Curl_scheme_nfs :: Curl_scheme where
  "Curl_scheme_nfs =
     \<lparr>sc_name = ''nfs'', sc_protocol = CURLPROTO_NFS, sc_family = CURLPROTO_NFS,
      sc_flags = {PROTOPT_NONETWORK, PROTOPT_NOURLQUERY}, sc_defport = PORT_NFS\<rparr>"

definition Curl_scheme_pop3 :: Curl_scheme where
  "Curl_scheme_pop3 =
     \<lparr>sc_name = ''pop3'', sc_protocol = CURLPROTO_POP3, sc_family = CURLPROTO_POP3,
      sc_flags = {PROTOPT_CLOSEACTION, PROTOPT_NOURLQUERY, PROTOPT_URLOPTIONS, PROTOPT_SSL_REUSE, PROTOPT_CONN_REUSE}, sc_defport = PORT_POP3\<rparr>"

definition Curl_scheme_pop3s :: Curl_scheme where
  "Curl_scheme_pop3s =
     \<lparr>sc_name = ''pop3s'', sc_protocol = CURLPROTO_POP3S, sc_family = CURLPROTO_POP3,
      sc_flags = {PROTOPT_CLOSEACTION, PROTOPT_SSL, PROTOPT_NOURLQUERY, PROTOPT_URLOPTIONS, PROTOPT_CONN_REUSE}, sc_defport = PORT_POP3S\<rparr>"

definition Curl_scheme_rtsp :: Curl_scheme where
  "Curl_scheme_rtsp =
     \<lparr>sc_name = ''rtsp'', sc_protocol = CURLPROTO_RTSP, sc_family = CURLPROTO_RTSP,
      sc_flags = {PROTOPT_CONN_REUSE}, sc_defport = PORT_RTSP\<rparr>"

definition Curl_scheme_sftp :: Curl_scheme where
  "Curl_scheme_sftp =
     \<lparr>sc_name = ''sftp'', sc_protocol = CURLPROTO_SFTP, sc_family = CURLPROTO_SFTP,
      sc_flags = {PROTOPT_DIRLOCK, PROTOPT_CLOSEACTION, PROTOPT_NOURLQUERY, PROTOPT_CONN_REUSE}, sc_defport = PORT_SSH\<rparr>"

definition Curl_scheme_scp :: Curl_scheme where
  "Curl_scheme_scp =
     \<lparr>sc_name = ''scp'', sc_protocol = CURLPROTO_SCP, sc_family = CURLPROTO_SCP,
      sc_flags = {PROTOPT_DIRLOCK, PROTOPT_CLOSEACTION, PROTOPT_NOURLQUERY, PROTOPT_CONN_REUSE}, sc_defport = PORT_SSH\<rparr>"

definition Curl_scheme_smb :: Curl_scheme where
  "Curl_scheme_smb =
     \<lparr>sc_name = ''smb'', sc_protocol = CURLPROTO_SMB, sc_family = CURLPROTO_SMB,
      sc_flags = {PROTOPT_NONETWORK}, sc_defport = PORT_SMB\<rparr>"

definition Curl_scheme_smbs :: Curl_scheme where
  "Curl_scheme_smbs =
     \<lparr>sc_name = ''smbs'', sc_protocol = CURLPROTO_SMBS, sc_family = CURLPROTO_SMB,
      sc_flags = {PROTOPT_SSL}, sc_defport = PORT_SMBS\<rparr>"

definition Curl_scheme_smtp :: Curl_scheme where
  "Curl_scheme_smtp =
     \<lparr>sc_name = ''smtp'', sc_protocol = CURLPROTO_SMTP, sc_family = CURLPROTO_SMTP,
      sc_flags = {PROTOPT_CLOSEACTION, PROTOPT_NOURLQUERY, PROTOPT_URLOPTIONS, PROTOPT_SSL_REUSE, PROTOPT_CONN_REUSE}, sc_defport = PORT_SMTP\<rparr>"

definition Curl_scheme_smtps :: Curl_scheme where
  "Curl_scheme_smtps =
     \<lparr>sc_name = ''smtps'', sc_protocol = CURLPROTO_SMTPS, sc_family = CURLPROTO_SMTP,
      sc_flags = {PROTOPT_CLOSEACTION, PROTOPT_SSL, PROTOPT_NOURLQUERY, PROTOPT_URLOPTIONS, PROTOPT_CONN_REUSE}, sc_defport = PORT_SMTPS\<rparr>"

definition Curl_scheme_socks :: Curl_scheme where
  "Curl_scheme_socks =
     \<lparr>sc_name = ''socks'', sc_protocol = CURLPROTO_SOCKS, sc_family = CURLPROTO_SOCKS,
      sc_flags = {PROTOPT_NO_TRANSFER}, sc_defport = PORT_SOCKS\<rparr>"

definition Curl_scheme_socks4 :: Curl_scheme where
  "Curl_scheme_socks4 =
     \<lparr>sc_name = ''socks4'', sc_protocol = CURLPROTO_SOCKS, sc_family = CURLPROTO_SOCKS,
      sc_flags = {PROTOPT_NO_TRANSFER}, sc_defport = PORT_SOCKS\<rparr>"

definition Curl_scheme_socks4a :: Curl_scheme where
  "Curl_scheme_socks4a =
     \<lparr>sc_name = ''socks4a'', sc_protocol = CURLPROTO_SOCKS, sc_family = CURLPROTO_SOCKS,
      sc_flags = {PROTOPT_NO_TRANSFER}, sc_defport = PORT_SOCKS\<rparr>"

definition Curl_scheme_socks5 :: Curl_scheme where
  "Curl_scheme_socks5 =
     \<lparr>sc_name = ''socks5'', sc_protocol = CURLPROTO_SOCKS, sc_family = CURLPROTO_SOCKS,
      sc_flags = {PROTOPT_NO_TRANSFER}, sc_defport = PORT_SOCKS\<rparr>"

definition Curl_scheme_socks5h :: Curl_scheme where
  "Curl_scheme_socks5h =
     \<lparr>sc_name = ''socks5h'', sc_protocol = CURLPROTO_SOCKS, sc_family = CURLPROTO_SOCKS,
      sc_flags = {PROTOPT_NO_TRANSFER}, sc_defport = PORT_SOCKS\<rparr>"

definition Curl_scheme_telnet :: Curl_scheme where
  "Curl_scheme_telnet =
     \<lparr>sc_name = ''telnet'', sc_protocol = CURLPROTO_TELNET, sc_family = CURLPROTO_TELNET,
      sc_flags = {PROTOPT_NOURLQUERY}, sc_defport = PORT_TELNET\<rparr>"

definition Curl_scheme_tftp :: Curl_scheme where
  "Curl_scheme_tftp =
     \<lparr>sc_name = ''tftp'', sc_protocol = CURLPROTO_TFTP, sc_family = CURLPROTO_TFTP,
      sc_flags = {PROTOPT_NOTCPPROXY, PROTOPT_NOURLQUERY}, sc_defport = PORT_TFTP\<rparr>"

definition Curl_scheme_ws :: Curl_scheme where
  "Curl_scheme_ws =
     \<lparr>sc_name = ''ws'', sc_protocol = CURLPROTO_WS, sc_family = CURLPROTO_HTTP,
      sc_flags = {PROTOPT_CREDSPERREQUEST, PROTOPT_USERPWDCTRL, PROTOPT_HTTP_PROXY_TUNNEL}, sc_defport = PORT_HTTP\<rparr>"

definition Curl_scheme_wss :: Curl_scheme where
  "Curl_scheme_wss =
     \<lparr>sc_name = ''wss'', sc_protocol = CURLPROTO_WSS, sc_family = CURLPROTO_HTTP,
      sc_flags = {PROTOPT_SSL, PROTOPT_CREDSPERREQUEST, PROTOPT_USERPWDCTRL, PROTOPT_HTTP_PROXY_TUNNEL}, sc_defport = PORT_HTTPS\<rparr>"

lemmas scheme_defs =
  Curl_scheme_dict_def Curl_scheme_file_def Curl_scheme_ftp_def
  Curl_scheme_ftps_def Curl_scheme_gopher_def Curl_scheme_gophers_def
  Curl_scheme_http_def Curl_scheme_https_def Curl_scheme_imap_def
  Curl_scheme_imaps_def Curl_scheme_ldap_def Curl_scheme_ldaps_def
  Curl_scheme_mqtt_def Curl_scheme_mqtts_def Curl_scheme_nfs_def
  Curl_scheme_pop3_def Curl_scheme_pop3s_def Curl_scheme_rtsp_def
  Curl_scheme_sftp_def Curl_scheme_scp_def Curl_scheme_smb_def
  Curl_scheme_smbs_def Curl_scheme_smtp_def Curl_scheme_smtps_def
  Curl_scheme_socks_def Curl_scheme_socks4_def Curl_scheme_socks4a_def
  Curl_scheme_socks5_def Curl_scheme_socks5h_def Curl_scheme_telnet_def
  Curl_scheme_tftp_def Curl_scheme_ws_def Curl_scheme_wss_def

text \<open>The schemes in the order of the file.\<close>

definition known_schemes :: "Curl_scheme list" where
  "known_schemes =
     [Curl_scheme_dict, Curl_scheme_file, Curl_scheme_ftp,
      Curl_scheme_ftps, Curl_scheme_gopher, Curl_scheme_gophers,
      Curl_scheme_http, Curl_scheme_https, Curl_scheme_imap,
      Curl_scheme_imaps, Curl_scheme_ldap, Curl_scheme_ldaps,
      Curl_scheme_mqtt, Curl_scheme_mqtts, Curl_scheme_nfs,
      Curl_scheme_pop3, Curl_scheme_pop3s, Curl_scheme_rtsp,
      Curl_scheme_sftp, Curl_scheme_scp, Curl_scheme_smb,
      Curl_scheme_smbs, Curl_scheme_smtp, Curl_scheme_smtps,
      Curl_scheme_socks, Curl_scheme_socks4, Curl_scheme_socks4a,
      Curl_scheme_socks5, Curl_scheme_socks5h, Curl_scheme_telnet,
      Curl_scheme_tftp, Curl_scheme_ws, Curl_scheme_wss]"

section \<open>The table\<close>

definition all_schemes :: "Curl_scheme option list" where
  "all_schemes =
     [None, Some Curl_scheme_pop3, None,
      Some Curl_scheme_smtps, Some Curl_scheme_socks, Some Curl_scheme_socks4,
      Some Curl_scheme_socks5, Some Curl_scheme_nfs, None,
      Some Curl_scheme_gophers, Some Curl_scheme_ws, Some Curl_scheme_sftp,
      Some Curl_scheme_socks4a, Some Curl_scheme_scp, Some Curl_scheme_rtsp,
      Some Curl_scheme_dict, None, None,
      Some Curl_scheme_gopher, None, None,
      None, Some Curl_scheme_wss, None,
      Some Curl_scheme_smb, None, Some Curl_scheme_ldap,
      Some Curl_scheme_ldaps, Some Curl_scheme_imap, None,
      None, None, Some Curl_scheme_imaps,
      Some Curl_scheme_https, Some Curl_scheme_tftp, Some Curl_scheme_telnet,
      None, None, None,
      Some Curl_scheme_file, Some Curl_scheme_smtp, None,
      None, None, None,
      None, None, None,
      Some Curl_scheme_ftp, Some Curl_scheme_mqtt, None,
      Some Curl_scheme_socks5h, Some Curl_scheme_http, Some Curl_scheme_pop3s,
      None, Some Curl_scheme_mqtts, None,
      Some Curl_scheme_smbs, Some Curl_scheme_ftps]"

text \<open>The hash is an \<open>unsigned int\<close>, to which the signed \<open>char\<close> is extended.\<close>

fun scheme_hash :: "32 word \<Rightarrow> bytes \<Rightarrow> 32 word" where
  "scheme_hash c [] = c"
| "scheme_hash c (x # s) = scheme_hash (push_bit 5 c + scast (of_char (Curl_raw_tolower x) :: 8 word)) s"

definition Curl_getn_scheme :: "bytes \<Rightarrow> nat \<Rightarrow> Curl_scheme option" where
  "Curl_getn_scheme scheme len =
     (if len \<noteq> 0 \<and> len \<le> 7 then
        (case all_schemes ! unat (scheme_hash 443 (take len scheme) mod 59) of
           None \<Rightarrow> None
         | Some h \<Rightarrow>
             if curl_strnequal (Some scheme) (Some (sc_name h)) len \<and> length (sc_name h) \<le> len
             then Some h else None)
      else None)"

definition Curl_get_scheme :: "bytes \<Rightarrow> Curl_scheme option" where
  "Curl_get_scheme scheme = Curl_getn_scheme scheme (length scheme)"

section \<open>The table is complete and free of collisions\<close>

definition lower :: "bytes \<Rightarrow> bytes" where
  "lower s = map Curl_raw_tolower s"

lemma tolower_toupper [simp]: "Curl_raw_tolower (Curl_raw_toupper c) = Curl_raw_tolower c"
proof -
  have "code_of (Curl_raw_tolower (Curl_raw_toupper c)) = code_of (Curl_raw_tolower c)"
    unfolding toupper_code tolower_code ISLOWER_def ISUPPER_def char_le_code by (auto simp: toupper_code ISLOWER_def char_le_code)
  then show ?thesis by simp
qed

lemma tolower_idem [simp]: "Curl_raw_tolower (Curl_raw_tolower c) = Curl_raw_tolower c"
  by (metis tolower_toupper toupper_tolower)

lemma lower_idem [simp]: "lower (lower s) = lower s"
  by (simp add: lower_def)

lemma length_lower [simp]: "length (lower s) = length s"
  by (simp add: lower_def)

lemma fold_case_lower:
  assumes "NUL \<notin> set a" "NUL \<notin> set b"
  shows "fold_case a = fold_case b \<longleftrightarrow> lower a = lower b"
proof -
  have c: "fold_case s = map Curl_raw_toupper s" if "NUL \<notin> set s" for s
  proof -
    have "cstr s = s" using that by (induction s) auto
    then show ?thesis by (simp add: fold_case_def)
  qed
  have "lower a = lower b" if "map Curl_raw_toupper a = map Curl_raw_toupper b"
    using arg_cong [OF that, of "map Curl_raw_tolower"] by (simp add: lower_def comp_def)
  moreover have "map Curl_raw_toupper a = map Curl_raw_toupper b" if "lower a = lower b"
    using arg_cong [OF that, of "map Curl_raw_toupper"] by (simp add: lower_def comp_def)
  ultimately show ?thesis using assms by (auto simp: c)
qed

lemma scheme_hash_lower: "scheme_hash c (lower s) = scheme_hash c s"
  by (induction s arbitrary: c) (simp_all add: lower_def)

lemma sc_name_simps:
  "sc_name Curl_scheme_dict = ''dict''"
  "sc_name Curl_scheme_file = ''file''"
  "sc_name Curl_scheme_ftp = ''ftp''"
  "sc_name Curl_scheme_ftps = ''ftps''"
  "sc_name Curl_scheme_gopher = ''gopher''"
  "sc_name Curl_scheme_gophers = ''gophers''"
  "sc_name Curl_scheme_http = ''http''"
  "sc_name Curl_scheme_https = ''https''"
  "sc_name Curl_scheme_imap = ''imap''"
  "sc_name Curl_scheme_imaps = ''imaps''"
  "sc_name Curl_scheme_ldap = ''ldap''"
  "sc_name Curl_scheme_ldaps = ''ldaps''"
  "sc_name Curl_scheme_mqtt = ''mqtt''"
  "sc_name Curl_scheme_mqtts = ''mqtts''"
  "sc_name Curl_scheme_nfs = ''nfs''"
  "sc_name Curl_scheme_pop3 = ''pop3''"
  "sc_name Curl_scheme_pop3s = ''pop3s''"
  "sc_name Curl_scheme_rtsp = ''rtsp''"
  "sc_name Curl_scheme_sftp = ''sftp''"
  "sc_name Curl_scheme_scp = ''scp''"
  "sc_name Curl_scheme_smb = ''smb''"
  "sc_name Curl_scheme_smbs = ''smbs''"
  "sc_name Curl_scheme_smtp = ''smtp''"
  "sc_name Curl_scheme_smtps = ''smtps''"
  "sc_name Curl_scheme_socks = ''socks''"
  "sc_name Curl_scheme_socks4 = ''socks4''"
  "sc_name Curl_scheme_socks4a = ''socks4a''"
  "sc_name Curl_scheme_socks5 = ''socks5''"
  "sc_name Curl_scheme_socks5h = ''socks5h''"
  "sc_name Curl_scheme_telnet = ''telnet''"
  "sc_name Curl_scheme_tftp = ''tftp''"
  "sc_name Curl_scheme_ws = ''ws''"
  "sc_name Curl_scheme_wss = ''wss''"
  by (simp_all add: scheme_defs)

lemma tolower_id: "\<not> ISUPPER c \<Longrightarrow> Curl_raw_tolower c = c"
proof -
  assume "\<not> ISUPPER c"
  then have "code_of (Curl_raw_tolower c) = code_of c" by (simp add: tolower_code)
  then show ?thesis by simp
qed

text \<open>The table is checked scheme by scheme, by evaluation of the hash on the names.\<close>

definition well_placed :: "Curl_scheme \<Rightarrow> bool" where
  "well_placed h \<longleftrightarrow>
     map_option sc_name (all_schemes ! unat (scheme_hash 443 (sc_name h) mod 59)) = Some (sc_name h)
     \<and> lower (sc_name h) = sc_name h \<and> sc_name h \<noteq> [] \<and> length (sc_name h) \<le> 7 \<and> NUL \<notin> set (sc_name h)"

lemma schemes_well_placed: "list_all well_placed known_schemes"
  by (simp add: known_schemes_def well_placed_def sc_name_simps all_schemes_def lower_def tolower_id
      ISUPPER_def char_le_code push_bit_eq_mult)

lemma scheme_names: "distinct (map sc_name known_schemes)"
  by (simp add: known_schemes_def sc_name_simps)

lemma all_schemes_known: "set all_schemes \<subseteq> {None} \<union> Some ` set known_schemes"
  by (simp add: all_schemes_def known_schemes_def)

lemma table_known: "all_schemes ! unat (n mod 59) = Some h \<Longrightarrow> h \<in> set known_schemes" for n :: "32 word"
proof -
  assume h: "all_schemes ! unat (n mod 59) = Some h"
  have "unat (n mod 59) < length all_schemes" by (simp add: all_schemes_def unat_mod)
  then have "Some h \<in> set all_schemes" using h by (metis nth_mem)
  then show ?thesis using all_schemes_known by auto
qed

lemma known_scheme:
  assumes "h \<in> set known_schemes"
  shows "lower (sc_name h) = sc_name h" "sc_name h \<noteq> []" "length (sc_name h) \<le> 7" "NUL \<notin> set (sc_name h)"
    "all_schemes ! unat (scheme_hash 443 (sc_name h) mod 59) = Some h"
proof -
  have w: "well_placed h" using schemes_well_placed assms by (simp add: list_all_iff)
  then show "lower (sc_name h) = sc_name h" "sc_name h \<noteq> []" "length (sc_name h) \<le> 7" "NUL \<notin> set (sc_name h)"
    by (simp_all add: well_placed_def)
  obtain g where g: "all_schemes ! unat (scheme_hash 443 (sc_name h) mod 59) = Some g" "sc_name g = sc_name h"
    using w by (auto simp: well_placed_def)
  have "g \<in> set known_schemes" using table_known [OF g(1)] .
  then have "g = h" using g(2) assms scheme_names by (simp add: distinct_map inj_on_def)
  then show "all_schemes ! unat (scheme_hash 443 (sc_name h) mod 59) = Some h" using g(1) by simp
qed

lemma cstr_id: "NUL \<notin> set s \<Longrightarrow> cstr s = s"
  by (induction s) auto

lemma strnequal_names:
  assumes "NUL \<notin> set s" "NUL \<notin> set t" "length t \<le> length s"
  shows "curl_strnequal (Some s) (Some t) (length s) \<longleftrightarrow> lower s = lower t"
  using fold_case_lower [OF assms(1,2)] assms
  by (simp add: curl_strnequal_def ncasecompare_eq fold_case_def cstr_id)

lemma get_scheme_iff:
  assumes "NUL \<notin> set s"
  shows "Curl_get_scheme s = Some h \<longleftrightarrow> h \<in> set known_schemes \<and> sc_name h = lower s"
proof
  assume l: "Curl_get_scheme s = Some h"
  then have t: "all_schemes ! unat (scheme_hash 443 s mod 59) = Some h"
      "curl_strnequal (Some s) (Some (sc_name h)) (length s)" "length (sc_name h) \<le> length s"
    by (auto simp: Curl_get_scheme_def Curl_getn_scheme_def split: if_splits option.splits)
  have h: "h \<in> set known_schemes" using table_known [OF t(1)] .
  note k = known_scheme [OF h]
  show "h \<in> set known_schemes \<and> sc_name h = lower s"
    using h strnequal_names [OF assms k(4) t(3)] t(2) k(1) by simp
next
  assume r: "h \<in> set known_schemes \<and> sc_name h = lower s"
  then have h: "h \<in> set known_schemes" and n: "sc_name h = lower s" by simp_all
  note k = known_scheme [OF h]
  have len: "length (sc_name h) = length s" using n by simp
  have "all_schemes ! unat (scheme_hash 443 s mod 59) = Some h" using k(5) n scheme_hash_lower by simp
  moreover have "curl_strnequal (Some s) (Some (sc_name h)) (length s)"
    using strnequal_names [OF assms k(4)] len n by simp
  ultimately show "Curl_get_scheme s = Some h"
    using k(2,3) len by (auto simp: Curl_get_scheme_def Curl_getn_scheme_def)
qed

section \<open>Properties\<close>

text \<open>
  C33: the hash table of schemes is a search through the list of schemes.  For every name,
  in any mix of upper and lower case, \<open>Curl_get_scheme\<close> returns the one scheme of the
  library whose name it is, and nothing for any other name: the table of 59 slots has every
  scheme, each where its hash says, and no collision hides one.
\<close>

theorem scheme_lookup_exact:
  assumes "NUL \<notin> set s"
  shows "Curl_get_scheme s = find (\<lambda>h. sc_name h = map Curl_raw_tolower s) known_schemes
     \<and> distinct (map sc_name known_schemes)"
proof -
  have "Curl_get_scheme s = find (\<lambda>h. sc_name h = lower s) known_schemes"
  proof (cases "find (\<lambda>h. sc_name h = lower s) known_schemes")
    case None
    then have "Curl_get_scheme s \<noteq> Some h" for h
      using get_scheme_iff [OF assms, of h] by (auto simp: find_None_iff)
    then show ?thesis using None by (cases "Curl_get_scheme s") auto
  next
    case (Some h)
    then have "h \<in> set known_schemes \<and> sc_name h = lower s" by (auto simp: find_Some_iff)
    then show ?thesis using get_scheme_iff [OF assms, of h] Some by simp
  qed
  then show ?thesis using scheme_names by (simp add: lower_def)
qed

theorem scheme_lookup_exact_witness:
  "Curl_get_scheme ''HTTPs'' = find (\<lambda>h. sc_name h = map Curl_raw_tolower ''HTTPs'') known_schemes
   \<and> Curl_get_scheme ''gurl'' = find (\<lambda>h. sc_name h = map Curl_raw_tolower ''gurl'') known_schemes"
  using scheme_lookup_exact [of "''HTTPs''"] scheme_lookup_exact [of "''gurl''"] by simp

end
