(* ===== verification/Inet_Addr.thy ===== *)
theory Inet_Addr
  imports Mprintf
begin

unbundle bit_operations_syntax

text \<open>
  Textual and binary IP addresses: \<^verbatim>\<open>lib/curlx/inet_pton.c\<close> and
  \<^verbatim>\<open>lib/curlx/inet_ntop.c\<close>.  A binary address is the list of its bytes, each a number below
  256; the \<open>tmp\<close> array of the parser is a list of sixteen bytes and its pointers are
  indices into it.  \<open>None\<close> is the return value 0 of a parser and NULL of a printer.
  The main result is that every IPv6 address that is printed is read back as itself,
  with zero runs compressed and IPv4 addresses embedded.
\<close>

section \<open>Reading\<close>

text \<open>\<open>tp\<close> points at \<open>cur\<close>, the octets before it are \<open>done\<close>.\<close>

fun pton4_loop :: "bytes \<Rightarrow> bool \<Rightarrow> nat \<Rightarrow> nat list \<Rightarrow> nat \<Rightarrow> nat list option" where
  "pton4_loop [] saw_digit octets done cur = (if octets < 4 then None else Some (done @ [cur]))"
| "pton4_loop (ch # src) saw_digit octets done cur =
     (if ISDIGIT ch then
        (let val = cur * 10 + (code_of ch - code_of CHR ''0'') in
         if saw_digit \<and> cur = 0 then None
         else if val > 255 then None
         else if \<not> saw_digit then
           (if octets + 1 > 4 then None else pton4_loop src True (octets + 1) done val)
         else pton4_loop src saw_digit octets done val)
      else if ch = CHR ''.'' \<and> saw_digit then
        (if octets = 4 then None else pton4_loop src False octets (done @ [cur]) 0)
      else None)"

definition inet_pton4 :: "bytes \<Rightarrow> nat list option" where
  "inet_pton4 src = pton4_loop src False 0 [] 0"

definition IN6ADDRSZ :: nat where "IN6ADDRSZ = 16"
definition INADDRSZ :: nat where "INADDRSZ = 4"
definition INT16SZ :: nat where "INT16SZ = 2"

record pton6 =
  p6_tmp :: "nat list"
  p6_tp :: nat
  p6_colonp :: "nat option"
  p6_curtok :: bytes
  p6_saw_xdigit :: nat
  p6_val :: nat

text \<open>Storing a group of sixteen bits at \<open>tp\<close>.\<close>

definition p6_store_group :: "pton6 \<Rightarrow> pton6 option" where
  "p6_store_group s =
     (if p6_tp s + INT16SZ > IN6ADDRSZ then None
      else Some (s\<lparr>p6_tmp := (p6_tmp s)[p6_tp s := drop_bit 8 (p6_val s) AND 0xff,
                                       Suc (p6_tp s) := p6_val s AND 0xff],
                   p6_tp := p6_tp s + 2\<rparr>))"

fun pton6_loop :: "bytes \<Rightarrow> pton6 \<Rightarrow> pton6 option" where
  "pton6_loop [] s = Some s"
| "pton6_loop (ch # src) s =
     (if ISXDIGIT ch then
        (let s' = s\<lparr>p6_val := push_bit 4 (p6_val s) OR nat (curlx_hexval ch),
                    p6_saw_xdigit := p6_saw_xdigit s + 1\<rparr> in
         if p6_saw_xdigit s' > 4 then None else pton6_loop src s')
      else if ch = CHR '':'' then
        (let s' = s\<lparr>p6_curtok := src\<rparr> in
         if p6_saw_xdigit s' = 0 then
           (if p6_colonp s' \<noteq> None then None else pton6_loop src (s'\<lparr>p6_colonp := Some (p6_tp s')\<rparr>))
         else
           (case p6_store_group s' of
              None \<Rightarrow> None
            | Some s'' \<Rightarrow> pton6_loop src (s''\<lparr>p6_saw_xdigit := 0, p6_val := 0\<rparr>)))
      else if ch = CHR ''.'' \<and> p6_tp s + INADDRSZ \<le> IN6ADDRSZ then
        (case inet_pton4 (p6_curtok s) of
           None \<Rightarrow> None
         | Some dst \<Rightarrow>
             Some (s\<lparr>p6_tmp := take (p6_tp s) (p6_tmp s) @ dst @ drop (p6_tp s + INADDRSZ) (p6_tmp s),
                     p6_tp := p6_tp s + INADDRSZ, p6_saw_xdigit := 0\<rparr>))
      else None)"

text \<open>The shift by hand: the groups after the gap move to the end of the array.\<close>

fun shift_loop :: "nat list \<Rightarrow> nat \<Rightarrow> nat \<Rightarrow> nat list \<Rightarrow> nat list" where
  "shift_loop [] colonp n tmp = tmp"
| "shift_loop (i # is) colonp n tmp =
     shift_loop is colonp n (tmp[IN6ADDRSZ - i := tmp ! (colonp + n - i), colonp + n - i := 0])"

text \<open>What follows the loop: the last group, and the gap.\<close>

definition pton6_end :: "pton6 \<Rightarrow> nat list option" where
  "pton6_end st =
     (case (if p6_saw_xdigit st \<noteq> 0 then p6_store_group st else Some st) of
        None \<Rightarrow> None
      | Some s \<Rightarrow>
          (case p6_colonp s of
             Some colonp \<Rightarrow>
               if p6_tp s = IN6ADDRSZ then None
               else (let n = p6_tp s - colonp in Some (shift_loop [1..<n + 1] colonp n (p6_tmp s)))
           | None \<Rightarrow> if p6_tp s \<noteq> IN6ADDRSZ then None else Some (p6_tmp s)))"

definition inet_pton6 :: "bytes \<Rightarrow> nat list option" where
  "inet_pton6 src =
     (if peek src = CHR '':'' \<and> peek (drop 1 src) \<noteq> CHR '':'' then None
      else
        (let src' = (if peek src = CHR '':'' then drop 1 src else src) in
         case pton6_loop src' \<lparr>p6_tmp = replicate IN6ADDRSZ 0, p6_tp = 0, p6_colonp = None,
                               p6_curtok = src', p6_saw_xdigit = 0, p6_val = 0\<rparr> of
           None \<Rightarrow> None
         | Some s \<Rightarrow> pton6_end s))"

datatype af = AF_INET | AF_INET6

definition curlx_inet_pton :: "af \<Rightarrow> bytes \<Rightarrow> nat list option" where
  "curlx_inet_pton f src = (case f of AF_INET \<Rightarrow> inet_pton4 src | AF_INET6 \<Rightarrow> inet_pton6 src)"

section \<open>Printing\<close>

text \<open>The conversion \<open>%d\<close>.\<close>

definition fmt_d :: mproperty where
  "fmt_d = \<lparr>mp_width = 0, mp_prec = -1, mp_flags = {}\<rparr>"

definition print_d :: "nat \<Rightarrow> bytes" where
  "print_d n = out_number fmt_d n (int n)"

definition inet_ntop4 :: "nat list \<Rightarrow> nat \<Rightarrow> bytes option" where
  "inet_ntop4 src sz =
     (let tmp = fst (snprintf_bytes 16
            (print_d (src ! 0 AND 0xff) @ ''.'' @ print_d (src ! 1 AND 0xff) @ ''.'' @
             print_d (src ! 2 AND 0xff) @ ''.'' @ print_d (src ! 3 AND 0xff)));
          len = length tmp
      in if len = 0 \<or> len \<ge> sz then None else Some tmp)"

definition addr_words :: "nat list \<Rightarrow> nat list" where
  "addr_words src = map (\<lambda>k. push_bit 8 (src ! (2 * k)) OR src ! (2 * k + 1)) [0..<8]"

text \<open>A run of zero groups; a base of -1 is \<open>None\<close>.\<close>

type_synonym run = "(nat \<times> nat) option"

definition better_run :: "run \<Rightarrow> run \<Rightarrow> run" where
  "better_run cur best =
     (case cur of
        None \<Rightarrow> best
      | Some (cb, cl) \<Rightarrow> (case best of None \<Rightarrow> cur | Some (bb, bl) \<Rightarrow> if cl > bl then cur else best))"

fun run_scan :: "nat list \<Rightarrow> nat \<Rightarrow> run \<Rightarrow> run \<Rightarrow> run \<times> run" where
  "run_scan [] i cur best = (cur, best)"
| "run_scan (w # ws) i cur best =
     (if w = 0 then
        run_scan ws (Suc i) (case cur of None \<Rightarrow> Some (i, 1) | Some (b, l) \<Rightarrow> Some (b, l + 1)) best
      else run_scan ws (Suc i) None (better_run cur best))"

definition best_run :: "nat list \<Rightarrow> run" where
  "best_run ws =
     (case run_scan ws 0 None None of
        (cur, best) \<Rightarrow>
          (case better_run cur best of
             None \<Rightarrow> None
           | Some (b, l) \<Rightarrow> if l < 2 then None else Some (b, l)))"

definition ntop6_group :: "nat \<Rightarrow> bytes" where
  "ntop6_group w =
     (if w AND 0xf000 \<noteq> 0 then [Curl_ldigits ! drop_bit 12 (w AND 0xf000)] else [])
     @ (if w AND 0xff00 \<noteq> 0 then [Curl_ldigits ! drop_bit 8 (w AND 0x0f00)] else [])
     @ (if w AND 0xfff0 \<noteq> 0 then [Curl_ldigits ! drop_bit 4 (w AND 0x00f0)] else [])
     @ [Curl_ldigits ! (w AND 0x000f)]"

fun ntop6_loop :: "nat list \<Rightarrow> nat list \<Rightarrow> run \<Rightarrow> nat list \<Rightarrow> bytes \<Rightarrow> bytes option" where
  "ntop6_loop src ws best [] tp = Some tp"
| "ntop6_loop src ws best (i # is) tp =
     (case best of
        Some (b, l) \<Rightarrow>
          if b \<le> i \<and> i < b + l then ntop6_loop src ws best is (if i = b then tp @ '':'' else tp)
          else
            (let tp' = (if i \<noteq> 0 then tp @ '':'' else tp) in
             if i = 6 \<and> b = 0 \<and> (l = 6 \<or> l = 5 \<and> ws ! 5 = 0xffff) then
               (case inet_ntop4 (drop 12 src) (46 - length tp') of
                  None \<Rightarrow> None
                | Some s \<Rightarrow> Some (tp' @ s))
             else ntop6_loop src ws best is (tp' @ ntop6_group (ws ! i)))
      | None \<Rightarrow> ntop6_loop src ws best is ((if i \<noteq> 0 then tp @ '':'' else tp) @ ntop6_group (ws ! i)))"

definition inet_ntop6 :: "nat list \<Rightarrow> nat \<Rightarrow> bytes option" where
  "inet_ntop6 src sz =
     (let ws = addr_words src; best = best_run ws in
      case ntop6_loop src ws best [0..<8] [] of
        None \<Rightarrow> None
      | Some tp \<Rightarrow>
          (let tp' = (case best of
                        Some (b, l) \<Rightarrow> if b + l = 8 then tp @ '':'' else tp
                      | None \<Rightarrow> tp) in
           if length tp' \<ge> sz then None else Some tp'))"

definition curlx_inet_ntop :: "af \<Rightarrow> nat list \<Rightarrow> nat \<Rightarrow> bytes option" where
  "curlx_inet_ntop f src sz =
     (case f of AF_INET \<Rightarrow> inet_ntop4 src sz | AF_INET6 \<Rightarrow> inet_ntop6 src sz)"

section \<open>Decimal octets\<close>

abbreviation dg :: "nat \<Rightarrow> char" where
  "dg n \<equiv> char_of (48 + n)"

lemma dg:
  assumes "n < 10"
  shows "code_of (dg n) = 48 + n" "ISDIGIT (dg n)" "ISXDIGIT (dg n)" "curlx_hexval (dg n) = int n"
proof -
  show c: "code_of (dg n) = 48 + n" using assms by simp
  show x: "ISXDIGIT (dg n)" using assms by (simp add: ISXDIGIT_code)
  show "ISDIGIT (dg n)" using assms by (simp add: ISDIGIT_code)
  show "curlx_hexval (dg n) = int n" using hexval_xdigit [OF x] c assms by simp
qed

lemma dg_dot: "ISDIGIT c \<Longrightarrow> c \<noteq> CHR ''.''"
  by (auto simp: ISDIGIT_code)

text \<open>The decimal numeral of a number.\<close>

definition dec :: "nat \<Rightarrow> bytes" where
  "dec n = (if n = 0 then ''0'' else dec_loop n [])"

lemma char_of_48: "char_of (48 :: nat) = CHR ''0''"
  by code_simp

lemma dec_rec: "dec n = (if n < 10 then [dg n] else dec (n div 10) @ [dg (n mod 10)])"
  by (auto simp: dec_def dec_loop_unfold dec_loop.simps [of 0] char_of_48)

lemma dec_octet:
  assumes "n < 256"
  shows "dec n = (if n < 10 then [dg n] else if n < 100 then [dg (n div 10), dg (n mod 10)]
     else [dg (n div 100), dg (n div 10 mod 10), dg (n mod 10)])"
proof -
  have "n div 10 div 10 = n div 100" by (simp add: div_mult2_eq [symmetric])
  moreover have "n div 10 < 10 \<longleftrightarrow> n < 100" by linarith
  moreover have "n div 100 < 10" using assms by linarith
  ultimately show ?thesis
    by (simp add: dec_rec [of n] dec_rec [of "n div 10"] dec_rec [of "n div 100"])
qed

lemma print_d_dec: "print_d n = dec n"
proof -
  have ne: "0 < n \<Longrightarrow> 0 < length (dec_loop n [])"
    by (simp add: dec_loop_unfold)
  have z: "dec_loop 0 [] = []" by (simp add: dec_loop.simps)
  show ?thesis using ne
    by (auto simp: print_d_def dec_def out_number_def fmt_d_def num_radix_def num_signed_def
        num_digits_def magnitude_def pad_def BUFFSIZE_def z Let_def not_less
        simp flip: length_greater_0_conv)
qed

lemma pton4_octet:
  assumes "n < 256" "oct < 4"
  shows "pton4_loop (dec n @ rest) False oct done 0 = pton4_loop rest True (oct + 1) done n"
proof -
  consider "n < 10" | "10 \<le> n" "n < 100" | "100 \<le> n" by linarith
  then show ?thesis
  proof cases
    case 1
    then show ?thesis using assms dg [of n] by (simp add: dec_octet)
  next
    case 2
    then have h: "n div 10 < 10" and "0 < n div 10" "n div 10 * 10 + n mod 10 = n" by simp_all
    moreover have "\<not> 255 < n div 10" using h by linarith
    ultimately show ?thesis using assms 2 dg [OF h] dg [of "n mod 10"] by (simp add: dec_octet Let_def)
  next
    case 3
    have h: "n div 100 < 10" and "0 < n div 100" "n div 10 mod 10 < 10" using assms 3 by simp_all
    moreover have "n div 100 * 10 + n div 10 mod 10 = n div 10" "n div 10 * 10 + n mod 10 = n"
      using div_mult_mod_eq [of "n div 10" 10] by (simp_all add: div_mult2_eq [symmetric])
    moreover have "n div 10 \<noteq> 0" "n div 10 \<le> 255" using assms 3 by linarith+
    ultimately show ?thesis using assms 3 dg [OF h] dg [of "n div 10 mod 10"] dg [of "n mod 10"]
      by (simp add: dec_octet Let_def)
  qed
qed

definition dotted :: "nat list \<Rightarrow> bytes" where
  "dotted a = dec (a ! 0) @ ''.'' @ dec (a ! 1) @ ''.'' @ dec (a ! 2) @ ''.'' @ dec (a ! 3)"

definition octets :: "nat \<Rightarrow> nat list \<Rightarrow> bool" where
  "octets n a \<longleftrightarrow> length a = n \<and> (\<forall>b\<in>set a. b < 256)"

lemma octets4: "octets 4 a \<Longrightarrow> \<exists>b c d e. a = [b, c, d, e] \<and> b < 256 \<and> c < 256 \<and> d < 256 \<and> e < 256"
  by (auto simp: octets_def length_Suc_conv numeral_eq_Suc)

lemma pton4_dot: "oct < 4 \<Longrightarrow> pton4_loop (CHR ''.'' # rest) True oct done cur = pton4_loop rest False oct (done @ [cur]) 0"
  by (simp add: ISDIGIT_code)

lemma pton4_dotted:
  assumes "octets 4 a"
  shows "inet_pton4 (dotted a) = Some a"
proof -
  obtain b c d e where a: "a = [b, c, d, e]" "b < 256" "c < 256" "d < 256" "e < 256"
    using octets4 [OF assms] by blast
  show ?thesis using a pton4_octet [of e 3 "[]" "[b, c, d]"]
    by (simp add: inet_pton4_def dotted_def pton4_octet pton4_dot numeral_3_eq_3 del: pton4_loop.simps(2))
qed

lemma dec_length: "n < 256 \<Longrightarrow> 1 \<le> length (dec n) \<and> length (dec n) \<le> 3"
  by (auto simp: dec_octet)

lemma dotted_length:
  assumes "octets 4 a"
  shows "7 \<le> length (dotted a) \<and> length (dotted a) \<le> 15"
proof -
  obtain b c d e where a: "a = [b, c, d, e]" "b < 256" "c < 256" "d < 256" "e < 256"
    using octets4 [OF assms] by blast
  show ?thesis using dec_length [OF a(2)] dec_length [OF a(3)] dec_length [OF a(4)] dec_length [OF a(5)]
    by (simp add: a(1) dotted_def)
qed

lemma ntop4_dotted:
  assumes "octets 4 a"
  shows "inet_ntop4 a sz = (if length (dotted a) < sz then Some (dotted a) else None)"
proof -
  obtain b c d e where a: "a = [b, c, d, e]" "b < 256" "c < 256" "d < 256" "e < 256"
    using octets4 [OF assms] by blast
  have "print_d (b AND 0xff) @ ''.'' @ print_d (c AND 0xff) @ ''.'' @ print_d (d AND 0xff) @ ''.'' @ print_d (e AND 0xff)
      = dotted a"
    using a by (simp add: and_masks print_d_dec dotted_def)
  moreover have "dotted a \<noteq> []" using dotted_length [OF assms] by auto
  ultimately show ?thesis using dotted_length [OF assms] a
    by (simp add: inet_ntop4_def snprintf_bytes_eq and_masks Let_def)
qed

section \<open>Hexadecimal groups\<close>

text \<open>The four nibbles of a group.\<close>

definition nib :: "nat \<Rightarrow> nat \<Rightarrow> nat" where
  "nib k w = w div 16 ^ k mod 16"

lemma nib_less: "nib k w < 16"
  by (simp add: nib_def)

lemma and_shifted_mask: "a AND (push_bit k (2 ^ j - 1)) = push_bit k (drop_bit k a mod 2 ^ j)" for a :: nat
proof -
  have "push_bit k (2 ^ j - 1 :: nat) = push_bit k (mask j)" by (simp add: mask_eq_exp_minus_1)
  also have "a AND push_bit k (mask j) = push_bit k (drop_bit k a AND mask j)"
    by (rule bit_eqI) (auto simp: bit_simps)
  finally show ?thesis by (simp add: take_bit_eq_mask [symmetric] take_bit_eq_mod)
qed

lemma nibble_masks:
  "w AND 0xf000 = 4096 * (w div 4096 mod 16)" "w AND 0xff00 = 256 * (w div 256 mod 256)"
  "w AND 0xfff0 = 16 * (w div 16 mod 4096)" "w AND 0x0f00 = 256 * (w div 256 mod 16)"
  "w AND 0x00f0 = 16 * (w div 16 mod 16)" "w AND 0x000f = w mod 16" for w :: nat
  using and_shifted_mask [of w 12 4] and_shifted_mask [of w 8 8] and_shifted_mask [of w 4 12]
    and_shifted_mask [of w 8 4] and_shifted_mask [of w 4 4] and_masks(2) [of w]
  by (simp_all add: push_bit_eq_mult drop_bit_eq_div mult.commute)

abbreviation hx :: "nat \<Rightarrow> char" where
  "hx n \<equiv> Curl_ldigits ! n"

lemma ntop6_group_nibbles:
  assumes "w < 65536"
  shows "ntop6_group w =
     (if w < 16 then [hx w]
      else if w < 256 then [hx (nib 1 w), hx (nib 0 w)]
      else if w < 4096 then [hx (nib 2 w), hx (nib 1 w), hx (nib 0 w)]
      else [hx (nib 3 w), hx (nib 2 w), hx (nib 1 w), hx (nib 0 w)])"
proof -
  have "w div 4096 mod 16 = 0 \<longleftrightarrow> w < 4096" "w div 256 mod 256 = 0 \<longleftrightarrow> w < 256"
    "w div 16 mod 4096 = 0 \<longleftrightarrow> w < 16" using assms by (simp_all add: div_eq_0_iff mod_less less_mult_imp_div_less)
  moreover have "drop_bit 12 (4096 * x) = x" "drop_bit 8 (256 * x) = x" "drop_bit 4 (16 * x) = x" for x :: nat
    by (simp_all add: drop_bit_eq_div)
  ultimately show ?thesis unfolding ntop6_group_def nibble_masks by (simp add: nib_def)
qed

lemma nib_compose:
  "w < 65536 \<Longrightarrow> ((nib 3 w * 16 + nib 2 w) * 16 + nib 1 w) * 16 + nib 0 w = w"
  "w < 4096 \<Longrightarrow> (nib 2 w * 16 + nib 1 w) * 16 + nib 0 w = w"
  "w < 256 \<Longrightarrow> nib 1 w * 16 + nib 0 w = w"
proof -
  have step: "a div 16 * 16 + a mod 16 = a" for a :: nat by simp
  have d: "w div 4096 = w div 256 div 16" "w div 256 = w div 16 div 16"
    by (simp_all add: div_mult2_eq [symmetric])
  show "nib 1 w * 16 + nib 0 w = w" if "w < 256"
    using step [of w] that by (simp add: nib_def less_mult_imp_div_less)
  show "(nib 2 w * 16 + nib 1 w) * 16 + nib 0 w = w" if "w < 4096"
    using step [of w] step [of "w div 16"] that d by (simp add: nib_def less_mult_imp_div_less)
  show "((nib 3 w * 16 + nib 2 w) * 16 + nib 1 w) * 16 + nib 0 w = w" if "w < 65536"
    using step [of w] step [of "w div 16"] step [of "w div 256"] that d by (simp add: nib_def less_mult_imp_div_less)
qed

section \<open>The parser on what the printer writes\<close>

text \<open>
  The parser's state after storing the bytes \<open>out\<close>, with \<open>n\<close> digits of the value
  \<open>v\<close> read since.
\<close>

definition p6_at :: "nat list \<Rightarrow> nat option \<Rightarrow> bytes \<Rightarrow> nat \<Rightarrow> nat \<Rightarrow> pton6" where
  "p6_at out c tok n v =
     \<lparr>p6_tmp = out @ replicate (16 - length out) 0, p6_tp = length out, p6_colonp = c,
      p6_curtok = tok, p6_saw_xdigit = n, p6_val = v\<rparr>"

lemma p6_at_fields:
  "p6_tmp (p6_at out c tok n v) = out @ replicate (16 - length out) 0" "p6_tp (p6_at out c tok n v) = length out"
  "p6_colonp (p6_at out c tok n v) = c" "p6_saw_xdigit (p6_at out c tok n v) = n"
  by (simp_all add: p6_at_def)

lemma read_digit:
  assumes "ISXDIGIT ch" "curlx_hexval ch = int d" "d < 16" "n < 4"
  shows "pton6_loop (ch # rest) (p6_at out c tok n v) = pton6_loop rest (p6_at out c tok (n + 1) (v * 16 + d))"
  using assms push_or [of d 4 v] by (simp add: p6_at_def)

lemmas read_hx = read_digit [OF ldigit(1) ldigit(2)]

lemma read_group:
  assumes "w < 65536"
  shows "pton6_loop (ntop6_group w @ rest) (p6_at out c tok 0 0)
     = pton6_loop rest (p6_at out c tok (length (ntop6_group w)) w)"
  using nib_compose [of w] nib_less
  by (simp add: ntop6_group_nibbles [OF assms] read_hx assms del: pton6_loop.simps)

lemma ntop6_group_length: "w < 65536 \<Longrightarrow> 1 \<le> length (ntop6_group w) \<and> length (ntop6_group w) \<le> 4"
  by (simp add: ntop6_group_nibbles)

lemma ntop6_group_ne [simp]: "ntop6_group w \<noteq> []"
  by (simp add: ntop6_group_def)

definition word_bytes :: "nat \<Rightarrow> nat list" where
  "word_bytes w = [w div 256, w mod 256]"

lemma store_group:
  assumes "length out + 2 \<le> 16" "w < 65536"
  shows "p6_store_group (p6_at out c tok n w) = Some (p6_at (out @ word_bytes w) c tok n w)"
proof -
  have k: "16 - length out = Suc (Suc (14 - length out))" using assms(1) by simp
  have "w div 256 < 256" using assms(2) by (simp add: less_mult_imp_div_less)
  then show ?thesis using assms k
    by (simp add: p6_store_group_def p6_at_def word_bytes_def IN6ADDRSZ_def INT16SZ_def and_masks
        drop_bit_eq_div list_update_append)
qed

lemma read_colon:
  assumes "n \<noteq> 0" "length out + 2 \<le> 16" "w < 65536"
  shows "pton6_loop (CHR '':'' # rest) (p6_at out c tok n w) = pton6_loop rest (p6_at (out @ word_bytes w) c rest 0 0)"
proof -
  have "(p6_at out c tok n w)\<lparr>p6_curtok := rest\<rparr> = p6_at out c rest n w" by (simp add: p6_at_def)
  moreover have "p6_saw_xdigit (p6_at out c rest n w) = n" by (simp add: p6_at_def)
  moreover have "(p6_at a c rest n w)\<lparr>p6_saw_xdigit := 0, p6_val := 0\<rparr> = p6_at a c rest 0 0" for a by (simp add: p6_at_def)
  ultimately show ?thesis using store_group [OF assms(2,3), of c rest n] assms(1) by (simp add: ISXDIGIT_code)
qed

lemma read_gap:
  "pton6_loop (CHR '':'' # rest) (p6_at out None tok 0 0) = pton6_loop rest (p6_at out (Some (length out)) rest 0 0)"
  by (simp add: p6_at_def ISXDIGIT_code)

definition groups :: "nat list \<Rightarrow> bytes" where
  "groups ws = concat (map (\<lambda>w. ntop6_group w @ '':'') ws)"

definition addr_bytes :: "nat list \<Rightarrow> nat list" where
  "addr_bytes ws = concat (map word_bytes ws)"

lemma groups_simps [simp]:
  "groups [] = []" "groups (w # ws) = ntop6_group w @ CHR '':'' # groups ws" "groups (ws @ vs) = groups ws @ groups vs"
  by (simp_all add: groups_def)

lemma addr_bytes_simps [simp]:
  "addr_bytes [] = []" "addr_bytes (w # ws) = word_bytes w @ addr_bytes ws"
  "addr_bytes (ws @ vs) = addr_bytes ws @ addr_bytes vs" "length (addr_bytes ws) = 2 * length ws"
  by (simp_all add: addr_bytes_def, induction ws) (simp_all add: word_bytes_def)

lemma read_groups:
  assumes "\<forall>w\<in>set ws. w < 65536" "length out + 2 * length ws \<le> 16"
  shows "pton6_loop (groups ws @ rest) (p6_at out c tok 0 0)
     = pton6_loop rest (p6_at (out @ addr_bytes ws) c (if ws = [] then tok else rest) 0 0)"
  using assms
proof (induction ws arbitrary: out tok)
  case (Cons w ws)
  have "pton6_loop (groups (w # ws) @ rest) (p6_at out c tok 0 0)
      = pton6_loop (groups ws @ rest) (p6_at (out @ word_bytes w) c (groups ws @ rest) 0 0)"
    using Cons.prems ntop6_group_length [of w]
      read_colon [of "length (ntop6_group w)" out w "groups ws @ rest" c tok]
    by (simp add: read_group del: pton6_loop.simps)
  also have "\<dots> = pton6_loop rest (p6_at ((out @ word_bytes w) @ addr_bytes ws) c
      (if ws = [] then groups ws @ rest else rest) 0 0)"
    using Cons.prems by (intro Cons.IH) (simp_all add: word_bytes_def)
  finally show ?case by simp
qed simp

lemma shift_step:
  assumes "0 < r"
  shows "(a @ x # replicate r 0 @ b)[length a + r := x, length a := 0] = a @ replicate r 0 @ x # b"
proof -
  obtain q where r: "r = Suc q" using assms by (cases r) auto
  have z: "replicate r 0 @ b = replicate q 0 @ 0 # b"
    by (simp add: r) (simp add: replicate_append_same flip: append_Cons append.assoc)
  have "length a + r = length (a @ x # replicate q 0)" by (simp add: r)
  then have "(a @ x # replicate r 0 @ b)[length a + r := x] = a @ x # replicate q 0 @ x # b"
    using list_update_length [of "a @ x # replicate q 0" 0 b x] unfolding z by simp
  moreover have "0 # replicate q 0 @ x # b = replicate r 0 @ x # b" by (simp add: r)
  ultimately show ?thesis by simp
qed

lemma shift_loop_gap:
  assumes "k + n = length out" "length out < 16" "m \<le> n"
  shows "shift_loop [m + 1..<n + 1] k n
       (take (length out - m) out @ replicate (16 - length out) 0 @ drop (length out - m) out)
     = take k out @ replicate (16 - length out) 0 @ drop k out"
  using assms(3)
proof (induction m rule: inc_induct)
  case base
  have "length out - n = k" using assms(1) by simp
  then show ?case by simp
next
  case (step m)
  let ?a = "take (length out - Suc m) out" and ?x = "out ! (length out - Suc m)"
    and ?b = "drop (length out - m) out" and ?r = "16 - length out"
  have i: "length out - Suc m < length out" "Suc (length out - Suc m) = length out - m"
    using step assms(1) by simp_all
  have t: "take (length out - m) out = ?a @ [?x]" using take_Suc_conv_app_nth [OF i(1)] i(2) by simp
  have b: "drop (length out - Suc m) out = ?x # ?b" using Cons_nth_drop_Suc [OF i(1)] i(2) by simp
  have la: "length ?a = length out - Suc m" by simp
  have idx: "k + n - Suc m = length ?a" "IN6ADDRSZ - Suc m = length ?a + ?r"
    using step assms(1,2) unfolding la by (simp_all add: IN6ADDRSZ_def)
  have "[m + 1..<n + 1] = Suc m # [Suc m + 1..<n + 1]" using step by (simp add: upt_conv_Cons)
  moreover have "(?a @ ?x # replicate ?r 0 @ ?b)[length ?a + ?r := ?x, length ?a := 0] = ?a @ replicate ?r 0 @ ?x # ?b"
    by (rule shift_step) (use assms(2) in simp)
  ultimately show ?case using step.IH by (simp only: shift_loop.simps t append_assoc append_Cons append_Nil idx nth_append_length b)
qed

lemma pton6_end_gap:
  assumes "length out < 16" "k \<le> length out"
  shows "pton6_end (p6_at out (Some k) tok 0 v) = Some (take k out @ replicate (16 - length out) 0 @ drop k out)"
  using shift_loop_gap [of k "length out - k" out 0] assms
  by (simp add: pton6_end_def p6_at_def IN6ADDRSZ_def Let_def)

lemma pton6_end_full: "length out = 16 \<Longrightarrow> pton6_end (p6_at out None tok 0 v) = Some out"
  by (simp add: pton6_end_def p6_at_def IN6ADDRSZ_def)

lemma pton6_end_group:
  assumes "n \<noteq> 0" "length out + 2 \<le> 16" "w < 65536"
  shows "pton6_end (p6_at out c tok n w) = pton6_end (p6_at (out @ word_bytes w) c tok 0 w)"
  using assms(1) store_group [OF assms(2,3), of c tok n] by (cases c) (simp_all add: pton6_end_def p6_at_fields)

text \<open>A list of groups at the end of the input.\<close>

definition joined :: "nat list \<Rightarrow> bytes" where
  "joined ws = (if ws = [] then [] else groups (butlast ws) @ ntop6_group (last ws))"

lemma read_joined:
  assumes "\<forall>w\<in>set ws. w < 65536" "length out + 2 * length ws \<le> 16"
  shows "\<exists>st. pton6_loop (joined ws) (p6_at out c tok 0 0) = Some st
     \<and> (\<exists>tok' v. pton6_end st = pton6_end (p6_at (out @ addr_bytes ws) c tok' 0 v))"
proof (cases ws rule: rev_cases)
  case Nil
  then show ?thesis by (auto simp: joined_def)
next
  case (snoc vs w)
  then have b: "\<forall>w\<in>set vs. w < 65536" "w < 65536" "length out + 2 * length vs + 2 \<le> 16" using assms by auto
  let ?tok = "if vs = [] then tok else ntop6_group w"
  let ?n = "length (ntop6_group w)"
  have "pton6_loop (joined ws) (p6_at out c tok 0 0) = Some (p6_at (out @ addr_bytes vs) c ?tok ?n w)"
    using read_groups [of vs out "ntop6_group w" c tok] read_group [OF b(2), of "[]"] b snoc by (simp add: joined_def)
  moreover have "pton6_end (p6_at (out @ addr_bytes vs) c ?tok ?n w)
      = pton6_end (p6_at ((out @ addr_bytes vs) @ word_bytes w) c ?tok 0 w)"
    using b by (intro pton6_end_group) simp_all
  ultimately show ?thesis using snoc by auto
qed

text \<open>An embedded IPv4 address at the end of the input.\<close>

lemma read_decimal:
  assumes "\<forall>d\<in>set ds. ISDIGIT d" "n + length ds \<le> 4"
  shows "\<exists>v'. pton6_loop (ds @ rest) (p6_at out c tok n v) = pton6_loop rest (p6_at out c tok (n + length ds) v')"
  using assms
proof (induction ds arbitrary: n v)
  case (Cons d ds)
  have x: "ISXDIGIT d" "code_of d \<le> 57" using Cons.prems by (auto simp: ISXDIGIT_def ISDIGIT_code)
  have c: "48 \<le> code_of d" using Cons.prems by (simp add: ISDIGIT_code)
  have "curlx_hexval d = int (code_of d - 48)" using hexval_xdigit [OF x(1)] x(2) c by simp
  moreover have "code_of d - 48 < 16" using x by simp
  ultimately have "pton6_loop ((d # ds) @ rest) (p6_at out c tok n v)
      = pton6_loop (ds @ rest) (p6_at out c tok (n + 1) (v * 16 + (code_of d - 48)))"
    using x Cons.prems(2) read_digit [of d "code_of d - 48" n "ds @ rest" out c tok v] by (simp del: pton6_loop.simps)
  moreover obtain v' where "pton6_loop (ds @ rest) (p6_at out c tok (n + 1) (v * 16 + (code_of d - 48)))
      = pton6_loop rest (p6_at out c tok (n + 1 + length ds) v')"
    using Cons.IH [of "n + 1"] Cons.prems by force
  ultimately have "pton6_loop ((d # ds) @ rest) (p6_at out c tok n v)
      = pton6_loop rest (p6_at out c tok (n + length (d # ds)) v')" by (simp del: pton6_loop.simps)
  then show ?case by blast
qed auto

lemma dec_digits: "\<forall>d\<in>set (dec n). ISDIGIT d"
  using dec_loop_digits [of n] by (simp add: dec_def ISDIGIT_code)

lemma read_dotted:
  assumes "octets 4 a" "length out + 4 \<le> 16"
  shows "\<exists>st. pton6_loop (dotted a) (p6_at out c (dotted a) 0 0) = Some st
     \<and> (\<exists>tok' v. pton6_end st = pton6_end (p6_at (out @ a) c tok' 0 v))"
proof -
  obtain x rest where d: "dotted a = dec x @ CHR ''.'' # rest" and x: "x < 256"
    using octets4 [OF assms(1)] by (auto simp: dotted_def)
  obtain v where r: "pton6_loop (dotted a) (p6_at out c (dotted a) 0 0)
      = pton6_loop (CHR ''.'' # rest) (p6_at out c (dotted a) (length (dec x)) v)"
    using read_decimal [OF dec_digits, of 0 x "CHR ''.'' # rest" out c "dotted a" 0] dec_length [OF x] unfolding d by auto
  have len: "length a = 4" using assms(1) by (simp add: octets_def)
  have z: "drop 4 (replicate (16 - length out) (0::nat)) = replicate (16 - (length out + 4)) 0" by simp
  have "pton6_loop (CHR ''.'' # rest) (p6_at out c (dotted a) (length (dec x)) v) = Some (p6_at (out @ a) c (dotted a) 0 v)"
    using assms(2) pton4_dotted [OF assms(1)] z len
    by (simp add: p6_at_def ISXDIGIT_code INADDRSZ_def IN6ADDRSZ_def)
  then show ?thesis using r by metis
qed

section \<open>What the printer writes\<close>

lemma joined_snoc: "joined (ws @ [w]) = (if ws = [] then [] else joined ws @ '':'') @ ntop6_group w"
  by (cases ws rule: rev_cases) (simp_all add: joined_def butlast_append)

lemma joined_Nil [simp]: "joined [] = []"
  by (simp add: joined_def)

lemma joined_colon: "ws \<noteq> [] \<Longrightarrow> joined ws @ '':'' = groups ws"
  by (cases ws rule: rev_cases) (simp_all add: joined_def)

definition tails :: "nat list \<Rightarrow> bytes" where
  "tails ws = concat (map (\<lambda>w. CHR '':'' # ntop6_group w) ws)"

lemma tails_snoc [simp]: "tails [] = []" "tails (ws @ [w]) = tails ws @ CHR '':'' # ntop6_group w"
  by (simp_all add: tails_def)

lemma tails_joined: "ws \<noteq> [] \<Longrightarrow> tails ws = '':'' @ joined ws"
proof (induction ws rule: rev_induct)
  case (snoc w ws)
  then show ?case using joined_snoc [of "[]" w] by (cases "ws = []") (simp_all add: joined_snoc tails_def)
qed simp

lemma ntop6_before:
  assumes "j \<le> b" "b \<le> length ws" "best = Some (b, l) \<or> best = None"
  shows "ntop6_loop src ws best ([j..<b] @ rest) (joined (take j ws)) = ntop6_loop src ws best rest (joined (take b ws))"
  using assms(1)
proof (induction j rule: inc_induct)
  case base
  then show ?case by simp
next
  case (step j)
  have "joined (take (Suc j) ws) = (if j \<noteq> 0 then joined (take j ws) @ '':'' else joined (take j ws)) @ ntop6_group (ws ! j)"
    using step assms(2) by (auto simp: take_Suc_conv_app_nth joined_snoc)
  then show ?case using step assms(3) by (auto simp: upt_conv_Cons Let_def)
qed

lemma ntop6_run:
  assumes "0 < l"
  shows "ntop6_loop src ws (Some (b, l)) ([b..<b + l] @ rest) tp = ntop6_loop src ws (Some (b, l)) rest (tp @ '':'')"
proof -
  have "ntop6_loop src ws (Some (b, l)) ([j..<b + l] @ rest) t = ntop6_loop src ws (Some (b, l)) rest t"
    if "b < j" "j \<le> b + l" for j t
    using that(2,1) by (induction j rule: inc_induct) (auto simp: upt_conv_Cons)
  from this [of "Suc b"] show ?thesis using assms by (simp add: upt_conv_Cons)
qed

text \<open>Whether the last two groups are printed as an IPv4 address.\<close>

definition mapped :: "nat list \<Rightarrow> nat \<Rightarrow> nat \<Rightarrow> bool" where
  "mapped ws b l \<longleftrightarrow> b = 0 \<and> (l = 6 \<or> l = 5 \<and> ws ! 5 = 0xffff)"

lemma ntop6_after:
  assumes "0 < l" "b + l \<le> n" "n \<le> length ws" "mapped ws b l \<longrightarrow> n \<le> 6"
  shows "ntop6_loop src ws (Some (b, l)) ([b + l..<n] @ rest) tp
     = ntop6_loop src ws (Some (b, l)) rest (tp @ tails (drop (b + l) (take n ws)))"
  using assms(2-4)
proof (induction n arbitrary: rest)
  case 0
  then show ?case using assms(1) by simp
next
  case (Suc n)
  show ?case
  proof (cases "b + l = Suc n")
    case True
    then show ?thesis by simp
  next
    case False
    then have n: "b + l \<le> n" using Suc by simp
    have "ntop6_loop src ws (Some (b, l)) ([b + l..<Suc n] @ rest) tp
        = ntop6_loop src ws (Some (b, l)) ([b + l..<n] @ n # rest) tp" using n by simp
    also have "\<dots> = ntop6_loop src ws (Some (b, l)) (n # rest) (tp @ tails (drop (b + l) (take n ws)))"
      using Suc.IH [of "n # rest"] Suc.prems n by auto
    also have "\<dots> = ntop6_loop src ws (Some (b, l)) rest (tp @ tails (drop (b + l) (take n ws)) @ CHR '':'' # ntop6_group (ws ! n))"
      using Suc.prems n assms(1) by (auto simp: mapped_def Let_def)
    finally show ?thesis using Suc.prems n by (simp add: take_Suc_conv_app_nth)
  qed
qed

text \<open>The run that is compressed consists of zero groups.\<close>

definition zero_run :: "nat list \<Rightarrow> nat \<Rightarrow> run \<Rightarrow> bool" where
  "zero_run ws i r \<longleftrightarrow>
     (case r of None \<Rightarrow> True | Some (b, l) \<Rightarrow> 0 < l \<and> b + l \<le> i \<and> (\<forall>k. b \<le> k \<and> k < b + l \<longrightarrow> ws ! k = 0))"

lemma zero_run_better: "zero_run ws i cur \<Longrightarrow> zero_run ws i best \<Longrightarrow> zero_run ws i (better_run cur best)"
  by (auto simp: better_run_def split: option.splits)

lemma run_scan_zero:
  assumes "i + length vs = length ws" "drop i ws = vs" "zero_run ws i cur" "zero_run ws i best"
    "case cur of None \<Rightarrow> True | Some (b, l) \<Rightarrow> b + l = i"
  shows "case run_scan vs i cur best of (c, b) \<Rightarrow> zero_run ws (length ws) c \<and> zero_run ws (length ws) b"
  using assms
proof (induction vs arbitrary: i cur best)
  case (Cons v vs)
  have v: "ws ! i = v" "drop (Suc i) ws = vs" using Cons.prems(2) by (metis nth_via_drop) (metis Cons.prems(2) drop_Suc list.sel(3) tl_drop)
  have mono: "zero_run ws (Suc i) r" if "zero_run ws i r" for r using that by (auto simp: zero_run_def split: option.splits)
  show ?case
  proof (cases "v = 0")
    case True
    have "zero_run ws (Suc i) (case cur of None \<Rightarrow> Some (i, 1) | Some (b, l) \<Rightarrow> Some (b, l + 1))"
      using Cons.prems(3,5) v(1) True by (auto simp: zero_run_def less_Suc_eq split: option.splits)
    then show ?thesis using True Cons.prems v mono
      by (simp, intro Cons.IH) (auto split: option.splits)
  next
    case False
    then show ?thesis using Cons.prems v mono zero_run_better
      by (simp, intro Cons.IH) (auto simp: zero_run_def)
  qed
qed simp

lemma best_run_zero:
  assumes "best_run ws = Some (b, l)"
  shows "2 \<le> l" "b + l \<le> length ws" "\<And>k. b \<le> k \<Longrightarrow> k < b + l \<Longrightarrow> ws ! k = 0"
proof -
  obtain c r where s: "run_scan ws 0 None None = (c, r)" by force
  then have "zero_run ws (length ws) c" "zero_run ws (length ws) r"
    using run_scan_zero [of 0 ws ws None None] by (auto simp: zero_run_def [of _ _ None])
  then have "zero_run ws (length ws) (better_run c r)" by (rule zero_run_better)
  then show "2 \<le> l" "b + l \<le> length ws" "\<And>k. b \<le> k \<Longrightarrow> k < b + l \<Longrightarrow> ws ! k = 0"
    using assms s by (auto simp: best_run_def zero_run_def split: option.splits if_splits)
qed

section \<open>Round trip\<close>

lemma addr_bytes_words:
  assumes "\<forall>b\<in>set src. b < 256" "2 * n \<le> length src"
  shows "addr_bytes (map (\<lambda>k. push_bit 8 (src ! (2 * k)) OR src ! (2 * k + 1)) [0..<n]) = take (2 * n) src"
  using assms(2)
proof (induction n)
  case (Suc n)
  have "src ! (2 * n + 1) < 256" using assms(1) Suc.prems by simp
  then have "word_bytes (push_bit 8 (src ! (2 * n)) OR src ! (2 * n + 1)) = [src ! (2 * n), src ! (2 * n + 1)]"
    using push_or [of "src ! (2 * n + 1)" 8 "src ! (2 * n)"] by (simp add: word_bytes_def)
  moreover have "take (2 * Suc n) src = take (2 * n) src @ [src ! (2 * n), src ! (2 * n + 1)]"
    using Suc.prems by (simp add: take_Suc_conv_app_nth)
  ultimately show ?case using Suc by simp
qed simp

lemma addr_words_facts:
  assumes "octets 16 src"
  shows "length (addr_words src) = 8" "\<forall>w\<in>set (addr_words src). w < 65536" "addr_bytes (addr_words src) = src"
proof -
  show "length (addr_words src) = 8" by (simp add: addr_words_def)
  show "addr_bytes (addr_words src) = src"
    using addr_bytes_words [of src 8] assms by (simp add: addr_words_def octets_def)
  show "\<forall>w\<in>set (addr_words src). w < 65536"
  proof
    fix w assume "w \<in> set (addr_words src)"
    then obtain k where "k < 8" and w: "w = push_bit 8 (src ! (2 * k)) OR src ! (2 * k + 1)"
      by (auto simp: addr_words_def)
    then have "src ! (2 * k) < 256" "src ! (2 * k + 1) < 256" using assms by (simp_all add: octets_def)
    then show "w < 65536" using push_or [of "src ! (2 * k + 1)" 8 "src ! (2 * k)"] by (simp add: w)
  qed
qed

lemma group_peek: "w < 65536 \<Longrightarrow> peek (ntop6_group w @ r) \<noteq> CHR '':''"
proof -
  assume w: "w < 65536"
  have "ISXDIGIT (hd (ntop6_group w))" using w nib_less by (simp add: ntop6_group_nibbles ldigit)
  then show ?thesis by (cases "ntop6_group w") (auto simp: ISXDIGIT_code)
qed

lemma pton6_start:
  "inet_pton6 src =
     (if peek src = CHR '':'' \<and> peek (drop 1 src) \<noteq> CHR '':'' then None
      else let src' = (if peek src = CHR '':'' then drop 1 src else src) in
           case pton6_loop src' (p6_at [] None src' 0 0) of None \<Rightarrow> None | Some s \<Rightarrow> pton6_end s)"
  by (simp add: inet_pton6_def p6_at_def IN6ADDRSZ_def)

text \<open>The address that a list of groups with a gap stands for.\<close>

lemma pton6_plain:
  assumes "length ws = 8" "\<forall>w\<in>set ws. w < 65536"
  shows "inet_pton6 (joined ws) = Some (addr_bytes ws)"
proof -
  have "peek (joined ws) \<noteq> CHR '':''"
  proof -
    obtain w v vs where ws: "ws = w # v # vs" using assms(1) by (cases ws; cases "tl ws") auto
    have "joined ws = ntop6_group w @ '':'' @ groups (butlast (v # vs)) @ ntop6_group (last (v # vs))"
      by (simp add: joined_def ws)
    then show ?thesis using group_peek [of w] assms(2) ws by simp
  qed
  moreover obtain st tok v where "pton6_loop (joined ws) (p6_at [] None (joined ws) 0 0) = Some st"
      "pton6_end st = pton6_end (p6_at (addr_bytes ws) None tok 0 v)"
    using read_joined [OF assms(2), of "[]" None "joined ws"] assms(1) by auto
  ultimately show ?thesis using assms(1) by (simp add: pton6_start pton6_end_full)
qed

definition gap_text :: "nat list \<Rightarrow> bytes \<Rightarrow> bytes" where
  "gap_text pre post = (if pre = [] then '':'' else groups pre) @ '':'' @ post"

lemma pton6_gap_text:
  assumes "\<forall>w\<in>set pre. w < 65536" "2 * length pre \<le> 16"
  shows "inet_pton6 (gap_text pre post) =
     (case pton6_loop post (p6_at (addr_bytes pre) (Some (2 * length pre)) post 0 0) of
        None \<Rightarrow> None | Some s \<Rightarrow> pton6_end s)"
proof (cases pre)
  case Nil
  then show ?thesis using read_gap [of post "[]" "'':'' @ post"]
    by (simp add: pton6_start gap_text_def del: pton6_loop.simps)
next
  case (Cons w ws)
  have "peek (gap_text pre post) \<noteq> CHR '':''" using group_peek [of w] assms(1) Cons by (simp add: gap_text_def)
  moreover have "pton6_loop (gap_text pre post) (p6_at [] None tok 0 0)
      = pton6_loop post (p6_at (addr_bytes pre) (Some (2 * length pre)) post 0 0)" for tok
    using read_groups [OF assms(1), of "[]" "'':'' @ post" None tok] assms(2)
      read_gap [of post "addr_bytes pre" "'':'' @ post"] Cons
    by (simp add: gap_text_def del: pton6_loop.simps groups_simps addr_bytes_simps(2))
  ultimately show ?thesis by (simp add: pton6_start del: pton6_loop.simps)
qed

lemma pton6_gap:
  assumes "\<forall>w\<in>set pre. w < 65536" "\<forall>w\<in>set post. w < 65536" "length pre + length post < 8"
  shows "inet_pton6 (gap_text pre (joined post))
     = Some (addr_bytes (pre @ replicate (8 - (length pre + length post)) 0 @ post))"
proof -
  have z: "addr_bytes (replicate k 0) = replicate (2 * k) 0" for k
    by (induction k) (simp_all add: word_bytes_def)
  obtain st tok v where "pton6_loop (joined post) (p6_at (addr_bytes pre) (Some (2 * length pre)) (joined post) 0 0) = Some st"
      "pton6_end st = pton6_end (p6_at (addr_bytes pre @ addr_bytes post) (Some (2 * length pre)) tok 0 v)"
    using read_joined [OF assms(2), of "addr_bytes pre" "Some (2 * length pre)" "joined post"] assms(3) by auto
  then show ?thesis using assms
    by (simp add: pton6_gap_text pton6_end_gap z algebra_simps)
qed

lemma pton6_mapped:
  assumes "\<forall>w\<in>set mid. w < 65536" "length mid < 6" "octets 4 a"
  shows "inet_pton6 (gap_text [] (groups mid @ dotted a))
     = Some (replicate (12 - 2 * length mid) 0 @ addr_bytes mid @ a)"
proof -
  have len: "length a = 4" using assms(3) by (simp add: octets_def)
  have "pton6_loop (groups mid @ dotted a) (p6_at [] (Some 0) (groups mid @ dotted a) 0 0)
      = pton6_loop (dotted a) (p6_at (addr_bytes mid) (Some 0) (dotted a) 0 0)"
    using read_groups [OF assms(1), of "[]" "dotted a" "Some 0" "groups mid @ dotted a"] assms(2)
    by (cases "mid = []") simp_all
  moreover obtain st tok v where "pton6_loop (dotted a) (p6_at (addr_bytes mid) (Some 0) (dotted a) 0 0) = Some st"
      "pton6_end st = pton6_end (p6_at (addr_bytes mid @ a) (Some 0) tok 0 v)"
    using read_dotted [OF assms(3), of "addr_bytes mid" "Some 0"] assms(2) by auto
  ultimately show ?thesis using assms(2) len
    by (simp add: pton6_gap_text pton6_end_gap)
qed

lemma groups_length: "\<forall>w\<in>set ws. w < 65536 \<Longrightarrow> length (groups ws) \<le> 5 * length ws"
proof (induction ws)
  case (Cons w ws)
  then show ?case using ntop6_group_length [of w] by simp
qed simp

lemma joined_length: "\<forall>w\<in>set ws. w < 65536 \<Longrightarrow> length (joined ws) \<le> 5 * length ws - 1"
  using groups_length [of ws] joined_colon [of ws] by (cases "ws = []") (auto dest!: arg_cong [of _ _ length])

text \<open>The text of an address, for each choice of the run that is left out.\<close>

lemma ntop6_plain:
  assumes "length ws = 8"
  shows "ntop6_loop src ws None [0..<8] [] = Some (joined ws)"
  using ntop6_before [of 0 8 ws None 0 src "[]"] assms by simp

lemma upt_split: "i \<le> j \<Longrightarrow> j \<le> k \<Longrightarrow> [i..<k] = [i..<j] @ [j..<k]"
  by (metis le_add_diff_inverse upt_add_eq_append)

lemma ntop6_gap:
  assumes "length ws = 8" "b + l \<le> 8" "0 < l" "mapped ws b l \<longrightarrow> n \<le> 6" "b + l \<le> n" "n \<le> 8"
  shows "ntop6_loop src ws (Some (b, l)) [0..<8] []
     = ntop6_loop src ws (Some (b, l)) [n..<8] (joined (take b ws) @ '':'' @ tails (drop (b + l) (take n ws)))"
proof -
  have "[0..<8] = [0..<b] @ [b..<b + l] @ [b + l..<n] @ [n..<8]"
    using assms upt_split [of 0 b 8] upt_split [of b "b + l" 8] upt_split [of "b + l" n 8] by simp
  moreover have "ntop6_loop src ws (Some (b, l)) ([0..<b] @ rest) [] = ntop6_loop src ws (Some (b, l)) rest (joined (take b ws))" for rest
    using ntop6_before [of 0 b ws "Some (b, l)" l src rest] assms by simp
  ultimately show ?thesis
    using ntop6_run [OF assms(3)] ntop6_after [OF assms(3,5)] assms by simp
qed

lemma gap_text_eq:
  "joined pre @ '':'' @ tails post @ (if post = [] then '':'' else []) = gap_text pre (joined post)"
  using joined_colon [of pre] tails_joined [of post] by (cases "pre = []"; cases "post = []") (auto simp: gap_text_def)

lemma zero_gap:
  assumes "length ws = 8" "b + l \<le> 8" "\<And>k. b \<le> k \<Longrightarrow> k < b + l \<Longrightarrow> ws ! k = 0"
  shows "take b ws @ replicate l 0 @ drop (b + l) ws = ws"
proof -
  have "take l (drop b ws) = replicate l 0"
    using assms by (intro nth_equalityI) simp_all
  then show ?thesis by (metis add.commute append_take_drop_id drop_drop)
qed

text \<open>The text before the check against the caller's buffer.\<close>

definition ntop6_out :: "nat list \<Rightarrow> bytes option" where
  "ntop6_out src =
     (let ws = addr_words src; best = best_run ws in
      map_option (\<lambda>tp. case best of Some (b, l) \<Rightarrow> if b + l = 8 then tp @ '':'' else tp | None \<Rightarrow> tp)
        (ntop6_loop src ws best [0..<8] []))"

lemma inet_ntop6_out:
  "inet_ntop6 src sz = (case ntop6_out src of None \<Rightarrow> None | Some t \<Rightarrow> if length t \<ge> sz then None else Some t)"
  by (simp add: inet_ntop6_def ntop6_out_def Let_def split: option.splits)

lemma ntop6_out_gap:
  assumes "octets 16 src" "best_run (addr_words src) = Some (b, l)" "\<not> mapped (addr_words src) b l"
  shows "ntop6_out src = Some (gap_text (take b (addr_words src)) (joined (drop (b + l) (addr_words src))))"
proof -
  let ?ws = "addr_words src"
  note w = addr_words_facts [OF assms(1)]
  note r = best_run_zero [OF assms(2), unfolded w(1)]
  have "drop (b + l) ?ws = [] \<longleftrightarrow> b + l = 8" using r(2) w(1) by auto
  moreover have "ntop6_loop src ?ws (Some (b, l)) [0..<8] [] = Some (joined (take b ?ws) @ '':'' @ tails (drop (b + l) ?ws))"
    using ntop6_gap [OF w(1) r(2), of 8 src] r(1,2) assms(3) w(1) by simp
  ultimately show ?thesis
    using gap_text_eq [of "take b ?ws" "drop (b + l) ?ws"] by (auto simp: ntop6_out_def assms(2) Let_def)
qed

lemma ntop6_out_mapped:
  assumes "octets 16 src" "best_run (addr_words src) = Some (b, l)" "mapped (addr_words src) b l"
  shows "ntop6_out src = Some (gap_text [] (groups (drop l (take 6 (addr_words src))) @ dotted (drop 12 src)))"
proof -
  let ?ws = "addr_words src" and ?a = "drop 12 src"
  let ?mid = "drop l (take 6 ?ws)"
  note w = addr_words_facts [OF assms(1)]
  note r = best_run_zero [OF assms(2), unfolded w(1)]
  have b: "b = 0" "l = 5 \<or> l = 6" using assms(3) by (auto simp: mapped_def)
  have a: "octets 4 ?a" using assms(1) by (auto simp: octets_def dest: in_set_dropD)
  have s: "\<forall>w\<in>set ?mid. w < 65536" "length ?mid \<le> 1"
    using w(1,2) b by (auto dest!: in_set_dropD in_set_takeD)
  have t: "tails ?mid @ '':'' = '':'' @ groups ?mid"
    using tails_joined [of ?mid] joined_colon [of ?mid] by (cases "?mid = []") simp_all
  have "length (tails ?mid) \<le> 5"
    using arg_cong [OF t, of length] groups_length [OF s(1)] s(2) by simp
  then have "length (dotted ?a) < 46 - length ('':'' @ tails ?mid @ '':'')" using dotted_length [OF a] unfolding length_append by (simp only: list.size) linarith
  then have "inet_ntop4 ?a (46 - length ('':'' @ tails ?mid @ '':'')) = Some (dotted ?a)"
    unfolding ntop4_dotted [OF a] by (rule if_P)
  moreover have "ntop6_loop src ?ws (Some (b, l)) [0..<8] [] = ntop6_loop src ?ws (Some (b, l)) [6, 7] ('':'' @ tails ?mid)"
    using ntop6_gap [OF w(1) r(2), of 6 src] r(1,2) b by (auto simp: upt_rec_numeral)
  ultimately have "ntop6_loop src ?ws (Some (b, l)) [0..<8] [] = Some ('':'' @ (tails ?mid @ '':'') @ dotted ?a)"
    using assms(3) b by (auto simp: mapped_def Let_def)
  then show ?thesis using b by (auto simp: ntop6_out_def assms(2) t gap_text_def Let_def)
qed

lemma mapped_bytes:
  assumes "octets 16 src" "l \<le> 6" "\<And>k. k < l \<Longrightarrow> addr_words src ! k = 0"
  shows "replicate (2 * l) 0 @ addr_bytes (drop l (take 6 (addr_words src))) @ drop 12 src = src"
proof -
  let ?ws = "addr_words src"
  note w = addr_words_facts [OF assms(1)]
  have z: "addr_bytes (replicate k 0) = replicate (2 * k) 0" for k
    by (induction k) (simp_all add: word_bytes_def)
  have "take l (take 6 ?ws) = replicate l 0" using assms(2,3) w(1) by (intro nth_equalityI) simp_all
  then have "take 6 ?ws = replicate l 0 @ drop l (take 6 ?ws)" by (metis append_take_drop_id)
  then have "addr_bytes (take 6 ?ws) = replicate (2 * l) 0 @ addr_bytes (drop l (take 6 ?ws))"
    by (metis addr_bytes_simps(3) z)
  moreover have "addr_bytes (take 6 ?ws) = take 12 src"
    using addr_bytes_words [of src 6] assms(1) by (simp add: addr_words_def octets_def take_map)
  ultimately show ?thesis by (metis append.assoc append_take_drop_id)
qed

lemma ntop6_out_reads_back:
  assumes "octets 16 src"
  shows "\<exists>t. ntop6_out src = Some t \<and> length t \<le> 39 \<and> inet_pton6 t = Some src"
proof -
  let ?ws = "addr_words src"
  note w = addr_words_facts [OF assms]
  consider "best_run ?ws = None"
    | b l where "best_run ?ws = Some (b, l)" "\<not> mapped ?ws b l"
    | b l where "best_run ?ws = Some (b, l)" "mapped ?ws b l"
    by (cases "best_run ?ws") auto
  then show ?thesis
  proof cases
    case 1
    then show ?thesis using ntop6_plain [OF w(1), of src] pton6_plain [OF w(1,2)] joined_length [OF w(2)] w
      by (simp add: ntop6_out_def)
  next
    case 2
    note r = best_run_zero [OF 2(1), unfolded w(1)]
    let ?pre = "take b ?ws" and ?post = "drop (b + l) ?ws"
    have s: "\<forall>w\<in>set ?pre. w < 65536" "\<forall>w\<in>set ?post. w < 65536"
      using w(2) by (auto dest: in_set_takeD in_set_dropD)
    have len: "length ?pre = b" "length ?post = 8 - (b + l)" using w(1) r(2) by simp_all
    have "length (gap_text ?pre (joined ?post)) \<le> 39"
      using groups_length [OF s(1)] joined_length [OF s(2)] r(1,2) unfolding len by (auto simp: gap_text_def)
    moreover have "inet_pton6 (gap_text ?pre (joined ?post)) = Some src"
      using pton6_gap [OF s] r(1,2) w zero_gap [OF w(1) r(2)] r(3) unfolding len by simp
    ultimately show ?thesis using ntop6_out_gap [OF assms 2] by simp
  next
    case 3
    note r = best_run_zero [OF 3(1), unfolded w(1)]
    let ?mid = "drop l (take 6 ?ws)" and ?a = "drop 12 src"
    have b: "b = 0" "l = 5 \<or> l = 6" using 3(2) by (auto simp: mapped_def)
    have a: "octets 4 ?a" using assms by (auto simp: octets_def dest: in_set_dropD)
    have s: "\<forall>w\<in>set ?mid. w < 65536" "length ?mid = 6 - l"
      using w(1,2) b by (auto dest!: in_set_dropD in_set_takeD)
    have "length (gap_text [] (groups ?mid @ dotted ?a)) \<le> 39"
      using groups_length [OF s(1)] s(2) dotted_length [OF a] b by (auto simp: gap_text_def)
    moreover have "12 - 2 * length ?mid = 2 * l" using s(2) b by auto
    then have "inet_pton6 (gap_text [] (groups ?mid @ dotted ?a)) = Some src"
      using pton6_mapped [OF s(1) _ a] mapped_bytes [OF assms, of l] r(3) b s(2) by auto
    ultimately show ?thesis using ntop6_out_mapped [OF assms 3] by simp
  qed
qed

section \<open>Properties\<close>

text \<open>
  C36: IPv6 addresses survive printing and reading.  For each of the addresses of sixteen bytes
  \<open>inet_ntop6\<close> has one text of at most 39 characters, so its scratch buffer of 46 bytes is
  never overrun; it returns the text when the caller's buffer has room for it and its
  terminator and NULL otherwise; and \<open>inet_pton6\<close> of the text is the address.  The same
  holds for IPv4 addresses, with texts of at most 15 characters.
\<close>

theorem inet_roundtrip:
  assumes "octets 16 src" "octets 4 src4"
  shows "(\<exists>t. length t \<le> 39 \<and> curlx_inet_pton AF_INET6 t = Some src
       \<and> (\<forall>sz. curlx_inet_ntop AF_INET6 src sz = (if length t < sz then Some t else None)))
    \<and> (\<exists>t. length t \<le> 15 \<and> curlx_inet_pton AF_INET t = Some src4
       \<and> (\<forall>sz. curlx_inet_ntop AF_INET src4 sz = (if length t < sz then Some t else None)))"
proof -
  obtain t where "ntop6_out src = Some t" "length t \<le> 39" "inet_pton6 t = Some src"
    using ntop6_out_reads_back [OF assms(1)] by blast
  moreover from this(1) have "inet_ntop6 src sz = (if length t < sz then Some t else None)" for sz
    by (simp add: inet_ntop6_out)
  ultimately show ?thesis
    using ntop4_dotted [OF assms(2)] pton4_dotted [OF assms(2)] dotted_length [OF assms(2)]
    by (auto simp: curlx_inet_pton_def curlx_inet_ntop_def)
qed

theorem inet_roundtrip_witness:
  "\<exists>t. curlx_inet_pton AF_INET6 t = Some ([0xfe, 0x80] @ replicate 13 0 @ [1])
     \<and> curlx_inet_ntop AF_INET6 ([0xfe, 0x80] @ replicate 13 0 @ [1]) 46 = Some t"
proof -
  have "octets 16 ([0xfe, 0x80] @ replicate 13 0 @ [1])" "octets 4 [127, 0, 0, 1]"
    by (simp_all add: octets_def)
  from inet_roundtrip [OF this] show ?thesis by fastforce
qed

text \<open>
  An IPv4 address embedded in the last two groups can be longer than the two groups: the text
  of the address \<open>::A:B\<close> does not fit in a buffer that holds \<open>::A:B\<close>.
\<close>

lemma inet_ntop_longer:
  "curlx_inet_pton AF_INET6 ''::A:B'' = Some (replicate 12 0 @ [0, 10, 0, 11])"
  "curlx_inet_ntop AF_INET6 (replicate 12 0 @ [0, 10, 0, 11]) 46 = Some ''::0.10.0.11''"
  "curlx_inet_ntop AF_INET6 (replicate 12 0 @ [0, 10, 0, 11]) 6 = None"
  by code_simp+

end
