(* ===== verification/Url_Host.thy ===== *)
theory Url_Host
  imports Url_Base Url_Scheme Escape Inet_Addr
begin

unbundle bit_operations_syntax

text \<open>
  The authority of a URL, from \<^verbatim>\<open>lib/urlapi.c\<close>: login, port number, host name, IPv6 address
  with zone, and the many spellings of an IPv4 address.  The handle is the record
  \<open>Curl_URL\<close>; a function that changes it returns its result code and the changed handle,
  also when it fails.  The host is built in a dynbuf, here the string it holds.
\<close>

section \<open>The handle\<close>

record Curl_URL =
  u_scheme :: "bytes option"
  u_user :: "bytes option"
  u_password :: "bytes option"
  u_options :: "bytes option"
  u_host :: "bytes option"
  u_zoneid :: "bytes option"
  u_path :: "bytes option"
  u_query :: "bytes option"
  u_fragment :: "bytes option"
  u_portnum :: nat
  u_port_present :: bool
  u_query_present :: bool
  u_fragment_present :: bool
  u_guessed_scheme :: bool

text \<open>The bits of the \<open>flags\<close> arguments.\<close>

datatype urlflag =
    CURLU_DEFAULT_PORT | CURLU_NO_DEFAULT_PORT | CURLU_DEFAULT_SCHEME | CURLU_NON_SUPPORT_SCHEME
  | CURLU_PATH_AS_IS | CURLU_DISALLOW_USER | CURLU_URLDECODE | CURLU_URLENCODE | CURLU_APPENDQUERY
  | CURLU_GUESS_SCHEME | CURLU_NO_AUTHORITY | CURLU_ALLOW_SPACE | CURLU_PUNYCODE | CURLU_PUNY2IDN
  | CURLU_GET_EMPTY | CURLU_NO_GUESS_SCHEME

section \<open>Login\<close>

text \<open>
  \<open>Curl_parse_login_details\<close> of \<^verbatim>\<open>lib/url.c\<close>: user, password and options, or nothing when
  memory is short.  \<open>optionsp\<close> says whether the caller wants options.
\<close>

definition Curl_parse_login_details ::
  "memory \<Rightarrow> bytes \<Rightarrow> bool \<Rightarrow> (bytes \<times> bytes option \<times> bytes option) option" where
  "Curl_parse_login_details mem login optionsp =
     (let len = length login;
          psep = memchr login CHR '':'';
          osep = (if optionsp then memchr login CHR '';'' else None);
          ulen = (case psep of
                    Some p \<Rightarrow> (case osep of Some q \<Rightarrow> if p > q then q else p | None \<Rightarrow> p)
                  | None \<Rightarrow> (case osep of Some q \<Rightarrow> q | None \<Rightarrow> len));
          plen = (case psep of
                    Some p \<Rightarrow> (case osep of Some q \<Rightarrow> if q > p then q - p else len - p | None \<Rightarrow> len - p) - 1
                  | None \<Rightarrow> 0);
          olen = (case osep of
                    Some q \<Rightarrow> (case psep of Some p \<Rightarrow> if p > q then p - q else len - q | None \<Rightarrow> len - q) - 1
                  | None \<Rightarrow> 0)
      in if \<not> mem (ulen + 1) then None
         else if psep \<noteq> None \<and> \<not> mem (plen + 1) then None
         else if optionsp \<and> olen \<noteq> 0 \<and> \<not> mem (olen + 1) then None
         else Some (take ulen login,
                    map_option (\<lambda>p. take plen (drop (p + 1) login)) psep,
                    (case osep of
                       Some q \<Rightarrow> if olen \<noteq> 0 then Some (take olen (drop (q + 1) login)) else None
                     | None \<Rightarrow> None)))"

text \<open>The label \<open>out\<close>.\<close>

definition login_cleared :: "Curl_URL \<Rightarrow> Curl_URL" where
  "login_cleared u = u\<lparr>u_user := None, u_password := None, u_options := None\<rparr>"

definition parse_hostname_login ::
  "memory \<Rightarrow> Curl_URL \<Rightarrow> bytes \<Rightarrow> urlflag set \<Rightarrow> CURLUcode \<times> Curl_URL \<times> nat" where
  "parse_hostname_login mem u login flags =
     (case memchr login CHR ''@'' of
        None \<Rightarrow> (CURLUE_OK, login_cleared u, 0)
      | Some at \<Rightarrow>
          (let h = (case u_scheme u of None \<Rightarrow> None | Some s \<Rightarrow> Curl_get_scheme s);
               want = (case h of None \<Rightarrow> False | Some sc \<Rightarrow> PROTOPT_URLOPTIONS \<in> sc_flags sc)
           in case Curl_parse_login_details mem (take at login) want of
                None \<Rightarrow> (CURLUE_OUT_OF_MEMORY, login_cleared u, 0)
              | Some (userp, passwdp, optionsp) \<Rightarrow>
                  if CURLU_DISALLOW_USER \<in> flags then (CURLUE_USER_NOT_ALLOWED, login_cleared u, 0)
                  else
                    (let u1 = u\<lparr>u_user := Some userp\<rparr>;
                         u2 = (if passwdp \<noteq> None then u1\<lparr>u_password := passwdp\<rparr> else u1);
                         u3 = (if optionsp \<noteq> None then u2\<lparr>u_options := optionsp\<rparr> else u2)
                     in (CURLUE_OK, u3, at + 1))))"

section \<open>Port\<close>

definition parse_port :: "Curl_URL \<Rightarrow> bytes \<Rightarrow> bool \<Rightarrow> CURLUcode \<times> Curl_URL \<times> bytes" where
  "parse_port u0 host has_scheme =
     (let u = u0\<lparr>u_portnum := 0, u_port_present := False\<rparr>;
          portptr =
            (if peek host = CHR ''['' then
               (case memchr host CHR '']'' of
                  None \<Rightarrow> Inl CURLUE_BAD_IPV6
                | Some i \<Rightarrow>
                    if drop (i + 1) host \<noteq> [] then
                      (if peek (drop (i + 1) host) \<noteq> CHR '':'' then Inl CURLUE_BAD_PORT_NUMBER
                       else Inr (Some (i + 1)))
                    else Inr None)
             else Inr (memchr host CHR '':''))
      in case portptr of
           Inl e \<Rightarrow> (e, u, host)
         | Inr None \<Rightarrow> (CURLUE_OK, u, host)
         | Inr (Some keep) \<Rightarrow>
             (let host' = take keep host; p = drop (keep + 1) host in
              if p = [] then ((if has_scheme then CURLUE_OK else CURLUE_BAD_PORT_NUMBER), u, host')
              else case curlx_str_number p 0xffff of
                     (rc, rest, port) \<Rightarrow>
                       if rc \<noteq> STRE_OK \<or> rest \<noteq> [] then (CURLUE_BAD_PORT_NUMBER, u, host')
                       else (CURLUE_OK, u\<lparr>u_portnum := nat port, u_port_present := True\<rparr>, host')))"

section \<open>IPv6 address\<close>

definition MAX_ZONEID_LEN :: nat where "MAX_ZONEID_LEN = 16"

definition ipv6_letters :: bytes where
  "ipv6_letters = ''0123456789abcdefABCDEF:.''"

text \<open>The zone identifier after the percent sign: the loop copies at most 15 bytes.\<close>

definition zone_of :: "bytes \<Rightarrow> bytes option" where
  "zone_of h0 =
     (let h = (if take 2 h0 = ''25'' \<and> drop 2 h0 \<noteq> [] \<and> peek (drop 2 h0) \<noteq> CHR '']'' then drop 2 h0 else h0);
          zone = take (MAX_ZONEID_LEN - 1) (takeWhile (\<lambda>c. c \<noteq> CHR '']'') h)
      in if zone = [] \<or> peek (drop (length zone) h) \<noteq> CHR '']'' then None else Some zone)"

definition ipv6_parse :: "memory \<Rightarrow> Curl_URL \<Rightarrow> bytes \<Rightarrow> CURLUcode \<times> Curl_URL \<times> bytes" where
  "ipv6_parse mem u hostname =
     (if length hostname < 4 then (CURLUE_BAD_IPV6, u, hostname)
      else
        (let h = drop 1 hostname;
             hlen = length hostname - 2;
             len = strspn h ipv6_letters;
             zoned =
               (if hlen \<noteq> len then
                  (if peek (drop len h) = CHR ''%'' then
                     (case zone_of (drop (len + 1) h) of
                        None \<Rightarrow> Inl CURLUE_BAD_IPV6
                      | Some z \<Rightarrow>
                          if mem (length z + 1) then Inr (u\<lparr>u_zoneid := Some z\<rparr>)
                          else Inl CURLUE_OUT_OF_MEMORY)
                   else Inl CURLUE_BAD_IPV6)
                else Inr u)
         in case zoned of
              Inl e \<Rightarrow> (e, (if e = CURLUE_OUT_OF_MEMORY then u\<lparr>u_zoneid := None\<rparr> else u), hostname)
            | Inr u' \<Rightarrow>
                (let addr = take len h in
                 case curlx_inet_pton AF_INET6 addr of
                   None \<Rightarrow> (CURLUE_BAD_IPV6, u', CHR ''['' # addr)
                 | Some dest \<Rightarrow>
                     (case curlx_inet_ntop AF_INET6 dest (len + 1) of
                        Some t \<Rightarrow> (CURLUE_OK, u', CHR ''['' # t @ '']'')
                      | None \<Rightarrow> (CURLUE_OK, u', CHR ''['' # addr @ '']'')))))"

section \<open>Host name\<close>

text \<open>The characters that a host name may not contain.\<close>

definition HOSTNAME_INVALID_CHARS :: bytes where
  "HOSTNAME_INVALID_CHARS =
     [CHR '' '', CR, LF, TAB] @ ''/:#?!@'' @ ''{}[]'' @ [CHR 0x5C] @ ''$'' @ [CHR 0x27, CHR 0x22, CHR 0x5E, CHR 0x60] @
     ''*<>=;,+&()%|''"

definition hostname_check :: "memory \<Rightarrow> Curl_URL \<Rightarrow> bytes \<Rightarrow> CURLUcode \<times> Curl_URL \<times> bytes" where
  "hostname_check mem u hostname =
     (let hlen = length hostname in
      if hlen = 0 then (CURLUE_NO_HOST, u, hostname)
      else if peek hostname = CHR ''['' then ipv6_parse mem u hostname
      else if hlen \<noteq> strcspn hostname HOSTNAME_INVALID_CHARS then (CURLUE_BAD_HOSTNAME, u, hostname)
      else if hlen \<ge> 2 \<and> hostname ! (hlen - 1) = CHR ''.'' \<and> hostname ! (hlen - 2) = CHR ''.''
      then (CURLUE_BAD_HOSTNAME, u, hostname)
      else if hlen = 1 \<and> peek hostname = CHR ''.'' then (CURLUE_BAD_HOSTNAME, u, hostname)
      else (CURLUE_OK, u, hostname))"

section \<open>IPv4 address\<close>

datatype host_type = HOST_ERROR | HOST_NAME | HOST_IPV4 | HOST_IPV6

definition UINT_MAX :: int where "UINT_MAX = 4294967295"

text \<open>One number of the address: \<open>None\<close> is the early return for a bad hexadecimal number.\<close>

definition ipv4_number :: "bytes \<Rightarrow> (stre \<times> bytes \<times> int) option" where
  "ipv4_number c =
     (if peek c = CHR ''0'' then
        (if Curl_raw_tolower (peek (drop 1 c)) = CHR ''x'' then
           (case curlx_str_hex (drop 2 c) UINT_MAX of
              (rc, p, l) \<Rightarrow> if rc \<noteq> STRE_OK then None else Some (rc, p, l))
         else Some (curlx_str_octal c UINT_MAX))
      else Some (curlx_str_number c UINT_MAX))"

lemma num_loop_low_shorter: "num_loop_low m b mx s n = Some (v, p) \<Longrightarrow> length p \<le> length s"
  by (induction m b mx s n rule: num_loop_low.induct) (auto simp: Let_def split: if_splits)

lemma num_loop_shorter: "num_loop m b mx s n = Some (v, p) \<Longrightarrow> length p \<le> length s"
  by (induction m b mx s n rule: num_loop.induct) (auto simp: Let_def split: if_splits)

lemma str_num_base_shorter: "str_num_base s mx b = (rc, p, v) \<Longrightarrow> length p \<le> length s"
  by (auto simp: str_num_base_def Let_def dest: num_loop_low_shorter num_loop_shorter split: if_splits option.splits)

lemma ipv4_number_shorter: "ipv4_number c = Some (rc, p, l) \<Longrightarrow> length p \<le> length c"
  by (auto simp: ipv4_number_def curlx_str_hex_def curlx_str_octal_def curlx_str_number_def
      dest!: str_num_base_shorter split: if_splits prod.splits)

text \<open>The loop: the index of the last number and the numbers, or \<open>None\<close> for \<open>HOST_NAME\<close>.\<close>

function ipv4_loop :: "nat \<Rightarrow> int list \<Rightarrow> bytes \<Rightarrow> (nat \<times> int list) option" where
  "ipv4_loop n parts c =
     (case ipv4_number c of
        None \<Rightarrow> None
      | Some (rc, p, l) \<Rightarrow>
          if rc \<noteq> STRE_OK \<and> (n = 0 \<or> rc \<noteq> STRE_NO_NUM \<or> p \<noteq> []) then None
          else
            (let n' = (if rc \<noteq> STRE_OK then n - 1 else n);
                 parts' = (if rc \<noteq> STRE_OK then parts else parts[n := l])
             in if p = [] then Some (n', parts')
                else if peek p = CHR ''.'' then
                  (if n' = 3 then (if drop 1 p \<noteq> [] then None else Some (n', parts'))
                   else ipv4_loop (n' + 1) parts' (drop 1 p))
                else None))"
  by pat_completeness auto
termination
  by (relation "measure (\<lambda>(n, parts, c). length c)")
    (auto dest!: ipv4_number_shorter simp: neq_Nil_conv)

declare ipv4_loop.simps [simp del]

definition fmt_u :: mproperty where
  "fmt_u = \<lparr>mp_width = 0, mp_prec = -1, mp_flags = {FLAGS_UNSIGNED}\<rparr>"

definition print_u :: "nat \<Rightarrow> bytes" where
  "print_u n = out_number fmt_u n (int n)"

definition print_quad :: "nat \<Rightarrow> nat \<Rightarrow> nat \<Rightarrow> nat \<Rightarrow> bytes" where
  "print_quad a b c d = print_u a @ ''.'' @ print_u b @ ''.'' @ print_u c @ ''.'' @ print_u d"

text \<open>The switch on the number of parts: the text, or \<open>None\<close> for \<open>HOST_NAME\<close>.\<close>

definition ipv4_text :: "nat \<Rightarrow> int list \<Rightarrow> bytes option" where
  "ipv4_text n parts =
     (let p = (\<lambda>i. nat (parts ! i)) in
      if n = 0 then
        Some (print_quad (drop_bit 24 (p 0)) (drop_bit 16 (p 0) AND 0xff) (drop_bit 8 (p 0) AND 0xff) (p 0 AND 0xff))
      else if n = 1 then
        (if p 0 > 0xff \<or> p 1 > 0xffffff then None
         else Some (print_quad (p 0) (drop_bit 16 (p 1) AND 0xff) (drop_bit 8 (p 1) AND 0xff) (p 1 AND 0xff)))
      else if n = 2 then
        (if p 0 > 0xff \<or> p 1 > 0xff \<or> p 2 > 0xffff then None
         else Some (print_quad (p 0) (p 1) (drop_bit 8 (p 2) AND 0xff) (p 2 AND 0xff)))
      else
        (if p 0 > 0xff \<or> p 1 > 0xff \<or> p 2 > 0xff \<or> p 3 > 0xff then None
         else Some (print_quad (p 0) (p 1) (p 2) (p 3))))"

definition ipv4_normalize :: "memory \<Rightarrow> bytes \<Rightarrow> host_type \<times> bytes" where
  "ipv4_normalize mem host =
     (if peek host = CHR ''['' then (HOST_IPV6, host)
      else case ipv4_loop 0 [0, 0, 0, 0] host of
             None \<Rightarrow> (HOST_NAME, host)
           | Some (n, parts) \<Rightarrow>
               (case ipv4_text n parts of
                  None \<Rightarrow> (HOST_NAME, host)
                | Some t \<Rightarrow>
                    (case dyn_put mem CURL_MAX_INPUT_LENGTH [] t of
                       Inl e \<Rightarrow> (HOST_ERROR, [])
                     | Inr host' \<Rightarrow> (HOST_IPV4, host'))))"

section \<open>Authority\<close>

definition urldecode_host :: "memory \<Rightarrow> bytes \<Rightarrow> CURLUcode \<times> bytes" where
  "urldecode_host mem host =
     (if CHR ''%'' \<notin> set host then (CURLUE_OK, host)
      else case Curl_urldecode (mem (length host + 1)) host 0 REJECT_CTRL of
             (CURLE_OK, Some decoded) \<Rightarrow>
               (case dyn_put mem CURL_MAX_INPUT_LENGTH [] decoded of
                  Inl e \<Rightarrow> (e, [])
                | Inr host' \<Rightarrow> (CURLUE_OK, host'))
           | _ \<Rightarrow> (CURLUE_BAD_HOSTNAME, host))"

definition parse_authority ::
  "memory \<Rightarrow> Curl_URL \<Rightarrow> bytes \<Rightarrow> urlflag set \<Rightarrow> bool \<Rightarrow> CURLUcode \<times> Curl_URL \<times> bytes" where
  "parse_authority mem u auth flags has_scheme =
     (case parse_hostname_login mem u auth flags of
        (uc, u1, offset) \<Rightarrow>
          if uc \<noteq> CURLUE_OK then (uc, u1, [])
          else case dyn_put mem CURL_MAX_INPUT_LENGTH [] (drop offset auth) of
                 Inl e \<Rightarrow> (e, u1, [])
               | Inr host \<Rightarrow>
                   (case parse_port u1 host has_scheme of
                      (uc, u2, host1) \<Rightarrow>
                        if uc \<noteq> CURLUE_OK then (uc, u2, host1)
                        else if host1 = [] then (CURLUE_NO_HOST, u2, host1)
                        else case urldecode_host mem host1 of
                               (uc, host2) \<Rightarrow>
                                 if uc \<noteq> CURLUE_OK then (uc, u2, host2)
                                 else case ipv4_normalize mem host2 of
                                        (HOST_IPV4, host3) \<Rightarrow> (CURLUE_OK, u2, host3)
                                      | (HOST_IPV6, host3) \<Rightarrow> ipv6_parse mem u2 host3
                                      | (HOST_NAME, host3) \<Rightarrow> hostname_check mem u2 host3
                                      | (HOST_ERROR, host3) \<Rightarrow> (CURLUE_OUT_OF_MEMORY, u2, host3)))"

definition Curl_url_set_authority :: "memory \<Rightarrow> Curl_URL \<Rightarrow> bytes \<Rightarrow> CURLUcode \<times> Curl_URL" where
  "Curl_url_set_authority mem u authority =
     (case parse_authority mem u authority {CURLU_DISALLOW_USER} (u_scheme u \<noteq> None) of
        (ures, u', host) \<Rightarrow> (ures, if ures = CURLUE_OK then u'\<lparr>u_host := Some host\<rparr> else u'))"

end
