(* ===== verification/Url_Parse.thy ===== *)
theory Url_Parse
  imports Url_Path Url_Host
begin

text \<open>
  The parser of \<^verbatim>\<open>lib/urlapi.c\<close>: the scan for junk, the scheme, file URLs, re-encoding, and
  \<open>parseurl\<close>, which takes a whole URL apart into a handle.  The code modelled is that of
  a build for other systems than Windows and DOS.  A function that stores into the handle returns
  the handle also when it fails, except \<open>parseurl\<close>, which then frees it.
\<close>

definition DEFAULT_SCHEME :: bytes where "DEFAULT_SCHEME = ''https''"

definition MAX_SCHEME_LEN :: nat where "MAX_SCHEME_LEN = 40"

section \<open>Re-encoding\<close>

text \<open>The first two slashes: what follows them.\<close>

fun after_slashes :: "bytes \<Rightarrow> bytes option" where
  "after_slashes (a # b # s) = (if a = CHR ''/'' \<and> b = CHR ''/'' then Some s else after_slashes (b # s))"
| "after_slashes s = None"

text \<open>The separator is the suffix it starts.\<close>

definition find_host_sep :: "bytes \<Rightarrow> bytes" where
  "find_host_sep url =
     dropWhile (\<lambda>c. c \<noteq> CHR ''/'' \<and> c \<noteq> CHR ''?'')
       (case after_slashes url of None \<Rightarrow> url | Some s \<Rightarrow> s)"

datatype query_mode = QUERY_NO | QUERY_NOT_YET | QUERY_YES

text \<open>One turn of the loop: the bytes added, what is left of the input, and the mode.\<close>

definition urlencode_next :: "query_mode \<Rightarrow> bytes \<Rightarrow> bytes \<times> bytes \<times> query_mode" where
  "urlencode_next query s =
     (let c = hd s in
      if c = CHR '' '' then ((if query \<noteq> QUERY_YES then ''%20'' else ''+''), tl s, query)
      else if code_of c < 0x20 \<or> code_of c \<ge> 0x7f then (CHR ''%'' # Curl_hexbyte c, tl s, query)
      else if c = CHR ''%'' \<and> length s \<ge> 3 \<and> ISXDIGIT (s ! 1) \<and> ISXDIGIT (s ! 2)
              \<and> (ISLOWER (s ! 1) \<or> ISLOWER (s ! 2))
      then (CHR ''%'' # Curl_hexbyte (hex_pair (s ! 1) (s ! 2)), drop 3 s, query)
      else ([c], tl s, (if c = CHR ''?'' \<and> query = QUERY_NOT_YET then QUERY_YES else query)))"

lemma urlencode_next_shorter:
  "s \<noteq> [] \<Longrightarrow> urlencode_next query s = (piece, rest, query') \<Longrightarrow> length rest < length s"
  by (cases s) (auto simp: urlencode_next_def Let_def split: if_splits)

function urlencode_loop :: "memory \<Rightarrow> bytes \<Rightarrow> query_mode \<Rightarrow> bytes \<Rightarrow> CURLUcode + bytes" where
  "urlencode_loop mem o' query s =
     (if s = [] then Inr o'
      else case urlencode_next query s of
             (piece, rest, query') \<Rightarrow>
               (case dyn_put mem CURL_MAX_INPUT_LENGTH o' piece of
                  Inl e \<Rightarrow> Inl e
                | Inr o'' \<Rightarrow> urlencode_loop mem o'' query' rest))"
  by pat_completeness auto
termination
  by (relation "measure (\<lambda>(mem, o', query, s). length s)") (auto dest: urlencode_next_shorter [OF _ sym])

declare urlencode_loop.simps [simp del]

text \<open>Every caller gives the buffer the limit \<open>CURL_MAX_INPUT_LENGTH\<close> and the length of the string.\<close>

definition urlencode_str :: "memory \<Rightarrow> bytes \<Rightarrow> bytes \<Rightarrow> bool \<Rightarrow> query_mode \<Rightarrow> CURLUcode + bytes" where
  "urlencode_str mem o' url relative query =
     (if \<not> relative then
        (let host_sep = find_host_sep url; n = length url - length host_sep in
         case dyn_put mem CURL_MAX_INPUT_LENGTH o' (take n url) of
           Inl e \<Rightarrow> Inl e
         | Inr o'' \<Rightarrow> urlencode_loop mem o'' query host_sep)
      else urlencode_loop mem o' query url)"

section \<open>Scheme and junk\<close>

definition scheme_char :: "char \<Rightarrow> bool" where
  "scheme_char s \<longleftrightarrow> ISALNUM s \<or> s = CHR ''+'' \<or> s = CHR ''-'' \<or> s = CHR ''.''"

text \<open>The length of the scheme, 0 for none, and the string left in \<open>buf\<close>.\<close>

definition Curl_is_absolute_url :: "bytes \<Rightarrow> bool \<Rightarrow> nat \<times> bytes" where
  "Curl_is_absolute_url url guess_scheme =
     (let i = (if ISALPHA (peek url)
               then 1 + length (takeWhile scheme_char (take (MAX_SCHEME_LEN - 1) (drop 1 url))) else 0)
      in if i \<noteq> 0 \<and> peek (drop i url) = CHR '':'' \<and> (peek (drop (i + 1) url) = CHR ''/'' \<or> \<not> guess_scheme)
         then (i, Curl_strntolower url i)
         else (0, []))"

definition Curl_junkscan :: "bytes \<Rightarrow> bool \<Rightarrow> CURLUcode" where
  "Curl_junkscan url allowspace =
     (if length url > CURL_MAX_INPUT_LENGTH then CURLUE_MALFORMED_INPUT
      else if \<exists>c\<in>set url. code_of c \<le> (if allowspace then 0x1f else 0x20) \<or> code_of c = 127
      then CURLUE_MALFORMED_INPUT
      else CURLUE_OK)"

definition STARTS_WITH_URL_DRIVE_PREFIX :: "bytes \<Rightarrow> bool" where
  "STARTS_WITH_URL_DRIVE_PREFIX str \<longleftrightarrow>
     (ISLOWER (peek str) \<or> ISUPPER (peek str))
     \<and> (peek (drop 1 str) = CHR '':'' \<or> peek (drop 1 str) = CHR ''|'')
     \<and> (peek (drop 2 str) = CHR ''/'' \<or> peek (drop 2 str) = CHR 0x5C \<or> drop 2 str = [])"

text \<open>The path of a file URL, a suffix of the URL.\<close>

definition parse_file :: "memory \<Rightarrow> bytes \<Rightarrow> Curl_URL \<Rightarrow> CURLUcode \<times> Curl_URL \<times> bytes" where
  "parse_file mem url u =
     (if length url \<le> 6 then (CURLUE_BAD_FILE_URL, u, [])
      else
        (let path = drop 5 url in
         if peek path \<noteq> CHR ''/'' then (CURLUE_BAD_FILE_URL, u, [])
         else
           (let ptr = drop 2 path;
                path' =
                  (if peek (drop 1 path) = CHR ''/'' then
                     (if peek ptr \<noteq> CHR ''/'' \<and> \<not> STARTS_WITH_URL_DRIVE_PREFIX ptr then
                        (if checkprefix ''localhost/'' ptr \<or> checkprefix ''127.0.0.1/'' ptr
                         then Some (drop 9 ptr) else None)
                      else Some ptr)
                   else Some path)
            in case path' of
                 None \<Rightarrow> (CURLUE_BAD_FILE_URL, u, [])
               | Some p \<Rightarrow>
                   if peek p = CHR ''/'' \<and> STARTS_WITH_URL_DRIVE_PREFIX (drop 1 p) \<or> STARTS_WITH_URL_DRIVE_PREFIX p
                   then (CURLUE_BAD_FILE_URL, u, [])
                   else if \<not> mem 5 then (CURLUE_OUT_OF_MEMORY, u\<lparr>u_scheme := None\<rparr>, [])
                   else (CURLUE_OK, u\<lparr>u_scheme := Some ''file''\<rparr>, p))))"

text \<open>The host part, a suffix of the URL.\<close>

definition parse_scheme ::
  "memory \<Rightarrow> bytes \<Rightarrow> Curl_URL \<Rightarrow> bytes \<Rightarrow> nat \<Rightarrow> urlflag set \<Rightarrow> CURLUcode \<times> Curl_URL \<times> bytes" where
  "parse_scheme mem url u schemebuf schemelen flags =
     (let p0 = drop (schemelen + 1) url;
          i = length (takeWhile (\<lambda>c. c = CHR ''/'') (take 4 p0));
          found =
            (if schemelen \<noteq> 0 then
               (if Curl_get_scheme schemebuf = None \<and> CURLU_NON_SUPPORT_SCHEME \<notin> flags
                then Inl CURLUE_UNSUPPORTED_SCHEME
                else if i < 1 \<or> i > 3 then Inl CURLUE_BAD_SLASHES
                else Inr (Some schemebuf, drop i p0))
             else if CURLU_DEFAULT_SCHEME \<notin> flags \<and> CURLU_GUESS_SCHEME \<notin> flags then Inl CURLUE_BAD_SCHEME
             else Inr ((if CURLU_DEFAULT_SCHEME \<in> flags then Some DEFAULT_SCHEME else None), url))
      in case found of
           Inl e \<Rightarrow> (e, u, [])
         | Inr (None, hostp) \<Rightarrow> (CURLUE_OK, u, hostp)
         | Inr (Some schemep, hostp) \<Rightarrow>
             if mem (length schemep + 1) then (CURLUE_OK, u\<lparr>u_scheme := Some schemep\<rparr>, hostp)
             else (CURLUE_OUT_OF_MEMORY, u\<lparr>u_scheme := None\<rparr>, hostp))"

definition guess_scheme :: "memory \<Rightarrow> Curl_URL \<Rightarrow> bytes \<Rightarrow> CURLUcode \<times> Curl_URL" where
  "guess_scheme mem u hostname =
     (let schemep =
        (if checkprefix ''ftp.'' hostname then ''ftp''
         else if checkprefix ''dict.'' hostname then ''dict''
         else if checkprefix ''ldap.'' hostname then ''ldap''
         else if checkprefix ''imap.'' hostname then ''imap''
         else if checkprefix ''smtp.'' hostname then ''smtp''
         else if checkprefix ''pop3.'' hostname then ''pop3''
         else ''http'')
      in if mem (length schemep + 1) then (CURLUE_OK, u\<lparr>u_scheme := Some schemep, u_guessed_scheme := True\<rparr>)
         else (CURLUE_OUT_OF_MEMORY, u\<lparr>u_scheme := None\<rparr>))"

section \<open>Fragment, query and path\<close>

text \<open>A copy of a string, re-encoded when the flag asks for it.\<close>

definition copy_part :: "memory \<Rightarrow> bytes \<Rightarrow> query_mode \<Rightarrow> urlflag set \<Rightarrow> CURLUcode + bytes" where
  "copy_part mem s query flags =
     (if CURLU_URLENCODE \<in> flags then urlencode_str mem [] s True query
      else if mem (length s + 1) then Inr s else Inl CURLUE_OUT_OF_MEMORY)"

text \<open>The argument includes the leading hash or question mark.\<close>

definition handle_fragment :: "memory \<Rightarrow> Curl_URL \<Rightarrow> bytes \<Rightarrow> urlflag set \<Rightarrow> CURLUcode \<times> Curl_URL" where
  "handle_fragment mem u fragment flags =
     (let u1 = u\<lparr>u_fragment_present := True\<rparr> in
      if length fragment > 1 then
        (case copy_part mem (drop 1 fragment) QUERY_NO flags of
           Inl e \<Rightarrow> (e, u1)
         | Inr s \<Rightarrow> (CURLUE_OK, u1\<lparr>u_fragment := Some s\<rparr>))
      else (CURLUE_OK, u1))"

definition handle_query :: "memory \<Rightarrow> Curl_URL \<Rightarrow> bytes \<Rightarrow> urlflag set \<Rightarrow> CURLUcode \<times> Curl_URL" where
  "handle_query mem u query flags =
     (let u1 = u\<lparr>u_query_present := True\<rparr> in
      if length query > 1 then
        (case copy_part mem (drop 1 query) QUERY_YES flags of
           Inl e \<Rightarrow> (e, u1)
         | Inr s \<Rightarrow> (CURLUE_OK, u1\<lparr>u_query := Some s\<rparr>))
      else if mem 1 then (CURLUE_OK, u1\<lparr>u_query := Some []\<rparr>)
      else (CURLUE_OUT_OF_MEMORY, u1))"

definition handle_path :: "memory \<Rightarrow> Curl_URL \<Rightarrow> bytes \<Rightarrow> urlflag set \<Rightarrow> bool \<Rightarrow> CURLUcode \<times> Curl_URL" where
  "handle_path mem u path0 flags is_file =
     (case (if path0 \<noteq> [] \<and> CURLU_URLENCODE \<in> flags then
              (case urlencode_str mem [] path0 True QUERY_NO of
                 Inl e \<Rightarrow> Inl e
               | Inr enc \<Rightarrow> Inr (enc, u\<lparr>u_path := Some enc\<rparr>))
            else Inr (path0, u)) of
        Inl e \<Rightarrow> (e, u)
      | Inr (path, u1) \<Rightarrow>
          if length path \<ge> (if is_file then 1 else 2) then
            (if u_path u1 = None \<and> \<not> mem (length path + 1) then (CURLUE_OUT_OF_MEMORY, u1)
             else
               (let u2 = (if u_path u1 = None then u1\<lparr>u_path := Some path\<rparr>
                          else if CURLU_URLENCODE \<in> flags
                          then u1\<lparr>u_path := map_option (take (length path)) (u_path u1)\<rparr>
                          else u1)
                in if CURLU_PATH_AS_IS \<in> flags then (CURLUE_OK, u2)
                   else case dedotdotify mem path of
                          (err, dedot) \<Rightarrow>
                            if err \<noteq> 0 then (CURLUE_OUT_OF_MEMORY, u2)
                            else case dedot of
                                   None \<Rightarrow> (CURLUE_OK, u2)
                                 | Some d \<Rightarrow> (CURLUE_OK, u2\<lparr>u_path := Some d\<rparr>)))
          else (CURLUE_OK, u1))"

section \<open>A whole URL\<close>

text \<open>
  The first part: scheme, authority, and the rest of the URL from the path on.  The host is
  \<open>None\<close> while nothing has been added to its dynbuf.
\<close>

definition parse_front ::
  "memory \<Rightarrow> bytes \<Rightarrow> Curl_URL \<Rightarrow> urlflag set \<Rightarrow> CURLUcode \<times> Curl_URL \<times> bytes option \<times> bytes \<times> bool" where
  "parse_front mem url u flags =
     (case Curl_is_absolute_url url (CURLU_GUESS_SCHEME \<in> flags \<or> CURLU_DEFAULT_SCHEME \<in> flags) of
        (schemelen, schemebuf) \<Rightarrow>
          if schemelen \<noteq> 0 \<and> schemebuf = ''file'' then
            (case parse_file mem url u of (ures, u1, path) \<Rightarrow> (ures, u1, None, path, True))
          else
            (case parse_scheme mem url u schemebuf schemelen flags of
               (ures, u1, hostp) \<Rightarrow>
                 if ures \<noteq> CURLUE_OK then (ures, u1, None, [], False)
                 else
                   (let hostlen = strcspn hostp ''/?#''; path = drop hostlen hostp in
                    if hostlen \<noteq> 0 then
                      (case parse_authority mem u1 (take hostlen hostp) flags (u_scheme u1 \<noteq> None) of
                         (ures, u2, host) \<Rightarrow>
                           if ures = CURLUE_OK \<and> CURLU_GUESS_SCHEME \<in> flags \<and> u_scheme u2 = None then
                             (case guess_scheme mem u2 host of (ures, u3) \<Rightarrow> (ures, u3, Some host, path, False))
                           else (ures, u2, Some host, path, False))
                    else if CURLU_NO_AUTHORITY \<in> flags then
                      (if mem 1 then (CURLUE_OK, u1, Some [], path, False)
                       else (CURLUE_OUT_OF_MEMORY, u1, None, path, False))
                    else (CURLUE_NO_HOST, u1, None, path, False))))"

text \<open>The second part: fragment, query and path.\<close>

definition parse_rest ::
  "memory \<Rightarrow> Curl_URL \<Rightarrow> bytes \<Rightarrow> urlflag set \<Rightarrow> bool \<Rightarrow> CURLUcode \<times> Curl_URL" where
  "parse_rest mem u path flags is_file =
     (case (case memchr path CHR ''#'' of
              None \<Rightarrow> (CURLUE_OK, u, path)
            | Some i \<Rightarrow> (case handle_fragment mem u (drop i path) flags of (ures, u1) \<Rightarrow> (ures, u1, take i path))) of
        (ures, u1, path1) \<Rightarrow>
          if ures \<noteq> CURLUE_OK then (ures, u1)
          else case (case memchr path1 CHR ''?'' of
                       None \<Rightarrow> (CURLUE_OK, u1, path1)
                     | Some i \<Rightarrow> (case handle_query mem u1 (drop i path1) flags of (ures, u2) \<Rightarrow> (ures, u2, take i path1))) of
                 (ures, u2, path2) \<Rightarrow>
                   if ures \<noteq> CURLUE_OK then (ures, u2)
                   else handle_path mem u2 path2 flags is_file)"

definition parseurl :: "memory \<Rightarrow> bytes \<Rightarrow> Curl_URL \<Rightarrow> urlflag set \<Rightarrow> CURLUcode + Curl_URL" where
  "parseurl mem url u flags =
     (let ures = Curl_junkscan url (CURLU_ALLOW_SPACE \<in> flags) in
      if ures \<noteq> CURLUE_OK then Inl ures
      else case parse_front mem url u flags of
             (ures, u1, host, path, is_file) \<Rightarrow>
               if ures \<noteq> CURLUE_OK then Inl ures
               else case parse_rest mem u1 path flags is_file of
                      (ures, u2) \<Rightarrow>
                        if ures \<noteq> CURLUE_OK then Inl ures else Inr (u2\<lparr>u_host := host\<rparr>))"

text \<open>The zeroed handle.\<close>

definition empty_url :: Curl_URL where
  "empty_url = \<lparr>u_scheme = None, u_user = None, u_password = None, u_options = None, u_host = None,
     u_zoneid = None, u_path = None, u_query = None, u_fragment = None, u_portnum = 0,
     u_port_present = False, u_query_present = False, u_fragment_present = False, u_guessed_scheme = False\<rparr>"

definition parseurl_and_replace :: "memory \<Rightarrow> bytes \<Rightarrow> Curl_URL \<Rightarrow> urlflag set \<Rightarrow> CURLUcode \<times> Curl_URL" where
  "parseurl_and_replace mem url u flags =
     (case parseurl mem url empty_url flags of
        Inl e \<Rightarrow> (e, u)
      | Inr tmpurl \<Rightarrow> (CURLUE_OK, tmpurl))"

text \<open>The place where the base URL is cut off, as a number of its bytes.\<close>

definition redirect_cutoff :: "bytes \<Rightarrow> bytes \<Rightarrow> Curl_URL \<Rightarrow> nat option" where
  "redirect_cutoff base relurl u =
     (let pre = length (case u_scheme u of Some s \<Rightarrow> s | None \<Rightarrow> DEFAULT_SCHEME) + 3;
          protsep = drop pre base
      in if peek relurl = CHR ''/'' then
           (if peek (drop 1 relurl) = CHR ''/'' then Some pre
            else map_option ((+) pre) (memchr protsep CHR ''/''))
         else if peek relurl = CHR ''#'' then
           (if u_fragment u \<noteq> None then map_option ((+) pre) (memchr protsep CHR ''#'') else None)
         else
           (let cutoff =
              (if u_query u \<noteq> None \<and> u_query u \<noteq> Some [] then memchr protsep CHR ''?''
               else if u_fragment u \<noteq> None \<and> u_fragment u \<noteq> Some [] then memchr protsep CHR ''#''
               else None)
            in if peek relurl \<noteq> CHR ''?'' then
                 map_option (\<lambda>i. pre + i + 1)
                   (memrchr (case cutoff of Some i \<Rightarrow> take i protsep | None \<Rightarrow> protsep) CHR ''/'')
               else map_option ((+) pre) cutoff))"

definition redirect_url :: "memory \<Rightarrow> bytes \<Rightarrow> bytes \<Rightarrow> Curl_URL \<Rightarrow> urlflag set \<Rightarrow> CURLUcode \<times> Curl_URL" where
  "redirect_url mem base relurl u flags =
     (let host_changed = (peek relurl = CHR ''/'' \<and> peek (drop 1 relurl) = CHR ''/'');
          useurl = (if host_changed then drop 2 relurl else relurl);
          prelen = (case redirect_cutoff base relurl u of Some n \<Rightarrow> n | None \<Rightarrow> length base)
      in case dyn_put mem CURL_MAX_INPUT_LENGTH [] (take prelen base) of
           Inl e \<Rightarrow> (CURLUE_OUT_OF_MEMORY, u)
         | Inr urlbuf \<Rightarrow>
             (case urlencode_str mem urlbuf useurl (\<not> host_changed) QUERY_NOT_YET of
                Inl e \<Rightarrow> (CURLUE_OUT_OF_MEMORY, u)
              | Inr urlbuf' \<Rightarrow> parseurl_and_replace mem urlbuf' u (flags - {CURLU_PATH_AS_IS})))"

end
