(* ===== verification/Idn.thy ===== *)
theory Idn
  imports Url_Base
begin

unbundle bit_operations_syntax

text \<open>
  International host names, from \<^verbatim>\<open>lib/idn.c\<close> as built with libidn2 (the Windows and macOS
  variants are other builds).  The library is the parameter \<open>idn2\<close>: its version check and its
  two conversions, which return a status and, on success, a string.  The other build option is
  no IDN support at all; the record of build choices in the theory \<open>Url_Parse\<close> covers it.
\<close>

datatype idn2_rc = IDN2_OK | IDN2_MALLOC | IDN2_OTHER

datatype idn2_flag = IDN2_NFC_INPUT | IDN2_NONTRANSITIONAL | IDN2_TRANSITIONAL

record idn2 =
  idn2_check_version :: bool
  idn2_lookup :: "bytes \<Rightarrow> idn2_flag set \<Rightarrow> idn2_rc \<times> bytes"
  idn2_to_unicode_8z8z :: "bytes \<Rightarrow> idn2_rc \<times> bytes"

definition Curl_is_ASCII_str :: "bytes \<Rightarrow> bool" where
  "Curl_is_ASCII_str s \<longleftrightarrow> (\<forall>c\<in>set s. code_of c AND 0x80 = 0)"

definition Curl_is_ASCII_name :: "bytes option \<Rightarrow> bool" where
  "Curl_is_ASCII_name hostname = (case hostname of Some s \<Rightarrow> Curl_is_ASCII_str s | None \<Rightarrow> True)"

definition idn_decode :: "idn2 \<Rightarrow> bytes \<Rightarrow> CURLcode + bytes" where
  "idn_decode lib input =
     (if idn2_check_version lib then
        (case idn2_lookup lib input {IDN2_NFC_INPUT, IDN2_NONTRANSITIONAL} of
           (IDN2_OK, decoded) \<Rightarrow> Inr decoded
         | _ \<Rightarrow> (case idn2_lookup lib input {IDN2_TRANSITIONAL} of
                  (IDN2_OK, decoded) \<Rightarrow> Inr decoded
                | _ \<Rightarrow> Inl CURLE_URL_MALFORMAT))
      else Inl CURLE_NOT_BUILT_IN)"

definition idn_encode :: "idn2 \<Rightarrow> bytes \<Rightarrow> CURLcode + bytes" where
  "idn_encode lib puny =
     (case idn2_to_unicode_8z8z lib puny of
        (IDN2_OK, enc) \<Rightarrow> Inr enc
      | (IDN2_MALLOC, _) \<Rightarrow> Inl CURLE_OUT_OF_MEMORY
      | _ \<Rightarrow> Inl CURLE_URL_MALFORMAT)"

definition Curl_idn_decode :: "memory \<Rightarrow> idn2 \<Rightarrow> bytes \<Rightarrow> CURLcode + bytes" where
  "Curl_idn_decode mem lib input =
     (case idn_decode lib input of
        Inl e \<Rightarrow> Inl e
      | Inr d \<Rightarrow>
          if \<not> mem (length d + 1) then Inl CURLE_OUT_OF_MEMORY
          else if d = [] then Inl CURLE_URL_MALFORMAT
          else Inr d)"

definition Curl_idn_encode :: "memory \<Rightarrow> idn2 \<Rightarrow> bytes \<Rightarrow> CURLcode + bytes" where
  "Curl_idn_encode mem lib puny =
     (case idn_encode lib puny of
        Inl e \<Rightarrow> Inl e
      | Inr d \<Rightarrow> if mem (length d + 1) then Inr d else Inl CURLE_OUT_OF_MEMORY)"

section \<open>The name of a host to connect to\<close>

record hostname =
  encalloc :: "bytes option"
  hn_name :: "bytes option"
  dispname :: "bytes option"

definition Curl_free_idnconverted_hostname :: "hostname \<Rightarrow> hostname" where
  "Curl_free_idnconverted_hostname host = host\<lparr>encalloc := None\<rparr>"

definition Curl_idnconvert_hostname :: "memory \<Rightarrow> idn2 \<Rightarrow> hostname \<Rightarrow> CURLcode \<times> hostname" where
  "Curl_idnconvert_hostname mem lib host0 =
     (let host = host0\<lparr>dispname := hn_name host0\<rparr> in
      case hn_name host of
        Some s \<Rightarrow>
          if \<not> Curl_is_ASCII_name (Some s) then
            (case Curl_idn_decode mem lib s of
               Inl e \<Rightarrow> (e, host)
             | Inr decoded \<Rightarrow> (CURLE_OK, host\<lparr>hn_name := Some decoded, encalloc := Some decoded\<rparr>))
          else (CURLE_OK, host)
      | None \<Rightarrow> (CURLE_OK, host))"

text \<open>
  A host name whose conversion succeeds is never empty unless it was so before, keeps its
  display name, and a plain ASCII name is left alone.
\<close>

lemma idnconvert_name:
  assumes "Curl_idnconvert_hostname mem lib host = (CURLE_OK, host')"
  shows "dispname host' = hn_name host \<and> (hn_name host' = Some [] \<longrightarrow> hn_name host = Some [])
     \<and> (Curl_is_ASCII_name (hn_name host) \<longrightarrow> hn_name host' = hn_name host)"
  using assms
  by (auto simp: Curl_idnconvert_hostname_def Curl_idn_decode_def Let_def split: option.splits sum.splits if_splits)

end
