(* ===== verification/Url_Api.thy ===== *)
theory Url_Api
  imports Url_Parse Idn
begin

text \<open>
  The URL API of \<^verbatim>\<open>lib/urlapi.c\<close>: handles, \<open>curl_url_get\<close>, \<open>curl_url_set\<close> and the
  comparison of origins.  A handle pointer is an option, \<open>None\<close> for NULL.  What the code
  leaves to the build or to the allocator is the record \<open>url_env\<close>: the memory, the allocator
  behind \<open>curl_easy_escape\<close>, which schemes have an implementation (the field \<open>run\<close> of a scheme)
  and the IDN library, if any.
\<close>

record url_env =
  e_mem :: memory
  e_ralloc :: reallocator
  e_run :: "Curl_scheme \<Rightarrow> bool"
  e_idn :: "idn2 option"

definition strdup :: "memory \<Rightarrow> bytes \<Rightarrow> bytes option" where
  "strdup mem s = (if mem (length s + 1) then Some s else None)"

section \<open>Handles\<close>

text \<open>The size of the structure counts in no decision of the model, so the block is one byte.\<close>

definition curl_url :: "url_env \<Rightarrow> Curl_URL option" where
  "curl_url env = (if e_mem env 1 then Some empty_url else None)"

definition curl_url_cleanup :: "Curl_URL option \<Rightarrow> Curl_URL option" where
  "curl_url_cleanup u = None"

definition dup_fails :: "url_env \<Rightarrow> bytes option \<Rightarrow> bool" where
  "dup_fails env name = (case name of Some s \<Rightarrow> strdup (e_mem env) s = None | None \<Rightarrow> False)"

definition curl_url_dup :: "url_env \<Rightarrow> Curl_URL \<Rightarrow> Curl_URL option" where
  "curl_url_dup env inp =
     (if \<not> e_mem env 1 then None
      else if list_ex (dup_fails env) [u_scheme inp, u_user inp, u_password inp, u_options inp, u_host inp,
                u_path inp, u_query inp, u_fragment inp, u_zoneid inp] then None
      else Some (empty_url\<lparr>u_scheme := u_scheme inp, u_user := u_user inp, u_password := u_password inp,
                  u_options := u_options inp, u_host := u_host inp, u_path := u_path inp, u_query := u_query inp,
                  u_fragment := u_fragment inp, u_zoneid := u_zoneid inp, u_portnum := u_portnum inp,
                  u_port_present := u_port_present inp, u_fragment_present := u_fragment_present inp,
                  u_query_present := u_query_present inp\<rparr>))"

section \<open>Reading\<close>

definition host_decode :: "url_env \<Rightarrow> bytes \<Rightarrow> CURLUcode + bytes" where
  "host_decode env host =
     (case e_idn env of
        None \<Rightarrow> Inl CURLUE_LACKS_IDN
      | Some lib \<Rightarrow>
          (case Curl_idn_decode (e_mem env) lib host of
             Inl e \<Rightarrow> Inl (if e = CURLE_OUT_OF_MEMORY then CURLUE_OUT_OF_MEMORY else CURLUE_BAD_HOSTNAME)
           | Inr s \<Rightarrow> Inr s))"

definition host_encode :: "url_env \<Rightarrow> bytes \<Rightarrow> CURLUcode + bytes" where
  "host_encode env host =
     (case e_idn env of
        None \<Rightarrow> Inl CURLUE_LACKS_IDN
      | Some lib \<Rightarrow>
          (case Curl_idn_encode (e_mem env) lib host of
             Inl e \<Rightarrow> Inl (if e = CURLE_OUT_OF_MEMORY then CURLUE_OUT_OF_MEMORY else CURLUE_BAD_HOSTNAME)
           | Inr s \<Rightarrow> Inr s))"

definition plus_to_space :: "bytes \<Rightarrow> bytes" where
  "plus_to_space s = map (\<lambda>c. if c = CHR ''+'' then CHR '' '' else c) s"

text \<open>
  The pointer stored through \<open>partp\<close>; after re-encoding it is the pointer of a dynbuf, which is
  NULL when nothing was added to it.
\<close>

definition urlget_format ::
  "url_env \<Rightarrow> Curl_URL \<Rightarrow> CURLUPart \<Rightarrow> bytes \<Rightarrow> bool \<Rightarrow> urlflag set \<Rightarrow> CURLUcode \<times> bytes option" where
  "urlget_format env u what ptr plusdecode flags =
     (let mem = e_mem env in
      if \<not> mem (length ptr + 1) then (CURLUE_OUT_OF_MEMORY, None)
      else
        (let part1 = (if plusdecode then plus_to_space ptr else ptr);
             decoded =
               (if CURLU_URLDECODE \<in> flags then
                  (case Curl_urldecode (mem (length part1 + 1)) part1 (length part1) REJECT_CTRL of
                     (CURLE_OK, Some d) \<Rightarrow> Inr d
                   | _ \<Rightarrow> Inl CURLUE_URLDECODE)
                else Inr part1)
         in case decoded of
              Inl e \<Rightarrow> (e, None)
            | Inr part2 \<Rightarrow>
                if CURLU_URLENCODE \<in> flags then
                  (case urlencode_str mem [] part2 True (if what = CURLUPART_QUERY then QUERY_YES else QUERY_NO) of
                     Inl e \<Rightarrow> (e, None)
                   | Inr enc \<Rightarrow> (CURLUE_OK, if enc = [] then None else Some enc))
                else if CURLU_PUNYCODE \<in> flags \<and> what = CURLUPART_HOST then
                  (if \<not> Curl_is_ASCII_name (u_host u) then
                     (case host_decode env part2 of Inl e \<Rightarrow> (e, None) | Inr puny \<Rightarrow> (CURLUE_OK, Some puny))
                   else (CURLUE_OK, Some part2))
                else if CURLU_PUNY2IDN \<in> flags \<and> what = CURLUPART_HOST then
                  (if Curl_is_ASCII_name (u_host u) then
                     (case host_encode env part2 of Inl e \<Rightarrow> (e, None) | Inr idn \<Rightarrow> (CURLUE_OK, Some idn))
                   else (CURLUE_OK, Some part2))
                else (CURLUE_OK, Some part2)))"

text \<open>\<open>curl_maprintf\<close> given the bytes the conversions produce; \<open>%s\<close> of NULL prints \<open>nilstr\<close>.\<close>

definition DYN_APRINTF :: nat where "DYN_APRINTF = 8000000"

definition maprintf :: "memory \<Rightarrow> bytes \<Rightarrow> bytes option" where
  "maprintf mem out = (case dyn_put mem DYN_APRINTF [] out of Inl e \<Rightarrow> None | Inr s \<Rightarrow> Some s)"

definition fmt_s :: "bytes option \<Rightarrow> bytes" where
  "fmt_s s = (case s of Some t \<Rightarrow> t | None \<Rightarrow> nilstr)"

text \<open>The value or the empty string.\<close>

definition or_blank :: "bytes option \<Rightarrow> bytes" where
  "or_blank s = (case s of Some t \<Rightarrow> t | None \<Rightarrow> [])"

definition file_url :: "memory \<Rightarrow> Curl_URL \<Rightarrow> bytes \<Rightarrow> bytes \<Rightarrow> CURLUcode \<times> bytes option" where
  "file_url mem u fragmentsep querysep =
     (case maprintf mem (''file://'' @ fmt_s (u_path u) @ querysep @ or_blank (u_query u) @
              fragmentsep @ or_blank (u_fragment u)) of
        None \<Rightarrow> (CURLUE_OUT_OF_MEMORY, None)
      | Some url \<Rightarrow> (CURLUE_OK, Some url))"

definition fragment_sep :: "Curl_URL \<Rightarrow> urlflag set \<Rightarrow> bytes" where
  "fragment_sep u flags =
     (if u_fragment u \<noteq> None \<or> u_fragment_present u \<and> CURLU_GET_EMPTY \<in> flags then ''#'' else [])"

definition query_sep :: "Curl_URL \<Rightarrow> urlflag set \<Rightarrow> bytes" where
  "query_sep u flags =
     (if u_query u \<noteq> None \<and> u_query u \<noteq> Some [] \<or> u_query_present u \<and> CURLU_GET_EMPTY \<in> flags
      then ''?'' else [])"

text \<open>\<open>curl_msnprintf\<close> of a port number into the buffer of seven bytes.\<close>

definition portbuf :: "nat \<Rightarrow> bytes" where
  "portbuf n = fst (snprintf_bytes 7 (print_u n))"

text \<open>The port the URL is printed with.\<close>

definition url_port :: "Curl_URL \<Rightarrow> Curl_scheme option \<Rightarrow> urlflag set \<Rightarrow> bytes option" where
  "url_port u h flags =
     (let port = (if u_port_present u then Some (portbuf (u_portnum u)) else None) in
      case h of
        None \<Rightarrow> port
      | Some sc \<Rightarrow>
          if \<not> u_port_present u \<and> CURLU_DEFAULT_PORT \<in> flags then Some (portbuf (sc_defport sc))
          else if u_port_present u \<and> sc_defport sc = u_portnum u \<and> CURLU_NO_DEFAULT_PORT \<in> flags then None
          else port)"

text \<open>The host the URL is printed with: \<open>None\<close> when it is the stored one.\<close>

definition url_host :: "url_env \<Rightarrow> Curl_URL \<Rightarrow> bytes \<Rightarrow> urlflag set \<Rightarrow> CURLUcode + bytes option" where
  "url_host env u host flags =
     (if peek host = CHR ''['' then
        (case u_zoneid u of
           None \<Rightarrow> Inr None
         | Some z \<Rightarrow>
             (case dyn_put (e_mem env) CURL_MAX_INPUT_LENGTH []
                     (take (length host - 1) host @ ''%25'' @ z @ '']'') of
                Inl e \<Rightarrow> Inl CURLUE_OUT_OF_MEMORY
              | Inr s \<Rightarrow> Inr (Some s)))
      else if CURLU_URLENCODE \<in> flags then
        (case curl_easy_escape (e_ralloc env) (e_mem env 1) (Some (host @ [NUL])) 0 of
           None \<Rightarrow> Inl CURLUE_OUT_OF_MEMORY
         | Some p \<Rightarrow> Inr (Some (c_string p)))
      else if CURLU_PUNYCODE \<in> flags then
        (if \<not> Curl_is_ASCII_name (Some host) then map_sum id Some (host_decode env host) else Inr None)
      else if CURLU_PUNY2IDN \<in> flags then
        (if Curl_is_ASCII_name (Some host) then map_sum id Some (host_encode env host) else Inr None)
      else Inr None)"

definition urlget_url :: "url_env \<Rightarrow> Curl_URL \<Rightarrow> urlflag set \<Rightarrow> CURLUcode \<times> bytes option" where
  "urlget_url env u flags =
     (let fragmentsep = fragment_sep u flags; querysep = query_sep u flags in
      if curl_strequal (Some ''file'') (u_scheme u) then file_url (e_mem env) u fragmentsep querysep
      else case u_host u of
             None \<Rightarrow> (CURLUE_NO_HOST, None)
           | Some host \<Rightarrow>
               (case (case u_scheme u of
                        Some s \<Rightarrow> Some s
                      | None \<Rightarrow> if CURLU_DEFAULT_SCHEME \<in> flags then Some DEFAULT_SCHEME else None) of
                  None \<Rightarrow> (CURLUE_NO_SCHEME, None)
                | Some scheme \<Rightarrow>
                    (let h = Curl_get_scheme scheme;
                         port = url_port u h flags;
                         options = (case h of
                                      Some sc \<Rightarrow> if PROTOPT_URLOPTIONS \<notin> sc_flags sc then None else u_options u
                                    | None \<Rightarrow> u_options u)
                     in case url_host env u host flags of
                          Inl e \<Rightarrow> (e, None)
                        | Inr allochost \<Rightarrow>
                            (let schemebuf =
                               (if CURLU_NO_GUESS_SCHEME \<notin> flags \<or> \<not> u_guessed_scheme u
                                then fst (snprintf_bytes (MAX_SCHEME_LEN + 5) (scheme @ ''://'')) else [])
                             in case maprintf (e_mem env)
                                  (schemebuf @
                                   or_blank (u_user u) @
                                   (if u_password u \<noteq> None then '':'' else []) @
                                   or_blank (u_password u) @
                                   (if options \<noteq> None then '';'' else []) @
                                   or_blank options @
                                   (if u_user u \<noteq> None \<or> u_password u \<noteq> None \<or> options \<noteq> None then ''@'' else []) @
                                   (case allochost of Some a \<Rightarrow> a | None \<Rightarrow> host) @
                                   (if port \<noteq> None then '':'' else []) @
                                   or_blank port @
                                   (case u_path u of Some p \<Rightarrow> p | None \<Rightarrow> ''/'') @
                                   querysep @
                                   or_blank (u_query u) @
                                   fragmentsep @
                                   or_blank (u_fragment u)) of
                                  None \<Rightarrow> (CURLUE_OUT_OF_MEMORY, None)
                                | Some url \<Rightarrow> (CURLUE_OK, Some url)))))"

text \<open>The port as \<open>curl_url_get\<close> gives it.\<close>

definition get_port_text :: "Curl_URL \<Rightarrow> urlflag set \<Rightarrow> bytes option" where
  "get_port_text u flags =
     (let h = (case u_scheme u of Some s \<Rightarrow> Curl_get_scheme s | None \<Rightarrow> None) in
      if u_port_present u then
        (case h of
           Some sc \<Rightarrow> if sc_defport sc = u_portnum u \<and> CURLU_NO_DEFAULT_PORT \<in> flags then None
                      else Some (portbuf (u_portnum u))
         | None \<Rightarrow> Some (portbuf (u_portnum u)))
      else if CURLU_DEFAULT_PORT \<in> flags \<and> u_scheme u \<noteq> None then
        (case h of Some sc \<Rightarrow> Some (portbuf (sc_defport sc)) | None \<Rightarrow> None)
      else None)"

text \<open>
  The parts are the constructors of \<open>CURLUPart\<close>, so the default branch of the switch is not
  reached.  \<open>partp\<close> says that the caller passes a pointer for the result.
\<close>

definition curl_url_get ::
  "url_env \<Rightarrow> Curl_URL option \<Rightarrow> CURLUPart \<Rightarrow> bool \<Rightarrow> urlflag set \<Rightarrow> CURLUcode \<times> bytes option" where
  "curl_url_get env handle what partp flags =
     (case handle of
        None \<Rightarrow> (CURLUE_BAD_HANDLE, None)
      | Some u \<Rightarrow>
          if \<not> partp then (CURLUE_BAD_PARTPOINTER, None)
          else
            (let found = (\<lambda>ptr ifmissing plusdecode fl.
                   case ptr of Some p \<Rightarrow> urlget_format env u what p plusdecode fl | None \<Rightarrow> (ifmissing, None))
             in case what of
                  CURLUPART_SCHEME \<Rightarrow>
                    if CURLU_NO_GUESS_SCHEME \<in> flags \<and> u_guessed_scheme u then (CURLUE_NO_SCHEME, None)
                    else found (u_scheme u) CURLUE_NO_SCHEME False (flags - {CURLU_URLDECODE})
                | CURLUPART_USER \<Rightarrow> found (u_user u) CURLUE_NO_USER False flags
                | CURLUPART_PASSWORD \<Rightarrow> found (u_password u) CURLUE_NO_PASSWORD False flags
                | CURLUPART_OPTIONS \<Rightarrow> found (u_options u) CURLUE_NO_OPTIONS False flags
                | CURLUPART_HOST \<Rightarrow> found (u_host u) CURLUE_NO_HOST False flags
                | CURLUPART_ZONEID \<Rightarrow> found (u_zoneid u) CURLUE_NO_ZONEID False flags
                | CURLUPART_PORT \<Rightarrow> found (get_port_text u flags) CURLUE_NO_PORT False (flags - {CURLU_URLDECODE})
                | CURLUPART_PATH \<Rightarrow>
                    found (Some (case u_path u of Some p \<Rightarrow> p | None \<Rightarrow> ''/'')) CURLUE_UNKNOWN_PART False flags
                | CURLUPART_QUERY \<Rightarrow>
                    found (if u_query u = Some [] \<and> CURLU_GET_EMPTY \<notin> flags then None else u_query u)
                      CURLUE_NO_QUERY (CURLU_URLDECODE \<in> flags) flags
                | CURLUPART_FRAGMENT \<Rightarrow>
                    found (if u_fragment u = None \<and> u_fragment_present u \<and> CURLU_GET_EMPTY \<in> flags then Some []
                           else u_fragment u)
                      CURLUE_NO_FRAGMENT False flags
                | CURLUPART_URL \<Rightarrow> urlget_url env u flags))"

section \<open>Writing\<close>

definition set_url_scheme :: "url_env \<Rightarrow> Curl_URL \<Rightarrow> bytes \<Rightarrow> urlflag set \<Rightarrow> CURLUcode \<times> Curl_URL" where
  "set_url_scheme env u scheme flags =
     (let plen = length scheme; h = Curl_get_scheme scheme in
      if plen > MAX_SCHEME_LEN \<or> plen < 1 then (CURLUE_BAD_SCHEME, u)
      else if CURLU_NON_SUPPORT_SCHEME \<notin> flags \<and> (case h of None \<Rightarrow> True | Some sc \<Rightarrow> \<not> e_run env sc)
      then (CURLUE_UNSUPPORTED_SCHEME, u)
      else if h = None \<and> \<not> (ISALPHA (peek scheme) \<and> list_all scheme_char (drop 1 scheme))
      then (CURLUE_BAD_SCHEME, u)
      else (CURLUE_OK, u\<lparr>u_guessed_scheme := False\<rparr>))"

definition set_url_port :: "Curl_URL \<Rightarrow> bytes \<Rightarrow> CURLUcode \<times> Curl_URL" where
  "set_url_port u provided_port =
     (if \<not> ISDIGIT (peek provided_port) then (CURLUE_BAD_PORT_NUMBER, u)
      else case curlx_str_number provided_port 0xffff of
             (rc, rest, port) \<Rightarrow>
               if rc \<noteq> STRE_OK \<or> rest \<noteq> [] then (CURLUE_BAD_PORT_NUMBER, u)
               else (CURLUE_OK, u\<lparr>u_portnum := nat port, u_port_present := True\<rparr>))"

definition set_url :: "url_env \<Rightarrow> Curl_URL \<Rightarrow> bytes \<Rightarrow> urlflag set \<Rightarrow> CURLUcode \<times> Curl_URL" where
  "set_url env u url flags =
     (if url = [] then
        (case curl_url_get env (Some u) CURLUPART_URL True flags of
           (uc, oldurl) \<Rightarrow>
             if uc = CURLUE_OK then (CURLUE_OK, u\<lparr>u_fragment := None, u_fragment_present := False\<rparr>)
             else if uc = CURLUE_OUT_OF_MEMORY then (uc, u)
             else (CURLUE_MALFORMED_INPUT, u))
      else if fst (Curl_is_absolute_url url (CURLU_GUESS_SCHEME \<in> flags \<or> CURLU_DEFAULT_SCHEME \<in> flags)) \<noteq> 0
      then parseurl_and_replace (e_mem env) url u flags
      else case curl_url_get env (Some u) CURLUPART_URL True (flags - {CURLU_NO_GUESS_SCHEME}) of
             (uc, oldurl) \<Rightarrow>
               if uc = CURLUE_OUT_OF_MEMORY then (uc, u)
               else if uc \<noteq> CURLUE_OK then parseurl_and_replace (e_mem env) url u flags
               else (case oldurl of
                       Some base \<Rightarrow> redirect_url (e_mem env) base url u flags
                     | None \<Rightarrow> (CURLUE_MALFORMED_INPUT, u)))"

definition urlset_clear :: "Curl_URL \<Rightarrow> CURLUPart \<Rightarrow> CURLUcode \<times> Curl_URL" where
  "urlset_clear u what =
     (CURLUE_OK,
      (case what of
         CURLUPART_URL \<Rightarrow> empty_url
       | CURLUPART_SCHEME \<Rightarrow> u\<lparr>u_scheme := None, u_guessed_scheme := False\<rparr>
       | CURLUPART_USER \<Rightarrow> u\<lparr>u_user := None\<rparr>
       | CURLUPART_PASSWORD \<Rightarrow> u\<lparr>u_password := None\<rparr>
       | CURLUPART_OPTIONS \<Rightarrow> u\<lparr>u_options := None\<rparr>
       | CURLUPART_HOST \<Rightarrow> u\<lparr>u_host := None\<rparr>
       | CURLUPART_ZONEID \<Rightarrow> u\<lparr>u_zoneid := None\<rparr>
       | CURLUPART_PORT \<Rightarrow> u\<lparr>u_portnum := 0, u_port_present := False\<rparr>
       | CURLUPART_PATH \<Rightarrow> u\<lparr>u_path := None\<rparr>
       | CURLUPART_QUERY \<Rightarrow> u\<lparr>u_query := None, u_query_present := False\<rparr>
       | CURLUPART_FRAGMENT \<Rightarrow> u\<lparr>u_fragment := None, u_fragment_present := False\<rparr>))"

definition allowed_in_path :: "char \<Rightarrow> bool" where
  "allowed_in_path x \<longleftrightarrow> x \<in> set (''!$&'' @ [CHR 0x27] @ ''(){}[]*+,;=:@/'')"

text \<open>One turn of the loop: the bytes added.\<close>

definition encode_piece :: "bool \<Rightarrow> bool \<Rightarrow> bool \<Rightarrow> char \<Rightarrow> bytes" where
  "encode_piece plusencode pathmode equalsencode c =
     (if c = CHR '' '' \<and> plusencode then ''+''
      else if ISUNRESERVED c \<or> pathmode \<and> allowed_in_path c \<or> c = CHR ''='' \<and> equalsencode then [c]
      else CHR ''%'' # Curl_hexbyte c)"

fun url_encode_part ::
  "memory \<Rightarrow> nat \<Rightarrow> bytes \<Rightarrow> bytes \<Rightarrow> bool \<Rightarrow> bool \<Rightarrow> bool \<Rightarrow> CURLUcode + bytes" where
  "url_encode_part mem lim enc [] plusencode pathmode equalsencode = Inr enc"
| "url_encode_part mem lim enc (c # part) plusencode pathmode equalsencode =
     (case dyn_put mem lim enc (encode_piece plusencode pathmode equalsencode c) of
        Inl e \<Rightarrow> Inl e
      | Inr enc' \<Rightarrow> url_encode_part mem lim enc' part plusencode pathmode (equalsencode \<and> c \<noteq> CHR ''=''))"

fun upper_hex :: "bytes \<Rightarrow> bytes" where
  "upper_hex (p # a # b # s) =
     (if p = CHR ''%'' \<and> ISXDIGIT a \<and> ISXDIGIT b \<and> (ISLOWER a \<or> ISLOWER b)
      then p # Curl_raw_toupper a # Curl_raw_toupper b # upper_hex s
      else p # upper_hex (a # b # s))"
| "upper_hex s = s"

definition url_uppercasehex_part :: "memory \<Rightarrow> nat \<Rightarrow> bytes \<Rightarrow> bytes \<Rightarrow> CURLUcode + bytes" where
  "url_uppercasehex_part mem lim enc part = map_sum id upper_hex (dyn_put mem lim enc part)"

definition url_append_query :: "memory \<Rightarrow> Curl_URL \<Rightarrow> bytes \<Rightarrow> CURLUcode \<times> Curl_URL" where
  "url_append_query mem u newp =
     (let query = or_blank (u_query u) in
      if query \<noteq> [] then
        (case dyn_puts mem CURL_MAX_INPUT_LENGTH [] ([query] @ (if last query \<noteq> CHR ''&'' then [''&''] else []) @ [newp]) of
           Inl e \<Rightarrow> (e, u)
         | Inr qbuf \<Rightarrow> (CURLUE_OK, u\<lparr>u_query := Some qbuf\<rparr>))
      else (CURLUE_OK, u\<lparr>u_query := Some newp\<rparr>))"

text \<open>The host is only checked here: what is stored is the string that was given.\<close>

definition url_sethost :: "memory \<Rightarrow> Curl_URL \<Rightarrow> bytes \<Rightarrow> bool \<Rightarrow> urlflag set \<Rightarrow> CURLUcode \<times> Curl_URL" where
  "url_sethost mem u newp urlencode flags =
     (case (if newp = [] then (CURLU_NO_AUTHORITY \<notin> flags, u)
            else if \<not> urlencode then
              (case Curl_urldecode (mem (length newp + 1)) newp (length newp) REJECT_CTRL of
                 (CURLE_OK, Some decoded) \<Rightarrow>
                   (case hostname_check mem u decoded of (uc, u', h) \<Rightarrow> (uc \<noteq> CURLUE_OK, u'))
               | _ \<Rightarrow> (True, u))
            else (case hostname_check mem u newp of (uc, u', h) \<Rightarrow> (uc \<noteq> CURLUE_OK, u'))) of
        (bad, u') \<Rightarrow> ((if bad then CURLUE_BAD_HOSTNAME else CURLUE_OK), u'))"

text \<open>The string a part becomes, \<open>None\<close> for the NULL pointer of a dynbuf nothing was added to.\<close>

definition encoded_part ::
  "memory \<Rightarrow> bytes \<Rightarrow> bool \<Rightarrow> bool \<Rightarrow> bool \<Rightarrow> bool \<Rightarrow> bool \<Rightarrow> CURLUcode + bytes option" where
  "encoded_part mem part urlencode plusencode pathmode leadingslash equalsencode =
     (let lim = length part * 3 + 1 + (if leadingslash then 1 else 0) in
      case (if leadingslash \<and> peek part \<noteq> CHR ''/'' then dyn_put mem lim [] ''/'' else Inr []) of
        Inl e \<Rightarrow> Inl e
      | Inr enc \<Rightarrow>
          if urlencode then
            map_sum id (\<lambda>s. if s = [] then None else Some s)
              (url_encode_part mem lim enc part plusencode pathmode equalsencode)
          else map_sum id Some (url_uppercasehex_part mem lim enc part))"

text \<open>The assignment through \<open>storep\<close>.\<close>

definition store_part :: "CURLUPart \<Rightarrow> bytes option \<Rightarrow> Curl_URL \<Rightarrow> Curl_URL" where
  "store_part what newp u =
     (case what of
        CURLUPART_SCHEME \<Rightarrow> u\<lparr>u_scheme := newp\<rparr>
      | CURLUPART_USER \<Rightarrow> u\<lparr>u_user := newp\<rparr>
      | CURLUPART_PASSWORD \<Rightarrow> u\<lparr>u_password := newp\<rparr>
      | CURLUPART_OPTIONS \<Rightarrow> u\<lparr>u_options := newp\<rparr>
      | CURLUPART_HOST \<Rightarrow> u\<lparr>u_host := newp\<rparr>
      | CURLUPART_ZONEID \<Rightarrow> u\<lparr>u_zoneid := newp\<rparr>
      | CURLUPART_PATH \<Rightarrow> u\<lparr>u_path := newp\<rparr>
      | CURLUPART_QUERY \<Rightarrow> u\<lparr>u_query := newp\<rparr>
      | CURLUPART_FRAGMENT \<Rightarrow> u\<lparr>u_fragment := newp\<rparr>
      | CURLUPART_PORT \<Rightarrow> u
      | CURLUPART_URL \<Rightarrow> u)"

text \<open>What the switch does to the handle before the part is encoded.\<close>

definition prepare_part :: "CURLUPart \<Rightarrow> Curl_URL \<Rightarrow> Curl_URL" where
  "prepare_part what u =
     (case what of
        CURLUPART_SCHEME \<Rightarrow> u\<lparr>u_guessed_scheme := False\<rparr>
      | CURLUPART_HOST \<Rightarrow> u\<lparr>u_zoneid := None\<rparr>
      | CURLUPART_QUERY \<Rightarrow> u\<lparr>u_query_present := True\<rparr>
      | CURLUPART_FRAGMENT \<Rightarrow> u\<lparr>u_fragment_present := True\<rparr>
      | _ \<Rightarrow> u)"

definition set_part :: "url_env \<Rightarrow> Curl_URL \<Rightarrow> CURLUPart \<Rightarrow> bytes \<Rightarrow> urlflag set \<Rightarrow> CURLUcode \<times> Curl_URL" where
  "set_part env u0 what part flags =
     (let mem = e_mem env;
          u = prepare_part what u0;
          urlencode = (CURLU_URLENCODE \<in> flags \<and> what \<noteq> CURLUPART_SCHEME);
          pathmode = (what = CURLUPART_PATH);
          appendquery = (what = CURLUPART_QUERY \<and> CURLU_APPENDQUERY \<in> flags)
      in case encoded_part mem part urlencode (what = CURLUPART_QUERY \<and> urlencode) pathmode pathmode appendquery of
           Inl e \<Rightarrow> (e, u)
         | Inr newp \<Rightarrow>
             if appendquery \<and> newp \<noteq> None then url_append_query mem u (or_blank newp)
             else case (if what = CURLUPART_HOST then url_sethost mem u (or_blank newp) urlencode flags
                        else (CURLUE_OK, u)) of
                    (status, u1) \<Rightarrow>
                      if status \<noteq> CURLUE_OK then (status, u1) else (CURLUE_OK, store_part what newp u1))"

definition curl_url_set ::
  "url_env \<Rightarrow> Curl_URL option \<Rightarrow> CURLUPart \<Rightarrow> bytes option \<Rightarrow> urlflag set \<Rightarrow> CURLUcode \<times> Curl_URL option" where
  "curl_url_set env handle what part flags =
     (case handle of
        None \<Rightarrow> (CURLUE_BAD_HANDLE, None)
      | Some u \<Rightarrow>
          (case part of
             None \<Rightarrow> apsnd Some (urlset_clear u what)
           | Some s \<Rightarrow>
               if length s > CURL_MAX_INPUT_LENGTH then (CURLUE_MALFORMED_INPUT, Some u)
               else if what = CURLUPART_SCHEME \<and> fst (set_url_scheme env u s flags) \<noteq> CURLUE_OK
               then apsnd Some (set_url_scheme env u s flags)
               else if what = CURLUPART_PORT then apsnd Some (set_url_port u s)
               else if what = CURLUPART_URL then apsnd Some (set_url env u s flags)
               else apsnd Some (set_part env u what s flags)))"

section \<open>Origins and ports\<close>

definition Curl_url_same_origin :: "Curl_URL \<Rightarrow> Curl_URL \<Rightarrow> bool" where
  "Curl_url_same_origin base href =
     (case (u_scheme base, u_host base) of
        (Some bs, Some bh) \<Rightarrow>
          if u_scheme href \<noteq> None \<and> \<not> curl_strequal (Some bs) (u_scheme href) then False
          else if u_host href \<noteq> None then
            (if \<not> curl_strequal (Some bh) (u_host href) then False
             else if (if u_port_present base \<noteq> u_port_present href then
                        (case Curl_get_scheme bs of
                           None \<Rightarrow> True
                         | Some s \<Rightarrow> u_port_present base \<and> u_portnum base \<noteq> sc_defport s
                                     \<or> u_port_present href \<and> u_portnum href \<noteq> sc_defport s)
                      else u_portnum base \<noteq> u_portnum href) then False
             else curl_strequal (Some (or_blank (u_zoneid base))) (Some (or_blank (u_zoneid href))))
          else \<not> u_port_present href
      | _ \<Rightarrow> False)"

definition Curl_url_get_port :: "Curl_URL \<Rightarrow> CURLUcode \<times> nat" where
  "Curl_url_get_port u =
     (if u_port_present u then (CURLUE_OK, u_portnum u)
      else case (case u_scheme u of Some s \<Rightarrow> Curl_get_scheme s | None \<Rightarrow> None) of
             Some s \<Rightarrow> if sc_defport s \<noteq> 0 then (CURLUE_OK, sc_defport s) else (CURLUE_NO_PORT, 0)
           | None \<Rightarrow> (CURLUE_NO_PORT, 0))"

end
