(* ===== verification/Url_Ipv4.thy ===== *)
theory Url_Ipv4
  imports Url_Host
begin

unbundle bit_operations_syntax

text \<open>
  What \<open>ipv4_normalize\<close> of \<^verbatim>\<open>lib/urlapi.c\<close> computes: the classic reading of a host as an
  IPv4 address, with one to four numbers in decimal, octal or hexadecimal, stated on the list
  of dot-separated fields of the host, and printed as four decimal numbers.
\<close>

section \<open>The reference\<close>

fun fields :: "bytes \<Rightarrow> bytes list" where
  "fields [] = [[]]"
| "fields (c # s) =
     (if c = CHR ''.'' then [] # fields s
      else case fields s of [] \<Rightarrow> [[c]] | f # fs \<Rightarrow> (c # f) # fs)"

definition digit_in :: "int \<Rightarrow> char \<Rightarrow> bool" where
  "digit_in b c \<longleftrightarrow>
     (if b = 16 then ISXDIGIT c else if b = 10 then ISDIGIT c else 48 \<le> code_of c \<and> code_of c \<le> 55)"

text \<open>The value of a field: a leading \<open>0x\<close> means hexadecimal, another leading zero octal.\<close>

definition field_base :: "bytes \<Rightarrow> int \<times> bytes" where
  "field_base f =
     (if take 2 f = ''0x'' \<or> take 2 f = ''0X'' then (16, drop 2 f)
      else if take 1 f = ''0'' then (8, f)
      else (10, f))"

definition field_value :: "bytes \<Rightarrow> nat option" where
  "field_value f =
     (case field_base f of
        (b, ds) \<Rightarrow>
          if ds = [] \<or> \<not> list_all (digit_in b) ds then None
          else if num_value b ds \<le> 2 ^ 32 - 1 then Some (nat (num_value b ds)) else None)"

text \<open>The address: every number but the last is one byte, the last one has the bytes left over.\<close>

definition aton :: "nat list \<Rightarrow> nat option" where
  "aton xs =
     (if xs = [] \<or> length xs > 4 \<or> \<not> list_all (\<lambda>x. x \<le> 255) (butlast xs) \<or> last xs \<ge> 256 ^ (5 - length xs) then None
      else Some (foldl (\<lambda>a x. a * 256 + x) 0 (butlast xs) * 256 ^ (5 - length xs) + last xs))"

definition quad :: "nat \<Rightarrow> nat list" where
  "quad a = [a div 2 ^ 24, a div 2 ^ 16 mod 256, a div 2 ^ 8 mod 256, a mod 256]"

text \<open>A dot after the last number is ignored.\<close>

definition number_fields :: "bytes \<Rightarrow> bytes list" where
  "number_fields host =
     (let fs = fields host in if length fs > 1 \<and> last fs = [] then butlast fs else fs)"

definition read_ipv4 :: "bytes \<Rightarrow> nat option" where
  "read_ipv4 host =
     (let vs = map field_value (number_fields host) in
      if None \<in> set vs then None else aton (map the vs))"

section \<open>Fields\<close>

definition dotjoin :: "bytes list \<Rightarrow> bytes" where
  "dotjoin fs = (case fs of [] \<Rightarrow> [] | f # gs \<Rightarrow> f @ concat (map (\<lambda>g. CHR ''.'' # g) gs))"

lemma dotjoin_simps [simp]: "dotjoin [f] = f" "dotjoin (f # g # gs) = f @ CHR ''.'' # dotjoin (g # gs)"
  by (simp_all add: dotjoin_def)

lemma fields_nonempty: "fields s \<noteq> []"
  by (induction s) (auto split: list.splits)

lemma dotjoin_Cons: "dotjoin ((c # f) # fs) = c # dotjoin (f # fs)"
  by (simp add: dotjoin_def)

lemma dotjoin_fields: "dotjoin (fields s) = s"
proof (induction s)
  case (Cons c s)
  obtain f fs where f: "fields s = f # fs" using fields_nonempty by (meson neq_Nil_conv)
  then show ?case using Cons by (simp add: dotjoin_Cons)
qed (simp add: dotjoin_def)

lemma fields_dotless: "\<forall>f\<in>set (fields s). CHR ''.'' \<notin> set f"
  by (induction s) (auto split: list.splits)

section \<open>One number\<close>

lemma digit_in_valid: "num_base b \<Longrightarrow> valid_digit c (max_digit b) \<longleftrightarrow> digit_in b c"
  by (auto simp: num_base_def max_digit_def digit_in_def valid_digit_hex valid_digit_dec valid_digit_oct)

lemma not_digit: "num_base b \<Longrightarrow> \<not> digit_in b CHR ''.''" "num_base b \<Longrightarrow> \<not> digit_in b NUL"
  by (auto simp: num_base_def digit_in_def ISXDIGIT_code ISDIGIT_code)

lemma str_num_digits:
  assumes "num_base b" "0 \<le> mx"
  shows "str_num_base line mx b =
     (let ds = takeWhile (digit_in b) line in
      if ds = [] then (STRE_NO_NUM, line, 0)
      else if num_value b ds \<le> mx then (STRE_OK, dropWhile (digit_in b) line, num_value b ds)
      else (STRE_OVERFLOW, line, 0))"
proof -
  have e: "(\<lambda>c. valid_digit c (max_digit b)) = digit_in b" using digit_in_valid [OF assms(1)] by (auto simp: fun_eq_iff)
  show ?thesis using str_num_base_eq [OF assms, of line] unfolding e .
qed

text \<open>
  Reading a number from a field followed by the rest of the host: the value of the field when
  it has one, and otherwise an error or a position inside the field.
\<close>

definition stops_at :: "bytes \<Rightarrow> bool" where
  "stops_at t \<longleftrightarrow> t = [] \<or> peek t = CHR ''.''"

lemma takeWhile_field:
  assumes "num_base b" "stops_at t"
  shows "takeWhile (digit_in b) (f @ t) = takeWhile (digit_in b) f"
    "list_all (digit_in b) f \<Longrightarrow> dropWhile (digit_in b) (f @ t) = t"
    "\<not> list_all (digit_in b) f \<Longrightarrow> dropWhile (digit_in b) (f @ t) = dropWhile (digit_in b) f @ t"
proof -
  have t: "takeWhile (digit_in b) t = []" "dropWhile (digit_in b) t = t"
    using assms not_digit [OF assms(1)] by (cases t; auto simp: stops_at_def)+
  show "takeWhile (digit_in b) (f @ t) = takeWhile (digit_in b) f"
    using t by (induction f) auto
  show "list_all (digit_in b) f \<Longrightarrow> dropWhile (digit_in b) (f @ t) = t"
    using t by (induction f) auto
  show "\<not> list_all (digit_in b) f \<Longrightarrow> dropWhile (digit_in b) (f @ t) = dropWhile (digit_in b) f @ t"
    by (induction f) auto
qed

definition bad_number :: "stre \<Rightarrow> bytes \<Rightarrow> bool" where
  "bad_number rc p \<longleftrightarrow> rc \<noteq> STRE_OK \<and> (rc \<noteq> STRE_NO_NUM \<or> p \<noteq> []) \<or> rc = STRE_OK \<and> p \<noteq> [] \<and> peek p \<noteq> CHR ''.''"

lemma str_num_field:
  assumes "num_base b" "stops_at t" "CHR ''.'' \<notin> set f" "f \<noteq> []"
  shows "case str_num_base (f @ t) UINT_MAX b of
     (rc, p, l) \<Rightarrow>
       if list_all (digit_in b) f \<and> num_value b f \<le> 2 ^ 32 - 1 then rc = STRE_OK \<and> p = t \<and> l = num_value b f
       else bad_number rc p"
proof (cases "list_all (digit_in b) f")
  case True
  then have "takeWhile (digit_in b) f = f" by (induction f) auto
  then have ft: "takeWhile (digit_in b) (f @ t) = f" "dropWhile (digit_in b) (f @ t) = t"
    using True takeWhile_field [OF assms(1,2), of f] by metis+
  have "str_num_base (f @ t) UINT_MAX b =
      (if num_value b f \<le> UINT_MAX then (STRE_OK, t, num_value b f) else (STRE_OVERFLOW, f @ t, 0))"
    using str_num_digits [OF assms(1), of UINT_MAX "f @ t"] assms(4) unfolding ft Let_def by (simp add: UINT_MAX_def)
  then show ?thesis using True by (simp add: UINT_MAX_def bad_number_def)
next
  case False
  have "dropWhile (digit_in b) f \<noteq> []" using False by (induction f) auto
  then obtain c r where d: "dropWhile (digit_in b) f = c # r" by (meson neq_Nil_conv)
  then have "c \<in> set f" by (metis in_set_dropD dropWhile_eq_drop list.set_intros(1))
  then have c: "c \<noteq> CHR ''.''" using assms(3) by auto
  have ft: "dropWhile (digit_in b) (f @ t) = c # r @ t" using False takeWhile_field(3) [OF assms(1,2), of f] d by simp
  show ?thesis using False str_num_digits [OF assms(1), of UINT_MAX "f @ t"] assms(4) c unfolding ft Let_def
    by (simp add: UINT_MAX_def bad_number_def)
qed

lemma tolower_x: "Curl_raw_tolower c = CHR ''x'' \<longleftrightarrow> c = CHR ''x'' \<or> c = CHR ''X''"
proof -
  have "Curl_raw_tolower c = CHR ''x'' \<longleftrightarrow> code_of (Curl_raw_tolower c) = code_of CHR ''x''"
    by (simp only: of_char_eq_iff)
  also have "\<dots> \<longleftrightarrow> code_of c = code_of CHR ''x'' \<or> code_of c = code_of CHR ''X''"
    by (auto simp: tolower_code ISUPPER_def char_le_code)
  finally show ?thesis by (simp only: of_char_eq_iff)
qed

lemma num_bases: "num_base 8" "num_base 10" "num_base 16"
  by (simp_all add: num_base_def)

lemma num_value_nonneg: "num_base b \<Longrightarrow> list_all (digit_in b) f \<Longrightarrow> 0 \<le> num_value b f"
  unfolding num_value_def using valid_digit_bounds [of b] digit_in_valid [of b]
  by (intro horner_nonneg) (auto simp: num_base_def list_all_iff)

lemma ipv4_number_field:
  assumes "stops_at t" "CHR ''.'' \<notin> set f" "f \<noteq> []"
  shows "(case field_value f of
       Some v \<Rightarrow> ipv4_number (f @ t) = Some (STRE_OK, t, int v)
     | None \<Rightarrow> (case ipv4_number (f @ t) of None \<Rightarrow> True | Some (rc, p, l) \<Rightarrow> bad_number rc p))"
proof -
  obtain c r where f: "f = c # r" using assms(3) by (cases f) auto
  have x: "Curl_raw_tolower (peek (r @ t)) = CHR ''x'' \<longleftrightarrow> take 1 r = ''x'' \<or> take 1 r = ''X''"
    using assms(1) by (cases r) (auto simp: tolower_x stops_at_def)
  have n: "nat v = w \<longleftrightarrow> v = int w" if "0 \<le> v" for v w using that by auto
  show ?thesis
  proof (cases "c = CHR ''0'' \<and> (take 1 r = ''x'' \<or> take 1 r = ''X'')")
    case True
    then obtain d q where r: "r = d # q" by (cases r) auto
    have fb: "field_base f = (16, q)" using True f r by (auto simp: field_base_def)
    show ?thesis
    proof (cases "q = []")
      case True
      have "takeWhile (digit_in 16) t = []"
        using takeWhile_field(1) [OF num_bases(3) assms(1), of "[]"] by simp
      then show ?thesis using True f r fb x \<open>c = CHR ''0'' \<and> _\<close>
        by (auto simp: field_value_def ipv4_number_def curlx_str_hex_def str_num_digits num_bases UINT_MAX_def Let_def)
    next
      case False
      have "CHR ''.'' \<notin> set q" using assms(2) f r by simp
      from str_num_field [OF num_bases(3) assms(1) this False] show ?thesis
        using f r fb x False \<open>c = CHR ''0'' \<and> _\<close> num_value_nonneg [OF num_bases(3), of q]
        by (auto simp: field_value_def ipv4_number_def curlx_str_hex_def bad_number_def split: if_splits prod.splits)
    qed
  next
    case False
    let ?b = "if c = CHR ''0'' then 8 else 10 :: int"
    have fb: "field_base f = (?b, f)" using False f by (cases r) (auto simp: field_base_def)
    have "ipv4_number (f @ t) = Some (str_num_base (f @ t) UINT_MAX ?b)"
      using False f x by (auto simp: ipv4_number_def curlx_str_octal_def curlx_str_number_def)
    moreover have b: "num_base ?b" by (simp add: num_bases)
    ultimately show ?thesis
      using str_num_field [OF b assms] fb assms(3) num_value_nonneg [OF b, of f]
      by (auto simp: field_value_def split: prod.splits)
  qed
qed

section \<open>The loop over the numbers\<close>

definition pad4 :: "nat list \<Rightarrow> int list" where
  "pad4 xs = map int xs @ replicate (4 - length xs) 0"

lemma pad4_step: "length xs < 4 \<Longrightarrow> (pad4 xs)[length xs := int v] = pad4 (xs @ [v])"
  by (simp add: pad4_def list_update_append Suc_diff_Suc [symmetric] replicate_append_same
      del: replicate_append_same)

fun collect :: "nat list \<Rightarrow> bytes list \<Rightarrow> nat list option" where
  "collect xs [] = None"
| "collect xs (f # fs) =
     (if f = [] then (if fs = [] \<and> xs \<noteq> [] then Some xs else None)
      else case field_value f of
             None \<Rightarrow> None
           | Some v \<Rightarrow>
               if fs = [] then Some (xs @ [v])
               else if length xs = 3 then (if fs = [[]] then Some (xs @ [v]) else None)
               else collect (xs @ [v]) fs)"

lemma field_value_Nil: "field_value [] = None"
  by (simp add: field_value_def field_base_def)

lemma ipv4_number_empty:
  assumes "stops_at t"
  shows "ipv4_number t = Some (STRE_NO_NUM, t, 0)"
proof -
  have "takeWhile (digit_in 10) t = []"
    using takeWhile_field(1) [OF num_bases(2) assms, of "[]"] by simp
  then show ?thesis using assms
    by (cases t) (auto simp: ipv4_number_def curlx_str_number_def str_num_digits num_bases UINT_MAX_def stops_at_def)
qed

lemma ipv4_loop_collect:
  assumes "fs \<noteq> []" "\<forall>f\<in>set fs. CHR ''.'' \<notin> set f" "length xs \<le> 3"
  shows "ipv4_loop (length xs) (pad4 xs) (dotjoin fs) = map_option (\<lambda>ys. (length ys - 1, pad4 ys)) (collect xs fs)"
  using assms
proof (induction xs fs rule: collect.induct)
  case (2 xs f fs)
  define t where "t = (if fs = [] then [] else CHR ''.'' # dotjoin fs)"
  have join: "dotjoin (f # fs) = f @ t" by (cases fs) (simp_all add: t_def)
  have t: "stops_at t" "t = [] \<longleftrightarrow> fs = []" by (simp_all add: t_def stops_at_def)
  have e: "dotjoin fs = [] \<longleftrightarrow> fs = [[]]" if "fs \<noteq> []"
    using that by (cases fs; cases "tl fs") auto
  show ?case
  proof (cases "f = []")
    case True
    then show ?thesis using ipv4_number_empty [OF t(1)] t(2) unfolding join
      by (simp add: ipv4_loop.simps [of "length xs" "pad4 xs" t])
  next
    case False
    have f: "CHR ''.'' \<notin> set f" using "2.prems" by simp
    note num = ipv4_number_field [OF t(1) f False]
    show ?thesis
    proof (cases "field_value f")
      case None
      then show ?thesis using num False unfolding join
        by (auto simp: ipv4_loop.simps [of "length xs" "pad4 xs" "f @ t"] bad_number_def split: option.splits)
    next
      case (Some v)
      then have n: "ipv4_number (f @ t) = Some (STRE_OK, t, int v)" using num by simp
      have p: "(pad4 xs)[length xs := int v] = pad4 (xs @ [v])" using "2.prems" by (simp add: pad4_step)
      have ih: "ipv4_loop (Suc (length xs)) (pad4 (xs @ [v])) (dotjoin fs)
          = map_option (\<lambda>ys. (length ys - 1, pad4 ys)) (collect (xs @ [v]) fs)" if "fs \<noteq> []" "length xs \<noteq> 3"
        using "2.IH" [OF False Some that] "2.prems" that by simp
      show ?thesis using n p ih e False Some "2.prems" unfolding join
        by (simp add: ipv4_loop.simps [of "length xs" "pad4 xs" "f @ t"]) (auto simp: t_def)
    qed
  qed
qed simp

text \<open>The numbers collected are the values of the fields.\<close>

definition field_numbers :: "bytes list \<Rightarrow> nat list option" where
  "field_numbers fs =
     (let gs = (if length fs > 1 \<and> last fs = [] then butlast fs else fs); vs = map field_value gs in
      if None \<in> set vs then None else Some (map the vs))"

lemma field_numbers_simps:
  "field_numbers [f] = (case field_value f of None \<Rightarrow> None | Some v \<Rightarrow> Some [v])"
  "field_numbers (f # g # gs) =
     (case field_value f of
        None \<Rightarrow> None
      | Some v \<Rightarrow> if gs = [] \<and> g = [] then Some [v] else map_option (Cons v) (field_numbers (g # gs)))"
  by (auto simp: field_numbers_def field_value_Nil Let_def split: option.splits)

lemma collect_numbers:
  assumes "fs \<noteq> []" "fs \<noteq> [[]] \<or> xs = []" "length xs \<le> 3"
  shows "collect xs fs = (case field_numbers fs of
       None \<Rightarrow> None | Some vs \<Rightarrow> if length (xs @ vs) \<le> 4 then Some (xs @ vs) else None)"
  using assms
proof (induction fs arbitrary: xs)
  case (Cons f fs)
  show ?case
  proof (cases fs)
    case Nil
    then show ?thesis using Cons.prems by (auto simp: field_numbers_simps field_value_Nil split: option.splits)
  next
    case (Cons g gs)
    show ?thesis
    proof (cases "field_value f")
      case None
      then show ?thesis using Cons by (simp add: field_numbers_simps)
    next
      case (Some v)
      then have ne: "f \<noteq> []" using field_value_Nil by auto
      have len: "field_numbers (g # gs) = Some vs \<Longrightarrow> vs \<noteq> []" for vs
        by (cases gs) (auto simp: field_numbers_simps split: option.splits if_splits)
      show ?thesis
      proof (cases "g = [] \<and> gs = []")
        case True
        then show ?thesis using Cons Some ne Cons.prems by (simp add: field_numbers_simps)
      next
        case False
        then have "collect (xs @ [v]) fs = (case field_numbers fs of None \<Rightarrow> None
            | Some vs \<Rightarrow> if length ((xs @ [v]) @ vs) \<le> 4 then Some ((xs @ [v]) @ vs) else None)" if "length xs \<noteq> 3"
          using Cons.IH [of "xs @ [v]"] Cons.prems Cons that by auto
        then show ?thesis using Cons Some ne Cons.prems False len
          by (auto simp: field_numbers_simps split: option.splits)
      qed
    qed
  qed
qed simp

section \<open>The text\<close>

lemma print_u_dec: "print_u n = dec n"
proof -
  have ne: "0 < n \<Longrightarrow> 0 < length (dec_loop n [])"
    by (simp add: dec_loop_unfold)
  have z: "dec_loop 0 [] = []" by (simp add: dec_loop.simps)
  show ?thesis using ne
    by (auto simp: print_u_def dec_def out_number_def fmt_u_def num_radix_def num_signed_def
        num_digits_def magnitude_def pad_def BUFFSIZE_def z Let_def not_less
        simp flip: length_greater_0_conv)
qed

lemma print_quad_dotted: "print_quad a b c d = dotted [a, b, c, d]"
  by (simp add: print_quad_def dotted_def print_u_dec)

lemma octet_shift: "0 < m \<Longrightarrow> (a * (m * 256) + b) div m mod 256 = b div m mod 256" for a b m :: nat
proof -
  assume m: "0 < m"
  have "a * (m * 256) + b = b + m * (a * 256)" by simp
  then have "(a * (m * 256) + b) div m = a * 256 + b div m" using m by (simp only: div_mult_self2)
  then show ?thesis by simp
qed

lemma quad_parts:
  "b < 2 ^ 24 \<Longrightarrow> quad (a * 2 ^ 24 + b) = [a, b div 2 ^ 16 mod 256, b div 2 ^ 8 mod 256, b mod 256]"
  using less_mult_imp_div_less [of b 256 65536] octet_shift [of "2 ^ 16" a b] octet_shift [of "2 ^ 8" "a * 2 ^ 8" b] octet_shift [of 1 "a * 2 ^ 16" b]
  by (simp add: quad_def algebra_simps)

lemma ipv4_text_aton:
  assumes "ys \<noteq> []" "length ys \<le> 4" "\<forall>y\<in>set ys. y < 2 ^ 32"
  shows "ipv4_text (length ys - 1) (pad4 ys) = map_option (\<lambda>a. dotted (quad a)) (aton ys)"
proof -
  consider a where "ys = [a]" | a b where "ys = [a, b]" | a b c where "ys = [a, b, c]" | a b c d where "ys = [a, b, c, d]"
    using assms(1,2) by (cases ys; cases "tl ys"; cases "tl (tl ys)"; cases "tl (tl (tl ys))"; auto)
  then show ?thesis
  proof cases
    case 1
    then have "a div 2 ^ 24 < 256" using assms(3) by (simp add: less_mult_imp_div_less)
    then show ?thesis using 1 assms(3)
      by (simp add: ipv4_text_def pad4_def aton_def quad_def print_quad_dotted and_masks drop_bit_eq_div Let_def)
  next
    case 2
    then show ?thesis using quad_parts [of b a]
      by (auto simp: ipv4_text_def pad4_def aton_def print_quad_dotted and_masks drop_bit_eq_div Let_def)
  next
    case 3
    have "quad (a * 2 ^ 24 + (b * 2 ^ 16 + c)) = [a, b, c div 2 ^ 8 mod 256, c mod 256]" if "b \<le> 255" "c \<le> 65535"
      using quad_parts [of "b * 2 ^ 16 + c" a] octet_shift [of "2 ^ 8" b c] octet_shift [of 1 "b * 2 ^ 8" c] that
      by (simp add: algebra_simps)
    then show ?thesis using 3
      by (auto simp: ipv4_text_def pad4_def aton_def print_quad_dotted and_masks drop_bit_eq_div Let_def algebra_simps)
  next
    case 4
    have "quad (a * 2 ^ 24 + (b * 2 ^ 16 + (c * 2 ^ 8 + d))) = [a, b, c, d]" if "b \<le> 255" "c \<le> 255" "d \<le> 255"
      using quad_parts [of "b * 2 ^ 16 + (c * 2 ^ 8 + d)" a] octet_shift [of "2 ^ 8" b "c * 2 ^ 8 + d"]
        octet_shift [of 1 "b * 2 ^ 8 + c" d] that
      by (simp add: algebra_simps)
    then show ?thesis using 4
      by (auto simp: ipv4_text_def pad4_def aton_def print_quad_dotted Let_def algebra_simps)
  qed
qed

lemma foldl_bytes: "list_all (\<lambda>x. x \<le> 255) xs \<Longrightarrow> foldl (\<lambda>a x. a * 256 + x) 0 xs < 256 ^ length xs" for xs :: "nat list"
proof (induction xs rule: rev_induct)
  case (snoc x xs)
  then have "foldl (\<lambda>a x. a * 256 + x) 0 xs + 1 \<le> 256 ^ length xs" "x \<le> 255" by simp_all
  then have "(foldl (\<lambda>a x. a * 256 + x) 0 xs + 1) * 256 \<le> 256 ^ length xs * 256" by (intro mult_right_mono) simp_all
  then show ?case using \<open>x \<le> 255\<close> by simp
qed simp

lemma aton_less: "aton ys = Some a \<Longrightarrow> a < 2 ^ 32"
proof -
  assume a: "aton ys = Some a"
  let ?h = "foldl (\<lambda>a x. a * 256 + x) 0 (butlast ys)" and ?k = "length ys" and ?m = "256 ^ (5 - length ys) :: nat"
  have k: "1 \<le> ?k" "?k \<le> 4" and h: "?h < 256 ^ (?k - 1)" and l: "last ys < ?m" and v: "a = ?h * ?m + last ys"
    using a foldl_bytes [of "butlast ys"] by (auto simp: aton_def Suc_le_eq split: if_splits)
  have "(?h + 1) * ?m \<le> 256 ^ (?k - 1) * ?m" using h by (intro mult_right_mono) simp_all
  also have "\<dots> = 256 ^ 4" using k by (simp flip: power_add)
  finally show ?thesis using l v by simp
qed

lemma quad_octets: "a < 2 ^ 32 \<Longrightarrow> octets 4 (quad a)"
  by (auto simp: octets_def quad_def less_mult_imp_div_less)

lemma field_value_less: "field_value f = Some v \<Longrightarrow> v < 2 ^ 32"
  by (auto simp: field_value_def split: prod.splits if_splits)

lemma field_numbers_less: "field_numbers fs = Some vs \<Longrightarrow> \<forall>v\<in>set vs. v < 2 ^ 32"
proof (intro ballI)
  fix v assume a: "field_numbers fs = Some vs" and v: "v \<in> set vs"
  obtain gs where g: "None \<notin> set (map field_value gs)" "vs = map the (map field_value gs)"
    using a unfolding field_numbers_def Let_def by (auto split: if_splits)
  then obtain f where f: "f \<in> set gs" "v = the (field_value f)" using v by auto
  then have "field_value f \<noteq> None" using g(1) by (metis image_eqI set_map)
  then show "v < 2 ^ 32" using f field_value_less by auto
qed

lemma field_numbers_ne: "fs \<noteq> [] \<Longrightarrow> field_numbers fs = Some vs \<Longrightarrow> vs \<noteq> []"
  by (cases fs; cases "tl fs") (auto simp: field_numbers_simps split: option.splits if_splits)

lemma read_ipv4_numbers: "read_ipv4 host = (case field_numbers (fields host) of None \<Rightarrow> None | Some vs \<Rightarrow> aton vs)"
  by (simp add: read_ipv4_def field_numbers_def number_fields_def Let_def)

lemma ipv4_loop_text:
  "(case ipv4_loop 0 [0, 0, 0, 0] host of None \<Rightarrow> None | Some (n, parts) \<Rightarrow> ipv4_text n parts)
     = map_option (\<lambda>a. dotted (quad a)) (read_ipv4 host)"
proof -
  have "pad4 [] = [0, 0, 0, 0]" by (simp add: pad4_def numeral_eq_Suc)
  then have l: "ipv4_loop 0 [0, 0, 0, 0] host = map_option (\<lambda>ys. (length ys - 1, pad4 ys)) (collect [] (fields host))"
    using ipv4_loop_collect [OF fields_nonempty fields_dotless, of "[]" host] by (simp add: dotjoin_fields)
  have c: "collect [] (fields host) = (case field_numbers (fields host) of
      None \<Rightarrow> None | Some vs \<Rightarrow> if length vs \<le> 4 then Some vs else None)"
    using collect_numbers [of "fields host" "[]", OF fields_nonempty] unfolding append_Nil by simp
  show ?thesis
  proof (cases "field_numbers (fields host)")
    case None
    then show ?thesis by (simp add: l c read_ipv4_numbers)
  next
    case (Some vs)
    note vs = field_numbers_ne [OF fields_nonempty Some] field_numbers_less [OF Some]
    have "aton vs = None" if "\<not> length vs \<le> 4" using that by (simp add: aton_def)
    then show ?thesis using Some ipv4_text_aton [OF vs(1) _ vs(2)] by (simp add: l c read_ipv4_numbers)
  qed
qed

section \<open>Printing is canonical\<close>

text \<open>The fields of a dotted quad are its numbers, without a leading zero.\<close>

lemma fields_append: "CHR ''.'' \<notin> set f \<Longrightarrow> fields (f @ CHR ''.'' # s) = f # fields s"
  by (induction f) auto

lemma fields_plain: "CHR ''.'' \<notin> set f \<Longrightarrow> fields f = [f]"
  by (induction f) auto

lemma dec_no_dot: "CHR ''.'' \<notin> set (dec n)"
  using dec_digits [of n] dg_dot by auto

lemma num_value_dec: "num_value 10 (dec n) = int n"
  using dec_loop_value [of n] by (auto simp: dec_def num_value_def horner_def curlx_hexval_def curlx_hexasciitable_def)

lemma field_value_dec:
  assumes "n < 256"
  shows "field_value (dec n) = Some n"
proof (cases "n = 0")
  case True
  have "num_value 8 ''0'' = 0" by (simp add: num_value_def horner_def curlx_hexval_def curlx_hexasciitable_def)
  then show ?thesis using True by (simp add: dec_def field_value_def field_base_def digit_in_def)
next
  case False
  let ?d = "if n < 10 then n else if n < 100 then n div 10 else n div 100"
  have d: "?d < 10" "?d \<noteq> 0" using assms False by auto
  have "hd (dec n) = dg ?d" using assms by (simp add: dec_octet)
  then have "code_of (hd (dec n)) \<noteq> code_of CHR ''0''" using dg(1) [OF d(1)] d(2) by simp
  then have h: "hd (dec n) \<noteq> CHR ''0''" by auto
  have ne: "dec n \<noteq> []" using dec_length [OF assms] by auto
  then have "field_base (dec n) = (10, dec n)" using h by (cases "dec n") (auto simp: field_base_def)
  moreover have "list_all (digit_in 10) (dec n)" using dec_digits [of n] by (simp add: list_all_iff digit_in_def)
  ultimately show ?thesis using assms ne by (simp add: field_value_def num_value_dec)
qed

lemma read_ipv4_dotted:
  assumes "a < 2 ^ 32"
  shows "read_ipv4 (dotted (quad a)) = Some a"
proof -
  obtain b c d e where q: "quad a = [b, c, d, e]" "b < 256" "c < 256" "d < 256" "e < 256"
    using octets4 [OF quad_octets [OF assms]] by blast
  have f: "fields (dotted (quad a)) = [dec b, dec c, dec d, dec e]"
    by (simp add: q(1) dotted_def fields_append fields_plain dec_no_dot)
  have "dec e \<noteq> []" using dec_length [OF q(5)] by auto
  then have "field_numbers (fields (dotted (quad a))) = Some [b, c, d, e]"
    using q unfolding f by (simp add: field_numbers_def field_value_dec)
  moreover have "aton [b, c, d, e] = Some a"
  proof -
    have "a = a div 256 * 256 + a mod 256" "a div 256 = a div 256 div 256 * 256 + a div 256 mod 256"
      "a div 256 div 256 = a div 256 div 256 div 256 * 256 + a div 256 div 256 mod 256"
      by (simp_all only: div_mult_mod_eq)
    moreover have "b = a div 256 div 256 div 256" "c = a div 256 div 256 mod 256" "d = a div 256 mod 256" "e = a mod 256"
      using q(1) by (simp_all add: quad_def div_mult2_eq [symmetric])
    ultimately have "a = ((b * 256 + c) * 256 + d) * 256 + e" by simp
    then show ?thesis using q(2-) by (simp add: aton_def)
  qed
  ultimately show ?thesis by (simp add: read_ipv4_numbers)
qed

text \<open>The function as a whole.\<close>

lemma read_ipv4_less: "read_ipv4 h = Some a \<Longrightarrow> a < 2 ^ 32"
  using aton_less by (auto simp: read_ipv4_numbers split: option.splits)

lemma ipv4_normalize_eq:
  assumes "peek h \<noteq> CHR ''[''"
  shows "ipv4_normalize plenty h =
     (case read_ipv4 h of None \<Rightarrow> (HOST_NAME, h) | Some a \<Rightarrow> (HOST_IPV4, dotted (quad a)))"
proof (cases "read_ipv4 h")
  case None
  then show ?thesis using ipv4_loop_text [of h] assms
    by (auto simp: ipv4_normalize_def split: option.splits)
next
  case (Some a)
  have len: "length (dotted (quad a)) < CURL_MAX_INPUT_LENGTH"
    using dotted_length [OF quad_octets [OF read_ipv4_less [OF Some]]] by (simp add: CURL_MAX_INPUT_LENGTH_def)
  obtain n ps where "ipv4_loop 0 [0, 0, 0, 0] h = Some (n, ps)" "ipv4_text n ps = Some (dotted (quad a))"
    using ipv4_loop_text [of h] Some by (auto split: option.splits)
  then show ?thesis using assms Some len by (simp add: ipv4_normalize_def dyn_put_plenty)
qed

lemma dotted_quad_peek: "a < 2 ^ 32 \<Longrightarrow> peek (dotted (quad a)) \<noteq> CHR ''[''"
proof -
  assume a: "a < 2 ^ 32"
  obtain b c d e where q: "quad a = [b, c, d, e]" "b < 256" using octets4 [OF quad_octets [OF a]] by blast
  show ?thesis using dec_length [OF q(2)] dec_digits [of b]
    by (cases "dec b") (auto simp: q dotted_def ISDIGIT_code)
qed

section \<open>Properties\<close>

text \<open>
  C34: every spelling of an IPv4 address.  A host that does not start with a bracket is taken
  for an IPv4 address exactly when its dot-separated fields, a final dot ignored, are one to
  four decimal, octal or hexadecimal numbers that fit: one byte for each number but the last
  and the remaining bytes for the last.  It is then replaced with the address as four decimal
  numbers, a text of at most 15 characters that stands for the same address and is left alone
  by a second run; any other host is left as it is.
\<close>

theorem ipv4_normalize_exact:
  assumes "peek host \<noteq> CHR ''[''"
  shows "ipv4_normalize plenty host =
       (case read_ipv4 host of None \<Rightarrow> (HOST_NAME, host) | Some a \<Rightarrow> (HOST_IPV4, dotted (quad a)))
     \<and> (\<forall>a. read_ipv4 host = Some a \<longrightarrow> a < 2 ^ 32 \<and> length (dotted (quad a)) \<le> 15
          \<and> inet_pton4 (dotted (quad a)) = Some (quad a)
          \<and> ipv4_normalize plenty (dotted (quad a)) = (HOST_IPV4, dotted (quad a)))"
proof -
  have "a < 2 ^ 32 \<and> length (dotted (quad a)) \<le> 15 \<and> inet_pton4 (dotted (quad a)) = Some (quad a)
      \<and> ipv4_normalize plenty (dotted (quad a)) = (HOST_IPV4, dotted (quad a))" if "read_ipv4 host = Some a" for a
    using read_ipv4_less [OF that] ipv4_normalize_eq [OF dotted_quad_peek] read_ipv4_dotted
      dotted_length [OF quad_octets] pton4_dotted [OF quad_octets] by simp
  then show ?thesis using ipv4_normalize_eq [OF assms] by blast
qed

theorem ipv4_normalize_exact_witness:
  "ipv4_normalize plenty ''0x7f.1'' = (HOST_IPV4, ''127.0.0.1'')
   \<and> ipv4_normalize plenty ''1.2.3.256'' = (HOST_NAME, ''1.2.3.256'')"
proof -
  have "read_ipv4 ''0x7f.1'' = Some 2130706433" "read_ipv4 ''1.2.3.256'' = None"
    by (simp_all add: read_ipv4_def number_fields_def field_value_def field_base_def digit_in_def ISXDIGIT_code
        ISDIGIT_code num_value_def horner_def curlx_hexval_def curlx_hexasciitable_def aton_def)
  moreover have "dotted (quad 2130706433) = ''127.0.0.1''"
    by (simp add: quad_def dotted_def dec_octet) code_simp
  ultimately show ?thesis using ipv4_normalize_exact [of "''0x7f.1''"] ipv4_normalize_exact [of "''1.2.3.256''"] by simp
qed

end
