(* ===== verification/Url_Wf.thy ===== *)
theory Url_Wf
  imports Url_Api Url_Ipv4 Curl_Range
begin

unbundle bit_operations_syntax

text \<open>
  The invariant of URL handles: what holds of every handle the API can produce, whatever calls
  were made with whatever arguments, and whether they succeeded or failed.
\<close>

section \<open>The invariant\<close>

definition scheme_ok :: "bytes \<Rightarrow> bool" where
  "scheme_ok s \<longleftrightarrow> length s \<le> MAX_SCHEME_LEN \<and> ISALPHA (peek s) \<and> list_all scheme_char s"

text \<open>
  The host as it reads when decoded: either a name without any of the characters that end or
  structure an authority, or something that starts with a bracket and has no control bytes.
\<close>

definition host_ok :: "bytes \<Rightarrow> bool" where
  "host_ok h \<longleftrightarrow>
     (let d = pct_decode h in
      (\<forall>c\<in>set d. c \<notin> set HOSTNAME_INVALID_CHARS) \<or> peek d = CHR ''['' \<and> (\<forall>c\<in>set d. 32 \<le> code_of c))"

definition wf_url :: "Curl_URL \<Rightarrow> bool" where
  "wf_url u \<longleftrightarrow>
     (\<forall>s. u_scheme u = Some s \<longrightarrow> scheme_ok s)
     \<and> (\<forall>h. u_host u = Some h \<longrightarrow> host_ok h)
     \<and> (\<forall>p. u_path u = Some p \<longrightarrow> peek p = CHR ''/'')
     \<and> u_portnum u < 65536 \<and> (\<not> u_port_present u \<longrightarrow> u_portnum u = 0)
     \<and> (u_query u \<noteq> None \<longrightarrow> u_query_present u)
     \<and> (u_fragment u \<noteq> None \<longrightarrow> u_fragment_present u)
     \<and> (u_guessed_scheme u \<longrightarrow> u_scheme u \<noteq> None)"

lemma wf_url_empty: "wf_url empty_url"
  by (simp add: wf_url_def empty_url_def)

lemma wf_url_login [simp]:
  "wf_url (u\<lparr>u_user := x\<rparr>) = wf_url u" "wf_url (u\<lparr>u_password := x\<rparr>) = wf_url u"
  "wf_url (u\<lparr>u_options := x\<rparr>) = wf_url u" "wf_url (u\<lparr>u_zoneid := x\<rparr>) = wf_url u"
  by (simp_all add: wf_url_def)

lemma wf_url_updates:
  assumes "wf_url u"
  shows "n < 65536 \<Longrightarrow> wf_url (u\<lparr>u_portnum := n, u_port_present := True\<rparr>)"
    "wf_url (u\<lparr>u_portnum := 0, u_port_present := False\<rparr>)"
    "scheme_ok s \<Longrightarrow> wf_url (u\<lparr>u_scheme := Some s\<rparr>)"
    "wf_url (u\<lparr>u_guessed_scheme := False\<rparr>)"
    "wf_url (u\<lparr>u_scheme := None, u_guessed_scheme := False\<rparr>)"
    "u_scheme u \<noteq> None \<Longrightarrow> wf_url (u\<lparr>u_guessed_scheme := True\<rparr>)"
    "host_ok h \<Longrightarrow> wf_url (u\<lparr>u_host := Some h\<rparr>)" "wf_url (u\<lparr>u_host := None\<rparr>)"
    "peek p = CHR ''/'' \<Longrightarrow> wf_url (u\<lparr>u_path := Some p\<rparr>)" "wf_url (u\<lparr>u_path := None\<rparr>)"
    "wf_url (u\<lparr>u_query_present := True\<rparr>)" "wf_url (u\<lparr>u_fragment_present := True\<rparr>)"
    "u_query_present u \<Longrightarrow> wf_url (u\<lparr>u_query := q\<rparr>)" "wf_url (u\<lparr>u_query := None, u_query_present := False\<rparr>)"
    "u_fragment_present u \<Longrightarrow> wf_url (u\<lparr>u_fragment := f\<rparr>)"
    "wf_url (u\<lparr>u_fragment := None, u_fragment_present := False\<rparr>)"
  using assms by (auto simp: wf_url_def)

section \<open>Characters of addresses\<close>

definition address_char :: "char \<Rightarrow> bool" where
  "address_char c \<longleftrightarrow> ISXDIGIT c \<or> c = CHR '':'' \<or> c = CHR ''.''"

lemma dec_address: "list_all address_char (dec n)"
  using dec_digits [of n] by (auto simp: list_all_iff address_char_def ISXDIGIT_code ISDIGIT_code)

lemma list_all_takeI: "list_all P xs \<Longrightarrow> list_all P (take n xs)"
  by (auto simp: list_all_iff dest: in_set_takeD)

lemma ntop4_address: "inet_ntop4 src sz = Some t \<Longrightarrow> list_all address_char t"
proof -
  assume "inet_ntop4 src sz = Some t"
  moreover have "address_char CHR ''.''" by (simp add: address_char_def)
  ultimately show ?thesis
    by (auto simp: inet_ntop4_def Let_def snprintf_bytes_eq print_d_dec dec_address
        intro!: list_all_takeI split: if_splits)
qed

lemma ldigit_address: "n < 16 \<Longrightarrow> address_char (Curl_ldigits ! n)"
  by (simp add: address_char_def ldigit)

lemma ntop6_group_address: "list_all address_char (ntop6_group w)"
  by (simp add: ntop6_group_def nibble_masks drop_bit_eq_div ldigit_address)

lemma ntop6_loop_address:
  "ntop6_loop src ws best is tp = Some t \<Longrightarrow> list_all address_char tp \<Longrightarrow> list_all address_char t"
proof (induction src ws best "is" tp rule: ntop6_loop.induct)
  case (2 src ws best i "is" tp)
  have colon: "address_char CHR '':''" by (simp add: address_char_def)
  show ?case using 2 colon
    by (auto simp: Let_def ntop6_group_address ntop4_address split: option.splits prod.splits if_splits)
qed simp

lemma ntop6_address: "inet_ntop6 src sz = Some t \<Longrightarrow> list_all address_char t"
proof -
  assume a: "inet_ntop6 src sz = Some t"
  then obtain tp where tp: "ntop6_loop src (addr_words src) (best_run (addr_words src)) [0..<8] [] = Some tp"
      "t = tp \<or> t = tp @ '':''"
    unfolding inet_ntop6_def Let_def by (auto split: option.splits if_splits simp del: upt_rec_numeral)
  from ntop6_loop_address [OF tp(1)] tp(2) show ?thesis by (auto simp: address_char_def [of "CHR '':''"])
qed

lemma ipv6_letters_address: "list_all address_char ipv6_letters"
  by (simp add: ipv6_letters_def address_char_def ISXDIGIT_code)

lemma address_char_code: "address_char c \<Longrightarrow> 32 \<le> code_of c \<and> c \<noteq> CHR ''%''"
  by (auto simp: address_char_def ISXDIGIT_code)

section \<open>Hosts\<close>

lemma pct_decode_plain: "CHR ''%'' \<notin> set s \<Longrightarrow> pct_decode s = s"
proof (induction s)
  case Nil
  show ?case by (simp add: pct_decode.simps)
next
  case (Cons c s)
  then show ?case by (auto simp: pct_decode.simps [of "c # s"] urldecode_next_def)
qed

lemma percent_invalid: "CHR ''%'' \<in> set HOSTNAME_INVALID_CHARS"
  by (simp add: HOSTNAME_INVALID_CHARS_def)

lemma host_ok_name: "\<forall>c\<in>set h. c \<notin> set HOSTNAME_INVALID_CHARS \<Longrightarrow> host_ok h"
  using percent_invalid by (subst host_ok_def, subst pct_decode_plain) (auto simp: Let_def)

lemma host_ok_address: "list_all address_char t \<Longrightarrow> host_ok (CHR ''['' # t @ '']'')"
  using address_char_code by (subst host_ok_def, subst pct_decode_plain) (auto simp: list_all_iff Let_def)

lemma digits_dots_valid: "ISDIGIT c \<or> c = CHR ''.'' \<Longrightarrow> c \<notin> set HOSTNAME_INVALID_CHARS"
  by (auto simp: HOSTNAME_INVALID_CHARS_def ISDIGIT_code)

lemma ipv4_text_chars: "ipv4_text n parts = Some t \<Longrightarrow> c \<in> set t \<Longrightarrow> ISDIGIT c \<or> c = CHR ''.''"
  using dec_digits by (auto simp: ipv4_text_def print_quad_def print_u_dec Let_def split: if_splits)

lemma ipv4_normalize_host:
  "ipv4_normalize mem h = (HOST_IPV4, h') \<Longrightarrow> host_ok h'"
proof (rule host_ok_name)
  assume a: "ipv4_normalize mem h = (HOST_IPV4, h')"
  obtain n parts where "ipv4_text n parts = Some h'"
    using a by (auto simp: ipv4_normalize_def dest!: dyn_put_Inr split: if_splits option.splits sum.splits)
  then show "\<forall>c\<in>set h'. c \<notin> set HOSTNAME_INVALID_CHARS" using ipv4_text_chars digits_dots_valid by blast
qed

lemma ipv6_parse_wf:
  assumes "ipv6_parse mem u h = (uc, u', h')" "wf_url u"
  shows "wf_url u'" "uc = CURLUE_OK \<Longrightarrow> host_ok h'"
proof -
  show "wf_url u'" using assms by (auto simp: ipv6_parse_def Let_def split: if_splits option.splits sum.splits)
  have "list_all address_char (take (strspn (drop 1 h) ipv6_letters) (drop 1 h))"
    using ipv6_letters_address by (auto simp: strspn_def list_all_iff take_length_takeWhile dest!: set_takeWhileD)
  then show "host_ok h'" if "uc = CURLUE_OK"
    using assms(1) that
    by (auto simp: ipv6_parse_def Let_def curlx_inet_ntop_def ntop6_address host_ok_address
        split: if_splits option.splits sum.splits)
qed

lemma hostname_check_wf:
  assumes "hostname_check mem u h = (uc, u', h')" "wf_url u"
  shows "wf_url u'" "uc = CURLUE_OK \<Longrightarrow> host_ok h'"
    "uc = CURLUE_OK \<Longrightarrow> peek h = CHR ''['' \<or> (\<forall>c\<in>set h. c \<notin> set HOSTNAME_INVALID_CHARS)"
proof -
  have name: "uc = CURLUE_OK \<Longrightarrow> peek h \<noteq> CHR ''['' \<Longrightarrow> h' = h \<and> (\<forall>c\<in>set h. c \<notin> set HOSTNAME_INVALID_CHARS)"
    using assms(1) by (auto simp: hostname_check_def Let_def strcspn_full [symmetric] split: if_splits)
  have addr: "peek h = CHR ''['' \<Longrightarrow> ipv6_parse mem u h = (uc, u', h')"
    using assms(1) by (auto simp: hostname_check_def Let_def split: if_splits)
  show "wf_url u'" using assms addr ipv6_parse_wf(1) by (cases "peek h = CHR ''[''") (auto simp: hostname_check_def Let_def split: if_splits)
  show "host_ok h'" if "uc = CURLUE_OK"
    using name [OF that] addr ipv6_parse_wf(2) [OF _ assms(2) that] host_ok_name by (cases "peek h = CHR ''[''") auto
  show "peek h = CHR ''['' \<or> (\<forall>c\<in>set h. c \<notin> set HOSTNAME_INVALID_CHARS)" if "uc = CURLUE_OK"
    using name [OF that] by blast
qed

section \<open>Parsing\<close>

lemma dyn_put_error [simp]: "dyn_put mem lim s add \<noteq> Inl CURLUE_OK"
  by (simp add: dyn_put_def)

lemma port_bounds: "curlx_str_number p 0xffff = (STRE_OK, rest, n) \<Longrightarrow> nat n < 65536"
  using curlx_str_number_bounds [of p 65535 STRE_OK rest n] by auto

lemma parse_port_wf: "parse_port u h hs = (uc, u', h') \<Longrightarrow> wf_url u \<Longrightarrow> wf_url u'"
  using wf_url_updates(1,2) port_bounds
  by (auto simp: parse_port_def Let_def split: if_splits option.splits sum.splits prod.splits)

lemma parse_hostname_login_wf:
  "parse_hostname_login mem u login flags = (uc, u', off) \<Longrightarrow> wf_url u \<Longrightarrow> wf_url u'"
  by (auto simp: parse_hostname_login_def login_cleared_def Let_def split: option.splits if_splits)

lemma parse_authority_wf:
  assumes "parse_authority mem u auth flags hs = (uc, u', h)" "wf_url u"
  shows "wf_url u'" "uc = CURLUE_OK \<Longrightarrow> host_ok h"
proof -
  have "wf_url u' \<and> (uc = CURLUE_OK \<longrightarrow> host_ok h)"
    using assms ipv6_parse_wf hostname_check_wf(1,2) ipv4_normalize_host parse_port_wf parse_hostname_login_wf
    unfolding parse_authority_def
    by (auto split: prod.splits if_splits sum.splits host_type.splits)
  then show "wf_url u'" "uc = CURLUE_OK \<Longrightarrow> host_ok h" by blast+
qed

lemma set_authority_wf: "Curl_url_set_authority mem u a = (uc, u') \<Longrightarrow> wf_url u \<Longrightarrow> wf_url u'"
  using parse_authority_wf [of mem u a] wf_url_updates(7)
  by (auto simp: Curl_url_set_authority_def split: prod.splits if_splits)

text \<open>What the parser keeps of the scheme, and the path that is left.\<close>

lemma strntolower_ok: "n \<le> length s \<Longrightarrow> NUL \<notin> set (take n s) \<Longrightarrow> Curl_strntolower s n = map Curl_raw_tolower (take n s)"
proof -
  have "n \<le> length s \<Longrightarrow> NUL \<notin> set (take n s) \<Longrightarrow> strn_case f s n = map f (take n s)" for f
    by (induction f s n rule: strn_case.induct) (auto simp: take_Suc neq_Nil_conv Suc_le_length_iff)
  then show "n \<le> length s \<Longrightarrow> NUL \<notin> set (take n s) \<Longrightarrow> Curl_strntolower s n = map Curl_raw_tolower (take n s)"
    by (simp add: Curl_strntolower_def)
qed

lemma scheme_char_code:
  "scheme_char c \<longleftrightarrow> 48 \<le> code_of c \<and> code_of c \<le> 57 \<or> 65 \<le> code_of c \<and> code_of c \<le> 90
     \<or> 97 \<le> code_of c \<and> code_of c \<le> 122 \<or> c = CHR ''+'' \<or> c = CHR ''-'' \<or> c = CHR ''.''"
  by (auto simp: scheme_char_def ctype_defs char_le_code)

lemma ISALPHA_code:
  "ISALPHA c \<longleftrightarrow> 65 \<le> code_of c \<and> code_of c \<le> 90 \<or> 97 \<le> code_of c \<and> code_of c \<le> 122"
  by (auto simp: ISALPHA_def ctype_defs char_le_code)

lemma ISALPHA_scheme_char: "ISALPHA c \<Longrightarrow> scheme_char c"
  by (auto simp: ISALPHA_def scheme_char_def ISALNUM_def)

lemma scheme_char_NUL [simp]: "\<not> scheme_char NUL" "\<not> ISALPHA NUL"
  by (simp_all add: scheme_char_code ISALPHA_code)

lemma tolower_scheme:
  "scheme_char (Curl_raw_tolower c) = scheme_char c" "ISALPHA (Curl_raw_tolower c) = ISALPHA c"
proof -
  have sp: "Curl_raw_tolower c = d \<longleftrightarrow> c = d" if "code_of d < 65" for d
  proof -
    have "code_of (Curl_raw_tolower c) = code_of d \<longleftrightarrow> code_of c = code_of d"
      using that unfolding tolower_code ISUPPER_def char_le_code by auto
    then show ?thesis by simp
  qed
  have "code_of CHR ''+'' < 65" "code_of CHR ''-'' < 65" "code_of CHR ''.'' < 65" by simp_all
  then show "scheme_char (Curl_raw_tolower c) = scheme_char c"
    using sp unfolding scheme_char_code tolower_code ISUPPER_def char_le_code by auto
  show "ISALPHA (Curl_raw_tolower c) = ISALPHA c"
    unfolding ISALPHA_code tolower_code ISUPPER_def char_le_code by auto
qed

lemma absolute_url_scheme:
  assumes "Curl_is_absolute_url url g = (n, buf)" "n \<noteq> 0"
  shows "n \<le> length url" "n \<le> MAX_SCHEME_LEN" "buf = map Curl_raw_tolower (take n url)" "scheme_ok buf"
    "peek (drop n url) = CHR '':''"
proof -
  obtain c t where u: "url = c # t" "ISALPHA c" "n = 1 + length (takeWhile scheme_char (take (MAX_SCHEME_LEN - 1) t))"
      "peek (drop n url) = CHR '':''" "buf = Curl_strntolower url n"
    using assms by (cases url) (auto simp: Curl_is_absolute_url_def Let_def split: if_splits)
  let ?t = "takeWhile scheme_char (take (MAX_SCHEME_LEN - 1) t)"
  have t: "take (length ?t) t = ?t" by (metis take_length_takeWhile takeWhile_append1 append_take_drop_id length_takeWhile_le length_take min.bounded_iff take_take min.absorb2 min.commute)
  have sc: "\<forall>d\<in>set ?t. scheme_char d" by (auto dest: set_takeWhileD)
  have le: "length ?t \<le> MAX_SCHEME_LEN - 1" "length ?t \<le> length t"
    using length_takeWhile_le [of scheme_char "take (MAX_SCHEME_LEN - 1) t"] by simp_all
  then show n: "n \<le> length url" "n \<le> MAX_SCHEME_LEN" using u by (simp_all add: MAX_SCHEME_LEN_def)
  have tk: "take n url = c # ?t" using u t by simp
  have "NUL \<notin> set (take n url)" using tk u(2) sc by (auto simp: ISALPHA_code)
  then show b: "buf = map Curl_raw_tolower (take n url)" using strntolower_ok [OF n(1)] u(5) by simp
  show "scheme_ok buf" using n(2) u(2,3) sc ISALPHA_scheme_char [OF u(2)]
    unfolding b tk scheme_ok_def by (simp add: tolower_scheme list_all_iff)
  show "peek (drop n url) = CHR '':''" by (rule u(4))
qed

lemma fixed_schemes_ok:
  "scheme_ok ''file''" "scheme_ok DEFAULT_SCHEME" "scheme_ok ''ftp''" "scheme_ok ''dict''" "scheme_ok ''ldap''"
  "scheme_ok ''imap''" "scheme_ok ''smtp''" "scheme_ok ''pop3''" "scheme_ok ''http''"
  by (simp_all add: scheme_ok_def MAX_SCHEME_LEN_def DEFAULT_SCHEME_def scheme_char_code ISALPHA_code)

lemma toupper_slash: "Curl_raw_toupper c = CHR ''/'' \<longleftrightarrow> c = CHR ''/''"
proof -
  have "code_of (Curl_raw_toupper c) = code_of CHR ''/'' \<longleftrightarrow> code_of c = code_of CHR ''/''"
    unfolding toupper_code ISLOWER_def char_le_code by auto
  then show ?thesis by (simp only: of_char_eq_iff)
qed

lemma checkprefix_slash:
  assumes "checkprefix (w @ ''/'') s" "NUL \<notin> set w"
  shows "peek (drop (length w) s) = CHR ''/''"
proof -
  have "ncasecompare s (w @ ''/'') (Suc (length w)) \<Longrightarrow> NUL \<notin> set w \<Longrightarrow> peek (drop (length w) s) = CHR ''/''" for s
  proof (induction w arbitrary: s)
    case Nil
    then show ?case using toupper_slash [of "CHR ''/''"] toupper_slash [of "peek s"] by (auto split: if_splits)
  next
    case (Cons c w)
    then show ?case by (cases s) (auto split: if_splits)
  qed
  then show ?thesis using assms by (simp add: checkprefix_def curl_strnequal_def)
qed

lemma parse_file_wf:
  assumes "parse_file mem url u = (CURLUE_OK, u', p)" "wf_url u"
  shows "wf_url u'" "peek p = CHR ''/''"
proof -
  have l: "checkprefix ''localhost/'' s \<or> checkprefix ''127.0.0.1/'' s \<Longrightarrow> peek (drop 9 s) = CHR ''/''" for s
    using checkprefix_slash [of "''localhost''" s] checkprefix_slash [of "''127.0.0.1''" s] by (auto simp: eval_nat_numeral)
  show "wf_url u'" using assms wf_url_updates(3) [OF assms(2) fixed_schemes_ok(1)]
    by (auto simp: parse_file_def Let_def split: if_splits option.splits)
  show "peek p = CHR ''/''" using assms(1) l
    by (auto simp: parse_file_def Let_def simp del: drop_drop split: if_splits option.splits)
qed

lemma parse_scheme_wf:
  assumes "parse_scheme mem url u buf n flags = (CURLUE_OK, u', hostp)" "wf_url u" "n \<noteq> 0 \<Longrightarrow> scheme_ok buf"
  shows "wf_url u'"
  using assms wf_url_updates(3) [OF assms(2)] fixed_schemes_ok(2)
  by (auto simp: parse_scheme_def Let_def split: if_splits option.splits sum.splits)

lemma wf_url_guess: "scheme_ok s \<Longrightarrow> wf_url u \<Longrightarrow> wf_url (u\<lparr>u_scheme := Some s, u_guessed_scheme := True\<rparr>)"
  by (simp add: wf_url_def)

lemma guess_scheme_wf: "guess_scheme mem u h = (CURLUE_OK, u') \<Longrightarrow> wf_url u \<Longrightarrow> wf_url u'"
proof -
  have "\<exists>s. scheme_ok s \<and> guess_scheme mem u h =
      (if mem (length s + 1) then (CURLUE_OK, u\<lparr>u_scheme := Some s, u_guessed_scheme := True\<rparr>)
       else (CURLUE_OUT_OF_MEMORY, u\<lparr>u_scheme := None\<rparr>))"
    unfolding guess_scheme_def Let_def by (rule exI, rule conjI [OF _ refl]) (simp add: fixed_schemes_ok)
  then show "guess_scheme mem u h = (CURLUE_OK, u') \<Longrightarrow> wf_url u \<Longrightarrow> wf_url u'"
    using wf_url_guess by (auto split: if_splits)
qed

lemma strcspn_rest: "drop (strcspn s rej) s = [] \<or> peek (drop (strcspn s rej) s) \<in> set rej"
  by (induction s) (auto simp: strcspn_def takeWhile_all)

lemma parse_front_wf:
  assumes "parse_front mem url u flags = (CURLUE_OK, u', host, path, f)" "wf_url u"
  shows "wf_url u'" "\<And>h. host = Some h \<Longrightarrow> host_ok h" "path = [] \<or> peek path \<in> set ''/?#''"
proof -
  obtain n buf where ab: "Curl_is_absolute_url url (CURLU_GUESS_SCHEME \<in> flags \<or> CURLU_DEFAULT_SCHEME \<in> flags) = (n, buf)"
    by force
  have "wf_url u' \<and> (\<forall>h. host = Some h \<longrightarrow> host_ok h) \<and> (path = [] \<or> peek path \<in> set ''/?#'')"
  proof (cases "n \<noteq> 0 \<and> buf = ''file''")
    case True
    then show ?thesis using assms ab parse_file_wf [of mem url u u' path]
      by (auto simp: parse_front_def split: prod.splits)
  next
    case False
    then obtain u1 hostp where sc: "parse_scheme mem url u buf n flags = (CURLUE_OK, u1, hostp)"
      using assms ab by (auto simp: parse_front_def split: prod.splits if_splits)
    have u1: "wf_url u1" using parse_scheme_wf [OF sc assms(2)] absolute_url_scheme(4) [OF ab] by blast
    have p: "path = drop (strcspn hostp ''/?#'') hostp"
      using assms(1) ab sc False by (auto simp: parse_front_def Let_def split: prod.splits if_splits)
    have "wf_url u' \<and> (\<forall>h. host = Some h \<longrightarrow> host_ok h)"
      using assms(1) ab sc False u1 parse_authority_wf [OF _ u1] guess_scheme_wf host_ok_name [of "[]"]
      by (auto simp: parse_front_def Let_def split: prod.splits if_splits)
    then show ?thesis using strcspn_rest [of hostp "''/?#''"] unfolding p by blast
  qed
  then show "wf_url u'" "\<And>h. host = Some h \<Longrightarrow> host_ok h" "path = [] \<or> peek path \<in> set ''/?#''" by auto
qed

lemma handle_fragment_wf: "handle_fragment mem u f flags = (uc, u') \<Longrightarrow> wf_url u \<Longrightarrow> wf_url u'"
  using wf_url_updates(12) [of u] wf_url_updates(15) [of "u\<lparr>u_fragment_present := True\<rparr>"]
  by (auto simp: handle_fragment_def Let_def split: if_splits sum.splits)

lemma handle_query_wf: "handle_query mem u q flags = (uc, u') \<Longrightarrow> wf_url u \<Longrightarrow> wf_url u'"
  using wf_url_updates(11) [of u] wf_url_updates(13) [of "u\<lparr>u_query_present := True\<rparr>"]
  by (auto simp: handle_query_def Let_def split: if_splits sum.splits)

lemma urlencode_loop_out:
  "urlencode_loop mem o' query s = Inr t \<Longrightarrow> \<exists>r. t = o' @ r"
proof (induction mem o' query s arbitrary: t rule: urlencode_loop.induct)
  case (1 mem o' query s)
  then show ?case
    by (subst (asm) (2) urlencode_loop.simps)
      (fastforce dest!: dyn_put_Inr split: if_splits prod.splits sum.splits)
qed

lemma urlencode_slash:
  assumes "urlencode_str mem [] p True query = Inr t" "peek p = CHR ''/''"
  shows "peek t = CHR ''/''"
proof -
  obtain s where p: "p = CHR ''/'' # s" using assms(2) by (cases p) auto
  have "urlencode_next query p = (''/'', s, query)" by (simp add: p urlencode_next_def)
  then obtain v where v: "dyn_put mem CURL_MAX_INPUT_LENGTH [] ''/'' = Inr v" "urlencode_loop mem v query s = Inr t"
    using assms(1) urlencode_loop.simps [of mem "[]" query p]
    by (auto simp: urlencode_str_def p split: sum.splits)
  then show ?thesis using urlencode_loop_out [OF v(2)] dyn_put_Inr [OF v(1)] by auto
qed

lemma urlencode_loop_error [simp]: "urlencode_loop mem o' query s \<noteq> Inl CURLUE_OK"
proof (induction mem o' query s rule: urlencode_loop.induct)
  case (1 mem o' query s)
  then show ?case
    by (subst urlencode_loop.simps) (auto split: prod.splits sum.splits)
qed

lemma urlencode_str_error [simp]: "urlencode_str mem o' s rel query \<noteq> Inl CURLUE_OK"
  by (auto simp: urlencode_str_def Let_def split: sum.splits)

lemma dedot_wf:
  assumes "peek p = CHR ''/''" "wf_url v"
    "(case dedotdotify mem p of
        (err, dedot) \<Rightarrow> if err \<noteq> 0 then (CURLUE_OUT_OF_MEMORY, v)
          else case dedot of None \<Rightarrow> (CURLUE_OK, v) | Some d \<Rightarrow> (CURLUE_OK, v\<lparr>u_path := Some d\<rparr>)) = (uc, u')"
  shows "wf_url u'"
proof (cases "length p < 2")
  case True
  then show ?thesis using assms by (auto simp: dedotdotify_def)
next
  case False
  then show ?thesis
    using dedot_memory [OF assms(1), of mem] assms(2,3) wf_url_updates(9) [OF assms(2) clean_path_facts(1) [OF assms(1)]]
    by auto
qed

lemma handle_path_wf:
  assumes "handle_path mem u p flags f = (CURLUE_OK, u')" "wf_url u" "p = [] \<or> peek p = CHR ''/''"
  shows "wf_url u'"
proof (cases "p \<noteq> [] \<and> CURLU_URLENCODE \<in> flags")
  case True
  then obtain enc where e: "urlencode_str mem [] p True QUERY_NO = Inr enc"
    using assms(1) by (auto simp: handle_path_def split: sum.splits)
  have s: "peek enc = CHR ''/''" using urlencode_slash [OF e] True assms(3) by simp
  show ?thesis
    using assms(1) True e wf_url_updates(9) [OF assms(2) s] dedot_wf [OF s, of "u\<lparr>u_path := Some enc\<rparr>" mem]
    by (auto simp: handle_path_def Let_def simp del: case_prod_conv split: if_splits)
next
  case False
  show ?thesis
  proof (cases "p = []")
    case True
    then show ?thesis using assms by (cases f) (auto simp: handle_path_def)
  next
    case ne: False
    then have s: "peek p = CHR ''/''" using assms(3) by simp
    show ?thesis
      using assms(1,2) False ne wf_url_updates(9) [OF assms(2) s] dedot_wf [OF s, of u mem]
        dedot_wf [OF s, of "u\<lparr>u_path := Some p\<rparr>" mem]
      by (auto simp: handle_path_def Let_def split: if_splits)
  qed
qed

lemma parse_rest_wf:
  assumes "parse_rest mem u path flags f = (CURLUE_OK, u')" "wf_url u" "path = [] \<or> peek path \<in> set ''/?#''"
  shows "wf_url u'"
proof -
  define cut where "cut c s = (case memchr s c of None \<Rightarrow> s | Some i \<Rightarrow> take i s)" for c s
  have keep: "cut c s = [] \<or> peek (cut c s) \<in> set r" if "s = [] \<or> peek s \<in> set (r @ [c])" for c s r
    using that memchr_Some(2) [of s c]
    by (cases s; cases "the (memchr s c)") (auto simp: cut_def memchr_None memchr_def split: option.splits)
  obtain u1 where u1: "wf_url u1"
      "(case memchr path CHR ''#'' of None \<Rightarrow> (CURLUE_OK, u, path)
        | Some i \<Rightarrow> (case handle_fragment mem u (drop i path) flags of (ures, u1) \<Rightarrow> (ures, u1, take i path)))
       = (CURLUE_OK, u1, cut CHR ''#'' path)"
    using assms(1,2) handle_fragment_wf unfolding parse_rest_def cut_def
    by (cases "memchr path CHR ''#''") (auto split: prod.splits if_splits)
  let ?p = "cut CHR ''#'' path"
  obtain u2 where u2: "wf_url u2"
      "(case memchr ?p CHR ''?'' of None \<Rightarrow> (CURLUE_OK, u1, ?p)
        | Some i \<Rightarrow> (case handle_query mem u1 (drop i ?p) flags of (ures, u2) \<Rightarrow> (ures, u2, take i ?p)))
       = (CURLUE_OK, u2, cut CHR ''?'' ?p)"
    using assms(1) u1 handle_query_wf unfolding parse_rest_def cut_def [of "CHR ''?''"]
    by (cases "memchr ?p CHR ''?''") (auto split: prod.splits if_splits)
  have "handle_path mem u2 (cut CHR ''?'' ?p) flags f = (CURLUE_OK, u')"
    using assms(1) u1(2) u2(2) by (simp add: parse_rest_def)
  moreover have "cut CHR ''?'' ?p = [] \<or> peek (cut CHR ''?'' ?p) = CHR ''/''"
    using keep [of ?p "''/''" "CHR ''?''"] keep [of path "''/?''" "CHR ''#''"] assms(3) by simp
  ultimately show ?thesis using handle_path_wf u2(1) by blast
qed

lemma parseurl_wf: "parseurl mem url u flags = Inr u' \<Longrightarrow> wf_url u \<Longrightarrow> wf_url u'"
proof -
  assume a: "parseurl mem url u flags = Inr u'" "wf_url u"
  then obtain u1 host path f u2 where p: "parse_front mem url u flags = (CURLUE_OK, u1, host, path, f)"
      "parse_rest mem u1 path flags f = (CURLUE_OK, u2)" "u' = u2\<lparr>u_host := host\<rparr>"
    by (auto simp: parseurl_def Let_def split: if_splits prod.splits)
  note w = parse_front_wf [OF p(1) a(2)]
  have "wf_url u2" using parse_rest_wf [OF p(2) w(1,3)] .
  then show "wf_url u'" using p(3) w(2) wf_url_updates(7,8) by (cases host) auto
qed

lemma parseurl_and_replace_wf: "parseurl_and_replace mem url u flags = (uc, u') \<Longrightarrow> wf_url u \<Longrightarrow> wf_url u'"
  using parseurl_wf wf_url_empty by (auto simp: parseurl_and_replace_def split: sum.splits)

lemma redirect_url_wf: "redirect_url mem base rel u flags = (uc, u') \<Longrightarrow> wf_url u \<Longrightarrow> wf_url u'"
  using parseurl_and_replace_wf by (auto simp: redirect_url_def Let_def split: sum.splits)

section \<open>Setting parts\<close>

lemma set_url_wf: "set_url env u url flags = (uc, u') \<Longrightarrow> wf_url u \<Longrightarrow> wf_url u'"
  using parseurl_and_replace_wf redirect_url_wf wf_url_updates(16)
  by (auto simp: set_url_def split: if_splits prod.splits option.splits)

lemma set_url_port_wf: "set_url_port u s = (uc, u') \<Longrightarrow> wf_url u \<Longrightarrow> wf_url u'"
  using wf_url_updates(1) port_bounds by (auto simp: set_url_port_def split: if_splits prod.splits)

lemma set_url_scheme_wf: "set_url_scheme env u s flags = (uc, u') \<Longrightarrow> wf_url u \<Longrightarrow> wf_url u'"
  using wf_url_updates(4) by (auto simp: set_url_scheme_def Let_def split: if_splits option.splits)

lemma urlset_clear_wf: "wf_url u \<Longrightarrow> wf_url (snd (urlset_clear u what))"
  using wf_url_updates(2,5,8,10,14,16) wf_url_empty by (auto simp: urlset_clear_def split: CURLUPart.splits)

lemma prepare_part_wf: "wf_url u \<Longrightarrow> wf_url (prepare_part what u)"
  using wf_url_updates(4,11,12) by (auto simp: prepare_part_def split: CURLUPart.splits)

text \<open>The encoded part as the concatenation of what each byte becomes.\<close>

fun encode_pieces :: "bool \<Rightarrow> bool \<Rightarrow> bool \<Rightarrow> bytes \<Rightarrow> bytes list" where
  "encode_pieces pls path equ [] = []"
| "encode_pieces pls path equ (c # s) = encode_piece pls path equ c # encode_pieces pls path (equ \<and> c \<noteq> CHR ''='') s"

lemma url_encode_part_puts:
  "url_encode_part mem lim enc s pls path equ = dyn_puts mem lim enc (encode_pieces pls path equ s)"
  by (induction s arbitrary: enc equ) (simp_all split: sum.splits)

lemma encode_piece_plain: "encode_piece False False False c = esc_piece c"
  by (simp add: encode_piece_def esc_piece_def)

lemma encode_pieces_plain: "encode_pieces False False False s = map esc_piece s"
  by (induction s) (simp_all add: encode_piece_plain)

lemma upper_hex_plain: "CHR ''%'' \<notin> set s \<Longrightarrow> upper_hex s = s"
  by (induction s rule: upper_hex.induct) auto

lemma upper_hex_slash: "peek (upper_hex s) = CHR ''/'' \<longleftrightarrow> peek s = CHR ''/''"
  by (cases s rule: upper_hex.cases) auto

lemma known_scheme_chars: "list_all (\<lambda>h. list_all scheme_char (sc_name h) \<and> ISALPHA (peek (sc_name h)) \<and> length (sc_name h) \<le> 7) known_schemes"
  by (simp add: known_schemes_def scheme_defs scheme_char_code ISALPHA_code)

lemma known_scheme_ok:
  assumes "Curl_get_scheme s = Some h" "NUL \<notin> set s"
  shows "scheme_ok s"
proof -
  have "h \<in> set known_schemes" "sc_name h = lower s" using get_scheme_iff [OF assms(2), of h] assms(1) by simp_all
  then have "list_all scheme_char (lower s)" "ISALPHA (peek (lower s))" "length (lower s) \<le> 7"
    using known_scheme_chars by (auto simp: list_all_iff)
  then show ?thesis
    by (cases s) (auto simp: scheme_ok_def lower_def list_all_iff tolower_scheme MAX_SCHEME_LEN_def)
qed

lemma set_url_scheme_ok:
  assumes "fst (set_url_scheme env u s flags) = CURLUE_OK" "NUL \<notin> set s"
  shows "scheme_ok s"
proof (cases "Curl_get_scheme s")
  case None
  then have "length s \<le> MAX_SCHEME_LEN" "ISALPHA (peek s)" "list_all scheme_char (drop 1 s)"
    using assms(1) by (auto simp: set_url_scheme_def Let_def split: if_splits)
  then show ?thesis using ISALPHA_scheme_char by (cases s) (auto simp: scheme_ok_def)
next
  case (Some h)
  then show ?thesis using known_scheme_ok assms(2) by blast
qed

lemma scheme_ok_percent: "scheme_ok s \<Longrightarrow> CHR ''%'' \<notin> set s"
  by (auto simp: scheme_ok_def list_all_iff scheme_char_code)

lemma url_sethost_wf:
  assumes "url_sethost mem u newp enc flags = (uc, u')" "wf_url u"
  shows "wf_url u'" "uc = CURLUE_OK \<Longrightarrow> enc \<Longrightarrow> newp = escaped s \<Longrightarrow> host_ok newp"
    "uc = CURLUE_OK \<Longrightarrow> \<not> enc \<Longrightarrow> host_ok newp"
proof -
  show "wf_url u'" using assms hostname_check_wf(1) [OF _ assms(2)]
    by (auto simp: url_sethost_def split: if_splits prod.splits option.splits CURLcode.splits)
  have nil: "host_ok []" by (simp add: host_ok_name)
  show "host_ok newp" if a: "uc = CURLUE_OK" enc "newp = escaped s"
  proof (cases "newp = []")
    case False
    have "CHR ''['' \<notin> set newp" using a(3) escaped_chars [of "CHR ''[''" s]
      by (auto simp: ISUNRESERVED_def ctype_defs char_le_code)
    then have "peek newp \<noteq> CHR ''[''" by (cases newp) auto
    moreover obtain v h where "hostname_check mem u newp = (CURLUE_OK, v, h)"
      using assms(1) a False by (auto simp: url_sethost_def split: prod.splits if_splits)
    ultimately show ?thesis using hostname_check_wf(3) [OF _ assms(2) refl] host_ok_name by blast
  qed (simp add: nil)
  show "host_ok newp" if a: "uc = CURLUE_OK" "\<not> enc"
  proof (cases "newp = []")
    case False
    then obtain v h where d: "\<not> list_ex (rejected REJECT_CTRL) (pct_decode newp)"
        "hostname_check mem u (pct_decode newp) = (CURLUE_OK, v, h)"
      using assms(1) a
      by (auto simp: url_sethost_def Curl_urldecode_def input_bytes_def urldecode_loop_policy split: prod.splits if_splits)
    then have "\<forall>c\<in>set (pct_decode newp). 32 \<le> code_of c" by (auto simp: list_ex_iff rejected_def)
    then show ?thesis using hostname_check_wf(3) [OF d(2) assms(2)] by (auto simp: host_ok_def Let_def)
  qed (simp add: nil)
qed

lemma encoded_part_plain:
  assumes "encoded_part mem s enc pls path lead equ = Inr newp"
  shows "\<not> enc \<Longrightarrow> newp = Some (upper_hex ((if lead \<and> peek s \<noteq> CHR ''/'' then ''/'' else []) @ s))"
    "enc \<Longrightarrow> or_blank newp = (if lead \<and> peek s \<noteq> CHR ''/'' then ''/'' else []) @ concat (encode_pieces pls path equ s)"
  using assms
  by (auto simp: encoded_part_def url_uppercasehex_part_def url_encode_part_puts or_blank_def Let_def
      dest!: dyn_put_Inr dyn_puts_Inr split: if_splits sum.splits) (auto simp: map_sum_def dest!: dyn_put_Inr dyn_puts_Inr split: sum.splits if_splits)

lemma encoded_path_slash:
  assumes "encoded_part mem s enc pls True True equ = Inr newp"
  shows "\<exists>p. newp = Some p \<and> peek p = CHR ''/''"
proof (cases enc)
  case True
  have "peek (concat (encode_pieces pls True equ s)) = CHR ''/''" if "peek s = CHR ''/''"
    using that by (cases s) (auto simp: encode_piece_def allowed_in_path_def)
  then have "peek (or_blank newp) = CHR ''/''" using encoded_part_plain(2) [OF assms True] by (auto split: if_splits)
  then show ?thesis by (cases newp) (auto simp: or_blank_def)
next
  case False
  then show ?thesis using encoded_part_plain(1) [OF assms] upper_hex_slash by (auto split: if_splits)
qed

lemma set_part_wf:
  assumes "set_part env u what s flags = (uc, u')" "wf_url u" "NUL \<notin> set s"
    "what = CURLUPART_SCHEME \<Longrightarrow> fst (set_url_scheme env u s flags) = CURLUE_OK"
  shows "wf_url u'"
proof -
  let ?u = "prepare_part what u" and ?path = "what = CURLUPART_PATH"
    and ?enc = "CURLU_URLENCODE \<in> flags \<and> what \<noteq> CURLUPART_SCHEME"
    and ?app = "what = CURLUPART_QUERY \<and> CURLU_APPENDQUERY \<in> flags"
  define r where "r = encoded_part (e_mem env) s ?enc (what = CURLUPART_QUERY \<and> ?enc) ?path ?path ?app"
  note p = prepare_part_wf [OF assms(2), of what]
  show ?thesis
  proof (cases r)
    case (Inl e)
    then show ?thesis using assms(1) p by (simp add: set_part_def r_def Let_def)
  next
    case (Inr newp)
    note e = Inr [unfolded r_def]
    note a = assms(1) [unfolded set_part_def Let_def e sum.case]
    consider "what = CURLUPART_HOST" | "what = CURLUPART_QUERY" | "what = CURLUPART_PATH" | "what = CURLUPART_SCHEME"
      | "what \<notin> {CURLUPART_HOST, CURLUPART_QUERY, CURLUPART_PATH, CURLUPART_SCHEME}" by blast
    then show ?thesis
    proof cases
      case 1
      obtain st u1 where h: "url_sethost (e_mem env) ?u (or_blank newp) ?enc flags = (st, u1)" by force
      note w = url_sethost_wf [OF h p]
      have "?enc \<Longrightarrow> or_blank newp = escaped s"
        using encoded_part_plain(2) [OF e] 1 by (simp add: encode_pieces_plain escaped_def)
      then have "st = CURLUE_OK \<Longrightarrow> host_ok (or_blank newp)" using w(2,3) by (cases ?enc) auto
      then show ?thesis using a h w(1) 1 wf_url_updates(7,8) [OF w(1)]
        by (cases newp) (auto simp: store_part_def or_blank_def split: if_splits)
    next
      case 2
      then have q: "wf_url (?u\<lparr>u_query := x\<rparr>)" for x using wf_url_updates(13) [OF p] by (simp add: prepare_part_def)
      show ?thesis using a 2 q p
        by (auto simp: url_append_query_def store_part_def Let_def split: if_splits sum.splits)
    next
      case 3
      then show ?thesis using a encoded_path_slash [of "e_mem env" s ?enc] e wf_url_updates(9) [OF p]
        by (auto simp: store_part_def)
    next
      case 4
      then have "scheme_ok s" using assms(3,4) set_url_scheme_ok by blast
      then show ?thesis using a 4 encoded_part_plain(1) [OF e] upper_hex_plain scheme_ok_percent wf_url_updates(3) [OF p]
        by (auto simp: store_part_def)
    next
      case 5
      then have "u' = store_part what newp ?u" using a by auto
      then show ?thesis using 5 p wf_url_updates(15) [OF p]
        by (cases what) (auto simp: store_part_def prepare_part_def)
    qed
  qed
qed

lemma curl_url_set_wf:
  assumes "curl_url_set env (Some u) what part flags = (uc, Some u')" "wf_url u" "\<And>s. part = Some s \<Longrightarrow> NUL \<notin> set s"
  shows "wf_url u'"
proof (cases part)
  case None
  then show ?thesis using assms(1,2) urlset_clear_wf [of u what]
    by (cases "urlset_clear u what") (auto simp: curl_url_set_def)
next
  case (Some s)
  then show ?thesis using assms(1,2) assms(3) [OF Some] set_url_scheme_wf set_url_port_wf set_url_wf set_part_wf
    by (cases "set_url_scheme env u s flags"; cases "set_url_port u s"; cases "set_url env u s flags"; cases "set_part env u what s flags")
      (auto simp: curl_url_set_def split: if_splits)
qed

lemma curl_url_dup_wf: "curl_url_dup env u = Some u' \<Longrightarrow> wf_url u \<Longrightarrow> wf_url u'"
  by (auto simp: curl_url_dup_def wf_url_def empty_url_def split: if_splits)

section \<open>Reachable handles\<close>

text \<open>
  Any sequence of calls, each with its own flags and its own memory, that succeed or fail.  The
  strings given are C strings, so they have no zero byte.
\<close>

inductive url_reach :: "Curl_URL \<Rightarrow> bool" where
  new: "curl_url env = Some u \<Longrightarrow> url_reach u"
| set: "url_reach u \<Longrightarrow> curl_url_set env (Some u) what part flags = (uc, Some u') \<Longrightarrow>
    (\<And>s. part = Some s \<Longrightarrow> NUL \<notin> set s) \<Longrightarrow> url_reach u'"
| dup: "url_reach u \<Longrightarrow> curl_url_dup env u = Some u' \<Longrightarrow> url_reach u'"
| authority: "url_reach u \<Longrightarrow> Curl_url_set_authority mem u a = (uc, u') \<Longrightarrow> url_reach u'"

lemma reach_wf: "url_reach u \<Longrightarrow> wf_url u"
proof (induction rule: url_reach.induct)
  case (new env u)
  then show ?case using wf_url_empty by (auto simp: curl_url_def split: if_splits)
next
  case (set u env what part flags uc u')
  then show ?case using curl_url_set_wf by blast
next
  case (dup u env u')
  then show ?case using curl_url_dup_wf by blast
next
  case (authority u mem a uc u')
  then show ?case using set_authority_wf by blast
qed

lemma pct_decode_source: "c \<in> set s \<Longrightarrow> c \<in> set (pct_decode s) \<or> c = CHR ''%'' \<or> ISXDIGIT c"
proof (induction s rule: pct_decode.induct)
  case (1 s)
  then obtain d r where s: "s = d # r" by (cases s) auto
  show ?case
  proof (cases "d = CHR ''%'' \<and> length s > 2 \<and> ISXDIGIT (s ! 1) \<and> ISXDIGIT (s ! 2)")
    case True
    then obtain x y t where r: "r = x # y # t" "ISXDIGIT x" "ISXDIGIT y"
      using s by (cases r; cases "tl r") auto
    then have "pct_decode s = hex_pair x y # pct_decode t"
      using True s by (simp add: pct_decode.simps [of "CHR ''%'' # _"] urldecode_next_def)
    then show ?thesis using 1 True s r by (auto simp: urldecode_next_def)
  next
    case False
    then have n: "urldecode_next s = (d, r)" using s by (auto simp: urldecode_next_def)
    then have "pct_decode s = d # pct_decode r" using s by (subst pct_decode.simps) simp
    then show ?thesis using 1 s n by auto
  qed
qed

lemma host_ok_no_newline: "host_ok h \<Longrightarrow> CR \<notin> set h \<and> LF \<notin> set h"
proof -
  assume h: "host_ok h"
  have "c \<notin> set h" if "c = CR \<or> c = LF" for c
  proof
    assume "c \<in> set h"
    moreover have "\<not> ISXDIGIT c" "c \<noteq> CHR ''%''" "code_of c < 32" "c \<in> set HOSTNAME_INVALID_CHARS"
      using that by (auto simp: ISXDIGIT_code HOSTNAME_INVALID_CHARS_def)
    ultimately show False using pct_decode_source [of c h] h by (auto simp: host_ok_def Let_def)
  qed
  then show ?thesis by blast
qed

definition sure_env :: url_env where
  "sure_env = \<lparr>e_mem = plenty, e_ralloc = sure_realloc, e_run = (\<lambda>h. True), e_idn = None\<rparr>"

section \<open>Properties\<close>

text \<open>
  C29: the shape of every URL handle.  Whatever calls of the API were made on a handle, with
  whatever strings, flags and memory, and whether they succeeded or failed: a stored scheme
  is at most 40 characters of the scheme alphabet and starts with a letter; a stored host, read
  decoded, is a name without any of the characters that structure an authority or starts with a
  bracket and has no control bytes, so that no host ever holds a line end; a stored path starts
  with a slash; the port number is below 65536, and 0 when none is set; a stored query or
  fragment is marked present; and only a handle with a scheme is marked as having a guessed one.
\<close>

theorem url_handle_shape:
  assumes "url_reach u"
  shows "(\<forall>s. u_scheme u = Some s \<longrightarrow> s \<noteq> [] \<and> length s \<le> 40 \<and> ISALPHA (hd s) \<and> list_all scheme_char s)
     \<and> (\<forall>h. u_host u = Some h \<longrightarrow> CR \<notin> set h \<and> LF \<notin> set h
          \<and> (set (pct_decode h) \<inter> set HOSTNAME_INVALID_CHARS = {}
             \<or> peek (pct_decode h) = CHR ''['' \<and> (\<forall>c. c \<in> set (pct_decode h) \<longrightarrow> 32 \<le> code_of c)))
     \<and> (\<forall>p. u_path u = Some p \<longrightarrow> peek p = CHR ''/'')
     \<and> u_portnum u < 2 ^ 16 \<and> (u_port_present u \<or> u_portnum u = 0)
     \<and> (u_query u = None \<or> u_query_present u) \<and> (u_fragment u = None \<or> u_fragment_present u)
     \<and> (u_guessed_scheme u \<longrightarrow> u_scheme u \<noteq> None)"
proof -
  note w = reach_wf [OF assms]
  have s: "s \<noteq> [] \<and> length s \<le> 40 \<and> ISALPHA (hd s) \<and> list_all scheme_char s" if "u_scheme u = Some s" for s
    using w that by (cases s) (auto simp: wf_url_def scheme_ok_def MAX_SCHEME_LEN_def)
  have h: "CR \<notin> set h \<and> LF \<notin> set h
          \<and> (set (pct_decode h) \<inter> set HOSTNAME_INVALID_CHARS = {}
             \<or> peek (pct_decode h) = CHR ''['' \<and> (\<forall>c. c \<in> set (pct_decode h) \<longrightarrow> 32 \<le> code_of c))"
    if "u_host u = Some h" for h
  proof -
    have "host_ok h" using w that by (simp add: wf_url_def)
    then show ?thesis using host_ok_no_newline [of h] by (auto simp: host_ok_def Let_def)
  qed
  have "u_port_present u \<or> u_portnum u = 0" "u_query u = None \<or> u_query_present u" "u_fragment u = None \<or> u_fragment_present u"
    using w by (auto simp: wf_url_def)
  then show ?thesis using w s h by (simp add: wf_url_def)
qed

theorem url_handle_shape_witness:
  "u_portnum (empty_url\<lparr>u_portnum := 8080, u_port_present := True\<rparr>) < 2 ^ 16"
proof -
  have n: "curl_url sure_env = Some empty_url" by (simp add: curl_url_def sure_env_def plenty_def)
  have p: "curl_url_set sure_env (Some empty_url) CURLUPART_PORT (Some ''8080'') {}
      = (CURLUE_OK, Some (empty_url\<lparr>u_portnum := 8080, u_port_present := True\<rparr>))"
    by (simp add: curl_url_set_def CURL_MAX_INPUT_LENGTH_def set_url_port_def curlx_str_number_def str_num_base_def
        ISDIGIT_code Let_def) code_simp
  have "url_reach (empty_url\<lparr>u_portnum := 8080, u_port_present := True\<rparr>)"
    by (rule url_reach.set [OF url_reach.new [OF n] p]) simp
  from url_handle_shape [OF this] show ?thesis by blast
qed

end
