(* ===== verification/Url_Correct.thy ===== *)
theory Url_Correct
  imports Url_Wf
begin

text \<open>
  What the calls of the URL API do: parts survive encoding and decoding, failed calls leave the
  handle as it was, and the comparison of origins is the equality of origins.
\<close>

section \<open>Origins\<close>

text \<open>The reference: scheme and host up to case, the port in effect, and the zone.\<close>

definition effective_port :: "Curl_URL \<Rightarrow> nat option" where
  "effective_port u =
     (if u_port_present u then Some (u_portnum u)
      else case u_scheme u of None \<Rightarrow> None | Some s \<Rightarrow> map_option sc_defport (Curl_get_scheme s))"

definition origin :: "Curl_URL \<Rightarrow> bytes option \<times> bytes option \<times> nat option \<times> bytes" where
  "origin u = (map_option fold_case (u_scheme u), map_option fold_case (u_host u), effective_port u,
     fold_case (or_blank (u_zoneid u)))"

lemma lower_fold: "NUL \<notin> set s \<Longrightarrow> lower s = map Curl_raw_tolower (fold_case s)"
  by (simp add: lower_def fold_case_def cstr_id tolower_toupper)

lemma get_scheme_case:
  assumes "scheme_ok s" "scheme_ok t" "fold_case s = fold_case t"
  shows "Curl_get_scheme s = Curl_get_scheme t"
proof -
  have n: "NUL \<notin> set s" "NUL \<notin> set t" using assms(1,2) by (auto simp: scheme_ok_def list_all_iff)
  then have "Curl_get_scheme s = Some h \<longleftrightarrow> Curl_get_scheme t = Some h" for h
    by (simp add: get_scheme_iff lower_fold assms(3))
  then show ?thesis by (metis not_Some_eq)
qed

text \<open>A reference takes the parts it lacks from the base: the scheme, and the host with its zone and port.\<close>

definition absolute :: "Curl_URL \<Rightarrow> bool" where
  "absolute u \<longleftrightarrow> u_scheme u \<noteq> None \<and> u_host u \<noteq> None"

definition resolved :: "Curl_URL \<Rightarrow> Curl_URL \<Rightarrow> Curl_URL" where
  "resolved base href =
     (let h = (if u_scheme href = None then href\<lparr>u_scheme := u_scheme base\<rparr> else href) in
      if u_host href = None
      then h\<lparr>u_host := u_host base, u_zoneid := u_zoneid base, u_port_present := u_port_present base, u_portnum := u_portnum base\<rparr>
      else h)"

lemma resolved_absolute: "absolute href \<Longrightarrow> resolved base href = href"
  by (auto simp: resolved_def absolute_def)

lemma same_origin_resolved:
  assumes "url_reach base" "url_reach href"
  shows "Curl_url_same_origin base href \<longleftrightarrow> absolute base \<and> (u_host href = None \<longrightarrow> \<not> u_port_present href)
    \<and> origin base = origin (resolved base href)"
proof (cases "absolute base")
  case False
  then show ?thesis
    by (cases "u_scheme base"; cases "u_host base") (simp_all add: Curl_url_same_origin_def absolute_def)
next
  case True
  then obtain bs bh where b: "u_scheme base = Some bs" "u_host base = Some bh" by (auto simp: absolute_def)
  have w: "scheme_ok bs" "\<And>hs. u_scheme href = Some hs \<Longrightarrow> scheme_ok hs" "\<not> u_port_present base \<Longrightarrow> u_portnum base = 0"
      "\<not> u_port_present href \<Longrightarrow> u_portnum href = 0"
    using reach_wf [OF assms(1)] reach_wf [OF assms(2)] b by (simp_all add: wf_url_def)
  have eq: "curl_strequal (Some x) (Some y) \<longleftrightarrow> fold_case x = fold_case y" for x y
    by (simp add: curl_strequal_def casecompare_eq)
  have sch: "Curl_get_scheme hs = Curl_get_scheme bs" if "u_scheme href = Some hs" "fold_case bs = fold_case hs" for hs
    using get_scheme_case [OF w(1) w(2) [OF that(1)] that(2)] by simp
  show ?thesis
  proof (cases "u_scheme href")
    case None
    then show ?thesis using True b w(3,4)
      by (cases "u_host href")
        (auto simp: Curl_url_same_origin_def origin_def effective_port_def resolved_def eq absolute_def split: option.splits)
  next
    case (Some hs)
    note h = Some
    show ?thesis
    proof (cases "fold_case bs = fold_case hs")
      case eqs: True
      then show ?thesis using True b h w(3,4) sch [OF h eqs]
        by (cases "u_host href")
          (auto simp: Curl_url_same_origin_def origin_def effective_port_def resolved_def eq absolute_def split: option.splits)
    next
      case False
      then show ?thesis using b h
        by (cases "u_host href") (simp_all add: Curl_url_same_origin_def origin_def resolved_def eq absolute_def)
    qed
  qed
qed

lemma same_origin_absolute:
  "url_reach x \<Longrightarrow> url_reach y \<Longrightarrow> absolute y \<Longrightarrow> Curl_url_same_origin x y \<longleftrightarrow> absolute x \<and> origin x = origin y"
  using same_origin_resolved [of x y] by (simp add: resolved_absolute) (auto simp: absolute_def)

text \<open>
  C32: origins, for any two reachable handles.  \<open>Curl_url_same_origin base href\<close> holds exactly when the base has a scheme and a
  host, the reference has no port without a host, and, once the reference has taken from the base the scheme, and the host with zone and
  port, that it lacks, the two have the same origin: scheme, host and zone up to the case of letters, and the
  port in effect, which is the one stored or else the scheme's default, unknown schemes having
  none.  So a reference without a scheme and a host matches every such base, and the relation is not symmetric in general.  Between handles
  that all have a scheme and a host it is the equality of origins, symmetric and transitive.
\<close>

theorem same_origin_exact:
  assumes "url_reach base" "url_reach href" "url_reach third"
  shows "(Curl_url_same_origin base href \<longleftrightarrow> absolute base \<and> (u_host href = None \<longrightarrow> \<not> u_port_present href)
        \<and> origin base = origin (resolved base href))
    \<and> (absolute base \<and> absolute href \<longrightarrow> (Curl_url_same_origin base href \<longleftrightarrow> origin base = origin href)
        \<and> (Curl_url_same_origin base href \<longleftrightarrow> Curl_url_same_origin href base))
    \<and> (absolute href \<and> absolute third \<and> Curl_url_same_origin base href \<and> Curl_url_same_origin href third
        \<longrightarrow> Curl_url_same_origin base third)"
proof (intro conjI impI)
  show "Curl_url_same_origin base href \<longleftrightarrow> absolute base \<and> (u_host href = None \<longrightarrow> \<not> u_port_present href)
      \<and> origin base = origin (resolved base href)" by (rule same_origin_resolved [OF assms(1,2)])
qed (use same_origin_absolute [OF assms(1,2)] same_origin_absolute [OF assms(2,1)] same_origin_absolute [OF assms(2,3)]
    same_origin_absolute [OF assms(1,3)] in auto)

lemma reach_http:
  assumes "h \<noteq> []" "list_all ISALNUM h" "length h \<le> 100"
  shows "url_reach (empty_url\<lparr>u_scheme := Some ''http'', u_host := Some h\<rparr>)"
proof -
  let ?v = "empty_url\<lparr>u_scheme := Some ''http''\<rparr>"
  have n: "curl_url sure_env = Some empty_url" by (simp add: curl_url_def sure_env_def plenty_def)
  have "Curl_get_scheme ''http'' = Some Curl_scheme_http"
    by (simp add: get_scheme_iff known_schemes_def) code_simp
  then have sc: "curl_url_set sure_env (Some empty_url) CURLUPART_SCHEME (Some ''http'') {} = (CURLUE_OK, Some ?v)"
    by (simp add: curl_url_set_def set_url_scheme_def set_part_def encoded_part_def url_uppercasehex_part_def
        dyn_put_plenty sure_env_def CURL_MAX_INPUT_LENGTH_def MAX_SCHEME_LEN_def store_part_def prepare_part_def empty_url_def)
  have al: "c \<notin> set HOSTNAME_INVALID_CHARS" "c \<noteq> CHR ''%''" "c \<noteq> CHR ''[''" "32 \<le> code_of c" "c \<noteq> NUL" "c \<noteq> CHR ''.''" if "ISALNUM c" for c
    using that by (auto simp: HOSTNAME_INVALID_CHARS_def ctype_defs char_le_code)
  have h: "\<forall>c\<in>set h. ISALNUM c" using assms(2) by (simp add: list_all_iff)
  have d: "upper_hex h = h" "pct_decode h = h" using h al(2) by (auto intro!: upper_hex_plain pct_decode_plain)
  have "\<forall>c\<in>set h. \<not> code_of c < 32" using h al(4) by (simp add: not_less)
  then have "Curl_urldecode True h (length h) REJECT_CTRL = (CURLE_OK, Some h)"
    using assms(1) by (auto simp: Curl_urldecode_def input_bytes_def urldecode_loop_policy d rejected_def list_ex_iff)
  moreover have "hostname_check plenty u h = (CURLUE_OK, u, h)" for u
  proof -
    have "h ! (length h - 1) \<in> set h" "peek h \<in> set h" using assms(1) by (simp, cases h, auto)
    then have "h ! (length h - 1) \<noteq> CHR ''.''" "peek h \<noteq> CHR ''[''" "peek h \<noteq> CHR ''.''"
      using h al(3,6) by blast+
    moreover have "strcspn h HOSTNAME_INVALID_CHARS = length h" using strcspn_full h al(1) by blast
    ultimately show ?thesis using assms(1) by (simp add: hostname_check_def Let_def)
  qed
  ultimately have ho: "curl_url_set sure_env (Some ?v) CURLUPART_HOST (Some h) {} = (CURLUE_OK, Some (?v\<lparr>u_host := Some h\<rparr>))"
    using assms(1,3) by (simp add: curl_url_set_def set_part_def encoded_part_def url_uppercasehex_part_def d
        dyn_put_plenty sure_env_def CURL_MAX_INPUT_LENGTH_def store_part_def prepare_part_def empty_url_def
        url_sethost_def or_blank_def plenty_def)
  show ?thesis using url_reach.set [OF url_reach.set [OF url_reach.new [OF n] sc] ho] h al(5) by auto
qed

text \<open>Two absolute handles that differ in case, and the empty reference, which has the origin of its base but not the other way round.\<close>

theorem same_origin_exact_witness:
  "Curl_url_same_origin (empty_url\<lparr>u_scheme := Some ''http'', u_host := Some ''Ab''\<rparr>)
     (empty_url\<lparr>u_scheme := Some ''http'', u_host := Some ''aB''\<rparr>)
   \<and> Curl_url_same_origin (empty_url\<lparr>u_scheme := Some ''http'', u_host := Some ''Ab''\<rparr>) empty_url
   \<and> \<not> Curl_url_same_origin empty_url (empty_url\<lparr>u_scheme := Some ''http'', u_host := Some ''Ab''\<rparr>)"
proof -
  let ?a = "empty_url\<lparr>u_scheme := Some ''http'', u_host := Some ''Ab''\<rparr>"
  let ?b = "empty_url\<lparr>u_scheme := Some ''http'', u_host := Some ''aB''\<rparr>"
  have r: "url_reach ?a" "url_reach ?b" using reach_http [of "''Ab''"] reach_http [of "''aB''"] by (simp_all add: ctype_defs)
  have e: "url_reach empty_url" by (rule url_reach.new [of sure_env]) (simp add: curl_url_def sure_env_def plenty_def)
  have abs: "absolute ?a" "absolute ?b" "\<not> absolute empty_url" by (simp_all add: absolute_def empty_url_def)
  have "origin ?a = origin ?b" by (simp add: origin_def effective_port_def fold_case_def empty_url_def) code_simp
  moreover have "origin ?a = origin (resolved ?a empty_url)" "\<not> u_port_present empty_url"
    by (simp_all add: resolved_def origin_def effective_port_def empty_url_def)
  ultimately show ?thesis
    using conjunct1 [OF conjunct2 [OF same_origin_exact [OF r r(1)]]] conjunct1 [OF same_origin_exact [OF r(1) e r(1)]]
      conjunct1 [OF same_origin_exact [OF e r(1) r(1)]] abs by blast
qed

section \<open>Failure\<close>

lemma parseurl_and_replace_failure:
  "parseurl_and_replace mem url u flags = (uc, u') \<Longrightarrow> uc \<noteq> CURLUE_OK \<Longrightarrow> u' = u"
  by (auto simp: parseurl_and_replace_def split: sum.splits)

lemma redirect_url_failure: "redirect_url mem base rel u flags = (uc, u') \<Longrightarrow> uc \<noteq> CURLUE_OK \<Longrightarrow> u' = u"
  using parseurl_and_replace_failure by (auto simp: redirect_url_def Let_def split: sum.splits)

lemma set_url_failure: "set_url env u url flags = (uc, u') \<Longrightarrow> uc \<noteq> CURLUE_OK \<Longrightarrow> u' = u"
  using parseurl_and_replace_failure redirect_url_failure
  by (auto simp: set_url_def split: if_splits prod.splits option.splits)

lemma hostname_check_zone: "hostname_check mem u h = (uc, u', h') \<Longrightarrow> u'\<lparr>u_zoneid := z\<rparr> = u\<lparr>u_zoneid := z\<rparr>"
  by (auto simp: hostname_check_def ipv6_parse_def Let_def split: if_splits sum.splits option.splits)

lemma url_sethost_zone: "url_sethost mem u newp enc flags = (uc, u') \<Longrightarrow> u'\<lparr>u_zoneid := z\<rparr> = u\<lparr>u_zoneid := z\<rparr>"
  using hostname_check_zone [of mem u] by (auto simp: url_sethost_def split: if_splits prod.splits option.splits CURLcode.splits)

text \<open>A host that is refused has cost the handle its zone, and may have put another in its place.\<close>

lemma set_host_eval:
  assumes "length s \<le> CURL_MAX_INPUT_LENGTH" "s \<noteq> []" "Curl_urldecode True s (length s) REJECT_CTRL = (CURLE_OK, Some h)"
    "hostname_check plenty (u\<lparr>u_zoneid := None\<rparr>) h = (uc, v, h')" "uc \<noteq> CURLUE_OK" "upper_hex s = s"
  shows "curl_url_set sure_env (Some u) CURLUPART_HOST (Some s) {} = (CURLUE_BAD_HOSTNAME, Some v)"
  using assms by (simp add: curl_url_set_def set_part_def encoded_part_def url_uppercasehex_part_def
      dyn_put_plenty sure_env_def prepare_part_def url_sethost_def or_blank_def plenty_def)

lemma refused_host_loses_zone:
  "curl_url_set sure_env (Some u) CURLUPART_HOST (Some '' '') {} = (CURLUE_BAD_HOSTNAME, Some (u\<lparr>u_zoneid := None\<rparr>))"
proof (rule set_host_eval)
  show "hostname_check plenty (u\<lparr>u_zoneid := None\<rparr>) '' '' = (CURLUE_BAD_HOSTNAME, u\<lparr>u_zoneid := None\<rparr>, '' '')"
    by (simp add: hostname_check_def strcspn_def HOSTNAME_INVALID_CHARS_def)
  show "Curl_urldecode True '' '' (length '' '') REJECT_CTRL = (CURLE_OK, Some '' '')" "upper_hex '' '' = '' ''" by code_simp+
qed (simp_all add: CURL_MAX_INPUT_LENGTH_def)

lemma refused_host_sets_zone:
  "curl_url_set sure_env (Some u) CURLUPART_HOST (Some ''[1%25eth0]'') {} = (CURLUE_BAD_HOSTNAME, Some (u\<lparr>u_zoneid := Some ''eth0''\<rparr>))"
proof (rule set_host_eval)
  have "curlx_inet_pton AF_INET6 ''1'' = None" by code_simp
  then show "hostname_check plenty (u\<lparr>u_zoneid := None\<rparr>) ''[1%eth0]'' = (CURLUE_BAD_IPV6, u\<lparr>u_zoneid := Some ''eth0''\<rparr>, ''[1'')"
    by (simp add: hostname_check_def ipv6_parse_def strspn_def ipv6_letters_def zone_of_def MAX_ZONEID_LEN_def plenty_def)
  show "Curl_urldecode True ''[1%25eth0]'' (length ''[1%25eth0]'') REJECT_CTRL = (CURLE_OK, Some ''[1%eth0]'')"
    "upper_hex ''[1%25eth0]'' = ''[1%25eth0]''" by code_simp+
qed (simp_all add: CURL_MAX_INPUT_LENGTH_def)

text \<open>
  C31: failed calls.  When \<open>curl_url_set\<close> fails, for lack of memory or for a bad argument, every part but one
  stays as it was: in particular a URL that cannot be parsed or resolved leaves the old one in place.  The exception is a
  failed \<open>CURLUPART_HOST\<close>, which may have dropped or replaced the zone of the host, although the manual page says that no part is set.  Apart from
  the parts, the marks that a scheme was guessed or a query or fragment is present may change when the part they belong to was to be set.
\<close>

theorem url_set_failure_keeps:
  assumes "curl_url_set env (Some u) what part flags = (uc, Some u')" "uc \<noteq> CURLUE_OK"
  shows "u' = u \<or> what = CURLUPART_HOST \<and> (\<forall>z. u'\<lparr>u_zoneid := z\<rparr> = u\<lparr>u_zoneid := z\<rparr>)
     \<or> what = CURLUPART_SCHEME \<and> u' = u\<lparr>u_guessed_scheme := False\<rparr>
     \<or> what = CURLUPART_QUERY \<and> u' = u\<lparr>u_query_present := True\<rparr>
     \<or> what = CURLUPART_FRAGMENT \<and> u' = u\<lparr>u_fragment_present := True\<rparr>"
proof (cases part)
  case None
  then show ?thesis using assms by (simp add: curl_url_set_def urlset_clear_def)
next
  case (Some s)
  have port: "set_url_port u s = (uc, v) \<Longrightarrow> v = u" for v
    using assms(2) by (auto simp: set_url_port_def split: if_splits prod.splits)
  have scheme: "set_url_scheme env u s flags = (uc, v) \<Longrightarrow> v = u" for v
    using assms(2) by (auto simp: set_url_scheme_def Let_def split: if_splits option.splits)
  have part: "v = prepare_part what u \<or> what = CURLUPART_HOST \<and> (\<forall>z. v\<lparr>u_zoneid := z\<rparr> = (prepare_part what u)\<lparr>u_zoneid := z\<rparr>)"
    if "set_part env u what s flags = (uc, v)" for v
    using that assms(2) url_sethost_zone [of "e_mem env" "prepare_part what u"]
    by (auto simp: set_part_def url_append_query_def Let_def split: if_splits sum.splits prod.splits)
  have prep: "prepare_part what u = u \<or> what = CURLUPART_HOST \<and> (\<forall>z. (prepare_part what u)\<lparr>u_zoneid := z\<rparr> = u\<lparr>u_zoneid := z\<rparr>)
     \<or> what = CURLUPART_SCHEME \<and> prepare_part what u = u\<lparr>u_guessed_scheme := False\<rparr>
     \<or> what = CURLUPART_QUERY \<and> prepare_part what u = u\<lparr>u_query_present := True\<rparr>
     \<or> what = CURLUPART_FRAGMENT \<and> prepare_part what u = u\<lparr>u_fragment_present := True\<rparr>"
    by (cases what) (simp_all add: prepare_part_def)
  consider "u' = u" | "set_url_scheme env u s flags = (uc, u')" | "set_url_port u s = (uc, u')"
    | "set_url env u s flags = (uc, u')" | "set_part env u what s flags = (uc, u')"
    using assms(1) Some
    by (cases "set_url_scheme env u s flags"; cases "set_url_port u s"; cases "set_url env u s flags";
        cases "set_part env u what s flags") (auto simp: curl_url_set_def split: if_splits)
  then show ?thesis
  proof cases
    case 5
    from part [OF this] prep show ?thesis by auto
  qed (use port scheme set_url_failure assms(2) in blast)+
qed

text \<open>A handle with a scheme, a host with its zone, and a port: a bad port changes nothing, a bad host only the zone.\<close>

definition demo_url :: Curl_URL where
  "demo_url = empty_url\<lparr>u_scheme := Some ''http'', u_host := Some ''[fe80::1]'', u_zoneid := Some ''eth1'', u_port_present := True,
     u_portnum := 8080\<rparr>"

theorem url_set_failure_keeps_witness:
  "curl_url_set sure_env (Some demo_url) CURLUPART_PORT (Some ''x'') {} = (CURLUE_BAD_PORT_NUMBER, Some demo_url)
   \<and> (\<exists>v. curl_url_set sure_env (Some demo_url) CURLUPART_HOST (Some ''[1%25eth0]'') {} = (CURLUE_BAD_HOSTNAME, Some v)
        \<and> v\<lparr>u_zoneid := None\<rparr> = demo_url\<lparr>u_zoneid := None\<rparr>)"
proof -
  have "fst (curl_url_set sure_env (Some demo_url) CURLUPART_PORT (Some ''x'') {}) = CURLUE_BAD_PORT_NUMBER"
    by (simp add: curl_url_set_def CURL_MAX_INPUT_LENGTH_def set_url_port_def ISDIGIT_code)
  moreover obtain v where "snd (curl_url_set sure_env (Some demo_url) CURLUPART_PORT (Some ''x'') {}) = Some v"
    by (simp add: curl_url_set_def CURL_MAX_INPUT_LENGTH_def)
  ultimately have "curl_url_set sure_env (Some demo_url) CURLUPART_PORT (Some ''x'') {} = (CURLUE_BAD_PORT_NUMBER, Some demo_url)"
    using url_set_failure_keeps [of sure_env demo_url CURLUPART_PORT "Some ''x''" "{}" CURLUE_BAD_PORT_NUMBER v]
    by (simp add: prod_eq_iff)
  moreover have "(demo_url\<lparr>u_zoneid := Some ''eth0''\<rparr>)\<lparr>u_zoneid := None\<rparr> = demo_url\<lparr>u_zoneid := None\<rparr>"
    using url_set_failure_keeps [OF refused_host_sets_zone, of demo_url] by (auto simp: demo_url_def empty_url_def)
  ultimately show ?thesis using refused_host_sets_zone by blast
qed

section \<open>Encoding and decoding a part\<close>

lemma pct_decode_char: "c \<noteq> CHR ''%'' \<Longrightarrow> pct_decode (c # rest) = c # pct_decode rest"
  by (simp add: pct_decode.simps [of "c # rest"] urldecode_next_def)

lemma pct_decode_hex: "pct_decode (CHR ''%'' # Curl_hexbyte c @ rest) = c # pct_decode rest"
proof (cases "ISUNRESERVED c")
  case True
  then show ?thesis using hex_pair_hexbyte [of c]
    by (simp add: pct_decode.simps [of "CHR ''%'' # _"] urldecode_next_def Curl_hexbyte_def udigit nibbles numeral_3_eq_3)
next
  case False
  then show ?thesis using pct_decode_piece [of c rest] by (simp add: esc_piece_def)
qed

lemma plus_to_space_simps [simp]:
  "plus_to_space [] = []" "plus_to_space (c # s) = (if c = CHR ''+'' then CHR '' '' else c) # plus_to_space s"
  "plus_to_space (s @ t) = plus_to_space s @ plus_to_space t"
  by (simp_all add: plus_to_space_def)

lemma udigit_not_plus: "n < 16 \<Longrightarrow> Curl_udigits ! n \<noteq> CHR ''+''"
  using udigit(1) [of n] by (auto simp: ISXDIGIT_code)

lemma plus_to_space_hex: "plus_to_space (Curl_hexbyte c) = Curl_hexbyte c"
  using nibbles [of c] by (simp add: Curl_hexbyte_def udigit_not_plus)

lemma piece_char: "ISUNRESERVED c \<or> allowed_in_path c \<or> c = CHR ''='' \<Longrightarrow> c \<noteq> CHR ''%'' \<and> (c = CHR ''+'' \<longrightarrow> \<not> ISUNRESERVED c)"
  by (auto simp: allowed_in_path_def ctype_defs char_le_code)

text \<open>What a part is turned into is turned back.\<close>

lemma encode_pieces_decode:
  "pct_decode (concat (encode_pieces False path equ s)) = s"
  "pct_decode (plus_to_space (concat (encode_pieces True False equ s))) = s"
proof (induction s arbitrary: equ)
  case Nil
  { case 1 show ?case by (simp add: pct_decode.simps) }
  { case 2 show ?case by (simp add: pct_decode.simps) }
next
  case (Cons c s)
  { case 1
    show ?case using Cons.IH(1) piece_char [of c]
      by (auto simp: encode_piece_def pct_decode_char pct_decode_hex) }
  { case 2
    show ?case using Cons.IH(2) piece_char [of c]
      by (auto simp: encode_piece_def pct_decode_char pct_decode_hex plus_to_space_hex) }
qed

lemma encode_pieces_length: "length (concat (encode_pieces pls path equ s)) \<le> 3 * length s"
proof (induction s arbitrary: equ)
  case (Cons c s)
  have "length (encode_piece pls path equ c) \<le> 3" by (simp add: encode_piece_def Curl_hexbyte_def)
  then show ?case using add_mono [OF _ Cons.IH [of "equ \<and> c \<noteq> CHR ''=''"]] by fastforce
qed simp

text \<open>The parts whose text is free.\<close>

definition free_part :: "CURLUPart \<Rightarrow> bool" where
  "free_part what \<longleftrightarrow> what \<notin> {CURLUPART_URL, CURLUPART_SCHEME, CURLUPART_HOST, CURLUPART_PORT}"

lemma encoded_part_plenty:
  assumes "s \<noteq> []"
  shows "\<exists>t. encoded_part plenty s True pls path lead False = Inr (Some t) \<and> t \<noteq> []
     \<and> t = (if lead \<and> peek s \<noteq> CHR ''/'' then ''/'' else []) @ concat (encode_pieces pls path False s)"
proof -
  let ?lead = "if lead \<and> peek s \<noteq> CHR ''/'' then ''/'' else []" and ?t = "concat (encode_pieces pls path False s)"
  let ?lim = "length s * 3 + 1 + (if lead then 1 else 0)"
  have ne: "?t \<noteq> []" using assms by (cases s) (auto simp: encode_piece_def)
  have l: "length ?lead + length ?t < ?lim" using encode_pieces_length [of pls path False s] by (auto simp: algebra_simps)
  have "(if lead \<and> peek s \<noteq> CHR ''/'' then dyn_put plenty ?lim [] ''/'' else Inr []) = Inr ?lead"
    using assms by (auto simp: dyn_put_plenty)
  moreover have "url_encode_part plenty ?lim ?lead s pls path False = Inr (?lead @ ?t)"
    unfolding url_encode_part_puts using dyn_puts_plenty [OF l] by simp
  ultimately show ?thesis using ne by (auto simp: encoded_part_def Let_def)
qed

lemma urlget_format_decode:
  assumes "e_mem env = plenty" "p \<noteq> []" "\<forall>c\<in>set s. 32 \<le> code_of c"
    "pct_decode (if pd then plus_to_space p else p) = s"
  shows "urlget_format env u what p pd {CURLU_URLDECODE} = (CURLUE_OK, Some s)"
proof -
  let ?p = "if pd then plus_to_space p else p"
  have l: "length ?p = length p" by (simp add: plus_to_space_def)
  have "\<not> list_ex (rejected REJECT_CTRL) s" using assms(3) by (auto simp: list_ex_iff rejected_def)
  then have "Curl_urldecode True ?p (length ?p) REJECT_CTRL = (CURLE_OK, Some s)"
    using assms(2) unfolding l Curl_urldecode_def input_bytes_def urldecode_loop_policy
    by (simp add: assms(4) [symmetric] l)
  then show ?thesis using assms(1) by (simp add: urlget_format_def Let_def plenty_def)
qed

text \<open>
  C30: a part survives.  With memory at hand, any non-empty string without control bytes that is
  set as user, password, options, zone, path, query or fragment with \<open>CURLU_URLENCODE\<close> is stored,
  in a form at most three times as long that changes no other part, and \<open>curl_url_get\<close> with
  \<open>CURLU_URLDECODE\<close> returns it; a path is given the leading slash it lacks.
\<close>

theorem url_part_roundtrip:
  assumes "e_mem env = plenty" "free_part what" "s \<noteq> []" "length s \<le> CURL_MAX_INPUT_LENGTH"
    "\<forall>c\<in>set s. 32 \<le> code_of c"
  defines "r \<equiv> (if what = CURLUPART_PATH \<and> hd s \<noteq> CHR ''/'' then CHR ''/'' # s else s)"
  shows "\<exists>t. length t \<le> 3 * length s + 1
     \<and> curl_url_set env (Some u) what (Some s) {CURLU_URLENCODE}
         = (CURLUE_OK, Some (store_part what (Some t) (prepare_part what u)))
     \<and> curl_url_get env (Some (store_part what (Some t) (prepare_part what u))) what True {CURLU_URLDECODE}
         = (CURLUE_OK, Some r)"
proof -
  let ?q = "what = CURLUPART_QUERY" and ?p = "what = CURLUPART_PATH"
  obtain t where t: "encoded_part plenty s True ?q ?p ?p False = Inr (Some t)" "t \<noteq> []"
      "t = (if ?p \<and> peek s \<noteq> CHR ''/'' then ''/'' else []) @ concat (encode_pieces ?q ?p False s)"
    using encoded_part_plenty [OF assms(3)] by blast
  have pk: "peek s = hd s" using assms(3) by (cases s) auto
  have st: "curl_url_set env (Some u) what (Some s) {CURLU_URLENCODE}
      = (CURLUE_OK, Some (store_part what (Some t) (prepare_part what u)))"
    using assms(1,2,4) t(1) by (simp add: curl_url_set_def set_part_def free_part_def)
  have dec: "pct_decode (if ?q then plus_to_space t else t) = r"
    unfolding t(3) r_def pk using encode_pieces_decode(1) [of ?p False s] encode_pieces_decode(2) [of False s]
    by (auto simp: pct_decode_char)
  have "\<forall>c\<in>set r. 32 \<le> code_of c" using assms(5) by (simp add: r_def)
  then have "urlget_format env v what t ?q {CURLU_URLDECODE} = (CURLUE_OK, Some r)" for v
    using urlget_format_decode [OF assms(1) t(2) _ dec] by blast
  then have "curl_url_get env (Some (store_part what (Some t) (prepare_part what u))) what True {CURLU_URLDECODE}
      = (CURLUE_OK, Some r)"
    using assms(2) t(2) by (cases what) (auto simp: curl_url_get_def free_part_def store_part_def)
  moreover have "length (if ?p \<and> peek s \<noteq> CHR ''/'' then ''/'' else []) \<le> 1" by simp
  then have "length t \<le> 3 * length s + 1"
    unfolding t(3) length_append using encode_pieces_length [of ?q ?p False s] by linarith
  ultimately show ?thesis using st by blast
qed

theorem url_part_roundtrip_witness:
  "\<exists>t. curl_url_get sure_env (Some (store_part CURLUPART_QUERY (Some t) (prepare_part CURLUPART_QUERY empty_url)))
       CURLUPART_QUERY True {CURLU_URLDECODE} = (CURLUE_OK, Some ''a b+c%'')"
  using url_part_roundtrip [of sure_env CURLUPART_QUERY "''a b+c%''" empty_url]
  by (auto simp: sure_env_def free_part_def CURL_MAX_INPUT_LENGTH_def)

section \<open>Corners\<close>

text \<open>
  Appending an empty string to a query with both flags erases the query: nothing is added to the
  buffer, so its pointer is NULL, which is stored in place of the query.
\<close>

lemma append_empty_query_erases:
  "curl_url_set env (Some u) CURLUPART_QUERY (Some []) {CURLU_URLENCODE, CURLU_APPENDQUERY}
     = (CURLUE_OK, Some (u\<lparr>u_query_present := True, u_query := None\<rparr>))"
  by (simp add: curl_url_set_def set_part_def encoded_part_def store_part_def prepare_part_def)

text \<open>A blank part read with \<open>CURLU_URLENCODE\<close> is a success without a string.\<close>

lemma get_blank_encoded:
  "e_mem env 1 \<Longrightarrow> u_user u = Some [] \<Longrightarrow> curl_url_get env (Some u) CURLUPART_USER True {CURLU_URLENCODE} = (CURLUE_OK, None)"
  by (simp add: curl_url_get_def urlget_format_def urlencode_str_def urlencode_loop.simps)

text \<open>A file handle without a path prints the text of a NULL pointer, although its path reads as a slash.\<close>

lemma file_url_without_path:
  "curl_url_get sure_env (Some (empty_url\<lparr>u_scheme := Some ''file''\<rparr>)) CURLUPART_URL True {} = (CURLUE_OK, Some ''file://(nil)'')
   \<and> curl_url_get sure_env (Some (empty_url\<lparr>u_scheme := Some ''file''\<rparr>)) CURLUPART_PATH True {} = (CURLUE_OK, Some ''/'')"
  by (simp add: curl_url_get_def urlget_url_def file_url_def fragment_sep_def query_sep_def or_blank_def fmt_s_def
      nilstr_def maprintf_def dyn_put_plenty DYN_APRINTF_def sure_env_def empty_url_def curl_strequal_def urlget_format_def
      plenty_def casecompare_eq)

text \<open>
  A bracketed host is not required to end with the bracket, and a zoned one may have anything
  after it; both are stored as they are given, the zone in its own field as well.
\<close>

lemma six: "Suc (Suc (Suc (Suc (Suc (Suc 0))))) = 6"
  by simp

lemma bracket_not_checked:
  "hostname_check plenty u ''[::A:B/'' = (CURLUE_OK, u, ''[::A:B]'')"
  "hostname_check plenty u ''[::A:B%25eth0]x'' = (CURLUE_OK, u\<lparr>u_zoneid := Some ''eth0''\<rparr>, ''[::A:B]'')"
  using inet_ntop_longer(1) inet_ntop_longer(3) [folded six]
  by (simp_all add: hostname_check_def ipv6_parse_def strspn_def ipv6_letters_def zone_of_def MAX_ZONEID_LEN_def plenty_def)

text \<open>A copy forgets that the scheme was guessed.\<close>

lemma dup_forgets_guess: "curl_url_dup env u = Some v \<Longrightarrow> \<not> u_guessed_scheme v"
  by (auto simp: curl_url_dup_def empty_url_def split: if_splits)

end
