(* ===== verification/Url_Roundtrip.thy ===== *)
theory Url_Roundtrip
  imports Url_Correct
begin

text \<open>
  Printing and parsing: a handle in normal form is printed as a URL that parses to the same
  handle.  The normal form is what parsing leaves behind, so it is stated for each part by the
  characters the part may hold.
\<close>

section \<open>The normal form\<close>

definition visible :: "char \<Rightarrow> bool" where
  "visible c \<longleftrightarrow> 32 < code_of c \<and> code_of c \<noteq> 127"

text \<open>A string of visible characters without the given separators.\<close>

definition plain :: "bytes \<Rightarrow> bytes \<Rightarrow> bool" where
  "plain seps s \<longleftrightarrow> (\<forall>c\<in>set s. visible c \<and> c \<notin> set seps)"

definition opt_all :: "(bytes \<Rightarrow> bool) \<Rightarrow> bytes option \<Rightarrow> bool" where
  "opt_all P x = (case x of None \<Rightarrow> True | Some s \<Rightarrow> P s)"

lemma opt_all_simps [simp]: "opt_all P None" "opt_all P (Some s) = P s"
  by (simp_all add: opt_all_def)

definition login_normal :: "Curl_URL \<Rightarrow> bool \<Rightarrow> bool" where
  "login_normal u want \<longleftrightarrow>
     (u_user u = None \<longrightarrow> u_password u = None \<and> u_options u = None)
     \<and> opt_all (plain (''/?#@:'' @ (if want then '';'' else []))) (u_user u)
     \<and> opt_all (plain (''/?#@'' @ (if want then '';'' else []))) (u_password u)
     \<and> opt_all (\<lambda>z. want \<and> z \<noteq> [] \<and> plain ''/?#@:'' z) (u_options u)"

text \<open>A name or an IPv4 address as dotted quad, or an IPv6 address as the printer spells it.\<close>

definition name_normal :: "bytes \<Rightarrow> bool" where
  "name_normal h \<longleftrightarrow> h \<noteq> [] \<and> plain HOSTNAME_INVALID_CHARS h \<and> h \<noteq> ''.'' \<and> (\<nexists>p. h = p @ ''..'')
     \<and> (\<forall>a. read_ipv4 h = Some a \<longrightarrow> h = dotted (quad a))"

definition addr_normal :: "bytes \<Rightarrow> bool" where
  "addr_normal h \<longleftrightarrow> (\<exists>t d. h = CHR ''['' # t @ '']'' \<and> 2 \<le> length t \<and> list_all (\<lambda>c. c \<in> set ipv6_letters) t
     \<and> inet_pton6 t = Some d \<and> inet_ntop6 d (length t + 1) = Some t)"

definition path_normal :: "bytes \<Rightarrow> bool" where
  "path_normal p \<longleftrightarrow> peek p = CHR ''/'' \<and> 2 \<le> length p \<and> plain ''?#'' p \<and> clean_path p = p"

definition normal_url :: "Curl_URL \<Rightarrow> bytes \<Rightarrow> bytes \<Rightarrow> Curl_scheme \<Rightarrow> bool" where
  "normal_url u s h sc \<longleftrightarrow>
     u_scheme u = Some s \<and> scheme_ok s \<and> lower s = s \<and> s \<noteq> ''file'' \<and> Curl_get_scheme s = Some sc
     \<and> u_host u = Some h \<and> (name_normal h \<or> addr_normal h) \<and> u_zoneid u = None
     \<and> login_normal u (PROTOPT_URLOPTIONS \<in> sc_flags sc)
     \<and> opt_all path_normal (u_path u)
     \<and> opt_all (\<lambda>q. q \<noteq> [] \<and> plain ''#'' q) (u_query u) \<and> u_query_present u = (u_query u \<noteq> None)
     \<and> opt_all (\<lambda>f. f \<noteq> [] \<and> plain [] f) (u_fragment u) \<and> u_fragment_present u = (u_fragment u \<noteq> None)
     \<and> u_portnum u < 65536 \<and> (\<not> u_port_present u \<longrightarrow> u_portnum u = 0) \<and> \<not> u_guessed_scheme u"

section \<open>The text\<close>

definition login_text :: "Curl_URL \<Rightarrow> bytes" where
  "login_text u =
     or_blank (u_user u) @ (if u_password u \<noteq> None then '':'' else []) @ or_blank (u_password u) @
     (if u_options u \<noteq> None then '';'' else []) @ or_blank (u_options u)"

definition auth_text :: "Curl_URL \<Rightarrow> bytes \<Rightarrow> bytes" where
  "auth_text u h =
     (if u_user u \<noteq> None then login_text u @ ''@'' else []) @ h @
     (if u_port_present u then CHR '':'' # dec (u_portnum u) else [])"

definition rest_text :: "Curl_URL \<Rightarrow> bytes" where
  "rest_text u =
     (case u_path u of Some p \<Rightarrow> p | None \<Rightarrow> ''/'') @
     (case u_query u of Some q \<Rightarrow> CHR ''?'' # q | None \<Rightarrow> []) @
     (case u_fragment u of Some f \<Rightarrow> CHR ''#'' # f | None \<Rightarrow> [])"

definition url_text :: "Curl_URL \<Rightarrow> bytes \<Rightarrow> bytes \<Rightarrow> bytes" where
  "url_text u s h = s @ ''://'' @ auth_text u h @ rest_text u"

section \<open>The login\<close>

lemma memchr_absent: "c \<notin> set s \<Longrightarrow> memchr s c = None"
  by (simp add: memchr_None)

lemma plain_notin: "plain seps s \<Longrightarrow> c \<in> set seps \<Longrightarrow> c \<notin> set s"
  by (auto simp: plain_def)

lemma login_details:
  assumes "login_normal u want" "u_user u = Some x"
  shows "Curl_parse_login_details plenty (login_text u) want = Some (x, u_password u, u_options u)"
proof -
  have x: "CHR '':'' \<notin> set x" "want \<Longrightarrow> CHR '';'' \<notin> set x"
    using assms by (auto simp: login_normal_def plain_def)
  have p: "want \<Longrightarrow> CHR '';'' \<notin> set y" if "u_password u = Some y" for y
    using assms that by (auto simp: login_normal_def plain_def)
  have z: "want" "z \<noteq> []" "CHR '':'' \<notin> set z" if "u_options u = Some z" for z
    using assms that by (auto simp: login_normal_def plain_def)
  show ?thesis
  proof (cases "u_password u"; cases "u_options u")
    assume "u_password u = None" "u_options u = None"
    then show ?thesis using assms(2) x
      by (cases want) (simp_all add: login_text_def or_blank_def Curl_parse_login_details_def memchr_absent plenty_def)
  next
    fix zz assume o: "u_password u = None" "u_options u = Some zz"
    then show ?thesis using assms(2) x z [OF o(2)] memchr_first [of "CHR '';''" x zz]
      by (simp add: login_text_def or_blank_def Curl_parse_login_details_def memchr_absent plenty_def)
  next
    fix y assume o: "u_password u = Some y" "u_options u = None"
    then show ?thesis using assms(2) x p [OF o(1)] memchr_first [of "CHR '':''" x y]
      by (cases want) (simp_all add: login_text_def or_blank_def Curl_parse_login_details_def memchr_absent plenty_def)
  next
    fix y zz assume o: "u_password u = Some y" "u_options u = Some zz"
    then show ?thesis using assms(2) x p [OF o(1)] z [OF o(2)] memchr_first [of "CHR '':''" x "y @ CHR '';'' # zz"]
        memchr_first [of "CHR '';''" "x @ CHR '':'' # y" zz]
      by (simp add: login_text_def or_blank_def Curl_parse_login_details_def memchr_absent plenty_def)
  qed
qed

section \<open>The authority\<close>

lemma letters_plain: "list_all (\<lambda>c. visible c \<and> c \<notin> set ''/?#@[]%'') ipv6_letters"
  by (simp add: ipv6_letters_def visible_def)

lemma addr_normalE:
  assumes "addr_normal h"
  obtains t d where "h = CHR ''['' # t @ '']''" "2 \<le> length t" "\<forall>c\<in>set t. c \<in> set ipv6_letters"
    "\<forall>c\<in>set t. visible c \<and> c \<notin> set ''/?#@[]%''" "inet_pton6 t = Some d" "inet_ntop6 d (length t + 1) = Some t"
proof -
  obtain t d where t: "h = CHR ''['' # t @ '']''" "2 \<le> length t" "\<forall>c\<in>set t. c \<in> set ipv6_letters"
      "inet_pton6 t = Some d" "inet_ntop6 d (length t + 1) = Some t"
    using assms unfolding addr_normal_def list_all_iff by blast
  have "\<forall>c\<in>set t. visible c \<and> c \<notin> set ''/?#@[]%''" using letters_plain t(3) unfolding list_all_iff by blast
  then show thesis using t that by blast
qed

lemma name_normal_chars: "name_normal h \<Longrightarrow> c \<in> set h \<Longrightarrow> visible c \<and> c \<notin> set ''/?#@[]%:''"
  by (auto simp: name_normal_def plain_def HOSTNAME_INVALID_CHARS_def)

lemma host_normal_chars: "name_normal h \<or> addr_normal h \<Longrightarrow> c \<in> set h \<Longrightarrow> visible c \<and> c \<notin> set ''/?#@%''"
  by (auto dest: name_normal_chars elim!: addr_normalE simp: visible_def)

lemma host_normal_nonempty: "name_normal h \<or> addr_normal h \<Longrightarrow> h \<noteq> []"
  by (auto simp: name_normal_def addr_normal_def)

lemma dec_no_sep: "c \<in> set ''/?#@:'' \<Longrightarrow> c \<notin> set (dec n)"
  using dec_digits [of n] by (auto simp: ISDIGIT_code)

lemma dec_nonempty: "dec n \<noteq> []"
  by (simp add: dec_def dec_loop_unfold)

lemma port_number: "n < 65536 \<Longrightarrow> curlx_str_number (dec n) 0xffff = (STRE_OK, [], int n)"
  using curlx_str_number_digits [of "dec n" "[]" 65535] dec_digits [of n] dec_nonempty [of n]
  by (simp add: num_value_dec)

lemma portbuf_dec: "n < 65536 \<Longrightarrow> portbuf n = dec n"
  using dec_loop_length [of n 5] by (auto simp: portbuf_def snprintf_bytes_eq print_u_dec dec_def)

lemma parse_port_text:
  assumes "name_normal h \<or> addr_normal h" "n < 65536" "\<not> present \<Longrightarrow> n = 0"
  shows "parse_port v (h @ (if present then CHR '':'' # dec n else [])) hs
     = (CURLUE_OK, v\<lparr>u_portnum := n, u_port_present := present\<rparr>, h)"
proof -
  let ?t = "if present then CHR '':'' # dec n else []"
  note num = port_number [OF assms(2)] dec_nonempty [of n]
  from assms(1) show ?thesis
  proof
    assume nm: "name_normal h"
    have ne: "h \<noteq> []" using nm by (simp add: name_normal_def)
    have c: "CHR '':'' \<notin> set h" "peek h \<noteq> CHR ''[''"
      using name_normal_chars [OF nm, of "CHR '':''"] name_normal_chars [OF nm, of "peek h"] ne by (auto, cases h, auto)
    have pk: "peek (h @ ?t) = peek h" using ne by (cases h) auto
    show ?thesis
    proof (cases present)
      case True
      then show ?thesis using c pk num memchr_first [OF c(1), of "dec n"]
        by (simp add: parse_port_def Let_def)
    next
      case False
      then show ?thesis using c pk assms(3) by (simp add: parse_port_def memchr_absent)
    qed
  next
    assume "addr_normal h"
    then obtain t d where t: "h = CHR ''['' # t @ '']''" "\<forall>c\<in>set t. visible c \<and> c \<notin> set ''/?#@[]%''"
      by (elim addr_normalE)
    have "CHR '']'' \<notin> set (CHR ''['' # t)" using t(2) by auto
    from memchr_first [OF this, of ?t] have m: "memchr (h @ ?t) CHR '']'' = Some (Suc (length t))" by (simp add: t(1))
    show ?thesis
    proof (cases present)
      case True
      then show ?thesis using m num by (simp add: parse_port_def Let_def t(1))
    next
      case False
      then show ?thesis using m assms(3) by (simp add: parse_port_def Let_def t(1))
    qed
  qed
qed

lemma hostname_check_name:
  assumes "name_normal h"
  shows "hostname_check mem v h = (CURLUE_OK, v, h)"
proof -
  have "h \<noteq> []" and d: "\<not> (length h \<ge> 2 \<and> h ! (length h - 1) = CHR ''.'' \<and> h ! (length h - 2) = CHR ''.'')"
  proof -
    show "h \<noteq> []" using assms by (simp add: name_normal_def)
    show "\<not> (length h \<ge> 2 \<and> h ! (length h - 1) = CHR ''.'' \<and> h ! (length h - 2) = CHR ''.'')"
    proof
      assume a: "length h \<ge> 2 \<and> h ! (length h - 1) = CHR ''.'' \<and> h ! (length h - 2) = CHR ''.''"
      then obtain p y x where h: "h = p @ [y, x]"
        by (cases h rule: rev_cases; cases "butlast h" rule: rev_cases) auto
      have "h = p @ ''..''" using a by (simp add: h nth_append)
      then show False using assms by (metis name_normal_def)
    qed
  qed
  moreover have "strcspn h HOSTNAME_INVALID_CHARS = length h"
    using assms strcspn_full by (auto simp: name_normal_def plain_def)
  moreover have "peek h \<noteq> CHR ''[''"
    using name_normal_chars [OF assms, of "peek h"] \<open>h \<noteq> []\<close> by (cases h) auto
  moreover have "\<not> (length h = 1 \<and> peek h = CHR ''.'')"
    using assms by (cases h) (auto simp: name_normal_def)
  ultimately show ?thesis by (simp add: hostname_check_def Let_def)
qed

lemma ipv6_parse_addr:
  assumes "addr_normal h"
  shows "ipv6_parse mem v h = (CURLUE_OK, v, h)" "peek h = CHR ''[''"
proof -
  obtain t d where t: "h = CHR ''['' # t @ '']''" "2 \<le> length t" "\<forall>c\<in>set t. c \<in> set ipv6_letters"
      "inet_pton6 t = Some d" "inet_ntop6 d (length t + 1) = Some t"
    using assms by (elim addr_normalE)
  have "CHR '']'' \<notin> set ipv6_letters" using letters_plain unfolding list_all_iff by auto
  then have "strspn (t @ '']'') ipv6_letters = length t" using t(3) by (simp add: strspn_def takeWhile_append2 takeWhile_all)
  then show "ipv6_parse mem v h = (CURLUE_OK, v, h)" "peek h = CHR ''[''" using t
    by (simp_all add: ipv6_parse_def Let_def curlx_inet_pton_def curlx_inet_ntop_def)
qed

lemma login_text_chars:
  assumes "login_normal u want" "c \<in> set (login_text u)"
  shows "visible c \<and> c \<notin> set ''/?#@''"
proof -
  consider x where "u_user u = Some x" "c \<in> set x" | y where "u_password u = Some y" "c \<in> set y"
    | z where "u_options u = Some z" "c \<in> set z" | "c = CHR '':'' \<or> c = CHR '';''"
    using assms(2) by (cases "u_user u"; cases "u_password u"; cases "u_options u")
      (auto simp: login_text_def or_blank_def)
  then show ?thesis
  proof cases
    case 4
    then show ?thesis by (auto simp: visible_def)
  qed (use assms(1) in \<open>auto simp: login_normal_def plain_def\<close>)
qed

lemma auth_text_chars:
  assumes "normal_url u s h sc" "c \<in> set (auth_text u h)"
  shows "visible c \<and> c \<notin> set ''/?#''"
proof -
  consider "u_user u \<noteq> None" "c \<in> set (login_text u)" | "c = CHR ''@''" | "c \<in> set h" | "c = CHR '':''" | "c \<in> set (dec (u_portnum u))"
    using assms(2) by (auto simp: auth_text_def split: if_splits)
  then show ?thesis
  proof cases
    case 1
    then show ?thesis using login_text_chars assms(1) by (auto simp: normal_url_def)
  next
    case 3
    then show ?thesis using host_normal_chars [of h c] assms(1) by (auto simp: normal_url_def)
  next
    case 5
    then show ?thesis using dec_digits [of "u_portnum u"] by (auto simp: visible_def ISDIGIT_code)
  qed (simp_all add: visible_def)
qed

lemma parse_login_text:
  assumes "normal_url u s h sc" "u_scheme v = Some s" "u_user v = None" "u_password v = None" "u_options v = None"
    "CURLU_DISALLOW_USER \<notin> flags"
  shows "\<exists>off. parse_hostname_login plenty v (auth_text u h) flags
       = (CURLUE_OK, v\<lparr>u_user := u_user u, u_password := u_password u, u_options := u_options u\<rparr>, off)
     \<and> drop off (auth_text u h) = h @ (if u_port_present u then CHR '':'' # dec (u_portnum u) else [])"
proof -
  let ?hp = "h @ (if u_port_present u then CHR '':'' # dec (u_portnum u) else [])"
  have ln: "login_normal u (PROTOPT_URLOPTIONS \<in> sc_flags sc)" and sc: "Curl_get_scheme s = Some sc"
    and hn: "name_normal h \<or> addr_normal h"
    using assms(1) by (auto simp: normal_url_def)
  have at: "CHR ''@'' \<notin> set ?hp" using host_normal_chars [OF hn, of "CHR ''@''"] dec_no_sep [of "CHR ''@''"] by auto
  show ?thesis
  proof (cases "u_user u")
    case None
    then have "u_password u = None" "u_options u = None" using ln by (simp_all add: login_normal_def)
    moreover have "memchr (auth_text u h) CHR ''@'' = None" using at None by (simp add: auth_text_def memchr_None)
    moreover have "auth_text u h = ?hp" using None by (simp add: auth_text_def)
    ultimately show ?thesis using None by (simp add: parse_hostname_login_def login_cleared_def)
  next
    case (Some x)
    have a: "auth_text u h = login_text u @ CHR ''@'' # ?hp" using Some by (simp add: auth_text_def)
    have "CHR ''@'' \<notin> set (login_text u)" using login_text_chars [OF ln, of "CHR ''@''"] by auto
    from memchr_first [OF this, of ?hp] have m: "memchr (auth_text u h) CHR ''@'' = Some (length (login_text u))" by (simp only: a)
    have t: "take (length (login_text u)) (auth_text u h) = login_text u" by (simp add: a)
    show ?thesis
      using Some m t login_details [OF ln Some] assms(2-6) sc a
      by (simp add: parse_hostname_login_def Let_def)
  qed
qed

lemma parse_authority_text:
  assumes "normal_url u s h sc" "u_scheme v = Some s" "u_user v = None" "u_password v = None" "u_options v = None"
    "CURLU_DISALLOW_USER \<notin> flags" "length (auth_text u h) < CURL_MAX_INPUT_LENGTH"
  shows "parse_authority plenty v (auth_text u h) flags hs
     = (CURLUE_OK, v\<lparr>u_user := u_user u, u_password := u_password u, u_options := u_options u,
          u_portnum := u_portnum u, u_port_present := u_port_present u\<rparr>, h)"
proof -
  obtain off where l: "parse_hostname_login plenty v (auth_text u h) flags
       = (CURLUE_OK, v\<lparr>u_user := u_user u, u_password := u_password u, u_options := u_options u\<rparr>, off)"
      "drop off (auth_text u h) = h @ (if u_port_present u then CHR '':'' # dec (u_portnum u) else [])"
    using parse_login_text [OF assms(1-6)] by blast
  have hn: "name_normal h \<or> addr_normal h" and p: "u_portnum u < 65536" "\<not> u_port_present u \<Longrightarrow> u_portnum u = 0"
    using assms(1) by (auto simp: normal_url_def)
  have "dyn_put plenty CURL_MAX_INPUT_LENGTH [] (drop off (auth_text u h)) = Inr (drop off (auth_text u h))"
    using assms(7) by (simp add: dyn_put_plenty)
  note d = this [unfolded l(2)]
  have u: "urldecode_host plenty h = (CURLUE_OK, h)"
    using host_normal_chars [OF hn, of "CHR ''%''"] by (auto simp: urldecode_host_def)
  have k: "(case ipv4_normalize plenty h of
      (HOST_IPV4, host3) \<Rightarrow> (CURLUE_OK, w, host3) | (HOST_IPV6, host3) \<Rightarrow> ipv6_parse plenty w host3
      | (HOST_NAME, host3) \<Rightarrow> hostname_check plenty w host3 | (HOST_ERROR, host3) \<Rightarrow> (CURLUE_OUT_OF_MEMORY, w, host3))
      = (CURLUE_OK, w, h)" for w
    using hn
  proof
    assume nm: "name_normal h"
    have "peek h \<noteq> CHR ''[''" using name_normal_chars [OF nm, of "peek h"] host_normal_nonempty [OF hn] by (cases h) auto
    then show ?thesis using ipv4_normalize_eq [of h] hostname_check_name [OF nm] nm
      by (cases "read_ipv4 h") (auto simp: name_normal_def)
  next
    assume "addr_normal h"
    then show ?thesis using ipv6_parse_addr by (simp add: ipv4_normalize_def)
  qed
  show ?thesis
    using l(1) d parse_port_text [OF hn p] host_normal_nonempty [OF hn] u k
    unfolding parse_authority_def by (simp add: l(2))
qed

section \<open>Path, query and fragment\<close>

lemma handle_path_text:
  assumes "opt_all path_normal po" "u_path v = None"
  shows "handle_path plenty v (case po of Some p \<Rightarrow> p | None \<Rightarrow> ''/'') {} False = (CURLUE_OK, v\<lparr>u_path := po\<rparr>)"
proof (cases po)
  case None
  then show ?thesis using assms(2) by (simp add: handle_path_def)
next
  case (Some p)
  then have "peek p = CHR ''/''" "2 \<le> length p" "clean_path p = p" using assms(1) by (simp_all add: path_normal_def)
  then show ?thesis using Some assms(2) dedot_absolute [of p] by (simp add: handle_path_def plenty_def)
qed

lemma parse_rest_text:
  assumes "normal_url u s h sc" "u_path v = None" "u_query v = None" "u_fragment v = None"
    "\<not> u_query_present v" "\<not> u_fragment_present v"
  shows "parse_rest plenty v (rest_text u) {} False
     = (CURLUE_OK, v\<lparr>u_fragment_present := u_fragment_present u, u_fragment := u_fragment u,
          u_query_present := u_query_present u, u_query := u_query u, u_path := u_path u\<rparr>)"
proof -
  define P where "P = (case u_path u of Some p \<Rightarrow> p | None \<Rightarrow> ''/'')"
  define Q where "Q = (case u_query u of Some q \<Rightarrow> CHR ''?'' # q | None \<Rightarrow> [])"
  have n: "opt_all path_normal (u_path u)" "opt_all (\<lambda>q. q \<noteq> [] \<and> plain ''#'' q) (u_query u)"
      "opt_all (\<lambda>f. f \<noteq> [] \<and> plain [] f) (u_fragment u)"
      "u_query_present u = (u_query u \<noteq> None)" "u_fragment_present u = (u_fragment u \<noteq> None)"
    using assms(1) by (auto simp: normal_url_def)
  have P: "CHR ''?'' \<notin> set P" "CHR ''#'' \<notin> set P"
    using n(1) by (cases "u_path u"; auto simp: P_def path_normal_def plain_def)+
  have Q: "CHR ''#'' \<notin> set Q" using n(2) by (cases "u_query u") (auto simp: Q_def plain_def)
  have r: "rest_text u = (P @ Q) @ (case u_fragment u of Some f \<Rightarrow> CHR ''#'' # f | None \<Rightarrow> [])"
    by (simp add: rest_text_def P_def Q_def)
  let ?v1 = "v\<lparr>u_fragment_present := u_fragment_present u, u_fragment := u_fragment u\<rparr>"
  have f: "(case memchr (rest_text u) CHR ''#'' of None \<Rightarrow> (CURLUE_OK, v, rest_text u)
      | Some i \<Rightarrow> (case handle_fragment plenty v (drop i (rest_text u)) {} of (ures, u1) \<Rightarrow> (ures, u1, take i (rest_text u))))
      = (CURLUE_OK, ?v1, P @ Q)"
    using P(2) Q n(3,5) assms(4,6) memchr_first [of "CHR ''#''" "P @ Q"]
    by (cases "u_fragment u") (auto simp: r memchr_absent handle_fragment_def copy_part_def plenty_def)
  let ?v2 = "?v1\<lparr>u_query_present := u_query_present u, u_query := u_query u\<rparr>"
  have q: "(case memchr (P @ Q) CHR ''?'' of None \<Rightarrow> (CURLUE_OK, ?v1, P @ Q)
      | Some i \<Rightarrow> (case handle_query plenty ?v1 (drop i (P @ Q)) {} of (ures, u2) \<Rightarrow> (ures, u2, take i (P @ Q))))
      = (CURLUE_OK, ?v2, P)"
    using P(1) n(2,4) assms(3,5) memchr_first [of "CHR ''?''" P]
    by (cases "u_query u") (auto simp: Q_def memchr_absent handle_query_def copy_part_def plenty_def)
  have "handle_path plenty ?v2 P {} False = (CURLUE_OK, ?v2\<lparr>u_path := u_path u\<rparr>)"
    unfolding P_def using handle_path_text [OF n(1), of ?v2] assms(2) by simp
  then show ?thesis using f q by (simp add: parse_rest_def)
qed

section \<open>Printing\<close>

lemma urlget_text:
  assumes "normal_url u s h sc" "e_mem env = plenty" "length (url_text u s h) < DYN_APRINTF"
  shows "urlget_url env u {} = (CURLUE_OK, Some (url_text u s h))"
proof -
  have n: "u_scheme u = Some s" "scheme_ok s" "lower s = s" "s \<noteq> ''file''" "Curl_get_scheme s = Some sc" "u_host u = Some h"
      "u_zoneid u = None" "login_normal u (PROTOPT_URLOPTIONS \<in> sc_flags sc)" "u_portnum u < 65536"
      "opt_all (\<lambda>q. q \<noteq> [] \<and> plain ''#'' q) (u_query u)"
      "u_query_present u = (u_query u \<noteq> None)" "u_fragment_present u = (u_fragment u \<noteq> None)" "\<not> u_guessed_scheme u"
    using assms(1) by (auto simp: normal_url_def)
  have "NUL \<notin> set s" using n(2) by (auto simp: scheme_ok_def list_all_iff)
  moreover have "lower ''file'' = ''file''" by code_simp
  ultimately have nf: "\<not> curl_strequal (Some ''file'') (Some s)"
    using lower_fold [of s] lower_fold [of "''file''"] n(3,4) by (auto simp: curl_strequal_def casecompare_eq)
  have "length s \<le> 40" using n(2) by (simp add: scheme_ok_def MAX_SCHEME_LEN_def)
  then have sb: "fst (snprintf_bytes (MAX_SCHEME_LEN + 5) (s @ ''://'')) = s @ ''://''"
    by (simp add: snprintf_bytes_eq MAX_SCHEME_LEN_def)
  have po: "url_port u (Some sc) {} = (if u_port_present u then Some (dec (u_portnum u)) else None)"
    using portbuf_dec [OF n(9)] by (simp add: url_port_def)
  have op: "(if PROTOPT_URLOPTIONS \<notin> sc_flags sc then None else u_options u) = u_options u"
    using n(8) by (cases "u_options u") (auto simp: login_normal_def)
  have ho: "url_host env u h {} = Inr None" using n(7) by (simp add: url_host_def)
  have qs: "query_sep u {} @ or_blank (u_query u) @ x = (case u_query u of Some q \<Rightarrow> CHR ''?'' # q | None \<Rightarrow> []) @ x" for x
    using n(10) by (cases "u_query u") (auto simp: query_sep_def or_blank_def)
  have fs: "fragment_sep u {} @ or_blank (u_fragment u) = (case u_fragment u of Some f \<Rightarrow> CHR ''#'' # f | None \<Rightarrow> [])"
    by (cases "u_fragment u") (auto simp: fragment_sep_def or_blank_def)
  have us: "u_user u \<noteq> None \<or> u_password u \<noteq> None \<or> u_options u \<noteq> None \<longleftrightarrow> u_user u \<noteq> None"
    using n(8) by (auto simp: login_normal_def)
  have lg: "or_blank (u_user u) @ (if u_password u \<noteq> None then '':'' else []) @ or_blank (u_password u) @
     (if u_options u \<noteq> None then '';'' else []) @ or_blank (u_options u) @ (if u_user u \<noteq> None then ''@'' else []) @ x
     = (if u_user u \<noteq> None then login_text u @ ''@'' else []) @ x" for x
    using n(8) by (cases "u_user u") (auto simp: login_text_def login_normal_def or_blank_def)
  have pt: "(if (if b then Some d else None) \<noteq> None then '':'' else []) @ or_blank (if b then Some d else None) @ x
      = (if b then CHR '':'' # d else []) @ x" for b d x
    by (cases b) (simp_all add: or_blank_def)
  have "maprintf plenty (url_text u s h) = Some (url_text u s h)" using assms(3) by (simp add: maprintf_def dyn_put_plenty)
  moreover have "(s @ ''://'') @ or_blank (u_user u) @ (if u_password u \<noteq> None then '':'' else []) @ or_blank (u_password u) @
      (if u_options u \<noteq> None then '';'' else []) @ or_blank (u_options u) @ (if u_user u \<noteq> None then ''@'' else []) @
      h @ (if (if u_port_present u then Some (dec (u_portnum u)) else None) \<noteq> None then '':'' else []) @
      or_blank (if u_port_present u then Some (dec (u_portnum u)) else None) @
      (case u_path u of Some p \<Rightarrow> p | None \<Rightarrow> ''/'') @ query_sep u {} @ or_blank (u_query u) @
      fragment_sep u {} @ or_blank (u_fragment u) = url_text u s h"
    unfolding lg pt qs fs by (simp add: url_text_def auth_text_def rest_text_def)
  ultimately show ?thesis
    unfolding urlget_url_def Let_def n(1) n(6) option.case n(5) po op ho sum.case us
    using nf sb n(13) assms(2) by simp
qed

section \<open>Parsing the text\<close>

lemma absolute_url_text:
  assumes "scheme_ok s" "lower s = s"
  shows "Curl_is_absolute_url (s @ ''://'' @ x) g = (length s, s)"
proof -
  obtain c t where s: "s = c # t" "ISALPHA c" "\<forall>d\<in>set t. scheme_char d" "length t \<le> MAX_SCHEME_LEN - 1"
    using assms(1) by (cases s) (auto simp: scheme_ok_def list_all_iff)
  have "\<not> scheme_char CHR '':''" by (simp add: scheme_char_code)
  then have "takeWhile scheme_char (take (MAX_SCHEME_LEN - 1) (t @ ''://'' @ x)) = t"
    using s(3,4) by (cases "MAX_SCHEME_LEN - 1 - length t") (simp_all add: takeWhile_append2 takeWhile_all)
  moreover have "NUL \<notin> set s" using assms(1) by (auto simp: scheme_ok_def list_all_iff)
  then have "Curl_strntolower (s @ ''://'' @ x) (length s) = s"
    using strntolower_ok [of "length s" "s @ ''://'' @ x"] assms(2) by (simp add: lower_def)
  ultimately show ?thesis using s(1,2) by (simp add: Curl_is_absolute_url_def)
qed

lemma parse_front_text:
  assumes "normal_url u s h sc" "length (url_text u s h) < CURL_MAX_INPUT_LENGTH"
  shows "parse_front plenty (url_text u s h) empty_url {}
     = (CURLUE_OK, empty_url\<lparr>u_scheme := Some s, u_user := u_user u, u_password := u_password u, u_options := u_options u,
          u_portnum := u_portnum u, u_port_present := u_port_present u\<rparr>, Some h, rest_text u, False)"
proof -
  let ?x = "auth_text u h @ rest_text u" and ?v = "empty_url\<lparr>u_scheme := Some s\<rparr>"
  have n: "scheme_ok s" "lower s = s" "s \<noteq> ''file''" "Curl_get_scheme s = Some sc" "opt_all path_normal (u_path u)"
      "name_normal h \<or> addr_normal h"
    using assms(1) by (auto simp: normal_url_def)
  have ab: "Curl_is_absolute_url (url_text u s h) False = (length s, s)"
    using absolute_url_text [OF n(1,2)] by (simp add: url_text_def)
  have ne: "auth_text u h \<noteq> []" using host_normal_nonempty [OF n(6)] by (simp add: auth_text_def)
  have ch: "\<forall>c\<in>set (auth_text u h). c \<notin> set ''/?#''" using auth_text_chars [OF assms(1)] by blast
  have "peek (rest_text u) = CHR ''/''"
  proof (cases "u_path u")
    case (Some p)
    then show ?thesis using n(5) by (cases p) (auto simp: rest_text_def path_normal_def)
  qed (simp add: rest_text_def)
  then have rp: "hd (rest_text u) \<in> set ''/?#''" by (cases "rest_text u") auto
  have hl: "strcspn ?x ''/?#'' = length (auth_text u h)" using strcspn_stop [OF ch] rp by blast
  have "hd ?x \<noteq> CHR ''/''" using ne ch by (cases "auth_text u h") auto
  then have "takeWhile (\<lambda>c. c = CHR ''/'') (take 4 (''//'' @ ?x)) = ''//''" using ne by (cases ?x) (auto simp: eval_nat_numeral)
  then have sc: "parse_scheme plenty (url_text u s h) empty_url s (length s) {} = (CURLUE_OK, ?v, ?x)"
    using n(1,4) by (auto simp: parse_scheme_def url_text_def plenty_def scheme_ok_def Let_def)
  have "parse_authority plenty ?v (auth_text u h) {} True = (CURLUE_OK, ?v\<lparr>u_user := u_user u, u_password := u_password u,
      u_options := u_options u, u_portnum := u_portnum u, u_port_present := u_port_present u\<rparr>, h)"
    using assms(2) by (intro parse_authority_text [OF assms(1)]) (simp_all add: empty_url_def url_text_def)
  then show ?thesis
    using ab sc hl n(3) ne n(1) by (auto simp: parse_front_def Let_def scheme_ok_def)
qed

lemma url_text_visible:
  assumes "normal_url u s h sc" "c \<in> set (url_text u s h)"
  shows "visible c"
proof -
  consider "c \<in> set s" | "c \<in> set ''://''" | "c \<in> set (auth_text u h)" | p where "u_path u = Some p" "c \<in> set p"
    | "c \<in> set ''/?#''" | q where "u_query u = Some q" "c \<in> set q" | f where "u_fragment u = Some f" "c \<in> set f"
    using assms(2) by (cases "u_path u"; cases "u_query u"; cases "u_fragment u") (auto simp: url_text_def rest_text_def)
  then show ?thesis
  proof cases
    case 1
    then show ?thesis using assms(1) by (auto simp: normal_url_def scheme_ok_def list_all_iff scheme_char_code visible_def)
  next
    case 3
    then show ?thesis using auth_text_chars [OF assms(1)] by blast
  qed (use assms(1) in \<open>auto simp: normal_url_def path_normal_def plain_def visible_def\<close>)
qed

section \<open>Properties\<close>

text \<open>
  C28: printing and parsing.  A handle in normal form is printed, and setting any handle to the
  printed URL makes it the same handle again.  Normal is: a known scheme in lower case other than
  \<open>file\<close>; a user, password and options without the characters that end them; a host that is
  a name, a dotted quad or an IPv6 address in the printer's spelling; a path without dot segments;
  and no blank query or fragment.
\<close>

theorem url_print_parse:
  assumes "normal_url u s h sc" "e_mem env = plenty" "length (url_text u s h) < CURL_MAX_INPUT_LENGTH"
  shows "curl_url_get env (Some u) CURLUPART_URL True {} = (CURLUE_OK, Some (url_text u s h))
     \<and> curl_url_set env (Some v) CURLUPART_URL (Some (url_text u s h)) {} = (CURLUE_OK, Some u)"
proof -
  let ?url = "url_text u s h"
  have get: "curl_url_get env (Some u) CURLUPART_URL True {} = (CURLUE_OK, Some ?url)"
    using urlget_text [OF assms(1,2)] assms(3) by (simp add: curl_url_get_def DYN_APRINTF_def CURL_MAX_INPUT_LENGTH_def)
  have n: "u_scheme u = Some s" "scheme_ok s" "lower s = s" "u_host u = Some h" "u_zoneid u = None" "\<not> u_guessed_scheme u"
    using assms(1) by (auto simp: normal_url_def)
  have "Curl_junkscan ?url False = CURLUE_OK"
    using url_text_visible [OF assms(1)] assms(3) by (fastforce simp: Curl_junkscan_def visible_def)
  then have "parseurl plenty ?url empty_url {} = Inr u"
    using parse_front_text [OF assms(1,3)] parse_rest_text [OF assms(1)] n(1,4-6)
    by (cases u) (simp add: parseurl_def empty_url_def)
  moreover have "?url \<noteq> []" "fst (Curl_is_absolute_url ?url False) \<noteq> 0"
    using absolute_url_text [OF n(2,3)] n(2) by (auto simp: url_text_def scheme_ok_def)
  ultimately have "curl_url_set env (Some v) CURLUPART_URL (Some ?url) {} = (CURLUE_OK, Some u)"
    using assms(2,3) by (simp add: curl_url_set_def set_url_def parseurl_and_replace_def)
  with get show ?thesis by blast
qed

theorem url_print_parse_witness:
  "curl_url_set sure_env (Some empty_url) CURLUPART_URL (Some ''http://me:pw@host:81/a/b?x=1#top'') {}
     = (CURLUE_OK, Some (empty_url\<lparr>u_scheme := Some ''http'', u_user := Some ''me'', u_password := Some ''pw'',
          u_host := Some ''host'', u_path := Some ''/a/b'', u_query := Some ''x=1'', u_fragment := Some ''top'',
          u_portnum := 81, u_port_present := True, u_query_present := True, u_fragment_present := True\<rparr>))"
proof -
  let ?u = "empty_url\<lparr>u_scheme := Some ''http'', u_user := Some ''me'', u_password := Some ''pw'',
          u_host := Some ''host'', u_path := Some ''/a/b'', u_query := Some ''x=1'', u_fragment := Some ''top'',
          u_portnum := 81, u_port_present := True, u_query_present := True, u_fragment_present := True\<rparr>"
  have sc: "Curl_get_scheme ''http'' = Some Curl_scheme_http"
    by (simp add: get_scheme_iff known_schemes_def) code_simp
  have "dec 81 = ''81''" by (simp add: dec_octet) code_simp
  then have t: "url_text ?u ''http'' ''host'' = ''http://me:pw@host:81/a/b?x=1#top''"
    by (simp add: url_text_def auth_text_def login_text_def rest_text_def or_blank_def empty_url_def)
  have "read_ipv4 ''host'' = None"
    by (simp add: read_ipv4_def number_fields_def field_value_def field_base_def digit_in_def ISDIGIT_code)
  moreover have "''host'' = p @ ''..'' \<Longrightarrow> False" for p by (cases p rule: rev_cases) (auto simp: Cons_eq_append_conv)
  ultimately have h: "name_normal ''host''"
    by (auto simp: name_normal_def plain_def visible_def HOSTNAME_INVALID_CHARS_def)
  have "clean_path ''/a/b'' = ''/a/b''" by code_simp
  moreover have "lower ''http'' = ''http''" by code_simp
  ultimately have "normal_url ?u ''http'' ''host'' Curl_scheme_http"
    using sc h by (simp add: normal_url_def login_normal_def plain_def visible_def path_normal_def empty_url_def
        scheme_ok_def MAX_SCHEME_LEN_def scheme_char_code ISALPHA_code Curl_scheme_http_def)
  from url_print_parse [OF this, of sure_env empty_url] show ?thesis
    unfolding t by (simp add: sure_env_def CURL_MAX_INPUT_LENGTH_def)
qed

end
