(* ===== verification/Parsedate.thy ===== *)
theory Parsedate
  imports Strparse Strcase Curl_Range
begin

text \<open>
  The date parser of \<^verbatim>\<open>lib/parsedate.c\<close>, as built with a signed 64-bit \<open>time_t\<close>.  A pointer
  into the date string is the number of bytes before it, because the code looks at the byte in
  front of a number.  The code's \<open>-1\<close> for an unknown field is kept.
\<close>

section \<open>Names\<close>

definition Curl_wkday :: "bytes list" where
  "Curl_wkday = [''Mon'', ''Tue'', ''Wed'', ''Thu'', ''Fri'', ''Sat'', ''Sun'']"

definition Curl_month :: "bytes list" where
  "Curl_month = [''Jan'', ''Feb'', ''Mar'', ''Apr'', ''May'', ''Jun'',
     ''Jul'', ''Aug'', ''Sep'', ''Oct'', ''Nov'', ''Dec'']"

definition weekday :: "bytes list" where
  "weekday = [''Monday'', ''Tuesday'', ''Wednesday'', ''Thursday'', ''Friday'', ''Saturday'', ''Sunday'']"

definition tDAYZONE :: int where "tDAYZONE = -60"

definition tz :: "(bytes \<times> int) list" where
  "tz =
     [(''A'', -1 * 60), (''ADT'', 240 + tDAYZONE), (''AHST'', 600), (''AST'', 240),
      (''B'', -2 * 60), (''BST'', 0 + tDAYZONE), (''C'', -3 * 60), (''CAT'', 600), (''CCT'', -480),
      (''CDT'', 360 + tDAYZONE), (''CEST'', -60 + tDAYZONE), (''CET'', -60), (''CST'', 360),
      (''D'', -4 * 60), (''E'', -5 * 60), (''EADT'', -600 + tDAYZONE), (''EAST'', -600),
      (''EDT'', 300 + tDAYZONE), (''EET'', -120), (''EST'', 300), (''F'', -6 * 60),
      (''FST'', -60 + tDAYZONE), (''FWT'', -60), (''G'', -7 * 60), (''GMT'', 0), (''GST'', -600),
      (''H'', -8 * 60), (''HDT'', 600 + tDAYZONE), (''HST'', 600), (''I'', -9 * 60),
      (''IDLE'', -720), (''IDLW'', 720), (''JST'', -540), (''K'', -10 * 60), (''L'', -11 * 60),
      (''M'', -12 * 60), (''MDT'', 420 + tDAYZONE), (''MEST'', -60 + tDAYZONE),
      (''MESZ'', -60 + tDAYZONE), (''MET'', -60), (''MEWT'', -60), (''MST'', 420), (''N'', 60),
      (''NT'', 660), (''NZDT'', -720 + tDAYZONE), (''NZST'', -720), (''NZT'', -720),
      (''O'', 2 * 60), (''P'', 3 * 60), (''PDT'', 480 + tDAYZONE), (''PST'', 480), (''Q'', 4 * 60),
      (''R'', 5 * 60), (''S'', 6 * 60), (''T'', 7 * 60), (''U'', 8 * 60), (''UT'', 0),
      (''UTC'', 0), (''V'', 9 * 60), (''W'', 10 * 60), (''WADT'', -420 + tDAYZONE),
      (''WAST'', -420), (''WAT'', 60), (''WET'', 0), (''X'', 11 * 60), (''Y'', 12 * 60),
      (''YDT'', 540 + tDAYZONE), (''YST'', 540), (''Z'', 0)]"

datatype parsedate_rc = PARSEDATE_OK | PARSEDATE_FAIL

text \<open>The loops over the tables: the first index that matches, or -1.\<close>

fun first_match :: "(bytes \<Rightarrow> bool) \<Rightarrow> bytes list \<Rightarrow> int \<Rightarrow> int" where
  "first_match P [] i = -1"
| "first_match P (x # xs) i = (if P x then i else first_match P xs (i + 1))"

definition checkday :: "bytes \<Rightarrow> nat \<Rightarrow> int" where
  "checkday check len =
     (if len > 3 then first_match (\<lambda>w. length w = len \<and> curl_strnequal (Some check) (Some w) len) weekday 0
      else if len = 3 then first_match (\<lambda>w. length w = len \<and> curl_strnequal (Some check) (Some w) len) Curl_wkday 0
      else -1)"

definition checkmonth :: "bytes \<Rightarrow> nat \<Rightarrow> int" where
  "checkmonth check len =
     (if len \<noteq> 3 then -1 else first_match (\<lambda>w. curl_strnequal (Some check) (Some w) 3) Curl_month 0)"

text \<open>
  \<open>bsearch\<close> finds the row with the given name; that the table is sorted, which it relies on,
  is the lemma \<open>tz_sorted\<close>.
\<close>

definition checktz :: "bytes \<Rightarrow> nat \<Rightarrow> int" where
  "checktz check len =
     (if len \<le> 4 then
        (case List.find (\<lambda>row. fst row = take len check) tz of
           Some what \<Rightarrow> snd what * 60
         | None \<Rightarrow> -1)
      else -1)"

definition skip :: "bytes \<Rightarrow> nat \<Rightarrow> nat" where
  "skip indate date = date + length (takeWhile (\<lambda>c. c \<noteq> NUL \<and> \<not> ISALNUM c) (drop date indate))"

section \<open>Dates and times\<close>

record date_when =
  w_wday :: int
  w_mon :: int
  w_mday :: int
  w_hour :: int
  w_min :: int
  w_sec :: int
  w_year :: int
  w_tzoff :: int

datatype date_assume = DATE_MDAY | DATE_YEAR | DATE_TIME

definition LEAP_DAYS_BEFORE_1969 :: int where "LEAP_DAYS_BEFORE_1969 = 477"

definition cumulative_days :: "int list" where
  "cumulative_days = [0, 31, 59, 90, 120, 151, 181, 212, 243, 273, 304, 334]"

text \<open>The year is at least 1583 here, so no division is of a negative number.\<close>

definition time2epoch :: "date_when \<Rightarrow> int" where
  "time2epoch w =
     (let y = w_year w - (if w_mon w \<le> 1 then 1 else 0);
          leap_days = y div 4 - y div 100 + y div 400 - LEAP_DAYS_BEFORE_1969;
          days = (w_year w - 1970) * 365 + leap_days + cumulative_days ! nat (w_mon w) + w_mday w - 1
      in ((days * 24 + w_hour w) * 60 + w_min w) * 60 + w_sec w)"

definition digit_value :: "char \<Rightarrow> int" where
  "digit_value c = int (code_of c) - int (code_of CHR ''0'')"

definition oneortwodigit :: "bytes \<Rightarrow> int \<times> bytes" where
  "oneortwodigit date =
     (let num = digit_value (peek date) in
      if ISDIGIT (peek (drop 1 date)) then (num * 10 + digit_value (peek (drop 1 date)), drop 2 date)
      else (num, drop 1 date))"

text \<open>The time and what follows it.\<close>

definition match_time :: "bytes \<Rightarrow> date_when \<Rightarrow> (date_when \<times> bytes) option" where
  "match_time date w =
     (case oneortwodigit date of
        (hh, p) \<Rightarrow>
          if hh < 24 \<and> peek p = CHR '':'' \<and> ISDIGIT (peek (drop 1 p)) then
            (case oneortwodigit (drop 1 p) of
               (mm, p) \<Rightarrow>
                 if mm < 60 then
                   (if peek p = CHR '':'' \<and> ISDIGIT (peek (drop 1 p)) then
                      (case oneortwodigit (drop 1 p) of
                         (ss, p) \<Rightarrow>
                           if ss \<le> 60 then Some (w\<lparr>w_hour := hh, w_min := mm, w_sec := ss\<rparr>, p) else None)
                    else Some (w\<lparr>w_hour := hh, w_min := mm, w_sec := 0\<rparr>, p))
                 else None)
          else None)"

section \<open>The parser\<close>

definition NAME_LEN :: nat where "NAME_LEN = 12"

definition initwhen :: date_when where
  "initwhen = \<lparr>w_wday = -1, w_mon = -1, w_mday = -1, w_hour = -1, w_min = -1, w_sec = -1, w_year = -1, w_tzoff = -1\<rparr>"

definition datestring :: "bytes \<Rightarrow> nat \<Rightarrow> date_when \<Rightarrow> parsedate_rc \<times> nat \<times> date_when" where
  "datestring indate date w =
     (let s = drop date indate;
          len = length (takeWhile ISALPHA (take NAME_LEN s)) in
      if len = NAME_LEN then (PARSEDATE_FAIL, date, w)
      else
        (let w1 = (if w_wday w = -1 then w\<lparr>w_wday := checkday s len\<rparr> else w);
             found1 = (w_wday w = -1 \<and> w_wday w1 \<noteq> -1);
             w2 = (if \<not> found1 \<and> w_mon w1 = -1 then w1\<lparr>w_mon := checkmonth s len\<rparr> else w1);
             found2 = (found1 \<or> w_mon w1 = -1 \<and> w_mon w2 \<noteq> -1);
             w3 = (if \<not> found2 \<and> w_tzoff w2 = -1 then w2\<lparr>w_tzoff := checktz s len\<rparr> else w2);
             found3 = (found2 \<or> w_tzoff w2 = -1 \<and> w_tzoff w3 \<noteq> -1)
         in if \<not> found3 then (PARSEDATE_FAIL, date, w3) else (PARSEDATE_OK, date + len, w3)))"

definition datenum :: "bytes \<Rightarrow> nat \<Rightarrow> date_when \<Rightarrow> date_assume \<Rightarrow> parsedate_rc \<times> nat \<times> date_when \<times> date_assume" where
  "datenum indate date w dignext =
     (let s = drop date indate in
      case (if w_sec w = -1 then match_time s w else None) of
        Some (w', rest) \<Rightarrow> (PARSEDATE_OK, length indate - length rest, w', dignext)
      | None \<Rightarrow>
          (case curlx_str_number s 99999999 of
             (rc, p, val) \<Rightarrow>
               if rc \<noteq> STRE_OK then (PARSEDATE_FAIL, date, w, dignext)
               else
                 (let num_digits = length s - length p;
                      sign = (if 0 < date then indate ! (date - 1) else NUL);
                      date' = length indate - length p in
                  if w_tzoff w = -1 \<and> num_digits = 4 \<and> val \<le> 1400 \<and> (sign = CHR ''+'' \<or> sign = CHR ''-'') then
                    (let off = (val div 100 * 60 + val mod 100) * 60 in
                     (PARSEDATE_OK, date', w\<lparr>w_tzoff := (if sign = CHR ''+'' then - off else off)\<rparr>, dignext))
                  else if num_digits = 8 \<and> w_year w = -1 \<and> w_mon w = -1 \<and> w_mday w = -1 then
                    (PARSEDATE_OK, date', w\<lparr>w_year := val div 10000, w_mon := val mod 10000 div 100 - 1, w_mday := val mod 100\<rparr>,
                     dignext)
                  else
                    (let mday_next = (dignext = DATE_MDAY \<and> w_mday w = -1);
                         found = (mday_next \<and> 0 < val \<and> val < 32);
                         w1 = (if found then w\<lparr>w_mday := val\<rparr> else w);
                         dignext1 = (if mday_next then DATE_YEAR else dignext)
                     in if found then (PARSEDATE_OK, date', w1, dignext1)
                        else if dignext1 = DATE_YEAR \<and> w_year w1 = -1 then
                          (PARSEDATE_OK, date',
                           w1\<lparr>w_year := (if val < 100 then (if val > 70 then val + 1900 else val + 2000) else val)\<rparr>,
                           (if w_mday w1 = -1 then DATE_MDAY else dignext1))
                        else (PARSEDATE_FAIL, date, w1, dignext1)))))"

definition datecheck :: "date_when \<Rightarrow> parsedate_rc \<times> date_when" where
  "datecheck w0 =
     (let w = (if w_sec w0 = -1 then w0\<lparr>w_sec := 0, w_min := 0, w_hour := 0\<rparr> else w0) in
      if w_mday w = -1 \<or> w_mon w = -1 \<or> w_year w = -1 then (PARSEDATE_FAIL, w)
      else if w_year w < 1583 then (PARSEDATE_FAIL, w)
      else if w_mday w > 31 \<or> w_mon w > 11 \<or> w_hour w > 23 \<or> w_min w > 59 \<or> w_sec w > 60 then (PARSEDATE_FAIL, w)
      else (PARSEDATE_OK, w))"

definition tzadjust :: "int \<Rightarrow> date_when \<Rightarrow> int" where
  "tzadjust tp w =
     (let tzoff = (if w_tzoff w = -1 then 0 else w_tzoff w) in
      if tzoff > 0 \<and> tp > CURL_OFF_T_MAX - tzoff then CURL_OFF_T_MAX else tp + tzoff)"

text \<open>With 64 bits every number of seconds fits.\<close>

definition mktimet :: "int \<Rightarrow> parsedate_rc \<times> int" where
  "mktimet seconds = (PARSEDATE_OK, seconds)"

text \<open>The loop, with the number of parts still allowed.\<close>

fun parse_parts :: "nat \<Rightarrow> bytes \<Rightarrow> nat \<Rightarrow> date_when \<Rightarrow> date_assume \<Rightarrow> parsedate_rc \<times> date_when" where
  "parse_parts 0 indate date w dignext = (PARSEDATE_OK, w)"
| "parse_parts (Suc parts) indate date w dignext =
     (if peek (drop date indate) = NUL then (PARSEDATE_OK, w)
      else
        (let date1 = skip indate date; c = peek (drop date1 indate) in
         if ISALPHA c then
           (case datestring indate date1 w of
              (rc, date2, w') \<Rightarrow> if rc \<noteq> PARSEDATE_OK then (rc, w') else parse_parts parts indate date2 w' dignext)
         else if ISDIGIT c then
           (case datenum indate date1 w dignext of
              (rc, date2, w', dignext') \<Rightarrow>
                if rc \<noteq> PARSEDATE_OK then (rc, w') else parse_parts parts indate date2 w' dignext')
         else parse_parts parts indate date1 w dignext))"

definition parsedate :: "bytes \<Rightarrow> parsedate_rc \<times> int" where
  "parsedate date =
     (case parse_parts 6 date 0 initwhen DATE_MDAY of
        (rc, w) \<Rightarrow>
          if rc \<noteq> PARSEDATE_OK then (rc, -1)
          else case datecheck w of
                 (rc, w) \<Rightarrow>
                   if rc \<noteq> PARSEDATE_OK then (rc, -1) else mktimet (tzadjust (time2epoch w) w))"

definition curl_getdate :: "bytes \<Rightarrow> int" where
  "curl_getdate p =
     (case parsedate p of
        (PARSEDATE_OK, parsed) \<Rightarrow> if parsed = -1 then parsed + 1 else parsed
      | (PARSEDATE_FAIL, parsed) \<Rightarrow> -1)"

text \<open>The flag for failure and the value stored, \<open>None\<close> when none is.\<close>

definition Curl_getdate_capped :: "bytes \<Rightarrow> bool \<times> int option" where
  "Curl_getdate_capped p =
     (case parsedate p of
        (PARSEDATE_OK, parsed) \<Rightarrow> (False, Some parsed)
      | (PARSEDATE_FAIL, parsed) \<Rightarrow> (True, None))"

section \<open>The time zones\<close>

fun str_less :: "bytes \<Rightarrow> bytes \<Rightarrow> bool" where
  "str_less s [] = False"
| "str_less [] (d # t) = True"
| "str_less (c # s) (d # t) = (c < d \<or> c = d \<and> str_less s t)"

lemma tz_sorted: "successively str_less (map fst tz)"
  by code_simp

section \<open>The calendar\<close>

text \<open>The reference: the rules of the Gregorian calendar, one day after another.  Months count from 0.\<close>

definition leap_year :: "int \<Rightarrow> bool" where
  "leap_year y \<longleftrightarrow> y mod 4 = 0 \<and> (y mod 100 \<noteq> 0 \<or> y mod 400 = 0)"

definition month_days :: "int \<Rightarrow> int \<Rightarrow> int" where
  "month_days y m =
     (if m = 1 then (if leap_year y then 29 else 28) else [31, 28, 31, 30, 31, 30, 31, 31, 30, 31, 30, 31] ! nat m)"

fun next_day :: "int \<times> int \<times> int \<Rightarrow> int \<times> int \<times> int" where
  "next_day (y, m, d) =
     (if d < month_days y m then (y, m, d + 1) else if m < 11 then (y, m + 1, 1) else (y + 1, 0, 1))"

definition valid_day :: "int \<Rightarrow> int \<Rightarrow> int \<Rightarrow> bool" where
  "valid_day y m d \<longleftrightarrow> 0 \<le> m \<and> m \<le> 11 \<and> 1 \<le> d \<and> d \<le> month_days y m"

text \<open>The moment a date and a time of day name.\<close>

fun moment :: "int \<times> int \<times> int \<Rightarrow> int \<Rightarrow> int \<Rightarrow> int \<Rightarrow> date_when" where
  "moment (y, m, d) hh mm ss =
     \<lparr>w_wday = -1, w_mon = m, w_mday = d, w_hour = hh, w_min = mm, w_sec = ss, w_year = y, w_tzoff = -1\<rparr>"

declare moment.simps [simp del]

text \<open>The leap days of the years up to a year.\<close>

definition leaps :: "int \<Rightarrow> int" where
  "leaps y = y div 4 - y div 100 + y div 400"

lemma div_step: "0 < k \<Longrightarrow> y div k = (y - 1) div k + (if k dvd y then 1 else 0)" for y k :: int
proof (cases "k dvd y")
  case True
  assume k: "0 < k"
  from True obtain q where y: "y = k * q" by blast
  then have "(y - 1) div k = q - 1" using k by (intro int_div_pos_eq [where r = "k - 1"]) (auto simp: algebra_simps)
  then show ?thesis using True k y by simp
next
  case False
  assume k: "0 < k"
  have y: "y = k * (y div k) + y mod k" by simp
  have "y mod k \<noteq> 0" "0 \<le> y mod k" "y mod k < k" using False k by (simp_all add: dvd_eq_mod_eq_0)
  then have "(y - 1) div k = y div k" using y by (intro int_div_pos_eq [where r = "y mod k - 1"]) linarith+
  then show ?thesis using False by simp
qed

lemma leaps_step: "leaps y = leaps (y - 1) + (if leap_year y then 1 else 0)"
proof -
  have imp: "400 dvd y \<longrightarrow> 100 dvd y" "100 dvd y \<longrightarrow> 4 dvd y"
  proof -
    have "(100 :: int) dvd 400" "(4 :: int) dvd 100" by simp_all
    then show "400 dvd y \<longrightarrow> 100 dvd y" "100 dvd y \<longrightarrow> 4 dvd y" by (meson dvd_trans)+
  qed
  have ly: "leap_year y \<longleftrightarrow> 4 dvd y \<and> (\<not> 100 dvd y \<or> 400 dvd y)"
    unfolding leap_year_def dvd_eq_mod_eq_0 by (rule refl)
  have b: "(if p then 1 else 0) - (if q then 1 else 0) + (if r then 1 else 0) = (if p \<and> (\<not> q \<or> r) then 1 else (0 :: int))"
    if "r \<longrightarrow> q" "q \<longrightarrow> p" for p q r
    using that by (cases p; cases q; cases r) simp_all
  have "(0::int) < 4" "(0::int) < 100" "(0::int) < 400" by simp_all
  note d = this [THEN div_step, of y]
  show ?thesis unfolding leaps_def ly using d b [OF imp] by linarith
qed

lemma time2epoch_moment:
  "time2epoch (moment (y, m, d) hh mm ss) =
     86400 * ((y - 1970) * 365 + leaps (if m \<le> 1 then y - 1 else y) - 477 + cumulative_days ! nat m + d - 1)
     + 3600 * hh + 60 * mm + ss"
  by (simp add: moment.simps time2epoch_def leaps_def LEAP_DAYS_BEFORE_1969_def Let_def algebra_simps)

lemma month_cases: "0 \<le> m \<Longrightarrow> m \<le> 11 \<Longrightarrow> m \<in> {0, 1, 2, 3, 4, 5, 6, 7, 8, 9, 10, 11}" for m :: int
  by simp presburger

lemma time2epoch_next_day:
  assumes "valid_day y m d"
  shows "time2epoch (moment (next_day (y, m, d)) hh mm ss) = time2epoch (moment (y, m, d) hh mm ss) + 86400"
proof -
  have m: "m \<in> {0, 1, 2, 3, 4, 5, 6, 7, 8, 9, 10, 11}" using assms month_cases by (simp add: valid_day_def)
  show ?thesis
  proof (cases "d < month_days y m")
    case True
    then show ?thesis by (simp add: time2epoch_moment)
  next
    case False
    then have d: "d = month_days y m" using assms by (simp add: valid_day_def)
    from m show ?thesis unfolding d
      by (elim insertE emptyE)
        (use leaps_step [of y] in \<open>simp_all add: time2epoch_moment month_days_def cumulative_days_def split: if_splits\<close>)
  qed
qed

section \<open>The date format of HTTP\<close>

definition digit :: "nat \<Rightarrow> char" where
  "digit n = char_of (48 + n mod 10)"

definition two :: "nat \<Rightarrow> bytes" where
  "two n = [digit (n div 10), digit n]"

definition four :: "nat \<Rightarrow> bytes" where
  "four n = [digit (n div 1000), digit (n div 100), digit (n div 10), digit n]"

definition imf_fixdate :: "bytes \<Rightarrow> nat \<Rightarrow> bytes \<Rightarrow> nat \<Rightarrow> nat \<Rightarrow> nat \<Rightarrow> nat \<Rightarrow> bytes" where
  "imf_fixdate wday d month y hh mm ss =
     wday @ '', '' @ two d @ '' '' @ month @ '' '' @ four y @ '' '' @ two hh @ '':'' @ two mm @ '':'' @ two ss @ '' GMT''"

lemma digit_simps [simp]:
  "ISDIGIT (digit n)" "\<not> ISALPHA (digit n)" "ISALNUM (digit n)" "digit_value (digit n) = int (n mod 10)"
  "digit n \<noteq> NUL" "digit n \<noteq> CHR '':''"
proof -
  have c: "code_of (digit n) = 48 + n mod 10" unfolding digit_def by (rule code_of_dec_digit)
  have l: "n mod 10 < 10" by simp
  show i: "ISDIGIT (digit n)" unfolding digit_def by (rule dec_digit_ISDIGIT)
  show "ISALNUM (digit n)" using i by (simp add: ISALNUM_def)
  show "digit_value (digit n) = int (n mod 10)" using c by (simp add: digit_value_def)
  have "code_of (digit n) < 65" using c l by linarith
  then show "\<not> ISALPHA (digit n)" unfolding ISALPHA_def ISLOWER_def ISUPPER_def char_le_code by simp
  show "digit n \<noteq> NUL" "digit n \<noteq> CHR '':''" using i by (auto simp: ISDIGIT_code)
qed

lemma tens: "int (n div 10) * 10 + int (n mod 10) = int n"
  using div_mult_mod_eq [of n 10] by linarith

lemma two_value: "n < 100 \<Longrightarrow> num_value 10 (two n) = int n"
  using dec_digit_hexval [of n] dec_digit_hexval [of "n div 10"] tens [of n]
  by (simp add: num_value_def horner_def two_def digit_def)

lemma four_value: "n < 10000 \<Longrightarrow> num_value 10 (four n) = int n"
proof -
  assume n: "n < 10000"
  have "n div 100 = n div 10 div 10" "n div 1000 = n div 10 div 10 div 10" "n div 10 div 10 div 10 mod 10 = n div 10 div 10 div 10"
    using n by (simp_all add: div_mult2_eq [symmetric])
  then show ?thesis
    using dec_digit_hexval [of n] dec_digit_hexval [of "n div 10"] dec_digit_hexval [of "n div 10 div 10"]
      dec_digit_hexval [of "n div 10 div 10 div 10"] tens [of n] tens [of "n div 10"] tens [of "n div 10 div 10"]
    unfolding num_value_def horner_def four_def digit_def by (simp del: of_nat_div of_nat_mod)
qed

lemma two_parse:
  assumes "n < 100" "\<not> ISDIGIT (peek rest)"
  shows "oneortwodigit (two n @ rest) = (int n, rest)" "curlx_str_number (two n @ rest) 99999999 = (STRE_OK, rest, int n)"
proof -
  show "oneortwodigit (two n @ rest) = (int n, rest)" 
    using assms(1) tens [of n] by (simp add: oneortwodigit_def two_def)
  show "curlx_str_number (two n @ rest) 99999999 = (STRE_OK, rest, int n)"
    using curlx_str_number_digits [of "two n" rest 99999999] two_value [OF assms(1)] assms by (simp add: two_def)
qed

lemma four_parse:
  assumes "n < 10000" "\<not> ISDIGIT (peek rest)"
  shows "curlx_str_number (four n @ rest) 99999999 = (STRE_OK, rest, int n)"
  using curlx_str_number_digits [of "four n" rest 99999999] four_value [OF assms(1)] assms by (simp add: four_def)

text \<open>Names are found whatever the case of their letters.\<close>

definition upper :: "bytes \<Rightarrow> bytes" where
  "upper s = map Curl_raw_toupper s"

lemma first_match_nth:
  assumes "distinct (map f xs)" "k < length xs"
  shows "first_match (\<lambda>x. f x = f (xs ! k)) xs i = i + int k"
  using assms
proof (induction xs arbitrary: k i)
  case (Cons x xs)
  then show ?case by (cases k) (auto simp: nth_mem rev_image_eqI)
qed simp

lemma cstr_append: "NUL \<notin> set v \<Longrightarrow> cstr (v @ rest) = v @ cstr rest"
  by (induction v) auto

lemma strnequal_name:
  assumes "NUL \<notin> set v" "NUL \<notin> set w" "length v = n" "length w = n"
  shows "curl_strnequal (Some (v @ rest)) (Some w) n \<longleftrightarrow> upper w = upper v"
  using cstr_append [OF assms(1)] cstr_append [OF assms(2), of "[]"] assms(3,4)
  by (auto simp: curl_strnequal_def ncasecompare_eq fold_case_def upper_def)

lemma distinct_upper:
  assumes "distinct (map (map (\<lambda>c. if ISLOWER c then code_of c - 32 else code_of c)) ws)"
  shows "distinct (map upper ws)"
proof -
  have "map (map (\<lambda>c. if ISLOWER c then code_of c - 32 else code_of c)) ws = map (map code_of) (map upper ws)"
    by (simp add: upper_def toupper_code)
  then show ?thesis using assms by (metis distinct_map)
qed

lemma name_tables: "distinct (map upper Curl_wkday)" "distinct (map upper Curl_month)"
  by (rule distinct_upper, code_simp)+

definition is_name :: "bytes \<Rightarrow> bool" where
  "is_name w \<longleftrightarrow> length w = 3 \<and> list_all ISALPHA w"

lemma names_ok: "list_all is_name Curl_wkday" "list_all is_name Curl_month"
  by code_simp+

lemma is_name_NUL: "is_name w \<Longrightarrow> NUL \<notin> set w"
  by (auto simp: is_name_def list_all_iff ISALPHA_def ISLOWER_def ISUPPER_def char_le_code)

lemma first_match_cong: "(\<And>x. x \<in> set xs \<Longrightarrow> P x = Q x) \<Longrightarrow> first_match P xs i = first_match Q xs i"
  by (induction xs arbitrary: i) auto

lemma first_match_name:
  assumes "list_all is_name ws" "distinct (map upper ws)" "k < length ws" "is_name v" "upper v = upper (ws ! k)"
  shows "first_match (\<lambda>w. curl_strnequal (Some (v @ rest)) (Some w) 3) ws 0 = int k"
proof -
  have "curl_strnequal (Some (v @ rest)) (Some w) 3 \<longleftrightarrow> upper w = upper (ws ! k)" if "w \<in> set ws" for w
  proof -
    have "is_name w" using assms(1) that by (simp add: list_all_iff)
    then show ?thesis
      using strnequal_name [of v w 3 rest] is_name_NUL assms(4,5) by (auto simp: is_name_def)
  qed
  then have "first_match (\<lambda>w. curl_strnequal (Some (v @ rest)) (Some w) 3) ws 0 =
      first_match (\<lambda>w. upper w = upper (ws ! k)) ws 0"
    by (rule first_match_cong)
  then show ?thesis using first_match_nth [OF assms(2,3), of 0] by simp
qed

lemma checkday_name:
  assumes "k < 7" "is_name v" "upper v = upper (Curl_wkday ! k)"
  shows "checkday (v @ rest) 3 = int k"
proof -
  have "first_match (\<lambda>w. length w = 3 \<and> curl_strnequal (Some (v @ rest)) (Some w) 3) Curl_wkday 0 =
      first_match (\<lambda>w. curl_strnequal (Some (v @ rest)) (Some w) 3) Curl_wkday 0"
    using names_ok(1) by (intro first_match_cong) (simp add: list_all_iff is_name_def)
  moreover have "\<dots> = int k"
    using assms by (intro first_match_name names_ok) (simp_all add: name_tables, simp add: Curl_wkday_def)
  ultimately show ?thesis by (simp add: checkday_def)
qed

lemma checkmonth_name:
  assumes "k < 12" "is_name v" "upper v = upper (Curl_month ! k)"
  shows "checkmonth (v @ rest) 3 = int k"
proof -
  have "first_match (\<lambda>w. curl_strnequal (Some (v @ rest)) (Some w) 3) Curl_month 0 = int k"
    using assms by (intro first_match_name names_ok) (simp_all add: name_tables, simp add: Curl_month_def)
  then show ?thesis by (simp add: checkmonth_def)
qed

lemma checktz_GMT: "checktz ''GMT'' 3 = 0"
  by code_simp

text \<open>One part of the text: what is skipped, and the name or the number after it.\<close>

lemma skip_part:
  assumes "drop date indate = pre @ s" "\<forall>c\<in>set pre. c \<noteq> NUL \<and> \<not> ISALNUM c" "ISALNUM (peek s)"
  shows "skip indate date = date + length pre" "drop (skip indate date) indate = s" "peek (drop date indate) \<noteq> NUL"
proof -
  have "takeWhile (\<lambda>c. c \<noteq> NUL \<and> \<not> ISALNUM c) (pre @ s) = pre @ takeWhile (\<lambda>c. c \<noteq> NUL \<and> \<not> ISALNUM c) s"
    using assms(2) by (intro takeWhile_append2) auto
  moreover have "takeWhile (\<lambda>c. c \<noteq> NUL \<and> \<not> ISALNUM c) s = []" using assms(3) by (cases s) auto
  ultimately show k: "skip indate date = date + length pre" by (simp add: skip_def assms(1))
  have "drop (date + length pre) indate = drop (length pre) (drop date indate)" by (simp add: add.commute)
  then show "drop (skip indate date) indate = s" by (simp add: k assms(1))
  have "peek s \<noteq> NUL" using assms(3) by (auto simp: ISALNUM_def ISDIGIT_code ISALPHA_def ISLOWER_def ISUPPER_def char_le_code)
  then show "peek (drop date indate) \<noteq> NUL" using assms(2) by (cases pre) (auto simp: assms(1))
qed

lemma alpha_part:
  assumes "drop date indate = pre @ s" "\<forall>c\<in>set pre. c \<noteq> NUL \<and> \<not> ISALNUM c" "ISALPHA (peek s)"
    "datestring indate (date + length pre) w = (PARSEDATE_OK, date2, w')"
  shows "parse_parts (Suc n) indate date w dignext = parse_parts n indate date2 w' dignext"
proof -
  have "ISALNUM (peek s)" using assms(3) by (auto simp: ISALNUM_def ISALPHA_def)
  note k = skip_part [OF assms(1,2) this]
  show ?thesis unfolding parse_parts.simps Let_def k(2) if_not_P [OF k(3)] if_P [OF assms(3)] unfolding k(1) assms(4) by simp
qed

lemma digit_part:
  assumes "drop date indate = pre @ s" "\<forall>c\<in>set pre. c \<noteq> NUL \<and> \<not> ISALNUM c" "ISDIGIT (peek s)" "\<not> ISALPHA (peek s)"
    "datenum indate (date + length pre) w dignext = (PARSEDATE_OK, date2, w', dignext')"
  shows "parse_parts (Suc n) indate date w dignext = parse_parts n indate date2 w' dignext'"
proof -
  have "ISALNUM (peek s)" using assms(3) by (auto simp: ISALNUM_def ISALPHA_def)
  note k = skip_part [OF assms(1,2) this]
  show ?thesis
    unfolding parse_parts.simps Let_def k(2) if_not_P [OF k(3)] if_not_P [OF assms(4)] if_P [OF assms(3)]
    unfolding k(1) assms(5) by simp
qed

lemma name_length:
  assumes "drop date indate = v @ rest" "is_name v" "\<not> ISALPHA (peek rest)"
  shows "length (takeWhile ISALPHA (take NAME_LEN (drop date indate))) = 3"
proof -
  have "takeWhile ISALPHA (v @ take 9 rest) = v @ takeWhile ISALPHA (take 9 rest)"
    using assms(2) by (intro takeWhile_append2) (auto simp: is_name_def list_all_iff)
  moreover have "takeWhile ISALPHA (take 9 rest) = []" using assms(3) by (cases rest) auto
  moreover have "take NAME_LEN (v @ rest) = v @ take 9 rest" using assms(2) by (simp add: is_name_def NAME_LEN_def)
  ultimately show ?thesis using assms(1,2) by (simp add: is_name_def)
qed

lemma datestring_name:
  assumes "drop date indate = v @ rest" "is_name v" "\<not> ISALPHA (peek rest)"
  shows "w_wday w = -1 \<Longrightarrow> checkday (v @ rest) 3 = k \<Longrightarrow> k \<noteq> -1 \<Longrightarrow>
      datestring indate date w = (PARSEDATE_OK, date + 3, w\<lparr>w_wday := k\<rparr>)"
    and "w_wday w \<noteq> -1 \<Longrightarrow> w_mon w = -1 \<Longrightarrow> checkmonth (v @ rest) 3 = k \<Longrightarrow> k \<noteq> -1 \<Longrightarrow>
      datestring indate date w = (PARSEDATE_OK, date + 3, w\<lparr>w_mon := k\<rparr>)"
    and "w_wday w \<noteq> -1 \<Longrightarrow> w_mon w \<noteq> -1 \<Longrightarrow> w_tzoff w = -1 \<Longrightarrow> checktz (v @ rest) 3 = k \<Longrightarrow> k \<noteq> -1 \<Longrightarrow>
      datestring indate date w = (PARSEDATE_OK, date + 3, w\<lparr>w_tzoff := k\<rparr>)"
proof -
  note l = name_length [OF assms]
  have n: "(3::nat) \<noteq> NAME_LEN" by (simp add: NAME_LEN_def)
  show "w_wday w = -1 \<Longrightarrow> checkday (v @ rest) 3 = k \<Longrightarrow> k \<noteq> -1 \<Longrightarrow>
      datestring indate date w = (PARSEDATE_OK, date + 3, w\<lparr>w_wday := k\<rparr>)"
    unfolding datestring_def Let_def l using n by (simp add: assms(1))
  show "w_wday w \<noteq> -1 \<Longrightarrow> w_mon w = -1 \<Longrightarrow> checkmonth (v @ rest) 3 = k \<Longrightarrow> k \<noteq> -1 \<Longrightarrow>
      datestring indate date w = (PARSEDATE_OK, date + 3, w\<lparr>w_mon := k\<rparr>)"
    unfolding datestring_def Let_def l using n by (simp add: assms(1))
  show "w_wday w \<noteq> -1 \<Longrightarrow> w_mon w \<noteq> -1 \<Longrightarrow> w_tzoff w = -1 \<Longrightarrow> checktz (v @ rest) 3 = k \<Longrightarrow> k \<noteq> -1 \<Longrightarrow>
      datestring indate date w = (PARSEDATE_OK, date + 3, w\<lparr>w_tzoff := k\<rparr>)"
    unfolding datestring_def Let_def l using n by (simp add: assms(1))
qed

lemma after_part:
  assumes "drop date indate = v @ rest" "v \<noteq> []"
  shows "length indate - length rest = date + length v" "drop (date + length v) indate = rest"
proof -
  have "length indate - date = length v + length rest" using arg_cong [OF assms(1), of length] by simp
  moreover have "0 < length v" using assms(2) by simp
  ultimately show "length indate - length rest = date + length v" by linarith
  have "drop (date + length v) indate = drop (length v) (drop date indate)" by (simp add: add.commute)
  then show "drop (date + length v) indate = rest" by (simp add: assms(1))
qed

lemma datenum_time:
  assumes "drop date indate = (two hh @ '':'' @ two mm @ '':'' @ two ss) @ rest" "\<not> ISDIGIT (peek rest)"
    "hh < 24" "mm < 60" "ss \<le> 60" "w_sec w = -1"
  shows "datenum indate date w dignext =
    (PARSEDATE_OK, date + 8, w\<lparr>w_hour := int hh, w_min := int mm, w_sec := int ss\<rparr>, dignext)"
proof -
  have peek_two: "ISDIGIT (peek (two n @ r))" for n r by (simp add: two_def)
  have colon: "\<not> ISDIGIT CHR '':''" by code_simp
  have "match_time (two hh @ '':'' @ two mm @ '':'' @ two ss @ rest) w =
      Some (w\<lparr>w_hour := int hh, w_min := int mm, w_sec := int ss\<rparr>, rest)"
    using assms(2-5) peek_two by (simp add: match_time_def two_parse(1) colon)
  moreover have "length indate - length rest = date + 8" using after_part(1) [OF assms(1)] by (simp add: two_def)
  ultimately show ?thesis using assms(1,6) by (simp add: datenum_def Let_def)
qed

lemma datenum_mday:
  assumes "drop date indate = two d @ rest" "\<not> ISDIGIT (peek rest)" "peek rest \<noteq> CHR '':''"
    "0 < d" "d < 32" "w_mday w = -1"
  shows "datenum indate date w DATE_MDAY = (PARSEDATE_OK, date + 2, w\<lparr>w_mday := int d\<rparr>, DATE_YEAR)"
proof -
  have "match_time (two d @ rest) w = None" using assms(2,3,5) by (simp add: match_time_def two_parse(1))
  moreover have "length indate - length rest = date + 2" using after_part(1) [OF assms(1)] by (simp add: two_def)
  moreover have "length (two d @ rest) - length rest = 2" by (simp add: two_def)
  ultimately show ?thesis
    using assms two_parse(2) [of d rest] unfolding datenum_def Let_def assms(1) by (simp del: length_append)
qed

lemma datenum_year:
  assumes "drop date indate = four y @ rest" "\<not> ISDIGIT (peek rest)"
    "1400 < y" "y < 10000" "w_year w = -1" "w_mday w \<noteq> -1"
  shows "datenum indate date w DATE_YEAR = (PARSEDATE_OK, date + 4, w\<lparr>w_year := int y\<rparr>, DATE_YEAR)"
proof -
  have "match_time (four y @ rest) w = None" by (simp add: match_time_def four_def oneortwodigit_def)
  moreover have "length indate - length rest = date + 4" using after_part(1) [OF assms(1)] by (simp add: four_def)
  moreover have "length (four y @ rest) - length rest = 4" by (simp add: four_def)
  ultimately show ?thesis
    using assms four_parse [of y rest] unfolding datenum_def Let_def assms(1) by (simp del: length_append)
qed

text \<open>The six parts of the date, with names in any case.\<close>

lemma next_part:
  assumes "drop date indate = pre @ s"
  shows "drop (date + length pre) indate = s"
proof -
  have "drop (date + length pre) indate = drop (length pre) (drop date indate)" by (simp add: add.commute)
  then show ?thesis by (simp add: assms)
qed

lemma name_part:
  assumes "drop date indate = pre @ v @ rest" "\<forall>c\<in>set pre. c \<noteq> NUL \<and> \<not> ISALNUM c" "is_name v" "\<not> ISALPHA (peek rest)"
  shows "w_wday w = -1 \<Longrightarrow> checkday (v @ rest) 3 = k \<Longrightarrow> k \<noteq> -1 \<Longrightarrow>
      parse_parts (Suc n) indate date w a = parse_parts n indate (date + length pre + 3) (w\<lparr>w_wday := k\<rparr>) a"
    and "w_wday w \<noteq> -1 \<Longrightarrow> w_mon w = -1 \<Longrightarrow> checkmonth (v @ rest) 3 = k \<Longrightarrow> k \<noteq> -1 \<Longrightarrow>
      parse_parts (Suc n) indate date w a = parse_parts n indate (date + length pre + 3) (w\<lparr>w_mon := k\<rparr>) a"
    and "w_wday w \<noteq> -1 \<Longrightarrow> w_mon w \<noteq> -1 \<Longrightarrow> w_tzoff w = -1 \<Longrightarrow> checktz (v @ rest) 3 = k \<Longrightarrow> k \<noteq> -1 \<Longrightarrow>
      parse_parts (Suc n) indate date w a = parse_parts n indate (date + length pre + 3) (w\<lparr>w_tzoff := k\<rparr>) a"
proof -
  have "ISALPHA (peek (v @ rest))" using assms(3) by (cases v) (simp_all add: is_name_def)
  note part = alpha_part [OF assms(1,2) this] and name = datestring_name [OF next_part [OF assms(1)] assms(3,4)]
  show "w_wday w = -1 \<Longrightarrow> checkday (v @ rest) 3 = k \<Longrightarrow> k \<noteq> -1 \<Longrightarrow>
      parse_parts (Suc n) indate date w a = parse_parts n indate (date + length pre + 3) (w\<lparr>w_wday := k\<rparr>) a"
    by (rule part [OF name(1)])
  show "w_wday w \<noteq> -1 \<Longrightarrow> w_mon w = -1 \<Longrightarrow> checkmonth (v @ rest) 3 = k \<Longrightarrow> k \<noteq> -1 \<Longrightarrow>
      parse_parts (Suc n) indate date w a = parse_parts n indate (date + length pre + 3) (w\<lparr>w_mon := k\<rparr>) a"
    by (rule part [OF name(2)])
  show "w_wday w \<noteq> -1 \<Longrightarrow> w_mon w \<noteq> -1 \<Longrightarrow> w_tzoff w = -1 \<Longrightarrow> checktz (v @ rest) 3 = k \<Longrightarrow> k \<noteq> -1 \<Longrightarrow>
      parse_parts (Suc n) indate date w a = parse_parts n indate (date + length pre + 3) (w\<lparr>w_tzoff := k\<rparr>) a"
    by (rule part [OF name(3)])
qed

lemma number_start: "ISDIGIT (peek (two a @ r))" "\<not> ISALPHA (peek (two a @ r))" "ISDIGIT (peek (four a @ r))" "\<not> ISALPHA (peek (four a @ r))"
  by (simp_all add: two_def four_def)

lemma separators:
  "\<not> ISDIGIT CHR '' ''" "\<not> ISALPHA CHR '' ''" "\<not> ISALNUM CHR '' ''" "\<not> ISALPHA CHR '',''" "\<not> ISALNUM CHR '',''"
  "is_name ''GMT''" "\<not> ISALPHA NUL"
  by code_simp+

lemma imf_fixdate_drops:
  assumes "length wd = 3" "length mon = 3" "i = imf_fixdate wd d mon y hh mm ss"
  shows "drop 0 i = [] @ wd @ drop 3 i" "drop 3 i = '', '' @ two d @ drop 7 i" "drop 7 i = '' '' @ mon @ drop 11 i"
    "drop 11 i = '' '' @ four y @ drop 16 i" "drop 16 i = '' '' @ (two hh @ '':'' @ two mm @ '':'' @ two ss) @ drop 25 i"
    "drop 25 i = '' '' @ ''GMT''" "length i = 29"
proof -
  obtain a b c a' b' c' where "wd = [a, b, c]" "mon = [a', b', c']"
    using assms(1,2) by (auto simp: numeral_3_eq_3 length_Suc_conv)
  note n = assms(3) imf_fixdate_def two_def four_def this
  show "drop 0 i = [] @ wd @ drop 3 i" "drop 3 i = '', '' @ two d @ drop 7 i" "drop 7 i = '' '' @ mon @ drop 11 i"
    "drop 11 i = '' '' @ four y @ drop 16 i" "drop 16 i = '' '' @ (two hh @ '':'' @ two mm @ '':'' @ two ss) @ drop 25 i"
    "drop 25 i = '' '' @ ''GMT''" "length i = 29"
    by (simp_all add: n)
qed

lemma parse_imf_fixdate:
  assumes "is_name wd" "k < 7" "upper wd = upper (Curl_wkday ! k)" "is_name mon" "m < 12" "upper mon = upper (Curl_month ! m)"
    "0 < d" "d < 32" "1400 < y" "y < 10000" "hh < 24" "mm < 60" "ss \<le> 60"
  shows "parse_parts 6 (imf_fixdate wd d mon y hh mm ss) 0 initwhen DATE_MDAY =
    (PARSEDATE_OK,
     \<lparr>w_wday = int k, w_mon = int m, w_mday = int d, w_hour = int hh, w_min = int mm, w_sec = int ss,
      w_year = int y, w_tzoff = 0\<rparr>)"
proof -
  define i where "i = imf_fixdate wd d mon y hh mm ss"
  have n: "length wd = 3" "length mon = 3" using assms(1,4) by (simp_all add: is_name_def)
  note dr = imf_fixdate_drops [OF n i_def]
  have pk: "peek (drop 3 i) = CHR '',''" "peek (drop 7 i) = CHR '' ''" "peek (drop 11 i) = CHR '' ''"
    "peek (drop 16 i) = CHR '' ''" "peek (drop 25 i) = CHR '' ''" by (subst dr, simp)+
  note sp = separators pk number_start
  have s1: "parse_parts (Suc 5) i 0 w a = parse_parts 5 i 3 (w\<lparr>w_wday := int k\<rparr>) a" if "w_wday w = -1" for w a
    using name_part(1) [OF dr(1) _ assms(1), of w "int k" 5 a] checkday_name [OF assms(2,1,3)] sp that by simp
  have s2: "parse_parts (Suc 4) i 3 w DATE_MDAY = parse_parts 4 i 7 (w\<lparr>w_mday := int d\<rparr>) DATE_YEAR" if "w_mday w = -1" for w
    using digit_part [OF dr(2) _ _ _ datenum_mday [OF next_part [OF dr(2)]], of w 4] assms(7,8) sp that by simp
  have s3: "parse_parts (Suc 3) i 7 w a = parse_parts 3 i 11 (w\<lparr>w_mon := int m\<rparr>) a" if "w_wday w \<noteq> -1" "w_mon w = -1" for w a
    using name_part(2) [OF dr(3) _ assms(4), of w "int m" 3 a] checkmonth_name [OF assms(5,4,6)] sp that by simp
  have s4: "parse_parts (Suc 2) i 11 w DATE_YEAR = parse_parts 2 i 16 (w\<lparr>w_year := int y\<rparr>) DATE_YEAR"
    if "w_year w = -1" "w_mday w \<noteq> -1" for w
    using digit_part [OF dr(4) _ _ _ datenum_year [OF next_part [OF dr(4)]], of w 2] assms(9,10) sp that by simp
  have s5: "parse_parts 2 i 16 w a = parse_parts 1 i 25 (w\<lparr>w_hour := int hh, w_min := int mm, w_sec := int ss\<rparr>) a"
    if "w_sec w = -1" for w a
    using digit_part [OF dr(5) _ _ _ datenum_time [OF next_part [OF dr(5)]], of w 1 a] assms(11-13) sp that by (simp add: numeral_2_eq_2)
  have s6: "parse_parts (Suc 0) i 25 w a = parse_parts 0 i 29 (w\<lparr>w_tzoff := 0\<rparr>) a"
    if "w_wday w \<noteq> -1" "w_mon w \<noteq> -1" "w_tzoff w = -1" for w a
    using name_part(3) [of 25 i "'' ''" "''GMT''" "[]" w 0 0 a] dr(6) checktz_GMT sp that by simp
  show ?thesis
    unfolding i_def [symmetric] using s1 s2 s3 s4 s5 s6 by (simp add: initwhen_def del: parse_parts.simps(2))
qed

end
