(* ===== verification/Parsedate_Correct.thy ===== *)
theory Parsedate_Correct
  imports Parsedate
begin

text \<open>
  What the date parser returns: the date format of HTTP against a calendar that counts day by
  day from 1970-01-01, the step of the conversion for every day from 1583 on, and the ranges
  that make the table lookup and the 64-bit arithmetic safe.
\<close>

section \<open>Days since the epoch\<close>

lemma getdate_imf_fixdate:
  assumes "is_name wd" "k < 7" "upper wd = upper (Curl_wkday ! k)" "is_name mon" "m < 12" "upper mon = upper (Curl_month ! m)"
    "0 < d" "d < 32" "1583 \<le> y" "y < 10000" "hh < 24" "mm < 60" "ss \<le> 60"
    and t: "t = time2epoch (moment (int y, int m, int d) (int hh) (int mm) (int ss))"
  shows "curl_getdate (imf_fixdate wd d mon y hh mm ss) = (if t = -1 then 0 else t)"
proof -
  have y: "1400 < y" using assms(9) by simp
  note p = parse_imf_fixdate [OF assms(1-8) y assms(10-13)]
  show ?thesis
    unfolding curl_getdate_def parsedate_def p t using assms(5,7-13)
    by (simp add: datecheck_def tzadjust_def mktimet_def time2epoch_def moment.simps Let_def)
qed

lemma month_days_bounds: "0 \<le> m \<Longrightarrow> m \<le> 11 \<Longrightarrow> 28 \<le> month_days y m \<and> month_days y m \<le> 31"
  by (drule (1) month_cases, elim insertE emptyE) (simp_all add: month_days_def)

lemma valid_next_day:
  assumes "valid_day y m d" "next_day (y, m, d) = (y', m', d')"
  shows "valid_day y' m' d' \<and> y \<le> y'"
proof -
  have "0 \<le> m + 1 \<Longrightarrow> m + 1 \<le> 11 \<Longrightarrow> 28 \<le> month_days y (m + 1)" "28 \<le> month_days (y + 1) 0"
    using month_days_bounds by simp_all
  then show ?thesis using assms by (auto simp: valid_day_def split: if_splits)
qed

lemma days_since_epoch:
  assumes "(next_day ^^ n) (1970, 0, 1) = (y, m, d)"
  shows "valid_day y m d \<and> 1970 \<le> y \<and> time2epoch (moment (y, m, d) hh mm ss) = 86400 * int n + 3600 * hh + 60 * mm + ss"
  using assms
proof (induction n arbitrary: y m d)
  case 0
  have "leaps 1969 = 477" by code_simp
  with 0 show ?case by (auto simp: valid_day_def month_days_def time2epoch_moment cumulative_days_def)
next
  case (Suc n)
  obtain y0 m0 d0 where day: "(next_day ^^ n) (1970, 0, 1) = (y0, m0, d0)" by (metis prod_cases3)
  then have nd: "next_day (y0, m0, d0) = (y, m, d)" using Suc.prems by simp
  note ih = Suc.IH [OF day]
  have "time2epoch (moment (y, m, d) hh mm ss) = time2epoch (moment (y0, m0, d0) hh mm ss) + 86400"
    using time2epoch_next_day [of y0 m0 d0 hh mm ss] ih unfolding nd by blast
  then show ?case using ih valid_next_day [OF _ nd] by auto
qed

text \<open>
  The conversion to seconds follows the Gregorian calendar from the year the parser
  accepts on, before 1970 too: 1970-01-01 is 0, and the day after a day that exists is 86400
  seconds later, over the ends of months, of February in leap years and of years.
\<close>

lemma time2epoch_calendar:
  assumes "1583 \<le> y" "valid_day y m d"
  shows "time2epoch (moment (1970, 0, 1) 0 0 0) = 0
    \<and> time2epoch (moment (next_day (y, m, d)) hh mm ss) = time2epoch (moment (y, m, d) hh mm ss) + 86400
    \<and> time2epoch (moment (y, m, d) hh mm ss) = time2epoch (moment (y, m, d) 0 0 0) + 3600 * hh + 60 * mm + ss"
proof (intro conjI)
  show "time2epoch (moment (1970, 0, 1) 0 0 0) = 0" using days_since_epoch [of 0 1970 0 1 0 0 0] by simp
  show "time2epoch (moment (next_day (y, m, d)) hh mm ss) = time2epoch (moment (y, m, d) hh mm ss) + 86400"
    by (rule time2epoch_next_day [OF assms(2)])
qed (simp add: time2epoch_moment)

section \<open>Ranges\<close>

definition when_ok :: "date_when \<Rightarrow> bool" where
  "when_ok w \<longleftrightarrow>
     -1 \<le> w_mon w \<and> -1 \<le> w_mday w \<and> -1 \<le> w_year w \<and> w_year w \<le> 99999999 \<and> -52740 \<le> w_tzoff w \<and> w_tzoff w \<le> 52740
     \<and> (w_sec w = -1 \<or> 0 \<le> w_hour w \<and> 0 \<le> w_min w \<and> 0 \<le> w_sec w)"

lemma first_match_bound: "-1 \<le> i \<Longrightarrow> -1 \<le> first_match P xs i"
  by (induction xs arbitrary: i) auto

lemma checktz_bound: "-52740 \<le> checktz check len \<and> checktz check len \<le> 52740"
proof -
  have "list_all (\<lambda>row. -879 \<le> snd row \<and> snd row \<le> 879) tz" by code_simp
  then have "-879 \<le> snd row \<and> snd row \<le> 879" if "List.find P tz = Some row" for row P
    using that by (metis find_Some_iff list_all_length)
  then show ?thesis by (fastforce simp: checktz_def split: option.split)
qed

lemma digit_value_nonneg: "ISDIGIT c \<Longrightarrow> 0 \<le> digit_value c"
  by (simp add: digit_value_def ISDIGIT_code)

lemma oneortwodigit_nonneg: "ISDIGIT (peek date) \<Longrightarrow> 0 \<le> fst (oneortwodigit date)"
  using digit_value_nonneg by (simp add: oneortwodigit_def Let_def)

lemma match_time_ok:
  assumes "ISDIGIT (peek date)" "match_time date w = Some (w', rest)" "when_ok w"
  shows "when_ok w'"
  using assms oneortwodigit_nonneg
  by (fastforce simp: match_time_def when_ok_def split: prod.splits if_splits)

lemma datestring_ok: "when_ok w \<Longrightarrow> when_ok (snd (snd (datestring indate date w)))"
  using checktz_bound [of "drop date indate"]
  by (auto simp: datestring_def when_ok_def Let_def checkmonth_def first_match_bound)

lemma zone_bound:
  fixes v :: int
  assumes "0 \<le> v" "v \<le> 1400"
  shows "0 \<le> (v div 100 * 60 + v mod 100) * 60 \<and> (v div 100 * 60 + v mod 100) * 60 \<le> 52740"
proof -
  define q r where "q = v div 100" and "r = v mod 100"
  have v: "v = 100 * q + r" by (simp add: q_def r_def)
  have "0 \<le> r" "r < 100" "0 \<le> q" using assms(1) by (simp_all add: q_def r_def)
  moreover have "q \<le> 13 \<or> r \<le> 0" using v assms(2) calculation by linarith
  ultimately show ?thesis using v assms(2) unfolding q_def [symmetric] r_def [symmetric] by auto
qed

lemma datenum_ok:
  assumes "ISDIGIT (peek (drop date indate))" "datenum indate date w dignext = (rc, date', w', dignext')" "when_ok w"
  shows "when_ok w'"
proof (cases "if w_sec w = -1 then match_time (drop date indate) w else None")
  case (Some r)
  then have "match_time (drop date indate) w = Some r" by (simp split: if_splits)
  moreover have "w' = fst r" using assms(2) Some by (simp add: datenum_def Let_def split: prod.splits)
  ultimately show ?thesis using match_time_ok [OF assms(1) _ assms(3)] by (metis prod.collapse)
next
  case None
  obtain e p v where n: "curlx_str_number (drop date indate) 99999999 = (e, p, v)" by (metis prod_cases3)
  then have v: "0 \<le> v" "v \<le> 99999999" using curlx_str_number_bounds [OF n] by simp_all
  define month day year off where "month = v mod 10000 div 100" and "day = v mod 100" and "year = v div 10000"
    and "off = (v div 100 * 60 + day) * 60"
  have m: "0 \<le> month" "0 \<le> day" "0 \<le> year" "year \<le> 99999999" "v \<le> 1400 \<Longrightarrow> 0 \<le> off \<and> off \<le> 52740"
    using v zone_bound [OF v(1)] by (simp_all add: month_def day_def year_def off_def pos_imp_zdiv_nonneg_iff)
  note names = month_def [symmetric] day_def [symmetric] year_def [symmetric] off_def [symmetric]
  have "w' = w \<or> v \<le> 1400 \<and> (\<exists>z\<in>{off, - off}. w' = w\<lparr>w_tzoff := z\<rparr>)
      \<or> w' = w\<lparr>w_year := year, w_mon := month - 1, w_mday := day\<rparr>
      \<or> w' = w\<lparr>w_mday := v\<rparr> \<or> (\<exists>y\<in>{v, v + 1900, v + 2000}. (y \<noteq> v \<longrightarrow> v < 100) \<and> w' = w\<lparr>w_year := y\<rparr>)"
    using assms(2) unfolding datenum_def None Let_def n option.case prod.case names
    by (simp split: if_splits)
  then show ?thesis using assms(3) v m by (auto simp: when_ok_def)
qed

lemma parse_parts_ok: "when_ok w \<Longrightarrow> when_ok (snd (parse_parts n indate date w dignext))"
proof (induction n arbitrary: date w dignext)
  case (Suc n)
  let ?d = "skip indate date"
  obtain rc1 date1 w1 where a: "datestring indate ?d w = (rc1, date1, w1)" by (metis prod_cases3)
  obtain rc2 date2 w2 dn where b: "datenum indate ?d w dignext = (rc2, date2, w2, dn)" by (metis prod_cases4)
  have "when_ok w1" using datestring_ok [OF Suc.prems, of indate ?d] a by simp
  moreover have "ISDIGIT (peek (drop ?d indate)) \<Longrightarrow> when_ok w2" using datenum_ok [OF _ b Suc.prems] .
  ultimately show ?case using Suc.prems by (simp add: Let_def a b Suc.IH)
qed simp

lemma leaps_mono: "a \<le> b \<Longrightarrow> leaps a \<le> leaps b"
proof (induction b rule: int_ge_induct)
  case (step i)
  then show ?case using leaps_step [of "i + 1"] by simp
qed simp

lemma time2epoch_range:
  assumes "1583 \<le> w_year w" "w_year w \<le> 99999999" "0 \<le> w_mon w" "w_mon w \<le> 11" "0 \<le> w_mday w" "w_mday w \<le> 31"
    "0 \<le> w_hour w" "w_hour w \<le> 23" "0 \<le> w_min w" "w_min w \<le> 59" "0 \<le> w_sec w" "w_sec w \<le> 60"
  shows "-12212640000 \<le> time2epoch w \<and> time2epoch w \<le> 3155633032780800"
proof -
  define l c where "l = leaps (if w_mon w \<le> 1 then w_year w - 1 else w_year w)" and "c = cumulative_days ! nat (w_mon w)"
  have t: "time2epoch w = 86400 * (365 * (w_year w - 1970) + l - 477 + c + w_mday w - 1) + 3600 * w_hour w + 60 * w_min w + w_sec w"
    by (simp add: time2epoch_def l_def c_def leaps_def LEAP_DAYS_BEFORE_1969_def Let_def algebra_simps)
  have e: "leaps 1582 = 383" "leaps 99999999 = 24249999" by code_simp+
  have "383 \<le> l" "l \<le> 24249999" unfolding l_def e [symmetric] using assms(1,2) by (auto intro: leaps_mono)
  moreover have "0 \<le> c \<and> c \<le> 334"
    using month_cases [OF assms(3,4)] unfolding c_def by (elim insertE emptyE) (simp_all add: cumulative_days_def)
  then have "0 \<le> c" "c \<le> 334" by simp_all
  ultimately have "-141350 \<le> 365 * (w_year w - 1970) + l - 477 + c + w_mday w - 1"
    "365 * (w_year w - 1970) + l - 477 + c + w_mday w - 1 \<le> 36523530471" using assms by (simp_all add: right_diff_distrib)
  then show ?thesis unfolding t using assms(7-12) by simp
qed

lemma datecheck_range:
  assumes "when_ok w0" "datecheck w0 = (PARSEDATE_OK, w)"
  shows "1583 \<le> w_year w \<and> w_year w \<le> 99999999 \<and> 0 \<le> w_mon w \<and> w_mon w \<le> 11 \<and> 0 \<le> w_mday w \<and> w_mday w \<le> 31
    \<and> 0 \<le> w_hour w \<and> w_hour w \<le> 23 \<and> 0 \<le> w_min w \<and> w_min w \<le> 59 \<and> 0 \<le> w_sec w \<and> w_sec w \<le> 60
    \<and> -52740 \<le> w_tzoff w \<and> w_tzoff w \<le> 52740"
  using assms by (auto simp: datecheck_def when_ok_def Let_def split: if_splits)

section \<open>Corners\<close>

text \<open>Day 0 is accepted in a pure number, and is the last day of the month before.\<close>

lemma day_zero_accepted: "curl_getdate ''20040900'' = curl_getdate ''20040831'' \<and> curl_getdate ''20040900'' = 1093910400"
  by code_simp

text \<open>A time needs neither seconds nor two digits.\<close>

lemma short_time_accepted: "curl_getdate ''20040911 8:5'' = curl_getdate ''20040911 08:05:00''"
  by code_simp

section \<open>Properties\<close>

text \<open>
  C37: The date format of HTTP is parsed exactly.  Take the calendar that starts at 1970-01-01
  and goes on day by day, with months of 28 to 31 days and a 29th of February in every year
  divisible by 4 except the centuries not divisible by 400.  The text of its \<open>n\<close>-th day at a
  time of day, with any weekday name and with names in any case, gives \<open>n\<close> days of 86400
  seconds and the seconds of the time, up to the year 9999.
\<close>

theorem http_date_exact:
  assumes "(next_day ^^ n) (1970, 0, 1) = (int y, int m, int d)" "y < 10000"
    and "is_name wd" "k < 7" "upper wd = upper (Curl_wkday ! k)" "is_name mon" "upper mon = upper (Curl_month ! m)"
    and "hh < 24" "mm < 60" "ss \<le> 60"
  shows "curl_getdate (imf_fixdate wd d mon y hh mm ss) = int (86400 * n + 3600 * hh + 60 * mm + ss)"
proof -
  note e = days_since_epoch [OF assms(1), of "int hh" "int mm" "int ss"]
  then have v: "m < 12" "0 < d" "d < 32" "1583 \<le> y" using month_days_bounds [of "int m" "int y"] by (auto simp: valid_day_def)
  show ?thesis using getdate_imf_fixdate [OF assms(3-6) v(1) assms(7) v(2-4) assms(2,8-10) refl] e by simp
qed

theorem http_date_exact_witness:
  "curl_getdate (imf_fixdate ''Sun'' 1 ''mar'' 1970 8 49 37) = int (86400 * 59 + 3600 * 8 + 60 * 49 + 37)"
proof (rule http_date_exact [where k = 6 and m = 2])
  show "(next_day ^^ 59) (1970, 0, 1) = (int 1970, int 2, int 1)" by code_simp
  show "is_name ''Sun''" "is_name ''mar''" "upper ''Sun'' = upper (Curl_wkday ! 6)" "upper ''mar'' = upper (Curl_month ! 2)"
    by code_simp+
qed simp_all

text \<open>
  C38: Whatever the text, a date that is accepted has passed the checks with a month that is an
  index of the table of days, and its value is the time plus the zone's offset, which never
  reaches the end of the 64-bit range where the code would cap it.
\<close>

theorem parsedate_in_range:
  assumes "parsedate p = (PARSEDATE_OK, t)"
  shows "\<exists>w. datecheck (snd (parse_parts 6 p 0 initwhen DATE_MDAY)) = (PARSEDATE_OK, w)
    \<and> 0 \<le> w_mon w \<and> nat (w_mon w) < length cumulative_days
    \<and> t = time2epoch w + (if w_tzoff w = -1 then 0 else w_tzoff w)
    \<and> -12212692740 \<le> t \<and> t \<le> 3155633032833540"
proof -
  define w0 where "w0 = snd (parse_parts 6 p 0 initwhen DATE_MDAY)"
  have "when_ok w0" unfolding w0_def by (rule parse_parts_ok) (simp add: when_ok_def initwhen_def)
  obtain w where w: "datecheck w0 = (PARSEDATE_OK, w)" "t = tzadjust (time2epoch w) w"
    using assms unfolding parsedate_def w0_def mktimet_def by (auto split: prod.splits if_splits)
  note r = datecheck_range [OF \<open>when_ok w0\<close> w(1)]
  have "-12212640000 \<le> time2epoch w \<and> time2epoch w \<le> 3155633032780800" using r by (intro time2epoch_range) simp_all
  moreover have "t = time2epoch w + (if w_tzoff w = -1 then 0 else w_tzoff w)"
    using calculation r unfolding w(2) tzadjust_def Let_def CURL_OFF_T_MAX_def by auto
  moreover have "nat (w_mon w) < length cumulative_days"
  proof -
    have "length cumulative_days = 12" by (simp add: cumulative_days_def)
    then show ?thesis using r by linarith
  qed
  ultimately show ?thesis using w(1) r unfolding w0_def by (intro exI [of _ w]) auto
qed

theorem parsedate_in_range_witness:
  "\<exists>w. datecheck (snd (parse_parts 6 ''20040911 23:59:60 +0200'' 0 initwhen DATE_MDAY)) = (PARSEDATE_OK, w)
    \<and> 1094940000 = time2epoch w + (if w_tzoff w = -1 then 0 else w_tzoff w)"
proof -
  have "parsedate ''20040911 23:59:60 +0200'' = (PARSEDATE_OK, 1094940000)" by code_simp
  from parsedate_in_range [OF this] show ?thesis by blast
qed

end
