(* ===== verification/Spec2Isabelle.thy ===== *)
theory Spec2Isabelle
  imports Chunk_Tool Nfs_Handler Smb3_Handler Bufq Base64 Escape Http_Chunk_End
    Multi_Correct Uint_Spbset Url_Roundtrip Parsedate_Correct
begin

text \<open>
  \<^bold>\<open>A verification of gurl.\<close>  gurl is a fork of curl whose command-line tool downloads large
  files as concurrent byte ranges and whose library speaks NFS and SMB.  This development
  models the parts that carry this logic, and the library code they stand on, and proves them
  correct.  Every definition is a translation of the C function of the same name; where a
  definition models a loop or a critical section inside a function its own text says so.

  \<^bold>\<open>The program and its theories.\<close>

  \<^item> \<open>Gurl_Prelude\<close>: bytes, C strings, character classes (\<^verbatim>\<open>lib/curl_ctype.h\<close>), result codes,
    limits, positional numerals and bit fields.  \<open>Transition\<close>: locales for step relations with
    an invariant and with a decreasing measure.

  \<^item> The chunked download, \<^verbatim>\<open>src/tool_chunked.c\<close>.  \<open>Chunk_Plan\<close>: eligibility
    (\<^verbatim>\<open>src/tool_operate.c\<close>), the metadata probe with the header scan of
    \<^verbatim>\<open>src/tool_cb_hdr.c\<close> and the options it sets in \<^verbatim>\<open>lib/setopt.c\<close>, piece size, count and
    byte ranges.  \<open>Chunk_File\<close>: the output file and the write loops.  \<open>Chunk_Pool\<close>: the shared
    data of workers, writer thread and driver, one function per critical section, and the
    interleaving of the threads as the inductive relation \<open>cstep\<close>.  \<open>Chunk_Correct\<close>: the
    invariant of \<open>cstep\<close>.  \<open>Chunk_Progress\<close>: its measure, the absence of deadlock and the bound
    on the queue.  \<open>Chunk_Tool\<close>: \<open>chunk_download\<close>, \<open>tool_chunk_download\<close> and the properties of
    the whole: the file is exact, runs end, failures are reported, memory is bounded.

  \<^item> Protocol handlers.  \<open>Fs_Transfer\<close>: a file server that answers asynchronously and in parts,
    and locales for handlers that read or write a file block by block.  \<open>Nfs_Handler\<close>
    (\<^verbatim>\<open>lib/vnfs/nfs.c\<close>) and \<open>Smb3_Handler\<close> (\<^verbatim>\<open>lib/vsmb/smb3.c\<close>): the handlers' state
    machines, each interpreted as an instance of these locales.  \<open>Curl_Range\<close>
    (\<^verbatim>\<open>lib/curl_range.c\<close>): the range option they read.

  \<^item> Transfer coding.  \<open>Http_Chunks\<close> (\<^verbatim>\<open>lib/http_chunks.c\<close>): the decoder of chunked bodies,
    its independence of how the stream is cut, its invariant and its errors.
    \<open>Http_Chunk_Encode\<close>: the encoder of the same file, on top of the buffer queue, and that
    the decoder reads back what the encoder sent.  \<open>Http_Chunk_End\<close>: whole responses with trailers against
    a reference format, and that a response cut short is an error.

  \<^item> Buffers.  \<open>Bufq\<close> (\<^verbatim>\<open>lib/bufq.c\<close>): the queue of chunks refines a byte queue, stated as the
    locale \<open>byte_fifo\<close>.  \<open>Dynbuf\<close> (\<^verbatim>\<open>lib/curlx/dynbuf.c\<close>): the growing buffer, stated as the
    locale \<open>growable\<close> its clients use.

  \<^item> Strings and encodings.  \<open>Strparse\<close> (\<^verbatim>\<open>lib/curlx/strparse.c\<close>), \<open>Mprintf\<close>
    (\<^verbatim>\<open>lib/mprintf.c\<close>, integers and strings), \<open>Strcase\<close> (\<^verbatim>\<open>lib/strcase.c\<close>,
    \<^verbatim>\<open>lib/strequal.c\<close>), \<open>Base64\<close> (\<^verbatim>\<open>lib/curlx/base64.c\<close>), \<open>Escape\<close> (\<^verbatim>\<open>lib/escape.c\<close>).

  \<^item> Timers of the multi interface.  \<open>Timeval\<close> (\<^verbatim>\<open>lib/curlx/timeval.c\<close>): time stamps and their
    differences.  \<open>Splay\<close> (\<^verbatim>\<open>lib/splay.c\<close>): the splay tree refines a stable priority queue,
    stated as the locale \<open>timer_queue\<close>.  \<open>Timers\<close> (\<^verbatim>\<open>lib/multi.c\<close>): the timeout lists of the
    transfers, the tree over them, the wake-up of expired transfers, the timeout reported to
    the application; the operations as the relation \<open>timer_step\<close> with its invariant, which
    transfers a wake-up marks, how late an expiry can be.

  \<^item> The multi handle and its transfers, \<^verbatim>\<open>lib/multi.c\<close>.  \<open>Multi_Handle\<close>: the state of a handle
    (\<^verbatim>\<open>struct Curl_multi\<close>) and what it keeps of each transfer (\<^verbatim>\<open>struct Curl_easy\<close>), adding,
    removing, parking and releasing transfers, messages and counts.  \<open>Multi_Inv\<close>: the invariant
    \<open>multi_ok\<close> that ties table, sets, timers, counters and messages to the states of the transfers, and
    rules for what may happen to the others while one is worked on (\<open>frame\<close>, \<open>reach\<close>).  \<open>Multi_Run\<close>:
    \<^verbatim>\<open>multi_runsingle\<close>, one definition per state of the machine, time limits
    (\<^verbatim>\<open>lib/connect.c\<close>); each state keeps the invariant, and a rank of the states bounds the loop.
    \<open>Multi_Perform\<close>: making a handle, notifications (\<^verbatim>\<open>lib/multi_ntfy.c\<close>), \<^verbatim>\<open>curl_multi_perform\<close>, the loop over
    expired timers, \<^verbatim>\<open>curl_multi_socket_action\<close>.  \<open>Multi_Correct\<close>: all calls as the relation \<open>multi_step\<close>, and what
    holds after any sequence of them.

  \<^item> Sets of transfer numbers.  \<open>Uint_Set\<close>: the interface of a set of 32-bit numbers that is
    walked while it changes, as the locale \<open>uint_set\<close>.  \<open>Uint_Bset\<close> (\<^verbatim>\<open>lib/uint-bset.c\<close>) and
    \<open>Uint_Spbset\<close> (\<^verbatim>\<open>lib/uint-spbset.c\<close>): the two implementations, with the bit counting
    routines they use on 64-bit words.  \<open>Uint_Tbl\<close> (\<^verbatim>\<open>lib/uint-table.c\<close>): the table from numbers
    to transfers, as the locale \<open>id_table\<close>.

  \<^item> URLs, \<^verbatim>\<open>lib/urlapi.c\<close>.  \<open>Url_Base\<close>: result codes, C string functions and buffers.
    \<open>Url_Scheme\<close> (\<^verbatim>\<open>lib/protocol.c\<close>): the schemes and their hash table.  \<open>Inet_Addr\<close>
    (\<^verbatim>\<open>lib/curlx/inet_pton.c\<close>, \<^verbatim>\<open>lib/curlx/inet_ntop.c\<close>): addresses as text.  \<open>Url_Path\<close>: dot
    segments.  \<open>Url_Host\<close>: the handle (\<^verbatim>\<open>struct Curl_URL\<close>), login, port, host names and
    addresses; \<open>Url_Ipv4\<close>: the spellings of an IPv4 address against a reference reader.
    \<open>Url_Parse\<close>: re-encoding, the parser of whole URLs and redirects.  \<open>Idn\<close> (\<^verbatim>\<open>lib/idn.c\<close>):
    international names over libidn2.  \<open>Url_Api\<close>: the calls on handles.  \<open>Url_Wf\<close>: the
    invariant \<open>wf_url\<close> of all handles any sequence of calls can produce.  \<open>Url_Correct\<close>: origins,
    failed calls, parts set and read back, and corners of the API.  \<open>Url_Roundtrip\<close>: printing and
    parsing a whole URL.

  \<^item> Dates, \<^verbatim>\<open>lib/parsedate.c\<close>.  \<open>Parsedate\<close>: the tables of names and zones, the parser and the
    conversion to seconds, a reference calendar, the parts of a date as HTTP writes it.
    \<open>Parsedate_Correct\<close>: dates of HTTP are days since 1970 of that calendar, the ranges of all
    results, and corners of the parser.

  This theory joins the chunked download to the handlers: the range string a worker prints is
  parsed back to the piece, and the NFS handler delivers the piece's bytes for it.

  \<^bold>\<open>How the environment enters.\<close>  System calls, allocators, threads and libraries are arguments:
  a list of return values of \<open>write\<close>, a list of allocation outcomes, a reallocator with its
  documented contract, a schedule of server answers.  To the threads of the chunked download the server is a function \<open>reply\<close> from a range
  to any bytes, since the code checks neither the status nor the length of an answer; that it honours ranges is the hypothesis
  \<open>serves\<close>, where a theorem needs it.  What an application does in its notification callbacks is a list of calls of the library.  The URL code
  takes a memory that says which block sizes are granted, the schemes the build implements and, if
  the build has it, the IDN library.  What is
  assumed of them is a named predicate (\<open>realloc_ok\<close>, \<open>serves\<close>, \<open>env_ok\<close>, \<open>perform_env_ok\<close>, the locale assumptions).

  \<^bold>\<open>Bounds and fuel.\<close>  Loops over buffers are total functions with a measure.  Loops that wait for
  the environment (\<open>write_loop\<close>, \<open>bufq_pass_loop\<close>, \<open>drive\<close>) consume a list of answers and
  return \<open>None\<close> when it runs out; the theorems state how many answers are enough.  A walk over a set
  (\<open>walk\<close>, \<open>for_each\<close>, \<open>run_dirty_loop\<close>, \<open>pending_scan\<close>) and the wake-up of expired transfers carry fuel: one
  round per number of 32 bits is enough for a walk, one round per timer that is due for a wake-up.  The
  state machine of a transfer takes one answer of its environment per round, and 17 answers, with 17 more
  for each that sends it back, are enough.  The threads are
  a relation, with a measure that bounds every run.  Integers are \<open>nat\<close> or \<open>int\<close> with the width
  written out where the source can wrap (the piece count, \<open>curl_off_t\<close> parsing and printing).

  \<^bold>\<open>Not modelled.\<close>  Connections, connection filters and sockets, which answer the state machine of a
  transfer as its environment; polling, options and cleanup of a multi handle, the queue behind
  the notifications, and the transfers that DNS-over-HTTPS adds and removes (the model is the build without it); TLS, name resolution, the other protocols, the option tables, the tool's
  command line, the format-string parser and floating-point output, and the progress display: system calls,
  third-party libraries, or protocol conversations that stand on them.  Of the URL code the variants for
  Windows and macOS, and of the date code the variants for a \<open>time_t\<close> of 32 bits or without sign.
\<close>

section \<open>A piece of the pool on its way to the server\<close>

lemma piece_last:
  assumes "pool_ok p" and "i < pn p"
  shows "chunk_start p i \<le> chunk_last p i" and "chunk_last p i < ptotal p"
    and "chunk_stop p i = Suc (chunk_last p i)"
  using chunk_start_less [OF assms] assms
  by (auto simp: chunk_last_def chunk_stop_def pool_ok_def Let_def)

text \<open>
  C8: the range a worker asks for is the range the protocol handler sees.  For every piece of
  a well-formed pool the string that \<open>chunk_fetch_one\<close> prints into \<open>CURLOPT_RANGE\<close> is
  parsed by \<open>Curl_range\<close> to the first byte of the piece and its exact length.
\<close>

theorem piece_range_roundtrip:
  assumes "pool_ok p" and "i < pn p" and "int (ptotal p) \<le> CURL_OFF_T_MAX"
    and "use_range d" and "range_str d = Some (chunk_range_string (chunk_start p i) (chunk_last p i))"
  shows "Curl_range d = (CURLE_OK, d\<lparr>maxdownload := int (chunk_stop p i) - int (chunk_start p i),
      resume_from := int (chunk_start p i)\<rparr>)"
  using Curl_range_chunk [OF assms(4,5) piece_last(1) [OF assms(1,2)]] piece_last [OF assms(1,2)] assms(3)
  by simp

theorem piece_range_roundtrip_witness:
  "Curl_range \<lparr>use_range = True,
       range_str = Some (chunk_range_string (chunk_start (chunk_pool_init (2 ^ 27) 0) 1)
          (chunk_last (chunk_pool_init (2 ^ 27) 0) 1)), resume_from = 0, maxdownload = -1\<rparr>
     = (CURLE_OK, \<lparr>use_range = True,
       range_str = Some (chunk_range_string (chunk_start (chunk_pool_init (2 ^ 27) 0) 1)
          (chunk_last (chunk_pool_init (2 ^ 27) 0) 1)), resume_from = 67108864, maxdownload = 67108864\<rparr>)"
proof -
  let ?p = "chunk_pool_init (2 ^ 27) 0"
  have p: "pool_ok ?p" by (rule pool_ok_init) simp_all
  have v: "pn ?p = 2" "ptotal ?p = 2 ^ 27" "chunk_start ?p 1 = 67108864" "chunk_stop ?p 1 = 134217728"
    by (simp_all add: chunk_pool_init_def chunk_size_for_def CHUNK_TARGET_def CHUNK_STREAMS_def CHUNK_MIN_def
        CHUNK_MAX_def chunk_start_def chunk_stop_def chunk_last_def Let_def)
  show ?thesis
    using piece_range_roundtrip [OF p, of 1 "\<lparr>use_range = True, range_str = Some (chunk_range_string
        (chunk_start ?p 1) (chunk_last ?p 1)), resume_from = 0, maxdownload = -1\<rparr>"] v
    by (simp add: CURL_OFF_T_MAX_def)
qed

text \<open>
  C9: the NFS handler serves a piece.  Given the range string of a piece, and a file server
  that answers in any order of waits and with reads as short as one byte, \<open>nfs_do\<close> followed
  by rounds of \<open>nfs_doing\<close> ends with \<open>CURLE_OK\<close> and has delivered exactly the bytes of the
  piece, which is what the worker's write callback relies on.
\<close>

theorem nfs_serves_piece:
  assumes "pool_ok p" and "i < pn p" and "int (ptotal p) \<le> CURL_OFF_T_MAX"
    and "use_range (rs d)" and "range_str (rs d) = Some (chunk_range_string (chunk_start p i) (chunk_last p i))"
    and "\<not> st_upload d" and "\<not> no_body d" and "rounds ks > pchunk_size p + 2"
  shows "\<exists>req d1 d2. nfs_do True True True maxio (Some c) d = (CURLE_OK, Some req, d1)
    \<and> drive (nfs_doing_on c) (k # ks) f req d1 None = Some (CURLE_OK, f, d2)
    \<and> body d2 = body d @ slice f (chunk_start p i) (chunk_stop p i)"
proof -
  have "chunk_last p i - chunk_start p i \<le> pchunk_size p"
    by (auto simp: chunk_last_def Let_def)
  then show ?thesis
    using nfs_piece_download [OF assms(6,7,4,5) piece_last(1) [OF assms(1,2)], of ks maxio c k f]
      piece_last [OF assms(1,2)] assms(3,8) by simp
qed

definition demo_pool :: chunk_pool where
  "demo_pool = \<lparr>pnext = 0, pn = 2, pbase = 0, pchunk_size = 2, ptotal = 4, pfinished = 0, presult = CURLE_OK\<rparr>"

definition demo_piece_data :: easy_data where
  "demo_piece_data = demo_data\<lparr>st_upload := False, rs := \<lparr>use_range = True,
     range_str = Some (chunk_range_string (chunk_start demo_pool 1) (chunk_last demo_pool 1)),
     resume_from = 0, maxdownload = -1\<rparr>\<rparr>"

theorem nfs_serves_piece_witness:
  "\<exists>req d1 d2. nfs_do True True True (\<lambda>_. 0) (Some demo_conn) demo_piece_data = (CURLE_OK, Some req, d1)
    \<and> drive (nfs_doing_on demo_conn) (None # replicate 5 (Some 0)) ''gurl'' req d1 None = Some (CURLE_OK, ''gurl'', d2)
    \<and> body d2 = ''rl''"
proof -
  have "slice ''gurl'' (chunk_start demo_pool 1) (chunk_stop demo_pool 1) = ''rl''"
    by (simp add: demo_pool_def chunk_start_def chunk_stop_def chunk_last_def slice_def)
  moreover have "rounds (replicate 5 (Some 0)) > pchunk_size demo_pool + 2"
    by (simp add: rounds_def demo_pool_def)
  moreover have "pool_ok demo_pool" "1 < pn demo_pool" "int (ptotal demo_pool) \<le> CURL_OFF_T_MAX"
    by (simp_all add: demo_pool_def pool_ok_def CURL_OFF_T_MAX_def)
  moreover have "body demo_piece_data = []" "use_range (rs demo_piece_data)"
      "range_str (rs demo_piece_data) = Some (chunk_range_string (chunk_start demo_pool 1) (chunk_last demo_pool 1))"
      "\<not> st_upload demo_piece_data" "\<not> no_body demo_piece_data"
    by (simp_all add: demo_piece_data_def demo_data_def)
  ultimately show ?thesis
    using nfs_serves_piece [of demo_pool 1 demo_piece_data "replicate 5 (Some 0)" "\<lambda>_. 0" demo_conn None "''gurl''"]
    by simp
qed

end
